(* ===== verification/Prelude.thy ===== *)
theory Prelude imports "HOL-Library.Word" "HOL-Library.Monad_Syntax" begin

section \<open>Prelude: machine types, byte buffers and shared automation\<close>

text \<open>
  The names every component shares: the C integer types of the target (a 32-bit little-endian
  ARM: \<open>unsigned char\<close>, \<open>unsigned short\<close> and \<open>unsigned int\<close>/\<open>unsigned long\<close> are 8, 16 and
  32 bits), byte buffers as lists of bytes, and reads of a buffer that are \<open>None\<close> outside it.
  A read or write outside a C object is undefined behaviour, so \<open>None\<close> in this development
  always means "the C code has left its defined behaviour here", never an error return.
  Two collections of facts carry the component proofs: \<open>buf_simps\<close> (reads of buffers) and
  \<open>word_nat\<close> (words read as natural numbers).
\<close>

unbundle bit_operations_syntax

named_theorems buf_simps "reads and writes of byte buffers"
named_theorems word_nat "words read as natural numbers"

type_synonym u8 = "8 word"
type_synonym u16 = "16 word"
type_synonym u32 = "32 word"
type_synonym bytes = "u8 list"

subsection \<open>C signed integers\<close>

text \<open>A C \<open>int\<close> is an \<open>int\<close> in the range below; signed overflow is undefined, hence \<open>None\<close>.\<close>

definition INT_MAX :: int where "INT_MAX = 2147483647"
definition INT_MIN :: int where "INT_MIN = - 2147483648"

definition c_int :: "int \<Rightarrow> int option" where
  "c_int i = (if INT_MIN \<le> i \<and> i \<le> INT_MAX then Some i else None)"

lemma c_int_Some_iff: "c_int i = Some j \<longleftrightarrow> j = i \<and> INT_MIN \<le> i \<and> i \<le> INT_MAX"
  by (auto simp: c_int_def)

lemma c_int_in_range: "\<lbrakk>INT_MIN \<le> i; i \<le> INT_MAX\<rbrakk> \<Longrightarrow> c_int i = Some i"
  by (simp add: c_int_def)

subsection \<open>Decimal numbers\<close>

text \<open>\<open>atoi\<close>: white space, a sign, decimal digits; a value that is no \<open>int\<close> is undefined.\<close>

definition is_space :: "char \<Rightarrow> bool" where
  "is_space c \<longleftrightarrow> c = CHR '' '' \<or> (9 \<le> (of_char c :: nat) \<and> (of_char c :: nat) \<le> 13)"

definition is_digit :: "char \<Rightarrow> bool" where
  "is_digit c \<longleftrightarrow> 48 \<le> (of_char c :: nat) \<and> (of_char c :: nat) \<le> 57"

definition digits_value :: "string \<Rightarrow> int" where
  "digits_value cs = foldl (\<lambda>n c. 10 * n + (of_char c - 48)) 0 (takeWhile is_digit cs)"

definition atoi :: "string \<Rightarrow> int option" where
  "atoi cs = (case dropWhile is_space cs of
      [] \<Rightarrow> Some 0
    | c # r \<Rightarrow> if c = CHR ''-'' then c_int (- digits_value r)
               else if c = CHR ''+'' then c_int (digits_value r) else c_int (digits_value (c # r)))"

text \<open>Decimal notation, and \<open>atoi\<close> on it.\<close>

definition digit :: "nat \<Rightarrow> char" where "digit d = char_of (48 + d)"

fun show_nat :: "nat \<Rightarrow> string" where
  "show_nat n = (if n < 10 then [digit n] else show_nat (n div 10) @ [digit (n mod 10)])"

declare show_nat.simps [simp del]

lemma of_char_digit: "d < 10 \<Longrightarrow> (of_char (digit d) :: nat) = 48 + d"
  by (simp add: digit_def of_char_of)

lemma of_char_digit_int: "d < 10 \<Longrightarrow> (of_char (digit d) :: int) = 48 + int d"
  using of_char_digit [of d] by (metis of_nat_of_char of_nat_add of_nat_numeral)

lemma show_nat_digits: "\<forall>x\<in>set (show_nat n). is_digit x"
  by (induction n rule: show_nat.induct)
    (subst show_nat.simps, auto simp: is_digit_def of_char_digit)

lemma show_nat_nonempty: "show_nat n \<noteq> []"
  by (subst show_nat.simps) simp

lemma digits_value_show: "digits_value (show_nat n) = int n"
proof (induction n rule: show_nat.induct)
  case (1 n)
  have t: "takeWhile is_digit (show_nat m) = show_nat m" for m
    using show_nat_digits by (simp add: takeWhile_eq_all_conv)
  show ?case
  proof (cases "n < 10")
    case True
    then show ?thesis
      by (subst show_nat.simps) (simp add: digits_value_def is_digit_def of_char_digit of_char_digit_int)
  next
    case False
    then have "show_nat n = show_nat (n div 10) @ [digit (n mod 10)]" by (subst show_nat.simps) simp
    then have "digits_value (show_nat n) = 10 * digits_value (show_nat (n div 10)) + int (n mod 10)"
      unfolding digits_value_def t by (simp add: of_char_digit_int)
    then show ?thesis using 1 [OF False] by simp presburger
  qed
qed

lemma atoi_show_nat: "atoi (show_nat n) = c_int (int n)"
proof -
  obtain x xs where x: "show_nat n = x # xs" using show_nat_nonempty [of n] by (cases "show_nat n") auto
  then have "is_digit x" using show_nat_digits [of n] by simp
  then have "\<not> is_space x" "x \<noteq> CHR ''-''" "x \<noteq> CHR ''+''"
    by (auto simp: is_digit_def is_space_def)
  then show ?thesis using digits_value_show [of n] by (simp add: atoi_def x)
qed

lemma not_in_show_nat: "\<not> is_digit x \<Longrightarrow> x \<notin> set (show_nat n)"
  using show_nat_digits by blast

subsection \<open>Byte buffers\<close>

definition rd8 :: "bytes \<Rightarrow> nat \<Rightarrow> u8 option" where
  "rd8 m i = (if i < length m then Some (m ! i) else None)"

definition rdn :: "bytes \<Rightarrow> nat \<Rightarrow> nat \<Rightarrow> bytes option" where
  "rdn m i n = (if i + n \<le> length m then Some (take n (drop i m)) else None)"

text \<open>The 16-bit value a little-endian host reads from two bytes, low address first.\<close>

definition le16 :: "u8 \<Rightarrow> u8 \<Rightarrow> u16" where
  "le16 lo hi = ucast lo OR push_bit 8 (ucast hi)"

definition rd16 :: "bytes \<Rightarrow> nat \<Rightarrow> u16 option" where
  "rd16 m i = (if i + 1 < length m then Some (le16 (m ! i) (m ! (i + 1))) else None)"

text \<open>\<open>ntohs\<close>/\<open>htons\<close> on a little-endian host exchange the two bytes of their argument.\<close>

definition swap16 :: "u16 \<Rightarrow> u16" where
  "swap16 w = push_bit 8 w OR drop_bit 8 w"

definition lo8 :: "u16 \<Rightarrow> u8" where "lo8 w = ucast w"
definition hi8 :: "u16 \<Rightarrow> u8" where "hi8 w = ucast (drop_bit 8 w)"

text \<open>Writing \<open>bs\<close> over the bytes of \<open>m\<close> from \<open>i\<close> on (\<open>memcpy (m + i, bs, n)\<close>).\<close>

definition wrn :: "bytes \<Rightarrow> nat \<Rightarrow> bytes \<Rightarrow> bytes option" where
  "wrn m i bs = (if i + length bs \<le> length m
     then Some (take i m @ bs @ drop (i + length bs) m) else None)"

lemma rd8_in [buf_simps]: "i < length m \<Longrightarrow> rd8 m i = Some (m ! i)"
  by (simp add: rd8_def)

lemma rdn_in [buf_simps]: "i + n \<le> length m \<Longrightarrow> rdn m i n = Some (take n (drop i m))"
  by (simp add: rdn_def)

lemma rd16_in [buf_simps]: "i + 1 < length m \<Longrightarrow> rd16 m i = Some (le16 (m ! i) (m ! (i + 1)))"
  by (simp add: rd16_def)

lemma rdn_Some: "rdn m i n = Some bs \<longleftrightarrow> i + n \<le> length m \<and> bs = take n (drop i m)"
  by (auto simp: rdn_def)

lemma rd8_Some: "rd8 m i = Some b \<longleftrightarrow> i < length m \<and> b = m ! i"
  by (auto simp: rd8_def)

lemma wrn_in [buf_simps]:
  "i + length bs \<le> length m \<Longrightarrow> wrn m i bs = Some (take i m @ bs @ drop (i + length bs) m)"
  by (simp add: wrn_def)

lemma length_wrn: "wrn m i bs = Some m' \<Longrightarrow> length m' = length m"
  by (auto simp: wrn_def split: if_splits)

subsection \<open>Halves of 16-bit values\<close>

lemma unat_ucast_mod: "unat (ucast (w :: 'a::len word) :: 'b::len word) = unat w mod 2 ^ LENGTH('b)"
  by (simp add: unsigned_ucast_eq take_bit_eq_mod)

lemma unat_of_nat32 [word_nat]: "n < 4294967296 \<Longrightarrow> unat (word_of_nat n :: u32) = n"
  by (simp add: unsigned_of_nat take_bit_nat_eq_self)

lemma unat_of_int32 [word_nat]: "0 \<le> i \<Longrightarrow> i < 4294967296 \<Longrightarrow> unat (word_of_int i :: u32) = nat i"
  by (simp add: unsigned_of_int take_bit_int_eq_self)

lemma unat_less32: "unat (w :: u32) < 4294967296"
  using unsigned_less [of w, where 'a = nat] by simp

lemma unat_drop_bit [word_nat]: "unat (drop_bit n (w :: 'a::len word)) = unat w div 2 ^ n"
  by (subst unat_drop_bit_eq) (simp only: drop_bit_eq_div)

lemma unat_take_bit [word_nat]: "unat (take_bit n (w :: 'a::len word)) = unat w mod 2 ^ n"
  by (subst unsigned_take_bit_eq) (simp only: take_bit_eq_mod)

lemma unat_and_mask [word_nat]: "unat ((w :: 'a::len word) AND mask n) = unat w mod 2 ^ n"
  by (simp only: take_bit_eq_mask [symmetric] unat_take_bit)

lemma unat_le16 [word_nat]: "unat (le16 lo hi) = unat lo + 256 * unat hi"
proof -
  have l: "unat lo < 2 ^ 8" and h: "unat hi < 2 ^ 8"
    using unsigned_less [of lo] unsigned_less [of hi] by simp_all
  have "ucast lo AND push_bit 8 (ucast hi) = (0 :: u16)"
    by (rule bit_word_eqI) (auto simp: bit_simps dest: bit_imp_le_length)
  then have "le16 lo hi = ucast lo + push_bit 8 (ucast hi)"
    by (simp add: le16_def disjunctive_add_eq_or)
  moreover have "unat (push_bit 8 (ucast hi :: u16)) = 256 * unat hi"
    using h by (simp add: push_bit_eq_mult unat_word_ariths unat_ucast_mod)
  moreover have "unat (ucast lo :: u16) = unat lo"
    using l by (simp add: unat_ucast_mod)
  ultimately show ?thesis
    using l h by (simp add: unat_word_ariths)
qed

lemma le16_lo8_hi8 [simp]: "le16 (lo8 w) (hi8 w) = w"
  by (rule bit_word_eqI) (auto simp: le16_def lo8_def hi8_def bit_simps dest: bit_imp_le_length)

lemma lo8_le16 [simp]: "lo8 (le16 lo hi) = lo"
  by (rule bit_word_eqI) (auto simp: le16_def lo8_def bit_simps dest: bit_imp_le_length)

lemma hi8_le16 [simp]: "hi8 (le16 lo hi) = hi"
  by (rule bit_word_eqI) (auto simp: le16_def hi8_def bit_simps dest: bit_imp_le_length)

lemma le16_eq_iff: "le16 lo hi = w \<longleftrightarrow> lo = lo8 w \<and> hi = hi8 w"
  by (metis le16_lo8_hi8 lo8_le16 hi8_le16)

lemma swap16_swap16 [simp]: "swap16 (swap16 w) = w"
  by (rule bit_word_eqI) (auto simp: swap16_def bit_simps dest: bit_imp_le_length)

lemma swap16_le16: "swap16 (le16 a b) = le16 b a"
  by (rule bit_word_eqI) (auto simp: swap16_def le16_def bit_simps dest: bit_imp_le_length)

lemma take_drop_join: "take n (drop i xs) @ drop (i + n) xs = drop i xs"
  by (metis add.commute append_take_drop_id drop_drop)

subsection \<open>Words in memory\<close>

text \<open>The word a little-endian host loads from four bytes, and the bytes it stores.\<close>

definition le32 :: "u8 \<Rightarrow> u8 \<Rightarrow> u8 \<Rightarrow> u8 \<Rightarrow> u32" where
  "le32 a b c d = ucast a OR push_bit 8 (ucast b) OR push_bit 16 (ucast c) OR push_bit 24 (ucast d)"

definition le32_bytes :: "u32 \<Rightarrow> bytes" where
  "le32_bytes w = [ucast w, ucast (drop_bit 8 w), ucast (drop_bit 16 w), ucast (drop_bit 24 w)]"

lemma le32_byte:
  "(ucast (le32 a b c d) :: u8) = a" "(ucast (drop_bit 8 (le32 a b c d)) :: u8) = b"
  "(ucast (drop_bit 16 (le32 a b c d)) :: u8) = c" "(ucast (drop_bit 24 (le32 a b c d)) :: u8) = d"
  by (rule bit_word_eqI, auto simp: le32_def bit_simps dest: bit_imp_le_length)+

lemma le32_bytes_le32 [simp]: "le32_bytes (le32 a b c d) = [a, b, c, d]"
  by (simp add: le32_bytes_def le32_byte)

lemma le32_load [simp]: "le32 (ucast w) (ucast (drop_bit 8 w)) (ucast (drop_bit 16 w)) (ucast (drop_bit 24 w)) = w"
  by (rule bit_word_eqI, rename_tac n, case_tac "n < 8"; case_tac "n < 16"; case_tac "n < 24";
      auto simp: le32_def bit_simps)

lemma length_le32_bytes [simp]: "length (le32_bytes w) = 4"
  by (simp add: le32_bytes_def)

lemma le32_bytes_inj: "le32_bytes v = le32_bytes w \<longleftrightarrow> v = w"
  unfolding le32_bytes_def by (metis le32_load list.inject)

subsection \<open>Short lists\<close>

lemma list6: "length xs = 6 \<Longrightarrow> \<exists>a b c d e f. xs = [a, b, c, d, e, f]"
  by (auto simp: numeral_eq_Suc length_Suc_conv)

lemma list4: "length xs = 4 \<Longrightarrow> \<exists>a b c d. xs = [a, b, c, d]"
  by (auto simp: numeral_eq_Suc length_Suc_conv)

end
