(* ===== verification/Checksum.thy ===== *)
theory Checksum imports Prelude begin

section \<open>The Internet checksum: reference, contract and shared lemmas\<close>

text \<open>
  Several programs of the repository compute the Internet checksum of RFC 1071, each with its
  own loop (the packet filter of the server, the ping client). This theory holds what they
  share: the reference definition with the end-around carry taken at every addition
  (\<open>rfc1071\<close>), the arithmetic that lets an implementation defer the carries to the end, and
  the contract \<open>inet_checksum\<close> with the client lemma that a packet whose checksum field is filled
  in is accepted by the same checksum.
\<close>

subsection \<open>Reference definition\<close>

text \<open>The 16-bit words of a buffer, as a little-endian host reads them; an odd last byte is
  padded with a zero byte behind it.\<close>

fun words16 :: "bytes \<Rightarrow> nat list" where
  "words16 (a # b # r) = unat (le16 a b) # words16 r"
| "words16 [a] = [unat a]"
| "words16 [] = []"

definition oadd :: "nat \<Rightarrow> nat \<Rightarrow> nat" where
  "oadd a b = (if a + b > 65535 then a + b - 65535 else a + b)"

definition rfc1071 :: "bytes \<Rightarrow> u16" where
  "rfc1071 bs = NOT (word_of_nat (foldl oadd 0 (words16 bs)))"

subsection \<open>Deferred carries\<close>

text \<open>The one's complement sum in closed form: the residue modulo 65535, with 65535 for the
  nonzero multiples.\<close>

definition osum :: "nat \<Rightarrow> nat" where
  "osum s = (if s = 0 then 0 else (s - 1) mod 65535 + 1)"

definition bsum :: "bytes \<Rightarrow> nat" where
  "bsum bs = sum_list (words16 bs)"

lemma osum_0 [simp]: "osum 0 = 0" and osum_Suc: "osum (Suc m) = m mod 65535 + 1"
  by (simp_all add: osum_def)

lemma u16_le: "unat (w :: u16) \<le> 65535"
  using unsigned_less [of w, where 'a = nat] by simp

lemma u8_le: "unat (b :: u8) \<le> 255"
  using unsigned_less [of b, where 'a = nat] by simp

lemma osum_le: "osum s \<le> 65535"
  by (cases s) (use mod_less_divisor [of 65535] in \<open>auto simp: osum_Suc Suc_le_eq\<close>)

lemma mod_65535_sum: "r < 65535 \<Longrightarrow> w \<le> 65535 \<Longrightarrow>
    (r + w) mod 65535 = (if 65535 \<le> r + w then r + w - 65535 else r + w)"
  for r w :: nat
  by (simp add: le_mod_geq)

lemma oadd_osum: "w \<le> 65535 \<Longrightarrow> oadd (osum s) w = osum (s + w)"
proof (cases s)
  case 0
  assume "w \<le> 65535"
  with 0 show ?thesis by (cases w) (auto simp: oadd_def osum_Suc)
next
  case (Suc m)
  assume w: "w \<le> 65535"
  define r where "r = m mod 65535"
  have r: "r < 65535" by (simp add: r_def)
  have "(m + w) mod 65535 = (r + w) mod 65535" by (simp add: r_def mod_add_left_eq)
  also have "\<dots> = (if 65535 \<le> r + w then r + w - 65535 else r + w)"
    using r w by (rule mod_65535_sum)
  finally show ?thesis
    using Suc r by (simp add: oadd_def osum_Suc r_def [symmetric]) arith
qed

lemma words16_le: "w \<in> set (words16 bs) \<Longrightarrow> w \<le> 65535"
proof (induction bs rule: words16.induct)
  case (1 a b r)
  then show ?case
    using u16_le [of "le16 a b"] by auto
next
  case (2 a)
  then show ?case
    using u8_le [of a] by auto
qed simp

lemma foldl_oadd: "(\<And>w. w \<in> set ws \<Longrightarrow> w \<le> 65535) \<Longrightarrow>
    foldl oadd (osum s) ws = osum (s + sum_list ws)"
  by (induction ws arbitrary: s) (simp_all add: oadd_osum add.assoc)

lemma rfc1071_osum: "rfc1071 bs = NOT (word_of_nat (osum (bsum bs)))"
proof -
  have "foldl oadd (osum 0) (words16 bs) = osum (0 + bsum bs)"
    unfolding bsum_def by (rule foldl_oadd) (rule words16_le)
  then show ?thesis by (simp add: rfc1071_def osum_def [of 0])
qed

lemma bsum_le: "bsum bs \<le> 65535 * ((length bs + 1) div 2)"
proof (induction bs rule: words16.induct)
  case (1 a b r)
  then show ?case
    using u16_le [of "le16 a b"] by (simp add: bsum_def)
next
  case (2 a)
  then show ?case
    using u8_le [of a] by (simp add: bsum_def)
qed (simp add: bsum_def)

text \<open>Folding a 32-bit sum twice, as every implementation does, gives the one's complement
  sum.\<close>

lemma osum_split:
  assumes "q < 65536" and "r < 65536"
  shows "osum (65536 * q + r) = (if q + r \<le> 65535 then q + r else q + r - 65535)"
proof (cases "q + r")
  case 0
  then show ?thesis by simp
next
  case (Suc m)
  then have "65536 * q + r = Suc (65535 * q + m)" by simp
  then have "osum (65536 * q + r) = osum (Suc (65535 * q + m))" by (simp only:)
  also have "\<dots> = m mod 65535 + 1" by (simp add: osum_Suc)
  finally have "osum (65536 * q + r) = m mod 65535 + 1" .
  moreover have "m mod 65535 = (if m \<le> 65534 then m else m - 65535)"
    using Suc assms by (simp add: le_mod_geq)
  ultimately show ?thesis using Suc by simp arith
qed

lemma fold_twice:
  assumes "s < 4294967296" and "t = s div 65536 + s mod 65536"
  shows "(t + t div 65536) mod 65536 = osum s"
proof -
  define q r where "q = s div 65536" and "r = s mod 65536"
  have qr: "q < 65536" "r < 65536" and s: "s = 65536 * q + r"
    using assms(1) by (simp_all add: q_def r_def less_mult_imp_div_less)
  have t: "t = q + r" using assms(2) by (simp add: q_def r_def)
  have "(t + t div 65536) mod 65536 = (if t \<le> 65535 then t else t - 65535)"
  proof (cases "t \<le> 65535")
    case False
    then have "t div 65536 = 1" using qr t by (simp add: div_nat_eqI)
    with False qr t show ?thesis by (simp add: le_mod_geq)
  qed simp
  then show ?thesis using qr s t by (simp add: osum_split)
qed

subsection \<open>Filling in the checksum field\<close>

lemma bsum_update:
  assumes "even k" and "Suc k < length bs" and "bs ! k = 0" and "bs ! Suc k = 0"
  shows "bsum (bs[k := a, Suc k := b]) = bsum bs + unat (le16 a b)"
  using assms
proof (induction bs arbitrary: k rule: words16.induct)
  case (1 x y r)
  show ?case
  proof (cases k)
    case 0
    with "1.prems" show ?thesis by (simp add: bsum_def le16_def)
  next
    case (Suc k')
    then obtain j where j: "k = Suc (Suc j)" using "1.prems"(1) by (cases k') auto
    then show ?thesis
      using "1.IH" [of j] "1.prems" by (simp add: bsum_def)
  qed
qed simp_all

lemma osum_complement: "osum (s + (65535 - osum s)) = 65535"
proof (cases s)
  case (Suc m)
  define q r where "q = m div 65535" and "r = m mod 65535"
  have r: "r < 65535" and m: "m = 65535 * q + r"
    by (simp_all add: q_def r_def)
  have "s + (65535 - osum s) = Suc (65535 * q + 65534)"
    using Suc m r by (simp add: osum_Suc r_def [symmetric])
  then have "osum (s + (65535 - osum s)) = osum (Suc (65535 * q + 65534))" by (simp only:)
  also have "\<dots> = 65535" by (subst osum_Suc) simp
  finally show ?thesis .
qed (simp add: osum_def)

lemma unat_not_u16:
  assumes "n \<le> 65535"
  shows "unat (NOT (word_of_nat n) :: u16) = 65535 - n"
proof -
  have "unat (NOT w :: u16) = 65535 - unat w" for w
  proof -
    have "unat (- 1 - w) = unat (- 1 :: u16) - unat w"
      by (rule unat_sub) (simp add: word_le_nat_alt u16_le unsigned_minus_1_eq_mask mask_eq_exp_minus_1)
    moreover have "NOT w = - 1 - w"
      unfolding not_eq_complement by (simp only: diff_conv_add_uminus add.commute)
    ultimately show ?thesis
      by (simp add: unsigned_minus_1_eq_mask mask_eq_exp_minus_1)
  qed
  moreover have "unat (word_of_nat n :: u16) = n"
    using assms by (simp add: unsigned_of_nat take_bit_nat_eq_self)
  ultimately show ?thesis by simp
qed

lemma rfc1071_filled:
  assumes "even k" and "Suc k < length bs" and "bs ! k = 0" and "bs ! Suc k = 0"
  defines "c \<equiv> rfc1071 bs"
  shows "rfc1071 (bs[k := lo8 c, Suc k := hi8 c]) = 0"
proof -
  have "unat c = 65535 - osum (bsum bs)"
    unfolding c_def rfc1071_osum by (rule unat_not_u16) (rule osum_le)
  then have "osum (bsum bs + unat c) = 65535" by (simp add: osum_complement)
  then have "osum (bsum (bs[k := lo8 c, Suc k := hi8 c])) = 65535"
    using assms(1-4) by (simp add: bsum_update)
  then show ?thesis by (simp add: rfc1071_osum)
qed

subsection \<open>The contract of a checksum routine\<close>

text \<open>What the packet builders rely on: on a buffer of at most 64 KiB the routine computes the
  RFC 1071 checksum.\<close>

locale inet_checksum =
  fixes ck :: "bytes \<Rightarrow> u16"
  assumes ck_rfc1071: "length bs \<le> 65536 \<Longrightarrow> ck bs = rfc1071 bs"
begin

text \<open>A receiver that runs the routine over the finished packet gets zero.\<close>

lemma filled_verifies:
  assumes "length bs \<le> 65536" and "even k" and "Suc k < length bs"
    and "bs ! k = 0" and "bs ! Suc k = 0"
  shows "ck (bs[k := lo8 (ck bs), Suc k := hi8 (ck bs)]) = 0"
  using rfc1071_filled [OF assms(2-5)] assms(1) by (simp add: ck_rfc1071)

text \<open>The checksum does not depend on how the sender orders the 16-bit words.\<close>

lemma permuted_words:
  assumes "length as \<le> 65536" and "length bs \<le> 65536" and "bsum as = bsum bs"
  shows "ck as = ck bs"
  using assms by (simp add: ck_rfc1071 rfc1071_osum)

end

end
