(* ===== verification/Net_Types.thy ===== *)
theory Net_Types imports Prelude begin

section \<open>Protocol numbers and header layouts\<close>

text \<open>
  The constants of \<open>git/ankh/lib/analyzer/etypes.h\<close> and the enumerations and packed structures of
  \<open>git/ankh/include/packet_analyzer.h\<close>. The C code casts byte pointers to these structures, so a
  structure is modelled by its size and the offsets of the fields the code reads, as the target's
  compiler lays it out: little-endian, 4-byte \<open>int\<close> and pointers. Multi-byte fields are read with
  \<open>rd16\<close> and converted by \<open>swap16\<close> (\<open>ntohs\<close>) where the code does so.
\<close>

subsection \<open>Protocol numbers\<close>

definition ETHERTYPE_OFFSET :: nat where "ETHERTYPE_OFFSET = 14"
definition FILTER_IPV4 :: u8 where "FILTER_IPV4 = 0x04"
definition ETHERTYPE_IP :: u16 where "ETHERTYPE_IP = 0x0800"
definition ETHERTYPE_ARP :: u16 where "ETHERTYPE_ARP = 0x0806"

definition arp_op_request :: u16 where "arp_op_request = 1"
definition arp_op_reply :: u16 where "arp_op_reply = 2"
definition arp_op_rarp_request :: u16 where "arp_op_rarp_request = 3"
definition arp_op_rarp_reply :: u16 where "arp_op_rarp_reply = 4"

definition ip_proto_icmp :: u8 where "ip_proto_icmp = 1"
definition ip_proto_tcp :: u8 where "ip_proto_tcp = 6"
definition ip_proto_udp :: u8 where "ip_proto_udp = 17"

definition udp_port_reserved :: u16 where "udp_port_reserved = 0"
definition udp_port_unkown :: u16 where "udp_port_unkown = 1"
definition udp_port_echo :: u16 where "udp_port_echo = 7"
definition udp_port_dns_srv :: u16 where "udp_port_dns_srv = 53"
definition udp_port_bootp_srv :: u16 where "udp_port_bootp_srv = 69"
definition udp_port_bootp_clnt :: u16 where "udp_port_bootp_clnt = 68"

lemmas ethertype_defs = ETHERTYPE_IP_def ETHERTYPE_ARP_def
lemmas ip_proto_defs = ip_proto_icmp_def ip_proto_tcp_def ip_proto_udp_def
lemmas udp_port_defs = udp_port_reserved_def udp_port_unkown_def udp_port_echo_def
  udp_port_dns_srv_def udp_port_bootp_srv_def udp_port_bootp_clnt_def

subsection \<open>Structure layouts\<close>

text \<open>\<open>eth_hdr\<close>: two 6-byte addresses and the type. \<open>ip_hdr\<close> is packed and ends in a pointer that
  was added to it, so its size is 24 on the 32-bit target and not the 20 bytes of an IP header.\<close>

definition sizeof_eth_hdr :: nat where "sizeof_eth_hdr = 14"
definition sizeof_ip_hdr :: nat where "sizeof_ip_hdr = 24"
definition sizeof_udp_hdr :: nat where "sizeof_udp_hdr = 8"

definition eth_dst :: nat where "eth_dst = 0"
definition eth_src :: nat where "eth_src = 6"
definition eth_type :: nat where "eth_type = 12"

definition arp_op :: nat where "arp_op = 6"
definition arp_snd_hw_addr :: nat where "arp_snd_hw_addr = 8"
definition arp_snd_prot_addr :: nat where "arp_snd_prot_addr = 14"
definition arp_target_hw_addr :: nat where "arp_target_hw_addr = 18"
definition arp_target_prot_addr :: nat where "arp_target_prot_addr = 24"

definition ip_ver_hlen :: nat where "ip_ver_hlen = 0"
definition ip_proto :: nat where "ip_proto = 9"
definition ip_src_addr :: nat where "ip_src_addr = 12"
definition ip_dest_addr :: nat where "ip_dest_addr = 16"

definition udp_src_port :: nat where "udp_src_port = 0"
definition udp_dst_port :: nat where "udp_dst_port = 2"

definition icmp_indentifier :: nat where "icmp_indentifier = 4"
definition icmp_sequence :: nat where "icmp_sequence = 6"

lemmas layout_defs = sizeof_eth_hdr_def sizeof_ip_hdr_def sizeof_udp_hdr_def
  eth_dst_def eth_src_def eth_type_def arp_op_def arp_snd_hw_addr_def arp_snd_prot_addr_def
  arp_target_hw_addr_def arp_target_prot_addr_def ip_ver_hlen_def ip_proto_def ip_src_addr_def
  ip_dest_addr_def udp_src_port_def udp_dst_port_def icmp_indentifier_def icmp_sequence_def
  ETHERTYPE_OFFSET_def FILTER_IPV4_def

text \<open>\<open>eth_hdr\<close>, \<open>ip_hdr\<close> and \<open>icmp_hdr\<close> laid one behind the other (\<open>struct packet_icmp\<close> of
  \<open>hisf.c\<close>): because of the pointer in \<open>ip_hdr\<close> its \<open>icmp\<close> member starts at 38, four bytes behind the
  ICMP header of the frame.\<close>

definition packet_icmp_icmp :: nat where
  "packet_icmp_icmp = sizeof_eth_hdr + sizeof_ip_hdr"

end
