(* ===== verification/Hisf.thy ===== *)
theory Hisf imports Checksum Net_Types begin

section \<open>The packet filter and responder of the server (\<open>git/ankh/server/netlib/hisf.c\<close>)\<close>

text \<open>
  \<open>hisf_recv\<close> is called by the interrupt handler of the network driver for every frame; it decides
  whether the frame goes up to the clients (\<open>packet_deliver\<close>, a parameter here and modelled in
  theory \<open>Session\<close>). \<open>do_arp_reply\<close> and \<open>do_ping_reply\<close> build answers and hand them to the driver's
  \<open>eth_send\<close>; the model records the frames handed over. Reads of the frame outside the memory it
  points to make the result \<open>None\<close>.
\<close>

subsection \<open>Checksum\<close>

text \<open>The loop of \<open>checksumcalculate\<close>: pointer, remaining size and the 32-bit \<open>unsigned long\<close> sum.\<close>

function checksum_loop :: "bytes \<Rightarrow> nat \<Rightarrow> int \<Rightarrow> u32 \<Rightarrow> (nat \<times> int \<times> u32) option" where
  "checksum_loop szBUF p iSize ckSum =
     (if iSize > 1 then do {
        w \<leftarrow> rd16 szBUF p;
        checksum_loop szBUF (p + 2) (iSize - 2) (ckSum + ucast w)
      } else Some (p, iSize, ckSum))"
  by pat_completeness auto
termination
  by (relation "measure (\<lambda>(_, _, n, _). nat n)") auto

declare checksum_loop.simps [simp del]

definition fold16 :: "u32 \<Rightarrow> u32" where
  "fold16 s = (let t = drop_bit 16 s + (s AND 0xffff) in t + drop_bit 16 t)"

definition checksumcalculate :: "bytes \<Rightarrow> int \<Rightarrow> u16 option" where
  "checksumcalculate szBUF iSize = do {
     (p, n, ckSum) \<leftarrow> checksum_loop szBUF 0 iSize 0;
     ckSum \<leftarrow> (if n = 1 then do { b \<leftarrow> rd8 szBUF p; Some (ckSum + ucast b) } else Some ckSum);
     Some (ucast (NOT (fold16 ckSum)))
   }"

subsection \<open>State\<close>

record hisf =
  linux_glue_ip_addr :: u32
  arp_reply_buf :: bytes    \<comment> \<open>the \<open>static\<close> buffer of \<open>do_arp_reply\<close>\<close>
  icmp_count :: u32         \<comment> \<open>the \<open>static\<close> counter of \<open>do_ping_reply\<close>\<close>
  eth_sent :: "bytes list"  \<comment> \<open>frames handed to \<open>eth_send\<close>, oldest first\<close>

definition eth_send_log :: "bytes \<Rightarrow> nat \<Rightarrow> hisf \<Rightarrow> hisf" where
  "eth_send_log buf len s = s\<lparr>eth_sent := eth_sent s @ [take len buf]\<rparr>"

subsection \<open>ARP replies\<close>

definition arp_reply_template :: bytes where
  "arp_reply_template =
     [0x00,0x00,0x00,0x00,0x00,0x00,
      0x14,0xE6,0xE4,0x3C,0x33,0xA0,
      0x08,0x06,
      0x00,0x01,
      0x08,0x00,
      0x06,
      0x04,
      0x00,0x02,
      0x14,0xE6,0xE4,0x3C,0x33,0xA0,
      0x0a,0xff,0x01,0xf9,
      0x00,0x00,0x00,0x00,0x00,0x00,
      0x0a,0xff,0x01,0xd2] @ replicate 86 0"

text \<open>The twelve and four byte assignments, and the read of byte 41 for the debug output.\<close>

definition do_arp_reply :: "bytes \<Rightarrow> hisf \<Rightarrow> hisf option" where
  "do_arp_reply packet s = do {
     mac \<leftarrow> rdn packet 6 6;
     buf \<leftarrow> wrn (arp_reply_buf s) 0 mac;
     buf \<leftarrow> wrn buf 32 mac;
     ip \<leftarrow> rdn packet 28 4;
     buf \<leftarrow> wrn buf 38 ip;
     _ \<leftarrow> rd8 packet 41;
     Some (eth_send_log buf 42 (s\<lparr>arp_reply_buf := buf\<rparr>))
   }"

subsection \<open>Echo replies\<close>

definition ping_reply_template :: bytes where
  "ping_reply_template =
     [0xd0,0x67,0xe5,0x1e,0xf8,0x82,
      0x14,0xE6,0xE4,0x3C,0x33,0xA0,
      0x08,0x00,
      0x45,0x00,0x00,0x54,
      0x00,0x00,0x40,0x00,
      0xff,0x01,0x00,0x00,
      0x0a,0xff,0x01,0xf9,
      0x0a,0xff,0x01,0xb7] @ replicate 94 0"

text \<open>
  The statements of \<open>do_ping_reply\<close> in their order. The writes through \<open>reply->icmp\<close> go to offsets 42
  and 44 (see \<open>packet_icmp_icmp\<close>); the copy of the 56 data bytes overwrites them later.
\<close>

definition do_ping_reply :: "bytes \<Rightarrow> hisf \<Rightarrow> hisf option" where
  "do_ping_reply packet s = do {
     src \<leftarrow> rdn packet eth_src 6;
     r \<leftarrow> wrn ping_reply_template eth_dst src;
     ip \<leftarrow> rdn packet 26 4;
     r \<leftarrow> wrn r 30 ip;
     ident \<leftarrow> rdn packet (packet_icmp_icmp + icmp_indentifier) 2;
     r \<leftarrow> wrn r (packet_icmp_icmp + icmp_indentifier) ident;
     sq \<leftarrow> rdn packet (packet_icmp_icmp + icmp_sequence) 2;
     r \<leftarrow> wrn r (packet_icmp_icmp + icmp_sequence) sq;
     type_bit0 \<leftarrow> rd8 packet (14 + 20);
     type_bit1 \<leftarrow> rd8 packet (14 + 21);
     idseq \<leftarrow> rdn packet 38 4;
     r \<leftarrow> wrn r 38 idseq;
     ck \<leftarrow> checksumcalculate (drop 14 r) 20;
     r \<leftarrow> wrn r 24 [lo8 ck, hi8 ck];
     dat \<leftarrow> rdn packet 42 56;
     r \<leftarrow> wrn r 42 dat;
     ck \<leftarrow> checksumcalculate (drop 34 r) 64;
     r \<leftarrow> wrn r 36 [lo8 ck, hi8 ck];
     (if type_bit0 = 0x08 \<and> type_bit1 = 0x00
      then Some (eth_send_log r 98 (s\<lparr>icmp_count := icmp_count s + 1\<rparr>))
      else Some s)
   }"

subsection \<open>The receive filter\<close>

text \<open>\<open>ip_jump_next_layer\<close>, as the offset behind the header at \<open>ip\<close>.\<close>

definition ip_jump_next_layer :: "bytes \<Rightarrow> nat \<Rightarrow> nat option" where
  "ip_jump_next_layer m ip = do {
     hl \<leftarrow> rd8 m (ip + ip_ver_hlen);
     Some (ip + unat ((hl AND 0xF) * 4))
   }"

definition DISCARD_PACKET :: int where "DISCARD_PACKET = - 1"

text \<open>\<open>my_ip[0]\<close> is the low byte of \<open>linux_glue_ip_addr\<close>.\<close>

definition my_ip_bytes :: "u32 \<Rightarrow> bytes" where
  "my_ip_bytes a = [ucast (drop_bit 0 a AND 0xFF), ucast (drop_bit 8 a AND 0xFF),
     ucast (drop_bit 16 a AND 0xFF), ucast (drop_bit 24 a AND 0xFF)]"

definition broadcast_ip :: bytes where "broadcast_ip = [0xFF, 0xFF, 0xFF, 0xFF]"

text \<open>\<open>deliver\<close> stands for \<open>packet_deliver\<close>: it returns the number of clients reached,
  \<open>None\<close> where it leaves its defined behaviour.\<close>

definition hisf_recv ::
  "(bytes \<Rightarrow> u32 \<Rightarrow> 's \<Rightarrow> (int \<times> 's) option) \<Rightarrow> u32 \<Rightarrow> bytes \<Rightarrow> u32 \<Rightarrow> 's \<Rightarrow> (int \<times> 's) option" where
  "hisf_recv deliver ip_addr packet len s = do {
     let my_ip = my_ip_bytes ip_addr;
     let ip = ETHERTYPE_OFFSET;
     type \<leftarrow> rd16 packet eth_type;
     (if swap16 type = ETHERTYPE_ARP then do {
        tgt \<leftarrow> rdn packet 38 4;
        (if tgt \<noteq> my_ip then Some (DISCARD_PACKET, s) else deliver packet len s)
      }
      else if swap16 type = ETHERTYPE_IP then do {
        vh \<leftarrow> rd8 packet ETHERTYPE_OFFSET;
        (if drop_bit 4 vh \<noteq> FILTER_IPV4 then Some (DISCARD_PACKET, s) else do {
           proto \<leftarrow> rd8 packet (ip + ip_proto);
           (if proto = ip_proto_icmp \<or> proto = ip_proto_tcp then do {
              dst \<leftarrow> rdn packet 30 4;
              (if dst = my_ip then deliver packet len s else Some (DISCARD_PACKET, s))
            }
            else if proto = ip_proto_udp then do {
              _ \<leftarrow> ip_jump_next_layer packet ip;
              dst \<leftarrow> rdn packet 30 4;
              (if dst = my_ip then deliver packet len s
               else if dst = broadcast_ip then deliver packet len s
               else Some (0, s))
            }
            else Some (DISCARD_PACKET, s))
         })
      }
      else Some (DISCARD_PACKET, s))
   }"

subsection \<open>The checksum routine meets its contract\<close>

text \<open>The loop followed by the odd byte adds exactly the words of the buffer.\<close>

definition checksum_sum :: "bytes \<Rightarrow> nat \<Rightarrow> int \<Rightarrow> u32 \<Rightarrow> u32 option" where
  "checksum_sum m p n s = do {
     (p, n, s) \<leftarrow> checksum_loop m p n s;
     (if n = 1 then do { b \<leftarrow> rd8 m p; Some (s + ucast b) } else Some s)
   }"

lemma drop_two: "p + 1 < length m \<Longrightarrow> drop p m = m ! p # m ! (p + 1) # drop (p + 2) m"
  by (simp add: Cons_nth_drop_Suc flip: Suc_eq_plus1)

lemma bsum_take_two:
  assumes "p + 1 < length m"
  shows "bsum (take (Suc (Suc n)) (drop p m)) =
    unat (le16 (m ! p) (m ! (p + 1))) + bsum (take n (drop (p + 2) m))"
  unfolding drop_two [OF assms] by (simp add: bsum_def)

lemma checksum_sum_bsum:
  "p + n \<le> length m \<Longrightarrow>
    checksum_sum m p (int n) s = Some (s + word_of_nat (bsum (take n (drop p m))))"
proof (induction n arbitrary: p s rule: less_induct)
  case (less n)
  consider "n = 0" | "n = 1" | k where "n = Suc (Suc k)"
    by (metis One_nat_def nat.exhaust)
  then show ?case
  proof cases
    case 1
    then show ?thesis by (simp add: checksum_sum_def checksum_loop.simps bsum_def)
  next
    case 2
    with less.prems have "take n (drop p m) = [m ! p]"
      by (simp add: take_Suc hd_drop_conv_nth)
    with 2 less.prems show ?thesis
      by (simp add: checksum_sum_def checksum_loop.simps buf_simps bsum_def)
  next
    case 3
    have b: "p + 1 < length m" using 3 less.prems by simp
    have "checksum_sum m p (int n) s =
        checksum_sum m (p + 2) (int k) (s + ucast (le16 (m ! p) (m ! (p + 1))))"
      using 3 b by (simp add: checksum_sum_def checksum_loop.simps [of m p] buf_simps)
    also have "\<dots> = Some (s + ucast (le16 (m ! p) (m ! (p + 1)))
        + word_of_nat (bsum (take k (drop (p + 2) m))))"
      using less.IH [of k "p + 2"] 3 less.prems by simp
    finally show ?thesis
      by (simp only: 3 bsum_take_two [OF b] of_nat_add add.assoc of_nat_unat)
  qed
qed

lemma unat_fold_step: "unat (drop_bit 16 (s :: u32) + (s AND 0xffff)) = unat s div 65536 + unat s mod 65536"
proof -
  have "s AND 0xffff = s AND mask 16"
    by (simp add: mask_eq_exp_minus_1)
  then have "unat (s AND 0xffff) = unat s mod 65536"
    by (simp add: unat_and_mask)
  moreover have "unat (drop_bit 16 s) = unat s div 65536"
    by (simp add: unat_drop_bit)
  moreover have "unat s div 65536 < 65536" and "unat s mod 65536 < 65536"
    using unsigned_less [of s, where 'a = nat] by (simp_all add: less_mult_imp_div_less)
  ultimately show ?thesis by (simp add: unat_word_ariths)
qed

lemma fold16_osum: "(ucast (fold16 s) :: u16) = word_of_nat (osum (unat s))"
proof -
  define t where "t = drop_bit 16 s + (s AND 0xffff)"
  have t: "unat t = unat s div 65536 + unat s mod 65536"
    unfolding t_def by (rule unat_fold_step)
  have "unat t div 65536 < 4294967296"
    using unsigned_less [of t, where 'a = nat] by (simp add: less_mult_imp_div_less)
  then have "unat (t + drop_bit 16 t) mod 65536 = (unat t + unat t div 65536) mod 65536"
    by (simp add: unat_word_ariths unat_drop_bit mod_mod_cancel)
  also have "\<dots> = osum (unat s)"
    using unsigned_less [of s, where 'a = nat] t by (intro fold_twice) simp_all
  finally have "unat (ucast (t + drop_bit 16 t) :: u16) = osum (unat s)"
    by (simp add: unat_ucast_mod)
  then show ?thesis by (metis fold16_def t_def of_nat_unat ucast_id)
qed

lemma ucast_not_u16: "(ucast (NOT (s :: u32)) :: u16) = NOT (ucast s)"
  by (rule bit_word_eqI) (simp add: bit_simps)

lemma unat_of_bsum:
  "length bs \<le> 65536 \<Longrightarrow> unat (word_of_nat (bsum bs) :: u32) = bsum bs"
  using bsum_le [of bs] by (simp add: unsigned_of_nat take_bit_nat_eq_self)

lemma checksumcalculate_rfc1071:
  assumes "n \<le> length m" and "n \<le> 65536"
  shows "checksumcalculate m (int n) = Some (rfc1071 (take n m))"
proof -
  have "checksumcalculate m (int n) =
      map_option (\<lambda>s. ucast (NOT (fold16 s))) (checksum_sum m 0 (int n) 0)"
    by (auto simp: checksumcalculate_def checksum_sum_def split: Option.bind_splits if_splits)
  also have "checksum_sum m 0 (int n) 0 = Some (word_of_nat (bsum (take n m)))"
    using assms checksum_sum_bsum [of 0 n m 0] by simp
  finally show ?thesis
    using assms by (simp add: ucast_not_u16 fold16_osum rfc1071_osum unat_of_bsum)
qed

interpretation hisf_ck: inet_checksum "\<lambda>bs. the (checksumcalculate bs (int (length bs)))"
  by unfold_locales (simp add: checksumcalculate_rfc1071)

lemma hisf_filled:
  assumes "length bs \<le> 65536" and "even k" and "Suc k < length bs"
    and "bs ! k = 0" and "bs ! Suc k = 0"
  shows "rfc1071 (bs[k := lo8 (rfc1071 bs), Suc k := hi8 (rfc1071 bs)]) = 0"
  using hisf_ck.filled_verifies [OF assms] assms(1)
  by (simp add: checksumcalculate_rfc1071)

subsection \<open>What the echo reply looks like\<close>

text \<open>The frame in one piece: Ethernet header, IP header with its checksum, ICMP message with its
  checksum.\<close>

definition ping_frame :: "bytes \<Rightarrow> bytes" where
  "ping_frame packet =
     (let ip = [0x45,0x00,0x00,0x54,0x00,0x00,0x40,0x00,0xff,0x01,0x00,0x00,0x0a,0xff,0x01,0xf9]
          @ take 4 (drop 26 packet);
        icmp = [0, 0, 0, 0] @ take 60 (drop 38 packet)
      in take 6 (drop 6 packet) @ [0x14,0xE6,0xE4,0x3C,0x33,0xA0,0x08,0x00]
         @ ip[10 := lo8 (rfc1071 ip), 11 := hi8 (rfc1071 ip)]
         @ icmp[2 := lo8 (rfc1071 icmp), 3 := hi8 (rfc1071 icmp)])"

lemma do_ping_reply_frame:
  assumes "98 \<le> length packet"
  shows "do_ping_reply packet s =
    (if packet ! 34 = 8 \<and> packet ! 35 = 0
     then Some (s\<lparr>icmp_count := icmp_count s + 1, eth_sent := eth_sent s @ [ping_frame packet]\<rparr>)
     else Some s)"
proof -
  obtain a b c d e f where m: "take 6 (drop 6 packet) = [a,b,c,d,e,f]"
    using list6 [of "take 6 (drop 6 packet)"] assms by auto
  obtain i j k l where i: "take 4 (drop 26 packet) = [i,j,k,l]"
    using list4 [of "take 4 (drop 26 packet)"] assms by auto
  obtain q r s' t where q: "take 4 (drop 38 packet) = [q,r,s',t]"
    using list4 [of "take 4 (drop 38 packet)"] assms by auto
  define dat where "dat = take 56 (drop 42 packet)"
  have d: "length dat = 56" using assms by (simp add: dat_def)
  have z: "replicate 94 (0::u8) = [0,0,0,0] @ [0,0,0,0] @ replicate 56 0 @ replicate 30 0"
    by (simp add: numeral_eq_Suc)
  note ck = checksumcalculate_rfc1071 [of 20, simplified] checksumcalculate_rfc1071 [of 64, simplified]
  have p60: "take 60 (drop 38 packet) = [q,r,s',t] @ dat"
    using q by (simp add: dat_def take_add [of 4 56, simplified])
  show ?thesis
    using assms d
    by (simp add: do_ping_reply_def rdn_def rd8_def layout_defs packet_icmp_icmp_def
        ping_reply_template_def m i q dat_def [symmetric] z wrn_def ck eth_send_log_def
        ping_frame_def Let_def p60)
qed
lemma ping_reply_frame:
  assumes "98 \<le> length packet" and "packet ! 34 = 8" and "packet ! 35 = 0"
  shows "\<exists>f. do_ping_reply packet s =
        Some (s\<lparr>icmp_count := icmp_count s + 1, eth_sent := eth_sent s @ [f]\<rparr>)
    \<and> length f = 98
    \<and> take 6 f = take 6 (drop 6 packet) \<and> take 4 (drop 30 f) = take 4 (drop 26 packet)
    \<and> take 2 (drop 12 f) = [0x08, 0x00] \<and> f ! 14 = 0x45 \<and> f ! 23 = ip_proto_icmp
    \<and> f ! 34 = 0 \<and> f ! 35 = 0 \<and> take 60 (drop 38 f) = take 60 (drop 38 packet)
    \<and> checksumcalculate (drop 14 f) 20 = Some 0 \<and> checksumcalculate (drop 34 f) 64 = Some 0"
proof -
  define ip where "ip = [0x45,0x00,0x00,0x54,0x00,0x00,0x40,0x00,0xff,0x01,0x00,0x00,0x0a,0xff,0x01,
    0xf9] @ take 4 (drop 26 packet)"
  define icmp where "icmp = [0, 0, 0, 0] @ take 60 (drop 38 packet)"
  have len: "length ip = 20" "length icmp = 64"
    using assms(1) by (simp_all add: ip_def icmp_def)
  have zero: "ip ! 10 = 0" "ip ! Suc 10 = 0" "icmp ! 2 = 0" "icmp ! Suc 2 = 0"
    by (simp_all add: ip_def icmp_def)
  have ok: "rfc1071 (ip[10 := lo8 (rfc1071 ip), 11 := hi8 (rfc1071 ip)]) = 0"
    "rfc1071 (icmp[2 := lo8 (rfc1071 icmp), 3 := hi8 (rfc1071 icmp)]) = 0"
    using hisf_filled [of ip 10] hisf_filled [of icmp 2] len zero by simp_all
  have frame: "ping_frame packet = take 6 (drop 6 packet)
      @ [0x14,0xE6,0xE4,0x3C,0x33,0xA0,0x08,0x00]
      @ ip[10 := lo8 (rfc1071 ip), 11 := hi8 (rfc1071 ip)]
      @ icmp[2 := lo8 (rfc1071 icmp), 3 := hi8 (rfc1071 icmp)]"
    by (simp add: ping_frame_def ip_def icmp_def Let_def)
  have l6: "length (take 6 (drop 6 packet)) = 6" using assms(1) by simp
  note ck = checksumcalculate_rfc1071 [of 20, simplified]
    checksumcalculate_rfc1071 [of 64, simplified]
  show ?thesis
    using assms len l6 ok
    by (intro exI [of _ "ping_frame packet"])
      (simp add: do_ping_reply_frame frame ck nth_append ip_proto_icmp_def; simp add: ip_def icmp_def)
qed

text \<open>
  C5: for every frame of at least 98 bytes that carries an echo request, \<open>do_ping_reply\<close> sends
  exactly one frame of 98 bytes; it goes to the requester's Ethernet and IP address, is an IPv4
  ICMP echo reply, repeats the identifier, the sequence number and the 56 data bytes, and both its
  IP header checksum and its ICMP checksum verify at the receiver.
\<close>

theorem ping_reply_answers_request:
  assumes "98 \<le> length packet" and "packet ! 34 = 8" and "packet ! 35 = 0"
  shows "\<exists>f. do_ping_reply packet s =
        Some (s\<lparr>icmp_count := icmp_count s + 1, eth_sent := eth_sent s @ [f]\<rparr>)
    \<and> length f = 98
    \<and> take 6 f = take 6 (drop 6 packet) \<and> take 4 (drop 30 f) = take 4 (drop 26 packet)
    \<and> take 2 (drop 12 f) = [0x08, 0x00] \<and> f ! 14 = 0x45 \<and> f ! 23 = ip_proto_icmp
    \<and> f ! 34 = 0 \<and> f ! 35 = 0 \<and> take 60 (drop 38 f) = take 60 (drop 38 packet)
    \<and> checksumcalculate (drop 14 f) 20 = Some 0 \<and> checksumcalculate (drop 34 f) 64 = Some 0"
  using assms by (rule ping_reply_frame)

theorem ping_reply_answers_request_witness:
  "\<exists>f. do_ping_reply (replicate 34 0 @ [8, 0] @ replicate 62 7)
        \<lparr>linux_glue_ip_addr = 0, arp_reply_buf = [], icmp_count = 0, eth_sent = []\<rparr> =
      Some \<lparr>linux_glue_ip_addr = 0, arp_reply_buf = [], icmp_count = 1, eth_sent = [f]\<rparr>
    \<and> f ! 34 = 0 \<and> take 60 (drop 38 f) = replicate 60 7"
  using ping_reply_answers_request [of "replicate 34 0 @ [8, 0] @ replicate 62 7"
      "\<lparr>linux_glue_ip_addr = 0, arp_reply_buf = [], icmp_count = 0, eth_sent = []\<rparr>"]
  by (auto simp: nth_append)

text \<open>Frames that are not echo requests are never answered, and no frame is answered twice.\<close>

lemma ping_reply_only_requests:
  assumes "98 \<le> length packet" and "\<not> (packet ! 34 = 8 \<and> packet ! 35 = 0)"
  shows "do_ping_reply packet s = Some s"
  using assms by (auto simp: do_ping_reply_frame)

subsection \<open>What the ARP reply looks like\<close>

text \<open>Between calls the static buffer keeps everything but the three fields that are written.\<close>

definition arp_inv :: "hisf \<Rightarrow> bool" where
  "arp_inv s \<longleftrightarrow> length (arp_reply_buf s) = 128
     \<and> take 26 (drop 6 (arp_reply_buf s)) = take 26 (drop 6 arp_reply_template)"

lemma arp_inv_init: "arp_inv (s\<lparr>arp_reply_buf := arp_reply_template\<rparr>)"
  by (simp add: arp_inv_def arp_reply_template_def)

definition arp_frame :: "bytes \<Rightarrow> bytes" where
  "arp_frame packet = take 6 (drop 6 packet) @ take 26 (drop 6 arp_reply_template)
     @ take 6 (drop 6 packet) @ take 4 (drop 28 packet)"

lemma do_arp_reply_frame:
  assumes inv: "arp_inv s" and len: "42 \<le> length packet"
  obtains buf where "do_arp_reply packet s =
      Some (s\<lparr>arp_reply_buf := buf, eth_sent := eth_sent s @ [arp_frame packet]\<rparr>)"
    and "arp_inv (s\<lparr>arp_reply_buf := buf\<rparr>)"
proof -
  define mac ip fixed rest where "mac = take 6 (drop 6 packet)" and "ip = take 4 (drop 28 packet)"
    and "fixed = take 26 (drop 6 arp_reply_template)" and "rest = drop 42 (arp_reply_buf s)"
  define old1 old2 old3 where "old1 = take 6 (arp_reply_buf s)"
    and "old2 = take 6 (drop 32 (arp_reply_buf s))" and "old3 = take 4 (drop 38 (arp_reply_buf s))"
  have b: "arp_reply_buf s = old1 @ fixed @ old2 @ old3 @ rest"
    using inv take_drop_join [of 4 38 "arp_reply_buf s"] take_drop_join [of 6 32 "arp_reply_buf s"]
      take_drop_join [of 26 6 "arp_reply_buf s"]
    by (simp add: arp_inv_def old1_def old2_def old3_def rest_def fixed_def)
  have l: "length mac = 6" "length ip = 4" "length fixed = 26" "length old1 = 6" "length old2 = 6"
    "length old3 = 4" "length rest = 86"
    using inv len by (simp_all add: mac_def ip_def fixed_def old1_def old2_def old3_def rest_def
        arp_inv_def arp_reply_template_def)
  define buf where "buf = mac @ fixed @ mac @ ip @ rest"
  have "do_arp_reply packet s =
      Some (s\<lparr>arp_reply_buf := buf, eth_sent := eth_sent s @ [arp_frame packet]\<rparr>)"
    using len l
    by (simp add: do_arp_reply_def buf_simps wrn_def b buf_def eth_send_log_def arp_frame_def
        flip: mac_def ip_def fixed_def)
  moreover have "arp_inv (s\<lparr>arp_reply_buf := buf\<rparr>)"
    using l by (simp add: arp_inv_def buf_def fixed_def [symmetric])
  ultimately show thesis by (rule that)
qed

text \<open>
  An ARP frame of at least 42 bytes is answered by one 42-byte frame: an Ethernet ARP reply
  (operation 2) addressed at both levels to the asking station, with the asker's protocol address
  as target; the static buffer is left fit for the next request. The sender address of the reply
  is always 10.255.1.249, whatever address the server has been given.
\<close>

theorem arp_reply_answers_request:
  assumes "arp_inv s" and "42 \<le> length packet"
  shows "\<exists>s' f. do_arp_reply packet s = Some s' \<and> arp_inv s' \<and> eth_sent s' = eth_sent s @ [f]
    \<and> linux_glue_ip_addr s' = linux_glue_ip_addr s \<and> length f = 42
    \<and> take 6 f = take 6 (drop 6 packet) \<and> take 6 (drop 32 f) = take 6 (drop 6 packet)
    \<and> take 4 (drop 38 f) = take 4 (drop 28 packet)
    \<and> take 2 (drop 12 f) = [0x08, 0x06]
    \<and> map_option swap16 (rd16 f (14 + arp_op)) = Some arp_op_reply
    \<and> take 4 (drop 28 f) = [10, 255, 1, 249]"
proof -
  obtain buf where r: "do_arp_reply packet s =
      Some (s\<lparr>arp_reply_buf := buf, eth_sent := eth_sent s @ [arp_frame packet]\<rparr>)"
    and i: "arp_inv (s\<lparr>arp_reply_buf := buf\<rparr>)"
    using assms by (rule do_arp_reply_frame)
  obtain a b c d e f where m: "take 6 (drop 6 packet) = [a, b, c, d, e, f]"
    using list6 [of "take 6 (drop 6 packet)"] assms(2) by auto
  obtain j k l n where ip: "take 4 (drop 28 packet) = [j, k, l, n]"
    using list4 [of "take 4 (drop 28 packet)"] assms(2) by auto
  have op: "swap16 (le16 0 2) = arp_op_reply"
    by (simp add: swap16_le16 arp_op_reply_def le16_eq_iff lo8_def hi8_def)
  show ?thesis
    using r i
    by (simp add: arp_inv_def)
      (simp add: arp_frame_def m ip arp_reply_template_def rd16_def layout_defs op)
qed

theorem arp_reply_answers_request_witness:
  "\<exists>s' f. do_arp_reply (replicate 42 5)
      \<lparr>linux_glue_ip_addr = 0x0100a8c0, arp_reply_buf = arp_reply_template, icmp_count = 0,
       eth_sent = []\<rparr> = Some s'
    \<and> eth_sent s' = [f] \<and> take 4 (drop 38 f) = [5, 5, 5, 5] \<and> take 4 (drop 28 f) = [10, 255, 1, 249]"
proof -
  let ?s = "\<lparr>linux_glue_ip_addr = 0x0100a8c0, arp_reply_buf = arp_reply_template, icmp_count = 0,
       eth_sent = []\<rparr>"
  have "arp_inv ?s" using arp_inv_init [of ?s] by simp
  moreover have "42 \<le> length (replicate 42 (5 :: u8))" by simp
  ultimately show ?thesis
    using arp_reply_answers_request [of ?s "replicate 42 5"] by (force simp: numeral_eq_Suc)
qed

subsection \<open>Which frames pass the filter\<close>

text \<open>The filter in the words of the protocols: ARP for our address; IPv4 carrying ICMP or TCP to
  our address; IPv4 carrying UDP to our address or to the limited broadcast address.\<close>

definition is_arp :: "bytes \<Rightarrow> bool" where
  "is_arp p \<longleftrightarrow> p ! 12 = 0x08 \<and> p ! 13 = 0x06"

definition is_ipv4 :: "bytes \<Rightarrow> bool" where
  "is_ipv4 p \<longleftrightarrow> p ! 12 = 0x08 \<and> p ! 13 = 0x00 \<and> drop_bit 4 (p ! 14) = 4"

definition accepts :: "bytes \<Rightarrow> bytes \<Rightarrow> bool" where
  "accepts my_ip p \<longleftrightarrow>
     (is_arp p \<and> take 4 (drop 38 p) = my_ip)
     \<or> (is_ipv4 p \<and> p ! 23 \<in> {1, 6} \<and> take 4 (drop 30 p) = my_ip)
     \<or> (is_ipv4 p \<and> p ! 23 = 17 \<and> take 4 (drop 30 p) \<in> {my_ip, [255, 255, 255, 255]})"

text \<open>
  On a frame of at least 42 bytes the filter never leaves its buffer, hands the frame to the
  clients exactly when \<open>accepts\<close> says so, and otherwise touches nothing; the value for a dropped
  frame is \<open>DISCARD_PACKET\<close> except for IPv4 UDP to another address, where it is 0.
\<close>

lemma hisf_recv_delivers_iff_accepts:
  assumes "42 \<le> length p"
  shows "hisf_recv deliver a p len s =
    (if accepts (my_ip_bytes a) p then deliver p len s
     else if is_ipv4 p \<and> p ! 23 = 17 then Some (0, s) else Some (DISCARD_PACKET, s))"
proof -
  have arp: "le16 (p ! 13) (p ! 12) = ETHERTYPE_ARP \<longleftrightarrow> is_arp p"
    by (auto simp: is_arp_def ethertype_defs le16_eq_iff lo8_def hi8_def)
  have ip: "le16 (p ! 13) (p ! 12) = ETHERTYPE_IP \<longleftrightarrow> p ! 12 = 0x08 \<and> p ! 13 = 0x00"
    by (auto simp: ethertype_defs le16_eq_iff lo8_def hi8_def)
  have ne: "is_arp p \<Longrightarrow> \<not> is_ipv4 p" by (simp add: is_arp_def is_ipv4_def)
  show ?thesis
  proof (cases "is_arp p")
    case True
    with assms arp ne show ?thesis
      by (simp add: hisf_recv_def Let_def rd8_def rdn_def rd16_def layout_defs swap16_le16 accepts_def)
  next
    case False
    with assms arp ip show ?thesis
      by (simp add: hisf_recv_def Let_def rd8_def rdn_def rd16_def layout_defs swap16_le16 accepts_def is_ipv4_def
          ip_proto_defs ip_jump_next_layer_def broadcast_ip_def)
  qed
qed

end
