(* ===== verification/Analyzer.thy ===== *)
theory Analyzer imports Net_Types begin

section \<open>The packet analyser (\<open>git/ankh/lib/analyzer/analyze.c\<close>)\<close>

text \<open>
  \<open>packet_analyze\<close> classifies a frame and, where the compile-time switches \<open>PA_...\<close> of
  \<open>packet_analyzer.h\<close> ask for it, prints what it finds. The switches are a record here, so that the
  model covers every configuration; \<open>shipped\<close> is the one in the header. Printed text is returned as a
  string beside the value. \<open>None\<close> is a read outside the frame, a failed \<open>ASSERT\<close>, or the use of the
  value of a function that ended without a \<open>return\<close>.
\<close>

subsection \<open>Configuration\<close>

record pa_config =
  PA_ARP :: bool
  PA_ICMP :: bool
  PA_TCP :: bool
  PA_DHCP :: bool
  PA_BOOTP :: bool
  PA_DNS :: bool

definition PA_UDP :: "pa_config \<Rightarrow> bool" where
  "PA_UDP c \<longleftrightarrow> PA_DHCP c \<or> PA_BOOTP c \<or> PA_DNS c"

definition PA_IP :: "pa_config \<Rightarrow> bool" where
  "PA_IP c \<longleftrightarrow> PA_ICMP c \<or> PA_TCP c \<or> PA_UDP c"

definition shipped :: pa_config where
  "shipped = \<lparr>PA_ARP = False, PA_ICMP = False, PA_TCP = False, PA_DHCP = False,
     PA_BOOTP = False, PA_DNS = False\<rparr>"

subsection \<open>Formatting\<close>

definition hex_up :: "nat \<Rightarrow> char" where "hex_up n = ''0123456789ABCDEF'' ! n"
definition hex_lo :: "nat \<Rightarrow> char" where "hex_lo n = ''0123456789abcdef'' ! n"

text \<open>The conversions \<open>%02X\<close> of a byte, \<open>%d\<close> and \<open>%x\<close> of a non-negative number.\<close>

definition fmt_02X :: "u8 \<Rightarrow> string" where
  "fmt_02X b = [hex_up (unat b div 16), hex_up (unat b mod 16)]"

fun fmt_d :: "nat \<Rightarrow> string" where
  "fmt_d n = (if n < 10 then [hex_lo n] else fmt_d (n div 10) @ [hex_lo (n mod 10)])"

fun fmt_x :: "nat \<Rightarrow> string" where
  "fmt_x n = (if n < 16 then [hex_lo n] else fmt_x (n div 16) @ [hex_lo (n mod 16)])"

declare fmt_d.simps [simp del] fmt_x.simps [simp del]

fun join_with :: "string \<Rightarrow> string list \<Rightarrow> string" where
  "join_with sep [] = ''''"
| "join_with sep [s] = s"
| "join_with sep (s # t # ss) = s @ sep @ join_with sep (t # ss)"

definition macbuf_size :: nat where "macbuf_size = 18"
definition ipbuf_size :: nat where "ipbuf_size = 16"

text \<open>\<open>snprintf\<close> into a buffer of \<open>n\<close> bytes keeps \<open>n - 1\<close> characters.\<close>

definition print_mac :: "bytes \<Rightarrow> nat \<Rightarrow> string option" where
  "print_mac m i = do {
     e \<leftarrow> rdn m i 6;
     Some (take (macbuf_size - 1) (join_with '':'' (map fmt_02X e)))
   }"

definition print_ip :: "bytes \<Rightarrow> nat \<Rightarrow> string option" where
  "print_ip m i = do {
     a \<leftarrow> rdn m i 4;
     Some (take (ipbuf_size - 1) (join_with ''.'' (map (\<lambda>b. fmt_d (unat b)) a)))
   }"

definition nl :: string where "nl = [CHR 0x0A]"

subsection \<open>Ethernet and ARP\<close>

definition parse_eth :: "pa_config \<Rightarrow> bytes \<Rightarrow> (string \<times> u16) option" where
  "parse_eth c m = do {
     t \<leftarrow> rd16 m eth_type;
     let type = swap16 t;
     (if type = ETHERTYPE_ARP \<and> \<not> PA_ARP c then Some ('''', ETHERTYPE_ARP)
      else if type = ETHERTYPE_IP \<and> \<not> PA_IP c then Some ('''', ETHERTYPE_IP)
      else if type \<noteq> ETHERTYPE_ARP \<and> type \<noteq> ETHERTYPE_IP then Some ('''', 0)
      else do {
        addr1 \<leftarrow> print_mac m eth_dst;
        addr2 \<leftarrow> print_mac m eth_src;
        Some (''[ETH] dst '' @ addr1 @ '' src '' @ addr2 @ '' type ''
              @ (if type = ETHERTYPE_IP then ''IP'' else ''ARP'') @ nl, type)
      })
   }"

definition parse_arp :: "pa_config \<Rightarrow> bytes \<Rightarrow> nat \<Rightarrow> string option" where
  "parse_arp c m a = do {
     mac1 \<leftarrow> print_mac m (a + arp_snd_hw_addr);
     mac2 \<leftarrow> print_mac m (a + arp_target_hw_addr);
     ip1 \<leftarrow> print_ip m (a + arp_snd_prot_addr);
     ip2 \<leftarrow> print_ip m (a + arp_target_prot_addr);
     (if PA_ARP c then do {
        o1 \<leftarrow> rd16 m (a + arp_op);
        let op = swap16 o1;
        Some (if op = arp_op_request then
                '' REQ from '' @ mac1 @ '' ('' @ ip1 @ '') for '' @ ip2 @ nl
              else if op = arp_op_reply then
                '' REPLY from '' @ mac1 @ '' ('' @ ip1 @ ''), target = '' @ mac2
                  @ '' ('' @ ip2 @ '')'' @ nl
              else if op = arp_op_rarp_request then
                '' RARP REQ from '' @ mac1 @ '' ('' @ ip1 @ '') for '' @ ip2 @ nl
              else if op = arp_op_rarp_reply then
                '' RARP REPLY from '' @ mac1 @ '' ('' @ ip1 @ ''), target = '' @ mac2
                  @ '' ('' @ ip2 @ '')'' @ nl
              else '''')
      } else Some '''')
   }"

subsection \<open>UDP and what it carries\<close>

text \<open>Offsets in the structure \<open>dhcp\<close>.\<close>

definition dhcp_clnt_addr :: nat where "dhcp_clnt_addr = 12"
definition dhcp_your_addr :: nat where "dhcp_your_addr = 16"
definition dhcp_server_addr :: nat where "dhcp_server_addr = 20"
definition dhcp_gateway_addr :: nat where "dhcp_gateway_addr = 24"

lemmas dhcp_defs = dhcp_clnt_addr_def dhcp_your_addr_def dhcp_server_addr_def dhcp_gateway_addr_def

definition parse_dhcp_srv :: "bytes \<Rightarrow> nat \<Rightarrow> string option" where
  "parse_dhcp_srv m d = do {
     ip1 \<leftarrow> print_ip m (d + dhcp_clnt_addr);
     ip2 \<leftarrow> print_ip m (d + dhcp_your_addr);
     ip3 \<leftarrow> print_ip m (d + dhcp_server_addr);
     ip4 \<leftarrow> print_ip m (d + dhcp_gateway_addr);
     op \<leftarrow> rd8 m d;
     Some (''    [DHCP/Srv] op '' @ fmt_x (unat op) @ '' ''
       @ ''CLNT '' @ ip1 @ '' YOUR '' @ ip2 @ nl
       @ ''                SRV '' @ ip3 @ '' GW '' @ ip4 @ nl)
   }"

definition parse_dhcp_clnt :: "bytes \<Rightarrow> nat \<Rightarrow> string option" where
  "parse_dhcp_clnt m d = do {
     ip1 \<leftarrow> print_ip m (d + dhcp_clnt_addr);
     ip2 \<leftarrow> print_ip m (d + dhcp_your_addr);
     ip3 \<leftarrow> print_ip m (d + dhcp_server_addr);
     ip4 \<leftarrow> print_ip m (d + dhcp_gateway_addr);
     op \<leftarrow> rd8 m d;
     Some (''    [DHCP/Clnt] op '' @ fmt_x (unat op) @ '' ''
       @ ''CLNT '' @ ip1 @ '' YOUR '' @ ip2 @ nl
       @ ''                SRV '' @ ip3 @ '' GW '' @ ip4 @ nl)
   }"

definition udp_port_str :: "u16 \<Rightarrow> string" where
  "udp_port_str p =
     (if p = udp_port_reserved then ''reserved''
      else if p = udp_port_echo then ''echo''
      else if p = udp_port_bootp_srv then ''BOOTP/Srv''
      else if p = udp_port_bootp_clnt then ''BOOTP/Clnt''
      else if p = udp_port_dns_srv then ''DNS/Srv''
      else ''??'')"

datatype dns_ops = dns_query | dns_iquery | dns_status | dns_reserved | dns_notify | dns_update

fun dns_op_num :: "dns_ops \<Rightarrow> nat" where
  "dns_op_num dns_query = 0"
| "dns_op_num dns_iquery = 1"
| "dns_op_num dns_status = 2"
| "dns_op_num dns_reserved = 3"
| "dns_op_num dns_notify = 4"
| "dns_op_num dns_update = 5"

text \<open>The bit fields \<open>qr:1\<close> and \<open>opcode:4\<close> of \<open>dns_t\<close>: a little-endian compiler allocates them from
  the least significant bit of the byte behind \<open>ident\<close>.\<close>

definition dns_qr :: "u8 \<Rightarrow> nat" where "dns_qr b = unat b mod 2"
definition dns_opcode :: "u8 \<Rightarrow> nat" where "dns_opcode b = unat b div 2 mod 16"

definition parse_dns_srv :: "bytes \<Rightarrow> nat \<Rightarrow> string option" where
  "parse_dns_srv m d = do {
     ident \<leftarrow> rd16 m d;
     b \<leftarrow> rd8 m (d + 2);
     let qr = dns_qr b;
     let opcode = dns_opcode b;
     Some (''    [DNS/Srv] id '' @ fmt_x (unat ident) @ '' qr '' @ fmt_x qr
       @ '' ('' @ (if qr \<noteq> 0 then ''response'' else ''query'') @ '') op '' @ fmt_x opcode @ '' (''
       @ (if opcode = dns_op_num dns_query then ''query''
          else if opcode = dns_op_num dns_iquery then ''inv. query''
          else if opcode = dns_op_num dns_status then ''status''
          else if opcode = dns_op_num dns_notify then ''notify''
          else if opcode = dns_op_num dns_update then ''update''
          else ''reserved'')
       @ '')'' @ nl)
   }"

definition parse_udp :: "pa_config \<Rightarrow> bytes \<Rightarrow> nat \<Rightarrow> (string \<times> u16) option" where
  "parse_udp c m u = do {
     _ \<leftarrow> rd16 m (u + udp_src_port);
     p \<leftarrow> rd16 m (u + udp_dst_port);
     let pdst = swap16 p;
     (if pdst = udp_port_bootp_srv then do {
        out \<leftarrow> (if PA_DHCP c \<or> PA_BOOTP c then parse_dhcp_srv m (u + sizeof_udp_hdr) else Some '''');
        Some (out, udp_port_bootp_srv)
      }
      else if pdst = udp_port_bootp_clnt then do {
        out \<leftarrow> (if PA_DHCP c \<or> PA_BOOTP c then parse_dhcp_clnt m (u + sizeof_udp_hdr) else Some '''');
        Some (out, udp_port_bootp_clnt)
      }
      else if pdst = udp_port_dns_srv then do {
        out \<leftarrow> (if PA_DNS c then parse_dns_srv m (u + sizeof_udp_hdr) else Some '''');
        Some (out, udp_port_dns_srv)
      }
      else Some ('''', udp_port_unkown))
   }"

subsection \<open>IP and the entry point\<close>

definition ip_proto_str :: "u8 \<Rightarrow> string" where
  "ip_proto_str prot =
     (if prot = ip_proto_icmp then ''ICMP''
      else if prot = ip_proto_tcp then ''TCP''
      else if prot = ip_proto_udp then ''UDP''
      else ''??'')"

text \<open>\<open>parse_icmp\<close> and \<open>parse_tcp\<close> are empty. The \<open>default\<close> branch ends without a value.\<close>

definition parse_ip :: "pa_config \<Rightarrow> bytes \<Rightarrow> nat \<Rightarrow> (string \<times> u16) option" where
  "parse_ip c m ip = do {
     _ \<leftarrow> print_ip m (ip + ip_src_addr);
     _ \<leftarrow> print_ip m (ip + ip_dest_addr);
     vh \<leftarrow> rd8 m (ip + ip_ver_hlen);
     let hlen = unat ((vh AND 0x0F) * 4);
     proto \<leftarrow> rd8 m (ip + ip_proto);
     (if proto = ip_proto_icmp then Some ('''', ucast ip_proto_icmp)
      else if proto = ip_proto_tcp then Some ('''', ucast ip_proto_tcp)
      else if proto = ip_proto_udp then parse_udp c m (ip + hlen)
      else None)
   }"

definition packet_analyze :: "pa_config \<Rightarrow> bytes \<Rightarrow> u32 \<Rightarrow> (string \<times> u16) option" where
  "packet_analyze c p len =
     (if unat len < sizeof_eth_hdr then None
      else do {
        (out, type) \<leftarrow> parse_eth c p;
        (if type = 0 then Some (out, 0)
         else if type = ETHERTYPE_ARP then do {
           out' \<leftarrow> parse_arp c p sizeof_eth_hdr;
           Some (out @ out', ETHERTYPE_ARP)
         }
         else if type = ETHERTYPE_IP then do {
           (out', v) \<leftarrow> parse_ip c p sizeof_eth_hdr;
           Some (out @ out', v)
         }
         else None)
      })"

subsection \<open>Texts fit their buffers and are faithful\<close>

lemma hex_up_inj: "m < 16 \<Longrightarrow> n < 16 \<Longrightarrow> hex_up m = hex_up n \<longleftrightarrow> m = n"
  unfolding hex_up_def by (subst nth_eq_iff_index_eq) auto

lemma fmt_02X_inj: "fmt_02X a = fmt_02X b \<longleftrightarrow> a = b"
proof
  assume h: "fmt_02X a = fmt_02X b"
  have l: "unat (w :: u8) < 256" for w using unsigned_less [of w, where 'a = nat] by simp
  have "unat a div 16 < 16" "unat b div 16 < 16" using l [of a] l [of b] by auto
  with h have "unat a div 16 = unat b div 16" "unat a mod 16 = unat b mod 16"
    by (simp_all add: fmt_02X_def hex_up_inj)
  then show "a = b" by (metis div_mult_mod_eq word_unat_eq_iff)
qed simp

lemma fmt_d_byte: "n < 256 \<Longrightarrow> 1 \<le> length (fmt_d n) \<and> length (fmt_d n) \<le> 3"
  by (auto simp: fmt_d.simps)

lemma digit_not_dot: "n < 10 \<Longrightarrow> hex_lo n \<noteq> CHR ''.''"
  by (auto simp: hex_lo_def less_Suc_eq numeral_eq_Suc)

lemma fmt_d_no_dot: "CHR ''.'' \<notin> set (fmt_d n)"
proof (induction n rule: fmt_d.induct)
  case (1 n)
  then show ?case using digit_not_dot [of n] digit_not_dot [of "n mod 10"]
    by (subst fmt_d.simps) auto
qed

lemma hex_lo_inj: "m < 16 \<Longrightarrow> n < 16 \<Longrightarrow> hex_lo m = hex_lo n \<longleftrightarrow> m = n"
  unfolding hex_lo_def by (subst nth_eq_iff_index_eq) auto

lemma fmt_d_inj: "fmt_d m = fmt_d n \<longleftrightarrow> m = n"
proof (induction m arbitrary: n rule: fmt_d.induct)
  case (1 m)
  have ne: "fmt_d k \<noteq> []" for k by (subst fmt_d.simps) simp
  show ?case
  proof (cases "m < 10")
    case True
    then show ?thesis using ne [of "n div 10"]
      by (subst (1 2) fmt_d.simps) (auto simp: hex_lo_inj)
  next
    case False
    then show ?thesis using ne [of "m div 10"] "1.IH" [of "n div 10"]
      by (subst (1 2) fmt_d.simps) (auto simp: hex_lo_inj, metis div_mult_mod_eq)
  qed
qed

lemma append_sep_inj:
  "c \<notin> set xs \<Longrightarrow> c \<notin> set xs' \<Longrightarrow> xs @ c # ys = xs' @ c # ys' \<longleftrightarrow> xs = xs' \<and> ys = ys'"
  by (auto simp: append_eq_append_conv2 Cons_eq_append_conv append_eq_Cons_conv)

lemma print_mac_faithful:
  assumes "i + 6 \<le> length m" and "j + 6 \<le> length m'"
  shows "\<exists>s t. print_mac m i = Some s \<and> print_mac m' j = Some t
      \<and> length s < macbuf_size \<and> (s = t \<longleftrightarrow> take 6 (drop i m) = take 6 (drop j m'))"
proof -
  obtain a b c d e f where x: "take 6 (drop i m) = [a, b, c, d, e, f]"
    using list6 [of "take 6 (drop i m)"] assms(1) by auto
  obtain a' b' c' d' e' f' where y: "take 6 (drop j m') = [a', b', c', d', e', f']"
    using list6 [of "take 6 (drop j m')"] assms(2) by auto
  show ?thesis
    using assms x y
    by (simp add: print_mac_def rdn_def macbuf_size_def fmt_02X_def fmt_02X_inj [symmetric])
qed

lemma print_ip_faithful:
  assumes "i + 4 \<le> length m" and "j + 4 \<le> length m'"
  shows "\<exists>s t. print_ip m i = Some s \<and> print_ip m' j = Some t
      \<and> length s < ipbuf_size \<and> (s = t \<longleftrightarrow> take 4 (drop i m) = take 4 (drop j m'))"
proof -
  obtain a b c d where x: "take 4 (drop i m) = [a, b, c, d]"
    using list4 [of "take 4 (drop i m)"] assms(1) by auto
  obtain a' b' c' d' where y: "take 4 (drop j m') = [a', b', c', d']"
    using list4 [of "take 4 (drop j m')"] assms(2) by auto
  have l: "length (fmt_d (unat (w :: u8))) \<le> 3" for w
    using unsigned_less [of w, where 'a = nat] by (simp add: fmt_d_byte)
  show ?thesis
    using assms x y l [of a] l [of b] l [of c] l [of d] l [of a'] l [of b'] l [of c'] l [of d']
    by (simp add: print_ip_def rdn_def ipbuf_size_def append_sep_inj fmt_d_no_dot fmt_d_inj
        word_unat_eq_iff)
qed

text \<open>
  The text of a MAC address always fits the 18-byte buffer and the text of an IP address the
  16-byte one, so \<open>snprintf\<close> never truncates, and different addresses print differently.
\<close>

theorem addresses_print_faithfully:
  assumes "i + 6 \<le> length m" and "j + 6 \<le> length m'" and "k + 4 \<le> length n" and "l + 4 \<le> length n'"
  shows "(\<exists>s t. print_mac m i = Some s \<and> print_mac m' j = Some t
      \<and> length s < macbuf_size \<and> (s = t \<longleftrightarrow> take 6 (drop i m) = take 6 (drop j m')))
    \<and> (\<exists>s t. print_ip n k = Some s \<and> print_ip n' l = Some t
      \<and> length s < ipbuf_size \<and> (s = t \<longleftrightarrow> take 4 (drop k n) = take 4 (drop l n')))"
  using print_mac_faithful [OF assms(1,2)] print_ip_faithful [OF assms(3,4)] by (rule conjI)

theorem addresses_print_faithfully_witness:
  "(\<exists>s t. print_mac [1, 2, 3, 4, 5, 6, 7] 0 = Some s \<and> print_mac [1, 2, 3, 4, 5, 6, 7] 1 = Some t
      \<and> s \<noteq> t) \<and> (\<exists>s t. print_ip [10, 0, 0, 1] 0 = Some s \<and> print_ip [1, 0, 0, 1] 0 = Some t \<and> s \<noteq> t)"
  using addresses_print_faithfully [of 0 "[1, 2, 3, 4, 5, 6, 7]" 1 "[1, 2, 3, 4, 5, 6, 7]"
      0 "[10, 0, 0, 1]" 0 "[1, 0, 0, 1]"]
  by auto

subsection \<open>Classification\<close>

text \<open>The class of a frame in the words of the protocols; \<open>None\<close> where \<open>parse_ip\<close> has no value.\<close>

definition frame_class :: "bytes \<Rightarrow> u16 option" where
  "frame_class p =
     (if p ! 12 = 0x08 \<and> p ! 13 = 0x06 then Some ETHERTYPE_ARP
      else if p ! 12 = 0x08 \<and> p ! 13 = 0x00 then
        (if p ! 23 = 1 then Some 1 else if p ! 23 = 6 then Some 6
         else if p ! 23 = 17 then
           (let u = 14 + 4 * unat (p ! 14 AND 0x0F);
                port = le16 (p ! (u + 3)) (p ! (u + 2))
            in Some (if port \<in> {68, 69, 53} then port else udp_port_unkown))
         else None)
      else Some 0)"

lemma frame_class_None:
  "frame_class p = None \<longleftrightarrow> p ! 12 = 0x08 \<and> p ! 13 = 0x00 \<and> p ! 23 \<notin> {1, 6, 17}"
  by (auto simp: frame_class_def Let_def)

lemma header_length: "unat ((vh AND 0x0F) * 4 :: u8) = 4 * unat (vh AND 0x0F)"
proof -
  have "unat (vh AND 0x0F) = unat vh mod 16"
    using unat_and_mask [of vh 4] by (simp add: mask_eq_exp_minus_1)
  then have "unat (vh AND 0x0F) < 16" by simp
  then show ?thesis by (simp add: unat_word_ariths)
qed

lemma shipped_analyzer_class:
  assumes "42 \<le> length p" and "14 \<le> unat len"
    and "p ! 12 = 0x08 \<Longrightarrow> p ! 13 = 0 \<Longrightarrow> p ! 23 = 17 \<Longrightarrow> 14 + 4 * unat (p ! 14 AND 0x0F) + 4 \<le> length p"
  shows "packet_analyze shipped p len = map_option (Pair '''') (frame_class p)"
proof -
  have arp: "le16 (p ! 13) (p ! 12) = ETHERTYPE_ARP \<longleftrightarrow> p ! 12 = 0x08 \<and> p ! 13 = 0x06"
    by (auto simp: ethertype_defs le16_eq_iff lo8_def hi8_def)
  have ip: "le16 (p ! 13) (p ! 12) = ETHERTYPE_IP \<longleftrightarrow> p ! 12 = 0x08 \<and> p ! 13 = 0x00"
    by (auto simp: ethertype_defs le16_eq_iff lo8_def hi8_def)
  have nz: "ETHERTYPE_ARP \<noteq> 0" "ETHERTYPE_IP \<noteq> 0" "ETHERTYPE_IP \<noteq> ETHERTYPE_ARP"
    by (simp_all add: ethertype_defs)
  have eth: "parse_eth shipped p = Some ('''', 
      (if le16 (p ! 13) (p ! 12) \<in> {ETHERTYPE_ARP, ETHERTYPE_IP} then le16 (p ! 13) (p ! 12) else 0))"
    using assms(1) by (simp add: parse_eth_def rd16_def layout_defs swap16_le16 shipped_def PA_IP_def PA_UDP_def)
  consider "p ! 12 = 0x08 \<and> p ! 13 = 0x06" | "p ! 12 = 0x08 \<and> p ! 13 = 0" 
    | "\<not> (p ! 12 = 0x08 \<and> (p ! 13 = 0x06 \<or> p ! 13 = 0))" by blast
  then show ?thesis
  proof cases
    case 1
    with arp have e: "parse_eth shipped p = Some ('''', ETHERTYPE_ARP)" by (simp add: eth)
    have "parse_arp shipped p 14 = Some ''''"
      using assms(1) by (simp add: parse_arp_def print_mac_def print_ip_def rdn_def layout_defs shipped_def)
    then show ?thesis using 1 assms(2) nz
      by (simp add: packet_analyze_def e sizeof_eth_hdr_def frame_class_def)
  next
    case 2
    with ip have e: "parse_eth shipped p = Some ('''', ETHERTYPE_IP)" by (simp add: eth)
    have "packet_analyze shipped p len = parse_ip shipped p 14"
      using assms(2) nz by (simp add: packet_analyze_def e sizeof_eth_hdr_def)
    also have "\<dots> = map_option (Pair '''') (frame_class p)"
      using assms 2 by (cases "p ! 23 = 17") (simp_all add: parse_ip_def print_ip_def rdn_def rd8_def layout_defs Let_def
          parse_udp_def rd16_def frame_class_def ip_proto_defs udp_port_defs shipped_def header_length
          swap16_le16)
    finally show ?thesis .
  next
    case 3
    then show ?thesis using assms(1,2) arp ip nz
      by (auto simp: packet_analyze_def eth layout_defs frame_class_def)
  qed
qed

text \<open>
  As configured in the header, the analyser prints nothing, stays inside every frame of at least
  42 bytes whose UDP header (if it is UDP) is in the frame, and returns the class of the frame; the
  one case without a defined result is an IPv4 frame that is neither ICMP, TCP nor UDP.
\<close>

theorem shipped_analyzer_classifies:
  assumes "42 \<le> length p" and "14 \<le> unat len"
    and "p ! 12 = 0x08 \<Longrightarrow> p ! 13 = 0 \<Longrightarrow> p ! 23 = 17 \<Longrightarrow> 14 + 4 * unat (p ! 14 AND 0x0F) + 4 \<le> length p"
  shows "(packet_analyze shipped p len = None \<longleftrightarrow>
        p ! 12 = 0x08 \<and> p ! 13 = 0x00 \<and> p ! 23 \<notin> {1, 6, 17})
    \<and> (\<forall>out v. packet_analyze shipped p len = Some (out, v) \<longrightarrow> out = '''' \<and> frame_class p = Some v)"
  using shipped_analyzer_class [of p len] assms by (auto simp: frame_class_None)

theorem shipped_analyzer_classifies_witness:
  "packet_analyze shipped (replicate 12 0 @ [8, 6] @ replicate 28 0) 42 \<noteq> None"
proof -
  define fr where "fr = replicate 12 0 @ [8, 6] @ replicate 28 (0 :: u8)"
  have "42 \<le> length fr" "fr ! 12 = 8" "fr ! 13 = 6" by (simp_all add: fr_def nth_append)
  then show ?thesis
    unfolding fr_def [symmetric] using shipped_analyzer_classifies [of fr 42] by simp
qed

text \<open>The bit fields of \<open>dns_t\<close> against RFC 1035, where QR is the first bit on the wire and the
  opcode the next four: what \<open>parse_dns_srv\<close> calls QR is the bit RD, so a query that asks for
  recursion is shown as a response, and a response without it as a query.\<close>

lemma dns_qr_is_rd: "dns_qr b = of_bool (bit b 0)"
proof -
  have "bit (unat b) 0 \<longleftrightarrow> bit b 0" by (simp add: bit_unsigned_iff)
  then show ?thesis by (simp add: dns_qr_def bit_iff_odd [of "unat b"] mod_2_eq_odd)
qed

lemma dns_query_shown_as_response: "dns_qr 0x01 = 1" and dns_response_shown_as_query: "dns_qr 0x80 = 0"
  by (simp_all add: dns_qr_def)

end
