(* ===== verification/Session.thy ===== *)
theory Session imports Hisf Analyzer begin

section \<open>Client sessions of the server (\<open>git/ankh/server/src\<close>)\<close>

text \<open>
  \<open>session.cc\<close> keeps the list of client sessions, \<open>main.cc\<close> delivers a frame to every session that
  wants it, and the transmit thread of a session sends a client's frame to the other sessions and,
  where needed, to the device. A session object is a record with its address; its pointers to the
  information chunk (\<open>_head_chunk\<close>) and to the receive ring (\<open>_recv_chunk\<close>) are options, \<open>None\<close> while
  they are null, as they are until \<open>shm_create\<close> has succeeded. The ring of a
  session belongs to the shared-memory library (not under \<open>src/\<close>), so its operations \<open>copy_in\<close>
  (\<open>l4shmc_rb_sender_next_copy_in\<close>, 0 for success) and \<open>commit\<close> are parameters on an arbitrary
  type of rings. The device lock taken around local deliveries has no effect on the sequential
  behaviour and is left out.
\<close>

subsection \<open>State\<close>

record info =
  i_mac :: bytes
  i_mtu :: u32
  num_rx :: u32
  rx_dropped :: u32
  rx_bytes :: u32
  num_tx :: u32
  tx_dropped :: u32
  tx_bytes :: u32
  i_ip_addr :: u32

record 'r session =
  s_addr :: nat
  s_active :: bool
  s_debug :: bool
  s_want_bcast :: bool
  s_dev :: string
  s_mac :: bytes
  head_chunk :: "info option"
  rx_ring :: "'r option"

record 'r factory =
  sessions :: "'r session list"
  console :: string

definition is_broadcast_mac :: "bytes \<Rightarrow> bool option" where
  "is_broadcast_mac buf = do {
     b \<leftarrow> rdn buf 0 6;
     Some (b = [0xff, 0xff, 0xff, 0xff, 0xff, 0xff])
   }"

subsection \<open>Finding the sessions for a frame\<close>

text \<open>The loop of \<open>find_session_for_mac\<close> from the iterator on.\<close>

fun find_from :: "bytes \<Rightarrow> string \<Rightarrow> 'r session list \<Rightarrow> 'r session option option" where
  "find_from mac dev [] = Some None"
| "find_from mac dev (s # ss) =
     (if \<not> s_active s then find_from mac dev ss
      else if dev \<noteq> s_dev s then find_from mac dev ss
      else do {
        src \<leftarrow> rdn mac 6 6;
        (if s_mac s = src then find_from mac dev ss
         else do {
           bc \<leftarrow> is_broadcast_mac mac;
           (if bc \<and> s_want_bcast s then Some (Some s)
            else do {
              dst \<leftarrow> rdn mac 0 6;
              (if dst = s_mac s then Some (Some s) else find_from mac dev ss)
            })
         })
      })"

definition find_session_for_mac ::
  "bytes \<Rightarrow> string \<Rightarrow> nat option \<Rightarrow> 'r session list \<Rightarrow> 'r session option option" where
  "find_session_for_mac mac dev prev ss =
     (case prev of
        None \<Rightarrow> find_from mac dev ss
      | Some a \<Rightarrow> (case dropWhile (\<lambda>s. s_addr s \<noteq> a) ss of
                    [] \<Rightarrow> Some None
                  | _ # rest \<Rightarrow> find_from mac dev rest))"

subsection \<open>Delivery\<close>

text \<open>A null ring or a null chunk is dereferenced.\<close>

definition deliver ::
  "(bytes \<Rightarrow> u32 \<Rightarrow> 'r \<Rightarrow> int \<times> 'r) \<Rightarrow> ('r \<Rightarrow> 'r) \<Rightarrow> bytes \<Rightarrow> u32 \<Rightarrow> 'r session \<Rightarrow> 'r session option" where
  "deliver copy_in commit packet len s = do {
     r \<leftarrow> rx_ring s;
     let (err, r) = copy_in packet len r;
     i \<leftarrow> head_chunk s;
     Some (if err = 0
       then s\<lparr>head_chunk := Some (i\<lparr>num_rx := num_rx i + 1, rx_bytes := rx_bytes i + len\<rparr>),
              rx_ring := Some (commit r)\<rparr>
       else s\<lparr>head_chunk := Some (i\<lparr>rx_dropped := rx_dropped i + 1\<rparr>), rx_ring := Some r\<rparr>)
   }"

fun deliver_to ::
  "(bytes \<Rightarrow> u32 \<Rightarrow> 'r \<Rightarrow> int \<times> 'r) \<Rightarrow> ('r \<Rightarrow> 'r) \<Rightarrow> bytes \<Rightarrow> u32 \<Rightarrow> nat \<Rightarrow> 'r session list
    \<Rightarrow> 'r session list option" where
  "deliver_to copy_in commit packet len a [] = Some []"
| "deliver_to copy_in commit packet len a (s # ss) = do {
     s \<leftarrow> (if s_addr s = a then deliver copy_in commit packet len s else Some s);
     ss \<leftarrow> deliver_to copy_in commit packet len a ss;
     Some (s # ss)
   }"

text \<open>The loop of \<open>packet_deliver\<close>; it does not end when two sessions had the same address.\<close>

partial_function (option) deliver_loop ::
  "(bytes \<Rightarrow> u32 \<Rightarrow> 'r \<Rightarrow> int \<times> 'r) \<Rightarrow> ('r \<Rightarrow> 'r) \<Rightarrow> pa_config \<Rightarrow> string \<Rightarrow> bytes \<Rightarrow> u32
    \<Rightarrow> 'r session option \<Rightarrow> u32 \<Rightarrow> 'r factory \<Rightarrow> (u32 \<times> 'r factory) option" where
  [code]: "deliver_loop copy_in commit c dev packet len s cnt f =
     (case s of
        None \<Rightarrow> Some (cnt, f)
      | Some s \<Rightarrow> do {
          out \<leftarrow> (if cnt = 0 \<and> s_debug s then map_option fst (packet_analyze c packet len)
                 else Some '''');
          ss \<leftarrow> deliver_to copy_in commit packet len (s_addr s) (sessions f);
          s' \<leftarrow> find_session_for_mac packet dev (Some (s_addr s)) ss;
          deliver_loop copy_in commit c dev packet len s' (cnt + 1)
            (f\<lparr>sessions := ss, console := console f @ out\<rparr>)
        })"

definition packet_deliver ::
  "(bytes \<Rightarrow> u32 \<Rightarrow> 'r \<Rightarrow> int \<times> 'r) \<Rightarrow> ('r \<Rightarrow> 'r) \<Rightarrow> pa_config \<Rightarrow> string \<Rightarrow> bytes \<Rightarrow> u32
    \<Rightarrow> 'r factory \<Rightarrow> (u32 \<times> 'r factory) option" where
  "packet_deliver copy_in commit c dev packet len f = do {
     s \<leftarrow> find_session_for_mac packet dev None (sessions f);
     deliver_loop copy_in commit c dev packet len s 0 f
   }"

subsection \<open>The transmit thread\<close>

text \<open>One round of \<open>xmit_thread_fn\<close>, which runs with an information chunk, of the session at \<open>a\<close>, after \<open>next_copy_out\<close> has put a frame of
  \<open>sz\<close> bytes into the transmit buffer: \<open>transmit\<close> is the device (\<open>netdev_xmit\<close>), and the flag
  returned says whether the client was notified that its frame is done.\<close>

definition xmit_round ::
  "(bytes \<Rightarrow> u32 \<Rightarrow> 'r \<Rightarrow> int \<times> 'r) \<Rightarrow> ('r \<Rightarrow> 'r) \<Rightarrow> pa_config \<Rightarrow> (bytes \<Rightarrow> u32 \<Rightarrow> 'n \<Rightarrow> int \<times> 'n)
    \<Rightarrow> string \<Rightarrow> nat \<Rightarrow> bytes \<Rightarrow> u32 \<Rightarrow> 'r factory \<times> 'n \<Rightarrow> (bool \<times> 'r factory \<times> 'n) option" where
  "xmit_round copy_in commit c transmit dev a tx_buf sz = (\<lambda>(f, n). do {
     (local, f) \<leftarrow> packet_deliver copy_in commit c dev tx_buf sz f;
     bc \<leftarrow> is_broadcast_mac tx_buf;
     let (err, n, notified) =
       (if local = 0 \<or> bc then let (e, n') = transmit tx_buf sz n in (e, n', True)
        else (0, n, False));
     let account = (\<lambda>i. if local \<noteq> 0 \<or> err = 0
        then i\<lparr>num_tx := num_tx i + 1, tx_bytes := tx_bytes i + sz\<rparr>
        else i\<lparr>tx_dropped := tx_dropped i + 1\<rparr>);
     Some (notified,
       f\<lparr>sessions := map (\<lambda>s. if s_addr s = a then s\<lparr>head_chunk := map_option account (head_chunk s)\<rparr> else s)
         (sessions f)\<rparr>, n)
   })"

subsection \<open>Generated addresses\<close>

definition MOD_ADLER :: u32 where "MOD_ADLER = 65521"

text \<open>The inner \<open>do\<close> loop of \<open>adler32\<close> over one chunk, and the loop over the chunks.\<close>

fun adler_chunk :: "bytes \<Rightarrow> u32 \<times> u32 \<Rightarrow> u32 \<times> u32" where
  "adler_chunk [] ab = ab"
| "adler_chunk (x # xs) (a, b) = adler_chunk xs (a + ucast x, b + (a + ucast x))"

definition adler_fold :: "u32 \<Rightarrow> u32" where
  "adler_fold a = (a AND 0xffff) + drop_bit 16 a * (65536 - MOD_ADLER)"

function adler_loop :: "bytes \<Rightarrow> u32 \<times> u32 \<Rightarrow> u32 \<times> u32" where
  "adler_loop [] ab = ab"
| "adler_loop (x # xs) ab =
     (let (a, b) = adler_chunk (take 5550 (x # xs)) ab
      in adler_loop (drop 5550 (x # xs)) (adler_fold a, adler_fold b))"
  by pat_completeness auto
termination by (relation "measure (\<lambda>(bs, _). length bs)") auto

definition adler32 :: "bytes \<Rightarrow> u32" where
  "adler32 buf =
     (let (a, b) = adler_loop buf (1, 0);
          a = (if a \<ge> MOD_ADLER then a - MOD_ADLER else a);
          b = adler_fold b;
          b = (if b \<ge> MOD_ADLER then b - MOD_ADLER else b)
      in push_bit 16 b OR a)"

text \<open>\<open>generate_mac\<close> for a device with hardware address \<open>hw\<close>, and the counter it leaves.\<close>

definition generate_mac :: "bytes \<Rightarrow> u32 \<Rightarrow> (bytes \<times> u32) option" where
  "generate_mac hw count = do {
     h \<leftarrow> rdn hw 0 6;
     let checksum = adler32 (h @ le32_bytes count);
     Some ([0x04, 0xEA] @ le32_bytes checksum, count + 1)
   }"

subsection \<open>A frame reaches exactly the sessions that want it\<close>

text \<open>When a session wants a frame: it is active, belongs to the device, did not send the frame itself,
  and the frame is a broadcast it did not decline or carries its address.\<close>

definition wants :: "bytes \<Rightarrow> string \<Rightarrow> 'r session \<Rightarrow> bool" where
  "wants packet dev s \<longleftrightarrow> s_active s \<and> s_dev s = dev \<and> s_mac s \<noteq> take 6 (drop 6 packet)
     \<and> (take 6 packet = replicate 6 0xff \<and> s_want_bcast s \<or> take 6 packet = s_mac s)"

lemma find_from_find:
  "12 \<le> length p \<Longrightarrow> find_from p dev ss = Some (List.find (wants p dev) ss)"
  by (induction ss) (auto simp: wants_def is_broadcast_mac_def rdn_def numeral_eq_Suc)

lemma find_session_first:
  "12 \<le> length p \<Longrightarrow> find_session_for_mac p dev None ss = Some (List.find (wants p dev) ss)"
  by (simp add: find_session_for_mac_def find_from_find)

lemma find_session_next:
  assumes "12 \<le> length p" and "s_addr x \<notin> s_addr ` set pre"
  shows "find_session_for_mac p dev (Some (s_addr x)) (pre @ x # post) =
    Some (List.find (wants p dev) post)"
proof -
  have "dropWhile (\<lambda>s. s_addr s \<noteq> s_addr x) (pre @ x # post) = x # post"
    using assms(2) by (subst dropWhile_append2) (auto simp: image_iff)
  then show ?thesis
    using assms(1) by (simp add: find_session_for_mac_def find_from_find)
qed

text \<open>A session whose ring and chunk are there, and what it is after a delivery.\<close>

definition ready :: "'r session \<Rightarrow> bool" where
  "ready s \<longleftrightarrow> rx_ring s \<noteq> None \<and> head_chunk s \<noteq> None"

definition delivered :: "(bytes \<Rightarrow> u32 \<Rightarrow> 'r \<Rightarrow> int \<times> 'r) \<Rightarrow> ('r \<Rightarrow> 'r) \<Rightarrow> bytes \<Rightarrow> u32 \<Rightarrow> 'r session \<Rightarrow> 'r session" where
  "delivered ci cm p len s = (case deliver ci cm p len s of None \<Rightarrow> s | Some s' \<Rightarrow> s')"

lemma deliver_ready: "deliver ci cm p len s = (if ready s then Some (delivered ci cm p len s) else None)"
  by (auto simp: deliver_def delivered_def ready_def Let_def split: prod.splits)

lemma delivered_same: "s_addr (delivered ci cm p len s) = s_addr s" "s_dev (delivered ci cm p len s) = s_dev s"
  "s_mac (delivered ci cm p len s) = s_mac s" "ready (delivered ci cm p len s) = ready s"
  by (cases "rx_ring s"; cases "head_chunk s"; auto simp: delivered_def deliver_def ready_def split: prod.split)+

declare delivered_same(1) [simp]

lemma deliver_to_none: "a \<notin> s_addr ` set ss \<Longrightarrow> deliver_to ci cm p len a ss = Some ss"
  by (induction ss) auto

lemma deliver_to_split:
  assumes "distinct (map s_addr (pre @ x # post))"
  shows "deliver_to ci cm p len (s_addr x) (pre @ x # post) =
    (if ready x then Some (pre @ delivered ci cm p len x # post) else None)"
  using assms by (induction pre) (auto simp: deliver_ready deliver_to_none)

text \<open>What the debug output of a delivery is: only the first session decides.\<close>

definition console_out :: "pa_config \<Rightarrow> bytes \<Rightarrow> u32 \<Rightarrow> 'r session option \<Rightarrow> string option" where
  "console_out c packet len s =
     (case s of Some s \<Rightarrow> if s_debug s then map_option fst (packet_analyze c packet len) else Some ''''
      | None \<Rightarrow> Some '''')"

definition deliver_if :: "(bytes \<Rightarrow> u32 \<Rightarrow> 'r \<Rightarrow> int \<times> 'r) \<Rightarrow> ('r \<Rightarrow> 'r) \<Rightarrow> string \<Rightarrow> bytes \<Rightarrow> u32
    \<Rightarrow> 'r session \<Rightarrow> 'r session" where
  "deliver_if ci cm dev p len s = (if wants p dev s then delivered ci cm p len s else s)"

lemma find_Some_split:
  "List.find P xs = Some x \<Longrightarrow> \<exists>a b. xs = a @ x # b \<and> P x \<and> (\<forall>y\<in>set a. \<not> P y)"
  by (induction xs) (auto split: if_splits, (metis append_Cons append_Nil list.set_intros(1) set_ConsD empty_iff list.set(1))+)

definition all_ready :: "bytes \<Rightarrow> string \<Rightarrow> 'r session list \<Rightarrow> bool" where
  "all_ready p dev ss \<longleftrightarrow> (\<forall>s \<in> set ss. wants p dev s \<longrightarrow> ready s)"

lemma all_ready_split: "\<forall>y\<in>set a. \<not> wants p dev y \<Longrightarrow> wants p dev x \<Longrightarrow>
    all_ready p dev (a @ x # b) \<longleftrightarrow> ready x \<and> all_ready p dev b"
  by (auto simp: all_ready_def)

lemma deliver_loop_spec:
  assumes p: "12 \<le> length p"
  shows "distinct (map s_addr (pre @ ss)) \<Longrightarrow> sessions f = pre @ ss \<Longrightarrow> cnt \<noteq> 0 \<Longrightarrow>
    unat cnt + length ss < 2 ^ 32 \<Longrightarrow>
    deliver_loop ci cm c dev p len (List.find (wants p dev) ss) cnt f =
      (if all_ready p dev ss then Some (cnt + word_of_nat (length (filter (wants p dev) ss)),
        f\<lparr>sessions := pre @ map (deliver_if ci cm dev p len) ss\<rparr>) else None)"
proof (induction "length ss" arbitrary: pre ss f cnt rule: less_induct)
  case less
  show ?case
  proof (cases "List.find (wants p dev) ss")
    case None
    then have n: "\<forall>s\<in>set ss. \<not> wants p dev s" by (simp add: find_None_iff)
    then have "map (deliver_if ci cm dev p len) ss = ss" and "filter (wants p dev) ss = []" and "all_ready p dev ss"
      by (auto simp: deliver_if_def all_ready_def intro!: map_idI)
    with None less.prems show ?thesis by (simp add: deliver_loop.simps)
  next
    case (Some x)
    then obtain a b where ss: "ss = a @ x # b" and x: "wants p dev x"
      and a: "\<forall>y\<in>set a. \<not> wants p dev y" using find_Some_split by metis
    from a have a': "map (deliver_if ci cm dev p len) a = a" "filter (wants p dev) a = []"
      by (auto simp: deliver_if_def intro!: map_idI)
    let ?x = "delivered ci cm p len x"
    have to: "deliver_to ci cm p len (s_addr x) (pre @ ss) = (if ready x then Some ((pre @ a @ [?x]) @ b) else None)"
      using less.prems(1) deliver_to_split [of "pre @ a" x b ci cm p len] by (simp add: ss)
    have nxt: "find_session_for_mac p dev (Some (s_addr x)) ((pre @ a @ [?x]) @ b) =
        Some (List.find (wants p dev) b)"
      using less.prems(1) find_session_next [OF p, of ?x "pre @ a" dev b] by (simp add: ss image_Un)
    have c: "unat (cnt + 1) = unat cnt + 1"
      using less.prems(4) by (simp add: unat_word_ariths ss)
    have "cnt + 1 \<noteq> 0" using c by auto
    moreover have "distinct (map s_addr ((pre @ a @ [?x]) @ b))"
      using less.prems(1) by (simp add: ss)
    moreover have "unat (cnt + 1) + length b < 2 ^ 32" 
      using less.prems(4) c by (simp add: ss)
    ultimately show ?thesis
      using less.hyps [of b "pre @ a @ [?x]" "f\<lparr>sessions := (pre @ a @ [?x]) @ b\<rparr>" "cnt + 1"]
        less.prems(2,3) x to nxt a' all_ready_split [OF a x, of b]
      by (subst deliver_loop.simps) (cases f; simp add: Some [unfolded ss] ss deliver_if_def add.assoc)
  qed
qed

text \<open>The whole delivery: it reaches all that want the frame, unless one of them has no ring.\<close>

lemma packet_deliver_spec:
  assumes p: "12 \<le> length p" and d: "distinct (map s_addr (sessions f))"
    and n: "length (sessions f) < 2 ^ 32 - 1"
  shows "packet_deliver ci cm c dev p len f = (if all_ready p dev (sessions f) then
    map_option (\<lambda>out. (word_of_nat (length (filter (wants p dev) (sessions f))),
        f\<lparr>sessions := map (deliver_if ci cm dev p len) (sessions f), console := console f @ out\<rparr>))
      (console_out c p len (List.find (wants p dev) (sessions f))) else None)"
proof (cases "List.find (wants p dev) (sessions f)")
  case None
  then have "\<forall>s\<in>set (sessions f). \<not> wants p dev s" by (simp add: find_None_iff)
  then have "map (deliver_if ci cm dev p len) (sessions f) = sessions f"
    and "filter (wants p dev) (sessions f) = []" and "all_ready p dev (sessions f)"
    by (auto simp: deliver_if_def all_ready_def intro!: map_idI)
  with None p show ?thesis
    by (simp add: packet_deliver_def find_session_first deliver_loop.simps console_out_def)
next
  case (Some x)
  then obtain a b where ss: "sessions f = a @ x # b" and x: "wants p dev x"
    and a: "\<forall>y\<in>set a. \<not> wants p dev y" using find_Some_split by metis
  from a have a': "map (deliver_if ci cm dev p len) a = a" "filter (wants p dev) a = []"
    by (auto simp: deliver_if_def intro!: map_idI)
  let ?x = "delivered ci cm p len x"
  have to: "deliver_to ci cm p len (s_addr x) (sessions f) = (if ready x then Some ((a @ [?x]) @ b) else None)"
    using d deliver_to_split [of a x b ci cm p len] by (simp add: ss)
  have nxt: "find_session_for_mac p dev (Some (s_addr x)) ((a @ [?x]) @ b) =
      Some (List.find (wants p dev) b)"
    using d find_session_next [OF p, of ?x a dev b] by (auto simp: ss)
  have step: "deliver_loop ci cm c dev p len (List.find (wants p dev) b) 1 
      (f\<lparr>sessions := (a @ [?x]) @ b, console := console f @ out\<rparr>) = 
      (if all_ready p dev b then Some (1 + word_of_nat (length (filter (wants p dev) b)),
        f\<lparr>sessions := (a @ [?x]) @ map (deliver_if ci cm dev p len) b, console := console f @ out\<rparr>) else None)" for out
    using d n by (subst deliver_loop_spec [OF p, where pre = "a @ [?x]"]) (simp_all add: ss)
  have r: "all_ready p dev (sessions f) \<longleftrightarrow> ready x \<and> all_ready p dev b" using all_ready_split [OF a x, of b] by (simp add: ss)
  show ?thesis
    using Some p to nxt a' x step step [of "[]"]
    by (cases "packet_analyze c p len") 
      (auto simp: packet_deliver_def find_session_first deliver_loop.simps [of _ _ _ _ _ _ "Some x"] console_out_def ss deliver_if_def
        r [unfolded ss])
qed

subsection \<open>The checksum routine computes Adler-32\<close>

text \<open>The two sums without and with a reduction at every byte.\<close>

fun adler_exact :: "bytes \<Rightarrow> nat \<times> nat \<Rightarrow> nat \<times> nat" where
  "adler_exact [] ab = ab"
| "adler_exact (x # xs) (a, b) = adler_exact xs (a + unat x, b + (a + unat x))"

fun adler_ref :: "bytes \<Rightarrow> nat \<times> nat \<Rightarrow> nat \<times> nat" where
  "adler_ref [] ab = ab"
| "adler_ref (x # xs) (a, b) =
     (let a' = (a + unat x) mod 65521 in adler_ref xs (a', (b + a') mod 65521))"

lemma adler_exact_mono: "a \<le> fst (adler_exact xs (a, b)) \<and> b \<le> snd (adler_exact xs (a, b))"
  by (induction xs arbitrary: a b) (auto simp: le_trans [OF le_add1] intro: order_trans [OF le_add1])

lemma byte_le: "unat (x :: u8) \<le> 255"
  using unsigned_less [of x, where 'a = nat] by simp

lemma adler_exact_bound:
  "fst (adler_exact xs (a, b)) \<le> a + 255 * length xs \<and>
   2 * snd (adler_exact xs (a, b)) \<le> 2 * b + 2 * length xs * a + 255 * (length xs * (length xs + 1))"
proof (induction xs arbitrary: a b)
  case (Cons x xs)
  have x: "unat x \<le> 255" by (rule byte_le)
  define k where "k = length xs * unat x"
  have k: "k \<le> length xs * 255"
    unfolding k_def using x by (rule mult_le_mono2)
  have "2 * snd (adler_exact xs (a + unat x, b + (a + unat x))) \<le>
      2 * b + 2 * a + 2 * unat x + 2 * length xs * a + 2 * k + 255 * (length xs * (length xs + 1))"
    using Cons.IH [of "a + unat x" "b + (a + unat x)"] by (simp add: k_def algebra_simps)
  then show ?case
    using Cons.IH [of "a + unat x" "b + (a + unat x)"] x k by (auto simp: algebra_simps)
qed simp

lemma adler_exact_append:
  "adler_exact (xs @ ys) ab = adler_exact ys (adler_exact xs ab)"
  by (induction xs ab rule: adler_exact.induct) auto

lemma adler_exact_mod:
  "map_prod (\<lambda>n. n mod 65521) (\<lambda>n. n mod 65521) (adler_exact xs (a, b)) = adler_ref xs (a mod 65521, b mod 65521)"
  by (induction xs arbitrary: a b) (auto simp: Let_def mod_simps)

lemma adler_chunk_exact:
  "fst (adler_exact xs (unat a, unat b)) < 2 ^ 32 \<Longrightarrow> snd (adler_exact xs (unat a, unat b)) < 2 ^ 32 \<Longrightarrow>
    map_prod unat unat (adler_chunk xs (a, b)) = adler_exact xs (unat a, unat b)"
proof (induction xs arbitrary: a b)
  case (Cons x xs)
  have m: "unat a + unat x < 2 ^ 32" "unat b + (unat a + unat x) < 2 ^ 32"
    using Cons.prems adler_exact_mono [of "unat a + unat x" xs "unat b + (unat a + unat x)"] by auto
  then have "unat (a + ucast x) = unat a + unat x" and "unat (b + (a + ucast x)) = unat b + (unat a + unat x)"
    by (simp_all add: unat_word_ariths unat_ucast_mod)
  with Cons show ?case by simp
qed simp

lemma unat_adler_fold: "unat (adler_fold a) = unat a mod 65536 + unat a div 65536 * 15"
proof -
  have "a AND 0xffff = a AND mask 16" by (simp add: mask_eq_exp_minus_1)
  then have m: "unat (a AND 0xffff) = unat a mod 65536" by (simp add: unat_and_mask)
  have d: "unat (drop_bit 16 a) = unat a div 65536" by (simp add: unat_drop_bit)
  have "unat a div 65536 < 65536" using unsigned_less [of a, where 'a = nat] by (simp add: less_mult_imp_div_less)
  then show ?thesis
    by (simp add: adler_fold_def MOD_ADLER_def unat_word_ariths m d)
qed

lemma adler_fold_mod: "unat (adler_fold a) mod 65521 = unat a mod 65521"
proof -
  have "unat a = unat a div 65536 * 65536 + unat a mod 65536" by simp
  also have "\<dots> = (unat a mod 65536 + unat a div 65536 * 15) + 65521 * (unat a div 65536)" by simp
  finally have "unat a mod 65521 = (unat a mod 65536 + unat a div 65536 * 15) mod 65521"
    by (metis mod_mult_self2)
  then show ?thesis by (simp add: unat_adler_fold)
qed

lemma adler_loop_ref:
  "unat a \<le> 65880 \<Longrightarrow> unat b \<le> 1048560 \<Longrightarrow> 
    (case adler_loop bs (a, b) of (a', b') \<Rightarrow> unat a' \<le> 65880 \<and> unat b' \<le> 1048560 \<and>
    (unat a' mod 65521, unat b' mod 65521) = adler_ref bs (unat a mod 65521, unat b mod 65521))"
proof (induction "length bs" arbitrary: bs a b rule: less_induct)
  case less
  show ?case
  proof (cases bs)
    case Nil
    then show ?thesis using less.prems by simp
  next
    case (Cons x xs)
    define c where "c = take 5550 bs"
    have lc: "length c \<le> 5550" by (simp add: c_def)
    have sq: "length c * unat a \<le> 5550 * 65880" "length c * (length c + 1) \<le> 5550 * 5551"
      using mult_le_mono [OF lc less.prems(1)] mult_le_mono [OF lc, of "length c + 1" 5551] lc
      by simp_all
    have bd: "fst (adler_exact c (unat a, unat b)) \<le> 65880 + 255 * 5550"
      "snd (adler_exact c (unat a, unat b)) < 2 ^ 32"
      using adler_exact_bound [of c "unat a" "unat b"] sq lc less.prems by auto
    obtain a1 b1 where ab: "adler_chunk c (a, b) = (a1, b1)" by fastforce
    have e: "adler_exact c (unat a, unat b) = (unat a1, unat b1)"
      using adler_chunk_exact [of c a b] bd ab by simp
    have a1: "unat (adler_fold a1) \<le> 65880"
    proof -
      have "unat a1 div 65536 \<le> 22" using bd(1) e by simp
      then show ?thesis using mod_less_divisor [of 65536 "unat a1"] by (simp add: unat_adler_fold)
    qed
    have b1: "unat (adler_fold b1) \<le> 1048560"
    proof -
      have "unat b1 div 65536 \<le> 65535" using bd(2) e by simp
      then show ?thesis using mod_less_divisor [of 65536 "unat b1"] by (simp add: unat_adler_fold)
    qed
    have l: "adler_loop bs (a, b) = adler_loop (drop 5550 bs) (adler_fold a1, adler_fold b1)"
      using ab by (simp add: Cons c_def)
    have "adler_ref bs (unat a mod 65521, unat b mod 65521) =
        adler_ref (drop 5550 bs) (unat (adler_fold a1) mod 65521, unat (adler_fold b1) mod 65521)"
      using adler_exact_append [of c "drop 5550 bs" "(unat a, unat b)"]
      by (simp add: adler_exact_mod [symmetric] adler_fold_mod e c_def)
        (metis adler_exact_mod append_take_drop_id c_def e)
    moreover have "length (drop 5550 bs) < length bs" by (simp add: Cons)
    ultimately show ?thesis
      using less.hyps [OF _ a1 b1, of "drop 5550 bs"] by (simp add: l)
  qed
qed

lemma u16_join:
  assumes "x < 65536" "y < 65536" "unat b = x" "unat a = y"
  shows "unat (push_bit 16 b OR a :: u32) = x * 65536 + y"
proof -
  have "unat a = unat (take_bit 16 a)" using assms by (simp add: unat_take_bit)
  then have "a = take_bit 16 a" by (simp only: word_unat_eq_iff)
  then have "\<not> bit a n" if "16 \<le> n" for n using that by (metis bit_take_bit_iff leD)
  then have "push_bit 16 b AND a = 0" by (intro bit_word_eqI) (auto simp: bit_simps)
  then have "push_bit 16 b OR a = push_bit 16 b + a" by (simp add: disjunctive_add_eq_or)
  then show ?thesis using assms by (simp add: push_bit_eq_mult unat_word_ariths)
qed

lemma adler32_ref:
  "unat (adler32 bs) = (case adler_ref bs (1, 0) of (a, b) \<Rightarrow> b * 65536 + a)"
proof -
  obtain a b where ab: "adler_loop bs (1, 0) = (a, b)" by fastforce
  have 1: "unat a \<le> 65880" "unat b \<le> 1048560" and
    r: "adler_ref bs (1, 0) = (unat a mod 65521, unat b mod 65521)"
    using adler_loop_ref [of 1 0 bs] ab by auto
  have sub: "unat (if c \<ge> MOD_ADLER then c - MOD_ADLER else c) = unat c mod 65521"
    if "unat c < 131042" for c
    using that by (auto simp: MOD_ADLER_def word_le_nat_alt unat_sub mod_if)
  have "unat b div 65536 \<le> 15" using 1(2) by simp
  then have b: "unat (adler_fold b) < 131042"
    using mod_less_divisor [of 65536 "unat b"] by (simp add: unat_adler_fold)
  have "unat (adler32 bs) = unat (adler_fold b) mod 65521 * 65536 + unat a mod 65521"
    unfolding adler32_def ab Let_def prod.case
    by (rule u16_join) (use sub 1 b in auto)
  then show ?thesis by (simp add: r [simplified] adler_fold_mod)
qed

lemma adler_exact_sums:
  "adler_exact xs (a, b) =
    (a + (\<Sum>x\<leftarrow>xs. unat x), b + length xs * a + (\<Sum>i<length xs. (length xs - i) * unat (xs ! i)))"
proof (induction xs arbitrary: a b)
  case (Cons x xs)
  have "(\<Sum>i<Suc (length xs). (Suc (length xs) - i) * unat ((x # xs) ! i)) =
      Suc (length xs) * unat x + (\<Sum>i<length xs. (length xs - i) * unat (xs ! i))"
    by (subst sum.lessThan_Suc_shift) simp
  with Cons show ?case by (simp add: algebra_simps)
qed simp

lemma adler_ref_sums:
  "adler_ref xs (1, 0) =
    ((1 + (\<Sum>x\<leftarrow>xs. unat x)) mod 65521,
     (length xs + (\<Sum>i<length xs. (length xs - i) * unat (xs ! i))) mod 65521)"
  using adler_exact_mod [of xs 1 0] by (simp add: adler_exact_sums)

text \<open>
  C29: \<open>adler32\<close> computes the Adler-32 checksum for buffers of any length: the reductions, deferred to
  one per 5550 bytes, never let the 32-bit sums overflow, and the single subtractions at the end
  suffice.
\<close>

theorem adler32_is_adler32:
  "unat (adler32 bs) =
     (length bs + (\<Sum>i<length bs. (length bs - i) * unat (bs ! i))) mod 65521 * 65536
     + (1 + (\<Sum>x\<leftarrow>bs. unat x)) mod 65521"
  by (subst adler32_ref, subst adler_ref_sums) simp

text \<open>Over ten bytes neither sum reaches the modulus.\<close>

lemma adler32_short:
  assumes "length bs = 10"
  shows "unat (adler32 bs) = snd (adler_exact bs (1, 0)) * 65536 + fst (adler_exact bs (1, 0))"
proof -
  obtain a b where e: "adler_exact bs (1, 0) = (a, b)" by fastforce
  have "a < 65521" "b < 65521" using adler_exact_bound [of bs 1 0] e assms by simp_all
  then show ?thesis using adler_exact_mod [of bs 1 0] e by (simp add: adler32_ref case_prod_unfold)
qed

lemma adler32_count:
  assumes "length hw = 6" and "unat c < 65536" and "adler_exact hw (1, 0) = (a, b)"
  shows "unat (adler32 (hw @ le32_bytes c)) =
    (b + 4 * a + 4 * (unat c mod 256) + 3 * (unat c div 256)) * 65536
     + (a + unat c mod 256 + unat c div 256)"
    and "a + unat c mod 256 + unat c div 256 < 65536"
proof -
  have c: "unat c div 65536 = 0" "unat c div 16777216 = 0" "unat c div 256 mod 256 = unat c div 256"
    using assms(2) by auto
  have "length (hw @ le32_bytes c) = 10" using assms(1) by (simp add: le32_bytes_def)
  from adler32_short [OF this] show "unat (adler32 (hw @ le32_bytes c)) =
    (b + 4 * a + 4 * (unat c mod 256) + 3 * (unat c div 256)) * 65536
     + (a + unat c mod 256 + unat c div 256)"
    by (simp add: adler_exact_append assms(3) [simplified] le32_bytes_def unat_ucast_mod unat_drop_bit c)
  have "a \<le> 1531" using adler_exact_bound [of hw 1 0] assms(1,3) by simp
  moreover have "unat c div 256 < 256" using assms(2) by auto
  moreover have "unat c mod 256 < 256" by simp
  ultimately show "a + unat c mod 256 + unat c div 256 < 65536" by linarith
qed

lemma radix16:
  assumes "(x :: nat) * 65536 + y = x' * 65536 + y'" and "y < 65536" and "y' < 65536"
  shows "x = x' \<and> y = y'"
proof -
  have "(x * 65536 + y) div 65536 = x" "(x' * 65536 + y') div 65536 = x'"
    using assms(2,3) by simp_all
  then show ?thesis using assms(1) by simp
qed

lemma same_sums:
  "(b :: nat) + 4 * a + 4 * x + 3 * y = b + 4 * a + 4 * x' + 3 * y' \<Longrightarrow> a + x + y = a + x' + y'
    \<Longrightarrow> x = x' \<and> y = y'"
  by arith

lemma generate_mac_distinct:
  assumes "6 \<le> length hw" and "unat c < 65536" and "unat d < 65536" and "c \<noteq> d"
  shows "\<exists>m n. generate_mac hw c = Some (m, c + 1) \<and> generate_mac hw d = Some (n, d + 1)
    \<and> m \<noteq> n \<and> length m = 6 \<and> is_broadcast_mac m = Some False"
proof -
  let ?h = "take 6 hw"
  have h: "length ?h = 6" using assms(1) by simp
  obtain a b where e: "adler_exact ?h (1, 0) = (a, b)" by fastforce
  have "unat c mod 256 \<noteq> unat d mod 256 \<or> unat c div 256 \<noteq> unat d div 256"
    using assms(4) by (metis div_mult_mod_eq word_unat_eq_iff)
  then have "adler32 (?h @ le32_bytes c) \<noteq> adler32 (?h @ le32_bytes d)"
    using radix16 [OF _ adler32_count(2) [OF h assms(2) e] adler32_count(2) [OF h assms(3) e]]
      adler32_count(1) [OF h assms(2) e] adler32_count(1) [OF h assms(3) e]
    by (metis (no_types, lifting) same_sums)
  then show ?thesis
    using assms(1) by (simp add: generate_mac_def rdn_def le32_bytes_inj is_broadcast_mac_def)
qed

text \<open>
  The first 65536 sessions on a device get pairwise different addresses, and none of them is the
  broadcast address.
\<close>

theorem generated_macs_distinct:
  assumes "6 \<le> length hw" and "unat c < 65536" and "unat d < 65536" and "c \<noteq> d"
  shows "\<exists>m n. generate_mac hw c = Some (m, c + 1) \<and> generate_mac hw d = Some (n, d + 1)
    \<and> m \<noteq> n \<and> length m = 6 \<and> is_broadcast_mac m = Some False"
  using assms by (rule generate_mac_distinct)

theorem generated_macs_distinct_witness:
  "\<exists>m n. generate_mac [0x14,0xE6,0xE4,0x3C,0x33,0xA0] 0 = Some (m, 1)
     \<and> generate_mac [0x14,0xE6,0xE4,0x3C,0x33,0xA0] 1 = Some (n, 2) \<and> m \<noteq> n"
  using generated_macs_distinct [of "[0x14,0xE6,0xE4,0x3C,0x33,0xA0]" 0 1] by auto

text \<open>Beyond that the checksum repeats: the sessions number 512 and 65537 of a device share an address.\<close>

lemma generated_macs_collide:
  "map_option fst (generate_mac [0x14,0xE6,0xE4,0x3C,0x33,0xA0] 512) =
   map_option fst (generate_mac [0x14,0xE6,0xE4,0x3C,0x33,0xA0] 65537)"
  by (simp add: generate_mac_def rdn_def adler32_def le32_bytes_def Let_def)

subsection \<open>Delivery and accounting\<close>

lemma console_out_ok:
  "packet_analyze c p len = Some (out, v) \<Longrightarrow> \<exists>o' \<in> {'''', out}. console_out c p len s = Some o'"
  by (auto simp: console_out_def split: option.split)

text \<open>
  A frame that the analyser can classify, and that no session without a ring wants, is delivered to every session that wants it, once each,
  and to no other: the other sessions, the sender's among them, are left as they were, and the result
  is the number of sessions reached.
\<close>

theorem packet_deliver_reaches_exactly:
  assumes "12 \<le> length p" and "distinct (map s_addr (sessions f))"
    and "length (sessions f) < 2 ^ 32 - 1" and "packet_analyze c p len = Some (out, v)"
    and "all_ready p dev (sessions f)"
  shows "\<exists>f'. packet_deliver ci cm c dev p len f =
        Some (word_of_nat (length (filter (wants p dev) (sessions f))), f')
    \<and> length (sessions f') = length (sessions f)
    \<and> (\<forall>i < length (sessions f). sessions f' ! i =
          (if wants p dev (sessions f ! i) then delivered ci cm p len (sessions f ! i)
           else sessions f ! i))
    \<and> (\<forall>s \<in> set (sessions f). s_mac s = take 6 (drop 6 p) \<longrightarrow> s \<in> set (sessions f'))
    \<and> console f' \<in> {console f, console f @ out}"
proof -
  obtain o' where o: "console_out c p len (List.find (wants p dev) (sessions f)) = Some o'"
    and o': "o' \<in> {'''', out}"
    using console_out_ok [OF assms(4)] by blast
  let ?f = "f\<lparr>sessions := map (deliver_if ci cm dev p len) (sessions f), console := console f @ o'\<rparr>"
  have "packet_deliver ci cm c dev p len f =
      Some (word_of_nat (length (filter (wants p dev) (sessions f))), ?f)"
    using packet_deliver_spec [OF assms(1-3), of ci cm c dev len] o assms(5) by simp
  moreover have "s \<in> set (sessions ?f)" if "s \<in> set (sessions f)" "s_mac s = take 6 (drop 6 p)" for s
  proof -
    have "deliver_if ci cm dev p len s = s" using that(2) by (simp add: deliver_if_def wants_def)
    then show ?thesis using that(1) by force
  qed
  ultimately show ?thesis
    using o' by (intro exI [of _ ?f]) (auto simp: deliver_if_def)
qed

text \<open>Three sessions on a one-slot ring, and a broadcast sent by the second.\<close>

definition demo_info :: info where
  "demo_info = \<lparr>i_mac = replicate 6 0, i_mtu = 1500, num_rx = 0, rx_dropped = 0, rx_bytes = 0,
     num_tx = 0, tx_dropped = 0, tx_bytes = 0, i_ip_addr = 0\<rparr>"

definition demo_sessions :: "nat session list" where
  "demo_sessions =
     map (\<lambda>a. \<lparr>s_addr = a, s_active = True, s_debug = True, s_want_bcast = True, s_dev = ''lo'',
        s_mac = replicate 6 (word_of_nat a), head_chunk = Some demo_info, rx_ring = Some 0\<rparr>) [1, 2, 3]"

definition demo_frame :: bytes where
  "demo_frame = replicate 6 255 @ replicate 6 2 @ [8, 6] @ replicate 28 0"

lemma demo_frame_analyzed: "packet_analyze shipped demo_frame 42 = 
   Some ('''', ETHERTYPE_ARP)"
proof -
  have "le16 6 8 = ETHERTYPE_ARP" by (simp add: le16_eq_iff lo8_def hi8_def ETHERTYPE_ARP_def)
  moreover have "length demo_frame = 42" "demo_frame ! 12 = 8" "demo_frame ! 13 = 6"
    by (simp_all add: demo_frame_def nth_append)
  ultimately show ?thesis
    by (simp add: packet_analyze_def parse_eth_def parse_arp_def shipped_def rd16_def layout_defs
        swap16_le16 print_mac_def print_ip_def rdn_def ETHERTYPE_ARP_def)
qed

lemma demo_wants: "filter (wants demo_frame ''lo'') demo_sessions = [demo_sessions ! 0, demo_sessions ! 2]"
  "wants demo_frame ''lo'' (demo_sessions ! 0)" "\<not> wants demo_frame ''lo'' (demo_sessions ! 1)"
  by (simp_all add: wants_def demo_sessions_def demo_frame_def replicate_eq_replicate)

lemma demo_ready: "all_ready p dev demo_sessions"
  by (simp add: all_ready_def ready_def demo_sessions_def)

definition received :: "'r session \<Rightarrow> u32" where
  "received s = (case head_chunk s of None \<Rightarrow> 0 | Some i \<Rightarrow> num_rx i)"

theorem packet_deliver_reaches_exactly_witness:
  "\<exists>f'. packet_deliver (\<lambda>p n r. (if r = 0 then 0 else - 12, Suc r)) id shipped ''lo'' demo_frame 42
        \<lparr>sessions = demo_sessions, console = ''''\<rparr> = Some (2, f')
     \<and> received (sessions f' ! 0) = 1 \<and> received (sessions f' ! 1) = 0"
proof -
  have d: "distinct (map s_addr demo_sessions)" "length demo_sessions = 3"
    "12 \<le> length demo_frame" "head_chunk (demo_sessions ! 1) = Some demo_info" "head_chunk (demo_sessions ! 0) = Some demo_info"
     "rx_ring (demo_sessions ! 0) = Some 0" "num_rx demo_info = 0"
    by (simp_all add: demo_sessions_def demo_frame_def demo_info_def)
  show ?thesis
    using packet_deliver_reaches_exactly [OF d(3) _ _ demo_frame_analyzed, 
        of "\<lparr>sessions = demo_sessions, console = ''''\<rparr>" 
          "''lo''" "\<lambda>p n r. (if r = 0 then 0 else - 12, Suc r)" id] d demo_wants demo_ready
    by (auto simp: delivered_def deliver_def received_def)
qed

lemma account_lookup:
  "distinct (map s_addr ss) \<Longrightarrow> s \<in> set ss \<Longrightarrow> 
   g s \<in> set (map (\<lambda>t. if s_addr t = s_addr s then g t else t) ss)"
  by (force simp: inj_on_def distinct_map)

text \<open>
  A round of the transmit thread of a session hands the frame to the device exactly when no
  other session took it or it is a broadcast, only then tells the client that its frame is done,
  and counts the frame once in the client's statistics: as sent when some session or the device
  took it, and as dropped otherwise.
\<close>

theorem xmit_round_accounts:
  assumes "12 \<le> length p" and "distinct (map s_addr (sessions f))"
    and "length (sessions f) < 2 ^ 32 - 1" and "packet_analyze c p len = Some (out, v)"
    and "all_ready p dev (sessions f)" and chunk: "head_chunk s = Some i"
    and s: "s \<in> set (sessions f)" and own: "s_mac s = take 6 (drop 6 p)"
  shows "\<exists>f' direct. xmit_round ci cm c transmit dev (s_addr s) p len (f, n) =
        Some (direct, f', if direct then snd (transmit p len n) else n)
    \<and> (direct \<longleftrightarrow> (\<forall>t \<in> set (sessions f). \<not> wants p dev t) \<or> take 6 p = replicate 6 0xff)
    \<and> (if (\<exists>t \<in> set (sessions f). wants p dev t) \<or> fst (transmit p len n) = 0
       then s\<lparr>head_chunk := Some (i\<lparr>num_tx := num_tx i + 1, tx_bytes := tx_bytes i + len\<rparr>)\<rparr> \<in> set (sessions f')
       else s\<lparr>head_chunk := Some (i\<lparr>tx_dropped := tx_dropped i + 1\<rparr>)\<rparr> \<in> set (sessions f'))"
proof -
  obtain o' where o: "console_out c p len (List.find (wants p dev) (sessions f)) = Some o'"
    using console_out_ok [OF assms(4)] by blast
  let ?ss = "map (deliver_if ci cm dev p len) (sessions f)"
  let ?k = "length (filter (wants p dev) (sessions f))"
  have pd: "packet_deliver ci cm c dev p len f =
      Some (word_of_nat ?k, f\<lparr>sessions := ?ss, console := console f @ o'\<rparr>)"
    using packet_deliver_spec [OF assms(1-3), of ci cm c dev len] o assms(5) by simp
  have "?k < 2 ^ 32" using le_less_trans [OF length_filter_le assms(3), of "wants p dev"] by simp
  then have "word_of_nat ?k = (0 :: u32) \<longleftrightarrow> ?k = 0"
    by (auto simp: word_of_nat_eq_0_iff dest: dvd_imp_le)
  then have k: "word_of_nat ?k = (0 :: u32) \<longleftrightarrow> (\<forall>t \<in> set (sessions f). \<not> wants p dev t)"
    by (auto simp: filter_empty_conv)
  have "s = deliver_if ci cm dev p len s" using own by (simp add: deliver_if_def wants_def)
  then have m: "s \<in> set ?ss" using s by (metis image_eqI list.set_map)
  have d: "distinct (map s_addr ?ss)" using assms(2) by (simp add: deliver_if_def comp_def if_distrib cong: if_cong)
  have bc: "is_broadcast_mac p = Some (take 6 p = replicate 6 0xff)"
    using assms(1) by (simp add: is_broadcast_mac_def rdn_def numeral_eq_Suc)
  obtain e n' where t: "transmit p len n = (e, n')" by fastforce
  note look = account_lookup [OF d m]
  show ?thesis
    using look [of "\<lambda>s. s\<lparr>head_chunk := map_option (\<lambda>i. i\<lparr>num_tx := num_tx i + 1, tx_bytes := tx_bytes i + len\<rparr>) (head_chunk s)\<rparr>"]
      look [of "\<lambda>s. s\<lparr>head_chunk := map_option (\<lambda>i. i\<lparr>tx_dropped := tx_dropped i + 1\<rparr>) (head_chunk s)\<rparr>"] chunk
    by (simp add: xmit_round_def pd bc t k Let_def) 
qed

theorem xmit_round_accounts_witness:
  "\<exists>f'. xmit_round (\<lambda>p n r. (if r = 0 then 0 else - 12, Suc r)) id shipped (\<lambda>p n k. (0, Suc k)) ''lo'' 2
        demo_frame 42 (\<lparr>sessions = demo_sessions, console = ''''\<rparr>, 0) = Some (True, f', 1)
     \<and> (\<exists>s \<in> set (sessions f'). \<exists>i. head_chunk s = Some i \<and> num_tx i = 1)"
proof -
  have d: "distinct (map s_addr demo_sessions)" "length demo_sessions = 3"
    "12 \<le> length demo_frame" "demo_sessions ! 1 \<in> set demo_sessions"
    "s_mac (demo_sessions ! 1) = take 6 (drop 6 demo_frame)" "s_addr (demo_sessions ! 1) = 2"
    "take 6 demo_frame = replicate 6 0xff" "head_chunk (demo_sessions ! 1) = Some demo_info" "num_tx demo_info = 0"
    by (simp_all add: demo_sessions_def demo_frame_def demo_info_def)
  show ?thesis
    using xmit_round_accounts [OF d(3) _ _ demo_frame_analyzed, 
        of "\<lparr>sessions = demo_sessions, console = ''''\<rparr>" "''lo''" "demo_sessions ! 1" demo_info
          "\<lambda>p n r. (if r = 0 then 0 else - 12, Suc r)" id "\<lambda>p n k. (0, Suc k)" 0] d demo_ready
    by (fastforce intro: bexI [of _ "(demo_sessions ! 1)\<lparr>head_chunk := Some (demo_info\<lparr>num_tx := 1, tx_bytes := tx_bytes demo_info + 42\<rparr>)\<rparr>"])
qed

end
