(* ===== verification/Hieth_Regs.thy ===== *)
theory Hieth_Regs imports Prelude "HOL-Library.State_Monad" begin

section \<open>The Hieth Ethernet controller: registers and bit fields (\<open>hisfv300\<close>)\<close>

text \<open>
  The register layer of the driver under \<open>git/ankh/server/netlib/hisfv300\<close>: \<open>hieth.h\<close> (volatile
  loads and stores, bit-field descriptors), \<open>ctrl.c\<close> (interrupts, endianness, queue depth),
  \<open>mac.c\<close> (link state, negotiation mode, interframe gap), \<open>glb.c\<close> (global initialisation) and
  \<open>sys.c\<close> (clock and reset). The hardware is not code: a volatile load, a volatile store and
  \<open>udelay\<close> are the three operations of a record \<open>hw\<close> on an arbitrary device state \<open>'d\<close>, where a
  load may change the device. Each C function is a computation of \<open>State_Monad\<close> over that state.
  \<open>unsigned long\<close> and \<open>int\<close> are 32 bits wide on the target, so the values that go through
  registers are \<open>u32\<close>. Trace output and the lock macros (defined empty) are left out.
\<close>

subsection \<open>Volatile accesses\<close>

record 'd hw =
  hw_load :: "u32 \<Rightarrow> 'd \<Rightarrow> u32 \<times> 'd"
  hw_store :: "u32 \<Rightarrow> u32 \<Rightarrow> 'd \<Rightarrow> 'd"
  hw_udelay :: "nat \<Rightarrow> 'd \<Rightarrow> 'd"

definition u_readl :: "'d hw \<Rightarrow> u32 \<Rightarrow> ('d, u32) state" where
  "u_readl h c = State (hw_load h c)"

definition u_writel :: "'d hw \<Rightarrow> u32 \<Rightarrow> u32 \<Rightarrow> ('d, unit) state" where
  "u_writel h v c = State (\<lambda>d. ((), hw_store h c v d))"

definition udelay :: "'d hw \<Rightarrow> nat \<Rightarrow> ('d, unit) state" where
  "udelay h us = State (\<lambda>d. ((), hw_udelay h us d))"

text \<open>The two structures of the driver. \<open>port\<close> is a one-bit field that is only compared with \<open>0\<close>.\<close>

datatype port = UP_PORT | DOWN_PORT

record netdev =
  iobase_phys :: u32
  nd_port :: port
  phy_name :: string
  link_stat :: u32

record mdiodev =
  mdio_iobase :: u32
  mdio_frqdiv :: u32

definition REG_BASE_SF :: u32 where "REG_BASE_SF = 0x600D0000"

definition hieth_readl :: "'d hw \<Rightarrow> u32 \<Rightarrow> u32 \<Rightarrow> ('d, u32) state" where
  "hieth_readl h base ofs = u_readl h (base + ofs)"

definition hieth_writel :: "'d hw \<Rightarrow> u32 \<Rightarrow> u32 \<Rightarrow> u32 \<Rightarrow> ('d, unit) state" where
  "hieth_writel h base v ofs = u_writel h v (base + ofs)"

subsection \<open>Bit-field descriptors\<close>

definition MK_BITS :: "u32 \<Rightarrow> u32 \<Rightarrow> u32" where
  "MK_BITS shift nbits = push_bit 16 (shift AND 0x1F) OR (nbits AND 0x1F)"

definition bits_shift :: "u32 \<Rightarrow> nat" where
  "bits_shift desc = unat (drop_bit 16 desc)"

definition bits_mask :: "u32 \<Rightarrow> u32" where
  "bits_mask desc = push_bit (bits_shift desc) (push_bit (unat (desc AND 0x1F)) 1 - 1)"

definition field_put :: "u32 \<Rightarrow> u32 \<Rightarrow> u32 \<Rightarrow> u32" where
  "field_put desc v reg =
     (reg AND NOT (bits_mask desc)) OR (push_bit (bits_shift desc) v AND bits_mask desc)"

definition field_get :: "u32 \<Rightarrow> u32 \<Rightarrow> u32" where
  "field_get desc reg = drop_bit (bits_shift desc) (reg AND bits_mask desc)"

definition hieth_writel_bits :: "'d hw \<Rightarrow> u32 \<Rightarrow> u32 \<Rightarrow> u32 \<Rightarrow> u32 \<Rightarrow> ('d, unit) state" where
  "hieth_writel_bits h base v ofs desc = do {
     reg \<leftarrow> hieth_readl h base ofs;
     hieth_writel h base (field_put desc v reg) ofs
   }"

definition hieth_readl_bits :: "'d hw \<Rightarrow> u32 \<Rightarrow> u32 \<Rightarrow> u32 \<Rightarrow> ('d, u32) state" where
  "hieth_readl_bits h base ofs desc = do {
     reg \<leftarrow> hieth_readl h base ofs;
     State_Monad.return (field_get desc reg)
   }"

text \<open>\<open>UD_REG_NAME\<close> and \<open>UD_BIT_NAME\<close> choose the name of the port.\<close>

definition UD :: "netdev \<Rightarrow> 'a \<Rightarrow> 'a \<Rightarrow> 'a" where
  "UD ld u d = (if nd_port ld = UP_PORT then u else d)"

subsection \<open>Register map\<close>

definition GLB_HOSTMAC_L32 :: u32 where "GLB_HOSTMAC_L32 = 0x1300"
definition GLB_SOFT_RESET :: u32 where "GLB_SOFT_RESET = 0x1308"
definition GLB_FWCTRL :: u32 where "GLB_FWCTRL = 0x1310"
definition GLB_MACTCTRL :: u32 where "GLB_MACTCTRL = 0x1314"
definition GLB_ENDIAN_MOD :: u32 where "GLB_ENDIAN_MOD = 0x1318"
definition GLB_RO_IRQ_STAT :: u32 where "GLB_RO_IRQ_STAT = 0x1330"
definition GLB_RW_IRQ_ENA :: u32 where "GLB_RW_IRQ_ENA = 0x1334"
definition GLB_RW_IRQ_RAW :: u32 where "GLB_RW_IRQ_RAW = 0x1338"
definition GLB_QLEN_SET :: "netdev \<Rightarrow> u32" where "GLB_QLEN_SET ld = UD ld 0x0344 0x2344"
definition GLB_RO_IQFRM_DES :: "netdev \<Rightarrow> u32" where "GLB_RO_IQFRM_DES ld = UD ld 0x0354 0x2354"
definition GLB_IQ_ADDR :: "netdev \<Rightarrow> u32" where "GLB_IQ_ADDR ld = UD ld 0x0358 0x2358"
definition GLB_EQ_ADDR :: "netdev \<Rightarrow> u32" where "GLB_EQ_ADDR ld = UD ld 0x0360 0x2360"
definition GLB_EQFRM_LEN :: "netdev \<Rightarrow> u32" where "GLB_EQFRM_LEN ld = UD ld 0x0364 0x2364"
definition GLB_RO_QUEUE_STAT :: "netdev \<Rightarrow> u32" where "GLB_RO_QUEUE_STAT ld = UD ld 0x036C 0x236C"
definition MAC_PORTSEL :: "netdev \<Rightarrow> u32" where "MAC_PORTSEL ld = UD ld 0x0200 0x2200"
definition MAC_RO_STAT :: "netdev \<Rightarrow> u32" where "MAC_RO_STAT ld = UD ld 0x0204 0x2204"
definition MAC_PORTSET :: "netdev \<Rightarrow> u32" where "MAC_PORTSET ld = UD ld 0x0208 0x2208"
definition MAC_TX_IPGCTRL :: "netdev \<Rightarrow> u32" where "MAC_TX_IPGCTRL ld = UD ld 0x0218 0x2218"

lemmas reg_map = REG_BASE_SF_def UD_def GLB_HOSTMAC_L32_def GLB_SOFT_RESET_def GLB_FWCTRL_def
  GLB_MACTCTRL_def GLB_ENDIAN_MOD_def GLB_RO_IRQ_STAT_def GLB_RW_IRQ_ENA_def GLB_RW_IRQ_RAW_def
  GLB_QLEN_SET_def GLB_RO_IQFRM_DES_def GLB_IQ_ADDR_def GLB_EQ_ADDR_def GLB_EQFRM_LEN_def
  GLB_RO_QUEUE_STAT_def MAC_PORTSEL_def MAC_RO_STAT_def MAC_PORTSET_def MAC_TX_IPGCTRL_def

definition BITS_ENDIAN :: u32 where "BITS_ENDIAN = MK_BITS 0 2"
definition BITS_RXQ_DEP :: u32 where "BITS_RXQ_DEP = MK_BITS 8 6"
definition BITS_TXQ_DEP :: u32 where "BITS_TXQ_DEP = MK_BITS 0 6"
definition BITS_RXPKG_LEN :: u32 where "BITS_RXPKG_LEN = MK_BITS 0 11"
definition BITS_TXINQ_LEN :: u32 where "BITS_TXINQ_LEN = MK_BITS 0 11"
definition BITS_XMITQ_RDY :: u32 where "BITS_XMITQ_RDY = MK_BITS 24 1"
definition BITS_RECVQ_RDY :: u32 where "BITS_RECVQ_RDY = MK_BITS 25 1"
definition BITS_IRQS :: "netdev \<Rightarrow> u32" where "BITS_IRQS ld = UD ld (MK_BITS 0 8) (MK_BITS 20 8)"
definition BITS_IRQS_ENA :: "netdev \<Rightarrow> u32" where
  "BITS_IRQS_ENA ld = UD ld (MK_BITS 18 1) (MK_BITS 17 1)"
definition BITS_IRQS_ENA_ALLPORT :: u32 where "BITS_IRQS_ENA_ALLPORT = MK_BITS 19 1"
definition HIETH_INT_RX_RDY :: "netdev \<Rightarrow> u32" where
  "HIETH_INT_RX_RDY ld = UD ld (push_bit 0 1) (push_bit 20 1)"
definition HIETH_INT_TXQUE_RDY :: "netdev \<Rightarrow> u32" where
  "HIETH_INT_TXQUE_RDY ld = UD ld (push_bit 6 1) (push_bit 26 1)"
definition BITS_MACSTAT :: u32 where "BITS_MACSTAT = MK_BITS 0 3"
definition BITS_NEGMODE :: u32 where "BITS_NEGMODE = MK_BITS 0 1"
definition BITS_MII_MODE :: u32 where "BITS_MII_MODE = MK_BITS 1 1"
definition BITS_PRE_CNT_LIMIT :: u32 where "BITS_PRE_CNT_LIMIT = MK_BITS 23 3"
definition BITS_IPG :: u32 where "BITS_IPG = MK_BITS 16 7"
definition BITS_FC_INTER :: u32 where "BITS_FC_INTER = MK_BITS 0 16"

lemmas bits_map = BITS_ENDIAN_def BITS_RXQ_DEP_def BITS_TXQ_DEP_def BITS_RXPKG_LEN_def
  BITS_TXINQ_LEN_def BITS_XMITQ_RDY_def BITS_RECVQ_RDY_def BITS_IRQS_def BITS_IRQS_ENA_def
  BITS_IRQS_ENA_ALLPORT_def BITS_MACSTAT_def BITS_NEGMODE_def BITS_MII_MODE_def
  BITS_PRE_CNT_LIMIT_def BITS_IPG_def BITS_FC_INTER_def

subsection \<open>\<open>ctrl.c\<close>: interrupts, byte order, queue depth\<close>

definition hieth_irq_enable_nolock :: "'d hw \<Rightarrow> netdev \<Rightarrow> u32 \<Rightarrow> ('d, u32) state" where
  "hieth_irq_enable_nolock h ld irqs = do {
     old \<leftarrow> hieth_readl h (iobase_phys ld) GLB_RW_IRQ_ENA;
     _ \<leftarrow> hieth_writel h (iobase_phys ld) (old OR irqs) GLB_RW_IRQ_ENA;
     State_Monad.return old
   }"

definition hieth_irq_enable :: "'d hw \<Rightarrow> netdev \<Rightarrow> u32 \<Rightarrow> ('d, u32) state" where
  "hieth_irq_enable h ld irqs = hieth_irq_enable_nolock h ld irqs"

definition hieth_irq_disable_nolock :: "'d hw \<Rightarrow> netdev \<Rightarrow> u32 \<Rightarrow> ('d, u32) state" where
  "hieth_irq_disable_nolock h ld irqs = do {
     old \<leftarrow> hieth_readl h (iobase_phys ld) GLB_RW_IRQ_ENA;
     _ \<leftarrow> hieth_writel h (iobase_phys ld) (old AND NOT irqs) GLB_RW_IRQ_ENA;
     State_Monad.return old
   }"

definition hieth_irq_disable :: "'d hw \<Rightarrow> netdev \<Rightarrow> u32 \<Rightarrow> ('d, u32) state" where
  "hieth_irq_disable h ld irqs = hieth_irq_disable_nolock h ld irqs"

definition hieth_read_irqstatus_nolock :: "'d hw \<Rightarrow> netdev \<Rightarrow> ('d, u32) state" where
  "hieth_read_irqstatus_nolock h ld = hieth_readl h (iobase_phys ld) GLB_RO_IRQ_STAT"

definition hieth_read_irqstatus :: "'d hw \<Rightarrow> netdev \<Rightarrow> ('d, u32) state" where
  "hieth_read_irqstatus h ld = hieth_read_irqstatus_nolock h ld"

definition hieth_read_raw_irqstatus :: "'d hw \<Rightarrow> netdev \<Rightarrow> ('d, u32) state" where
  "hieth_read_raw_irqstatus h ld = hieth_readl h (iobase_phys ld) GLB_RO_IRQ_STAT"

definition hieth_clear_irqstatus :: "'d hw \<Rightarrow> netdev \<Rightarrow> u32 \<Rightarrow> ('d, u32) state" where
  "hieth_clear_irqstatus h ld irqs = do {
     _ \<leftarrow> hieth_writel h (iobase_phys ld) irqs GLB_RW_IRQ_RAW;
     hieth_read_irqstatus_nolock h ld
   }"

text \<open>Read the old value of a field, write a new one: the shape of most setters.\<close>

definition exchange_bits :: "'d hw \<Rightarrow> netdev \<Rightarrow> u32 \<Rightarrow> u32 \<Rightarrow> u32 \<Rightarrow> ('d, u32) state" where
  "exchange_bits h ld v ofs desc = do {
     old \<leftarrow> hieth_readl_bits h (iobase_phys ld) ofs desc;
     _ \<leftarrow> hieth_writel_bits h (iobase_phys ld) v ofs desc;
     State_Monad.return old
   }"

definition test_xmit_queue_ready :: "'d hw \<Rightarrow> netdev \<Rightarrow> ('d, u32) state" where
  "test_xmit_queue_ready h ld = hieth_readl_bits h (iobase_phys ld) (GLB_RO_QUEUE_STAT ld) BITS_XMITQ_RDY"

definition test_recv_queue_ready :: "'d hw \<Rightarrow> netdev \<Rightarrow> ('d, u32) state" where
  "test_recv_queue_ready h ld = hieth_readl_bits h (iobase_phys ld) (GLB_RO_QUEUE_STAT ld) BITS_RECVQ_RDY"

definition hieth_set_endian_mode :: "'d hw \<Rightarrow> netdev \<Rightarrow> u32 \<Rightarrow> ('d, u32) state" where
  "hieth_set_endian_mode h ld mode = exchange_bits h ld mode GLB_ENDIAN_MOD BITS_ENDIAN"

definition hieth_set_queue_number :: "'d hw \<Rightarrow> netdev \<Rightarrow> u32 \<Rightarrow> ('d, u32) state" where
  "hieth_set_queue_number h ld no = do {
     _ \<leftarrow> hieth_writel_bits h (iobase_phys ld) no 0x0344 (MK_BITS 8 6);
     State_Monad.return 0
   }"

subsection \<open>\<open>mac.c\<close>: link state, negotiation, interframe gap\<close>

definition hieth_set_linkstat_nolock :: "'d hw \<Rightarrow> netdev \<Rightarrow> u32 \<Rightarrow> ('d, u32) state" where
  "hieth_set_linkstat_nolock h ld mode = exchange_bits h ld mode (MAC_PORTSET ld) BITS_MACSTAT"

definition hieth_set_linkstat :: "'d hw \<Rightarrow> netdev \<Rightarrow> u32 \<Rightarrow> ('d, u32) state" where
  "hieth_set_linkstat h ld mode = hieth_set_linkstat_nolock h ld mode"

definition hieth_get_linkstat :: "'d hw \<Rightarrow> netdev \<Rightarrow> ('d, u32) state" where
  "hieth_get_linkstat h ld = hieth_readl_bits h (iobase_phys ld) (MAC_RO_STAT ld) BITS_MACSTAT"

definition hieth_set_negmode_nolock :: "'d hw \<Rightarrow> netdev \<Rightarrow> u32 \<Rightarrow> ('d, u32) state" where
  "hieth_set_negmode_nolock h ld mode = exchange_bits h ld mode (MAC_PORTSEL ld) BITS_NEGMODE"

definition hieth_set_negmode :: "'d hw \<Rightarrow> netdev \<Rightarrow> u32 \<Rightarrow> ('d, u32) state" where
  "hieth_set_negmode h ld mode = hieth_set_negmode_nolock h ld mode"

definition hieth_get_negmode_nolock :: "'d hw \<Rightarrow> netdev \<Rightarrow> ('d, u32) state" where
  "hieth_get_negmode_nolock h ld = hieth_readl_bits h (iobase_phys ld) (MAC_PORTSEL ld) BITS_NEGMODE"

definition hieth_get_negmode :: "'d hw \<Rightarrow> netdev \<Rightarrow> ('d, u32) state" where
  "hieth_get_negmode h ld = hieth_get_negmode_nolock h ld"

definition hieth_set_mii_mode :: "'d hw \<Rightarrow> netdev \<Rightarrow> u32 \<Rightarrow> ('d, u32) state" where
  "hieth_set_mii_mode h ld mode = exchange_bits h ld mode (MAC_PORTSEL ld) BITS_MII_MODE"

definition hieth_set_mac_leadcode_cnt_limit :: "'d hw \<Rightarrow> netdev \<Rightarrow> u32 \<Rightarrow> ('d, u32) state" where
  "hieth_set_mac_leadcode_cnt_limit h ld cnt =
     exchange_bits h ld cnt (MAC_TX_IPGCTRL ld) BITS_PRE_CNT_LIMIT"

definition hieth_set_mac_fc_interval :: "'d hw \<Rightarrow> netdev \<Rightarrow> u32 \<Rightarrow> ('d, u32) state" where
  "hieth_set_mac_fc_interval h ld para =
     exchange_bits h ld para (MAC_TX_IPGCTRL ld) BITS_FC_INTER"

definition hieth_set_mac_trans_interval_bits :: "'d hw \<Rightarrow> netdev \<Rightarrow> u32 \<Rightarrow> ('d, u32) state" where
  "hieth_set_mac_trans_interval_bits h ld nbits = do {
     negmode \<leftarrow> hieth_set_negmode_nolock h ld 1;
     linkstat \<leftarrow> hieth_set_linkstat_nolock h ld 0;
     _ \<leftarrow> udelay h 1000;
     old \<leftarrow> hieth_readl_bits h (iobase_phys ld) (MAC_TX_IPGCTRL ld) BITS_IPG;
     _ \<leftarrow> hieth_writel_bits h (iobase_phys ld) nbits (MAC_TX_IPGCTRL ld) BITS_IPG;
     _ \<leftarrow> udelay h 100;
     _ \<leftarrow> hieth_set_negmode_nolock h ld negmode;
     _ \<leftarrow> hieth_set_linkstat_nolock h ld linkstat;
     State_Monad.return old
   }"

subsection \<open>\<open>glb.c\<close>: global initialisation of a port\<close>

definition hieth_glb_preinit_dummy :: "'d hw \<Rightarrow> netdev \<Rightarrow> ('d, u32) state" where
  "hieth_glb_preinit_dummy h ld = (let b = iobase_phys ld in do {
     _ \<leftarrow> hieth_writel_bits h b 1 GLB_SOFT_RESET (MK_BITS 0 1);
     _ \<leftarrow> udelay h 1000;
     _ \<leftarrow> hieth_writel_bits h b 0 GLB_SOFT_RESET (MK_BITS 0 1);
     _ \<leftarrow> hieth_set_endian_mode h ld 3;
     _ \<leftarrow> hieth_set_linkstat h ld 0;
     _ \<leftarrow> hieth_set_negmode h ld 1;
     _ \<leftarrow> hieth_set_mii_mode h ld 1;
     _ \<leftarrow> hieth_writel_bits h b (- 1) GLB_RW_IRQ_ENA (BITS_IRQS ld);
     _ \<leftarrow> hieth_writel_bits h b (- 1) GLB_RW_IRQ_ENA (BITS_IRQS_ENA ld);
     _ \<leftarrow> hieth_writel_bits h b (- 1) GLB_RW_IRQ_ENA BITS_IRQS_ENA_ALLPORT;
     _ \<leftarrow> hieth_irq_disable h ld (- 1);
     _ \<leftarrow> hieth_writel h b 0 GLB_FWCTRL;
     _ \<leftarrow> hieth_writel h b 0 GLB_MACTCTRL;
     _ \<leftarrow> hieth_writel_bits h b 0 GLB_FWCTRL (MK_BITS 0 1);
     _ \<leftarrow> hieth_writel_bits h b 1 GLB_FWCTRL (MK_BITS 5 1);
     _ \<leftarrow> hieth_writel_bits h b 0 GLB_FWCTRL (MK_BITS 7 1);
     _ \<leftarrow> hieth_writel_bits h b 1 GLB_MACTCTRL (MK_BITS 5 1);
     _ \<leftarrow> hieth_writel_bits h b 1 GLB_MACTCTRL (MK_BITS 7 1);
     _ \<leftarrow> hieth_writel_bits h b 1 GLB_FWCTRL (MK_BITS 9 1);
     _ \<leftarrow> hieth_writel_bits h b 0 GLB_FWCTRL (MK_BITS 11 1);
     _ \<leftarrow> hieth_writel_bits h b 1 GLB_MACTCTRL (MK_BITS 13 1);
     _ \<leftarrow> hieth_writel_bits h b 1 GLB_MACTCTRL (MK_BITS 15 1);
     _ \<leftarrow> hieth_set_mac_leadcode_cnt_limit h ld 0;
     State_Monad.return 0
   })"

subsection \<open>\<open>sys.c\<close>: clock and reset of the controller\<close>

definition HIETH_SYSREG_BASE :: u32 where "HIETH_SYSREG_BASE = 0x10200000 + 0x00A8"

definition hieth_set_regbit :: "'d hw \<Rightarrow> u32 \<Rightarrow> u32 \<Rightarrow> nat \<Rightarrow> ('d, unit) state" where
  "hieth_set_regbit h reg b shift = do {
     v \<leftarrow> u_readl h reg;
     u_writel h ((v AND NOT (push_bit shift 1)) OR push_bit shift (if b \<noteq> 0 then 1 else 0)) reg
   }"

definition hieth_reset :: "'d hw \<Rightarrow> u32 \<Rightarrow> ('d, unit) state" where
  "hieth_reset h rst = do {
     _ \<leftarrow> hieth_set_regbit h HIETH_SYSREG_BASE rst 0;
     udelay h 100
   }"

definition hieth_clk_ena :: "'d hw \<Rightarrow> ('d, unit) state" where
  "hieth_clk_ena h = do {
     _ \<leftarrow> u_writel h (push_bit 8 1) HIETH_SYSREG_BASE;
     udelay h 100
   }"

definition hieth_sys_reset :: "'d hw \<Rightarrow> ('d, unit) state" where
  "hieth_sys_reset h = hieth_reset h 0"

definition hieth_sys_startup :: "'d hw \<Rightarrow> ('d, unit) state" where
  "hieth_sys_startup h = do { _ \<leftarrow> hieth_clk_ena h; hieth_sys_reset h }"

definition hieth_sys_init :: "'d hw \<Rightarrow> ('d, unit) state" where
  "hieth_sys_init h = do { _ \<leftarrow> hieth_clk_ena h; hieth_reset h 0 }"

subsection \<open>Laws of bit fields\<close>

lemma mask_1F: "(0x1F :: u32) = mask 5" by (simp add: mask_eq_exp_minus_1)

lemma bits_shift_MK [simp]: "bits_shift (MK_BITS s n) = unat (s AND 0x1F)"
proof -
  have "drop_bit 16 (MK_BITS s n) = s AND 0x1F"
    unfolding MK_BITS_def mask_1F
    by (rule bit_word_eqI) (auto simp: bit_simps dest: bit_imp_le_length)
  then show ?thesis by (simp add: bits_shift_def)
qed

lemma bits_width_MK [simp]: "MK_BITS s n AND 0x1F = n AND 0x1F"
  unfolding MK_BITS_def mask_1F
  by (rule bit_word_eqI) (auto simp: bit_simps dest: bit_imp_le_length)

lemma bits_mask_MK: "bits_mask (MK_BITS s n) = push_bit (unat (s AND 0x1F)) (mask (unat (n AND 0x1F)))"
  by (simp add: bits_mask_def mask_eq_exp_minus_1 push_bit_eq_mult)

lemma unat_1F: "k < 32 \<Longrightarrow> unat (word_of_nat k AND (0x1F :: u32)) = k"
  by (simp only: mask_1F unat_and_mask) (simp add: unat_of_nat32)

lemma bit_bits_mask:
  "\<lbrakk>s < 32; n < 32\<rbrakk> \<Longrightarrow> bit (bits_mask (MK_BITS (word_of_nat s) (word_of_nat n))) i \<longleftrightarrow>
     s \<le> i \<and> i < s + n \<and> i < 32"
  by (simp only: bits_mask_MK unat_1F) (auto simp: bit_simps)

lemma bit_mask_ge_shift: "bit (bits_mask desc) i \<Longrightarrow> bits_shift desc \<le> i"
  by (auto simp: bits_mask_def bit_push_bit_iff)

lemma bit_field_put: "bit (field_put desc v reg) i \<longleftrightarrow>
    i < 32 \<and> (if bit (bits_mask desc) i then bit v (i - bits_shift desc) else bit reg i)"
  by (auto simp: field_put_def bit_simps dest: bit_mask_ge_shift bit_imp_le_length)

lemma bit_field_get: "bit (field_get desc reg) i \<longleftrightarrow>
    bit reg (i + bits_shift desc) \<and> bit (bits_mask desc) (i + bits_shift desc)"
  by (auto simp: field_get_def bit_simps add.commute)

lemma field_get_put_same:
  assumes "s + n \<le> 32" "s < 32" "n < 32"
  shows "field_get (MK_BITS (word_of_nat s) (word_of_nat n))
           (field_put (MK_BITS (word_of_nat s) (word_of_nat n)) v reg) = take_bit n v"
  by (rule bit_word_eqI)
    (use assms in \<open>auto simp: bit_field_get bit_field_put bit_bits_mask unat_1F bit_take_bit_iff\<close>)

lemma field_get_put_other:
  assumes "bits_mask d AND bits_mask e = 0"
  shows "field_get e (field_put d v reg) = field_get e reg"
proof (rule bit_word_eqI)
  fix i
  have "\<not> (bit (bits_mask d) (i + bits_shift e) \<and> bit (bits_mask e) (i + bits_shift e))"
    using assms by (metis bit_and_iff bit_0_eq bot_apply bot_bool_def)
  then show "bit (field_get e (field_put d v reg)) i \<longleftrightarrow> bit (field_get e reg) i"
    by (auto simp: bit_field_get bit_field_put dest: bit_imp_le_length)
qed

lemma field_put_old: "field_put d (field_get d r) (field_put d v r) = r"
  by (rule bit_word_eqI)
    (auto simp: bit_field_get bit_field_put bit_mask_ge_shift dest: bit_imp_le_length)

subsection \<open>Configuration registers\<close>

text \<open>
  The reference device is a plain memory. \<open>config_regs h \<alpha> R\<close> says what the code relies on for the
  addresses of \<open>R\<close>: seen through \<open>\<alpha>\<close>, a load returns the register and changes nothing, a store
  changes that register alone, a delay changes nothing. Nothing is assumed of other addresses.
\<close>

definition mem_hw :: "(u32 \<Rightarrow> u32) hw" where
  "mem_hw = \<lparr>hw_load = (\<lambda>a m. (m a, m)), hw_store = (\<lambda>a v m. m(a := v)), hw_udelay = (\<lambda>_ m. m)\<rparr>"

definition config_regs :: "'d hw \<Rightarrow> ('d \<Rightarrow> u32 \<Rightarrow> u32) \<Rightarrow> u32 set \<Rightarrow> bool" where
  "config_regs h \<alpha> R \<longleftrightarrow>
     (\<forall>a\<in>R. \<forall>d. fst (hw_load h a d) = \<alpha> d a \<and> \<alpha> (snd (hw_load h a d)) = \<alpha> d) \<and>
     (\<forall>a\<in>R. \<forall>v d. \<alpha> (hw_store h a v d) = (\<alpha> d)(a := v)) \<and>
     (\<forall>n d. \<alpha> (hw_udelay h n d) = \<alpha> d)"

lemma config_regs_mem [simp]: "config_regs mem_hw (\<lambda>m. m) R"
  by (simp add: config_regs_def mem_hw_def)

definition refines :: "('d \<Rightarrow> 'e) \<Rightarrow> ('d, 'a) state \<Rightarrow> ('e, 'a) state \<Rightarrow> bool" where
  "refines \<alpha> c m \<longleftrightarrow> (\<forall>d. fst (run_state c d) = fst (run_state m (\<alpha> d)) \<and>
                          \<alpha> (snd (run_state c d)) = snd (run_state m (\<alpha> d)))"

named_theorems refine "a driver computation refines the same computation on a memory"

lemma refinesD:
  assumes "refines \<alpha> c m" "run_state c d = (x, d')"
  shows "run_state m (\<alpha> d) = (x, \<alpha> d')"
  using assms unfolding refines_def by (metis fst_conv snd_conv prod.collapse)

lemma refines_return [refine]: "refines \<alpha> (State_Monad.return x) (State_Monad.return x)"
  by (simp add: refines_def)

lemma refines_bind [refine]:
  "\<lbrakk>refines \<alpha> c m; \<And>x. refines \<alpha> (f x) (g x)\<rbrakk> \<Longrightarrow> refines \<alpha> (c \<bind> f) (m \<bind> g)"
  by (auto simp: refines_def split: prod.splits) (metis fst_conv snd_conv)+

lemma refines_readl [refine]:
  "\<lbrakk>config_regs h \<alpha> R; base + ofs \<in> R\<rbrakk> \<Longrightarrow>
     refines \<alpha> (hieth_readl h base ofs) (hieth_readl mem_hw base ofs)"
  by (simp add: refines_def config_regs_def hieth_readl_def u_readl_def mem_hw_def)

lemma refines_writel [refine]:
  "\<lbrakk>config_regs h \<alpha> R; base + ofs \<in> R\<rbrakk> \<Longrightarrow>
     refines \<alpha> (hieth_writel h base v ofs) (hieth_writel mem_hw base v ofs)"
  by (simp add: refines_def config_regs_def hieth_writel_def u_writel_def mem_hw_def)

lemma refines_udelay [refine]:
  "config_regs h \<alpha> R \<Longrightarrow> refines \<alpha> (udelay h n) (udelay mem_hw n)"
  by (simp add: refines_def config_regs_def udelay_def mem_hw_def)

lemma refines_writel_bits [refine]:
  "\<lbrakk>config_regs h \<alpha> R; base + ofs \<in> R\<rbrakk> \<Longrightarrow>
     refines \<alpha> (hieth_writel_bits h base v ofs d) (hieth_writel_bits mem_hw base v ofs d)"
  unfolding hieth_writel_bits_def by (intro refine; assumption)

lemma refines_readl_bits [refine]:
  "\<lbrakk>config_regs h \<alpha> R; base + ofs \<in> R\<rbrakk> \<Longrightarrow>
     refines \<alpha> (hieth_readl_bits h base ofs d) (hieth_readl_bits mem_hw base ofs d)"
  unfolding hieth_readl_bits_def by (intro refine; assumption)

lemma refines_exchange [refine]:
  "\<lbrakk>config_regs h \<alpha> R; iobase_phys ld + ofs \<in> R\<rbrakk> \<Longrightarrow>
     refines \<alpha> (exchange_bits h ld v ofs d) (exchange_bits mem_hw ld v ofs d)"
  unfolding exchange_bits_def by (intro refine; assumption)

text \<open>The memory device computes.\<close>

lemma mem_readl [simp]: "run_state (hieth_readl mem_hw b ofs) m = (m (b + ofs), m)"
  by (simp add: hieth_readl_def u_readl_def mem_hw_def)

lemma mem_writel [simp]: "run_state (hieth_writel mem_hw b v ofs) m = ((), m(b + ofs := v))"
  by (simp add: hieth_writel_def u_writel_def mem_hw_def)

lemma mem_udelay [simp]: "run_state (udelay mem_hw n) m = ((), m)"
  by (simp add: udelay_def mem_hw_def)

lemma mem_writel_bits [simp]:
  "run_state (hieth_writel_bits mem_hw b v ofs d) m = ((), m(b + ofs := field_put d v (m (b + ofs))))"
  by (simp add: hieth_writel_bits_def)

lemma mem_readl_bits [simp]:
  "run_state (hieth_readl_bits mem_hw b ofs d) m = (field_get d (m (b + ofs)), m)"
  by (simp add: hieth_readl_bits_def)

lemma mem_exchange [simp]: "run_state (exchange_bits mem_hw ld v ofs d) m =
    (field_get d (m (iobase_phys ld + ofs)),
     m(iobase_phys ld + ofs := field_put d v (m (iobase_phys ld + ofs))))"
  by (simp add: exchange_bits_def)

subsection \<open>The setters on configuration registers\<close>

lemma refines_linkstat [refine]:
  "\<lbrakk>config_regs h \<alpha> R; iobase_phys ld + MAC_PORTSET ld \<in> R\<rbrakk> \<Longrightarrow>
     refines \<alpha> (hieth_set_linkstat h ld v) (hieth_set_linkstat mem_hw ld v)"
  unfolding hieth_set_linkstat_def hieth_set_linkstat_nolock_def by (rule refine)

lemma refines_negmode [refine]:
  "\<lbrakk>config_regs h \<alpha> R; iobase_phys ld + MAC_PORTSEL ld \<in> R\<rbrakk> \<Longrightarrow>
     refines \<alpha> (hieth_set_negmode h ld v) (hieth_set_negmode mem_hw ld v)"
  unfolding hieth_set_negmode_def hieth_set_negmode_nolock_def by (rule refine)

lemma refines_mii_mode [refine]:
  "\<lbrakk>config_regs h \<alpha> R; iobase_phys ld + MAC_PORTSEL ld \<in> R\<rbrakk> \<Longrightarrow>
     refines \<alpha> (hieth_set_mii_mode h ld v) (hieth_set_mii_mode mem_hw ld v)"
  unfolding hieth_set_mii_mode_def by (rule refine)

lemma refines_endian [refine]:
  "\<lbrakk>config_regs h \<alpha> R; iobase_phys ld + GLB_ENDIAN_MOD \<in> R\<rbrakk> \<Longrightarrow>
     refines \<alpha> (hieth_set_endian_mode h ld v) (hieth_set_endian_mode mem_hw ld v)"
  unfolding hieth_set_endian_mode_def by (rule refine)

lemma refines_leadcode [refine]:
  "\<lbrakk>config_regs h \<alpha> R; iobase_phys ld + MAC_TX_IPGCTRL ld \<in> R\<rbrakk> \<Longrightarrow>
     refines \<alpha> (hieth_set_mac_leadcode_cnt_limit h ld v) (hieth_set_mac_leadcode_cnt_limit mem_hw ld v)"
  unfolding hieth_set_mac_leadcode_cnt_limit_def by (rule refine)

lemma refines_irq_disable [refine]:
  "\<lbrakk>config_regs h \<alpha> R; iobase_phys ld + GLB_RW_IRQ_ENA \<in> R\<rbrakk> \<Longrightarrow>
     refines \<alpha> (hieth_irq_disable h ld v) (hieth_irq_disable mem_hw ld v)"
  unfolding hieth_irq_disable_def hieth_irq_disable_nolock_def by (intro refine; assumption)

lemma refines_irq_enable [refine]:
  "\<lbrakk>config_regs h \<alpha> R; iobase_phys ld + GLB_RW_IRQ_ENA \<in> R\<rbrakk> \<Longrightarrow>
     refines \<alpha> (hieth_irq_enable h ld v) (hieth_irq_enable mem_hw ld v)"
  unfolding hieth_irq_enable_def hieth_irq_enable_nolock_def by (intro refine; assumption)

lemma mem_irq_disable [simp]: "run_state (hieth_irq_disable mem_hw ld v) m =
    (m (iobase_phys ld + GLB_RW_IRQ_ENA),
     m(iobase_phys ld + GLB_RW_IRQ_ENA := m (iobase_phys ld + GLB_RW_IRQ_ENA) AND NOT v))"
  by (simp add: hieth_irq_disable_def hieth_irq_disable_nolock_def)

lemma mem_irq_enable [simp]: "run_state (hieth_irq_enable mem_hw ld v) m =
    (m (iobase_phys ld + GLB_RW_IRQ_ENA),
     m(iobase_phys ld + GLB_RW_IRQ_ENA := m (iobase_phys ld + GLB_RW_IRQ_ENA) OR v))"
  by (simp add: hieth_irq_enable_def hieth_irq_enable_nolock_def)

definition glb_registers :: "netdev \<Rightarrow> u32 set" where
  "glb_registers ld = (\<lambda>a. iobase_phys ld + a) `
     {GLB_FWCTRL, GLB_MACTCTRL, GLB_ENDIAN_MOD, GLB_RW_IRQ_ENA, MAC_PORTSEL ld, MAC_PORTSET ld,
      MAC_TX_IPGCTRL ld}"

lemma glb_registers_mem [simp]:
  "iobase_phys ld + GLB_FWCTRL \<in> glb_registers ld" "iobase_phys ld + GLB_MACTCTRL \<in> glb_registers ld"
  "iobase_phys ld + GLB_ENDIAN_MOD \<in> glb_registers ld" "iobase_phys ld + GLB_RW_IRQ_ENA \<in> glb_registers ld"
  "iobase_phys ld + MAC_PORTSEL ld \<in> glb_registers ld" "iobase_phys ld + MAC_PORTSET ld \<in> glb_registers ld"
  "iobase_phys ld + MAC_TX_IPGCTRL ld \<in> glb_registers ld"
  by (simp_all add: glb_registers_def)

text \<open>The part of the initialisation after the soft reset works on configuration registers only.\<close>

definition glb_configure :: "'d hw \<Rightarrow> netdev \<Rightarrow> ('d, u32) state" where
  "glb_configure h ld = (let b = iobase_phys ld in do {
     _ \<leftarrow> hieth_set_endian_mode h ld 3;
     _ \<leftarrow> hieth_set_linkstat h ld 0;
     _ \<leftarrow> hieth_set_negmode h ld 1;
     _ \<leftarrow> hieth_set_mii_mode h ld 1;
     _ \<leftarrow> hieth_writel_bits h b (- 1) GLB_RW_IRQ_ENA (BITS_IRQS ld);
     _ \<leftarrow> hieth_writel_bits h b (- 1) GLB_RW_IRQ_ENA (BITS_IRQS_ENA ld);
     _ \<leftarrow> hieth_writel_bits h b (- 1) GLB_RW_IRQ_ENA BITS_IRQS_ENA_ALLPORT;
     _ \<leftarrow> hieth_irq_disable h ld (- 1);
     _ \<leftarrow> hieth_writel h b 0 GLB_FWCTRL;
     _ \<leftarrow> hieth_writel h b 0 GLB_MACTCTRL;
     _ \<leftarrow> hieth_writel_bits h b 0 GLB_FWCTRL (MK_BITS 0 1);
     _ \<leftarrow> hieth_writel_bits h b 1 GLB_FWCTRL (MK_BITS 5 1);
     _ \<leftarrow> hieth_writel_bits h b 0 GLB_FWCTRL (MK_BITS 7 1);
     _ \<leftarrow> hieth_writel_bits h b 1 GLB_MACTCTRL (MK_BITS 5 1);
     _ \<leftarrow> hieth_writel_bits h b 1 GLB_MACTCTRL (MK_BITS 7 1);
     _ \<leftarrow> hieth_writel_bits h b 1 GLB_FWCTRL (MK_BITS 9 1);
     _ \<leftarrow> hieth_writel_bits h b 0 GLB_FWCTRL (MK_BITS 11 1);
     _ \<leftarrow> hieth_writel_bits h b 1 GLB_MACTCTRL (MK_BITS 13 1);
     _ \<leftarrow> hieth_writel_bits h b 1 GLB_MACTCTRL (MK_BITS 15 1);
     _ \<leftarrow> hieth_set_mac_leadcode_cnt_limit h ld 0;
     State_Monad.return 0
   })"

lemma preinit_split: "hieth_glb_preinit_dummy h ld = (let b = iobase_phys ld in do {
     _ \<leftarrow> hieth_writel_bits h b 1 GLB_SOFT_RESET (MK_BITS 0 1);
     _ \<leftarrow> udelay h 1000;
     _ \<leftarrow> hieth_writel_bits h b 0 GLB_SOFT_RESET (MK_BITS 0 1);
     glb_configure h ld })"
  by (simp only: hieth_glb_preinit_dummy_def glb_configure_def Let_def)

lemma refines_configure [refine]:
  assumes cr: "config_regs h \<alpha> (glb_registers ld)"
  shows "refines \<alpha> (glb_configure h ld) (glb_configure mem_hw ld)"
  unfolding glb_configure_def Let_def
  by (intro refines_bind refines_return refines_endian [OF cr] refines_linkstat [OF cr]
    refines_negmode [OF cr] refines_mii_mode [OF cr] refines_writel_bits [OF cr]
    refines_writel [OF cr] refines_irq_disable [OF cr] refines_leadcode [OF cr] glb_registers_mem)

text \<open>The state that the initialisation promises, as a predicate on the registers.\<close>

definition glb_initialised :: "netdev \<Rightarrow> (u32 \<Rightarrow> u32) \<Rightarrow> bool" where
  "glb_initialised ld m \<longleftrightarrow> (let b = iobase_phys ld in
     m (b + GLB_FWCTRL) = 0x220 \<and> m (b + GLB_MACTCTRL) = 0xA0A0 \<and> m (b + GLB_RW_IRQ_ENA) = 0 \<and>
     field_get BITS_ENDIAN (m (b + GLB_ENDIAN_MOD)) = 3 \<and>
     field_get BITS_MACSTAT (m (b + MAC_PORTSET ld)) = 0 \<and>
     field_get BITS_NEGMODE (m (b + MAC_PORTSEL ld)) = 1 \<and>
     field_get BITS_MII_MODE (m (b + MAC_PORTSEL ld)) = 1 \<and>
     field_get BITS_PRE_CNT_LIMIT (m (b + MAC_TX_IPGCTRL ld)) = 0)"

lemma mask_fwctrl: "field_put (MK_BITS 11 1) 0 (field_put (MK_BITS 9 1) 1 (field_put (MK_BITS 7 1) 0
    (field_put (MK_BITS 5 1) 1 (field_put (MK_BITS 0 1) 0 (0 :: u32))))) = 0x220"
  by (simp add: field_put_def MK_BITS_def bits_mask_def bits_shift_def)

lemma mask_mactctrl: "field_put (MK_BITS 15 1) 1 (field_put (MK_BITS 13 1) 1 (field_put (MK_BITS 7 1) 1
    (field_put (MK_BITS 5 1) 1 (0 :: u32)))) = 0xA0A0"
  by (simp add: field_put_def MK_BITS_def bits_mask_def bits_shift_def)

lemma get_put_endian: "field_get BITS_ENDIAN (field_put BITS_ENDIAN v r) = take_bit 2 v"
  using field_get_put_same [of 0 2 v r] by (simp add: BITS_ENDIAN_def)

lemma get_put_macstat: "field_get BITS_MACSTAT (field_put BITS_MACSTAT v r) = take_bit 3 v"
  using field_get_put_same [of 0 3 v r] by (simp add: BITS_MACSTAT_def)

lemma get_put_negmode: "field_get BITS_NEGMODE (field_put BITS_NEGMODE v r) = take_bit 1 v"
  using field_get_put_same [of 0 1 v r] by (simp add: BITS_NEGMODE_def)

lemma get_put_mii: "field_get BITS_MII_MODE (field_put BITS_MII_MODE v r) = take_bit 1 v"
  using field_get_put_same [of 1 1 v r] by (simp add: BITS_MII_MODE_def)

lemma get_put_pre_cnt: "field_get BITS_PRE_CNT_LIMIT (field_put BITS_PRE_CNT_LIMIT v r) = take_bit 3 v"
  using field_get_put_same [of 23 3 v r] by (simp add: BITS_PRE_CNT_LIMIT_def)

lemma get_put_ipg: "field_get BITS_IPG (field_put BITS_IPG v r) = take_bit 7 v"
  using field_get_put_same [of 16 7 v r] by (simp add: BITS_IPG_def)

lemma negmode_not_mii: "field_get BITS_NEGMODE (field_put BITS_MII_MODE v r) = field_get BITS_NEGMODE r"
  by (rule field_get_put_other)
    (simp add: BITS_MII_MODE_def BITS_NEGMODE_def bits_mask_def bits_shift_def MK_BITS_def)

lemmas get_puts = get_put_endian get_put_macstat get_put_negmode get_put_mii get_put_pre_cnt
  negmode_not_mii get_put_ipg

lemma configure_mem: "glb_initialised ld (snd (run_state (glb_configure mem_hw ld) m))"
  by (cases "nd_port ld")
    (simp_all add: glb_configure_def glb_initialised_def Let_def mask_fwctrl mask_mactctrl
      hieth_set_endian_mode_def hieth_set_linkstat_def hieth_set_linkstat_nolock_def hieth_set_negmode_def hieth_set_negmode_nolock_def hieth_set_mii_mode_def
      hieth_set_mac_leadcode_cnt_limit_def reg_map get_puts)

subsection \<open>What the register layer guarantees\<close>

text \<open>
  C21: writing a bit field and reading it back gives the value cut to the width of the field; every
  field of the same register that does not overlap it, and every other configuration register,
  still reads what it read before.
\<close>

theorem register_fields_are_independent:
  assumes "config_regs h \<alpha> R" and "base + ofs \<in> R" and "s + n \<le> 32" and "s < 32" and "n < 32"
    and "run_state (hieth_writel_bits h base v ofs (MK_BITS (word_of_nat s) (word_of_nat n))) d = ((), d')"
  shows "fst (run_state (hieth_readl_bits h base ofs (MK_BITS (word_of_nat s) (word_of_nat n))) d')
           = take_bit n v \<and>
    (\<forall>e. bits_mask (MK_BITS (word_of_nat s) (word_of_nat n)) AND bits_mask e = 0 \<longrightarrow>
       fst (run_state (hieth_readl_bits h base ofs e) d') = fst (run_state (hieth_readl_bits h base ofs e) d)) \<and>
    (\<forall>b. base + b \<in> R \<and> b \<noteq> ofs \<longrightarrow>
       fst (run_state (hieth_readl h base b) d') = fst (run_state (hieth_readl h base b) d))"
proof -
  have a: "\<alpha> d' = (\<alpha> d)(base + ofs := field_put (MK_BITS (word_of_nat s) (word_of_nat n)) v (\<alpha> d (base + ofs)))"
    using refinesD [OF refines_writel_bits [OF assms(1,2)] assms(6)] by simp
  have rb: "fst (run_state (hieth_readl_bits h base ofs f) x) = field_get f (\<alpha> x (base + ofs))" for f x
    using refines_readl_bits [OF assms(1,2), of f] by (simp add: refines_def)
  have rr: "fst (run_state (hieth_readl h base b) x) = \<alpha> x (base + b)" if "base + b \<in> R" for x b
    using refines_readl [OF assms(1) that] by (simp add: refines_def)
  show ?thesis
    using assms(3-5) by (simp add: rb rr a field_get_put_same field_get_put_other)
qed

text \<open>A port at the base address of the chip and a memory in which every register reads all ones.\<close>

definition demo_port :: "port \<Rightarrow> netdev" where
  "demo_port p = \<lparr>iobase_phys = REG_BASE_SF, nd_port = p, phy_name = ''0:1'', link_stat = 0\<rparr>"

theorem register_fields_are_independent_witness:
  "fst (run_state (hieth_readl_bits mem_hw REG_BASE_SF 0x344 (MK_BITS 8 6))
     (snd (run_state (hieth_writel_bits mem_hw REG_BASE_SF 0x47 0x344 (MK_BITS 8 6)) (\<lambda>_. - 1)))) = 7 \<and>
   fst (run_state (hieth_readl_bits mem_hw REG_BASE_SF 0x344 (MK_BITS 0 6))
     (snd (run_state (hieth_writel_bits mem_hw REG_BASE_SF 0x47 0x344 (MK_BITS 8 6)) (\<lambda>_. - 1)))) = 63"
proof -
  define d' :: "u32 \<Rightarrow> u32" where
    "d' = snd (run_state (hieth_writel_bits mem_hw REG_BASE_SF 0x47 0x344 (MK_BITS 8 6)) (\<lambda>_. - 1))"
  have r: "run_state (hieth_writel_bits mem_hw REG_BASE_SF 0x47 0x344
      (MK_BITS (word_of_nat 8) (word_of_nat 6))) (\<lambda>_. - 1) = ((), d')"
    by (simp add: d'_def)
  note w = register_fields_are_independent [of mem_hw "\<lambda>m. m" UNIV, OF config_regs_mem UNIV_I _ _ _ r]
  have "fst (run_state (hieth_readl_bits mem_hw REG_BASE_SF 0x344 (MK_BITS 8 6)) d') = take_bit 6 0x47"
    using w by simp
  moreover have "bits_mask (MK_BITS (word_of_nat 8) (word_of_nat 6)) AND bits_mask (MK_BITS 0 6) = 0"
    by (simp add: MK_BITS_def bits_mask_def bits_shift_def)
  then have "fst (run_state (hieth_readl_bits mem_hw REG_BASE_SF 0x344 (MK_BITS 0 6)) d') =
      fst (run_state (hieth_readl_bits mem_hw REG_BASE_SF 0x344 (MK_BITS 0 6)) (\<lambda>_. - 1))"
    using w by simp
  then have "fst (run_state (hieth_readl_bits mem_hw REG_BASE_SF 0x344 (MK_BITS 0 6)) d') = 63"
    by (simp add: field_get_def MK_BITS_def bits_mask_def bits_shift_def)
  ultimately show ?thesis
    unfolding d'_def [symmetric] by (simp add: take_bit_eq_mask mask_eq_exp_minus_1)
qed

text \<open>
  Whatever state the controller is in, and whatever the soft reset does to it, after
  \<open>hieth_glb_preinit_dummy\<close> frames for the CPU and broadcasts are forwarded on both ports with the
  address filter on (forwarding register \<open>0x220\<close>, filter register \<open>0xA0A0\<close>), every interrupt is
  masked, the byte order is little-endian, the link state is cleared, negotiation is under CPU
  control and the port is in RMII mode; the call returns 0.
\<close>

theorem preinit_configures_port:
  assumes "config_regs h \<alpha> (glb_registers ld)"
    and "run_state (hieth_glb_preinit_dummy h ld) d = (r, d')"
  shows "r = 0 \<and> glb_initialised ld (\<alpha> d')"
proof -
  obtain d1 where d1: "run_state (glb_configure h ld) d1 = (r, d')"
    using assms(2) by (auto simp: preinit_split Let_def split: prod.splits)
  have m: "run_state (glb_configure mem_hw ld) (\<alpha> d1) = (r, \<alpha> d')"
    by (rule refinesD [OF refines_configure [OF assms(1)] d1])
  then have "r = 0"
    by (auto simp: glb_configure_def Let_def split: prod.splits)
  then show ?thesis using configure_mem [of ld "\<alpha> d1"] m by simp
qed

theorem preinit_configures_port_witness:
  "glb_initialised (demo_port DOWN_PORT)
     (snd (run_state (hieth_glb_preinit_dummy mem_hw (demo_port DOWN_PORT)) (\<lambda>_. - 1)))"
  using preinit_configures_port [of mem_hw "\<lambda>m. m" "demo_port DOWN_PORT" "\<lambda>_. - 1"]
  by (metis config_regs_mem prod.collapse)

text \<open>
  \<open>hieth_set_mac_trans_interval_bits\<close> changes the interframe gap and nothing else: the
  negotiation mode and the link state that it overrides while the gap changes are put back exactly,
  with every other bit of their registers, and the old gap is returned.
\<close>

theorem gap_change_is_transparent:
  assumes "config_regs h \<alpha> R"
    and "iobase_phys ld + MAC_PORTSEL ld \<in> R" and "iobase_phys ld + MAC_PORTSET ld \<in> R"
    and "iobase_phys ld + MAC_TX_IPGCTRL ld \<in> R"
    and "run_state (hieth_set_mac_trans_interval_bits h ld nbits) d = (old, d')"
  shows "old = field_get BITS_IPG (\<alpha> d (iobase_phys ld + MAC_TX_IPGCTRL ld)) \<and>
    \<alpha> d' = (\<alpha> d)(iobase_phys ld + MAC_TX_IPGCTRL ld :=
       field_put BITS_IPG nbits (\<alpha> d (iobase_phys ld + MAC_TX_IPGCTRL ld)))"
proof -
  have "refines \<alpha> (hieth_set_mac_trans_interval_bits h ld nbits)
      (hieth_set_mac_trans_interval_bits mem_hw ld nbits)"
    unfolding hieth_set_mac_trans_interval_bits_def hieth_set_negmode_nolock_def
      hieth_set_linkstat_nolock_def
    by (intro refines_bind refines_return refines_exchange [OF assms(1)]
      refines_readl_bits [OF assms(1)] refines_writel_bits [OF assms(1)] refines_udelay [OF assms(1)] assms)
  note m = refinesD [OF this assms(5)]
  have "old = fst (run_state (hieth_set_mac_trans_interval_bits mem_hw ld nbits) (\<alpha> d))"
    and "\<alpha> d' = snd (run_state (hieth_set_mac_trans_interval_bits mem_hw ld nbits) (\<alpha> d))"
    by (simp_all add: m)
  then show ?thesis
    by (cases "nd_port ld") (auto simp: fun_eq_iff hieth_set_mac_trans_interval_bits_def hieth_set_negmode_def hieth_set_negmode_nolock_def
      hieth_set_linkstat_def hieth_set_linkstat_nolock_def reg_map field_put_old)
qed

theorem gap_change_is_transparent_witness:
  "run_state (hieth_set_mac_trans_interval_bits mem_hw (demo_port UP_PORT) 12) (\<lambda>_. 0) =
     (0, (\<lambda>_. 0)(REG_BASE_SF + 0x218 := 0xC0000))"
proof -
  define r where "r = run_state (hieth_set_mac_trans_interval_bits mem_hw (demo_port UP_PORT) 12) (\<lambda>_. 0)"
  have r: "run_state (hieth_set_mac_trans_interval_bits mem_hw (demo_port UP_PORT) 12) (\<lambda>_. 0) = (fst r, snd r)"
    by (simp add: r_def)
  have "fst r = 0 \<and> snd r = (\<lambda>_. 0)(REG_BASE_SF + 0x218 := 0xC0000)"
    using gap_change_is_transparent [of mem_hw "\<lambda>m. m" UNIV, OF config_regs_mem UNIV_I UNIV_I UNIV_I r]
    by (simp add: demo_port_def reg_map BITS_IPG_def field_put_def field_get_def bits_mask_def
      bits_shift_def MK_BITS_def)
  then show ?thesis by (metis r_def prod.collapse)
qed

end
