(* ===== verification/Hieth_Mii.thy ===== *)
theory Hieth_Mii imports Hieth_Regs begin

section \<open>The MDIO bus and the PHY layer (\<open>mdio.c\<close>, \<open>mii-drv.c\<close>, \<open>miiphyutil.c\<close>)\<close>

text \<open>
  \<open>mdio.c\<close> drives the management bus of the controller by polling, \<open>common/miiphyutil.c\<close> keeps the
  list of registered buses and reads PHY registers through their function pointers, and \<open>mii-drv.c\<close>
  registers the two ports and probes their PHYs. A function pointer of type
  \<open>int read(char *, uchar, uchar, ushort *)\<close> is a computation that returns its result with \<open>Some v\<close>
  when it stored \<open>v\<close> through the last argument and \<open>None\<close> when it stored nothing; a local variable
  is \<open>None\<close> until it is stored, and using it then has no defined result (\<open>None\<close> of the outer
  option).
\<close>

subsection \<open>\<open>mdio.c\<close>\<close>

definition MDIO_RWCTRL :: u32 where "MDIO_RWCTRL = 0x1100"
definition MDIO_RO_DATA :: u32 where "MDIO_RO_DATA = 0x1104"
definition MDIO_PHYADDR :: "port \<Rightarrow> u32" where
  "MDIO_PHYADDR p = (case p of UP_PORT \<Rightarrow> 0x0108 | DOWN_PORT \<Rightarrow> 0x2108)"
definition MDIO_ANEG_CTRL :: "port \<Rightarrow> u32" where
  "MDIO_ANEG_CTRL p = (case p of UP_PORT \<Rightarrow> 0x0110 | DOWN_PORT \<Rightarrow> 0x2110)"
definition MDIO_IRQENA :: "port \<Rightarrow> u32" where
  "MDIO_IRQENA p = (case p of UP_PORT \<Rightarrow> 0x0114 | DOWN_PORT \<Rightarrow> 0x2114)"

definition MDIO_MK_RWCTL :: "u32 \<Rightarrow> u32 \<Rightarrow> u32 \<Rightarrow> u32 \<Rightarrow> u32 \<Rightarrow> u32 \<Rightarrow> u32" where
  "MDIO_MK_RWCTL cpu_data_in finish rw phy_exaddr frq_div phy_regnum =
     push_bit 16 cpu_data_in OR push_bit 15 (finish AND 0x01) OR push_bit 13 (rw AND 0x01) OR
     push_bit 8 (phy_exaddr AND 0x1F) OR push_bit 5 (frq_div AND 0x7) OR (phy_regnum AND 0x1F)"

definition test_mdio_ready :: "'d hw \<Rightarrow> mdiodev \<Rightarrow> ('d, bool) state" where
  "test_mdio_ready h ld = do {
     r \<leftarrow> hieth_readl h (mdio_iobase ld) MDIO_RWCTRL;
     State_Monad.return (r AND push_bit 15 1 \<noteq> 0)
   }"

definition mdio_start_phyread :: "'d hw \<Rightarrow> mdiodev \<Rightarrow> u32 \<Rightarrow> u32 \<Rightarrow> ('d, unit) state" where
  "mdio_start_phyread h ld phy_addr regnum =
     hieth_writel h (mdio_iobase ld) (MDIO_MK_RWCTL 0 0 0 phy_addr (mdio_frqdiv ld) regnum) MDIO_RWCTRL"

definition mdio_get_phyread_val :: "'d hw \<Rightarrow> mdiodev \<Rightarrow> ('d, u32) state" where
  "mdio_get_phyread_val h ld = do {
     r \<leftarrow> hieth_readl h (mdio_iobase ld) MDIO_RO_DATA;
     State_Monad.return (r AND 0xFFFF)
   }"

definition mdio_phywrite :: "'d hw \<Rightarrow> mdiodev \<Rightarrow> u32 \<Rightarrow> u32 \<Rightarrow> u32 \<Rightarrow> ('d, unit) state" where
  "mdio_phywrite h ld phy_addr regnum v =
     hieth_writel h (mdio_iobase ld) (MDIO_MK_RWCTL v 0 1 phy_addr (mdio_frqdiv ld) regnum) MDIO_RWCTRL"

text \<open>\<open>while (--timeout_us && !ready) udelay(1)\<close>, then the value of \<open>timeout_us\<close>.\<close>

fun mdio_poll :: "'d hw \<Rightarrow> mdiodev \<Rightarrow> nat \<Rightarrow> ('d, nat) state" where
  "mdio_poll h ld 0 = State_Monad.return 0"
| "mdio_poll h ld (Suc t) =
     (if t = 0 then State_Monad.return 0
      else do {
        ready \<leftarrow> test_mdio_ready h ld;
        (if ready then State_Monad.return t
         else do { _ \<leftarrow> udelay h 1; mdio_poll h ld t })
      })"

definition wait_mdio_ready :: "'d hw \<Rightarrow> mdiodev \<Rightarrow> ('d, nat) state" where
  "wait_mdio_ready h ld = mdio_poll h ld 100"

definition hieth_mdio_read :: "'d hw \<Rightarrow> mdiodev \<Rightarrow> u32 \<Rightarrow> u32 \<Rightarrow> ('d, u32) state" where
  "hieth_mdio_read h ld phy_addr regnum = do {
     t \<leftarrow> wait_mdio_ready h ld;
     (if t = 0 then State_Monad.return 0
      else do {
        _ \<leftarrow> mdio_start_phyread h ld phy_addr regnum;
        t' \<leftarrow> wait_mdio_ready h ld;
        (if t' \<noteq> 0 then mdio_get_phyread_val h ld else State_Monad.return 0)
      })
   }"

text \<open>The function computes \<open>ret\<close> (-1 when the bus is busy) but returns \<open>val\<close>.\<close>

definition hieth_mdio_write :: "'d hw \<Rightarrow> mdiodev \<Rightarrow> u32 \<Rightarrow> u32 \<Rightarrow> u32 \<Rightarrow> ('d, u32) state" where
  "hieth_mdio_write h ld phy_addr regnum v = do {
     t \<leftarrow> wait_mdio_ready h ld;
     (if t = 0 then State_Monad.return v
      else do {
        _ \<leftarrow> mdio_phywrite h ld phy_addr regnum v;
        State_Monad.return v
      })
   }"

definition mdio_reg_reset :: "'d hw \<Rightarrow> mdiodev \<Rightarrow> ('d, unit) state" where
  "mdio_reg_reset h ld = (let b = mdio_iobase ld in do {
     _ \<leftarrow> hieth_writel h b 0x00008000 MDIO_RWCTRL;
     _ \<leftarrow> hieth_writel h b 0x00000001 (MDIO_PHYADDR UP_PORT);
     _ \<leftarrow> hieth_writel h b 0x00000001 (MDIO_PHYADDR DOWN_PORT);
     _ \<leftarrow> hieth_writel h b 0x04631EA9 (MDIO_ANEG_CTRL UP_PORT);
     _ \<leftarrow> hieth_writel h b 0x04631EA9 (MDIO_ANEG_CTRL DOWN_PORT);
     _ \<leftarrow> hieth_writel h b 0x00000000 (MDIO_IRQENA UP_PORT);
     hieth_writel h b 0x00000000 (MDIO_IRQENA DOWN_PORT)
   })"

definition hieth_mdio_reset :: "'d hw \<Rightarrow> mdiodev \<Rightarrow> ('d, u32) state" where
  "hieth_mdio_reset h ld = do { _ \<leftarrow> mdio_reg_reset h ld; State_Monad.return 0 }"

definition hieth_mdio_init :: "'d hw \<Rightarrow> mdiodev \<Rightarrow> ('d, u32) state" where
  "hieth_mdio_init h ld = do { _ \<leftarrow> hieth_mdio_reset h ld; State_Monad.return 0 }"

subsection \<open>The list of buses (\<open>miiphyutil.c\<close>)\<close>

type_synonym 'd mii_read = "string \<Rightarrow> u8 \<Rightarrow> u8 \<Rightarrow> ('d, u32 \<times> u16 option) state"
type_synonym 'd mii_write = "string \<Rightarrow> u8 \<Rightarrow> u8 \<Rightarrow> u16 \<Rightarrow> ('d, u32) state"

record 'd mii_dev =
  md_name :: string
  md_read :: "'d mii_read"
  md_write :: "'d mii_write"

text \<open>The state: \<open>current_mii\<close> is kept as the name of its device, names being unique.\<close>

record 'd mii =
  mii_devs :: "'d mii_dev list"
  current_mii :: "string option"
  bus :: 'd

definition on_bus :: "('d, 'a) state \<Rightarrow> 'd mii \<Rightarrow> 'a \<times> 'd mii" where
  "on_bus c s = (case run_state c (bus s) of (x, d) \<Rightarrow> (x, s\<lparr>bus := d\<rparr>))"

definition miiphy_init :: "'d mii \<Rightarrow> 'd mii" where
  "miiphy_init s = s\<lparr>mii_devs := [], current_mii := None\<rparr>"

text \<open>\<open>alloc\<close> says whether \<open>malloc\<close> returns memory.\<close>

definition miiphy_register :: "bool \<Rightarrow> string \<Rightarrow> 'd mii_read \<Rightarrow> 'd mii_write \<Rightarrow> 'd mii \<Rightarrow> 'd mii" where
  "miiphy_register alloc name rd wr s =
     (if list_ex (\<lambda>m. md_name m = name) (mii_devs s) then s
      else if \<not> alloc then s
      else s\<lparr>mii_devs := mii_devs s @ [\<lparr>md_name = name, md_read = rd, md_write = wr\<rparr>],
             current_mii := (case current_mii s of None \<Rightarrow> Some name | Some c \<Rightarrow> Some c)\<rparr>)"

definition miiphy_set_current_dev :: "string \<Rightarrow> 'd mii \<Rightarrow> u32 \<times> 'd mii" where
  "miiphy_set_current_dev devname s =
     (case find (\<lambda>m. md_name m = devname) (mii_devs s) of
        Some m \<Rightarrow> (0, s\<lparr>current_mii := Some (md_name m)\<rparr>)
      | None \<Rightarrow> (1, s))"

definition miiphy_get_current_dev :: "'d mii \<Rightarrow> string option" where
  "miiphy_get_current_dev s = current_mii s"

definition miiphy_read :: "string option \<Rightarrow> u8 \<Rightarrow> u8 \<Rightarrow> 'd mii \<Rightarrow> (u32 \<times> u16 option) \<times> 'd mii" where
  "miiphy_read devname addr reg s =
     (case devname of
        None \<Rightarrow> ((1, None), s)
      | Some n \<Rightarrow>
          (case find (\<lambda>m. md_name m = n) (mii_devs s) of
             Some m \<Rightarrow> on_bus (md_read m n addr reg) s
           | None \<Rightarrow> ((1, None), s)))"

definition miiphy_write :: "string option \<Rightarrow> u8 \<Rightarrow> u8 \<Rightarrow> u16 \<Rightarrow> 'd mii \<Rightarrow> u32 \<times> 'd mii" where
  "miiphy_write devname addr reg v s =
     (case devname of
        None \<Rightarrow> (1, s)
      | Some n \<Rightarrow>
          (case find (\<lambda>m. md_name m = n) (mii_devs s) of
             Some m \<Rightarrow> on_bus (md_write m n addr reg v) s
           | None \<Rightarrow> (1, s)))"

text \<open>The content of a variable after a call that may have stored into it.\<close>

definition stored :: "u16 option \<Rightarrow> u16 option \<Rightarrow> u16 option" where
  "stored old new = (case new of Some v \<Rightarrow> Some v | None \<Rightarrow> old)"

subsection \<open>PHY registers\<close>

definition PHY_BMCR :: u8 where "PHY_BMCR = 0x00"
definition PHY_BMSR :: u8 where "PHY_BMSR = 0x01"
definition PHY_PHYIDR1 :: u8 where "PHY_PHYIDR1 = 0x02"
definition PHY_PHYIDR2 :: u8 where "PHY_PHYIDR2 = 0x03"
definition PHY_ANAR :: u8 where "PHY_ANAR = 0x04"
definition PHY_ANLPAR :: u8 where "PHY_ANLPAR = 0x05"
definition PHY_1000BTSR :: u8 where "PHY_1000BTSR = 0x0A"
definition PHY_EXSR :: u8 where "PHY_EXSR = 0x0F"
definition PHY_BMCR_RESET :: u16 where "PHY_BMCR_RESET = 0x8000"
definition PHY_BMCR_100MB :: u16 where "PHY_BMCR_100MB = 0x2000"
definition PHY_BMCR_AUTON :: u16 where "PHY_BMCR_AUTON = 0x1000"
definition PHY_BMCR_DPLX :: u16 where "PHY_BMCR_DPLX = 0x0100"
definition PHY_BMSR_LS :: u16 where "PHY_BMSR_LS = 0x0004"
definition PHY_ANLPAR_TXFD :: u16 where "PHY_ANLPAR_TXFD = 0x0100"
definition PHY_ANLPAR_10FD :: u16 where "PHY_ANLPAR_10FD = 0x0040"
definition PHY_ANLPAR_100 :: u16 where "PHY_ANLPAR_100 = 0x0380"
definition PHY_1000BTSR_1000FD :: u16 where "PHY_1000BTSR_1000FD = 0x0800"
definition PHY_1000BTSR_1000HD :: u16 where "PHY_1000BTSR_1000HD = 0x0400"
definition PHY_EXSR_1000XF :: u16 where "PHY_EXSR_1000XF = 0x8000"
definition PHY_EXSR_1000XH :: u16 where "PHY_EXSR_1000XH = 0x4000"
definition BMSR_ESTATEN :: u16 where "BMSR_ESTATEN = 0x100"

lemmas phy_regs = PHY_BMCR_def PHY_BMSR_def PHY_PHYIDR1_def PHY_PHYIDR2_def PHY_ANAR_def
  PHY_ANLPAR_def PHY_1000BTSR_def PHY_EXSR_def

lemmas phy_bits = PHY_BMCR_RESET_def PHY_BMCR_100MB_def PHY_BMCR_AUTON_def PHY_BMCR_DPLX_def
  PHY_BMSR_LS_def PHY_ANLPAR_TXFD_def PHY_ANLPAR_10FD_def PHY_ANLPAR_100_def
  PHY_1000BTSR_1000FD_def PHY_1000BTSR_1000HD_def PHY_EXSR_1000XF_def PHY_EXSR_1000XH_def
  BMSR_ESTATEN_def

datatype speed = BASET1000 | BASET100 | BASET10
datatype duplex = HALF | FULL

text \<open>
  \<open>miiphy_info\<close>: the result is 0 with the identifier, or -1. The two reads share the variable
  \<open>tmp\<close>.
\<close>

definition miiphy_info :: "string option \<Rightarrow> u8 \<Rightarrow> 'd mii \<Rightarrow>
    ((u32 \<times> (u32 \<times> u8 \<times> u8) option) \<times> 'd mii) option" where
  "miiphy_info devname addr s0 = do {
     ((ret, v), s1) \<leftarrow> Some (miiphy_read devname addr PHY_PHYIDR2 s0);
     (if ret \<noteq> 0 then Some ((- 1, None), s1)
      else do {
        tmp \<leftarrow> v;
        (if tmp = 0xFFFF then Some ((- 1, None), s1)
         else do {
           ((ret, v'), s2) \<leftarrow> Some (miiphy_read devname addr PHY_PHYIDR1 s1);
           (if ret \<noteq> 0 then Some ((- 1, None), s2)
            else do {
              tmp' \<leftarrow> stored (Some tmp) v';
              let reg = (ucast tmp OR push_bit 16 (ucast tmp') :: u32);
              Some ((0, Some (drop_bit 10 reg, ucast (drop_bit 4 reg AND 0x3F), ucast (reg AND 0xF))), s2)
            })
         })
      })
   }"

text \<open>The loop of \<open>miiphy_reset\<close>: \<open>while ((reg & 0x8000) && timeout--)\<close>.\<close>

fun reset_poll :: "'d hw \<Rightarrow> string option \<Rightarrow> u8 \<Rightarrow> nat \<Rightarrow> u16 \<Rightarrow> 'd mii \<Rightarrow> (u32 \<times> 'd mii) option" where
  "reset_poll h devname addr 0 reg s = Some (if reg AND 0x8000 = 0 then 0 else - 1, s)"
| "reset_poll h devname addr (Suc t) reg s =
     (if reg AND 0x8000 = 0 then Some (0, s)
      else do {
        ((ret, v), s1) \<leftarrow> Some (miiphy_read devname addr PHY_BMCR s);
        (if ret \<noteq> 0 then Some (- 1, s1)
         else do {
           reg' \<leftarrow> stored (Some reg) v;
           (_, s2) \<leftarrow> Some (on_bus (udelay h 1000) s1);
           reset_poll h devname addr t reg' s2
         })
      })"

definition miiphy_reset :: "'d hw \<Rightarrow> string option \<Rightarrow> u8 \<Rightarrow> 'd mii \<Rightarrow> (u32 \<times> 'd mii) option" where
  "miiphy_reset h devname addr s0 = do {
     ((ret, v), s1) \<leftarrow> Some (miiphy_read devname addr PHY_BMCR s0);
     (if ret \<noteq> 0 then Some (- 1, s1)
      else do {
        reg \<leftarrow> v;
        (ret, s2) \<leftarrow> Some (miiphy_write devname addr PHY_BMCR (reg OR PHY_BMCR_RESET) s1);
        (if ret \<noteq> 0 then Some (- 1, s2)
         else reset_poll h devname addr 500 0x8000 s2)
      })
   }"

definition miiphy_is_1000base_x :: "string option \<Rightarrow> u8 \<Rightarrow> 'd mii \<Rightarrow> (bool \<times> 'd mii) option" where
  "miiphy_is_1000base_x devname addr s0 = do {
     ((ret, v), s1) \<leftarrow> Some (miiphy_read devname addr PHY_EXSR s0);
     (if ret \<noteq> 0 then Some (False, s1)
      else do {
        exsr \<leftarrow> v;
        Some (exsr AND (PHY_EXSR_1000XF OR PHY_EXSR_1000XH) \<noteq> 0, s1)
      })
   }"

text \<open>The part of \<open>miiphy_speed\<close> after the gigabit checks.\<close>

definition speed_basic :: "string option \<Rightarrow> u8 \<Rightarrow> 'd mii \<Rightarrow> (speed \<times> 'd mii) option" where
  "speed_basic devname addr s0 = do {
     ((ret, v), s1) \<leftarrow> Some (miiphy_read devname addr PHY_BMCR s0);
     (if ret \<noteq> 0 then Some (BASET10, s1)
      else do {
        bmcr \<leftarrow> v;
        (if bmcr AND PHY_BMCR_AUTON \<noteq> 0 then do {
           ((ret, v), s2) \<leftarrow> Some (miiphy_read devname addr PHY_ANLPAR s1);
           (if ret \<noteq> 0 then Some (BASET10, s2)
            else do {
              anlpar \<leftarrow> v;
              Some (if anlpar AND PHY_ANLPAR_100 \<noteq> 0 then BASET100 else BASET10, s2)
            })
         }
         else Some (if bmcr AND PHY_BMCR_100MB \<noteq> 0 then BASET100 else BASET10, s1))
      })
   }"

definition miiphy_speed :: "string option \<Rightarrow> u8 \<Rightarrow> 'd mii \<Rightarrow> (speed \<times> 'd mii) option" where
  "miiphy_speed devname addr s0 = do {
     ((_, v), s1) \<leftarrow> Some (miiphy_read devname addr PHY_BMSR s0);
     bmsr \<leftarrow> v;
     (if bmsr AND BMSR_ESTATEN \<noteq> 0 then do {
        (x, s2) \<leftarrow> miiphy_is_1000base_x devname addr s1;
        (if x then Some (BASET1000, s2)
         else do {
           ((ret, v), s3) \<leftarrow> Some (miiphy_read devname addr PHY_1000BTSR s2);
           (if ret \<noteq> 0 then Some (BASET10, s3)
            else do {
              btsr \<leftarrow> v;
              (if btsr \<noteq> 0xFFFF \<and> btsr AND (PHY_1000BTSR_1000FD OR PHY_1000BTSR_1000HD) \<noteq> 0
               then Some (BASET1000, s3)
               else speed_basic devname addr s3)
            })
         })
      }
      else speed_basic devname addr s1)
   }"

text \<open>The part of \<open>miiphy_duplex\<close> after the gigabit checks.\<close>

definition duplex_basic :: "string option \<Rightarrow> u8 \<Rightarrow> 'd mii \<Rightarrow> (duplex \<times> 'd mii) option" where
  "duplex_basic devname addr s0 = do {
     ((ret, v), s1) \<leftarrow> Some (miiphy_read devname addr PHY_BMCR s0);
     (if ret \<noteq> 0 then Some (HALF, s1)
      else do {
        bmcr \<leftarrow> v;
        (if bmcr AND PHY_BMCR_AUTON \<noteq> 0 then do {
           ((ret, v), s2) \<leftarrow> Some (miiphy_read devname addr PHY_ANLPAR s1);
           (if ret \<noteq> 0 then Some (HALF, s2)
            else do {
              anlpar \<leftarrow> v;
              Some (if anlpar AND (PHY_ANLPAR_10FD OR PHY_ANLPAR_TXFD) \<noteq> 0 then FULL else HALF, s2)
            })
         }
         else Some (if bmcr AND PHY_BMCR_DPLX \<noteq> 0 then FULL else HALF, s1))
      })
   }"

text \<open>
  A failed read of \<open>anlpar\<close> in the 1000BASE-X branch ends the function with \<open>HALF\<close>; the value
  read there is not used.
\<close>

definition miiphy_duplex :: "string option \<Rightarrow> u8 \<Rightarrow> 'd mii \<Rightarrow> (duplex \<times> 'd mii) option" where
  "miiphy_duplex devname addr s0 = do {
     ((_, v), s1) \<leftarrow> Some (miiphy_read devname addr PHY_BMSR s0);
     bmsr \<leftarrow> v;
     (if bmsr AND BMSR_ESTATEN \<noteq> 0 then do {
        (x, s2) \<leftarrow> miiphy_is_1000base_x devname addr s1;
        ((ret, _), s3) \<leftarrow> Some (if x then miiphy_read devname addr PHY_ANLPAR s2 else ((0, None), s2));
        (if ret \<noteq> 0 then Some (HALF, s3)
         else do {
           ((ret, v), s4) \<leftarrow> Some (miiphy_read devname addr PHY_1000BTSR s3);
           (if ret \<noteq> 0 then Some (HALF, s4)
            else do {
              btsr \<leftarrow> v;
              (if btsr \<noteq> 0xFFFF \<and> btsr AND PHY_1000BTSR_1000FD \<noteq> 0 then Some (FULL, s4)
               else if btsr \<noteq> 0xFFFF \<and> btsr AND PHY_1000BTSR_1000HD \<noteq> 0 then Some (HALF, s4)
               else duplex_basic devname addr s4)
            })
         })
      }
      else duplex_basic devname addr s1)
   }"

definition miiphy_link :: "string option \<Rightarrow> u8 \<Rightarrow> 'd mii \<Rightarrow> (bool \<times> 'd mii) option" where
  "miiphy_link devname addr s0 = do {
     ((_, v0), s1) \<leftarrow> Some (miiphy_read devname addr PHY_BMSR s0);
     ((ret, v), s2) \<leftarrow> Some (miiphy_read devname addr PHY_BMSR s1);
     (if ret \<noteq> 0 then Some (False, s2)
      else do {
        reg \<leftarrow> stored v0 v;
        Some (reg AND PHY_BMSR_LS \<noteq> 0, s2)
      })
   }"

subsection \<open>\<open>mii-drv.c\<close>\<close>

definition mdio_bus_ld :: mdiodev where
  "mdio_bus_ld = \<lparr>mdio_iobase = REG_BASE_SF, mdio_frqdiv = 2\<rparr>"

definition hieth_mdiobus_read :: "'d hw \<Rightarrow> 'd mii_read" where
  "hieth_mdiobus_read h devname addr reg = do {
     v \<leftarrow> hieth_mdio_read h mdio_bus_ld (ucast addr) (ucast reg);
     State_Monad.return (0, Some (ucast v))
   }"

definition hieth_mdiobus_write :: "'d hw \<Rightarrow> 'd mii_write" where
  "hieth_mdiobus_write h devname addr reg v = do {
     _ \<leftarrow> hieth_mdio_write h mdio_bus_ld (ucast addr) (ucast reg) (ucast v);
     State_Monad.return 0
   }"

text \<open>The results of the two reads are not looked at; 0 is "found", -1 "no device".\<close>

definition get_phy_device :: "string \<Rightarrow> u8 \<Rightarrow> 'd mii \<Rightarrow> (u32 \<times> 'd mii) option" where
  "get_phy_device devname phyaddr s0 = do {
     ((_, v1), s1) \<leftarrow> Some (miiphy_read (Some devname) phyaddr PHY_PHYIDR1 s0);
     ((_, v2), s2) \<leftarrow> Some (miiphy_read (Some devname) phyaddr PHY_PHYIDR2 s1);
     id1 \<leftarrow> v1;
     id2 \<leftarrow> v2;
     let phy_id = (push_bit 16 (ucast id1) OR ucast id2 :: u32);
     Some (if phy_id = 0xffffffff \<or> phy_id = 0 then - 1 else 0, s2)
   }"

text \<open>Reset the PHY of a port if it is there; \<open>probe_port\<close> then makes its bus the current one.\<close>

definition reset_if_present :: "'d hw \<Rightarrow> string \<Rightarrow> u8 \<Rightarrow> 'd mii \<Rightarrow> (bool \<times> 'd mii) option" where
  "reset_if_present h name addr s0 = do {
     (r, s1) \<leftarrow> get_phy_device name addr s0;
     (if r = 0 then do {
        (_, s2) \<leftarrow> miiphy_reset h (Some name) addr s1;
        Some (True, s2)
      }
      else Some (False, s1))
   }"

definition probe_port :: "'d hw \<Rightarrow> bool \<Rightarrow> string \<Rightarrow> u8 \<Rightarrow> 'd mii \<Rightarrow> 'd mii option" where
  "probe_port h alloc name addr s0 = do {
     let s1 = miiphy_register alloc name (hieth_mdiobus_read h) (hieth_mdiobus_write h) s0;
     (found, s2) \<leftarrow> reset_if_present h name addr s1;
     Some (if found then snd (miiphy_set_current_dev name s2) else s2)
   }"

record phy_config =
  U_PHY_NAME :: string
  D_PHY_NAME :: string
  U_PHY_ADDR :: u8
  D_PHY_ADDR :: u8

definition hieth_mdiobus_driver_init ::
    "'d hw \<Rightarrow> bool \<times> bool \<Rightarrow> phy_config \<Rightarrow> 'd mii \<Rightarrow> (u32 \<times> 'd mii) option" where
  "hieth_mdiobus_driver_init h allocs c s0 = do {
     let s1 = miiphy_init s0;
     (_, s2) \<leftarrow> Some (on_bus (hieth_mdio_init h mdio_bus_ld) s1);
     s3 \<leftarrow> probe_port h (fst allocs) (U_PHY_NAME c) (U_PHY_ADDR c) s2;
     s4 \<leftarrow> probe_port h (snd allocs) (D_PHY_NAME c) (D_PHY_ADDR c) s3;
     Some (0, s4)
   }"

definition hieth_mdiobus_driver_exit :: "'d hw \<Rightarrow> phy_config \<Rightarrow> 'd mii \<Rightarrow> 'd mii option" where
  "hieth_mdiobus_driver_exit h c s0 =
     (if miiphy_get_current_dev s0 = None then Some s0
      else do {
        (_, s1) \<leftarrow> reset_if_present h (U_PHY_NAME c) (U_PHY_ADDR c) s0;
        (_, s2) \<leftarrow> reset_if_present h (D_PHY_NAME c) (D_PHY_ADDR c) s1;
        Some s2
      })"

subsection \<open>The management bus answers\<close>

text \<open>
  What the code relies on when it waits for the bus: the ready bit is clear for \<open>busy d\<close>
  microseconds after a command, and the data register then holds the register of the PHY that the
  command named. Polling and \<open>udelay\<close> do not disturb a command under way.
\<close>

definition mdio_works :: "'d hw \<Rightarrow> mdiodev \<Rightarrow> ('d \<Rightarrow> nat) \<Rightarrow> ('d \<Rightarrow> u16) \<Rightarrow> (u32 \<Rightarrow> u32 \<Rightarrow> u16) \<Rightarrow> (u32 \<Rightarrow> u32 \<Rightarrow> nat) \<Rightarrow> bool" where
  "mdio_works h ld busy data phy delay \<longleftrightarrow>
     (\<forall>d. (fst (hw_load h (mdio_iobase ld + MDIO_RWCTRL) d) AND 0x8000 \<noteq> 0) = (busy d = 0)) \<and>
     (\<forall>d. busy (snd (hw_load h (mdio_iobase ld + MDIO_RWCTRL) d)) = busy d \<and>
          data (snd (hw_load h (mdio_iobase ld + MDIO_RWCTRL) d)) = data d) \<and>
     (\<forall>n d. busy (hw_udelay h n d) = busy d - n \<and> data (hw_udelay h n d) = data d) \<and>
     (\<forall>a r d. a < 32 \<and> r < 32 \<longrightarrow> busy (hw_store h (mdio_iobase ld + MDIO_RWCTRL)
                     (MDIO_MK_RWCTL 0 0 0 a (mdio_frqdiv ld) r) d) = delay a r \<and>
              data (hw_store h (mdio_iobase ld + MDIO_RWCTRL)
                     (MDIO_MK_RWCTL 0 0 0 a (mdio_frqdiv ld) r) d) = phy a r) \<and>
     (\<forall>d. busy d = 0 \<longrightarrow> fst (hw_load h (mdio_iobase ld + MDIO_RO_DATA) d) AND 0xFFFF = ucast (data d) \<and>
          busy (snd (hw_load h (mdio_iobase ld + MDIO_RO_DATA) d)) = 0)"

lemma poll_busy:
  assumes "mdio_works h ld busy data phy delay"
  shows "fst (run_state (mdio_poll h ld (Suc t)) d) = (if busy d < t then t - busy d else 0) \<and>
    data (snd (run_state (mdio_poll h ld (Suc t)) d)) = data d \<and>
    (busy d < t \<longrightarrow> busy (snd (run_state (mdio_poll h ld (Suc t)) d)) = 0)"
proof (induction t arbitrary: d)
  case 0
  then show ?case by simp
next
  case (Suc t)
  let ?d1 = "snd (hw_load h (mdio_iobase ld + MDIO_RWCTRL) d)"
  have b: "(fst (hw_load h (mdio_iobase ld + MDIO_RWCTRL) d) AND 0x8000 \<noteq> 0) = (busy d = 0)"
    "busy ?d1 = busy d" "data ?d1 = data d"
    "busy (hw_udelay h 1 ?d1) = busy d - 1" "data (hw_udelay h 1 ?d1) = data d"
    using assms by (auto simp: mdio_works_def)
  have t: "run_state (test_mdio_ready h ld) d = (busy d = 0, ?d1)"
    using b(1) by (simp add: test_mdio_ready_def hieth_readl_def u_readl_def case_prod_beta)
  define d2 where "d2 = hw_udelay h 1 ?d1"
  have b2: "busy d2 = busy d - 1" "data d2 = data d"
    using b by (simp_all add: d2_def)
  have u: "run_state (udelay h 1) ?d1 = ((), d2)"
    by (simp add: udelay_def d2_def)
  have s: "run_state (mdio_poll h ld (Suc (Suc t))) d =
      (if busy d = 0 then (Suc t, ?d1) else run_state (mdio_poll h ld (Suc t)) d2)"
    using u by (subst mdio_poll.simps) (simp add: t del: mdio_poll.simps)
  show ?case
    using Suc.IH [of d2] b b2 unfolding s
    by (cases "busy d") (simp_all del: mdio_poll.simps)
qed

lemma mdio_read_works:
  assumes w: "mdio_works h ld busy data phy delay" and "a < 32" and "r < 32"
  shows "fst (run_state (hieth_mdio_read h ld a r) d) =
      (if busy d < 99 \<and> delay a r < 99 then ucast (phy a r) else 0)"
    and "busy d < 99 \<and> delay a r < 99 \<Longrightarrow> busy (snd (run_state (hieth_mdio_read h ld a r) d)) = 0"
proof -
  obtain t d1 where 1: "run_state (wait_mdio_ready h ld) d = (t, d1)" by fastforce
  define d2 where "d2 = hw_store h (mdio_iobase ld + MDIO_RWCTRL)
                          (MDIO_MK_RWCTL 0 0 0 a (mdio_frqdiv ld) r) d1"
  obtain t' d3 where 3: "run_state (wait_mdio_ready h ld) d2 = (t', d3)" by fastforce
  have t: "t = (if busy d < 99 then 99 - busy d else 0)"
    using poll_busy [OF w, of 99 d] 1 by (simp add: wait_mdio_ready_def)
  have b2: "busy d2 = delay a r" "data d2 = phy a r"
    using w assms(2,3) by (auto simp: mdio_works_def d2_def)
  then have t': "t' = (if delay a r < 99 then 99 - delay a r else 0)" "data d3 = phy a r"
    "delay a r < 99 \<longrightarrow> busy d3 = 0"
    using poll_busy [OF w, of 99 d2] 3 by (auto simp: wait_mdio_ready_def)
  have d: "run_state (hieth_mdio_read h ld a r) d =
      (if t = 0 then (0, d1) else if t' = 0 then (0, d3)
       else (fst (hw_load h (mdio_iobase ld + MDIO_RO_DATA) d3) AND 0xFFFF,
             snd (hw_load h (mdio_iobase ld + MDIO_RO_DATA) d3)))"
    by (simp add: hieth_mdio_read_def 1 mdio_start_phyread_def hieth_writel_def u_writel_def
      d2_def [symmetric] 3 mdio_get_phyread_val_def hieth_readl_def u_readl_def case_prod_beta)
  show "fst (run_state (hieth_mdio_read h ld a r) d) =
      (if busy d < 99 \<and> delay a r < 99 then ucast (phy a r) else 0)"
    using d t t' w by (auto simp: mdio_works_def)
  show "busy (snd (run_state (hieth_mdio_read h ld a r) d)) = 0" if "busy d < 99 \<and> delay a r < 99"
    using d t t' w that by (auto simp: mdio_works_def)
qed

text \<open>A PHY on the bus: reading register \<open>r\<close> gives \<open>f r\<close> as long as the invariant \<open>I\<close> holds.\<close>

definition answers :: "'d mii_read \<Rightarrow> string \<Rightarrow> u8 \<Rightarrow> (u8 \<Rightarrow> u16) \<Rightarrow> ('d \<Rightarrow> bool) \<Rightarrow> bool" where
  "answers rd n a f I \<longleftrightarrow> (\<forall>r d. r < 32 \<and> I d \<longrightarrow>
     fst (run_state (rd n a r) d) = (0, Some (f r)) \<and> I (snd (run_state (rd n a r) d)))"

lemma ucast_less_32: "(a :: u8) < 32 \<Longrightarrow> (ucast a :: u32) < 32"
  by (simp add: word_less_nat_alt unat_ucast_mod)

lemma ucast_ucast_16: "ucast (ucast (w :: u16) :: u32) = w"
  by (rule bit_word_eqI) (auto simp: bit_simps dest: bit_imp_le_length)

lemma hieth_bus_answers:
  assumes "mdio_works h mdio_bus_ld busy data phy delay" and "a < 32"
    and "\<forall>x y. delay x y < 99"
  shows "answers (hieth_mdiobus_read h) n a (\<lambda>r. phy (ucast a) (ucast r)) (\<lambda>d. busy d < 99)"
  unfolding answers_def
proof (intro allI impI)
  fix r :: u8 and d
  assume r: "r < 32 \<and> busy d < 99"
  then show "fst (run_state (hieth_mdiobus_read h n a r) d) = (0, Some (phy (ucast a) (ucast r))) \<and>
      busy (snd (run_state (hieth_mdiobus_read h n a r) d)) < 99"
    using mdio_read_works [OF assms(1) ucast_less_32 [OF assms(2)], of "ucast r" d] assms(3)
    by (simp add: hieth_mdiobus_read_def case_prod_beta ucast_less_32 ucast_ucast_16)
qed

subsection \<open>Clients of a bus\<close>

text \<open>The device \<open>n\<close> is registered with the functions \<open>rd\<close> and \<open>wr\<close>.\<close>

definition attached :: "'d mii_read \<Rightarrow> 'd mii_write \<Rightarrow> string \<Rightarrow> 'd mii \<Rightarrow> bool" where
  "attached rd wr n s \<longleftrightarrow> (\<exists>m. find (\<lambda>m. md_name m = n) (mii_devs s) = Some m \<and>
     md_read m = rd \<and> md_write m = wr)"

lemma attached_bus [simp]: "attached rd wr n (s\<lparr>bus := d\<rparr>) = attached rd wr n s"
  by (simp add: attached_def)

lemma attached_read:
  "attached rd wr n s \<Longrightarrow> miiphy_read (Some n) a r s =
     (fst (run_state (rd n a r) (bus s)), s\<lparr>bus := snd (run_state (rd n a r) (bus s))\<rparr>)"
  by (auto simp: attached_def miiphy_read_def on_bus_def case_prod_beta)

lemma attached_write:
  "attached rd wr n s \<Longrightarrow> miiphy_write (Some n) a r v s =
     (fst (run_state (wr n a r v) (bus s)), s\<lparr>bus := snd (run_state (wr n a r v) (bus s))\<rparr>)"
  by (auto simp: attached_def miiphy_write_def on_bus_def case_prod_beta)

text \<open>\<open>bus_only x s\<close>: the outcome is defined and left everything but the bus as it was.\<close>

definition bus_only :: "('x \<times> 'd mii) option \<Rightarrow> 'd mii \<Rightarrow> bool" where
  "bus_only y s \<longleftrightarrow> (\<exists>x d. y = Some (x, s\<lparr>bus := d\<rparr>))"

lemma bus_only_Some [simp]: "bus_only (Some (x, s\<lparr>bus := d\<rparr>)) s"
  by (auto simp: bus_only_def)

lemma bus_only_upd [simp]: "bus_only y (s\<lparr>bus := d\<rparr>) = bus_only y s"
  by (auto simp: bus_only_def)

lemma bus_only_bind:
  "\<lbrakk>bus_only y s; \<And>x d. bus_only (f (x, s\<lparr>bus := d\<rparr>)) s\<rbrakk> \<Longrightarrow> bus_only (y \<bind> f) s"
  by (auto simp: bus_only_def)

text \<open>
  The contract between \<open>miiphyutil.c\<close> and a bus driver: a read succeeds and stores a value, a
  write succeeds. Under it no PHY function uses a variable that was never stored.
\<close>

locale mii_bus =
  fixes rd :: "string \<Rightarrow> u8 \<Rightarrow> u8 \<Rightarrow> ('d, u32 \<times> u16 option) state"
    and wr :: "string \<Rightarrow> u8 \<Rightarrow> u8 \<Rightarrow> u16 \<Rightarrow> ('d, u32) state"
  assumes rd_stores: "\<exists>v. fst (run_state (rd n a r) d) = (0, Some v)"
    and wr_succeeds: "fst (run_state (wr n a r v) d) = 0"
begin

lemma read_stores:
  assumes "attached rd wr n s"
  obtains v d where "miiphy_read (Some n) a r s = ((0, Some v), s\<lparr>bus := d\<rparr>)"
  using rd_stores [of n a r "bus s"] by (auto simp: attached_read [OF assms])

lemma read_again:
  assumes "attached rd wr n s"
  obtains v d' where "miiphy_read (Some n) a r (s\<lparr>bus := d\<rparr>) = ((0, Some v), s\<lparr>bus := d'\<rparr>)"
  using rd_stores [of n a r d] assms by (auto simp: attached_read)

lemma write_again:
  assumes "attached rd wr n s"
  obtains d' where "miiphy_write (Some n) a r v (s\<lparr>bus := d\<rparr>) = (0, s\<lparr>bus := d'\<rparr>)"
  using wr_succeeds [of n a r v d] assms by (auto simp: attached_write)

lemma get_phy_defined: "attached rd wr n s \<Longrightarrow> bus_only (get_phy_device n a s) s"
proof -
  assume at: "attached rd wr n s"
  obtain v d where 1: "miiphy_read (Some n) a PHY_PHYIDR1 s = ((0, Some v), s\<lparr>bus := d\<rparr>)"
    by (rule read_stores [OF at])
  obtain v' d' where "miiphy_read (Some n) a PHY_PHYIDR2 (s\<lparr>bus := d\<rparr>) = ((0, Some v'), s\<lparr>bus := d'\<rparr>)"
    by (rule read_again [OF at])
  with 1 show ?thesis by (simp add: get_phy_device_def Let_def)
qed

lemma base_x_defined: "attached rd wr n s \<Longrightarrow> bus_only (miiphy_is_1000base_x (Some n) a s) s"
  by (rule read_stores [of n s a PHY_EXSR]) (simp_all add: miiphy_is_1000base_x_def)

lemma speed_basic_defined:
  assumes at: "attached rd wr n s" shows "bus_only (speed_basic (Some n) a s) s"
proof -
  obtain v d where 1: "miiphy_read (Some n) a PHY_BMCR s = ((0, Some v), s\<lparr>bus := d\<rparr>)"
    by (rule read_stores [OF at])
  obtain v' d' where "miiphy_read (Some n) a PHY_ANLPAR (s\<lparr>bus := d\<rparr>) = ((0, Some v'), s\<lparr>bus := d'\<rparr>)"
    by (rule read_again [OF at])
  with 1 show ?thesis by (simp add: speed_basic_def)
qed

lemma duplex_basic_defined:
  assumes at: "attached rd wr n s" shows "bus_only (duplex_basic (Some n) a s) s"
proof -
  obtain v d where 1: "miiphy_read (Some n) a PHY_BMCR s = ((0, Some v), s\<lparr>bus := d\<rparr>)"
    by (rule read_stores [OF at])
  obtain v' d' where "miiphy_read (Some n) a PHY_ANLPAR (s\<lparr>bus := d\<rparr>) = ((0, Some v'), s\<lparr>bus := d'\<rparr>)"
    by (rule read_again [OF at])
  with 1 show ?thesis by (simp add: duplex_basic_def)
qed

lemma gigabit_read:
  assumes at: "attached rd wr n s"
  obtains v x d w e where "miiphy_read (Some n) a PHY_BMSR s = ((0, Some v), s\<lparr>bus := w\<rparr>)"
    and "miiphy_is_1000base_x (Some n) a (s\<lparr>bus := w\<rparr>) = Some (x, s\<lparr>bus := d\<rparr>)"
proof -
  obtain v w where 1: "miiphy_read (Some n) a PHY_BMSR s = ((0, Some v), s\<lparr>bus := w\<rparr>)"
    by (rule read_stores [OF at])
  moreover obtain x d where "miiphy_is_1000base_x (Some n) a (s\<lparr>bus := w\<rparr>) = Some (x, s\<lparr>bus := d\<rparr>)"
    using base_x_defined [of n "s\<lparr>bus := w\<rparr>" a] at by (auto simp: bus_only_def)
  ultimately show ?thesis by (rule that)
qed

lemma speed_defined:
  assumes at: "attached rd wr n s" shows "bus_only (miiphy_speed (Some n) a s) s"
proof -
  obtain v x d w where 1: "miiphy_read (Some n) a PHY_BMSR s = ((0, Some v), s\<lparr>bus := w\<rparr>)"
    "miiphy_is_1000base_x (Some n) a (s\<lparr>bus := w\<rparr>) = Some (x, s\<lparr>bus := d\<rparr>)"
    by (rule gigabit_read [OF at])
  obtain b e where 2: "miiphy_read (Some n) a PHY_1000BTSR (s\<lparr>bus := d\<rparr>) = ((0, Some b), s\<lparr>bus := e\<rparr>)"
    by (rule read_again [OF at])
  have "bus_only (speed_basic (Some n) a (s\<lparr>bus := z\<rparr>)) s" for z
    using speed_basic_defined [of n "s\<lparr>bus := z\<rparr>" a] at by simp
  with 1 2 show ?thesis by (simp add: miiphy_speed_def)
qed

lemma duplex_defined:
  assumes at: "attached rd wr n s" shows "bus_only (miiphy_duplex (Some n) a s) s"
proof -
  obtain v x d w where 1: "miiphy_read (Some n) a PHY_BMSR s = ((0, Some v), s\<lparr>bus := w\<rparr>)"
    "miiphy_is_1000base_x (Some n) a (s\<lparr>bus := w\<rparr>) = Some (x, s\<lparr>bus := d\<rparr>)"
    by (rule gigabit_read [OF at])
  obtain l u where 2: "miiphy_read (Some n) a PHY_ANLPAR (s\<lparr>bus := d\<rparr>) = ((0, Some l), s\<lparr>bus := u\<rparr>)"
    by (rule read_again [OF at])
  obtain b e where 3: "miiphy_read (Some n) a PHY_1000BTSR (s\<lparr>bus := d\<rparr>) = ((0, Some b), s\<lparr>bus := e\<rparr>)"
    by (rule read_again [OF at])
  obtain b' e' where 4: "miiphy_read (Some n) a PHY_1000BTSR (s\<lparr>bus := u\<rparr>) = ((0, Some b'), s\<lparr>bus := e'\<rparr>)"
    by (rule read_again [OF at])
  have "bus_only (duplex_basic (Some n) a (s\<lparr>bus := z\<rparr>)) s" for z
    using duplex_basic_defined [of n "s\<lparr>bus := z\<rparr>" a] at by simp
  with 1 2 3 4 show ?thesis by (cases x) (simp_all add: miiphy_duplex_def)
qed

lemma link_defined:
  assumes at: "attached rd wr n s" shows "bus_only (miiphy_link (Some n) a s) s"
proof -
  obtain v d where 1: "miiphy_read (Some n) a PHY_BMSR s = ((0, Some v), s\<lparr>bus := d\<rparr>)"
    by (rule read_stores [OF at])
  obtain v' d' where "miiphy_read (Some n) a PHY_BMSR (s\<lparr>bus := d\<rparr>) = ((0, Some v'), s\<lparr>bus := d'\<rparr>)"
    by (rule read_again [OF at])
  with 1 show ?thesis by (simp add: miiphy_link_def stored_def)
qed

lemma reset_poll_defined: "attached rd wr n s \<Longrightarrow>
    \<exists>x d. reset_poll h (Some n) a t reg s = Some (x, s\<lparr>bus := d\<rparr>) \<and> (x = 0 \<or> x = - 1)"
proof (induction t arbitrary: reg s)
  case 0
  then show ?case by (auto intro: exI [of _ "bus s"])
next
  case (Suc t)
  show ?case
  proof (cases "reg AND 0x8000 = 0")
    case True
    then show ?thesis by (auto intro: exI [of _ "bus s"])
  next
    case False
    obtain v d where 1: "miiphy_read (Some n) a PHY_BMCR s = ((0, Some v), s\<lparr>bus := d\<rparr>)"
      by (rule read_stores [OF Suc.prems])
    obtain d' where 2: "on_bus (udelay h 1000) (s\<lparr>bus := d\<rparr>) = ((), s\<lparr>bus := d'\<rparr>)"
      by (simp add: on_bus_def udelay_def)
    have "\<exists>x e. reset_poll h (Some n) a t v (s\<lparr>bus := d'\<rparr>) = Some (x, s\<lparr>bus := d', bus := e\<rparr>) \<and> (x = 0 \<or> x = - 1)"
      using Suc.IH [of "s\<lparr>bus := d'\<rparr>" v] Suc.prems by simp
    then show ?thesis
      using False by (simp add: 1 2 stored_def)
  qed
qed

lemma reset_defined:
  assumes at: "attached rd wr n s" shows "bus_only (miiphy_reset h (Some n) a s) s"
proof -
  obtain v d where 1: "miiphy_read (Some n) a PHY_BMCR s = ((0, Some v), s\<lparr>bus := d\<rparr>)"
    by (rule read_stores [OF at])
  obtain d' where 2: "miiphy_write (Some n) a PHY_BMCR (v OR PHY_BMCR_RESET) (s\<lparr>bus := d\<rparr>) =
      (0, s\<lparr>bus := d'\<rparr>)"
    by (rule write_again [OF at])
  show ?thesis
    using reset_poll_defined [of n "s\<lparr>bus := d'\<rparr>" h a 500 "0x8000"] at 1 2
    by (auto simp: miiphy_reset_def simp del: reset_poll.simps)
qed

end

lemma hieth_read_stores: "\<exists>v. fst (run_state (hieth_mdiobus_read h n a r) d) = (0, Some v)"
  by (simp add: hieth_mdiobus_read_def case_prod_beta)

lemma hieth_write_succeeds: "fst (run_state (hieth_mdiobus_write h n a r v) d) = 0"
  by (simp add: hieth_mdiobus_write_def case_prod_beta)

interpretation hieth_bus: mii_bus "hieth_mdiobus_read h" "hieth_mdiobus_write h" for h
  by unfold_locales (rule hieth_read_stores hieth_write_succeeds)+

subsection \<open>What a PHY reports\<close>

text \<open>The result of a call without the state it leaves.\<close>

definition outcome :: "('x \<times> 's) option \<Rightarrow> 'x option" where
  "outcome y = map_option fst y"

lemma outcome_simps [simp]:
  "outcome (Some p) = Some (fst p)" "outcome None = None"
  "outcome (if b then x else y) = (if b then outcome x else outcome y)"
  by (simp_all add: outcome_def)

text \<open>The decisions of \<open>miiphyutil.c\<close> as functions of the PHY registers.\<close>

definition basex_of :: "(u8 \<Rightarrow> u16) \<Rightarrow> bool" where
  "basex_of f \<longleftrightarrow> f PHY_EXSR AND (PHY_EXSR_1000XF OR PHY_EXSR_1000XH) \<noteq> 0"

definition speed_of :: "(u8 \<Rightarrow> u16) \<Rightarrow> speed" where
  "speed_of f =
     (if f PHY_BMSR AND BMSR_ESTATEN \<noteq> 0 \<and>
         (basex_of f \<or> (f PHY_1000BTSR \<noteq> 0xFFFF \<and>
            f PHY_1000BTSR AND (PHY_1000BTSR_1000FD OR PHY_1000BTSR_1000HD) \<noteq> 0)) then BASET1000
      else if f PHY_BMCR AND PHY_BMCR_AUTON \<noteq> 0
           then (if f PHY_ANLPAR AND PHY_ANLPAR_100 \<noteq> 0 then BASET100 else BASET10)
           else (if f PHY_BMCR AND PHY_BMCR_100MB \<noteq> 0 then BASET100 else BASET10))"

definition duplex_of :: "(u8 \<Rightarrow> u16) \<Rightarrow> duplex" where
  "duplex_of f =
     (let gig = f PHY_BMSR AND BMSR_ESTATEN \<noteq> 0 \<and> f PHY_1000BTSR \<noteq> 0xFFFF in
      if gig \<and> f PHY_1000BTSR AND PHY_1000BTSR_1000FD \<noteq> 0 then FULL
      else if gig \<and> f PHY_1000BTSR AND PHY_1000BTSR_1000HD \<noteq> 0 then HALF
      else if f PHY_BMCR AND PHY_BMCR_AUTON \<noteq> 0
           then (if f PHY_ANLPAR AND (PHY_ANLPAR_10FD OR PHY_ANLPAR_TXFD) \<noteq> 0 then FULL else HALF)
           else (if f PHY_BMCR AND PHY_BMCR_DPLX \<noteq> 0 then FULL else HALF))"

definition link_of :: "(u8 \<Rightarrow> u16) \<Rightarrow> bool" where
  "link_of f \<longleftrightarrow> f PHY_BMSR AND PHY_BMSR_LS \<noteq> 0"

definition present :: "(u8 \<Rightarrow> u16) \<Rightarrow> bool" where
  "present f \<longleftrightarrow> \<not> (f PHY_PHYIDR1 = 0 \<and> f PHY_PHYIDR2 = 0) \<and>
                \<not> (f PHY_PHYIDR1 = 0xFFFF \<and> f PHY_PHYIDR2 = 0xFFFF)"

definition phy_ready :: "'d mii_read \<Rightarrow> 'd mii_write \<Rightarrow> string \<Rightarrow> u8 \<Rightarrow> (u8 \<Rightarrow> u16) \<Rightarrow> ('d \<Rightarrow> bool) \<Rightarrow>
    'd mii \<Rightarrow> bool" where
  "phy_ready rd wr n a f I s \<longleftrightarrow> attached rd wr n s \<and> answers rd n a f I \<and> I (bus s)"

definition after_read :: "string \<Rightarrow> u8 \<Rightarrow> u8 \<Rightarrow> 'd mii \<Rightarrow> 'd mii" where
  "after_read n a r s = snd (miiphy_read (Some n) a r s)"

lemma ready_read:
  assumes "phy_ready rd wr n a f I s" and "r < 32"
  shows "miiphy_read (Some n) a r s = ((0, Some (f r)), after_read n a r s)"
    and "phy_ready rd wr n a f I (after_read n a r s)"
proof -
  have "fst (run_state (rd n a r) (bus s)) = (0, Some (f r)) \<and> I (snd (run_state (rd n a r) (bus s)))"
    using assms unfolding phy_ready_def answers_def by blast
  then show "miiphy_read (Some n) a r s = ((0, Some (f r)), after_read n a r s)"
    and "phy_ready rd wr n a f I (after_read n a r s)"
    using assms(1) by (auto simp: phy_ready_def after_read_def attached_read)
qed

lemma phy_regs_small [simp]:
  "PHY_BMCR < 32" "PHY_BMSR < 32" "PHY_PHYIDR1 < 32" "PHY_PHYIDR2 < 32" "PHY_ANLPAR < 32"
  "PHY_1000BTSR < 32" "PHY_EXSR < 32" "PHY_ANAR < 32"
  by (simp_all add: phy_regs)

lemma ready_basic:
  assumes "phy_ready rd wr n a f I s"
  shows "outcome (speed_basic (Some n) a s) =
      Some (if f PHY_BMCR AND PHY_BMCR_AUTON \<noteq> 0
           then (if f PHY_ANLPAR AND PHY_ANLPAR_100 \<noteq> 0 then BASET100 else BASET10)
           else (if f PHY_BMCR AND PHY_BMCR_100MB \<noteq> 0 then BASET100 else BASET10))"
    and "outcome (duplex_basic (Some n) a s) =
      Some (if f PHY_BMCR AND PHY_BMCR_AUTON \<noteq> 0
           then (if f PHY_ANLPAR AND (PHY_ANLPAR_10FD OR PHY_ANLPAR_TXFD) \<noteq> 0 then FULL else HALF)
           else (if f PHY_BMCR AND PHY_BMCR_DPLX \<noteq> 0 then FULL else HALF))"
  using ready_read [OF assms, of PHY_BMCR]
    ready_read(1) [OF ready_read(2) [OF assms, of PHY_BMCR], of PHY_ANLPAR]
  by (simp_all add: speed_basic_def duplex_basic_def)

lemma ready_base_x:
  assumes "phy_ready rd wr n a f I s"
  shows "miiphy_is_1000base_x (Some n) a s = Some (basex_of f, after_read n a PHY_EXSR s)"
  using ready_read [OF assms, of PHY_EXSR] by (simp add: miiphy_is_1000base_x_def basex_of_def)

lemma ready_speed:
  assumes r: "phy_ready rd wr n a f I s"
  shows "outcome (miiphy_speed (Some n) a s) = Some (speed_of f)"
proof -
  note r1 = ready_read [OF r, of PHY_BMSR, simplified]
  note r2 = ready_base_x [OF r1(2)] ready_read(2) [OF r1(2), of PHY_EXSR, simplified]
  note r3 = ready_read [OF r2(2), of PHY_1000BTSR, simplified]
  show ?thesis
    by (simp add: miiphy_speed_def speed_of_def r1(1) r2(1) r3(1) ready_basic(1) [OF r1(2)]
      ready_basic(1) [OF r3(2)])
qed

lemma ready_duplex:
  assumes r: "phy_ready rd wr n a f I s"
  shows "outcome (miiphy_duplex (Some n) a s) = Some (duplex_of f)"
proof -
  note r1 = ready_read [OF r, of PHY_BMSR, simplified]
  note r2 = ready_base_x [OF r1(2)] ready_read(2) [OF r1(2), of PHY_EXSR, simplified]
  note r3 = ready_read [OF r2(2), of PHY_1000BTSR, simplified]
  note r4 = ready_read [OF r2(2), of PHY_ANLPAR, simplified]
  note r5 = ready_read [OF r4(2), of PHY_1000BTSR, simplified]
  show ?thesis
    by (cases "basex_of f") (simp_all add: miiphy_duplex_def duplex_of_def Let_def r1(1) r2(1) r3(1)
      r4(1) r5(1) ready_basic(2) [OF r1(2)] ready_basic(2) [OF r3(2)] ready_basic(2) [OF r5(2)])
qed

lemma ready_link:
  assumes r: "phy_ready rd wr n a f I s"
  shows "outcome (miiphy_link (Some n) a s) = Some (link_of f)"
proof -
  note r1 = ready_read [OF r, of PHY_BMSR, simplified]
  note r2 = ready_read [OF r1(2), of PHY_BMSR, simplified]
  show ?thesis by (simp add: miiphy_link_def link_of_def r1(1) r2(1) stored_def)
qed

lemma id_words: "(push_bit 16 (ucast (a :: u16)) OR ucast (b :: u16) :: u32) = push_bit 16 (ucast c) OR ucast d \<longleftrightarrow>
    a = c \<and> b = d"
proof
  assume e: "(push_bit 16 (ucast a) OR ucast b :: u32) = push_bit 16 (ucast c) OR ucast d"
  have "bit a i = bit c i" if "i < 16" for i
    using arg_cong [OF e, of "\<lambda>w. bit w (i + 16)"] that by (auto simp: bit_simps dest: bit_imp_le_length)
  moreover have "bit b i = bit d i" if "i < 16" for i
    using arg_cong [OF e, of "\<lambda>w. bit w i"] that by (auto simp: bit_simps)
  ultimately show "a = c \<and> b = d" by (auto intro: bit_word_eqI)
qed simp

lemma ready_present:
  assumes r: "phy_ready rd wr n a f I s"
  shows "outcome (get_phy_device n a s) = Some (if present f then 0 else - 1)"
proof -
  note r1 = ready_read [OF r, of PHY_PHYIDR1, simplified]
  note r2 = ready_read [OF r1(2), of PHY_PHYIDR2, simplified]
  show ?thesis
    using id_words [of "f PHY_PHYIDR1" "f PHY_PHYIDR2" 0 0]
      id_words [of "f PHY_PHYIDR1" "f PHY_PHYIDR2" "0xFFFF" "0xFFFF"]
    by (simp add: get_phy_device_def Let_def r1(1) r2(1) present_def)
qed

subsection \<open>Registration of the two ports\<close>

context mii_bus begin

lemma reset_if_present_defined:
  assumes at: "attached rd wr n s"
  shows "bus_only (reset_if_present h n a s) s"
proof -
  obtain r d where g: "get_phy_device n a s = Some (r, s\<lparr>bus := d\<rparr>)"
    using get_phy_defined [OF at, of a] by (auto simp: bus_only_def)
  have "bus_only (miiphy_reset h (Some n) a (s\<lparr>bus := d\<rparr>)) (s\<lparr>bus := d\<rparr>)"
    using at by (intro reset_defined) simp
  then obtain x e where "miiphy_reset h (Some n) a (s\<lparr>bus := d\<rparr>) = Some (x, s\<lparr>bus := e\<rparr>)"
    by (auto simp: bus_only_def)
  with g show ?thesis by (simp add: reset_if_present_def)
qed

end

lemma find_append: "find P (xs @ ys) = (case find P xs of Some x \<Rightarrow> Some x | None \<Rightarrow> find P ys)"
  by (induction xs) auto

lemma find_none_iff: "find P xs = None \<longleftrightarrow> \<not> list_ex P xs"
  by (auto simp: find_None_iff list_ex_iff)

lemma register_attaches:
  "\<not> list_ex (\<lambda>m. md_name m = n) (mii_devs s) \<Longrightarrow>
     attached rd wr n (miiphy_register True n rd wr s)"
  by (simp add: attached_def miiphy_register_def find_append find_none_iff [THEN iffD2])

lemma register_keeps:
  "attached rd wr n s \<Longrightarrow> attached rd wr n (miiphy_register al n' rd' wr' s)"
  by (auto simp: attached_def miiphy_register_def find_append)

lemma register_unique:
  "distinct (map md_name (mii_devs s)) \<Longrightarrow>
     distinct (map md_name (mii_devs (miiphy_register al n rd wr s)))"
  by (auto simp: miiphy_register_def list_ex_iff)

lemma attached_set_current [simp]:
  "attached rd wr n (snd (miiphy_set_current_dev n' s)) = attached rd wr n s"
  "mii_devs (snd (miiphy_set_current_dev n' s)) = mii_devs s"
  by (simp_all add: miiphy_set_current_dev_def attached_def split: option.split)

lemma find_name: "find (\<lambda>m. md_name m = n) ms = Some m \<Longrightarrow> md_name m = n"
  by (auto simp: find_Some_iff)

lemma set_current_attached:
  "attached rd wr n s \<Longrightarrow> current_mii (snd (miiphy_set_current_dev n s)) = Some n"
  by (auto simp: miiphy_set_current_dev_def attached_def dest: find_name)

lemma probe_registers:
  assumes "\<not> list_ex (\<lambda>m. md_name m = n) (mii_devs s)"
  obtains s' where "probe_port h True n a s = Some s'"
    and "mii_devs s' = mii_devs s @ [\<lparr>md_name = n, md_read = hieth_mdiobus_read h, md_write = hieth_mdiobus_write h\<rparr>]"
    and "current_mii s' = Some n \<or> current_mii s' = (case current_mii s of None \<Rightarrow> Some n | Some c \<Rightarrow> Some c)"
proof -
  let ?s1 = "miiphy_register True n (hieth_mdiobus_read h) (hieth_mdiobus_write h) s"
  have at: "attached (hieth_mdiobus_read h) (hieth_mdiobus_write h) n ?s1"
    by (rule register_attaches [OF assms])
  obtain found d where r: "reset_if_present h n a ?s1 = Some (found, ?s1\<lparr>bus := d\<rparr>)"
    using hieth_bus.reset_if_present_defined [OF at, of h a] by (auto simp: bus_only_def)
  have c: "current_mii (snd (miiphy_set_current_dev n (?s1\<lparr>bus := d\<rparr>))) = Some n"
    by (rule set_current_attached [OF attached_bus [THEN iffD2, OF at]])
  have p: "probe_port h True n a s = Some (if found then snd (miiphy_set_current_dev n (?s1\<lparr>bus := d\<rparr>))
      else ?s1\<lparr>bus := d\<rparr>)"
    by (simp add: probe_port_def Let_def r)
  have "mii_devs ?s1 = mii_devs s @ [\<lparr>md_name = n, md_read = hieth_mdiobus_read h, md_write = hieth_mdiobus_write h\<rparr>]"
    and "current_mii ?s1 = (case current_mii s of None \<Rightarrow> Some n | Some c \<Rightarrow> Some c)"
    using assms by (simp_all add: miiphy_register_def)
  then show ?thesis
    using c by (intro that [OF p]) simp_all
qed

lemma unregistered_read: "find (\<lambda>m. md_name m = n) (mii_devs s) = None \<Longrightarrow>
    miiphy_read (Some n) a r s = ((1, None), s)"
  by (simp add: miiphy_read_def)

lemma unregistered_probe: "find (\<lambda>m. md_name m = n) (mii_devs s) = None \<Longrightarrow> get_phy_device n a s = None"
  by (simp add: get_phy_device_def unregistered_read)

lemma init_registers:
  assumes "U_PHY_NAME c \<noteq> D_PHY_NAME c"
  shows "(\<exists>s'. hieth_mdiobus_driver_init h (True, True) c s = Some (0, s') \<and>
      map md_name (mii_devs s') = [U_PHY_NAME c, D_PHY_NAME c] \<and>
      attached (hieth_mdiobus_read h) (hieth_mdiobus_write h) (U_PHY_NAME c) s' \<and>
      attached (hieth_mdiobus_read h) (hieth_mdiobus_write h) (D_PHY_NAME c) s' \<and>
      current_mii s' \<in> {Some (U_PHY_NAME c), Some (D_PHY_NAME c)} \<and>
      hieth_mdiobus_driver_exit h c s' \<noteq> None) \<and>
    hieth_mdiobus_driver_init h (False, b) c s = None"
proof
  define s2 where "s2 = snd (on_bus (hieth_mdio_init h mdio_bus_ld) (miiphy_init s))"
  have e: "mii_devs s2 = []" "current_mii s2 = None"
    by (simp_all add: s2_def on_bus_def miiphy_init_def case_prod_beta)
  obtain s3 where 3: "probe_port h True (U_PHY_NAME c) (U_PHY_ADDR c) s2 = Some s3"
    "mii_devs s3 = [\<lparr>md_name = U_PHY_NAME c, md_read = hieth_mdiobus_read h, md_write = hieth_mdiobus_write h\<rparr>]"
    "current_mii s3 = Some (U_PHY_NAME c)"
    using probe_registers [of "U_PHY_NAME c" s2 h "U_PHY_ADDR c"] e by auto
  obtain s4 where 4: "probe_port h True (D_PHY_NAME c) (D_PHY_ADDR c) s3 = Some s4"
    "mii_devs s4 = mii_devs s3 @ [\<lparr>md_name = D_PHY_NAME c, md_read = hieth_mdiobus_read h, md_write = hieth_mdiobus_write h\<rparr>]"
    "current_mii s4 = Some (D_PHY_NAME c) \<or> current_mii s4 = Some (U_PHY_NAME c)"
    using probe_registers [of "D_PHY_NAME c" s3 h "D_PHY_ADDR c"] 3 assms by auto
  have at: "attached (hieth_mdiobus_read h) (hieth_mdiobus_write h) (U_PHY_NAME c) s4"
    "attached (hieth_mdiobus_read h) (hieth_mdiobus_write h) (D_PHY_NAME c) s4"
    using 3 4 assms by (auto simp: attached_def)
  obtain f d where x1: "reset_if_present h (U_PHY_NAME c) (U_PHY_ADDR c) s4 = Some (f, s4\<lparr>bus := d\<rparr>)"
    using hieth_bus.reset_if_present_defined [OF at(1), of h "U_PHY_ADDR c"] by (auto simp: bus_only_def)
  have "bus_only (reset_if_present h (D_PHY_NAME c) (D_PHY_ADDR c) (s4\<lparr>bus := d\<rparr>)) (s4\<lparr>bus := d\<rparr>)"
    by (rule hieth_bus.reset_if_present_defined [OF attached_bus [THEN iffD2, OF at(2)]])
  with x1 have x: "hieth_mdiobus_driver_exit h c s4 \<noteq> None"
    by (auto simp: hieth_mdiobus_driver_exit_def bus_only_def)
  have "hieth_mdiobus_driver_init h (True, True) c s = Some (0, s4)"
    using 3 4 by (simp add: hieth_mdiobus_driver_init_def Let_def s2_def case_prod_beta)
  with at x 3 4 show "\<exists>s'. hieth_mdiobus_driver_init h (True, True) c s = Some (0, s') \<and>
      map md_name (mii_devs s') = [U_PHY_NAME c, D_PHY_NAME c] \<and>
      attached (hieth_mdiobus_read h) (hieth_mdiobus_write h) (U_PHY_NAME c) s' \<and>
      attached (hieth_mdiobus_read h) (hieth_mdiobus_write h) (D_PHY_NAME c) s' \<and>
      current_mii s' \<in> {Some (U_PHY_NAME c), Some (D_PHY_NAME c)} \<and>
      hieth_mdiobus_driver_exit h c s' \<noteq> None" by auto
  have "get_phy_device (U_PHY_NAME c) (U_PHY_ADDR c) s2 = None"
    by (rule unregistered_probe) (simp add: e)
  then show "hieth_mdiobus_driver_init h (False, b) c s = None"
    by (simp add: hieth_mdiobus_driver_init_def probe_port_def reset_if_present_def Let_def
      case_prod_beta s2_def [symmetric] miiphy_register_def e)
qed

text \<open>A failed allocation leaves a port unregistered, and its probe uses variables that nothing has set.\<close>

lemma unregistered_port: "find (\<lambda>m. md_name m = n) (mii_devs s) = None \<Longrightarrow> probe_port h False n a s = None"
  by (simp add: probe_port_def reset_if_present_def miiphy_register_def unregistered_probe Let_def)

lemma init_without_memory:
  assumes "U_PHY_NAME c \<noteq> D_PHY_NAME c" and "allocs \<noteq> (True, True)"
  shows "hieth_mdiobus_driver_init h allocs c s = None"
proof -
  define s2 where "s2 = snd (on_bus (hieth_mdio_init h mdio_bus_ld) (miiphy_init s))"
  have e: "mii_devs s2 = []" by (simp add: s2_def on_bus_def miiphy_init_def case_prod_beta)
  have i: "hieth_mdiobus_driver_init h allocs c s = do {
      s3 \<leftarrow> probe_port h (fst allocs) (U_PHY_NAME c) (U_PHY_ADDR c) s2;
      s4 \<leftarrow> probe_port h (snd allocs) (D_PHY_NAME c) (D_PHY_ADDR c) s3;
      Some (0, s4) }" by (simp add: hieth_mdiobus_driver_init_def Let_def s2_def case_prod_beta)
  show ?thesis
  proof (cases "fst allocs")
    case False
    then show ?thesis using unregistered_port [of "U_PHY_NAME c" s2 h "U_PHY_ADDR c"] e by (simp add: i)
  next
    case True
    obtain s3 where 3: "probe_port h True (U_PHY_NAME c) (U_PHY_ADDR c) s2 = Some s3"
      "mii_devs s3 = [\<lparr>md_name = U_PHY_NAME c, md_read = hieth_mdiobus_read h, md_write = hieth_mdiobus_write h\<rparr>]"
      using probe_registers [of "U_PHY_NAME c" s2 h "U_PHY_ADDR c"] e by auto
    have "\<not> snd allocs" using True assms(2) by (cases allocs) simp
    then show ?thesis using True 3 unregistered_port [of "D_PHY_NAME c" s3 h "D_PHY_ADDR c"] assms(1) by (simp add: i)
  qed
qed

text \<open>
  \<open>hieth_mdiobus_driver_init\<close> on any hardware and from any earlier state: when both allocations
  succeed it returns 0 with exactly the two ports registered under their names with the functions of
  the MDIO bus, one of them current, and \<open>hieth_mdiobus_driver_exit\<close> afterwards runs without using
  an unset variable. When the first allocation fails the initialisation goes on to probe the
  unregistered port and uses the identifier words that nothing has set.
\<close>

theorem mdiobus_init_registers_ports:
  assumes "U_PHY_NAME c \<noteq> D_PHY_NAME c"
  shows "(\<exists>s'. hieth_mdiobus_driver_init h (True, True) c s = Some (0, s') \<and>
      map md_name (mii_devs s') = [U_PHY_NAME c, D_PHY_NAME c] \<and>
      attached (hieth_mdiobus_read h) (hieth_mdiobus_write h) (U_PHY_NAME c) s' \<and>
      attached (hieth_mdiobus_read h) (hieth_mdiobus_write h) (D_PHY_NAME c) s' \<and>
      current_mii s' \<in> {Some (U_PHY_NAME c), Some (D_PHY_NAME c)} \<and>
      hieth_mdiobus_driver_exit h c s' \<noteq> None) \<and>
    hieth_mdiobus_driver_init h (False, b) c s = None"
  by (rule init_registers [OF assms])

definition demo_phys :: phy_config where
  "demo_phys = \<lparr>U_PHY_NAME = ''0:1'', D_PHY_NAME = ''0:3'', U_PHY_ADDR = 1, D_PHY_ADDR = 3\<rparr>"

definition demo_mii :: "'d \<Rightarrow> 'd mii" where
  "demo_mii d = \<lparr>mii_devs = [], current_mii = None, bus = d\<rparr>"

theorem mdiobus_init_registers_ports_witness:
  "hieth_mdiobus_driver_init mem_hw (False, True) demo_phys (demo_mii (\<lambda>_. 0)) = None \<and>
   (\<exists>s'. hieth_mdiobus_driver_init mem_hw (True, True) demo_phys (demo_mii (\<lambda>_. 0)) = Some (0, s') \<and>
      map md_name (mii_devs s') = [''0:1'', ''0:3''])"
proof -
  have "U_PHY_NAME demo_phys \<noteq> D_PHY_NAME demo_phys" by (simp add: demo_phys_def)
  from mdiobus_init_registers_ports [OF this, of mem_hw "demo_mii (\<lambda>_. 0)" True]
  show ?thesis by (auto simp: demo_phys_def)
qed

subsection \<open>Bounds of the polling loops\<close>

text \<open>A device that counts the loads and the delays asked of the device inside it.\<close>

definition counting :: "'d hw \<Rightarrow> ('d \<times> nat \<times> nat) hw" where
  "counting h = \<lparr>
     hw_load = (\<lambda>a (d, l, u). case hw_load h a d of (v, d') \<Rightarrow> (v, d', l + 1, u)),
     hw_store = (\<lambda>a v (d, l, u). (hw_store h a v d, l, u)),
     hw_udelay = (\<lambda>n (d, l, u). (hw_udelay h n d, l, u + n))\<rparr>"

lemma counting_poll:
  "snd (snd (run_state (mdio_poll (counting h) ld (Suc t)) (d, l, u))) = (l', u') \<Longrightarrow>
     l' \<le> l + t \<and> u' \<le> u + t"
proof (induction t arbitrary: d l u)
  case 0
  then show ?case by simp
next
  case (Suc t)
  obtain v d1 where v: "hw_load h (mdio_iobase ld + MDIO_RWCTRL) d = (v, d1)" by fastforce
  have t: "run_state (test_mdio_ready (counting h) ld) (d, l, u) = (v AND 0x8000 \<noteq> 0, d1, l + 1, u)"
    by (simp add: test_mdio_ready_def hieth_readl_def u_readl_def counting_def v)
  have w: "run_state (udelay (counting h) 1) (d1, l + 1, u) = ((), hw_udelay h 1 d1, l + 1, u + 1)"
    by (simp add: udelay_def counting_def)
  have s: "run_state (mdio_poll (counting h) ld (Suc (Suc t))) (d, l, u) =
      (if v AND 0x8000 \<noteq> 0 then (Suc t, d1, l + 1, u)
       else run_state (mdio_poll (counting h) ld (Suc t)) (hw_udelay h 1 d1, l + 1, u + 1))"
    using t w by (subst mdio_poll.simps) (simp del: mdio_poll.simps)
  show ?case
    using Suc.IH [of "hw_udelay h 1 d1" "l + 1" "u + 1"] Suc.prems unfolding s
    by (cases "v AND 0x8000 = 0") (auto simp del: mdio_poll.simps)
qed

lemma mdio_val_bound: "(w :: u32) AND 0xFFFF < 0x10000"
proof -
  have "unat (w AND mask 16) < 2 ^ 16" by (simp only: unat_and_mask) simp
  then show ?thesis by (simp add: mask_eq_exp_minus_1 word_less_nat_alt)
qed

text \<open>
  On any hardware, answering or not, \<open>hieth_mdio_read\<close> ends after at most 199 loads and 198
  microseconds of delay and returns a value of 16 bits.
\<close>

theorem mdio_read_bounded:
  "fst (run_state (hieth_mdio_read (counting h) ld a r) (d, 0, 0)) < 0x10000 \<and>
   fst (snd (snd (run_state (hieth_mdio_read (counting h) ld a r) (d, 0, 0)))) \<le> 199 \<and>
   snd (snd (snd (run_state (hieth_mdio_read (counting h) ld a r) (d, 0, 0)))) \<le> 198"
proof -
  obtain t d1 l1 u1 where 1: "run_state (wait_mdio_ready (counting h) ld) (d, 0, 0) = (t, d1, l1, u1)"
    by (metis prod_cases3 prod.collapse)
  have b1: "l1 \<le> 99 \<and> u1 \<le> 99"
    using counting_poll [of h ld 99 d 0 0 l1 u1] 1 by (simp add: wait_mdio_ready_def)
  define d2 where "d2 = hw_store h (mdio_iobase ld + MDIO_RWCTRL)
      (MDIO_MK_RWCTL 0 0 0 a (mdio_frqdiv ld) r) d1"
  have w: "run_state (mdio_start_phyread (counting h) ld a r) (d1, l1, u1) = ((), d2, l1, u1)"
    by (simp add: mdio_start_phyread_def hieth_writel_def u_writel_def counting_def d2_def)
  obtain t' d3 l3 u3 where 3: "run_state (wait_mdio_ready (counting h) ld) (d2, l1, u1) = (t', d3, l3, u3)"
    by (metis prod_cases3 prod.collapse)
  have b3: "l3 \<le> l1 + 99 \<and> u3 \<le> u1 + 99"
    using counting_poll [of h ld 99 d2 l1 u1 l3 u3] 3 by (simp add: wait_mdio_ready_def)
  obtain v d4 where 4: "hw_load h (mdio_iobase ld + MDIO_RO_DATA) d3 = (v, d4)" by fastforce
  have g: "run_state (mdio_get_phyread_val (counting h) ld) (d3, l3, u3) = (v AND 0xFFFF, d4, l3 + 1, u3)"
    by (simp add: mdio_get_phyread_val_def hieth_readl_def u_readl_def counting_def 4)
  show ?thesis
    using b1 b3 mdio_val_bound [of v] by (simp add: hieth_mdio_read_def 1 w 3 g)
qed

text \<open>
  When the bus stays busy, \<open>hieth_mdio_write\<close> sends no command and yet returns the value it was
  asked to write, not the error code it computed; \<open>hieth_mdio_read\<close> returns 0, so a probe takes the
  PHY for absent. No register changes.
\<close>

theorem busy_write_is_lost_silently:
  assumes "config_regs h \<alpha> {mdio_iobase ld + MDIO_RWCTRL}"
    and "\<alpha> d (mdio_iobase ld + MDIO_RWCTRL) AND 0x8000 = 0"
  shows "fst (run_state (hieth_mdio_write h ld a r v) d) = v \<and>
    \<alpha> (snd (run_state (hieth_mdio_write h ld a r v) d)) = \<alpha> d \<and>
    fst (run_state (hieth_mdio_read h ld a r) d) = 0 \<and>
    \<alpha> (snd (run_state (hieth_mdio_read h ld a r) d)) = \<alpha> d"
proof -
  have p: "fst (run_state (mdio_poll h ld t) e) = 0 \<and> \<alpha> (snd (run_state (mdio_poll h ld t) e)) = \<alpha> d"
    if "\<alpha> e = \<alpha> d" for t e
    using that
  proof (induction t arbitrary: e)
    case (Suc t)
    have "run_state (test_mdio_ready h ld) e = (False, snd (hw_load h (mdio_iobase ld + MDIO_RWCTRL) e))"
      using assms Suc.prems
      by (simp add: config_regs_def test_mdio_ready_def hieth_readl_def u_readl_def case_prod_beta)
    moreover have "\<alpha> (hw_udelay h 1 (snd (hw_load h (mdio_iobase ld + MDIO_RWCTRL) e))) = \<alpha> d"
      using assms Suc.prems by (simp add: config_regs_def)
    ultimately show ?case using Suc by (simp add: udelay_def)
  qed simp
  obtain e where "run_state (wait_mdio_ready h ld) d = (0, e)" "\<alpha> e = \<alpha> d"
    using p [of d 100] by (metis wait_mdio_ready_def prod.collapse)
  then show ?thesis by (simp add: hieth_mdio_write_def hieth_mdio_read_def)
qed

theorem busy_write_is_lost_silently_witness:
  "run_state (hieth_mdio_write mem_hw mdio_bus_ld 1 0 0x8000) (\<lambda>_. 0) = (0x8000, \<lambda>_. 0)"
proof -
  show ?thesis
    using busy_write_is_lost_silently [of mem_hw "\<lambda>m. m" mdio_bus_ld "\<lambda>_. 0" 1 0 "0x8000"]
    by (simp add: prod_eq_iff)
qed

subsection \<open>What the PHY layer reports on a working bus\<close>

text \<open>A bus with one PHY that takes five microseconds to answer.\<close>

definition sim_regs :: "u32 \<Rightarrow> u16" where
  "sim_regs r = (if r = 0 then 0x1000 else if r = 1 then 0x0004 else if r = 2 then 0x0022
     else if r = 3 then 0x1430 else if r = 5 then 0x00C0 else 0)"

definition sim_hw :: "(nat \<times> u16) hw" where
  "sim_hw = \<lparr>
     hw_load = (\<lambda>a (b, v). (if a = REG_BASE_SF + MDIO_RWCTRL then (if b = 0 then 0x8000 else 0) else ucast v, b, v)),
     hw_store = (\<lambda>a w (b, v). (5, sim_regs (w AND 0x1F))),
     hw_udelay = (\<lambda>n (b, v). (b - n, v))\<rparr>"

lemma rwctl_reg: "r < 32 \<Longrightarrow> MDIO_MK_RWCTL 0 0 0 a f r AND 0x1F = r"
proof -
  assume "r < 32"
  then have "unat r < 32" by (simp add: word_less_nat_alt)
  then have "unat (r AND mask 5) = unat r" by (simp only: unat_and_mask) simp
  then have r: "r AND mask 5 = r" by (metis word_unat_eq_iff)
  have "MDIO_MK_RWCTL 0 0 0 a f r AND mask 5 = r AND mask 5"
    unfolding MDIO_MK_RWCTL_def mask_1F
    by (rule bit_word_eqI) (auto simp: bit_simps dest: bit_imp_le_length)
  with r show ?thesis by (simp add: mask_1F)
qed

lemma sim_works: "mdio_works sim_hw mdio_bus_ld fst snd (\<lambda>_. sim_regs) (\<lambda>_ _. 5)"
proof -
  have m: "(ucast (v :: u16) :: u32) AND 0xFFFF = ucast v" for v
  proof -
    have "(ucast v :: u32) AND mask 16 = ucast v"
      by (rule bit_word_eqI) (auto simp: bit_simps dest: bit_imp_le_length)
    then show ?thesis by (simp add: mask_eq_exp_minus_1)
  qed
  show ?thesis
    by (simp add: mdio_works_def sim_hw_def mdio_bus_ld_def split_beta rwctl_reg m)
      (simp add: MDIO_RWCTRL_def MDIO_RO_DATA_def m)
qed

text \<open>
  C22: with a bus that finishes every command within 98 microseconds, what the driver finds out about
  a PHY is exactly a function of the PHY's registers: presence from the two identifier words, link
  from the status register, speed and duplex from status, gigabit status, control and partner
  ability. (\<open>present\<close>, \<open>link_of\<close>, \<open>speed_of\<close> and \<open>duplex_of\<close> state the decisions.)
\<close>

theorem phy_reports_registers:
  assumes "attached (hieth_mdiobus_read h) (hieth_mdiobus_write h) n s"
    and "mdio_works h mdio_bus_ld busy data phy delay" and "a < 32" and "\<forall>x y. delay x y < 99"
    and "busy (bus s) < 99" and "f = (\<lambda>r. phy (ucast a) (ucast r))"
  shows "outcome (get_phy_device n a s) = Some (if present f then 0 else - 1) \<and>
    outcome (miiphy_link (Some n) a s) = Some (link_of f) \<and>
    outcome (miiphy_speed (Some n) a s) = Some (speed_of f) \<and>
    outcome (miiphy_duplex (Some n) a s) = Some (duplex_of f)"
proof -
  have r: "phy_ready (hieth_mdiobus_read h) (hieth_mdiobus_write h) n a f (\<lambda>d. busy d < 99) s"
    using assms hieth_bus_answers [OF assms(2-4), of n] by (simp add: phy_ready_def)
  show ?thesis
    using ready_present [OF r] ready_link [OF r] ready_speed [OF r] ready_duplex [OF r] by simp
qed

definition demo_attached :: "(nat \<times> u16) mii" where
  "demo_attached = \<lparr>mii_devs = [\<lparr>md_name = ''0:1'', md_read = hieth_mdiobus_read sim_hw,
     md_write = hieth_mdiobus_write sim_hw\<rparr>], current_mii = Some ''0:1'', bus = (0, 0)\<rparr>"

theorem phy_reports_registers_witness:
  "outcome (miiphy_link (Some ''0:1'') 1 demo_attached) = Some True \<and>
   outcome (miiphy_speed (Some ''0:1'') 1 demo_attached) = Some BASET100 \<and>
   outcome (miiphy_duplex (Some ''0:1'') 1 demo_attached) = Some FULL"
proof -
  have "attached (hieth_mdiobus_read sim_hw) (hieth_mdiobus_write sim_hw) ''0:1'' demo_attached"
    by (simp add: attached_def demo_attached_def)
  moreover have "fst (bus demo_attached) < 99" by (simp add: demo_attached_def)
  ultimately show ?thesis
    using phy_reports_registers [OF _ sim_works, of "''0:1''" demo_attached 1 "\<lambda>r. sim_regs (ucast r)"]
    by (simp add: link_of_def speed_of_def duplex_of_def Let_def sim_regs_def phy_regs phy_bits)
qed

text \<open>
  A partner that offers 100 Mbit half duplex and 10 Mbit full duplex, and nothing better, is
  reported as 100 Mbit \<^emph>\<open>full\<close> duplex, a mode it does not offer: the duplex test looks at both
  full-duplex bits whatever the speed.
\<close>

theorem partner_duplex_misread:
  assumes "f PHY_BMSR AND BMSR_ESTATEN = 0" and "f PHY_BMCR AND PHY_BMCR_AUTON \<noteq> 0"
    and "f PHY_ANLPAR AND PHY_ANLPAR_TXFD = 0" and "f PHY_ANLPAR AND 0x0080 \<noteq> 0"
    and "f PHY_ANLPAR AND PHY_ANLPAR_10FD \<noteq> 0"
  shows "speed_of f = BASET100 \<and> duplex_of f = FULL"
proof -
  have "f PHY_ANLPAR AND PHY_ANLPAR_100 \<noteq> 0"
  proof
    assume "f PHY_ANLPAR AND PHY_ANLPAR_100 = 0"
    then have "(f PHY_ANLPAR AND PHY_ANLPAR_100) AND 0x0080 = 0" by simp
    then have "f PHY_ANLPAR AND (PHY_ANLPAR_100 AND 0x0080) = 0" by (simp only: and.assoc)
    then show False using assms(4) by (simp add: phy_bits)
  qed
  moreover have "f PHY_ANLPAR AND (PHY_ANLPAR_10FD OR PHY_ANLPAR_TXFD) \<noteq> 0"
    by (simp only: bit.conj_disj_distrib assms(3) or.right_neutral) (rule assms(5))
  ultimately show ?thesis
    using assms(1,2) by (simp add: speed_of_def duplex_of_def)
qed

theorem partner_duplex_misread_witness:
  "speed_of (\<lambda>r. sim_regs (ucast r)) = BASET100 \<and> duplex_of (\<lambda>r. sim_regs (ucast r)) = FULL"
  by (rule partner_duplex_misread) (simp_all add: sim_regs_def phy_regs phy_bits)

end
