(* ===== verification/Hieth_Drv.thy ===== *)
theory Hieth_Drv imports Hieth_Mii begin

section \<open>The Hieth network driver (\<open>net-drv.c\<close>)\<close>

text \<open>
  Bringing a port up and down, sending and receiving frames by polling, and the receive interrupt
  handler. The environment of the driver, besides the registers, is the cache
  (\<open>l4_cache_dma_coherent_full\<close>) and the receive buffer as the processor sees it, which the
  controller fills: a record of functions of the device state. \<open>malloc\<close>, \<open>suka_malloc\<close>,
  \<open>sched_yield\<close> and \<open>request_irq\<close> enter through their results. The driver state keeps the
  PHY layer, the two devices, which of them \<open>hieth_curr\<close> points to, and the transmit buffer.
\<close>

record 'd env =
  env_hw :: "'d hw"
  env_flush :: "'d \<Rightarrow> 'd"
  env_rxbuf :: "'d \<Rightarrow> bytes"

record 'd drv =
  mii :: "'d mii"
  hieth_devs :: "port \<Rightarrow> netdev"
  hieth_curr :: "port option"
  tx_buf :: bytes
  tx_buf_phys :: u32
  rx_buf_phys :: u32
  irq_on :: bool

definition on_hw :: "('d, 'a) state \<Rightarrow> 'd drv \<Rightarrow> 'a \<times> 'd drv" where
  "on_hw c s = (case run_state c (bus (mii s)) of (x, d) \<Rightarrow> (x, s\<lparr>mii := mii s\<lparr>bus := d\<rparr>\<rparr>))"

definition on_mii :: "('d mii \<Rightarrow> ('a \<times> 'd mii) option) \<Rightarrow> 'd drv \<Rightarrow> ('a \<times> 'd drv) option" where
  "on_mii c s = do { (x, m) \<leftarrow> c (mii s); Some (x, s\<lparr>mii := m\<rparr>) }"

definition port_phy :: "phy_config \<Rightarrow> netdev \<Rightarrow> string" where
  "port_phy c ld = UD ld (U_PHY_NAME c) (D_PHY_NAME c)"

definition port_addr :: "phy_config \<Rightarrow> netdev \<Rightarrow> u8" where
  "port_addr c ld = UD ld (U_PHY_ADDR c) (D_PHY_ADDR c)"

subsection \<open>Ethernet addresses\<close>

definition is_zero_ether_addr :: "bytes \<Rightarrow> bool" where
  "is_zero_ether_addr a \<longleftrightarrow> a ! 0 OR a ! 1 OR a ! 2 OR a ! 3 OR a ! 4 OR a ! 5 = 0"

definition is_multicast_ether_addr :: "bytes \<Rightarrow> bool" where
  "is_multicast_ether_addr a \<longleftrightarrow> 0x01 AND a ! 0 \<noteq> 0"

definition is_valid_ether_addr :: "bytes \<Rightarrow> bool" where
  "is_valid_ether_addr a \<longleftrightarrow> \<not> is_multicast_ether_addr a \<and> \<not> is_zero_ether_addr a"

definition ETH_GLB_REG :: "u32 \<Rightarrow> u32" where
  "ETH_GLB_REG n = GLB_HOSTMAC_L32 + REG_BASE_SF + n * 4"

definition set_mac_address :: "'d hw \<Rightarrow> bytes \<Rightarrow> ('d, u32) state" where
  "set_mac_address h mac = do {
     _ \<leftarrow> u_writel h (le32 (mac ! 1) (mac ! 0) 0 0) (ETH_GLB_REG 1);
     _ \<leftarrow> u_writel h (le32 (mac ! 5) (mac ! 4) (mac ! 3) (mac ! 2)) (ETH_GLB_REG 0);
     State_Monad.return 0
   }"

definition eth_set_host_mac_address :: "'d hw \<Rightarrow> bytes \<Rightarrow> ('d, u32) state" where
  "eth_set_host_mac_address h mac = do { _ \<leftarrow> set_mac_address h mac; State_Monad.return 0 }"

subsection \<open>Link state\<close>

definition HIETH_SPD_100M :: u32 where "HIETH_SPD_100M = push_bit 2 1"
definition HIETH_LINKED :: u32 where "HIETH_LINKED = push_bit 1 1"
definition HIETH_DUP_FULL :: u32 where "HIETH_DUP_FULL = 1"

text \<open>The three status bits that one round of the loop adds to \<open>stat\<close>.\<close>

definition link_round :: "'d hw \<Rightarrow> phy_config \<Rightarrow> netdev \<Rightarrow> u32 \<Rightarrow> 'd drv \<Rightarrow> (u32 \<times> 'd drv) option" where
  "link_round h c ld stat s0 = do {
     (_, s1) \<leftarrow> Some (on_hw (udelay h 1) s0);
     (l, s2) \<leftarrow> on_mii (miiphy_link (Some (port_phy c ld)) (port_addr c ld)) s1;
     (d, s3) \<leftarrow> on_mii (miiphy_duplex (Some (port_phy c ld)) (port_addr c ld)) s2;
     (v, s4) \<leftarrow> on_mii (miiphy_speed (Some (port_phy c ld)) (port_addr c ld)) s3;
     Some (stat OR (if l then HIETH_LINKED else 0) OR (if d = FULL then HIETH_DUP_FULL else 0) OR
           (if v = BASET100 then HIETH_SPD_100M else 0), s4)
   }"

text \<open>\<open>retry: ... if (--timeout_us && !(stat & HIETH_LINKED)) goto retry\<close>.\<close>

fun link_loop :: "'d hw \<Rightarrow> phy_config \<Rightarrow> netdev \<Rightarrow> nat \<Rightarrow> u32 \<Rightarrow> 'd drv \<Rightarrow> (u32 \<times> 'd drv) option" where
  "link_loop h c ld 0 stat s = Some (stat, s)"
| "link_loop h c ld (Suc t) stat s = do {
     (stat', s') \<leftarrow> link_round h c ld stat s;
     (if t \<noteq> 0 \<and> stat' AND HIETH_LINKED = 0 then link_loop h c ld t stat' s'
      else Some (stat', s'))
   }"

definition hieth_adjust_link :: "'d hw \<Rightarrow> phy_config \<Rightarrow> port \<Rightarrow> 'd drv \<Rightarrow> 'd drv option" where
  "hieth_adjust_link h c p s0 = do {
     let ld = hieth_devs s0 p;
     ((_, v), s1) \<leftarrow> on_mii (Some \<circ> miiphy_read (Some (port_phy c ld)) (port_addr c ld) PHY_ANAR) s0;
     reg \<leftarrow> stored (Some 0) v;
     (_, s2) \<leftarrow> on_mii (Some \<circ> miiphy_write (Some (port_phy c ld)) (port_addr c ld) PHY_ANAR (reg OR 0x1E0)) s1;
     (stat, s3) \<leftarrow> link_loop h c ld 1000 0 s2;
     (if stat \<noteq> link_stat ld then do {
        (_, s4) \<leftarrow> Some (on_hw (hieth_set_linkstat h ld stat) s3);
        Some (s4\<lparr>hieth_devs := (hieth_devs s4)(p := ld\<lparr>link_stat := stat\<rparr>)\<rparr>)
      }
      else Some s3)
   }"

subsection \<open>Opening and closing a port\<close>

definition hieth_net_open :: "'d hw \<Rightarrow> phy_config \<Rightarrow> port \<Rightarrow> 'd drv \<Rightarrow> (u32 \<times> 'd drv) option" where
  "hieth_net_open h c p s0 = do {
     let ld = hieth_devs s0 p;
     (_, s1) \<leftarrow> Some (on_hw (hieth_sys_startup h) s0);
     (_, s2) \<leftarrow> Some (on_hw (hieth_writel_bits h (iobase_phys ld) 1 (GLB_QLEN_SET ld) BITS_TXQ_DEP) s1);
     (_, s3) \<leftarrow> Some (on_hw (hieth_writel_bits h (iobase_phys ld) 1 (GLB_QLEN_SET ld) BITS_RXQ_DEP) s2);
     s4 \<leftarrow> hieth_adjust_link h c p (s3\<lparr>hieth_devs := (hieth_devs s3)(p := ld\<lparr>link_stat := 0\<rparr>)\<rparr>);
     (_, s5) \<leftarrow> Some (on_hw (hieth_irq_enable h ld (HIETH_INT_RX_RDY ld)) s4);
     Some (0, s5)
   }"

definition hieth_net_close :: "'d hw \<Rightarrow> port \<Rightarrow> 'd drv \<Rightarrow> 'd drv" where
  "hieth_net_close h p s = snd (on_hw (hieth_glb_preinit_dummy h (hieth_devs s p)) s)"

definition hieth_dev_probe_init :: "'d hw \<Rightarrow> phy_config \<Rightarrow> port \<Rightarrow> 'd drv \<Rightarrow> u32 \<times> 'd drv" where
  "hieth_dev_probe_init h c p s0 = (
     let ld0 = (hieth_devs s0 p)\<lparr>iobase_phys := REG_BASE_SF, nd_port := p\<rparr>;
         ld = ld0\<lparr>phy_name := port_phy c ld0\<rparr>;
         s1 = s0\<lparr>hieth_devs := (hieth_devs s0)(p := ld)\<rparr>;
         s2 = snd (on_hw (hieth_glb_preinit_dummy h ld) s1)
     in (0, s2))"

subsection \<open>Initialisation\<close>

definition zero_dev :: netdev where
  "zero_dev = \<lparr>iobase_phys = 0, nd_port = UP_PORT, phy_name = '''', link_stat = 0\<rparr>"

text \<open>Probe a port whose PHY answers; the flag says whether the device came up.\<close>

definition probe_if_present :: "'d hw \<Rightarrow> phy_config \<Rightarrow> port \<Rightarrow> string \<Rightarrow> u8 \<Rightarrow> 'd drv \<Rightarrow> (u32 \<times> 'd drv) option" where
  "probe_if_present h c p name addr s0 = do {
     (r, s1) \<leftarrow> on_mii (get_phy_device name addr) s0;
     Some (if r = 0 then hieth_dev_probe_init h c p s1 else (0, s1))
   }"

definition hieth_init :: "'d hw \<Rightarrow> bool \<times> bool \<Rightarrow> phy_config \<Rightarrow> 'd drv \<Rightarrow> (u32 \<times> 'd drv) option" where
  "hieth_init h allocs c s0 = do {
     let s1 = s0\<lparr>hieth_devs := (\<lambda>_. zero_dev)\<rparr>;
     (_, s2) \<leftarrow> Some (on_hw (hieth_sys_init h) s1);
     (r, s3) \<leftarrow> on_mii (hieth_mdiobus_driver_init h allocs c) s2;
     (if r \<noteq> 0 then Some (- 1, s3)
      else do {
        (ret, s4) \<leftarrow> probe_if_present h c UP_PORT (U_PHY_NAME c) (U_PHY_ADDR c) s3;
        (if ret \<noteq> 0 then do {
           (_, s5) \<leftarrow> on_mii (\<lambda>m. do { m' \<leftarrow> hieth_mdiobus_driver_exit h c m; Some ((), m') }) s4;
           Some (- 1, s5)
         }
         else do {
           (ret, s5) \<leftarrow> probe_if_present h c DOWN_PORT (D_PHY_NAME c) (D_PHY_ADDR c) s4;
           (if ret \<noteq> 0 then do {
              (_, s6) \<leftarrow> on_mii (\<lambda>m. do { m' \<leftarrow> hieth_mdiobus_driver_exit h c m; Some ((), m') }) s5;
              Some (- 1, s6)
            }
            else Some (ret, s5))
         })
      })
   }"

text \<open>Open a port whose PHY answers and make it the current one when its link is up.\<close>

definition try_port :: "'d hw \<Rightarrow> phy_config \<Rightarrow> port \<Rightarrow> string \<Rightarrow> u8 \<Rightarrow> 'd drv \<Rightarrow> (bool \<times> 'd drv) option" where
  "try_port h c p name addr s0 = do {
     (r, s1) \<leftarrow> on_mii (get_phy_device name addr) s0;
     (if r = 0 then do {
        (_, s2) \<leftarrow> hieth_net_open h c p s1;
        Some (if link_stat (hieth_devs s2 p) AND HIETH_LINKED \<noteq> 0
              then (True, s2\<lparr>hieth_curr := Some p\<rparr>) else (False, s2))
      }
      else Some (False, s1))
   }"

fun open_loop :: "'d hw \<Rightarrow> phy_config \<Rightarrow> nat \<Rightarrow> 'd drv \<Rightarrow> (bool \<times> 'd drv) option" where
  "open_loop h c 0 s = Some (False, s)"
| "open_loop h c (Suc count) s = do {
     (up, s1) \<leftarrow> try_port h c UP_PORT (U_PHY_NAME c) (U_PHY_ADDR c) s;
     (if up then Some (True, s1)
      else do {
        (down, s2) \<leftarrow> try_port h c DOWN_PORT (D_PHY_NAME c) (D_PHY_ADDR c) s1;
        (if down then Some (True, s2) else open_loop h c count s2)
      })
   }"

definition close_if_present :: "'d hw \<Rightarrow> port \<Rightarrow> string \<Rightarrow> u8 \<Rightarrow> 'd drv \<Rightarrow> 'd drv option" where
  "close_if_present h p name addr s0 = do {
     (r, s1) \<leftarrow> on_mii (get_phy_device name addr) s0;
     Some (if r = 0 then hieth_net_close h p s1 else s1)
   }"

text \<open>
  \<open>bufs\<close> are the physical addresses that \<open>suka_malloc\<close> gives the two buffers; the transmit
  buffer has 2048 bytes with any contents.
\<close>

definition alloc_txrx_buffer :: "u32 \<times> u32 \<Rightarrow> bytes \<Rightarrow> 'd drv \<Rightarrow> 'd drv" where
  "alloc_txrx_buffer bufs mem s = s\<lparr>tx_buf_phys := fst bufs, rx_buf_phys := snd bufs, tx_buf := take 2048 mem\<rparr>"

definition cur_dev :: "'d drv \<Rightarrow> netdev option" where
  "cur_dev s = map_option (hieth_devs s) (hieth_curr s)"

definition hw_recvq_setfd :: "'d hw \<Rightarrow> netdev \<Rightarrow> u32 \<Rightarrow> ('d, unit) state" where
  "hw_recvq_setfd h ld addr = hieth_writel h (iobase_phys ld) addr (GLB_IQ_ADDR ld)"

definition hw_xmitq_setfd :: "'d hw \<Rightarrow> netdev \<Rightarrow> u32 \<Rightarrow> u32 \<Rightarrow> ('d, unit) state" where
  "hw_xmitq_setfd h ld addr len = do {
     _ \<leftarrow> hieth_writel h (iobase_phys ld) addr (GLB_EQ_ADDR ld);
     hieth_writel_bits h (iobase_phys ld) len (GLB_EQFRM_LEN ld) BITS_TXINQ_LEN
   }"

definition is_recv_packet :: "'d hw \<Rightarrow> netdev \<Rightarrow> ('d, bool) state" where
  "is_recv_packet h ld = do {
     r \<leftarrow> hieth_readl h (iobase_phys ld) GLB_RW_IRQ_RAW;
     State_Monad.return (r AND HIETH_INT_RX_RDY ld \<noteq> 0)
   }"

definition hw_set_rxpkg_finish :: "'d hw \<Rightarrow> netdev \<Rightarrow> ('d, unit) state" where
  "hw_set_rxpkg_finish h ld = hieth_writel h (iobase_phys ld) (HIETH_INT_RX_RDY ld) GLB_RW_IRQ_RAW"

definition hw_get_rxpkg_len :: "'d hw \<Rightarrow> netdev \<Rightarrow> ('d, u32) state" where
  "hw_get_rxpkg_len h ld = hieth_readl_bits h (iobase_phys ld) (GLB_RO_IQFRM_DES ld) BITS_RXPKG_LEN"

text \<open>A null \<open>hieth_curr\<close> is dereferenced: no defined result.\<close>

definition eth_init_rx :: "'d hw \<Rightarrow> 'd drv \<Rightarrow> (u32 \<times> 'd drv) option" where
  "eth_init_rx h s0 = do {
     ld \<leftarrow> cur_dev s0;
     (rdy, s1) \<leftarrow> Some (on_hw (hieth_readl_bits h (iobase_phys ld) (GLB_RO_QUEUE_STAT ld) BITS_RECVQ_RDY) s0);
     (if rdy = 0 then Some (1, s1)
      else do {
        let s2 = s1\<lparr>irq_on := True\<rparr>;
        (_, s3) \<leftarrow> Some (on_hw (hieth_irq_enable h ld 0xc0001) s2);
        (_, s4) \<leftarrow> Some (on_hw (hw_recvq_setfd h ld (rx_buf_phys s3)) s3);
        Some (0, s4)
      })
   }"

definition eth_init :: "'d hw \<Rightarrow> bool \<times> bool \<Rightarrow> u32 \<times> u32 \<Rightarrow> bytes \<Rightarrow> phy_config \<Rightarrow> bytes \<Rightarrow> 'd drv \<Rightarrow>
    (u32 \<times> 'd drv) option" where
  "eth_init h allocs bufs mem c mac s0 = do {
     (res, s1) \<leftarrow> hieth_init h allocs c s0;
     (linked, s2) \<leftarrow> (if res \<noteq> 0 then Some (False, s1)
       else do {
         (_, s2) \<leftarrow> Some (on_hw (eth_set_host_mac_address h mac) s1);
         open_loop h c 30 s2
       });
     (if linked then do {
        (_, s3) \<leftarrow> eth_init_rx h (alloc_txrx_buffer bufs mem s2);
        Some (0, s3)
      }
      else do {
        s3 \<leftarrow> close_if_present h UP_PORT (U_PHY_NAME c) (U_PHY_ADDR c) s2;
        s4 \<leftarrow> close_if_present h DOWN_PORT (D_PHY_NAME c) (D_PHY_ADDR c) s3;
        Some (- 1, s4)
      })
   }"

subsection \<open>Frames\<close>

definition HIETH_INVALID_RXPKG_LEN :: "u32 \<Rightarrow> bool" where
  "HIETH_INVALID_RXPKG_LEN len \<longleftrightarrow> \<not> (42 \<le> len \<and> len \<le> 1536)"

text \<open>\<open>while (--timeout_us && !is_recv_packet(ld)) udelay(1)\<close>.\<close>

fun recv_poll :: "'d hw \<Rightarrow> netdev \<Rightarrow> nat \<Rightarrow> ('d, unit) state" where
  "recv_poll h ld 0 = State_Monad.return ()"
| "recv_poll h ld (Suc t) =
     (if t = 0 then State_Monad.return ()
      else do {
        r \<leftarrow> is_recv_packet h ld;
        (if r then State_Monad.return () else do { _ \<leftarrow> udelay h 1; recv_poll h ld t })
      })"

text \<open>The result and the value stored through \<open>length\<close>.\<close>

definition eth_rx :: "'d env \<Rightarrow> 'd drv \<Rightarrow> ((u32 \<times> u32) \<times> 'd drv) option" where
  "eth_rx e s0 = (let h = env_hw e in do {
     ld \<leftarrow> cur_dev s0;
     (_, s1) \<leftarrow> Some (on_hw (hieth_readl_bits h (iobase_phys ld) (GLB_RO_QUEUE_STAT ld) BITS_RECVQ_RDY) s0);
     (_, s2) \<leftarrow> Some (on_hw (hieth_irq_enable h ld (HIETH_INT_RX_RDY ld)) s1);
     (_, s3) \<leftarrow> Some (on_hw (hw_recvq_setfd h ld (rx_buf_phys s2)) s2);
     (_, s4) \<leftarrow> Some (on_hw (recv_poll h ld 10000) s3);
     (r, s5) \<leftarrow> Some (on_hw (is_recv_packet h ld) s4);
     (if r then do {
        (len, s6) \<leftarrow> Some (on_hw (hw_get_rxpkg_len h ld) s5);
        (_, s7) \<leftarrow> Some (on_hw (hw_set_rxpkg_finish h ld) s6);
        (if HIETH_INVALID_RXPKG_LEN len then Some ((- 1, 0), s7)
         else do {
           (_, s8) \<leftarrow> Some (on_hw (State (\<lambda>d. ((), env_flush e d))) s7);
           Some ((0, len), s8)
         })
      }
      else Some ((- 1, 0), s5))
   })"

text \<open>\<open>do { udelay(1); ints = status; } while (--timeout_us && !(ints & ready))\<close>.\<close>

fun send_poll :: "'d hw \<Rightarrow> netdev \<Rightarrow> nat \<Rightarrow> ('d, u32 \<times> nat) state" where
  "send_poll h ld 0 = State_Monad.return (0, 0)"
| "send_poll h ld (Suc t) = do {
     _ \<leftarrow> udelay h 1;
     ints \<leftarrow> hieth_read_irqstatus h ld;
     (if t \<noteq> 0 \<and> ints AND HIETH_INT_TXQUE_RDY ld = 0 then send_poll h ld t
      else State_Monad.return (ints, t))
   }"

text \<open>
  \<open>yield\<close> is the result of \<open>sched_yield\<close>. The copy of \<open>length\<close> bytes into the transmit buffer
  is undefined outside either buffer; the length field of the descriptor has 11 bits.
\<close>

definition eth_send :: "'d env \<Rightarrow> int \<Rightarrow> bytes \<Rightarrow> int \<Rightarrow> 'd drv \<Rightarrow> (u32 \<times> 'd drv) option" where
  "eth_send e yield packet len s0 = (let h = env_hw e in do {
     (if yield = - 1 then Some (- 1, s0)
      else do {
        data \<leftarrow> (if len < 0 then None else rdn packet 0 (nat len));
        buf \<leftarrow> wrn (tx_buf s0) 0 data;
        (_, s1) \<leftarrow> Some (on_hw (State (\<lambda>d. ((), env_flush e d))) (s0\<lparr>tx_buf := buf\<rparr>));
        ld \<leftarrow> cur_dev s1;
        (rdy, s2) \<leftarrow> Some (on_hw (hieth_readl_bits h (iobase_phys ld) (GLB_RO_QUEUE_STAT ld) BITS_XMITQ_RDY) s1);
        (if rdy = 0 then Some (- 1, s2)
         else do {
           (_, s3) \<leftarrow> Some (on_hw (hieth_irq_enable h ld (HIETH_INT_TXQUE_RDY ld)) s2);
           (_, s4) \<leftarrow> Some (on_hw (hw_xmitq_setfd h ld (tx_buf_phys s3) (take_bit 11 (word_of_int len + 4))) s3);
           ((ints, left), s5) \<leftarrow> Some (on_hw (send_poll h ld 3000) s4);
           (_, s6) \<leftarrow> Some (on_hw (hieth_clear_irqstatus h ld ints) s5);
           Some (if left = 0 then - 1 else 0, s6)
         })
      })
   })"

text \<open>
  The interrupt handler; \<open>recv\<close> is \<open>hisf_recv\<close> on the receive buffer, with the clients' state.
  \<open>hieth_irq_enable(ld, 0)\<close> at the start writes the mask back as it was.
\<close>

definition irq_handler :: "'d env \<Rightarrow> (bytes \<Rightarrow> u32 \<Rightarrow> 's \<Rightarrow> (int \<times> 's) option) \<Rightarrow>
    'd drv \<times> 's \<Rightarrow> ('d drv \<times> 's) option" where
  "irq_handler e recv st = (let h = env_hw e; s0 = fst st; clients = snd st in do {
     ld \<leftarrow> cur_dev s0;
     (_, s1) \<leftarrow> Some (on_hw (hieth_irq_enable h ld 0) s0);
     (status, s2) \<leftarrow> Some (on_hw (hieth_read_irqstatus h ld) s1);
     (_, s3) \<leftarrow> Some (on_hw (State (\<lambda>d. ((), env_flush e d))) s2);
     (if status AND HIETH_INT_RX_RDY ld \<noteq> 0 then do {
        (len, s4) \<leftarrow> Some (on_hw (hw_get_rxpkg_len h ld) s3);
        (_, s5) \<leftarrow> Some (on_hw (hw_set_rxpkg_finish h ld) s4);
        (_, clients') \<leftarrow> recv (env_rxbuf e (bus (mii s5))) len clients;
        (_, s6) \<leftarrow> Some (on_hw (hieth_clear_irqstatus h ld (HIETH_INT_RX_RDY ld)) s5);
        (_, s7) \<leftarrow> Some (on_hw (hieth_irq_enable h ld 0xc0001) s6);
        (_, s8) \<leftarrow> Some (on_hw (hw_recvq_setfd h ld (rx_buf_phys s7)) s7);
        Some (s8, clients')
      }
      else Some (s3, clients))
   })"

definition close_if_probed :: "'d hw \<Rightarrow> port \<Rightarrow> 'd drv \<Rightarrow> 'd drv" where
  "close_if_probed h p s = (if iobase_phys (hieth_devs s p) \<noteq> 0 then hieth_net_close h p s else s)"

definition eth_halt :: "'d hw \<Rightarrow> phy_config \<Rightarrow> 'd drv \<Rightarrow> 'd drv option" where
  "eth_halt h c s0 = do {
     let s1 = close_if_probed h UP_PORT s0;
     let s2 = close_if_probed h DOWN_PORT s1;
     (_, s3) \<leftarrow> on_mii (\<lambda>m. do { m' \<leftarrow> hieth_mdiobus_driver_exit h c m; Some ((), m') }) s2;
     Some (s3\<lparr>tx_buf := []\<rparr>)
   }"

subsection \<open>Computations that change the hardware only\<close>

abbreviation set_bus :: "'d drv \<Rightarrow> 'd \<Rightarrow> 'd drv" where
  "set_bus s d \<equiv> s\<lparr>mii := mii s\<lparr>bus := d\<rparr>\<rparr>"

definition hw_only :: "('x \<times> 'd drv) option \<Rightarrow> 'd drv \<Rightarrow> bool" where
  "hw_only y s \<longleftrightarrow> (\<exists>x d. y = Some (x, set_bus s d))"

lemma hw_only_upd [simp]: "hw_only y (set_bus s d) = hw_only y s"
  by (auto simp: hw_only_def)

lemma hw_only_Some [simp]: "hw_only (Some (x, set_bus s d)) s"
  by (auto simp: hw_only_def)

lemma hw_only_same [simp]: "hw_only (Some (x, s)) s"
  by (auto simp: hw_only_def intro: exI [of _ "bus (mii s)"])

lemma hw_only_bind:
  "\<lbrakk>hw_only y s; \<And>x d. hw_only (f (x, set_bus s d)) s\<rbrakk> \<Longrightarrow> hw_only (y \<bind> f) s"
  by (auto simp: hw_only_def)

lemma hw_only_E:
  assumes "hw_only y s" obtains x d where "y = Some (x, set_bus s d)"
  using assms by (auto simp: hw_only_def)

lemma on_hw_eq: "on_hw c s = (fst (run_state c (bus (mii s))), set_bus s (snd (run_state c (bus (mii s)))))"
  by (simp add: on_hw_def case_prod_beta)

lemma hw_only_on_hw [simp]: "hw_only (Some (on_hw c s)) s"
  by (simp add: on_hw_eq)

lemma hw_only_on_mii: "bus_only (c (mii s)) (mii s) \<Longrightarrow> hw_only (on_mii c s) s"
  by (auto simp: bus_only_def on_mii_def hw_only_def)

text \<open>Both ports are registered with the functions of the MDIO bus.\<close>

definition drv_ok :: "'d hw \<Rightarrow> phy_config \<Rightarrow> 'd drv \<Rightarrow> bool" where
  "drv_ok h c s \<longleftrightarrow>
     attached (hieth_mdiobus_read h) (hieth_mdiobus_write h) (U_PHY_NAME c) (mii s) \<and>
     attached (hieth_mdiobus_read h) (hieth_mdiobus_write h) (D_PHY_NAME c) (mii s)"

lemma drv_ok_simps [simp]:
  "drv_ok h c (set_bus s d) = drv_ok h c s"
  "drv_ok h c (s\<lparr>hieth_devs := f\<rparr>) = drv_ok h c s" "drv_ok h c (s\<lparr>hieth_curr := q\<rparr>) = drv_ok h c s"
  by (simp_all add: drv_ok_def)

lemma drv_ok_phy: "drv_ok h c s \<Longrightarrow>
    attached (hieth_mdiobus_read h) (hieth_mdiobus_write h) (port_phy c ld) (mii s)"
  by (simp add: drv_ok_def port_phy_def UD_def)

lemma drv_ok_names: "drv_ok h c s \<Longrightarrow> n \<in> {U_PHY_NAME c, D_PHY_NAME c} \<Longrightarrow>
    attached (hieth_mdiobus_read h) (hieth_mdiobus_write h) n (mii s)"
  by (auto simp: drv_ok_def)

lemma hw_only_mii_bind:
  "\<lbrakk>bus_only (c (mii s\<lparr>bus := d\<rparr>)) (mii s); \<And>x e. hw_only (f x (set_bus s e)) s\<rbrakk> \<Longrightarrow>
     hw_only (on_mii c (set_bus s d) \<bind> (\<lambda>(x, s'). f x s')) s"
  by (auto simp: bus_only_def on_mii_def hw_only_def)

lemma link_round_defined:
  assumes ok: "drv_ok h c s" shows "hw_only (link_round h c ld stat s) s"
proof -
  have at: "attached (hieth_mdiobus_read h) (hieth_mdiobus_write h) (port_phy c ld) (mii s\<lparr>bus := d\<rparr>)" for d
    using drv_ok_phy [OF ok] by simp
  show ?thesis
    unfolding link_round_def on_hw_eq Option.bind.bind_lunit prod.case
    using hieth_bus.link_defined [OF at] hieth_bus.duplex_defined [OF at] hieth_bus.speed_defined [OF at]
    by (intro hw_only_mii_bind) simp_all
qed

lemma link_loop_defined: "drv_ok h c s \<Longrightarrow> hw_only (link_loop h c ld t stat s) s"
proof (induction t arbitrary: stat s)
  case (Suc t)
  obtain x d where r: "link_round h c ld stat s = Some (x, set_bus s d)"
    using link_round_defined [OF Suc.prems] by (rule hw_only_E)
  have "hw_only (link_loop h c ld t x (set_bus s d)) s"
    using Suc.IH [of "set_bus s d" x] Suc.prems by simp
  with r show ?case by simp
qed simp

text \<open>After \<open>hieth_adjust_link\<close> only the hardware and the link state of the port have changed.\<close>

lemma adjust_link_defined:
  assumes ok: "drv_ok h c s"
  shows "\<exists>d x. hieth_adjust_link h c p s =
    Some ((set_bus s d)\<lparr>hieth_devs := (hieth_devs s)(p := (hieth_devs s p)\<lparr>link_stat := x\<rparr>)\<rparr>)"
proof -
  let ?ld = "hieth_devs s p"
  let ?n = "port_phy c ?ld" and ?a = "port_addr c ?ld"
  have at: "attached (hieth_mdiobus_read h) (hieth_mdiobus_write h) ?n (mii s)"
    by (rule drv_ok_phy [OF ok])
  obtain v d1 where 1: "miiphy_read (Some ?n) ?a PHY_ANAR (mii s) = ((0, Some v), mii s\<lparr>bus := d1\<rparr>)"
    by (rule hieth_bus.read_stores [OF at])
  obtain d2 where 2: "miiphy_write (Some ?n) ?a PHY_ANAR (v OR 0x1E0) (mii s\<lparr>bus := d1\<rparr>) = (0, mii s\<lparr>bus := d2\<rparr>)"
    by (rule hieth_bus.write_again [OF at])
  have "hw_only (link_loop h c ?ld 1000 0 (set_bus s d2)) s"
    using link_loop_defined [of h c "set_bus s d2" ?ld 1000 0] ok by simp
  then obtain x d3 where 3: "link_loop h c ?ld 1000 0 (set_bus s d2) = Some (x, set_bus s d3)"
    by (rule hw_only_E)
  have e: "hieth_adjust_link h c p s = (if x \<noteq> link_stat ?ld
      then Some ((set_bus s (snd (run_state (hieth_set_linkstat h ?ld x) d3)))
              \<lparr>hieth_devs := (hieth_devs s)(p := ?ld\<lparr>link_stat := x\<rparr>)\<rparr>)
      else Some (set_bus s d3))"
    by (simp add: hieth_adjust_link_def Let_def on_mii_def 1 2 stored_def on_hw_eq 3
        del: link_loop.simps)
  show ?thesis
  proof (cases "x = link_stat ?ld")
    case True
    then have "(hieth_devs s)(p := ?ld\<lparr>link_stat := x\<rparr>) = hieth_devs s" by auto
    then show ?thesis using True e by (intro exI [of _ d3] exI [of _ x]) simp
  next
    case False
    then show ?thesis using e by auto
  qed
qed

lemma net_open_defined:
  assumes ok: "drv_ok h c s"
  shows "\<exists>d x. hieth_net_open h c p s =
    Some (0, (set_bus s d)\<lparr>hieth_devs := (hieth_devs s)(p := (hieth_devs s p)\<lparr>link_stat := x\<rparr>)\<rparr>)"
proof -
  let ?s = "\<lambda>d. (set_bus s d)\<lparr>hieth_devs := (hieth_devs s)(p := (hieth_devs s p)\<lparr>link_stat := 0\<rparr>)\<rparr>"
  have a: "\<exists>e x. hieth_adjust_link h c p (?s d) =
      Some ((set_bus s e)\<lparr>hieth_devs := (hieth_devs s)(p := (hieth_devs s p)\<lparr>link_stat := x\<rparr>)\<rparr>)" for d
    using adjust_link_defined [of h c "?s d" p] ok by simp
  obtain d1 where d1: "hieth_net_open h c p s = do {
      s4 \<leftarrow> hieth_adjust_link h c p (?s d1);
      (_, s5) \<leftarrow> Some (on_hw (hieth_irq_enable h (hieth_devs s p) (HIETH_INT_RX_RDY (hieth_devs s p))) s4);
      Some (0, s5) }"
    by (simp add: hieth_net_open_def Let_def on_hw_eq)
  obtain e x where "hieth_adjust_link h c p (?s d1) =
      Some ((set_bus s e)\<lparr>hieth_devs := (hieth_devs s)(p := (hieth_devs s p)\<lparr>link_stat := x\<rparr>)\<rparr>)"
    using a [of d1] by blast
  then show ?thesis
    unfolding d1
    by (intro exI [of _ "snd (run_state (hieth_irq_enable h (hieth_devs s p) (HIETH_INT_RX_RDY (hieth_devs s p))) e)"]
      exI [of _ x]) (simp add: on_hw_eq)
qed

subsection \<open>Bringing the driver up\<close>

text \<open>A device is either cleared or probed at its own index.\<close>

definition devs_ok :: "'d drv \<Rightarrow> bool" where
  "devs_ok s \<longleftrightarrow> (\<forall>p. iobase_phys (hieth_devs s p) = 0 \<or>
     (iobase_phys (hieth_devs s p) = REG_BASE_SF \<and> nd_port (hieth_devs s p) = p))"

definition up_ok :: "'d hw \<Rightarrow> phy_config \<Rightarrow> 'd drv \<Rightarrow> bool" where
  "up_ok h c s \<longleftrightarrow> drv_ok h c s \<and> devs_ok s"

lemma devs_ok_simps [simp]:
  "devs_ok (set_bus s d) = devs_ok s" "devs_ok (s\<lparr>hieth_curr := q\<rparr>) = devs_ok s"
  by (simp_all add: devs_ok_def)

lemma get_phy_step:
  assumes "drv_ok h c s" and "n \<in> {U_PHY_NAME c, D_PHY_NAME c}"
  obtains r d where "on_mii (get_phy_device n a) s = Some (r, set_bus s d)"
  using hw_only_on_mii [of "get_phy_device n a" s] hieth_bus.get_phy_defined [OF drv_ok_names [OF assms], of a]
  by (auto simp: hw_only_def)

lemma probe_step:
  assumes "up_ok h c s" and "n \<in> {U_PHY_NAME c, D_PHY_NAME c}"
  shows "\<exists>s'. probe_if_present h c p n a s = Some (0, s') \<and> up_ok h c s' \<and> hieth_curr s' = hieth_curr s"
proof -
  obtain r d where g: "on_mii (get_phy_device n a) s = Some (r, set_bus s d)"
    using assms by (auto simp: up_ok_def intro: get_phy_step)
  show ?thesis
    using assms(1)
    by (auto simp: probe_if_present_def g hieth_dev_probe_init_def Let_def on_hw_eq up_ok_def devs_ok_def drv_ok_def)
qed

lemma try_port_step:
  assumes ok: "up_ok h c s" and n: "n \<in> {U_PHY_NAME c, D_PHY_NAME c}"
  shows "\<exists>b s'. try_port h c p n a s = Some (b, s') \<and> up_ok h c s' \<and>
    (if b then hieth_curr s' = Some p \<and> link_stat (hieth_devs s' p) AND HIETH_LINKED \<noteq> 0
     else hieth_curr s' = hieth_curr s)"
proof -
  obtain r d where g: "on_mii (get_phy_device n a) s = Some (r, set_bus s d)"
    using assms by (auto simp: up_ok_def intro: get_phy_step)
  have "drv_ok h c (set_bus s d)" using ok by (simp add: up_ok_def)
  then obtain e x where o1: "hieth_net_open h c p (set_bus s d) =
      Some (0, (set_bus s e)\<lparr>hieth_devs := (hieth_devs s)(p := (hieth_devs s p)\<lparr>link_stat := x\<rparr>)\<rparr>)"
    using net_open_defined [of h c "set_bus s d" p] by auto
  show ?thesis
    using ok by (auto simp: try_port_def g o1 up_ok_def devs_ok_def)
qed

lemma open_loop_step: "up_ok h c s \<Longrightarrow>
    \<exists>b s'. open_loop h c t s = Some (b, s') \<and> up_ok h c s' \<and>
    (if b then (\<exists>p. hieth_curr s' = Some p \<and> link_stat (hieth_devs s' p) AND HIETH_LINKED \<noteq> 0)
     else hieth_curr s' = hieth_curr s)"
proof (induction t arbitrary: s)
  case (Suc t)
  obtain b1 s1 where 1: "try_port h c UP_PORT (U_PHY_NAME c) (U_PHY_ADDR c) s = Some (b1, s1)" "up_ok h c s1"
    "if b1 then hieth_curr s1 = Some UP_PORT \<and> link_stat (hieth_devs s1 UP_PORT) AND HIETH_LINKED \<noteq> 0
     else hieth_curr s1 = hieth_curr s"
    using try_port_step [OF Suc.prems, where n = "U_PHY_NAME c" and p = UP_PORT and a = "U_PHY_ADDR c"] by auto
  obtain b2 s2 where 2: "try_port h c DOWN_PORT (D_PHY_NAME c) (D_PHY_ADDR c) s1 = Some (b2, s2)" "up_ok h c s2"
    "if b2 then hieth_curr s2 = Some DOWN_PORT \<and> link_stat (hieth_devs s2 DOWN_PORT) AND HIETH_LINKED \<noteq> 0
     else hieth_curr s2 = hieth_curr s1"
    using try_port_step [OF 1(2), where n = "D_PHY_NAME c" and p = DOWN_PORT and a = "D_PHY_ADDR c"] by auto
  obtain b3 s3 where "open_loop h c t s2 = Some (b3, s3)" "up_ok h c s3"
    "if b3 then (\<exists>p. hieth_curr s3 = Some p \<and> link_stat (hieth_devs s3 p) AND HIETH_LINKED \<noteq> 0)
     else hieth_curr s3 = hieth_curr s2"
    using Suc.IH [OF 2(2)] by auto
  then show ?case using 1 2 by (cases b1; cases b2; cases b3) auto
next
  case 0
  then show ?case by (intro exI [of _ False] exI [of _ s]) simp
qed

lemma init_step:
  assumes "U_PHY_NAME c \<noteq> D_PHY_NAME c"
  shows "\<exists>s'. hieth_init h (True, True) c s = Some (0, s') \<and> up_ok h c s' \<and> hieth_curr s' = hieth_curr s"
proof -
  define s2 where "s2 = snd (on_hw (hieth_sys_init h) (s\<lparr>hieth_devs := (\<lambda>_. zero_dev)\<rparr>))"
  have s2: "hieth_devs s2 = (\<lambda>_. zero_dev)" "hieth_curr s2 = hieth_curr s" by (simp_all add: s2_def on_hw_eq)
  obtain m where m: "hieth_mdiobus_driver_init h (True, True) c (mii s2) = Some (0, m)"
    "attached (hieth_mdiobus_read h) (hieth_mdiobus_write h) (U_PHY_NAME c) m"
    "attached (hieth_mdiobus_read h) (hieth_mdiobus_write h) (D_PHY_NAME c) m"
    using init_registers [OF assms, of h "mii s2"] by auto
  have "up_ok h c (s2\<lparr>mii := m\<rparr>)"
    using m by (simp add: up_ok_def drv_ok_def devs_ok_def s2 zero_dev_def)
  then obtain s3 where 3: "probe_if_present h c UP_PORT (U_PHY_NAME c) (U_PHY_ADDR c) (s2\<lparr>mii := m\<rparr>) = Some (0, s3)"
    "up_ok h c s3" "hieth_curr s3 = hieth_curr s2"
    using probe_step [of h c "s2\<lparr>mii := m\<rparr>" "U_PHY_NAME c"] by auto
  obtain s4 where 4: "probe_if_present h c DOWN_PORT (D_PHY_NAME c) (D_PHY_ADDR c) s3 = Some (0, s4)" "up_ok h c s4"
    "hieth_curr s4 = hieth_curr s3"
    using probe_step [OF 3(2), of "D_PHY_NAME c"] by auto
  show ?thesis
    using 3 4 m s2 by (simp add: hieth_init_def Let_def case_prod_beta s2_def [symmetric] on_mii_def)
qed

lemma irq_same [simp]: "(set_bus s d)\<lparr>irq_on := irq_on s\<rparr> = set_bus s d"
  by (cases s) simp

lemma init_rx_step:
  assumes "cur_dev s = Some ld"
  shows "\<exists>x d q. eth_init_rx h s = Some (x, (set_bus s d)\<lparr>irq_on := q\<rparr>)"
proof -
  obtain rdy d1 where 1: "run_state (hieth_readl_bits h (iobase_phys ld) (GLB_RO_QUEUE_STAT ld) BITS_RECVQ_RDY)
      (bus (mii s)) = (rdy, d1)" by fastforce
  show ?thesis
  proof (cases "rdy = 0")
    case True
    then have "eth_init_rx h s = Some (1, set_bus s d1)"
      by (simp add: eth_init_rx_def assms on_hw_eq 1)
    then show ?thesis by (metis irq_same)
  next
    case False
    then have "eth_init_rx h s = Some (0, (set_bus s (snd (run_state (hw_recvq_setfd h ld (rx_buf_phys s))
        (snd (run_state (hieth_irq_enable h ld 0xc0001) d1)))))\<lparr>irq_on := True\<rparr>)"
      by (simp add: eth_init_rx_def assms on_hw_eq 1 Let_def)
    then show ?thesis by blast
  qed
qed

lemma close_step:
  assumes "drv_ok h c s" and "n \<in> {U_PHY_NAME c, D_PHY_NAME c}"
  shows "\<exists>d. close_if_present h p n a s = Some (set_bus s d)"
proof -
  obtain r d where g: "on_mii (get_phy_device n a) s = Some (r, set_bus s d)"
    using assms by (auto intro: get_phy_step)
  show ?thesis by (simp add: close_if_present_def g hieth_net_close_def on_hw_eq) auto
qed

lemma halt_step:
  assumes ok: "drv_ok h c s" shows "eth_halt h c s \<noteq> None"
proof -
  have k: "\<exists>d. close_if_probed h p s' = set_bus s' d" for p s'
    by (auto simp: close_if_probed_def hieth_net_close_def on_hw_eq intro: exI [of _ "bus (mii s')"])
  obtain d1 where 1: "close_if_probed h UP_PORT s = set_bus s d1" using k by blast
  obtain d2 where 2: "close_if_probed h DOWN_PORT (set_bus s d1) = set_bus s d2"
    using k [of DOWN_PORT "set_bus s d1"] by auto
  have at: "attached (hieth_mdiobus_read h) (hieth_mdiobus_write h) n (mii s\<lparr>bus := d\<rparr>)"
    if "n \<in> {U_PHY_NAME c, D_PHY_NAME c}" for n d
    using drv_ok_names [OF ok that] by simp
  have b: "bus_only (reset_if_present h n a (mii s\<lparr>bus := d\<rparr>)) (mii s\<lparr>bus := d\<rparr>)"
    if "n \<in> {U_PHY_NAME c, D_PHY_NAME c}" for n a d
    by (rule hieth_bus.reset_if_present_defined [OF at [OF that]])
  obtain x d3 where 3: "reset_if_present h (U_PHY_NAME c) (U_PHY_ADDR c) (mii s\<lparr>bus := d2\<rparr>) = Some (x, mii s\<lparr>bus := d3\<rparr>)"
    using b [of "U_PHY_NAME c" "U_PHY_ADDR c" d2] by (auto simp: bus_only_def)
  obtain y d4 where 4: "reset_if_present h (D_PHY_NAME c) (D_PHY_ADDR c) (mii s\<lparr>bus := d3\<rparr>) = Some (y, mii s\<lparr>bus := d4\<rparr>)"
    using b [of "D_PHY_NAME c" "D_PHY_ADDR c" d3] by (auto simp: bus_only_def)
  show ?thesis
    by (simp add: eth_halt_def Let_def 1 2 on_mii_def hieth_mdiobus_driver_exit_def 3 4)
qed

lemma eth_init_run:
  assumes "U_PHY_NAME c \<noteq> D_PHY_NAME c"
  shows "\<exists>r s'. eth_init h (True, True) bufs mem c mac s = Some (r, s') \<and>
    (r = 0 \<and> (\<exists>p. hieth_curr s' = Some p \<and> link_stat (hieth_devs s' p) AND HIETH_LINKED \<noteq> 0) \<or>
     r = - 1 \<and> hieth_curr s' = hieth_curr s) \<and>
    devs_ok s' \<and> eth_halt h c s' \<noteq> None"
proof -
  obtain s1 where 1: "hieth_init h (True, True) c s = Some (0, s1)" "up_ok h c s1" "hieth_curr s1 = hieth_curr s"
    using init_step [OF assms, of h s] by auto
  define s2 where "s2 = snd (on_hw (eth_set_host_mac_address h mac) s1)"
  have u2: "up_ok h c s2" "hieth_curr s2 = hieth_curr s"
    using 1(2,3) by (simp_all add: s2_def on_hw_eq up_ok_def)
  obtain b s3 where 3: "open_loop h c 30 s2 = Some (b, s3)" "up_ok h c s3"
    "if b then (\<exists>p. hieth_curr s3 = Some p \<and> link_stat (hieth_devs s3 p) AND HIETH_LINKED \<noteq> 0)
     else hieth_curr s3 = hieth_curr s"
    using open_loop_step [OF u2(1), of 30] u2(2) by auto
  have e: "eth_init h (True, True) bufs mem c mac s = (if b then do {
        (_, s4) \<leftarrow> eth_init_rx h (alloc_txrx_buffer bufs mem s3);
        Some (0, s4)
      } else do {
        s4 \<leftarrow> close_if_present h UP_PORT (U_PHY_NAME c) (U_PHY_ADDR c) s3;
        s5 \<leftarrow> close_if_present h DOWN_PORT (D_PHY_NAME c) (D_PHY_ADDR c) s4;
        Some (- 1, s5)
      })"
    by (simp add: eth_init_def 1 case_prod_beta s2_def [symmetric] 3 del: open_loop.simps)
  show ?thesis
  proof (cases b)
    case True
    define s4 where "s4 = alloc_txrx_buffer bufs mem s3"
    obtain p where p: "hieth_curr s3 = Some p" "link_stat (hieth_devs s3 p) AND HIETH_LINKED \<noteq> 0"
      using 3(3) True by auto
    have c4: "hieth_curr s4 = Some p" "hieth_devs s4 = hieth_devs s3" "up_ok h c s4"
      using p 3(2) by (simp_all add: s4_def alloc_txrx_buffer_def up_ok_def devs_ok_def drv_ok_def)
    have "cur_dev s4 = Some (hieth_devs s3 p)" by (simp add: cur_dev_def c4)
    from init_rx_step [OF this, of h]
    obtain x d q where x: "eth_init_rx h s4 = Some (x, (set_bus s4 d)\<lparr>irq_on := q\<rparr>)" by blast
    have "drv_ok h c ((set_bus s4 d)\<lparr>irq_on := q\<rparr>)"
      using c4(3) by (simp add: up_ok_def drv_ok_def)
    then have "eth_halt h c ((set_bus s4 d)\<lparr>irq_on := q\<rparr>) \<noteq> None" by (rule halt_step)
    then show ?thesis
      using True p c4 by (simp add: e s4_def [symmetric] x up_ok_def devs_ok_def)
  next
    case False
    obtain d4 where 4: "close_if_present h UP_PORT (U_PHY_NAME c) (U_PHY_ADDR c) s3 = Some (set_bus s3 d4)"
      using close_step [of h c s3 "U_PHY_NAME c"] 3(2) by (auto simp: up_ok_def)
    obtain d5 where 5: "close_if_present h DOWN_PORT (D_PHY_NAME c) (D_PHY_ADDR c) (set_bus s3 d4) = Some (set_bus s3 d5)"
      using close_step [of h c "set_bus s3 d4" "D_PHY_NAME c"] 3(2) by (auto simp: up_ok_def)
    have "eth_halt h c (set_bus s3 d5) \<noteq> None"
      using 3(2) by (intro halt_step) (simp add: up_ok_def)
    then show ?thesis
      using False 3(2,3) by (simp add: e 4 5 up_ok_def)
  qed
qed

lemma eth_init_without_memory:
  assumes "U_PHY_NAME c \<noteq> D_PHY_NAME c" and "allocs \<noteq> (True, True)"
  shows "eth_init h allocs bufs mem c mac s = None"
  by (simp add: eth_init_def hieth_init_def on_mii_def init_without_memory [OF assms] Let_def case_prod_beta)

text \<open>
  C11: \<open>eth_init\<close> on any hardware, from any earlier state and with any address. When the two allocations for
  the MII devices succeed it returns, after at most 30 rounds over the two ports and without using an unset variable;
  the result is 0 with a current device whose link is up, or -1 with the current device as it was. Whatever the
  result, the PHY layer is set up for \<open>eth_halt\<close>, which then returns as well. When one of the allocations fails, the code
  goes on to probe a port that is not registered and uses identifier words that nothing has set.
\<close>

theorem eth_init_returns:
  assumes "U_PHY_NAME c \<noteq> D_PHY_NAME c"
  shows "if allocs = (True, True)
    then \<exists>r s'. eth_init h allocs bufs mem c mac s = Some (r, s') \<and>
      (r = 0 \<and> (\<exists>p. hieth_curr s' = Some p \<and> link_stat (hieth_devs s' p) AND HIETH_LINKED \<noteq> 0) \<or>
       r = - 1 \<and> hieth_curr s' = hieth_curr s) \<and>
      devs_ok s' \<and> eth_halt h c s' \<noteq> None
    else eth_init h allocs bufs mem c mac s = None"
  using eth_init_run [OF assms] eth_init_without_memory [OF assms] by (cases "allocs = (True, True)") simp_all

definition demo_drv :: "'d \<Rightarrow> 'd drv" where
  "demo_drv d = \<lparr>mii = demo_mii d, hieth_devs = (\<lambda>p. demo_port p), hieth_curr = Some UP_PORT,
     tx_buf = replicate 2048 0, tx_buf_phys = 0x80000000, rx_buf_phys = 0x80010000, irq_on = True\<rparr>"

theorem eth_init_returns_witness:
  "\<exists>r s'. eth_init sim_hw (True, True) (0x80000000, 0x80010000) [] demo_phys [2, 0, 0, 0, 0, 1] (demo_drv (0, 0)) =
     Some (r, s') \<and> eth_halt sim_hw demo_phys s' \<noteq> None \<and>
   eth_init sim_hw (True, False) (0x80000000, 0x80010000) [] demo_phys [2, 0, 0, 0, 0, 1] (demo_drv (0, 0)) = None"
proof -
  have "U_PHY_NAME demo_phys \<noteq> D_PHY_NAME demo_phys" by (simp add: demo_phys_def)
  note i = eth_init_returns [OF this, of _ sim_hw "(0x80000000, 0x80010000)" "[]" "[2, 0, 0, 0, 0, 1]" "demo_drv (0, 0)"]
  from i [of "(True, True)"] i [of "(True, False)"] show ?thesis by auto
qed

subsection \<open>The host address\<close>

text \<open>The address that the two address registers hold, most significant byte first.\<close>

definition host_address :: "(u32 \<Rightarrow> u32) \<Rightarrow> bytes" where
  "host_address m = (let hi = m (ETH_GLB_REG 1); lo = m (ETH_GLB_REG 0) in
     [ucast (drop_bit 8 hi), ucast hi, ucast (drop_bit 24 lo), ucast (drop_bit 16 lo),
      ucast (drop_bit 8 lo), ucast lo])"

lemma refines_u_writel [refine]:
  "\<lbrakk>config_regs h \<alpha> R; a \<in> R\<rbrakk> \<Longrightarrow> refines \<alpha> (u_writel h v a) (u_writel mem_hw v a)"
  by (simp add: refines_def config_regs_def u_writel_def mem_hw_def)

lemma mem_u_writel [simp]: "run_state (u_writel mem_hw v a) m = ((), m(a := v))"
  by (simp add: u_writel_def mem_hw_def)

text \<open>
  The address that \<open>set_mac_address\<close> writes can be read back from the two registers byte by
  byte, so no two addresses program the same filter, and no other register changes.
\<close>

theorem host_address_roundtrip:
  assumes "config_regs h \<alpha> {ETH_GLB_REG 0, ETH_GLB_REG 1}" and "length mac = 6"
    and "run_state (set_mac_address h mac) d = (r, d')"
  shows "r = 0 \<and> host_address (\<alpha> d') = mac \<and>
    (\<forall>a. a \<noteq> ETH_GLB_REG 0 \<and> a \<noteq> ETH_GLB_REG 1 \<longrightarrow> \<alpha> d' a = \<alpha> d a)"
proof -
  have "refines \<alpha> (set_mac_address h mac) (set_mac_address mem_hw mac)"
    unfolding set_mac_address_def
    by (intro refines_bind refines_return refines_u_writel [OF assms(1)]) simp_all
  note m = refinesD [OF this assms(3)]
  have "r = fst (run_state (set_mac_address mem_hw mac) (\<alpha> d))"
    and "\<alpha> d' = snd (run_state (set_mac_address mem_hw mac) (\<alpha> d))"
    by (simp_all add: m)
  moreover obtain a b c d e f where "mac = [a, b, c, d, e, f]"
    using list6 [OF assms(2)] by blast
  moreover have "ETH_GLB_REG 0 \<noteq> ETH_GLB_REG 1" by (simp add: ETH_GLB_REG_def)
  ultimately show ?thesis
    by (simp add: set_mac_address_def host_address_def Let_def le32_byte)
qed

theorem host_address_roundtrip_witness:
  "host_address (snd (run_state (set_mac_address mem_hw [2, 4, 6, 8, 10, 12]) (\<lambda>_. 0))) = [2, 4, 6, 8, 10, 12]"
proof -
  have "length [2, 4, 6, 8, 10, 12 :: u8] = 6" by simp
  from host_address_roundtrip [OF config_regs_mem this prod.collapse [symmetric]]
  show ?thesis by blast
qed

lemma replicate6: "replicate 6 k = [k, k, k, k, k, k]"
  by (simp add: numeral_eq_Suc)

text \<open>
  \<open>is_valid_ether_addr\<close> accepts an address exactly when it is a unicast address other than
  \<open>00:00:00:00:00:00\<close>; the broadcast address needs no test of its own.
\<close>

theorem valid_address_iff:
  "length a = 6 \<Longrightarrow> is_valid_ether_addr a \<longleftrightarrow> \<not> bit (a ! 0) 0 \<and> a \<noteq> replicate 6 0 \<and> a \<noteq> replicate 6 0xFF"
proof -
  assume l: "length a = 6"
  obtain u v w x y z where a: "a = [u, v, w, x, y, z]" using list6 [OF l] by blast
  have "(1 AND u \<noteq> 0) = bit u 0"
    by (metis and.commute and_one_eq even_iff_mod_2_eq_zero bit_0 odd_iff_mod_2_eq_one zero_neq_one)
  moreover have "bit (0xFF :: u8) 0" by simp
  moreover have "u OR v OR w OR x OR y OR z = 0 \<longleftrightarrow> u = 0 \<and> v = 0 \<and> w = 0 \<and> x = 0 \<and> y = 0 \<and> z = 0"
    by (metis or_eq_0_iff)
  ultimately show ?thesis
    unfolding is_valid_ether_addr_def is_multicast_ether_addr_def is_zero_ether_addr_def a replicate6 by auto
qed

theorem valid_address_iff_witness:
  "is_valid_ether_addr [0, 0x15, 0x5d, 1, 2, 3] \<and> \<not> is_valid_ether_addr (replicate 6 0xFF)"
  using valid_address_iff [of "[0, 0x15, 0x5d, 1, 2, 3]"] valid_address_iff [of "replicate 6 0xFF"]
  by (simp add: replicate6)

subsection \<open>Receiving and sending by polling\<close>

text \<open>
  \<open>eth_rx\<close> returns on any hardware, with 0 and a length between 42 and 1536, or with -1 and
  length 0; a frame of any other length is dropped, and only the hardware has changed.
\<close>

theorem eth_rx_outcome:
  assumes "cur_dev s = Some ld"
  shows "\<exists>r len d. eth_rx e s = Some ((r, len), s\<lparr>mii := mii s\<lparr>bus := d\<rparr>\<rparr>) \<and>
    (r = 0 \<and> 42 \<le> len \<and> len \<le> 1536 \<or> r = - 1 \<and> len = 0)"
proof -
  define d4 where "d4 = snd (run_state (recv_poll (env_hw e) ld 10000)
    (snd (run_state (hw_recvq_setfd (env_hw e) ld (rx_buf_phys s))
      (snd (run_state (hieth_irq_enable (env_hw e) ld (HIETH_INT_RX_RDY ld))
        (snd (run_state (hieth_readl_bits (env_hw e) (iobase_phys ld) (GLB_RO_QUEUE_STAT ld) BITS_RECVQ_RDY)
          (bus (mii s)))))))))"
  obtain r d5 where 5: "run_state (is_recv_packet (env_hw e) ld) d4 = (r, d5)" by fastforce
  obtain len d6 where 6: "run_state (hw_get_rxpkg_len (env_hw e) ld) d5 = (len, d6)" by fastforce
  have "eth_rx e s = (if r then (let d7 = snd (run_state (hw_set_rxpkg_finish (env_hw e) ld) d6) in
      if HIETH_INVALID_RXPKG_LEN len then Some ((- 1, 0), set_bus s d7)
      else Some ((0, len), set_bus s (env_flush e d7)))
    else Some ((- 1, 0), set_bus s d5))"
    by (simp add: eth_rx_def assms on_hw_eq d4_def [symmetric] 5 6 Let_def del: recv_poll.simps)
  then show ?thesis
    by (auto simp: Let_def HIETH_INVALID_RXPKG_LEN_def)
qed

theorem eth_rx_outcome_witness:
  "\<exists>r len d. eth_rx \<lparr>env_hw = sim_hw, env_flush = (\<lambda>d. d), env_rxbuf = (\<lambda>_. [])\<rparr> (demo_drv (0, 0)) =
     Some ((r, len), (demo_drv (0, 0))\<lparr>mii := (demo_mii (0, 0))\<lparr>bus := d\<rparr>\<rparr>) \<and>
     (r = 0 \<and> 42 \<le> len \<and> len \<le> 1536 \<or> r = - 1 \<and> len = 0)"
proof -
  have "cur_dev (demo_drv (0 :: nat, 0 :: u16)) = Some (demo_port UP_PORT)"
    by (simp add: cur_dev_def demo_drv_def)
  from eth_rx_outcome [OF this] show ?thesis by (simp add: demo_drv_def)
qed

lemma cur_dev_simps [simp]:
  "cur_dev (s\<lparr>mii := m\<rparr>) = cur_dev s" "cur_dev (s\<lparr>tx_buf := b\<rparr>) = cur_dev s"
  by (simp_all add: cur_dev_def)

lemma eth_send_run:
  assumes "cur_dev s = Some ld" and "yield \<noteq> - 1" and "0 \<le> len" and "nat len \<le> length packet"
    and "nat len \<le> length (tx_buf s)"
    and rdy: "run_state (hieth_readl_bits (env_hw e) (iobase_phys ld) (GLB_RO_QUEUE_STAT ld) BITS_XMITQ_RDY)
      (env_flush e (bus (mii s))) = (rdy, d2)"
    and d4: "d4 = snd (run_state (hw_xmitq_setfd (env_hw e) ld (tx_buf_phys s) (take_bit 11 (word_of_int len + 4)))
      (snd (run_state (hieth_irq_enable (env_hw e) ld (HIETH_INT_TXQUE_RDY ld)) d2)))"
    and p: "run_state (send_poll (env_hw e) ld 3000) d4 = ((ints, left), d5)"
  shows "eth_send e yield packet len s =
    (let s' = s\<lparr>tx_buf := take (nat len) packet @ drop (nat len) (tx_buf s)\<rparr> in
     if rdy = 0 then Some (- 1, set_bus s' d2)
     else Some (if left = 0 then - 1 else 0,
                set_bus s' (snd (run_state (hieth_clear_irqstatus (env_hw e) ld ints) d5))))"
proof -
  have c: "rdn packet 0 (nat len) = Some (take (nat len) packet)"
    "wrn (tx_buf s) 0 (take (nat len) packet) = Some (take (nat len) packet @ drop (nat len) (tx_buf s))"
    using assms(4,5) by (simp_all add: rdn_def wrn_def min_absorb2)
  have y: "yield \<noteq> - 1" "\<not> len < 0" using assms(2,3) by simp_all
  show ?thesis
    by (simp add: eth_send_def y c on_hw_eq assms(1) rdy d4 [symmetric] p Let_def del: send_poll.simps)
qed

text \<open>
  \<open>eth_send\<close> copies exactly the frame into the transmit buffer and returns 0 or -1, on any
  hardware; it leaves its defined behaviour exactly when the length is negative, beyond the packet
  or beyond the 2048 bytes of the buffer.
\<close>

theorem eth_send_outcome:
  assumes "cur_dev s = Some ld" and "yield \<noteq> - 1"
  shows "(eth_send e yield packet len s = None) =
      (len < 0 \<or> int (length packet) < len \<or> int (length (tx_buf s)) < len) \<and>
    (0 \<le> len \<and> len \<le> int (length packet) \<and> len \<le> int (length (tx_buf s)) \<longrightarrow>
      (\<exists>r d. eth_send e yield packet len s = Some (r,
          s\<lparr>tx_buf := take (nat len) packet @ drop (nat len) (tx_buf s), mii := mii s\<lparr>bus := d\<rparr>\<rparr>) \<and>
        (r = 0 \<or> r = - 1)))"
proof -
  obtain rdy d2 where 2: "run_state (hieth_readl_bits (env_hw e) (iobase_phys ld) (GLB_RO_QUEUE_STAT ld) BITS_XMITQ_RDY)
      (env_flush e (bus (mii s))) = (rdy, d2)" by fastforce
  obtain ints left d5 where 5: "run_state (send_poll (env_hw e) ld 3000)
      (snd (run_state (hw_xmitq_setfd (env_hw e) ld (tx_buf_phys s) (take_bit 11 (word_of_int len + 4)))
      (snd (run_state (hieth_irq_enable (env_hw e) ld (HIETH_INT_TXQUE_RDY ld)) d2)))) = ((ints, left), d5)"
    by (metis prod.collapse)
  have ok: "0 \<le> len \<and> len \<le> int (length packet) \<and> len \<le> int (length (tx_buf s)) \<Longrightarrow>
      \<exists>r d. eth_send e yield packet len s = Some (r,
        s\<lparr>tx_buf := take (nat len) packet @ drop (nat len) (tx_buf s), mii := mii s\<lparr>bus := d\<rparr>\<rparr>) \<and> (r = 0 \<or> r = - 1)"
    using eth_send_run [OF assms _ _ _ 2 refl 5, of packet]
    by (cases "rdy = 0"; cases "left = 0") (auto simp: Let_def nat_le_iff)
  have bad: "eth_send e yield packet len s = None"
    if "len < 0 \<or> int (length packet) < len \<or> int (length (tx_buf s)) < len"
    using that assms(2)
    by (auto simp: eth_send_def Let_def rdn_def wrn_def nat_le_iff min_absorb2)
  show ?thesis
    using ok bad by (metis linorder_not_le option.distinct(1))
qed

theorem eth_send_outcome_witness:
  "eth_send \<lparr>env_hw = sim_hw, env_flush = (\<lambda>d. d), env_rxbuf = (\<lambda>_. [])\<rparr> 0 (replicate 3000 1) 2049 (demo_drv (0, 0)) = None"
proof -
  have "cur_dev (demo_drv (0 :: nat, 0 :: u16)) = Some (demo_port UP_PORT)"
    and "length (tx_buf (demo_drv (0 :: nat, 0 :: u16))) = 2048"
    by (simp_all add: cur_dev_def demo_drv_def)
  then show ?thesis
    using eth_send_outcome [of "demo_drv (0, 0)" "demo_port UP_PORT" 0
        "\<lparr>env_hw = sim_hw, env_flush = (\<lambda>d. d), env_rxbuf = (\<lambda>_. [])\<rparr>" "replicate 3000 1" 2049]
    by simp
qed

subsection \<open>When a transmission counts as done\<close>

text \<open>
  A transmitter that needs \<open>T\<close> microseconds for a frame: the ready bit of the status register comes
  up \<open>T\<close> microseconds after the length of the frame is written. \<open>busy\<close> is the time left.
\<close>

definition transmitter :: "'d env \<Rightarrow> netdev \<Rightarrow> nat \<Rightarrow> ('d \<Rightarrow> nat) \<Rightarrow> bool" where
  "transmitter e ld T busy \<longleftrightarrow>
     (\<forall>d. (fst (hw_load (env_hw e) (iobase_phys ld + GLB_RO_IRQ_STAT) d) AND HIETH_INT_TXQUE_RDY ld \<noteq> 0) = (busy d = 0)) \<and>
     (\<forall>d. busy (snd (hw_load (env_hw e) (iobase_phys ld + GLB_RO_IRQ_STAT) d)) = busy d) \<and>
     (\<forall>n d. busy (hw_udelay (env_hw e) n d) = busy d - n) \<and>
     (\<forall>v d. busy (hw_store (env_hw e) (iobase_phys ld + GLB_EQFRM_LEN ld) v d) = T) \<and>
     (\<forall>d. bit (fst (hw_load (env_hw e) (iobase_phys ld + GLB_RO_QUEUE_STAT ld) d)) 24)"

lemma send_poll_left:
  assumes t: "transmitter e ld T busy"
  shows "snd (fst (run_state (send_poll (env_hw e) ld (Suc n)) d)) = Suc n - max 1 (busy d)"
proof (induction n arbitrary: d)
  case 0
  then show ?case by (simp add: udelay_def hieth_read_irqstatus_def hieth_read_irqstatus_nolock_def
    hieth_readl_def u_readl_def case_prod_beta)
next
  case (Suc n)
  define d1 where "d1 = hw_udelay (env_hw e) 1 d"
  define d2 where "d2 = snd (hw_load (env_hw e) (iobase_phys ld + GLB_RO_IRQ_STAT) d1)"
  have b1: "busy d1 = busy d - 1"
    using t by (simp add: transmitter_def d1_def)
  then have b: "busy d2 = busy d - 1"
    using t by (simp add: transmitter_def d2_def)
  have b3: "(fst (hw_load (env_hw e) (iobase_phys ld + GLB_RO_IRQ_STAT) d1) AND HIETH_INT_TXQUE_RDY ld = 0) = (busy d - 1 \<noteq> 0)"
  proof -
    have "(fst (hw_load (env_hw e) (iobase_phys ld + GLB_RO_IRQ_STAT) d1) AND HIETH_INT_TXQUE_RDY ld \<noteq> 0) = (busy d1 = 0)"
      using t unfolding transmitter_def by blast
    then show ?thesis using b1 by argo
  qed
  have r: "run_state (hieth_read_irqstatus (env_hw e) ld) d1 =
      (fst (hw_load (env_hw e) (iobase_phys ld + GLB_RO_IRQ_STAT) d1), d2)"
    by (simp add: hieth_read_irqstatus_def hieth_read_irqstatus_nolock_def hieth_readl_def u_readl_def d2_def)
  have u: "run_state (udelay (env_hw e) 1) d = ((), d1)" by (simp add: udelay_def d1_def)
  have s: "fst (run_state (send_poll (env_hw e) ld (Suc (Suc n))) d) =
      (if busy d - 1 \<noteq> 0 then fst (run_state (send_poll (env_hw e) ld (Suc n)) d2)
       else (fst (hw_load (env_hw e) (iobase_phys ld + GLB_RO_IRQ_STAT) d1), Suc n))"
    using u r b3 by (subst send_poll.simps) (simp del: send_poll.simps)
  show ?case
    using Suc.IH [of d2] b b1 unfolding s by (auto simp del: send_poll.simps)
qed

text \<open>
  \<open>eth_send\<close> reports success exactly for frames that the transmitter finishes within 2999
  microseconds; a frame that is done at the last of the 3000 polls is sent and yet reported as a
  timeout.
\<close>

theorem eth_send_timeout:
  assumes "cur_dev s = Some ld" and "yield \<noteq> - 1" and "0 \<le> len" and "len \<le> int (length packet)"
    and "len \<le> int (length (tx_buf s))" and "transmitter e ld T busy"
  shows "outcome (eth_send e yield packet len s) = Some (if T \<le> 2999 then 0 else - 1)"
proof -
  obtain rdy d2 where 2: "run_state (hieth_readl_bits (env_hw e) (iobase_phys ld) (GLB_RO_QUEUE_STAT ld) BITS_XMITQ_RDY)
      (env_flush e (bus (mii s))) = (rdy, d2)" by fastforce
  define d4 where "d4 = snd (run_state (hw_xmitq_setfd (env_hw e) ld (tx_buf_phys s) (take_bit 11 (word_of_int len + 4)))
      (snd (run_state (hieth_irq_enable (env_hw e) ld (HIETH_INT_TXQUE_RDY ld)) d2)))"
  obtain ints left d5 where 5: "run_state (send_poll (env_hw e) ld 3000) d4 = ((ints, left), d5)"
    by (metis prod.collapse)
  have "busy d4 = T"
    using assms(6)
    by (simp add: d4_def hw_xmitq_setfd_def hieth_writel_bits_def hieth_writel_def hieth_readl_def
      u_readl_def u_writel_def case_prod_beta transmitter_def)
  then have l: "left = 3000 - max 1 T"
    using send_poll_left [OF assms(6), of 2999 d4] 5 by (simp del: send_poll.simps)
  have "rdy \<noteq> 0"
  proof -
    have "rdy = field_get BITS_XMITQ_RDY (fst (hw_load (env_hw e) (iobase_phys ld + GLB_RO_QUEUE_STAT ld) (env_flush e (bus (mii s)))))"
      using 2 by (auto simp: hieth_readl_bits_def hieth_readl_def u_readl_def case_prod_beta)
    moreover have "bit (bits_mask BITS_XMITQ_RDY) 24"
      using bit_bits_mask [of 24 1 24] by (simp add: BITS_XMITQ_RDY_def)
    moreover have "bits_shift BITS_XMITQ_RDY = 24" by (simp add: BITS_XMITQ_RDY_def)
    ultimately have "bit rdy 0"
      using assms(6) by (simp add: bit_field_get transmitter_def)
    then show ?thesis by auto
  qed
  then show ?thesis
    using eth_send_run [OF assms(1,2,3) _ _ 2 d4_def 5, of packet] assms(4,5) l
    by (auto simp: Let_def nat_le_iff)
qed

definition slow_env :: "nat \<Rightarrow> nat env" where
  "slow_env T = \<lparr>env_hw = \<lparr>hw_load = (\<lambda>a d. (if a = REG_BASE_SF + 0x1330 then (if d = 0 then 0x40 else 0) else 0x01000000, d)),
      hw_store = (\<lambda>a v d. if a = REG_BASE_SF + 0x364 then T else d), hw_udelay = (\<lambda>n d. d - n)\<rparr>,
    env_flush = (\<lambda>d. d), env_rxbuf = (\<lambda>_. [])\<rparr>"

theorem eth_send_timeout_witness:
  "outcome (eth_send (slow_env 2999) 0 (replicate 60 1) 60 (demo_drv 0)) = Some 0 \<and>
   outcome (eth_send (slow_env 3000) 0 (replicate 60 1) 60 (demo_drv 0)) = Some (- 1)"
proof -
  have "cur_dev (demo_drv (0 :: nat)) = Some (demo_port UP_PORT)"
    and "length (tx_buf (demo_drv (0 :: nat))) = 2048"
    by (simp_all add: cur_dev_def demo_drv_def)
  moreover have "bit (0x01000000 :: u32) 24" by simp
  then have "transmitter (slow_env T) (demo_port UP_PORT) T (\<lambda>d. d)" for T
    by (simp add: transmitter_def slow_env_def demo_port_def reg_map HIETH_INT_TXQUE_RDY_def)
  ultimately show ?thesis
    using eth_send_timeout [of "demo_drv 0" "demo_port UP_PORT" 0 60 "replicate 60 1" "slow_env 2999" 2999 "\<lambda>d. d"]
      eth_send_timeout [of "demo_drv 0" "demo_port UP_PORT" 0 60 "replicate 60 1" "slow_env 3000" 3000 "\<lambda>d. d"]
    by simp
qed

subsection \<open>The receive interrupt\<close>

text \<open>
  What the handler relies on: the status, length and enable registers can be read without effect, a
  store to the enable and receive-address registers keeps the value, a store to the raw register
  clears the bits written in the status register, and none of this disturbs the receive buffer.
\<close>

definition irq_device :: "'d env \<Rightarrow> netdev \<Rightarrow> ('d \<Rightarrow> u32 \<Rightarrow> u32) \<Rightarrow> bool" where
  "irq_device e ld \<alpha> \<longleftrightarrow> (let b = iobase_phys ld in
     (\<forall>a\<in>{b + GLB_RO_IRQ_STAT, b + GLB_RW_IRQ_ENA, b + GLB_RO_IQFRM_DES ld}. \<forall>d.
        fst (hw_load (env_hw e) a d) = \<alpha> d a \<and> \<alpha> (snd (hw_load (env_hw e) a d)) = \<alpha> d \<and>
        env_rxbuf e (snd (hw_load (env_hw e) a d)) = env_rxbuf e d) \<and>
     (\<forall>v d. \<alpha> (hw_store (env_hw e) (b + GLB_RW_IRQ_ENA) v d) = (\<alpha> d)(b + GLB_RW_IRQ_ENA := v) \<and>
        env_rxbuf e (hw_store (env_hw e) (b + GLB_RW_IRQ_ENA) v d) = env_rxbuf e d) \<and>
     (\<forall>v d. \<alpha> (hw_store (env_hw e) (b + GLB_IQ_ADDR ld) v d) = (\<alpha> d)(b + GLB_IQ_ADDR ld := v)) \<and>
     (\<forall>v d. \<alpha> (hw_store (env_hw e) (b + GLB_RW_IRQ_RAW) v d) =
          (\<alpha> d)(b + GLB_RO_IRQ_STAT := \<alpha> d (b + GLB_RO_IRQ_STAT) AND NOT v) \<and>
        env_rxbuf e (hw_store (env_hw e) (b + GLB_RW_IRQ_RAW) v d) = env_rxbuf e d) \<and>
     (\<forall>d. \<alpha> (env_flush e d) = \<alpha> d \<and> env_rxbuf e (env_flush e d) = env_rxbuf e d))"

text \<open>The registers after a frame has been taken: its bit cleared, interrupts on, buffer handed back.\<close>

definition rearmed :: "netdev \<Rightarrow> u32 \<Rightarrow> (u32 \<Rightarrow> u32) \<Rightarrow> u32 \<Rightarrow> u32" where
  "rearmed ld addr m = m(
     iobase_phys ld + GLB_RO_IRQ_STAT := m (iobase_phys ld + GLB_RO_IRQ_STAT) AND NOT (HIETH_INT_RX_RDY ld),
     iobase_phys ld + GLB_RW_IRQ_ENA := m (iobase_phys ld + GLB_RW_IRQ_ENA) OR 0xc0001,
     iobase_phys ld + GLB_IQ_ADDR ld := addr)"

lemma irq_offsets [simp]:
  "GLB_RO_IRQ_STAT \<noteq> GLB_RW_IRQ_ENA" "GLB_RW_IRQ_ENA \<noteq> GLB_RO_IRQ_STAT"
  "GLB_IQ_ADDR ld \<noteq> GLB_RW_IRQ_ENA" "GLB_IQ_ADDR ld \<noteq> GLB_RO_IRQ_STAT"
  "GLB_RO_IRQ_STAT \<noteq> GLB_IQ_ADDR ld" "GLB_RW_IRQ_ENA \<noteq> GLB_IQ_ADDR ld"
  "GLB_RO_IQFRM_DES ld \<noteq> GLB_RW_IRQ_ENA" "GLB_RO_IQFRM_DES ld \<noteq> GLB_RO_IRQ_STAT"
  by (simp_all add: reg_map)

lemma irq_handler_run:
  assumes i: "irq_device e ld \<alpha>" and c: "cur_dev s = Some ld"
  defines "m \<equiv> \<alpha> (bus (mii s))"
  defines "len \<equiv> field_get BITS_RXPKG_LEN (m (iobase_phys ld + GLB_RO_IQFRM_DES ld))"
  shows "if m (iobase_phys ld + GLB_RO_IRQ_STAT) AND HIETH_INT_RX_RDY ld = 0
    then (\<exists>d. irq_handler e recv (s, x) = Some (set_bus s d, x) \<and> \<alpha> d = m)
    else (case recv (env_rxbuf e (bus (mii s))) len x of
        None \<Rightarrow> irq_handler e recv (s, x) = None
      | Some (_, x') \<Rightarrow> (\<exists>d. irq_handler e recv (s, x) = Some (set_bus s d, x') \<and> \<alpha> d = rearmed ld (rx_buf_phys s) m))"
proof -
  let ?b = "iobase_phys ld" and ?h = "env_hw e"
  have ena: "\<exists>d'. run_state (hieth_irq_enable ?h ld v) d = (\<alpha> d (?b + GLB_RW_IRQ_ENA), d') \<and>
      \<alpha> d' = (\<alpha> d)(?b + GLB_RW_IRQ_ENA := \<alpha> d (?b + GLB_RW_IRQ_ENA) OR v) \<and> env_rxbuf e d' = env_rxbuf e d" for v d
    using i by (simp add: irq_device_def Let_def hieth_irq_enable_def hieth_irq_enable_nolock_def hieth_readl_def
      u_readl_def hieth_writel_def u_writel_def case_prod_beta)
  have st: "\<exists>d'. run_state (hieth_read_irqstatus ?h ld) d = (\<alpha> d (?b + GLB_RO_IRQ_STAT), d') \<and>
      \<alpha> d' = \<alpha> d \<and> env_rxbuf e d' = env_rxbuf e d" for d
    using i by (simp add: irq_device_def Let_def hieth_read_irqstatus_def hieth_read_irqstatus_nolock_def
      hieth_readl_def u_readl_def prod_eq_iff)
  have ln: "\<exists>d'. run_state (hw_get_rxpkg_len ?h ld) d = (field_get BITS_RXPKG_LEN (\<alpha> d (?b + GLB_RO_IQFRM_DES ld)), d') \<and>
      \<alpha> d' = \<alpha> d \<and> env_rxbuf e d' = env_rxbuf e d" for d
    using i by (simp add: irq_device_def Let_def hw_get_rxpkg_len_def hieth_readl_bits_def
      hieth_readl_def u_readl_def case_prod_beta)
  have raw: "\<exists>d'. run_state (hw_set_rxpkg_finish ?h ld) d = ((), d') \<and>
      \<alpha> d' = (\<alpha> d)(?b + GLB_RO_IRQ_STAT := \<alpha> d (?b + GLB_RO_IRQ_STAT) AND NOT (HIETH_INT_RX_RDY ld)) \<and>
      env_rxbuf e d' = env_rxbuf e d" for d
    using i by (simp add: irq_device_def Let_def hw_set_rxpkg_finish_def hieth_writel_def u_writel_def)
  have clr: "\<exists>d'. snd (run_state (hieth_clear_irqstatus ?h ld v) d) = d' \<and>
      \<alpha> d' = (\<alpha> d)(?b + GLB_RO_IRQ_STAT := \<alpha> d (?b + GLB_RO_IRQ_STAT) AND NOT v)" for v d
    using i by (simp add: irq_device_def Let_def hieth_clear_irqstatus_def hieth_read_irqstatus_nolock_def
      hieth_readl_def u_readl_def hieth_writel_def u_writel_def case_prod_beta)
  have rcv: "\<exists>d'. run_state (hw_recvq_setfd ?h ld v) d = ((), d') \<and> \<alpha> d' = (\<alpha> d)(?b + GLB_IQ_ADDR ld := v)" for v d
    using i by (simp add: irq_device_def Let_def hw_recvq_setfd_def hieth_writel_def u_writel_def)
  have fl: "\<alpha> (env_flush e d) = \<alpha> d" "env_rxbuf e (env_flush e d) = env_rxbuf e d" for d
    using i by (simp_all add: irq_device_def Let_def)
  obtain d1 where 1: "run_state (hieth_irq_enable ?h ld 0) (bus (mii s)) = (m (?b + GLB_RW_IRQ_ENA), d1)"
    "\<alpha> d1 = m" "env_rxbuf e d1 = env_rxbuf e (bus (mii s))"
    using ena [of 0 "bus (mii s)"] by (auto simp: m_def)
  obtain d2 where 2: "run_state (hieth_read_irqstatus ?h ld) d1 = (m (?b + GLB_RO_IRQ_STAT), d2)"
    "\<alpha> d2 = m" "env_rxbuf e d2 = env_rxbuf e (bus (mii s))"
    using st [of d1] 1 by auto
  obtain d4 where 4: "run_state (hw_get_rxpkg_len ?h ld) (env_flush e d2) = (len, d4)"
    "\<alpha> d4 = m" "env_rxbuf e d4 = env_rxbuf e (bus (mii s))"
    using ln [of "env_flush e d2"] 2 fl by (auto simp: len_def)
  obtain d5 where 5: "run_state (hw_set_rxpkg_finish ?h ld) d4 = ((), d5)"
    "\<alpha> d5 = m(?b + GLB_RO_IRQ_STAT := m (?b + GLB_RO_IRQ_STAT) AND NOT (HIETH_INT_RX_RDY ld))"
    "env_rxbuf e d5 = env_rxbuf e (bus (mii s))"
    using raw [of d4] 4 by auto
  obtain d6 where 6: "snd (run_state (hieth_clear_irqstatus ?h ld (HIETH_INT_RX_RDY ld)) d5) = d6" "\<alpha> d6 = \<alpha> d5"
    using clr [of "HIETH_INT_RX_RDY ld" d5] 5 by (auto simp: and.assoc)
  obtain d7 where 7: "snd (run_state (hieth_irq_enable ?h ld 0xc0001) d6) = d7"
    "\<alpha> d7 = (\<alpha> d6)(?b + GLB_RW_IRQ_ENA := \<alpha> d6 (?b + GLB_RW_IRQ_ENA) OR 0xc0001)"
    using ena [of "0xc0001" d6] by auto
  obtain d8 where 8: "run_state (hw_recvq_setfd ?h ld (rx_buf_phys s)) d7 = ((), d8)"
    "\<alpha> d8 = (\<alpha> d7)(?b + GLB_IQ_ADDR ld := rx_buf_phys s)"
    using rcv [of "rx_buf_phys s" d7] by auto
  have a8: "\<alpha> d8 = rearmed ld (rx_buf_phys s) m"
    by (simp add: rearmed_def 8(2) 7(2) 6(2) 5(2))
  show ?thesis
    by (auto simp: irq_handler_def Let_def c on_hw_eq 1 2 4 5 6(1) 7(1) 8(1) a8 fl split: option.split)
qed

text \<open>
  C10: the interrupt handler passes each frame on exactly once: when the receive bit is set, the
  content of the receive buffer goes up with the length that the controller reports, the bit is
  cleared, the interrupt mask gains its bits 0, 18 and 19, and the buffer is handed back to the
  controller; when the bit is not set, neither the registers nor the clients change.
\<close>

theorem irq_handler_delivers_and_rearms:
  assumes "irq_device e ld \<alpha>" and "cur_dev s = Some ld" and "m = \<alpha> (bus (mii s))"
    and "len = field_get BITS_RXPKG_LEN (m (iobase_phys ld + GLB_RO_IQFRM_DES ld))"
  shows "if m (iobase_phys ld + GLB_RO_IRQ_STAT) AND HIETH_INT_RX_RDY ld = 0
    then (\<exists>d. irq_handler e recv (s, x) = Some (s\<lparr>mii := mii s\<lparr>bus := d\<rparr>\<rparr>, x) \<and> \<alpha> d = m)
    else (case recv (env_rxbuf e (bus (mii s))) len x of
        None \<Rightarrow> irq_handler e recv (s, x) = None
      | Some (_, x') \<Rightarrow> (\<exists>d. irq_handler e recv (s, x) = Some (s\<lparr>mii := mii s\<lparr>bus := d\<rparr>\<rparr>, x') \<and>
          \<alpha> d = rearmed ld (rx_buf_phys s) m))"
  unfolding assms(3,4) by (rule irq_handler_run [OF assms(1,2)])

text \<open>A controller on plain registers, where a store to the raw register clears status bits.\<close>

definition irq_env :: "netdev \<Rightarrow> bytes \<Rightarrow> (u32 \<Rightarrow> u32) env" where
  "irq_env ld buf = \<lparr>env_hw = \<lparr>hw_load = (\<lambda>a m. (m a, m)),
      hw_store = (\<lambda>a v m. if a = iobase_phys ld + GLB_RW_IRQ_RAW
        then m(iobase_phys ld + GLB_RO_IRQ_STAT := m (iobase_phys ld + GLB_RO_IRQ_STAT) AND NOT v) else m(a := v)),
      hw_udelay = (\<lambda>n m. m)\<rparr>, env_flush = (\<lambda>m. m), env_rxbuf = (\<lambda>_. buf)\<rparr>"

lemma irq_env_device: "irq_device (irq_env ld buf) ld (\<lambda>m. m)"
  by (cases "nd_port ld") (auto simp: irq_device_def irq_env_def Let_def reg_map)

definition demo_regs :: "u32 \<Rightarrow> u32" where
  "demo_regs = (\<lambda>_. 0)(REG_BASE_SF + GLB_RO_IRQ_STAT := 1, REG_BASE_SF + 0x354 := 60)"

theorem irq_handler_delivers_and_rearms_witness:
  "\<exists>d. irq_handler (irq_env (demo_port UP_PORT) (replicate 60 7)) (\<lambda>p len n. Some (0, n + unat len)) (demo_drv demo_regs, 5) =
     Some ((demo_drv demo_regs)\<lparr>mii := mii (demo_drv demo_regs)\<lparr>bus := d\<rparr>\<rparr>, 65) \<and> d (REG_BASE_SF + GLB_RW_IRQ_ENA) = 0xc0001"
proof -
  have c: "cur_dev (demo_drv demo_regs) = Some (demo_port UP_PORT)"
    by (simp add: cur_dev_def demo_drv_def)
  have r: "bus (mii (demo_drv demo_regs)) = demo_regs" by (simp add: demo_drv_def demo_mii_def)
  have n: "demo_regs (iobase_phys (demo_port UP_PORT) + GLB_RO_IRQ_STAT) AND HIETH_INT_RX_RDY (demo_port UP_PORT) \<noteq> 0"
    by (simp add: demo_regs_def demo_port_def HIETH_INT_RX_RDY_def reg_map)
  have l: "field_get BITS_RXPKG_LEN (demo_regs (iobase_phys (demo_port UP_PORT) + GLB_RO_IQFRM_DES (demo_port UP_PORT))) = 60"
    by (simp add: demo_regs_def demo_port_def reg_map BITS_RXPKG_LEN_def field_get_def bits_mask_def bits_shift_def MK_BITS_def)
  have e: "rearmed (demo_port UP_PORT) a demo_regs (REG_BASE_SF + GLB_RW_IRQ_ENA) = 0xc0001" for a
    by (simp add: rearmed_def demo_port_def demo_regs_def reg_map)
  show ?thesis
    using irq_handler_delivers_and_rearms [OF irq_env_device c refl refl, of "replicate 60 7" "\<lambda>p len n. Some (0, n + unat len)" 5] n l e
    by (auto simp: r)
qed

text \<open>
  Starting reception: \<open>eth_init_rx\<close> either finds the receive queue full, returns 1 and changes
  nothing, or returns 0 with the handler installed, the buffer handed to the controller and bits 0,
  18 and 19 of the interrupt mask set. These are the bits of the upper port: on the lower port,
  bits 17 and 20, which enable its group and its receive interrupt, keep the value they had.
\<close>

theorem eth_init_rx_outcome:
  assumes "irq_device e ld \<alpha>" and "cur_dev s = Some ld" and "m = \<alpha> (bus (mii s))"
    and "config_regs (env_hw e) \<alpha> {iobase_phys ld + GLB_RO_QUEUE_STAT ld}"
  shows "if field_get BITS_RECVQ_RDY (m (iobase_phys ld + GLB_RO_QUEUE_STAT ld)) = 0
    then (\<exists>d. eth_init_rx (env_hw e) s = Some (1, s\<lparr>mii := mii s\<lparr>bus := d\<rparr>\<rparr>) \<and> \<alpha> d = m)
    else (\<exists>d. eth_init_rx (env_hw e) s = Some (0, s\<lparr>irq_on := True, mii := mii s\<lparr>bus := d\<rparr>\<rparr>) \<and>
      \<alpha> d = m(iobase_phys ld + GLB_RW_IRQ_ENA := m (iobase_phys ld + GLB_RW_IRQ_ENA) OR 0xc0001,
              iobase_phys ld + GLB_IQ_ADDR ld := rx_buf_phys s) \<and>
      bit (\<alpha> d (iobase_phys ld + GLB_RW_IRQ_ENA)) 17 = bit (m (iobase_phys ld + GLB_RW_IRQ_ENA)) 17 \<and>
      bit (\<alpha> d (iobase_phys ld + GLB_RW_IRQ_ENA)) 20 = bit (m (iobase_phys ld + GLB_RW_IRQ_ENA)) 20)"
proof -
  let ?b = "iobase_phys ld" and ?h = "env_hw e"
  obtain d1 where 1: "run_state (hieth_readl_bits ?h ?b (GLB_RO_QUEUE_STAT ld) BITS_RECVQ_RDY) (bus (mii s)) =
      (field_get BITS_RECVQ_RDY (m (?b + GLB_RO_QUEUE_STAT ld)), d1)" "\<alpha> d1 = m"
    using refines_readl_bits [OF assms(4), of ?b "GLB_RO_QUEUE_STAT ld" BITS_RECVQ_RDY] assms(3)
    by (auto simp: refines_def prod_eq_iff)
  obtain d2 where 2: "snd (run_state (hieth_irq_enable ?h ld 0xc0001) d1) = d2"
    "\<alpha> d2 = m(?b + GLB_RW_IRQ_ENA := m (?b + GLB_RW_IRQ_ENA) OR 0xc0001)"
    using assms(1) 1(2) by (simp add: irq_device_def Let_def hieth_irq_enable_def hieth_irq_enable_nolock_def
      hieth_readl_def u_readl_def hieth_writel_def u_writel_def case_prod_beta)
  obtain d3 where 3: "snd (run_state (hw_recvq_setfd ?h ld (rx_buf_phys s)) d2) = d3"
    "\<alpha> d3 = (\<alpha> d2)(?b + GLB_IQ_ADDR ld := rx_buf_phys s)"
    using assms(1) by (simp add: irq_device_def Let_def hw_recvq_setfd_def hieth_writel_def u_writel_def)
  have "\<not> bit (0xc0001 :: u32) 17" "\<not> bit (0xc0001 :: u32) 20" by simp_all
  then show ?thesis
    by (auto simp: eth_init_rx_def assms(2) on_hw_eq 1 2(1) 3 2(2) Let_def bit_or_iff)
qed

theorem eth_init_rx_outcome_witness:
  "\<exists>d. eth_init_rx (env_hw (irq_env (demo_port UP_PORT) [])) (demo_drv (\<lambda>_. 0)) =
    Some (1, (demo_drv (\<lambda>_. 0))\<lparr>mii := mii (demo_drv (\<lambda>_. 0))\<lparr>bus := d\<rparr>\<rparr>) \<and> d = (\<lambda>_. 0)"
proof -
  have c: "cur_dev (demo_drv (\<lambda>_ :: u32. 0 :: u32)) = Some (demo_port UP_PORT)"
    by (simp add: cur_dev_def demo_drv_def)
  have q: "config_regs (env_hw (irq_env (demo_port UP_PORT) [])) (\<lambda>m. m)
      {iobase_phys (demo_port UP_PORT) + GLB_RO_QUEUE_STAT (demo_port UP_PORT)}"
    by (simp add: config_regs_def irq_env_def demo_port_def reg_map)
  show ?thesis
    using eth_init_rx_outcome [OF irq_env_device c refl q]
    by (simp add: demo_drv_def demo_mii_def field_get_def)
qed

subsection \<open>The link state that is recorded\<close>

text \<open>Functions that only read keep every property that reads keep.\<close>

definition keeps :: "('s \<Rightarrow> bool) \<Rightarrow> ('x \<times> 's) option \<Rightarrow> bool" where
  "keeps P y \<longleftrightarrow> (case y of Some (x, s) \<Rightarrow> P s | None \<Rightarrow> True)"

lemma keeps_simps [simp]: "keeps P None" "keeps P (Some p) = P (snd p)"
  "keeps P (if b then y else z) = (if b then keeps P y else keeps P z)"
  by (simp_all add: keeps_def case_prod_beta)

lemma keeps_bind: "\<lbrakk>keeps P y; \<And>p. P (snd p) \<Longrightarrow> keeps P (f p)\<rbrakk> \<Longrightarrow> keeps P (y \<bind> f)"
  by (cases y) (auto simp: keeps_def)

lemma keeps_value: "(\<And>x. keeps P (f x)) \<Longrightarrow> keeps P ((v :: u16 option) \<bind> f)"
  by (cases v) auto

lemma keeps_reads:
  assumes r: "\<And>s r. P s \<Longrightarrow> r \<in> {PHY_BMCR, PHY_BMSR, PHY_ANLPAR, PHY_1000BTSR, PHY_EXSR} \<Longrightarrow>
      P (snd (miiphy_read nm a r s))"
  shows "P s \<Longrightarrow> keeps P (miiphy_link nm a s)" and "P s \<Longrightarrow> keeps P (miiphy_duplex nm a s)"
    and "P s \<Longrightarrow> keeps P (miiphy_speed nm a s)"
proof -
  note rd = r [of _ PHY_BMCR, simplified] r [of _ PHY_BMSR, simplified] r [of _ PHY_ANLPAR, simplified]
    r [of _ PHY_1000BTSR, simplified] r [of _ PHY_EXSR, simplified]
  have x: "P s \<Longrightarrow> keeps P (miiphy_is_1000base_x nm a s)" for s
    by (simp add: miiphy_is_1000base_x_def case_prod_beta rd) (auto intro!: keeps_value simp: rd)
  have sb: "P s \<Longrightarrow> keeps P (speed_basic nm a s)" and db: "P s \<Longrightarrow> keeps P (duplex_basic nm a s)" for s
    by (auto intro!: keeps_value simp: speed_basic_def duplex_basic_def case_prod_beta rd)
  show "P s \<Longrightarrow> keeps P (miiphy_link nm a s)"
    by (auto intro!: keeps_value simp: miiphy_link_def case_prod_beta rd)
  show "P s \<Longrightarrow> keeps P (miiphy_speed nm a s)"
    by (auto intro!: keeps_value keeps_bind [OF x] sb simp: miiphy_speed_def case_prod_beta rd)
  show "P s \<Longrightarrow> keeps P (miiphy_duplex nm a s)"
    by (auto intro!: keeps_value keeps_bind [OF x] db simp: miiphy_duplex_def case_prod_beta rd)
qed

lemma ready_keeps:
  assumes "phy_ready rd wr n a f I s"
  shows "\<exists>s'. miiphy_link (Some n) a s = Some (link_of f, s') \<and> phy_ready rd wr n a f I s'"
    and "\<exists>s'. miiphy_duplex (Some n) a s = Some (duplex_of f, s') \<and> phy_ready rd wr n a f I s'"
    and "\<exists>s'. miiphy_speed (Some n) a s = Some (speed_of f, s') \<and> phy_ready rd wr n a f I s'"
proof -
  have r: "phy_ready rd wr n a f I (snd (miiphy_read (Some n) a r s))"
    if "phy_ready rd wr n a f I s" "r \<in> {PHY_BMCR, PHY_BMSR, PHY_ANLPAR, PHY_1000BTSR, PHY_EXSR}" for s r
    using ready_read(2) [OF that(1), of r] that(2) by (auto simp: after_read_def)
  note k = keeps_reads [of "phy_ready rd wr n a f I" "Some n" a, OF r]
  show "\<exists>s'. miiphy_link (Some n) a s = Some (link_of f, s') \<and> phy_ready rd wr n a f I s'"
    using k(1) [OF _ _ assms] ready_link [OF assms] by (auto simp: keeps_def outcome_def)
  show "\<exists>s'. miiphy_duplex (Some n) a s = Some (duplex_of f, s') \<and> phy_ready rd wr n a f I s'"
    using k(2) [OF _ _ assms] ready_duplex [OF assms] by (auto simp: keeps_def outcome_def)
  show "\<exists>s'. miiphy_speed (Some n) a s = Some (speed_of f, s') \<and> phy_ready rd wr n a f I s'"
    using k(3) [OF _ _ assms] ready_speed [OF assms] by (auto simp: keeps_def outcome_def)
qed

definition link_bits :: "(u8 \<Rightarrow> u16) \<Rightarrow> u32" where
  "link_bits f = (if link_of f then HIETH_LINKED else 0) OR (if duplex_of f = FULL then HIETH_DUP_FULL else 0) OR
     (if speed_of f = BASET100 then HIETH_SPD_100M else 0)"

lemma link_round_ready:
  assumes "phy_ready rd wr (port_phy c ld) (port_addr c ld) f I (mii s)"
    and "\<And>n d. I d \<Longrightarrow> I (hw_udelay h n d)"
  shows "\<exists>m. link_round h c ld stat s = Some (stat OR link_bits f, s\<lparr>mii := m\<rparr>) \<and>
    phy_ready rd wr (port_phy c ld) (port_addr c ld) f I m"
proof -
  let ?n = "port_phy c ld" and ?a = "port_addr c ld"
  define m0 where "m0 = mii s\<lparr>bus := hw_udelay h 1 (bus (mii s))\<rparr>"
  have u: "on_hw (udelay h 1) s = ((), s\<lparr>mii := m0\<rparr>)"
    by (simp add: on_hw_eq udelay_def m0_def)
  have "phy_ready rd wr ?n ?a f I m0"
    using assms by (simp add: phy_ready_def m0_def)
  then obtain m1 where 1: "miiphy_link (Some ?n) ?a m0 = Some (link_of f, m1)" "phy_ready rd wr ?n ?a f I m1"
    using ready_keeps(1) by blast
  obtain m2 where 2: "miiphy_duplex (Some ?n) ?a m1 = Some (duplex_of f, m2)" "phy_ready rd wr ?n ?a f I m2"
    using ready_keeps(2) [OF 1(2)] by blast
  obtain m3 where 3: "miiphy_speed (Some ?n) ?a m2 = Some (speed_of f, m3)" "phy_ready rd wr ?n ?a f I m3"
    using ready_keeps(3) [OF 2(2)] by blast
  have "link_round h c ld stat s = Some (stat OR link_bits f, s\<lparr>mii := m3\<rparr>)"
    by (simp add: link_round_def u [simplified] on_mii_def 1 2 3 link_bits_def or.assoc)
  with 3(2) show ?thesis by blast
qed

lemma link_loop_ready:
  assumes "\<And>n d. I d \<Longrightarrow> I (hw_udelay h n d)"
  shows "phy_ready rd wr (port_phy c ld) (port_addr c ld) f I (mii s) \<Longrightarrow>
    \<exists>m. link_loop h c ld (Suc t) stat s = Some (stat OR link_bits f, s\<lparr>mii := m\<rparr>)"
proof (induction t arbitrary: stat s)
  case 0
  obtain m where "link_round h c ld stat s = Some (stat OR link_bits f, s\<lparr>mii := m\<rparr>)"
    using link_round_ready [OF 0 assms] by blast
  then have "link_loop h c ld (Suc 0) stat s = Some (stat OR link_bits f, s\<lparr>mii := m\<rparr>)" by simp
  then show ?case by blast
next
  case (Suc t)
  obtain m where 1: "link_round h c ld stat s = Some (stat OR link_bits f, s\<lparr>mii := m\<rparr>)"
    "phy_ready rd wr (port_phy c ld) (port_addr c ld) f I m"
    using link_round_ready [OF Suc.prems assms] by blast
  obtain m' where 2: "link_loop h c ld (Suc t) (stat OR link_bits f) (s\<lparr>mii := m\<rparr>) =
      Some ((stat OR link_bits f) OR link_bits f, s\<lparr>mii := m'\<rparr>)"
    using Suc.IH [of "s\<lparr>mii := m\<rparr>" "stat OR link_bits f"] 1(2) by auto
  have "link_loop h c ld (Suc (Suc t)) stat s = (if (stat OR link_bits f) AND HIETH_LINKED = 0
      then link_loop h c ld (Suc t) (stat OR link_bits f) (s\<lparr>mii := m\<rparr>)
      else Some (stat OR link_bits f, s\<lparr>mii := m\<rparr>))"
    using 1(1) by (subst link_loop.simps) (simp del: link_loop.simps)
  then show ?case
    using 2 by (auto simp: or.assoc simp del: link_loop.simps)
qed

lemma bus_ld_sel: "mdio_iobase mdio_bus_ld = REG_BASE_SF" "mdio_frqdiv mdio_bus_ld = 2"
  by (simp_all add: mdio_bus_ld_def)

lemma bus_write_keeps:
  assumes w: "mdio_works h mdio_bus_ld busy data phy delay"
    and "\<And>a r v d. busy (hw_store h (REG_BASE_SF + MDIO_RWCTRL) (MDIO_MK_RWCTL v 0 1 a 2 r) d) < 99"
    and "busy d < 99"
  shows "busy (snd (run_state (hieth_mdiobus_write h n a r v) d)) < 99"
proof -
  obtain t d1 where 1: "run_state (wait_mdio_ready h mdio_bus_ld) d = (t, d1)" by fastforce
  have "t \<noteq> 0"
    using poll_busy [OF w, of 99 d] 1 assms(3) by (simp add: wait_mdio_ready_def)
  then show ?thesis
    using assms(2) by (simp add: hieth_mdiobus_write_def hieth_mdio_write_def 1 case_prod_beta
      mdio_phywrite_def hieth_writel_def u_writel_def bus_ld_sel)
qed

text \<open>
  \<open>hieth_adjust_link\<close> on a working bus records for its port exactly the link, duplex and speed
  bits that the PHY registers say, after the first round with a link or after 1000 rounds without
  one, and changes no other device.
\<close>

theorem adjust_link_records:
  assumes "drv_ok h c s" and "ld = hieth_devs s p"
    and "mdio_works h mdio_bus_ld busy data phy delay" and "port_addr c ld < 32" and "\<forall>x y. delay x y < 99"
    and "\<And>a r v d. busy (hw_store h (REG_BASE_SF + MDIO_RWCTRL) (MDIO_MK_RWCTL v 0 1 a 2 r) d) < 99"
    and "busy (bus (mii s)) < 99" and "f = (\<lambda>r. phy (ucast (port_addr c ld)) (ucast r))"
  shows "\<exists>s'. hieth_adjust_link h c p s = Some s' \<and>
    hieth_devs s' = (hieth_devs s)(p := ld\<lparr>link_stat := link_bits f\<rparr>)"
proof -
  let ?n = "port_phy c ld" and ?a = "port_addr c ld"
  let ?rd = "hieth_mdiobus_read h" and ?wr = "hieth_mdiobus_write h"
  have at: "attached ?rd ?wr ?n (mii s)" by (rule drv_ok_phy [OF assms(1)])
  have an: "answers ?rd ?n ?a f (\<lambda>d. busy d < 99)"
    unfolding assms(8) by (rule hieth_bus_answers [OF assms(3,4,5)])
  have r0: "phy_ready ?rd ?wr ?n ?a f (\<lambda>d. busy d < 99) (mii s)"
    using at an assms(7) by (simp add: phy_ready_def)
  define m1 where "m1 = after_read ?n ?a PHY_ANAR (mii s)"
  note r1 = ready_read [OF r0, of PHY_ANAR, simplified, folded m1_def]
  define m2 where "m2 = snd (miiphy_write (Some ?n) ?a PHY_ANAR (f PHY_ANAR OR 0x1E0) m1)"
  have at1: "attached ?rd ?wr ?n m1" and b1: "busy (bus m1) < 99"
    using r1(2) by (simp_all add: phy_ready_def)
  have r2: "phy_ready ?rd ?wr ?n ?a f (\<lambda>d. busy d < 99) m2"
    using at1 an bus_write_keeps [OF assms(3,6) b1]
    by (simp add: phy_ready_def m2_def attached_write [OF at1])
  have ud: "busy (hw_udelay h n d) < 99" if "busy d < 99" for n d
    using assms(3) that by (simp add: mdio_works_def)
  obtain m3 where 3: "link_loop h c ld 1000 0 (s\<lparr>mii := m2\<rparr>) = Some (link_bits f, s\<lparr>mii := m3\<rparr>)"
    using link_loop_ready [of "\<lambda>d. busy d < 99" h ?rd ?wr c ld f "s\<lparr>mii := m2\<rparr>" 999 0, OF ud] r2
    by (auto simp del: link_loop.simps)
  have "miiphy_write (Some ?n) ?a PHY_ANAR (f PHY_ANAR OR 0x1E0) m1 = (fst (miiphy_write (Some ?n) ?a PHY_ANAR (f PHY_ANAR OR 0x1E0) m1), m2)"
    by (simp add: m2_def)
  then obtain q where q: "miiphy_write (Some ?n) ?a PHY_ANAR (f PHY_ANAR OR 0x1E0) m1 = (q, m2)" by blast
  have e: "hieth_adjust_link h c p s = (if link_bits f \<noteq> link_stat ld
      then Some ((snd (on_hw (hieth_set_linkstat h ld (link_bits f)) (s\<lparr>mii := m3\<rparr>)))
              \<lparr>hieth_devs := (hieth_devs s)(p := ld\<lparr>link_stat := link_bits f\<rparr>)\<rparr>)
      else Some (s\<lparr>mii := m3\<rparr>))"
    by (simp add: hieth_adjust_link_def Let_def assms(2) [symmetric] on_mii_def r1(1) stored_def q 3 on_hw_eq
        del: link_loop.simps)
  show ?thesis
    unfolding e using assms(2) by (cases "link_bits f = link_stat ld") auto
qed

definition demo_open :: "(nat \<times> u16) drv" where
  "demo_open = (demo_drv (0, 0))\<lparr>mii := (demo_mii (0, 0))\<lparr>mii_devs :=
     map (\<lambda>n. \<lparr>md_name = n, md_read = hieth_mdiobus_read sim_hw, md_write = hieth_mdiobus_write sim_hw\<rparr>)
       [''0:1'', ''0:3'']\<rparr>\<rparr>"

theorem adjust_link_records_witness:
  "\<exists>s'. hieth_adjust_link sim_hw demo_phys UP_PORT demo_open = Some s' \<and>
    link_stat (hieth_devs s' UP_PORT) = 7"
proof -
  have ok: "drv_ok sim_hw demo_phys demo_open"
    by (simp add: drv_ok_def attached_def demo_open_def demo_phys_def)
  have d: "hieth_devs demo_open = demo_port" by (simp add: demo_open_def demo_drv_def)
  have b: "fst (bus (mii demo_open)) < 99" by (simp add: demo_open_def demo_mii_def)
  have a: "port_addr demo_phys (demo_port UP_PORT) = 1"
    by (simp add: port_addr_def UD_def demo_port_def demo_phys_def)
  have w: "fst (hw_store sim_hw (REG_BASE_SF + MDIO_RWCTRL) (MDIO_MK_RWCTL v 0 1 a 2 r) x) < 99" for a r v x
    by (simp add: sim_hw_def case_prod_beta)
  have l: "link_bits (\<lambda>r. sim_regs (ucast r)) = 7"
    by (simp add: link_bits_def link_of_def speed_of_def duplex_of_def Let_def sim_regs_def phy_regs phy_bits
      HIETH_LINKED_def HIETH_DUP_FULL_def HIETH_SPD_100M_def)
  show ?thesis
    using adjust_link_records [OF ok refl sim_works _ _ w b refl, of UP_PORT] l
    by (auto simp: d a)
qed

end
