(* ===== verification/Linux_Glue.thy ===== *)
theory Linux_Glue imports Hieth_Drv begin

section \<open>The network devices of the server (\<open>linux_glue.c\<close>, device table of \<open>hisf.c\<close>)\<close>

text \<open>
  \<open>linux_glue.c\<close> gives the server its view of the devices: a table with the one device \<open>hisf\<close>, whose
  operations \<open>hisf_open\<close>, \<open>hisf_close\<close> and \<open>hisf_send\<close> call the driver, and accessors on a
  \<open>struct net_device\<close>. The three function pointers of the structure are the three functions, as the
  static initialiser of \<open>hisf.c\<close> sets them. \<open>netdev_add\<close> of the server appends to its list of
  devices. Messages are left out.
\<close>

record net_device =
  nd_name :: string
  nd_dev_name :: string
  nd_dev_addr :: bytes
  nd_mtu :: int

definition hisf :: net_device where
  "hisf = \<lparr>nd_name = ''lo'', nd_dev_name = ''hisf'',
     nd_dev_addr = [0x14, 0xE6, 0xE4, 0x3C, 0x33, 0xA0] @ replicate 26 0, nd_mtu = 1024\<rparr>"

record 'd glue =
  drv :: "'d drv"
  dev0 :: net_device
  added :: "net_device list"
  linux_glue_ip_addr :: u32
  ankh_debug_linuxglue :: int

text \<open>What the machine answers while the device is opened: allocations, buffers, their first bytes.\<close>

record open_args =
  oa_allocs :: "bool \<times> bool"
  oa_bufs :: "u32 \<times> u32"
  oa_mem :: bytes
  oa_phys :: phy_config

definition hisf_open :: "'d hw \<Rightarrow> open_args \<Rightarrow> net_device \<Rightarrow> 'd drv \<Rightarrow> (int \<times> 'd drv) option" where
  "hisf_open h oa dev s = do {
     (_, s') \<leftarrow> eth_init h (oa_allocs oa) (oa_bufs oa) (oa_mem oa) (oa_phys oa) (take 6 (nd_dev_addr dev)) s;
     Some (0, s')
   }"

definition hisf_close :: "'d drv \<Rightarrow> int \<times> 'd drv" where
  "hisf_close s = (0, s)"

definition hisf_send :: "'d env \<Rightarrow> int \<Rightarrow> bytes \<Rightarrow> u32 \<Rightarrow> 'd drv \<Rightarrow> (u32 \<times> 'd drv) option" where
  "hisf_send e yield addr len s = eth_send e yield addr (sint len) s"

definition ankh_set_debug :: "'d glue \<Rightarrow> 'd glue option" where
  "ankh_set_debug g = do { n \<leftarrow> c_int (ankh_debug_linuxglue g + 1); Some (g\<lparr>ankh_debug_linuxglue := n\<rparr>) }"

definition ankh_unset_debug :: "'d glue \<Rightarrow> 'd glue option" where
  "ankh_unset_debug g = do { n \<leftarrow> c_int (ankh_debug_linuxglue g - 1); Some (g\<lparr>ankh_debug_linuxglue := n\<rparr>) }"

definition eth_shared_ip_addr :: "u32 \<Rightarrow> 'd glue \<Rightarrow> 'd glue" where
  "eth_shared_ip_addr a g = g\<lparr>linux_glue_ip_addr := a\<rparr>"

definition netdev_set_promisc :: "net_device \<Rightarrow> int" where "netdev_set_promisc dev = 0"
definition netdev_unset_promisc :: "net_device \<Rightarrow> int" where "netdev_unset_promisc dev = 0"
definition netdev_get_promisc :: "net_device \<Rightarrow> int" where "netdev_get_promisc dev = 0"
definition netdev_irq :: "net_device \<Rightarrow> int" where "netdev_irq dev = 0"
definition netdev_name :: "net_device \<Rightarrow> string" where "netdev_name dev = nd_name dev"
definition netdev_dev_addr :: "net_device \<Rightarrow> bytes" where "netdev_dev_addr dev = nd_dev_addr dev"
definition netdev_mtu :: "net_device \<Rightarrow> int" where "netdev_mtu dev = nd_mtu dev"

text \<open>Neither the result of \<open>net_open\<close> nor the promiscuous mode has any effect.\<close>

definition open_network_devices :: "'d hw \<Rightarrow> open_args \<Rightarrow> bytes \<Rightarrow> 'd glue \<Rightarrow> (int \<times> 'd glue) option" where
  "open_network_devices h oa mac g = do {
     m \<leftarrow> rdn mac 0 6;
     a \<leftarrow> wrn (nd_dev_addr (dev0 g)) 0 m;
     let dev = (dev0 g)\<lparr>nd_dev_addr := a\<rparr>;
     (_, s) \<leftarrow> hisf_open h oa dev (drv g);
     Some (1, g\<lparr>dev0 := dev, drv := s, added := added g @ [dev]\<rparr>)
   }"

definition netdev_xmit :: "'d env \<Rightarrow> int \<Rightarrow> bytes \<Rightarrow> u32 \<Rightarrow> 'd glue \<Rightarrow> (u32 \<times> 'd glue) option" where
  "netdev_xmit e yield addr len g = do {
     (err, s) \<leftarrow> hisf_send e yield addr len (drv g);
     Some (err, g\<lparr>drv := s\<rparr>)
   }"

text \<open>
  \<open>open_network_devices\<close> reports one opened device whatever happens: it sets the address of the
  device, and when no PHY has a link it still returns 1; with no device current before, every later
  attempt to send then dereferences a null pointer.
\<close>

theorem open_reports_success:
  assumes "U_PHY_NAME (oa_phys oa) \<noteq> D_PHY_NAME (oa_phys oa)" and "oa_allocs oa = (True, True)"
    and "6 \<le> length mac" and "length (nd_dev_addr (dev0 g)) = 32"
  shows "\<exists>g'. open_network_devices h oa mac g = Some (1, g') \<and>
    take 6 (nd_dev_addr (dev0 g')) = take 6 mac \<and> added g' = added g @ [dev0 g'] \<and>
    (hieth_curr (drv g') = None \<longrightarrow> yield \<noteq> - 1 \<longrightarrow> netdev_xmit e yield p len g' = None) \<and>
    (hieth_curr (drv g') = hieth_curr (drv g) \<or>
     (\<exists>q. hieth_curr (drv g') = Some q \<and> link_stat (hieth_devs (drv g') q) AND HIETH_LINKED \<noteq> 0))"
proof -
  define a where "a = take 6 mac @ drop 6 (nd_dev_addr (dev0 g))"
  have a: "rdn mac 0 6 = Some (take 6 mac)" "wrn (nd_dev_addr (dev0 g)) 0 (take 6 mac) = Some a"
    using assms(3,4) by (simp_all add: rdn_def wrn_def a_def min_absorb2)
  obtain r s' where i: "eth_init h (True, True) (oa_bufs oa) (oa_mem oa) (oa_phys oa) (take 6 a) (drv g) = Some (r, s')"
    "r = 0 \<and> (\<exists>q. hieth_curr s' = Some q \<and> link_stat (hieth_devs s' q) AND HIETH_LINKED \<noteq> 0) \<or>
     r = - 1 \<and> hieth_curr s' = hieth_curr (drv g)"
    using eth_init_run [OF assms(1), of h "oa_bufs oa" "oa_mem oa" "take 6 a" "drv g"] by auto
  let ?g = "g\<lparr>dev0 := (dev0 g)\<lparr>nd_dev_addr := a\<rparr>, drv := s', added := added g @ [(dev0 g)\<lparr>nd_dev_addr := a\<rparr>]\<rparr>"
  have "open_network_devices h oa mac g = Some (1, ?g)"
    by (simp add: open_network_devices_def a hisf_open_def assms(2) i(1) Let_def)
  moreover have "netdev_xmit e yield p len ?g = None" if "hieth_curr s' = None" "yield \<noteq> - 1"
    using that by (auto simp: netdev_xmit_def hisf_send_def eth_send_def Let_def cur_dev_def bind_eq_None_conv on_hw_eq)
  moreover have "take 6 a = take 6 mac" using assms(3) by (simp add: a_def min_absorb2)
  ultimately show ?thesis using i(2) by auto
qed

definition demo_glue :: "(nat \<times> u16) glue" where
  "demo_glue = \<lparr>drv = (demo_drv (0, 0))\<lparr>hieth_curr := None\<rparr>, dev0 = hisf, added = [], linux_glue_ip_addr = 0,
     ankh_debug_linuxglue = 0\<rparr>"

definition demo_open_args :: open_args where
  "demo_open_args = \<lparr>oa_allocs = (True, True), oa_bufs = (0x80000000, 0x80010000), oa_mem = replicate 2048 0,
     oa_phys = demo_phys\<rparr>"

theorem open_reports_success_witness:
  "\<exists>g'. open_network_devices sim_hw demo_open_args [2, 0, 0, 0, 0, 1] demo_glue = Some (1, g') \<and>
     take 6 (nd_dev_addr (dev0 g')) = [2, 0, 0, 0, 0, 1]"
proof -
  have "U_PHY_NAME (oa_phys demo_open_args) \<noteq> D_PHY_NAME (oa_phys demo_open_args)"
    "oa_allocs demo_open_args = (True, True)" "6 \<le> length [2, 0, 0, 0, 0, 1 :: u8]"
    "length (nd_dev_addr (dev0 demo_glue)) = 32"
    by (simp_all add: demo_open_args_def demo_phys_def demo_glue_def hisf_def)
  from open_reports_success [OF this] show ?thesis by fastforce
qed

end
