(* ===== verification/Session_Setup.thy ===== *)
theory Session_Setup imports Session Linux_Glue begin

section \<open>Devices and the life of a session (\<open>git/ankh/server/src\<close>)\<close>

text \<open>
  The device manager (\<open>device\<close>, \<open>device.cc\<close>), the creation of a session from its configuration
  string (\<open>Session_factory::create\<close> and the constructor in \<open>session\<close>), and the two dispatchers of
  \<open>main.cc\<close>. The tokenizer, \<open>starts_with\<close> and \<open>split\<close> belong to Boost, the areas and rings in shared
  memory to the L4 libraries: they are fields of records of functions. A result \<open>None\<close> means that an
  assertion fails, an exception ends the server, or the code is undefined. Messages are left out.
\<close>

subsection \<open>Devices\<close>

record device =
  netdev_ptr :: net_device
  phys_mac_assigned :: bool

definition Device :: "net_device \<Rightarrow> device" where
  "Device nd = \<lparr>netdev_ptr = nd, phys_mac_assigned = False\<rparr>"

definition get_phys_mac :: "device \<Rightarrow> bool \<times> device" where
  "get_phys_mac d = (if \<not> phys_mac_assigned d then (True, d\<lparr>phys_mac_assigned := True\<rparr>) else (False, d))"

definition put_phys_mac :: "device \<Rightarrow> device" where
  "put_phys_mac d = d\<lparr>phys_mac_assigned := False\<rparr>"

definition dev_name :: "device \<Rightarrow> string" where "dev_name d = netdev_name (netdev_ptr d)"
definition hw_addr :: "device \<Rightarrow> bytes" where "hw_addr d = netdev_dev_addr (netdev_ptr d)"
definition dev_mtu :: "device \<Rightarrow> int" where "dev_mtu d = netdev_mtu (netdev_ptr d)"
definition promiscuous :: "device \<Rightarrow> bool" where "promiscuous d \<longleftrightarrow> netdev_get_promisc (netdev_ptr d) \<noteq> 0"

definition add_device :: "net_device \<Rightarrow> device list \<Rightarrow> device list" where
  "add_device nd ds = ds @ [Device nd]"

text \<open>The first device of that name, as its position.\<close>

fun find_device_by_name :: "string \<Rightarrow> device list \<Rightarrow> nat option" where
  "find_device_by_name n [] = None"
| "find_device_by_name n (d # ds) =
     (if dev_name d = n then Some 0 else map_option Suc (find_device_by_name n ds))"

subsection \<open>State of the server\<close>

text \<open>
  Beyond the fields of Session's record a session has its settings, the device it uses and the number of
  its transmit threads.
\<close>

record 'r conn =
  c_session :: "'r session"
  c_phys :: bool
  c_promisc :: bool
  c_dev :: nat
  c_name :: string
  c_shmname :: string
  c_ringsize :: u32
  c_threads :: nat

record ('w, 'r, 'd) server =
  conns :: "'r conn list"
  devices :: "device list"
  mac_count :: u32
  glue_of :: "'d glue"
  shm :: 'w

record ('w, 'r) shm_env =
  shmc_create :: "string \<Rightarrow> u32 \<Rightarrow> 'w \<Rightarrow> int \<times> 'w"
  shmc_attach :: "string \<Rightarrow> 'w \<Rightarrow> int"
  info_chunk :: "string \<Rightarrow> 'w \<Rightarrow> bool"
  rx_ring_of :: "string \<Rightarrow> 'w \<Rightarrow> 'r option"
  thread_starts :: bool
  pagesize :: u32

subsection \<open>The configuration string\<close>

record boost =
  tokens :: "string \<Rightarrow> string list option"
  starts_with :: "string \<Rightarrow> string \<Rightarrow> bool"
  split_eq :: "string \<Rightarrow> string list"

record settings =
  cf_phys :: bool
  cf_promisc :: bool
  cf_debug :: bool
  cf_bcast :: bool
  cf_dev :: "string option"
  cf_shm :: "string option"
  cf_bufsize :: u32

definition default_settings :: settings where
  "default_settings = \<lparr>cf_phys = False, cf_promisc = False, cf_debug = True, cf_bcast = True,
     cf_dev = None, cf_shm = None, cf_bufsize = 2048\<rparr>"

text \<open>\<open>v[1]\<close> after the split at the equality signs.\<close>

definition second :: "string list \<Rightarrow> string option" where
  "second v = (case v of _ # x # _ \<Rightarrow> Some x | _ \<Rightarrow> None)"

definition apply_token :: "boost \<Rightarrow> string \<Rightarrow> settings \<Rightarrow> settings option" where
  "apply_token b t c =
     (if t = ''debug'' then Some (c\<lparr>cf_debug := True\<rparr>)
      else if t = ''promisc'' then Some (c\<lparr>cf_promisc := True\<rparr>)
      else if t = ''phys_mac'' then Some (c\<lparr>cf_phys := True\<rparr>)
      else if t = ''nobroadcast'' then Some (c\<lparr>cf_bcast := False\<rparr>)
      else if starts_with b t ''device'' then do { x \<leftarrow> second (split_eq b t); Some (c\<lparr>cf_dev := Some x\<rparr>) }
      else if starts_with b t ''shm'' then do { x \<leftarrow> second (split_eq b t); Some (c\<lparr>cf_shm := Some x\<rparr>) }
      else if starts_with b t ''bufsize'' then do {
        x \<leftarrow> second (split_eq b t);
        n \<leftarrow> atoi x;
        Some (c\<lparr>cf_bufsize := word_of_int n\<rparr>)
      }
      else Some c)"

fun apply_tokens :: "boost \<Rightarrow> string list \<Rightarrow> settings \<Rightarrow> settings option" where
  "apply_tokens b [] c = Some c"
| "apply_tokens b (t # ts) c = do { c' \<leftarrow> apply_token b t c; apply_tokens b ts c' }"

subsection \<open>Creating a session\<close>

definition sizeof_descriptor :: u32 where "sizeof_descriptor = 40"
definition name_len :: nat where "name_len = 32"

text \<open>
  The constructor. The two names are copied with \<open>strncpy\<close> into 32 bytes; \<open>_shmname\<close> is used as a
  string afterwards, which is undefined when the copy has no final zero, \<open>_name\<close> is not. The object
  gets the fresh address \<open>a\<close>. That the area could not be created is printed only.
\<close>

definition ServerSession ::
    "('w, 'r) shm_env \<Rightarrow> nat \<Rightarrow> settings \<Rightarrow> string \<Rightarrow> string \<Rightarrow> ('w, 'r, 'd) server \<Rightarrow>
     ('r conn \<times> ('w, 'r, 'd) server) option" where
  "ServerSession e a c name shmname s = do {
     d \<leftarrow> find_device_by_name name (devices s);
     sn \<leftarrow> (if length shmname < name_len then Some shmname else None);
     let (_, w) = shmc_create e sn (cf_bufsize c * 2 + sizeof_descriptor + pagesize e) (shm s);
     let dev = devices s ! d;
     (mac, n, devs) \<leftarrow>
       (if \<not> cf_phys c then
          do { (m, n) \<leftarrow> generate_mac (hw_addr dev) (mac_count s); Some (m, n, devices s) }
        else if \<not> phys_mac_assigned dev then
          do { m \<leftarrow> rdn (hw_addr dev) 0 6; Some (m, mac_count s, (devices s)[d := snd (get_phys_mac dev)]) }
        else do { (m, n) \<leftarrow> generate_mac (hw_addr dev) (mac_count s); Some (m, n, devices s) });
     Some (\<lparr>c_session = \<lparr>s_addr = a, s_active = False, s_debug = cf_debug c, s_want_bcast = cf_bcast c,
              s_dev = dev_name dev, s_mac = mac, head_chunk = None, rx_ring = None\<rparr>,
            c_phys = cf_phys c, c_promisc = cf_promisc c, c_dev = d, c_name = take name_len name,
            c_shmname = sn, c_ringsize = cf_bufsize c, c_threads = 0\<rparr>,
           s\<lparr>devices := devs, mac_count := n, shm := w\<rparr>)
   }"

definition create :: "boost \<Rightarrow> ('w, 'r) shm_env \<Rightarrow> nat \<Rightarrow> string \<Rightarrow> ('w, 'r, 'd) server \<Rightarrow>
    ('w, 'r, 'd) server option" where
  "create b e a config s = do {
     ts \<leftarrow> tokens b config;
     c \<leftarrow> apply_tokens b ts default_settings;
     g \<leftarrow> (if cf_debug c then ankh_set_debug (glue_of s) else Some (glue_of s));
     let devname = (case cf_dev c of None \<Rightarrow> ''eth0'' | Some n \<Rightarrow> n);
     let shmname = (case cf_shm c of None \<Rightarrow> ''shm_area'' | Some n \<Rightarrow> n);
     (ret, s') \<leftarrow> ServerSession e a c devname shmname (s\<lparr>glue_of := g\<rparr>);
     Some (s'\<lparr>conns := conns s' @ [ret]\<rparr>)
   }"

subsection \<open>Requests to a session\<close>

datatype l4_error = EBADPROTO | ENOSYS | ENOMEM | EINVAL
datatype opcode = Activate | Deactivate | SharedIp | Other_opcode

type_synonym reply = "l4_error + int"

definition init_shm_info :: "device \<Rightarrow> 'r conn \<Rightarrow> 'r conn" where
  "init_shm_info dev c = c\<lparr>c_session := (c_session c)\<lparr>head_chunk := Some
     \<lparr>i_mac = s_mac (c_session c), i_mtu = word_of_int (dev_mtu dev), num_rx = 0, rx_dropped = 0, rx_bytes = 0,
      num_tx = 0, tx_dropped = 0, tx_bytes = 0, i_ip_addr = 0\<rparr>\<rparr>\<rparr>"

definition shm_create :: "('w, 'r) shm_env \<Rightarrow> ('w, 'r, 'd) server \<Rightarrow> 'r conn \<Rightarrow> (reply \<times> 'r conn) option" where
  "shm_create e s c =
     (if shmc_attach e (c_shmname c) (shm s) \<noteq> 0 then Some (Inl ENOMEM, c)
      else if \<not> info_chunk e (c_shmname c) (shm s) then None
      else do {
        let c1 = init_shm_info (devices s ! c_dev c) c;
        r \<leftarrow> rx_ring_of e (c_shmname c) (shm s);
        (if \<not> thread_starts e then None
         else Some (Inr 0, c1\<lparr>c_session := (c_session c1)\<lparr>rx_ring := Some r\<rparr>,
                c_threads := c_threads c1 + 1\<rparr>))
      })"

definition set_active :: "bool \<Rightarrow> 'r conn \<Rightarrow> 'r conn" where
  "set_active v c = c\<lparr>c_session := (c_session c)\<lparr>s_active := v\<rparr>\<rparr>"

definition shared_ip_addr :: "'r conn \<Rightarrow> u32 option" where
  "shared_ip_addr c = map_option i_ip_addr (head_chunk (c_session c))"

text \<open>\<open>ServerSession::dispatch\<close> of the session at position \<open>i\<close>; \<open>ret\<close> starts as -1.\<close>

definition session_dispatch :: "('w, 'r) shm_env \<Rightarrow> bool \<Rightarrow> opcode \<Rightarrow> nat \<Rightarrow> ('w, 'r, 'd) server \<Rightarrow>
    (reply \<times> ('w, 'r, 'd) server) option" where
  "session_dispatch e is_ankh op i s =
     (if \<not> is_ankh then Some (Inl EBADPROTO, s)
      else (case op of
          Activate \<Rightarrow> do {
            (ret, c) \<leftarrow> shm_create e s (conns s ! i);
            Some (ret, s\<lparr>conns := (conns s)[i := set_active True c]\<rparr>)
          }
        | Deactivate \<Rightarrow> Some (Inr (- 1), s\<lparr>conns := (conns s)[i := set_active False (conns s ! i)]\<rparr>)
        | SharedIp \<Rightarrow> do {
            a \<leftarrow> shared_ip_addr (conns s ! i);
            Some (Inr (- 1), s\<lparr>glue_of := eth_shared_ip_addr a (glue_of s)\<rparr>)
          }
        | Other_opcode \<Rightarrow> Some (Inl ENOSYS, s)))"

text \<open>
  \<open>Ankh_server::dispatch\<close>. A meta request is answered by the L4 library. \<open>opt\<close> is the parameter of
  a factory request when it is a string, \<open>optlen\<close> its length as the message gives it; the string is
  copied into 250 bytes that were zero, and the byte behind its length is set to zero.
\<close>

datatype label = Meta | Factory | Other_label

definition server_dispatch :: "boost \<Rightarrow> ('w, 'r) shm_env \<Rightarrow> reply \<Rightarrow> label \<Rightarrow> u32 \<Rightarrow> string option \<Rightarrow> nat \<Rightarrow> nat \<Rightarrow>
    ('w, 'r, 'd) server \<Rightarrow> (reply \<times> ('w, 'r, 'd) server) option" where
  "server_dispatch b e meta l op opt optlen a s = (case l of
       Meta \<Rightarrow> Some (meta, s)
     | Factory \<Rightarrow>
         (if op \<noteq> 0 then Some (Inl EINVAL, s)
          else (case opt of
              None \<Rightarrow> Some (Inl EINVAL, s)
            | Some v \<Rightarrow>
                (if 250 \<le> optlen then None
                 else do { s' \<leftarrow> create b e a (take optlen v) s; Some (Inr 0, s') })))
     | Other_label \<Rightarrow> Some (Inl ENOSYS, s))"

subsection \<open>Runs of the server\<close>

text \<open>
  What can happen while the server runs, for any Boost and shared-memory library: a session is
  created at a fresh address, a request to a session is answered, a client writes an address into its
  information chunk, a frame from a device or from a client is delivered.
\<close>

definition with_sessions :: "'r session list \<Rightarrow> 'r conn list \<Rightarrow> 'r conn list" where
  "with_sessions ss cs = map2 (\<lambda>x c. c\<lparr>c_session := x\<rparr>) ss cs"

definition as_factory :: "'r conn list \<Rightarrow> 'r factory" where
  "as_factory cs = \<lparr>sessions = map c_session cs, console = ''''\<rparr>"

definition write_ip :: "u32 \<Rightarrow> 'r conn \<Rightarrow> 'r conn" where
  "write_ip x c = c\<lparr>c_session := (c_session c)\<lparr>head_chunk :=
     map_option (\<lambda>f. f\<lparr>i_ip_addr := x\<rparr>) (head_chunk (c_session c))\<rparr>\<rparr>"

inductive server_step :: "boost \<Rightarrow> ('w, 'r) shm_env \<Rightarrow> ('w, 'r, 'd) server \<Rightarrow> ('w, 'r, 'd) server \<Rightarrow> bool"
  for b e where
  sv_create: "a \<notin> s_addr ` c_session ` set (conns s) \<Longrightarrow> create b e a config s = Some s' \<Longrightarrow> server_step b e s s'"
| sv_request: "i < length (conns s) \<Longrightarrow> session_dispatch e proto op i s = Some (r, s') \<Longrightarrow> server_step b e s s'"
| sv_client: "i < length (conns s) \<Longrightarrow>
    server_step b e s (s\<lparr>conns := (conns s)[i := write_ip x (conns s ! i)]\<rparr>)"
| sv_receive: "packet_deliver ci cm pc dev p len (as_factory (conns s)) = Some (n, f) \<Longrightarrow>
    server_step b e s (s\<lparr>conns := with_sessions (sessions f) (conns s)\<rparr>)"
| sv_transmit: "xmit_round ci cm pc transmit dev a p len (as_factory (conns s), glue_of s) = Some (x, f, g) \<Longrightarrow>
    server_step b e s (s\<lparr>conns := with_sessions (sessions f) (conns s), glue_of := g\<rparr>)"

definition fresh_server :: "('w, 'r, 'd) server \<Rightarrow> bool" where
  "fresh_server s \<longleftrightarrow> conns s = [] \<and> mac_count s = 0 \<and> (\<forall>d\<in>set (devices s). \<not> phys_mac_assigned d)"

text \<open>The devices have whole addresses, and none from the range of the generated ones.\<close>

definition good_devices :: "device list \<Rightarrow> bool" where
  "good_devices ds \<longleftrightarrow> (\<forall>d\<in>set ds. 6 \<le> length (hw_addr d) \<and> take 2 (hw_addr d) \<noteq> [0x04, 0xEA])"

text \<open>The address that \<open>generate_mac\<close> makes for a counter value.\<close>

definition gen_mac :: "bytes \<Rightarrow> u32 \<Rightarrow> bytes" where
  "gen_mac hw n = [0x04, 0xEA] @ le32_bytes (adler32 (take 6 hw @ le32_bytes n))"

lemma generate_mac_eq: "generate_mac hw n = (if 6 \<le> length hw then Some (gen_mac hw n, n + 1) else None)"
  by (simp add: generate_mac_def rdn_def gen_mac_def Let_def)

lemma take2_gen_mac: "take 2 (gen_mac hw n) = [0x04, 0xEA]"
  by (simp add: gen_mac_def)

lemma gen_mac_inj:
  "6 \<le> length hw \<Longrightarrow> unat c < 65536 \<Longrightarrow> unat d < 65536 \<Longrightarrow> gen_mac hw c = gen_mac hw d \<longleftrightarrow> c = d"
  using generate_mac_distinct [of hw c d] by (auto simp: generate_mac_eq)

text \<open>Where the address of a session comes from.\<close>

definition mac_origin :: "('w, 'r, 'd) server \<Rightarrow> 'r conn \<Rightarrow> bool" where
  "mac_origin s c \<longleftrightarrow> (let d = devices s ! c_dev c; m = s_mac (c_session c) in
     (\<exists>k < unat (mac_count s). m = gen_mac (hw_addr d) (word_of_nat k)) \<or>
     phys_mac_assigned d \<and> m = take 6 (hw_addr d))"

definition conn_ok :: "('w, 'r, 'd) server \<Rightarrow> 'r conn \<Rightarrow> bool" where
  "conn_ok s c \<longleftrightarrow> find_device_by_name (s_dev (c_session c)) (devices s) = Some (c_dev c) \<and> mac_origin s c"

definition conn_key :: "'r conn \<Rightarrow> string \<times> bytes" where
  "conn_key c = (s_dev (c_session c), s_mac (c_session c))"

definition server_inv :: "('w, 'r, 'd) server \<Rightarrow> bool" where
  "server_inv s \<longleftrightarrow> good_devices (devices s) \<and> unat (mac_count s) \<le> length (conns s) \<and>
     distinct (map (s_addr \<circ> c_session) (conns s)) \<and> distinct (map conn_key (conns s)) \<and>
     (\<forall>c\<in>set (conns s). conn_ok s c)"

text \<open>Everything but the creation keeps what the invariant speaks of.\<close>

definition conn_id :: "'r conn \<Rightarrow> nat \<times> string \<times> bytes \<times> nat" where
  "conn_id c = (s_addr (c_session c), s_dev (c_session c), s_mac (c_session c), c_dev c)"

lemma server_inv_cong:
  fixes s s' :: "('w, 'r, 'd) server"
  assumes "devices s' = devices s" "mac_count s' = mac_count s" "map conn_id (conns s') = map conn_id (conns s)"
  shows "server_inv s' \<longleftrightarrow> server_inv s"
proof -
  have l: "length (conns s') = length (conns s)" using assms(3) by (rule map_eq_imp_length_eq)
  have m: "map (g \<circ> conn_id) (conns s') = map (g \<circ> conn_id) (conns s)" for g :: "_ \<Rightarrow> 'z"
    using assms(3) by (metis map_map)
  have a: "s_addr \<circ> c_session = fst \<circ> conn_id" "conn_key = (\<lambda>(a, d, m, i). (d, m)) \<circ> conn_id"
    by (auto simp: conn_id_def conn_key_def)
  let ?P = "\<lambda>(a, n, m, i). find_device_by_name n (devices s) = Some i \<and>
     ((\<exists>k < unat (mac_count s). m = gen_mac (hw_addr (devices s ! i)) (word_of_nat k)) \<or>
      phys_mac_assigned (devices s ! i) \<and> m = take 6 (hw_addr (devices s ! i)))"
  have o: "conn_ok s c \<longleftrightarrow> ?P (conn_id c)" "conn_ok s' c' \<longleftrightarrow> ?P (conn_id c')" for c c'
    using assms(1,2) by (simp_all add: conn_ok_def mac_origin_def conn_id_def Let_def)
  have "conn_id ` set (conns s') = conn_id ` set (conns s)" using assms(3) by (metis set_map)
  then have "(\<forall>c\<in>set (conns s'). ?P (conn_id c)) \<longleftrightarrow> (\<forall>c\<in>set (conns s). ?P (conn_id c))"
    by (metis (no_types, lifting) imageE image_eqI)
  then show ?thesis
    unfolding server_inv_def o a m [of fst] m [of "\<lambda>(a, d, m, i). (d, m)"] l using assms(1,2) by simp
qed

lemma map_update_same: "i < length xs \<Longrightarrow> f y = f (xs ! i) \<Longrightarrow> map f (xs[i := y]) = map f xs"
  by (metis list_update_id map_update)

lemma shm_create_id: "shm_create e s c = Some (r, c') \<Longrightarrow> conn_id c' = conn_id c"
  by (auto simp: shm_create_def init_shm_info_def conn_id_def Let_def bind_eq_Some_conv split: if_splits)

lemma set_active_id: "conn_id (set_active v c) = conn_id c"
  by (simp add: set_active_def conn_id_def)

lemma write_ip_id: "conn_id (write_ip x c) = conn_id c"
  by (simp add: write_ip_def conn_id_def)

lemma session_dispatch_id:
  assumes "session_dispatch e proto op i s = Some (r, s')" "i < length (conns s)"
  shows "devices s' = devices s \<and> mac_count s' = mac_count s \<and> map conn_id (conns s') = map conn_id (conns s)"
  using assms
  by (auto simp: session_dispatch_def bind_eq_Some_conv map_update_same set_active_id shm_create_id
      split: if_splits opcode.splits)

definition sess_id :: "'r session \<Rightarrow> nat \<times> string \<times> bytes \<times> bool" where
  "sess_id x = (s_addr x, s_dev x, s_mac x, ready x)"

lemma deliver_to_id: "deliver_to ci cm p len a ss = Some ss' \<Longrightarrow> map sess_id ss' = map sess_id ss"
  by (induction ss arbitrary: ss')
    (auto simp: bind_eq_Some_conv sess_id_def deliver_ready delivered_same split: if_splits)

lemma deliver_loop_id:
  assumes "deliver_loop ci cm pc dev p len x cnt f = Some y"
  shows "map sess_id (sessions (snd y)) = map sess_id (sessions f)"
proof (rule deliver_loop.raw_induct [where P = "\<lambda>ci cm pc dev p len x cnt f y.
    map sess_id (sessions (snd y)) = map sess_id (sessions f)", OF _ assms])
  fix loop ci cm pc dev p len x cnt f y
  assume ih: "\<And>ci cm pc dev p len x cnt f y. loop ci cm pc dev p len x cnt f = Some y \<Longrightarrow>
      map sess_id (sessions (snd y)) = map sess_id (sessions f)"
    and "(case x of None \<Rightarrow> Some (cnt, f)
      | Some s \<Rightarrow>
          (if cnt = 0 \<and> s_debug s then map_option fst (packet_analyze pc p len) else Some []) \<bind>
          (\<lambda>out. deliver_to ci cm p len (s_addr s) (sessions f) \<bind>
                 (\<lambda>ss. find_session_for_mac p dev (Some (s_addr s)) ss \<bind>
                    (\<lambda>s'. loop ci cm pc dev p len s' (cnt + 1) (f\<lparr>sessions := ss, console := console f @ out\<rparr>))))) = Some y"
  then show "map sess_id (sessions (snd y)) = map sess_id (sessions f)"
    by (auto simp: bind_eq_Some_conv split: option.splits if_splits dest!: ih deliver_to_id)
qed

lemma packet_deliver_id:
  "packet_deliver ci cm pc dev p len f = Some (n, f') \<Longrightarrow> map sess_id (sessions f') = map sess_id (sessions f)"
  by (auto simp: packet_deliver_def bind_eq_Some_conv dest!: deliver_loop_id)

lemma xmit_round_id:
  assumes "xmit_round ci cm pc transmit dev a p len (f, m) = Some (x, f', m')"
  shows "map sess_id (sessions f') = map sess_id (sessions f)"
proof -
  obtain n g bc where g: "packet_deliver ci cm pc dev p len f = Some (n, g)"
    and bc: "is_broadcast_mac p = Some bc"
    using assms by (auto simp: xmit_round_def bind_eq_Some_conv)
  obtain err k nt where "(if n = 0 \<or> bc then let (e, n') = transmit p len m in (e, n', True) else (0, m, False)) = (err, k, nt)"
    by (metis surj_pair)
  then have f': "sessions f' = map (\<lambda>s. if s_addr s = a then s\<lparr>head_chunk := map_option (\<lambda>i. if n \<noteq> 0 \<or> err = 0
        then i\<lparr>num_tx := num_tx i + 1, tx_bytes := tx_bytes i + len\<rparr> else i\<lparr>tx_dropped := tx_dropped i + 1\<rparr>) (head_chunk s)\<rparr>
        else s) (sessions g)"
    using assms by (auto simp: xmit_round_def g bc Let_def)
  have "map sess_id (sessions f') = map sess_id (sessions g)"
    unfolding f' by (simp add: sess_id_def ready_def)
  then show ?thesis using packet_deliver_id [OF g] by simp
qed

lemma with_sessions_id:
  "map sess_id ss = map sess_id (map c_session cs) \<Longrightarrow> map conn_id (with_sessions ss cs) = map conn_id cs"
proof (induction cs arbitrary: ss)
  case (Cons c cs)
  then show ?case by (cases ss) (auto simp: with_sessions_def conn_id_def sess_id_def)
qed (simp add: with_sessions_def)

lemma find_device_Some:
  "find_device_by_name n ds = Some d \<Longrightarrow> d < length ds \<and> dev_name (ds ! d) = n"
  by (induction ds arbitrary: d) (auto split: if_splits)

lemma find_device_cong:
  "map dev_name ds' = map dev_name ds \<Longrightarrow> find_device_by_name n ds' = find_device_by_name n ds"
proof (induction ds arbitrary: ds')
  case (Cons d ds)
  obtain d' ds'' where "ds' = d' # ds''" "dev_name d' = dev_name d" "map dev_name ds'' = map dev_name ds"
    using Cons.prems by (auto simp: Cons_eq_map_conv)
  then show ?case using Cons.IH [of ds''] by simp
qed simp

text \<open>The two ways in which a session comes to its address.\<close>

lemma ServerSession_cases:
  assumes "ServerSession e a c name shmname s = Some (r, s')"
  obtains d where "find_device_by_name name (devices s) = Some d" and "s_addr (c_session r) = a"
    and "s_dev (c_session r) = name" and "c_dev r = d" and "conns s' = conns s"
    and "s_mac (c_session r) = gen_mac (hw_addr (devices s ! d)) (mac_count s) \<and>
           mac_count s' = mac_count s + 1 \<and> devices s' = devices s \<or>
         \<not> phys_mac_assigned (devices s ! d) \<and> s_mac (c_session r) = take 6 (hw_addr (devices s ! d)) \<and>
           mac_count s' = mac_count s \<and>
           devices s' = (devices s)[d := (devices s ! d)\<lparr>phys_mac_assigned := True\<rparr>]"
proof -
  obtain d where d: "find_device_by_name name (devices s) = Some d"
    using assms by (auto simp: ServerSession_def bind_eq_Some_conv)
  note n = find_device_Some [OF d]
  show ?thesis
    using assms n d
    by (intro that [OF d])
      (auto simp: ServerSession_def bind_eq_Some_conv get_phys_mac_def rdn_Some Let_def
        generate_mac_eq split: if_splits prod.splits)
qed

lemma create_split:
  assumes "create b e a config s = Some s'"
  obtains c name sn g r s1 where "ServerSession e a c name sn (s\<lparr>glue_of := g\<rparr>) = Some (r, s1)"
    and "s' = s1\<lparr>conns := conns s1 @ [r]\<rparr>"
proof -
  obtain ts c where ts: "tokens b config = Some ts" "apply_tokens b ts default_settings = Some c"
    using assms by (auto simp: create_def bind_eq_Some_conv)
  obtain g where g: "(if cf_debug c then ankh_set_debug (glue_of s) else Some (glue_of s)) = Some g"
    using assms ts by (auto simp: create_def bind_eq_Some_conv)
  then show ?thesis
    using assms ts by (auto simp: create_def bind_eq_Some_conv Let_def intro: that)
qed

lemma new_key_is_new:
  assumes "server_inv s" and "length (conns s) < 65536"
    and d: "find_device_by_name name (devices s) = Some d"
    and m: "m = gen_mac (hw_addr (devices s ! d)) (mac_count s) \<or>
      \<not> phys_mac_assigned (devices s ! d) \<and> m = take 6 (hw_addr (devices s ! d))"
    and c: "c \<in> set (conns s)"
  shows "conn_key c \<noteq> (name, m)"
proof
  assume k: "conn_key c = (name, m)"
  let ?hw = "hw_addr (devices s ! d)"
  have "conn_ok s c" "unat (mac_count s) \<le> length (conns s)" using assms(1) c by (simp_all add: server_inv_def)
  then have o: "(\<exists>k < unat (mac_count s). m = gen_mac ?hw (word_of_nat k)) \<or>
      phys_mac_assigned (devices s ! d) \<and> m = take 6 ?hw" and n: "unat (mac_count s) < 65536"
    using k d assms(2) by (auto simp: conn_ok_def conn_key_def mac_origin_def Let_def)
  have "devices s ! d \<in> set (devices s)" using find_device_Some [OF d] by simp
  then have hw: "6 \<le> length ?hw" "take 2 ?hw \<noteq> [0x04, 0xEA]"
    using assms(1) by (auto simp: server_inv_def good_devices_def)
  have g: "gen_mac ?hw n \<noteq> take 6 ?hw" for n
  proof
    assume "gen_mac ?hw n = take 6 ?hw"
    then have "take 2 (gen_mac ?hw n) = take 2 (take 6 ?hw)" by simp
    then show False using hw(2) take2_gen_mac [of ?hw n] by simp
  qed
  have "gen_mac ?hw (word_of_nat k) \<noteq> gen_mac ?hw (mac_count s)" if "k < unat (mac_count s)" for k
    using that n gen_mac_inj [OF hw(1), of "word_of_nat k" "mac_count s"] by (simp add: word_nat word_unat_eq_iff)
  then show False using o m g by metis
qed

lemma create_inv:
  assumes "server_inv s" and "length (conns s) < 65536" and "a \<notin> s_addr ` c_session ` set (conns s)"
    and "create b e a config s = Some s'"
  shows "server_inv s' \<and> length (conns s') = Suc (length (conns s))"
proof -
  obtain c name sn g r s1 where
    r: "ServerSession e a c name sn (s\<lparr>glue_of := g\<rparr>) = Some (r, s1)" and s': "s' = s1\<lparr>conns := conns s1 @ [r]\<rparr>"
    using create_split [OF assms(4)] by blast
  obtain d where d: "find_device_by_name name (devices s) = Some d" "s_addr (c_session r) = a"
      "s_dev (c_session r) = name" "c_dev r = d" "conns s1 = conns s"
    and m: "s_mac (c_session r) = gen_mac (hw_addr (devices s ! d)) (mac_count s) \<and>
           mac_count s1 = mac_count s + 1 \<and> devices s1 = devices s \<or>
         \<not> phys_mac_assigned (devices s ! d) \<and> s_mac (c_session r) = take 6 (hw_addr (devices s ! d)) \<and>
           mac_count s1 = mac_count s \<and>
           devices s1 = (devices s)[d := (devices s ! d)\<lparr>phys_mac_assigned := True\<rparr>]"
    using ServerSession_cases [OF r] by auto
  note i = assms(1) [unfolded server_inv_def]
  note n = find_device_Some [OF d(1)]
  have cnt: "unat (mac_count s) \<le> length (conns s)" "unat (mac_count s + 1) = unat (mac_count s) + 1"
    using i assms(2) by (simp_all add: unat_word_ariths)
  have names: "map dev_name (devices s1) = map dev_name (devices s)"
    using m n by (auto intro!: map_update_same simp: dev_name_def)
  have len: "length (devices s1) = length (devices s)" using m by auto
  have dv: "hw_addr (devices s1 ! i) = hw_addr (devices s ! i) \<and>
      (phys_mac_assigned (devices s ! i) \<longrightarrow> phys_mac_assigned (devices s1 ! i))" for i
    using m n by (cases "i = d") (auto simp: hw_addr_def)
  have "good_devices (devices s1)"
    using i dv len by (auto simp: good_devices_def in_set_conv_nth) (metis nth_mem)+
  moreover have "conn_ok s1 c" if "conn_ok s c" for c
  proof -
    have "k < unat (mac_count s1)" if "k < unat (mac_count s)" for k using that m cnt(2) by auto
    then show ?thesis
      using that dv [of "c_dev c"] find_device_cong [OF names]
      unfolding conn_ok_def mac_origin_def Let_def by metis
  qed
  moreover have "conn_ok s1 r"
    using d m n cnt find_device_cong [OF names] dv
    by (auto simp: conn_ok_def mac_origin_def Let_def intro!: exI [of _ "unat (mac_count s)"])
  moreover have "(name, s_mac (c_session r)) \<notin> conn_key ` set (conns s)"
    using new_key_is_new [OF assms(1,2) d(1), of "s_mac (c_session r)"] m by force
  ultimately show ?thesis
    using i d m cnt assms(3)
    by (auto simp: server_inv_def s' conn_key_def comp_def image_image conn_ok_def mac_origin_def)
qed

lemma server_step_inv:
  assumes "server_step b e s s'"
  shows "length (conns s) \<le> length (conns s')" and "server_inv s \<Longrightarrow> length (conns s') \<le> 65536 \<Longrightarrow> server_inv s'"
proof -
  have "length (conns s) \<le> length (conns s') \<and> (server_inv s \<longrightarrow> length (conns s') \<le> 65536 \<longrightarrow> server_inv s')"
    using assms
  proof cases
    case (sv_create a config)
    have "length (conns s') = Suc (length (conns s))"
      using create_split [OF sv_create(2)] ServerSession_cases
      by (metis (no_types, lifting) length_append_singleton server.select_convs(1) server.surjective server.update_convs(1,4))
    then show ?thesis using create_inv [OF _ _ sv_create] by auto
  next
    case (sv_request i proto op r)
    then show ?thesis
      using session_dispatch_id [OF sv_request(2,1)] server_inv_cong by (metis map_eq_imp_length_eq le_refl)
  next
    case (sv_client i x)
    then show ?thesis
      using server_inv_cong [of s' s] map_update_same [OF sv_client(2), of conn_id] by (simp add: write_ip_id)
  next
    case (sv_receive ci cm pc dev p len n f)
    have "map sess_id (sessions f) = map sess_id (map c_session (conns s))"
      using packet_deliver_id [OF sv_receive(2)] by (simp add: as_factory_def)
    from with_sessions_id [OF this] have k: "map conn_id (conns s') = map conn_id (conns s)"
      using sv_receive(1) by simp
    from map_eq_imp_length_eq [OF this] show ?thesis
      using server_inv_cong [OF _ _ k] sv_receive(1) by simp
  next
    case (sv_transmit ci cm pc transmit dev a p len x f g)
    have "map sess_id (sessions f) = map sess_id (map c_session (conns s))"
      using xmit_round_id [OF sv_transmit(2)] by (simp add: as_factory_def)
    from with_sessions_id [OF this] have k: "map conn_id (conns s') = map conn_id (conns s)"
      using sv_transmit(1) by simp
    from map_eq_imp_length_eq [OF this] show ?thesis
      using server_inv_cong [OF _ _ k] sv_transmit(1) by simp
  qed
  then show "length (conns s) \<le> length (conns s')"
    and "server_inv s \<Longrightarrow> length (conns s') \<le> 65536 \<Longrightarrow> server_inv s'" by auto
qed

lemma server_reachable_inv:
  assumes "(server_step b e)\<^sup>*\<^sup>* s0 s" and "fresh_server s0" and "good_devices (devices s0)"
  shows "length (conns s) \<le> 65536 \<Longrightarrow> server_inv s"
  using assms(1)
proof (induction rule: rtranclp_induct)
  case base
  then show ?case using assms(2,3) by (simp add: fresh_server_def server_inv_def)
next
  case (step s s')
  then show ?case using server_step_inv [OF step.hyps(2)] by simp
qed








subsection \<open>Sessions on a device have different addresses\<close>

text \<open>
  C3: in every run of the server on devices with proper addresses, as long as there are at most 65536
  sessions: two sessions on a device never have the same Ethernet address, at most one session has the
  address of the device itself, and no two sessions have the same place in memory, whatever requests
  and frames come in between.
\<close>

theorem sessions_keep_distinct_addresses:
  assumes "(server_step b e)\<^sup>*\<^sup>* s0 s" and "fresh_server s0" and "good_devices (devices s0)"
    and "length (conns s) \<le> 65536" and "i < length (conns s)" and "j < length (conns s)" and "i \<noteq> j"
    and "x = c_session (conns s ! i)" and "y = c_session (conns s ! j)"
  shows "s_addr x \<noteq> s_addr y \<and> (s_dev x = s_dev y \<longrightarrow> s_mac x \<noteq> s_mac y)"
proof -
  have "server_inv s" using server_reachable_inv [OF assms(1-3)] assms(4) by blast
  then have "distinct (map (s_addr \<circ> c_session) (conns s))" "distinct (map conn_key (conns s))"
    by (simp_all add: server_inv_def)
  then show ?thesis
    using assms(5-9) by (fastforce simp: distinct_conv_nth conn_key_def)
qed

text \<open>Boost for configurations without quotes, and a server with the one device \<open>lo\<close>.\<close>

fun split_on :: "char \<Rightarrow> string \<Rightarrow> string list" where
  "split_on x [] = [[]]"
| "split_on x (c # cs) = (if c = x then [] # split_on x cs
     else (case split_on x cs of [] \<Rightarrow> [[c]] | w # ws \<Rightarrow> (c # w) # ws))"

definition demo_boost :: boost where
  "demo_boost = \<lparr>tokens = (\<lambda>s. Some (if s = [] then [] else split_on CHR '','' s)),
     starts_with = (\<lambda>s p. take (length p) s = p), split_eq = split_on CHR ''=''\<rparr>"

definition demo_shm :: "(nat, nat) shm_env" where
  "demo_shm = \<lparr>shmc_create = (\<lambda>n z w. (0, w + 1)), shmc_attach = (\<lambda>n w. if w = 0 \<or> n = ''b'' then - 2 else 0),
     info_chunk = (\<lambda>n w. True), rx_ring_of = (\<lambda>n w. Some 7), thread_starts = True,
     pagesize = 4096\<rparr>"

definition demo_server :: "(nat, nat, nat \<times> u16) server" where
  "demo_server = \<lparr>conns = [], devices = add_device hisf [], mac_count = 0, glue_of = demo_glue, shm = 0\<rparr>"

lemma demo_create:
  "\<exists>s1 s2. create demo_boost demo_shm 1 ''device=lo,shm=a'' demo_server = Some s1 \<and>
     create demo_boost demo_shm 2 ''device=lo,shm=b,phys_mac'' s1 = Some s2 \<and>
     map (s_addr \<circ> c_session) (conns s1) = [1] \<and> map (s_addr \<circ> c_session) (conns s2) = [1, 2] \<and>
     map (s_dev \<circ> c_session) (conns s2) = [''lo'', ''lo''] \<and> map c_shmname (conns s2) = [''a'', ''b''] \<and>
     map c_threads (conns s2) = [0, 0] \<and> shm s2 = 2 \<and> map (hd \<circ> s_mac \<circ> c_session) (conns s2) = [0x04, 0x14] \<and>
     map (length \<circ> s_mac \<circ> c_session) (conns s2) = [6, 6] \<and> shm s1 = 1 \<and> map c_shmname (conns s1) = [''a'']"
  by (simp add: create_def gen_mac_def demo_boost_def demo_shm_def demo_server_def ServerSession_def apply_token_def
      default_settings_def second_def ankh_set_debug_def demo_glue_def c_int_def INT_MAX_def INT_MIN_def
      add_device_def Device_def dev_name_def netdev_name_def hisf_def name_len_def generate_mac_eq hw_addr_def
      netdev_dev_addr_def rdn_def Let_def get_phys_mac_def)

lemma demo_runs:
  "\<exists>s x y. (server_step demo_boost demo_shm)\<^sup>*\<^sup>* demo_server s \<and> conns s = [x, y] \<and> shm s = 2 \<and>
     c_shmname x = ''a'' \<and> c_shmname y = ''b'' \<and> c_threads x = 0 \<and> c_threads y = 0 \<and>
     s_dev (c_session x) = ''lo'' \<and> s_dev (c_session y) = ''lo'' \<and> length (s_mac (c_session x)) = 6 \<and>
     length (s_mac (c_session y)) = 6 \<and> hd (s_mac (c_session x)) = 0x04 \<and> hd (s_mac (c_session y)) = 0x14"
proof -
  obtain s1 s2 where c: "create demo_boost demo_shm 1 ''device=lo,shm=a'' demo_server = Some s1"
      "create demo_boost demo_shm 2 ''device=lo,shm=b,phys_mac'' s1 = Some s2"
    and a: "map (s_addr \<circ> c_session) (conns s1) = [1]"
    and y: "map (s_dev \<circ> c_session) (conns s2) = [''lo'', ''lo'']" "map c_shmname (conns s2) = [''a'', ''b'']"
      "map c_threads (conns s2) = [0, 0]" "shm s2 = 2" "map (hd \<circ> s_mac \<circ> c_session) (conns s2) = [0x04, 0x14]"
      "map (length \<circ> s_mac \<circ> c_session) (conns s2) = [6, 6]" using demo_create by auto
  have "s_addr ` c_session ` set (conns s1) = {1}" using arg_cong [OF a, of set] by (simp add: image_comp)
  then have "server_step demo_boost demo_shm s1 s2" by (intro sv_create [OF _ c(2)]) simp
  moreover have "server_step demo_boost demo_shm demo_server s1"
    by (intro sv_create [OF _ c(1)]) (simp add: demo_server_def)
  ultimately have "(server_step demo_boost demo_shm)\<^sup>*\<^sup>* demo_server s2" by simp
  then show ?thesis using y by (auto simp: Cons_eq_map_conv)
qed

lemma demo_server_ok: "fresh_server demo_server" "good_devices (devices demo_server)"
  by (simp_all add: fresh_server_def demo_server_def add_device_def Device_def good_devices_def hw_addr_def
      netdev_dev_addr_def hisf_def)

theorem sessions_keep_distinct_addresses_witness:
  "\<exists>s. (server_step demo_boost demo_shm)\<^sup>*\<^sup>* demo_server s \<and> length (conns s) = 2 \<and>
     s_mac (c_session (conns s ! 0)) \<noteq> s_mac (c_session (conns s ! 1))"
proof -
  obtain s where s: "(server_step demo_boost demo_shm)\<^sup>*\<^sup>* demo_server s" "length (conns s) = 2"
      "s_dev (c_session (conns s ! 0)) = s_dev (c_session (conns s ! 1))" using demo_runs by auto
  then show ?thesis
    using sessions_keep_distinct_addresses [OF s(1) demo_server_ok _ _ _ zero_neq_one refl refl] s by (intro exI [of _ s]) simp
qed









subsection \<open>Requests\<close>

text \<open>
  C24: the answers of a session. An activation whose area cannot be attached answers \<open>ENOMEM\<close> and
  still makes the session active, with the ring it had (none the first time); otherwise it clears the
  counters and starts one more transmit thread, also on a session that was active before. Deactivation
  and the request to take over the client's IP address answer -1 although they succeed; the address is
  the one that the client wrote into the information chunk, and before the first activation the request
  follows a null pointer.
\<close>

theorem session_requests:
  assumes "i < length (conns s)"
  shows "(shmc_attach e (c_shmname (conns s ! i)) (shm s) \<noteq> 0 \<longrightarrow>
      session_dispatch e True Activate i s =
        Some (Inl ENOMEM, s\<lparr>conns := (conns s)[i := set_active True (conns s ! i)]\<rparr>)) \<and>
    (shmc_attach e (c_shmname (conns s ! i)) (shm s) = 0 \<longrightarrow> info_chunk e (c_shmname (conns s ! i)) (shm s) \<longrightarrow>
     rx_ring_of e (c_shmname (conns s ! i)) (shm s) = Some r \<longrightarrow> thread_starts e \<longrightarrow>
      (\<exists>c f. session_dispatch e True Activate i s = Some (Inr 0, s\<lparr>conns := (conns s)[i := c]\<rparr>) \<and>
        s_active (c_session c) \<and> rx_ring (c_session c) = Some r \<and> head_chunk (c_session c) = Some f \<and>
        num_rx f = 0 \<and> num_tx f = 0 \<and> c_threads c = c_threads (conns s ! i) + 1 \<and>
        conn_id c = conn_id (conns s ! i) \<and>
        session_dispatch e True SharedIp i (s\<lparr>conns := (conns s)[i := write_ip x c]\<rparr>) =
          Some (Inr (- 1), s\<lparr>conns := (conns s)[i := write_ip x c],
            glue_of := (glue_of s)\<lparr>linux_glue_ip_addr := x\<rparr>\<rparr>))) \<and>
    session_dispatch e True Deactivate i s =
      Some (Inr (- 1), s\<lparr>conns := (conns s)[i := set_active False (conns s ! i)]\<rparr>) \<and>
    (head_chunk (c_session (conns s ! i)) = None \<longrightarrow> session_dispatch e True SharedIp i s = None) \<and>
    session_dispatch e False op i s = Some (Inl EBADPROTO, s) \<and>
    session_dispatch e True Other_opcode i s = Some (Inl ENOSYS, s)"
  using assms
  by (auto simp: session_dispatch_def shm_create_def init_shm_info_def set_active_def write_ip_def conn_id_def
      shared_ip_addr_def eth_shared_ip_addr_def Let_def)

theorem session_requests_witness:
  "\<exists>s1 s2. create demo_boost demo_shm 1 ''device=lo,shm=a'' demo_server = Some s1 \<and>
     session_dispatch demo_shm True Activate 0 s1 = Some (Inr 0, s2) \<and>
     session_dispatch demo_shm True Activate 0 (s1\<lparr>shm := 0\<rparr>) =
       Some (Inl ENOMEM, s1\<lparr>shm := 0, conns := [set_active True (conns s1 ! 0)]\<rparr>)"
proof -
  obtain s1 where c: "create demo_boost demo_shm 1 ''device=lo,shm=a'' demo_server = Some s1"
      and k: "map c_shmname (conns s1) = [''a'']" "shm s1 = 1" using demo_create by auto
  obtain x where x: "conns s1 = [x]" "c_shmname x = ''a''" using k(1) by (auto simp: Cons_eq_map_conv)
  have "0 < length (conns s1)" "0 < length (conns (s1\<lparr>shm := 0\<rparr>))" using x by simp_all
  note r = session_requests [OF this(1), of demo_shm 7] session_requests [OF this(2), of demo_shm 7]
  have "\<exists>s2. session_dispatch demo_shm True Activate 0 s1 = Some (Inr 0, s2)"
    using r(1) k(2) x by (auto simp: demo_shm_def)
  moreover have "session_dispatch demo_shm True Activate 0 (s1\<lparr>shm := 0\<rparr>) =
       Some (Inl ENOMEM, s1\<lparr>shm := 0, conns := [set_active True (conns s1 ! 0)]\<rparr>)"
    using r(2) x by (simp add: demo_shm_def)
  ultimately show ?thesis using c by blast
qed

text \<open>On the server's one device \<open>lo\<close> a configuration must name it: the default is \<open>eth0\<close>.\<close>

lemma default_device_missing:
  assumes "map dev_name (devices s) = [''lo'']" and "tokens b config = Some ts"
    and "apply_tokens b ts default_settings = Some c" and "cf_dev c = None"
  shows "create b e a config s = None"
proof -
  have "find_device_by_name ''eth0'' (devices s) = None"
    using assms(1) by (auto simp: Cons_eq_map_conv)
  then have "ServerSession e a c ''eth0'' sn (s\<lparr>glue_of := g\<rparr>) = None" for sn g
    by (simp add: ServerSession_def)
  then show ?thesis using assms(2-4) by (auto simp: create_def bind_eq_None_conv Let_def)
qed

subsection \<open>The configuration string of a session\<close>

text \<open>The options of a configuration, and how they are written.\<close>

datatype session_option = Debug | Promisc | Phys_mac | No_broadcast | Dev string | Shm_area string | Buf_size nat

fun show_option :: "session_option \<Rightarrow> string" where
  "show_option Debug = ''debug''"
| "show_option Promisc = ''promisc''"
| "show_option Phys_mac = ''phys_mac''"
| "show_option No_broadcast = ''nobroadcast''"
| "show_option (Dev n) = ''device'' @ ''='' @ n"
| "show_option (Shm_area n) = ''shm'' @ ''='' @ n"
| "show_option (Buf_size n) = ''bufsize'' @ ''='' @ show_nat n"

fun set_option :: "session_option \<Rightarrow> settings \<Rightarrow> settings" where
  "set_option Debug c = c\<lparr>cf_debug := True\<rparr>"
| "set_option Promisc c = c\<lparr>cf_promisc := True\<rparr>"
| "set_option Phys_mac c = c\<lparr>cf_phys := True\<rparr>"
| "set_option No_broadcast c = c\<lparr>cf_bcast := False\<rparr>"
| "set_option (Dev n) c = c\<lparr>cf_dev := Some n\<rparr>"
| "set_option (Shm_area n) c = c\<lparr>cf_shm := Some n\<rparr>"
| "set_option (Buf_size n) c = c\<lparr>cf_bufsize := word_of_nat n\<rparr>"

text \<open>A configuration string lists its options with commas. The tokenizer gives a meaning to commas, quotes and backslashes;
  the string itself ends at a zero.\<close>

fun show_fields :: "string list \<Rightarrow> string" where
  "show_fields [] = ''''"
| "show_fields [f] = f"
| "show_fields (f # fs) = f @ CHR '','' # show_fields fs"

definition show_config :: "session_option list \<Rightarrow> string" where
  "show_config opts = show_fields (map show_option opts)"

definition plain :: "string \<Rightarrow> bool" where
  "plain s \<longleftrightarrow> (\<forall>c \<in> set s. c \<notin> {CHR '','', CHR 0x22, CHR 0x5C, CHR 0x00})"

fun good_option :: "session_option \<Rightarrow> bool" where
  "good_option (Dev n) \<longleftrightarrow> CHR ''='' \<notin> set n \<and> plain n"
| "good_option (Shm_area n) \<longleftrightarrow> CHR ''='' \<notin> set n \<and> plain n"
| "good_option (Buf_size n) \<longleftrightarrow> int n \<le> INT_MAX"
| "good_option _ \<longleftrightarrow> True"

lemma apply_option:
  assumes "\<And>t p. starts_with b t p \<longleftrightarrow> take (length p) t = p"
    and "\<And>k v. CHR ''='' \<notin> set k \<Longrightarrow> CHR ''='' \<notin> set v \<Longrightarrow> split_eq b (k @ ''='' @ v) = [k, v]"
    and "good_option opt"
  shows "apply_token b (show_option opt) c = Some (set_option opt c)"
proof (cases opt)
  case (Dev n)
  then show ?thesis using assms(2) [of "''device''" n] assms(3) by (simp add: apply_token_def assms(1) second_def)
next
  case (Shm_area n)
  then show ?thesis using assms(2) [of "''shm''" n] assms(3) by (simp add: apply_token_def assms(1) second_def)
next
  case (Buf_size n)
  have "CHR ''='' \<notin> set (show_nat n)" by (rule not_in_show_nat) (simp add: is_digit_def)
  then have "split_eq b (''bufsize='' @ show_nat n) = [''bufsize'', show_nat n]"
    using assms(2) [of "''bufsize''" "show_nat n"] by simp
  then show ?thesis using assms(3) Buf_size
    by (simp add: apply_token_def assms(1) second_def atoi_show_nat c_int_def INT_MIN_def)
qed (simp_all add: apply_token_def)

lemma plain_option: "good_option opt \<Longrightarrow> show_option opt \<noteq> [] \<and> plain (show_option opt)"
proof (cases opt)
  case (Buf_size n)
  have "plain (show_nat n)" using not_in_show_nat [of "CHR '',''" n] not_in_show_nat [of "CHR 0x22" n]
      not_in_show_nat [of "CHR 0x5C" n] not_in_show_nat [of "CHR 0x00" n]
    by (auto simp: plain_def is_digit_def)
  then show ?thesis using Buf_size by (simp add: plain_def)
qed (auto simp: plain_def)

lemma apply_options:
  assumes "\<And>t p. starts_with b t p \<longleftrightarrow> take (length p) t = p"
    and "\<And>k v. CHR ''='' \<notin> set k \<Longrightarrow> CHR ''='' \<notin> set v \<Longrightarrow> split_eq b (k @ ''='' @ v) = [k, v]"
    and "\<forall>opt\<in>set opts. good_option opt"
  shows "apply_tokens b (map show_option opts) c = Some (fold set_option opts c)"
  using assms(3) by (induction opts arbitrary: c) (simp_all add: apply_option [OF assms(1,2)])

lemma debug_stays: "cf_debug c \<Longrightarrow> cf_debug (fold set_option opts c)"
proof (induction opts arbitrary: c)
  case (Cons opt opts)
  have "cf_debug (set_option opt c)" using Cons.prems by (cases opt) simp_all
  then show ?case using Cons.IH by simp
qed simp

text \<open>
  C25: writing a configuration and having it read: the string that lists options in any order, separated by
  commas, makes \<open>create\<close> build a session with the settings in which each option has been set in turn, so the last
  one of a kind counts, and with the names \<open>eth0\<close> and \<open>shm_area\<close> where none is given; the option \<open>debug\<close>
  changes nothing since debugging is on by default. Names must be free of the characters that the
  tokenizer treats in a special way, and of equality signs.
\<close>

theorem configuration_roundtrip:
  assumes "\<And>fs. \<forall>f\<in>set fs. f \<noteq> [] \<and> plain f \<Longrightarrow> tokens b (show_fields fs) = Some fs"
    and "\<And>t p. starts_with b t p \<longleftrightarrow> take (length p) t = p"
    and "\<And>k v. CHR ''='' \<notin> set k \<Longrightarrow> CHR ''='' \<notin> set v \<Longrightarrow> split_eq b (k @ ''='' @ v) = [k, v]"
    and "\<forall>opt\<in>set opts. good_option opt" and "c = fold set_option opts default_settings"
  shows "create b e a (show_config opts) s = do {
      g \<leftarrow> ankh_set_debug (glue_of s);
      (x, s') \<leftarrow> ServerSession e a c (case cf_dev c of None \<Rightarrow> ''eth0'' | Some n \<Rightarrow> n)
        (case cf_shm c of None \<Rightarrow> ''shm_area'' | Some n \<Rightarrow> n) (s\<lparr>glue_of := g\<rparr>);
      Some (s'\<lparr>conns := conns s' @ [x]\<rparr>) }
    \<and> create b e a (show_config (Debug # opts)) s = create b e a (show_config opts) s"
proof -
  have "tokens b (show_config os) = Some (map show_option os) \<and> apply_tokens b (map show_option os) default_settings = Some (fold set_option os default_settings)"
    if "\<forall>opt\<in>set os. good_option opt" for os
    using assms(1) [of "map show_option os"] apply_options [OF assms(2,3) that] plain_option that by (simp add: show_config_def)
  from this [OF assms(4)] this [of "Debug # opts"] assms(4)
  have "tokens b (show_config opts) = Some (map show_option opts)" "apply_tokens b (map show_option opts) default_settings = Some c"
    "tokens b (show_config (Debug # opts)) = Some (map show_option (Debug # opts))"
    "apply_tokens b (map show_option (Debug # opts)) default_settings = Some c"
    by (simp_all add: assms(5) default_settings_def del: list.map)
  moreover have "cf_debug c" using debug_stays [of default_settings opts] by (simp add: assms(5) default_settings_def)
  ultimately show ?thesis by (simp add: create_def Let_def)
qed

lemma split_on_none: "x \<notin> set v \<Longrightarrow> split_on x v = [v]"
  by (induction v) auto

lemma split_on_two: "x \<notin> set k \<Longrightarrow> split_on x (k @ x # v) = k # split_on x v"
  by (induction k) auto

lemma demo_tokens: "\<forall>f\<in>set fs. f \<noteq> [] \<and> plain f \<Longrightarrow> tokens demo_boost (show_fields fs) = Some fs"
proof (induction fs rule: show_fields.induct)
  case (3 f g gs)
  then have "split_on CHR '','' (show_fields (g # gs)) = g # gs" by (auto simp: demo_boost_def split: if_splits)
  moreover have "CHR '','' \<notin> set f" using "3.prems" by (auto simp: plain_def)
  ultimately show ?case by (simp add: demo_boost_def split_on_two)
qed (auto simp: demo_boost_def plain_def intro: split_on_none)

theorem configuration_roundtrip_witness:
  "\<exists>s x. create demo_boost demo_shm 1 ''shm=a,bufsize=4096,nobroadcast,shm=b,device=lo'' demo_server = Some s \<and>
     conns s = [x] \<and> c_shmname x = ''b'' \<and> c_ringsize x = 4096 \<and> \<not> s_want_bcast (c_session x)"
proof -
  let ?o = "[Shm_area ''a'', Buf_size 4096, No_broadcast, Shm_area ''b'', Dev ''lo'']"
  have "show_nat 4096 = ''4096''" by code_simp
  then have o: "show_config ?o = ''shm=a,bufsize=4096,nobroadcast,shm=b,device=lo''" by (simp add: show_config_def)
  have b: "\<And>t p. starts_with demo_boost t p \<longleftrightarrow> take (length p) t = p"
    "\<And>k v. CHR ''='' \<notin> set k \<Longrightarrow> CHR ''='' \<notin> set v \<Longrightarrow> split_eq demo_boost (k @ ''='' @ v) = [k, v]"
    by (simp_all add: demo_boost_def split_on_none split_on_two)
  have g: "\<forall>opt\<in>set ?o. good_option opt" by (simp add: plain_def INT_MAX_def)
  show ?thesis
    using configuration_roundtrip [OF demo_tokens b g refl, of demo_shm 1 demo_server] unfolding o
    by (simp add: default_settings_def demo_shm_def demo_server_def ServerSession_def ankh_set_debug_def demo_glue_def
      c_int_def INT_MAX_def INT_MIN_def add_device_def Device_def dev_name_def netdev_name_def hisf_def name_len_def
      generate_mac_eq hw_addr_def netdev_dev_addr_def Let_def)
qed

end
