(* ===== verification/Lwip_Err.thy ===== *)
theory Lwip_Err imports Prelude begin

section \<open>Error codes of lwIP (\<open>include/lwip/err.h\<close>)\<close>

text \<open>The results that the functions of lwIP and of its operating-system layer return.\<close>

datatype err_t = ERR_OK | ERR_MEM | ERR_BUF | ERR_TIMEOUT | ERR_RTE | ERR_INPROGRESS | ERR_VAL
  | ERR_WOULDBLOCK | ERR_ABRT | ERR_RST | ERR_CLSD | ERR_CONN | ERR_ARG | ERR_USE | ERR_IF | ERR_ISCONN

text \<open>The numbers behind them.\<close>

fun err_code :: "err_t \<Rightarrow> int" where
  "err_code ERR_OK = 0"
| "err_code ERR_MEM = - 1"
| "err_code ERR_BUF = - 2"
| "err_code ERR_TIMEOUT = - 3"
| "err_code ERR_RTE = - 4"
| "err_code ERR_INPROGRESS = - 5"
| "err_code ERR_VAL = - 6"
| "err_code ERR_WOULDBLOCK = - 7"
| "err_code ERR_ABRT = - 8"
| "err_code ERR_RST = - 9"
| "err_code ERR_CLSD = - 10"
| "err_code ERR_CONN = - 11"
| "err_code ERR_ARG = - 12"
| "err_code ERR_USE = - 13"
| "err_code ERR_IF = - 14"
| "err_code ERR_ISCONN = - 15"

end
