(* ===== verification/Sys_Time.thy ===== *)
theory Sys_Time imports Prelude begin

section \<open>Time in the operating-system layer (\<open>git/ankh/lib/lwip/lib/arch/sys_arch.c\<close>)\<close>

text \<open>
  \<open>sys_now\<close>, \<open>sys_jiffies\<close> and the arithmetic of \<open>cond_wait\<close>. \<open>gettimeofday\<close> is the argument \<open>tv\<close>
  (two 32-bit signed numbers), signed overflow is \<open>None\<close>, and unsigned arithmetic wraps.
\<close>

record timeval =
  tv_sec :: int
  tv_usec :: int

definition valid_tv :: "timeval \<Rightarrow> bool" where
  "valid_tv tv \<longleftrightarrow> 0 \<le> tv_sec tv \<and> tv_sec tv \<le> INT_MAX \<and> 0 \<le> tv_usec tv \<and> tv_usec tv < 1000000"

text \<open>Microseconds since the epoch.\<close>

definition micros :: "timeval \<Rightarrow> int" where
  "micros tv = tv_sec tv * 1000000 + tv_usec tv"

definition sys_now :: "timeval \<Rightarrow> timeval \<Rightarrow> u32 option" where
  "sys_now starttime tv = do {
     ds \<leftarrow> c_int (tv_sec tv - tv_sec starttime);
     du \<leftarrow> c_int (tv_usec tv - tv_usec starttime);
     let sec = word_of_int ds;
     let usec = word_of_int du;
     Some (sec * 1000 + usec div 1000)
   }"

definition MAX_JIFFY_OFFSET :: u32 where "MAX_JIFFY_OFFSET = drop_bit 1 (NOT 0) - 1"
definition HZ :: u32 where "HZ = 100"

definition sys_jiffies :: "timeval \<Rightarrow> timeval \<Rightarrow> u32 option" where
  "sys_jiffies starttime tv = do {
     ds \<leftarrow> c_int (tv_sec tv - tv_sec starttime);
     let sec = word_of_int ds;
     (if sec \<ge> MAX_JIFFY_OFFSET div HZ then Some MAX_JIFFY_OFFSET
      else do {
        usec \<leftarrow> c_int (tv_usec tv + (1000000 div uint HZ - 1));
        let usec = usec div (1000000 div uint HZ);
        Some (HZ * sec + word_of_int usec)
      })
   }"

subsection \<open>Waiting on a condition variable\<close>

definition SYS_ARCH_TIMEOUT :: u32 where "SYS_ARCH_TIMEOUT = 0xffffffff"

record timespec =
  ts_sec :: u32
  ts_nsec :: u32

text \<open>The absolute deadline that \<open>cond_wait\<close> computes.\<close>

definition cond_deadline :: "timeval \<Rightarrow> u32 \<Rightarrow> timespec" where
  "cond_deadline rtime1 timeout =
     (let sec = word_of_int (tv_sec rtime1);
          usec = word_of_int (tv_usec rtime1) + timeout mod 1000 * 1000;
          sec = sec + timeout div 1000 + usec div 1000000;
          usec = usec mod 1000000
      in \<lparr>ts_sec = sec, ts_nsec = usec * 1000\<rparr>)"

text \<open>What a wait ends with: \<open>pthread_cond_timedwait\<close> reports \<open>ETIMEDOUT\<close>, or the thread was woken
  at the given time.\<close>

datatype wake = Timed_out | Woken timeval

text \<open>C's division truncates towards zero.\<close>

definition c_div :: "int \<Rightarrow> int \<Rightarrow> int" where
  "c_div a b = sgn a * sgn b * (\<bar>a\<bar> div \<bar>b\<bar>)"

definition cond_wait :: "timeval \<Rightarrow> wake \<Rightarrow> u32 \<Rightarrow> u32 option" where
  "cond_wait rtime1 w timeout =
     (if timeout > 0 then
        (case w of
           Timed_out \<Rightarrow> Some SYS_ARCH_TIMEOUT
         | Woken rtime2 \<Rightarrow> do {
             ds \<leftarrow> c_int (tv_sec rtime2 - tv_sec rtime1);
             ms \<leftarrow> c_int (ds * 1000);
             du \<leftarrow> c_int (tv_usec rtime2 - tv_usec rtime1);
             tdiff \<leftarrow> c_int (ms + c_div du 1000);
             Some (if tdiff \<le> 0 then 0 else word_of_int tdiff)
           })
      else Some SYS_ARCH_TIMEOUT)"

subsection \<open>The deadline is exact\<close>

lemma deadline_arith:
  assumes "(q :: nat) * 1000000 + r = u + b * 1000" and "p * 1000 + b = t"
  shows "(s + p + q) * 1000000000 + r * 1000 = (s * 1000000 + u) * 1000 + t * 1000000"
proof -
  have "(q * 1000000 + r) * 1000 = (u + b * 1000) * 1000" using assms(1) by simp
  then show ?thesis unfolding assms(2) [symmetric] by (simp add: algebra_simps)
qed

text \<open>
  For every current time and every timeout the deadline handed to \<open>pthread_cond_timedwait\<close> is
  exactly \<open>timeout\<close> milliseconds after the current time, with a nanosecond part below one second.
\<close>

theorem cond_deadline_exact:
  assumes "valid_tv now"
  shows "unat (ts_nsec (cond_deadline now timeout)) < 1000000000
    \<and> int (unat (ts_sec (cond_deadline now timeout))) * 1000000000
        + int (unat (ts_nsec (cond_deadline now timeout)))
      = micros now * 1000 + int (unat timeout) * 1000000"
proof -
  define s u t where "s = nat (tv_sec now)" and "u = nat (tv_usec now)" and "t = unat timeout"
  have now: "tv_sec now = int s" "tv_usec now = int u" and s: "s \<le> 2147483647" and u: "u < 1000000"
    using assms by (auto simp: s_def u_def valid_tv_def INT_MAX_def)
  have t: "t < 4294967296" by (simp add: t_def unat_less32)
  define us where "us = u + t mod 1000 * 1000"
  have usl: "us < 2000000" using u mod_less_divisor [of 1000 t] by (simp add: us_def)
  have m: "unat (timeout mod 1000 * 1000) = t mod 1000 * 1000"
    by (simp add: unat_word_ariths unat_mod_distrib t_def)
  have us: "unat (word_of_nat u + timeout mod 1000 * 1000) = us"
    unfolding us_def using usl u m by (subst unat_add_lem [THEN iffD1]) (simp_all add: word_nat us_def)
  have "t div 1000 \<le> 4294967" using t by simp
  moreover have "us div 1000000 \<le> 1" using usl by simp
  ultimately have sec: "unat (word_of_nat s + timeout div 1000
      + (word_of_nat u + timeout mod 1000 * 1000) div 1000000) = s + t div 1000 + us div 1000000"
    using s by (subst unat_add_lem [THEN iffD1]; (subst unat_add_lem [THEN iffD1])?)
      (simp_all add: unat_div us word_nat flip: t_def)
  have ns: "unat ((word_of_nat u + timeout mod 1000 * 1000) mod 1000000 * 1000) = us mod 1000000 * 1000"
    using mod_less_divisor [of 1000000 us] by (simp add: unat_word_ariths(2) unat_mod us)
  have "us div 1000000 * 1000000 + us mod 1000000 = us" and "t div 1000 * 1000 + t mod 1000 = t"
    by simp_all
  then have "(s + t div 1000 + us div 1000000) * 1000000000 + us mod 1000000 * 1000 =
      (s * 1000000 + u) * 1000 + t * 1000000"
    unfolding us_def by (rule deadline_arith)
  from arg_cong [OF this, of int]
  have "int (s + t div 1000 + us div 1000000) * 1000000000 + int (us mod 1000000 * 1000) =
      (int s * 1000000 + int u) * 1000 + int t * 1000000"
    by (simp only: of_nat_add of_nat_mult of_nat_numeral)
  moreover have "us mod 1000000 < 1000000" by simp
  ultimately show ?thesis
    by (simp only: cond_deadline_def Let_def micros_def now sec ns t_def [symmetric] timespec.simps
        of_int_of_nat_eq) linarith
qed

theorem cond_deadline_exact_witness:
  "int (unat (ts_sec (cond_deadline \<lparr>tv_sec = 10, tv_usec = 999999\<rparr> 1))) * 1000000000
    + int (unat (ts_nsec (cond_deadline \<lparr>tv_sec = 10, tv_usec = 999999\<rparr> 1))) = 11000999000"
  using cond_deadline_exact [of "\<lparr>tv_sec = 10, tv_usec = 999999\<rparr>" 1]
  by (simp add: valid_tv_def micros_def INT_MAX_def)

text \<open>A wake-up reports the milliseconds waited: within one millisecond of the time that passed, and
  never the value that stands for a timeout.\<close>

lemma c_div_near: "0 < b \<Longrightarrow> \<bar>b * c_div a b - a\<bar> < b"
proof -
  assume b: "0 < b"
  have "b * (\<bar>a\<bar> div b) = \<bar>a\<bar> - \<bar>a\<bar> mod b" by (simp add: minus_mod_eq_mult_div)
  moreover have "0 \<le> \<bar>a\<bar> mod b" "\<bar>a\<bar> mod b < b" using b by simp_all
  ultimately show ?thesis using b
    by (cases a "0 :: int" rule: linorder_cases) (simp_all add: c_div_def sgn_if)
qed

text \<open>
  When the thread is woken before the deadline, \<open>cond_wait\<close> returns the milliseconds it waited:
  less than one off the time that passed, 0 for less than a millisecond or a clock set back, and
  never \<open>SYS_ARCH_TIMEOUT\<close>, which is returned exactly when the deadline passed.
\<close>

theorem cond_wait_reports_time:
  assumes "valid_tv t1" and "valid_tv t2" and "\<bar>tv_sec t2 - tv_sec t1\<bar> < 2147483" and "0 < timeout"
  shows "\<exists>ms. cond_wait t1 (Woken t2) timeout = Some ms \<and> ms \<noteq> SYS_ARCH_TIMEOUT
    \<and> (micros t2 \<le> micros t1 \<longrightarrow> ms = 0)
    \<and> (micros t1 \<le> micros t2 \<longrightarrow> \<bar>int (unat ms) * 1000 - (micros t2 - micros t1)\<bar> < 1000)
    \<and> cond_wait t1 Timed_out timeout = Some SYS_ARCH_TIMEOUT"
proof -
  define ds du where "ds = tv_sec t2 - tv_sec t1" and "du = tv_usec t2 - tv_usec t1"
  define d where "d = ds * 1000 + c_div du 1000"
  have el: "micros t2 - micros t1 = ds * 1000000 + du"
    by (simp add: micros_def ds_def du_def algebra_simps)
  have du: "\<bar>du\<bar> < 1000000" using assms(1,2) unfolding du_def valid_tv_def by linarith
  have ds: "\<bar>ds\<bar> < 2147483" using assms(3) by (simp add: ds_def)
  have n: "\<bar>1000 * c_div du 1000 - du\<bar> < 1000" using c_div_near [of 1000 du] by simp
  then have near: "\<bar>d * 1000 - (micros t2 - micros t1)\<bar> < 1000" by (simp add: d_def el algebra_simps)
  have b: "- 2147483648 \<le> d" "d \<le> 2147483647" using ds du n by (simp_all add: d_def)
  have c: "c_int ds = Some ds" "c_int (ds * 1000) = Some (ds * 1000)" "c_int du = Some du"
    "c_int d = Some d"
    using ds du b by (intro c_int_in_range; simp add: INT_MIN_def INT_MAX_def)+
  have v: "cond_wait t1 (Woken t2) timeout = Some (if d \<le> 0 then 0 else word_of_int d)"
    using assms(4) c by (simp add: cond_wait_def flip: ds_def du_def d_def)
  have u: "unat (word_of_int d :: u32) = nat d" if "0 < d" using b that by (simp add: word_nat)
  have "word_of_int d \<noteq> SYS_ARCH_TIMEOUT" if "0 < d"
  proof
    assume "word_of_int d = SYS_ARCH_TIMEOUT"
    then have "nat d = 4294967295" using u [OF that] by (simp add: SYS_ARCH_TIMEOUT_def)
    then show False using b by simp
  qed
  moreover have "int (unat (word_of_int d :: u32)) = d" if "0 < d" using u [OF that] that by simp
  moreover have "cond_wait t1 Timed_out timeout = Some SYS_ARCH_TIMEOUT"
    using assms(4) by (simp add: cond_wait_def)
  moreover have "micros t2 \<le> micros t1 \<Longrightarrow> d \<le> 0" using near by linarith
  moreover have "SYS_ARCH_TIMEOUT \<noteq> 0" by (simp add: SYS_ARCH_TIMEOUT_def)
  ultimately show ?thesis
    using near unfolding v by (intro exI [of _ "if d \<le> 0 then 0 else word_of_int d"]) auto
qed

theorem cond_wait_reports_time_witness:
  "\<exists>ms. cond_wait \<lparr>tv_sec = 5, tv_usec = 900000\<rparr> (Woken \<lparr>tv_sec = 6, tv_usec = 100000\<rparr>) 1000 = Some ms
    \<and> \<bar>int (unat ms) * 1000 - 200000\<bar> < 1000"
  using cond_wait_reports_time [of "\<lparr>tv_sec = 5, tv_usec = 900000\<rparr>" "\<lparr>tv_sec = 6, tv_usec = 100000\<rparr>" 1000]
  by (auto simp: valid_tv_def micros_def INT_MAX_def)

subsection \<open>The millisecond clock\<close>

text \<open>
  \<open>sys_now\<close> counts the milliseconds since \<open>sys_init\<close> only while the microsecond part of the clock
  is not below the one at \<open>sys_init\<close>; in the rest of each second the wrapped difference of the
  microsecond parts puts it 2^32 microseconds (more than 71 minutes) ahead.
\<close>

theorem sys_now_is_ahead:
  assumes "valid_tv start" and "valid_tv now" and "tv_sec start \<le> tv_sec now"
  shows "sys_now start now = Some (word_of_int
    ((micros now - micros start + (if tv_usec now < tv_usec start then 2 ^ 32 else 0)) div 1000))"
proof -
  define ds du where "ds = tv_sec now - tv_sec start" and "du = tv_usec now - tv_usec start"
  have r: "0 \<le> ds" "ds \<le> 2147483647" "\<bar>du\<bar> < 1000000"
    using assms unfolding ds_def du_def valid_tv_def INT_MAX_def by linarith+
  have el: "micros now - micros start = ds * 1000000 + du"
    by (simp add: micros_def ds_def du_def algebra_simps)
  have neg: "tv_usec now < tv_usec start \<longleftrightarrow> du < 0" by (simp add: du_def)
  have c: "c_int ds = Some ds" "c_int du = Some du"
    using r by (intro c_int_in_range; simp add: INT_MIN_def INT_MAX_def)+
  define e where "e = du + (if du < 0 then 2 ^ 32 else 0)"
  have e: "0 \<le> e" "e < 4294967296" "(word_of_int e :: u32) = word_of_int du"
    using r by (auto simp: e_def word_of_int_eq_iff take_bit_eq_mod)
  have "word_of_int e div 1000 = (word_of_int (e div 1000) :: u32)"
    using e(1,2) by (intro word_unat_eq_iff [THEN iffD2]) (simp add: unat_div word_nat nat_div_distrib)
  moreover have "(ds * 1000000 + e) div 1000 = ds * 1000 + e div 1000" by simp
  ultimately have "word_of_int ds * 1000 + word_of_int du div 1000 =
      (word_of_int ((ds * 1000000 + e) div 1000) :: u32)"
    using e(3) by simp
  then show ?thesis
    using c by (simp add: sys_now_def el e_def add.assoc neg flip: ds_def du_def)
qed

theorem sys_now_is_ahead_witness:
  "sys_now \<lparr>tv_sec = 10, tv_usec = 900000\<rparr> \<lparr>tv_sec = 11, tv_usec = 0\<rparr> = Some 4295067
   \<and> sys_now \<lparr>tv_sec = 10, tv_usec = 900000\<rparr> \<lparr>tv_sec = 11, tv_usec = 900000\<rparr> = Some 1000"
  using sys_now_is_ahead [of "\<lparr>tv_sec = 10, tv_usec = 900000\<rparr>" "\<lparr>tv_sec = 11, tv_usec = 0\<rparr>"]
    sys_now_is_ahead [of "\<lparr>tv_sec = 10, tv_usec = 900000\<rparr>" "\<lparr>tv_sec = 11, tv_usec = 900000\<rparr>"]
  by (simp add: valid_tv_def micros_def INT_MAX_def)

text \<open>The tick counter counts the started hundredths of a second of the current second on top of 100
  per elapsed second, and stays at its maximum from 21474836 seconds on.\<close>

lemma sys_jiffies_ticks:
  assumes "valid_tv start" and "valid_tv now" and "tv_sec start \<le> tv_sec now"
  shows "sys_jiffies start now = Some
    (if 21474836 \<le> tv_sec now - tv_sec start then MAX_JIFFY_OFFSET
     else word_of_int (100 * (tv_sec now - tv_sec start) + (tv_usec now + 9999) div 10000))"
proof -
  define ds where "ds = tv_sec now - tv_sec start"
  have r: "0 \<le> ds" "ds \<le> 2147483647"
    using assms by (simp_all add: ds_def valid_tv_def INT_MAX_def)
  have m: "MAX_JIFFY_OFFSET = 2147483646" by (simp add: MAX_JIFFY_OFFSET_def mask_eq_exp_minus_1)
  have "MAX_JIFFY_OFFSET div HZ = 21474836" by (simp add: m HZ_def)
  then have "word_of_int ds \<ge> MAX_JIFFY_OFFSET div HZ \<longleftrightarrow> 21474836 \<le> ds"
    using r by (simp add: word_le_nat_alt word_nat) arith
  then show ?thesis
    using assms r by (simp add: sys_jiffies_def c_int_def INT_MIN_def INT_MAX_def HZ_def valid_tv_def
        flip: ds_def)
qed

end
