(* ===== verification/Bounded_Queue.thy ===== *)
theory Bounded_Queue imports Prelude begin

section \<open>The contract of a bounded queue\<close>

text \<open>
  The interface between a mailbox and its users: posting appends unless the queue is full, taking
  removes the oldest message. Facts about every sequence of operations are proved once here and
  rest on the laws only.
\<close>

text \<open>What a bounded queue promises its users: \<open>life\<close> says how often messages can still be taken.\<close>

locale bounded_queue =
  fixes cap :: nat
    and invar :: "'s \<Rightarrow> bool"
    and contents :: "'s \<Rightarrow> 'm list"
    and life :: "'s \<Rightarrow> nat"
    and enq :: "'m \<Rightarrow> 's \<Rightarrow> (bool \<times> 's) option"
    and deq :: "'s \<Rightarrow> ('m option \<times> 's) option"
  assumes enq_law: "invar s \<Longrightarrow> \<exists>s'. enq m s = Some (length (contents s) < cap, s') \<and> invar s'
      \<and> contents s' = contents s @ (if length (contents s) < cap then [m] else []) \<and> life s' = life s"
    and deq_empty: "invar s \<Longrightarrow> contents s = [] \<Longrightarrow>
      \<exists>s'. deq s = Some (None, s') \<and> invar s' \<and> contents s' = [] \<and> life s' = life s"
    and deq_law: "invar s \<Longrightarrow> contents s = m # ms \<Longrightarrow> 0 < life s \<Longrightarrow>
      \<exists>s'. deq s = Some (Some m, s') \<and> invar s' \<and> contents s' = ms \<and> life s' = life s - 1"
    and capacity: "invar s \<Longrightarrow> length (contents s) \<le> cap"

datatype 'm queue_op = Enq 'm | Deq

text \<open>A run of operations, with the messages accepted and the messages taken, in their orders.\<close>

fun queue_run :: "('m \<Rightarrow> 's \<Rightarrow> (bool \<times> 's) option) \<Rightarrow> ('s \<Rightarrow> ('m option \<times> 's) option)
    \<Rightarrow> 'm queue_op list \<Rightarrow> 's \<Rightarrow> ('m list \<times> 'm list \<times> 's) option" where
  "queue_run enq deq [] s = Some ([], [], s)"
| "queue_run enq deq (Enq m # ops) s = do {
     (ok, s) \<leftarrow> enq m s;
     (ins, outs, s) \<leftarrow> queue_run enq deq ops s;
     Some ((if ok then [m] else []) @ ins, outs, s)
   }"
| "queue_run enq deq (Deq # ops) s = do {
     (r, s) \<leftarrow> deq s;
     (ins, outs, s) \<leftarrow> queue_run enq deq ops s;
     Some (ins, (case r of None \<Rightarrow> [] | Some m \<Rightarrow> [m]) @ outs, s)
   }"

context bounded_queue begin

lemma run_fifo:
  "invar s \<Longrightarrow> length ops \<le> life s \<Longrightarrow>
    \<exists>ins outs s'. queue_run enq deq ops s = Some (ins, outs, s') \<and> invar s'
      \<and> contents s @ ins = outs @ contents s'"
proof (induction ops arbitrary: s)
  case Nil
  then show ?case by simp
next
  case (Cons x ops)
  show ?case
  proof (cases x)
    case (Enq m)
    obtain s1 where s1: "enq m s = Some (length (contents s) < cap, s1)" "invar s1" "life s1 = life s"
      "contents s1 = contents s @ (if length (contents s) < cap then [m] else [])"
      using enq_law [OF Cons.prems(1)] by blast
    then show ?thesis
      using Cons.IH [of s1] Cons.prems by (fastforce simp: Enq)
  next
    case Deq
    show ?thesis
    proof (cases "contents s")
      case Nil
      then show ?thesis
        using deq_empty [OF Cons.prems(1)] Cons.IH Cons.prems by (fastforce simp: Deq)
    next
      case (Cons m ms)
      then obtain s1 where "deq s = Some (Some m, s1)" "invar s1" "contents s1 = ms" "life s1 = life s - 1"
        using deq_law Cons.prems by (metis Suc_le_lessD length_Cons less_le_trans zero_less_Suc)
      then show ?thesis
        using Cons.IH [of s1] Cons.prems Cons by (fastforce simp: Deq)
    qed
  qed
qed

end

end
