(* ===== verification/Sys_Mbox.thy ===== *)
theory Sys_Mbox imports Lwip_Err Sys_Time Bounded_Queue begin

section \<open>Semaphores and mailboxes (\<open>git/ankh/lib/lwip/lib/arch/sys_arch.c\<close>)\<close>

text \<open>
  This theory holds the data of semaphores and mailboxes, their sequential operations, and the
  refinement of a mailbox to a bounded queue; theory \<open>Mbox_Conc\<close> interleaves the same operations.
  A semaphore is its counter \<open>c\<close>: the counter is only touched under the semaphore's own mutex, so
  \<open>sys_sem_signal\<close> and a successful \<open>sys_arch_sem_wait\<close> are single updates of it. \<open>malloc\<close> and
  the events that end a wait are arguments.
\<close>

subsection \<open>Error codes\<close>

definition SYS_MBOX_EMPTY :: u32 where "SYS_MBOX_EMPTY = SYS_ARCH_TIMEOUT"

subsection \<open>Semaphores\<close>

record sys_sem = c :: u32

definition sys_sem_new_internal :: "bool \<Rightarrow> u8 \<Rightarrow> sys_sem option" where
  "sys_sem_new_internal malloc_ok count = (if malloc_ok then Some \<lparr>c = ucast count\<rparr> else None)"

definition sys_sem_new :: "bool \<Rightarrow> u8 \<Rightarrow> err_t \<times> sys_sem option" where
  "sys_sem_new malloc_ok count =
     (let sem = sys_sem_new_internal malloc_ok count
      in (if sem = None then ERR_MEM else ERR_OK, sem))"

definition sys_sem_signal :: "sys_sem \<Rightarrow> sys_sem" where
  "sys_sem_signal sem = (let n = c sem + 1 in sem\<lparr>c := (if n > 1 then 1 else n)\<rparr>)"

text \<open>What a waiting thread sees when it wakes: the result of \<open>cond_wait\<close> and the counter it finds
  once it has the semaphore's mutex again. The list is the history of one call; \<open>None\<close> is a call that
  is still waiting at its end. The counter is returned as the call leaves it.\<close>

fun sem_wait_loop :: "u32 \<Rightarrow> u32 \<Rightarrow> sys_sem \<Rightarrow> (u32 \<times> u32) list \<Rightarrow> (u32 \<times> sys_sem) option" where
  "sem_wait_loop timeout time_needed sem evs =
     (if c sem > 0 then Some (time_needed, sem\<lparr>c := c sem - 1\<rparr>)
      else (case evs of
              [] \<Rightarrow> None
            | (t, n) # evs \<Rightarrow>
                (if timeout > 0 then
                   (if t = SYS_ARCH_TIMEOUT then Some (SYS_ARCH_TIMEOUT, sem\<lparr>c := n\<rparr>)
                    else sem_wait_loop timeout t (sem\<lparr>c := n\<rparr>) evs)
                 else sem_wait_loop timeout time_needed (sem\<lparr>c := n\<rparr>) evs)))"

declare sem_wait_loop.simps [simp del]

definition sys_arch_sem_wait :: "u32 \<Rightarrow> sys_sem \<Rightarrow> (u32 \<times> u32) list \<Rightarrow> (u32 \<times> sys_sem) option" where
  "sys_arch_sem_wait timeout sem evs = sem_wait_loop timeout 0 sem evs"

subsection \<open>The data of a mailbox\<close>

definition SYS_MBOX_SIZE :: int where "SYS_MBOX_SIZE = 128"

text \<open>A slot of the freshly allocated array has no defined content, hence the \<open>option\<close>; the pointer to
  a semaphore is \<open>None\<close> when it is null.\<close>

record 'm sys_mbox =
  first :: int
  last :: int
  msgs :: "'m option list"
  not_empty :: "sys_sem option"
  not_full :: "sys_sem option"
  mutex :: "sys_sem option"
  wait_send :: int

text \<open>The arguments say which of the four allocations succeed; only the first is checked.\<close>

definition sys_mbox_new :: "bool \<Rightarrow> bool \<Rightarrow> bool \<Rightarrow> bool \<Rightarrow> err_t \<times> 'm sys_mbox option" where
  "sys_mbox_new ok ok1 ok2 ok3 =
     (if \<not> ok then (ERR_MEM, None)
      else (ERR_OK, Some \<lparr>first = 0, last = 0, msgs = replicate (nat SYS_MBOX_SIZE) None,
        not_empty = sys_sem_new_internal ok1 0, not_full = sys_sem_new_internal ok2 0,
        mutex = sys_sem_new_internal ok3 1, wait_send = 0\<rparr>))"

text \<open>A signal through a pointer, and a wait that finds the counter positive; a null pointer fails
  the assertion of both functions.\<close>

definition sem_up :: "sys_sem option \<Rightarrow> sys_sem option option" where
  "sem_up p = do { s \<leftarrow> p; Some (Some (sys_sem_signal s)) }"

definition sem_down :: "sys_sem option \<Rightarrow> sys_sem option option" where
  "sem_down p = do { s \<leftarrow> p; (_, s) \<leftarrow> sys_arch_sem_wait 0 s []; Some (Some s) }"

text \<open>The test for a full mailbox; both sums are computed in \<open>int\<close>.\<close>

definition mbox_full :: "'m sys_mbox \<Rightarrow> bool option" where
  "mbox_full mbox = do {
     l \<leftarrow> c_int (last mbox + 1);
     f \<leftarrow> c_int (first mbox + SYS_MBOX_SIZE);
     Some (l \<ge> f)
   }"

text \<open>Storing a message: the flag says that the mailbox was empty.\<close>

definition mbox_store :: "'m \<Rightarrow> 'm sys_mbox \<Rightarrow> (bool \<times> 'm sys_mbox) option" where
  "mbox_store msg mbox = do {
     let i = nat (last mbox mod SYS_MBOX_SIZE);
     l \<leftarrow> c_int (last mbox + 1);
     Some (last mbox = first mbox, mbox\<lparr>msgs := (msgs mbox)[i := Some msg], last := l\<rparr>)
   }"

text \<open>Taking the oldest message.\<close>

definition mbox_take :: "'m sys_mbox \<Rightarrow> ('m \<times> 'm sys_mbox) option" where
  "mbox_take mbox = do {
     m \<leftarrow> msgs mbox ! nat (first mbox mod SYS_MBOX_SIZE);
     f \<leftarrow> c_int (first mbox + 1);
     Some (m, mbox\<lparr>first := f\<rparr>)
   }"

subsection \<open>Operations that do not block\<close>

text \<open>The two \<open>try\<close> operations, called while no other thread uses the mailbox: \<open>None\<close> also stands
  for waiting at the mutex, which then cannot happen.\<close>

definition lock :: "'m sys_mbox \<Rightarrow> 'm sys_mbox option" where
  "lock mbox = do { s \<leftarrow> sem_down (mutex mbox); Some (mbox\<lparr>mutex := s\<rparr>) }"

definition unlock :: "'m sys_mbox \<Rightarrow> 'm sys_mbox option" where
  "unlock mbox = do { s \<leftarrow> sem_up (mutex mbox); Some (mbox\<lparr>mutex := s\<rparr>) }"

definition signal_not_empty :: "'m sys_mbox \<Rightarrow> 'm sys_mbox option" where
  "signal_not_empty mbox = do { s \<leftarrow> sem_up (not_empty mbox); Some (mbox\<lparr>not_empty := s\<rparr>) }"

definition signal_not_full :: "'m sys_mbox \<Rightarrow> 'm sys_mbox option" where
  "signal_not_full mbox = do { s \<leftarrow> sem_up (not_full mbox); Some (mbox\<lparr>not_full := s\<rparr>) }"

definition sys_mbox_trypost :: "'m \<Rightarrow> 'm sys_mbox \<Rightarrow> (err_t \<times> 'm sys_mbox) option" where
  "sys_mbox_trypost msg mbox = do {
     mbox \<leftarrow> lock mbox;
     full \<leftarrow> mbox_full mbox;
     (if full then do { mbox \<leftarrow> unlock mbox; Some (ERR_MEM, mbox) }
      else do {
        (was_empty, mbox) \<leftarrow> mbox_store msg mbox;
        mbox \<leftarrow> (if was_empty then signal_not_empty mbox else Some mbox);
        mbox \<leftarrow> unlock mbox;
        Some (ERR_OK, mbox)
      })
   }"

definition sys_arch_mbox_tryfetch :: "'m sys_mbox \<Rightarrow> (u32 \<times> 'm option \<times> 'm sys_mbox) option" where
  "sys_arch_mbox_tryfetch mbox = do {
     mbox \<leftarrow> lock mbox;
     (if first mbox = last mbox then do { mbox \<leftarrow> unlock mbox; Some (SYS_MBOX_EMPTY, None, mbox) }
      else do {
        (m, mbox) \<leftarrow> mbox_take mbox;
        mbox \<leftarrow> (if wait_send mbox \<noteq> 0 then signal_not_full mbox else Some mbox);
        mbox \<leftarrow> unlock mbox;
        Some (0, Some m, mbox)
      })
   }"

subsection \<open>Semaphores: what a wait and a signal do\<close>

lemma sem_signal_c: "sys_sem_signal s = \<lparr>c = 1\<rparr>" if "c s \<in> {0, 1}"
  using that by (cases s) (auto simp: sys_sem_signal_def)

lemma sem_up_simps [simp]:
  "sem_up None = None" "sem_up (Some \<lparr>c = 0\<rparr>) = Some (Some \<lparr>c = 1\<rparr>)"
  "sem_up (Some \<lparr>c = 1\<rparr>) = Some (Some \<lparr>c = 1\<rparr>)"
  by (simp_all add: sem_up_def sem_signal_c)

lemma sem_down_simps [simp]:
  "sem_down None = None" "sem_down (Some \<lparr>c = 0\<rparr>) = None"
  "sem_down (Some \<lparr>c = 1\<rparr>) = Some (Some \<lparr>c = 0\<rparr>)"
  by (simp_all add: sem_down_def sys_arch_sem_wait_def sem_wait_loop.simps)

lemma sem_wait_pos: "c sem \<noteq> 0 \<Longrightarrow> sem_wait_loop timeout tn sem evs = Some (tn, sem\<lparr>c := c sem - 1\<rparr>)"
  by (simp add: sem_wait_loop.simps word_neq_0_conv)

lemma sem_wait_zero:
  "c sem = 0 \<Longrightarrow> sem_wait_loop timeout tn sem [] = None"
  "c sem = 0 \<Longrightarrow> sem_wait_loop timeout tn sem ((t, n) # evs) =
     (if timeout \<noteq> 0 \<and> t = SYS_ARCH_TIMEOUT then Some (SYS_ARCH_TIMEOUT, sem\<lparr>c := n\<rparr>)
      else sem_wait_loop timeout (if timeout = 0 then tn else t) (sem\<lparr>c := n\<rparr>) evs)"
  by (simp_all add: sem_wait_loop.simps [of _ _ sem] word_neq_0_conv)

lemma sem_wait_loop_outcome:
  "sem_wait_loop timeout tn sem evs = Some (r, sem') \<Longrightarrow>
    (\<exists>k \<le> length evs. (\<forall>j < k. (c sem # map snd evs) ! j = 0) \<and> 0 < (c sem # map snd evs) ! k
       \<and> c sem' = (c sem # map snd evs) ! k - 1
       \<and> r = (if k = 0 \<or> timeout = 0 then tn else fst (evs ! (k - 1)))
       \<and> (0 < k \<longrightarrow> 0 < timeout \<longrightarrow> r \<noteq> SYS_ARCH_TIMEOUT))
    \<or> (0 < timeout \<and> r = SYS_ARCH_TIMEOUT \<and> (SYS_ARCH_TIMEOUT, c sem') \<in> set evs)"
proof (induction evs arbitrary: tn sem)
  case Nil
  then show ?case by (cases "c sem = 0") (auto simp: sem_wait_pos sem_wait_zero word_neq_0_conv)
next
  case (Cons e es)
  obtain t n where e: "e = (t, n)" by fastforce
  show ?case
  proof (cases "c sem = 0")
    case False
    with Cons.prems show ?thesis
      by (intro disjI1 exI [of _ 0]) (auto simp: sem_wait_pos word_neq_0_conv)
  next
    case z: True
    show ?thesis
    proof (cases "timeout \<noteq> 0 \<and> t = SYS_ARCH_TIMEOUT")
      case True
      with Cons.prems z show ?thesis by (auto simp: e sem_wait_zero word_neq_0_conv)
    next
      case go: False
      define tn' where "tn' = (if timeout = 0 then tn else t)"
      have l: "sem_wait_loop timeout tn' (sem\<lparr>c := n\<rparr>) es = Some (r, sem')"
        using Cons.prems z go by (simp add: e sem_wait_zero tn'_def)
      have "(\<exists>k \<le> length es. (\<forall>j < k. (n # map snd es) ! j = 0) \<and> 0 < (n # map snd es) ! k
         \<and> c sem' = (n # map snd es) ! k - 1
         \<and> r = (if k = 0 \<or> timeout = 0 then tn' else fst (es ! (k - 1)))
         \<and> (0 < k \<longrightarrow> 0 < timeout \<longrightarrow> r \<noteq> SYS_ARCH_TIMEOUT))
        \<or> (0 < timeout \<and> r = SYS_ARCH_TIMEOUT \<and> (SYS_ARCH_TIMEOUT, c sem') \<in> set es)" (is "?L \<or> ?R")
        using Cons.IH [OF l] by simp
      then show ?thesis
      proof
        assume ?L
        then obtain k where k: "k \<le> length es" "\<forall>j < k. (n # map snd es) ! j = 0"
          "0 < (n # map snd es) ! k" "c sem' = (n # map snd es) ! k - 1"
          "r = (if k = 0 \<or> timeout = 0 then tn' else fst (es ! (k - 1)))"
          "0 < k \<longrightarrow> 0 < timeout \<longrightarrow> r \<noteq> SYS_ARCH_TIMEOUT" by blast
        have "\<forall>j < Suc k. (c sem # map snd (e # es)) ! j = 0"
          using k(2) z by (auto simp: less_Suc_eq_0_disj e)
        moreover have "r = (if timeout = 0 then tn else fst ((e # es) ! k))"
          using k(5) by (cases k) (auto simp: tn'_def e)
        moreover have "0 < timeout \<longrightarrow> r \<noteq> SYS_ARCH_TIMEOUT"
          using k(5,6) go by (cases k) (auto simp: tn'_def word_neq_0_conv)
        ultimately show ?thesis
          using k by (intro disjI1 exI [of _ "Suc k"]) (auto simp: e word_neq_0_conv)
      qed auto
    qed
  qed
qed

text \<open>
  A call of \<open>sys_arch_sem_wait\<close> that ends has taken a unit from the counter the first time it
  found it positive, or was told of a timeout and then returns \<open>SYS_ARCH_TIMEOUT\<close> and has taken
  nothing. The time it reports is that of the last of its waits only.
\<close>

theorem sem_wait_outcome:
  assumes "sys_arch_sem_wait timeout sem evs = Some (r, sem')"
  shows "(\<exists>k \<le> length evs. (\<forall>j < k. (c sem # map snd evs) ! j = 0) \<and> 0 < (c sem # map snd evs) ! k
       \<and> c sem' = (c sem # map snd evs) ! k - 1
       \<and> r = (if k = 0 \<or> timeout = 0 then 0 else fst (evs ! (k - 1)))
       \<and> (0 < timeout \<longrightarrow> r \<noteq> SYS_ARCH_TIMEOUT))
    \<or> (0 < timeout \<and> r = SYS_ARCH_TIMEOUT \<and> (SYS_ARCH_TIMEOUT, c sem') \<in> set evs)"
proof -
  have nz: "(0 :: u32) \<noteq> SYS_ARCH_TIMEOUT" by (simp add: SYS_ARCH_TIMEOUT_def)
  from sem_wait_loop_outcome [OF assms [unfolded sys_arch_sem_wait_def]] show ?thesis (is "(\<exists>k. ?P k) \<or> ?Q")
  proof (elim disjE exE conjE)
    fix k
    assume k: "k \<le> length evs" "\<forall>j < k. (c sem # map snd evs) ! j = 0"
      "0 < (c sem # map snd evs) ! k" "c sem' = (c sem # map snd evs) ! k - 1"
      and r: "r = (if k = 0 \<or> timeout = 0 then 0 else fst (evs ! (k - 1)))"
        "0 < k \<longrightarrow> 0 < timeout \<longrightarrow> r \<noteq> SYS_ARCH_TIMEOUT"
    have "0 < timeout \<longrightarrow> r \<noteq> SYS_ARCH_TIMEOUT" using r nz by (cases "k = 0") simp_all
    with k r(1) have "?P k" by (intro conjI)
    then show ?thesis by blast
  qed (intro disjI2 conjI)
qed

theorem sem_wait_outcome_witness:
  "sys_arch_sem_wait 500 \<lparr>c = 0\<rparr> [(300, 0), (150, 1)] = Some (150, \<lparr>c = 0\<rparr>)
   \<and> (\<exists>k \<le> length [(300 :: u32, 0 :: u32), (150, 1)].
        0 < (c \<lparr>c = 0\<rparr> # map snd [(300 :: u32, 0), (150, 1)]) ! k)"
proof -
  have e: "sys_arch_sem_wait 500 \<lparr>c = 0\<rparr> [(300, 0), (150, 1)] = Some (150, \<lparr>c = 0\<rparr>)"
    by (simp add: sys_arch_sem_wait_def sem_wait_zero sem_wait_pos SYS_ARCH_TIMEOUT_def)
  from sem_wait_outcome [OF e] show ?thesis
  proof (elim disjE exE conjE)
    fix k assume "k \<le> length [(300 :: u32, 0 :: u32), (150, 1)]"
      and "0 < (c \<lparr>c = 0\<rparr> # map snd [(300 :: u32, 0), (150, 1)]) ! k"
    then show ?thesis using e by (intro conjI exI)
  qed (simp add: SYS_ARCH_TIMEOUT_def)
qed

subsection \<open>The mailbox refines a bounded queue\<close>

definition box_ok :: "'m sys_mbox \<Rightarrow> bool" where
  "box_ok b \<longleftrightarrow> length (msgs b) = 128 \<and> 0 \<le> first b \<and> first b \<le> last b \<and> last b \<le> first b + 127
     \<and> (\<forall>i. first b \<le> i \<and> i < last b \<longrightarrow> msgs b ! nat (i mod 128) \<noteq> None)"

definition mbox_abs :: "'m sys_mbox \<Rightarrow> 'm list" where
  "mbox_abs b = map (\<lambda>i. the (msgs b ! nat (i mod 128))) [first b..last b - 1]"

text \<open>The sums of the fullness test stay within \<open>int\<close> until this many messages were taken.\<close>

definition mbox_life :: "'m sys_mbox \<Rightarrow> nat" where
  "mbox_life b = nat (INT_MAX - 128 - first b)"

definition in_range :: "'m sys_mbox \<Rightarrow> bool" where
  "in_range b \<longleftrightarrow> first b + 128 \<le> INT_MAX"

lemma length_mbox_abs: "box_ok b \<Longrightarrow> int (length (mbox_abs b)) = last b - first b"
  by (simp add: mbox_abs_def box_ok_def)

lemma mbox_full_iff:
  "box_ok b \<Longrightarrow> in_range b \<Longrightarrow> mbox_full b = Some (length (mbox_abs b) = 127)"
  using length_mbox_abs [of b]
  by (auto simp: mbox_full_def c_int_def INT_MIN_def in_range_def box_ok_def SYS_MBOX_SIZE_def)

lemma slot_other:
  "first b \<le> i \<Longrightarrow> i < last b \<Longrightarrow> last b < first b + 128 \<Longrightarrow> i mod 128 \<noteq> last b mod (128 :: int)"
proof
  assume a: "first b \<le> i" "i < last b" "last b < first b + 128" and e: "i mod 128 = last b mod 128"
  from e have "128 dvd last b - i" by (metis mod_eq_dvd_iff dvd_diff_commute)
  then show False using a by (auto dest: zdvd_imp_le)
qed

lemma mbox_store_ok:
  assumes "box_ok b" and "in_range b" and "length (mbox_abs b) < 127"
  shows "\<exists>b'. mbox_store m b = Some (mbox_abs b = [], b') \<and> box_ok b' \<and> in_range b'
    \<and> mbox_abs b' = mbox_abs b @ [m] \<and> first b' = first b \<and> not_empty b' = not_empty b
    \<and> not_full b' = not_full b \<and> mutex b' = mutex b \<and> wait_send b' = wait_send b"
proof -
  let ?b = "b\<lparr>msgs := (msgs b)[nat (last b mod 128) := Some m], last := last b + 1\<rparr>"
  have l: "last b < first b + 127" using length_mbox_abs [OF assms(1)] assms(3) by linarith
  have same: "msgs ?b ! nat (i mod 128) = msgs b ! nat (i mod 128)" if "first b \<le> i" "i < last b" for i
    using slot_other [OF that] l by (simp add: nat_eq_iff)
  have new: "msgs ?b ! nat (last b mod 128) = Some m"
    using assms(1) by (simp add: box_ok_def nat_less_iff)
  have "msgs ?b ! nat (i mod 128) \<noteq> None" if "first b \<le> i" "i < last b + 1" for i
    using that same [of i] new assms(1) by (cases "i = last b") (auto simp: box_ok_def)
  then have "box_ok ?b"
    using assms(1) l by (auto simp: box_ok_def)
  moreover have "mbox_abs ?b = mbox_abs b @ [m]"
  proof -
    have "[first b..last b] = [first b..last b - 1] @ [last b]"
      using assms(1) upto_rec2 [of "first b" "last b"] by (simp add: box_ok_def)
    then show ?thesis using same new by (simp add: mbox_abs_def)
  qed
  moreover have "mbox_abs b = [] \<longleftrightarrow> last b = first b"
    using length_mbox_abs [OF assms(1)] by auto
  moreover have "c_int (last b + 1) = Some (last b + 1)"
    using assms(1,2) l by (intro c_int_in_range) (auto simp: box_ok_def in_range_def INT_MIN_def)
  ultimately show ?thesis
    using assms(2) by (intro exI [of _ ?b]) (simp add: mbox_store_def SYS_MBOX_SIZE_def in_range_def)
qed

lemma mbox_take_ok:
  assumes "box_ok b" and "first b < INT_MAX" and "mbox_abs b = m # ms"
  shows "\<exists>b'. mbox_take b = Some (m, b') \<and> box_ok b' \<and> mbox_abs b' = ms \<and> first b' = first b + 1
    \<and> not_empty b' = not_empty b \<and> not_full b' = not_full b \<and> mutex b' = mutex b
    \<and> wait_send b' = wait_send b"
proof -
  let ?b = "b\<lparr>first := first b + 1\<rparr>"
  have lt: "first b < last b" using length_mbox_abs [OF assms(1)] assms(3) by simp
  then have u: "[first b..last b - 1] = first b # [first b + 1..last b - 1]"
    by (simp add: upto_rec1)
  have "msgs b ! nat (first b mod 128) = Some m"
    using assms(1,3) lt u by (auto simp: mbox_abs_def box_ok_def)
  moreover have "mbox_abs ?b = ms" using assms(3) u by (simp add: mbox_abs_def)
  moreover have "box_ok ?b" using assms(1) lt by (auto simp: box_ok_def)
  moreover have "c_int (first b + 1) = Some (first b + 1)"
    using assms(1,2) by (intro c_int_in_range) (auto simp: box_ok_def INT_MIN_def)
  ultimately show ?thesis
    by (intro exI [of _ ?b]) (simp add: mbox_take_def SYS_MBOX_SIZE_def)
qed

text \<open>A mailbox at rest: its mutex is free, nobody waits.\<close>

definition sem_ok :: "sys_sem option \<Rightarrow> bool" where
  "sem_ok p \<longleftrightarrow> p = Some \<lparr>c = 0\<rparr> \<or> p = Some \<lparr>c = 1\<rparr>"

definition box_idle :: "'m sys_mbox \<Rightarrow> bool" where
  "box_idle b \<longleftrightarrow> box_ok b \<and> in_range b \<and> mutex b = Some \<lparr>c = 1\<rparr> \<and> sem_ok (not_empty b) \<and> sem_ok (not_full b)
     \<and> wait_send b = 0"

lemma sem_up_ok: "sem_ok p \<Longrightarrow> sem_up p = Some (Some \<lparr>c = 1\<rparr>)"
  by (auto simp: sem_ok_def)

lemma box_ok_sems [simp]:
  "box_ok (b\<lparr>mutex := x\<rparr>) = box_ok b" "box_ok (b\<lparr>not_empty := x\<rparr>) = box_ok b"
  "box_ok (b\<lparr>not_full := x\<rparr>) = box_ok b" "box_ok (b\<lparr>wait_send := n\<rparr>) = box_ok b"
  "mbox_abs (b\<lparr>mutex := x\<rparr>) = mbox_abs b" "mbox_abs (b\<lparr>not_empty := x\<rparr>) = mbox_abs b"
  "mbox_abs (b\<lparr>not_full := x\<rparr>) = mbox_abs b" "mbox_abs (b\<lparr>wait_send := n\<rparr>) = mbox_abs b"
  "in_range (b\<lparr>mutex := x\<rparr>) = in_range b" "in_range (b\<lparr>not_empty := x\<rparr>) = in_range b"
  "in_range (b\<lparr>not_full := x\<rparr>) = in_range b" "in_range (b\<lparr>wait_send := n\<rparr>) = in_range b"
  "mbox_full (b\<lparr>mutex := x\<rparr>) = mbox_full b"
  by (simp_all add: box_ok_def mbox_abs_def in_range_def mbox_full_def)

definition mbox_enq :: "'m \<Rightarrow> 'm sys_mbox \<Rightarrow> (bool \<times> 'm sys_mbox) option" where
  "mbox_enq m b = map_option (\<lambda>(e, b). (e = ERR_OK, b)) (sys_mbox_trypost m b)"

definition mbox_deq :: "'m sys_mbox \<Rightarrow> ('m option \<times> 'm sys_mbox) option" where
  "mbox_deq b = map_option (\<lambda>(_, m, b). (m, b)) (sys_arch_mbox_tryfetch b)"

lemma lock_idle: "box_idle b \<Longrightarrow> lock b = Some (b\<lparr>mutex := Some \<lparr>c = 0\<rparr>\<rparr>)"
  by (simp add: lock_def box_idle_def)

lemma trypost_full:
  assumes "box_idle b" and "length (mbox_abs b) = 127"
  shows "sys_mbox_trypost m b = Some (ERR_MEM, b)"
  using assms by (simp add: sys_mbox_trypost_def lock_idle box_idle_def mbox_full_iff unlock_def)

lemma trypost_room:
  assumes i: "box_idle b" and r: "length (mbox_abs b) < 127"
  shows "\<exists>b'. sys_mbox_trypost m b = Some (ERR_OK, b') \<and> box_idle b' \<and> mbox_abs b' = mbox_abs b @ [m]
    \<and> first b' = first b"
proof -
  let ?b = "b\<lparr>mutex := Some \<lparr>c = 0\<rparr>\<rparr>"
  have ok: "box_ok ?b" "in_range ?b" "length (mbox_abs ?b) < 127" using i r by (simp_all add: box_idle_def)
  from mbox_store_ok [OF this, of m] obtain b' where b':
    "mbox_store m ?b = Some (mbox_abs b = [], b')" "box_ok b'" "in_range b'" "mbox_abs b' = mbox_abs b @ [m]"
    "first b' = first b" "not_empty b' = not_empty b" "not_full b' = not_full b"
    "mutex b' = Some \<lparr>c = 0\<rparr>" "wait_send b' = wait_send b" by auto
  have s: "sem_ok (not_empty b)" "sem_ok (not_full b)" "wait_send b = 0" using i by (simp_all add: box_idle_def)
  have "mbox_full ?b = Some False" using ok mbox_full_iff [OF ok(1,2)] by simp
  then show ?thesis
    using b' s sem_up_ok [OF s(1)] lock_idle [OF i]
    by (auto simp: sys_mbox_trypost_def signal_not_empty_def unlock_def box_idle_def sem_ok_def)
qed

lemma tryfetch_empty:
  assumes "box_idle b" and "mbox_abs b = []"
  shows "sys_arch_mbox_tryfetch b = Some (SYS_MBOX_EMPTY, None, b)"
proof -
  have "first b = last b" using assms length_mbox_abs [of b] by (simp add: box_idle_def)
  with assms show ?thesis
    by (simp add: sys_arch_mbox_tryfetch_def lock_idle unlock_def box_idle_def)
qed

lemma tryfetch_some:
  assumes i: "box_idle b" and m: "mbox_abs b = m # ms" and l: "0 < mbox_life b"
  shows "\<exists>b'. sys_arch_mbox_tryfetch b = Some (0, Some m, b') \<and> box_idle b' \<and> mbox_abs b' = ms
    \<and> first b' = first b + 1"
proof -
  let ?b = "b\<lparr>mutex := Some \<lparr>c = 0\<rparr>\<rparr>"
  have f: "first b + 128 < INT_MAX" using l by (simp add: mbox_life_def)
  have ok: "box_ok ?b" "first ?b < INT_MAX" "mbox_abs ?b = m # ms" using i m f by (simp_all add: box_idle_def)
  from mbox_take_ok [OF this] obtain b' where b':
    "mbox_take ?b = Some (m, b')" "box_ok b'" "mbox_abs b' = ms" "first b' = first b + 1"
    "not_empty b' = not_empty b" "not_full b' = not_full b" "mutex b' = Some \<lparr>c = 0\<rparr>"
    "wait_send b' = wait_send b" by auto
  have "first b \<noteq> last b" using length_mbox_abs [of b] i m by (auto simp: box_idle_def)
  moreover have "wait_send b = 0" using i by (simp add: box_idle_def)
  ultimately show ?thesis
    using b' f i lock_idle [OF i]
    by (auto simp: sys_arch_mbox_tryfetch_def unlock_def box_idle_def in_range_def)
qed

interpretation mbox_queue: bounded_queue 127 box_idle mbox_abs mbox_life mbox_enq mbox_deq
proof unfold_locales
  fix m :: 'a and b :: "'a sys_mbox" assume i: "box_idle b"
  have le: "length (mbox_abs b) \<le> 127"
    using i length_mbox_abs [of b] by (simp add: box_idle_def box_ok_def)
  then show "length (mbox_abs b) \<le> 127" .
  show "\<exists>s'. mbox_enq m b = Some (length (mbox_abs b) < 127, s') \<and> box_idle s'
      \<and> mbox_abs s' = mbox_abs b @ (if length (mbox_abs b) < 127 then [m] else [])
      \<and> mbox_life s' = mbox_life b"
    using trypost_full [OF i, of m] trypost_room [OF i, of m] le i
    by (cases "length (mbox_abs b) < 127") (auto simp: mbox_enq_def mbox_life_def)
next
  fix b :: "'a sys_mbox" assume "box_idle b" "mbox_abs b = []"
  then show "\<exists>s'. mbox_deq b = Some (None, s') \<and> box_idle s' \<and> mbox_abs s' = [] \<and> mbox_life s' = mbox_life b"
    by (simp add: mbox_deq_def tryfetch_empty)
next
  fix m :: 'a and ms and b :: "'a sys_mbox" assume "box_idle b" "mbox_abs b = m # ms" "0 < mbox_life b"
  from tryfetch_some [OF this]
  show "\<exists>s'. mbox_deq b = Some (Some m, s') \<and> box_idle s' \<and> mbox_abs s' = ms \<and> mbox_life s' = mbox_life b - 1"
    by (auto simp: mbox_deq_def mbox_life_def)
qed

lemma new_idle:
  "sys_mbox_new True True True True = (ERR_OK, Some b) \<Longrightarrow> box_idle b \<and> mbox_abs b = [] \<and> mbox_life b = 2147483519"
  by (auto simp: sys_mbox_new_def box_idle_def box_ok_def in_range_def INT_MAX_def SYS_MBOX_SIZE_def
      sys_sem_new_internal_def sem_ok_def mbox_abs_def mbox_life_def)

text \<open>
  C23: over any sequence of at most 2147483519 \<open>sys_mbox_trypost\<close> and \<open>sys_arch_mbox_tryfetch\<close> calls on
  a fresh mailbox, none of them waits, fails an assertion or leaves the range of \<open>int\<close>; the messages
  taken, followed by those still inside, are the accepted ones in their order.
\<close>

theorem mbox_is_fifo:
  assumes "sys_mbox_new True True True True = (ERR_OK, Some b)" and "length ops \<le> 2147483519"
  shows "\<exists>ins outs b'. queue_run mbox_enq mbox_deq ops b = Some (ins, outs, b')
    \<and> ins = outs @ mbox_abs b' \<and> length (mbox_abs b') \<le> 127"
  using mbox_queue.run_fifo [of b ops] mbox_queue.capacity new_idle [OF assms(1)] assms(2) by fastforce

theorem mbox_is_fifo_witness:
  "\<exists>b ins outs b'. queue_run mbox_enq mbox_deq [Enq (7 :: nat), Enq 8, Deq] b = Some (ins, outs, b')
     \<and> ins = outs @ mbox_abs b'"
proof -
  obtain b :: "nat sys_mbox" where "sys_mbox_new True True True True = (ERR_OK, Some b)"
    by (simp add: sys_mbox_new_def)
  from mbox_is_fifo [OF this, of "[Enq 7, Enq 8, Deq]"] show ?thesis by auto
qed

text \<open>Once 2147483520 messages were taken, the fullness test overflows: posting is undefined from then on.\<close>

lemma mbox_overflow: "box_ok b \<Longrightarrow> INT_MAX < first b + 128 \<Longrightarrow> mbox_full b = None"
  by (auto simp: mbox_full_def c_int_def SYS_MBOX_SIZE_def)

end
