(* ===== verification/Sys_Prot.thy ===== *)
theory Sys_Prot imports Sys_Mbox begin

section \<open>Threads, freeing, and the light-weight protection (\<open>sys_arch.c\<close>)\<close>

text \<open>
  \<open>sys_thread_new\<close> and the list of known threads, the functions that free semaphores and mailboxes,
  and \<open>sys_arch_protect\<close>/\<open>sys_arch_unprotect\<close>: a mutex with an owner and a nesting count, of which
  the owner is read without holding the mutex. No thread has the identifier \<open>0xDEAD\<close> that stands for
  "nobody", so that value is \<open>None\<close> here.
\<close>

subsection \<open>Creating and freeing\<close>

text \<open>The list of threads; \<open>malloc_ok\<close> says whether the node could be allocated.\<close>

definition introduce_thread :: "bool \<Rightarrow> nat \<Rightarrow> nat list \<Rightarrow> nat option \<times> nat list" where
  "introduce_thread malloc_ok tid threads =
     (if malloc_ok then (Some tid, tid # threads) else (None, threads))"

text \<open>\<open>create\<close> is the outcome of \<open>pthread_create\<close>: the new identifier, or \<open>None\<close> for an error. The
  function aborts the program (\<open>None\<close>) when there is no thread or no node for it.\<close>

definition sys_thread_new :: "nat option \<Rightarrow> bool \<Rightarrow> nat list \<Rightarrow> (nat \<times> nat list) option" where
  "sys_thread_new create malloc_ok threads = do {
     tmp \<leftarrow> create;
     let (st, threads) = introduce_thread malloc_ok tmp threads;
     st \<leftarrow> st;
     Some (st, threads)
   }"

text \<open>After freeing, the pointer's object is gone (\<open>None\<close>); a null pointer is left alone. The outer
  \<open>None\<close> is a wait for a mutex that is not free, or a null semaphore.\<close>

definition sys_sem_free :: "sys_sem option \<Rightarrow> sys_sem option" where
  "sys_sem_free sem = None"

definition sys_mbox_free :: "'m sys_mbox option \<Rightarrow> 'm sys_mbox option option" where
  "sys_mbox_free mb =
     (case mb of
        None \<Rightarrow> Some None
      | Some mbox \<Rightarrow> do {
          mbox \<leftarrow> lock mbox;
          _ \<leftarrow> not_empty mbox;
          _ \<leftarrow> not_full mbox;
          Some None
        })"

lemma free_idle_mbox: "box_idle b \<Longrightarrow> sys_mbox_free (Some b) = Some None"
  by (auto simp: sys_mbox_free_def lock_idle box_idle_def sem_ok_def)

subsection \<open>Protection\<close>

text \<open>\<open>depth\<close> is not part of the code: it counts the protections a thread has not undone.\<close>

record prot =
  lwprot_mutex :: "nat option"
  lwprot_thread :: "nat option"
  lwprot_count :: int
  locking :: "nat set"      \<comment> \<open>threads in \<open>pthread_mutex_lock(&lwprot_mutex)\<close>\<close>
  depth :: "nat \<Rightarrow> nat"

inductive prot_step :: "prot \<Rightarrow> prot \<Rightarrow> bool" where
  protect_other: "t \<notin> locking s \<Longrightarrow> lwprot_thread s \<noteq> Some t \<Longrightarrow>
    prot_step s (s\<lparr>locking := insert t (locking s)\<rparr>)"
| protect_locked: "t \<in> locking s \<Longrightarrow> lwprot_mutex s = None \<Longrightarrow>
    prot_step s (s\<lparr>lwprot_mutex := Some t, lwprot_thread := Some t, lwprot_count := 1,
      locking := locking s - {t}, depth := (depth s)(t := depth s t + 1)\<rparr>)"
| protect_again: "t \<notin> locking s \<Longrightarrow> lwprot_thread s = Some t \<Longrightarrow> c_int (lwprot_count s + 1) = Some n \<Longrightarrow>
    prot_step s (s\<lparr>lwprot_count := n, depth := (depth s)(t := depth s t + 1)\<rparr>)"
| unprotect_inner: "t \<notin> locking s \<Longrightarrow> lwprot_thread s = Some t \<Longrightarrow> c_int (lwprot_count s - 1) = Some n \<Longrightarrow>
    n \<noteq> 0 \<Longrightarrow> prot_step s (s\<lparr>lwprot_count := n, depth := (depth s)(t := depth s t - 1)\<rparr>)"
| unprotect_last: "t \<notin> locking s \<Longrightarrow> lwprot_thread s = Some t \<Longrightarrow> c_int (lwprot_count s - 1) = Some 0 \<Longrightarrow>
    prot_step s (s\<lparr>lwprot_count := 0, lwprot_thread := None, lwprot_mutex := None,
      depth := (depth s)(t := depth s t - 1)\<rparr>)"
| unprotect_none: "t \<notin> locking s \<Longrightarrow> lwprot_thread s \<noteq> Some t \<Longrightarrow> prot_step s s"

definition prot_init :: prot where
  "prot_init = \<lparr>lwprot_mutex = None, lwprot_thread = None, lwprot_count = 0, locking = {}, depth = (\<lambda>t. 0)\<rparr>"

inductive prot_reachable :: "prot \<Rightarrow> bool" where
  prot_start: "prot_reachable prot_init"
| prot_move: "prot_reachable s \<Longrightarrow> prot_step s s' \<Longrightarrow> prot_reachable s'"

definition prot_inv :: "prot \<Rightarrow> bool" where
  "prot_inv s \<longleftrightarrow> lwprot_mutex s = lwprot_thread s
     \<and> (\<forall>t. int (depth s t) = (if lwprot_thread s = Some t then lwprot_count s else 0))
     \<and> (\<forall>t. lwprot_thread s = Some t \<longrightarrow> 0 < lwprot_count s \<and> t \<notin> locking s)"

lemma prot_step_inv: "prot_step s s' \<Longrightarrow> prot_inv s \<Longrightarrow> prot_inv s'"
proof (induction rule: prot_step.induct)
  case (unprotect_inner t s n)
  then have "int (depth s t) = lwprot_count s" "0 < lwprot_count s" by (auto simp: prot_inv_def)
  then have "0 < depth s t" by linarith
  with unprotect_inner show ?case by (auto simp: prot_inv_def c_int_Some_iff)
next
  case (unprotect_last t s)
  then have "int (depth s t) = 1" by (simp add: prot_inv_def c_int_Some_iff)
  then have "depth s t = 1" by simp
  moreover have "depth s u = 0" if "u \<noteq> t" for u
  proof -
    have "int (depth s u) = 0" using unprotect_last that by (simp add: prot_inv_def)
    then show ?thesis by simp
  qed
  ultimately show ?case using unprotect_last by (simp add: prot_inv_def c_int_Some_iff)
qed (auto simp: prot_inv_def c_int_Some_iff)

lemma prot_reachable_inv: "prot_reachable s \<Longrightarrow> prot_inv s"
proof (induction rule: prot_reachable.induct)
  case prot_start
  then show ?case by (simp add: prot_init_def prot_inv_def)
next
  case (prot_move s s')
  then show ?case using prot_step_inv by blast
qed

text \<open>
  At any time at most one thread is inside protected regions, however deeply it has nested them;
  it holds the mutex until it has undone all of its protections, and then the mutex is free.
\<close>

theorem protection_is_exclusive:
  assumes "prot_reachable s"
  shows "(0 < depth s t \<and> 0 < depth s u \<longrightarrow> t = u)
    \<and> (0 < depth s t \<longleftrightarrow> lwprot_mutex s = Some t)
    \<and> (lwprot_mutex s = Some t \<longrightarrow> lwprot_count s = int (depth s t))
    \<and> ((\<forall>v. depth s v = 0) \<longleftrightarrow> lwprot_mutex s = None)"
proof -
  have i: "prot_inv s" using assms by (rule prot_reachable_inv)
  have d: "0 < depth s v \<longleftrightarrow> lwprot_thread s = Some v" for v
  proof -
    have "int (depth s v) = (if lwprot_thread s = Some v then lwprot_count s else 0)"
      and "lwprot_thread s = Some v \<Longrightarrow> 0 < lwprot_count s"
      using i by (simp_all add: prot_inv_def)
    then show ?thesis by (cases "lwprot_thread s = Some v") simp_all
  qed
  moreover have "lwprot_mutex s = lwprot_thread s" using i by (simp add: prot_inv_def)
  moreover have "lwprot_thread s = Some t \<longrightarrow> lwprot_count s = int (depth s t)"
    using i by (simp add: prot_inv_def)
  moreover have "(\<forall>v. depth s v = 0) \<longleftrightarrow> lwprot_thread s = None"
    using d by (metis not_None_eq not_gr_zero)
  ultimately show ?thesis by auto
qed

theorem protection_is_exclusive_witness:
  "\<exists>s. prot_reachable s \<and> depth s 5 = 2 \<and> lwprot_mutex s = Some 5"
proof -
  let ?s1 = "prot_init\<lparr>locking := insert 5 (locking prot_init)\<rparr>"
  let ?s2 = "?s1\<lparr>lwprot_mutex := Some 5, lwprot_thread := Some 5, lwprot_count := 1,
      locking := locking ?s1 - {5}, depth := (depth ?s1)(5 := depth ?s1 5 + 1)\<rparr>"
  let ?s3 = "?s2\<lparr>lwprot_count := 2, depth := (depth ?s2)(5 := depth ?s2 5 + 1)\<rparr>"
  have "prot_reachable ?s1"
    by (rule prot_move [OF prot_start protect_other]) (simp_all add: prot_init_def)
  then have "prot_reachable ?s2" by (rule prot_move [OF _ protect_locked]) (simp_all add: prot_init_def)
  then have r: "prot_reachable ?s3"
    by (rule prot_move [OF _ protect_again]) (simp_all add: c_int_def INT_MIN_def INT_MAX_def)
  have "depth ?s3 5 = 2" by (simp add: prot_init_def)
  then show ?thesis using protection_is_exclusive [OF r, of 5 5] r by auto
qed

end
