(* ===== verification/Mbox_Conc.thy ===== *)
theory Mbox_Conc imports Sys_Mbox begin

section \<open>Threads posting to and fetching from a mailbox (\<open>sys_arch.c\<close>)\<close>

text \<open>
  Any number of threads run \<open>sys_mbox_post\<close>, \<open>sys_mbox_trypost\<close>, \<open>sys_arch_mbox_fetch\<close> and
  \<open>sys_arch_mbox_tryfetch\<close> on one mailbox, interleaved between any two accesses to shared state. A
  thread is the point it has reached (\<open>pc\<close>); a step of the relation is one thread executing the
  statements up to its next semaphore operation. A wait at a semaphore is a step that is possible
  when the counter is positive (\<open>sem_down\<close>); a fetch with a timeout may also give up while it waits.
  The lists \<open>posted\<close> and \<open>fetched\<close> record the messages stored and taken, for the statements only.
\<close>

datatype 'm result = Posted | Full | Fetched 'm | Empty | Timeout

text \<open>Names: \<open>P\<close> is \<open>sys_mbox_post\<close>, \<open>T\<close> \<open>sys_mbox_trypost\<close>, \<open>F\<close> \<open>sys_arch_mbox_fetch\<close> (with its
  timeout) and \<open>G\<close> \<open>sys_arch_mbox_tryfetch\<close>.\<close>

datatype 'm pc =
    Idle "'m result option"
  | P_lock 'm        \<comment> \<open>before \<open>sys_arch_sem_wait(&mbox->mutex, 0)\<close>\<close>
  | P_test 'm        \<comment> \<open>at the condition of the \<open>while\<close>\<close>
  | P_release 'm     \<comment> \<open>\<open>wait_send\<close> counted, before \<open>sys_sem_signal(&mbox->mutex)\<close>\<close>
  | P_wait 'm        \<comment> \<open>before \<open>sys_arch_sem_wait(&mbox->not_full, 0)\<close>\<close>
  | P_relock 'm      \<comment> \<open>before taking the mutex again\<close>
  | P_awake 'm       \<comment> \<open>before \<open>mbox->wait_send--\<close>\<close>
  | T_lock 'm
  | T_test 'm
  | T_fail           \<comment> \<open>before the \<open>sys_sem_signal\<close> of the full branch\<close>
  | PT_signal        \<comment> \<open>stored into an empty mailbox, before \<open>sys_sem_signal(&mbox->not_empty)\<close>\<close>
  | PT_unlock
  | F_lock u32
  | F_test u32
  | F_release u32
  | F_wait u32
  | G_lock
  | G_test
  | G_fail
  | FG_signal 'm     \<comment> \<open>message taken, at \<open>if (mbox->wait_send)\<close>\<close>
  | FG_unlock 'm

record 'm state =
  box :: "'m sys_mbox"
  pcs :: "nat \<Rightarrow> 'm pc"
  posted :: "'m list"
  fetched :: "'m list"

definition go :: "nat \<Rightarrow> 'm pc \<Rightarrow> 'm state \<Rightarrow> 'm state" where
  "go t p s = s\<lparr>pcs := (pcs s)(t := p)\<rparr>"

definition set_box :: "'m sys_mbox \<Rightarrow> 'm state \<Rightarrow> 'm state" where
  "set_box b s = s\<lparr>box := b\<rparr>"

text \<open>Waiting at \<open>not_empty\<close> and \<open>not_full\<close>.\<close>

definition take_not_empty :: "'m sys_mbox \<Rightarrow> 'm sys_mbox option" where
  "take_not_empty b = do { s \<leftarrow> sem_down (not_empty b); Some (b\<lparr>not_empty := s\<rparr>) }"

definition take_not_full :: "'m sys_mbox \<Rightarrow> 'm sys_mbox option" where
  "take_not_full b = do { s \<leftarrow> sem_down (not_full b); Some (b\<lparr>not_full := s\<rparr>) }"

inductive step :: "'m state \<Rightarrow> 'm state \<Rightarrow> bool" where
  call_post: "pcs s t = Idle r \<Longrightarrow> step s (go t (P_lock m) s)"
| call_trypost: "pcs s t = Idle r \<Longrightarrow> step s (go t (T_lock m) s)"
| call_fetch: "pcs s t = Idle r \<Longrightarrow> step s (go t (F_lock to) s)"
| call_tryfetch: "pcs s t = Idle r \<Longrightarrow> step s (go t G_lock s)"
| p_lock: "pcs s t = P_lock m \<Longrightarrow> lock (box s) = Some b \<Longrightarrow> step s (go t (P_test m) (set_box b s))"
| p_full: "pcs s t = P_test m \<Longrightarrow> mbox_full (box s) = Some True \<Longrightarrow> c_int (wait_send (box s) + 1) = Some n \<Longrightarrow>
    step s (go t (P_release m) (set_box ((box s)\<lparr>wait_send := n\<rparr>) s))"
| p_release: "pcs s t = P_release m \<Longrightarrow> unlock (box s) = Some b \<Longrightarrow> step s (go t (P_wait m) (set_box b s))"
| p_wait: "pcs s t = P_wait m \<Longrightarrow> take_not_full (box s) = Some b \<Longrightarrow> step s (go t (P_relock m) (set_box b s))"
| p_relock: "pcs s t = P_relock m \<Longrightarrow> lock (box s) = Some b \<Longrightarrow> step s (go t (P_awake m) (set_box b s))"
| p_awake: "pcs s t = P_awake m \<Longrightarrow> c_int (wait_send (box s) - 1) = Some n \<Longrightarrow>
    step s (go t (P_test m) (set_box ((box s)\<lparr>wait_send := n\<rparr>) s))"
| t_lock: "pcs s t = T_lock m \<Longrightarrow> lock (box s) = Some b \<Longrightarrow> step s (go t (T_test m) (set_box b s))"
| t_full: "pcs s t = T_test m \<Longrightarrow> mbox_full (box s) = Some True \<Longrightarrow> step s (go t T_fail s)"
| t_fail: "pcs s t = T_fail \<Longrightarrow> unlock (box s) = Some b \<Longrightarrow> step s (go t (Idle (Some Full)) (set_box b s))"
| pt_store: "pcs s t = P_test m \<or> pcs s t = T_test m \<Longrightarrow> mbox_full (box s) = Some False \<Longrightarrow>
    mbox_store m (box s) = Some (was_empty, b) \<Longrightarrow>
    step s (go t (if was_empty then PT_signal else PT_unlock) (set_box b (s\<lparr>posted := posted s @ [m]\<rparr>)))"
| pt_signal: "pcs s t = PT_signal \<Longrightarrow> signal_not_empty (box s) = Some b \<Longrightarrow> step s (go t PT_unlock (set_box b s))"
| pt_unlock: "pcs s t = PT_unlock \<Longrightarrow> unlock (box s) = Some b \<Longrightarrow> step s (go t (Idle (Some Posted)) (set_box b s))"
| f_lock: "pcs s t = F_lock to \<Longrightarrow> lock (box s) = Some b \<Longrightarrow> step s (go t (F_test to) (set_box b s))"
| f_empty: "pcs s t = F_test to \<Longrightarrow> first (box s) = last (box s) \<Longrightarrow> step s (go t (F_release to) s)"
| f_release: "pcs s t = F_release to \<Longrightarrow> unlock (box s) = Some b \<Longrightarrow> step s (go t (F_wait to) (set_box b s))"
| f_wait: "pcs s t = F_wait to \<Longrightarrow> take_not_empty (box s) = Some b \<Longrightarrow> step s (go t (F_lock to) (set_box b s))"
| f_timeout: "pcs s t = F_wait to \<Longrightarrow> to \<noteq> 0 \<Longrightarrow> step s (go t (Idle (Some Timeout)) s)"
| g_lock: "pcs s t = G_lock \<Longrightarrow> lock (box s) = Some b \<Longrightarrow> step s (go t G_test (set_box b s))"
| g_empty: "pcs s t = G_test \<Longrightarrow> first (box s) = last (box s) \<Longrightarrow> step s (go t G_fail s)"
| g_fail: "pcs s t = G_fail \<Longrightarrow> unlock (box s) = Some b \<Longrightarrow> step s (go t (Idle (Some Empty)) (set_box b s))"
| fg_take: "pcs s t = F_test to \<or> pcs s t = G_test \<Longrightarrow> first (box s) \<noteq> last (box s) \<Longrightarrow>
    mbox_take (box s) = Some (m, b) \<Longrightarrow>
    step s (go t (FG_signal m) (set_box b (s\<lparr>fetched := fetched s @ [m]\<rparr>)))"
| fg_signal: "pcs s t = FG_signal m \<Longrightarrow> wait_send (box s) \<noteq> 0 \<Longrightarrow> signal_not_full (box s) = Some b \<Longrightarrow>
    step s (go t (FG_unlock m) (set_box b s))"
| fg_no_signal: "pcs s t = FG_signal m \<Longrightarrow> wait_send (box s) = 0 \<Longrightarrow> step s (go t (FG_unlock m) s)"
| fg_unlock: "pcs s t = FG_unlock m \<Longrightarrow> unlock (box s) = Some b \<Longrightarrow>
    step s (go t (Idle (Some (Fetched m))) (set_box b s))"

text \<open>A fresh mailbox with all threads outside of it.\<close>

definition initial :: "'m state \<Rightarrow> bool" where
  "initial s \<longleftrightarrow> sys_mbox_new True True True True = (ERR_OK, Some (box s))
     \<and> (\<forall>t. pcs s t = Idle None) \<and> posted s = [] \<and> fetched s = []"

inductive reachable :: "'m state \<Rightarrow> bool" where
  start: "initial s \<Longrightarrow> reachable s"
| move: "reachable s \<Longrightarrow> step s s' \<Longrightarrow> reachable s'"

subsection \<open>Mutual exclusion and the order of messages\<close>

text \<open>The points at which a thread holds the mailbox's mutex, and those at which it is counted in
  \<open>wait_send\<close>.\<close>

fun in_cs :: "'m pc \<Rightarrow> bool" where
  "in_cs (P_test m) = True"
| "in_cs (P_release m) = True"
| "in_cs (P_awake m) = True"
| "in_cs (T_test m) = True"
| "in_cs T_fail = True"
| "in_cs PT_signal = True"
| "in_cs PT_unlock = True"
| "in_cs (F_test to) = True"
| "in_cs (F_release to) = True"
| "in_cs G_test = True"
| "in_cs G_fail = True"
| "in_cs (FG_signal m) = True"
| "in_cs (FG_unlock m) = True"
| "in_cs _ = False"

fun counted :: "'m pc \<Rightarrow> bool" where
  "counted (P_release m) = True"
| "counted (P_wait m) = True"
| "counted (P_relock m) = True"
| "counted (P_awake m) = True"
| "counted _ = False"

definition mutex_ok :: "(nat \<Rightarrow> 'm pc) \<Rightarrow> sys_sem option \<Rightarrow> bool" where
  "mutex_ok f mu \<longleftrightarrow> mu = Some \<lparr>c = (if \<exists>t. in_cs (f t) then 0 else 1)\<rparr>
     \<and> (\<forall>t u. in_cs (f t) \<longrightarrow> in_cs (f u) \<longrightarrow> t = u)"

definition count_ok :: "(nat \<Rightarrow> 'm pc) \<Rightarrow> int \<Rightarrow> bool" where
  "count_ok f n \<longleftrightarrow> finite {t. counted (f t)} \<and> n = int (card {t. counted (f t)})"

definition data_ok :: "'m state \<Rightarrow> bool" where
  "data_ok s \<longleftrightarrow> box_ok (box s) \<and> posted s = fetched s @ mbox_abs (box s)
     \<and> sem_ok (not_empty (box s)) \<and> sem_ok (not_full (box s))"

definition inv :: "'m state \<Rightarrow> bool" where
  "inv s \<longleftrightarrow> mutex_ok (pcs s) (mutex (box s)) \<and> count_ok (pcs s) (wait_send (box s)) \<and> data_ok s"

lemma mutex_enter:
  "mutex_ok f (mutex b) \<Longrightarrow> lock b = Some b' \<Longrightarrow> in_cs p \<Longrightarrow> mutex_ok (f(t := p)) (mutex b')"
  by (auto simp: mutex_ok_def lock_def split: if_splits)

lemma mutex_leave:
  "mutex_ok f (mutex b) \<Longrightarrow> in_cs (f t) \<Longrightarrow> unlock b = Some b' \<Longrightarrow> \<not> in_cs p \<Longrightarrow>
    mutex_ok (f(t := p)) (mutex b')"
  by (auto simp: mutex_ok_def unlock_def split: if_splits)

lemma mutex_stay: "mutex_ok f mu \<Longrightarrow> in_cs (f t) = in_cs p \<Longrightarrow> mutex_ok (f(t := p)) mu"
  by (auto simp: mutex_ok_def split: if_splits)

lemma count_stay: "count_ok f n \<Longrightarrow> counted (f t) = counted p \<Longrightarrow> count_ok (f(t := p)) n"
proof -
  assume "counted (f t) = counted p"
  then have "{u. counted ((f(t := p)) u)} = {u. counted (f u)}" by auto
  then show "count_ok f n \<Longrightarrow> ?thesis" by (simp add: count_ok_def)
qed

lemma count_inc: "count_ok f n \<Longrightarrow> \<not> counted (f t) \<Longrightarrow> counted p \<Longrightarrow> count_ok (f(t := p)) (n + 1)"
proof -
  assume "\<not> counted (f t)" "counted p"
  then have "{u. counted ((f(t := p)) u)} = insert t {u. counted (f u)}" "t \<notin> {u. counted (f u)}" by auto
  then show "count_ok f n \<Longrightarrow> ?thesis" by (simp add: count_ok_def)
qed

lemma count_dec: "count_ok f n \<Longrightarrow> counted (f t) \<Longrightarrow> \<not> counted p \<Longrightarrow> count_ok (f(t := p)) (n - 1)"
proof -
  assume "counted (f t)" "\<not> counted p"
  then have "{u. counted (f u)} = insert t {u. counted ((f(t := p)) u)}" "t \<notin> {u. counted ((f(t := p)) u)}"
    by auto
  then show "count_ok f n \<Longrightarrow> ?thesis" by (simp add: count_ok_def)
qed

lemma lock_only: "lock b = Some b' \<Longrightarrow> \<exists>x. b' = b\<lparr>mutex := x\<rparr>"
  and unlock_only: "unlock b = Some b' \<Longrightarrow> \<exists>x. b' = b\<lparr>mutex := x\<rparr>"
  by (auto simp: lock_def unlock_def split: Option.bind_splits)

lemma take_not_empty_only:
  "sem_ok (not_empty b) \<Longrightarrow> take_not_empty b = Some b' \<longleftrightarrow> not_empty b = Some \<lparr>c = 1\<rparr> \<and> b' = b\<lparr>not_empty := Some \<lparr>c = 0\<rparr>\<rparr>"
  by (auto simp: take_not_empty_def sem_ok_def)

lemma take_not_full_only:
  "sem_ok (not_full b) \<Longrightarrow> take_not_full b = Some b' \<longleftrightarrow> not_full b = Some \<lparr>c = 1\<rparr> \<and> b' = b\<lparr>not_full := Some \<lparr>c = 0\<rparr>\<rparr>"
  by (auto simp: take_not_full_def sem_ok_def)

lemma signal_not_empty_only:
  "sem_ok (not_empty b) \<Longrightarrow> signal_not_empty b = Some b' \<longleftrightarrow> b' = b\<lparr>not_empty := Some \<lparr>c = 1\<rparr>\<rparr>"
  by (auto simp: signal_not_empty_def sem_ok_def)

lemma signal_not_full_only:
  "sem_ok (not_full b) \<Longrightarrow> signal_not_full b = Some b' \<longleftrightarrow> b' = b\<lparr>not_full := Some \<lparr>c = 1\<rparr>\<rparr>"
  by (auto simp: signal_not_full_def sem_ok_def)

lemma sem_ok_values [simp]: "sem_ok (Some \<lparr>c = 0\<rparr>)" "sem_ok (Some \<lparr>c = 1\<rparr>)"
  by (simp_all add: sem_ok_def)

lemma mbox_full_range: "box_ok b \<Longrightarrow> mbox_full b = Some x \<Longrightarrow> in_range b"
  by (auto simp: mbox_full_def c_int_def in_range_def SYS_MBOX_SIZE_def split: if_splits)

lemma store_effect:
  assumes "box_ok b" and "mbox_full b = Some False" and "mbox_store m b = Some (e, b')"
  shows "box_ok b' \<and> mbox_abs b' = mbox_abs b @ [m] \<and> e = (mbox_abs b = []) \<and> first b' = first b
    \<and> not_empty b' = not_empty b \<and> not_full b' = not_full b \<and> mutex b' = mutex b
    \<and> wait_send b' = wait_send b"
proof -
  have r: "in_range b" using mbox_full_range assms(1,2) by blast
  have "length (mbox_abs b) \<le> 127" using length_mbox_abs [OF assms(1)] assms(1) by (simp add: box_ok_def)
  then have "length (mbox_abs b) < 127" using assms(2) mbox_full_iff [OF assms(1) r] by auto
  from mbox_store_ok [OF assms(1) r this, of m] show ?thesis using assms(3) by auto
qed

lemma take_effect:
  assumes "box_ok b" and "first b \<noteq> last b" and "mbox_take b = Some (m, b')"
  shows "box_ok b' \<and> mbox_abs b = m # mbox_abs b' \<and> not_empty b' = not_empty b
    \<and> not_full b' = not_full b \<and> mutex b' = mutex b \<and> wait_send b' = wait_send b"
proof -
  have "mbox_abs b \<noteq> []" using length_mbox_abs [OF assms(1)] assms(2) by auto
  then obtain x xs where a: "mbox_abs b = x # xs" by (cases "mbox_abs b") auto
  have "first b + 1 \<le> INT_MAX"
    using assms(3) by (auto simp: mbox_take_def c_int_def split: Option.bind_splits if_splits)
  then have "first b < INT_MAX" by simp
  from mbox_take_ok [OF assms(1) this a] show ?thesis using assms(3) a by auto
qed

lemma empty_iff: "box_ok b \<Longrightarrow> first b = last b \<longleftrightarrow> mbox_abs b = []"
  using length_mbox_abs [of b] by (auto simp: box_ok_def)

lemma initial_inv: "initial s \<Longrightarrow> inv s"
  using new_idle [of "box s"]
  by (auto simp: initial_def inv_def mutex_ok_def count_ok_def data_ok_def box_idle_def)

lemmas inv_defs = inv_def data_ok_def go_def set_box_def

lemma lock_inv:
  assumes "inv s" and "lock (box s) = Some b" and "in_cs p" and "counted (pcs s t) = counted p"
  shows "inv (go t p (set_box b s))"
proof -
  have "mutex_ok ((pcs s)(t := p)) (mutex b)"
    using assms by (intro mutex_enter [of _ "box s"]) (simp_all add: inv_def)
  moreover obtain x where "b = (box s)\<lparr>mutex := x\<rparr>" using lock_only assms(2) by blast
  ultimately show ?thesis using assms(1,4) by (simp add: inv_defs count_stay)
qed

lemma unlock_inv:
  assumes "inv s" and "unlock (box s) = Some b" and "in_cs (pcs s t)" and "\<not> in_cs p"
    and "counted (pcs s t) = counted p"
  shows "inv (go t p (set_box b s))"
proof -
  have "mutex_ok ((pcs s)(t := p)) (mutex b)"
    using assms by (intro mutex_leave [of _ "box s"]) (simp_all add: inv_def)
  moreover obtain x where "b = (box s)\<lparr>mutex := x\<rparr>" using unlock_only assms(2) by blast
  ultimately show ?thesis using assms(1,5) by (simp add: inv_defs count_stay)
qed

lemma stay_inv:
  "inv s \<Longrightarrow> in_cs (pcs s t) = in_cs p \<Longrightarrow> counted (pcs s t) = counted p \<Longrightarrow> inv (go t p s)"
  by (simp add: inv_defs mutex_stay count_stay)

lemma sem_inv:
  assumes "inv s" and "in_cs (pcs s t) = in_cs p" and "counted (pcs s t) = counted p"
    and "b = (box s)\<lparr>not_empty := x\<rparr> \<or> b = (box s)\<lparr>not_full := x\<rparr>" and "sem_ok x"
  shows "inv (go t p (set_box b s))"
  using assms by (elim disjE) (simp_all add: inv_defs mutex_stay count_stay)

lemma signal_inv:
  assumes "inv s" and "in_cs (pcs s t) = in_cs p" and "counted (pcs s t) = counted p"
    and "signal_not_empty (box s) = Some b \<or> signal_not_full (box s) = Some b
      \<or> take_not_empty (box s) = Some b \<or> take_not_full (box s) = Some b"
  shows "inv (go t p (set_box b s))"
proof -
  have "sem_ok (not_empty (box s))" "sem_ok (not_full (box s))"
    using assms(1) by (simp_all add: inv_def data_ok_def)
  with assms(4) have "\<exists>x. sem_ok x \<and> (b = (box s)\<lparr>not_empty := x\<rparr> \<or> b = (box s)\<lparr>not_full := x\<rparr>)"
    by (metis sem_ok_values signal_not_empty_only signal_not_full_only take_not_empty_only
        take_not_full_only)
  then show ?thesis using sem_inv [OF assms(1-3)] by blast
qed

lemma step_inv: "step s s' \<Longrightarrow> inv s \<Longrightarrow> inv s'"
proof (induction rule: step.induct)
  case (p_full s t m n)
  then show ?case by (auto simp: inv_defs c_int_Some_iff intro: mutex_stay count_inc)
next
  case (p_awake s t m n)
  then show ?case by (auto simp: inv_defs c_int_Some_iff intro: mutex_stay count_dec)
next
  case (pt_store s t m e b)
  then show ?case using store_effect [of "box s" m e b]
    by (auto simp: inv_defs intro!: mutex_stay count_stay)
next
  case (fg_take s t to m b)
  then show ?case using take_effect [of "box s" m b]
    by (auto simp: inv_defs intro!: mutex_stay count_stay)
qed (simp_all add: lock_inv unlock_inv stay_inv signal_inv)

lemma reachable_inv: "reachable s \<Longrightarrow> inv s"
  by (induction rule: reachable.induct) (auto intro: initial_inv step_inv)

text \<open>
  C8: whatever the number of threads and the interleaving, at most one thread is between taking and
  releasing the mailbox's mutex, the messages taken followed by those inside are exactly the messages
  stored in their order, at most 127 messages are inside, and \<open>wait_send\<close> is the number of threads
  between counting themselves in and out.
\<close>

theorem mailbox_safe:
  assumes "reachable s"
  shows "(in_cs (pcs s t) \<and> in_cs (pcs s u) \<longrightarrow> t = u)
    \<and> posted s = fetched s @ mbox_abs (box s) \<and> length (mbox_abs (box s)) \<le> 127
    \<and> wait_send (box s) = int (card {v. counted (pcs s v)})"
proof -
  have i: "inv s" using assms by (rule reachable_inv)
  then have "length (mbox_abs (box s)) \<le> 127"
    using length_mbox_abs [of "box s"] by (simp add: inv_def data_ok_def box_ok_def)
  with i show ?thesis by (auto simp: inv_def mutex_ok_def data_ok_def count_ok_def)
qed

definition fresh_box :: "'m sys_mbox" where
  "fresh_box = the (snd (sys_mbox_new True True True True))"

definition start_state :: "'m state" where
  "start_state = \<lparr>box = fresh_box, pcs = (\<lambda>t. Idle None), posted = [], fetched = []\<rparr>"

lemma start_reachable: "reachable start_state"
  by (rule start) (simp add: initial_def start_state_def fresh_box_def sys_mbox_new_def)

theorem mailbox_safe_witness:
  "posted start_state = fetched start_state @ mbox_abs (box start_state :: nat sys_mbox)"
  using mailbox_safe [OF start_reachable] by blast

subsection \<open>Wake-ups\<close>

fun fetching :: "'m pc \<Rightarrow> bool" where
  "fetching (F_lock to) = True"
| "fetching (F_test to) = True"
| "fetching (F_release to) = True"
| "fetching (F_wait to) = True"
| "fetching G_lock = True"
| "fetching G_test = True"
| "fetching G_fail = True"
| "fetching (FG_signal m) = True"
| "fetching (FG_unlock m) = True"
| "fetching _ = False"

text \<open>The states of runs in which only thread \<open>k\<close> takes messages.\<close>

inductive reachable_by :: "nat \<Rightarrow> 'm state \<Rightarrow> bool" for k where
  start_by: "initial s \<Longrightarrow> reachable_by k s"
| move_by: "reachable_by k s \<Longrightarrow> step s s' \<Longrightarrow> \<forall>t. fetching (pcs s' t) \<longrightarrow> t = k \<Longrightarrow> reachable_by k s'"

lemma reachable_by_reachable: "reachable_by k s \<Longrightarrow> reachable s"
  by (induction rule: reachable_by.induct) (auto intro: reachable.intros)

lemma reachable_by_only: "reachable_by k s \<Longrightarrow> fetching (pcs s t) \<Longrightarrow> t = k"
  by (induction rule: reachable_by.induct) (auto simp: initial_def)

text \<open>A consumer on its way to sleep finds the mailbox empty, or a unit in \<open>not_empty\<close>, or a thread
  about to put one there.\<close>

fun to_sleep :: "'m pc \<Rightarrow> bool" where
  "to_sleep (F_release to) = True"
| "to_sleep (F_wait to) = True"
| "to_sleep _ = False"

definition wake_inv :: "nat \<Rightarrow> 'm state \<Rightarrow> bool" where
  "wake_inv k s \<longleftrightarrow> to_sleep (pcs s k) \<longrightarrow>
     mbox_abs (box s) = [] \<or> not_empty (box s) = Some \<lparr>c = 1\<rparr> \<or> (\<exists>t. pcs s t = PT_signal)"

text \<open>A producer on its way to sleep finds something to be taken, a unit in \<open>not_full\<close>, a consumer
  about to signal, or another producer that is awake.\<close>

fun p_sleeping :: "'m pc \<Rightarrow> bool" where
  "p_sleeping (P_release m) = True"
| "p_sleeping (P_wait m) = True"
| "p_sleeping _ = False"

fun p_active :: "'m pc \<Rightarrow> bool" where
  "p_active (P_relock m) = True"
| "p_active (P_awake m) = True"
| "p_active (P_test m) = True"
| "p_active (FG_signal m) = True"
| "p_active _ = False"

definition room_inv :: "'m state \<Rightarrow> bool" where
  "room_inv s \<longleftrightarrow> (\<exists>t. p_sleeping (pcs s t)) \<longrightarrow>
     mbox_abs (box s) \<noteq> [] \<or> not_full (box s) = Some \<lparr>c = 1\<rparr> \<or> (\<exists>t. p_active (pcs s t))"

lemma sems_unlock:
  "lock b = Some b' \<or> unlock b = Some b' \<Longrightarrow> not_empty b' = not_empty b \<and> not_full b' = not_full b
     \<and> mbox_abs b' = mbox_abs b \<and> wait_send b' = wait_send b"
  using lock_only [of b b'] unlock_only [of b b'] by auto

lemma wake_frame:
  assumes "wake_inv k s" and "pcs s t \<noteq> PT_signal" and "to_sleep p \<longrightarrow> to_sleep (pcs s t)"
    and "mbox_abs b = mbox_abs (box s)" and "not_empty b = not_empty (box s)"
  shows "wake_inv k (go t p (set_box b s))"
proof -
  have "pcs s u = PT_signal \<Longrightarrow> u \<noteq> t" for u using assms(2) by auto
  with assms show ?thesis by (auto simp: wake_inv_def go_def set_box_def)
qed

lemma wake_stay:
  "wake_inv k s \<Longrightarrow> pcs s t \<noteq> PT_signal \<Longrightarrow> to_sleep p \<longrightarrow> to_sleep (pcs s t) \<Longrightarrow> wake_inv k (go t p s)"
  using wake_frame [of k s t p "box s"] by (simp add: set_box_def)

lemma wake_lock:
  assumes "wake_inv k s" and "lock (box s) = Some b \<or> unlock (box s) = Some b"
    and "pcs s t \<noteq> PT_signal" and "to_sleep p \<longrightarrow> to_sleep (pcs s t)"
  shows "wake_inv k (go t p (set_box b s))"
  using wake_frame [OF assms(1,3,4)] sems_unlock [OF assms(2)] by blast

lemma wake_send:
  "wake_inv k s \<Longrightarrow> pcs s t \<noteq> PT_signal \<Longrightarrow> to_sleep p \<longrightarrow> to_sleep (pcs s t) \<Longrightarrow>
    wake_inv k (go t p (set_box ((box s)\<lparr>wait_send := n\<rparr>) s))"
  by (rule wake_frame) simp_all

lemma wake_step:
  assumes "step s s'" and "inv s" and "wake_inv k s" and "\<forall>t. fetching (pcs s t) \<longrightarrow> t = k"
  shows "wake_inv k s'"
  using assms
proof (induction rule: step.induct)
  case (pt_store s t m e b)
  have other: "pcs s u = PT_signal \<Longrightarrow> u \<noteq> t" for u using pt_store.hyps(1) by auto
  from pt_store show ?case using store_effect [of "box s" m e b]
    by (auto simp: wake_inv_def inv_defs dest: other)
next
  case (fg_take s t to m b)
  then have "t = k" by auto
  then show ?case by (simp add: wake_inv_def inv_defs)
next
  case (f_empty s t to)
  then show ?case by (auto simp: wake_inv_def inv_defs empty_iff)
next
  case (f_wait s t to b)
  then have "t = k" by auto
  then show ?case by (simp add: wake_inv_def inv_defs)
next
  case (p_wait s t m b)
  then show ?case by (intro wake_frame) (simp_all add: inv_defs take_not_full_only)
next
  case (pt_signal s t b)
  then show ?case by (simp add: wake_inv_def inv_defs signal_not_empty_only)
next
  case (fg_signal s t m b)
  then show ?case by (intro wake_frame) (simp_all add: inv_defs signal_not_full_only)
qed (auto intro: wake_lock wake_send wake_stay)

lemma wake_inv_reachable: "reachable_by k s \<Longrightarrow> wake_inv k s"
proof (induction rule: reachable_by.induct)
  case (start_by s)
  then show ?case by (simp add: initial_def wake_inv_def)
next
  case (move_by s s')
  then show ?case
    using wake_step reachable_inv reachable_by_reachable reachable_by_only by metis
qed

lemma counted_positive: "inv s \<Longrightarrow> p_sleeping (pcs s t) \<Longrightarrow> wait_send (box s) \<noteq> 0"
proof -
  assume i: "inv s" and "p_sleeping (pcs s t)"
  then have "t \<in> {u. counted (pcs s u)}" by (cases "pcs s t") auto
  then show ?thesis using i by (auto simp: inv_def count_ok_def)
qed

lemma room_frame:
  assumes "room_inv s" and "p_active (pcs s t) \<longrightarrow> p_active p" and "p_sleeping p \<longrightarrow> p_sleeping (pcs s t)"
    and "mbox_abs b = mbox_abs (box s)" and "not_full b = not_full (box s)"
  shows "room_inv (go t p (set_box b s))"
proof -
  have "(\<exists>u. p_active (pcs s u)) \<longrightarrow> (\<exists>u. p_active (((pcs s)(t := p)) u))"
    using assms(2) by (metis fun_upd_apply)
  moreover have "(\<exists>u. p_sleeping (((pcs s)(t := p)) u)) \<longrightarrow> (\<exists>u. p_sleeping (pcs s u))"
    using assms(3) by (metis fun_upd_apply)
  ultimately show ?thesis using assms(1,4,5) unfolding room_inv_def go_def set_box_def by force
qed

lemma room_stay:
  "room_inv s \<Longrightarrow> p_active (pcs s t) \<longrightarrow> p_active p \<Longrightarrow> p_sleeping p \<longrightarrow> p_sleeping (pcs s t) \<Longrightarrow>
    room_inv (go t p s)"
  using room_frame [of s t p "box s"] by (simp add: set_box_def)

lemma room_lock:
  assumes "room_inv s" and "lock (box s) = Some b \<or> unlock (box s) = Some b"
    and "p_active (pcs s t) \<longrightarrow> p_active p" and "p_sleeping p \<longrightarrow> p_sleeping (pcs s t)"
  shows "room_inv (go t p (set_box b s))"
  using room_frame [OF assms(1,3,4)] sems_unlock [OF assms(2)] by blast

lemma room_send:
  "room_inv s \<Longrightarrow> p_active (pcs s t) \<longrightarrow> p_active p \<Longrightarrow> p_sleeping p \<longrightarrow> p_sleeping (pcs s t) \<Longrightarrow>
    room_inv (go t p (set_box ((box s)\<lparr>wait_send := n\<rparr>) s))"
  by (rule room_frame) simp_all

lemma room_step:
  assumes "step s s'" and "inv s" and "room_inv s"
  shows "room_inv s'"
  using assms
proof (induction rule: step.induct)
  case (pt_store s t m e b)
  then show ?case using store_effect [of "box s" m e b] by (simp add: room_inv_def inv_defs)
next
  case (p_full s t m n)
  then have "length (mbox_abs (box s)) = 127"
    using mbox_full_iff mbox_full_range by (fastforce simp: inv_defs)
  then show ?case by (auto simp: room_inv_def inv_defs)
next
  case (fg_take s t to m b)
  then show ?case by (auto simp: room_inv_def inv_defs)
next
  case (f_wait s t to b)
  then show ?case by (intro room_frame) (simp_all add: inv_defs take_not_empty_only)
next
  case (p_wait s t m b)
  then show ?case by (auto simp: room_inv_def inv_defs take_not_full_only)
next
  case (pt_signal s t b)
  then show ?case by (intro room_frame) (simp_all add: inv_defs signal_not_empty_only)
next
  case (fg_signal s t m b)
  then show ?case by (simp add: room_inv_def inv_defs signal_not_full_only)
next
  case (fg_no_signal s t m)
  then have "\<not> p_sleeping (pcs s u)" for u using counted_positive by blast
  then show ?case by (auto simp: room_inv_def inv_defs)
qed (auto intro: room_lock room_send room_stay)

lemma room_inv_reachable: "reachable s \<Longrightarrow> room_inv s"
proof (induction rule: reachable.induct)
  case (start s)
  then show ?case by (simp add: initial_def room_inv_def)
next
  case (move s s')
  then show ?case using room_step reachable_inv by blast
qed

subsection \<open>No deadlock with one consumer\<close>

text \<open>Some thread that is inside an operation can take a step.\<close>

definition progress :: "'m state \<Rightarrow> bool" where
  "progress s \<longleftrightarrow> (\<exists>s' t. step s s' \<and> pcs s' t \<noteq> pcs s t \<and> (\<forall>r. pcs s t \<noteq> Idle r))"

lemma progressI: "step s s' \<Longrightarrow> pcs s' t \<noteq> pcs s t \<Longrightarrow> (\<And>r. pcs s t \<noteq> Idle r) \<Longrightarrow> progress s"
  unfolding progress_def by blast

lemma pcs_go [simp]: "pcs (go t p s) = (pcs s)(t := p)" "pcs (set_box b s) = pcs s"
  by (simp_all add: go_def set_box_def)

lemma unlock_cs: "inv s \<Longrightarrow> in_cs (pcs s t) \<Longrightarrow> \<exists>b. unlock (box s) = Some b"
  by (auto simp: inv_def mutex_ok_def unlock_def)

lemma lock_free: "inv s \<Longrightarrow> (\<And>t. \<not> in_cs (pcs s t)) \<Longrightarrow> \<exists>b. lock (box s) = Some b"
  by (simp add: inv_def mutex_ok_def lock_def)

lemma movesI:
  "step s (go t p x) \<Longrightarrow> p \<noteq> pcs s t \<Longrightarrow> pcs x = pcs s \<Longrightarrow>
    \<exists>p x. step s (go t p x) \<and> p \<noteq> pcs s t \<and> pcs x = pcs s"
  by blast

text \<open>A thread in the critical section always has a next step.\<close>

lemma cs_progress:
  assumes i: "inv s" and cs: "in_cs (pcs s t)" and r: "in_range (box s)" and w: "wait_send (box s) < INT_MAX"
  shows "progress s"
proof -
  have ok: "box_ok (box s)" "sem_ok (not_empty (box s))" "sem_ok (not_full (box s))"
    using i by (simp_all add: inv_def data_ok_def)
  have w0: "0 \<le> wait_send (box s)" using i by (simp add: inv_def count_ok_def)
  obtain b where b: "unlock (box s) = Some b" using unlock_cs [OF i cs] by blast
  have full: "mbox_full (box s) = Some (length (mbox_abs (box s)) = 127)" using mbox_full_iff ok(1) r by blast
  have le: "length (mbox_abs (box s)) \<le> 127"
    using length_mbox_abs [OF ok(1)] ok(1) by (simp add: box_ok_def)
  have store: "\<exists>e b. mbox_store m (box s) = Some (e, b)" if "length (mbox_abs (box s)) \<noteq> 127" for m
    using mbox_store_ok [OF ok(1) r] that le by fastforce
  have tk: "\<exists>m b. mbox_take (box s) = Some (m, b)" if ne: "first (box s) \<noteq> last (box s)"
  proof -
    obtain m ms where "mbox_abs (box s) = m # ms"
      using ne empty_iff [OF ok(1)] by (cases "mbox_abs (box s)") auto
    then show ?thesis using mbox_take_ok [OF ok(1)] r by (fastforce simp: in_range_def)
  qed
  obtain n n' where n: "c_int (wait_send (box s) + 1) = Some n" "c_int (wait_send (box s) - 1) = Some n'"
    using w w0 by (auto simp: c_int_def INT_MIN_def INT_MAX_def)
  obtain be bf where sg: "signal_not_empty (box s) = Some be" "signal_not_full (box s) = Some bf"
    using ok by (simp add: signal_not_empty_only signal_not_full_only)
  have "\<exists>p x. step s (go t p x) \<and> p \<noteq> pcs s t \<and> pcs x = pcs s"
  proof (cases "pcs s t")
    case (P_test m)
    show ?thesis
    proof (cases "length (mbox_abs (box s)) = 127")
      case True
      then show ?thesis
        using P_test full by (intro movesI [OF step.p_full [OF P_test _ n(1)]]) simp_all
    next
      case False
      then obtain e b where "mbox_store m (box s) = Some (e, b)" using store by blast
      then show ?thesis
        using P_test full False by (intro movesI [OF step.pt_store [OF disjI1 [OF P_test]]]) simp_all
    qed
  next
    case (T_test m)
    show ?thesis
    proof (cases "length (mbox_abs (box s)) = 127")
      case True
      then show ?thesis using T_test full by (intro movesI [OF step.t_full [OF T_test]]) simp_all
    next
      case False
      then obtain e b where "mbox_store m (box s) = Some (e, b)" using store by blast
      then show ?thesis
        using T_test full False by (intro movesI [OF step.pt_store [OF disjI2 [OF T_test]]]) simp_all
    qed
  next
    case (F_test to)
    show ?thesis
    proof (cases "first (box s) = last (box s)")
      case True
      then show ?thesis using F_test by (intro movesI [OF step.f_empty [OF F_test]]) simp_all
    next
      case False
      then obtain m b where "mbox_take (box s) = Some (m, b)" using tk by blast
      then show ?thesis
        using F_test False by (intro movesI [OF step.fg_take [OF disjI1 [OF F_test]]]) simp_all
    qed
  next
    case G_test
    show ?thesis
    proof (cases "first (box s) = last (box s)")
      case True
      then show ?thesis using G_test by (intro movesI [OF step.g_empty [OF G_test]]) simp_all
    next
      case False
      then obtain m b where "mbox_take (box s) = Some (m, b)" using tk by blast
      then show ?thesis
        using G_test False by (intro movesI [OF step.fg_take [OF disjI2 [OF G_test]]]) simp_all
    qed
  next
    case (FG_signal m)
    then show ?thesis
      using movesI [OF step.fg_signal [OF FG_signal _ sg(2)]] movesI [OF step.fg_no_signal [OF FG_signal]]
      by (cases "wait_send (box s) = 0") simp_all
  next
    case (P_release m) then show ?thesis by (intro movesI [OF step.p_release [OF _ b]]) simp_all
  next
    case (P_awake m) then show ?thesis by (intro movesI [OF step.p_awake [OF _ n(2)]]) simp_all
  next
    case T_fail then show ?thesis by (intro movesI [OF step.t_fail [OF _ b]]) simp_all
  next
    case PT_signal then show ?thesis by (intro movesI [OF step.pt_signal [OF _ sg(1)]]) simp_all
  next
    case PT_unlock then show ?thesis by (intro movesI [OF step.pt_unlock [OF _ b]]) simp_all
  next
    case (F_release to) then show ?thesis by (intro movesI [OF step.f_release [OF _ b]]) simp_all
  next
    case G_fail then show ?thesis by (intro movesI [OF step.g_fail [OF _ b]]) simp_all
  next
    case (FG_unlock m) then show ?thesis by (intro movesI [OF step.fg_unlock [OF _ b]]) simp_all
  qed (use cs in simp_all)
  then obtain p x where "step s (go t p x)" "p \<noteq> pcs s t" "pcs x = pcs s" by blast
  then show ?thesis using cs by (intro progressI [of s "go t p x" t]) auto
qed

lemma lock_progress:
  assumes "inv s" and "\<And>u. \<not> in_cs (pcs s u)"
    and "pcs s t \<in> {P_lock m, P_relock m, T_lock m, F_lock to, G_lock}"
  shows "progress s"
proof -
  obtain b where b: "lock (box s) = Some b" using lock_free [OF assms(1,2)] by blast
  have "\<exists>p. step s (go t p (set_box b s)) \<and> p \<noteq> pcs s t"
    using assms(3) step.p_lock [OF _ b, of t m] step.p_relock [OF _ b, of t m] step.t_lock [OF _ b, of t m]
      step.f_lock [OF _ b, of t to] step.g_lock [OF _ b, of t] by fastforce
  then obtain p where "step s (go t p (set_box b s))" "p \<noteq> pcs s t" by blast
  then show ?thesis using assms(3) by (intro progressI [of s "go t p (set_box b s)" t]) auto
qed

text \<open>
  C9: when only thread \<open>k\<close> takes messages, the threads never all block each other: in every reachable
  state in which no thread inside an operation can move, either the consumer sleeps on an empty
  mailbox and no producer waits, or producers wait on a mailbox that is not empty while the consumer is
  outside; everybody else has finished. In particular no wake-up of the consumer is lost.
\<close>

theorem no_deadlock_with_one_consumer:
  assumes "reachable_by k s" and "in_range (box s)" and "wait_send (box s) < INT_MAX"
    and "\<not> progress s"
  shows "(\<forall>t. (\<exists>r. pcs s t = Idle r) \<or> (\<exists>m. pcs s t = P_wait m \<and> mbox_abs (box s) \<noteq> [])
      \<or> (t = k \<and> pcs s t = F_wait 0 \<and> mbox_abs (box s) = []))"
proof
  fix t
  have r: "reachable s" using assms(1) by (rule reachable_by_reachable)
  then have i: "inv s" by (rule reachable_inv)
  have sems: "sem_ok (not_empty (box s))" "sem_ok (not_full (box s))"
    using i by (simp_all add: inv_def data_ok_def)
  have cs: "\<not> in_cs (pcs s u)" for u using cs_progress [OF i _ assms(2,3)] assms(4) by blast
  note lk = lock_progress [OF i cs] assms(4)
  have no: "pcs s u \<noteq> P_lock m" "pcs s u \<noteq> P_relock m" "pcs s u \<noteq> T_lock m" "pcs s u \<noteq> F_lock to"
    "pcs s u \<noteq> G_lock" for u m to using lk by blast+
  have nf: "not_full (box s) \<noteq> Some \<lparr>c = 1\<rparr>" if "pcs s u = P_wait m" for u m
  proof
    assume "not_full (box s) = Some \<lparr>c = 1\<rparr>"
    then obtain b where "take_not_full (box s) = Some b" by (simp add: take_not_full_def)
    from step.p_wait [OF that this] show False using assms(4) that progressI [of s _ u] by fastforce
  qed
  have ne: "to = 0 \<and> not_empty (box s) \<noteq> Some \<lparr>c = 1\<rparr>" if "pcs s u = F_wait to" for u to
  proof (intro conjI notI)
    assume "not_empty (box s) = Some \<lparr>c = 1\<rparr>"
    then obtain b where "take_not_empty (box s) = Some b" by (simp add: take_not_empty_def)
    from step.f_wait [OF that this] show False using assms(4) that progressI [of s _ u] by fastforce
  next
    show "to = 0" using step.f_timeout [OF that] assms(4) that progressI [of s _ u] by fastforce
  qed
  have act: "\<not> p_active (pcs s u)" for u using cs [of u] no [of u] by (cases "pcs s u") auto
  show "(\<exists>r. pcs s t = Idle r) \<or> (\<exists>m. pcs s t = P_wait m \<and> mbox_abs (box s) \<noteq> [])
      \<or> (t = k \<and> pcs s t = F_wait 0 \<and> mbox_abs (box s) = [])"
  proof (cases "pcs s t")
    case (P_wait m)
    then show ?thesis using room_inv_reachable [OF r] nf act unfolding room_inv_def
      by (metis p_sleeping.simps(2))
  next
    case (F_wait to)
    then have "t = k" using reachable_by_only [OF assms(1), of t] by simp
    moreover have "pcs s u \<noteq> PT_signal" for u using cs [of u] by auto
    ultimately show ?thesis
      using wake_inv_reachable [OF assms(1)] F_wait ne [OF F_wait] by (simp add: wake_inv_def)
  qed (use no [of t] cs [of t] in simp_all)
qed

lemma box_go [simp]: "box (go t p s) = box s" "box (set_box b s) = b"
  by (simp_all add: go_def set_box_def)

subsection \<open>Two consumers can miss a wake-up\<close>

lemma reachable_steps: "step\<^sup>*\<^sup>* s s' \<Longrightarrow> reachable s \<Longrightarrow> reachable s'"
  by (induction rule: rtranclp_induct) (auto intro: move)

declare rtranclp.rtrancl_into_rtrancl [trans]

text \<open>Whole operations of one thread while the others stand still: going to sleep in a fetch, posting
  into a mailbox with room, and being woken up in a fetch.\<close>

lemma run_sleep:
  assumes "pcs s t = Idle r" and "mutex (box s) = Some \<lparr>c = 1\<rparr>" and "first (box s) = last (box s)"
  shows "step\<^sup>*\<^sup>* s (go t (F_wait 0) s)"
proof -
  let ?b = "(box s)\<lparr>mutex := Some \<lparr>c = 0\<rparr>\<rparr>"
  let ?s1 = "go t (F_lock 0) s"
  let ?s2 = "go t (F_test 0) (set_box ?b ?s1)"
  let ?s3 = "go t (F_release 0) ?s2"
  have b: "(box s)\<lparr>mutex := Some \<lparr>c = 1\<rparr>\<rparr> = box s" using assms(2) by simp
  have box: "box ?s1 = box s" "box ?s2 = ?b" "box ?s3 = ?b" by (simp_all add: go_def set_box_def)
  have "step\<^sup>*\<^sup>* s s" by simp
  also have "step s ?s1" using assms(1) by (rule call_fetch)
  also have "step ?s1 ?s2" using assms(2) by (intro f_lock) (simp_all add: box lock_def)
  also have "step ?s2 ?s3" using assms(3) by (intro f_empty) (simp_all add: box)
  also have "step ?s3 (go t (F_wait 0) (set_box (box s) ?s3))"
    by (intro f_release) (simp_all add: box unlock_def b)
  also have "go t (F_wait 0) (set_box (box s) ?s3) = go t (F_wait 0) s"
    by (simp add: go_def set_box_def)
  finally show ?thesis .
qed

lemma run_post:
  assumes t: "pcs s t = Idle r" and mu: "mutex (box s) = Some \<lparr>c = 1\<rparr>" and f: "mbox_full (box s) = Some False"
    and i: "inv s"
  shows "\<exists>s'. step\<^sup>*\<^sup>* s s' \<and> pcs s' = (pcs s)(t := Idle (Some Posted)) \<and> mutex (box s') = Some \<lparr>c = 1\<rparr>
    \<and> mbox_abs (box s') = mbox_abs (box s) @ [m] \<and> first (box s') = first (box s)
    \<and> not_empty (box s') = (if mbox_abs (box s) = [] then Some \<lparr>c = 1\<rparr> else not_empty (box s))
    \<and> wait_send (box s') = wait_send (box s)"
proof -
  let ?b = "(box s)\<lparr>mutex := Some \<lparr>c = 0\<rparr>\<rparr>"
  have ok: "box_ok ?b" "in_range ?b" "sem_ok (not_empty ?b)"
    using i f mbox_full_range by (auto simp: inv_def data_ok_def)
  have "length (mbox_abs ?b) \<le> 127" using length_mbox_abs [OF ok(1)] ok(1) by (simp add: box_ok_def)
  then have "length (mbox_abs ?b) < 127" using f mbox_full_iff [OF ok(1,2)] by simp
  from mbox_store_ok [OF ok(1,2) this, of m] obtain b' where b':
    "mbox_store m ?b = Some (mbox_abs (box s) = [], b')" "mbox_abs b' = mbox_abs (box s) @ [m]"
    "first b' = first (box s)" "not_empty b' = not_empty (box s)" "mutex b' = Some \<lparr>c = 0\<rparr>"
    "wait_send b' = wait_send (box s)" by auto
  let ?e = "mbox_abs (box s) = []"
  let ?b2 = "if ?e then b'\<lparr>not_empty := Some \<lparr>c = 1\<rparr>\<rparr> else b'"
  let ?s1 = "go t (P_lock m) s"
  let ?s2 = "go t (P_test m) (set_box ?b ?s1)"
  let ?s3 = "go t (if ?e then PT_signal else PT_unlock) (set_box b' (?s2\<lparr>posted := posted ?s2 @ [m]\<rparr>))"
  let ?s4 = "go t PT_unlock (set_box ?b2 ?s3)"
  let ?s5 = "go t (Idle (Some Posted)) (set_box (?b2\<lparr>mutex := Some \<lparr>c = 1\<rparr>\<rparr>) ?s4)"
  have box: "box ?s1 = box s" "box ?s2 = ?b" "box ?s3 = b'" "box ?s4 = ?b2" by (simp_all add: go_def set_box_def)
  have "step\<^sup>*\<^sup>* s s" by simp
  also have "step s ?s1" using t by (rule call_post)
  also have "step ?s1 ?s2" using mu by (intro p_lock) (simp_all add: box lock_def)
  also have "step ?s2 ?s3" using f b'(1) by (intro pt_store) (simp_all add: box)
  also have "step\<^sup>*\<^sup>* ?s3 ?s4"
  proof (cases ?e)
    case True
    then have "step ?s3 ?s4" using b'(4) ok(3)
      by (intro pt_signal) (simp_all add: box signal_not_empty_only)
    then show ?thesis by (rule r_into_rtranclp)
  next
    case False
    then have "?s4 = ?s3" by (simp add: go_def set_box_def)
    then show ?thesis by simp
  qed
  also have "step ?s4 ?s5" using b'(5) by (intro pt_unlock) (simp_all add: box unlock_def)
  finally show ?thesis
    using b' by (intro exI [of _ ?s5]) (simp add: go_def set_box_def)
qed

lemma run_woken:
  assumes t: "pcs s t = F_wait 0" and mu: "mutex (box s) = Some \<lparr>c = 1\<rparr>"
    and e: "not_empty (box s) = Some \<lparr>c = 1\<rparr>" and a: "mbox_abs (box s) = m # ms"
    and w: "wait_send (box s) = 0" and i: "inv s" and r: "in_range (box s)"
  shows "\<exists>s'. step\<^sup>*\<^sup>* s s' \<and> pcs s' = (pcs s)(t := Idle (Some (Fetched m)))
    \<and> mbox_abs (box s') = ms \<and> not_empty (box s') = Some \<lparr>c = 0\<rparr>"
proof -
  let ?b1 = "(box s)\<lparr>not_empty := Some \<lparr>c = 0\<rparr>\<rparr>"
  let ?b = "?b1\<lparr>mutex := Some \<lparr>c = 0\<rparr>\<rparr>"
  have ok: "box_ok ?b" "first ?b < INT_MAX" "mbox_abs ?b = m # ms"
    using i r a by (auto simp: inv_def data_ok_def in_range_def)
  from mbox_take_ok [OF this] obtain b' where b': "mbox_take ?b = Some (m, b')" "mbox_abs b' = ms"
    "not_empty b' = Some \<lparr>c = 0\<rparr>" "mutex b' = Some \<lparr>c = 0\<rparr>" "wait_send b' = 0" using w by auto
  have ne: "first ?b \<noteq> last ?b" using empty_iff [OF ok(1)] ok(3) by simp
  let ?s1 = "go t (F_lock 0) (set_box ?b1 s)"
  let ?s2 = "go t (F_test 0) (set_box ?b ?s1)"
  let ?s3 = "go t (FG_signal m) (set_box b' (?s2\<lparr>fetched := fetched ?s2 @ [m]\<rparr>))"
  let ?s4 = "go t (FG_unlock m) ?s3"
  let ?s5 = "go t (Idle (Some (Fetched m))) (set_box (b'\<lparr>mutex := Some \<lparr>c = 1\<rparr>\<rparr>) ?s4)"
  have box: "box ?s1 = ?b1" "box ?s2 = ?b" "box ?s3 = b'" "box ?s4 = b'" by (simp_all add: go_def set_box_def)
  have "step\<^sup>*\<^sup>* s s" by simp
  also have "step s ?s1" using e by (intro f_wait [OF t]) (simp add: take_not_empty_def)
  also have "step ?s1 ?s2" using mu by (intro f_lock) (simp_all add: box lock_def)
  also have "step ?s2 ?s3" using ne b'(1) by (intro fg_take [where to = 0]) (simp_all add: box)
  also have "step ?s3 ?s4" using b'(5) by (intro fg_no_signal) (simp_all add: box)
  also have "step ?s4 ?s5" using b'(4) by (intro fg_unlock) (simp_all add: box unlock_def)
  finally show ?thesis
    using b' by (intro exI [of _ ?s5]) (simp add: go_def set_box_def)
qed

lemma asleep_no_progress:
  assumes "\<And>t. t \<noteq> k \<Longrightarrow> \<exists>r. pcs s t = Idle r" and "pcs s k = F_wait 0"
    and "not_empty (box s) = Some \<lparr>c = 0\<rparr>"
  shows "\<not> progress s"
proof
  assume "progress s"
  then obtain s' t where st: "step s s'" "pcs s' t \<noteq> pcs s t" "\<forall>r. pcs s t \<noteq> Idle r"
    unfolding progress_def by blast
  then have "t = k" using assms(1) by blast
  with st assms(2,3) show False
    by (cases rule: step.cases) (auto simp: take_not_empty_def split: if_splits)
qed

lemma start_box:
  "mutex fresh_box = Some \<lparr>c = 1\<rparr>" "last fresh_box = 0" "wait_send fresh_box = 0"
  "mbox_abs fresh_box = []" "first fresh_box = 0" "not_empty fresh_box = Some \<lparr>c = 0\<rparr>"
  by (simp_all add: fresh_box_def sys_mbox_new_def sys_sem_new_internal_def mbox_abs_def)

text \<open>
  C30: with two threads fetching without a timeout a wake-up can get lost: there is a run after which
  one message is in the mailbox and thread 2 sleeps in \<open>sys_arch_mbox_fetch\<close> although no thread is
  inside an operation that could still wake it. (Only the post into an empty mailbox signals.)
\<close>

theorem two_consumers_lose_wakeup:
  "\<exists>s :: 'm state. reachable s \<and> mbox_abs (box s) = [y] \<and> pcs s 2 = F_wait 0
     \<and> (\<forall>t. t = 2 \<or> (\<exists>r. pcs s t = Idle r)) \<and> \<not> progress s"
proof -
  let ?s2 = "go 2 (F_wait 0) (go 1 (F_wait 0) (start_state :: 'm state))"
  have f: "box (start_state :: 'm state) = fresh_box" "pcs (start_state :: 'm state) t = Idle None" for t
    by (simp_all add: start_state_def)
  have s1: "step\<^sup>*\<^sup>* (start_state :: 'm state) (go 1 (F_wait 0) start_state)"
    by (rule run_sleep) (simp_all add: f start_box)
  have "step\<^sup>*\<^sup>* (go 1 (F_wait 0) (start_state :: 'm state)) ?s2"
    by (rule run_sleep) (simp_all add: f start_box)
  with s1 have r2: "reachable ?s2" using start_reachable reachable_steps by (metis rtranclp_trans)
  have full: "mbox_full (box ?s2) = Some False"
    by (simp add: f start_box mbox_full_def c_int_def INT_MIN_def INT_MAX_def SYS_MBOX_SIZE_def)
  obtain s3 where s3: "reachable s3" "pcs s3 = (pcs ?s2)(0 := Idle (Some Posted))"
    "mutex (box s3) = Some \<lparr>c = 1\<rparr>" "mbox_abs (box s3) = [y]" "first (box s3) = 0"
    "not_empty (box s3) = Some \<lparr>c = 1\<rparr>" "wait_send (box s3) = 0"
    using run_post [OF _ _ full reachable_inv [OF r2], of 0 None y] r2 reachable_steps
    by (auto simp: f start_box)
  have i3: "inv s3" using s3(1) by (rule reachable_inv)
  have "mbox_full (box s3) = Some False"
    using mbox_full_iff [of "box s3"] i3 s3 by (simp add: inv_def data_ok_def in_range_def INT_MAX_def)
  from run_post [OF _ s3(3) this i3, of 0 "Some Posted" y] obtain s4 where s4: "reachable s4"
    "pcs s4 = pcs s3" "mutex (box s4) = Some \<lparr>c = 1\<rparr>" "mbox_abs (box s4) = [y, y]" "first (box s4) = 0"
    "not_empty (box s4) = Some \<lparr>c = 1\<rparr>" "wait_send (box s4) = 0"
    using s3 reachable_steps by (auto simp: fun_upd_idem)
  from run_woken [OF _ s4(3,6,4,7) reachable_inv [OF s4(1)], of 1] obtain s5 where s5: "reachable s5"
    "pcs s5 = (pcs s4)(1 := Idle (Some (Fetched y)))" "mbox_abs (box s5) = [y]"
    "not_empty (box s5) = Some \<lparr>c = 0\<rparr>"
    using s3(2) s4(1,2,5) reachable_steps by (auto simp: in_range_def INT_MAX_def)
  have idle: "\<exists>r. pcs s5 t = Idle r" if "t \<noteq> 2" for t
    using that by (auto simp: s5(2) s4(2) s3(2) f)
  have two: "pcs s5 2 = F_wait 0" by (simp add: s5(2) s4(2) s3(2) f)
  have "\<not> progress s5" using idle two s5(4) by (rule asleep_no_progress)
  then show ?thesis using s5(1,3) two idle by blast
qed

text \<open>A consumer that went to sleep on a fresh mailbox, alone.\<close>

lemma sleeping_consumer: "reachable_by 0 (go 0 (F_wait 0) start_state)"
proof -
  let ?s0 = "start_state :: 'm state"
  let ?b = "fresh_box\<lparr>mutex := Some \<lparr>c = 0\<rparr>\<rparr>"
  let ?s1 = "go 0 (F_lock 0) ?s0"
  let ?s2 = "go 0 (F_test 0) (set_box ?b ?s1)"
  let ?s3 = "go 0 (F_release 0) ?s2"
  have f: "box ?s0 = fresh_box" "pcs ?s0 t = Idle None" for t by (simp_all add: start_state_def)
  have e: "go 0 (F_wait 0) (set_box fresh_box ?s3) = go 0 (F_wait 0) ?s0"
    by (simp add: go_def set_box_def start_state_def)
  have "initial ?s0" by (simp add: initial_def start_state_def fresh_box_def sys_mbox_new_def)
  then have "reachable_by 0 ?s0" by (rule start_by)
  then have "reachable_by 0 ?s1" by (rule move_by [OF _ call_fetch]) (auto simp: f)
  then have "reachable_by 0 ?s2"
    by (rule move_by [OF _ f_lock]) (auto simp: f lock_def start_box)
  then have "reachable_by 0 ?s3"
    by (rule move_by [OF _ f_empty]) (auto simp: f start_box)
  then have "reachable_by 0 (go 0 (F_wait 0) (set_box fresh_box ?s3))"
    by (rule move_by [OF _ f_release]) (auto simp: f unlock_def start_box)
  then show ?thesis by (simp only: e)
qed


theorem no_deadlock_with_one_consumer_witness:
  "(\<exists>r. pcs (go 0 (F_wait 0) (start_state :: nat state)) 0 = Idle r)
    \<or> (\<exists>m. pcs (go 0 (F_wait 0) (start_state :: nat state)) 0 = P_wait m \<and> mbox_abs (fresh_box :: nat sys_mbox) \<noteq> [])
    \<or> pcs (go 0 (F_wait 0) (start_state :: nat state)) 0 = F_wait 0 \<and> mbox_abs (fresh_box :: nat sys_mbox) = []"
proof -
  let ?s = "go 0 (F_wait 0) (start_state :: nat state)"
  have b: "box ?s = fresh_box" by (simp add: start_state_def)
  have "in_range (box ?s)" "wait_send (box ?s) < INT_MAX"
    unfolding b by (simp_all add: in_range_def start_box INT_MAX_def)
  moreover have "\<not> progress ?s"
    by (rule asleep_no_progress [of 0]) (auto simp: start_state_def start_box)
  ultimately show ?thesis
    using no_deadlock_with_one_consumer [of 0 ?s, OF sleeping_consumer] unfolding b by blast
qed

end
