(* ===== verification/Ankh_If.thy ===== *)
theory Ankh_If imports Net_Types begin

section \<open>The lwIP network interface (\<open>lib/lwip/lib/arch/ankh_if.c\<close>)\<close>

text \<open>
  The driver that connects a client's lwIP stack to the server. The receive ring and the sending
  call belong to the shared-memory library, \<open>pbuf_alloc\<close>, \<open>pbuf_free\<close> and \<open>netif->input\<close> to
  lwIP: they are fields of a record of functions on an arbitrary state. A pbuf is its payload with
  the buffers still chained behind it, so a chain is a list of payloads. Of the pbufs that
  \<open>pbuf_alloc\<close> gave the driver, \<open>live\<close> counts those that were neither freed nor taken by the
  stack. \<open>ETH_PAD_SIZE\<close> is 0 in the configuration and \<open>PPPOE_SUPPORT\<close> is off.
\<close>

type_synonym pbuf = "bytes list"

record 'w ankh_env =
  ankh_send :: "bytes \<Rightarrow> u16 \<Rightarrow> 'w \<Rightarrow> int \<times> 'w"
  next_size :: "'w \<Rightarrow> int"
  can_alloc :: "'w \<Rightarrow> u16 \<Rightarrow> bool"
  copy_out :: "nat \<Rightarrow> 'w \<Rightarrow> (int \<times> bytes) \<times> 'w"
  netif_input :: "bytes \<Rightarrow> 'w \<Rightarrow> int \<times> 'w"

record 'w ankhif =
  world :: 'w
  live :: nat
  st_xmit :: nat
  st_recv :: nat
  st_memerr :: nat
  st_drop :: nat

definition ERR_OK :: int where "ERR_OK = 0"

subsection \<open>Output\<close>

text \<open>The loop sends one frame per pbuf of the chain; results are printed only.\<close>

fun send_chain :: "'w ankh_env \<Rightarrow> pbuf \<Rightarrow> 'w \<Rightarrow> 'w" where
  "send_chain e [] w = w"
| "send_chain e (q # qs) w = send_chain e qs (snd (ankh_send e q (word_of_nat (length q)) w))"

definition low_level_output :: "'w ankh_env \<Rightarrow> pbuf \<Rightarrow> 'w ankhif \<Rightarrow> int \<times> 'w ankhif" where
  "low_level_output e p s = (ERR_OK, s\<lparr>world := send_chain e p (world s), st_xmit := st_xmit s + 1\<rparr>)"

subsection \<open>Input\<close>

text \<open>
  The result is \<open>Some None\<close> for a null pointer and \<open>None\<close> when the assertion on the length fails:
  \<open>pbuf_alloc\<close> takes a 16-bit length.
\<close>

definition low_level_input :: "'w ankh_env \<Rightarrow> 'w ankhif \<Rightarrow> (bytes option \<times> 'w ankhif) option" where
  "low_level_input e s = (let len = next_size e (world s) in
     if len \<le> 0 then Some (None, s)
     else if can_alloc e (world s) (word_of_int len) then
       (if uint (word_of_int len :: u16) \<noteq> len then None
        else (case copy_out e (nat len) (world s) of
            ((err, dat), w) \<Rightarrow>
              (if err \<noteq> 0 then Some (None, s\<lparr>world := w, live := live s + 1\<rparr>)
               else Some (Some dat, s\<lparr>world := w, live := live s + 1, st_recv := st_recv s + 1\<rparr>))))
     else Some (None, s\<lparr>st_memerr := st_memerr s + 1, st_drop := st_drop s + 1\<rparr>))"

definition pbuf_free :: "'w ankhif \<Rightarrow> 'w ankhif" where
  "pbuf_free s = s\<lparr>live := live s - 1\<rparr>"

text \<open>The stack takes the pbuf when \<open>input\<close> returns \<open>ERR_OK\<close>.\<close>

definition ankhif_input :: "'w ankh_env \<Rightarrow> 'w ankhif \<Rightarrow> 'w ankhif option" where
  "ankhif_input e s = do {
     (p, s1) \<leftarrow> low_level_input e s;
     (case p of
        None \<Rightarrow> Some s1
      | Some payload \<Rightarrow> do {
          type \<leftarrow> rd16 payload eth_type;
          (if swap16 type = ETHERTYPE_IP \<or> swap16 type = ETHERTYPE_ARP then
             (case netif_input e payload (world s1) of
                (err, w) \<Rightarrow> Some ((if err \<noteq> ERR_OK then pbuf_free (s1\<lparr>world := w\<rparr>)
                                   else s1\<lparr>world := w, live := live s1 - 1\<rparr>)))
           else Some (pbuf_free s1))
        })
   }"

definition type_to_string :: "u32 \<Rightarrow> string" where
  "type_to_string t = (if t = 0x0800 then ''IP'' else if t = 0x0806 then ''ARP''
     else if t = 0x8864 then ''PPPoE'' else ''unknown'')"

subsection \<open>Start of the interface\<close>

record ankh_config =
  bufsize :: u32
  shm_name :: string

definition CFG_SHM_NAME_SIZE :: nat where "CFG_SHM_NAME_SIZE = 30"

definition cfg0 :: ankh_config where "cfg0 = \<lparr>bufsize = 2048, shm_name = ''''\<rparr>"

record netif =
  hwaddr_len :: nat
  hwaddr :: bytes
  mtu :: nat
  up_flags :: bool
  ifname :: string
  linked :: bool

text \<open>
  \<open>low_level_init\<close>: the two calls of the client library are asserted to succeed, and the address is
  the one that the server wrote into the shared information.
\<close>

definition low_level_init :: "(string \<Rightarrow> u32 \<Rightarrow> int) \<Rightarrow> int \<Rightarrow> bytes \<Rightarrow> ankh_config \<Rightarrow> netif \<Rightarrow> netif option" where
  "low_level_init open_ring prepare_send info_mac c n = do {
     m \<leftarrow> rdn info_mac 0 6;
     (if open_ring (shm_name c) (bufsize c) \<noteq> 0 then None
      else if prepare_send \<noteq> 0 then None
      else Some (n\<lparr>hwaddr_len := 6, hwaddr := m, mtu := 1500, up_flags := True\<rparr>))
   }"

definition ERR_MEM :: int where "ERR_MEM = - 1"

definition ankhif_init ::
    "bool \<Rightarrow> (string \<Rightarrow> u32 \<Rightarrow> int) \<Rightarrow> int \<Rightarrow> bytes \<Rightarrow> int \<Rightarrow> ankh_config \<Rightarrow> netif \<Rightarrow> (int \<times> netif) option" where
  "ankhif_init mem open_ring prepare_send info_mac thread c n =
     (if \<not> mem then Some (ERR_MEM, n)
      else do {
        n' \<leftarrow> low_level_init open_ring prepare_send info_mac c (n\<lparr>ifname := ''an'', linked := True\<rparr>);
        (if thread \<noteq> 0 then None else Some (ERR_OK, n'))
      })"

subsection \<open>Command line\<close>

text \<open>
  The argument vector is a list of pointers, \<open>None\<close> for a null pointer; a read beyond the list, or
  the use of a null pointer as a string, is undefined. \<open>memcpy\<close> of \<open>argc - idx - remove\<close> pointers is
  undefined when that number, computed in \<open>unsigned\<close>, wraps round; the overlapping copy moves the
  pointers down one after the other, as the library does.
\<close>

type_synonym argv = "string option list"

definition arg_at :: "argv \<Rightarrow> nat \<Rightarrow> string option" where
  "arg_at v i = (if i < length v then v ! i else None)"

definition move_args :: "nat \<Rightarrow> argv \<Rightarrow> nat \<Rightarrow> nat \<Rightarrow> argv option" where
  "move_args argc v idx remove =
     (if argc < idx + remove then None
      else if length v < argc then None
      else Some (take idx v @ take (argc - idx - remove) (drop (idx + remove) v) @ drop (argc - remove) v))"

definition try_l4re_option :: "nat \<Rightarrow> argv \<Rightarrow> nat \<Rightarrow> ankh_config \<Rightarrow> (nat \<times> argv \<times> ankh_config) option" where
  "try_l4re_option argc v idx c0 = do {
     a \<leftarrow> arg_at v idx;
     (r1, c1) \<leftarrow> (if a = ''--shm'' then do {
          x \<leftarrow> arg_at v (idx + 1);
          Some (2, c0\<lparr>shm_name := take (CFG_SHM_NAME_SIZE - 1) x\<rparr>)
        } else Some (0, c0));
     (r2, c2) \<leftarrow> (if a = ''--bufsize'' then do {
          x \<leftarrow> arg_at v (idx + 1);
          n \<leftarrow> atoi x;
          Some (2, c1\<lparr>bufsize := word_of_int n\<rparr>)
        } else Some (r1, c1));
     v' \<leftarrow> move_args argc v idx r2;
     Some (r2, v', c2)
   }"

text \<open>The loop of \<open>l4_lwip_init\<close>, \<open>while (i < *argc)\<close>.\<close>

function args_loop :: "nat \<Rightarrow> nat \<Rightarrow> argv \<Rightarrow> ankh_config \<Rightarrow> (nat \<times> argv \<times> ankh_config) option" where
  "args_loop i argc v c =
     (if \<not> i < argc then Some (argc, v, c)
      else (case try_l4re_option argc v i c of
          None \<Rightarrow> None
        | Some (removed, v', c') \<Rightarrow>
            if removed \<noteq> 0 then args_loop i (argc - removed) v' c' else args_loop (i + 1) argc v' c'))"
  by pat_completeness auto
termination by (relation "measure (\<lambda>(i, argc, _). argc - i)") auto

declare args_loop.simps [simp del]

text \<open>What the command line means: options with their value are taken out, the last one counts.\<close>

fun strip_options :: "string list \<Rightarrow> ankh_config \<Rightarrow> (string list \<times> ankh_config) option" where
  "strip_options [] c = Some ([], c)"
| "strip_options (a # as) c =
     (if a = ''--shm'' then (case as of [] \<Rightarrow> None
        | x # r \<Rightarrow> strip_options r (c\<lparr>shm_name := take 29 x\<rparr>))
      else if a = ''--bufsize'' then (case as of [] \<Rightarrow> None
        | x # r \<Rightarrow> (case atoi x of None \<Rightarrow> None | Some n \<Rightarrow> strip_options r (c\<lparr>bufsize := word_of_int n\<rparr>)))
      else map_option (\<lambda>(r, c'). (a # r, c')) (strip_options as c))"

lemma move_none: "move_args argc v i 0 = (if argc < i \<or> length v < argc then None else Some v)"
proof (cases "argc < i \<or> length v < argc")
  case False
  then have "take (argc - i) (drop i v) @ drop argc v = drop i v"
    using take_drop_join [of "argc - i" i v] by simp
  then show ?thesis using False by (auto simp: move_args_def)
qed (auto simp: move_args_def)

lemma arg_at_mid: "arg_at (map Some pre @ map Some (a # as) @ rest) (length pre) = Some a"
  by (simp add: arg_at_def nth_append)

lemma arg_at_next: "arg_at (map Some pre @ map Some (a # x # as) @ rest) (length pre + 1) = Some x"
  by (simp add: arg_at_def nth_append)

lemma move_two: "\<exists>rest'. move_args (length pre + Suc (Suc (length as))) (map Some pre @ map Some (a # x # as) @ rest)
    (length pre) 2 = Some (map Some pre @ map Some as @ rest')"
  by (simp add: move_args_def)

lemma move_last: "move_args (Suc (length pre)) v (length pre) 2 = None"
  by (simp add: move_args_def)

lemma move_nothing: "move_args (length pre + length as) (map Some pre @ map Some as @ rest) (length pre) 0 =
    Some (map Some pre @ map Some as @ rest)"
  by (simp add: move_none)

lemma option_names: "''--shm'' \<noteq> ''--bufsize''" by simp

lemma args_loop_strips:
  "case strip_options as c of
     None \<Rightarrow> args_loop (length pre) (length pre + length as) (map Some pre @ map Some as @ rest) c = None
   | Some (r, c') \<Rightarrow> \<exists>rest'. args_loop (length pre) (length pre + length as) (map Some pre @ map Some as @ rest) c =
       Some (length pre + length r, map Some pre @ map Some r @ rest', c')"
proof (induction as c arbitrary: pre rest rule: strip_options.induct)
  case (1 c)
  then show ?case by (simp add: args_loop.simps)
next
  case (2 a as c)
  let ?v = "map Some pre @ map Some (a # as) @ rest" and ?n = "length pre + length (a # as)"
  have step: "args_loop (length pre) ?n ?v c = (case try_l4re_option ?n ?v (length pre) c of
        None \<Rightarrow> None
      | Some (removed, v', c') \<Rightarrow> if removed \<noteq> 0 then args_loop (length pre) (?n - removed) v' c'
          else args_loop (length pre + 1) ?n v' c')"
    by (subst args_loop.simps) simp
  consider (shm) "a = ''--shm''" | (buf) "a = ''--bufsize''" "a \<noteq> ''--shm''"
    | (other) "a \<noteq> ''--shm''" "a \<noteq> ''--bufsize''" by blast
  then show ?case
  proof cases
    case shm
    show ?thesis
    proof (cases as)
      case Nil
      then have "try_l4re_option ?n ?v (length pre) c = None"
        using shm arg_at_mid [of pre a as rest]
        by (cases "arg_at ?v (length pre + 1)") (simp_all add: try_l4re_option_def move_last)
      then show ?thesis unfolding step using shm Nil by simp
    next
      case (Cons x r)
      obtain rest' where m: "move_args ?n ?v (length pre) 2 = Some (map Some pre @ map Some r @ rest')"
        using move_two [of pre r a x rest] Cons by auto
      have t: "try_l4re_option ?n ?v (length pre) c =
          Some (2, map Some pre @ map Some r @ rest', c\<lparr>shm_name := take 29 x\<rparr>)"
        using shm m arg_at_mid [of pre a as rest] arg_at_next [of pre a x r rest] Cons
        by (simp add: try_l4re_option_def CFG_SHM_NAME_SIZE_def)
      have e: "args_loop (length pre) ?n ?v c = args_loop (length pre) (length pre + length r)
          (map Some pre @ map Some r @ rest') (c\<lparr>shm_name := take 29 x\<rparr>)"
        unfolding step t by (simp add: Cons)
      show ?thesis
        unfolding e using 2(1) [OF shm Cons, of pre rest'] shm Cons by simp
    qed
  next
    case buf
    show ?thesis
    proof (cases as)
      case Nil
      then have "try_l4re_option ?n ?v (length pre) c = None"
        using buf arg_at_mid [of pre a as rest]
        by (cases "arg_at ?v (length pre + 1)") (auto simp: try_l4re_option_def move_last bind_eq_None_conv)
      then show ?thesis unfolding step using buf Nil by simp
    next
      case (Cons x r)
      show ?thesis
      proof (cases "atoi x")
        case None
        then have "try_l4re_option ?n ?v (length pre) c = None"
          using buf arg_at_mid [of pre a as rest] arg_at_next [of pre a x r rest] Cons
          by (simp add: try_l4re_option_def)
        then show ?thesis unfolding step using buf Cons None by simp
      next
        case (Some k)
        obtain rest' where m: "move_args ?n ?v (length pre) 2 = Some (map Some pre @ map Some r @ rest')"
          using move_two [of pre r a x rest] Cons by auto
        have t: "try_l4re_option ?n ?v (length pre) c =
            Some (2, map Some pre @ map Some r @ rest', c\<lparr>bufsize := word_of_int k\<rparr>)"
          using buf m arg_at_mid [of pre a as rest] arg_at_next [of pre a x r rest] Cons Some
          by (simp add: try_l4re_option_def)
        have e: "args_loop (length pre) ?n ?v c = args_loop (length pre) (length pre + length r)
            (map Some pre @ map Some r @ rest') (c\<lparr>bufsize := word_of_int k\<rparr>)"
          unfolding step t by (simp add: Cons)
        show ?thesis
          unfolding e using 2(2) [OF buf(2,1) Cons Some, of pre rest'] buf Cons Some by simp
      qed
    qed
  next
    case other
    have t: "try_l4re_option ?n ?v (length pre) c = Some (0, ?v, c)"
      using other arg_at_mid [of pre a as rest] move_nothing [of pre "a # as" rest]
      by (simp add: try_l4re_option_def)
    have e: "args_loop (length pre) ?n ?v c =
        args_loop (length (pre @ [a])) (length (pre @ [a]) + length as) (map Some (pre @ [a]) @ map Some as @ rest) c"
      unfolding step t by simp
    show ?thesis
      unfolding e using 2(3) [OF other, of "pre @ [a]" rest] other by (auto split: option.splits)
  qed
qed

text \<open>
  The start of a client: take the options out of the command line, add the interface and make it the
  default one. \<open>netif_add\<close> returns null when \<open>ankhif_init\<close> fails, which the code does not look at.
  The wait for an address that follows is left out.
\<close>

definition l4_lwip_setup ::
    "nat \<Rightarrow> argv \<Rightarrow> bool \<Rightarrow> (string \<Rightarrow> u32 \<Rightarrow> int) \<Rightarrow> int \<Rightarrow> bytes \<Rightarrow> int \<Rightarrow> netif \<Rightarrow> ((nat \<times> argv) \<times> netif) option" where
  "l4_lwip_setup argc v mem open_ring prepare_send info_mac thread n = do {
     (argc', v', c) \<leftarrow> args_loop 0 argc v cfg0;
     (_, n') \<leftarrow> ankhif_init mem open_ring prepare_send info_mac thread c n;
     Some ((argc', v'), n')
   }"

text \<open>
  The command line of a client: the loop of \<open>l4_lwip_init\<close> ends, takes every \<open>--shm\<close> and
  \<open>--bufsize\<close> with its value out of the arguments, keeps the others in order in front, and leaves in
  the configuration the last value of each; it has no defined result exactly when an option comes
  last, without its value, or a size is no \<open>int\<close>. What lies behind the arguments in memory has no
  influence.
\<close>

theorem command_line_parsed:
  "case strip_options args cfg0 of
     None \<Rightarrow> args_loop 0 (length args) (map Some args @ rest) cfg0 = None
   | Some (kept, c) \<Rightarrow> \<exists>rest'. args_loop 0 (length args) (map Some args @ rest) cfg0 =
       Some (length kept, map Some kept @ rest', c)"
  using args_loop_strips [where as = args and c = cfg0 and pre = "[]" and rest = rest]
  unfolding list.map append.simps list.size(3) add_0 .

text \<open>
  An incoming frame and its pbuf: nothing happens without data; without memory the frame is
  counted as dropped; otherwise a frame with a whole Ethernet header is counted as received, goes to
  the stack exactly when it is IP or ARP, and its pbuf ends with the stack or is freed, except when
  the copy out of the ring fails: then the pbuf is lost.
\<close>

theorem input_accounts_pbufs:
  assumes "len = next_size e (world s)" and "len < 65536" and "copy_out e (nat len) (world s) = ((err, dat), w)"
  shows "(len \<le> 0 \<longrightarrow> ankhif_input e s = Some s) \<and>
    (0 < len \<and> \<not> can_alloc e (world s) (word_of_int len) \<longrightarrow>
       ankhif_input e s = Some (s\<lparr>st_memerr := st_memerr s + 1, st_drop := st_drop s + 1\<rparr>)) \<and>
    (0 < len \<and> can_alloc e (world s) (word_of_int len) \<and> err \<noteq> 0 \<longrightarrow>
       ankhif_input e s = Some (s\<lparr>world := w, live := live s + 1\<rparr>)) \<and>
    (0 < len \<and> can_alloc e (world s) (word_of_int len) \<and> err = 0 \<and> 14 \<le> length dat \<longrightarrow>
       ankhif_input e s = Some (s\<lparr>st_recv := st_recv s + 1, world :=
         (if le16 (dat ! 12) (dat ! 13) \<in> {le16 0x08 0x00, le16 0x08 0x06} then snd (netif_input e dat w) else w)\<rparr>))"
proof -
  have u: "uint (word_of_int len :: u16) = len" if "0 < len"
    using that assms(2) by (simp add: unsigned_of_int take_bit_int_eq_self)
  have t: "swap16 (le16 a b) = ETHERTYPE_IP \<longleftrightarrow> le16 a b = le16 0x08 0x00"
    "swap16 (le16 a b) = ETHERTYPE_ARP \<longleftrightarrow> le16 a b = le16 0x08 0x06" for a b
  proof -
    have "ETHERTYPE_IP = swap16 (le16 0x08 0x00)" "ETHERTYPE_ARP = swap16 (le16 0x08 0x06)"
      by (simp_all add: ETHERTYPE_IP_def ETHERTYPE_ARP_def le16_def swap16_def)
    then show "swap16 (le16 a b) = ETHERTYPE_IP \<longleftrightarrow> le16 a b = le16 0x08 0x00"
      "swap16 (le16 a b) = ETHERTYPE_ARP \<longleftrightarrow> le16 a b = le16 0x08 0x06"
      by (metis swap16_swap16)+
  qed
  have "ankhif_input e s = Some (s\<lparr>st_recv := st_recv s + 1, world :=
         (if le16 (dat ! 12) (dat ! 13) \<in> {le16 0x08 0x00, le16 0x08 0x06} then snd (netif_input e dat w) else w)\<rparr>)"
    if "0 < len" "can_alloc e (world s) (word_of_int len)" "err = 0" "14 \<le> length dat"
  proof -
    have l: "low_level_input e s = Some (Some dat, s\<lparr>world := w, live := live s + 1, st_recv := st_recv s + 1\<rparr>)"
      using that assms u by (simp add: low_level_input_def Let_def)
    have r: "rd16 dat eth_type = Some (le16 (dat ! 12) (dat ! 13))"
      using that(4) by (simp add: rd16_def eth_type_def)
    show ?thesis
      by (auto simp: ankhif_input_def l r t pbuf_free_def case_prod_beta)
  qed
  then show ?thesis
    using assms u by (auto simp: ankhif_input_def low_level_input_def Let_def)
qed

text \<open>A ring that holds one broken frame.\<close>

definition demo_ankh :: "int \<Rightarrow> nat ankh_env" where
  "demo_ankh err = \<lparr>ankh_send = (\<lambda>q l w. (0, w + 1)), next_size = (\<lambda>w. 60), can_alloc = (\<lambda>w l. True),
     copy_out = (\<lambda>n w. ((err, replicate n 8), w)), netif_input = (\<lambda>p w. (0, w + 100))\<rparr>"

theorem input_accounts_pbufs_witness:
  "ankhif_input (demo_ankh (- 1)) \<lparr>world = 0, live = 0, st_xmit = 0, st_recv = 0, st_memerr = 0, st_drop = 0\<rparr> =
     Some \<lparr>world = 0, live = 1, st_xmit = 0, st_recv = 0, st_memerr = 0, st_drop = 0\<rparr>"
  using input_accounts_pbufs [of 60 "demo_ankh (- 1)" "\<lparr>world = 0, live = 0, st_xmit = 0, st_recv = 0, st_memerr = 0, st_drop = 0\<rparr>"
    "- 1" "replicate 60 8" 0] by (simp add: demo_ankh_def)

text \<open>A sender that records what it is given, and always answers \<open>r\<close>.\<close>

definition log_env :: "int \<Rightarrow> bytes list ankh_env" where
  "log_env r = \<lparr>ankh_send = (\<lambda>q l w. (r, w @ [q])), next_size = (\<lambda>w. 0), can_alloc = (\<lambda>w l. True),
     copy_out = (\<lambda>n w. ((0, []), w)), netif_input = (\<lambda>p w. (0, w))\<rparr>"

lemma send_chain_log: "send_chain (log_env r) p w = w @ p"
  by (induction p arbitrary: w) (simp_all add: log_env_def)

text \<open>
  \<open>low_level_output\<close> sends one frame per pbuf: what leaves is the list of payloads and not the
  packet that they make up, so only a packet in a single pbuf leaves as that packet; the result is
  \<open>ERR_OK\<close> even when no send succeeds.
\<close>

theorem output_sends_each_pbuf:
  "low_level_output (log_env r) p s = (ERR_OK, s\<lparr>world := world s @ p, st_xmit := st_xmit s + 1\<rparr>) \<and>
   (p = [concat p] \<longleftrightarrow> length p = 1)"
  by (auto simp: low_level_output_def send_chain_log length_Suc_conv)

end
