(* ===== verification/Ping_Client.thy ===== *)
theory Ping_Client imports Hisf begin

section \<open>The ping client (\<open>git/ankh/examples/lwip/ping/main.c\<close>)\<close>

text \<open>
  The client sends echo requests and waits for each reply. The socket and the clock are lwIP's: what
  \<open>sendto\<close>, \<open>recvfrom\<close> and \<open>gettimeofday\<close> give comes in as arguments, a reception being an IP
  datagram with the time of its arrival, or an error; a wait for which no reception is left has not
  returned yet. A \<open>struct timeval\<close> is a pair of seconds and microseconds, \<open>long\<close>s of 32 bits.
\<close>

definition PACKET_SIZE :: nat where "PACKET_SIZE = 4096"
definition ICMP_ECHO :: u8 where "ICMP_ECHO = 8"
definition ICMP_ECHOREPLY :: u8 where "ICMP_ECHOREPLY = 0"
definition datalen :: nat where "datalen = 56"

type_synonym timeval = "int \<times> int"

text \<open>A line of output: length, sequence number, time to live, milliseconds and microseconds.\<close>

record ping_line =
  pl_len :: int
  pl_seq :: u16
  pl_ttl :: u8
  pl_ms :: u32
  pl_um :: u32

text \<open>\<open>pid\<close> is a \<open>pid_t\<close> in the code; \<open>ankh_ping\<close> sets it to 2828 before it is used, so 16 bits hold it.\<close>

record ping =
  sendpacket :: bytes
  recvpacket :: bytes
  nsend :: u16
  nreceived :: u16
  pid :: u16
  tvrecv :: timeval
  tvsend :: timeval
  printed :: "ping_line list"

subsection \<open>Checksum\<close>

text \<open>The loop over the words with the odd byte behind it; \<open>sum\<close> is an \<open>int\<close>.\<close>

fun chk_loop :: "bytes \<Rightarrow> nat \<Rightarrow> int \<Rightarrow> int option" where
  "chk_loop w nleft s =
     (if 1 < nleft then do {
        x \<leftarrow> rd16 w 0;
        s' \<leftarrow> c_int (s + uint x);
        chk_loop (drop 2 w) (nleft - 2) s'
      }
      else if nleft = 1 then do {
        x \<leftarrow> rd8 w 0;
        c_int (s + uint x)
      }
      else Some s)"

declare chk_loop.simps [simp del]

definition cal_chksum :: "bytes \<Rightarrow> int \<Rightarrow> u16 option" where
  "cal_chksum addr len = do {
     s \<leftarrow> chk_loop addr (nat len) 0;
     s1 \<leftarrow> c_int (drop_bit 16 s + (s AND 0xffff));
     s2 \<leftarrow> c_int (s1 + drop_bit 16 s1);
     Some (word_of_int (NOT s2))
   }"

subsection \<open>Sending\<close>

definition set_icmp_pack :: "u16 \<Rightarrow> ping \<Rightarrow> (int \<times> ping) option" where
  "set_icmp_pack pack_no s = do {
     p \<leftarrow> wrn (sendpacket s) 0 [ICMP_ECHO];
     p \<leftarrow> wrn p 1 [0];
     p \<leftarrow> wrn p 2 [0, 0];
     p \<leftarrow> wrn p 6 [lo8 pack_no, hi8 pack_no];
     p \<leftarrow> wrn p 4 [lo8 (pid s), hi8 (pid s)];
     let packsize = 8 + int datalen;
     ck \<leftarrow> cal_chksum p packsize;
     p \<leftarrow> wrn p 2 [lo8 ck, hi8 ck];
     Some (packsize, s\<lparr>sendpacket := p\<rparr>)
   }"

text \<open>\<open>ok\<close>: \<open>sendto\<close> succeeds; the frame that it gets is returned as well.\<close>

definition send_packet :: "timeval \<Rightarrow> bool \<Rightarrow> ping \<Rightarrow> (int \<times> bytes \<times> ping) option" where
  "send_packet now ok s = do {
     let s = s\<lparr>nsend := nsend s + 1\<rparr>;
     (packetsize, s) \<leftarrow> set_icmp_pack (nsend s) s;
     let s = s\<lparr>tvsend := now\<rparr>;
     data \<leftarrow> rdn (sendpacket s) 0 (nat packetsize);
     Some (if ok then 0 else - 1, data, s)
   }"

subsection \<open>Receiving\<close>

definition tv_sub :: "timeval \<Rightarrow> timeval \<Rightarrow> timeval option" where
  "tv_sub out inn = do {
     us \<leftarrow> c_int (snd out - snd inn);
     (sec, us) \<leftarrow> (if us < 0 then do { x \<leftarrow> c_int (fst out - 1); y \<leftarrow> c_int (us + 1000000); Some (x, y) }
                  else Some (fst out, us));
     sec \<leftarrow> c_int (sec - fst inn);
     Some (sec, us)
   }"

text \<open>The values of \<open>ms\<close> and \<open>um\<close>; C divides towards zero.\<close>

definition c_quot :: "int \<Rightarrow> int \<Rightarrow> int" where
  "c_quot a b = (if (a < 0) = (b < 0) then \<bar>a\<bar> div \<bar>b\<bar> else - (\<bar>a\<bar> div \<bar>b\<bar>))"

definition rtt :: "timeval \<Rightarrow> (u32 \<times> u32) option" where
  "rtt tv = do {
     m \<leftarrow> c_int (fst tv * 1000);
     ms \<leftarrow> c_int (c_quot (snd tv) 1000 + m);
     Some (word_of_int ms, word_of_int (snd tv - c_quot (snd tv) 1000 * 1000))
   }"

definition unpack_icmp :: "int \<Rightarrow> ping \<Rightarrow> (int \<times> ping) option" where
  "unpack_icmp len s = do {
     let buf = recvpacket s;
     b0 \<leftarrow> rd8 buf 0;
     let iphdrlen = 4 * unat (b0 AND 0xF);
     let len = len - int iphdrlen;
     (if len < 8 then Some (- 1, s)
      else do {
        icmp_type \<leftarrow> rd8 buf iphdrlen;
        icmp_id \<leftarrow> rd16 buf (iphdrlen + 4);
        (if icmp_type = ICMP_ECHOREPLY \<and> icmp_id = pid s then do {
           tv \<leftarrow> tv_sub (tvrecv s) (tvsend s);
           (ms, um) \<leftarrow> rtt tv;
           icmp_seq \<leftarrow> rd16 buf (iphdrlen + 6);
           ttl \<leftarrow> rd8 buf 8;
           Some (0, s\<lparr>tvrecv := tv, printed := printed s @
             [\<lparr>pl_len = len, pl_seq = icmp_seq, pl_ttl = ttl, pl_ms = ms, pl_um = um\<rparr>]\<rparr>)
         }
         else Some (- 2, s))
      })
   }"

text \<open>The loop of \<open>recv_packet\<close> over the receptions; \<open>Inl\<close> is a wait that has not ended.\<close>

datatype reception = Recv_failed | Datagram bytes timeval

fun recv_packet :: "reception list \<Rightarrow> ping \<Rightarrow> ((unit + int) \<times> reception list \<times> ping) option" where
  "recv_packet [] s = Some (Inl (), [], s)"
| "recv_packet (Recv_failed # es) s = Some (Inr (- 1), es, s)"
| "recv_packet (Datagram d now # es) s = do {
     let d = take PACKET_SIZE d;
     p \<leftarrow> wrn (recvpacket s) 0 d;
     (ret, s) \<leftarrow> unpack_icmp (int (length d)) (s\<lparr>recvpacket := p, tvrecv := now\<rparr>);
     (if ret = - 2 then recv_packet es s
      else if ret = - 1 then Some (Inr (- 1), es, s)
      else Some (Inr 0, es, s\<lparr>nreceived := nreceived s + 1\<rparr>))
   }"

subsection \<open>The run\<close>

text \<open>The percentage that \<open>statistics\<close> prints; division by zero is undefined.\<close>

definition statistics :: "ping \<Rightarrow> int option" where
  "statistics s = (if nsend s = 0 then None
     else Some (c_quot (uint (nsend s) - uint (nreceived s)) (uint (nsend s)) * 100))"

text \<open>One round of \<open>ankh_ping\<close>, and its five rounds; a round's inputs are the time and result of
  \<open>sendto\<close>, the receptions wait in one queue. The
  result is \<open>None\<close> also when a wait has not ended.\<close>

definition ping_round :: "timeval \<Rightarrow> bool \<Rightarrow> reception list \<times> ping \<Rightarrow> (reception list \<times> ping) option" where
  "ping_round now ok = (\<lambda>(es, s). do {
     (r, _, s) \<leftarrow> send_packet now ok s;
     (if r = - 1 then Some (es, s)
      else do {
        (r, es, s) \<leftarrow> recv_packet es s;
        (case r of Inl _ \<Rightarrow> None | Inr _ \<Rightarrow> Some (es, s))
      })
   })"

fun ping_rounds :: "(timeval \<times> bool) list \<Rightarrow> reception list \<times> ping \<Rightarrow> (reception list \<times> ping) option" where
  "ping_rounds [] x = Some x"
| "ping_rounds ((now, ok) # r) x = do { x' \<leftarrow> ping_round now ok x; ping_rounds r x' }"

definition ankh_ping :: "(timeval \<times> bool) list \<Rightarrow> reception list \<Rightarrow> ping \<Rightarrow> (int \<times> ping) option" where
  "ankh_ping inputs es s = do {
     (_, s') \<leftarrow> ping_rounds (take 5 inputs) (es, s\<lparr>pid := 2828\<rparr>);
     lost \<leftarrow> statistics s';
     Some (lost, s')
   }"

subsection \<open>The checksum\<close>

lemma chk_loop_bsum:
  "n \<le> length w \<Longrightarrow> 0 \<le> s \<Longrightarrow> s + int (bsum (take n w)) \<le> INT_MAX \<Longrightarrow>
   chk_loop w n s = Some (s + int (bsum (take n w)))"
proof (induction w n s rule: chk_loop.induct)
  case (1 w n s)
  consider (two) "1 < n" | (one) "n = 1" | (zero) "n = 0" by linarith
  then show ?case
  proof cases
    case two
    obtain a b r where w: "w = a # b # r" using two 1(2)
      by (cases w; cases "tl w") auto
    obtain m where n: "n = Suc (Suc m)" using two by (cases n; cases "n - 1") auto
    have x: "rd16 w 0 = Some (le16 a b)" by (simp add: w rd16_def)
    have c: "c_int (s + uint (le16 a b)) = Some (s + uint (le16 a b))"
    proof -
      have "0 \<le> s + uint (le16 a b)" using 1(3) by simp
      moreover have "s + uint (le16 a b) \<le> INT_MAX" using 1(4) by (simp add: w n bsum_def)
      ultimately show ?thesis by (simp add: c_int_def INT_MIN_def)
    qed
    show ?thesis
      using 1(1) [OF two x c] 1(2-4) two x c
      by (subst chk_loop.simps) (simp add: w n bsum_def add.assoc)
  next
    case one
    then obtain a r where w: "w = a # r" using 1(2) by (cases w) auto
    show ?thesis
    proof -
      have "0 \<le> s + uint a" using 1(3) by simp
      then have "c_int (s + uint a) = Some (s + uint a)"
        using 1(4) one by (simp add: w bsum_def c_int_def INT_MIN_def)
      then show ?thesis using one by (subst chk_loop.simps) (simp add: w bsum_def rd8_def)
    qed
  next
    case zero
    then show ?thesis by (subst chk_loop.simps) (simp add: bsum_def)
  qed
qed

lemma cal_chksum_rfc1071:
  assumes "n \<le> length m" and "n \<le> 65536"
  shows "cal_chksum m (int n) = Some (rfc1071 (take n m))"
proof -
  let ?s = "bsum (take n m)"
  have "(n + 1) div 2 \<le> 32768" using assms(2) by linarith
  then have b: "?s \<le> 65535 * 32768"
    using bsum_le [of "take n m"] assms(1) by (simp add: min_absorb2)
  then have loop: "chk_loop m n 0 = Some (int ?s)"
    using chk_loop_bsum [of n m 0] assms(1) by (simp add: INT_MAX_def)
  define t where "t = ?s div 65536 + ?s mod 65536"
  have d: "drop_bit 16 (int x) = int (x div 65536)" "int x AND 0xffff = int (x mod 65536)" for x
    using take_bit_eq_mask [of 16 "int x"]
    by (simp_all add: drop_bit_eq_div take_bit_eq_mod zdiv_int zmod_int mask_eq_exp_minus_1)
  have t: "t \<le> 98303" "t + t div 65536 \<le> 98304" using b by (auto simp: t_def)
  have s: "drop_bit 16 (int ?s) + (int ?s AND 0xffff) = int t" "int t + drop_bit 16 (int t) = int (t + t div 65536)"
    by (simp_all only: d of_nat_add [symmetric] t_def [symmetric])
  have c: "c_int (int t) = Some (int t)" "c_int (int (t + t div 65536)) = Some (int (t + t div 65536))"
    using t by (simp_all add: c_int_def INT_MAX_def INT_MIN_def)
  have "cal_chksum m (int n) = Some (word_of_int (NOT (int (t + t div 65536))))"
    by (simp only: cal_chksum_def nat_int loop Option.bind.bind_lunit s c)
  moreover have "(word_of_nat (t + t div 65536) :: u16) = word_of_nat (osum ?s)"
  proof -
    have "(t + t div 65536) mod 65536 = osum ?s" using b by (intro fold_twice) (simp_all add: t_def)
    moreover have "(word_of_nat u :: u16) = word_of_nat (u mod 65536)" for u
      by (simp add: word_unat_eq_iff unsigned_of_nat take_bit_eq_mod)
    ultimately show ?thesis by metis
  qed
  ultimately show ?thesis by (simp add: rfc1071_osum of_int_not_eq)
qed

interpretation ping_ck: inet_checksum "\<lambda>bs. the (cal_chksum bs (int (length bs)))"
  by unfold_locales (simp add: cal_chksum_rfc1071)

subsection \<open>Requests, replies and times\<close>

definition request :: "u16 \<Rightarrow> u16 \<Rightarrow> bytes \<Rightarrow> bytes" where
  "request ident sq dat = (let m = [8, 0, 0, 0, lo8 ident, hi8 ident, lo8 sq, hi8 sq] @ dat; ck = rfc1071 m
     in m[2 := lo8 ck, 3 := hi8 ck])"

lemma length_request [simp]: "length (request i q d) = 8 + length d"
  by (simp add: request_def Let_def)

lemma request_verifies: "rfc1071 (request i q d) = 0"
proof -
  let ?m = "[8, 0, 0, 0, lo8 i, hi8 i, lo8 q, hi8 q] @ d"
  have "?m ! 2 = 0" "?m ! Suc 2 = 0" "Suc 2 < length ?m" by simp_all
  from rfc1071_filled [OF _ this(3,1,2)] have "rfc1071 (?m[2 := lo8 (rfc1071 ?m), Suc 2 := hi8 (rfc1071 ?m)]) = 0"
    by simp
  moreover have "Suc 2 = (3 :: nat)" by simp
  ultimately show ?thesis unfolding request_def Let_def by (simp only:)
qed

lemma set_icmp_pack_run:
  assumes "64 \<le> length (sendpacket s)"
  shows "\<exists>p. set_icmp_pack k s = Some (64, s\<lparr>sendpacket := p\<rparr>) \<and> length p = length (sendpacket s) \<and>
    take 64 p = request (pid s) k (take 56 (drop 8 (sendpacket s)))"
proof -
  obtain a b where ab: "sendpacket s = a @ b" "length a = 8"
    using assms by (metis append_take_drop_id length_take min_absorb2 order_trans numeral_le_iff semiring_norm(68,69,71,72,73,74,75,76))
  then obtain x0 x1 x2 x3 x4 x5 x6 x7 where a: "a = [x0, x1, x2, x3, x4, x5, x6, x7]"
    by (auto simp: numeral_eq_Suc length_Suc_conv)
  define m where "m = [8, 0, 0, 0, lo8 (pid s), hi8 (pid s), lo8 k, hi8 k] @ b"
  have b: "56 \<le> length b" using assms ab by simp
  have ck: "cal_chksum m 64 = Some (rfc1071 (take 64 m))"
    using cal_chksum_rfc1071 [of 64 m] b by (simp add: m_def)
  have t: "take 64 m = [8, 0, 0, 0, lo8 (pid s), hi8 (pid s), lo8 k, hi8 k] @ take 56 b"
    by (simp add: m_def)
  let ?ck = "rfc1071 (take 64 m)"
  have "set_icmp_pack k s = Some (64, s\<lparr>sendpacket := m[2 := lo8 ?ck, 3 := hi8 ?ck]\<rparr>)"
    using ck by (simp add: set_icmp_pack_def ab(1) a wrn_def datalen_def ICMP_ECHO_def m_def [symmetric] Let_def)
      (simp add: m_def)
  then show ?thesis
    by (intro exI [of _ "m[2 := lo8 ?ck, 3 := hi8 ?ck]"])
      (simp add: request_def Let_def ab(1) a t take_update_swap; simp add: m_def)
qed

lemma uint32_of_int: "0 \<le> z \<Longrightarrow> z < 4294967296 \<Longrightarrow> uint (word_of_int z :: u32) = z"
  by (simp add: unsigned_of_int take_bit_int_eq_self)

lemma rtt_is_difference:
  assumes "0 \<le> us" "us < 1000000" "0 \<le> us'" "us' < 1000000" "0 \<le> sec" "sec' \<le> INT_MAX"
    and "D = 1000000 * (sec' - sec) + (us' - us)" and "0 \<le> D" "D < 2147483000000"
  shows "\<exists>tv ms um. tv_sub (sec', us') (sec, us) = Some tv \<and> rtt tv = Some (ms, um) \<and>
    1000 * uint ms + uint um = D"
proof -
  let ?tv = "if us' - us < 0 then (sec' - 1 - sec, us' - us + 1000000) else (sec' - sec, us' - us)"
  have k: "n \<le> sec' - sec" if "1000000 * n - 1000000 < D - (us' - us)" for n
  proof (rule ccontr)
    assume "\<not> ?thesis"
    then have "1000000 * (sec' - sec) \<le> 1000000 * n - 1000000" by simp
    then show False using that assms(7) by simp
  qed
  have s: "sec \<le> sec'" using k [of 0] assms(1-4,8) by simp
  have s': "sec \<le> sec' - 1" if "us' - us < 0" using k [of 1] that assms(8) by simp
  have s2: "sec' - sec \<le> 2147483"
  proof (rule ccontr)
    assume "\<not> ?thesis"
    then have "2147484000000 \<le> 1000000 * (sec' - sec)" by simp
    then show False using assms(1-4,7,9) by simp
  qed
  have t: "tv_sub (sec', us') (sec, us) = Some ?tv"
    using assms(1-6) s s' s2 by (auto simp: tv_sub_def c_int_def INT_MAX_def INT_MIN_def)
  obtain x y where xy: "?tv = (x, y)" by fastforce
  then have b: "0 \<le> x" "x \<le> 2147483" "0 \<le> y" "y < 1000000" "1000000 * x + y = D"
    using s s' s2 assms by (auto split: if_splits)
  have m: "y div 1000 + x * 1000 \<le> 2147483647" using b assms(9) by linarith
  have "rtt ?tv = Some (word_of_int (y div 1000 + x * 1000), word_of_int (y mod 1000))"
    unfolding xy using b m by (simp add: rtt_def c_quot_def c_int_def INT_MAX_def INT_MIN_def minus_div_mult_eq_mod)
  moreover have "uint (word_of_int (y div 1000 + x * 1000) :: u32) = y div 1000 + x * 1000"
    using b m by (intro uint32_of_int) simp_all
  moreover have "uint (word_of_int (y mod 1000) :: u32) = y mod 1000"
    by (intro uint32_of_int) (simp_all add: order.strict_trans [OF pos_mod_bound])
  moreover have "1000 * (y div 1000 + x * 1000) + y mod 1000 = D" using b(5) by (simp add: algebra_simps)
  ultimately show ?thesis using t by metis
qed

lemma percent_lost:
  assumes "nreceived s \<le> nsend s" and "nsend s \<noteq> 0"
  shows "statistics s = Some (if nreceived s = 0 then 100 else 0)"
proof -
  have n: "uint (nreceived s) \<le> uint (nsend s)" "0 < uint (nsend s)"
    using assms by (simp_all add: word_le_def word_neq_0_conv word_less_def)
  have "(uint (nsend s) - uint (nreceived s)) div uint (nsend s) = 0" if "nreceived s \<noteq> 0"
  proof -
    have "0 < uint (nreceived s)" using that by (simp add: word_neq_0_conv word_less_def)
    then show ?thesis using n by simp
  qed
  then show ?thesis using assms(2) n by (simp add: statistics_def c_quot_def)
qed

subsection \<open>The server's answer reaches the client\<close>

lemma send_packet_run:
  assumes "64 \<le> length (sendpacket s)"
  obtains p where "length p = length (sendpacket s)"
    and "send_packet now ok s = Some (if ok then 0 else - 1,
      request (pid s) (nsend s + 1) (take 56 (drop 8 (sendpacket s))),
      s\<lparr>nsend := nsend s + 1, sendpacket := p, tvsend := now\<rparr>)"
proof -
  let ?s = "s\<lparr>nsend := nsend s + 1\<rparr>"
  obtain p where p: "set_icmp_pack (nsend s + 1) ?s = Some (64, ?s\<lparr>sendpacket := p\<rparr>)"
      "length p = length (sendpacket s)" "take 64 p = request (pid s) (nsend s + 1) (take 56 (drop 8 (sendpacket s)))"
    using set_icmp_pack_run [of ?s "nsend s + 1"] assms by auto
  then have "rdn p 0 64 = Some (request (pid s) (nsend s + 1) (take 56 (drop 8 (sendpacket s))))"
    using assms by (simp add: rdn_def)
  then show ?thesis using p(1,2) by (intro that [OF p(2)]) (simp add: send_packet_def Let_def)
qed

text \<open>What the fields of a request are, wherever they come from.\<close>

lemma request_fields:
  "request i q d ! 0 = 8" "request i q d ! 1 = 0" "request i q d ! 4 = lo8 i" "request i q d ! 5 = hi8 i"
  "request i q d ! 6 = lo8 q" "request i q d ! 7 = hi8 q"
  by (simp_all add: request_def Let_def)

text \<open>A reply is counted and printed with its round trip time.\<close>

lemma recv_reply:
  assumes d: "length d = 84" "d ! 0 = 0x45" "d ! 20 = 0" "le16 (d ! 24) (d ! 25) = pid s"
    and b: "length (recvpacket s) = PACKET_SIZE"
    and t: "tv_sub now (tvsend s) = Some tv" "rtt tv = Some (ms, um)"
  shows "\<exists>p. recv_packet (Datagram d now # es) s = Some (Inr 0, es, s\<lparr>recvpacket := p, tvrecv := tv,
      printed := printed s @ [\<lparr>pl_len = 64, pl_seq = le16 (d ! 26) (d ! 27), pl_ttl = d ! 8, pl_ms = ms, pl_um = um\<rparr>],
      nreceived := nreceived s + 1\<rparr>)"
proof -
  define p where "p = d @ drop 84 (recvpacket s)"
  have p: "wrn (recvpacket s) 0 d = Some p" using b d(1) by (simp add: wrn_def p_def PACKET_SIZE_def)
  have n: "p ! k = d ! k" if "k < 84" for k using that d(1) by (simp add: p_def nth_append)
  have l: "84 \<le> length p" "p \<noteq> []" using d(1) by (auto simp: p_def)
  show ?thesis
    using d l n t
    by (intro exI [of _ p]) (simp add: p PACKET_SIZE_def unpack_icmp_def rd8_def rd16_def ICMP_ECHOREPLY_def Let_def)
qed

text \<open>
  C6: the ping client against the server: whatever the client's counters and buffers are, it sends an
  echo request whose checksum verifies, and when any frame with that request reaches the server,
  \<open>do_ping_reply\<close> sends one frame back, which the client recognises as the answer: it counts it, ends
  its wait, and prints the sequence number of the request, 64 bytes, and the time between sending and
  receiving, in milliseconds and microseconds.
\<close>

theorem server_answers_ping:
  assumes "length (sendpacket s) = PACKET_SIZE" and "length (recvpacket s) = PACKET_SIZE"
    and "98 \<le> length packet" and "0 \<le> us" "us < 1000000" "0 \<le> us'" "us' < 1000000" "0 \<le> sec" "sec' \<le> INT_MAX"
    and "D = 1000000 * (sec' - sec) + (us' - us)" and "0 \<le> D" "D < 2147483000000"
  shows "\<exists>data s1. send_packet (sec, us) True s = Some (0, data, s1) \<and> length data = 64 \<and>
    cal_chksum data 64 = Some 0 \<and> nsend s1 = nsend s + 1 \<and>
    (take 64 (drop 34 packet) = data \<longrightarrow>
      (\<exists>f s2 l. do_ping_reply packet v = Some (v\<lparr>icmp_count := icmp_count v + 1, eth_sent := eth_sent v @ [f]\<rparr>) \<and>
        recv_packet (Datagram (drop 14 f) (sec', us') # es) s1 = Some (Inr 0, es, s2) \<and>
        nreceived s2 = nreceived s + 1 \<and> printed s2 = printed s @ [l] \<and> pl_len l = 64 \<and>
        pl_seq l = nsend s + 1 \<and> 1000 * uint (pl_ms l) + uint (pl_um l) = D))"
proof -
  let ?data = "request (pid s) (nsend s + 1) (take 56 (drop 8 (sendpacket s)))"
  obtain p where p: "length p = length (sendpacket s)"
      "send_packet (sec, us) True s = Some (0, ?data, s\<lparr>nsend := nsend s + 1, sendpacket := p, tvsend := (sec, us)\<rparr>)"
    using send_packet_run [of s "(sec, us)" True] assms(1) by (auto simp: PACKET_SIZE_def)
  let ?s = "s\<lparr>nsend := nsend s + 1, sendpacket := p, tvsend := (sec, us)\<rparr>"
  have len: "length ?data = 64" using assms(1) by (simp add: PACKET_SIZE_def)
  have ck: "cal_chksum ?data 64 = Some 0"
    using cal_chksum_rfc1071 [of 64 ?data] len request_verifies by simp
  have "\<exists>f s2 l. do_ping_reply packet v = Some (v\<lparr>icmp_count := icmp_count v + 1, eth_sent := eth_sent v @ [f]\<rparr>) \<and>
      recv_packet (Datagram (drop 14 f) (sec', us') # es) ?s = Some (Inr 0, es, s2) \<and>
      nreceived s2 = nreceived s + 1 \<and> printed s2 = printed s @ [l] \<and> pl_len l = 64 \<and>
      pl_seq l = nsend s + 1 \<and> 1000 * uint (pl_ms l) + uint (pl_um l) = D"
    if r: "take 64 (drop 34 packet) = ?data"
  proof -
    have k: "packet ! (34 + n) = ?data ! n" if "n < 64" for n
      using that assms(3) by (simp flip: r)
    have "packet ! 34 = 8" "packet ! 35 = 0"
      using k [of 0] k [of 1] request_fields by simp_all
    from ping_reply_frame [OF assms(3) this, of v] obtain f where
      f: "do_ping_reply packet v = Some (v\<lparr>icmp_count := icmp_count v + 1, eth_sent := eth_sent v @ [f]\<rparr>)"
        "length f = 98" "f ! 14 = 0x45" "f ! 34 = 0" "take 60 (drop 38 f) = take 60 (drop 38 packet)"
      by blast
    have c: "f ! (38 + n) = ?data ! (4 + n)" if "n < 60" for n
      using arg_cong [OF f(5), of "\<lambda>l. l ! n"] that assms(3) f(2) k [of "4 + n"] by simp
    have i: "f ! 38 = lo8 (pid s)" "f ! 39 = hi8 (pid s)" "f ! 40 = lo8 (nsend s + 1)" "f ! 41 = hi8 (nsend s + 1)"
      using c [of 0] c [of 1] c [of 2] c [of 3] request_fields by simp_all
    obtain tv ms um where t: "tv_sub (sec', us') (sec, us) = Some tv" "rtt tv = Some (ms, um)" "1000 * uint ms + uint um = D"
      using rtt_is_difference [OF assms(4-12)] by blast
    obtain q where q: "recv_packet (Datagram (drop 14 f) (sec', us') # es) ?s = Some (Inr 0, es, ?s\<lparr>recvpacket := q, tvrecv := tv,
        printed := printed s @ [\<lparr>pl_len = 64, pl_seq = le16 (f ! 40) (f ! 41), pl_ttl = f ! 22, pl_ms = ms, pl_um = um\<rparr>],
        nreceived := nreceived s + 1\<rparr>)"
      using recv_reply [of "drop 14 f" ?s "(sec', us')" tv ms um es] f(2-4) i assms(2) t by auto
    show ?thesis using f(1) q t(3) i by (intro exI [of _ f]) (simp add: q)
  qed
  then show ?thesis using p(2) len ck by (intro exI conjI) (assumption | simp)+
qed

definition demo_ping :: ping where
  "demo_ping = \<lparr>sendpacket = replicate PACKET_SIZE 0, recvpacket = replicate PACKET_SIZE 0, nsend = 0,
     nreceived = 0, pid = 2828, tvrecv = (0, 0), tvsend = (0, 0), printed = []\<rparr>"

theorem server_answers_ping_witness:
  "\<exists>data s1. send_packet (10, 999000) True demo_ping = Some (0, data, s1) \<and>
     (\<exists>f s2. do_ping_reply (replicate 34 0 @ data) \<lparr>linux_glue_ip_addr = 0, arp_reply_buf = [], icmp_count = 0, eth_sent = []\<rparr> =
         Some \<lparr>linux_glue_ip_addr = 0, arp_reply_buf = [], icmp_count = 1, eth_sent = [f]\<rparr> \<and>
       recv_packet [Datagram (drop 14 f) (11, 1500)] s1 = Some (Inr 0, [], s2) \<and> nreceived s2 = 1)"
proof -
  have l: "length (sendpacket demo_ping) = PACKET_SIZE" "length (recvpacket demo_ping) = PACKET_SIZE"
    by (simp_all add: demo_ping_def)
  let ?data = "request 2828 1 (replicate 56 0)"
  obtain p where p: "send_packet (10, 999000) True demo_ping =
      Some (0, ?data, demo_ping\<lparr>nsend := 1, sendpacket := p, tvsend := (10, 999000)\<rparr>)"
    using send_packet_run [of demo_ping "(10, 999000)" True] by (auto simp: demo_ping_def PACKET_SIZE_def)
  have n: "length (replicate 34 (0 :: u8) @ ?data) = 98" "take 64 (drop 34 (replicate 34 (0 :: u8) @ ?data)) = ?data"
    by simp_all
  show ?thesis
    using server_answers_ping [OF l, of "replicate 34 0 @ ?data" 999000 1500 10 11 2500
        "\<lparr>linux_glue_ip_addr = 0, arp_reply_buf = [], icmp_count = 0, eth_sent = []\<rparr>" "[]"] n p
    by (auto simp: INT_MAX_def demo_ping_def)
qed

end
