(* ===== verification/Tftp_Client.thy ===== *)
theory Tftp_Client imports Net_Types begin

section \<open>The TFTP client (\<open>git/ankh/examples/lwip/udp_tftp/main.c\<close>)\<close>

text \<open>
  \<open>tftp_down_file\<close> asks a server for a file and acknowledges its blocks (the contents are not kept),
  \<open>tftp_up_file\<close> sends a text. Requests, acknowledgements and received datagrams share one buffer of
  516 bytes, which starts with any contents. The socket is lwIP's: each \<open>sendto\<close> takes its success from
  \<open>ok\<close>, a function of the number of datagrams sent before, and a reception is an error or a
  datagram, of which \<open>recvfrom\<close> stores the first 516 bytes. The address of the server, which every
  reception overwrites, is left out.
\<close>

definition OP_RRQ :: u16 where "OP_RRQ = 1"
definition OP_WRQ :: u16 where "OP_WRQ = 2"
definition OP_DATA :: u16 where "OP_DATA = 3"
definition OP_ACK :: u16 where "OP_ACK = 4"
definition OP_ERROR :: u16 where "OP_ERROR = 5"

text \<open>The messages to the error codes 0 to 7; a code beyond the array is undefined.\<close>

definition error_string :: "string list" where
  "error_string = [''Not defined error!'', ''File not found!'', ''Access denied!'',
     ''Disk full or allocation exceeded!'', ''Illegal TFTP operation!'', ''Unknown transfer ID!'',
     ''File already exists!'', ''No such user!'']"

datatype reception = Recv_error | Datagram bytes

record tftp =
  buffer :: bytes
  last_packet :: int
  sent :: "bytes list"
  messages :: "string list"

text \<open>A call has returned a value, or waits for a datagram that has not come.\<close>

datatype outcome = Returned int | Waiting

type_synonym run = "(outcome \<times> tftp) option"

definition htons_bytes :: "u16 \<Rightarrow> bytes" where
  "htons_bytes w = [hi8 w, lo8 w]"

definition ntohs_at :: "bytes \<Rightarrow> nat \<Rightarrow> u16 option" where
  "ntohs_at m i = map_option swap16 (rd16 m i)"

definition netascii :: bytes where
  "netascii = map of_char ''netascii''"

text \<open>The request: operation, file name, mode, each of the two with its final zero; the number is its length.\<close>

definition put_request :: "u16 \<Rightarrow> bytes \<Rightarrow> bytes \<Rightarrow> (bytes \<times> nat) option" where
  "put_request op filename b = do {
     b \<leftarrow> wrn b 0 (htons_bytes op);
     b \<leftarrow> wrn b 2 (filename @ [0]);
     b \<leftarrow> wrn b (2 + length filename + 1) (netascii @ [0]);
     Some (b, 2 + length filename + 1 + 9)
   }"

text \<open>One \<open>sendto\<close> of the first \<open>n\<close> bytes of the buffer.\<close>

definition send_buffer :: "(nat \<Rightarrow> bool) \<Rightarrow> nat \<Rightarrow> tftp \<Rightarrow> (bool \<times> tftp) option" where
  "send_buffer ok n s = do {
     d \<leftarrow> rdn (buffer s) 0 n;
     Some (if ok (length (sent s)) then (True, s\<lparr>sent := sent s @ [d]\<rparr>) else (False, s))
   }"

definition store_datagram :: "bytes \<Rightarrow> tftp \<Rightarrow> tftp option" where
  "store_datagram d s = do {
     b \<leftarrow> wrn (buffer s) 0 (take 516 d);
     Some (s\<lparr>buffer := b\<rparr>)
   }"

definition print_error :: "tftp \<Rightarrow> tftp option" where
  "print_error s = do {
     code \<leftarrow> ntohs_at (buffer s) 2;
     (if unat code < length error_string then Some (s\<lparr>messages := messages s @ [error_string ! unat code]\<rparr>)
      else None)
   }"

subsection \<open>Download\<close>

text \<open>
  From the label \<open>loop_again\<close> on. After an accepted block of full size the loop comes back to the
  \<open>sendto\<close> at its head with the acknowledgement in the buffer; after a shorter one the
  acknowledgement is sent and the call returns.
\<close>

fun down_wait :: "(nat \<Rightarrow> bool) \<Rightarrow> reception list \<Rightarrow> tftp \<Rightarrow> run" where
  "down_wait ok [] s = Some (Waiting, s)"
| "down_wait ok (Recv_error # es) s = down_wait ok es s"
| "down_wait ok (Datagram d # es) s = do {
     s \<leftarrow> store_datagram d s;
     op \<leftarrow> ntohs_at (buffer s) 0;
     (if op = OP_DATA then do {
        current \<leftarrow> ntohs_at (buffer s) 2;
        (if last_packet s + 1 \<noteq> uint current then down_wait ok es s
         else do {
           let ret = int (length (take 516 d)) - 4;
           b \<leftarrow> wrn (buffer s) 0 (htons_bytes OP_ACK);
           b \<leftarrow> wrn b 2 (htons_bytes current);
           (sent_ok, s) \<leftarrow> send_buffer ok 4 (s\<lparr>last_packet := uint current, buffer := b\<rparr>);
           (if \<not> sent_ok then Some (Returned (- 1), s)
            else if ret \<noteq> 512 then Some (Returned 0, s)
            else down_wait ok es s)
         })
      }
      else if op = OP_ERROR then do { s \<leftarrow> print_error s; Some (Returned (- 1), s) }
      else Some (Returned (- 2), s))
   }"

definition tftp_down_file :: "bool \<Rightarrow> (nat \<Rightarrow> bool) \<Rightarrow> bytes \<Rightarrow> reception list \<Rightarrow> bytes \<Rightarrow> run" where
  "tftp_down_file socket_ok ok filename es b = do {
     let s = \<lparr>buffer = b, last_packet = 0, sent = [], messages = []\<rparr>;
     (if \<not> socket_ok then Some (Returned 0, s)
      else do {
        (b, n) \<leftarrow> put_request OP_RRQ filename b;
        (sent_ok, s) \<leftarrow> send_buffer ok n (s\<lparr>buffer := b\<rparr>);
        (if \<not> sent_ok then Some (Returned (- 1), s) else down_wait ok es s)
      })
   }"

subsection \<open>Upload\<close>

definition upload_text :: bytes where
  "upload_text = (let p = map of_char (''TFTP is a simple protocol to transfer files, and therefore was named the '' @
     ''Trivial File Transfer Protocol or TFTP.  It has been implemented on top of the Internet User '' @
     ''Datagram protocol (UDP or Datagram), so it may be used to move files between machines on '' @
     ''different networks implementing UDP.'')
   in p @ map of_char ''  -------------------------------'' @ p)"

definition last_text :: bytes where
  "last_text = map of_char ''hello, I come from suka, hello, I come from suka'' @ [10] @ map of_char ''[FILE OVER]'' @ [10]"

text \<open>\<open>strncpy\<close> stores exactly \<open>n\<close> bytes.\<close>

definition strncpy :: "bytes \<Rightarrow> nat \<Rightarrow> bytes \<Rightarrow> nat \<Rightarrow> bytes option" where
  "strncpy m i t n = wrn m i (take n (t @ replicate n 0))"

fun up_wait :: "(nat \<Rightarrow> bool) \<Rightarrow> reception list \<Rightarrow> tftp \<Rightarrow> run" where
  "up_wait ok [] s = Some (Waiting, s)"
| "up_wait ok (Recv_error # es) s = up_wait ok es s"
| "up_wait ok (Datagram d # es) s = do {
     s \<leftarrow> store_datagram d s;
     op \<leftarrow> ntohs_at (buffer s) 0;
     (if op = OP_ACK then do {
        current \<leftarrow> ntohs_at (buffer s) 2;
        (if last_packet s \<noteq> uint current then up_wait ok es s
         else do {
           n \<leftarrow> c_int (last_packet s + 1);
           b \<leftarrow> wrn (buffer s) 0 (htons_bytes OP_DATA);
           b \<leftarrow> wrn b 2 (htons_bytes (word_of_int n));
           b \<leftarrow> strncpy b 5 upload_text 512;
           b' \<leftarrow> (if current = 12 then strncpy b 5 last_text 100 else Some b);
           let s = s\<lparr>last_packet := n, buffer := b'\<rparr>;
           (if current = 13 then Some (Returned 0, s)
            else do {
              (sent_ok, s) \<leftarrow> send_buffer ok (if current = 12 then 100 else 516) s;
              (if \<not> sent_ok then Some (Returned (- 1), s) else up_wait ok es s)
            })
         })
      }
      else if op = OP_ERROR then do { s \<leftarrow> print_error s; Some (Returned (- 1), s) }
      else Some (Returned (- 2), s))
   }"

definition tftp_up_file :: "bool \<Rightarrow> bool \<Rightarrow> (nat \<Rightarrow> bool) \<Rightarrow> bytes \<Rightarrow> reception list \<Rightarrow> bytes \<Rightarrow> run" where
  "tftp_up_file socket_ok bind_ok ok filename es b = do {
     let s = \<lparr>buffer = b, last_packet = 0, sent = [], messages = []\<rparr>;
     (if \<not> socket_ok then Some (Returned 0, s)
      else if \<not> bind_ok then Some (Returned (- 1), s)
      else do {
        (b, n) \<leftarrow> put_request OP_WRQ filename b;
        (sent_ok, s) \<leftarrow> send_buffer ok n (s\<lparr>buffer := b\<rparr>);
        (if \<not> sent_ok then Some (Returned (- 1), s) else up_wait ok es s)
      })
   }"

subsection \<open>Datagrams and the buffer\<close>

definition data_packet :: "nat \<Rightarrow> bytes \<Rightarrow> bytes" where
  "data_packet k d = [0, 3] @ htons_bytes (word_of_nat k) @ d"

definition ack_packet :: "nat \<Rightarrow> bytes" where
  "ack_packet k = [0, 4] @ htons_bytes (word_of_nat k)"

text \<open>A data packet that is not block \<open>k\<close>.\<close>

definition stray :: "nat \<Rightarrow> bytes \<Rightarrow> bool" where
  "stray k x \<longleftrightarrow> 4 \<le> length x \<and> x ! 0 = 0 \<and> x ! 1 = 3 \<and> uint (le16 (x ! 3) (x ! 2)) \<noteq> int k"

lemma ntohs_at_in: "i + 1 < length m \<Longrightarrow> ntohs_at m i = Some (le16 (m ! (i + 1)) (m ! i))"
  by (simp add: ntohs_at_def rd16_def swap16_le16)

lemma store_datagram_run:
  assumes "length (buffer s) = 516" and "4 \<le> length x"
  obtains b where "store_datagram x s = Some (s\<lparr>buffer := b\<rparr>)" "length b = 516"
    "b ! 0 = x ! 0" "b ! 1 = x ! 1" "b ! 2 = x ! 2" "b ! 3 = x ! 3"
proof -
  let ?b = "take 516 x @ drop (length (take 516 x)) (buffer s)"
  have "store_datagram x s = Some (s\<lparr>buffer := ?b\<rparr>)" using assms by (simp add: store_datagram_def wrn_def)
  then show ?thesis by (rule that) (use assms in \<open>auto simp: nth_append\<close>)
qed

lemma op_numbers: "le16 3 0 = OP_DATA" "le16 4 0 = OP_ACK" "htons_bytes OP_ACK = [0, 4]"
  by (simp_all add: le16_def OP_DATA_def OP_ACK_def htons_bytes_def hi8_def lo8_def)

lemma down_stray:
  assumes "length (buffer s) = 516" and "stray k x" and "last_packet s + 1 = int k"
  obtains b where "down_wait ok (Datagram x # es) s = down_wait ok es (s\<lparr>buffer := b\<rparr>)" "length b = 516"
proof -
  obtain b where b: "store_datagram x s = Some (s\<lparr>buffer := b\<rparr>)" "length b = 516"
      "b ! 0 = x ! 0" "b ! 1 = x ! 1" "b ! 2 = x ! 2" "b ! 3 = x ! 3"
    using store_datagram_run [OF assms(1), of x] assms(2) by (auto simp: stray_def)
  then have "down_wait ok (Datagram x # es) s = down_wait ok es (s\<lparr>buffer := b\<rparr>)"
    using assms(2,3) by (simp add: ntohs_at_in stray_def op_numbers)
  then show ?thesis using b(2) that by blast
qed

lemma down_block:
  assumes "length (buffer s) = 516" and "last_packet s = int k" and "k < 65535" and "length d \<le> 512" and "\<forall>n. ok n"
  obtains b where "length b = 516" and "down_wait ok (Datagram (data_packet (k + 1) d) # es) s =
      (let s' = s\<lparr>last_packet := int k + 1, buffer := b, sent := sent s @ [ack_packet (k + 1)]\<rparr> in
       if length d = 512 then down_wait ok es s' else Some (Returned 0, s'))"
proof -
  let ?x = "data_packet (k + 1) d" and ?w = "word_of_nat (k + 1) :: u16"
  have x: "4 \<le> length ?x" "?x ! 0 = 0" "?x ! 1 = 3" "?x ! 2 = hi8 ?w" "?x ! 3 = lo8 ?w" "length ?x = 4 + length d"
    by (simp_all add: data_packet_def htons_bytes_def)
  have "uint ?w = int (k + 1)"
    using assms(3) by (simp del: of_nat_add of_nat_Suc add: unsigned_of_nat take_bit_nat_eq_self)
  then have w: "uint ?w = int k + 1" by simp
  obtain b where b: "store_datagram ?x s = Some (s\<lparr>buffer := b\<rparr>)" "length b = 516"
      "b ! 0 = ?x ! 0" "b ! 1 = ?x ! 1" "b ! 2 = ?x ! 2" "b ! 3 = ?x ! 3"
    using store_datagram_run [OF assms(1) x(1)] by blast
  define b' where "b' = [0, 4] @ htons_bytes ?w @ drop 4 b"
  have h: "length (htons_bytes ?w) = 2" by (simp add: htons_bytes_def)
  have wr: "wrn b 0 [0, 4] = Some ([0, 4] @ drop 2 b)" "wrn ([0, 4] @ drop 2 b) 2 (htons_bytes ?w) = Some b'"
    using b(2) h by (simp_all add: wrn_def b'_def numeral_eq_Suc)
  have l: "length b' = 516" using b(2) h by (simp add: b'_def)
  have r: "rdn b' 0 4 = Some (ack_packet (k + 1))"
    using b(2) by (simp add: rdn_def b'_def ack_packet_def htons_bytes_def)
  have "down_wait ok (Datagram ?x # es) s =
      (let s' = s\<lparr>last_packet := int k + 1, buffer := b', sent := sent s @ [ack_packet (k + 1)]\<rparr> in
       if length d = 512 then down_wait ok es s' else Some (Returned 0, s'))"
    using b x w wr r assms(2,4,5)
    by (simp add: ntohs_at_in op_numbers send_buffer_def Let_def)
  then show ?thesis using l that by blast
qed

subsection \<open>Downloads\<close>

text \<open>
  What a server that has the blocks \<open>ds\<close> beyond block \<open>k\<close> makes a client receive: each block in its
  turn, between them errors and any other data packets, repeated ones for instance.
\<close>

fun serves :: "nat \<Rightarrow> bytes list \<Rightarrow> reception list \<Rightarrow> bool" where
  "serves k [] es \<longleftrightarrow> True"
| "serves k (d # ds) [] \<longleftrightarrow> False"
| "serves k (d # ds) (Recv_error # es) \<longleftrightarrow> serves k (d # ds) es"
| "serves k (d # ds) (Datagram x # es) \<longleftrightarrow>
     x = data_packet (k + 1) d \<and> serves (k + 1) ds es \<or> stray (k + 1) x \<and> serves k (d # ds) es"

lemma down_wait_serves:
  "serves k ds es \<Longrightarrow> ds \<noteq> [] \<Longrightarrow> \<forall>d\<in>set (butlast ds). length d = 512 \<Longrightarrow> length (List.last ds) < 512 \<Longrightarrow>
   k + length ds \<le> 65535 \<Longrightarrow> \<forall>n. ok n \<Longrightarrow> length (buffer s) = 516 \<Longrightarrow> last_packet s = int k \<Longrightarrow>
   \<exists>s'. down_wait ok es s = Some (Returned 0, s') \<and>
     sent s' = sent s @ map ack_packet [k + 1 ..< k + length ds + 1]"
proof (induction k ds es arbitrary: s rule: serves.induct)
  case (3 k d ds es)
  then show ?case by simp
next
  case (4 k d ds x es)
  consider (mine) "x = data_packet (k + 1) d" "serves (k + 1) ds es" | (other) "stray (k + 1) x" "serves k (d # ds) es"
    using 4(3) by auto
  then show ?case
  proof cases
    case other
    obtain b where b: "down_wait ok (Datagram x # es) s = down_wait ok es (s\<lparr>buffer := b\<rparr>)" "length b = 516"
      using down_stray [OF 4(9) other(1)] 4(10) by auto
    show ?thesis using 4(2) [OF other(2) 4(4-8), of "s\<lparr>buffer := b\<rparr>"] b 4(10) by simp
  next
    case mine
    have l: "length d \<le> 512" using 4(5,6) by (cases ds) auto
    obtain b where b: "length b = 516" "down_wait ok (Datagram x # es) s =
      (let s' = s\<lparr>last_packet := int k + 1, buffer := b, sent := sent s @ [ack_packet (k + 1)]\<rparr> in
       if length d = 512 then down_wait ok es s' else Some (Returned 0, s'))"
      using down_block [OF 4(9,10) _ l 4(8), of es] 4(7) mine(1) by auto
    show ?thesis
    proof (cases ds)
      case Nil
      then show ?thesis using b(2) 4(6) by (simp add: Let_def)
    next
      case (Cons d' ds')
      let ?s = "s\<lparr>last_packet := int k + 1, buffer := b, sent := sent s @ [ack_packet (k + 1)]\<rparr>"
      have "\<exists>s'. down_wait ok es ?s = Some (Returned 0, s') \<and>
          sent s' = sent ?s @ map ack_packet [k + 1 + 1 ..< k + 1 + length ds + 1]"
        using 4(5-8) b(1) Cons by (intro 4(1) [OF mine(2)]) auto
      moreover have "[k + 1 ..< k + length (d # ds) + 1] = (k + 1) # [k + 1 + 1 ..< k + 1 + length ds + 1]"
        by (subst upt_conv_Cons) simp_all
      ultimately show ?thesis using b(2) 4(5) Cons by (simp add: Let_def)
    qed
  qed
qed simp_all

text \<open>
  C7: a download: when the server's blocks arrive in order, full ones and then a shorter last one, with
  any errors and other data packets in between, the call returns 0, and what it has sent is the
  request and one acknowledgement per block, in order.
\<close>

theorem download_completes:
  assumes "serves 0 (full @ [d]) es" and "\<forall>x\<in>set full. length x = 512" and "length d < 512"
    and "length full < 65535" and "length b = 516" and "length filename \<le> 504" and "\<forall>n. ok n"
  shows "\<exists>s. tftp_down_file True ok filename es b = Some (Returned 0, s) \<and>
    sent s = ([0, 1] @ filename @ [0] @ netascii @ [0]) # map ack_packet [1 ..< length full + 2]"
proof -
  define n where "n = length filename"
  have na: "length netascii = 8" by (simp add: netascii_def)
  let ?r = "[0, 1] @ filename @ [0] @ netascii @ [0]"
  have op: "htons_bytes OP_RRQ = [0, 1]" by (simp add: htons_bytes_def OP_RRQ_def hi8_def lo8_def)
  have w: "wrn b 0 [0, 1] = Some ([0, 1] @ drop 2 b)"
    "wrn ([0, 1] @ drop 2 b) 2 (filename @ [0]) = Some ([0, 1] @ filename @ [0] @ drop (3 + n) b)"
    "wrn ([0, 1] @ filename @ [0] @ drop (3 + n) b) (2 + n + 1) (netascii @ [0]) = Some (?r @ drop (12 + n) b)"
    using assms(5,6) na by (simp_all add: wrn_def n_def numeral_eq_Suc)
  have p: "put_request OP_RRQ filename b = Some (?r @ drop (12 + n) b, n + 12)"
    unfolding put_request_def op w(1) n_def [symmetric] by (simp only: Option.bind.bind_lunit w(2,3)) simp
  let ?s = "\<lparr>buffer = ?r @ drop (12 + n) b, last_packet = 0, sent = [?r], messages = []\<rparr>"
  have "length ?r = n + 12" using na by (simp add: n_def)
  then have "rdn (?r @ drop (12 + n) b) 0 (n + 12) = Some ?r"
    unfolding rdn_def by (simp only: drop0 add_0 length_append take_append) simp
  then have start: "tftp_down_file True ok filename es b = down_wait ok es ?s"
    using assms(7) by (simp add: tftp_down_file_def p send_buffer_def)
  have "length (buffer ?s) = 516" using assms(5,6) na by (simp add: n_def)
  then obtain s where "down_wait ok es ?s = Some (Returned 0, s)"
      "sent s = sent ?s @ map ack_packet [0 + 1 ..< 0 + length (full @ [d]) + 1]"
    using down_wait_serves [OF assms(1), of ok ?s] assms(2-4,7) by auto
  then show ?thesis using start by simp
qed

theorem download_completes_witness:
  "\<exists>s. tftp_down_file True (\<lambda>_. True) [104, 105]
      [Recv_error, Datagram (data_packet 1 (replicate 512 7)), Datagram (data_packet 1 (replicate 512 7)),
       Datagram (data_packet 2 [5])] (replicate 516 0) = Some (Returned 0, s)
    \<and> sent s = [[0, 1, 104, 105, 0] @ netascii @ [0], [0, 4, 0, 1], [0, 4, 0, 2]]"
proof -
  have "stray 2 (data_packet 1 (replicate 512 7))"
    by (simp add: stray_def data_packet_def htons_bytes_def)
  then have "serves 0 ([replicate 512 7] @ [[5]]) [Recv_error, Datagram (data_packet 1 (replicate 512 7)),
      Datagram (data_packet 1 (replicate 512 7)), Datagram (data_packet 2 [5])]"
    by (simp add: numeral_2_eq_2)
  from download_completes [OF this, of "replicate 516 0" "[104, 105]" "\<lambda>_. True"] show ?thesis
    by (simp add: ack_packet_def htons_bytes_def hi8_def lo8_def upt_rec)
qed

text \<open>
  How a download hangs: while only errors and data packets with another number than the expected
  one arrive, the client sends nothing. So when an acknowledgement is lost, the server's repetitions of
  the block are never answered; and after block 65535 no data packet at all brings the download on,
  since the expected number 65536 does not fit into a packet.
\<close>

theorem download_stalls:
  assumes "length (buffer s) = 516" and "0 \<le> last_packet s"
    and "\<forall>e\<in>set es. e = Recv_error \<or> (\<exists>j d. e = Datagram (data_packet j d) \<and> j < 65536 \<and>
      (int j \<noteq> last_packet s + 1 \<or> last_packet s = 65535))"
  shows "\<exists>b. down_wait ok es s = Some (Waiting, s\<lparr>buffer := b\<rparr>)"
  using assms
proof (induction es arbitrary: s)
  case Nil
  then show ?case by (intro exI [of _ "buffer s"]) simp
next
  case (Cons e es)
  show ?case
  proof (cases e)
    case Recv_error
    then show ?thesis using Cons.IH [of s] Cons.prems by simp
  next
    case (Datagram x)
    then obtain j d where j: "x = data_packet j d" "j < 65536" "int j \<noteq> last_packet s + 1"
      using Cons.prems(3) by auto
    define k where "k = nat (last_packet s + 1)"
    have k: "last_packet s + 1 = int k" using Cons.prems(2) by (simp add: k_def)
    have "uint (word_of_nat j :: u16) = int j"
      using j(2) by (simp add: unsigned_of_nat take_bit_nat_eq_self)
    then have "stray k x" using j k by (simp add: stray_def data_packet_def htons_bytes_def)
    then obtain b where b: "down_wait ok (Datagram x # es) s = down_wait ok es (s\<lparr>buffer := b\<rparr>)" "length b = 516"
      using down_stray [OF Cons.prems(1) _ k] by blast
    show ?thesis using Cons.IH [of "s\<lparr>buffer := b\<rparr>"] Cons.prems(2,3) b Datagram by auto
  qed
qed

theorem download_stalls_witness:
  "\<exists>b. down_wait (\<lambda>_. True) (replicate 9 (Datagram (data_packet 1 [5])))
      \<lparr>buffer = replicate 516 0, last_packet = 1, sent = [[0, 4, 0, 1]], messages = []\<rparr> =
    Some (Waiting, \<lparr>buffer = b, last_packet = 1, sent = [[0, 4, 0, 1]], messages = []\<rparr>)"
proof -
  let ?s = "\<lparr>buffer = replicate 516 0, last_packet = 1, sent = [[0, 4, 0, 1]], messages = []\<rparr> :: tftp"
  have "\<exists>j d. Datagram (data_packet 1 [5]) = Datagram (data_packet j d) \<and> j < 65536 \<and>
      (int j \<noteq> last_packet ?s + 1 \<or> last_packet ?s = 65535)" by (intro exI [of _ 1] exI [of _ "[5]"]) simp
  then show ?thesis
    using download_stalls [of ?s "replicate 9 (Datagram (data_packet 1 [5]))" "\<lambda>_. True"] by simp
qed

text \<open>An upload leaves its buffer at the first acknowledgement: 512 bytes are stored from byte 5 on.\<close>

lemma upload_overflows:
  assumes "length (buffer s) = 516" and "last_packet s = int k" and "k < 65536"
  shows "up_wait ok (Datagram (ack_packet k) # es) s = None"
proof -
  let ?w = "word_of_nat k :: u16"
  have x: "4 \<le> length (ack_packet k)" "ack_packet k ! 0 = 0" "ack_packet k ! 1 = 4" "ack_packet k ! 2 = hi8 ?w"
    "ack_packet k ! 3 = lo8 ?w" by (simp_all add: ack_packet_def htons_bytes_def)
  have w: "uint ?w = int k" using assms(3) by (simp add: unsigned_of_nat take_bit_nat_eq_self)
  obtain b where b: "store_datagram (ack_packet k) s = Some (s\<lparr>buffer := b\<rparr>)" "length b = 516"
      "b ! 0 = 0" "b ! 1 = 4" "b ! 2 = hi8 ?w" "b ! 3 = lo8 ?w"
    using store_datagram_run [OF assms(1) x(1)] x by metis
  have "strncpy m 5 upload_text 512 = None" if "length m = 516" for m
    using that by (simp add: strncpy_def wrn_def min_def)
  moreover have "length m = 516" if "wrn b 0 u = Some m'" "wrn m' 2 v = Some m" for m m' u v
    using that b(2) length_wrn by metis
  ultimately show ?thesis
    using b w assms(2) by (auto simp: ntohs_at_in op_numbers bind_eq_None_conv)
qed

end
