(* ===== verification/Socket_Files.thy ===== *)
theory Socket_Files imports Prelude begin

section \<open>BSD sockets of a client (\<open>git/ankh/lib/libc_be_socket\<close>)\<close>

text \<open>
  \<open>be.c\<close> gives a client the functions of BSD sockets on lwIP. An application sees file descriptors
  of the L4Re file system, lwIP has its own socket numbers; \<open>sock_fs.cc\<close> keeps the number in a
  \<open>Socket_file\<close> that it registers in the file system. The files and the table of descriptors are the
  part of the state that this library determines; lwIP, and the choice of a free descriptor, are
  functions on an arbitrary state. Addresses and options are bytes. A descriptor without a socket file
  is a null or wrongly cast pointer, hence \<open>None\<close>. Several descriptors may lead to one file, which
  counts them; the file system does what POSIX says of \<open>close\<close>, \<open>dup\<close> and \<open>dup2\<close>.
\<close>

record Socket_file =
  lwip_fd :: int
  connected :: bool
  refs :: nat

text \<open>Which file a descriptor leads to.\<close>

type_synonym file_table = "int \<Rightarrow> nat option"

record 'w lwip_ops =
  l_socket :: "int \<Rightarrow> int \<Rightarrow> int \<Rightarrow> 'w \<Rightarrow> int \<times> 'w"
  l_connect :: "int \<Rightarrow> bytes \<Rightarrow> 'w \<Rightarrow> int \<times> 'w"
  l_accept :: "int \<Rightarrow> 'w \<Rightarrow> (int \<times> bytes) \<times> 'w"
  l_bind :: "int \<Rightarrow> bytes \<Rightarrow> 'w \<Rightarrow> int \<times> 'w"
  l_getsockopt :: "int \<Rightarrow> int \<Rightarrow> int \<Rightarrow> 'w \<Rightarrow> (int \<times> bytes) \<times> 'w"
  l_setsockopt :: "int \<Rightarrow> int \<Rightarrow> int \<Rightarrow> bytes \<Rightarrow> 'w \<Rightarrow> int \<times> 'w"
  l_listen :: "int \<Rightarrow> int \<Rightarrow> 'w \<Rightarrow> int \<times> 'w"
  l_recv :: "int \<Rightarrow> nat \<Rightarrow> int \<Rightarrow> 'w \<Rightarrow> (int \<times> bytes) \<times> 'w"
  l_send :: "int \<Rightarrow> bytes \<Rightarrow> int \<Rightarrow> 'w \<Rightarrow> int \<times> 'w"
  l_sendto :: "int \<Rightarrow> bytes \<Rightarrow> int \<Rightarrow> bytes \<Rightarrow> 'w \<Rightarrow> int \<times> 'w"
  l_getsockname :: "int \<Rightarrow> 'w \<Rightarrow> (int \<times> bytes) \<times> 'w"
  l_getpeername :: "int \<Rightarrow> 'w \<Rightarrow> (int \<times> bytes) \<times> 'w"
  l_read :: "int \<Rightarrow> nat \<Rightarrow> 'w \<Rightarrow> (int \<times> bytes) \<times> 'w"
  l_write :: "int \<Rightarrow> bytes \<Rightarrow> 'w \<Rightarrow> int \<times> 'w"
  l_close :: "int \<Rightarrow> 'w \<Rightarrow> 'w"
  alloc_fd :: "file_table \<Rightarrow> int"

text \<open>\<open>next_file\<close> is where \<open>new\<close> puts the next file.\<close>

record 'w socks =
  fd_table :: file_table
  files :: "nat \<Rightarrow> Socket_file option"
  next_file :: nat
  lwip :: 'w
  errno :: int

definition EINVAL :: int where "EINVAL = 22"
definition EBADF :: int where "EBADF = 9"

subsection \<open>Socket files\<close>

text \<open>The destructor, run when the last reference to the file goes away.\<close>

definition destroy :: "'w lwip_ops \<Rightarrow> Socket_file \<Rightarrow> 'w \<Rightarrow> 'w" where
  "destroy l f w = (if 0 < lwip_fd f then l_close l (lwip_fd f) w else w)"

text \<open>A negative result of \<open>alloc_fd\<close> is an error; the new file is then dropped.\<close>

definition assign_fd_to_socket :: "'w lwip_ops \<Rightarrow> int \<Rightarrow> 'w socks \<Rightarrow> int \<times> 'w socks" where
  "assign_fd_to_socket l sockfd s = (let f = \<lparr>lwip_fd = sockfd, connected = False, refs = 1\<rparr>; fd = alloc_fd l (fd_table s)
     in if fd < 0 then (fd, s\<lparr>lwip := destroy l f (lwip s)\<rparr>)
        else (fd, s\<lparr>fd_table := (fd_table s)(fd \<mapsto> next_file s), files := (files s)(next_file s \<mapsto> f), next_file := next_file s + 1\<rparr>))"

text \<open>\<open>get_file\<close> of the file system.\<close>

definition get_file :: "int \<Rightarrow> 'w socks \<Rightarrow> Socket_file option" where
  "get_file fd s = do { a \<leftarrow> fd_table s fd; files s a }"

definition socket_for_fd :: "int \<Rightarrow> 'w socks \<Rightarrow> int option" where
  "socket_for_fd sock s = map_option lwip_fd (get_file sock s)"

definition mark_connected :: "int \<Rightarrow> int \<Rightarrow> 'w socks \<Rightarrow> 'w socks option" where
  "mark_connected sock val s = do {
     a \<leftarrow> fd_table s sock;
     f \<leftarrow> files s a;
     Some (s\<lparr>files := (files s)(a \<mapsto> f\<lparr>connected := (val = 1)\<rparr>)\<rparr>)
   }"

text \<open>The loops over the buffers of \<open>readv\<close> and \<open>writev\<close>.\<close>

fun read_loop :: "'w lwip_ops \<Rightarrow> int \<Rightarrow> nat list \<Rightarrow> int \<Rightarrow> bytes list \<Rightarrow> 'w \<Rightarrow> ((int \<times> bytes list) \<times> 'w) option" where
  "read_loop l k [] cnt out w = Some ((cnt, out), w)"
| "read_loop l k (n # ns) cnt out w = (case l_read l k n w of
     ((r, dat), w') \<Rightarrow> do { cnt' \<leftarrow> c_int (cnt + r); read_loop l k ns cnt' (out @ [dat]) w' })"

fun write_loop :: "'w lwip_ops \<Rightarrow> int \<Rightarrow> bytes list \<Rightarrow> int \<Rightarrow> 'w \<Rightarrow> (int \<times> 'w) option" where
  "write_loop l k [] cnt w = Some (cnt, w)"
| "write_loop l k (b # bs) cnt w = (case l_write l k b w of
     (r, w') \<Rightarrow> do { cnt' \<leftarrow> c_int (cnt + r); write_loop l k bs cnt' w' })"

definition readv :: "'w lwip_ops \<Rightarrow> int \<Rightarrow> nat list \<Rightarrow> 'w socks \<Rightarrow> ((int \<times> bytes list) \<times> 'w socks) option" where
  "readv l fd iov s = do {
     f \<leftarrow> get_file fd s;
     (if \<not> connected f then Some ((- 1, []), s\<lparr>errno := EINVAL\<rparr>)
      else do { (r, w) \<leftarrow> read_loop l (lwip_fd f) iov 0 [] (lwip s); Some (r, s\<lparr>lwip := w\<rparr>) })
   }"

definition writev :: "'w lwip_ops \<Rightarrow> int \<Rightarrow> bytes list \<Rightarrow> 'w socks \<Rightarrow> (int \<times> 'w socks) option" where
  "writev l fd iov s = do {
     f \<leftarrow> get_file fd s;
     (if \<not> connected f then Some (- 1, s\<lparr>errno := EINVAL\<rparr>)
      else do { (r, w) \<leftarrow> write_loop l (lwip_fd f) iov 0 (lwip s); Some (r, s\<lparr>lwip := w\<rparr>) })
   }"

definition fstat64 :: "int \<Rightarrow> 'w socks \<Rightarrow> int option" where
  "fstat64 fd s = map_option (\<lambda>_. - EINVAL) (get_file fd s)"

subsection \<open>The wrappers\<close>

text \<open>A call of lwIP on the socket of a descriptor.\<close>

definition on_socket :: "int \<Rightarrow> (int \<Rightarrow> 'w \<Rightarrow> 'r \<times> 'w) \<Rightarrow> 'w socks \<Rightarrow> ('r \<times> 'w socks) option" where
  "on_socket sockfd call s = do {
     sock \<leftarrow> socket_for_fd sockfd s;
     let (r, w) = call sock (lwip s);
     Some (r, s\<lparr>lwip := w\<rparr>)
   }"

definition socket :: "'w lwip_ops \<Rightarrow> int \<Rightarrow> int \<Rightarrow> int \<Rightarrow> 'w socks \<Rightarrow> int \<times> 'w socks" where
  "socket l domain type protocol s =
     (let (sockfd, w) = l_socket l domain type protocol (lwip s) in assign_fd_to_socket l sockfd (s\<lparr>lwip := w\<rparr>))"

definition connect :: "'w lwip_ops \<Rightarrow> int \<Rightarrow> bytes \<Rightarrow> 'w socks \<Rightarrow> (int \<times> 'w socks) option" where
  "connect l sockfd addr s = do {
     (ret, s) \<leftarrow> on_socket sockfd (\<lambda>k. l_connect l k addr) s;
     s \<leftarrow> (if ret = 0 then mark_connected sockfd 1 s else Some s);
     Some (ret, s)
   }"

definition accept :: "'w lwip_ops \<Rightarrow> int \<Rightarrow> 'w socks \<Rightarrow> ((int \<times> bytes) \<times> 'w socks) option" where
  "accept l sockfd = on_socket sockfd (l_accept l)"

definition bind_socket :: "'w lwip_ops \<Rightarrow> int \<Rightarrow> bytes \<Rightarrow> 'w socks \<Rightarrow> (int \<times> 'w socks) option" where
  "bind_socket l sockfd addr s = do {
     (ret, s) \<leftarrow> on_socket sockfd (\<lambda>k. l_bind l k addr) s;
     s \<leftarrow> (if ret = 0 then mark_connected sockfd 1 s else Some s);
     Some (ret, s)
   }"

definition getsockopt :: "'w lwip_ops \<Rightarrow> int \<Rightarrow> int \<Rightarrow> int \<Rightarrow> 'w socks \<Rightarrow> ((int \<times> bytes) \<times> 'w socks) option" where
  "getsockopt l sockfd level optname = on_socket sockfd (\<lambda>k. l_getsockopt l k level optname)"

definition setsockopt :: "'w lwip_ops \<Rightarrow> int \<Rightarrow> int \<Rightarrow> int \<Rightarrow> bytes \<Rightarrow> 'w socks \<Rightarrow> (int \<times> 'w socks) option" where
  "setsockopt l sockfd level optname optval = on_socket sockfd (\<lambda>k. l_setsockopt l k level optname optval)"

definition listen :: "'w lwip_ops \<Rightarrow> int \<Rightarrow> int \<Rightarrow> 'w socks \<Rightarrow> (int \<times> 'w socks) option" where
  "listen l sockfd backlog = on_socket sockfd (\<lambda>k. l_listen l k backlog)"

definition recv :: "'w lwip_ops \<Rightarrow> int \<Rightarrow> nat \<Rightarrow> int \<Rightarrow> 'w socks \<Rightarrow> ((int \<times> bytes) \<times> 'w socks) option" where
  "recv l sockfd len flags = on_socket sockfd (\<lambda>k. l_recv l k len flags)"

definition send :: "'w lwip_ops \<Rightarrow> int \<Rightarrow> bytes \<Rightarrow> int \<Rightarrow> 'w socks \<Rightarrow> (int \<times> 'w socks) option" where
  "send l sockfd buf flags = on_socket sockfd (\<lambda>k. l_send l k buf flags)"

definition sendto :: "'w lwip_ops \<Rightarrow> int \<Rightarrow> bytes \<Rightarrow> int \<Rightarrow> bytes \<Rightarrow> 'w socks \<Rightarrow> (int \<times> 'w socks) option" where
  "sendto l sockfd buf flags dest = on_socket sockfd (\<lambda>k. l_sendto l k buf flags dest)"

definition getsockname :: "'w lwip_ops \<Rightarrow> int \<Rightarrow> 'w socks \<Rightarrow> ((int \<times> bytes) \<times> 'w socks) option" where
  "getsockname l sockfd = on_socket sockfd (l_getsockname l)"

definition getpeername :: "'w lwip_ops \<Rightarrow> int \<Rightarrow> 'w socks \<Rightarrow> ((int \<times> bytes) \<times> 'w socks) option" where
  "getpeername l sockfd = on_socket sockfd (l_getpeername l)"

text \<open>Not implemented; \<open>errno\<close> gets a negative number.\<close>

definition getnameinfo :: int where "getnameinfo = - 4"

definition shutdown :: "int \<Rightarrow> int \<Rightarrow> 'w socks \<Rightarrow> int \<times> 'w socks" where
  "shutdown sockfd how s = (- 1, s\<lparr>errno := - EBADF\<rparr>)"

text \<open>\<open>gethostname\<close> into a buffer: \<open>strncpy\<close> of the name, then the last byte is set to zero.\<close>

definition gethostname :: "bytes \<Rightarrow> nat \<Rightarrow> (int \<times> bytes) option" where
  "gethostname name len = do {
     b \<leftarrow> wrn name 0 (take len (map of_char ''l4re-host'' @ replicate len 0));
     b \<leftarrow> (if len = 0 then None else wrn b (len - 1) [0]);
     Some (0, b)
   }"

text \<open>\<open>uclibc_to_lwip_sockaddr\<close> exchanges the first two bytes.\<close>

definition uclibc_to_lwip_sockaddr :: "bytes \<Rightarrow> bytes option" where
  "uclibc_to_lwip_sockaddr a = do { x \<leftarrow> rd8 a 0; y \<leftarrow> rd8 a 1; wrn a 0 [y, x] }"

text \<open>What the application does with descriptors in the file system. Closing the last descriptor of a file
  drops the file.\<close>

definition close_file :: "'w lwip_ops \<Rightarrow> int \<Rightarrow> 'w socks \<Rightarrow> 'w socks option" where
  "close_file l fd s = do {
     a \<leftarrow> fd_table s fd;
     f \<leftarrow> files s a;
     let s = s\<lparr>fd_table := (fd_table s)(fd := None)\<rparr>;
     Some (if refs f = 1 then s\<lparr>files := (files s)(a := None), lwip := destroy l f (lwip s)\<rparr>
           else s\<lparr>files := (files s)(a \<mapsto> f\<lparr>refs := refs f - 1\<rparr>)\<rparr>)
   }"

text \<open>A free descriptor \<open>n\<close> becomes another one for the file of \<open>fd\<close>.\<close>

definition share :: "int \<Rightarrow> int \<Rightarrow> 'w socks \<Rightarrow> 'w socks option" where
  "share fd n s = do {
     a \<leftarrow> fd_table s fd;
     f \<leftarrow> files s a;
     (if fd_table s n \<noteq> None then None
      else Some (s\<lparr>fd_table := (fd_table s)(n \<mapsto> a), files := (files s)(a \<mapsto> f\<lparr>refs := refs f + 1\<rparr>)\<rparr>))
   }"

definition dup :: "'w lwip_ops \<Rightarrow> int \<Rightarrow> 'w socks \<Rightarrow> (int \<times> 'w socks) option" where
  "dup l fd s = do {
     _ \<leftarrow> get_file fd s;
     let n = alloc_fd l (fd_table s);
     (if n < 0 then Some (n, s) else do { s \<leftarrow> share fd n s; Some (n, s) })
   }"

definition dup2 :: "'w lwip_ops \<Rightarrow> int \<Rightarrow> int \<Rightarrow> 'w socks \<Rightarrow> (int \<times> 'w socks) option" where
  "dup2 l fd n s = do {
     _ \<leftarrow> get_file fd s;
     (if n < 0 then Some (- 1, s\<lparr>errno := EBADF\<rparr>)
      else if n = fd then Some (n, s)
      else do { s \<leftarrow> (if fd_table s n = None then Some s else close_file l n s); s \<leftarrow> share fd n s; Some (n, s) })
   }"

subsection \<open>Descriptors and sockets\<close>

text \<open>
  What is relied on: \<open>opened\<close> are the sockets that lwIP has open; a new socket, also one from
  \<open>l_accept\<close>, was not open before, errors are -1 and open nothing, only \<open>l_close\<close> closes; a descriptor
  that is handed out was free.
\<close>

definition opens :: "('w \<Rightarrow> int set) \<Rightarrow> 'w \<Rightarrow> int \<Rightarrow> 'w \<Rightarrow> bool" where
  "opens opened w r w' \<longleftrightarrow> (if 0 \<le> r then r \<notin> opened w \<and> opened w' = insert r (opened w)
     else r = - 1 \<and> opened w' = opened w)"

definition quiet :: "('w \<Rightarrow> int set) \<Rightarrow> ('w \<Rightarrow> 'r \<times> 'w) \<Rightarrow> bool" where
  "quiet opened call \<longleftrightarrow> (\<forall>w. opened (snd (call w)) = opened w)"

definition lwip_ok :: "'w lwip_ops \<Rightarrow> ('w \<Rightarrow> int set) \<Rightarrow> bool" where
  "lwip_ok l opened \<longleftrightarrow>
     (\<forall>d t p w. opens opened w (fst (l_socket l d t p w)) (snd (l_socket l d t p w))) \<and>
     (\<forall>k w. opens opened w (fst (fst (l_accept l k w))) (snd (l_accept l k w))) \<and>
     (\<forall>k w. opened (l_close l k w) = opened w - {k}) \<and>
     (\<forall>k a. quiet opened (l_connect l k a) \<and> quiet opened (l_bind l k a)) \<and>
     (\<forall>k i j. quiet opened (l_getsockopt l k i j)) \<and> (\<forall>k i j b. quiet opened (l_setsockopt l k i j b)) \<and>
     (\<forall>k i. quiet opened (l_listen l k i)) \<and> (\<forall>k n i. quiet opened (l_recv l k n i)) \<and>
     (\<forall>k b i a. quiet opened (l_send l k b i) \<and> quiet opened (l_sendto l k b i a)) \<and>
     (\<forall>k. quiet opened (l_getsockname l k) \<and> quiet opened (l_getpeername l k)) \<and>
     (\<forall>k n. quiet opened (l_read l k n)) \<and> (\<forall>k b. quiet opened (l_write l k b)) \<and>
     (\<forall>t. 0 \<le> alloc_fd l t \<longrightarrow> t (alloc_fd l t) = None)"

inductive sock_step :: "'w lwip_ops \<Rightarrow> 'w socks \<Rightarrow> 'w socks \<Rightarrow> bool" for l where
  st_socket: "socket l d t p s = (r, s') \<Longrightarrow> sock_step l s s'"
| st_connect: "connect l fd a s = Some (r, s') \<Longrightarrow> sock_step l s s'"
| st_bind: "bind_socket l fd a s = Some (r, s') \<Longrightarrow> sock_step l s s'"
| st_accept: "accept l fd s = Some (x, s') \<Longrightarrow> sock_step l s s'"
| st_getsockopt: "getsockopt l fd i j s = Some (x, s') \<Longrightarrow> sock_step l s s'"
| st_setsockopt: "setsockopt l fd i j b s = Some (r, s') \<Longrightarrow> sock_step l s s'"
| st_listen: "listen l fd i s = Some (r, s') \<Longrightarrow> sock_step l s s'"
| st_recv: "recv l fd n i s = Some (x, s') \<Longrightarrow> sock_step l s s'"
| st_send: "send l fd b i s = Some (r, s') \<Longrightarrow> sock_step l s s'"
| st_sendto: "sendto l fd b i a s = Some (r, s') \<Longrightarrow> sock_step l s s'"
| st_getsockname: "getsockname l fd s = Some (x, s') \<Longrightarrow> sock_step l s s'"
| st_getpeername: "getpeername l fd s = Some (x, s') \<Longrightarrow> sock_step l s s'"
| st_shutdown: "shutdown fd i s = (r, s') \<Longrightarrow> sock_step l s s'"
| st_readv: "readv l fd ns s = Some (y, s') \<Longrightarrow> sock_step l s s'"
| st_writev: "writev l fd bs s = Some (r, s') \<Longrightarrow> sock_step l s s'"
| st_close: "close_file l fd s = Some s' \<Longrightarrow> sock_step l s s'"
| st_dup: "dup l fd s = Some (r, s') \<Longrightarrow> sock_step l s s'"
| st_dup2: "dup2 l fd n s = Some (r, s') \<Longrightarrow> sock_step l s s'"

text \<open>The descriptors of a file.\<close>

definition fds_of :: "'w socks \<Rightarrow> nat \<Rightarrow> int set" where
  "fds_of s a = {fd. fd_table s fd = Some a}"

definition table_inv :: "'w socks \<Rightarrow> bool" where
  "table_inv s \<longleftrightarrow> (\<forall>fd a. fd_table s fd = Some a \<longrightarrow> files s a \<noteq> None) \<and> (\<forall>a. files s a \<noteq> None \<longrightarrow> a < next_file s)
     \<and> (\<forall>a f. files s a = Some f \<longrightarrow> 0 < refs f \<and> refs f = card (fds_of s a))"

definition sock_inv :: "('w \<Rightarrow> int set) \<Rightarrow> 'w socks \<Rightarrow> bool" where
  "sock_inv opened s \<longleftrightarrow> table_inv s \<and>
     (\<forall>a f. files s a = Some f \<longrightarrow> lwip_fd f = - 1 \<or> 0 \<le> lwip_fd f \<and> lwip_fd f \<in> opened (lwip s)) \<and>
     (\<forall>a a' f f'. files s a = Some f \<longrightarrow> files s a' = Some f' \<longrightarrow> lwip_fd f = lwip_fd f' \<longrightarrow> a = a' \<or> lwip_fd f = - 1)"

lemma table_inv_same: "fd_table s' = fd_table s \<Longrightarrow> files s' = files s \<Longrightarrow> next_file s' = next_file s \<Longrightarrow> table_inv s' = table_inv s"
  by (simp add: table_inv_def fds_of_def)

lemma sock_inv_same:
  "fd_table s' = fd_table s \<Longrightarrow> files s' = files s \<Longrightarrow> next_file s' = next_file s \<Longrightarrow> opened (lwip s) \<subseteq> opened (lwip s') \<Longrightarrow>
    sock_inv opened s \<Longrightarrow> sock_inv opened s'"
  unfolding sock_inv_def using table_inv_same [of s' s] by auto

lemma quietD: "quiet opened call \<Longrightarrow> call w = (r, v) \<Longrightarrow> opened v = opened w"
  by (metis quiet_def snd_conv)

lemma on_socket_Some:
  "on_socket fd call s = Some (r, s') \<longleftrightarrow>
   (\<exists>f w. get_file fd s = Some f \<and> call (lwip_fd f) (lwip s) = (r, w) \<and> s' = s\<lparr>lwip := w\<rparr>)"
  by (cases "get_file fd s") (auto simp: on_socket_def socket_for_fd_def case_prod_beta prod_eq_iff)

lemma on_socket_files: "on_socket fd call s = Some (r, s') \<Longrightarrow>
    fd_table s' = fd_table s \<and> files s' = files s \<and> next_file s' = next_file s"
  by (auto simp: on_socket_Some)

lemma on_socket_quiet:
  "on_socket fd call s = Some (r, s') \<Longrightarrow> (\<And>k. quiet opened (call k)) \<Longrightarrow> opened (lwip s') = opened (lwip s)"
  unfolding on_socket_Some by (elim exE conjE) (simp, blast dest: quietD)

lemma get_file_Some: "get_file fd s = Some f \<longleftrightarrow> (\<exists>a. fd_table s fd = Some a \<and> files s a = Some f)"
  by (cases "fd_table s fd") (simp_all add: get_file_def)

lemma table_invD:
  assumes "table_inv s"
  shows "fd_table s fd = Some a \<Longrightarrow> \<exists>f. files s a = Some f" and "files s a = Some f \<Longrightarrow> a < next_file s"
    and "files s a = Some f \<Longrightarrow> 0 < refs f \<and> refs f = card (fds_of s a) \<and> finite (fds_of s a)"
proof -
  show "fd_table s fd = Some a \<Longrightarrow> \<exists>f. files s a = Some f" "files s a = Some f \<Longrightarrow> a < next_file s"
    using assms by (auto simp: table_inv_def)
  assume f: "files s a = Some f"
  have "0 < refs f" "refs f = card (fds_of s a)" using assms f unfolding table_inv_def by blast+
  then show "0 < refs f \<and> refs f = card (fds_of s a) \<and> finite (fds_of s a)" using card_ge_0_finite by metis
qed

text \<open>A file that is changed stays at its socket.\<close>

lemma sock_inv_upd:
  assumes "sock_inv opened s" and "files s a = Some f" and "lwip_fd g = lwip_fd f" and "refs g = refs f"
  shows "sock_inv opened (s\<lparr>files := (files s)(a \<mapsto> g)\<rparr>)"
proof -
  let ?t = "s\<lparr>files := (files s)(a \<mapsto> g)\<rparr>"
  have s: "table_inv s" "\<And>b f. files s b = Some f \<Longrightarrow> lwip_fd f = - 1 \<or> 0 \<le> lwip_fd f \<and> lwip_fd f \<in> opened (lwip s)"
    "\<And>b c f h. files s b = Some f \<Longrightarrow> files s c = Some h \<Longrightarrow> lwip_fd f = lwip_fd h \<Longrightarrow> b = c \<or> lwip_fd f = - 1"
    using assms(1) unfolding sock_inv_def by blast+
  have F: "\<exists>h'. files s b = Some h' \<and> lwip_fd h' = lwip_fd h \<and> refs h' = refs h" if "files ?t b = Some h" for b h
    using that assms(2-4) by (cases "b = a") auto
  have d: "fds_of ?t b = fds_of s b" for b by (simp add: fds_of_def)
  have "table_inv ?t" unfolding table_inv_def d
  proof (intro conjI allI impI)
    fix b h assume "files ?t b = Some h"
    then obtain h' where h: "files s b = Some h'" "refs h' = refs h" using F by blast
    from table_invD(3) [OF s(1) h(1)] show "0 < refs h" "refs h = card (fds_of s b)" unfolding h(2) by blast+
  next
    fix b assume "files ?t b \<noteq> None"
    then show "b < next_file ?t" using table_invD(2) [OF s(1)] F by fastforce
  next
    fix fd b assume "fd_table ?t fd = Some b"
    then show "files ?t b \<noteq> None" using table_invD(1) [OF s(1)] by fastforce
  qed
  moreover have "lwip_fd h = - 1 \<or> 0 \<le> lwip_fd h \<and> lwip_fd h \<in> opened (lwip ?t)" if h: "files ?t b = Some h" for b h
  proof -
    obtain h' where "files s b = Some h'" "lwip_fd h' = lwip_fd h" using F [OF h] by blast
    then show ?thesis using s(2) [of b h'] by simp
  qed
  moreover have "b = c \<or> lwip_fd h = - 1" if h: "files ?t b = Some h" "files ?t c = Some k" "lwip_fd h = lwip_fd k" for b c h k
  proof -
    obtain h' k' where "files s b = Some h'" "lwip_fd h' = lwip_fd h" "files s c = Some k'" "lwip_fd k' = lwip_fd k"
      using F [OF h(1)] F [OF h(2)] by blast
    then show ?thesis using s(3) [of b h' c k'] h(3) by simp
  qed
  ultimately show ?thesis unfolding sock_inv_def by blast
qed

lemma mark_inv: "mark_connected fd v s = Some s' \<Longrightarrow> sock_inv opened s \<Longrightarrow> sock_inv opened s'"
  by (auto simp: mark_connected_def bind_eq_Some_conv intro: sock_inv_upd)

lemma read_loop_quiet:
  "read_loop l k ns c out w = Some (x, w') \<Longrightarrow> (\<And>n. quiet opened (l_read l k n)) \<Longrightarrow> opened w' = opened w"
proof (induction ns arbitrary: c out w)
  case (Cons n ns)
  obtain r dat v where r: "l_read l k n w = ((r, dat), v)" by (metis surj_pair)
  then have "opened v = opened w" using quietD [OF Cons.prems(2)] by blast
  then show ?case using Cons.IH [of _ _ v] Cons.prems r by (auto simp: bind_eq_Some_conv)
qed simp

lemma write_loop_quiet:
  "write_loop l k bs c w = Some (x, w') \<Longrightarrow> (\<And>b. quiet opened (l_write l k b)) \<Longrightarrow> opened w' = opened w"
proof (induction bs arbitrary: c w)
  case (Cons b bs)
  obtain r v where r: "l_write l k b w = (r, v)" by (metis surj_pair)
  then have "opened v = opened w" using quietD [OF Cons.prems(2)] by blast
  then show ?case using Cons.IH [of _ v] Cons.prems r by (auto simp: bind_eq_Some_conv)
qed simp

lemma ok_quiet:
  assumes "lwip_ok l opened"
  shows "quiet opened (l_connect l k a)" "quiet opened (l_bind l k a)" "quiet opened (l_getsockopt l k i j)"
    "quiet opened (l_setsockopt l k i j b)" "quiet opened (l_listen l k i)" "quiet opened (l_recv l k n i)"
    "quiet opened (l_send l k b i)" "quiet opened (l_sendto l k b i a)" "quiet opened (l_getsockname l k)"
    "quiet opened (l_getpeername l k)" "quiet opened (l_read l k n)" "quiet opened (l_write l k b)"
  using assms by (simp_all add: lwip_ok_def)

lemma ok_opens:
  assumes "lwip_ok l opened"
  shows "l_socket l d t p w = (r, w') \<Longrightarrow> opens opened w r w'"
    and "l_accept l k w = ((r, a), w') \<Longrightarrow> opens opened w r w'"
    and "opened (l_close l k w) = opened w - {k}"
    and "0 \<le> alloc_fd l tab \<Longrightarrow> tab (alloc_fd l tab) = None"
proof -
  have s: "opens opened w (fst (l_socket l d t p w)) (snd (l_socket l d t p w))"
    and a: "opens opened w (fst (fst (l_accept l k w))) (snd (l_accept l k w))"
    using assms by (simp_all add: lwip_ok_def)
  show "l_socket l d t p w = (r, w') \<Longrightarrow> opens opened w r w'" using s by simp
  show "l_accept l k w = ((r, a), w') \<Longrightarrow> opens opened w r w'" using a by simp
  show "opened (l_close l k w) = opened w - {k}" "0 \<le> alloc_fd l tab \<Longrightarrow> tab (alloc_fd l tab) = None"
    using assms by (simp_all add: lwip_ok_def)
qed

lemma destroy_opened: "lwip_ok l opened \<Longrightarrow> opened (destroy l f w) = (if 0 < lwip_fd f then opened w - {lwip_fd f} else opened w)"
  by (simp add: destroy_def ok_opens(3))

text \<open>The table when a file is registered, shared, and loses a descriptor.\<close>

lemma table_new:
  assumes t: "table_inv s" and fd: "fd_table s fd = None" and f: "refs f = 1"
  shows "table_inv (s\<lparr>lwip := w, fd_table := (fd_table s)(fd \<mapsto> next_file s), files := (files s)(next_file s \<mapsto> f), next_file := next_file s + 1\<rparr>)"
    (is "table_inv ?t")
proof -
  have n: "files s (next_file s) = None" using table_invD(2) [OF t, of "next_file s"] by (cases "files s (next_file s)") auto
  then have "fds_of s (next_file s) = {}" using table_invD(1) [OF t] by (fastforce simp: fds_of_def)
  then have d: "fds_of ?t a = (if a = next_file s then {fd} else fds_of s a)" for a using fd by (auto simp: fds_of_def)
  show ?thesis unfolding table_inv_def d
  proof (intro conjI allI impI)
    fix e a assume "fd_table ?t e = Some a"
    then show "files ?t a \<noteq> None" using table_invD(1) [OF t, of e a] by (auto split: if_splits)
  next
    fix a assume "files ?t a \<noteq> None"
    then show "a < next_file ?t" using table_invD(2) [OF t, of a] by (fastforce split: if_splits)
  next
    fix a g assume g: "files ?t a = Some g"
    show "0 < refs g" "refs g = card (if a = next_file s then {fd} else fds_of s a)"
      using g f table_invD(3) [OF t, of a g] by (auto split: if_splits)
  qed
qed

lemma table_share:
  assumes t: "table_inv s" and a: "fd_table s fd = Some a" "files s a = Some f" and n: "fd_table s n = None"
  shows "table_inv (s\<lparr>fd_table := (fd_table s)(n \<mapsto> a), files := (files s)(a \<mapsto> f\<lparr>refs := refs f + 1\<rparr>)\<rparr>)" (is "table_inv ?t")
proof -
  have d: "fds_of ?t b = (if b = a then insert n (fds_of s a) else fds_of s b)" for b using n by (auto simp: fds_of_def)
  have na: "n \<notin> fds_of s a" using n by (simp add: fds_of_def)
  show ?thesis unfolding table_inv_def d
  proof (intro conjI allI impI)
    fix e b assume "fd_table ?t e = Some b"
    then show "files ?t b \<noteq> None" using table_invD(1) [OF t, of e b] by (auto split: if_splits)
  next
    fix b assume "files ?t b \<noteq> None"
    then show "b < next_file ?t" using table_invD(2) [OF t, of b] a(2) by (auto split: if_splits)
  next
    fix b g assume g: "files ?t b = Some g"
    show "0 < refs g" "refs g = card (if b = a then insert n (fds_of s a) else fds_of s b)"
      using g table_invD(3) [OF t, of b] a(2) na by (auto split: if_splits)
  qed
qed

lemma table_drop:
  assumes t: "table_inv s" and a: "fd_table s fd = Some a" "files s a = Some f" and r: "refs f \<noteq> 1"
  shows "table_inv (s\<lparr>fd_table := (fd_table s)(fd := None), files := (files s)(a \<mapsto> f\<lparr>refs := refs f - 1\<rparr>)\<rparr>)" (is "table_inv ?t")
proof -
  have d: "fds_of ?t b = (if b = a then fds_of s a - {fd} else fds_of s b)" for b using a(1) by (auto simp: fds_of_def)
  have fa: "fd \<in> fds_of s a" using a(1) by (simp add: fds_of_def)
  show ?thesis unfolding table_inv_def d
  proof (intro conjI allI impI)
    fix e b assume "fd_table ?t e = Some b"
    then show "files ?t b \<noteq> None" using table_invD(1) [OF t, of e b] by (auto split: if_splits)
  next
    fix b assume "files ?t b \<noteq> None"
    then show "b < next_file ?t" using table_invD(2) [OF t, of b] a(2) by (auto split: if_splits)
  next
    fix b g assume g: "files ?t b = Some g"
    show "0 < refs g" "refs g = card (if b = a then fds_of s a - {fd} else fds_of s b)"
      using g table_invD(3) [OF t, of b] a(2) fa r by (auto split: if_splits simp: card_Diff_singleton)
  qed
qed

lemma last_descriptor:
  assumes t: "table_inv s" and a: "fd_table s fd = Some a" "files s a = Some f"
  shows "refs f = 1 \<longleftrightarrow> (\<forall>e. fd_table s e = Some a \<longrightarrow> e = fd)"
proof -
  have c: "refs f = card (fds_of s a)" "finite (fds_of s a)" "fd \<in> fds_of s a"
    using table_invD(3) [OF t a(2)] a(1) by (simp_all add: fds_of_def)
  then have "refs f = 1 \<longleftrightarrow> fds_of s a = {fd}" by (metis card_1_singletonE is_singletonI is_singleton_altdef singletonD)
  also have "\<dots> \<longleftrightarrow> (\<forall>e. fd_table s e = Some a \<longrightarrow> e = fd)" using a(1) by (auto simp: fds_of_def)
  finally show ?thesis .
qed

lemma table_remove:
  assumes t: "table_inv s" and a: "fd_table s fd = Some a" "files s a = Some f" and r: "refs f = 1"
  shows "table_inv (s\<lparr>fd_table := (fd_table s)(fd := None), files := (files s)(a := None), lwip := w\<rparr>)" (is "table_inv ?t")
proof -
  have only: "\<forall>e. fd_table s e = Some a \<longrightarrow> e = fd" using last_descriptor [OF t a] r by simp
  have d: "fds_of ?t b = fds_of s b" if "b \<noteq> a" for b using a(1) that by (auto simp: fds_of_def)
  show ?thesis unfolding table_inv_def
  proof (intro conjI allI impI)
    fix e b assume e: "fd_table ?t e = Some b"
    then have "e \<noteq> fd" "fd_table s e = Some b" by (auto split: if_splits)
    then show "files ?t b \<noteq> None" using table_invD(1) [OF t, of e b] only by auto
  next
    fix b assume "files ?t b \<noteq> None"
    then show "b < next_file ?t" using table_invD(2) [OF t, of b] by (auto split: if_splits)
  next
    fix b g assume g: "files ?t b = Some g"
    then have "b \<noteq> a" "files s b = Some g" by (auto split: if_splits)
    then show "0 < refs g" "refs g = card (fds_of ?t b)" using table_invD(3) [OF t, of b g] d by simp_all
  qed
qed

text \<open>Files that go on at their sockets.\<close>

definition goes_on :: "'w socks \<Rightarrow> 'w socks \<Rightarrow> bool" where
  "goes_on s t \<longleftrightarrow> (\<forall>a g. files t a = Some g \<longrightarrow> (\<exists>f. files s a = Some f \<and> lwip_fd f = lwip_fd g))"

lemma goes_on_inv:
  assumes "sock_inv opened s" and "table_inv t" and g: "goes_on s t"
    and o: "\<And>a f. files t a = Some f \<Longrightarrow> lwip_fd f \<in> opened (lwip s) \<Longrightarrow> lwip_fd f \<in> opened (lwip t)"
  shows "sock_inv opened t"
proof -
  have s: "\<And>b f. files s b = Some f \<Longrightarrow> lwip_fd f = - 1 \<or> 0 \<le> lwip_fd f \<and> lwip_fd f \<in> opened (lwip s)"
    "\<And>b c f h. files s b = Some f \<Longrightarrow> files s c = Some h \<Longrightarrow> lwip_fd f = lwip_fd h \<Longrightarrow> b = c \<or> lwip_fd f = - 1"
    using assms(1) unfolding sock_inv_def by blast+
  have "lwip_fd h = - 1 \<or> 0 \<le> lwip_fd h \<and> lwip_fd h \<in> opened (lwip t)" if h: "files t b = Some h" for b h
  proof -
    obtain f where "files s b = Some f" "lwip_fd f = lwip_fd h" using g h unfolding goes_on_def by blast
    then show ?thesis using s(1) [of b f] o [OF h] by auto
  qed
  moreover have "b = c \<or> lwip_fd h = - 1" if h: "files t b = Some h" "files t c = Some k" "lwip_fd h = lwip_fd k" for b c h k
  proof -
    obtain f f' where "files s b = Some f" "lwip_fd f = lwip_fd h" "files s c = Some f'" "lwip_fd f' = lwip_fd k"
      using g h(1,2) unfolding goes_on_def by meson
    then show ?thesis using s(2) [of b f c f'] h(3) by simp
  qed
  ultimately show ?thesis using assms(2) unfolding sock_inv_def by blast
qed

lemma socket_cases:
  assumes "lwip_ok l opened" and "socket l d t p s = (r, s')" and "table_inv s"
  obtains (full) k w where "opens opened (lwip s) k w" "s' = s\<lparr>lwip := destroy l \<lparr>lwip_fd = k, connected = False, refs = 1\<rparr> w\<rparr>"
  | (new) k w fd where "opens opened (lwip s) k w" "fd_table s fd = None" "files s (next_file s) = None"
      "s' = s\<lparr>lwip := w, fd_table := (fd_table s)(fd \<mapsto> next_file s),
         files := (files s)(next_file s \<mapsto> \<lparr>lwip_fd = k, connected = False, refs = 1\<rparr>), next_file := next_file s + 1\<rparr>"
proof -
  obtain k w where k: "l_socket l d t p (lwip s) = (k, w)" by (metis surj_pair)
  then have o: "opens opened (lwip s) k w" by (rule ok_opens(1) [OF assms(1)])
  have n: "files s (next_file s) = None" using table_invD(2) [OF assms(3), of "next_file s"] by (cases "files s (next_file s)") auto
  show ?thesis
  proof (cases "alloc_fd l (fd_table s) < 0")
    case True
    then show ?thesis using full [OF o] assms(2) by (simp add: socket_def k assign_fd_to_socket_def Let_def)
  next
    case False
    then have "fd_table s (alloc_fd l (fd_table s)) = None" using ok_opens(4) [OF assms(1)] by simp
    moreover have "s' = s\<lparr>lwip := w, fd_table := (fd_table s)(alloc_fd l (fd_table s) \<mapsto> next_file s),
         files := (files s)(next_file s \<mapsto> \<lparr>lwip_fd = k, connected = False, refs = 1\<rparr>), next_file := next_file s + 1\<rparr>"
      using False assms(2) by (auto simp: socket_def k assign_fd_to_socket_def Let_def)
    ultimately show ?thesis using new o n by blast
  qed
qed

lemma full_opened: "lwip_ok l opened \<Longrightarrow> opens opened v k w \<Longrightarrow>
    opened (destroy l \<lparr>lwip_fd = k, connected = False, refs = 1\<rparr> w) - {0} = opened v - {0} \<and>
    opened v \<subseteq> opened (destroy l \<lparr>lwip_fd = k, connected = False, refs = 1\<rparr> w)"
  using ok_opens(3) [of l opened] by (auto simp: opens_def destroy_def split: if_splits)

lemma socket_inv:
  assumes ok: "lwip_ok l opened" and r: "socket l d t p s = (r, s')" and i: "sock_inv opened s"
  shows "sock_inv opened s'"
proof -
  have t: "table_inv s" using i by (simp add: sock_inv_def)
  from ok r t show ?thesis
  proof (cases rule: socket_cases)
    case (full k w)
    then show ?thesis using full_opened [OF ok full(1)] i by (intro sock_inv_same [of s' s]) simp_all
  next
    case (new k w fd)
    let ?f = "\<lparr>lwip_fd = k, connected = False, refs = 1\<rparr>"
    have k: "k = - 1 \<or> 0 \<le> k \<and> k \<in> opened w" using new(1) by (auto simp: opens_def split: if_splits)
    have o: "lwip_fd f = - 1 \<or> 0 \<le> lwip_fd f \<and> lwip_fd f \<in> opened w \<and> lwip_fd f \<noteq> k" if "files s a = Some f" for a f
      using i that new(1) unfolding sock_inv_def opens_def by (fastforce split: if_splits)
    have d: "a = b \<or> lwip_fd f = - 1" if "files s a = Some f" "files s b = Some g" "lwip_fd f = lwip_fd g" for a b f g
      using i that unfolding sock_inv_def by blast
    have "table_inv s'" unfolding new(4) by (rule table_new [OF t new(2)]) simp
    then show ?thesis unfolding sock_inv_def
    proof (intro conjI allI impI)
      fix a g assume "files s' a = Some g"
      then show "lwip_fd g = - 1 \<or> 0 \<le> lwip_fd g \<and> lwip_fd g \<in> opened (lwip s')"
        using k o [of a g] by (cases "a = next_file s") (auto simp: new(4))
    next
      fix a b g h assume g: "files s' a = Some g" "files s' b = Some h" "lwip_fd g = lwip_fd h"
      show "a = b \<or> lwip_fd g = - 1"
        by (cases "a = next_file s"; cases "b = next_file s") (use g o [of a g] o [of b h] d [of a g b h] in \<open>auto simp: new(4)\<close>)
    qed
  qed
qed

lemma close_cases:
  assumes "close_file l fd s = Some s'"
  obtains a f where "fd_table s fd = Some a" "files s a = Some f" "refs f = 1"
      "s' = s\<lparr>fd_table := (fd_table s)(fd := None), files := (files s)(a := None), lwip := destroy l f (lwip s)\<rparr>"
  | a f where "fd_table s fd = Some a" "files s a = Some f" "refs f \<noteq> 1"
      "s' = s\<lparr>fd_table := (fd_table s)(fd := None), files := (files s)(a \<mapsto> f\<lparr>refs := refs f - 1\<rparr>)\<rparr>"
proof -
  from assms obtain a f where a: "fd_table s fd = Some a" "files s a = Some f" by (auto simp: close_file_def bind_eq_Some_conv)
  show ?thesis
  proof (cases "refs f = 1")
    case True
    then show ?thesis using that(1) [OF a] assms a by (simp add: close_file_def)
  next
    case False
    then show ?thesis using that(2) [OF a] assms a by (simp add: close_file_def)
  qed
qed

lemma share_cases:
  assumes "share fd n s = Some s'"
  obtains a f where "fd_table s fd = Some a" "files s a = Some f" "fd_table s n = None"
    "s' = s\<lparr>fd_table := (fd_table s)(n \<mapsto> a), files := (files s)(a \<mapsto> f\<lparr>refs := refs f + 1\<rparr>)\<rparr>"
  using assms by (auto simp: share_def bind_eq_Some_conv split: if_splits)

lemma share_inv:
  assumes "share fd n s = Some s'" and i: "sock_inv opened s"
  shows "sock_inv opened s'"
  using assms(1)
proof (cases rule: share_cases)
  case (1 a f)
  have "table_inv s'" unfolding 1(4) by (rule table_share [OF _ 1(1-3)]) (use i in \<open>simp add: sock_inv_def\<close>)
  moreover have "goes_on s s'" using 1(2) by (simp add: goes_on_def 1(4))
  ultimately show ?thesis by (rule goes_on_inv [OF i]) (simp add: 1(4))
qed

lemma close_inv:
  assumes ok: "lwip_ok l opened" and "close_file l fd s = Some s'" and i: "sock_inv opened s"
  shows "sock_inv opened s'"
  using assms(2)
proof (cases rule: close_cases)
  case (1 a f)
  have "table_inv s'" unfolding 1(4) by (rule table_remove [OF _ 1(1-3)]) (use i in \<open>simp add: sock_inv_def\<close>)
  moreover have "goes_on s s'" by (simp add: goes_on_def 1(4))
  moreover have "lwip_fd g \<in> opened (lwip s')" if g: "files s' b = Some g" "lwip_fd g \<in> opened (lwip s)" for b g
  proof -
    have "b \<noteq> a" "files s b = Some g" using g(1) by (auto simp: 1(4) split: if_splits)
    then have "lwip_fd g \<noteq> lwip_fd f \<or> lwip_fd f = - 1" using i 1(2) unfolding sock_inv_def by metis
    then show ?thesis using g(2) destroy_opened [OF ok, of f "lwip s"] by (auto simp: 1(4))
  qed
  ultimately show ?thesis by (rule goes_on_inv [OF i])
next
  case (2 a f)
  have "table_inv s'" unfolding 2(4) by (rule table_drop [OF _ 2(1-3)]) (use i in \<open>simp add: sock_inv_def\<close>)
  moreover have "goes_on s s'" using 2(2) by (simp add: goes_on_def 2(4))
  ultimately show ?thesis by (rule goes_on_inv [OF i]) (simp add: 2(4))
qed

text \<open>A socket that lwIP has open and no descriptor leads to.\<close>

definition stray :: "('w \<Rightarrow> int set) \<Rightarrow> int \<Rightarrow> 'w socks \<Rightarrow> bool" where
  "stray opened k s \<longleftrightarrow> 0 \<le> k \<and> k \<in> opened (lwip s) \<and> (\<forall>a f. files s a = Some f \<longrightarrow> lwip_fd f \<noteq> k)"

lemma goes_on_stray: "goes_on s t \<Longrightarrow> k \<in> opened (lwip t) \<Longrightarrow> stray opened k s \<Longrightarrow> stray opened k t"
  unfolding stray_def goes_on_def by metis

lemma mark_goes_on: "mark_connected fd v s = Some s' \<Longrightarrow> goes_on s s' \<and> lwip s' = lwip s \<and> fd_table s' = fd_table s"
  by (auto simp: mark_connected_def bind_eq_Some_conv goes_on_def split: if_splits)

lemma mark_stray: "mark_connected fd v s = Some s' \<Longrightarrow> stray opened k s \<Longrightarrow> stray opened k s'"
  using goes_on_stray [of s s' k opened] mark_goes_on [of fd v s s'] by (simp add: stray_def)

lemma share_stray: "share fd n s = Some s' \<Longrightarrow> stray opened k s \<Longrightarrow> stray opened k s'"
  by (elim share_cases, rule goes_on_stray [of s]) (auto simp: goes_on_def stray_def)

lemma socket_stray:
  assumes ok: "lwip_ok l opened" and "socket l d t p s = (r, s')" and "table_inv s" and k: "stray opened k s"
  shows "stray opened k s'"
  using assms(1-3)
proof (cases rule: socket_cases)
  case (full n w)
  then show ?thesis using full_opened [OF ok full(1)] k by (auto simp: stray_def)
next
  case (new n w fd)
  have "k \<in> opened w" "n \<noteq> k" using new(1) k by (auto simp: opens_def stray_def split: if_splits)
  then show ?thesis using k by (simp add: stray_def new(4))
qed

lemma close_stray:
  assumes ok: "lwip_ok l opened" and "close_file l fd s = Some s'" and k: "stray opened k s"
  shows "stray opened k s'"
  using assms(2)
proof (cases rule: close_cases)
  case (1 a f)
  have "k \<noteq> lwip_fd f" "k \<in> opened (lwip s)" using k 1(2) by (auto simp: stray_def)
  then have "k \<in> opened (lwip s')" using destroy_opened [OF ok, of f "lwip s"] by (simp add: 1(4))
  moreover have "goes_on s s'" by (simp add: goes_on_def 1(4))
  ultimately show ?thesis using goes_on_stray k by blast
next
  case (2 a f)
  have "goes_on s s'" using 2(2) by (simp add: goes_on_def 2(4))
  moreover have "k \<in> opened (lwip s')" using k by (simp add: stray_def 2(4))
  ultimately show ?thesis using goes_on_stray k by blast
qed

text \<open>Every step keeps the tables and the open sockets, or is one of the few that do not.\<close>

definition keeps :: "('w \<Rightarrow> int set) \<Rightarrow> 'w socks \<Rightarrow> 'w socks \<Rightarrow> bool" where
  "keeps opened s s' \<longleftrightarrow> fd_table s' = fd_table s \<and> files s' = files s \<and> next_file s' = next_file s \<and> opened (lwip s') = opened (lwip s)"

lemma keeps_self [simp]: "keeps opened s s"
  by (simp add: keeps_def)

lemma keeps_inv: "keeps opened s s' \<Longrightarrow> sock_inv opened s \<Longrightarrow> sock_inv opened s'"
  by (auto simp: keeps_def intro: sock_inv_same)

lemma keeps_stray: "keeps opened s s' \<Longrightarrow> stray opened k s \<Longrightarrow> stray opened k s'"
  by (auto simp: keeps_def stray_def)

lemma call_keeps:
  "on_socket fd call s = Some (r, s') \<Longrightarrow> (\<And>k. quiet opened (call k)) \<Longrightarrow> keeps opened s s'"
  unfolding keeps_def using on_socket_files on_socket_quiet by metis

lemma accept_opens:
  assumes "lwip_ok l opened" and "accept l fd s = Some ((k, a), s')"
  shows "fd_table s' = fd_table s \<and> files s' = files s \<and> next_file s' = next_file s \<and> opens opened (lwip s) k (lwip s')"
  using assms ok_opens(2) [OF assms(1)] by (auto simp: accept_def on_socket_Some)

lemma accept_inv: "lwip_ok l opened \<Longrightarrow> accept l fd s = Some (x, s') \<Longrightarrow> sock_inv opened s \<Longrightarrow> sock_inv opened s'"
  using accept_opens [of l opened fd s "fst x" "snd x" s'] sock_inv_same [of s' s opened] by (auto simp: opens_def split: if_splits)

lemma accept_stray: "lwip_ok l opened \<Longrightarrow> accept l fd s = Some (x, s') \<Longrightarrow> stray opened k s \<Longrightarrow> stray opened k s'"
  using accept_opens [of l opened fd s "fst x" "snd x" s'] by (auto simp: opens_def stray_def split: if_splits)

lemma mark_if:
  "do { (ret, s1) \<leftarrow> on_socket fd call s; s2 \<leftarrow> (if ret = 0 then mark_connected fd 1 s1 else Some s1); Some (ret, s2) } = Some (r, s') \<Longrightarrow>
     (\<And>k. quiet opened (call k)) \<Longrightarrow> keeps opened s s' \<or> (\<exists>s1. keeps opened s s1 \<and> mark_connected fd 1 s1 = Some s')"
  by (auto simp: bind_eq_Some_conv split: if_splits dest: call_keeps)

lemma dup_cases: "dup l fd s = Some (r, s') \<Longrightarrow> keeps opened s s' \<or> (\<exists>n. share fd n s = Some s')"
  by (auto simp: dup_def bind_eq_Some_conv Let_def split: if_splits)

lemma dup2_cases: "dup2 l fd n s = Some (r, s') \<Longrightarrow>
    keeps opened s s' \<or> share fd n s = Some s' \<or> (\<exists>s1. close_file l n s = Some s1 \<and> share fd n s1 = Some s')"
  by (auto simp: dup2_def bind_eq_Some_conv keeps_def split: if_splits)

lemma readv_keeps: "readv l fd ns s = Some (y, s') \<Longrightarrow> (\<And>k n. quiet opened (l_read l k n)) \<Longrightarrow> keeps opened s s'"
  using read_loop_quiet [where opened = opened and l = l]
  by (fastforce simp: readv_def bind_eq_Some_conv keeps_def split: if_splits)

lemma writev_keeps: "writev l fd bs s = Some (r, s') \<Longrightarrow> (\<And>k b. quiet opened (l_write l k b)) \<Longrightarrow> keeps opened s s'"
  using write_loop_quiet [where opened = opened and l = l]
  by (fastforce simp: writev_def bind_eq_Some_conv keeps_def split: if_splits)

lemma sock_step_cases:
  assumes "sock_step l s s'" and ok: "lwip_ok l opened"
  shows "keeps opened s s' \<or> (\<exists>fd x. accept l fd s = Some (x, s')) \<or> (\<exists>fd s1. keeps opened s s1 \<and> mark_connected fd 1 s1 = Some s') \<or>
    (\<exists>d t p r. socket l d t p s = (r, s')) \<or> (\<exists>fd. close_file l fd s = Some s') \<or> (\<exists>fd n. share fd n s = Some s') \<or>
    (\<exists>fd n s1. close_file l n s = Some s1 \<and> share fd n s1 = Some s')"
  using assms(1)
proof cases
  case (st_connect fd a r)
  then show ?thesis using mark_if [of fd "\<lambda>k. l_connect l k a" s r s' opened] ok_quiet(1) [OF ok] unfolding connect_def by blast
next
  case (st_bind fd a r)
  then show ?thesis using mark_if [of fd "\<lambda>k. l_bind l k a" s r s' opened] ok_quiet(2) [OF ok] unfolding bind_socket_def by blast
next
  case st_shutdown
  then have "keeps opened s s'" by (auto simp: shutdown_def keeps_def)
  then show ?thesis by (rule disjI1)
next
  case st_readv
  then have "keeps opened s s'" by (rule readv_keeps) (rule ok_quiet(11) [OF ok])
  then show ?thesis by (rule disjI1)
next
  case st_writev
  then have "keeps opened s s'" by (rule writev_keeps) (rule ok_quiet(12) [OF ok])
  then show ?thesis by (rule disjI1)
next
  case (st_dup fd r)
  from dup_cases [OF this, of opened] show ?thesis by blast
next
  case (st_dup2 fd n r)
  from dup2_cases [OF this, of opened] show ?thesis by blast
next
  case st_getsockopt
  then have "keeps opened s s'" unfolding getsockopt_def by (rule call_keeps) (rule ok_quiet(3) [OF ok])
  then show ?thesis by (rule disjI1)
next
  case st_setsockopt
  then have "keeps opened s s'" unfolding setsockopt_def by (rule call_keeps) (rule ok_quiet(4) [OF ok])
  then show ?thesis by (rule disjI1)
next
  case st_listen
  then have "keeps opened s s'" unfolding listen_def by (rule call_keeps) (rule ok_quiet(5) [OF ok])
  then show ?thesis by (rule disjI1)
next
  case st_recv
  then have "keeps opened s s'" unfolding recv_def by (rule call_keeps) (rule ok_quiet(6) [OF ok])
  then show ?thesis by (rule disjI1)
next
  case st_send
  then have "keeps opened s s'" unfolding send_def by (rule call_keeps) (rule ok_quiet(7) [OF ok])
  then show ?thesis by (rule disjI1)
next
  case st_sendto
  then have "keeps opened s s'" unfolding sendto_def by (rule call_keeps) (rule ok_quiet(8) [OF ok])
  then show ?thesis by (rule disjI1)
next
  case st_getsockname
  then have "keeps opened s s'" unfolding getsockname_def by (rule call_keeps) (rule ok_quiet(9) [OF ok])
  then show ?thesis by (rule disjI1)
next
  case st_getpeername
  then have "keeps opened s s'" unfolding getpeername_def by (rule call_keeps) (rule ok_quiet(10) [OF ok])
  then show ?thesis by (rule disjI1)
qed blast+

lemma sock_step_inv:
  assumes "sock_step l s s'" and ok: "lwip_ok l opened" and "sock_inv opened s"
  shows "sock_inv opened s'"
  using sock_step_cases [OF assms(1,2)] assms(3)
  by (elim disjE exE conjE) (blast intro: keeps_inv accept_inv [OF ok] mark_inv socket_inv [OF ok] close_inv [OF ok] share_inv)+

lemma inv_table: "sock_inv opened s \<Longrightarrow> table_inv s"
  by (simp add: sock_inv_def)

lemma sock_step_stray:
  assumes "sock_step l s s'" and ok: "lwip_ok l opened" and "table_inv s" and "stray opened k s"
  shows "stray opened k s'"
  using sock_step_cases [OF assms(1,2)] assms(3,4)
  by (elim disjE exE conjE)
    (blast intro: keeps_stray accept_stray [OF ok] mark_stray socket_stray [OF ok] close_stray [OF ok] share_stray)+

lemma sock_steps_inv: "(sock_step l)\<^sup>*\<^sup>* s s' \<Longrightarrow> lwip_ok l opened \<Longrightarrow> sock_inv opened s \<Longrightarrow> sock_inv opened s'"
  by (induction rule: rtranclp_induct) (blast intro: sock_step_inv)+

lemma sock_steps_stray:
  "(sock_step l)\<^sup>*\<^sup>* s s' \<Longrightarrow> lwip_ok l opened \<Longrightarrow> sock_inv opened s \<Longrightarrow> stray opened k s \<Longrightarrow> sock_inv opened s' \<and> stray opened k s'"
  by (induction rule: rtranclp_induct) (blast intro: sock_step_inv sock_step_stray inv_table)+

text \<open>Which sockets descriptors lead to.\<close>

lemma reached: "table_inv s \<Longrightarrow> (\<exists>fd. socket_for_fd fd s = Some k) \<longleftrightarrow> (\<exists>a f. files s a = Some f \<and> lwip_fd f = k)"
proof (intro iffI)
  assume t: "table_inv s" and "\<exists>a f. files s a = Some f \<and> lwip_fd f = k"
  then obtain a f where f: "files s a = Some f" "lwip_fd f = k" by blast
  then have "0 < card (fds_of s a)" using table_invD(3) [OF t f(1)] by simp
  then have "fds_of s a \<noteq> {}" by auto
  then obtain fd where "fd_table s fd = Some a" unfolding fds_of_def by blast
  then show "\<exists>fd. socket_for_fd fd s = Some k" using f by (intro exI [of _ fd]) (simp add: socket_for_fd_def get_file_def)
next
  assume "\<exists>fd. socket_for_fd fd s = Some k"
  then show "\<exists>a f. files s a = Some f \<and> lwip_fd f = k" unfolding socket_for_fd_def map_option_eq_Some get_file_Some by blast
qed

definition lost :: "('w \<Rightarrow> int set) \<Rightarrow> 'w socks \<Rightarrow> int set" where
  "lost opened s = {k \<in> opened (lwip s). 0 < k \<and> (\<forall>fd. socket_for_fd fd s \<noteq> Some k)}"

lemma lost_stray: "table_inv s \<Longrightarrow> k \<in> lost opened s \<longleftrightarrow> 0 < k \<and> stray opened k s"
  using reached [of s k] by (auto simp: lost_def stray_def)

lemma mark_back: "mark_connected fd v s = Some s' \<Longrightarrow> goes_on s' s \<and> lwip s' = lwip s"
  by (auto simp: mark_connected_def bind_eq_Some_conv goes_on_def)

lemma share_back: "share fd n s = Some s' \<Longrightarrow> goes_on s' s \<and> lwip s' = lwip s"
  by (elim share_cases) (auto simp: goes_on_def)

lemma back_stray: "goes_on s' s \<and> lwip s' = lwip s \<Longrightarrow> stray opened k s' \<Longrightarrow> stray opened k s"
  using goes_on_stray [of s' s k opened] by (simp add: stray_def)

lemma close_back:
  assumes ok: "lwip_ok l opened" and "close_file l fd s = Some s'" and k: "stray opened k s'" "0 < k"
  shows "stray opened k s"
  using assms(2)
proof (cases rule: close_cases)
  case (1 a f)
  have "k \<noteq> lwip_fd f" "k \<in> opened (lwip s)"
    using k destroy_opened [OF ok, of f "lwip s"] by (auto simp: stray_def 1(4) split: if_splits)
  moreover have "lwip_fd g \<noteq> k" if "files s b = Some g" "b \<noteq> a" for b g
  proof -
    have "files s' b = Some g" using that by (simp add: 1(4))
    then show ?thesis using k(1) unfolding stray_def by blast
  qed
  ultimately show ?thesis using k(2) 1(2) unfolding stray_def by (metis less_imp_le option.inject)
next
  case (2 a f)
  have "goes_on s' s \<and> lwip s' = lwip s" using 2(2) by (simp add: goes_on_def 2(4))
  then show ?thesis by (rule back_stray) (rule k(1))
qed

lemma socket_back:
  assumes ok: "lwip_ok l opened" and r: "socket l d t p s = (r, s')" and t: "table_inv s" and k: "stray opened k s'" "0 < k"
  shows "stray opened k s"
  using ok r t
proof (cases rule: socket_cases)
  case (full n w)
  then show ?thesis using full_opened [OF ok full(1)] k by (auto simp: stray_def)
next
  case (new n w fd)
  have "files s' (next_file s) = Some \<lparr>lwip_fd = n, connected = False, refs = 1\<rparr>" by (simp add: new(4))
  then have "lwip_fd \<lparr>lwip_fd = n, connected = False, refs = 1\<rparr> \<noteq> k" using k(1) unfolding stray_def by blast
  then have "k \<noteq> n" "k \<in> opened w" using k(1) by (simp_all add: stray_def new(4))
  then have "k \<in> opened (lwip s)" using new(1) by (auto simp: opens_def split: if_splits)
  moreover have "lwip_fd g \<noteq> k" if "files s b = Some g" for b g
  proof -
    have "b \<noteq> next_file s" using that new(3) by auto
    then have "files s' b = Some g" using that by (simp add: new(4))
    then show ?thesis using k(1) unfolding stray_def by blast
  qed
  ultimately show ?thesis using k(2) by (simp add: stray_def)
qed

lemma keeps_back: "keeps opened s s' \<Longrightarrow> stray opened k s' \<Longrightarrow> stray opened k s"
  by (simp add: keeps_def stray_def)

text \<open>Only \<open>accept\<close> loses a socket.\<close>

lemma step_back:
  assumes "sock_step l s s'" and ok: "lwip_ok l opened" and t: "table_inv s" and k: "stray opened k s'" "0 < k"
    and no: "\<And>fd x. accept l fd s \<noteq> Some (x, s')"
  shows "stray opened k s"
  using sock_step_cases [OF assms(1,2)] no t k
  by (elim disjE exE conjE)
    (blast intro: keeps_back back_stray [OF mark_back] socket_back [OF ok] close_back [OF ok] back_stray [OF share_back])+

lemma step_lost:
  assumes st: "sock_step l s s'" and ok: "lwip_ok l opened" and i: "sock_inv opened s" and no: "\<And>fd x. accept l fd s \<noteq> Some (x, s')"
  shows "lost opened s' \<subseteq> lost opened s"
proof
  have t: "table_inv s" "table_inv s'" using inv_table i sock_step_inv [OF st ok i] by blast+
  fix k assume "k \<in> lost opened s'"
  then have k: "0 < k" "stray opened k s'" using lost_stray [OF t(2)] by blast+
  have "stray opened k s" using st ok t(1) k(2,1) no by (rule step_back)
  then show "k \<in> lost opened s" using lost_stray [OF t(1)] k(1) by blast
qed

text \<open>The descriptors that lead to one socket lead to one file.\<close>

lemma descriptors_apart:
  assumes i: "sock_inv opened s" and fd: "socket_for_fd fd s = Some k" and k: "k \<noteq> - 1"
  shows "k \<in> opened (lwip s) \<and> (\<forall>fd'. socket_for_fd fd' s = Some k \<longleftrightarrow> fd_table s fd' = fd_table s fd)"
proof -
  obtain a f where a: "fd_table s fd = Some a" "files s a = Some f" "lwip_fd f = k"
    using fd by (auto simp: socket_for_fd_def get_file_Some)
  have "fd_table s fd' = Some a" if h: "socket_for_fd fd' s = Some k" for fd'
  proof -
    obtain b g where b: "fd_table s fd' = Some b" "files s b = Some g" "lwip_fd g = k"
      using h by (auto simp: socket_for_fd_def get_file_Some)
    then have "a = b" using i a k unfolding sock_inv_def by metis
    then show ?thesis using b(1) by simp
  qed
  moreover have "k \<in> opened (lwip s)" using i a k unfolding sock_inv_def by metis
  ultimately show ?thesis using a by (auto simp: socket_for_fd_def get_file_def)
qed

text \<open>Closing a descriptor.\<close>

lemma close_effect:
  assumes ok: "lwip_ok l opened" and i: "sock_inv opened s" and k: "socket_for_fd fd s = Some k"
  shows "\<exists>s'. close_file l fd s = Some s' \<and> opened (lwip s') = (if 0 < k \<and> (\<forall>e. fd_table s e = fd_table s fd \<longrightarrow> e = fd)
    then opened (lwip s) - {k} else opened (lwip s))"
proof -
  obtain a f where a: "fd_table s fd = Some a" "files s a = Some f" "lwip_fd f = k"
    using k by (auto simp: socket_for_fd_def get_file_Some)
  have "refs f = 1 \<longleftrightarrow> (\<forall>e. fd_table s e = fd_table s fd \<longrightarrow> e = fd)" using last_descriptor [OF inv_table [OF i] a(1,2)] a(1) by simp
  moreover have "close_file l fd s = Some (if refs f = 1 then s\<lparr>fd_table := (fd_table s)(fd := None), files := (files s)(a := None), lwip := destroy l f (lwip s)\<rparr>
      else s\<lparr>fd_table := (fd_table s)(fd := None), files := (files s)(a \<mapsto> f\<lparr>refs := refs f - 1\<rparr>)\<rparr>)"
    using a by (simp add: close_file_def)
  ultimately show ?thesis using destroy_opened [OF ok, of f "lwip s"] a(3) by (cases "refs f = 1") (simp, auto)
qed

definition no_files :: "'w \<Rightarrow> 'w socks" where
  "no_files w = \<lparr>fd_table = (\<lambda>_. None), files = (\<lambda>_. None), next_file = 0, lwip = w, errno = 0\<rparr>"

lemma no_files_inv: "sock_inv opened (no_files w)"
  by (simp add: no_files_def sock_inv_def table_inv_def)

text \<open>A concrete lwIP: its state is the list of open sockets, every call on a socket succeeds.\<close>

definition sample_lwip :: "int list lwip_ops" where
  "sample_lwip =
     \<lparr>l_socket = \<lambda>d t p w. (let n = 1 + Max (insert 0 (set w)) in (n, n # w)), l_connect = \<lambda>k a w. (0, w),
      l_accept = \<lambda>k w. (let n = 1 + Max (insert 0 (set w)) in ((n, []), n # w)), l_bind = \<lambda>k a w. (0, w),
      l_getsockopt = \<lambda>k i j w. ((0, []), w), l_setsockopt = \<lambda>k i j b w. (0, w), l_listen = \<lambda>k i w. (0, w),
      l_recv = \<lambda>k n i w. ((0, []), w), l_send = \<lambda>k b i w. (int (length b), w),
      l_sendto = \<lambda>k b i a w. (int (length b), w), l_getsockname = \<lambda>k w. ((0, []), w),
      l_getpeername = \<lambda>k w. ((0, []), w), l_read = \<lambda>k n w. ((0, []), w),
      l_write = \<lambda>k b w. (int (length b), w), l_close = \<lambda>k w. removeAll k w,
      alloc_fd = \<lambda>t. if t 3 = None then 3 else if t 4 = None then 4 else - 24\<rparr>"

lemma fresh_max: "finite A \<Longrightarrow> (1::int) + Max (insert 0 A) \<notin> A \<and> 0 \<le> 1 + Max (insert 0 A)"
proof -
  assume "finite A"
  then have "x \<le> Max (insert 0 A)" if "x \<in> insert 0 A" for x using that by (intro Max_ge) auto
  then show ?thesis by fastforce
qed

lemma sample_lwip_ok: "lwip_ok sample_lwip set"
  using fresh_max [of "set w" for w]
  by (auto simp: lwip_ok_def quiet_def opens_def sample_lwip_def Let_def split: if_splits)


definition one_socket :: "int list socks" where
  "one_socket = \<lparr>fd_table = [3 \<mapsto> 0], files = [0 \<mapsto> \<lparr>lwip_fd = 1, connected = False, refs = 1\<rparr>], next_file = 1,
     lwip = [1], errno = 0\<rparr>"

definition two_fds :: "int list socks" where
  "two_fds = \<lparr>fd_table = [3 \<mapsto> 0, 4 \<mapsto> 0], files = [0 \<mapsto> \<lparr>lwip_fd = 1, connected = False, refs = 2\<rparr>], next_file = 1,
     lwip = [1], errno = 0\<rparr>"

lemma one_socket_run: "(sock_step sample_lwip)\<^sup>*\<^sup>* (no_files []) one_socket"
proof -
  have "socket sample_lwip 2 1 0 (no_files []) = (3, one_socket)"
    by (simp add: socket_def assign_fd_to_socket_def sample_lwip_def no_files_def one_socket_def Let_def)
  then show ?thesis by (blast intro: st_socket)
qed

lemma two_fds_run: "(sock_step sample_lwip)\<^sup>*\<^sup>* (no_files []) two_fds"
proof -
  have "dup sample_lwip 3 one_socket = Some (4, two_fds)"
    by (simp add: dup_def share_def get_file_def sample_lwip_def one_socket_def two_fds_def Let_def numeral_2_eq_2)
  then show ?thesis using one_socket_run by (blast intro: st_dup rtranclp.rtrancl_into_rtrancl)
qed

subsection \<open>What the wrappers promise\<close>

text \<open>
  C26: In every run from the empty table, on any lwIP that keeps \<open>lwip_ok\<close> and with any order of calls
  by the application, \<open>dup\<close>, \<open>dup2\<close> and \<open>close\<close> included: the socket of a descriptor is open in lwIP unless
  creating it had failed (-1), and two descriptors lead to the same socket exactly if one is a duplicate
  of the other. Closing a descriptor closes its socket in lwIP if it has no duplicates, and closes no other;
  socket 0 is never closed. And no call but \<open>accept\<close> makes a socket other than 0 one that is open while no
  descriptor leads to it.
\<close>

theorem sockets_keep_apart:
  assumes ok: "lwip_ok l opened" and run: "(sock_step l)\<^sup>*\<^sup>* (no_files w) s"
  shows "(\<forall>fd k. socket_for_fd fd s = Some k \<longrightarrow> k \<noteq> - 1 \<longrightarrow> k \<in> opened (lwip s) \<and>
      (\<forall>fd'. socket_for_fd fd' s = Some k \<longleftrightarrow> fd_table s fd' = fd_table s fd))
    \<and> (\<forall>fd k. socket_for_fd fd s = Some k \<longrightarrow> (\<exists>s'. close_file l fd s = Some s' \<and>
      opened (lwip s') = (if 0 < k \<and> (\<forall>e. fd_table s e = fd_table s fd \<longrightarrow> e = fd) then opened (lwip s) - {k} else opened (lwip s))))
    \<and> (\<forall>s'. sock_step l s s' \<longrightarrow> lost opened s' \<subseteq> lost opened s \<or> (\<exists>fd x. accept l fd s = Some (x, s')))"
proof -
  have i: "sock_inv opened s" by (rule sock_steps_inv [OF run ok no_files_inv])
  have "\<forall>fd k. socket_for_fd fd s = Some k \<longrightarrow> k \<noteq> - 1 \<longrightarrow> k \<in> opened (lwip s) \<and>
      (\<forall>fd'. socket_for_fd fd' s = Some k \<longleftrightarrow> fd_table s fd' = fd_table s fd)"
    by (intro allI impI) (rule descriptors_apart [OF i])
  moreover have "\<forall>s'. sock_step l s s' \<longrightarrow> lost opened s' \<subseteq> lost opened s \<or> (\<exists>fd x. accept l fd s = Some (x, s'))"
    by (intro allI impI disjCI) (rule step_lost [OF _ ok i], assumption, blast)
  ultimately show ?thesis by (intro conjI) (assumption, intro allI impI, rule close_effect [OF ok i], assumption+)
qed

theorem sockets_keep_apart_witness:
  "1 \<in> set (lwip two_fds) \<and> (\<forall>fd. socket_for_fd fd two_fds = Some 1 \<longleftrightarrow> fd_table two_fds fd = Some 0)
     \<and> (\<exists>s. close_file sample_lwip 3 one_socket = Some s \<and> set (lwip s) = {}) \<and> lost set two_fds \<subseteq> lost set one_socket"
proof -
  note a = sockets_keep_apart [OF sample_lwip_ok two_fds_run, THEN conjunct1, rule_format, of 3 1]
  note c = sockets_keep_apart [OF sample_lwip_ok one_socket_run, THEN conjunct2]
  have s3: "socket_for_fd 3 one_socket = Some 1" "\<forall>e. fd_table one_socket e = fd_table one_socket 3 \<longrightarrow> e = 3"
    "set (lwip one_socket) = {1}"
    by (simp_all add: socket_for_fd_def get_file_def one_socket_def)
  obtain s where s: "close_file sample_lwip 3 one_socket = Some s" "set (lwip s) = (if (0 :: int) < 1 \<and>
      (\<forall>e. fd_table one_socket e = fd_table one_socket 3 \<longrightarrow> e = 3) then set (lwip one_socket) - {1} else set (lwip one_socket))"
    using c [THEN conjunct1, rule_format, OF s3(1)] by blast
  have "set (lwip s) = {}" using s(2) s3(2,3) by (simp only: if_True simp_thms zero_less_one) simp
  moreover have "accept sample_lwip fd one_socket \<noteq> Some (x, two_fds)" for fd x
    by (auto simp: accept_def on_socket_Some one_socket_def two_fds_def sample_lwip_def)
  then have "lost set two_fds \<subseteq> lost set one_socket"
  proof -
    have "sock_step sample_lwip one_socket two_fds"
      by (rule st_dup [of _ 3 _ 4]) (simp add: dup_def share_def get_file_def sample_lwip_def one_socket_def two_fds_def Let_def numeral_2_eq_2)
    then show ?thesis using c [THEN conjunct2, rule_format, of two_fds] \<open>\<And>x fd. accept sample_lwip fd one_socket \<noteq> Some (x, two_fds)\<close> by blast
  qed
  moreover have "socket_for_fd 3 two_fds = Some 1" "fd_table two_fds 3 = Some 0"
    by (simp_all add: socket_for_fd_def get_file_def two_fds_def)
  then have "1 \<in> set (lwip two_fds) \<and> (\<forall>fd. socket_for_fd fd two_fds = Some 1 \<longleftrightarrow> fd_table two_fds fd = Some 0)" using a by simp
  ultimately show ?thesis using s(1) by blast
qed

text \<open>
  C31: \<open>accept\<close> gives the application lwIP's number of the new connection without registering a file
  for it. Whatever is called afterwards, no descriptor ever leads to that connection, the returned
  number included, so nothing can be received on it and it stays open in lwIP forever.
\<close>

theorem accepted_connection_is_lost:
  assumes ok: "lwip_ok l opened" and run: "(sock_step l)\<^sup>*\<^sup>* (no_files w) s"
    and acc: "accept l fd s = Some ((k, a), s1)" "0 \<le> k" and later: "(sock_step l)\<^sup>*\<^sup>* s1 t"
  shows "k \<in> opened (lwip t) \<and> socket_for_fd fd' t \<noteq> Some k"
proof -
  have a: "files s1 = files s" "opens opened (lwip s) k (lwip s1)" using accept_opens [OF ok acc(1)] by simp_all
  have i: "sock_inv opened s" by (rule sock_steps_inv [OF run ok no_files_inv])
  have "lwip_fd f \<noteq> k" if "files s1 b = Some f" for b f
  proof -
    have "lwip_fd f = - 1 \<or> lwip_fd f \<in> opened (lwip s)" using i a(1) that unfolding sock_inv_def by auto
    then show ?thesis using a(2) acc(2) by (auto simp: opens_def)
  qed
  then have "stray opened k s1" using a(2) acc(2) by (simp add: stray_def opens_def)
  then have "stray opened k t" using sock_steps_stray [OF later ok accept_inv [OF ok acc(1) i]] by blast
  then show ?thesis by (auto simp: stray_def socket_for_fd_def get_file_Some)
qed

definition accepted_state :: "int list socks" where
  "accepted_state = one_socket\<lparr>lwip := [2, 1]\<rparr>"

theorem accepted_connection_is_lost_witness:
  "2 \<in> set (lwip accepted_state) \<and> socket_for_fd 2 accepted_state \<noteq> Some 2"
proof -
  have "accept sample_lwip 3 one_socket = Some ((2, []), accepted_state)"
    by (simp add: accept_def on_socket_def socket_for_fd_def get_file_def sample_lwip_def one_socket_def accepted_state_def Let_def)
  then show ?thesis using accepted_connection_is_lost [OF sample_lwip_ok one_socket_run] by fastforce
qed

text \<open>A failed \<open>lwip_socket\<close> is reported as success: the application gets a descriptor on socket -1.\<close>

lemma failed_socket_gets_fd:
  "l_socket l d t p (lwip s) = (- 1, w) \<Longrightarrow> 0 \<le> alloc_fd l (fd_table s) \<Longrightarrow>
     0 \<le> fst (socket l d t p s) \<and> socket_for_fd (fst (socket l d t p s)) (snd (socket l d t p s)) = Some (- 1)"
  by (simp add: socket_def assign_fd_to_socket_def socket_for_fd_def get_file_def Let_def)

text \<open>An error in the second buffer of a read shows only as one byte less.\<close>

lemma readv_hides_error:
  assumes "get_file fd s = Some f" and "connected f"
    and "l_read l (lwip_fd f) n (lwip s) = ((r, d), w)" and "l_read l (lwip_fd f) m w = ((- 1, e), w')"
    and "0 < r" "r < 2 ^ 31"
  shows "\<exists>s'. readv l fd [n, m] s = Some ((r - 1, [d, e]), s')"
  using assms by (simp add: readv_def c_int_def INT_MIN_def INT_MAX_def)

lemma uclibc_to_lwip_sockaddr_involution:
  "uclibc_to_lwip_sockaddr a = Some b \<Longrightarrow> uclibc_to_lwip_sockaddr b = Some a"
  by (cases a rule: remdups_adj.cases) (auto simp: uclibc_to_lwip_sockaddr_def rd8_def wrn_def bind_eq_Some_conv split: if_splits)

end
