(* ===== verification/File_Server.thy ===== *)
theory File_Server imports Prelude begin

section \<open>The file server of \<open>socket/ftp/server.c\<close>\<close>

text \<open>
  \<open>doftp\<close> serves one request for a file: codes are \<open>int\<close>s whose low half is in network order, the
  file goes out in blocks of 512 bytes, each of which the client acknowledges. The connection is a
  parameter, a read and a write that may transfer fewer bytes than asked for; \<open>readn\<close> and \<open>writen\<close>
  repeat them. Files are a function from names to contents. A call ends with \<open>Inl\<close> and the reason
  for which it returned early, or with \<open>Inr\<close>.
\<close>

definition MAXLINE :: nat where "MAXLINE = 256"
definition MAXSIZE :: nat where "MAXSIZE = 512"
definition ACK :: int where "ACK = 2"
definition REQUESTFILE :: int where "REQUESTFILE = 100"
definition COMMANDNOTSUPPORTED :: int where "COMMANDNOTSUPPORTED = 150"
definition COMMANDSUPPORTED :: int where "COMMANDSUPPORTED = 160"
definition BADFILENAME :: int where "BADFILENAME = 200"
definition FILENAMEOK :: int where "FILENAMEOK = 400"

record 'w conn =
  c_read :: "nat \<Rightarrow> 'w \<Rightarrow> (int \<times> bytes) \<times> 'w"
  c_write :: "bytes \<Rightarrow> 'w \<Rightarrow> int \<times> 'w"

datatype ending = Read_failed | Write_failed | Unsupported | Bad_file | File_failed | No_ack

type_synonym ('w, 'a) action = "'w \<Rightarrow> ((ending + 'a) \<times> 'w) option"

definition andthen :: "('w, 'a) action \<Rightarrow> ('a \<Rightarrow> ('w, 'b) action) \<Rightarrow> ('w, 'b) action" where
  "andthen f g w = (case f w of
      None \<Rightarrow> None
    | Some (Inl e, w) \<Rightarrow> Some (Inl e, w)
    | Some (Inr x, w) \<Rightarrow> g x w)"

definition return_early :: "ending \<Rightarrow> ('w, 'a) action" where
  "return_early e w = Some (Inl e, w)"

subsection \<open>Reading and writing in full\<close>

text \<open>The object read into is \<open>m\<close>, \<open>pos\<close> the place of \<open>ptr\<close> in it.\<close>

function readn_loop :: "'w conn \<Rightarrow> int \<Rightarrow> int \<Rightarrow> bytes \<Rightarrow> nat \<Rightarrow> 'w \<Rightarrow> ((int \<times> bytes) \<times> 'w) option" where
  "readn_loop c asked left m pos w = (if left \<le> 0 then Some ((asked - left, m), w)
     else case c_read c (nat left) w of ((r, d), w') \<Rightarrow>
       if r < 0 then Some ((r, m), w')
       else if r = 0 then Some ((asked - left, m), w')
       else (case wrn m pos d of
           None \<Rightarrow> None
         | Some m' \<Rightarrow> readn_loop c asked (left - r) m' (pos + nat r) w'))"
  by pat_completeness auto
termination by (relation "measure (\<lambda>(_, _, left, _). nat left)") auto

definition readn :: "'w conn \<Rightarrow> bytes \<Rightarrow> 'w \<Rightarrow> ((int \<times> bytes) \<times> 'w) option" where
  "readn c m w = readn_loop c (int (length m)) (int (length m)) m 0 w"

function writen_loop :: "'w conn \<Rightarrow> int \<Rightarrow> int \<Rightarrow> bytes \<Rightarrow> 'w \<Rightarrow> int \<times> 'w" where
  "writen_loop c asked left p w = (if left \<le> 0 then (asked - left, w)
     else case c_write c (take (nat left) p) w of (r, w') \<Rightarrow>
       if r \<le> 0 then (r, w') else writen_loop c asked (left - r) (drop (nat r) p) w')"
  by pat_completeness auto
termination by (relation "measure (\<lambda>(_, _, left, _). nat left)") auto

definition writen :: "'w conn \<Rightarrow> bytes \<Rightarrow> 'w \<Rightarrow> int \<times> 'w" where
  "writen c p w = writen_loop c (int (length p)) (int (length p)) p w"

declare readn_loop.simps [simp del] writen_loop.simps [simp del]

subsection \<open>The dialogue\<close>

text \<open>The bytes of an \<open>int\<close> that holds \<open>htons (v)\<close>, and \<open>ntohs\<close> of one.\<close>

definition int_msg :: "int \<Rightarrow> bytes" where
  "int_msg v = [hi8 (word_of_int v), lo8 (word_of_int v), 0, 0]"

definition net_code :: "bytes \<Rightarrow> int" where
  "net_code m = uint (le16 (m ! 1) (m ! 0))"

definition recv_int :: "'w conn \<Rightarrow> bytes \<Rightarrow> ('w, bytes) action" where
  "recv_int c m w = (case readn c m w of
      None \<Rightarrow> None
    | Some ((r, m'), w') \<Rightarrow> Some (if r < 0 then Inl Read_failed else Inr m', w'))"

definition send_bytes :: "'w conn \<Rightarrow> bytes \<Rightarrow> ('w, unit) action" where
  "send_bytes c p w = (case writen c p w of (r, w') \<Rightarrow> Some (if r < 0 then Inl Write_failed else Inr (), w'))"

definition send_int :: "'w conn \<Rightarrow> int \<Rightarrow> ('w, unit) action" where
  "send_int c v = send_bytes c (int_msg v)"

definition await_ack :: "'w conn \<Rightarrow> bytes \<Rightarrow> ('w, bytes) action" where
  "await_ack c ack = andthen (recv_int c ack) (\<lambda>ack w. Some (if net_code ack \<noteq> ACK then Inl No_ack else Inr ack, w))"

text \<open>One block: \<open>fread\<close> of \<open>n\<close> bytes, the checks of its result, \<open>writen\<close>, and the acknowledgement.\<close>

definition send_block :: "'w conn \<Rightarrow> nat \<Rightarrow> bytes \<Rightarrow> bytes \<Rightarrow> ('w, bytes) action" where
  "send_block c n f ack = (let out_buf = take n f in
     if length out_buf = 0 then return_early File_failed
     else if length out_buf \<noteq> n then return_early File_failed
     else andthen (send_bytes c out_buf) (\<lambda>_. await_ack c ack))"

primrec send_blocks :: "'w conn \<Rightarrow> nat \<Rightarrow> bytes \<Rightarrow> bytes \<Rightarrow> ('w, bytes \<times> bytes) action" where
  "send_blocks c 0 f ack = (\<lambda>w. Some (Inr (f, ack), w))"
| "send_blocks c (Suc n) f ack =
     andthen (send_block c MAXSIZE f ack) (\<lambda>ack. send_blocks c n (drop MAXSIZE f) ack)"

text \<open>From the counting of the file's size on. The variable \<open>ack\<close> is set to 0 once, before the first use.\<close>

definition transfer :: "'w conn \<Rightarrow> bytes \<Rightarrow> ('w, unit) action" where
  "transfer c file w = (case c_int (int (length file)) of None \<Rightarrow> None | Some fsize \<Rightarrow>
     (let num_blks = length file div MAXSIZE; num_last_blk = length file mod MAXSIZE in
      andthen (send_int c (int num_blks)) (\<lambda>_.
      andthen (await_ack c [0, 0, 0, 0]) (\<lambda>ack.
      andthen (send_int c (int num_last_blk)) (\<lambda>_.
      andthen (await_ack c ack) (\<lambda>ack.
      andthen (send_blocks c num_blks file ack) (\<lambda>(f, ack).
      if 0 < num_last_blk then andthen (send_block c num_last_blk f ack) (\<lambda>_ w. Some (Inr (), w))
      else (\<lambda>w. Some (Inr (), w))))))) w))"

text \<open>\<open>fopen\<close> reads the name up to its zero; \<open>fname\<close> starts with any contents.\<close>

definition c_string :: "bytes \<Rightarrow> bytes option" where
  "c_string m = (if 0 \<in> set m then Some (takeWhile (\<lambda>b. b \<noteq> 0) m) else None)"

definition read_name :: "'w conn \<Rightarrow> bytes \<Rightarrow> ('w, int \<times> bytes) action" where
  "read_name c fname w = (case c_read c MAXLINE w of ((r, d), w') \<Rightarrow>
     if r < 0 then Some (Inr (BADFILENAME, fname), w')
     else (case wrn fname 0 d of None \<Rightarrow> None | Some m \<Rightarrow> Some (Inr (FILENAMEOK, m), w')))"

definition open_file :: "(bytes \<Rightarrow> bytes option) \<Rightarrow> int \<Rightarrow> bytes \<Rightarrow> ('w, int \<times> bytes option) action" where
  "open_file fs fail fname w = (case c_string fname of
      None \<Rightarrow> None
    | Some name \<Rightarrow> Some (Inr (if fs name = None then BADFILENAME else fail, fs name), w))"

definition doftp :: "'w conn \<Rightarrow> (bytes \<Rightarrow> bytes option) \<Rightarrow> bytes \<Rightarrow> ('w, unit) action" where
  "doftp c fs fname =
     andthen (recv_int c [0, 0, 0, 0]) (\<lambda>req.
     if net_code req \<noteq> REQUESTFILE
     then andthen (send_int c COMMANDNOTSUPPORTED) (\<lambda>_. return_early Unsupported)
     else
       andthen (send_int c COMMANDSUPPORTED) (\<lambda>_.
       andthen (read_name c fname) (\<lambda>(fail, fname).
       andthen (open_file fs fail fname) (\<lambda>(fail, fp).
       andthen (send_int c fail) (\<lambda>_.
       if fail = BADFILENAME then return_early Bad_file
       else andthen (recv_int c [0, 0, 0, 0]) (\<lambda>req. case fp of None \<Rightarrow> (\<lambda>_. None) | Some file \<Rightarrow> transfer c file))))))"

subsection \<open>Streams\<close>

text \<open>
  A connection as a stream: \<open>inp w\<close> are the bytes still to come from the client, who then shuts down
  its side, \<open>out w\<close> those sent to it. Reads and writes may be short but are not empty before the end.
\<close>

definition stream_ok :: "'w conn \<Rightarrow> ('w \<Rightarrow> bytes) \<Rightarrow> ('w \<Rightarrow> bytes) \<Rightarrow> bool" where
  "stream_ok c inp out \<longleftrightarrow>
     (\<forall>n w r d w'. 0 < n \<longrightarrow> c_read c n w = ((r, d), w') \<longrightarrow>
        out w' = out w \<and> r = int (length d) \<and> inp w = d @ inp w' \<and> length d \<le> n \<and> (d = [] \<longrightarrow> inp w = [])) \<and>
     (\<forall>p w r w'. p \<noteq> [] \<longrightarrow> c_write c p w = (r, w') \<longrightarrow>
        inp w' = inp w \<and> 0 < r \<and> r \<le> int (length p) \<and> out w' = out w @ take (nat r) p)"

lemma stream_read:
  "stream_ok c inp out \<Longrightarrow> 0 < n \<Longrightarrow> c_read c n w = ((r, d), w') \<Longrightarrow>
     out w' = out w \<and> r = int (length d) \<and> inp w = d @ inp w' \<and> length d \<le> n \<and> (d = [] \<longrightarrow> inp w = [])"
  unfolding stream_ok_def by blast

lemma stream_write:
  "stream_ok c inp out \<Longrightarrow> p \<noteq> [] \<Longrightarrow> c_write c p w = (r, w') \<Longrightarrow>
     inp w' = inp w \<and> 0 < r \<and> r \<le> int (length p) \<and> out w' = out w @ take (nat r) p"
  unfolding stream_ok_def by blast

lemma writen_loop_stream:
  assumes ok: "stream_ok c inp out" and "left = int (length p)" and "left \<le> asked"
  shows "\<exists>w'. writen_loop c asked left p w = (asked, w') \<and> inp w' = inp w \<and> out w' = out w @ p"
  using assms(2,3)
proof (induction "nat left" arbitrary: left p w rule: less_induct)
  case less
  show ?case
  proof (cases "left \<le> 0")
    case True
    then show ?thesis using less by (subst writen_loop.simps) simp
  next
    case False
    then have p: "take (nat left) p = p" "p \<noteq> []" using less(2) by auto
    obtain r w' where r: "c_write c p w = (r, w')" by fastforce
    then have s: "inp w' = inp w" "0 < r" "r \<le> int (length p)" "out w' = out w @ take (nat r) p"
      using stream_write [OF ok p(2)] by auto
    have "\<exists>v. writen_loop c asked (left - r) (drop (nat r) p) w' = (asked, v) \<and> inp v = inp w' \<and> out v = out w' @ drop (nat r) p"
      using less(1) [of "left - r" "drop (nat r) p" w'] False s(2,3) less(2,3) by (auto simp: of_nat_diff)
    then show ?thesis using False p r s by (subst writen_loop.simps) auto
  qed
qed

lemma writen_stream:
  assumes "stream_ok c inp out"
  shows "\<exists>w'. writen c p w = (int (length p), w') \<and> inp w' = inp w \<and> out w' = out w @ p"
  unfolding writen_def by (rule writen_loop_stream [OF assms]) simp_all

text \<open>Until the end of the input \<open>readn\<close> fills the whole object, after it the rest keeps its contents.\<close>

lemma readn_loop_stream:
  assumes ok: "stream_ok c inp out" and "pos + nat left = length m" and "0 \<le> left"
    and "d = take (nat left) (inp w)"
  shows "\<exists>w'. readn_loop c asked left m pos w =
      Some ((asked - left + int (length d), take pos m @ d @ drop (pos + length d) m), w') \<and>
    inp w' = drop (nat left) (inp w) \<and> out w' = out w"
  using assms(2-4)
proof (induction "nat left" arbitrary: left m pos w d rule: less_induct)
  case less
  show ?case
  proof (cases "left \<le> 0")
    case True
    then show ?thesis using less by (subst readn_loop.simps) simp
  next
    case False
    obtain r x w' where r: "c_read c (nat left) w = ((r, x), w')" by (metis surj_pair)
    then have s: "out w' = out w" "r = int (length x)" "inp w = x @ inp w'" "length x \<le> nat left" "x = [] \<longrightarrow> inp w = []"
      using stream_read [OF ok _ r] False by auto
    show ?thesis
    proof (cases "x = []")
      case True
      then show ?thesis using False r s less(2,4) by (subst readn_loop.simps) simp
    next
      case x: False
      let ?m = "take pos m @ x @ drop (pos + length x) m"
      have m: "wrn m pos x = Some ?m" using s(4) less(2) by (simp add: wrn_def)
      have k: "nat (left - r) = nat left - length x" using s(2,4) by simp
      have "\<exists>v. readn_loop c asked (left - r) ?m (pos + nat r) w' =
          Some ((asked - (left - r) + int (length (take (nat (left - r)) (inp w'))),
            take (pos + nat r) ?m @ take (nat (left - r)) (inp w') @
              drop (pos + nat r + length (take (nat (left - r)) (inp w'))) ?m), v) \<and>
          inp v = drop (nat (left - r)) (inp w') \<and> out v = out w'"
        using x s(2,4) False less(2,3) by (intro less(1)) auto
      moreover have "take (nat left) (inp w) = x @ take (nat left - length x) (inp w')"
        using s(3,4) by simp
      moreover have "take (pos + nat r) ?m = take pos m @ x" using less(2) s(2) by simp
      moreover have "drop (pos + nat r + n) ?m = drop (pos + length x + n) m" for n
        using less(2) s(2) by (simp add: add_ac)
      ultimately show ?thesis
        using False r m x s less(4) k by (subst readn_loop.simps) (auto simp: algebra_simps)
    qed
  qed
qed


lemma readn_stream:
  assumes "stream_ok c inp out" and "d = take (length m) (inp w)"
  shows "\<exists>w'. readn c m w = Some ((int (length d), d @ drop (length d) m), w') \<and>
    inp w' = drop (length m) (inp w) \<and> out w' = out w"
  using readn_loop_stream [OF assms(1), of 0 "int (length m)" m d w "int (length m)"] assms(2)
  by (simp add: readn_def)

subsection \<open>The dialogue on a stream\<close>

lemma andthen_Some: "f w = Some (Inr x, w') \<Longrightarrow> andthen f g w = g x w'"
  by (simp add: andthen_def)

lemma length_int_msg [simp]: "length (int_msg v) = 4"
  by (simp add: int_msg_def)

lemma net_code_int_msg: "0 \<le> v \<Longrightarrow> v < 65536 \<Longrightarrow> net_code (int_msg v @ x) = v"
  by (simp add: net_code_def int_msg_def unsigned_of_int take_bit_int_eq_self)

lemma send_bytes_stream:
  assumes "stream_ok c inp out"
  shows "\<exists>w'. send_bytes c p w = Some (Inr (), w') \<and> inp w' = inp w \<and> out w' = out w @ p"
  using writen_stream [OF assms, of p w] by (auto simp: send_bytes_def)

lemma recv_int_stream:
  assumes "stream_ok c inp out" and "length m = 4" and "d = take 4 (inp w)"
  shows "\<exists>w'. recv_int c m w = Some (Inr (d @ drop (length d) m), w') \<and>
    inp w' = drop 4 (inp w) \<and> out w' = out w"
  using readn_stream [OF assms(1), of d m w] assms(2,3) by (auto simp: recv_int_def)

text \<open>Input that consists of acknowledgements, or no input at all.\<close>

definition acks :: "nat \<Rightarrow> bytes" where
  "acks k = concat (replicate k (int_msg ACK))"

lemma take_drop_acks: "take 4 (acks k) = (if k = 0 then [] else int_msg ACK)" "drop 4 (acks k) = acks (k - 1)"
  by (cases k; simp add: acks_def)+

text \<open>An acknowledgement that was received once is taken again when the client sends no more.\<close>

lemma await_ack_stream:
  assumes "stream_ok c inp out" and "inp w = acks k" and "0 < k \<or> ack = int_msg ACK" and "length ack = 4"
  shows "\<exists>w'. await_ack c ack w = Some (Inr (int_msg ACK), w') \<and> inp w' = acks (k - 1) \<and> out w' = out w"
proof -
  let ?d = "take 4 (inp w)"
  have "?d @ drop (length ?d) ack = int_msg ACK"
    using assms(2-4) by (auto simp: take_drop_acks)
  moreover obtain w' where "recv_int c ack w = Some (Inr (?d @ drop (length ?d) ack), w')"
      "inp w' = drop 4 (inp w)" "out w' = out w"
    using recv_int_stream [OF assms(1,4) refl, of w] by blast
  moreover have "net_code (int_msg ACK) = ACK"
    using net_code_int_msg [of ACK "[]"] by (simp add: ACK_def)
  ultimately show ?thesis using assms(2) by (simp add: await_ack_def andthen_def take_drop_acks)
qed

lemma send_block_stream:
  assumes "stream_ok c inp out" and "inp w = acks k" and "0 < n" and "n \<le> length f"
  shows "\<exists>w'. send_block c n f (int_msg ACK) w = Some (Inr (int_msg ACK), w') \<and> inp w' = acks (k - 1) \<and>
    out w' = out w @ take n f"
proof -
  obtain v where v: "send_bytes c (take n f) w = Some (Inr (), v)" "inp v = inp w" "out v = out w @ take n f"
    using send_bytes_stream [OF assms(1)] by blast
  then show ?thesis
    using await_ack_stream [OF assms(1), of v k "int_msg ACK"] assms(2-4)
    by (auto simp: send_block_def Let_def andthen_Some)
qed

lemma send_blocks_stream:
  assumes "stream_ok c inp out"
  shows "n * 512 \<le> length f \<Longrightarrow> inp w = acks k \<Longrightarrow>
    \<exists>w' j. send_blocks c n f (int_msg ACK) w = Some (Inr (drop (n * 512) f, int_msg ACK), w') \<and>
      inp w' = acks j \<and> out w' = out w @ take (n * 512) f"
proof (induction n arbitrary: f w k)
  case (Suc n)
  obtain v where v: "send_block c MAXSIZE f (int_msg ACK) w = Some (Inr (int_msg ACK), v)"
      "inp v = acks (k - 1)" "out v = out w @ take 512 f"
    using send_block_stream [OF assms Suc.prems(2), of 512 f] Suc.prems(1) by (auto simp: MAXSIZE_def)
  obtain w' j where "send_blocks c n (drop 512 f) (int_msg ACK) v = Some (Inr (drop (n * 512) (drop 512 f), int_msg ACK), w')"
      "inp w' = acks j" "out w' = out v @ take (n * 512) (drop 512 f)"
  proof -
    have "n * 512 \<le> length (drop 512 f)" using Suc.prems(1) by simp
    from Suc.IH [OF this v(2)] show ?thesis using that by blast
  qed
  then show ?case using v by (auto simp: andthen_Some MAXSIZE_def take_add add.commute)
qed auto


lemma transfer_stream:
  assumes ok: "stream_ok c inp out" and w: "inp w = acks k" "0 < k" and "int (length file) \<le> INT_MAX"
  shows "\<exists>w'. transfer c file w = Some (Inr (), w') \<and>
    out w' = out w @ int_msg (int (length file div 512)) @ int_msg (int (length file mod 512)) @ file"
proof -
  let ?n = "length file div 512" and ?m = "length file mod 512"
  have sz: "c_int (int (length file)) = Some (int (length file))"
    using assms(4) by (simp add: c_int_def INT_MIN_def)
  obtain w1 where w1: "send_int c (int ?n) w = Some (Inr (), w1)" "inp w1 = acks k" "out w1 = out w @ int_msg (int ?n)"
    using send_bytes_stream [OF ok, of "int_msg (int ?n)" w] w(1) by (auto simp: send_int_def)
  obtain w2 where w2: "await_ack c [0, 0, 0, 0] w1 = Some (Inr (int_msg ACK), w2)" "inp w2 = acks (k - 1)" "out w2 = out w1"
    using await_ack_stream [OF ok w1(2), of "[0, 0, 0, 0]"] w(2) by auto
  obtain w3 where w3: "send_int c (int ?m) w2 = Some (Inr (), w3)" "inp w3 = acks (k - 1)" "out w3 = out w2 @ int_msg (int ?m)"
    using send_bytes_stream [OF ok, of "int_msg (int ?m)" w2] w2(2) by (auto simp: send_int_def)
  obtain w4 where w4: "await_ack c (int_msg ACK) w3 = Some (Inr (int_msg ACK), w4)" "inp w4 = acks (k - 1 - 1)" "out w4 = out w3"
    using await_ack_stream [OF ok w3(2), of "int_msg ACK"] by auto
  obtain w5 j where w5: "send_blocks c ?n file (int_msg ACK) w4 = Some (Inr (drop (?n * 512) file, int_msg ACK), w5)"
      "inp w5 = acks j" "out w5 = out w4 @ take (?n * 512) file"
    using send_blocks_stream [OF ok _ w4(2), of ?n "file"] by auto
  have run: "transfer c file w = (if 0 < ?m then andthen (send_block c ?m (drop (?n * 512) file) (int_msg ACK)) (\<lambda>_ w. Some (Inr (), w))
      else (\<lambda>w. Some (Inr (), w))) w5"
    by (simp add: transfer_def sz Let_def MAXSIZE_def andthen_def w1(1) w2(1) w3(1) w4(1) w5(1))
  have l: "length (drop (?n * 512) file) = ?m" by (simp add: minus_div_mult_eq_mod)
  show ?thesis
  proof (cases "0 < ?m")
    case True
    obtain w6 where "send_block c ?m (drop (?n * 512) file) (int_msg ACK) w5 = Some (Inr (int_msg ACK), w6)"
        "out w6 = out w5 @ drop (?n * 512) file"
      using send_block_stream [OF ok w5(2) True, of "drop (?n * 512) file"] l by auto
    then show ?thesis using run True w1(3) w2(3) w3(3) w4(3) w5(3) by (simp add: andthen_Some)
  next
    case False
    then have "take (?n * 512) file = file" using l by simp
    then show ?thesis using run False w1(3) w2(3) w3(3) w4(3) w5(3) by simp
  qed
qed

lemma read_name_stream:
  assumes "c_read c 256 w = ((256, take 256 (inp w)), w')" and "stream_ok c inp out"
    and "256 \<le> length (inp w)" and "length fname = 256"
  shows "read_name c fname w = Some (Inr (FILENAMEOK, take 256 (inp w)), w') \<and>
    inp w' = drop 256 (inp w) \<and> out w' = out w"
proof -
  have "inp w = take 256 (inp w) @ inp w'" "out w' = out w"
    using stream_read [OF assms(2) _ assms(1)] by auto
  then have "inp w' = drop 256 (inp w)" using append_take_drop_id by (metis same_append_eq)
  then show ?thesis using assms \<open>out w' = out w\<close> by (simp add: read_name_def MAXLINE_def wrn_def)
qed

text \<open>
  C27: on every connection that delivers bytes in order, however it cuts up reads and writes, and for
  every file of up to 2147483647 bytes: a request for the file is answered with 160, 400, the number of
  blocks, the size of the last block and the bytes of the file, provided that the read of the
  name field gets all of it. One acknowledgement is enough for this: when the client then shuts down
  its side, the answer is the same, since the variable \<open>ack\<close> keeps its value.
\<close>

theorem file_server_sends_file:
  assumes ok: "stream_ok c inp out" and len: "length field = 256" "length x = 4" "length fname = 256"
    and name: "c_string field = Some name" "fs name = Some file" "int (length file) \<le> INT_MAX"
    and whole: "\<And>w. 256 \<le> length (inp w) \<Longrightarrow> fst (c_read c 256 w) = (256, take 256 (inp w))"
    and w: "inp w = int_msg REQUESTFILE @ field @ x @ acks k" "0 < k"
  shows "\<exists>w'. doftp c fs fname w = Some (Inr (), w') \<and>
    out w' = out w @ int_msg COMMANDSUPPORTED @ int_msg FILENAMEOK @
      int_msg (int (length file div 512)) @ int_msg (int (length file mod 512)) @ file"
proof -
  obtain w1 where w1: "recv_int c [0, 0, 0, 0] w = Some (Inr (int_msg REQUESTFILE), w1)"
      "inp w1 = field @ x @ acks k" "out w1 = out w"
    using recv_int_stream [OF ok _ refl, of "[0, 0, 0, 0]" w] w(1) by auto
  obtain w2 where w2: "send_int c COMMANDSUPPORTED w1 = Some (Inr (), w2)" "inp w2 = inp w1"
      "out w2 = out w1 @ int_msg COMMANDSUPPORTED"
    using send_bytes_stream [OF ok] unfolding send_int_def by blast
  have i: "256 \<le> length (inp w2)" "take 256 (inp w2) = field" "drop 256 (inp w2) = x @ acks k"
    using w1(2) w2(2) len(1) by auto
  obtain w3 where "c_read c 256 w2 = ((256, take 256 (inp w2)), w3)"
    using whole [OF i(1)] by (metis prod.collapse)
  then have w3: "read_name c fname w2 = Some (Inr (FILENAMEOK, field), w3)" "inp w3 = x @ acks k" "out w3 = out w2"
    using read_name_stream [OF _ ok i(1) len(3)] i by auto
  have o: "open_file fs FILENAMEOK field w3 = Some (Inr (FILENAMEOK, Some file), w3)"
    using name by (simp add: open_file_def)
  obtain w4 where w4: "send_int c FILENAMEOK w3 = Some (Inr (), w4)" "inp w4 = inp w3"
      "out w4 = out w3 @ int_msg FILENAMEOK"
    using send_bytes_stream [OF ok] unfolding send_int_def by blast
  obtain w5 where w5: "recv_int c [0, 0, 0, 0] w4 = Some (Inr x, w5)" "inp w5 = acks k" "out w5 = out w4"
    using recv_int_stream [OF ok _ refl, of "[0, 0, 0, 0]" w4] w4(2) w3(2) len(2) by auto
  have "net_code (int_msg REQUESTFILE) = REQUESTFILE"
    using net_code_int_msg [of REQUESTFILE "[]"] by (simp add: REQUESTFILE_def)
  moreover have "FILENAMEOK \<noteq> BADFILENAME" by (simp add: FILENAMEOK_def BADFILENAME_def)
  ultimately have "doftp c fs fname w = transfer c file w5"
    by (simp add: doftp_def andthen_def w1(1) w2(1) w3(1)
      o w4(1) w5(1))
  then show ?thesis
    using transfer_stream [OF ok w5(2) w(2) name(3)] w1(3) w2(3) w3(3) w4(3) w5(3) by auto
qed


text \<open>A connection that transfers everything at once: its state is the input and the output.\<close>

definition sample_conn :: "(bytes \<times> bytes) conn" where
  "sample_conn = \<lparr>c_read = \<lambda>n (i, o'). ((int (length (take n i)), take n i), (drop n i, o')),
     c_write = \<lambda>p (i, o'). (int (length p), (i, o' @ p))\<rparr>"

lemma sample_conn_ok: "stream_ok sample_conn fst snd"
  by (auto simp: stream_ok_def sample_conn_def)

theorem file_server_sends_file_witness:
  "\<exists>w. doftp sample_conn (\<lambda>n. if n = [104] then Some [1, 2, 3] else None) (replicate 256 0)
      (int_msg 100 @ (104 # replicate 255 0) @ [0, 0, 0, 0] @ int_msg 2, []) = Some (Inr (), w) \<and>
    snd w = int_msg 160 @ int_msg 400 @ int_msg 0 @ int_msg 3 @ [1, 2, 3]"
proof -
  have "fst (c_read sample_conn 256 w) = (256, take 256 (fst w))" if "256 \<le> length (fst w)" for w
    using that by (cases w) (simp add: sample_conn_def)
  moreover have "acks 1 = int_msg 2" by (simp add: acks_def ACK_def)
  ultimately show ?thesis
    using file_server_sends_file [OF sample_conn_ok, of "104 # replicate 255 0" "[0, 0, 0, 0]" "replicate 256 0" "[104]"
      "\<lambda>n. if n = [104] then Some [1, 2, 3] else None" "[1, 2, 3]"
      "(int_msg 100 @ (104 # replicate 255 0) @ [0, 0, 0, 0] @ int_msg 2, [])" 1]
    by (simp add: c_string_def INT_MAX_def REQUESTFILE_def COMMANDSUPPORTED_def FILENAMEOK_def)
qed

text \<open>The number of blocks is announced in 16 bits: from 32 megabytes on the client learns a wrong size.\<close>

lemma announced_blocks: "net_code (int_msg (int n)) = int (n mod 65536)"
  by (simp add: net_code_def int_msg_def unsigned_of_nat take_bit_eq_mod of_nat_mod)

lemma unsupported_request:
  assumes "stream_ok c inp out" and "4 \<le> length (inp w)" and "net_code (take 4 (inp w)) \<noteq> REQUESTFILE"
  shows "\<exists>w'. doftp c fs fname w = Some (Inl Unsupported, w') \<and> out w' = out w @ int_msg COMMANDNOTSUPPORTED"
proof -
  obtain w1 where w1: "recv_int c [0, 0, 0, 0] w = Some (Inr (take 4 (inp w)), w1)" "out w1 = out w"
    using recv_int_stream [OF assms(1) _ refl, of "[0, 0, 0, 0]" w] assms(2) by auto
  obtain w2 where "send_int c COMMANDNOTSUPPORTED w1 = Some (Inr (), w2)" "out w2 = out w1 @ int_msg COMMANDNOTSUPPORTED"
    using send_bytes_stream [OF assms(1)] unfolding send_int_def by blast
  then show ?thesis using w1 assms(3) by (simp add: doftp_def andthen_def return_early_def)
qed

end
