(* ===== verification/Tftp_Get.thy ===== *)
theory Tftp_Get imports Prelude begin

section \<open>The stand-alone TFTP client (\<open>socket/tftp_1/main.c\<close>)\<close>

text \<open>
  \<open>tftp_get_file\<close> sends a read request and \<open>tget\<close> stores the blocks that arrive. The non-blocking
  socket is polled: the results of the successive \<open>recvfrom\<close> calls are a list, and a run that has used
  up its list is \<open>Pending\<close>. Sending takes its success from \<open>ok\<close>, a function of the number of
  datagrams sent before; \<open>room\<close> is the number of bytes that the disk still takes. \<open>from_addr\<close> and
  \<open>from_port\<close> are the fields of \<open>data\<close>, which starts with any contents; ports are in host order.
  \<open>char\<close> is signed, this program being built for the host.
\<close>

definition EAGAIN :: int where "EAGAIN = 11"
definition TIMEOUT :: nat where "TIMEOUT = 2000"
definition MAXDATASIZE :: nat where "MAXDATASIZE = 1024"
definition ackfreq :: u16 where "ackfreq = 1"
definition RETRIES :: nat where "RETRIES = 3"

datatype rcv = Rerr int | Rdata (sender: u32) (sender_port: u16) (payload: bytes)

record tget =
  count :: u16
  tid :: u16
  server_port :: u16
  from_addr :: u32
  from_port :: u16
  datasize :: int
  flag :: bool
  filebuf :: bytes
  n_recv :: int
  saved :: bytes
  room :: nat
  sent :: "(u16 \<times> bytes) list"

datatype tget_end = Not_opened | Send_failed | Timed_out | Write_failed | Received | Pending

subsection \<open>Receiving\<close>

text \<open>The innermost loop, with the number of polls left; its end without a datagram is the last \<open>errno\<close>.\<close>

fun poll_loop :: "nat \<Rightarrow> rcv list \<Rightarrow> (rcv \<times> rcv list) option" where
  "poll_loop 0 es = Some (Rerr EAGAIN, es)"
| "poll_loop (Suc i) [] = None"
| "poll_loop (Suc i) (Rerr e # es) = (if e = EAGAIN then poll_loop i es else Some (Rerr e, es))"
| "poll_loop (Suc i) (Rdata a p d # es) = Some (Rdata a p (take (MAXDATASIZE + 11) d), es)"

definition note_result :: "rcv \<Rightarrow> tget \<Rightarrow> tget" where
  "note_result e s = (case e of
      Rerr _ \<Rightarrow> s\<lparr>n_recv := - 1\<rparr>
    | Rdata a p d \<Rightarrow> s\<lparr>n_recv := int (length d), from_addr := a, from_port := p\<rparr>)"

definition take_tid :: "tget \<Rightarrow> tget" where
  "take_tid s = (if tid s = 0 then s\<lparr>tid := from_port s, server_port := from_port s\<rparr> else s)"

definition send_datagram :: "(nat \<Rightarrow> bool) \<Rightarrow> bytes \<Rightarrow> tget \<Rightarrow> bool \<times> tget" where
  "send_datagram ok d s = (if ok (length (sent s)) then (True, s\<lparr>sent := sent s @ [(server_port s, d)]\<rparr>) else (False, s))"

text \<open>An error message; a failure to send it is only printed.\<close>

definition error_packet :: "u8 \<Rightarrow> string \<Rightarrow> bytes" where
  "error_packet code t = [0, 5, 0, code] @ map of_char t @ [0]"

definition ack_packet :: "u16 \<Rightarrow> bytes" where
  "ack_packet k = [0, 4, hi8 k, lo8 k]"

definition set_datasize :: "tget \<Rightarrow> tget" where
  "set_datasize s = (if flag s then s\<lparr>flag := False,
      datasize := if 516 < n_recv s then n_recv s - 4 else if n_recv s < 516 then 512 else datasize s\<rparr> else s)"

text \<open>What is done with a datagram from the right place: \<open>None\<close> when the copy leaves \<open>filebuf\<close>.\<close>

definition store_packet :: "bytes \<Rightarrow> tget \<Rightarrow> tget option" where
  "store_packet d s = (if length d < 4 then None
     else map_option (\<lambda>b. set_datasize (s\<lparr>filebuf := b\<rparr>)) (wrn (filebuf s) 0 (drop 4 d)))"

definition acknowledge :: "(nat \<Rightarrow> bool) \<Rightarrow> tget \<Rightarrow> bool \<times> tget" where
  "acknowledge ok s =
     (if (uint (count s) - 1) mod uint ackfreq = 0 then send_datagram ok (ack_packet (count s)) s
      else if count s = 1 then send_datagram ok (ack_packet (count s)) s
      else (True, s))"

datatype attempt_end = Block | Gave_up | Not_sent | Still_polling

lemma poll_loop_length: "poll_loop i es = Some (e, es') \<Longrightarrow> length es' \<le> length es"
  by (induction i es rule: poll_loop.induct) (auto split: if_splits)

lemma poll_loop_data: "poll_loop i es = Some (Rdata a p d, es') \<Longrightarrow> length es' < length es"
  by (induction i es rule: poll_loop.induct) (auto split: if_splits)

text \<open>The loop over the attempts, with the number of attempts left; \<open>j--; continue\<close> keeps that number.\<close>

function attempts :: "(nat \<Rightarrow> bool) \<Rightarrow> u32 \<Rightarrow> nat \<Rightarrow> rcv list \<Rightarrow> tget \<Rightarrow> (attempt_end \<times> rcv list \<times> tget) option" where
  "attempts ok addr 0 es s = Some (Gave_up, es, s)"
| "attempts ok addr (Suc left) es s = (case poll_loop (TIMEOUT + 1) es of
      None \<Rightarrow> Some (Still_polling, [], s)
    | Some (Rerr e, es') \<Rightarrow> attempts ok addr left es' (take_tid (note_result (Rerr e) s))
    | Some (Rdata a p d, es') \<Rightarrow>
        (let s = take_tid (note_result (Rdata a p d) s) in
         if addr \<noteq> a then attempts ok addr (Suc left) es' s
         else if tid s \<noteq> server_port s
         then attempts ok addr (Suc left) es' (snd (send_datagram ok (error_packet 5 ''Bad/Unknown TID'') s))
         else case store_packet d s of
             None \<Rightarrow> None
           | Some s \<Rightarrow>
               if sint (d ! 1) \<noteq> 3
               then attempts ok addr left es'
                 (if 5 < sint (d ! 1) then snd (send_datagram ok (error_packet 4 ''Illegal operation'') s) else s)
               else case acknowledge ok s of
                   (True, s) \<Rightarrow> Some (Block, es', s)
                 | (False, s) \<Rightarrow> Some (Not_sent, es', s)))"
  by pat_completeness auto
termination
  by (relation "measure (\<lambda>(ok, addr, left, es, s). left + length es)")
    (auto dest: poll_loop_length poll_loop_data)

lemma attempts_shorter:
  "attempts ok addr left es s = Some (Block, es', s') \<Longrightarrow> length es' < length es"
proof (induction ok addr left es s rule: attempts.induct)
  case (2 ok addr left es s)
  obtain e es1 where p: "poll_loop (TIMEOUT + 1) es = Some (e, es1)"
    using 2(5) by (cases "poll_loop (TIMEOUT + 1) es") auto
  show ?case
  proof (cases e)
    case (Rerr x)
    then show ?thesis using 2(1) [OF p] 2(5) p poll_loop_length [OF p] by auto
  next
    case (Rdata a q d)
    then have l: "length es1 < length es" using p poll_loop_data by blast
    show ?thesis
      using 2(2-4) [OF p _ Rdata refl] 2(5) p Rdata l
      by (auto simp: Let_def intro: less_trans [OF _ l] split: if_splits option.splits bool.splits prod.splits)
  qed
qed simp

subsection \<open>The transfer\<close>

text \<open>\<open>fwrite\<close> of the block in \<open>filebuf\<close>; the loop goes on if all of it was written.\<close>

definition write_block :: "tget \<Rightarrow> bool \<times> tget" where
  "write_block s = (let d = take (nat (n_recv s - 4)) (filebuf s); k = min (length d) (room s) in
     (int k = n_recv s - 4, s\<lparr>saved := saved s @ take k d, room := room s - k\<rparr>))"

function rounds :: "(nat \<Rightarrow> bool) \<Rightarrow> u32 \<Rightarrow> rcv list \<Rightarrow> tget \<Rightarrow> (tget_end \<times> tget) option" where
  "rounds ok addr es s =
     (if n_recv s \<noteq> datasize s + 4
      then (case send_datagram ok (ack_packet (count s)) s of
          (True, s) \<Rightarrow> Some (Received, s) | (False, s) \<Rightarrow> Some (Send_failed, s))
      else case attempts ok addr RETRIES es (s\<lparr>count := count s + 1\<rparr>) of
          None \<Rightarrow> None
        | Some (Still_polling, es', s) \<Rightarrow> Some (Pending, s)
        | Some (Gave_up, es', s) \<Rightarrow> Some (Timed_out, s)
        | Some (Not_sent, es', s) \<Rightarrow> Some (Send_failed, s)
        | Some (Block, es', s) \<Rightarrow>
            (case write_block s of (True, s) \<Rightarrow> rounds ok addr es' s | (False, s) \<Rightarrow> Some (Write_failed, s)))"
  by pat_completeness auto
termination
  by (relation "measure (\<lambda>(ok, addr, es, s). length es)") (auto dest: attempts_shorter)

declare rounds.simps [simp del]

text \<open>\<open>tget\<close>: the name is copied into an array of 128 bytes, and a local file is opened.\<close>

definition tget :: "(nat \<Rightarrow> bool) \<Rightarrow> u32 \<Rightarrow> bool \<Rightarrow> bytes \<Rightarrow> rcv list \<Rightarrow> tget \<Rightarrow> (tget_end \<times> tget) option" where
  "tget ok addr open_ok filename es s =
     (if 128 < length filename + 1 then None
      else if \<not> open_ok then Some (Not_opened, s)
      else rounds ok addr es (s\<lparr>count := 0, tid := 0, flag := True, filebuf := replicate (MAXDATASIZE + 1) 0,
        n_recv := datasize s + 4\<rparr>))"

definition req_packet :: "u8 \<Rightarrow> bytes \<Rightarrow> bytes \<Rightarrow> bytes \<Rightarrow> (bytes \<times> nat) option" where
  "req_packet opcode filename mode buf = (let r = [0, opcode] @ filename @ [0] @ mode @ [0] in
     map_option (\<lambda>b. (b, length r)) (wrn buf 0 (r @ [0])))"

text \<open>A request that cannot be sent ends the program; so does a socket that cannot be created.\<close>

definition tftp_get_file :: "(nat \<Rightarrow> bool) \<Rightarrow> bool \<Rightarrow> u32 \<Rightarrow> bool \<Rightarrow> bytes \<Rightarrow> rcv list \<Rightarrow> bytes \<Rightarrow> tget \<Rightarrow>
    (tget_end \<times> tget) option" where
  "tftp_get_file ok socket_ok addr open_ok filename es buf s =
     (if \<not> socket_ok then Some (Not_opened, s)
      else case req_packet 1 filename (map of_char ''octet'') buf of
          None \<Rightarrow> None
        | Some (b, len) \<Rightarrow>
            (case send_datagram ok (take len b) (s\<lparr>server_port := 69\<rparr>) of
                (True, s) \<Rightarrow> tget ok addr open_ok filename es s
              | (False, s) \<Rightarrow> Some (Send_failed, s)))"

declare attempts.simps [simp del]

subsection \<open>Runs\<close>

text \<open>A data packet: any first byte, the operation 3, any two bytes for the block number, the data.\<close>

record block =
  port :: u16
  first_byte :: u8
  number :: "u8 \<times> u8"
  data :: bytes

definition packet :: "u32 \<Rightarrow> block \<Rightarrow> rcv" where
  "packet addr k = Rdata addr (port k) ([first_byte k, 3, fst (number k), snd (number k)] @ data k)"

text \<open>What holds between two rounds of a transfer with blocks of 512 bytes from the transfer port \<open>q\<close>.\<close>

definition between :: "tget \<Rightarrow> bool" where
  "between s \<longleftrightarrow> datasize s = 512 \<and> length (filebuf s) = 1025 \<and> (tid s = 0 \<or> server_port s = tid s)"

lemma ack_always: "acknowledge ok s = send_datagram ok (ack_packet (count s)) s"
  by (simp add: acknowledge_def ackfreq_def)

definition served_port :: "tget \<Rightarrow> u16 \<Rightarrow> u16" where
  "served_port s p = (if tid s = 0 then p else server_port s)"

lemma attempts_block:
  assumes "between s" and "length (data k) \<le> 512" and "\<forall>n. ok n"
  obtains s' where "attempts ok addr RETRIES (packet addr k # es) s = Some (Block, es, s')"
    and "between s'" "n_recv s' = int (length (data k)) + 4" "count s' = count s"
    "saved s' = saved s" "room s' = room s" "take (length (data k)) (filebuf s') = data k"
    "server_port s' = served_port s (port k)" "tid s' = (if tid s = 0 then port k else tid s)"
    "sent s' = sent s @ [(served_port s (port k), ack_packet (count s))]"
proof -
  define d where "d = [first_byte k, 3, fst (number k), snd (number k)] @ data k"
  have d: "length d = length (data k) + 4" "drop 4 d = data k" "d ! 1 = 3" by (simp_all add: d_def)
  define s1 where "s1 = take_tid (note_result (Rdata addr (port k) d) s)"
  have p: "poll_loop (Suc TIMEOUT) (packet addr k # es) = Some (Rdata addr (port k) d, es)"
    using assms(2) d(1) by (simp add: packet_def d_def [symmetric] MAXDATASIZE_def del: append_Cons)
  have s1: "tid s1 = server_port s1" "n_recv s1 = int (length (data k)) + 4" "length (filebuf s1) = 1025"
    using assms(1) d(1) by (auto simp: s1_def take_tid_def note_result_def between_def)
  define b where "b = data k @ drop (length (data k)) (filebuf s1)"
  have w: "store_packet d s1 = Some (set_datasize (s1\<lparr>filebuf := b\<rparr>))"
    using assms(2) s1(3) d by (simp add: store_packet_def wrn_def b_def)
  define s2 where "s2 = set_datasize (s1\<lparr>filebuf := b\<rparr>)"
  define s3 where "s3 = s2\<lparr>sent := sent s2 @ [(server_port s2, ack_packet (count s2))]\<rparr>"
  have "attempts ok addr RETRIES (packet addr k # es) s = Some (Block, es, s3)"
    using p w s1(1) assms(3) d(3)
    unfolding RETRIES_def numeral_3_eq_3
    by (subst attempts.simps) (simp add: s1_def [symmetric] s2_def [symmetric] ack_always send_datagram_def s3_def Let_def)
  then show ?thesis
  proof (rule that)
    show "between s3" using assms(1,2) s1
      by (auto simp: between_def s3_def s2_def set_datasize_def b_def s1_def take_tid_def note_result_def)
  qed (use assms(1,2) s1 in \<open>auto simp: served_port_def between_def s3_def s2_def set_datasize_def b_def s1_def take_tid_def note_result_def\<close>)
qed

lemma round_block:
  assumes "between s" and "length (data k) \<le> 512" and "\<forall>n. ok n" and "n_recv s = 516" and "length (data k) \<le> room s"
  obtains s' where "rounds ok addr (packet addr k # es) s = rounds ok addr es s'"
    and "between s'" "n_recv s' = int (length (data k)) + 4" "count s' = count s + 1"
    "saved s' = saved s @ data k" "room s' = room s - length (data k)"
    "server_port s' = served_port s (port k)" "tid s' = (if tid s = 0 then port k else tid s)"
    "sent s' = sent s @ [(served_port s (port k), ack_packet (count s + 1))]"
proof -
  let ?s = "s\<lparr>count := count s + 1\<rparr>"
  have b: "between ?s" "served_port ?s = served_port s" using assms(1) by (auto simp: between_def served_port_def)
  obtain v where v: "attempts ok addr RETRIES (packet addr k # es) ?s = Some (Block, es, v)"
      "between v" "n_recv v = int (length (data k)) + 4" "count v = count s + 1"
      "saved v = saved s" "room v = room s" "take (length (data k)) (filebuf v) = data k"
      "server_port v = served_port s (port k)" "tid v = (if tid s = 0 then port k else tid s)"
      "sent v = sent s @ [(served_port s (port k), ack_packet (count s + 1))]"
    by (rule attempts_block [OF b(1) assms(2,3), of addr es]) (simp_all add: b(2))
  let ?v = "v\<lparr>saved := saved v @ data k, room := room v - length (data k)\<rparr>"
  have "write_block v = (True, ?v)" using v(3,6,7) assms(5) by (simp add: write_block_def Let_def)
  moreover have "n_recv s = datasize s + 4" using assms(1,4) by (simp add: between_def)
  ultimately have "rounds ok addr (packet addr k # es) s = rounds ok addr es ?v"
    using v(1) by (subst rounds.simps) simp
  then show ?thesis by (rule that) (use v in \<open>simp_all add: between_def\<close>)
qed


lemma rounds_end:
  assumes "n_recv s \<noteq> datasize s + 4" and "\<forall>n. ok n"
  shows "rounds ok addr es s = Some (Received, s\<lparr>sent := sent s @ [(server_port s, ack_packet (count s))]\<rparr>)"
  using assms by (subst rounds.simps) (simp add: send_datagram_def)

lemma rounds_packets:
  assumes "\<forall>n. ok n"
  shows "between s \<Longrightarrow> n_recv s = 516 \<Longrightarrow> tid s = q \<and> q \<noteq> 0 \<or> tid s = 0 \<and> port (hd (full @ [l])) = q \<and> q \<noteq> 0 \<Longrightarrow>
    \<forall>k\<in>set full. length (data k) = 512 \<Longrightarrow> length (data l) < 512 \<Longrightarrow>
    (\<Sum>k\<leftarrow>full @ [l]. length (data k)) \<le> room s \<Longrightarrow> count s = of_nat c \<Longrightarrow>
    \<exists>s'. rounds ok addr (map (packet addr) (full @ [l]) @ es) s = Some (Received, s') \<and>
      saved s' = saved s @ concat (map data (full @ [l])) \<and>
      sent s' = sent s @ map (\<lambda>j. (q, ack_packet (of_nat j))) ([c + 1 ..< c + length full + 2] @ [c + length full + 1])"
proof (induction full arbitrary: s c)
  case Nil
  have l: "length (data l) \<le> 512" "length (data l) \<le> room s" using Nil.prems(5,6) by simp_all
  obtain v where v: "rounds ok addr (packet addr l # es) s = rounds ok addr es v" "between v"
      "n_recv v = int (length (data l)) + 4" "count v = count s + 1" "saved v = saved s @ data l"
      "server_port v = served_port s (port l)" "sent v = sent s @ [(served_port s (port l), ack_packet (count s + 1))]"
    using round_block [OF Nil.prems(1) l(1) assms Nil.prems(2) l(2)] by metis
  have "served_port s (port l) = q" using Nil.prems(1,3) by (auto simp: served_port_def between_def)
  moreover have "n_recv v \<noteq> datasize v + 4" using v(2,3) Nil.prems(5) by (simp add: between_def)
  ultimately show ?case using v(1,4-7) rounds_end [OF _ assms, of v addr es] Nil.prems(7) by (simp add: add.commute)
next
  case (Cons k full)
  have l: "length (data k) \<le> 512" "length (data k) \<le> room s" using Cons.prems(4,6) by simp_all
  obtain v where v: "rounds ok addr (packet addr k # map (packet addr) (full @ [l]) @ es) s =
        rounds ok addr (map (packet addr) (full @ [l]) @ es) v" "between v"
      "n_recv v = int (length (data k)) + 4" "count v = count s + 1" "saved v = saved s @ data k"
      "room v = room s - length (data k)" "server_port v = served_port s (port k)"
      "tid v = (if tid s = 0 then port k else tid s)"
      "sent v = sent s @ [(served_port s (port k), ack_packet (count s + 1))]"
    using round_block [OF Cons.prems(1) l(1) assms Cons.prems(2) l(2)] by metis
  have q: "served_port s (port k) = q" "tid v = q" "q \<noteq> 0"
    using Cons.prems(1,3) v(8) by (auto simp: served_port_def between_def)
  have "\<exists>s'. rounds ok addr (map (packet addr) (full @ [l]) @ es) v = Some (Received, s') \<and>
      saved s' = saved v @ concat (map data (full @ [l])) \<and>
      sent s' = sent v @ map (\<lambda>j. (q, ack_packet (of_nat j))) ([c + 1 + 1 ..< c + 1 + length full + 2] @ [c + 1 + length full + 1])"
    using Cons.prems(4-7) q v(2-4,6) by (intro Cons.IH) auto
  moreover have "[c + 1 ..< c + length (k # full) + 2] = (c + 1) # [c + 1 + 1 ..< c + 1 + length full + 2]"
    by (subst upt_conv_Cons) simp_all
  ultimately show ?case using v(1,5,9) q(1) Cons.prems(7) by (auto simp: add.commute)
qed

definition read_request :: "bytes \<Rightarrow> bytes" where
  "read_request filename = [0, 1] @ filename @ [0] @ map of_char ''octet'' @ [0]"

text \<open>
  A file is received as the data of the packets in the order of their arrival, whatever
  numbers they carry and from whichever ports they come: packets of 512 bytes and then a shorter one
  lead to the file made of their data, to one acknowledgement for each, numbered by the client's own
  counter (modulo 65536) and sent to the port of the first packet, and to a second one for the last.
  So a block that the server repeats is stored twice.
\<close>

theorem tget_stores_whatever_arrives:
  assumes "\<forall>k\<in>set full. length (data k) = 512" and "length (data l) < 512" and "port (hd (full @ [l])) = q" and "q \<noteq> 0"
    and "\<forall>n. ok n" and "length filename \<le> 127" and "length buf = 1024" and "datasize s = 512"
    and "(\<Sum>k\<leftarrow>full @ [l]. length (data k)) \<le> room s"
  shows "\<exists>s'. tftp_get_file ok True addr True filename (map (packet addr) (full @ [l]) @ es) buf s = Some (Received, s') \<and>
    saved s' = saved s @ concat (map data (full @ [l])) \<and>
    sent s' = sent s @ (69, read_request filename) #
      map (\<lambda>j. (q, ack_packet (of_nat j))) ([1 ..< length full + 2] @ [length full + 1])"
proof -
  let ?r = "read_request filename"
  have "length (?r @ [0]) \<le> 1024" using assms(6) by (simp add: read_request_def)
  then have "req_packet 1 filename (map of_char ''octet'') buf = Some ((?r @ [0]) @ drop (length (?r @ [0])) buf, length ?r)"
    using assms(7) unfolding req_packet_def read_request_def [symmetric] Let_def by (simp add: wrn_def)
  moreover define s1 where "s1 = s\<lparr>server_port := 69, sent := sent s @ [(69, ?r)], count := 0, tid := 0, flag := True,
    filebuf := replicate (MAXDATASIZE + 1) 0, n_recv := 516\<rparr>"
  ultimately have "tftp_get_file ok True addr True filename es' buf s = rounds ok addr es' s1" for es'
    using assms(5,6,8) by (simp add: tftp_get_file_def send_datagram_def tget_def)
  moreover have "between s1" "n_recv s1 = 516" "count s1 = of_nat 0" "tid s1 = 0" "room s1 = room s" "saved s1 = saved s"
      "sent s1 = sent s @ [(69, ?r)]"
    using assms(8) by (simp_all add: s1_def between_def MAXDATASIZE_def)
  ultimately show ?thesis using rounds_packets [OF assms(5), of s1 q full l 0 addr es] assms(1-4,9) by simp
qed

theorem tget_stores_whatever_arrives_witness:
  "\<exists>s. tftp_get_file (\<lambda>_. True) True 1 True [104] 
      [Rdata 1 2000 ([0, 3, 0, 1] @ replicate 512 7), Rdata 1 2001 ([0, 3, 0, 1] @ replicate 512 7), Rdata 1 2000 [0, 3, 0, 2, 9]]
      (replicate 1024 0) \<lparr>count = 0, tid = 0, server_port = 0, from_addr = 0, from_port = 0, datasize = 512, flag = True,
        filebuf = [], n_recv = 0, saved = [], room = 5000, sent = []\<rparr> = Some (Received, s) \<and>
    saved s = replicate 1024 7 @ [9]"
proof -
  let ?k = "\<lparr>port = 2000, first_byte = 0, number = (0, 1), data = replicate 512 7\<rparr>"
  let ?k' = "\<lparr>port = 2001, first_byte = 0, number = (0, 1), data = replicate 512 7\<rparr>"
  let ?l = "\<lparr>port = 2000, first_byte = 0, number = (0, 2), data = [9]\<rparr>"
  have "replicate 512 7 @ replicate 512 7 = replicate 1024 (7 :: u8)" by (simp flip: replicate_add)
  then show ?thesis
    using tget_stores_whatever_arrives [of "[?k, ?k']" ?l 2000 "\<lambda>_. True" "[104]" "replicate 1024 0"
      "\<lparr>count = 0, tid = 0, server_port = 0, from_addr = 0, from_port = 0, datasize = 512, flag = True,
        filebuf = [], n_recv = 0, saved = [], room = 5000, sent = []\<rparr>" 1 "[]"]
    by (auto simp: packet_def)
qed

subsection \<open>Errors\<close>

text \<open>Silence ends the transfer after three times 2001 polls, whatever came before.\<close>

lemma poll_silence: "poll_loop i (replicate i (Rerr EAGAIN) @ es) = Some (Rerr EAGAIN, es)"
  by (induction i) simp_all

lemma attempts_silence:
  "\<exists>s'. attempts ok addr left (replicate (left * (TIMEOUT + 1)) (Rerr EAGAIN) @ es) s = Some (Gave_up, es, s') \<and>
     saved s' = saved s \<and> sent s' = sent s"
proof (induction left arbitrary: s)
  case 0
  then show ?case by (simp add: attempts.simps)
next
  case (Suc left)
  let ?s = "take_tid (note_result (Rerr EAGAIN) s)"
  have r: "replicate (Suc left * (TIMEOUT + 1)) (Rerr EAGAIN) @ es =
      replicate (TIMEOUT + 1) (Rerr EAGAIN) @ replicate (left * (TIMEOUT + 1)) (Rerr EAGAIN) @ es"
    by (simp only: mult_Suc replicate_add append_assoc)
  have "attempts ok addr (Suc left) (replicate (Suc left * (TIMEOUT + 1)) (Rerr EAGAIN) @ es) s =
      attempts ok addr left (replicate (left * (TIMEOUT + 1)) (Rerr EAGAIN) @ es) ?s"
    unfolding r by (subst attempts.simps(2), subst poll_silence) simp
  moreover have "saved ?s = saved s" "sent ?s = sent s" by (simp_all add: take_tid_def note_result_def)
  ultimately show ?case using Suc.IH [of ?s] by simp
qed

lemma silence_ends_transfer:
  assumes "n_recv s = datasize s + 4"
  shows "\<exists>s'. rounds ok addr (replicate (RETRIES * (TIMEOUT + 1)) (Rerr EAGAIN) @ es) s = Some (Timed_out, s') \<and>
    saved s' = saved s \<and> sent s' = sent s"
  using attempts_silence [of ok addr RETRIES es "s\<lparr>count := count s + 1\<rparr>"] assms
  by (subst rounds.simps) auto

text \<open>
  A first datagram from another host is not stored, but its port becomes the transfer port: the
  acknowledgements then go to that port of the server.
\<close>

lemma foreign_packet_takes_port:
  assumes "tid s = 0" and "a \<noteq> addr"
  shows "\<exists>s'. attempts ok addr (Suc left) (Rdata a p d # es) s = attempts ok addr (Suc left) es s' \<and>
    tid s' = p \<and> server_port s' = p \<and> saved s' = saved s \<and> sent s' = sent s"
proof -
  have "attempts ok addr (Suc left) (Rdata a p d # es) s =
      attempts ok addr (Suc left) es (take_tid (note_result (Rdata a p (take (MAXDATASIZE + 11) d)) s))"
    using assms(2) by (subst attempts.simps(2)) (simp add: Let_def)
  then show ?thesis using assms(1) by (auto simp: take_tid_def note_result_def)
qed

text \<open>A datagram of fewer than 4 bytes, or of more than 1029, makes the copy into \<open>filebuf\<close> leave the array.\<close>

lemma odd_packet_overflows:
  assumes "tid s = 0 \<or> tid s = server_port s" and "length d < 4 \<or> 1029 < length d" and "length (filebuf s) = 1025"
  shows "attempts ok addr (Suc left) (Rdata addr p d # es) s = None"
proof -
  let ?d = "take (MAXDATASIZE + 11) d" and ?s = "take_tid (note_result (Rdata addr p (take (MAXDATASIZE + 11) d)) s)"
  have "tid ?s = server_port ?s" "length (filebuf ?s) = 1025"
    using assms(1,3) by (auto simp: take_tid_def note_result_def)
  moreover from this(2) have "store_packet ?d ?s = None"
    using assms(2) by (auto simp: store_packet_def wrn_def MAXDATASIZE_def)
  ultimately show ?thesis by (subst attempts.simps(2)) (simp add: Let_def)
qed

end
