(* ===== verification/Http_Server.thy ===== *)
theory Http_Server imports Prelude begin

section \<open>The web server of \<open>socket/http_server\<close>\<close>

text \<open>
  \<open>send_buf\<close> sends a text that lies in a larger array, in pieces of at most 1400 bytes; the results
  of the successive \<open>send\<close> calls are a list, and a call whose list is used up is \<open>Blocked\<close>. A result
  \<open>r\<close> means that \<open>r\<close> of the offered bytes went out. \<open>web_server\<close> answers the first connection with
  one page and every later one with another. What it reads and prints of a request is left out, and
  so is the error of \<open>accept\<close> that ends it.
\<close>

datatype send_end = Returned int | Blocked

fun send_loop :: "bytes \<Rightarrow> int \<Rightarrow> int \<Rightarrow> int \<Rightarrow> int list \<Rightarrow> bytes \<Rightarrow> (send_end \<times> bytes) option" where
  "send_loop buf total_len cur len rs out = (if total_len \<le> cur then Some (Returned (total_len - cur), out)
     else case rs of
         [] \<Rightarrow> Some (Blocked, out)
       | ret # rs' \<Rightarrow> (case rdn buf (nat cur) (nat len) of
             None \<Rightarrow> None
           | Some d \<Rightarrow>
               if ret < 0 then Some (Returned (- 1), out)
               else (let cur' = cur + ret; len' = total_len - cur' in
                 send_loop buf total_len cur' (if 1400 < len' then 1400 else len') rs' (out @ take (nat ret) d))))"

declare send_loop.simps [simp del]

definition strlen :: "bytes \<Rightarrow> nat option" where
  "strlen buf = (if 0 \<in> set buf then Some (length (takeWhile (\<lambda>b. b \<noteq> 0) buf)) else None)"

definition send_buf :: "bytes \<Rightarrow> int list \<Rightarrow> (send_end \<times> bytes) option" where
  "send_buf buf rs = (case strlen buf of
      None \<Rightarrow> None
    | Some n \<Rightarrow> send_loop buf (int n + 1) 0 1400 rs [])"

text \<open>
  The connections of a run of \<open>web_server\<close>, each with the results of its sends: what each client
  gets, and whether an error is printed. The run ends where a send blocks.
\<close>

fun serve :: "bytes \<Rightarrow> bytes \<Rightarrow> bool \<Rightarrow> int list list \<Rightarrow> (bytes \<times> bool) list option" where
  "serve page sbuf flage [] = Some []"
| "serve page sbuf flage (rs # rss) = (case send_buf (if flage then sbuf else page) rs of
      None \<Rightarrow> None
    | Some (Blocked, out) \<Rightarrow> Some [(out, False)]
    | Some (Returned r, out) \<Rightarrow> map_option (\<lambda>xs. (out, r \<noteq> 0) # xs) (serve page sbuf True rss))"

definition web_server :: "bytes \<Rightarrow> bytes \<Rightarrow> int list list \<Rightarrow> (bytes \<times> bool) list option" where
  "web_server page sbuf rss = serve page sbuf False rss"

subsection \<open>What is sent\<close>

text \<open>The text \<open>t\<close> in an array: its bytes, the final zero, and more zeros.\<close>

definition in_array :: "bytes \<Rightarrow> nat \<Rightarrow> bytes" where
  "in_array t n = t @ replicate (n - length t) 0"

lemma in_array_props:
  assumes "0 \<notin> set t" and "length t < n"
  shows "length (in_array t n) = n" "strlen (in_array t n) = Some (length t)"
    "take (length t + 1) (in_array t n) = t @ [0]"
proof -
  obtain k where k: "n - length t = Suc k" using assms(2) by (metis Suc_diff_Suc)
  show "length (in_array t n) = n" using assms(2) by (simp add: in_array_def)
  have "takeWhile (\<lambda>b. b \<noteq> 0) (in_array t n) = t"
    using assms(1) unfolding in_array_def k by (subst takeWhile_append2) auto
  then show "strlen (in_array t n) = Some (length t)" by (simp add: strlen_def) (simp add: in_array_def k)
  show "take (length t + 1) (in_array t n) = t @ [0]" by (simp add: in_array_def k)
qed

text \<open>Results that are neither errors nor 0, sum up to \<open>k\<close>, and never exceed what is offered.\<close>

fun accepted :: "int \<Rightarrow> int list \<Rightarrow> bool" where
  "accepted k [] \<longleftrightarrow> k = 0"
| "accepted k (r # rs) \<longleftrightarrow> 0 < r \<and> r \<le> min 1400 k \<and> accepted (k - r) rs"

lemma send_loop_accepted:
  "accepted (n - cur) rs \<Longrightarrow> 0 \<le> cur \<Longrightarrow> cur \<le> n \<Longrightarrow> n \<le> int (length buf) \<Longrightarrow> len = min 1400 (n - cur) \<Longrightarrow>
   send_loop buf n cur len rs out = Some (Returned 0, out @ take (nat (n - cur)) (drop (nat cur) buf))"
proof (induction rs arbitrary: cur len out)
  case Nil
  then show ?case by (subst send_loop.simps) simp
next
  case (Cons r rs)
  let ?d = "take (nat len) (drop (nat cur) buf)"
  have d: "rdn buf (nat cur) (nat len) = Some ?d" 
  proof -
    have "nat cur + nat len = nat (cur + len)" "cur + len \<le> n" using Cons.prems by (auto simp: nat_add_distrib)
    then show ?thesis using Cons.prems(4) by (simp add: rdn_def)
  qed
  have IH: "send_loop buf n (cur + r) (min 1400 (n - (cur + r))) rs (out @ take (nat r) ?d) =
      Some (Returned 0, (out @ take (nat r) ?d) @ take (nat (n - (cur + r))) (drop (nat (cur + r)) buf))"
    using Cons.prems by (intro Cons.IH) (auto simp: algebra_simps)
  have "nat (n - cur) = nat r + nat (n - (cur + r))" "nat (cur + r) = nat r + nat cur" "nat r \<le> nat len"
    using Cons.prems by auto
  then have "take (nat r) ?d @ take (nat (n - (cur + r))) (drop (nat (cur + r)) buf) = take (nat (n - cur)) (drop (nat cur) buf)"
    by (simp add: take_add min_absorb1)
  then show ?case using IH d Cons.prems by (subst send_loop.simps) (auto simp: Let_def min_def)
qed

text \<open>
  A text whose length with its final zero is between 1400 and the size of its array is sent in full and
  nothing else, however the sends cut it up.
\<close>

lemma send_buf_accepted:
  assumes "0 \<notin> set t" and "1400 \<le> length t + 1" and "length t < n" and "accepted (int (length t) + 1) rs"
  shows "send_buf (in_array t n) rs = Some (Returned 0, t @ [0])"
proof -
  have "send_loop (in_array t n) (int (length t) + 1) 0 1400 rs [] =
      Some (Returned 0, [] @ take (nat (int (length t) + 1 - 0)) (drop (nat 0) (in_array t n)))"
    using assms in_array_props(1) [OF assms(1,3)] by (intro send_loop_accepted) auto
  then show ?thesis using in_array_props(2,3) [OF assms(1,3)] by (simp add: send_buf_def nat_add_distrib)
qed

text \<open>
  The first \<open>send\<close> offers 1400 bytes whatever the length of the text: when all are taken, a shorter
  text (such as the code's first page) is followed by the contents of the array and reported as an error.
\<close>

lemma short_page_overshoots:
  assumes "0 \<notin> set p" and "length p + 1 < 1400" and "1400 \<le> n"
  shows "send_buf (in_array p n) (1400 # rs) = Some (Returned (int (length p) - 1399), p @ replicate (1400 - length p) 0)"
proof -
  have l: "length p < n" using assms(2,3) by simp
  have "take 1400 (in_array p n) = p @ replicate (1400 - length p) 0"
    using assms(2,3) by (simp add: in_array_def min_def)
  then show ?thesis
    using assms(2,3) in_array_props(1,2) [OF assms(1) l]
    by (subst send_buf_def, simp) (subst send_loop.simps, simp add: rdn_def Let_def, subst send_loop.simps, simp)
qed

lemma serve_later:
  assumes "0 \<notin> set t" and "1400 \<le> length t + 1" and "length t < m" and "\<forall>rs\<in>set rss. accepted (int (length t) + 1) rs"
  shows "serve page (in_array t m) True rss = Some (map (\<lambda>_. (t @ [0], False)) rss)"
  using assms(4) by (induction rss) (simp_all add: send_buf_accepted [OF assms(1-3)])

text \<open>
  The first page of the code is shorter than 1400 bytes, the second longer. When the first send takes
  all that it is offered, the first client gets its page and then zeros up to 1400 bytes, and an error is
  reported although everything was sent; every later client gets the second page with its final
  zero and nothing else, however the sends cut it up.
\<close>

theorem web_server_sends_pages:
  assumes "0 \<notin> set p" and "length p + 1 < 1400" and "1400 \<le> n"
    and "0 \<notin> set t" and "1400 \<le> length t + 1" and "length t < m" and "\<forall>rs\<in>set rss. accepted (int (length t) + 1) rs"
  shows "web_server (in_array p n) (in_array t m) ((1400 # r0) # rss) =
    Some ((p @ replicate (1400 - length p) 0, True) # map (\<lambda>_. (t @ [0], False)) rss)"
  using assms(2) by (simp add: web_server_def short_page_overshoots [OF assms(1-3)] serve_later [OF assms(4-7)])

theorem web_server_sends_pages_witness:
  "web_server (in_array (replicate 190 65) 1500) (in_array (replicate 2000 66) 3500) [[1400], [1400, 601], [1400, 600, 1]] =
    Some [(replicate 190 65 @ replicate 1210 0, True), (replicate 2000 66 @ [0], False), (replicate 2000 66 @ [0], False)]"
  using web_server_sends_pages [of "replicate 190 65" 1500 "replicate 2000 66" 3500 "[[1400, 601], [1400, 600, 1]]" "[]"]
  by simp

end
