(* ===== verification/Crc.thy ===== *)
theory Crc imports Prelude begin

section \<open>Two checksums: \<open>c-work/c-program/crc\<close>\<close>

text \<open>
  \<open>1st.c\<close> computes a CRC most significant bit first in an \<open>unsigned int\<close>, \<open>crc16\<close> of \<open>2nd.c\<close> one
  with the bits reversed in an \<open>unsigned short\<close>. Both are shift registers that divide the message by a
  polynomial over the field of two elements; the locale states what makes a shift register do so, and
  each program is an instance of it.
\<close>

subsection \<open>The programs\<close>

text \<open>The inner loop of \<open>1st.c\<close>: \<open>i\<close> runs from 0x80 down to 0.\<close>

definition crc_bit :: "u32 \<Rightarrow> bool \<Rightarrow> u32" where
  "crc_bit crc m = (let c = if crc AND 0x8000 \<noteq> 0 then push_bit 1 crc XOR 0x1021 else push_bit 1 crc
     in if m then c XOR 0x1021 else c)"

function bit_loop :: "u8 \<Rightarrow> u8 \<Rightarrow> u32 \<Rightarrow> u32" where
  "bit_loop i b crc = (if i = 0 then crc else bit_loop (drop_bit 1 i) b (crc_bit crc (b AND i \<noteq> 0)))"
  by pat_completeness auto
termination
proof (relation "measure (\<lambda>(i, b, crc). unat i)")
  fix i b :: u8 and crc :: u32
  assume "i \<noteq> 0"
  then have "0 < unat i" by (simp add: unat_gt_0)
  then show "((drop_bit 1 i, b, crc_bit crc (b AND i \<noteq> 0)), i, b, crc) \<in> measure (\<lambda>(i, b, crc). unat i)"
    by (simp add: unat_drop_bit)
qed simp

declare bit_loop.simps [simp del]

text \<open>The loop over \<open>len\<close> bytes of the array \<open>test\<close>.\<close>

definition crc_msb :: "bytes \<Rightarrow> u8 \<Rightarrow> u32 option" where
  "crc_msb test len = map_option (foldl (\<lambda>crc b. bit_loop 0x80 b crc) 0) (rdn test 0 (unat len))"

primrec bits_loop :: "nat \<Rightarrow> u16 \<Rightarrow> u16" where
  "bits_loop 0 reg_crc = reg_crc"
| "bits_loop (Suc n) reg_crc =
     bits_loop n (if reg_crc AND 1 \<noteq> 0 then drop_bit 1 reg_crc XOR 0xa001 else drop_bit 1 reg_crc)"

definition crc16 :: "bytes \<Rightarrow> nat \<Rightarrow> u16 option" where
  "crc16 data len = map_option (foldl (\<lambda>reg_crc b. bits_loop 8 (reg_crc XOR ucast b)) 0) (rdn data 0 len)"

subsection \<open>Division of bit strings\<close>

text \<open>
  A bit string is a function of the position, the highest coefficient first, with zeros at its end.
  One step of the division by a polynomial of degree 16, whose lower coefficients are \<open>p\<close>,
  takes the highest coefficient away; \<open>n\<close> steps leave the remainder of the string of length \<open>n + 16\<close>.
\<close>

definition divide :: "(nat \<Rightarrow> bool) \<Rightarrow> (nat \<Rightarrow> bool) \<Rightarrow> nat \<Rightarrow> bool" where
  "divide p f i \<longleftrightarrow> f (Suc i) \<noteq> (f 0 \<and> p i)"

definition message :: "bool list \<Rightarrow> nat \<Rightarrow> bool" where
  "message ms i \<longleftrightarrow> i < length ms \<and> ms ! i"

definition remainder :: "(nat \<Rightarrow> bool) \<Rightarrow> bool list \<Rightarrow> nat \<Rightarrow> bool" where
  "remainder p ms = (divide p ^^ length ms) (message ms)"

locale shift_register =
  fixes step :: "'r \<Rightarrow> bool \<Rightarrow> 'r" and bits :: "'r \<Rightarrow> nat \<Rightarrow> bool" and p :: "nat \<Rightarrow> bool" and zero :: 'r
  assumes step_bits: "bits (step r m) i \<longleftrightarrow> bits r (Suc i) \<noteq> ((bits r 0 \<noteq> m) \<and> p i)"
    and zero_bits: "\<not> bits zero i"
begin

lemma divide_register:
  "(divide p ^^ length ms) (\<lambda>i. bits r i \<noteq> message ms i) = bits (foldl step r ms)"
proof (induction ms arbitrary: r)
  case Nil
  then show ?case by (simp add: message_def)
next
  case (Cons m ms)
  have "divide p (\<lambda>i. bits r i \<noteq> message (m # ms) i) = (\<lambda>i. bits (step r m) i \<noteq> message ms i)"
    by (auto simp: divide_def message_def step_bits fun_eq_iff)
  then show ?case using Cons [of "step r m"] by (simp add: funpow_swap1)
qed

lemma register_is_remainder: "bits (foldl step zero ms) = remainder p ms"
  using divide_register [of ms zero] by (simp add: remainder_def zero_bits)

end

subsection \<open>The programs divide\<close>

definition msb_bits :: "u32 \<Rightarrow> nat \<Rightarrow> bool" where
  "msb_bits r i \<longleftrightarrow> i < 16 \<and> bit r (15 - i)"

definition poly_1021 :: "nat \<Rightarrow> bool" where
  "poly_1021 i \<longleftrightarrow> i < 16 \<and> bit (0x1021 :: u32) (15 - i)"

lemma crc_bit_bits:
  "i < 16 \<Longrightarrow> bit (crc_bit r m) i \<longleftrightarrow> (0 < i \<and> bit r (i - 1)) \<noteq> ((bit r 15 \<noteq> m) \<and> bit (0x1021 :: u32) i)"
proof -
  have "r AND 0x8000 \<noteq> 0 \<longleftrightarrow> bit r 15"
    by (simp add: and_exp_eq_0_iff_not_bit [of r 15, simplified])
  moreover have "i < 16 \<Longrightarrow> bit (push_bit 1 r) i \<longleftrightarrow> 0 < i \<and> bit r (i - 1)"
    by (auto simp: bit_push_bit_iff simp del: push_bit_Suc)
  moreover have "bit (crc_bit r m) i \<longleftrightarrow> bit (push_bit 1 r) i \<noteq> ((r AND 0x8000 \<noteq> 0) \<noteq> m \<and> bit (0x1021 :: u32) i)"
    unfolding crc_bit_def Let_def by (cases "r AND 0x8000 = 0"; cases m) (simp_all only: if_True if_False bit_xor_iff simp_thms, blast+)
  ultimately show "i < 16 \<Longrightarrow> ?thesis" by blast
qed

interpretation msb: shift_register crc_bit msb_bits poly_1021 0
proof unfold_locales
  fix r m i
  show "msb_bits (crc_bit r m) i \<longleftrightarrow> msb_bits r (Suc i) \<noteq> ((msb_bits r 0 \<noteq> m) \<and> poly_1021 i)"
    by (cases "i < 16") (auto simp: msb_bits_def poly_1021_def crc_bit_bits)
qed (simp add: msb_bits_def)

definition lsb_step :: "u16 \<Rightarrow> bool \<Rightarrow> u16" where
  "lsb_step r m = (if bit r 0 \<noteq> m then drop_bit 1 r XOR 0xa001 else drop_bit 1 r)"

interpretation lsb: shift_register lsb_step bit "bit (0xa001 :: u16)" 0
  by unfold_locales (auto simp: lsb_step_def bit_simps)

lemma bit_loop_bits:
  "bit_loop 0x80 b crc = foldl crc_bit crc (map (\<lambda>i. bit b (7 - i)) [0..<8])"
proof -
  have m: "b AND 0x80 \<noteq> 0 \<longleftrightarrow> bit b 7" "b AND 0x40 \<noteq> 0 \<longleftrightarrow> bit b 6" "b AND 0x20 \<noteq> 0 \<longleftrightarrow> bit b 5"
    "b AND 0x10 \<noteq> 0 \<longleftrightarrow> bit b 4" "b AND 8 \<noteq> 0 \<longleftrightarrow> bit b 3" "b AND 4 \<noteq> 0 \<longleftrightarrow> bit b 2"
    "b AND 2 \<noteq> 0 \<longleftrightarrow> bit b 1" "b AND 1 \<noteq> 0 \<longleftrightarrow> bit b 0"
    using and_exp_eq_0_iff_not_bit [of b 7] and_exp_eq_0_iff_not_bit [of b 6] and_exp_eq_0_iff_not_bit [of b 5]
      and_exp_eq_0_iff_not_bit [of b 4] and_exp_eq_0_iff_not_bit [of b 3] and_exp_eq_0_iff_not_bit [of b 2]
      and_exp_eq_0_iff_not_bit [of b 1] and_exp_eq_0_iff_not_bit [of b 0] by simp_all
  have s: "bit_loop i b crc = bit_loop (drop_bit 1 i) b (crc_bit crc (b AND i \<noteq> 0))" if "i \<noteq> 0" for i crc
    using that by (subst bit_loop.simps) simp
  have "bit_loop 0x80 b crc = crc_bit (crc_bit (crc_bit (crc_bit (crc_bit (crc_bit (crc_bit (crc_bit crc
      (b AND 0x80 \<noteq> 0)) (b AND 0x40 \<noteq> 0)) (b AND 0x20 \<noteq> 0)) (b AND 0x10 \<noteq> 0)) (b AND 8 \<noteq> 0)) (b AND 4 \<noteq> 0)) (b AND 2 \<noteq> 0)) (b AND 1 \<noteq> 0)"
    by (simp add: s) (subst bit_loop.simps, simp)
  then show ?thesis unfolding m by (simp add: upt_rec)
qed

lemma bits_loop_bits: "bits_loop n (r XOR x) = foldl lsb_step r (map (bit x) [0..<n]) XOR drop_bit n x"
proof (induction n arbitrary: r x)
  case (Suc n)
  have "r AND 1 \<noteq> 0 \<longleftrightarrow> bit r 0" for r :: u16 using and_exp_eq_0_iff_not_bit [of r 0] by simp
  then have "(if (r XOR x) AND 1 \<noteq> 0 then drop_bit 1 (r XOR x) XOR 0xa001 else drop_bit 1 (r XOR x)) =
      lsb_step r (bit x 0) XOR drop_bit 1 x"
    by (intro bit_word_eqI) (auto simp: lsb_step_def bit_simps)
  moreover have "[0..<Suc n] = 0 # map Suc [0..<n]" by (simp add: map_Suc_upt upt_conv_Cons)
  moreover have "bit x \<circ> Suc = bit (drop_bit 1 x)" by (auto simp: bit_simps)
  ultimately show ?case using Suc [of "lsb_step r (bit x 0)" "drop_bit 1 x"] by simp
qed simp

lemma foldl_concat_map: "foldl f r (concat (map g xs)) = foldl (\<lambda>r x. foldl f r (g x)) r xs"
  by (induction xs arbitrary: r) simp_all


text \<open>The message as the two programs read it: bytes with the highest, or with the lowest bit first.\<close>

definition bits_msb :: "bytes \<Rightarrow> bool list" where
  "bits_msb ds = concat (map (\<lambda>b. map (\<lambda>i. bit b (7 - i)) [0..<8]) ds)"

definition bits_lsb :: "bytes \<Rightarrow> bool list" where
  "bits_lsb ds = concat (map (\<lambda>b. map (bit b) [0..<8]) ds)"

lemma crc_msb_fold: "foldl (\<lambda>crc b. bit_loop 0x80 b crc) r ds = foldl crc_bit r (bits_msb ds)"
  by (simp add: bits_msb_def foldl_concat_map bit_loop_bits)

lemma crc16_fold: "foldl (\<lambda>reg_crc b. bits_loop 8 (reg_crc XOR ucast b)) r ds = foldl lsb_step r (bits_lsb ds)"
proof -
  have "bits_loop 8 (r XOR ucast b) = foldl lsb_step r (map (bit b) [0..<8])" for r and b :: u8
  proof -
    have z: "drop_bit 8 (ucast b :: u16) = 0" by (intro bit_word_eqI) (auto simp: bit_simps dest: bit_imp_le_length)
    have m: "map (bit (ucast b :: u16)) [0..<8] = map (bit b) [0..<8]"
      by (auto simp: bit_simps)
    show ?thesis unfolding bits_loop_bits m z by simp
  qed
  then show ?thesis by (simp add: bits_lsb_def foldl_concat_map)
qed

text \<open>
  C28: for every message both programs compute the remainder that long division leaves of the message
  followed by sixteen zero bits: \<open>1st.c\<close> by x^16 + x^12 + x^5 + 1, with the highest bit of each byte
  first, in the lower half of its result; \<open>crc16\<close> of \<open>2nd.c\<close> by x^16 + x^15 + x^2 + 1, with the
  lowest bit of each byte first and the remainder reversed.
\<close>

theorem crcs_are_remainders:
  assumes "length data < 256"
  shows "(\<exists>crc. crc_msb data (word_of_nat (length data)) = Some crc \<and>
      (\<forall>i<16. bit crc (15 - i) \<longleftrightarrow> remainder (\<lambda>i. i \<in> {3, 10, 15}) (bits_msb data) i)) \<and>
    (\<exists>reg. crc16 data (length data) = Some reg \<and>
      (\<forall>i<16. bit reg i \<longleftrightarrow> remainder (\<lambda>i. i \<in> {0, 13, 15}) (bits_lsb data) i))"
proof -
  have p: "poly_1021 = (\<lambda>i. i \<in> {3, 10, 15})" "bit (0xa001 :: u16) = (\<lambda>i. i \<in> {0, 13, 15})"
  proof -
    have "\<forall>i\<in>set [0..<16]. bit (0x1021 :: u32) (15 - i) \<longleftrightarrow> i \<in> {3, 10, 15}" by (simp add: upt_rec)
    then show "poly_1021 = (\<lambda>i. i \<in> {3, 10, 15})" by (auto simp: poly_1021_def fun_eq_iff)
    have "\<forall>i\<in>set [0..<16]. bit (0xa001 :: u16) i \<longleftrightarrow> i \<in> {0, 13, 15}" by (simp add: upt_rec)
    then show "bit (0xa001 :: u16) = (\<lambda>i. i \<in> {0, 13, 15})"
      by (auto simp: fun_eq_iff dest: bit_imp_le_length)
  qed
  have "unat (word_of_nat (length data) :: u8) = length data"
    using assms by (simp add: unsigned_of_nat take_bit_nat_eq_self)
  then have "crc_msb data (word_of_nat (length data)) = Some (foldl crc_bit 0 (bits_msb data))"
      "crc16 data (length data) = Some (foldl lsb_step 0 (bits_lsb data))"
    by (simp_all add: crc_msb_def crc16_def rdn_def crc_msb_fold crc16_fold)
  moreover have "bit (foldl crc_bit 0 (bits_msb data)) (15 - i) \<longleftrightarrow> remainder poly_1021 (bits_msb data) i" if "i < 16" for i
    using msb.register_is_remainder [of "bits_msb data"] that by (metis msb_bits_def)
  ultimately show ?thesis using lsb.register_is_remainder [of "bits_lsb data"] unfolding p by simp
qed

theorem crcs_are_remainders_witness:
  "(\<exists>reg. crc16 [97] 1 = Some reg \<and> (\<forall>i<16. bit reg i \<longleftrightarrow> remainder (\<lambda>i. i \<in> {0, 13, 15}) (bits_lsb [97]) i)) \<and>
   crc16 [97] 1 = Some 59585"
proof -
  have "crc16 [97] 1 = Some 59585"
    by code_simp
  then show ?thesis using crcs_are_remainders [of "[97]"] by simp
qed


text \<open>The result of \<open>1st.c\<close> is not cut to 16 bits: what was shifted out of them stays in it.\<close>

lemma crc_msb_not_reduced: "\<exists>c. crc_msb [1, 0] 2 = Some c \<and> 65536 \<le> c"
  by (simp add: crc_msb_def rdn_def crc_msb_fold bits_msb_def upt_rec crc_bit_def)

end
