(* ===== verification/Deadline_Queue.thy ===== *)
theory Deadline_Queue imports Prelude begin

section \<open>The contract of a queue of deadlines\<close>

text \<open>
  The interface between a list of timeouts and its users: an entry is due at a fixed moment, entries
  leave in the order of these moments, equal ones in the order in which they were set. The reference
  \<open>spec_run\<close> keeps the moments themselves and a clock; \<open>timer_run\<close> runs an implementation that only
  knows how much time has passed. The lemmas on runs rest on the laws of the locale.
\<close>

datatype 'x timer_op =
    Set u32 'x       \<comment> \<open>due after so many milliseconds\<close>
  | Cancel 'x
  | Expire           \<comment> \<open>the time to the first moment has passed\<close>
  | Credit u32       \<comment> \<open>so much time has passed, but no more than to the first moment\<close>

text \<open>The reference: entries with the moments at which they are due.\<close>

definition due_insert :: "nat \<Rightarrow> 'x \<Rightarrow> (nat \<times> 'x) list \<Rightarrow> (nat \<times> 'x) list" where
  "due_insert d x ds = takeWhile (\<lambda>e. fst e \<le> d) ds @ (d, x) # dropWhile (\<lambda>e. fst e \<le> d) ds"

fun due_remove :: "'x \<Rightarrow> (nat \<times> 'x) list \<Rightarrow> (nat \<times> 'x) list" where
  "due_remove x [] = []"
| "due_remove x (e # ds) = (if snd e = x then ds else e # due_remove x ds)"

text \<open>Accounted time never runs past the first moment.\<close>

definition clock_after :: "nat \<Rightarrow> nat \<Rightarrow> (nat \<times> 'x) list \<Rightarrow> nat" where
  "clock_after now t ds = (case ds of [] \<Rightarrow> now | (d, _) # _ \<Rightarrow> min (now + t) d)"

text \<open>The entries fired with their moments, the clock and the entries left.\<close>

fun spec_run :: "'x timer_op list \<Rightarrow> nat \<Rightarrow> (nat \<times> 'x) list
    \<Rightarrow> (nat \<times> 'x) list \<times> nat \<times> (nat \<times> 'x) list" where
  "spec_run [] now ds = ([], now, ds)"
| "spec_run (Set m x # ops) now ds = spec_run ops now (due_insert (now + unat m) x ds)"
| "spec_run (Cancel x # ops) now ds = spec_run ops now (due_remove x ds)"
| "spec_run (Credit t # ops) now ds = spec_run ops (clock_after now (unat t) ds) ds"
| "spec_run (Expire # ops) now [] = spec_run ops now []"
| "spec_run (Expire # ops) now (e # ds) =
     (let (fired, r) = spec_run ops (fst e) ds in (e # fired, r))"

text \<open>A run of an implementation; the clock is kept for the statements only.\<close>

fun timer_run :: "(u32 \<Rightarrow> 'x \<Rightarrow> 'q \<Rightarrow> 'q) \<Rightarrow> ('x \<Rightarrow> 'q \<Rightarrow> 'q) \<Rightarrow> ('q \<Rightarrow> (u32 \<times> 'x \<times> 'q) option)
    \<Rightarrow> (u32 \<Rightarrow> 'q \<Rightarrow> u32 \<times> 'q) \<Rightarrow> 'x timer_op list \<Rightarrow> nat \<Rightarrow> 'q \<Rightarrow> (nat \<times> 'x) list \<times> nat \<times> 'q" where
  "timer_run st cn ex cr [] now q = ([], now, q)"
| "timer_run st cn ex cr (Set m x # ops) now q = timer_run st cn ex cr ops now (st m x q)"
| "timer_run st cn ex cr (Cancel x # ops) now q = timer_run st cn ex cr ops now (cn x q)"
| "timer_run st cn ex cr (Credit t # ops) now q =
     (let (t, q) = cr t q in timer_run st cn ex cr ops (now + unat t) q)"
| "timer_run st cn ex cr (Expire # ops) now q = (case ex q of
       None \<Rightarrow> timer_run st cn ex cr ops now q
     | Some (t, x, q) \<Rightarrow>
         (let (fired, r) = timer_run st cn ex cr ops (now + unat t) q in ((now + unat t, x) # fired, r)))"

text \<open>\<open>due now q\<close> are the entries of \<open>q\<close> with their moments when the clock shows \<open>now\<close>.\<close>

locale deadline_queue =
  fixes invar :: "'q \<Rightarrow> bool"
    and due :: "nat \<Rightarrow> 'q \<Rightarrow> (nat \<times> 'x) list"
    and set_timer :: "u32 \<Rightarrow> 'x \<Rightarrow> 'q \<Rightarrow> 'q"
    and cancel :: "'x \<Rightarrow> 'q \<Rightarrow> 'q"
    and expire :: "'q \<Rightarrow> (u32 \<times> 'x \<times> 'q) option"
    and credit :: "u32 \<Rightarrow> 'q \<Rightarrow> u32 \<times> 'q"
  assumes due_sorted: "invar q \<Longrightarrow> sorted (map fst (due now q))"
    and set_law: "invar q \<Longrightarrow>
      invar (set_timer m x q) \<and> due now (set_timer m x q) = due_insert (now + unat m) x (due now q)"
    and cancel_law: "invar q \<Longrightarrow> invar (cancel x q) \<and> due now (cancel x q) = due_remove x (due now q)"
    and expire_none: "expire q = None \<Longrightarrow> due now q = []"
    and expire_some: "invar q \<Longrightarrow> expire q = Some (t, x, q') \<Longrightarrow>
      invar q' \<and> due now q = (now + unat t, x) # due (now + unat t) q'"
    and credit_law: "invar q \<Longrightarrow> credit t q = (t', q') \<Longrightarrow>
      invar q' \<and> now + unat t' = clock_after now (unat t) (due now q) \<and> due (now + unat t') q' = due now q"

context deadline_queue begin

lemma run_refines:
  "invar q \<Longrightarrow> timer_run set_timer cancel expire credit ops now q = (fired, now', q') \<Longrightarrow>
    spec_run ops now (due now q) = (fired, now', due now' q') \<and> invar q'"
proof (induction ops arbitrary: now q fired)
  case (Cons op ops)
  show ?case
  proof (cases op)
    case (Set m x)
    then show ?thesis using Cons.IH [of "set_timer m x q" now fired] Cons.prems set_law [of q m x now] by simp
  next
    case (Cancel x)
    then show ?thesis using Cons.IH [of "cancel x q" now fired] Cons.prems cancel_law [of q x now] by simp
  next
    case (Credit t)
    obtain t' q1 where c: "credit t q = (t', q1)" by fastforce
    then show ?thesis
      using Cons.IH [of q1 "now + unat t'" fired] Cons.prems credit_law [OF Cons.prems(1) c, of now]
      by (simp add: Credit c) metis
  next
    case Expire
    show ?thesis
    proof (cases "expire q")
      case None
      then have "due now q = []" by (rule expire_none)
      then show ?thesis using Cons.IH [of q now fired] Cons.prems by (simp add: Expire None)
    next
      case (Some p)
      obtain t x q1 where p: "p = (t, x, q1)" by (cases p)
      obtain f1 r1 where r: "timer_run set_timer cancel expire credit ops (now + unat t) q1 = (f1, r1)"
        using prod.exhaust by blast
      have e: "invar q1" "due now q = (now + unat t, x) # due (now + unat t) q1"
        using expire_some [OF Cons.prems(1), of t x q1 now] Some p by auto
      have "fired = (now + unat t, x) # f1" "r1 = (now', q')"
        using Cons.prems(2) by (simp_all add: Expire Some p r)
      then show ?thesis using Cons.IH [OF e(1), of "now + unat t" f1] r by (simp add: Expire e(2))
    qed
  qed
qed simp

end

text \<open>Facts on the reference.\<close>

lemma due_insert_Cons:
  "due_insert d x (e # ds) = (if fst e \<le> d then e # due_insert d x ds else (d, x) # e # ds)"
  by (simp add: due_insert_def)

lemma due_insert_Nil [simp]: "due_insert d x [] = [(d, x)]"
  by (simp add: due_insert_def)

lemma set_due_insert: "set (due_insert d x ds) = insert (d, x) (set ds)"
  by (induction ds) (auto simp: due_insert_Cons)

lemma filter_due_insert: "\<not> P (d, x) \<Longrightarrow> filter P (due_insert d x ds) = filter P ds"
  by (induction ds) (auto simp: due_insert_Cons)

lemma filter_due_insert_new: "filter P ds = [] \<Longrightarrow> P (d, x) \<Longrightarrow> filter P (due_insert d x ds) = [(d, x)]"
  by (induction ds) (auto simp: due_insert_Cons split: if_splits)

text \<open>The moments at which a run fires are those that the settings have asked for.\<close>

fun asked :: "'x timer_op list \<Rightarrow> nat \<Rightarrow> (nat \<times> 'x) list \<Rightarrow> (nat \<times> 'x) set" where
  "asked [] now ds = {}"
| "asked (Set m x # ops) now ds =
     insert (now + unat m, x) (asked ops now (due_insert (now + unat m) x ds))"
| "asked (Cancel x # ops) now ds = asked ops now (due_remove x ds)"
| "asked (Credit t # ops) now ds = asked ops (clock_after now (unat t) ds) ds"
| "asked (Expire # ops) now [] = asked ops now []"
| "asked (Expire # ops) now (e # ds) = asked ops (fst e) ds"

lemma set_due_remove: "set (due_remove x ds) \<subseteq> set ds"
  by (induction ds) auto

lemma spec_fires_asked:
  "spec_run ops now ds = (fired, r) \<Longrightarrow> set fired \<subseteq> set ds \<union> asked ops now ds"
proof (induction ops now ds arbitrary: fired rule: spec_run.induct)
  case (3 x ops now ds)
  then show ?case using set_due_remove [of x ds] by fastforce
qed (fastforce simp: set_due_insert split: prod.splits)+

lemma sorted_due_insert: "sorted (map fst ds) \<Longrightarrow> sorted (map fst (due_insert d x ds))"
  by (induction ds) (auto simp: due_insert_Cons set_due_insert)

lemma sorted_due_remove: "sorted (map fst ds) \<Longrightarrow> sorted (map fst (due_remove x ds))"
proof (induction ds)
  case (Cons e ds)
  then show ?case using set_due_remove [of x ds] by fastforce
qed simp

lemma clock_after_le:
  "\<forall>e \<in> set ds. now \<le> fst e \<Longrightarrow> sorted (map fst ds) \<Longrightarrow>
    now \<le> clock_after now t ds \<and> (\<forall>e \<in> set ds. clock_after now t ds \<le> fst e)"
  by (cases ds) (auto simp: clock_after_def)

lemma spec_fires_in_order:
  "sorted (map fst ds) \<Longrightarrow> \<forall>e \<in> set ds. now \<le> fst e \<Longrightarrow> spec_run ops now ds = (fired, now', ds') \<Longrightarrow>
    sorted (map fst fired) \<and> (\<forall>e \<in> set fired. now \<le> fst e \<and> fst e \<le> now') \<and> now \<le> now'"
proof (induction ops now ds arbitrary: fired rule: spec_run.induct)
  case (2 m x ops now ds)
  then show ?case by (simp add: sorted_due_insert set_due_insert)
next
  case (3 x ops now ds)
  then show ?case using set_due_remove [of x ds] by (fastforce simp: sorted_due_remove)
next
  case (4 t ops now ds)
  then show ?case using clock_after_le [of ds now "unat t"] by fastforce
next
  case (6 ops now e ds)
  obtain f1 r1 where r: "spec_run ops (fst e) ds = (f1, r1)" by (cases "spec_run ops (fst e) ds")
  have f: "fired = e # f1" "r1 = (now', ds')" using 6(4) r by auto
  have "sorted (map fst f1) \<and> (\<forall>e' \<in> set f1. fst e \<le> fst e' \<and> fst e' \<le> now') \<and> fst e \<le> now'"
    using 6(1-3) r f(2) by auto
  then show ?case using 6(3) f(1) by force
qed auto

end
