(* ===== verification/Lwip_Timers.thy ===== *)
theory Lwip_Timers imports Sys_Mbox Deadline_Queue begin

section \<open>Timeouts of lwIP (\<open>lib/lwip/lib/contrib/src/core/timers.c\<close>)\<close>

text \<open>
  The stack's thread keeps its timeouts in one linked list in which an entry's \<open>time\<close> counts from
  the entry before it; while the thread waits for a message it calls the handlers of the entries
  that become due. The list is a list of records (\<open>next\<close> is the order). \<open>memp_malloc\<close>, the timer
  routines of the protocols and functions of other files that are used as handlers are parameters
  on a state \<open>'w\<close>; a failed assertion ends the client (\<open>None\<close>).
\<close>

subsection \<open>The list\<close>

text \<open>The handlers of this file, and those of others by a number.\<close>

datatype sys_timeout_handler = Tcpip_tcp_timer | Ip_reass_timer | Arp_timer | Dhcp_timer_coarse
  | Dhcp_timer_fine | Igmp_timer | Dns_timer | Callback nat

record sys_timeo =
  time :: u32
  h :: "sys_timeout_handler option"   \<comment> \<open>\<open>None\<close> is the null pointer\<close>
  arg :: u32

text \<open>The loop that looks for the place of a new entry, from the entry \<open>t\<close> on.\<close>

fun insert_after :: "sys_timeo \<Rightarrow> sys_timeo list \<Rightarrow> sys_timeo list" where
  "insert_after timeout [] = []"
| "insert_after timeout (t # ts) =
     (let timeout = timeout\<lparr>time := time timeout - time t\<rparr>
      in (case ts of
            [] \<Rightarrow> [t, timeout]
          | n # r \<Rightarrow> if time n > time timeout
                     then t # timeout # n\<lparr>time := time n - time timeout\<rparr> # r
                     else t # insert_after timeout ts))"

definition timeout_insert :: "sys_timeo \<Rightarrow> sys_timeo list \<Rightarrow> sys_timeo list" where
  "timeout_insert timeout ts = (case ts of
       [] \<Rightarrow> [timeout]
     | n # r \<Rightarrow> if time n > time timeout then timeout # n\<lparr>time := time n - time timeout\<rparr> # r
                else insert_after timeout ts)"

text \<open>\<open>sys_untimeout\<close>.\<close>

fun timeout_remove :: "sys_timeout_handler option \<Rightarrow> u32 \<Rightarrow> sys_timeo list \<Rightarrow> sys_timeo list" where
  "timeout_remove hdl a [] = []"
| "timeout_remove hdl a (t # ts) =
     (if h t = hdl \<and> arg t = a
      then (case ts of [] \<Rightarrow> [] | n # r \<Rightarrow> n\<lparr>time := time n + time t\<rparr> # r)
      else t # timeout_remove hdl a ts)"

text \<open>What a wait of \<open>time_needed\<close> milliseconds takes off the first entry.\<close>

definition timeout_credit :: "u32 \<Rightarrow> sys_timeo list \<Rightarrow> sys_timeo list" where
  "timeout_credit time_needed ts = (case ts of
       [] \<Rightarrow> []
     | n # r \<Rightarrow> n\<lparr>time := (if time_needed < time n then time n - time_needed else 0)\<rparr> # r)"

subsection \<open>The list as deadlines\<close>

text \<open>The moments at which the entries are due when the clock shows \<open>now\<close>.\<close>

fun due :: "nat \<Rightarrow> sys_timeo list \<Rightarrow> (nat \<times> sys_timeout_handler option \<times> u32) list" where
  "due now [] = []"
| "due now (t # ts) = (let d = now + unat (time t) in (d, h t, arg t) # due d ts)"

text \<open>No moment is further away than a 32-bit number can say.\<close>

definition timers_ok :: "sys_timeo list \<Rightarrow> bool" where
  "timers_ok ts \<longleftrightarrow> (\<Sum>t\<leftarrow>ts. unat (time t)) < 2 ^ 32"

lemma due_ge: "e \<in> set (due now ts) \<Longrightarrow> now \<le> fst e"
  by (induction ts arbitrary: now) (auto simp: Let_def, fastforce)

lemma due_is_sorted: "sorted (map fst (due now ts))"
  by (induction ts arbitrary: now) (auto simp: Let_def dest: due_ge)

lemma due_takeWhile_late: "now > d \<Longrightarrow> due_insert d x (due now ts) = (d, x) # due now ts"
  by (cases ts) (auto simp: due_insert_Cons Let_def)

text \<open>One entry moved behind its predecessor.\<close>

lemma due_shift:
  "unat m < unat (time n) \<Longrightarrow> due (now + unat m) (n\<lparr>time := time n - m\<rparr> # r) = due now (n # r)"
  by (simp add: unat_sub word_le_nat_alt)

lemma insert_after_due:
  "ts \<noteq> [] \<Longrightarrow> unat (time (hd ts)) \<le> unat (time x) \<Longrightarrow>
    due now (insert_after x ts) = due_insert (now + unat (time x)) (h x, arg x) (due now ts)"
proof (induction ts arbitrary: x now)
  case (Cons t ts)
  define y where "y = x\<lparr>time := time x - time t\<rparr>"
  have y: "unat (time y) = unat (time x) - unat (time t)" "h y = h x" "arg y = arg x"
    using Cons.prems by (simp_all add: y_def unat_sub word_le_nat_alt)
  have now: "now + unat (time t) + unat (time y) = now + unat (time x)" using Cons.prems y by simp
  show ?case
  proof (cases ts)
    case Nil
    then show ?thesis using Cons.prems now y
      by (simp add: y_def [symmetric] due_insert_Cons Let_def)
  next
    case (Cons n r)
    show ?thesis
    proof (cases "time n > time y")
      case True
      then have "unat (time y) < unat (time n)" by (simp add: word_less_nat_alt)
      from due_shift [OF this] have n:
        "due (now + unat (time t) + unat (time y)) (n\<lparr>time := time n - time y\<rparr> # r)
         = due (now + unat (time t)) (n # r)" .
      have "insert_after x (t # n # r) = t # y # n\<lparr>time := time n - time y\<rparr> # r"
        using True by (simp add: y_def [symmetric])
      then have "due now (insert_after x (t # ts)) = (now + unat (time t), h t, arg t)
          # (now + unat (time x), h x, arg x) # due (now + unat (time t)) (n # r)"
        using y(2,3) now n Cons by (metis (no_types, lifting) due.simps(2))
      moreover have "now + unat (time x) < now + unat (time t) + unat (time n)"
        using \<open>unat (time y) < unat (time n)\<close> now by simp
      ultimately show ?thesis using Cons.prems Cons by (simp add: due_insert_Cons Let_def)
    next
      case False
      then show ?thesis using Cons.IH [of y "now + unat (time t)"] Cons now y Cons.prems
        by (simp add: y_def [symmetric] due_insert_Cons Let_def word_less_nat_alt)
    qed
  qed
qed simp

lemma timeout_insert_due:
  "due now (timeout_insert x ts) = due_insert (now + unat (time x)) (h x, arg x) (due now ts)"
proof (cases ts)
  case (Cons n r)
  show ?thesis
  proof (cases "time n > time x")
    case True
    then have "unat (time x) < unat (time n)" by (simp add: word_less_nat_alt)
    from due_shift [OF this, of now r] this True Cons show ?thesis
      by (simp add: timeout_insert_def due_insert_Cons Let_def)
  next
    case False
    then show ?thesis using insert_after_due [of ts x now] Cons
      by (simp add: timeout_insert_def word_less_nat_alt)
  qed
qed (simp add: timeout_insert_def)

text \<open>The times of a list add up to its last moment.\<close>

lemma due_last: "ts \<noteq> [] \<Longrightarrow> fst (List.last (due now ts)) = now + (\<Sum>t\<leftarrow>ts. unat (time t))"
proof (induction ts arbitrary: now)
  case (Cons t ts)
  then show ?case by (cases ts) (simp_all add: Let_def)
qed simp

lemma due_eq_Nil [simp]: "due now ts = [] \<longleftrightarrow> ts = []"
  by (cases ts) (simp_all add: Let_def)

lemma timers_ok_due: "timers_ok ts \<longleftrightarrow> (\<forall>e \<in> set (due now ts). fst e < now + 2 ^ 32)"
proof (cases "ts = []")
  case False
  have "List.last (due now ts) \<in> set (due now ts)" using False by simp
  moreover have "fst e \<le> fst (List.last (due now ts))" if "e \<in> set (due now ts)" for e
  proof -
    obtain i where "i < length (due now ts)" "e = due now ts ! i" using \<open>e \<in> _\<close> by (metis in_set_conv_nth)
    then show ?thesis using sorted_nth_mono [OF due_is_sorted, of i "length (due now ts) - 1" now ts] False
      by (simp add: last_conv_nth)
  qed
  ultimately show ?thesis using due_last [OF False, of now] by (fastforce simp: timers_ok_def)
qed (simp add: timers_ok_def)

lemma due_set_time_add:
  "unat (time n) + unat m < 2 ^ 32 \<Longrightarrow> due now (n\<lparr>time := time n + m\<rparr> # r) = due (now + unat m) (n # r)"
  by (simp add: Let_def unat_word_ariths add.assoc add.commute [of "unat m"])

lemma timers_ok_Cons: "timers_ok (t # ts) \<longleftrightarrow> unat (time t) + (\<Sum>t\<leftarrow>ts. unat (time t)) < 2 ^ 32"
  by (simp add: timers_ok_def)

lemma timeout_remove_due:
  "timers_ok ts \<Longrightarrow> due now (timeout_remove hdl a ts) = due_remove (hdl, a) (due now ts)"
proof (induction ts arbitrary: now)
  case (Cons t ts)
  have ok: "timers_ok ts" using Cons.prems by (simp add: timers_ok_def)
  show ?case
  proof (cases "h t = hdl \<and> arg t = a")
    case True
    then show ?thesis
    proof (cases ts)
      case (Cons n r)
      have "unat (time n) + unat (time t) < 2 ^ 32" using Cons.prems Cons by (simp add: timers_ok_def)
      from due_set_time_add [OF this, of now r] have
        "due now (n\<lparr>time := time n + time t\<rparr> # r) = due (now + unat (time t)) (n # r)" .
      with True Cons show ?thesis by (simp add: Let_def del: due.simps(2) add: due.simps(2) [of _ t])
    qed (simp add: Let_def)
  next
    case False
    then show ?thesis using Cons.IH [OF ok] by (auto simp: Let_def)
  qed
qed simp

lemma timeout_credit_due:
  assumes "ts \<noteq> []"
  shows "due (now + min (unat t) (unat (time (hd ts)))) (timeout_credit t ts) = due now ts"
proof -
  obtain n r where ts: "ts = n # r" using assms by (cases ts) auto
  show ?thesis
  proof (cases "t < time n")
    case True
    then have "unat t < unat (time n)" by (simp add: word_less_nat_alt)
    with due_shift [OF this, of now r] True show ?thesis
      by (simp add: ts timeout_credit_def del: due.simps)
  next
    case False
    then show ?thesis by (simp add: ts timeout_credit_def word_less_nat_alt Let_def)
  qed
qed

lemma due_remove_subset: "timers_ok ts \<Longrightarrow> timers_ok (timeout_remove hdl a ts)"
  using set_due_remove [of "(hdl, a)" "due 0 ts"]
  by (auto simp: timers_ok_due [of _ 0] timeout_remove_due)

lemma timers_ok_insert: "timers_ok ts \<Longrightarrow> timers_ok (timeout_insert x ts)"
  using unsigned_less [of "time x", where 'a = nat]
  by (auto simp: timers_ok_due [of _ 0] timeout_insert_due set_due_insert)

lemma timers_ok_credit: "timers_ok ts \<Longrightarrow> timers_ok (timeout_credit t ts)"
  by (cases ts) (auto simp: timers_ok_Cons timeout_credit_def word_less_nat_alt unat_sub word_le_nat_alt)

lemma timers_ok_tl: "timers_ok (t # ts) \<Longrightarrow> timers_ok ts"
  by (simp add: timers_ok_def)

text \<open>The list is an instance of the contract; the second component of \<open>credit\<close> is the code's.\<close>

definition timer_set :: "u32 \<Rightarrow> sys_timeout_handler option \<times> u32 \<Rightarrow> sys_timeo list \<Rightarrow> sys_timeo list" where
  "timer_set msecs x ts = timeout_insert \<lparr>time = msecs, h = fst x, arg = snd x\<rparr> ts"

definition timer_cancel :: "sys_timeout_handler option \<times> u32 \<Rightarrow> sys_timeo list \<Rightarrow> sys_timeo list" where
  "timer_cancel x ts = timeout_remove (fst x) (snd x) ts"

definition timer_expire :: "sys_timeo list \<Rightarrow> (u32 \<times> (sys_timeout_handler option \<times> u32) \<times> sys_timeo list) option" where
  "timer_expire ts = (case ts of [] \<Rightarrow> None | t # r \<Rightarrow> Some (time t, (h t, arg t), r))"

definition timer_credit :: "u32 \<Rightarrow> sys_timeo list \<Rightarrow> u32 \<times> sys_timeo list" where
  "timer_credit t ts = ((case ts of [] \<Rightarrow> 0 | n # _ \<Rightarrow> min t (time n)), timeout_credit t ts)"

lemma unat_min: "unat (min a b) = min (unat a) (unat b)"
  by (simp add: min_def word_le_nat_alt)

interpretation timer_list: deadline_queue timers_ok due timer_set timer_cancel timer_expire timer_credit
proof unfold_locales
  fix q t t' q' now assume ok: "timers_ok q" and c: "timer_credit t q = (t', q')"
  show "timers_ok q' \<and> now + unat t' = clock_after now (unat t) (due now q) \<and> due (now + unat t') q' = due now q"
  proof (cases q)
    case Nil
    then show ?thesis using c by (auto simp: timer_credit_def timeout_credit_def clock_after_def timers_ok_def)
  next
    case (Cons n r)
    have "q' = timeout_credit t q" "unat t' = min (unat t) (unat (time n))"
      using c by (auto simp: timer_credit_def Cons unat_min)
    then show ?thesis using ok timers_ok_credit timeout_credit_due [of q now t]
      by (simp add: Cons clock_after_def Let_def)
  qed
qed (auto simp: due_is_sorted timer_set_def timers_ok_insert timeout_insert_due timer_cancel_def
    due_remove_subset timeout_remove_due timer_expire_def Let_def dest: timers_ok_tl split: list.splits)

subsection \<open>The operations\<close>

record 'w timers =
  next_timeout :: "sys_timeo list"
  tcpip_tcp_timer_active :: bool
  world :: 'w

text \<open>The rest of the stack: \<open>memp_malloc\<close>, whether there are active or time-wait TCP connections, the
  timer routines, and handlers of other files, which may set timeouts themselves.\<close>

record 'w stack =
  memp_malloc :: "'w \<Rightarrow> bool \<times> 'w"
  tcp_pcbs :: "'w \<Rightarrow> bool"
  tcp_tmr :: "'w \<Rightarrow> 'w"
  ip_reass_tmr :: "'w \<Rightarrow> 'w"
  etharp_tmr_fn :: "'w \<Rightarrow> 'w"
  dhcp_coarse_tmr :: "'w \<Rightarrow> 'w"
  dhcp_fine_tmr :: "'w \<Rightarrow> 'w"
  igmp_tmr :: "'w \<Rightarrow> 'w"
  dns_tmr :: "'w \<Rightarrow> 'w"
  callback :: "nat \<Rightarrow> u32 \<Rightarrow> 'w timers \<Rightarrow> 'w timers option"

definition sys_timeout :: "'w stack \<Rightarrow> u32 \<Rightarrow> sys_timeout_handler option \<Rightarrow> u32 \<Rightarrow> 'w timers \<Rightarrow> 'w timers option" where
  "sys_timeout E msecs hdl a s =
     (let (ok, w) = memp_malloc E (world s)
      in if \<not> ok then None
         else Some (s\<lparr>next_timeout := timeout_insert \<lparr>time = msecs, h = hdl, arg = a\<rparr> (next_timeout s),
                      world := w\<rparr>))"

definition sys_untimeout :: "sys_timeout_handler option \<Rightarrow> u32 \<Rightarrow> 'w timers \<Rightarrow> 'w timers" where
  "sys_untimeout hdl a s = s\<lparr>next_timeout := timeout_remove hdl a (next_timeout s)\<rparr>"

subsection \<open>The handlers\<close>

definition TCP_TMR_INTERVAL :: u32 where "TCP_TMR_INTERVAL = 250"
definition IP_TMR_INTERVAL :: u32 where "IP_TMR_INTERVAL = 1000"
definition ARP_TMR_INTERVAL :: u32 where "ARP_TMR_INTERVAL = 5000"
definition DHCP_COARSE_TIMER_MSECS :: u32 where "DHCP_COARSE_TIMER_MSECS = 60 * 1000"
definition DHCP_FINE_TIMER_MSECS :: u32 where "DHCP_FINE_TIMER_MSECS = 500"
definition IGMP_TMR_INTERVAL :: u32 where "IGMP_TMR_INTERVAL = 100"
definition DNS_TMR_INTERVAL :: u32 where "DNS_TMR_INTERVAL = 1000"

definition on_world :: "('w \<Rightarrow> 'w) \<Rightarrow> 'w timers \<Rightarrow> 'w timers" where
  "on_world f s = s\<lparr>world := f (world s)\<rparr>"

definition tcpip_tcp_timer :: "'w stack \<Rightarrow> 'w timers \<Rightarrow> 'w timers option" where
  "tcpip_tcp_timer E s =
     (let s = on_world (tcp_tmr E) s
      in if tcp_pcbs E (world s) then sys_timeout E TCP_TMR_INTERVAL (Some Tcpip_tcp_timer) 0 s
         else Some (s\<lparr>tcpip_tcp_timer_active := False\<rparr>))"

definition tcp_timer_needed :: "'w stack \<Rightarrow> 'w timers \<Rightarrow> 'w timers option" where
  "tcp_timer_needed E s =
     (if \<not> tcpip_tcp_timer_active s \<and> tcp_pcbs E (world s)
      then sys_timeout E TCP_TMR_INTERVAL (Some Tcpip_tcp_timer) 0 (s\<lparr>tcpip_tcp_timer_active := True\<rparr>)
      else Some s)"

definition ip_reass_timer :: "'w stack \<Rightarrow> 'w timers \<Rightarrow> 'w timers option" where
  "ip_reass_timer E s = sys_timeout E IP_TMR_INTERVAL (Some Ip_reass_timer) 0 (on_world (ip_reass_tmr E) s)"

definition arp_timer :: "'w stack \<Rightarrow> 'w timers \<Rightarrow> 'w timers option" where
  "arp_timer E s = sys_timeout E ARP_TMR_INTERVAL (Some Arp_timer) 0 (on_world (etharp_tmr_fn E) s)"

definition dhcp_timer_coarse :: "'w stack \<Rightarrow> 'w timers \<Rightarrow> 'w timers option" where
  "dhcp_timer_coarse E s =
     sys_timeout E DHCP_COARSE_TIMER_MSECS (Some Dhcp_timer_coarse) 0 (on_world (dhcp_coarse_tmr E) s)"

definition dhcp_timer_fine :: "'w stack \<Rightarrow> 'w timers \<Rightarrow> 'w timers option" where
  "dhcp_timer_fine E s =
     sys_timeout E DHCP_FINE_TIMER_MSECS (Some Dhcp_timer_fine) 0 (on_world (dhcp_fine_tmr E) s)"

definition igmp_timer :: "'w stack \<Rightarrow> 'w timers \<Rightarrow> 'w timers option" where
  "igmp_timer E s = sys_timeout E IGMP_TMR_INTERVAL (Some Igmp_timer) 0 (on_world (igmp_tmr E) s)"

definition dns_timer :: "'w stack \<Rightarrow> 'w timers \<Rightarrow> 'w timers option" where
  "dns_timer E s = sys_timeout E DNS_TMR_INTERVAL (Some Dns_timer) 0 (on_world (dns_tmr E) s)"

definition sys_timeouts_init :: "'w stack \<Rightarrow> 'w timers \<Rightarrow> 'w timers option" where
  "sys_timeouts_init E s = do {
     s \<leftarrow> sys_timeout E IP_TMR_INTERVAL (Some Ip_reass_timer) 0 s;
     s \<leftarrow> sys_timeout E ARP_TMR_INTERVAL (Some Arp_timer) 0 s;
     s \<leftarrow> sys_timeout E DHCP_COARSE_TIMER_MSECS (Some Dhcp_timer_coarse) 0 s;
     s \<leftarrow> sys_timeout E DHCP_FINE_TIMER_MSECS (Some Dhcp_timer_fine) 0 s;
     s \<leftarrow> sys_timeout E IGMP_TMR_INTERVAL (Some Igmp_timer) 0 s;
     sys_timeout E DNS_TMR_INTERVAL (Some Dns_timer) 0 s
   }"

text \<open>\<open>h(arg)\<close>.\<close>

fun call_handler :: "'w stack \<Rightarrow> sys_timeout_handler \<Rightarrow> u32 \<Rightarrow> 'w timers \<Rightarrow> 'w timers option" where
  "call_handler E Tcpip_tcp_timer a s = tcpip_tcp_timer E s"
| "call_handler E Ip_reass_timer a s = ip_reass_timer E s"
| "call_handler E Arp_timer a s = arp_timer E s"
| "call_handler E Dhcp_timer_coarse a s = dhcp_timer_coarse E s"
| "call_handler E Dhcp_timer_fine a s = dhcp_timer_fine E s"
| "call_handler E Igmp_timer a s = igmp_timer E s"
| "call_handler E Dns_timer a s = dns_timer E s"
| "call_handler E (Callback n) a s = callback E n a s"

text \<open>The first entry is taken off the list and called.\<close>

definition call_timeout :: "'w stack \<Rightarrow> 'w timers \<Rightarrow> 'w timers option" where
  "call_timeout E s = (case next_timeout s of
       [] \<Rightarrow> None
     | tmptimeout # r \<Rightarrow>
         (let s = s\<lparr>next_timeout := r\<rparr>
          in (case h tmptimeout of None \<Rightarrow> Some s | Some hdl \<Rightarrow> call_handler E hdl (arg tmptimeout) s)))"

subsection \<open>Waiting for a message\<close>

text \<open>\<open>sys_arch_mbox_fetch\<close> with its waits: a call is given the mailbox it finds once it has the mutex,
  and for each wait what \<open>sys_arch_sem_wait\<close> reports and the mailbox found after it (with the mutex
  again, if it did not time out). A history that is used up is a call that still waits (\<open>None\<close>).\<close>

type_synonym 'm history = "'m sys_mbox \<times> (u32 \<times> 'm sys_mbox) list"

fun mbox_fetch_loop :: "u32 \<Rightarrow> u32 \<Rightarrow> 'm sys_mbox \<Rightarrow> (u32 \<times> 'm sys_mbox) list
    \<Rightarrow> (u32 \<times> 'm option \<times> 'm sys_mbox) option" where
  "mbox_fetch_loop timeout time_needed mbox evs =
     (if first mbox = last mbox then
        (case evs of
           [] \<Rightarrow> None
         | (t, mbox) # evs \<Rightarrow>
             if timeout \<noteq> 0 then
               (if t = SYS_ARCH_TIMEOUT then Some (SYS_ARCH_TIMEOUT, None, mbox)
                else mbox_fetch_loop timeout t mbox evs)
             else mbox_fetch_loop timeout time_needed mbox evs)
      else do {
        (m, mbox) \<leftarrow> mbox_take mbox;
        mbox \<leftarrow> (if wait_send mbox \<noteq> 0 then signal_not_full mbox else Some mbox);
        mbox \<leftarrow> unlock mbox;
        Some (time_needed, Some m, mbox)
      })"

declare mbox_fetch_loop.simps [simp del]

definition sys_arch_mbox_fetch :: "u32 \<Rightarrow> 'm history \<Rightarrow> (u32 \<times> 'm option \<times> 'm sys_mbox) option" where
  "sys_arch_mbox_fetch timeout hist = mbox_fetch_loop timeout 0 (fst hist) (snd hist)"

text \<open>The loop of \<open>sys_timeouts_mbox_fetch\<close>, with one history for each call of \<open>sys_arch_mbox_fetch\<close>.
  Handlers that set themselves again without delay would keep it from returning.\<close>

partial_function (option) sys_timeouts_mbox_fetch ::
  "'w stack \<Rightarrow> 'w timers \<Rightarrow> 'm history list \<Rightarrow> ('m option \<times> 'm sys_mbox \<times> 'w timers \<times> 'm history list) option" where
  "sys_timeouts_mbox_fetch E s hs = (case next_timeout s of
       [] \<Rightarrow> (case hs of
           [] \<Rightarrow> None
         | hist # hs \<Rightarrow> do { (_, m, mbox) \<leftarrow> sys_arch_mbox_fetch 0 hist; Some (m, mbox, s, hs) })
     | n # _ \<Rightarrow>
         if time n > 0 then
           (case hs of
              [] \<Rightarrow> None
            | hist # hs \<Rightarrow> do {
                (time_needed, m, mbox) \<leftarrow> sys_arch_mbox_fetch (time n) hist;
                (if time_needed = SYS_ARCH_TIMEOUT
                 then do { s \<leftarrow> call_timeout E s; sys_timeouts_mbox_fetch E s hs }
                 else Some (m, mbox, s\<lparr>next_timeout := timeout_credit time_needed (next_timeout s)\<rparr>, hs))
              })
         else do { s \<leftarrow> call_timeout E s; sys_timeouts_mbox_fetch E s hs })"

subsection \<open>Timeouts fire when they are due\<close>

text \<open>
  C13: over every sequence of settings, cancellations, expired waits and received messages the list
  fires the entries that a reference with absolute deadlines fires, at the same accounted time; each
  at a moment that a setting has asked for, in the order of these moments, equal ones in the order in
  which they were set, and no difference in the list ever wraps around.
\<close>

theorem timeouts_fire_at_deadlines:
  assumes "timer_run timer_set timer_cancel timer_expire timer_credit ops 0 [] = (fired, now, ts)"
  shows "spec_run ops 0 [] = (fired, now, due now ts) \<and> timers_ok ts
    \<and> sorted (map fst fired) \<and> set fired \<subseteq> asked ops 0 []"
proof -
  have s: "spec_run ops 0 [] = (fired, now, due now ts) \<and> timers_ok ts"
    using timer_list.run_refines [OF _ assms] by (simp add: timers_ok_def)
  then show ?thesis
    using spec_fires_in_order [of "[]" 0 ops] spec_fires_asked [of ops 0 "[]"] by fastforce
qed

definition demo_ops :: "(sys_timeout_handler option \<times> u32) timer_op list" where
  "demo_ops = [Set 500 (Some Arp_timer, 0), Set 200 (Some Dns_timer, 0), Credit 150,
     Set 60 (Some Igmp_timer, 0), Expire, Cancel (Some Igmp_timer, 0), Expire]"

theorem timeouts_fire_at_deadlines_witness:
  "\<exists>now ts. timer_run timer_set timer_cancel timer_expire timer_credit demo_ops 0 []
      = ([(200, (Some Dns_timer, 0)), (500, (Some Arp_timer, 0))], now, ts)
    \<and> spec_run demo_ops 0 [] = ([(200, (Some Dns_timer, 0)), (500, (Some Arp_timer, 0))], now, due now ts)"
proof -
  have "timer_run timer_set timer_cancel timer_expire timer_credit demo_ops 0 []
      = ([(200, (Some Dns_timer, 0)), (500, (Some Arp_timer, 0))], 500, [])"
    by code_simp
  from this timeouts_fire_at_deadlines [OF this] show ?thesis by blast
qed

subsection \<open>The cyclic timers\<close>

definition cyclic :: "(sys_timeout_handler \<times> u32) set" where
  "cyclic = {(Ip_reass_timer, IP_TMR_INTERVAL), (Arp_timer, ARP_TMR_INTERVAL),
     (Dhcp_timer_coarse, DHCP_COARSE_TIMER_MSECS), (Dhcp_timer_fine, DHCP_FINE_TIMER_MSECS),
     (Igmp_timer, IGMP_TMR_INTERVAL), (Dns_timer, DNS_TMR_INTERVAL)}"

text \<open>A number of timeouts in succession, with no message in between: the moments and handlers of the
  calls, the clock, and how many of them were waited for.\<close>

fun idle :: "'w stack \<Rightarrow> nat \<Rightarrow> nat \<Rightarrow> 'w timers
    \<Rightarrow> ((nat \<times> sys_timeout_handler option) list \<times> nat \<times> nat \<times> 'w timers) option" where
  "idle E 0 now s = Some ([], now, 0, s)"
| "idle E (Suc n) now s = (case next_timeout s of
       [] \<Rightarrow> None
     | t # _ \<Rightarrow> do {
         s \<leftarrow> call_timeout E s;
         (calls, now', w, s) \<leftarrow> idle E n (now + unat (time t)) s;
         Some ((now + unat (time t), h t) # calls, now', (if time t > 0 then Suc w else w), s)
       })"

text \<open>These calls are what \<open>sys_timeouts_mbox_fetch\<close> does while its waits time out.\<close>

definition times_out :: "'m history \<Rightarrow> bool" where
  "times_out hist \<longleftrightarrow> (\<forall>timeout > 0. \<exists>mb. sys_arch_mbox_fetch timeout hist = Some (SYS_ARCH_TIMEOUT, None, mb))"

lemma fetch_idle:
  "idle E n now s = Some (calls, now', w, s') \<Longrightarrow> length hs = w \<Longrightarrow> \<forall>x \<in> set hs. times_out x \<Longrightarrow>
    sys_timeouts_mbox_fetch E s (hs @ rest) = sys_timeouts_mbox_fetch E s' rest"
proof (induction n arbitrary: now s calls w hs)
  case (Suc n)
  then obtain t r s1 c1 w1 where s: "next_timeout s = t # r" "call_timeout E s = Some s1"
    "idle E n (now + unat (time t)) s1 = Some (c1, now', w1, s')" "w = (if time t > 0 then Suc w1 else w1)"
    by (auto split: list.splits Option.bind_splits)
  show ?case
  proof (cases "time t > 0")
    case False
    then show ?thesis using Suc s by (subst sys_timeouts_mbox_fetch.simps) simp
  next
    case True
    then obtain x xs where hs: "hs = x # xs" "length xs = w1" using s(4) Suc.prems(2) by (cases hs) auto
    obtain mb where "sys_arch_mbox_fetch (time t) x = Some (SYS_ARCH_TIMEOUT, None, mb)"
      using Suc.prems(3) True hs(1) by (auto simp: times_out_def)
    then show ?thesis using Suc.IH [OF s(3) hs(2)] Suc.prems(3) True hs s
      by (subst sys_timeouts_mbox_fetch.simps) simp
  qed
qed simp

definition mem_ok :: "'w stack \<Rightarrow> bool" where
  "mem_ok E \<longleftrightarrow> (\<forall>w. fst (memp_malloc E w))"

lemma sys_timeout_ok:
  "mem_ok E \<Longrightarrow> \<exists>s'. sys_timeout E msecs hdl a s = Some s'
    \<and> next_timeout s' = timeout_insert \<lparr>time = msecs, h = hdl, arg = a\<rparr> (next_timeout s)
    \<and> tcpip_tcp_timer_active s' = tcpip_tcp_timer_active s"
  by (simp add: sys_timeout_def mem_ok_def split_beta)

abbreviation entries :: "sys_timeout_handler \<Rightarrow> nat \<Rightarrow> 'w timers \<Rightarrow> (nat \<times> sys_timeout_handler option \<times> u32) list" where
  "entries hd' now s \<equiv> filter (\<lambda>e. fst (snd e) = Some hd') (due now (next_timeout s))"

abbreviation calls_of :: "sys_timeout_handler \<Rightarrow> (nat \<times> sys_timeout_handler option) list \<Rightarrow> (nat \<times> sys_timeout_handler option) list" where
  "calls_of hd' calls \<equiv> filter (\<lambda>e. snd e = Some hd') calls"

lemma entries_sys_timeout:
  assumes "mem_ok E" and "sys_timeout E msecs (Some g) a s = Some s'"
  shows "g \<noteq> k \<Longrightarrow> entries k now s' = entries k now s"
    and "entries g now s = [] \<Longrightarrow> entries g now s' = [(now + unat msecs, Some g, a)]"
  using assms sys_timeout_ok [of E msecs "Some g" a s]
  by (auto simp: timeout_insert_due filter_due_insert filter_due_insert_new)

lemma call_cyclic:
  assumes "(g, I) \<in> cyclic"
  shows "\<exists>f. call_handler E g a s = sys_timeout E I (Some g) 0 (on_world f s)"
  using assms
  by (auto simp: cyclic_def ip_reass_timer_def arp_timer_def dhcp_timer_coarse_def dhcp_timer_fine_def
      igmp_timer_def dns_timer_def)

text \<open>Every cyclic timer is in the list once, due at the moment \<open>d\<close> says and within one interval.\<close>

definition one_each :: "(sys_timeout_handler \<Rightarrow> nat) \<Rightarrow> nat \<Rightarrow> 'w timers \<Rightarrow> bool" where
  "one_each d now s \<longleftrightarrow> (\<forall>(g, I) \<in> cyclic. entries g now s = [(d g, Some g, 0)] \<and> d g \<le> now + unat I)
     \<and> (\<forall>t \<in> set (next_timeout s). \<exists>(g, I) \<in> cyclic. h t = Some g)"

lemma handlers_due: "h ` set ts = (\<lambda>e. fst (snd e)) ` set (due now ts)"
proof -
  have "map h ts = map (\<lambda>e. fst (snd e)) (due now ts)" by (induction ts arbitrary: now) (auto simp: Let_def)
  then show ?thesis by (metis list.set_map)
qed

lemma handlers_insert: "h ` set (timeout_insert x ts) = insert (h x) (h ` set ts)"
  by (simp add: handlers_due [of _ 0] timeout_insert_due set_due_insert)

lemma cyclic_fun: "(g, I) \<in> cyclic \<Longrightarrow> (g, J) \<in> cyclic \<Longrightarrow> I = J"
  by (auto simp: cyclic_def)

lemma call_one_each:
  assumes m: "mem_ok E" and o: "one_each d now s" and n: "next_timeout s = t # r"
  shows "\<exists>g I s'. (g, I) \<in> cyclic \<and> h t = Some g \<and> d g = now + unat (time t) \<and> call_timeout E s = Some s'
    \<and> one_each (d(g := d g + unat I)) (d g) s'"
proof -
  define T where "T = now + unat (time t)"
  obtain g I where g: "(g, I) \<in> cyclic" "h t = Some g" using o n by (auto simp: one_each_def)
  have e: "entries g now s = [(d g, Some g, 0)]" using o g(1) by (auto simp: one_each_def)
  then have T: "d g = T" "filter (\<lambda>e. fst (snd e) = Some g) (due T r) = []"
    by (auto simp: n g(2) T_def Let_def)
  obtain f where f: "call_handler E g (arg t) (s\<lparr>next_timeout := r\<rparr>)
      = sys_timeout E I (Some g) 0 (on_world f (s\<lparr>next_timeout := r\<rparr>))"
    using call_cyclic [OF g(1)] by blast
  obtain s' where s': "sys_timeout E I (Some g) 0 (on_world f (s\<lparr>next_timeout := r\<rparr>)) = Some s'"
    "next_timeout s' = timeout_insert \<lparr>time = I, h = Some g, arg = 0\<rparr> r"
    using sys_timeout_ok [OF m, of I "Some g" 0 "on_world f (s\<lparr>next_timeout := r\<rparr>)"]
    by (auto simp: on_world_def)
  have "one_each (d(g := d g + unat I)) T s'"
    unfolding one_each_def
  proof (intro conjI ballI, clarify)
    fix k J assume k: "(k, J) \<in> cyclic"
    show "entries k T s' = [((d(g := d g + unat I)) k, Some k, 0)] \<and> (d(g := d g + unat I)) k \<le> T + unat J"
    proof (cases "k = g")
      case True
      then show ?thesis using entries_sys_timeout(2) [OF m s'(1), of T] T cyclic_fun [OF k] g(1)
        by (simp add: on_world_def)
    next
      case False
      have "entries k now s = [(d k, Some k, 0)]" "d k \<le> now + unat J" using o k by (auto simp: one_each_def)
      moreover have "entries k now s = filter (\<lambda>e. fst (snd e) = Some k) (due T r)"
        using False by (simp add: n g(2) T_def Let_def)
      ultimately show ?thesis using entries_sys_timeout(1) [OF m s'(1), of k T] False
        by (simp add: on_world_def T_def)
    qed
  next
    fix u assume "u \<in> set (next_timeout s')"
    then have "h u \<in> insert (Some g) (h ` set r)"
      using handlers_insert [of "\<lparr>time = I, h = Some g, arg = 0\<rparr>" r] s'(2) by force
    then show "\<exists>(k, J) \<in> cyclic. h u = Some k"
      using o g(1) by (force simp: one_each_def n)
  qed
  moreover have "call_timeout E s = Some s'" by (simp add: call_timeout_def n g(2) f s'(1))
  ultimately show ?thesis using g T(1) by (metis T_def)
qed

lemma idle_cyclic:
  assumes m: "mem_ok E"
  shows "one_each d now s \<Longrightarrow> \<exists>calls now' w s' d'. idle E n now s = Some (calls, now', w, s') \<and> one_each d' now' s'
    \<and> length calls = n
    \<and> (\<forall>(g, I) \<in> cyclic. d' g = d g + length (calls_of g calls) * unat I
        \<and> map fst (calls_of g calls) = map (\<lambda>i. d g + i * unat I) [0..<length (calls_of g calls)])"
proof (induction n arbitrary: d now s)
  case (Suc n)
  have "(Arp_timer, ARP_TMR_INTERVAL) \<in> cyclic" by (simp add: cyclic_def)
  then have "entries Arp_timer now s \<noteq> []" using Suc.prems by (fastforce simp: one_each_def)
  then obtain t r where n: "next_timeout s = t # r" by (cases "next_timeout s") auto
  from call_one_each [OF m Suc.prems n] obtain g I s1 where
    g: "(g, I) \<in> cyclic" "h t = Some g" "d g = now + unat (time t)" "call_timeout E s = Some s1"
    "one_each (d(g := d g + unat I)) (d g) s1" by blast
  from Suc.IH [OF g(5)] obtain calls now' w s' d' where
    i: "idle E n (d g) s1 = Some (calls, now', w, s')" "one_each d' now' s'" "length calls = n"
    "\<And>k J. (k, J) \<in> cyclic \<Longrightarrow> d' k = (d(g := d g + unat I)) k + length (calls_of k calls) * unat J
        \<and> map fst (calls_of k calls)
          = map (\<lambda>i. (d(g := d g + unat I)) k + i * unat J) [0..<length (calls_of k calls)]" by blast
  have "d' k = d k + length (calls_of k ((d g, Some g) # calls)) * unat J
      \<and> map fst (calls_of k ((d g, Some g) # calls))
        = map (\<lambda>i. d k + i * unat J) [0..<length (calls_of k ((d g, Some g) # calls))]"
    if k: "(k, J) \<in> cyclic" for k J
  proof (cases "k = g")
    case True
    then have "J = I" using cyclic_fun k g(1) by blast
    then show ?thesis using i(4) [OF k] True
      by (simp add: upt_conv_Cons map_Suc_upt [symmetric] del: upt_Suc)
  qed (use i(4) [OF k] in simp)
  then show ?case using i(1-3) n g(2-4)
    by (intro exI [of _ "(d g, Some g) # calls"] exI [of _ now'] exI [of _ "if time t > 0 then Suc w else w"]
        exI [of _ s'] exI [of _ d']) auto
qed (auto intro!: exI)

definition interval :: "sys_timeout_handler \<Rightarrow> u32" where
  "interval g = (case g of Ip_reass_timer \<Rightarrow> IP_TMR_INTERVAL | Arp_timer \<Rightarrow> ARP_TMR_INTERVAL
     | Dhcp_timer_coarse \<Rightarrow> DHCP_COARSE_TIMER_MSECS | Dhcp_timer_fine \<Rightarrow> DHCP_FINE_TIMER_MSECS
     | Igmp_timer \<Rightarrow> IGMP_TMR_INTERVAL | Dns_timer \<Rightarrow> DNS_TMR_INTERVAL | _ \<Rightarrow> 0)"

lemmas interval_defs = IP_TMR_INTERVAL_def ARP_TMR_INTERVAL_def DHCP_COARSE_TIMER_MSECS_def
  DHCP_FINE_TIMER_MSECS_def IGMP_TMR_INTERVAL_def DNS_TMR_INTERVAL_def TCP_TMR_INTERVAL_def

lemma cyclic_interval: "(g, I) \<in> cyclic \<Longrightarrow> interval g = I"
  by (auto simp: cyclic_def interval_def)

text \<open>The list after \<open>sys_timeouts_init\<close>, as deadlines.\<close>

lemma init_due:
  assumes m: "mem_ok E" and e: "next_timeout s0 = []"
  shows "\<exists>s. sys_timeouts_init E s0 = Some s \<and> tcpip_tcp_timer_active s = tcpip_tcp_timer_active s0
    \<and> due 0 (next_timeout s) = [(100, Some Igmp_timer, 0), (500, Some Dhcp_timer_fine, 0),
      (1000, Some Ip_reass_timer, 0), (1000, Some Dns_timer, 0), (5000, Some Arp_timer, 0),
      (60000, Some Dhcp_timer_coarse, 0)]"
proof -
  note ok = sys_timeout_ok [OF m]
  obtain s1 where s1: "sys_timeout E IP_TMR_INTERVAL (Some Ip_reass_timer) 0 s0 = Some s1"
    "next_timeout s1 = timeout_insert \<lparr>time = IP_TMR_INTERVAL, h = Some Ip_reass_timer, arg = 0\<rparr> (next_timeout s0)"
    "tcpip_tcp_timer_active s1 = tcpip_tcp_timer_active s0" using ok by blast
  obtain s2 where s2: "sys_timeout E ARP_TMR_INTERVAL (Some Arp_timer) 0 s1 = Some s2"
    "next_timeout s2 = timeout_insert \<lparr>time = ARP_TMR_INTERVAL, h = Some Arp_timer, arg = 0\<rparr> (next_timeout s1)"
    "tcpip_tcp_timer_active s2 = tcpip_tcp_timer_active s1" using ok by blast
  obtain s3 where s3: "sys_timeout E DHCP_COARSE_TIMER_MSECS (Some Dhcp_timer_coarse) 0 s2 = Some s3"
    "next_timeout s3 = timeout_insert \<lparr>time = DHCP_COARSE_TIMER_MSECS, h = Some Dhcp_timer_coarse, arg = 0\<rparr> (next_timeout s2)"
    "tcpip_tcp_timer_active s3 = tcpip_tcp_timer_active s2" using ok by blast
  obtain s4 where s4: "sys_timeout E DHCP_FINE_TIMER_MSECS (Some Dhcp_timer_fine) 0 s3 = Some s4"
    "next_timeout s4 = timeout_insert \<lparr>time = DHCP_FINE_TIMER_MSECS, h = Some Dhcp_timer_fine, arg = 0\<rparr> (next_timeout s3)"
    "tcpip_tcp_timer_active s4 = tcpip_tcp_timer_active s3" using ok by blast
  obtain s5 where s5: "sys_timeout E IGMP_TMR_INTERVAL (Some Igmp_timer) 0 s4 = Some s5"
    "next_timeout s5 = timeout_insert \<lparr>time = IGMP_TMR_INTERVAL, h = Some Igmp_timer, arg = 0\<rparr> (next_timeout s4)"
    "tcpip_tcp_timer_active s5 = tcpip_tcp_timer_active s4" using ok by blast
  obtain s6 where s6: "sys_timeout E DNS_TMR_INTERVAL (Some Dns_timer) 0 s5 = Some s6"
    "next_timeout s6 = timeout_insert \<lparr>time = DNS_TMR_INTERVAL, h = Some Dns_timer, arg = 0\<rparr> (next_timeout s5)"
    "tcpip_tcp_timer_active s6 = tcpip_tcp_timer_active s5" using ok by blast
  have "sys_timeouts_init E s0 = Some s6"
    by (simp add: sys_timeouts_init_def s1(1) s2(1) s3(1) s4(1) s5(1) s6(1))
  moreover have "tcpip_tcp_timer_active s6 = tcpip_tcp_timer_active s0"
    by (simp add: s1 s2 s3 s4 s5 s6)
  ultimately show ?thesis
    by (simp add: s1(2) s2(2) s3(2) s4(2) s5(2) s6(2) e timeout_insert_due due_insert_Cons interval_defs)
qed

lemma init_one_each:
  assumes "mem_ok E" and "next_timeout s0 = []"
  shows "\<exists>s. sys_timeouts_init E s0 = Some s \<and> one_each (\<lambda>g. unat (interval g)) 0 s"
proof -
  obtain s where s: "sys_timeouts_init E s0 = Some s" and
    d: "due 0 (next_timeout s) = [(100, Some Igmp_timer, 0), (500, Some Dhcp_timer_fine, 0),
      (1000, Some Ip_reass_timer, 0), (1000, Some Dns_timer, 0), (5000, Some Arp_timer, 0),
      (60000, Some Dhcp_timer_coarse, 0)]" using init_due [OF assms] by blast
  have "h ` set (next_timeout s) = {Some Igmp_timer, Some Dhcp_timer_fine, Some Ip_reass_timer,
      Some Dns_timer, Some Arp_timer, Some Dhcp_timer_coarse}"
    by (simp add: handlers_due [of _ 0] d)
  then have "\<forall>t \<in> set (next_timeout s). \<exists>(g, I) \<in> cyclic. h t = Some g"
    unfolding cyclic_def using imageI [of _ "set (next_timeout s)" h] by fastforce
  then show ?thesis using s by (auto simp: one_each_def d cyclic_def interval_def interval_defs)
qed

text \<open>
  C34: from the initialisation on, as long as no message arrives, every cyclic timer of the stack is
  called exactly at the multiples of its interval: after any number of calls its \<open>k\<close> calls came at
  \<open>1, \<dots>, k\<close> intervals and the next one is not overdue. These are the calls that
  \<open>sys_timeouts_mbox_fetch\<close> makes while its waits time out.
\<close>

theorem cyclic_timers_keep_their_periods:
  assumes m: "mem_ok E" and e: "next_timeout s0 = []"
  shows "\<exists>s calls now w s'. sys_timeouts_init E s0 = Some s \<and> idle E n 0 s = Some (calls, now, w, s')
    \<and> length calls = n
    \<and> (\<forall>(g, I) \<in> cyclic. map fst (calls_of g calls) = map (\<lambda>i. (i + 1) * unat I) [0..<length (calls_of g calls)]
        \<and> length (calls_of g calls) * unat I \<le> now \<and> now \<le> (length (calls_of g calls) + 1) * unat I)
    \<and> (\<forall>hs rest. length hs = w \<and> (\<forall>x \<in> set hs. times_out x) \<longrightarrow>
        sys_timeouts_mbox_fetch E s (hs @ rest) = sys_timeouts_mbox_fetch E s' (rest :: 'm history list))"
proof -
  obtain s where s: "sys_timeouts_init E s0 = Some s" "one_each (\<lambda>g. unat (interval g)) 0 s"
    using init_one_each [OF m e] by blast
  from idle_cyclic [OF m s(2), of n] obtain calls now w s' d' where
    i: "idle E n 0 s = Some (calls, now, w, s')" "one_each d' now s'" "length calls = n"
    "\<And>g I. (g, I) \<in> cyclic \<Longrightarrow> d' g = unat (interval g) + length (calls_of g calls) * unat I
        \<and> map fst (calls_of g calls) = map (\<lambda>i. unat (interval g) + i * unat I) [0..<length (calls_of g calls)]"
    by blast
  have "map fst (calls_of g calls) = map (\<lambda>i. (i + 1) * unat I) [0..<length (calls_of g calls)]
        \<and> length (calls_of g calls) * unat I \<le> now \<and> now \<le> (length (calls_of g calls) + 1) * unat I"
    if g: "(g, I) \<in> cyclic" for g I
  proof -
    have "entries g now s' = [(d' g, Some g, 0)]" "d' g \<le> now + unat I"
      using i(2) g by (auto simp: one_each_def)
    moreover from this have "(d' g, Some g, 0) \<in> set (due now (next_timeout s'))"
      by (metis filter_is_subset list.set_intros(1) subsetD)
    then have "now \<le> d' g" by (auto dest: due_ge)
    moreover define k where "k = length (calls_of g calls)"
    ultimately show ?thesis using i(4) [OF g] unfolding cyclic_interval [OF g] k_def [symmetric] by auto
  qed
  then have "\<forall>(g, I) \<in> cyclic. map fst (calls_of g calls) = map (\<lambda>i. (i + 1) * unat I) [0..<length (calls_of g calls)]
        \<and> length (calls_of g calls) * unat I \<le> now \<and> now \<le> (length (calls_of g calls) + 1) * unat I"
    by blast
  moreover have "\<forall>hs rest. length hs = w \<and> (\<forall>x \<in> set hs. times_out x) \<longrightarrow>
        sys_timeouts_mbox_fetch E s (hs @ rest) = sys_timeouts_mbox_fetch E s' (rest :: 'm history list)"
    using fetch_idle [OF i(1)] by blast
  ultimately show ?thesis using s(1) i(1,3)
    by (intro exI [of _ s] exI [of _ calls] exI [of _ now] exI [of _ w] exI [of _ s']) simp
qed

definition demo_stack :: "nat stack" where
  "demo_stack = \<lparr>memp_malloc = Pair True, tcp_pcbs = (\<lambda>n. 0 < n), tcp_tmr = (\<lambda>n. n - 1), ip_reass_tmr = id,
     etharp_tmr_fn = id, dhcp_coarse_tmr = id, dhcp_fine_tmr = id, igmp_tmr = id, dns_tmr = id,
     callback = (\<lambda>_ _. Some)\<rparr>"

theorem cyclic_timers_keep_their_periods_witness:
  "\<exists>s calls now w s'. sys_timeouts_init demo_stack \<lparr>next_timeout = [], tcpip_tcp_timer_active = False, world = 2\<rparr> = Some s
    \<and> idle demo_stack 7 0 s = Some (calls, now, w, s')
    \<and> length (calls_of Igmp_timer calls) * 100 \<le> now"
proof -
  have "mem_ok demo_stack" by (simp add: mem_ok_def demo_stack_def)
  from cyclic_timers_keep_their_periods [OF this, where ?'m = nat and
      ?s0.0 = "\<lparr>next_timeout = [], tcpip_tcp_timer_active = False, world = 2\<rparr>" and n = 7]
  show ?thesis by (fastforce simp: cyclic_def interval_defs)
qed

subsection \<open>The TCP timer\<close>

text \<open>What the stack's thread does with its timeouts. A handler of another file is taken off the list
  and then does any of the other steps; such code sets and cancels its own handlers only.\<close>

inductive timer_step :: "'w stack \<Rightarrow> 'w timers \<Rightarrow> 'w timers \<Rightarrow> bool" for E where
  needed: "tcp_timer_needed E s = Some s' \<Longrightarrow> timer_step E s s'"
| called: "next_timeout s = t # r \<Longrightarrow> (\<forall>n. h t \<noteq> Some (Callback n)) \<Longrightarrow> call_timeout E s = Some s' \<Longrightarrow> timer_step E s s'"
| called_other: "next_timeout s = t # r \<Longrightarrow> h t = Some (Callback n) \<Longrightarrow> timer_step E s (s\<lparr>next_timeout := r\<rparr>)"
| set_other: "sys_timeout E m (Some (Callback n)) a s = Some s' \<Longrightarrow> timer_step E s s'"
| cancel_other: "timer_step E s (sys_untimeout (Some (Callback n)) a s)"
| message: "timer_step E s (s\<lparr>next_timeout := timeout_credit t (next_timeout s)\<rparr>)"
| other: "timer_step E s (s\<lparr>world := w\<rparr>)"

inductive timer_reachable :: "'w stack \<Rightarrow> 'w timers \<Rightarrow> bool" for E where
  start: "sys_timeouts_init E \<lparr>next_timeout = [], tcpip_tcp_timer_active = False, world = w\<rparr> = Some s \<Longrightarrow>
    timer_reachable E s"
| move: "timer_reachable E s \<Longrightarrow> timer_step E s s' \<Longrightarrow> timer_reachable E s'"

definition tcp_inv :: "'w timers \<Rightarrow> bool" where
  "tcp_inv s \<longleftrightarrow> timers_ok (next_timeout s) \<and> (if tcpip_tcp_timer_active s
     then \<exists>d \<le> unat TCP_TMR_INTERVAL. entries Tcpip_tcp_timer 0 s = [(d, Some Tcpip_tcp_timer, 0)]
     else entries Tcpip_tcp_timer 0 s = [])"

lemma due_plus: "due (now + k) ts = map (\<lambda>(d, x). (d + k, x)) (due now ts)"
  by (induction ts arbitrary: now) (simp_all add: Let_def, metis add.assoc add.commute)

lemma tcp_entries_only:
  assumes "timers_ok (next_timeout s')" and "tcpip_tcp_timer_active s' = tcpip_tcp_timer_active s"
    and "entries Tcpip_tcp_timer 0 s' = entries Tcpip_tcp_timer 0 s"
  shows "tcp_inv s \<Longrightarrow> tcp_inv s'"
  using assms by (simp add: tcp_inv_def)

lemma bind_SomeE: "m \<bind> f = Some y \<Longrightarrow> (\<And>x. m = Some x \<Longrightarrow> f x = Some y \<Longrightarrow> P) \<Longrightarrow> P"
  by (cases m) auto

lemma sys_timeout_next:
  "sys_timeout E m hdl a s = Some s' \<Longrightarrow> next_timeout s' = timeout_insert \<lparr>time = m, h = hdl, arg = a\<rparr> (next_timeout s)
    \<and> tcpip_tcp_timer_active s' = tcpip_tcp_timer_active s"
  by (auto simp: sys_timeout_def Let_def split: prod.splits if_splits)

lemma tcp_inv_set_other:
  "sys_timeout E m (Some g) a s = Some s' \<Longrightarrow> g \<noteq> Tcpip_tcp_timer \<Longrightarrow> tcp_inv s \<Longrightarrow> tcp_inv s'"
  using sys_timeout_next [of E m "Some g" a s s']
  by (auto simp: tcp_inv_def timers_ok_insert timeout_insert_due filter_due_insert)

lemma tcp_inv_set_tcp:
  "sys_timeout E TCP_TMR_INTERVAL (Some Tcpip_tcp_timer) 0 s = Some s' \<Longrightarrow> timers_ok (next_timeout s) \<Longrightarrow>
    entries Tcpip_tcp_timer 0 s = [] \<Longrightarrow> tcpip_tcp_timer_active s \<Longrightarrow> tcp_inv s'"
  using sys_timeout_next [of E TCP_TMR_INTERVAL "Some Tcpip_tcp_timer" 0 s s']
  by (auto simp: tcp_inv_def timers_ok_insert timeout_insert_due filter_due_insert_new)

lemma tcp_entries_shift:
  "filter (\<lambda>e. fst (snd e) = Some g) (due (now + k) ts)
    = map (\<lambda>(d, x). (d + k, x)) (filter (\<lambda>e. fst (snd e) = Some g) (due now ts))"
  by (simp add: due_plus filter_map comp_def split_beta)

text \<open>Taking off an entry of another handler.\<close>

lemma tcp_inv_pop:
  assumes "tcp_inv s" and "next_timeout s = t # r" and "h t \<noteq> Some Tcpip_tcp_timer"
  shows "tcp_inv (s\<lparr>next_timeout := r\<rparr>)"
proof -
  have "entries Tcpip_tcp_timer 0 s = map (\<lambda>(d, x). (d + unat (time t), x)) (entries Tcpip_tcp_timer 0 (s\<lparr>next_timeout := r\<rparr>))"
    using assms(2,3) tcp_entries_shift [of Tcpip_tcp_timer 0 "unat (time t)" r] by (simp add: Let_def)
  then show ?thesis using assms timers_ok_tl [of t r]
    by (fastforce simp: tcp_inv_def map_eq_Cons_conv split: if_splits)
qed

lemma tcp_inv_credit: "tcp_inv s \<Longrightarrow> tcp_inv (s\<lparr>next_timeout := timeout_credit t (next_timeout s)\<rparr>)"
proof (cases "next_timeout s = []")
  case True
  then show "tcp_inv s \<Longrightarrow> ?thesis" by (auto simp: tcp_inv_def timeout_credit_def)
next
  case False
  let ?s = "s\<lparr>next_timeout := timeout_credit t (next_timeout s)\<rparr>"
  define k where "k = min (unat t) (unat (time (hd (next_timeout s))))"
  have "entries Tcpip_tcp_timer 0 s = map (\<lambda>(d, x). (d + k, x)) (entries Tcpip_tcp_timer 0 ?s)"
    using timeout_credit_due [OF False, of 0 t] tcp_entries_shift [of Tcpip_tcp_timer 0 k "timeout_credit t (next_timeout s)"]
    by (simp add: k_def)
  then show "tcp_inv s \<Longrightarrow> ?thesis" using timers_ok_credit [of "next_timeout s" t]
    by (fastforce simp: tcp_inv_def map_eq_Cons_conv split: if_splits)
qed

lemma due_remove_filter:
  "\<not> P x \<Longrightarrow> filter (\<lambda>e. P (snd e)) (due_remove x ds) = filter (\<lambda>e. P (snd e)) ds"
  by (induction ds) auto

lemma tcp_inv_cancel: "tcp_inv s \<Longrightarrow> g \<noteq> Tcpip_tcp_timer \<Longrightarrow> tcp_inv (sys_untimeout (Some g) a s)"
  using due_remove_filter [of "\<lambda>x. fst x = Some Tcpip_tcp_timer" "(Some g, a)" "due 0 (next_timeout s)"]
  by (simp add: tcp_inv_def sys_untimeout_def due_remove_subset timeout_remove_due)

lemma tcp_inv_world: "tcp_inv (s\<lparr>world := w\<rparr>) = tcp_inv s" "tcp_inv (on_world f s) = tcp_inv s"
  by (simp_all add: tcp_inv_def on_world_def)

lemma tcp_timer_call_inv:
  assumes i: "tcp_inv s" and n: "next_timeout s = t # r" "h t = Some Tcpip_tcp_timer"
    and c: "call_timeout E s = Some s'"
  shows "tcp_inv s'"
proof -
  have a: "tcpip_tcp_timer_active s" using i n by (auto simp: tcp_inv_def Let_def split: if_splits)
  then have "filter (\<lambda>e. fst (snd e) = Some Tcpip_tcp_timer) (due (0 + unat (time t)) r) = []"
    using i n by (auto simp: tcp_inv_def Let_def)
  then have e: "filter (\<lambda>e. fst (snd e) = Some Tcpip_tcp_timer) (due 0 r) = []"
    unfolding tcp_entries_shift by simp
  have ok: "timers_ok r" using i n(1) timers_ok_tl by (auto simp: tcp_inv_def)
  have t: "tcpip_tcp_timer E (s\<lparr>next_timeout := r\<rparr>) = Some s'"
    using c by (simp add: call_timeout_def n)
  show ?thesis
  proof (cases "tcp_pcbs E (tcp_tmr E (world s))")
    case True
    then show ?thesis using t e ok a
      by (intro tcp_inv_set_tcp [of E "on_world (tcp_tmr E) (s\<lparr>next_timeout := r\<rparr>)"])
        (simp_all add: tcpip_tcp_timer_def on_world_def Let_def)
  next
    case False
    then show ?thesis using t e ok
      by (auto simp: tcpip_tcp_timer_def on_world_def Let_def tcp_inv_def)
  qed
qed

lemma call_inv:
  assumes i: "tcp_inv s" and n: "next_timeout s = t # r" and nc: "\<forall>n. h t \<noteq> Some (Callback n)"
    and c: "call_timeout E s = Some s'"
  shows "tcp_inv s'"
proof (cases "h t")
  case None
  then show ?thesis using tcp_inv_pop [OF i n] c by (simp add: call_timeout_def n)
next
  case (Some g)
  show ?thesis
  proof (cases "g = Tcpip_tcp_timer")
    case True
    then show ?thesis using tcp_timer_call_inv [OF i n _ c] Some by simp
  next
    case False
    then obtain f I where "sys_timeout E I (Some g) 0 (on_world f (s\<lparr>next_timeout := r\<rparr>)) = Some s'"
      using c n Some nc
      by (cases g) (auto simp: call_timeout_def ip_reass_timer_def arp_timer_def dhcp_timer_coarse_def
          dhcp_timer_fine_def igmp_timer_def dns_timer_def)
    from tcp_inv_set_other [OF this False] show ?thesis
      using tcp_inv_pop [OF i n] Some False by (simp add: tcp_inv_world)
  qed
qed

lemma needed_inv:
  assumes i: "tcp_inv s" and c: "tcp_timer_needed E s = Some s'"
  shows "tcp_inv s'" and "tcp_pcbs E (world s) \<Longrightarrow> tcpip_tcp_timer_active s'"
proof -
  have "tcp_inv s' \<and> (tcp_pcbs E (world s) \<longrightarrow> tcpip_tcp_timer_active s')"
  proof (cases "\<not> tcpip_tcp_timer_active s \<and> tcp_pcbs E (world s)")
    case True
    then have t: "sys_timeout E TCP_TMR_INTERVAL (Some Tcpip_tcp_timer) 0 (s\<lparr>tcpip_tcp_timer_active := True\<rparr>) = Some s'"
      using c by (simp add: tcp_timer_needed_def)
    then show ?thesis using tcp_inv_set_tcp [OF t] sys_timeout_next [OF t] True i by (simp add: tcp_inv_def)
  next
    case False
    then show ?thesis using c i by (auto simp: tcp_timer_needed_def split: if_splits)
  qed
  then show "tcp_inv s'" "tcp_pcbs E (world s) \<Longrightarrow> tcpip_tcp_timer_active s'" by simp_all
qed

lemma sys_timeouts_init_inv:
  assumes "sys_timeouts_init E \<lparr>next_timeout = [], tcpip_tcp_timer_active = False, world = w\<rparr> = Some s"
  shows "tcp_inv s"
proof -
  have "tcp_inv \<lparr>next_timeout = [], tcpip_tcp_timer_active = False, world = w\<rparr>"
    by (simp add: tcp_inv_def timers_ok_def)
  moreover note other = tcp_inv_set_other [where E = E]
  ultimately show ?thesis using assms unfolding sys_timeouts_init_def
    by (elim bind_SomeE) (blast intro: other)
qed

lemma timer_reachable_inv: "timer_reachable E s \<Longrightarrow> tcp_inv s"
proof (induction rule: timer_reachable.induct)
  case (start w s)
  then show ?case by (rule sys_timeouts_init_inv)
next
  case (move s s')
  from move.hyps(2) move.IH show ?case
    by cases (auto intro: needed_inv call_inv tcp_inv_pop tcp_inv_set_other tcp_inv_cancel tcp_inv_credit
        simp: tcp_inv_world)
qed

text \<open>
  C35: in every run of the stack's thread the TCP timer is in the list exactly once, due within its
  interval, when \<open>tcpip_tcp_timer_active\<close> says so, and not at all otherwise; registering a connection
  makes it active, and no entry's time wraps around.
\<close>

theorem tcp_timer_scheduled_once:
  assumes "timer_reachable E s"
  shows "(if tcpip_tcp_timer_active s
      then \<exists>d \<le> 250. filter (\<lambda>e. fst (snd e) = Some Tcpip_tcp_timer) (due 0 (next_timeout s)) = [(d, Some Tcpip_tcp_timer, 0)]
      else filter (\<lambda>e. fst (snd e) = Some Tcpip_tcp_timer) (due 0 (next_timeout s)) = [])
    \<and> (\<forall>s'. tcp_timer_needed E s = Some s' \<longrightarrow> tcp_pcbs E (world s) \<longrightarrow> tcpip_tcp_timer_active s')
    \<and> timers_ok (next_timeout s)"
proof -
  have i: "tcp_inv s" using assms by (rule timer_reachable_inv)
  then have "\<forall>s'. tcp_timer_needed E s = Some s' \<longrightarrow> tcp_pcbs E (world s) \<longrightarrow> tcpip_tcp_timer_active s'"
    using needed_inv(2) by blast
  then show ?thesis using i by (auto simp: tcp_inv_def TCP_TMR_INTERVAL_def split: if_splits)
qed

theorem tcp_timer_scheduled_once_witness:
  "\<exists>s :: nat timers. timer_reachable demo_stack s \<and> tcpip_tcp_timer_active s
    \<and> (\<exists>d \<le> 250. filter (\<lambda>e. fst (snd e) = Some Tcpip_tcp_timer) (due 0 (next_timeout s)) = [(d, Some Tcpip_tcp_timer, 0)])"
proof -
  have m: "mem_ok demo_stack" by (simp add: mem_ok_def demo_stack_def)
  let ?i = "\<lparr>next_timeout = [], tcpip_tcp_timer_active = False, world = 2 :: nat\<rparr>"
  obtain s where s: "sys_timeouts_init demo_stack ?i = Some s" "tcpip_tcp_timer_active s = False"
    using init_due [OF m, of ?i] by auto
  have r: "timer_reachable demo_stack (s\<lparr>world := 2\<rparr>)"
    using timer_step.other by (rule timer_reachable.move [OF timer_reachable.start [OF s(1)]])
  have p: "tcp_pcbs demo_stack (world (s\<lparr>world := 2\<rparr>))" by (simp add: demo_stack_def)
  then obtain s' where n: "tcp_timer_needed demo_stack (s\<lparr>world := 2\<rparr>) = Some s'"
    using sys_timeout_ok [OF m, of TCP_TMR_INTERVAL "Some Tcpip_tcp_timer" 0
        "s\<lparr>world := 2, tcpip_tcp_timer_active := True\<rparr>"] s(2) by (auto simp: tcp_timer_needed_def)
  then have r': "timer_reachable demo_stack s'" using r timer_step.needed timer_reachable.move by blast
  have "tcpip_tcp_timer_active s'" using tcp_timer_scheduled_once [OF r] n p by blast
  then show ?thesis using tcp_timer_scheduled_once [OF r'] r' by (intro exI [of _ s']) simp
qed

end
