(* ===== verification/Lwip_Chksum.thy ===== *)
theory Lwip_Chksum imports Checksum begin

section \<open>Checksums of lwIP (\<open>lib/lwip/lib/contrib/src/core/ipv4/inet_chksum.c\<close>)\<close>

text \<open>
  The routine that the stack is built with (\<open>LWIP_CHKSUM_ALGORITHM\<close> 2) sums 16-bit words from the
  next even address on, and swaps the bytes of the sum when it started at an odd one; sums over
  chains of buffers swap after every buffer of odd length. A portion of memory is its address and
  its bytes. The theorems show that all of this computes the sum of RFC 1071 over the bytes in
  their order, whatever the addresses and wherever the data is cut.
\<close>

subsection \<open>The code\<close>

definition FOLD_U32T :: "u32 \<Rightarrow> u32" where
  "FOLD_U32T u = drop_bit 16 u + (u AND 0x0000ffff)"

definition SWAP_BYTES_IN_WORD :: "u32 \<Rightarrow> u32" where
  "SWAP_BYTES_IN_WORD w = push_bit 8 (w AND 0xff) OR drop_bit 8 (w AND 0xff00)"

text \<open>The loop over the words, with the byte that is left.\<close>

fun chksum_words :: "u32 \<Rightarrow> bytes \<Rightarrow> u32 \<times> bytes" where
  "chksum_words acc (a # b # ps) = chksum_words (acc + ucast (le16 a b)) ps"
| "chksum_words acc ps = (acc, ps)"

definition lwip_standard_chksum :: "u32 \<Rightarrow> bytes \<Rightarrow> u16" where
  "lwip_standard_chksum dataptr pb =
     (let isodd = dataptr AND 1 \<noteq> 0;
          (t, pb) = (case pb of b # r \<Rightarrow> if isodd then (le16 0 b, r) else (0, pb) | [] \<Rightarrow> (0, pb));
          (acc, ps) = chksum_words 0 pb;
          t = (case ps of b # _ \<Rightarrow> le16 b (hi8 t) | [] \<Rightarrow> t);
          acc = acc + ucast t;
          acc = FOLD_U32T acc;
          acc = FOLD_U32T acc;
          acc = (if isodd then SWAP_BYTES_IN_WORD acc else acc)
      in ucast acc)"

definition inet_chksum :: "u32 \<Rightarrow> bytes \<Rightarrow> u16" where
  "inet_chksum dataptr bs = NOT (lwip_standard_chksum dataptr bs)"

text \<open>The buffers of a chain: where the payload lies and its bytes.\<close>

record chunk =
  chunk_at :: u32
  chunk_data :: bytes

text \<open>The loop over a chain: the sum so far and whether it is swapped.\<close>

definition chksum_chunk :: "u32 \<Rightarrow> bytes \<Rightarrow> nat \<Rightarrow> u32 \<times> bool \<Rightarrow> u32 \<times> bool" where
  "chksum_chunk p bs len = (\<lambda>(acc, swapped).
     (let acc = FOLD_U32T (acc + ucast (lwip_standard_chksum p bs))
      in if len mod 2 \<noteq> 0 then (SWAP_BYTES_IN_WORD acc, \<not> swapped) else (acc, swapped)))"

fun chksum_chain :: "chunk list \<Rightarrow> u32 \<times> bool \<Rightarrow> u32 \<times> bool" where
  "chksum_chain [] s = s"
| "chksum_chain (q # qs) s = chksum_chain qs (chksum_chunk (chunk_at q) (chunk_data q) (length (chunk_data q)) s)"

definition unswap :: "u32 \<times> bool \<Rightarrow> u32" where
  "unswap s = (if snd s then SWAP_BYTES_IN_WORD (fst s) else fst s)"

definition inet_chksum_pbuf :: "chunk list \<Rightarrow> u16" where
  "inet_chksum_pbuf p = ucast (NOT (unswap (chksum_chain p (0, False)) AND 0xffff))"

text \<open>The end of both functions with a pseudo header: addresses as the host loads them, and
  \<open>htons\<close> of the protocol and the length.\<close>

definition chksum_pseudo_header :: "u32 \<Rightarrow> u32 \<Rightarrow> u32 \<Rightarrow> u8 \<Rightarrow> u16 \<Rightarrow> u16" where
  "chksum_pseudo_header acc src dest proto proto_len =
     (let acc = acc + (src AND 0xffff);
          acc = acc + (drop_bit 16 src AND 0xffff);
          acc = acc + (dest AND 0xffff);
          acc = acc + (drop_bit 16 dest AND 0xffff);
          acc = acc + ucast (swap16 (ucast proto));
          acc = acc + ucast (swap16 proto_len);
          acc = FOLD_U32T acc;
          acc = FOLD_U32T acc
      in ucast (NOT (acc AND 0xffff)))"

definition inet_chksum_pseudo :: "chunk list \<Rightarrow> u32 \<Rightarrow> u32 \<Rightarrow> u8 \<Rightarrow> u16 \<Rightarrow> u16" where
  "inet_chksum_pseudo p src dest proto proto_len =
     chksum_pseudo_header (unswap (chksum_chain p (0, False))) src dest proto proto_len"

text \<open>The variant that covers the first \<open>chksum_len\<close> bytes. Its assertion that less than \<open>0x7fff\<close> bytes
  remain after the first buffer is part of the code, the message is \<open>"delete me"\<close>.\<close>

fun chksum_partial :: "chunk list \<Rightarrow> u16 \<Rightarrow> u32 \<times> bool \<Rightarrow> (u32 \<times> bool) option" where
  "chksum_partial [] chksum_len s = Some s"
| "chksum_partial (q # qs) chksum_len s =
     (if chksum_len > 0 then
        (let chklen = (if word_of_nat (length (chunk_data q)) > chksum_len then chksum_len
                       else word_of_nat (length (chunk_data q)));
             s = chksum_chunk (chunk_at q) (take (unat chklen) (chunk_data q)) (length (chunk_data q)) s;
             chksum_len = chksum_len - chklen
         in if chksum_len < 0x7fff then chksum_partial qs chksum_len s else None)
      else Some s)"

definition inet_chksum_pseudo_partial :: "chunk list \<Rightarrow> u32 \<Rightarrow> u32 \<Rightarrow> u8 \<Rightarrow> u16 \<Rightarrow> u16 \<Rightarrow> u16 option" where
  "inet_chksum_pseudo_partial p src dest proto proto_len chksum_len =
     map_option (\<lambda>s. chksum_pseudo_header (unswap s) src dest proto proto_len)
       (chksum_partial p chksum_len (0, False))"

subsection \<open>Sums up to the end-around carry\<close>

text \<open>Two sums are the same one's complement number.\<close>

definition osame :: "nat \<Rightarrow> nat \<Rightarrow> bool" where
  "osame a b \<longleftrightarrow> (a = 0 \<longleftrightarrow> b = 0) \<and> a mod 65535 = b mod 65535"

lemma osame_refl [simp]: "osame a a"
  by (simp add: osame_def)

lemma osame_sym: "osame a b \<Longrightarrow> osame b a"
  by (simp add: osame_def)

lemma osame_trans [trans]: "osame a b \<Longrightarrow> osame b c \<Longrightarrow> osame a c"
  by (simp add: osame_def)

lemma osame_add: "osame a a' \<Longrightarrow> osame b b' \<Longrightarrow> osame (a + b) (a' + b')"
  unfolding osame_def by (auto intro: mod_add_cong)

lemma osame_mult: "osame a a' \<Longrightarrow> osame (k * a) (k * a')"
  unfolding osame_def by (auto intro: mod_mult_cong)

lemma osum_osame: "osame (osum s) s"
proof (cases s)
  case (Suc m)
  have "(m mod 65535 + 1) mod 65535 = Suc m mod 65535" by (metis Suc_eq_plus1 mod_Suc_eq)
  then show ?thesis by (simp add: Suc osum_Suc osame_def)
qed (simp add: osame_def)

lemma mod_add_right_cancel_nat: "(m + 1) mod 65535 = (n + 1) mod 65535 \<Longrightarrow> m mod 65535 = n mod (65535 :: nat)"
proof -
  assume e: "(m + 1) mod 65535 = (n + 1) mod (65535 :: nat)"
  define a b where "a = m mod 65535" and "b = n mod 65535"
  have "a < 65535" "b < 65535" by (simp_all add: a_def b_def)
  moreover have "(if Suc a = 65535 then 0 else Suc a) = (if Suc b = 65535 then 0 else Suc b)"
    using e by (simp only: Suc_eq_plus1 [symmetric] mod_Suc a_def b_def)
  ultimately show ?thesis by (auto simp: a_def b_def split: if_splits)
qed

lemma osum_cong: "osame a b \<Longrightarrow> osum a = osum b"
proof -
  assume o: "osame a b"
  show ?thesis
  proof (cases a)
    case 0
    then show ?thesis using o by (simp add: osame_def)
  next
    case (Suc m)
    then obtain n where n: "b = Suc n" using o by (cases b) (auto simp: osame_def)
    have "Suc m mod 65535 = Suc n mod 65535" using o Suc n by (simp add: osame_def)
    then have "(m + 1) mod 65535 = (n + 1) mod 65535" by simp
    then have "m mod 65535 = n mod 65535" by (rule mod_add_right_cancel_nat)
    then show ?thesis by (simp add: Suc n osum_Suc)
  qed
qed

lemma osum_small: "s \<le> 65535 \<Longrightarrow> osum s = s"
  by (cases s) (auto simp: osum_Suc)

lemma swap_osame: "osame (65536 * a + b) (a + b)"
proof -
  have "(65536 * a + b) mod 65535 = (65535 * a + (a + b)) mod 65535" by (simp add: algebra_simps)
  also have "\<dots> = (a + b) mod 65535" by (rule mod_mult_self4)
  finally show ?thesis by (auto simp: osame_def)
qed

text \<open>Cutting a buffer: behind an odd number of bytes the words are made of exchanged bytes.\<close>

lemma bsum_Nil [simp]: "bsum [] = 0" and bsum_single [simp]: "bsum [a] = unat a"
  and bsum_Cons2: "bsum (a # b # r) = unat a + 256 * unat b + bsum r"
  by (simp_all add: bsum_def unat_le16)

lemma bsum_byte: "osame (bsum (a # ys)) (unat a + 256 * bsum ys)"
proof (induction ys arbitrary: a rule: words16.induct)
  case (1 b c r)
  have "osame (unat a + 256 * unat b + bsum (c # r)) (unat a + 256 * unat b + (unat c + 256 * bsum r))"
    by (rule osame_add [OF osame_refl "1.IH"])
  also have "osame \<dots> (65536 * unat c + (unat a + 256 * unat b + 256 * bsum r))"
    using swap_osame [of "unat c" "unat a + 256 * unat b + 256 * bsum r", THEN osame_sym]
    by (simp add: algebra_simps)
  finally show ?case by (simp add: bsum_Cons2 algebra_simps)
next
  case (2 b)
  then show ?case by (simp add: bsum_Cons2 [of a b "[]", simplified])
qed simp

lemma bsum_append:
  "osame (bsum (xs @ ys)) (bsum xs + (if even (length xs) then 1 else 256) * bsum ys)"
proof (induction xs rule: words16.induct)
  case (1 a b r)
  from osame_add [OF osame_refl this, of "unat a + 256 * unat b"] show ?case
    by (simp add: bsum_Cons2 add.assoc)
next
  case (2 a)
  then show ?case by (simp add: bsum_byte)
qed simp

subsection \<open>The operations on 32-bit sums\<close>

lemma unat_FOLD: "unat (FOLD_U32T u) = unat u div 65536 + unat u mod 65536"
proof -
  have m: "(0xffff :: u32) = mask 16" by (simp add: mask_eq_exp_minus_1)
  have "unat u div 65536 < 65536" using unat_less32 [of u] by (simp add: div_less_iff_less_mult)
  moreover have "unat u mod 65536 < 65536" by simp
  ultimately have "unat u div 65536 + unat u mod 65536 < 4294967296" by linarith
  then show ?thesis
    by (simp add: FOLD_U32T_def m word_nat unat_word_ariths)
qed

lemma FOLD_osame: "osame (unat (FOLD_U32T u)) (unat u)"
  using swap_osame [of "unat u div 65536" "unat u mod 65536", THEN osame_sym] by (simp add: unat_FOLD)

lemma fold_le: "t \<le> 131070 \<Longrightarrow> t div 65536 + t mod 65536 \<le> (65535 :: nat)"
  by (cases "t < 65536") (simp_all add: le_div_geq le_mod_geq)

lemma FOLD_once: "unat u \<le> 131070 \<Longrightarrow> unat (FOLD_U32T u) \<le> 65535"
  by (simp add: unat_FOLD fold_le)

lemma FOLD_twice: "unat (FOLD_U32T (FOLD_U32T u)) = osum (unat u)"
proof -
  have "unat u div 65536 < 65536" using unat_less32 [of u] by (simp add: div_less_iff_less_mult)
  moreover have "unat u mod 65536 < 65536" by simp
  ultimately have "unat (FOLD_U32T u) \<le> 131070" unfolding unat_FOLD by linarith
  then have "unat (FOLD_U32T (FOLD_U32T u)) \<le> 65535" by (rule FOLD_once)
  moreover have "osame (unat (FOLD_U32T (FOLD_U32T u))) (unat u)"
    using FOLD_osame osame_trans by blast
  ultimately show ?thesis using osum_cong osum_small by metis
qed

lemma unat_swap16: "unat (swap16 w) = 256 * (unat w mod 256) + unat w div 256"
proof -
  have "unat (swap16 w) = unat (hi8 w) + 256 * unat (lo8 w)"
    by (subst le16_lo8_hi8 [of w, symmetric]) (simp only: swap16_le16 unat_le16)
  moreover have "unat (lo8 w) = unat w mod 256" by (simp add: lo8_def unat_ucast_mod)
  moreover have "unat w div 256 < 256" using u16_le [of w] by (simp add: div_less_iff_less_mult)
  then have "unat (hi8 w) = unat w div 256" by (simp add: hi8_def unat_ucast_mod unat_drop_bit)
  ultimately show ?thesis by simp
qed

lemma SWAP_swap16: "SWAP_BYTES_IN_WORD w = ucast (swap16 (ucast w))"
proof -
  have m: "(0xff :: u32) = mask 8" "(0xff00 :: u32) = push_bit 8 (mask 8)"
    by (simp_all add: mask_eq_exp_minus_1 push_bit_eq_mult)
  show ?thesis
    unfolding SWAP_BYTES_IN_WORD_def m swap16_def
    by (rule bit_word_eqI) (auto simp: bit_simps)
qed

lemma unat_SWAP:
  "unat w \<le> 65535 \<Longrightarrow> unat (SWAP_BYTES_IN_WORD w) = 256 * (unat w mod 256) + unat w div 256"
  using u16_le [of "swap16 (ucast w)"] unat_swap16 [of "ucast w"]
  by (simp add: SWAP_swap16 unat_ucast_mod)

lemma SWAP_le: "unat (SWAP_BYTES_IN_WORD w) \<le> 65535"
  using u16_le [of "swap16 (ucast w)"] by (simp add: SWAP_swap16 unat_ucast_mod)

lemma SWAP_osame: "unat w \<le> 65535 \<Longrightarrow> osame (unat (SWAP_BYTES_IN_WORD w)) (256 * unat w)"
proof -
  assume w: "unat w \<le> 65535"
  have "256 * unat w = 256 * (256 * (unat w div 256) + unat w mod 256)" by simp
  also have "\<dots> = 65536 * (unat w div 256) + 256 * (unat w mod 256)" by (simp only: algebra_simps)
  finally show ?thesis
    using swap_osame [of "unat w div 256" "256 * (unat w mod 256)", THEN osame_sym] w
    by (simp add: unat_SWAP add.commute)
qed

text \<open>Swapping twice changes nothing but the representative.\<close>

lemma osame_256: "osame (256 * (256 * s)) s"
  using swap_osame [of s 0] by simp

subsection \<open>The sum of one portion of memory\<close>

lemma chksum_words_sum:
  "length bs \<le> 131072 \<Longrightarrow> unat acc + bsum bs < 4294967296 \<Longrightarrow> chksum_words acc bs = (acc', r) \<Longrightarrow>
    unat acc' + bsum r = unat acc + bsum bs \<and> length r \<le> 1"
proof (induction acc bs rule: chksum_words.induct)
  case (1 acc a b ps)
  have w: "unat (le16 a b) + bsum ps = bsum (a # b # ps)" by (simp add: bsum_Cons2 unat_le16)
  have "unat (acc + ucast (le16 a b)) = unat acc + unat (le16 a b)"
    using "1.prems"(2) w u16_le [of "le16 a b"] by (simp add: unat_word_ariths unat_ucast_mod)
  then show ?case using 1 w by simp
qed auto

text \<open>The words, the odd bytes at both ends (\<open>t\<close>, with the first byte \<open>hi\<close> already in it) and the folding.\<close>

lemma chksum_ends:
  assumes l: "length bs \<le> 131072" and s: "bsum bs + 256 * unat hi < 4294967296"
    and w: "chksum_words 0 bs = (acc, ps)"
  shows "unat (FOLD_U32T (FOLD_U32T (acc + ucast (case ps of b # _ \<Rightarrow> le16 b (hi8 (le16 0 hi)) | [] \<Rightarrow> le16 0 hi))))
    = osum (bsum bs + 256 * unat hi)" (is "unat (FOLD_U32T (FOLD_U32T (acc + ucast ?t))) = _")
proof -
  have e: "unat acc + bsum ps = bsum bs" "length ps \<le> 1"
    using chksum_words_sum [OF l _ w] s by simp_all
  then have "unat ?t = bsum ps + 256 * unat hi" by (cases ps) (auto simp: unat_le16)
  then have "unat (acc + ucast ?t) = bsum bs + 256 * unat hi"
    using e s u16_le [of ?t] by (simp add: unat_word_ariths unat_ucast_mod)
  then show ?thesis by (simp only: FOLD_twice)
qed

lemma unat_ucast_osum: "unat w = osum n \<Longrightarrow> unat (ucast (w :: u32) :: u16) = osum n"
  using osum_le [of n] by (simp add: unat_ucast_mod)

lemma bsum_room: "length bs \<le> 131072 \<Longrightarrow> bsum bs + 65280 < 4294967296"
proof -
  assume "length bs \<le> 131072"
  then have "(length bs + 1) div 2 \<le> 65536" by linarith
  then have "65535 * ((length bs + 1) div 2) \<le> 65535 * 65536" by simp
  then show ?thesis using bsum_le [of bs] by linarith
qed

lemma lwip_standard_chksum_osum:
  assumes l: "length bs \<le> 131072"
  shows "unat (lwip_standard_chksum p bs) = osum (bsum bs)"
proof (cases "p AND 1 \<noteq> 0 \<and> bs \<noteq> []")
  case False
  obtain acc ps where w: "chksum_words 0 bs = (acc, ps)" by fastforce
  have z: "le16 0 0 = 0" by (simp add: le16_def)
  have "unat (FOLD_U32T (FOLD_U32T (acc + ucast (case ps of b # _ \<Rightarrow> le16 b (hi8 0) | [] \<Rightarrow> 0)))) = osum (bsum bs)"
    using chksum_ends [OF l _ w, of 0] bsum_room [OF l] unfolding z by simp
  from unat_ucast_osum [OF this] show ?thesis
    using False w by (cases bs) (auto simp: lwip_standard_chksum_def Let_def SWAP_swap16 swap16_def FOLD_U32T_def)
next
  case True
  then obtain b r where bs: "bs = b # r" by (cases bs) auto
  obtain acc ps where w: "chksum_words 0 r = (acc, ps)" by fastforce
  define f where "f = FOLD_U32T (FOLD_U32T (acc + ucast (case ps of c # _ \<Rightarrow> le16 c (hi8 (le16 0 b)) | [] \<Rightarrow> le16 0 b)))"
  have f: "unat f = osum (bsum r + 256 * unat b)"
    unfolding f_def using chksum_ends [OF _ _ w, of b] bsum_room [of r] l u8_le [of b] by (simp add: bs)
  have "unat (lwip_standard_chksum p bs) = unat (SWAP_BYTES_IN_WORD f)"
    using True w SWAP_le [of f] by (simp add: lwip_standard_chksum_def bs Let_def f_def unat_ucast_mod)
  moreover have "osame (unat (SWAP_BYTES_IN_WORD f)) (bsum bs)"
  proof -
    have "osame (unat (SWAP_BYTES_IN_WORD f)) (256 * unat f)"
      using f osum_le by (intro SWAP_osame) simp
    also have "osame \<dots> (256 * (bsum r + 256 * unat b))"
      unfolding f by (rule osame_mult [OF osum_osame])
    also have "osame \<dots> (unat b + 256 * bsum r)"
      using swap_osame [of "unat b" "256 * bsum r"] by (simp add: algebra_simps)
    also have "osame \<dots> (bsum bs)" unfolding bs by (rule osame_sym [OF bsum_byte])
    finally show ?thesis .
  qed
  ultimately show ?thesis using SWAP_le [of f] osum_cong osum_small by metis
qed

lemma word_of_nat_unat: "word_of_nat (unat w) = w"
  by simp

lemma lwip_chksum_rfc1071: "length bs \<le> 131072 \<Longrightarrow> inet_chksum p bs = rfc1071 bs"
proof -
  assume "length bs \<le> 131072"
  from lwip_standard_chksum_osum [OF this, of p] have "lwip_standard_chksum p bs = word_of_nat (osum (bsum bs))"
    by (metis word_of_nat_unat)
  then show ?thesis by (simp add: inet_chksum_def rfc1071_osum)
qed

text \<open>The routine is one more instance of the contract, at every address.\<close>

interpretation lwip_checksum: inet_checksum "inet_chksum p" for p
  by unfold_locales (simp add: lwip_chksum_rfc1071)

subsection \<open>Chains\<close>

lemma osame_le: "a \<le> 65535 \<Longrightarrow> osame a b \<Longrightarrow> a = osum b"
  using osum_cong osum_small by metis

text \<open>What the loop keeps: the sum of the bytes so far, swapped when their number is odd.\<close>

definition chain_inv :: "bytes \<Rightarrow> u32 \<times> bool \<Rightarrow> bool" where
  "chain_inv bs s \<longleftrightarrow> unat (fst s) \<le> 65535 \<and> snd s = odd (length bs)
     \<and> osame (unat (fst s)) ((if snd s then 256 else 1) * bsum bs)"

lemma chain_add:
  assumes "osame a ((if odd (length bs) then 256 else 1) * bsum bs)"
  shows "osame (a + bsum c) ((if odd (length bs) then 256 else 1) * bsum (bs @ c))"
proof (cases "odd (length bs)")
  case True
  have "osame (a + bsum c) (256 * bsum bs + 65536 * bsum c)"
    using assms osame_256 [of "bsum c", THEN osame_sym] True by (intro osame_add) simp_all
  also have "\<dots> = 256 * (bsum bs + 256 * bsum c)" by simp
  also have "osame \<dots> (256 * bsum (bs @ c))"
    using bsum_append [of bs c, THEN osame_sym] True by (intro osame_mult) simp
  finally show ?thesis using True by simp
next
  case False
  have "osame (a + bsum c) (bsum bs + bsum c)" using assms False by (intro osame_add) simp_all
  also have "osame \<dots> (bsum (bs @ c))" using bsum_append [of bs c, THEN osame_sym] False by simp
  finally show ?thesis using False by simp
qed

lemma chksum_chunk_inv:
  assumes i: "chain_inv bs s" and l: "length c \<le> 131072" and p: "even n = even (length c)"
  shows "chain_inv (bs @ c) (chksum_chunk p c n s)"
proof -
  obtain acc swapped where s: "s = (acc, swapped)" by (cases s)
  define k where "k = (if odd (length bs) then 256 else 1 :: nat)"
  define f where "f = FOLD_U32T (acc + ucast (lwip_standard_chksum p c))"
  have a: "unat acc \<le> 65535" "swapped = odd (length bs)" "osame (unat acc) (k * bsum bs)"
    using i by (auto simp: s chain_inv_def k_def)
  have add: "unat (acc + ucast (lwip_standard_chksum p c)) = unat acc + osum (bsum c)"
    using a(1) osum_le [of "bsum c"] lwip_standard_chksum_osum [OF l, of p]
    by (simp add: unat_word_ariths unat_ucast_mod)
  then have le: "unat f \<le> 65535" using a(1) osum_le [of "bsum c"] by (simp add: f_def FOLD_once)
  have "osame (unat f) (unat acc + osum (bsum c))" unfolding f_def add [symmetric] by (rule FOLD_osame)
  also have "osame \<dots> (unat acc + bsum c)" by (rule osame_add [OF osame_refl osum_osame])
  also have "osame \<dots> (k * bsum (bs @ c))" using chain_add a(3) unfolding k_def by blast
  finally have f: "osame (unat f) (k * bsum (bs @ c))" .
  have m: "n mod 2 \<noteq> 0 \<longleftrightarrow> odd (length c)" using p by (simp add: even_iff_mod_2_eq_zero)
  show ?thesis
  proof (cases "even (length c)")
    case True
    then show ?thesis using f le a(2) m
      by (simp add: chksum_chunk_def s Let_def f_def [symmetric] chain_inv_def k_def)
  next
    case False
    have "osame (unat (SWAP_BYTES_IN_WORD f)) (256 * unat f)" by (rule SWAP_osame [OF le])
    also have "osame \<dots> (256 * (k * bsum (bs @ c)))" by (rule osame_mult [OF f])
    also have "osame \<dots> ((if odd (length bs) then 1 else 256) * bsum (bs @ c))"
      using osame_256 [of "bsum (bs @ c)"] by (simp add: k_def)
    finally show ?thesis using SWAP_le [of f] a(2) m False
      by (auto simp: chksum_chunk_def s Let_def f_def [symmetric] chain_inv_def)
  qed
qed

lemma unswap_inv: "chain_inv bs s \<Longrightarrow> unat (unswap s) = osum (bsum bs)"
proof -
  assume i: "chain_inv bs s"
  have "osame (unat (unswap s)) (bsum bs)"
  proof (cases "snd s")
    case True
    then have "osame (unat (unswap s)) (256 * (256 * bsum bs))"
      using i SWAP_osame [of "fst s"] osame_mult osame_trans
      by (fastforce simp: unswap_def chain_inv_def)
    then show ?thesis using osame_256 osame_trans by blast
  qed (use i in \<open>simp add: unswap_def chain_inv_def\<close>)
  moreover have "unat (unswap s) \<le> 65535" using i SWAP_le by (simp add: unswap_def chain_inv_def)
  ultimately show ?thesis using osame_le by blast
qed

lemma chain_inv_start: "chain_inv [] (0, False)"
  by (simp add: chain_inv_def)

definition chunks_ok :: "chunk list \<Rightarrow> bool" where
  "chunks_ok qs \<longleftrightarrow> (\<forall>q \<in> set qs. length (chunk_data q) < 65536)"

lemma chksum_chain_inv:
  "chain_inv bs s \<Longrightarrow> chunks_ok qs \<Longrightarrow> chain_inv (bs @ concat (map chunk_data qs)) (chksum_chain qs s)"
proof (induction qs arbitrary: bs s)
  case (Cons q qs)
  then have "chain_inv (bs @ chunk_data q) (chksum_chunk (chunk_at q) (chunk_data q) (length (chunk_data q)) s)"
    by (intro chksum_chunk_inv) (auto simp: chunks_ok_def)
  from Cons.IH [OF this] Cons.prems(2) show ?case by (simp add: chunks_ok_def)
qed simp

lemma mask16: "(0xffff :: u32) = mask 16"
  by (simp add: mask_eq_exp_minus_1)

lemma not_and_16: "ucast (NOT (w AND 0xffff) :: u32) = (NOT (ucast w) :: u16)"
  unfolding mask16 by (rule bit_word_eqI) (auto simp: bit_simps)

lemma rfc1071_unat: "unat w = osum (bsum bs) \<Longrightarrow> ucast (NOT (w AND 0xffff) :: u32) = rfc1071 bs"
proof -
  assume "unat w = osum (bsum bs)"
  then have "unat (ucast w :: u16) = osum (bsum bs)" by (rule unat_ucast_osum)
  then have "(ucast w :: u16) = word_of_nat (osum (bsum bs))" by (metis word_of_nat_unat)
  then show ?thesis by (simp only: not_and_16 rfc1071_osum)
qed

lemma inet_chksum_pbuf_rfc1071: "chunks_ok p \<Longrightarrow> inet_chksum_pbuf p = rfc1071 (concat (map chunk_data p))"
  using unswap_inv [OF chksum_chain_inv [OF chain_inv_start]] unfolding inet_chksum_pbuf_def
  by (intro rfc1071_unat) simp

text \<open>The pseudo header of TCP and UDP: the addresses in the order in which they lie in memory, a zero,
  the protocol and the length, high byte first.\<close>

definition pseudo_header :: "u32 \<Rightarrow> u32 \<Rightarrow> u8 \<Rightarrow> u16 \<Rightarrow> bytes" where
  "pseudo_header src dest proto proto_len =
     le32_bytes src @ le32_bytes dest @ [0, proto, hi8 proto_len, lo8 proto_len]"

lemma bsum_le32_bytes: "bsum (le32_bytes w @ r) = unat (w AND 0xffff) + unat (drop_bit 16 w AND 0xffff) + bsum r"
proof -
  have "le16 (ucast w) (ucast (drop_bit 8 w)) = ucast (w AND 0xffff)"
    "le16 (ucast (drop_bit 16 w)) (ucast (drop_bit 24 w)) = ucast (drop_bit 16 w AND 0xffff)"
    unfolding mask16 le16_def by (rule bit_word_eqI; auto simp: bit_simps)+
  moreover have "unat (ucast (v AND 0xffff) :: u16) = unat (v AND 0xffff)" for v :: u32
    unfolding mask16 by (simp add: unat_ucast_mod unat_and_mask)
  ultimately show ?thesis by (simp add: le32_bytes_def bsum_def)
qed

lemma bsum_pseudo_header:
  "bsum (pseudo_header src dest proto proto_len) = unat (src AND 0xffff) + unat (drop_bit 16 src AND 0xffff)
     + unat (dest AND 0xffff) + unat (drop_bit 16 dest AND 0xffff)
     + unat (swap16 (ucast proto)) + unat (swap16 proto_len)"
proof -
  have "ucast proto = le16 proto 0" by (simp add: le16_def)
  then have "swap16 (ucast proto) = le16 0 proto" by (simp add: swap16_le16)
  moreover have "swap16 proto_len = le16 (hi8 proto_len) (lo8 proto_len)"
    by (metis le16_lo8_hi8 swap16_le16)
  ultimately show ?thesis
    unfolding pseudo_header_def bsum_le32_bytes by (simp add: bsum_def)
qed

lemma pseudo_header_sum:
  assumes a: "unat acc = osum (bsum bs)"
  shows "chksum_pseudo_header acc src dest proto proto_len = rfc1071 (pseudo_header src dest proto proto_len @ bs)"
proof -
  have le: "unat (v AND 0xffff) \<le> 65535" for v :: u32
    unfolding mask16 unat_and_mask using mod_less_divisor [of "2 ^ 16" "unat v"] by simp
  define S where "S = acc + (src AND 0xffff) + (drop_bit 16 src AND 0xffff) + (dest AND 0xffff)
    + (drop_bit 16 dest AND 0xffff) + ucast (swap16 (ucast proto)) + ucast (swap16 proto_len)"
  have "unat S = osum (bsum bs) + bsum (pseudo_header src dest proto proto_len)"
    using le [of src] le [of "drop_bit 16 src"] le [of dest] le [of "drop_bit 16 dest"]
      u16_le [of "swap16 (ucast proto)"] u16_le [of "swap16 proto_len"] a osum_le [of "bsum bs"]
    unfolding S_def bsum_pseudo_header
    by (simp add: unat_word_ariths unat_ucast_mod)
  then have "unat (FOLD_U32T (FOLD_U32T S)) = osum (osum (bsum bs) + bsum (pseudo_header src dest proto proto_len))"
    by (simp add: FOLD_twice)
  also have "\<dots> = osum (bsum (pseudo_header src dest proto proto_len @ bs))"
  proof (rule osum_cong)
    have "osame (osum (bsum bs) + bsum (pseudo_header src dest proto proto_len))
        (bsum bs + bsum (pseudo_header src dest proto proto_len))"
      by (rule osame_add [OF osum_osame osame_refl])
    also have "osame \<dots> (bsum (pseudo_header src dest proto proto_len @ bs))"
      using bsum_append [of "pseudo_header src dest proto proto_len" bs, THEN osame_sym]
      by (simp add: pseudo_header_def le32_bytes_def add.commute)
    finally show "osame (osum (bsum bs) + bsum (pseudo_header src dest proto proto_len))
      (bsum (pseudo_header src dest proto proto_len @ bs))" .
  qed
  finally show ?thesis
    unfolding chksum_pseudo_header_def Let_def S_def [symmetric] by (rule rfc1071_unat)
qed

lemma SWAP_SWAP: "unat w \<le> 65535 \<Longrightarrow> SWAP_BYTES_IN_WORD (SWAP_BYTES_IN_WORD w) = w"
proof -
  assume "unat w \<le> 65535"
  then have "unat (ucast (ucast w :: u16) :: u32) = unat w" by (simp add: unat_ucast_mod)
  then have "ucast (ucast w :: u16) = w" by (metis word_of_nat_unat)
  moreover have "ucast (ucast v :: u32) = v" for v :: u16 by (rule bit_word_eqI) (auto simp: bit_simps)
  ultimately show ?thesis by (simp add: SWAP_swap16)
qed

text \<open>The last buffer may be swapped or not, the end undoes it.\<close>

lemma unswap_len:
  assumes "chain_inv bs s" and l: "length c \<le> 131072"
  shows "unswap (chksum_chunk p c n s) = unswap (chksum_chunk p c m s)"
proof -
  define f where "f = FOLD_U32T (fst s + ucast (lwip_standard_chksum p c))"
  have "unat (fst s + ucast (lwip_standard_chksum p c)) \<le> 131070"
    using assms osum_le [of "bsum c"] lwip_standard_chksum_osum [OF l, of p]
    by (simp add: unat_word_ariths unat_ucast_mod chain_inv_def)
  then have "SWAP_BYTES_IN_WORD (SWAP_BYTES_IN_WORD f) = f" by (simp add: f_def FOLD_once SWAP_SWAP)
  then show ?thesis
    by (cases s) (simp add: chksum_chunk_def Let_def unswap_def f_def)
qed

text \<open>The partial sum: the bytes it covers, and when its assertion fails.\<close>

lemma chksum_partial_sum:
  "chain_inv bs s \<Longrightarrow> chunks_ok qs \<Longrightarrow> chksum_partial qs n s = Some s' \<Longrightarrow>
    unat (unswap s') = osum (bsum (bs @ take (unat n) (concat (map chunk_data qs))))"
proof (induction qs arbitrary: bs s n)
  case Nil
  then show ?case by (simp add: unswap_inv)
next
  case (Cons q qs)
  show ?case
  proof (cases "n > 0")
    case False
    then have "n = 0" by (simp add: word_gt_0)
    then show ?thesis using Cons.prems by (simp add: unswap_inv)
  next
    case True
    have l: "length (chunk_data q) < 65536" using Cons.prems by (simp add: chunks_ok_def)
    then have u: "unat (word_of_nat (length (chunk_data q)) :: u16) = length (chunk_data q)"
      by (simp add: unsigned_of_nat take_bit_nat_eq_self)
    show ?thesis
    proof (cases "length (chunk_data q) \<le> unat n")
      case le: True
      then have c: "\<not> word_of_nat (length (chunk_data q)) > n" using u by (simp add: word_less_nat_alt)
      have i: "chain_inv (bs @ chunk_data q) (chksum_chunk (chunk_at q) (chunk_data q) (length (chunk_data q)) s)"
        using Cons.prems(1) l by (intro chksum_chunk_inv) auto
      have n: "unat (n - word_of_nat (length (chunk_data q))) = unat n - length (chunk_data q)"
        using le u by (simp add: unat_sub word_le_nat_alt)
      show ?thesis
        using Cons.IH [OF i] Cons.prems(2,3) True c u n le
        by (auto simp: chunks_ok_def Let_def split: if_splits)
    next
      case gt: False
      then have c: "word_of_nat (length (chunk_data q)) > n" using u by (simp add: word_less_nat_alt)
      define s1 where "s1 = chksum_chunk (chunk_at q) (take (unat n) (chunk_data q)) (length (chunk_data q)) s"
      have "chksum_partial (q # qs) n s = Some s1"
        using True c by (cases qs) (simp_all add: s1_def)
      moreover have "unat (unswap s1) = osum (bsum (bs @ take (unat n) (chunk_data q)))"
      proof -
        have "chain_inv (bs @ take (unat n) (chunk_data q)) (chksum_chunk (chunk_at q) (take (unat n) (chunk_data q)) (unat n) s)"
          using Cons.prems(1) l gt by (intro chksum_chunk_inv) auto
        moreover have "unswap s1 = unswap (chksum_chunk (chunk_at q) (take (unat n) (chunk_data q)) (unat n) s)"
          unfolding s1_def using l by (intro unswap_len [OF Cons.prems(1)]) simp
        ultimately show ?thesis by (simp only: unswap_inv)
      qed
      ultimately show ?thesis using Cons.prems(3) gt by simp
    qed
  qed
qed
lemma chksum_partial_defined:
  "chunks_ok qs \<Longrightarrow> unat n < 32767 \<Longrightarrow> chksum_partial qs n s \<noteq> None"
proof (induction qs arbitrary: s n)
  case (Cons q qs)
  define k where "k = (if word_of_nat (length (chunk_data q)) > n then n else word_of_nat (length (chunk_data q)) :: u16)"
  have "k \<le> n" by (simp add: k_def not_less)
  then have "unat (n - k) < 32767" using Cons.prems(2) by (simp add: unat_sub word_le_nat_alt)
  then have "n - k < 0x7fff" by (simp add: word_less_nat_alt)
  moreover have "chksum_partial (q # qs) n s = (if n > 0 then (if n - k < 0x7fff
      then chksum_partial qs (n - k) (chksum_chunk (chunk_at q) (take (unat k) (chunk_data q)) (length (chunk_data q)) s)
      else None) else Some s)"
    by (simp only: chksum_partial.simps Let_def k_def)
  moreover have "chksum_partial qs (n - k) s' \<noteq> None" for s'
    using Cons.IH \<open>unat (n - k) < 32767\<close> Cons.prems(1) by (simp add: chunks_ok_def)
  ultimately show ?case by (simp del: chksum_partial.simps not_None_eq)
qed simp

text \<open>
  C19: the checksums of lwIP are those of RFC 1071 over the bytes in their order, for every address,
  however the data is cut into buffers: of one portion of memory, of a chain, of a chain behind the
  pseudo header of UDP and TCP, and of the covered part of a chain behind it, which is defined when
  it is shorter than 32767 bytes.
\<close>

theorem lwip_checksums_are_rfc1071:
  assumes "chunks_ok p"
  shows "(\<forall>a bs. length bs \<le> 131072 \<longrightarrow> inet_chksum a bs = rfc1071 bs)
    \<and> inet_chksum_pbuf p = rfc1071 (concat (map chunk_data p))
    \<and> inet_chksum_pseudo p src dest proto proto_len
        = rfc1071 (pseudo_header src dest proto proto_len @ concat (map chunk_data p))
    \<and> (\<forall>n r. inet_chksum_pseudo_partial p src dest proto proto_len n = Some r \<longrightarrow>
        r = rfc1071 (pseudo_header src dest proto proto_len @ take (unat n) (concat (map chunk_data p))))
    \<and> (\<forall>n. unat n < 32767 \<longrightarrow> inet_chksum_pseudo_partial p src dest proto proto_len n \<noteq> None)"
proof (intro conjI allI impI)
  show "inet_chksum_pseudo p src dest proto proto_len
      = rfc1071 (pseudo_header src dest proto proto_len @ concat (map chunk_data p))"
    unfolding inet_chksum_pseudo_def
    by (rule pseudo_header_sum) (use unswap_inv [OF chksum_chain_inv [OF chain_inv_start assms]] in simp)
  show "r = rfc1071 (pseudo_header src dest proto proto_len @ take (unat n) (concat (map chunk_data p)))"
    if "inet_chksum_pseudo_partial p src dest proto proto_len n = Some r" for n r
    using that chksum_partial_sum [OF chain_inv_start assms]
    by (auto simp: inet_chksum_pseudo_partial_def pseudo_header_sum)
  show "inet_chksum_pseudo_partial p src dest proto proto_len n \<noteq> None" if "unat n < 32767" for n
    using chksum_partial_defined [OF assms that] by (simp add: inet_chksum_pseudo_partial_def)
qed (simp_all add: lwip_chksum_rfc1071 inet_chksum_pbuf_rfc1071 assms)

theorem lwip_checksums_are_rfc1071_witness:
  "inet_chksum_pbuf [\<lparr>chunk_at = 0x1001, chunk_data = [0x45, 0x00, 0x12]\<rparr>, \<lparr>chunk_at = 0x2000, chunk_data = [0x34]\<rparr>]
    = rfc1071 [0x45, 0x00, 0x12, 0x34]"
proof -
  have "chunks_ok [\<lparr>chunk_at = 0x1001, chunk_data = [0x45, 0x00, 0x12]\<rparr>, \<lparr>chunk_at = 0x2000, chunk_data = [0x34]\<rparr>]"
    by (simp add: chunks_ok_def)
  from lwip_checksums_are_rfc1071 [OF this] show ?thesis by simp
qed

end
