(* ===== verification/Pbuf.thy ===== *)
theory Pbuf imports Lwip_Err begin

section \<open>Packet buffers of lwIP (\<open>lib/lwip/lib/contrib/src/core/pbuf.c\<close>): the code\<close>

text \<open>
  A packet is a chain of \<open>struct pbuf\<close>s in the heap, each with a window on a block of memory. The heap
  maps addresses to pbufs and to blocks; the block of a pbuf of type \<open>PBUF_RAM\<close> or \<open>PBUF_POOL\<close> is the
  memory behind its own structure and has its address, and \<open>payload\<close> is a block and an offset into it.
  \<open>malloc\<close> is a parameter (the stack is built with \<open>MEM_LIBC_MALLOC\<close> and \<open>MEMP_MEM_MALLOC\<close>): for a size
  it yields an address and what the memory behind the structure contains; the outcome of posting a
  callback to the stack's thread is another. \<open>None\<close> is an access outside
  of the heap or a failed assertion; \<open>LWIP_ERROR\<close> prints and calls \<open>abort\<close> as \<open>LWIP_ASSERT\<close> does in this
  build. Invariants and theorems are in theory \<open>Pbuf_Inv\<close>.
\<close>

subsection \<open>Structures\<close>

datatype pbuf_layer = PBUF_TRANSPORT | PBUF_IP | PBUF_LINK | PBUF_RAW

datatype pbuf_type = PBUF_RAM | PBUF_ROM | PBUF_REF | PBUF_POOL

record pbuf =
  nxt :: "nat option"             \<comment> \<open>\<open>next\<close>\<close>
  payload :: "(nat \<times> int) option"
  tot_len :: u16
  len :: u16
  ptype :: pbuf_type              \<comment> \<open>\<open>type\<close>\<close>
  flags :: u8
  ref :: u16

record heap =
  pbufs :: "nat \<Rightarrow> pbuf option"
  blocks :: "nat \<Rightarrow> bytes option"
  ooseq_queued :: bool            \<comment> \<open>\<open>pbuf_free_ooseq_queued\<close>\<close>
  ooseq_posted :: nat             \<comment> \<open>calls of \<open>pbuf_free_ooseq\<close> posted to the stack's thread\<close>

record pbuf_env =
  malloc :: "heap \<Rightarrow> nat \<Rightarrow> (nat \<times> bytes) option"
  callback_ok :: bool             \<comment> \<open>whether \<open>tcpip_callback_with_block\<close> succeeds\<close>

definition SIZEOF_STRUCT_PBUF :: nat where "SIZEOF_STRUCT_PBUF = 16"
definition LWIP_MEM_ALIGN_SIZE :: "nat \<Rightarrow> nat" where "LWIP_MEM_ALIGN_SIZE n = (n + 3) div 4 * 4"
definition TCP_MSS :: nat where "TCP_MSS = 128"
definition PBUF_TRANSPORT_HLEN :: nat where "PBUF_TRANSPORT_HLEN = 20"
definition PBUF_IP_HLEN :: nat where "PBUF_IP_HLEN = 20"
definition PBUF_LINK_HLEN :: nat where "PBUF_LINK_HLEN = 14"
definition PBUF_POOL_BUFSIZE :: nat where "PBUF_POOL_BUFSIZE = LWIP_MEM_ALIGN_SIZE (TCP_MSS + 40 + PBUF_LINK_HLEN)"

definition PBUF_POOL_BUFSIZE_ALIGNED :: nat where
  "PBUF_POOL_BUFSIZE_ALIGNED = LWIP_MEM_ALIGN_SIZE PBUF_POOL_BUFSIZE"

subsection \<open>Access to the heap\<close>

definition upd_pbuf :: "nat \<Rightarrow> (pbuf \<Rightarrow> pbuf) \<Rightarrow> heap \<Rightarrow> heap" where
  "upd_pbuf a f h = h\<lparr>pbufs := (pbufs h)(a := map_option f (pbufs h a))\<rparr>"

definition new_pbuf :: "nat \<Rightarrow> pbuf \<Rightarrow> bytes \<Rightarrow> heap \<Rightarrow> heap" where
  "new_pbuf a b m h = h\<lparr>pbufs := (pbufs h)(a \<mapsto> b), blocks := (blocks h)(a \<mapsto> m)\<rparr>"

definition dealloc :: "nat \<Rightarrow> heap \<Rightarrow> heap" where
  "dealloc a h = h\<lparr>pbufs := (pbufs h)(a := None), blocks := (blocks h)(a := None)\<rparr>"

text \<open>\<open>n\<close> bytes behind the payload pointer.\<close>

definition peek :: "heap \<Rightarrow> pbuf \<Rightarrow> nat \<Rightarrow> nat \<Rightarrow> bytes option" where
  "peek h b off n = do {
     (r, i) \<leftarrow> payload b;
     m \<leftarrow> blocks h r;
     (if i < 0 then None else rdn m (nat i + off) n)
   }"

definition poke :: "heap \<Rightarrow> pbuf \<Rightarrow> nat \<Rightarrow> bytes \<Rightarrow> heap option" where
  "poke h b off bs = do {
     (r, i) \<leftarrow> payload b;
     m \<leftarrow> blocks h r;
     m \<leftarrow> (if i < 0 then None else wrn m (nat i + off) bs);
     Some (h\<lparr>blocks := (blocks h)(r \<mapsto> m)\<rparr>)
   }"

text \<open>\<open>MEMCPY\<close> from one payload to another, which must not overlap.\<close>

definition overlap :: "pbuf \<Rightarrow> nat \<Rightarrow> pbuf \<Rightarrow> nat \<Rightarrow> nat \<Rightarrow> bool" where
  "overlap b off c offc n \<longleftrightarrow> (case (payload b, payload c) of
       (Some (r, i), Some (s, j)) \<Rightarrow> r = s \<and> i + int off < j + int offc + int n \<and> j + int offc < i + int off + int n
     | _ \<Rightarrow> False)"

definition copy_bytes :: "pbuf \<Rightarrow> nat \<Rightarrow> pbuf \<Rightarrow> nat \<Rightarrow> nat \<Rightarrow> heap \<Rightarrow> heap option" where
  "copy_bytes b off c offc n h =
     (if overlap b off c offc n then None else do { bs \<leftarrow> peek h c offc n; poke h b off bs })"

subsection \<open>References\<close>

partial_function (option) pbuf_free_loop :: "nat option \<Rightarrow> u8 \<Rightarrow> heap \<Rightarrow> (u8 \<times> heap) option" where
  "pbuf_free_loop p count h = (case p of
       None \<Rightarrow> Some (count, h)
     | Some a \<Rightarrow> do {
         b \<leftarrow> pbufs h a;
         (if ref b > 0 then
            (let r = ref b - 1;
                 h = upd_pbuf a (\<lambda>b. b\<lparr>ref := r\<rparr>) h
             in if r = 0 then pbuf_free_loop (nxt b) (count + 1) (dealloc a h)
                else Some (count, h))
          else None)
       })"

definition pbuf_free :: "nat option \<Rightarrow> heap \<Rightarrow> (u8 \<times> heap) option" where
  "pbuf_free p h = (if p = None then None else pbuf_free_loop p 0 h)"

partial_function (option) pbuf_clen_loop :: "nat option \<Rightarrow> u8 \<Rightarrow> heap \<Rightarrow> u8 option" where
  "pbuf_clen_loop p n h = (case p of
       None \<Rightarrow> Some n
     | Some a \<Rightarrow> do { b \<leftarrow> pbufs h a; pbuf_clen_loop (nxt b) (n + 1) h })"

definition pbuf_clen :: "nat option \<Rightarrow> heap \<Rightarrow> u8 option" where
  "pbuf_clen p h = pbuf_clen_loop p 0 h"

definition pbuf_ref :: "nat option \<Rightarrow> heap \<Rightarrow> heap option" where
  "pbuf_ref p h = (case p of
       None \<Rightarrow> Some h
     | Some a \<Rightarrow> do { _ \<leftarrow> pbufs h a; Some (upd_pbuf a (\<lambda>b. b\<lparr>ref := ref b + 1\<rparr>) h) })"

subsection \<open>Allocation\<close>

fun layer_offset :: "pbuf_layer \<Rightarrow> nat" where
  "layer_offset PBUF_TRANSPORT = PBUF_TRANSPORT_HLEN + PBUF_IP_HLEN + PBUF_LINK_HLEN"
| "layer_offset PBUF_IP = PBUF_IP_HLEN + PBUF_LINK_HLEN"
| "layer_offset PBUF_LINK = PBUF_LINK_HLEN"
| "layer_offset PBUF_RAW = 0"

text \<open>When the pool is empty the stack's thread is asked to drop segments that TCP keeps out of sequence.
  \<open>pcbs\<close> are the connections with the pbufs of those segments.\<close>

definition pbuf_pool_is_empty :: "pbuf_env \<Rightarrow> heap \<Rightarrow> heap" where
  "pbuf_pool_is_empty M h =
     (let queued = ooseq_queued h;
          h = h\<lparr>ooseq_queued := True\<rparr>
      in if \<not> queued then
           (if callback_ok M then h\<lparr>ooseq_posted := ooseq_posted h + 1\<rparr> else h\<lparr>ooseq_queued := False\<rparr>)
         else h)"

definition tcp_seg_free :: "nat option \<Rightarrow> heap \<Rightarrow> heap option" where
  "tcp_seg_free p h = (case p of None \<Rightarrow> Some h | Some a \<Rightarrow> map_option snd (pbuf_free (Some a) h))"

fun tcp_segs_free :: "nat option list \<Rightarrow> heap \<Rightarrow> heap option" where
  "tcp_segs_free [] h = Some h"
| "tcp_segs_free (p # segs) h = do { h \<leftarrow> tcp_seg_free p h; tcp_segs_free segs h }"

fun free_ooseq :: "nat option list list \<Rightarrow> heap \<Rightarrow> (nat option list list \<times> heap) option" where
  "free_ooseq [] h = Some ([], h)"
| "free_ooseq (segs # pcbs) h =
     (if segs \<noteq> [] then do { h \<leftarrow> tcp_segs_free segs h; Some ([] # pcbs, h) }
      else do { (pcbs, h) \<leftarrow> free_ooseq pcbs h; Some (segs # pcbs, h) })"

definition pbuf_free_ooseq :: "nat option list list \<Rightarrow> heap \<Rightarrow> (nat option list list \<times> heap) option" where
  "pbuf_free_ooseq pcbs h = free_ooseq pcbs (h\<lparr>ooseq_queued := False\<rparr>)"

text \<open>The pool buffers behind the first one: \<open>p\<close> is the head, \<open>r\<close> the last one so far.\<close>

definition pool_size :: nat where
  "pool_size = LWIP_MEM_ALIGN_SIZE SIZEOF_STRUCT_PBUF + LWIP_MEM_ALIGN_SIZE PBUF_POOL_BUFSIZE"

definition pool_len :: "int \<Rightarrow> u16" where
  "pool_len rem_len = min (word_of_int rem_len) (word_of_nat PBUF_POOL_BUFSIZE_ALIGNED)"

lemma pool_len_pos: "0 < rem_len \<Longrightarrow> rem_len < 0xffff \<Longrightarrow> 0 < uint (pool_len rem_len)"
  by (auto simp: pool_len_def min_def PBUF_POOL_BUFSIZE_ALIGNED_def PBUF_POOL_BUFSIZE_def
      LWIP_MEM_ALIGN_SIZE_def TCP_MSS_def PBUF_LINK_HLEN_def unsigned_of_int take_bit_int_eq_self)

function (domintros) pool_tail :: "pbuf_env \<Rightarrow> nat \<Rightarrow> nat \<Rightarrow> int \<Rightarrow> heap \<Rightarrow> (nat option \<times> heap) option" where
  "pool_tail M p r rem_len h =
     (if rem_len > 0 then
        (case malloc M h pool_size of
           None \<Rightarrow> do { (_, h) \<leftarrow> pbuf_free (Some p) (pbuf_pool_is_empty M h); Some (None, h) }
         | Some (q, m) \<Rightarrow>
             if \<not> rem_len < 0xffff then None
             else
               (let h = new_pbuf q \<lparr>nxt = None, payload = Some (q, 0), tot_len = word_of_int rem_len,
                      len = pool_len rem_len, ptype = PBUF_POOL, flags = 0, ref = 1\<rparr> m h;
                    h = upd_pbuf r (\<lambda>b. b\<lparr>nxt := Some q\<rparr>) h
                in pool_tail M p q (rem_len - uint (pool_len rem_len)) h))
      else Some (Some p, h))"
  by auto
termination
  by (relation "measure (\<lambda>(M, p, r, rem_len, h). nat rem_len)") (auto dest: pool_len_pos)

declare pool_tail.simps [simp del]

definition pbuf_alloc :: "pbuf_env \<Rightarrow> pbuf_layer \<Rightarrow> u16 \<Rightarrow> pbuf_type \<Rightarrow> heap \<Rightarrow> (nat option \<times> heap) option" where
  "pbuf_alloc M layer length' type' h =
     (let offset = LWIP_MEM_ALIGN_SIZE (layer_offset layer)
      in (case type' of
            PBUF_POOL \<Rightarrow> (case malloc M h pool_size of
                None \<Rightarrow> Some (None, pbuf_pool_is_empty M h)
              | Some (p, m) \<Rightarrow>
                  (let l = min length' (word_of_nat (PBUF_POOL_BUFSIZE_ALIGNED - offset))
                   in if offset + unat l \<le> PBUF_POOL_BUFSIZE_ALIGNED \<and> PBUF_POOL_BUFSIZE_ALIGNED > offset
                      then pool_tail M p p (uint length' - uint l)
                        (new_pbuf p \<lparr>nxt = None, payload = Some (p, int offset), tot_len = length', len = l,
                           ptype = PBUF_POOL, flags = 0, ref = 1\<rparr> m h)
                      else None))
          | PBUF_RAM \<Rightarrow> (case malloc M h (LWIP_MEM_ALIGN_SIZE (SIZEOF_STRUCT_PBUF + layer_offset layer)
                               + LWIP_MEM_ALIGN_SIZE (unat length')) of
                None \<Rightarrow> Some (None, h)
              | Some (p, m) \<Rightarrow> Some (Some p,
                  new_pbuf p \<lparr>nxt = None, payload = Some (p, int offset), tot_len = length', len = length',
                    ptype = PBUF_RAM, flags = 0, ref = 1\<rparr> m h))
          | _ \<Rightarrow> (case malloc M h (LWIP_MEM_ALIGN_SIZE SIZEOF_STRUCT_PBUF) of
                None \<Rightarrow> Some (None, h)
              | Some (p, m) \<Rightarrow> Some (Some p,
                  new_pbuf p \<lparr>nxt = None, payload = None, tot_len = length', len = length',
                    ptype = type', flags = 0, ref = 1\<rparr> m h))))"

subsection \<open>Changing the length\<close>

text \<open>The loop over the pbufs that are kept; it ends at the new last one.\<close>

partial_function (option) realloc_loop :: "nat \<Rightarrow> u16 \<Rightarrow> int \<Rightarrow> heap \<Rightarrow> (nat \<times> u16 \<times> heap) option" where
  "realloc_loop q rem_len grow h = do {
     b \<leftarrow> pbufs h q;
     (if rem_len > len b then
        do {
          let rem_len = rem_len - len b;
          let h = upd_pbuf q (\<lambda>b. b\<lparr>tot_len := tot_len b + word_of_int grow\<rparr>) h;
          q \<leftarrow> nxt b;
          realloc_loop q rem_len grow h
        }
      else Some (q, rem_len, h))
   }"

text \<open>\<open>mem_trim\<close> does nothing in this build.\<close>

definition pbuf_realloc :: "nat option \<Rightarrow> u16 \<Rightarrow> heap \<Rightarrow> heap option" where
  "pbuf_realloc p new_len h = do {
     p \<leftarrow> p;
     b \<leftarrow> pbufs h p;
     (if new_len \<ge> tot_len b then Some h
      else do {
        (q, rem_len, h) \<leftarrow> realloc_loop p new_len (uint new_len - uint (tot_len b)) h;
        let h = upd_pbuf q (\<lambda>b. b\<lparr>len := rem_len, tot_len := rem_len\<rparr>) h;
        c \<leftarrow> pbufs h q;
        h \<leftarrow> (if nxt c \<noteq> None then map_option snd (pbuf_free (nxt c) h) else Some h);
        _ \<leftarrow> pbufs h q;
        Some (upd_pbuf q (\<lambda>b. b\<lparr>nxt := None\<rparr>) h)
      })
   }"

text \<open>The increment is an \<open>s16_t\<close>, passed as its value; the result is 0 or 1.\<close>

definition pbuf_header :: "nat option \<Rightarrow> int \<Rightarrow> heap \<Rightarrow> (u8 \<times> heap) option" where
  "pbuf_header p header_size_increment h = do {
     p \<leftarrow> p;
     b \<leftarrow> pbufs h p;
     (if header_size_increment = 0 then Some (0, h)
      else if header_size_increment < 0 \<and> \<not> - header_size_increment \<le> uint (len b) then None
      else
        (let moved = upd_pbuf p (\<lambda>b. b\<lparr>payload := map_option (\<lambda>(r, i). (r, i - header_size_increment)) (payload b),
                 len := len b + word_of_int header_size_increment,
                 tot_len := tot_len b + word_of_int header_size_increment\<rparr>) h
         in if ptype b = PBUF_RAM \<or> ptype b = PBUF_POOL then
              (case payload b of
                 None \<Rightarrow> None
               | Some (r, i) \<Rightarrow> if r \<noteq> p then None
                   else if i - header_size_increment < 0 then Some (1, h) else Some (0, moved))
            else if header_size_increment < 0 then Some (0, moved)
            else Some (1, h)))
   }"

subsection \<open>Chains\<close>

partial_function (option) cat_loop :: "nat \<Rightarrow> nat \<Rightarrow> heap \<Rightarrow> heap option" where
  "cat_loop p t h = do {
     b \<leftarrow> pbufs h p;
     c \<leftarrow> pbufs h t;
     (case nxt b of
        Some q \<Rightarrow> cat_loop q t (upd_pbuf p (\<lambda>b. b\<lparr>tot_len := tot_len b + tot_len c\<rparr>) h)
      | None \<Rightarrow>
          (if tot_len b = len b
           then Some (upd_pbuf p (\<lambda>b. b\<lparr>tot_len := tot_len b + tot_len c, nxt := Some t\<rparr>) h)
           else None))
   }"

definition pbuf_cat :: "nat option \<Rightarrow> nat option \<Rightarrow> heap \<Rightarrow> heap option" where
  "pbuf_cat hd' t h = do { p \<leftarrow> hd'; t \<leftarrow> t; cat_loop p t h }"

definition pbuf_chain :: "nat option \<Rightarrow> nat option \<Rightarrow> heap \<Rightarrow> heap option" where
  "pbuf_chain hd' t h = do { h \<leftarrow> pbuf_cat hd' t h; pbuf_ref t h }"

definition pbuf_dechain :: "nat \<Rightarrow> heap \<Rightarrow> (nat option \<times> heap) option" where
  "pbuf_dechain p h = do {
     b \<leftarrow> pbufs h p;
     (case nxt b of
        None \<Rightarrow> if tot_len b = len b then Some (None, h) else None
      | Some q \<Rightarrow> do {
          c \<leftarrow> pbufs h q;
          (if tot_len c \<noteq> tot_len b - len b then None
           else do {
             let h = upd_pbuf q (\<lambda>c. c\<lparr>tot_len := tot_len b - len b\<rparr>) h;
             let h = upd_pbuf p (\<lambda>b. b\<lparr>nxt := None, tot_len := len b\<rparr>) h;
             (tail_gone, h) \<leftarrow> pbuf_free (Some q) h;
             b \<leftarrow> pbufs h p;
             (if tot_len b = len b then Some (if tail_gone > 0 then None else Some q, h) else None)
           })
        })
   }"

subsection \<open>Copying\<close>

text \<open>The test for packet queues at the end of each round.\<close>

definition not_queue :: "nat option \<Rightarrow> heap \<Rightarrow> bool option" where
  "not_queue p h = (case p of
       None \<Rightarrow> Some True
     | Some a \<Rightarrow> do { b \<leftarrow> pbufs h a; Some (len b = tot_len b \<longrightarrow> nxt b = None) })"

partial_function (option) copy_loop :: "nat option \<Rightarrow> u16 \<Rightarrow> nat option \<Rightarrow> u16 \<Rightarrow> heap \<Rightarrow> (err_t \<times> heap) option" where
  "copy_loop p_to offset_to p_from offset_from h = do {
     t \<leftarrow> p_to;
     f \<leftarrow> p_from;
     bt \<leftarrow> pbufs h t;
     bf \<leftarrow> pbufs h f;
     let n = (if uint (len bt) - uint offset_to \<ge> uint (len bf) - uint offset_from
              then len bf - offset_from else len bt - offset_to);
     h \<leftarrow> copy_bytes bt (unat offset_to) bf (unat offset_from) (unat n) h;
     let offset_to = offset_to + n;
     let offset_from = offset_from + n;
     (if \<not> (offset_to \<le> len bt \<and> offset_from \<le> len bf) then None
      else do {
        let (offset_to, p_to) = (if offset_to = len bt then (0, nxt bt) else (offset_to, p_to));
        let (offset_from, p_from) = (if offset_from \<ge> len bf then (0, nxt bf) else (offset_from, p_from));
        okf \<leftarrow> not_queue p_from h;
        okt \<leftarrow> not_queue p_to h;
        (if \<not> okf \<or> \<not> okt then None
         else if p_from = None then Some (ERR_OK, h)
         else copy_loop p_to offset_to p_from offset_from h)
      })
   }"

definition pbuf_copy :: "nat option \<Rightarrow> nat option \<Rightarrow> heap \<Rightarrow> (err_t \<times> heap) option" where
  "pbuf_copy p_to p_from h = do {
     t \<leftarrow> p_to;
     f \<leftarrow> p_from;
     bt \<leftarrow> pbufs h t;
     bf \<leftarrow> pbufs h f;
     (if tot_len bt \<ge> tot_len bf then copy_loop (Some t) 0 (Some f) 0 h else None)
   }"

text \<open>\<open>dst\<close> is the application's buffer.\<close>

partial_function (option) copy_partial_loop ::
  "nat option \<Rightarrow> u16 \<Rightarrow> u16 \<Rightarrow> u16 \<Rightarrow> bytes \<Rightarrow> heap \<Rightarrow> (u16 \<times> bytes) option" where
  "copy_partial_loop p n offset left dst h =
     (case p of
        None \<Rightarrow> Some (left, dst)
      | Some a \<Rightarrow>
          if n = 0 then Some (left, dst)
          else do {
            b \<leftarrow> pbufs h a;
            (if offset \<noteq> 0 \<and> offset \<ge> len b
             then copy_partial_loop (nxt b) n (offset - len b) left dst h
             else do {
               let k = len b - offset;
               let k = (if k > n then n else k);
               bs \<leftarrow> peek h b (unat offset) (unat k);
               dst \<leftarrow> wrn dst (unat left) bs;
               copy_partial_loop (nxt b) (n - k) 0 (left + k) dst h
             })
          })"

definition pbuf_copy_partial :: "nat option \<Rightarrow> bytes \<Rightarrow> u16 \<Rightarrow> u16 \<Rightarrow> heap \<Rightarrow> (u16 \<times> bytes) option" where
  "pbuf_copy_partial buf dataptr n offset h =
     (if buf = None then None else copy_partial_loop buf n offset 0 dataptr h)"

partial_function (option) take_loop :: "nat option \<Rightarrow> u16 \<Rightarrow> u16 \<Rightarrow> bytes \<Rightarrow> heap \<Rightarrow> (u16 \<times> heap) option" where
  "take_loop p total_copy_len copied_total dataptr h =
     (if total_copy_len = 0 then Some (copied_total, h)
      else do {
        a \<leftarrow> p;
        b \<leftarrow> pbufs h a;
        let k = (if total_copy_len > len b then len b else total_copy_len);
        bs \<leftarrow> rdn dataptr (unat copied_total) (unat k);
        h \<leftarrow> poke h b 0 bs;
        take_loop (nxt b) (total_copy_len - k) (copied_total + k) dataptr h
      })"

definition pbuf_take :: "nat option \<Rightarrow> bytes \<Rightarrow> u16 \<Rightarrow> heap \<Rightarrow> (err_t \<times> heap) option" where
  "pbuf_take buf dataptr n h = do {
     a \<leftarrow> buf;
     b \<leftarrow> pbufs h a;
     (if tot_len b < n then Some (ERR_ARG, h)
      else do {
        (copied_total, h) \<leftarrow> take_loop buf n 0 dataptr h;
        (if copied_total = n then Some (ERR_OK, h) else None)
      })
   }"

definition pbuf_coalesce :: "pbuf_env \<Rightarrow> nat \<Rightarrow> pbuf_layer \<Rightarrow> heap \<Rightarrow> (nat \<times> heap) option" where
  "pbuf_coalesce M p layer h = do {
     b \<leftarrow> pbufs h p;
     (if nxt b = None then Some (p, h)
      else do {
        (q, h) \<leftarrow> pbuf_alloc M layer (tot_len b) PBUF_RAM h;
        (case q of
           None \<Rightarrow> Some (p, h)
         | Some q \<Rightarrow> do {
             (err, h) \<leftarrow> pbuf_copy (Some q) (Some p) h;
             (if err \<noteq> ERR_OK then None
              else do { (_, h) \<leftarrow> pbuf_free (Some p) h; Some (q, h) })
           })
      })
   }"

end
