(* ===== verification/Pbuf_Inv.thy ===== *)
theory Pbuf_Inv imports Pbuf begin

section \<open>Packet buffers of lwIP: invariants and theorems\<close>

text \<open>
  What \<open>pbuf.h\<close> and \<open>pbuf.c\<close> say of packet buffers: the reference count of a pbuf is the number of
  pointers to it, those of its users (\<open>ext\<close>) and those in other pbufs; the payload of a pbuf lies in
  its memory; \<open>tot_len\<close> is the length of the rest of the packet. The first part proves how single
  operations act on chains given as lists of addresses, the second that all calls of the interface
  together keep the heap well-formed.
\<close>

subsection \<open>Chains as lists\<close>

definition link :: "heap \<Rightarrow> nat \<Rightarrow> nat option option" where
  "link h a = map_option nxt (pbufs h a)"

primrec path :: "heap \<Rightarrow> nat option \<Rightarrow> nat list \<Rightarrow> bool" where
  "path h p [] \<longleftrightarrow> p = None"
| "path h p (a # as) \<longleftrightarrow> p = Some a \<and> (\<exists>n. link h a = Some n \<and> path h n as)"

lemma path_cong: "(\<And>x. x \<in> set as \<Longrightarrow> link h' x = link h x) \<Longrightarrow> path h' p as = path h p as"
  by (induction as arbitrary: p) auto

lemma path_unique: "path h p as \<Longrightarrow> path h p bs \<Longrightarrow> as = bs"
proof (induction as arbitrary: p bs)
  case Nil
  then show ?case by (cases bs) auto
next
  case (Cons a as)
  then show ?case by (cases bs) auto
qed

lemma path_append: "path h p (as @ bs) \<Longrightarrow> \<exists>q. path h q bs"
  by (induction as arbitrary: p) auto

lemma path_distinct: "path h p as \<Longrightarrow> distinct as"
proof (induction as arbitrary: p)
  case (Cons a as)
  have "a \<notin> set as"
  proof
    assume "a \<in> set as"
    then obtain us vs where as: "as = us @ a # vs" by (meson split_list)
    then obtain q where "path h q (a # vs)" using Cons.prems path_append [of h _ us "a # vs"] by auto
    then have "path h (Some a) (a # vs)" by simp
    from path_unique [OF this, of "a # as"] Cons.prems show False by (simp add: as)
  qed
  then show ?case using Cons by auto
qed simp

lemma path_alloc: "path h p as \<Longrightarrow> a \<in> set as \<Longrightarrow> \<exists>b. pbufs h a = Some b"
  by (induction as arbitrary: p) (auto simp: link_def)

subsection \<open>Reference counts\<close>

text \<open>The pbufs that point to \<open>q\<close>, and the count of \<open>a\<close>.\<close>

definition preds :: "heap \<Rightarrow> nat \<Rightarrow> nat set" where
  "preds h q = {a. link h a = Some (Some q)}"

definition indeg :: "heap \<Rightarrow> nat \<Rightarrow> nat" where
  "indeg h q = card (preds h q)"

definition rc :: "heap \<Rightarrow> nat \<Rightarrow> nat" where
  "rc h a = (case pbufs h a of None \<Rightarrow> 0 | Some b \<Rightarrow> unat (ref b))"

definition refs_ok :: "heap \<Rightarrow> (nat \<Rightarrow> nat) \<Rightarrow> bool" where
  "refs_ok h ext \<longleftrightarrow> finite (dom (pbufs h)) \<and> (\<forall>a. rc h a = ext a + indeg h a)
     \<and> (\<forall>a. pbufs h a \<noteq> None \<longrightarrow> 0 < rc h a)"

definition points :: "nat option option \<Rightarrow> nat \<Rightarrow> nat" where
  "points l q = (if l = Some (Some q) then 1 else 0)"

lemma finite_preds: "finite (dom (pbufs h)) \<Longrightarrow> finite (preds h q)"
  by (rule finite_subset [of _ "dom (pbufs h)"]) (auto simp: preds_def link_def)

lemma indeg_link: "(\<And>x. link h' x = link h x) \<Longrightarrow> indeg h' q = indeg h q"
  by (simp add: indeg_def preds_def)

text \<open>One pbuf changes its pointer.\<close>

lemma indeg_upd:
  assumes f: "finite (dom (pbufs h))" and l: "\<And>x. x \<noteq> a \<Longrightarrow> link h' x = link h x"
  shows "points (link h a) q \<le> indeg h q"
    and "indeg h' q = indeg h q - points (link h a) q + points (link h' a) q"
proof -
  have "preds h' q = (if link h' a = Some (Some q) then insert a (preds h q - {a}) else preds h q - {a})"
    using l by (auto simp: preds_def) metis+
  moreover have "card (preds h q - {a}) = card (preds h q) - points (link h a) q"
    by (cases "link h a = Some (Some q)") (simp_all add: preds_def points_def card_Diff_singleton)
  ultimately show "indeg h' q = indeg h q - points (link h a) q + points (link h' a) q"
    using finite_preds [OF f, of q] card_insert_disjoint [of "preds h q - {a}" a]
    by (simp add: indeg_def points_def del: insert_Diff_single)
  show "points (link h a) q \<le> indeg h q"
  proof (cases "link h a = Some (Some q)")
    case True
    then have "a \<in> preds h q" by (simp add: preds_def)
    then have "0 < card (preds h q)" using finite_preds [OF f, of q] by (auto simp: card_gt_0_iff)
    then show ?thesis by (simp add: points_def indeg_def)
  qed (simp add: points_def)
qed

lemma link_upd_pbuf:
  "link (upd_pbuf a f h) x = (if x = a then map_option (nxt \<circ> f) (pbufs h a) else link h x)"
  by (simp add: link_def upd_pbuf_def option.map_comp)

lemma link_dealloc: "link (dealloc a h) x = (if x = a then None else link h x)"
  by (simp add: link_def dealloc_def)

lemma link_new: "link (new_pbuf a b m h) x = (if x = a then Some (nxt b) else link h x)"
  by (simp add: link_def new_pbuf_def)

lemmas link_simps = link_upd_pbuf link_dealloc link_new

lemma pbufs_upd [simp]: "pbufs (upd_pbuf a f h) x = (if x = a then map_option f (pbufs h a) else pbufs h x)"
  by (simp add: upd_pbuf_def)

lemma blocks_upd [simp]: "blocks (upd_pbuf a f h) = blocks h"
  by (simp add: upd_pbuf_def)

lemma pbufs_dealloc [simp]: "pbufs (dealloc a h) = (pbufs h)(a := None)"
  and blocks_dealloc [simp]: "blocks (dealloc a h) = (blocks h)(a := None)"
  by (simp_all add: dealloc_def)

lemma pbufs_new [simp]: "pbufs (new_pbuf a b m h) = (pbufs h)(a \<mapsto> b)"
  and blocks_new [simp]: "blocks (new_pbuf a b m h) = (blocks h)(a \<mapsto> m)"
  by (simp_all add: new_pbuf_def)

lemma dom_upd_pbuf [simp]: "dom (pbufs (upd_pbuf a f h)) = dom (pbufs h)"
  by (auto simp: upd_pbuf_def dom_def)

lemma dealloc_upd [simp]: "dealloc a (upd_pbuf a f h) = dealloc a h"
  by (simp add: dealloc_def upd_pbuf_def)

text \<open>The two steps of freeing: a last reference goes, or one of several.\<close>

definition plus_ref :: "nat option \<Rightarrow> (nat \<Rightarrow> nat) \<Rightarrow> nat \<Rightarrow> nat" where
  "plus_ref p ext x = (if p = Some x then ext x + 1 else ext x)"

lemma plus_ref_None [simp]: "plus_ref None ext = ext"
  by (simp add: plus_ref_def fun_eq_iff)

lemma refs_dealloc:
  assumes r: "refs_ok h ext" and b: "pbufs h a = Some b" "ref b = 1" and e: "0 < ext a"
  shows "refs_ok (dealloc a h) (plus_ref (nxt b) (ext(a := ext a - 1)))" and "nxt b \<noteq> Some a"
proof -
  have f: "finite (dom (pbufs h))" using r by (simp add: refs_ok_def)
  have la: "link h a = Some (nxt b)" using b by (simp add: link_def)
  have "rc h a = 1" using b by (simp add: rc_def)
  then have i0: "ext a = 1" "indeg h a = 0" using r e by (auto simp: refs_ok_def)
  then have na: "nxt b \<noteq> Some a" using indeg_upd(1) [OF f, of a h a] la by (auto simp: points_def)
  then show "nxt b \<noteq> Some a" .
  have i: "indeg (dealloc a h) q = indeg h q - points (link h a) q" for q
    using indeg_upd(2) [OF f, of a "dealloc a h" q] by (simp add: link_dealloc points_def)
  have "rc (dealloc a h) q = plus_ref (nxt b) (ext(a := ext a - 1)) q + indeg (dealloc a h) q" for q
  proof (cases "q = a")
    case True
    then show ?thesis using na i0 i [of a] by (simp add: rc_def plus_ref_def)
  next
    case False
    then have "rc (dealloc a h) q = ext q + indeg h q" using r by (auto simp: rc_def refs_ok_def)
    then show ?thesis using indeg_upd(1) [OF f, of a h q] False i [of q] la
      by (auto simp: plus_ref_def points_def)
  qed
  moreover have "finite (dom (pbufs (dealloc a h)))" using f by simp
  moreover have "0 < rc (dealloc a h) q" if "pbufs (dealloc a h) q \<noteq> None" for q
    using r that by (auto simp: refs_ok_def rc_def split: if_splits)
  ultimately show "refs_ok (dealloc a h) (plus_ref (nxt b) (ext(a := ext a - 1)))" by (simp add: refs_ok_def)
qed

lemma unat_eq_1: "unat (w :: 'a::len word) = Suc 0 \<longleftrightarrow> w = 1" and unat_eq_0': "unat (w :: 'a word) = 0 \<longleftrightarrow> w = 0"
  by (metis One_nat_def unsigned_1 unsigned_word_eqI, metis unsigned_0 unsigned_word_eqI)

lemma refs_decr:
  assumes r: "refs_ok h ext" and b: "pbufs h a = Some b" "ref b \<noteq> 1" and e: "0 < ext a"
  shows "refs_ok (upd_pbuf a (\<lambda>b. b\<lparr>ref := ref b - 1\<rparr>) h) (ext(a := ext a - 1))" (is "refs_ok ?h _")
proof -
  have n0: "ref b \<noteq> 0" using r b(1) by (auto simp: refs_ok_def rc_def)
  then have u: "unat (ref b - 1) = unat (ref b) - 1" using unat_minus_one by blast
  have "unat (ref b) \<noteq> 0" "unat (ref b) \<noteq> 1" using n0 b(2) by (simp_all add: unat_eq_1 unat_eq_0')
  then have "1 < unat (ref b)" by linarith
  moreover have "indeg ?h q = indeg h q" for q
    by (rule indeg_link) (auto simp: link_upd_pbuf link_def b(1))
  ultimately show ?thesis using r b(1) e u
    by (auto simp: refs_ok_def rc_def split: option.splits)
qed

text \<open>Freeing along a chain: every pbuf whose only reference was the one given back goes, the first of
  the others loses a reference.\<close>

fun free_chain :: "nat list \<Rightarrow> heap \<Rightarrow> nat \<times> heap" where
  "free_chain [] h = (0, h)"
| "free_chain (a # as) h =
     (if rc h a = 1 then (let (n, h) = free_chain as (dealloc a h) in (Suc n, h))
      else (0, upd_pbuf a (\<lambda>b. b\<lparr>ref := ref b - 1\<rparr>) h))"

lemma rc_eq_1: "pbufs h a = Some b \<Longrightarrow> rc h a = 1 \<longleftrightarrow> ref b = 1"
  by (simp add: rc_def unat_eq_1)

lemma pbuf_free_loop_chain:
  "path h p ps \<Longrightarrow> \<forall>x \<in> set ps. 0 < rc h x \<Longrightarrow>
    pbuf_free_loop p c h = (let (n, h') = free_chain ps h in Some (c + word_of_nat n, h'))"
proof (induction ps arbitrary: p c h)
  case Nil
  then show ?case by (subst pbuf_free_loop.simps) simp
next
  case (Cons a as)
  then obtain b where b: "p = Some a" "pbufs h a = Some b" "path h (nxt b) as" by (auto simp: link_def)
  have pos: "ref b > 0" using Cons.prems(2) b(2) by (auto simp: rc_def word_gt_0)
  have a: "a \<notin> set as" using path_distinct [OF Cons.prems(1)] by simp
  show ?case
  proof (cases "ref b = 1")
    case True
    have "path (dealloc a h) (nxt b) as"
      by (subst path_cong [of as "dealloc a h" h]) (use b(3) a in \<open>auto simp: link_dealloc\<close>)
    moreover have "\<forall>x \<in> set as. 0 < rc (dealloc a h) x" using Cons.prems(2) a by (auto simp: rc_def)
    ultimately have "pbuf_free_loop (nxt b) (c + 1) (dealloc a h)
        = (let (n, h') = free_chain as (dealloc a h) in Some (c + 1 + word_of_nat n, h'))"
      by (rule Cons.IH)
    then show ?thesis using b True rc_eq_1 [OF b(2)]
      by (subst pbuf_free_loop.simps) (simp add: split_beta add.assoc)
  next
    case False
    then show ?thesis using b pos rc_eq_1 [OF b(2)]
      by (subst pbuf_free_loop.simps) (auto simp: upd_pbuf_def Let_def)
  qed
qed

lemma free_chain_refs:
  "path h (Some a) ps \<Longrightarrow> refs_ok h ext \<Longrightarrow> 0 < ext a \<Longrightarrow> free_chain ps h = (n, h') \<Longrightarrow>
    refs_ok h' (ext(a := ext a - 1))"
proof (induction ps arbitrary: a h ext n)
  case (Cons x as)
  then obtain b where b: "x = a" "pbufs h a = Some b" "path h (nxt b) as" by (auto simp: link_def)
  show ?case
  proof (cases "ref b = 1")
    case False
    then have "h' = upd_pbuf a (\<lambda>b. b\<lparr>ref := ref b - 1\<rparr>) h" using Cons.prems(4) rc_eq_1 [OF b(2)] b(1) by simp
    with refs_decr [OF Cons.prems(2) b(2) False Cons.prems(3)] show ?thesis by (simp only:)
  next
    case True
    note d = refs_dealloc [OF Cons.prems(2) b(2) True Cons.prems(3)]
    obtain m where m: "free_chain as (dealloc a h) = (m, h')" "n = Suc m"
      using Cons.prems(4) True rc_eq_1 [OF b(2)] b(1) by (auto split: prod.splits)
    show ?thesis
    proof (cases "nxt b")
      case None
      then have "as = []" using b(3) by (cases as) auto
      then have "h' = dealloc a h" using m(1) by simp
      then show ?thesis using d(1) None by (simp only: plus_ref_None)
    next
      case (Some q)
      define e1 where "e1 = plus_ref (nxt b) (ext(a := ext a - 1))"
      have "a \<notin> set as" using path_distinct [OF Cons.prems(1)] b(1) by simp
      then have "path (dealloc a h) (Some q) as"
        by (subst path_cong [of as "dealloc a h" h]) (use b(3) Some in \<open>auto simp: link_dealloc\<close>)
      moreover have "refs_ok (dealloc a h) e1" using d(1) by (simp add: e1_def)
      moreover have "0 < e1 q" by (simp add: e1_def plus_ref_def Some)
      ultimately have "refs_ok h' (e1(q := e1 q - 1))" using m(1) by (rule Cons.IH)
      moreover have "e1(q := e1 q - 1) = ext(a := ext a - 1)"
        using d(2) Some by (auto simp: e1_def plus_ref_def fun_eq_iff)
      ultimately show ?thesis by (simp only:)
    qed
  qed
qed simp

text \<open>What freeing leaves alone: nothing but the counts changes in the pbufs that remain.\<close>

definition same_but_ref :: "pbuf \<Rightarrow> pbuf \<Rightarrow> bool" where
  "same_but_ref b c \<longleftrightarrow> b\<lparr>ref := 0\<rparr> = c\<lparr>ref := 0\<rparr>"

definition shrinks :: "heap \<Rightarrow> heap \<Rightarrow> bool" where
  "shrinks h h' \<longleftrightarrow> (\<forall>x c. pbufs h' x = Some c \<longrightarrow> (\<exists>b. pbufs h x = Some b \<and> same_but_ref b c))
     \<and> (\<forall>x. blocks h' x = (if pbufs h x \<noteq> None \<and> pbufs h' x = None then None else blocks h x))"

lemma shrinks_dealloc:
  assumes s: "shrinks (dealloc a h) h'" and b: "pbufs h a = Some b"
  shows "shrinks h h'"
proof -
  have n: "pbufs h' a = None" using s by (auto simp: shrinks_def dest: spec [of _ a])
  have "\<exists>b. pbufs h x = Some b \<and> same_but_ref b c" if "pbufs h' x = Some c" for x c
  proof -
    have "\<exists>b. pbufs (dealloc a h) x = Some b \<and> same_but_ref b c" using s that unfolding shrinks_def by blast
    then show ?thesis by (auto split: if_splits)
  qed
  moreover have "blocks h' x = (if pbufs h x \<noteq> None \<and> pbufs h' x = None then None else blocks h x)" for x
    using s n b by (cases "x = a") (auto simp: shrinks_def)
  ultimately show ?thesis by (simp add: shrinks_def)
qed

lemma free_chain_shrinks: "path h p ps \<Longrightarrow> free_chain ps h = (n, h') \<Longrightarrow> shrinks h h'"
proof (induction ps arbitrary: p h n)
  case Nil
  then show ?case by (auto simp: shrinks_def same_but_ref_def)
next
  case (Cons a as)
  then obtain b where b: "p = Some a" "pbufs h a = Some b" "path h (nxt b) as" by (auto simp: link_def)
  have "a \<notin> set as" using path_distinct [OF Cons.prems(1)] by simp
  then have "path (dealloc a h) (nxt b) as"
    by (subst path_cong [of as "dealloc a h" h]) (use b(3) in \<open>auto simp: link_dealloc\<close>)
  note IH = Cons.IH [OF this]
  show ?case
  proof (cases "rc h a = 1")
    case True
    then obtain m where "free_chain as (dealloc a h) = (m, h')" using Cons.prems(2) by (auto split: prod.splits)
    then show ?thesis by (intro shrinks_dealloc [OF IH b(2)])
  next
    case False
    then have "h' = upd_pbuf a (\<lambda>b. b\<lparr>ref := ref b - 1\<rparr>) h" using Cons.prems(2) by simp
    then show ?thesis by (auto simp: shrinks_def same_but_ref_def)
  qed
qed

subsection \<open>Well-formed heaps\<close>

text \<open>The payload of a pbuf lies in its own memory, or in memory that is no pbuf's.\<close>

definition window :: "heap \<Rightarrow> nat \<Rightarrow> pbuf \<Rightarrow> bool" where
  "window h a b \<longleftrightarrow> (case payload b of
       None \<Rightarrow> ptype b \<in> {PBUF_ROM, PBUF_REF}
     | Some (r, i) \<Rightarrow> (if ptype b \<in> {PBUF_RAM, PBUF_POOL} then r = a else pbufs h r = None)
         \<and> 0 \<le> i \<and> (\<exists>m. blocks h r = Some m \<and> nat i + unat (len b) \<le> length m))"

definition windows_ok :: "heap \<Rightarrow> bool" where
  "windows_ok h \<longleftrightarrow> (\<forall>a b. pbufs h a = Some b \<longrightarrow> window h a b \<and> blocks h a \<noteq> None)"

definition ends_ok :: "heap \<Rightarrow> bool" where
  "ends_ok h \<longleftrightarrow> (\<forall>a b. pbufs h a = Some b \<longrightarrow> (\<exists>ps. path h (Some a) ps))"

definition heap_ok :: "heap \<Rightarrow> (nat \<Rightarrow> nat) \<Rightarrow> bool" where
  "heap_ok h ext \<longleftrightarrow> refs_ok h ext \<and> windows_ok h \<and> ends_ok h"

lemma refs_okI:
  "finite (dom (pbufs h)) \<Longrightarrow> (\<And>x. rc h x = ext x + indeg h x) \<Longrightarrow> (\<And>x. x \<in> dom (pbufs h) \<Longrightarrow> 0 < rc h x) \<Longrightarrow>
    refs_ok h ext"
  unfolding refs_ok_def dom_def by blast

lemma refs_okD:
  assumes "refs_ok h ext"
  shows "finite (dom (pbufs h))" and "rc h x = ext x + indeg h x" and "x \<in> dom (pbufs h) \<Longrightarrow> 0 < rc h x"
  using assms by (auto simp: refs_ok_def)

lemma refs_ok_alloc: "refs_ok h ext \<Longrightarrow> 0 < ext a \<or> (\<exists>x. link h x = Some (Some a)) \<Longrightarrow> \<exists>b. pbufs h a = Some b"
proof -
  assume r: "refs_ok h ext" and o: "0 < ext a \<or> (\<exists>x. link h x = Some (Some a))"
  have "0 < indeg h a" if "link h x = Some (Some a)" for x
  proof -
    have "x \<in> preds h a" using that by (simp add: preds_def)
    then show ?thesis using finite_preds [OF refs_okD(1) [OF r]] by (auto simp: indeg_def card_gt_0_iff)
  qed
  then have "0 < rc h a" using refs_okD(2) [OF r, of a] o by (metis add_gr_0)
  then show ?thesis by (auto simp: rc_def split: option.splits)
qed

lemma shrinks_none: "shrinks h h' \<Longrightarrow> pbufs h x = None \<Longrightarrow> pbufs h' x = None"
  unfolding shrinks_def by (cases "pbufs h' x") (fastforce)+

lemma same_but_ref_fields:
  "same_but_ref b c \<Longrightarrow> nxt c = nxt b \<and> payload c = payload b \<and> ptype c = ptype b \<and> len c = len b \<and> tot_len c = tot_len b"
  by (cases b; cases c) (simp add: same_but_ref_def)

lemma shrinks_refl [simp]: "shrinks h h"
  by (auto simp: shrinks_def same_but_ref_def)

lemma link_shrinks: "shrinks h h' \<Longrightarrow> pbufs h' x = Some c \<Longrightarrow> link h' x = link h x"
proof -
  assume "shrinks h h'" and c: "pbufs h' x = Some c"
  then obtain b where "pbufs h x = Some b" "same_but_ref b c" unfolding shrinks_def by blast
  then show ?thesis using c same_but_ref_fields by (simp add: link_def)
qed

lemma path_shrinks:
  "path h (Some a) ps \<Longrightarrow> shrinks h h' \<Longrightarrow> refs_ok h' ext \<Longrightarrow> pbufs h' a = Some b \<Longrightarrow> path h' (Some a) ps"
proof (induction ps arbitrary: a b)
  case (Cons x ps)
  then obtain n where n: "x = a" "link h a = Some n" "path h n ps" by auto
  have l: "link h' a = Some n" using link_shrinks [OF Cons.prems(2,4)] n(2) by simp
  have "path h' n ps"
  proof (cases n)
    case None
    then show ?thesis using n(3) by (cases ps) auto
  next
    case (Some q)
    then obtain c where "pbufs h' q = Some c" using refs_ok_alloc [OF Cons.prems(3)] l by blast
    then show ?thesis using Cons.IH Cons.prems(2,3) n(3) Some by blast
  qed
  then show ?case using n(1) l by simp
qed simp

lemma windows_shrinks: "windows_ok h \<Longrightarrow> shrinks h h' \<Longrightarrow> windows_ok h'"
  unfolding windows_ok_def
proof (intro allI impI)
  fix a c assume w: "\<forall>a b. pbufs h a = Some b \<longrightarrow> window h a b \<and> blocks h a \<noteq> None" and s: "shrinks h h'" and c: "pbufs h' a = Some c"
  obtain b where b: "pbufs h a = Some b" "same_but_ref b c" using s c unfolding shrinks_def by blast
  then have same: "payload c = payload b" "ptype c = ptype b" "len c = len b"
    using same_but_ref_fields by blast+
  have a: "blocks h' a = blocks h a" using s b c by (simp add: shrinks_def)
  have x: "pbufs h' r = None \<and> blocks h' r = blocks h r" if "pbufs h r = None" for r
  proof -
    have "pbufs h' r = None" using shrinks_none [OF s that] .
    then show ?thesis using s that by (simp add: shrinks_def)
  qed
  show "window h' a c \<and> blocks h' a \<noteq> None"
  proof
    have wb: "window h a b" "blocks h a \<noteq> None" using w b(1) by blast+
    then show "blocks h' a \<noteq> None" using a by simp
    show "window h' a c"
    proof (cases "payload b")
      case None
      then show ?thesis using wb(1) by (simp add: window_def same)
    next
      case (Some p)
      then show ?thesis using wb(1) a x [of "fst p"]
        by (cases p) (auto simp: window_def same split: if_splits)
    qed
  qed
qed

lemma ends_shrinks: "ends_ok h \<Longrightarrow> shrinks h h' \<Longrightarrow> refs_ok h' ext \<Longrightarrow> ends_ok h'"
  unfolding ends_ok_def using path_shrinks shrinks_none by (metis not_None_eq)

lemma heap_path: "heap_ok h ext \<Longrightarrow> 0 < ext a \<Longrightarrow> \<exists>ps. path h (Some a) ps"
  unfolding heap_ok_def ends_ok_def using refs_ok_alloc by blast

lemma path_counted: "refs_ok h ext \<Longrightarrow> path h p ps \<Longrightarrow> \<forall>x \<in> set ps. 0 < rc h x"
  using path_alloc refs_okD(3) by blast

text \<open>Freeing: one reference goes, and with it the pbufs that nothing refers to any more.\<close>

lemma pbuf_free_ok:
  assumes h: "heap_ok h ext" and e: "0 < ext a" and p: "path h (Some a) ps"
  shows "\<exists>n h'. free_chain ps h = (n, h') \<and> pbuf_free (Some a) h = Some (word_of_nat n, h')
    \<and> heap_ok h' (ext(a := ext a - 1)) \<and> shrinks h h'"
proof -
  obtain n h' where f: "free_chain ps h = (n, h')" by fastforce
  have r: "refs_ok h ext" using h by (simp add: heap_ok_def)
  have "pbuf_free (Some a) h = Some (word_of_nat n, h')"
    using pbuf_free_loop_chain [OF p path_counted [OF r p], of 0] f by (simp add: pbuf_free_def)
  moreover have "refs_ok h' (ext(a := ext a - 1))" by (rule free_chain_refs [OF p r e f])
  moreover have s: "shrinks h h'" by (rule free_chain_shrinks [OF p f])
  ultimately have "heap_ok h' (ext(a := ext a - 1))"
    using h windows_shrinks [OF _ s] ends_shrinks [OF _ s] unfolding heap_ok_def by blast
  with \<open>pbuf_free _ _ = _\<close> s f show ?thesis by blast
qed

subsection \<open>Changing a pointer, adding a pbuf\<close>

text \<open>The last pbuf of a chain gets a successor, which the caller had a reference to.\<close>

lemma refs_append:
  assumes r: "refs_ok h ext" and l: "link h q = Some None" and e: "0 < ext t"
    and f: "\<And>b. ref (f b) = ref b" "\<And>b. nxt (f b) = Some t"
  shows "refs_ok (upd_pbuf q f h) (ext(t := ext t - 1))"
proof -
  have fin: "finite (dom (pbufs h))" using r by (simp add: refs_ok_def)
  have l': "link (upd_pbuf q f h) q = Some (Some t)"
    using l f by (auto simp: link_upd_pbuf link_def)
  have i: "indeg (upd_pbuf q f h) x = indeg h x + (if x = t then 1 else 0)" for x
    using indeg_upd(2) [OF fin, of q "upd_pbuf q f h" x] l unfolding l' by (auto simp: link_upd_pbuf points_def)
  have rc: "rc (upd_pbuf q f h) x = rc h x" for x
    using f by (auto simp: rc_def split: option.splits)
  show ?thesis
  proof (rule refs_okI)
    show "rc (upd_pbuf q f h) x = (ext(t := ext t - 1)) x + indeg (upd_pbuf q f h) x" for x
      using refs_okD(2) [OF r, of x] e by (simp add: rc i)
  qed (use refs_okD [OF r] in \<open>simp_all only: dom_upd_pbuf rc\<close>)
qed

text \<open>A pbuf loses its successor, which then is the caller's.\<close>

lemma refs_unlink:
  assumes r: "refs_ok h ext" and l: "link h q = Some (Some t)"
    and f: "\<And>b. ref (f b) = ref b" "\<And>b. nxt (f b) = None"
  shows "refs_ok (upd_pbuf q f h) (ext(t := ext t + 1))"
proof -
  have fin: "finite (dom (pbufs h))" using r by (simp add: refs_ok_def)
  have l': "link (upd_pbuf q f h) q = Some None"
    using l f by (auto simp: link_upd_pbuf link_def)
  have i: "indeg (upd_pbuf q f h) x + (if x = t then 1 else 0) = indeg h x" for x
    using indeg_upd [OF fin, of q "upd_pbuf q f h" x] l unfolding l' by (auto simp: link_upd_pbuf points_def)
  have rc: "rc (upd_pbuf q f h) x = rc h x" for x
    using f by (auto simp: rc_def split: option.splits)
  show ?thesis
  proof (rule refs_okI)
    show "rc (upd_pbuf q f h) x = (ext(t := ext t + 1)) x + indeg (upd_pbuf q f h) x" for x
      using refs_okD(2) [OF r, of x] i [of x] by (auto simp: rc)
  qed (use refs_okD [OF r] in \<open>simp_all only: dom_upd_pbuf rc\<close>)
qed

lemma refs_new:
  assumes r: "refs_ok h ext" and n: "pbufs h q = None" and b: "ref b = 1" "nxt b = None"
  shows "refs_ok (new_pbuf q b m h) (ext(q := 1))"
proof -
  have fin: "finite (dom (pbufs h))" using r by (simp add: refs_ok_def)
  have i: "indeg (new_pbuf q b m h) x = indeg h x" for x
    using indeg_upd(2) [OF fin, of q "new_pbuf q b m h" x] n b by (simp add: link_new link_def points_def)
  have z: "rc h q = 0" using n by (simp add: rc_def)
  then have "indeg h q = 0" "ext q = 0" using r by (auto simp: refs_ok_def)
  show ?thesis
  proof (rule refs_okI)
    show "rc (new_pbuf q b m h) x = (ext(q := 1)) x + indeg (new_pbuf q b m h) x" for x
      using refs_okD(2) [OF r, of x] b \<open>indeg h q = 0\<close> by (auto simp: rc_def i)
    show "0 < rc (new_pbuf q b m h) x" if "x \<in> dom (pbufs (new_pbuf q b m h))" for x
      using refs_okD(3) [OF r, of x] b that by (auto simp: rc_def)
  qed (use fin in simp)
qed

lemma refs_same:
  assumes "refs_ok h ext" and "\<And>b. ref (f b) = ref b" and "\<And>b. nxt (f b) = nxt b"
  shows "refs_ok (upd_pbuf q f h) ext"
proof -
  have "indeg (upd_pbuf q f h) x = indeg h x" for x
    by (rule indeg_link) (auto simp: link_upd_pbuf link_def option.map_comp comp_def assms(3))
  moreover have "rc (upd_pbuf q f h) x = rc h x" for x
    using assms(2) by (auto simp: rc_def split: option.splits)
  ultimately show ?thesis using refs_okD [OF assms(1)] by (intro refs_okI) (simp_all only: dom_upd_pbuf)
qed

lemma window_upd [simp]: "window (upd_pbuf a f h) x c = window h x c"
proof -
  have "(pbufs (upd_pbuf a f h) r = None) = (pbufs h r = None)" for r by simp
  then show ?thesis unfolding window_def by (simp only: blocks_upd)
qed

lemma windows_upd:
  "windows_ok h \<Longrightarrow> (\<And>b. pbufs h a = Some b \<Longrightarrow> window h a b \<Longrightarrow> window h a (f b)) \<Longrightarrow> windows_ok (upd_pbuf a f h)"
  unfolding windows_ok_def by (auto split: if_splits)

lemma window_fields:
  "payload (f b) = payload b \<Longrightarrow> ptype (f b) = ptype b \<Longrightarrow> len (f b) = len b \<Longrightarrow> window h a (f b) = window h a b"
  unfolding window_def by (simp only:)

lemma ends_upd_same: "ends_ok h \<Longrightarrow> (\<And>b. nxt (f b) = nxt b) \<Longrightarrow> ends_ok (upd_pbuf a f h)"
proof -
  assume e: "ends_ok h" and f: "\<And>b. nxt (f b) = nxt b"
  have "link (upd_pbuf a f h) x = link h x" for x
    by (auto simp: link_upd_pbuf link_def option.map_comp comp_def f)
  then have p: "path (upd_pbuf a f h) p ps = path h p ps" for p ps by (rule path_cong)
  have "\<exists>ps. path h (Some x) ps" if "pbufs (upd_pbuf a f h) x = Some c" for x c
    using e that unfolding ends_ok_def by (cases "pbufs h x") (auto split: if_splits)
  then show ?thesis by (simp only: ends_ok_def p) blast
qed

text \<open>A change that keeps pointer and count, and a payload in its memory.\<close>

lemma heap_same:
  assumes "heap_ok h ext" and "\<And>b. ref (f b) = ref b" and "\<And>b. nxt (f b) = nxt b"
    and "\<And>b. pbufs h a = Some b \<Longrightarrow> window h a b \<Longrightarrow> window h a (f b)"
  shows "heap_ok (upd_pbuf a f h) ext"
  using assms refs_same windows_upd ends_upd_same unfolding heap_ok_def by blast

text \<open>Following a chain into the pbuf whose pointer changes.\<close>

lemma path_last:
  "path h p ps \<Longrightarrow> q \<in> set ps \<Longrightarrow> link h q = Some None \<Longrightarrow> \<exists>us. ps = us @ [q]"
proof (induction ps arbitrary: p)
  case (Cons a as)
  then obtain n where n: "link h a = Some n" "path h n as" by auto
  show ?case
  proof (cases "a = q")
    case True
    then have "as = []" using n Cons.prems(3) by (cases as) auto
    then show ?thesis using True by (intro exI [of _ "[]"]) simp
  next
    case False
    then obtain us where "as = us @ [q]" using Cons.IH [OF n(2)] Cons.prems by auto
    then show ?thesis by (intro exI [of _ "a # us"]) simp
  qed
qed simp

lemma path_joined:
  "path h p (us @ [q]) \<Longrightarrow> link h' q = Some (Some t) \<Longrightarrow> (\<And>x. x \<in> set us \<Longrightarrow> link h' x = link h x) \<Longrightarrow>
    path h' (Some t) ts \<Longrightarrow> path h' p (us @ q # ts)"
  by (induction us arbitrary: p) auto

lemma ends_append:
  assumes e: "ends_ok h" and l: "link h q = Some None" and t: "path h (Some t) ts" "q \<notin> set ts"
    and f: "\<And>b. nxt (f b) = Some t"
  shows "ends_ok (upd_pbuf q f h)"
  unfolding ends_ok_def
proof (intro allI impI)
  fix a b assume "pbufs (upd_pbuf q f h) a = Some b"
  then obtain c where "pbufs h a = Some c" by (cases "pbufs h a") (auto split: if_splits)
  then obtain ps where ps: "path h (Some a) ps" using e unfolding ends_ok_def by blast
  have q: "link (upd_pbuf q f h) q = Some (Some t)" using l f by (auto simp: link_upd_pbuf link_def)
  have o: "x \<noteq> q \<Longrightarrow> link (upd_pbuf q f h) x = link h x" for x by (simp add: link_upd_pbuf)
  show "\<exists>ps. path (upd_pbuf q f h) (Some a) ps"
  proof (cases "q \<in> set ps")
    case True
    obtain us where "ps = us @ [q]" using path_last [OF ps True l] by blast
    moreover have "path (upd_pbuf q f h) (Some t) ts"
      by (subst path_cong [OF o]) (use t in auto)
    moreover have "link (upd_pbuf q f h) x = link h x" if "x \<in> set us" for x
      using path_distinct [OF ps] \<open>ps = us @ [q]\<close> that by (intro o) auto
    ultimately show ?thesis using path_joined [OF _ q] ps by blast
  next
    case False
    then have "path (upd_pbuf q f h) (Some a) ps" by (subst path_cong [OF o]) (use ps in auto)
    then show ?thesis by blast
  qed
qed

lemma heap_append:
  assumes h: "heap_ok h ext" and l: "link h q = Some None" and e: "0 < ext t"
    and t: "path h (Some t) ts" "q \<notin> set ts"
    and f: "\<And>b. ref (f b) = ref b" "\<And>b. nxt (f b) = Some t"
      "\<And>b. payload (f b) = payload b" "\<And>b. ptype (f b) = ptype b" "\<And>b. len (f b) = len b"
  shows "heap_ok (upd_pbuf q f h) (ext(t := ext t - 1))"
proof -
  have "refs_ok (upd_pbuf q f h) (ext(t := ext t - 1))"
    by (rule refs_append [where f = f]) (use h l e f(1,2) in \<open>auto simp: heap_ok_def\<close>)
  moreover have "ends_ok (upd_pbuf q f h)"
    by (rule ends_append [where f = f]) (use h l t f(2) in \<open>auto simp: heap_ok_def\<close>)
  moreover have "windows_ok (upd_pbuf q f h)"
    by (rule windows_upd) (use h window_fields [of f, OF f(3-5)] in \<open>auto simp: heap_ok_def\<close>)
  ultimately show ?thesis by (simp only: heap_ok_def)
qed

lemma path_cut:
  "path h p ps \<Longrightarrow> q \<in> set ps \<Longrightarrow> link h' q = Some None \<Longrightarrow> (\<And>x. x \<noteq> q \<Longrightarrow> link h' x = link h x) \<Longrightarrow>
    \<exists>us. path h' p (us @ [q])"
proof (induction ps arbitrary: p)
  case (Cons a as)
  then obtain n where n: "p = Some a" "link h a = Some n" "path h n as" by auto
  show ?case
  proof (cases "a = q")
    case True
    then show ?thesis using n Cons.prems(3) by (intro exI [of _ "[]"]) simp
  next
    case False
    then obtain us where "path h' n (us @ [q])" using Cons.IH [OF n(3)] Cons.prems by auto
    then show ?thesis using False n Cons.prems(4) by (intro exI [of _ "a # us"]) simp
  qed
qed simp

lemma heap_unlink:
  assumes h: "heap_ok h ext" and l: "link h q = Some (Some t)"
    and f: "\<And>b. ref (f b) = ref b" "\<And>b. nxt (f b) = None"
      "\<And>b. pbufs h q = Some b \<Longrightarrow> window h q b \<Longrightarrow> window h q (f b)"
  shows "heap_ok (upd_pbuf q f h) (ext(t := ext t + 1))"
proof -
  have q: "link (upd_pbuf q f h) q = Some None" using l f by (auto simp: link_upd_pbuf link_def)
  have o: "x \<noteq> q \<Longrightarrow> link (upd_pbuf q f h) x = link h x" for x by (simp add: link_upd_pbuf)
  have "ends_ok (upd_pbuf q f h)"
    unfolding ends_ok_def
  proof (intro allI impI)
    fix a b assume "pbufs (upd_pbuf q f h) a = Some b"
    then obtain c where "pbufs h a = Some c" by (cases "pbufs h a") (auto split: if_splits)
    then obtain ps where ps: "path h (Some a) ps" using h unfolding heap_ok_def ends_ok_def by blast
    show "\<exists>ps. path (upd_pbuf q f h) (Some a) ps"
    proof (cases "q \<in> set ps")
      case True
      then show ?thesis using path_cut [OF ps True q o] by blast
    next
      case False
      then have "path (upd_pbuf q f h) (Some a) ps" by (subst path_cong [OF o]) (use ps in auto)
      then show ?thesis by blast
    qed
  qed
  moreover have "refs_ok (upd_pbuf q f h) (ext(t := ext t + 1))"
    by (rule refs_unlink [where f = f]) (use h l f(1,2) in \<open>auto simp: heap_ok_def\<close>)
  moreover have "windows_ok (upd_pbuf q f h)"
    by (rule windows_upd) (use h f(3) in \<open>auto simp: heap_ok_def\<close>)
  ultimately show ?thesis by (simp only: heap_ok_def)
qed

lemma heap_new:
  assumes h: "heap_ok h ext" and n: "pbufs h q = None" "blocks h q = None"
    and b: "ref b = 1" "nxt b = None" and w: "window (new_pbuf q b m h) q b"
  shows "heap_ok (new_pbuf q b m h) (ext(q := 1))"
proof -
  have "windows_ok (new_pbuf q b m h)"
    unfolding windows_ok_def
  proof (intro allI impI)
    fix a c assume a: "pbufs (new_pbuf q b m h) a = Some c"
    show "window (new_pbuf q b m h) a c \<and> blocks (new_pbuf q b m h) a \<noteq> None"
    proof (cases "a = q")
      case True
      then show ?thesis using a w by auto
    next
      case False
      then have "window h a c \<and> blocks h a \<noteq> None" using a h by (simp add: heap_ok_def windows_ok_def)
      then show ?thesis using False n by (auto simp: window_def split: option.splits if_splits)
    qed
  qed
  moreover have "ends_ok (new_pbuf q b m h)"
    unfolding ends_ok_def
  proof (intro allI impI)
    fix a c assume a: "pbufs (new_pbuf q b m h) a = Some c"
    show "\<exists>ps. path (new_pbuf q b m h) (Some a) ps"
    proof (cases "a = q")
      case True
      then have "path (new_pbuf q b m h) (Some a) [q]" using b by (simp add: link_new)
      then show ?thesis by blast
    next
      case False
      then obtain ps where ps: "path h (Some a) ps" using a h by (auto simp: heap_ok_def ends_ok_def)
      then have "q \<notin> set ps" using path_alloc n(1) by fastforce
      then have "path (new_pbuf q b m h) (Some a) ps"
        by (subst path_cong [of ps "new_pbuf q b m h" h]) (use ps in \<open>auto simp: link_new\<close>)
      then show ?thesis by blast
    qed
  qed
  ultimately show ?thesis using refs_new [OF _ n(1) b] h unfolding heap_ok_def by blast
qed

text \<open>Writing to memory.\<close>

definition same_shape :: "heap \<Rightarrow> heap \<Rightarrow> bool" where
  "same_shape h h' \<longleftrightarrow> pbufs h' = pbufs h \<and> (\<forall>r. map_option length (blocks h' r) = map_option length (blocks h r))"

lemma heap_same_shape: "heap_ok h ext \<Longrightarrow> same_shape h h' \<Longrightarrow> heap_ok h' ext"
proof -
  assume h: "heap_ok h ext" and s: "same_shape h h'"
  have l: "link h' x = link h x" for x using s by (simp add: same_shape_def link_def)
  have "rc h' = rc h" using s by (simp add: same_shape_def rc_def fun_eq_iff)
  moreover have "indeg h' q = indeg h q" for q by (rule indeg_link [OF l])
  moreover have "refs_ok h ext" "pbufs h' = pbufs h" using h s by (simp_all add: heap_ok_def same_shape_def)
  ultimately have "refs_ok h' ext" by (intro refs_okI) (metis refs_okD)+
  moreover have "ends_ok h'" using h s path_cong [of _ h' h, OF l] by (auto simp: heap_ok_def ends_ok_def same_shape_def)
  moreover have "windows_ok h'"
    unfolding windows_ok_def
  proof (intro allI impI)
    fix a b assume a: "pbufs h' a = Some b"
    then have w: "window h a b" "blocks h a \<noteq> None" using h s by (simp_all add: heap_ok_def windows_ok_def same_shape_def)
    have len: "map_option length (blocks h' r) = map_option length (blocks h r)" for r using s by (simp add: same_shape_def)
    have "blocks h' a \<noteq> None" using len [of a] w(2) by auto
    moreover have "(\<exists>m. blocks h' r = Some m \<and> k \<le> length m) = (\<exists>m. blocks h r = Some m \<and> k \<le> length m)" for r k
      using len [of r] by (cases "blocks h r"; cases "blocks h' r") auto
    moreover have "pbufs h' = pbufs h" using s by (simp add: same_shape_def)
    ultimately have "window h' a b" "blocks h' a \<noteq> None" using w(1) unfolding window_def by (simp_all only: not_False_eq_True)
    then show "window h' a b \<and> blocks h' a \<noteq> None" by simp
  qed
  ultimately show ?thesis by (simp add: heap_ok_def)
qed

subsection \<open>Packets\<close>

text \<open>The lengths of a chain: \<open>tot_len\<close> of every pbuf is the length of the chain from there on.\<close>

definition plen :: "heap \<Rightarrow> nat \<Rightarrow> nat" where
  "plen h a = (case pbufs h a of None \<Rightarrow> 0 | Some b \<Rightarrow> unat (len b))"

definition ptot :: "heap \<Rightarrow> nat \<Rightarrow> nat" where
  "ptot h a = (case pbufs h a of None \<Rightarrow> 0 | Some b \<Rightarrow> unat (tot_len b))"

primrec packet :: "heap \<Rightarrow> nat list \<Rightarrow> bool" where
  "packet h [] \<longleftrightarrow> True"
| "packet h (a # as) \<longleftrightarrow> ptot h a = sum_list (map (plen h) (a # as)) \<and> packet h as"

lemma packet_cong:
  "(\<And>x. x \<in> set ps \<Longrightarrow> plen h' x = plen h x \<and> ptot h' x = ptot h x) \<Longrightarrow> packet h' ps = packet h ps"
proof (induction ps)
  case (Cons a as)
  then have "map (plen h') (a # as) = map (plen h) (a # as)" by (intro map_cong) auto
  then show ?case using Cons by (simp only: packet.simps) simp
qed simp

text \<open>What an allocation must promise.\<close>

definition malloc_ok :: "pbuf_env \<Rightarrow> bool" where
  "malloc_ok M \<longleftrightarrow> (\<forall>h n a m. malloc M h n = Some (a, m) \<longrightarrow>
     pbufs h a = None \<and> blocks h a = None \<and> length m = n - SIZEOF_STRUCT_PBUF)"

text \<open>Only pointers have changed in the pbufs that were there.\<close>

definition same_but_nxt :: "pbuf \<Rightarrow> pbuf \<Rightarrow> bool" where
  "same_but_nxt b c \<longleftrightarrow> b\<lparr>nxt := None\<rparr> = c\<lparr>nxt := None\<rparr>"

definition keeps :: "heap \<Rightarrow> heap \<Rightarrow> bool" where
  "keeps h h' \<longleftrightarrow> (\<forall>x b. pbufs h x = Some b \<longrightarrow> (\<exists>c. pbufs h' x = Some c \<and> same_but_nxt b c))
     \<and> (\<forall>x m. blocks h x = Some m \<longrightarrow> blocks h' x = Some m)"

lemma same_but_nxt_refl [simp]: "same_but_nxt b b" "same_but_nxt b (b\<lparr>nxt := n\<rparr>)"
  by (simp_all add: same_but_nxt_def)

lemma same_but_nxt_trans: "same_but_nxt b c \<Longrightarrow> same_but_nxt c d \<Longrightarrow> same_but_nxt b d"
  by (simp add: same_but_nxt_def)

lemma same_but_nxt_fields:
  "same_but_nxt b c \<Longrightarrow> payload c = payload b \<and> ptype c = ptype b \<and> len c = len b \<and> tot_len c = tot_len b
     \<and> flags c = flags b \<and> ref c = ref b"
  by (cases b; cases c) (simp add: same_but_nxt_def)

lemma keeps_refl [simp]: "keeps h h"
  by (simp add: keeps_def)

lemma keeps_trans: "keeps h g \<Longrightarrow> keeps g k \<Longrightarrow> keeps h k"
  unfolding keeps_def using same_but_nxt_trans by (metis (no_types))

lemma keeps_lens: "keeps h h' \<Longrightarrow> pbufs h x \<noteq> None \<Longrightarrow> plen h' x = plen h x \<and> ptot h' x = ptot h x"
proof -
  assume "keeps h h'" "pbufs h x \<noteq> None"
  then obtain b c where "pbufs h x = Some b" "pbufs h' x = Some c" "same_but_nxt b c" unfolding keeps_def by blast
  then show ?thesis using same_but_nxt_fields [of b c] by (simp add: plen_def ptot_def)
qed

lemmas size_defs = PBUF_POOL_BUFSIZE_ALIGNED_def PBUF_POOL_BUFSIZE_def LWIP_MEM_ALIGN_SIZE_def TCP_MSS_def
  PBUF_LINK_HLEN_def PBUF_IP_HLEN_def PBUF_TRANSPORT_HLEN_def SIZEOF_STRUCT_PBUF_def pool_size_def

lemma pool_len_le: "0 \<le> n \<Longrightarrow> n < 65536 \<Longrightarrow> unat (pool_len n) = min (nat n) 184"
  by (auto simp: pool_len_def min_def size_defs unsigned_of_int take_bit_int_eq_self word_le_nat_alt)

text \<open>A chain whose pbufs nobody else refers to goes as a whole.\<close>

definition without :: "nat set \<Rightarrow> heap \<Rightarrow> heap" where
  "without S h = h\<lparr>pbufs := \<lambda>x. if x \<in> S then None else pbufs h x, blocks := \<lambda>x. if x \<in> S then None else blocks h x\<rparr>"

lemma without_dealloc: "without S (dealloc a h) = without (insert a S) h"
  by (simp add: without_def dealloc_def fun_eq_iff)

lemma without_id: "(\<And>x. x \<in> S \<Longrightarrow> pbufs h x = None \<and> blocks h x = None) \<Longrightarrow> without S h = h"
proof -
  assume "\<And>x. x \<in> S \<Longrightarrow> pbufs h x = None \<and> blocks h x = None"
  then have "(\<lambda>x. if x \<in> S then None else pbufs h x) = pbufs h" "(\<lambda>x. if x \<in> S then None else blocks h x) = blocks h"
    by (auto simp: fun_eq_iff)
  then show ?thesis by (simp add: without_def)
qed

lemma free_chain_all:
  "path h p ps \<Longrightarrow> \<forall>x \<in> set ps. rc h x = 1 \<Longrightarrow> free_chain ps h = (length ps, without (set ps) h)"
proof (induction ps arbitrary: p h)
  case Nil
  then show ?case by (simp add: without_def)
next
  case (Cons a as)
  obtain n where n: "path h n as" using Cons.prems(1) by auto
  have a: "a \<notin> set as" using path_distinct [OF Cons.prems(1)] by simp
  have "path (dealloc a h) n as" by (subst path_cong [of as _ h]) (use n a in \<open>auto simp: link_dealloc\<close>)
  moreover have "\<forall>x \<in> set as. rc (dealloc a h) x = 1" using Cons.prems(2) a by (auto simp: rc_def)
  ultimately show ?case using Cons by (simp add: without_dealloc)
qed

lemma pool_empty_same [simp]:
  "pbufs (pbuf_pool_is_empty M h) = pbufs h" "blocks (pbuf_pool_is_empty M h) = blocks h"
  by (simp_all add: pbuf_pool_is_empty_def Let_def)

lemma pool_empty_shape: "same_shape h (pbuf_pool_is_empty M h)"
  by (simp add: same_shape_def)

lemma without_pool_empty: "without S (pbuf_pool_is_empty M h) = pbuf_pool_is_empty M (without S h)"
  by (cases h) (simp add: without_def pbuf_pool_is_empty_def Let_def cong: if_cong)

lemma pool_tail_ok:
  assumes M: "malloc_ok M"
  shows "heap_ok h ext \<Longrightarrow> 0 < ext p \<Longrightarrow> path h (Some p) (us @ [r]) \<Longrightarrow> 0 \<le> n \<Longrightarrow> n < 65535 \<Longrightarrow>
    \<forall>x \<in> set (us @ [r]). rc h x = 1 \<Longrightarrow>
    \<exists>res h'. pool_tail M p r n h = Some (res, h') \<and>
      (case res of
         None \<Rightarrow> h' = pbuf_pool_is_empty M (without (set (us @ [r])) h)
       | Some p' \<Rightarrow> p' = p \<and> heap_ok h' ext \<and> keeps h h' \<and>
           (\<exists>vs. path h' (Some p) (us @ r # vs) \<and> (\<forall>v \<in> set vs. pbufs h v = None)
              \<and> packet h' vs \<and> sum_list (map (plen h') vs) = nat n
              \<and> (\<forall>x. pbufs h' x \<noteq> None \<longrightarrow> pbufs h x \<noteq> None \<or> x \<in> set vs))
           \<and> (\<forall>x. pbufs h x \<noteq> None \<longrightarrow> x \<noteq> r \<longrightarrow> pbufs h' x = pbufs h x))"
proof (induction "nat n" arbitrary: n r us h rule: less_induct)
  case less
  show ?case
  proof (cases "n > 0")
    case False
    then show ?thesis using less.prems
      by (subst pool_tail.simps) (auto intro!: exI [of _ "[]"])
  next
    case True
    show ?thesis
    proof (cases "malloc M h pool_size")
      case None
      have ok: "heap_ok (pbuf_pool_is_empty M h) ext" by (rule heap_same_shape [OF less.prems(1) pool_empty_shape])
      have pe: "path (pbuf_pool_is_empty M h) (Some p) (us @ [r])"
        by (subst path_cong [of _ _ h]) (use less.prems(3) in \<open>simp_all add: link_def\<close>)
      have "\<forall>x \<in> set (us @ [r]). rc (pbuf_pool_is_empty M h) x = 1" using less.prems(6) by (simp add: rc_def)
      from pbuf_free_ok [OF ok less.prems(2) pe] free_chain_all [OF pe this] show ?thesis using True None
        by (subst pool_tail.simps) (auto simp: without_pool_empty simp del: fun_upd_apply)
    next
      case (Some qm)
      obtain q m where qm: "qm = (q, m)" by fastforce
      have q: "pbufs h q = None" "blocks h q = None" "length m = 184"
        using M Some qm by (auto simp: malloc_ok_def size_defs)
      define b where "b = \<lparr>nxt = None, payload = Some (q, 0), tot_len = word_of_int n,
                      len = pool_len n, ptype = PBUF_POOL, flags = 0, ref = 1\<rparr>"
      define h1 where "h1 = new_pbuf q b m h"
      define h2 where "h2 = upd_pbuf r (\<lambda>b. b\<lparr>nxt := Some q\<rparr>) h1"
      define k where "k = uint (pool_len n)"
      have "k = int (min (nat n) 184)" using pool_len_le [of n] True less.prems(5) by (simp add: k_def uint_nat)
      then have k: "k = min n 184" "0 < k" using True by (auto simp: min_def)
      have e0: "ext q = 0" using less.prems(1) q(1) by (auto simp: heap_ok_def refs_ok_def rc_def dest!: spec [of _ q])
      have rin: "r \<in> set (us @ [r])" by simp
      have rq: "r \<noteq> q" using path_alloc [OF less.prems(3) rin] q(1) by auto
      have lr: "link h r = Some None" using path_append [OF less.prems(3)] by (auto simp: link_def)
      have w: "window h1 q b" using pool_len_le [of n] less.prems(4,5) q
        by (simp add: h1_def b_def window_def)
      have ok1: "heap_ok h1 (ext(q := 1))"
        unfolding h1_def by (rule heap_new [OF less.prems(1) q(1,2)]) (use w in \<open>simp_all add: b_def h1_def\<close>)
      have pq1: "path h1 (Some q) [q]" by (simp add: h1_def link_new b_def)
      have "heap_ok h2 ((ext(q := 1))(q := (ext(q := 1)) q - 1))"
        unfolding h2_def using lr rq by (intro heap_append [OF ok1 _ _ pq1]) (auto simp: h1_def link_new)
      moreover have "(ext(q := 1))(q := (ext(q := 1)) q - 1) = ext" using e0 by auto
      ultimately have ok2: "heap_ok h2 ext" by (simp only:)
      have us: "x \<in> set us \<Longrightarrow> x \<noteq> r \<and> x \<noteq> q" for x
        using path_distinct [OF less.prems(3)] path_alloc [OF less.prems(3), of x] q(1) by auto
      have "path h2 (Some p) (us @ r # [q])"
        using us rq lr by (intro path_joined [OF less.prems(3)]) (auto simp: h2_def h1_def link_simps b_def link_def)
      then have p2: "path h2 (Some p) ((us @ [r]) @ [q])" by simp
      have pq: "pbufs h2 q = Some b" using rq by (auto simp: h2_def h1_def)
      have keep: "keeps h h2"
        unfolding keeps_def
      proof (intro conjI allI impI)
        fix x c assume c: "pbufs h x = Some c"
        then have "x \<noteq> q" using q(1) by auto
        then show "\<exists>c'. pbufs h2 x = Some c' \<and> same_but_nxt c c'"
          using c by (auto simp: h2_def h1_def)
      next
        fix x m' assume "blocks h x = Some m'"
        then show "blocks h2 x = Some m'" using q(2) by (auto simp: h2_def h1_def)
      qed
      have step: "pool_tail M p r n h = pool_tail M p q (n - k) h2"
        using True less.prems(5) Some qm
        by (subst pool_tail.simps) (simp add: Let_def h2_def h1_def b_def k_def)
      have "nat (n - k) < nat n" "0 \<le> n - k" "n - k < 65535" using k True less.prems(5) by auto
      note hyps = less.hyps [OF this(1) ok2 less.prems(2) p2 this(2,3)]
      have "\<forall>x \<in> set ((us @ [r]) @ [q]). rc h2 x = 1"
        using less.prems(6) us rq path_alloc [OF less.prems(3), of r] by (auto simp: rc_def h2_def h1_def b_def)
      from hyps [OF this] obtain res h' where
        r: "pool_tail M p q (n - k) h2 = Some (res, h')"
        "case res of None \<Rightarrow> h' = pbuf_pool_is_empty M (without (set ((us @ [r]) @ [q])) h2)
         | Some p' \<Rightarrow> p' = p \<and> heap_ok h' ext \<and> keeps h2 h' \<and>
           (\<exists>vs. path h' (Some p) ((us @ [r]) @ q # vs) \<and> (\<forall>v \<in> set vs. pbufs h2 v = None)
              \<and> packet h' vs \<and> sum_list (map (plen h') vs) = nat (n - k)
              \<and> (\<forall>x. pbufs h' x \<noteq> None \<longrightarrow> pbufs h2 x \<noteq> None \<or> x \<in> set vs))
           \<and> (\<forall>x. pbufs h2 x \<noteq> None \<longrightarrow> x \<noteq> q \<longrightarrow> pbufs h' x = pbufs h2 x)" by blast
      show ?thesis
      proof (cases res)
        case None
        have "without (set ((us @ [r]) @ [q])) h2 = without (set (us @ [r])) h"
          using q(1,2) by (auto simp: without_def h2_def h1_def upd_pbuf_def new_pbuf_def fun_eq_iff)
        then show ?thesis using r step None by (auto simp del: fun_upd_apply)
      next
        case (Some p')
        then obtain vs where vs: "p' = p" "heap_ok h' ext" "keeps h2 h'" "path h' (Some p) ((us @ [r]) @ q # vs)"
          "\<forall>v \<in> set vs. pbufs h2 v = None" "packet h' vs" "sum_list (map (plen h') vs) = nat (n - k)"
          "\<forall>x. pbufs h2 x \<noteq> None \<longrightarrow> x \<noteq> q \<longrightarrow> pbufs h' x = pbufs h2 x"
          "\<forall>x. pbufs h' x \<noteq> None \<longrightarrow> pbufs h2 x \<noteq> None \<or> x \<in> set vs"
          using r(2) by auto
        have l: "plen h' q = nat k" "ptot h' q = nat n"
        proof -
          have "unat (len b) = nat k" using pool_len_le [of n] True less.prems(5) k(1) by (simp add: b_def min_def nat_le_iff)
          moreover have "unat (tot_len b) = nat n" using True less.prems(5)
            by (simp add: b_def unsigned_of_int take_bit_int_eq_self)
          ultimately show "plen h' q = nat k" "ptot h' q = nat n"
            using keeps_lens [OF vs(3), of q] pq by (simp_all add: plen_def ptot_def)
        qed
        have "packet h' (q # vs)" "sum_list (map (plen h') (q # vs)) = nat n"
        proof -
          have "nat k + nat (n - k) = nat n" using k True by (simp add: nat_add_distrib [symmetric])
          then show "packet h' (q # vs)" "sum_list (map (plen h') (q # vs)) = nat n"
            using vs(6,7) l by simp_all
        qed
        moreover have "\<forall>v \<in> set (q # vs). pbufs h v = None"
          using vs(5) q(1) keep unfolding keeps_def by (metis not_None_eq set_ConsD)
        moreover have "pbufs h x \<noteq> None \<or> x \<in> set (q # vs)" if "pbufs h' x \<noteq> None" for x
        proof -
          have "pbufs h2 x \<noteq> None \<or> x \<in> set vs" using vs(9) that by blast
          moreover have "pbufs h2 x = None" if "pbufs h x = None" "x \<noteq> q"
            using that by (cases "x = r") (auto simp: h2_def h1_def)
          ultimately show ?thesis by (cases "x = q"; cases "pbufs h x") auto
        qed
        moreover have "keeps h h'" by (rule keeps_trans [OF keep vs(3)])
        moreover have "path h' (Some p) (us @ r # q # vs)" using vs(4) by simp
        ultimately have "\<exists>vs. path h' (Some p) (us @ r # vs) \<and> (\<forall>v \<in> set vs. pbufs h v = None)
            \<and> packet h' vs \<and> sum_list (map (plen h') vs) = nat n
            \<and> (\<forall>x. pbufs h' x \<noteq> None \<longrightarrow> pbufs h x \<noteq> None \<or> x \<in> set vs)" "keeps h h'" by metis+
        moreover have "pool_tail M p r n h = Some (Some p, h')" using step r(1) Some vs(1) by simp
        moreover have "pbufs h' x = pbufs h x" if "pbufs h x \<noteq> None" "x \<noteq> r" for x
        proof -
          have "x \<noteq> q" using that q(1) by auto
          then have "pbufs h2 x = pbufs h x" using that by (simp add: h2_def h1_def)
          then show ?thesis using vs(8) that \<open>x \<noteq> q\<close> by metis
        qed
        ultimately show ?thesis using vs(2) by (simp del: ex_simps)
      qed
    qed
  qed
qed

lemma ext_unallocated: "heap_ok h ext \<Longrightarrow> pbufs h q = None \<Longrightarrow> ext q = 0"
  by (auto simp: heap_ok_def refs_ok_def rc_def dest!: spec [of _ q])

text \<open>What \<open>pbuf_alloc\<close> yields: nothing, and the heap as it was for its users, or a new packet of the
  requested length which the caller has the only reference to, with room for the headers of the layer.\<close>

definition alloc_result :: "pbuf_env \<Rightarrow> pbuf_layer \<Rightarrow> pbuf_type \<Rightarrow> nat \<Rightarrow> heap \<Rightarrow> (nat \<Rightarrow> nat) \<Rightarrow> nat option \<Rightarrow> heap \<Rightarrow> bool" where
  "alloc_result M layer t n h ext res h' \<longleftrightarrow> (case res of
       None \<Rightarrow> h' = (if t = PBUF_POOL then pbuf_pool_is_empty M h else h)
     | Some p \<Rightarrow> heap_ok h' (ext(p := 1)) \<and> keeps h h' \<and> (\<forall>x. pbufs h x \<noteq> None \<longrightarrow> pbufs h' x = pbufs h x)
         \<and> (\<exists>vs. path h' (Some p) (p # vs) \<and> (\<forall>v \<in> set (p # vs). pbufs h v = None)
              \<and> packet h' (p # vs) \<and> ptot h' p = n \<and> (t \<noteq> PBUF_POOL \<longrightarrow> vs = [])
              \<and> (\<forall>x. pbufs h' x \<noteq> None \<longrightarrow> pbufs h x \<noteq> None \<or> x \<in> set (p # vs)))
         \<and> (\<exists>b. pbufs h' p = Some b \<and> ptype b = t \<and> payload b = (if t \<in> {PBUF_RAM, PBUF_POOL}
               then Some (p, int (LWIP_MEM_ALIGN_SIZE (layer_offset layer))) else None)))"

lemma layer_room: "LWIP_MEM_ALIGN_SIZE (layer_offset l) \<le> 56"
  by (cases l) (simp_all add: size_defs)

lemma layer_block:
  "LWIP_MEM_ALIGN_SIZE (SIZEOF_STRUCT_PBUF + layer_offset l) + LWIP_MEM_ALIGN_SIZE n - SIZEOF_STRUCT_PBUF
     \<ge> LWIP_MEM_ALIGN_SIZE (layer_offset l) + n"
proof -
  have "n \<le> LWIP_MEM_ALIGN_SIZE n" unfolding LWIP_MEM_ALIGN_SIZE_def by presburger
  then show ?thesis by (cases l) (simp_all add: size_defs)
qed

lemma alloc_single:
  assumes h: "heap_ok h ext" and n: "pbufs h q = None" "blocks h q = None"
    and b: "ref b = 1" "nxt b = None" "tot_len b = len b" "unat (len b) = k" "ptype b = t" "t \<noteq> PBUF_POOL"
      "payload b = (if t \<in> {PBUF_RAM, PBUF_POOL} then Some (q, int (LWIP_MEM_ALIGN_SIZE (layer_offset layer))) else None)"
    and l: "t = PBUF_RAM \<longrightarrow> LWIP_MEM_ALIGN_SIZE (layer_offset layer) + k \<le> length m"
  shows "alloc_result M layer t k h ext (Some q) (new_pbuf q b m h)"
proof -
  have "window (new_pbuf q b m h) q b" using b l by (auto simp: window_def split: if_splits) (cases t; simp)
  from heap_new [OF h n b(1,2) this] have "heap_ok (new_pbuf q b m h) (ext(q := 1))" .
  moreover have "keeps h (new_pbuf q b m h)" using n by (auto simp: keeps_def)
  ultimately show ?thesis using b n
    by (simp add: alloc_result_def link_new plen_def ptot_def)
qed

lemma pbuf_alloc_ok:
  assumes M: "malloc_ok M" and h: "heap_ok h ext"
  shows "\<exists>res h'. pbuf_alloc M layer n t h = Some (res, h') \<and> alloc_result M layer t (unat n) h ext res h'"
proof (cases "t = PBUF_POOL")
  case False
  define sz where "sz = (if t = PBUF_RAM then LWIP_MEM_ALIGN_SIZE (SIZEOF_STRUCT_PBUF + layer_offset layer)
      + LWIP_MEM_ALIGN_SIZE (unat n) else LWIP_MEM_ALIGN_SIZE SIZEOF_STRUCT_PBUF)"
  define b where "b p = \<lparr>nxt = None, payload = (if t = PBUF_RAM then Some (p, int (LWIP_MEM_ALIGN_SIZE (layer_offset layer))) else None),
      tot_len = n, len = n, ptype = t, flags = 0, ref = 1\<rparr>" for p
  have a: "pbuf_alloc M layer n t h = (case malloc M h sz of None \<Rightarrow> Some (None, h) | Some (p, m) \<Rightarrow> Some (Some p, new_pbuf p (b p) m h))"
    using False by (cases t) (simp_all add: pbuf_alloc_def sz_def b_def Let_def split: option.split)
  show ?thesis
  proof (cases "malloc M h sz")
    case None
    then show ?thesis using False by (simp add: a alloc_result_def)
  next
    case (Some pm)
    obtain p m where pm: "pm = (p, m)" by fastforce
    then have p: "pbufs h p = None" "blocks h p = None" "length m = sz - SIZEOF_STRUCT_PBUF"
      using M Some by (auto simp: malloc_ok_def)
    have "alloc_result M layer t (unat n) h ext (Some p) (new_pbuf p (b p) m h)"
      by (rule alloc_single [OF h p(1,2)]) (use False layer_block [of layer "unat n"] p(3) in \<open>auto simp: b_def sz_def\<close>)
    then show ?thesis using Some pm by (simp add: a)
  qed
next
  case True
  define off where "off = LWIP_MEM_ALIGN_SIZE (layer_offset layer)"
  show ?thesis
  proof (cases "malloc M h pool_size")
    case None
    then show ?thesis using h True by (simp add: pbuf_alloc_def alloc_result_def Let_def)
  next
    case (Some pm)
    obtain p m where pm: "pm = (p, m)" by fastforce
    then have p: "pbufs h p = None" "blocks h p = None" "length m = 184"
      using M Some by (auto simp: malloc_ok_def size_defs)
    define l where "l = min n (word_of_nat (PBUF_POOL_BUFSIZE_ALIGNED - off))"
    define b where "b = \<lparr>nxt = None, payload = Some (p, int off), tot_len = n, len = l, ptype = PBUF_POOL, flags = 0, ref = 1\<rparr>"
    define h1 where "h1 = new_pbuf p b m h"
    have off: "off \<le> 56" unfolding off_def by (rule layer_room)
    have B: "PBUF_POOL_BUFSIZE_ALIGNED = 184" by (simp add: size_defs)
    have l: "unat l = min (unat n) (184 - off)"
    proof -
      have "unat (word_of_nat (184 - off) :: u16) = 184 - off"
        by (simp add: unsigned_of_nat take_bit_nat_eq_self del: of_nat_diff)
      then show ?thesis unfolding l_def B by (simp add: min_def word_le_nat_alt del: of_nat_diff)
    qed
    have w: "window h1 p b" using l off p by (simp add: h1_def b_def window_def)
    have ok1: "heap_ok h1 (ext(p := 1))"
      unfolding h1_def by (rule heap_new [OF h p(1,2)]) (use w in \<open>simp_all add: b_def h1_def\<close>)
    have rem: "0 \<le> uint n - uint l" "uint n - uint l < 65535"
    proof -
      have "unat n < 65536" using unsigned_less [of n, where 'a = nat] by simp
      then show "0 \<le> uint n - uint l" "uint n - uint l < 65535"
        using l off by (simp_all only: uint_nat)
    qed
    have chk: "off + unat l \<le> PBUF_POOL_BUFSIZE_ALIGNED" "PBUF_POOL_BUFSIZE_ALIGNED > off"
      using l off by (simp_all add: B)
    have al: "pbuf_alloc M layer n t h = pool_tail M p p (uint n - uint l) h1"
      using True Some pm chk
      by (simp add: pbuf_alloc_def Let_def off_def [symmetric] l_def [symmetric] h1_def b_def del: of_nat_diff)
    have p1: "path h1 (Some p) ([] @ [p])" by (simp add: h1_def link_new b_def)
    have e: "0 < (ext(p := 1)) p" by simp
    have "\<forall>x \<in> set ([] @ [p]). rc h1 x = 1" by (simp add: rc_def h1_def b_def)
    from pool_tail_ok [OF M ok1 e p1 rem this] obtain res h' where
      r: "pool_tail M p p (uint n - uint l) h1 = Some (res, h')"
      "case res of None \<Rightarrow> h' = pbuf_pool_is_empty M (without (set ([] @ [p])) h1)
       | Some p' \<Rightarrow> p' = p \<and> heap_ok h' (ext(p := 1)) \<and> keeps h1 h' \<and>
           (\<exists>vs. path h' (Some p) ([] @ p # vs) \<and> (\<forall>v \<in> set vs. pbufs h1 v = None)
              \<and> packet h' vs \<and> sum_list (map (plen h') vs) = nat (uint n - uint l)
              \<and> (\<forall>x. pbufs h' x \<noteq> None \<longrightarrow> pbufs h1 x \<noteq> None \<or> x \<in> set vs))
           \<and> (\<forall>x. pbufs h1 x \<noteq> None \<longrightarrow> x \<noteq> p \<longrightarrow> pbufs h' x = pbufs h1 x)" by blast
    have "alloc_result M layer t (unat n) h ext res h'"
    proof (cases res)
      case None
      have "without {p} h1 = without {p} h" by (simp add: without_def h1_def new_pbuf_def fun_eq_iff)
      also have "... = h" using p(1,2) by (intro without_id) auto
      finally show ?thesis using r(2) None True by (simp add: alloc_result_def)
    next
      case (Some p')
      then obtain vs where vs: "p' = p" "heap_ok h' (ext(p := 1))" "keeps h1 h'" "path h' (Some p) (p # vs)"
        "\<forall>v \<in> set vs. pbufs h1 v = None" "packet h' vs" "sum_list (map (plen h') vs) = nat (uint n - uint l)"
        "\<forall>x. pbufs h1 x \<noteq> None \<longrightarrow> x \<noteq> p \<longrightarrow> pbufs h' x = pbufs h1 x"
        "\<forall>x. pbufs h' x \<noteq> None \<longrightarrow> pbufs h1 x \<noteq> None \<or> x \<in> set vs"
        using r(2) by auto
      have k0: "keeps h h1" using p by (auto simp: keeps_def h1_def)
      have "plen h' p = unat l \<and> ptot h' p = unat n"
        using keeps_lens [OF vs(3), of p] by (simp add: h1_def plen_def ptot_def b_def)
      moreover have "unat l + nat (uint n - uint l) = unat n" using rem(1) by (simp only: uint_nat)
      ultimately have "packet h' (p # vs)" "ptot h' p = unat n" using vs(6,7) by simp_all
      moreover have "pbufs h v = None" if "v \<in> set (p # vs)" for v
        using that vs(5) p(1) by (cases "v = p") (auto simp: h1_def)
      moreover obtain c where "pbufs h' p = Some c" "same_but_nxt b c"
        using vs(3) unfolding keeps_def h1_def by (metis fun_upd_same pbufs_new)
      then have "\<exists>c. pbufs h' p = Some c \<and> ptype c = PBUF_POOL \<and> payload c = Some (p, int off)"
        using same_but_nxt_fields [of b c] by (auto simp: b_def)
      moreover have "keeps h h'" by (rule keeps_trans [OF k0 vs(3)])
      moreover have "pbufs h' x = pbufs h x" if "pbufs h x \<noteq> None" for x
      proof -
        have "x \<noteq> p" using that p(1) by auto
        then have "pbufs h1 x = pbufs h x" by (simp add: h1_def)
        then show ?thesis using vs(8) that \<open>x \<noteq> p\<close> by metis
      qed
      moreover have "pbufs h x \<noteq> None \<or> x \<in> set (p # vs)" if "pbufs h' x \<noteq> None" for x
      proof -
        have "pbufs h1 x \<noteq> None \<or> x \<in> set vs" using vs(9) that by blast
        moreover have "pbufs h1 x = None" if "pbufs h x = None" "x \<noteq> p" using that by (simp add: h1_def)
        ultimately show ?thesis by (cases "x = p"; cases "pbufs h x") auto
      qed
      ultimately show ?thesis using vs(1,2,4) Some True
        unfolding alloc_result_def off_def [symmetric]
        by (simp del: packet.simps path.simps fun_upd_apply) blast
    qed
    then show ?thesis using r(1) al by auto
  qed
qed

subsection \<open>References and headers\<close>

lemma refs_incr:
  assumes r: "refs_ok h ext" and b: "pbufs h a = Some b" "unat (ref b) < 65535"
  shows "refs_ok (upd_pbuf a (\<lambda>b. b\<lparr>ref := ref b + 1\<rparr>) h) (ext(a := ext a + 1))" (is "refs_ok ?h _")
proof -
  have i: "indeg ?h q = indeg h q" for q
    by (rule indeg_link) (auto simp: link_upd_pbuf link_def b(1))
  have "unat (ref b + 1) = unat (ref b) + 1" using b(2) by (simp add: unat_word_ariths)
  then have rc: "rc ?h x = rc h x + (if x = a then 1 else 0)" for x using b(1) by (simp add: rc_def)
  show ?thesis
  proof (rule refs_okI)
    show "rc ?h x = (ext(a := ext a + 1)) x + indeg ?h x" for x
      using refs_okD(2) [OF r, of x] by (simp add: rc i)
    show "0 < rc ?h x" if "x \<in> dom (pbufs ?h)" for x
      using refs_okD(3) [OF r, of x] that by (simp only: dom_upd_pbuf rc) simp
  qed (use refs_okD(1) [OF r] in simp)
qed

lemma pbuf_ref_ok:
  assumes h: "heap_ok h ext" and a: "pbufs h a = Some b" "unat (ref b) < 65535"
  shows "\<exists>h'. pbuf_ref (Some a) h = Some h' \<and> heap_ok h' (ext(a := ext a + 1))
    \<and> h' = upd_pbuf a (\<lambda>b. b\<lparr>ref := ref b + 1\<rparr>) h"
proof -
  have r: "refs_ok h ext" "windows_ok h" "ends_ok h" using h by (auto simp: heap_ok_def)
  have "windows_ok (upd_pbuf a (\<lambda>b. b\<lparr>ref := ref b + 1\<rparr>) h)"
    by (rule windows_upd [OF r(2)]) (subst window_fields, simp_all)
  moreover have "ends_ok (upd_pbuf a (\<lambda>b. b\<lparr>ref := ref b + 1\<rparr>) h)" by (rule ends_upd_same [OF r(3)]) simp
  ultimately show ?thesis using refs_incr [OF r(1) a] a(1) by (simp add: pbuf_ref_def heap_ok_def)
qed

text \<open>Moving the payload pointer: 0 when it moved, 1 when there is no room for it.\<close>

lemma unat_add_int:
  "0 \<le> int (unat (w :: u16)) + i \<Longrightarrow> int (unat w) + i < 65536 \<Longrightarrow> unat (w + word_of_int i) = nat (int (unat w) + i)"
proof -
  assume a: "0 \<le> int (unat w) + i" "int (unat w) + i < 65536"
  have "w + word_of_int i = word_of_int (int (unat w) + i)" by simp
  then show ?thesis using a by (simp only: unsigned_of_int) (simp add: take_bit_int_eq_self)
qed

lemma pbuf_header_ok:
  assumes h: "heap_ok h ext" and p: "pbufs h p = Some b" and i: "- int (unat (len b)) \<le> inc" "inc < 32768"
    and l: "int (unat (len b)) + inc < 65536"
  shows "\<exists>r h'. pbuf_header (Some p) inc h = Some (r, h') \<and> heap_ok h' ext \<and> r \<in> {0, 1} \<and> (r = 1 \<longrightarrow> h' = h)
    \<and> (r = 0 \<longrightarrow> (\<exists>b'. pbufs h' p = Some b' \<and> int (unat (len b')) = int (unat (len b)) + inc
         \<and> payload b' = map_option (\<lambda>(s, k). (s, k - inc)) (payload b) \<and> nxt b' = nxt b \<and> tot_len b' = tot_len b + word_of_int inc)
         \<and> (\<forall>x. x \<noteq> p \<longrightarrow> pbufs h' x = pbufs h x) \<and> blocks h' = blocks h)"
proof -
  define f where "f = (\<lambda>b :: pbuf. b\<lparr>payload := map_option (\<lambda>(r, i). (r, i - inc)) (payload b),
                 len := len b + word_of_int inc, tot_len := tot_len b + word_of_int inc\<rparr>)"
  have w: "window h p b" using h p by (simp add: heap_ok_def windows_ok_def)
  have len: "unat (len b + word_of_int inc) = nat (int (unat (len b)) + inc)"
    using i(1) l by (intro unat_add_int) auto
  have ulen: "int (unat (len b + word_of_int inc)) = int (unat (len b)) + inc" unfolding len using i(1) by simp
  have moved: "heap_ok (upd_pbuf p f h) ext" if wf: "window h p (f b)"
    by (rule heap_same [OF h]) (use wf p in \<open>auto simp: f_def\<close>)
  have res: "heap_ok (upd_pbuf p f h) ext \<Longrightarrow> (\<exists>b'. pbufs (upd_pbuf p f h) p = Some b' \<and> int (unat (len b')) = int (unat (len b)) + inc
         \<and> payload b' = map_option (\<lambda>(s, k). (s, k - inc)) (payload b) \<and> nxt b' = nxt b \<and> tot_len b' = tot_len b + word_of_int inc)
         \<and> (\<forall>x. x \<noteq> p \<longrightarrow> pbufs (upd_pbuf p f h) x = pbufs h x) \<and> blocks (upd_pbuf p f h) = blocks h"
    using p ulen by (simp add: f_def)
  have c: "- inc \<le> uint (len b)" using i(1) by simp
  have eq: "pbuf_header (Some p) inc h = (if inc = 0 then Some (0, h)
      else if ptype b = PBUF_RAM \<or> ptype b = PBUF_POOL then
              (case payload b of None \<Rightarrow> None
               | Some (r, i) \<Rightarrow> if r \<noteq> p then None
                   else if i - inc < 0 then Some (1, h) else Some (0, upd_pbuf p f h))
            else if inc < 0 then Some (0, upd_pbuf p f h) else Some (1, h))"
    unfolding f_def using p c by (simp add: pbuf_header_def Let_def)
  show ?thesis
  proof (cases "inc = 0")
    case True
    have "map_option (\<lambda>(s, k). (s, k - inc)) (payload b) = payload b" by (cases "payload b") (auto simp: True)
    moreover have "pbuf_header (Some p) inc h = Some (0, h)" using eq True by simp
    ultimately show ?thesis using h p True by simp
  next
    case nz: False
    show ?thesis
    proof (cases "ptype b = PBUF_RAM \<or> ptype b = PBUF_POOL")
      case True
      then obtain k m where k: "payload b = Some (p, k)" "0 \<le> k" "blocks h p = Some m" "nat k + unat (len b) \<le> length m"
        using w by (auto simp: window_def split: option.splits)
      show ?thesis
      proof (cases "k - inc < 0")
        case True2: True
        then show ?thesis using True nz k(1) h by (simp add: eq)
      next
        case False
        have "nat (k - inc) + nat (int (unat (len b)) + inc) \<le> length m" using False k(2,4) i(1) by linarith
        then have "window h p (f b)" using True False k len by (auto simp: window_def f_def)
        from moved [OF this] res [OF moved [OF this]] show ?thesis using True nz k(1) False by (simp add: eq)
      qed
    next
      case ext': False
      show ?thesis
      proof (cases "inc < 0")
        case True
        have "window h p (f b)"
        proof (cases "payload b")
          case None
          then show ?thesis using w by (simp add: window_def f_def)
        next
          case (Some rk)
          obtain r k where rk: "rk = (r, k)" by fastforce
          then obtain m where m: "pbufs h r = None" "0 \<le> k" "blocks h r = Some m" "nat k + unat (len b) \<le> length m"
            using w Some ext' by (auto simp: window_def)
          have "nat (k - inc) + nat (int (unat (len b)) + inc) \<le> length m" using True m(2,4) i(1) by linarith
          then show ?thesis using Some rk m ext' len True by (auto simp: window_def f_def)
        qed
        from moved [OF this] res [OF moved [OF this]] show ?thesis using ext' nz True by (simp add: eq)
      next
        case False
        then show ?thesis using ext' nz h by (simp add: eq)
      qed
    qed
  qed
qed

subsection \<open>Joining and cutting chains\<close>

text \<open>Lengths and places of the data stay, and so does the data.\<close>

definition same_data :: "heap \<Rightarrow> heap \<Rightarrow> bool" where
  "same_data h h' \<longleftrightarrow> (\<forall>x b. pbufs h x = Some b \<longrightarrow>
       (\<exists>c. pbufs h' x = Some c \<and> payload c = payload b \<and> len c = len b \<and> ptype c = ptype b))
     \<and> blocks h' = blocks h"

lemma heap_same_window:
  assumes "heap_ok h ext" and "\<And>b. ref (f b) = ref b" and "\<And>b. nxt (f b) = nxt b"
    and "\<And>b. payload (f b) = payload b" and "\<And>b. ptype (f b) = ptype b" and "\<And>b. len (f b) = len b"
  shows "heap_ok (upd_pbuf a f h) ext"
  by (rule heap_same [OF assms(1-3)]) (simp only: window_fields [of f, OF assms(4-6)])

lemma same_data_trans: "same_data h g \<Longrightarrow> same_data g k \<Longrightarrow> same_data h k"
  unfolding same_data_def by (metis (no_types))

lemma same_data_upd:
  "(\<And>b. payload (f b) = payload b \<and> len (f b) = len b \<and> ptype (f b) = ptype b) \<Longrightarrow> same_data h (upd_pbuf a f h)"
  by (simp add: same_data_def)

lemma unat_add_tot: "unat (a + b :: u16) = (unat a + unat b) mod 65536"
  by (simp add: unat_word_ariths)

lemma cat_loop_ok:
  "path h (Some p) ps \<Longrightarrow> heap_ok h ext \<Longrightarrow> path h (Some t) ts \<Longrightarrow> set ps \<inter> set ts = {} \<Longrightarrow> 0 < ext t \<Longrightarrow>
    ptot h (last ps) = plen h (last ps) \<Longrightarrow>
    \<exists>h'. cat_loop p t h = Some h' \<and> heap_ok h' (ext(t := ext t - 1)) \<and> path h' (Some p) (ps @ ts)
      \<and> (\<forall>x \<in> set ps. ptot h' x = (ptot h x + ptot h t) mod 65536)
      \<and> (\<forall>x. x \<notin> set ps \<longrightarrow> pbufs h' x = pbufs h x) \<and> same_data h h'"
proof (induction ps arbitrary: p h)
  case (Cons a as)
  obtain b where b: "a = p" "pbufs h p = Some b" "path h (nxt b) as" using Cons.prems(1) by (auto simp: link_def)
  obtain c where c: "pbufs h t = Some c" using Cons.prems(3) path_alloc [of h "Some t" ts t] by (cases ts) auto
  have t: "t \<in> set ts" using Cons.prems(3) by (cases ts) auto
  then have tp: "t \<noteq> p" "p \<notin> set ts" using Cons.prems(4) b(1) by auto
  show ?case
  proof (cases "nxt b")
    case None
    then have as: "as = []" using b(3) by (cases as) auto
    let ?f = "\<lambda>b :: pbuf. b\<lparr>tot_len := tot_len b + tot_len c, nxt := Some t\<rparr>"
    have "unat (tot_len b) = unat (len b)" using Cons.prems(6) b(1,2) by (simp add: as ptot_def plen_def)
    then have "tot_len b = len b" by (rule unsigned_word_eqI)
    then have e: "cat_loop p t h = Some (upd_pbuf p ?f h)" using b c None by (subst cat_loop.simps) simp
    have lp: "link h p = Some None" using b None by (simp add: link_def)
    have "heap_ok (upd_pbuf p ?f h) (ext(t := ext t - 1))"
      by (rule heap_append [OF Cons.prems(2) lp Cons.prems(5,3) tp(2)]) simp_all
    moreover have "path (upd_pbuf p ?f h) (Some t) ts"
      by (subst path_cong [of ts _ h]) (use Cons.prems(3) tp in \<open>auto simp: link_upd_pbuf\<close>)
    then have "path (upd_pbuf p ?f h) (Some p) ((a # as) @ ts)" using b by (simp add: as link_upd_pbuf)
    moreover have "same_data h (upd_pbuf p ?f h)" by (rule same_data_upd) simp
    moreover have "ptot (upd_pbuf p ?f h) p = (ptot h p + ptot h t) mod 65536"
      using b c by (simp add: ptot_def unat_add_tot)
    moreover have "\<forall>x. x \<notin> set (a # as) \<longrightarrow> pbufs (upd_pbuf p ?f h) x = pbufs h x" using b by simp
    ultimately show ?thesis using e b(1) as by (intro exI [of _ "upd_pbuf p ?f h"] conjI) (simp_all del: fun_upd_apply)
  next
    case (Some q)
    let ?g = "\<lambda>b :: pbuf. b\<lparr>tot_len := tot_len b + tot_len c\<rparr>"
    let ?h = "upd_pbuf p ?g h"
    have pas: "p \<notin> set as" using path_distinct [OF Cons.prems(1)] b(1) by simp
    have l: "link ?h x = link h x" for x by (simp add: link_upd_pbuf link_def option.map_comp comp_def)
    have pc: "path ?h r us = path h r us" for r us by (rule path_cong) (rule l)
    have "as \<noteq> []" using b(3) Some by auto
    then have la: "last (a # as) = last as" "last as \<in> set as" by simp_all
    have ok: "heap_ok ?h ext" by (rule heap_same_window [OF Cons.prems(2)]) simp_all
    have "ptot ?h (last as) = plen ?h (last as)"
      using Cons.prems(6) la pas by (auto simp: ptot_def plen_def)
    moreover have "path ?h (Some q) as" "path ?h (Some t) ts" using pc b(3) Some Cons.prems(3) by simp_all
    moreover have "set as \<inter> set ts = {}" using Cons.prems(4) by auto
    ultimately obtain h' where h':
      "cat_loop q t ?h = Some h'" "heap_ok h' (ext(t := ext t - 1))" "path h' (Some q) (as @ ts)"
      "\<forall>x \<in> set as. ptot h' x = (ptot ?h x + ptot ?h t) mod 65536"
      "\<forall>x. x \<notin> set as \<longrightarrow> pbufs h' x = pbufs ?h x" "same_data ?h h'"
      using Cons.IH [of ?h q] ok Cons.prems(5) by blast
    have e: "cat_loop p t h = Some h'" using b c Some h'(1) by (subst cat_loop.simps) simp
    have pp: "pbufs h' p = Some (?g b)" using h'(5) pas b(2) by simp
    then have "path h' (Some p) ((a # as) @ ts)" using h'(3) b(1) Some by (simp add: link_def)
    moreover have "ptot h' x = (ptot h x + ptot h t) mod 65536" if "x \<in> set (a # as)" for x
    proof (cases "x = p")
      case True
      then show ?thesis using pp b(2) c by (simp add: ptot_def unat_add_tot)
    next
      case False
      then show ?thesis using that b(1) h'(4) tp(1) by (auto simp: ptot_def)
    qed
    moreover have "same_data h h'" by (rule same_data_trans [OF same_data_upd h'(6)]) simp
    moreover have "\<forall>x. x \<notin> set (a # as) \<longrightarrow> pbufs h' x = pbufs h x" using h'(5) b(1) by auto
    ultimately show ?thesis using e h'(2) by blast
  qed
qed simp

text \<open>A packet behind a packet is a packet, as long as 16 bits can hold its length.\<close>

lemma packet_append:
  "packet h ps \<Longrightarrow> packet h ts \<Longrightarrow> ts \<noteq> [] \<Longrightarrow> ptot h (hd ps) + ptot h (hd ts) < 65536 \<Longrightarrow>
    (\<forall>x \<in> set ps. plen h' x = plen h x \<and> ptot h' x = (ptot h x + ptot h (hd ts)) mod 65536) \<Longrightarrow>
    (\<forall>x \<in> set ts. plen h' x = plen h x \<and> ptot h' x = ptot h x) \<Longrightarrow> packet h' (ps @ ts)"
proof (induction ps)
  case Nil
  then show ?case using packet_cong [of ts h' h] by simp
next
  case (Cons a as)
  obtain t us where ts: "ts = t # us" using Cons.prems(3) by (cases ts) auto
  have s: "ptot h t = sum_list (map (plen h) ts)" using Cons.prems(2) ts by simp
  have m: "sum_list (map (plen h') (as @ ts)) = sum_list (map (plen h) (as @ ts))"
    using Cons.prems(5,6) by (intro arg_cong [where f = sum_list] map_cong) auto
  have "ptot h (hd as) + ptot h (hd ts) < 65536 \<or> as = []" using Cons.prems(1,4) by (cases as) auto
  then have "packet h' (as @ ts)"
  proof
    assume "as = []"
    then show ?thesis using Cons.prems(2,6) packet_cong [of ts h' h] by simp
  qed (use Cons in auto)
  moreover have "ptot h' a = sum_list (map (plen h') (a # as @ ts))"
    using Cons.prems(1,4,5) s m ts by simp
  ultimately show ?case by simp
qed

lemma packet_last: "packet h ps \<Longrightarrow> ps \<noteq> [] \<Longrightarrow> ptot h (last ps) = plen h (last ps)"
  by (induction ps) auto

lemma pbuf_cat_ok:
  assumes h: "heap_ok h ext" and e: "0 < ext t" and p: "path h (Some p) ps" "packet h ps"
    and t: "path h (Some t) ts" "packet h ts" and d: "set ps \<inter> set ts = {}" and l: "ptot h p + ptot h t < 65536"
  shows "\<exists>h'. pbuf_cat (Some p) (Some t) h = Some h' \<and> heap_ok h' (ext(t := ext t - 1))
    \<and> path h' (Some p) (ps @ ts) \<and> packet h' (ps @ ts) \<and> same_data h h'
    \<and> (\<forall>x. x \<notin> set ps \<longrightarrow> pbufs h' x = pbufs h x)"
proof -
  obtain as where ps: "ps = p # as" using p(1) by (cases ps) auto
  obtain us where ts: "ts = t # us" using t(1) by (cases ts) auto
  have la: "ptot h (last ps) = plen h (last ps)" using packet_last [OF p(2)] ps by simp
  from cat_loop_ok [OF p(1) h t(1) d e la] obtain h' where h':
    "cat_loop p t h = Some h'" "heap_ok h' (ext(t := ext t - 1))" "path h' (Some p) (ps @ ts)"
    "\<forall>x \<in> set ps. ptot h' x = (ptot h x + ptot h t) mod 65536"
    "\<forall>x. x \<notin> set ps \<longrightarrow> pbufs h' x = pbufs h x" "same_data h h'" by blast
  have len: "plen h' x = plen h x" if "x \<in> set ps" for x
  proof -
    obtain b where "pbufs h x = Some b" using path_alloc p(1) \<open>x \<in> set ps\<close> by blast
    then obtain c where "pbufs h x = Some b" "pbufs h' x = Some c" "len c = len b"
      using h'(6) unfolding same_data_def by metis
    then show ?thesis by (simp add: plen_def)
  qed
  have "plen h' x = plen h x \<and> ptot h' x = ptot h x" if "x \<in> set ts" for x
  proof -
    have "pbufs h' x = pbufs h x" using h'(5) d that by blast
    then show ?thesis by (simp add: plen_def ptot_def)
  qed
  then have "packet h' (ps @ ts)"
    using packet_append [OF p(2) t(2), of h'] l len h'(4) by (simp add: ps ts)
  then show ?thesis using h' by (auto simp: pbuf_cat_def simp del: fun_upd_apply)
qed

lemma pbuf_chain_ok:
  assumes h: "heap_ok h ext" and e: "0 < ext t" and p: "path h (Some p) ps" "packet h ps"
    and t: "path h (Some t) ts" "packet h ts" and d: "set ps \<inter> set ts = {}" and l: "ptot h p + ptot h t < 65536"
    and c: "rc h t < 65535"
  shows "\<exists>h'. pbuf_chain (Some p) (Some t) h = Some h' \<and> heap_ok h' ext
    \<and> path h' (Some p) (ps @ ts) \<and> packet h' (ps @ ts) \<and> same_data h h'"
proof -
  from pbuf_cat_ok [OF h e p t d l] obtain h1 where h1:
    "pbuf_cat (Some p) (Some t) h = Some h1" "heap_ok h1 (ext(t := ext t - 1))"
    "path h1 (Some p) (ps @ ts)" "packet h1 (ps @ ts)" "same_data h h1"
    "\<forall>x. x \<notin> set ps \<longrightarrow> pbufs h1 x = pbufs h x" by blast
  have tt: "t \<in> set ts" using t(1) by (cases ts) auto
  then obtain b where b: "pbufs h1 t = Some b" "unat (ref b) < 65535"
    using path_alloc [OF t(1) tt] h1(6) d c by (auto simp: rc_def)
  let ?h = "upd_pbuf t (\<lambda>b. b\<lparr>ref := ref b + 1\<rparr>) h1"
  have "heap_ok ?h ((ext(t := ext t - 1))(t := (ext(t := ext t - 1)) t + 1))" "pbuf_ref (Some t) h1 = Some ?h"
    using pbuf_ref_ok [OF h1(2) b] by auto
  moreover have "(ext(t := ext t - 1))(t := (ext(t := ext t - 1)) t + 1) = ext" using e by auto
  moreover have "path ?h (Some p) (ps @ ts)"
    by (subst path_cong [of _ _ h1]) (use h1(3) in \<open>auto simp: link_upd_pbuf link_def option.map_comp comp_def\<close>)
  moreover have "packet ?h (ps @ ts)"
    by (subst packet_cong [of _ _ h1]) (use h1(4) in \<open>auto simp: plen_def ptot_def split: option.split\<close>)
  moreover have "same_data h ?h" by (rule same_data_trans [OF h1(5) same_data_upd]) simp
  ultimately show ?thesis using h1(1) by (simp add: pbuf_chain_def)
qed

lemma upd_pbuf_id: "pbufs h a = Some b \<Longrightarrow> f b = b \<Longrightarrow> upd_pbuf a f h = h"
  by (simp add: upd_pbuf_def fun_upd_idem)

lemma dealloc_upd_other: "a \<noteq> q \<Longrightarrow> dealloc a (upd_pbuf q f h) = upd_pbuf q f (dealloc a h)"
  by (simp add: dealloc_def upd_pbuf_def fun_upd_twist)

lemma upd_upd_other: "a \<noteq> q \<Longrightarrow> upd_pbuf a g (upd_pbuf q f h) = upd_pbuf q f (upd_pbuf a g h)"
  by (simp add: upd_pbuf_def fun_upd_twist)

lemma free_chain_upd: "q \<notin> set ps \<Longrightarrow> free_chain ps (upd_pbuf q f h) = apsnd (upd_pbuf q f) (free_chain ps h)"
proof (induction ps arbitrary: h)
  case (Cons a as)
  then have "a \<noteq> q" "rc (upd_pbuf q f h) a = rc h a" by (auto simp: rc_def)
  then show ?case using Cons by (simp add: dealloc_upd_other upd_upd_other split_beta)
qed simp

lemma free_chain_first:
  "path h p (q # us) \<Longrightarrow> free_chain (q # us) h = (n, h') \<Longrightarrow> (n = 0 \<longleftrightarrow> pbufs h' q \<noteq> None) \<and> n \<le> Suc (length us)"
proof -
  have len: "free_chain ps g = (m, g') \<Longrightarrow> m \<le> length ps" for ps g m g'
    by (induction ps arbitrary: g m) (auto split: prod.splits if_splits)
  assume p: "path h p (q # us)" and f: "free_chain (q # us) h = (n, h')"
  obtain b where b: "pbufs h q = Some b" "path h (nxt b) us" using p by (auto simp: link_def)
  have q: "q \<notin> set us" using path_distinct [OF p] by simp
  have "path (dealloc q h) (nxt b) us" by (subst path_cong [of us _ h]) (use b(2) q in \<open>auto simp: link_dealloc\<close>)
  then have "shrinks (dealloc q h) h''" if "free_chain us (dealloc q h) = (m, h'')" for m h''
    using free_chain_shrinks that by blast
  then have "free_chain us (dealloc q h) = (m, h'') \<Longrightarrow> pbufs h'' q = None" for m h''
    using shrinks_none by fastforce
  then show ?thesis using f b(1) len [OF f] by (auto split: if_splits prod.splits)
qed

text \<open>Taking the first pbuf off a packet. The result is the rest unless that was deallocated; the count
  of deallocated pbufs is an 8-bit number, so the answer is wrong for a rest of 256 pbufs.\<close>

lemma pbuf_dechain_ok:
  assumes h: "heap_ok h ext" and e: "0 < ext p" and p: "path h (Some p) (p # ts)" "packet h (p # ts)"
  shows "\<exists>r h'. pbuf_dechain p h = Some (r, h') \<and> heap_ok h' ext
    \<and> shrinks (upd_pbuf p (\<lambda>b. b\<lparr>nxt := None, tot_len := len b\<rparr>) h) h'
    \<and> (length ts < 256 \<longrightarrow> r = (case ts of [] \<Rightarrow> None | q # _ \<Rightarrow> if pbufs h' q = None then None else Some q))"
proof -
  obtain b where b: "pbufs h p = Some b" "path h (nxt b) ts" using p(1) by (auto simp: link_def)
  have pts: "p \<notin> set ts" using path_distinct [OF p(1)] by simp
  show ?thesis
  proof (cases ts)
    case Nil
    then have "unat (tot_len b) = unat (len b)" using p(2) b(1) by (simp add: ptot_def plen_def)
    then have tl: "tot_len b = len b" by (rule unsigned_word_eqI)
    have n: "nxt b = None" using b(2) Nil by (cases "nxt b") auto
    have "upd_pbuf p (\<lambda>b. b\<lparr>nxt := None, tot_len := len b\<rparr>) h = h" by (rule upd_pbuf_id [OF b(1)]) (simp add: tl n [symmetric])
    then show ?thesis using b(1) h Nil n tl by (simp add: pbuf_dechain_def)
  next
    case (Cons q us)
    then obtain c where c: "nxt b = Some q" "pbufs h q = Some c" using b(2) by (auto simp: link_def)
    have qp: "q \<noteq> p" using pts Cons by auto
    have t: "unat (tot_len b) = unat (len b) + unat (tot_len c)"
      using p(2) b(1) c(2) Cons by (simp add: ptot_def plen_def)
    then have "unat (tot_len b - len b) = unat (tot_len c)" by (simp add: unat_sub word_le_nat_alt)
    then have tc: "tot_len c = tot_len b - len b" using unsigned_word_eqI by metis
    let ?f = "\<lambda>b :: pbuf. b\<lparr>nxt := None, tot_len := len b\<rparr>"
    have id: "upd_pbuf q (\<lambda>c. c\<lparr>tot_len := tot_len b - len b\<rparr>) h = h"
      by (rule upd_pbuf_id [OF c(2)]) (simp add: tc [symmetric])
    define h2 where "h2 = upd_pbuf p ?f h"
    have l: "link h p = Some (Some q)" using b(1) c(1) by (simp add: link_def)
    have ok2: "heap_ok h2 (ext(q := ext q + 1))" unfolding h2_def
      by (rule heap_unlink [OF h l]) (simp_all, subst window_fields, simp_all)
    have p2: "path h2 (Some q) ts"
      by (subst path_cong [of ts _ h]) (use b(2) c(1) pts in \<open>auto simp: h2_def link_upd_pbuf\<close>)
    have "0 < (ext(q := ext q + 1)) q" by simp
    from pbuf_free_ok [OF ok2 this p2] obtain n h3 where h3: "free_chain ts h2 = (n, h3)"
      "pbuf_free (Some q) h2 = Some (word_of_nat n, h3)"
      "heap_ok h3 ((ext(q := ext q + 1))(q := (ext(q := ext q + 1)) q - 1))" "shrinks h2 h3" by blast
    have "(ext(q := ext q + 1))(q := (ext(q := ext q + 1)) q - 1) = ext" by auto
    then have ok3: "heap_ok h3 ext" using h3(3) by (simp only:)
    then obtain b3 where b3: "pbufs h3 p = Some b3" using refs_ok_alloc [of h3 ext p] e by (auto simp: heap_ok_def)
    have "pbufs h2 p = Some (?f b)" using b(1) by (simp add: h2_def)
    then have "same_but_ref (?f b) b3" using h3(4) b3 unfolding shrinks_def by (metis option.inject)
    then have tl: "tot_len b3 = len b3" using same_but_ref_fields by fastforce
    have d: "pbuf_dechain p h = Some (if (word_of_nat n :: u8) > 0 then None else Some q, h3)"
      using b(1) c tc id h3(2) b3 tl by (simp add: pbuf_dechain_def h2_def [symmetric])
    have "(word_of_nat n :: u8) > 0 \<longleftrightarrow> pbufs h3 q = None" if "length ts < 256"
    proof -
      have f: "(n = 0 \<longleftrightarrow> pbufs h3 q \<noteq> None) \<and> n \<le> length ts"
        using free_chain_first [of h2 _ q us] p2 h3(1) Cons by auto
      then have "unat (word_of_nat n :: u8) = n" using that by (simp add: unsigned_of_nat take_bit_nat_eq_self)
      then show ?thesis using f by (metis bot_nat_0.not_eq_extremum unsigned_0 word_less_nat_alt)
    qed
    then show ?thesis using d ok3 Cons h3(4) by (auto simp: h2_def)
  qed
qed

lemma window_eq:
  "payload c = payload b \<Longrightarrow> ptype c = ptype b \<Longrightarrow> len c = len b \<Longrightarrow> window h a c = window h a b"
  unfolding window_def by (simp only:)

lemma heap_same_at:
  assumes h: "heap_ok h ext" and a: "pbufs h a = Some b" and f: "ref (f b) = ref b" "nxt (f b) = nxt b" "window h a (f b)"
  shows "heap_ok (upd_pbuf a f h) ext"
proof -
  have "upd_pbuf a f h = upd_pbuf a (\<lambda>_. f b) h" by (simp add: upd_pbuf_def a)
  moreover have "upd_pbuf a (\<lambda>x. x\<lparr>payload := payload (f b), tot_len := tot_len (f b), len := len (f b),
      ptype := ptype (f b), flags := flags (f b)\<rparr>) h = upd_pbuf a (\<lambda>_. f b) h"
    using f by (cases b; cases "f b") (simp add: upd_pbuf_def a)
  moreover have "heap_ok (upd_pbuf a (\<lambda>x. x\<lparr>payload := payload (f b), tot_len := tot_len (f b), len := len (f b),
      ptype := ptype (f b), flags := flags (f b)\<rparr>) h) ext"
    by (rule heap_same [OF h]) (simp_all, subst window_eq [of _ "f b"], use f(3) in simp_all)
  ultimately show ?thesis by simp
qed

lemma unat_minus_nat: "n \<le> unat (w :: u16) \<Longrightarrow> unat (w + word_of_int (- int n)) = unat w - n"
proof -
  assume n: "n \<le> unat w"
  then have "n < 65536" using unsigned_less [of w, where 'a = nat] by simp
  then have u: "unat (word_of_nat n :: u16) = n" by (simp add: unsigned_of_nat take_bit_nat_eq_self)
  have "w + word_of_int (- int n) = w - word_of_nat n" by simp
  moreover have "unat (w - word_of_nat n) = unat w - unat (word_of_nat n :: u16)"
    by (rule unat_sub) (simp add: word_le_nat_alt u n)
  ultimately show ?thesis by (simp only: u)
qed

lemma realloc_loop_ok:
  "path h (Some p) ps \<Longrightarrow> packet h ps \<Longrightarrow> heap_ok h ext \<Longrightarrow> unat rem + D = ptot h p \<Longrightarrow>
    \<exists>us q vs rem' h1. ps = us @ q # vs \<and> realloc_loop p rem (- int D) h = Some (q, rem', h1)
      \<and> unat rem = sum_list (map (plen h) us) + unat rem' \<and> unat rem' \<le> plen h q \<and> heap_ok h1 ext
      \<and> (\<forall>x. link h1 x = link h x) \<and> same_data h h1 \<and> (\<forall>x. x \<notin> set us \<longrightarrow> pbufs h1 x = pbufs h x)
      \<and> (\<forall>x \<in> set us. ptot h1 x + D = ptot h x)"
proof (induction ps arbitrary: p rem h)
  case (Cons a as)
  obtain b where b: "a = p" "pbufs h p = Some b" "path h (nxt b) as" using Cons.prems(1) by (auto simp: link_def)
  show ?case
  proof (cases "rem > len b")
    case False
    then have "realloc_loop p rem (- int D) h = Some (p, rem, h)" using b by (subst realloc_loop.simps) simp
    then show ?thesis using Cons.prems(3) b False
      by (intro exI [of _ "[]"] exI [of _ p] exI [of _ as] exI [of _ rem] exI [of _ h])
        (auto simp: plen_def word_less_nat_alt same_data_def)
  next
    case True
    then have gt: "unat (len b) < unat rem" by (simp add: word_less_nat_alt)
    have tot: "ptot h p = unat (len b) + sum_list (map (plen h) as)" using Cons.prems(2) b by (simp add: plen_def)
    then have "as \<noteq> []" using gt Cons.prems(4) by auto
    then obtain q us where as: "as = q # us" by (cases as) auto
    then have q: "nxt b = Some q" using b(3) by auto
    let ?f = "\<lambda>b :: pbuf. b\<lparr>tot_len := tot_len b + word_of_int (- int D)\<rparr>"
    let ?h = "upd_pbuf p ?f h"
    have pas: "p \<notin> set as" using path_distinct [OF Cons.prems(1)] b(1) by simp
    have l: "link ?h x = link h x" for x by (simp add: link_upd_pbuf link_def option.map_comp comp_def)
    have pc: "path ?h r us = path h r us" for r us by (rule path_cong) (rule l)
    have ok: "heap_ok ?h ext" by (rule heap_same_window [OF Cons.prems(3)]) simp_all
    have sz: "plen ?h x = plen h x" for x by (cases "x = p") (simp_all add: plen_def b(2))
    have sp: "x \<noteq> p \<Longrightarrow> ptot ?h x = ptot h x" for x by (simp add: ptot_def)
    have "plen ?h x = plen h x \<and> ptot ?h x = ptot h x" if "x \<in> set as" for x
      using sz sp that pas by (cases "x = p") simp_all
    then have "packet ?h as = packet h as" by (rule packet_cong)
    then have pk: "packet ?h as" using Cons.prems(2) by simp
    have r: "unat (rem - len b) = unat rem - unat (len b)" using gt by (simp add: unat_sub word_le_nat_alt)
    have "ptot ?h q = ptot h q" using pas as sp by auto
    moreover have "ptot h q = sum_list (map (plen h) as)" using Cons.prems(2) as by simp
    ultimately have sum: "unat (rem - len b) + D = ptot ?h q" using r gt tot Cons.prems(4) by simp
    have "path ?h (Some q) as" using pc b(3) q by simp
    from Cons.IH [OF this pk ok sum] obtain us' q' vs rem' h1 where i:
      "as = us' @ q' # vs" "realloc_loop q (rem - len b) (- int D) ?h = Some (q', rem', h1)"
      "unat (rem - len b) = sum_list (map (plen ?h) us') + unat rem'" "unat rem' \<le> plen ?h q'" "heap_ok h1 ext"
      "\<forall>x. link h1 x = link ?h x" "same_data ?h h1" "\<forall>x. x \<notin> set us' \<longrightarrow> pbufs h1 x = pbufs ?h x"
      "\<forall>x \<in> set us'. ptot h1 x + D = ptot ?h x" by blast
    have pu: "p \<notin> set us'" using pas i(1) by auto
    have "realloc_loop p rem (- int D) h = Some (q', rem', h1)"
      using b True q i(2) by (subst realloc_loop.simps) simp
    moreover have "a # as = (a # us') @ q' # vs" using i(1) by simp
    moreover have "unat rem = sum_list (map (plen h) (a # us')) + unat rem'"
    proof -
      have "map (plen ?h) us' = map (plen h) us'" using sz by (intro map_cong refl)
      then have "unat rem - unat (len b) = sum_list (map (plen h) us') + unat rem'" using i(3) r by (simp only:)
      moreover have "plen h a = unat (len b)" using b by (simp add: plen_def)
      ultimately show ?thesis using gt by simp
    qed
    moreover have "unat rem' \<le> plen h q'" using i(4) sz by simp
    moreover have "\<forall>x. link h1 x = link h x" using i(6) l by simp
    moreover have "same_data h h1" by (rule same_data_trans [OF same_data_upd i(7)]) simp
    moreover have "\<forall>x. x \<notin> set (a # us') \<longrightarrow> pbufs h1 x = pbufs h x" using i(8) b(1) by auto
    moreover have "ptot h1 x + D = ptot h x" if "x \<in> set (a # us')" for x
    proof (cases "x = p")
      case True
      have "pbufs h1 p = Some (?f b)" using i(8) pu b(2) by simp
      moreover have "D \<le> unat (tot_len b)" using Cons.prems(4) b(2) by (simp add: ptot_def)
      then have "unat (tot_len b + word_of_int (- int D)) = unat (tot_len b) - D" by (rule unat_minus_nat)
      ultimately show ?thesis using \<open>D \<le> unat (tot_len b)\<close> True b(2) by (simp add: ptot_def)
    next
      case False
      then show ?thesis using that b(1) i(9) sp by auto
    qed
    ultimately show ?thesis using i(5)
      by (intro exI [of _ "a # us'"] exI [of _ q'] exI [of _ vs] exI [of _ rem'] exI [of _ h1] conjI) simp_all
  qed
qed simp

text \<open>The bytes of a pbuf and of a chain.\<close>

definition pdata :: "heap \<Rightarrow> nat \<Rightarrow> bytes" where
  "pdata h a = (case pbufs h a of
       None \<Rightarrow> []
     | Some b \<Rightarrow> (case payload b of
           None \<Rightarrow> []
         | Some (r, i) \<Rightarrow> (case blocks h r of None \<Rightarrow> [] | Some m \<Rightarrow> take (unat (len b)) (drop (nat i) m))))"

definition cdata :: "heap \<Rightarrow> nat list \<Rightarrow> bytes" where
  "cdata h ps = concat (map (pdata h) ps)"

lemma cdata_simps [simp]: "cdata h [] = []" "cdata h (a # as) = pdata h a @ cdata h as"
  "cdata h (as @ bs) = cdata h as @ cdata h bs"
  by (simp_all add: cdata_def)

lemma pdata_Some:
  "pbufs h a = Some b \<Longrightarrow> payload b = Some (r, i) \<Longrightarrow> blocks h r = Some m \<Longrightarrow> pdata h a = take (unat (len b)) (drop (nat i) m)"
  by (simp add: pdata_def)

lemma pdata_cong:
  assumes "pbufs h x = Some b" and "pbufs h' x = Some c" and "payload c = payload b" and "len c = len b"
    and "\<And>r i. payload b = Some (r, i) \<Longrightarrow> blocks h' r = blocks h r"
  shows "pdata h' x = pdata h x"
  unfolding pdata_def using assms by (cases "payload b") (auto split: option.split)

lemma pdata_same_data: "same_data h h' \<Longrightarrow> pbufs h x = Some b \<Longrightarrow> pdata h' x = pdata h x"
proof -
  assume s: "same_data h h'" and b: "pbufs h x = Some b"
  obtain c where c: "pbufs h' x = Some c" "payload c = payload b" "len c = len b" using s b unfolding same_data_def by metis
  have "blocks h' = blocks h" using s by (simp add: same_data_def)
  with pdata_cong [OF b c] show ?thesis by simp
qed

lemma pdata_shrinks:
  assumes w: "windows_ok h" and s: "shrinks h h'" and c: "pbufs h' x = Some c"
  shows "pdata h' x = pdata h x"
proof -
  obtain b where b: "pbufs h x = Some b" "same_but_ref b c" using s c unfolding shrinks_def by blast
  have "blocks h' r = blocks h r" if "payload b = Some (r, i)" for r i
  proof -
    have "window h x b" using w b(1) by (simp add: windows_ok_def)
    then have "r = x \<or> pbufs h r = None" using that by (auto simp: window_def split: if_splits)
    then show ?thesis using s c by (auto simp: shrinks_def)
  qed
  then show ?thesis using same_but_ref_fields [OF b(2)] by (intro pdata_cong [OF b(1) c]) simp_all
qed

text \<open>Shrinking a packet to its first \<open>n\<close> bytes.\<close>

lemma packet_from: "packet h (us @ q # vs) \<Longrightarrow> ptot h q = sum_list (map (plen h) (q # vs))"
  by (induction us) simp_all

lemma realloc_packet:
  "packet h (us @ q # vs) \<Longrightarrow> (\<forall>x \<in> set us. plen h' x = plen h x \<and> ptot h' x + D = ptot h x) \<Longrightarrow>
    plen h' q = k \<Longrightarrow> ptot h' q = k \<Longrightarrow> k + D = ptot h q \<Longrightarrow> packet h' (us @ [q])"
proof (induction us)
  case (Cons a as)
  have s: "sum_list (map (plen h) (as @ q # vs)) = sum_list (map (plen h) as) + ptot h q"
    using packet_from [OF Cons.prems(1)] by simp
  have "map (plen h') as = map (plen h) as" using Cons.prems(2) by simp
  then have m: "sum_list (map (plen h') as) = sum_list (map (plen h) as)" by (simp only:)
  have "ptot h a = plen h a + sum_list (map (plen h) (as @ q # vs))" using Cons.prems(1) by simp
  then have "ptot h' a + D = plen h a + sum_list (map (plen h) as) + (k + D)"
    using Cons.prems(2,5) s by simp
  then have "ptot h' a = plen h' a + sum_list (map (plen h') as) + plen h' q" using Cons.prems(2,3) m by simp
  moreover have "packet h' (as @ [q])" using Cons by simp
  ultimately show ?case by simp
qed simp

lemma path_trunc:
  "path h p (us @ [q] @ vs) \<Longrightarrow> link h' q = Some None \<Longrightarrow> (\<And>x. x \<in> set us \<Longrightarrow> link h' x = link h x) \<Longrightarrow>
    path h' p (us @ [q])"
  by (induction us arbitrary: p) auto

lemma pbuf_realloc_ok:
  assumes h: "heap_ok h ext" and e: "0 < ext p" and p: "path h (Some p) ps" "packet h ps"
  shows "\<exists>h'. pbuf_realloc (Some p) n h = Some h' \<and> heap_ok h' ext
    \<and> (ptot h p \<le> unat n \<longrightarrow> h' = h)
    \<and> (unat n < ptot h p \<longrightarrow> (\<exists>us q vs. ps = us @ q # vs \<and> path h' (Some p) (us @ [q]) \<and> packet h' (us @ [q])
         \<and> ptot h' p = unat n \<and> (\<forall>x \<in> set us. pdata h' x = pdata h x)
         \<and> unat n = sum_list (map (plen h) us) + plen h' q \<and> plen h' q \<le> plen h q
         \<and> pdata h' q = take (plen h' q) (pdata h q)
         \<and> (\<forall>x c. pbufs h' x = Some c \<longrightarrow> x \<notin> set (us @ [q]) \<longrightarrow> (\<exists>b. pbufs h x = Some b \<and> same_but_ref b c))))"
proof -
  obtain b as where b: "ps = p # as" "pbufs h p = Some b" using p(1) by (cases ps) (auto simp: link_def)
  have tot: "ptot h p = unat (tot_len b)" by (simp add: ptot_def b)
  show ?thesis
  proof (cases "tot_len b \<le> n")
    case True
    then show ?thesis using h b by (auto simp: pbuf_realloc_def tot word_le_nat_alt)
  next
    case False
    then have lt: "unat n < ptot h p" by (simp add: tot word_le_nat_alt)
    define D where "D = ptot h p - unat n"
    have D: "unat n + D = ptot h p" using lt by (simp add: D_def)
    have "int (unat n) + int D = int (unat (tot_len b))" using D tot by (metis of_nat_add)
    then have "int (unat n) - int (unat (tot_len b)) = - int D" by linarith
    then have g: "uint n - uint (tot_len b) = - int D" by (simp only: uint_nat)
    from realloc_loop_ok [OF p h D] obtain us q vs rem h1 where l:
      "ps = us @ q # vs" "realloc_loop p n (- int D) h = Some (q, rem, h1)"
      "unat n = sum_list (map (plen h) us) + unat rem" "unat rem \<le> plen h q" "heap_ok h1 ext"
      "\<forall>x. link h1 x = link h x" "same_data h h1" "\<forall>x. x \<notin> set us \<longrightarrow> pbufs h1 x = pbufs h x"
      "\<forall>x \<in> set us. ptot h1 x + D = ptot h x" by blast
    have dis: "distinct ps" by (rule path_distinct [OF p(1)])
    have qu: "q \<notin> set us" "q \<notin> set vs" using dis l(1) by auto
    have p1: "path h1 r xs = path h r xs" for r xs by (rule path_cong) (use l(6) in blast)
    obtain c where c: "pbufs h q = Some c" using path_alloc [OF p(1), of q] l(1) by auto
    then have c1: "pbufs h1 q = Some c" using l(8) qu(1) by simp
    let ?f = "\<lambda>b :: pbuf. b\<lparr>len := rem, tot_len := rem\<rparr>"
    define h2 where "h2 = upd_pbuf q ?f h1"
    have w1: "window h1 q c" using l(5) c1 by (simp add: heap_ok_def windows_ok_def)
    have "unat rem \<le> unat (len c)" using l(4) c by (simp add: plen_def)
    then have "window h1 q (?f c)" using w1 by (auto simp: window_def split: option.splits)
    then have ok2: "heap_ok h2 ext" unfolding h2_def by (intro heap_same_at [OF l(5) c1]) simp_all
    have c2: "pbufs h2 q = Some (?f c)" using c1 by (simp add: h2_def)
    have "link h2 x = link h1 x" for x using c1 by (simp add: h2_def link_upd_pbuf link_def)
    then have l2: "link h2 x = link h x" for x using l(6) by simp
    have p2: "path h2 r xs = path h r xs" for r xs by (rule path_cong) (rule l2)
    let ?g = "\<lambda>b :: pbuf. b\<lparr>nxt := None\<rparr>"
    obtain r where r: "path h r (q # vs)" using path_append [of h "Some p" us "q # vs"] p(1) l(1) by auto
    then have nv: "path h (nxt c) vs" using c by (auto simp: link_def)
    have fields: "plen h2 q = unat rem" "ptot h2 q = unat rem" by (simp_all add: plen_def ptot_def c2)
    have trunc: "path (upd_pbuf q ?g h2) (Some p) (us @ [q])"
    proof -
      have "path h2 (Some p) (us @ [q] @ vs)" using p(1) p2 l(1) by simp
      then show ?thesis using qu c2 by (intro path_trunc) (auto simp: link_upd_pbuf)
    qed
    have eq: "pbuf_realloc (Some p) n h = do {
        h \<leftarrow> (if nxt c \<noteq> None then map_option snd (pbuf_free (nxt c) h2) else Some h2);
        _ \<leftarrow> pbufs h q;
        Some (upd_pbuf q ?g h)
      }"
      using b(2) False g l(2) c1 by (simp add: pbuf_realloc_def h2_def [symmetric])
    text \<open>The rest of the chain is freed, and the pointer to it goes.\<close>
    obtain h' where h': "pbuf_realloc (Some p) n h = Some h'" "heap_ok h' ext" "shrinks (upd_pbuf q ?g h2) h'"
    proof (cases vs)
      case Nil
      then have nn: "nxt c = None" using nv by simp
      have "upd_pbuf q ?g h2 = h2" by (rule upd_pbuf_id [OF c2]) (simp add: nn)
      moreover have "shrinks h2 h2" by (auto simp: shrinks_def same_but_ref_def)
      ultimately show ?thesis
        using that [of h2] eq c2 nn ok2 by simp
    next
      case (Cons v ws)
      then have nn: "nxt c = Some v" using nv by auto
      have lq: "link h2 q = Some (Some v)" using c2 nn by (simp add: link_def)
      have ok3: "heap_ok (upd_pbuf q ?g h2) (ext(v := ext v + 1))"
        by (rule heap_unlink [OF ok2 lq]) (simp_all, subst window_fields, simp_all)
      have p3: "path (upd_pbuf q ?g h2) (Some v) vs"
        by (subst path_cong [of vs _ h2]) (use nv nn p2 qu in \<open>auto simp: link_upd_pbuf\<close>)
      have "0 < (ext(v := ext v + 1)) v" by simp
      from pbuf_free_ok [OF ok3 this p3] obtain k h4 where h4: "free_chain vs (upd_pbuf q ?g h2) = (k, h4)"
        "heap_ok h4 ((ext(v := ext v + 1))(v := (ext(v := ext v + 1)) v - 1))" "shrinks (upd_pbuf q ?g h2) h4" by blast
      obtain h3 where h3: "free_chain vs h2 = (k, h3)" "h4 = upd_pbuf q ?g h3"
        using h4(1) free_chain_upd [OF qu(2), of ?g h2] by (cases "free_chain vs h2") auto
      have "path h2 (Some v) vs" using nv nn p2 by simp
      then have fr: "pbuf_free (Some v) h2 = Some (word_of_nat k, h3)"
        using pbuf_free_loop_chain [of h2 "Some v" vs 0] path_counted [of h2 ext "Some v" vs] ok2 h3(1)
        by (simp add: pbuf_free_def heap_ok_def)
      have "q \<notin> set vs" by (rule qu)
      have "(ext(v := ext v + 1))(v := (ext(v := ext v + 1)) v - 1) = ext" by auto
      then have ok4: "heap_ok h4 ext" using h4(2) by (simp only:)
      then obtain b4 where "pbufs h4 p = Some b4" using refs_ok_alloc [of h4 ext p] e by (auto simp: heap_ok_def)
      moreover have "path (upd_pbuf q ?g h2) (Some p) (us @ [q])"
        using trunc .
      ultimately have "path h4 (Some p) (us @ [q])"
        using path_shrinks [OF _ h4(3)] ok4 unfolding heap_ok_def by blast
      then have "pbufs h4 q \<noteq> None" using path_alloc [of h4 "Some p" "us @ [q]" q] by auto
      then have "\<exists>x. pbufs h3 q = Some x" by (auto simp: h3(2))
      then show ?thesis
        using that [of h4] eq c2 nn fr h4(3) ok4 h3(2) by auto
    qed
    obtain b4 where b4: "pbufs h' p = Some b4" using refs_ok_alloc [of h' ext p] e h'(2) by (auto simp: heap_ok_def)
    have p4: "path h' (Some p) (us @ [q])"
      using path_shrinks [OF trunc h'(3) _ b4] h'(2) unfolding heap_ok_def by blast
    have sizes: "plen h' x = plen h2 x \<and> ptot h' x = ptot h2 x" and data: "pdata h' x = pdata (upd_pbuf q ?g h2) x"
      if x: "x \<in> set (us @ [q])" for x
    proof -
      obtain d where d: "pbufs h' x = Some d" using path_alloc [OF p4 x] by blast
      obtain a where a: "pbufs (upd_pbuf q ?g h2) x = Some a" "same_but_ref a d"
        using h'(3) d unfolding shrinks_def by blast
      obtain a' where "pbufs h2 x = Some a'" "len a = len a'" "tot_len a = tot_len a'"
        using a(1) c2 by (cases "x = q") auto
      then show "plen h' x = plen h2 x \<and> ptot h' x = ptot h2 x"
        using d same_but_ref_fields [OF a(2)] by (simp add: plen_def ptot_def)
      show "pdata h' x = pdata (upd_pbuf q ?g h2) x"
        by (rule pdata_shrinks [OF _ h'(3) d])
          (rule windows_upd, use ok2 in \<open>simp add: heap_ok_def\<close>, subst window_fields, simp_all)
    qed
    have us: "pdata h' x = pdata h x \<and> plen h' x = plen h x \<and> ptot h' x + D = ptot h x" if x: "x \<in> set us" for x
    proof -
      have xq: "x \<noteq> q" using x qu by blast
      obtain bx where bx: "pbufs h x = Some bx" using path_alloc [OF p(1), of x] l(1) x by auto
      obtain cx where cx: "pbufs h1 x = Some cx" "payload cx = payload bx" "len cx = len bx"
        using l(7) bx unfolding same_data_def by metis
      have "pdata (upd_pbuf q ?g h2) x = pdata h1 x" by (rule pdata_cong [OF cx(1), of _ cx]) (use xq cx in \<open>auto simp: h2_def\<close>)
      also have "... = pdata h x" by (rule pdata_same_data [OF l(7) bx])
      finally have "pdata h' x = pdata h x" using x data [of x] by simp
      moreover have "plen h2 x = plen h x" "ptot h2 x = ptot h1 x" using xq bx cx by (simp_all add: plen_def ptot_def h2_def)
      moreover have "ptot h1 x + D = ptot h x" using l(9) x by blast
      ultimately show ?thesis using x sizes [of x] by simp
    qed
    have q4: "plen h' q = unat rem" "ptot h' q = unat rem" using sizes [of q] fields by simp_all
    have "packet h' (us @ [q])"
    proof (rule realloc_packet [OF p(2) [unfolded l(1)]])
      show "\<forall>x \<in> set us. plen h' x = plen h x \<and> ptot h' x + D = ptot h x" using us by blast
      have "ptot h p = sum_list (map (plen h) ps)" using packet_from [of h "[]" p as] p(2) by (simp add: b(1))
      then have "ptot h p = sum_list (map (plen h) us) + ptot h q"
        using packet_from [of h us q vs] p(2) by (simp add: l(1))
      then show "unat rem + D = ptot h q" using D l(3) by simp
    qed (rule q4)+
    moreover have "ptot h' p = unat n"
    proof -
      have "ptot h' p = sum_list (map (plen h') (us @ [q]))"
        using \<open>packet h' (us @ [q])\<close> p4 by (cases us) auto
      moreover have "map (plen h') us = map (plen h) us" using us by simp
      ultimately show ?thesis using l(3) q4 by simp
    qed
    moreover have "pdata h' q = take (unat rem) (pdata h q)"
    proof -
      have m: "blocks h1 = blocks h" using l(7) by (simp add: same_data_def)
      have "pdata (upd_pbuf q ?g h2) q = take (unat rem) (pdata h q)"
        unfolding pdata_def
        using c c1 l(4) m by (auto simp: plen_def h2_def min_absorb1 split: option.split)
      then show ?thesis using data [of q] by simp
    qed
    moreover have other: "\<forall>x c. pbufs h' x = Some c \<longrightarrow> x \<notin> set (us @ [q]) \<longrightarrow> (\<exists>b. pbufs h x = Some b \<and> same_but_ref b c)"
      using h'(3) l(8) unfolding shrinks_def h2_def by (auto split: if_splits)
    ultimately have "\<exists>us q vs. ps = us @ q # vs \<and> path h' (Some p) (us @ [q]) \<and> packet h' (us @ [q])
         \<and> ptot h' p = unat n \<and> (\<forall>x \<in> set us. pdata h' x = pdata h x)
         \<and> unat n = sum_list (map (plen h) us) + plen h' q \<and> plen h' q \<le> plen h q
         \<and> pdata h' q = take (plen h' q) (pdata h q)
         \<and> (\<forall>x c. pbufs h' x = Some c \<longrightarrow> x \<notin> set (us @ [q]) \<longrightarrow> (\<exists>b. pbufs h x = Some b \<and> same_but_ref b c))"
      using l(1,3,4) p4 us q4 other by (intro exI [of _ us] exI [of _ q] exI [of _ vs]) simp
    moreover have "\<not> ptot h p \<le> unat n" using lt by simp
    ultimately show ?thesis using h'(1,2) by blast
  qed
qed

end
