(* ===== verification/Pbuf_Data.thy ===== *)
theory Pbuf_Data imports Pbuf_Inv begin

section \<open>Packet buffers of lwIP: the data\<close>

text \<open>
  What the copying operations of \<open>pbuf.c\<close> do with the bytes of a packet (\<open>cdata\<close>, the payloads of the
  chain one behind the other): reading a part, filling a packet, copying one into another and
  making one pbuf of a chain. The number of pbufs and how the bytes are split among them do not matter.
\<close>

subsection \<open>Bytes of one pbuf\<close>

definition splice :: "nat \<Rightarrow> bytes \<Rightarrow> bytes \<Rightarrow> bytes" where
  "splice i bs xs = take i xs @ bs @ drop (i + length bs) xs"

lemma length_splice: "i + length bs \<le> length xs \<Longrightarrow> length (splice i bs xs) = length xs"
  by (simp add: splice_def)

lemma take_drop_splice:
  "i + l \<le> length m \<Longrightarrow> j + length bs \<le> l \<Longrightarrow>
    take l (drop i (splice (i + j) bs m)) = splice j bs (take l (drop i m))"
proof (rule nth_equalityI)
  assume a: "i + l \<le> length m" "j + length bs \<le> l"
  then show "length (take l (drop i (splice (i + j) bs m))) = length (splice j bs (take l (drop i m)))"
    by (simp add: splice_def)
  fix k assume "k < length (take l (drop i (splice (i + j) bs m)))"
  then have k: "k < l" "i + k < length m" using a by (simp_all add: splice_def)
  show "take l (drop i (splice (i + j) bs m)) ! k = splice j bs (take l (drop i m)) ! k"
    using a k by (simp add: splice_def nth_append)
qed

text \<open>The memory of a pbuf of the first two types is its own.\<close>

definition owned :: "heap \<Rightarrow> nat \<Rightarrow> bool" where
  "owned h a \<longleftrightarrow> (case pbufs h a of None \<Rightarrow> False | Some b \<Rightarrow> ptype b = PBUF_RAM \<or> ptype b = PBUF_POOL)"

definition has_data :: "heap \<Rightarrow> nat \<Rightarrow> bool" where
  "has_data h a \<longleftrightarrow> (case pbufs h a of None \<Rightarrow> False | Some b \<Rightarrow> payload b \<noteq> None)"

lemma window_cases:
  assumes "windows_ok h" "pbufs h a = Some b" "payload b \<noteq> None"
  obtains r i m where "payload b = Some (r, i)" "0 \<le> i" "blocks h r = Some m" "nat i + unat (len b) \<le> length m"
    "r = a \<or> pbufs h r = None" "owned h a \<Longrightarrow> r = a" "pdata h a = take (unat (len b)) (drop (nat i) m)"
proof -
  have w: "window h a b" using assms by (simp add: windows_ok_def)
  obtain r i where p: "payload b = Some (r, i)" using assms(3) by auto
  then obtain m where m: "blocks h r = Some m" "0 \<le> i" "nat i + unat (len b) \<le> length m"
    "r = a \<or> pbufs h r = None" "ptype b \<in> {PBUF_RAM, PBUF_POOL} \<Longrightarrow> r = a"
    using w by (auto simp: window_def split: if_splits)
  show ?thesis
    by (rule that [OF p m(2,1,3,4)]) (use m(5) assms(2) pdata_Some [OF assms(2) p m(1)] in \<open>auto simp: owned_def\<close>)
qed

lemma owned_data: "windows_ok h \<Longrightarrow> owned h a \<Longrightarrow> has_data h a"
proof -
  assume w: "windows_ok h" and o: "owned h a"
  obtain b where b: "pbufs h a = Some b" "ptype b = PBUF_RAM \<or> ptype b = PBUF_POOL"
    using o by (auto simp: owned_def split: option.splits)
  then have "window h a b" using w by (simp add: windows_ok_def)
  then show ?thesis using b by (cases "payload b") (auto simp: has_data_def window_def)
qed

lemma length_pdata: "windows_ok h \<Longrightarrow> has_data h a \<Longrightarrow> length (pdata h a) = plen h a"
proof -
  assume w: "windows_ok h" and d: "has_data h a"
  obtain b where b: "pbufs h a = Some b" "payload b \<noteq> None" using d by (auto simp: has_data_def split: option.splits)
  from window_cases [OF w b] obtain r i m where m:
    "pdata h a = take (unat (len b)) (drop (nat i) m)" "nat i + unat (len b) \<le> length m" by metis
  then show ?thesis using b by (simp add: plen_def)
qed

lemma peek_ok:
  assumes "windows_ok h" "pbufs h a = Some b" "payload b \<noteq> None" "i + n \<le> unat (len b)"
  shows "peek h b i n = Some (take n (drop i (pdata h a)))"
proof -
  from window_cases [OF assms(1-3)] obtain r k m where
    k: "payload b = Some (r, k)" "0 \<le> k" "blocks h r = Some m" "nat k + unat (len b) \<le> length m"
    "pdata h a = take (unat (len b)) (drop (nat k) m)" by metis
  have "take n (drop (nat k + i) m) = take n (drop i (pdata h a))"
    using assms(4) by (simp add: k(5) drop_take min_absorb1 add.commute)
  then show ?thesis using k assms(4) by (simp add: peek_def rdn_in)
qed

lemma poke_ok:
  assumes w: "windows_ok h" "pbufs h a = Some b" "owned h a" "i + length bs \<le> unat (len b)"
  shows "\<exists>h'. poke h b i bs = Some h' \<and> same_shape h h' \<and> pdata h' a = splice i bs (pdata h a)
    \<and> (\<forall>x. x \<noteq> a \<longrightarrow> pdata h' x = pdata h x)"
proof -
  have "payload b \<noteq> None" using owned_data [OF w(1,3)] w(2) by (simp add: has_data_def)
  from window_cases [OF w(1,2) this] obtain r k m where
    "payload b = Some (r, k)" "0 \<le> k" "blocks h r = Some m" "nat k + unat (len b) \<le> length m"
    "owned h a \<Longrightarrow> r = a" "pdata h a = take (unat (len b)) (drop (nat k) m)" by metis
  then have k: "payload b = Some (a, k)" "0 \<le> k" "blocks h a = Some m" "nat k + unat (len b) \<le> length m"
    "pdata h a = take (unat (len b)) (drop (nat k) m)" using w(3) by auto
  let ?m = "splice (nat k + i) bs m"
  let ?h = "h\<lparr>blocks := (blocks h)(a \<mapsto> ?m)\<rparr>"
  have "poke h b i bs = Some ?h" using k(1-4) w(4) by (simp add: poke_def wrn_in splice_def)
  moreover have "same_shape h ?h" using k(3,4) w(4) by (simp add: same_shape_def length_splice)
  moreover have "pdata ?h a = splice i bs (pdata h a)"
    using pdata_Some [of ?h a b a k ?m] w(2,4) k take_drop_splice [OF k(4) w(4)] by simp
  moreover have "pdata ?h x = pdata h x" if x: "x \<noteq> a" for x
  proof (cases "pbufs h x")
    case None
    then show ?thesis by (simp add: pdata_def)
  next
    case (Some c)
    show ?thesis
    proof (rule pdata_cong [OF Some, of _ c])
      show "blocks ?h r = blocks h r" if p: "payload c = Some (r, j)" for r j
      proof -
        have "payload c \<noteq> None" using p by simp
        from window_cases [OF w(1) Some this] have "r = x \<or> pbufs h r = None" using p by (metis option.inject prod.inject)
        then have "r \<noteq> a" using x w(2) by auto
        then show ?thesis by simp
      qed
    qed (use Some in simp_all)
  qed
  ultimately show ?thesis by blast
qed

lemma same_shape_sizes:
  "same_shape h h' \<Longrightarrow> plen h' = plen h \<and> ptot h' = ptot h \<and> link h' = link h \<and> owned h' = owned h \<and> has_data h' = has_data h"
  by (simp add: same_shape_def plen_def ptot_def link_def owned_def has_data_def fun_eq_iff)

lemma same_shape_trans: "same_shape h g \<Longrightarrow> same_shape g k \<Longrightarrow> same_shape h k"
  by (simp add: same_shape_def)

lemma same_shape_refl [simp]: "same_shape h h"
  by (simp add: same_shape_def)

lemma same_shape_windows: "same_shape h h' \<Longrightarrow> windows_ok h \<Longrightarrow> windows_ok h'"
proof -
  assume s: "same_shape h h'" and w: "windows_ok h"
  have len: "map_option length (blocks h' r) = map_option length (blocks h r)" for r using s by (simp add: same_shape_def)
  have e: "(\<exists>m. blocks h' r = Some m \<and> k \<le> length m) = (\<exists>m. blocks h r = Some m \<and> k \<le> length m)" for r k
    using len [of r] by (cases "blocks h r"; cases "blocks h' r") auto
  have n: "(blocks h' r = None) = (blocks h r = None)" for r using len [of r] by auto
  have p: "pbufs h' = pbufs h" using s by (simp add: same_shape_def)
  show ?thesis using w unfolding windows_ok_def window_def e n p .
qed

lemma same_shape_path: "same_shape h h' \<Longrightarrow> path h' p ps = path h p ps"
  by (rule path_cong) (simp add: same_shape_sizes)

lemma same_shape_packet: "same_shape h h' \<Longrightarrow> packet h' ps = packet h ps"
  by (rule packet_cong) (simp add: same_shape_sizes)

subsection \<open>Reading\<close>

lemma splice_splice:
  "i + length bs + length cs \<le> length xs \<Longrightarrow> splice (i + length bs) cs (splice i bs xs) = splice i (bs @ cs) xs"
  by (simp add: splice_def ac_simps)

lemma sum_plen: "windows_ok h \<Longrightarrow> \<forall>x \<in> set ps. has_data h x \<Longrightarrow> length (cdata h ps) = sum_list (map (plen h) ps)"
  by (induction ps) (simp_all add: length_pdata)

lemma unat_sub_le: "b \<le> (a :: u16) \<Longrightarrow> unat (a - b) = unat a - unat b"
  by (simp add: unat_sub)

lemma copy_partial_loop_ok:
  "windows_ok h \<Longrightarrow> path h p ps \<Longrightarrow> \<forall>x \<in> set ps. has_data h x \<Longrightarrow>
    k = min (unat n) (length (cdata h ps) - unat off) \<Longrightarrow> unat left + unat n < 65536 \<Longrightarrow> unat left + k \<le> length dst \<Longrightarrow>
    copy_partial_loop p n off left dst h
      = Some (left + word_of_nat k, splice (unat left) (take k (drop (unat off) (cdata h ps))) dst)"
proof (induction ps arbitrary: p n off left dst k)
  case Nil
  then show ?case by (subst copy_partial_loop.simps) (simp add: splice_def)
next
  case (Cons a as)
  obtain b where b: "p = Some a" "pbufs h a = Some b" "path h (nxt b) as" using Cons.prems(2) by (auto simp: link_def)
  have d: "has_data h a" "payload b \<noteq> None" using Cons.prems(3) b(2) by (auto simp: has_data_def)
  have l: "length (pdata h a) = unat (len b)" using length_pdata [OF Cons.prems(1) d(1)] b(2) by (simp add: plen_def)
  have pre: "\<forall>x \<in> set as. has_data h x" using Cons.prems(3) by simp
  note IH = Cons.IH [OF Cons.prems(1) b(3) pre]
  show ?case
  proof (cases "n = 0")
    case True
    then show ?thesis using b Cons.prems(4) by (subst copy_partial_loop.simps) (simp add: splice_def)
  next
    case nz: False
    show ?thesis
    proof (cases "off \<noteq> 0 \<and> off \<ge> len b")
      case True
      then have u: "unat (off - len b) = unat off - unat (len b)" "unat (len b) \<le> unat off"
        by (simp_all add: unat_sub_le word_le_nat_alt)
      have "copy_partial_loop (nxt b) n (off - len b) left dst h
          = Some (left + word_of_nat k, splice (unat left) (take k (drop (unat (off - len b)) (cdata h as))) dst)"
        by (rule IH) (use Cons.prems(4-6) l u in simp_all)
      then show ?thesis using b nz True l u by (subst copy_partial_loop.simps) simp
    next
      case False
      define c where "c = (if len b - off > n then n else len b - off)"
      have o: "unat off \<le> unat (len b)" using False by (auto simp: word_le_nat_alt word_less_nat_alt not_le)
      then have c: "unat c = min (unat n) (unat (len b) - unat off)"
        by (auto simp: c_def unat_sub_le word_le_nat_alt word_less_nat_alt)
      have "peek h b (unat off) (unat c) = Some (take (unat c) (drop (unat off) (pdata h a)))"
        by (rule peek_ok [OF Cons.prems(1) b(2) d(2)]) (use c o in simp)
      moreover define bs where "bs = take (unat c) (drop (unat off) (pdata h a))"
      moreover have lb: "length bs = unat c" using c l o by (simp add: bs_def)
      have ck: "unat c \<le> k" using c l o Cons.prems(4) by simp
      moreover have "wrn dst (unat left) bs = Some (splice (unat left) bs dst)"
        using Cons.prems(6) ck lb by (simp add: wrn_in splice_def)
      ultimately have step: "copy_partial_loop p n off left dst h
          = copy_partial_loop (nxt b) (n - c) 0 (left + c) (splice (unat left) bs dst) h"
        using b nz False by (subst copy_partial_loop.simps) (auto simp: c_def [symmetric] Let_def)
      have nc: "unat (n - c) = unat n - unat c" using c by (simp add: unat_sub_le word_le_nat_alt)
      have lc: "unat (left + c) = unat left + unat c" using Cons.prems(5) c by (simp add: unat_word_ariths)
      have ls: "length (splice (unat left) bs dst) = length dst" using Cons.prems(6) lb ck by (simp add: length_splice)
      have "copy_partial_loop (nxt b) (n - c) 0 (left + c) (splice (unat left) bs dst) h
          = Some (left + c + word_of_nat (k - unat c),
              splice (unat (left + c)) (take (k - unat c) (drop (unat (0 :: u16)) (cdata h as))) (splice (unat left) bs dst))"
        by (rule IH) (use Cons.prems(4-6) l o c ck nc lc ls in \<open>auto simp: min_def split: if_splits\<close>)
      moreover have "splice (unat left + unat c) (take (k - unat c) (cdata h as)) (splice (unat left) bs dst)
          = splice (unat left) (take k (drop (unat off) (cdata h (a # as)))) dst"
      proof -
        have "bs @ take (k - unat c) (cdata h as) = take k (drop (unat off) (cdata h (a # as)))"
        proof (cases "unat n \<le> unat (len b) - unat off")
          case True
          then have "unat c = unat n" "k = unat n" using c Cons.prems(4) l by simp_all
          then show ?thesis using True l o by (simp add: bs_def)
        next
          case False
          then have "unat c = unat (len b) - unat off" using c by simp
          then show ?thesis using ck l o by (simp add: bs_def)
        qed
        moreover have "unat left + length bs + length (take (k - unat c) (cdata h as)) \<le> length dst"
          using Cons.prems(6) lb ck by simp
        ultimately show ?thesis using splice_splice [of "unat left" bs _ dst] lb by simp
      qed
      moreover have "left + c + word_of_nat (k - unat c) = left + word_of_nat k"
      proof -
        have "word_of_nat k = word_of_nat (unat c) + (word_of_nat (k - unat c) :: u16)"
          using ck by (metis le_add_diff_inverse of_nat_add)
        then show ?thesis by simp
      qed
      ultimately show ?thesis using step lc by simp
    qed
  qed
qed

lemma pbuf_copy_partial_ok:
  assumes "windows_ok h" "path h (Some p) ps" "\<forall>x \<in> set ps. has_data h x"
    and "min (unat n) (length (cdata h ps) - unat off) \<le> length dst"
  shows "pbuf_copy_partial (Some p) dst n off h
    = Some (word_of_nat (min (unat n) (length (cdata h ps) - unat off)),
        take (unat n) (drop (unat off) (cdata h ps)) @ drop (min (unat n) (length (cdata h ps) - unat off)) dst)"
proof -
  have "unat (0 :: u16) + unat n < 65536" using unsigned_less [of n, where 'a = nat] by simp
  with copy_partial_loop_ok [OF assms(1-3) refl, where n = n and off = off and left = 0 and dst = dst] assms(4)
  have "copy_partial_loop (Some p) n off 0 dst h
    = Some (word_of_nat (min (unat n) (length (cdata h ps) - unat off)),
        splice 0 (take (min (unat n) (length (cdata h ps) - unat off)) (drop (unat off) (cdata h ps))) dst)" by simp
  moreover have "take (min (unat n) (length (cdata h ps) - unat off)) (drop (unat off) (cdata h ps))
      = take (unat n) (drop (unat off) (cdata h ps))" by (simp add: min_def)
  moreover have "length (take (unat n) (drop (unat off) (cdata h ps))) = min (unat n) (length (cdata h ps) - unat off)" by simp
  ultimately show ?thesis by (simp only: pbuf_copy_partial_def splice_def) simp
qed

subsection \<open>Filling\<close>

lemma cdata_cong: "(\<And>x. x \<in> set ps \<Longrightarrow> pdata h' x = pdata h x) \<Longrightarrow> cdata h' ps = cdata h ps"
  by (simp add: cdata_def cong: map_cong)

lemma take_loop_ok:
  "windows_ok h \<Longrightarrow> path h p ps \<Longrightarrow> \<forall>x \<in> set ps. owned h x \<Longrightarrow> unat n \<le> length (cdata h ps) \<Longrightarrow>
    unat off + unat n \<le> length dat \<Longrightarrow> unat off + unat n < 65536 \<Longrightarrow>
    \<exists>h'. take_loop p n off dat h = Some (off + n, h') \<and> same_shape h h'
      \<and> cdata h' ps = take (unat n) (drop (unat off) dat) @ drop (unat n) (cdata h ps)
      \<and> (\<forall>x. x \<notin> set ps \<longrightarrow> pdata h' x = pdata h x)"
proof (induction ps arbitrary: p n off h)
  case Nil
  then have "n = 0" by (simp add: unat_eq_0')
  then show ?case by (subst take_loop.simps) (intro exI [of _ h], simp)
next
  case (Cons a as)
  obtain b where b: "p = Some a" "pbufs h a = Some b" "path h (nxt b) as" using Cons.prems(2) by (auto simp: link_def)
  have o: "owned h a" using Cons.prems(3) by simp
  have l: "length (pdata h a) = unat (len b)"
    using length_pdata [OF Cons.prems(1) owned_data [OF Cons.prems(1) o]] b(2) by (simp add: plen_def)
  show ?case
  proof (cases "n = 0")
    case True
    then show ?thesis by (subst take_loop.simps) (intro exI [of _ h], simp)
  next
    case False
    define k where "k = (if n > len b then len b else n)"
    have k: "unat k = min (unat n) (unat (len b))" by (auto simp: k_def word_less_nat_alt min_def)
    define bs where "bs = take (unat k) (drop (unat off) dat)"
    have lb: "length bs = unat k" using Cons.prems(5) k by (simp add: bs_def)
    have "rdn dat (unat off) (unat k) = Some bs" using Cons.prems(5) k by (simp add: rdn_in bs_def)
    moreover obtain h1 where h1: "poke h b 0 bs = Some h1" "same_shape h h1" "pdata h1 a = splice 0 bs (pdata h a)"
      "\<forall>x. x \<noteq> a \<longrightarrow> pdata h1 x = pdata h x"
      using poke_ok [OF Cons.prems(1) b(2) o, of 0 bs] lb k by auto
    ultimately have step: "take_loop p n off dat h = take_loop (nxt b) (n - k) (off + k) dat h1"
      using b False by (subst take_loop.simps) (simp add: k_def [symmetric])
    have a: "a \<notin> set as" using path_distinct [OF Cons.prems(2)] by simp
    have c: "cdata h1 as = cdata h as" by (rule cdata_cong) (use h1(4) a in auto)
    have nk: "unat (n - k) = unat n - unat k" using k by (simp add: unat_sub_le word_le_nat_alt)
    have ok: "unat (off + k) = unat off + unat k" using Cons.prems(6) k by (simp add: unat_word_ariths)
    have own: "\<forall>x \<in> set as. owned h1 x" using Cons.prems(3) same_shape_sizes [OF h1(2)] by simp
    have p1: "path h1 (nxt b) as" using b(3) same_shape_path [OF h1(2)] by simp
    have r1: "unat (n - k) \<le> length (cdata h1 as)" using Cons.prems(4) l k c nk by (simp add: min_def split: if_splits)
    have r2: "unat (off + k) + unat (n - k) \<le> length dat" "unat (off + k) + unat (n - k) < 65536"
      using Cons.prems(5,6) ok nk k by simp_all
    from Cons.IH [OF same_shape_windows [OF h1(2) Cons.prems(1)] p1 own r1 r2] obtain h' where h':
      "take_loop (nxt b) (n - k) (off + k) dat h1 = Some (off + k + (n - k), h')" "same_shape h1 h'"
      "cdata h' as = take (unat (n - k)) (drop (unat (off + k)) dat) @ drop (unat (n - k)) (cdata h1 as)"
      "\<forall>x. x \<notin> set as \<longrightarrow> pdata h' x = pdata h1 x" by blast
    have "pdata h' a = bs @ drop (unat k) (pdata h a)" using h'(4) a h1(3) lb by (simp add: splice_def)
    then have "cdata h' (a # as) = bs @ drop (unat k) (pdata h a) @ take (unat n - unat k) (drop (unat off + unat k) dat)
        @ drop (unat n - unat k) (cdata h as)" using h'(3) nk ok c by simp
    also have "... = take (unat n) (drop (unat off) dat) @ drop (unat n) (cdata h (a # as))"
    proof (cases "unat n \<le> unat (len b)")
      case True
      then have "unat k = unat n" using k by simp
      then show ?thesis using True l by (simp add: bs_def)
    next
      case False
      then have kl: "unat k = unat (len b)" using k by simp
      have "take (unat n) (drop (unat off) dat) = take (unat k + (unat n - unat k)) (drop (unat off) dat)"
        using False kl by simp
      also have "... = bs @ take (unat n - unat k) (drop (unat off + unat k) dat)"
        by (simp only: take_add bs_def drop_drop add.commute)
      finally show ?thesis using False l kl by simp
    qed
    finally have "cdata h' (a # as) = take (unat n) (drop (unat off) dat) @ drop (unat n) (cdata h (a # as))" .
    moreover have "pdata h' x = pdata h x" if "x \<notin> set (a # as)" for x using that h'(4) h1(4) by simp
    moreover have "off + k + (n - k) = off + n" by simp
    ultimately show ?thesis using step h'(1) same_shape_trans [OF h1(2) h'(2)] by (intro exI [of _ h']) simp
  qed
qed

lemma pbuf_take_ok:
  assumes h: "windows_ok h" "path h (Some p) ps" "\<forall>x \<in> set ps. owned h x" "packet h ps" and n: "unat n \<le> length dat"
  shows "\<exists>h'. pbuf_take (Some p) dat n h = Some (if ptot h p < unat n then ERR_ARG else ERR_OK, h') \<and> same_shape h h'
      \<and> cdata h' ps = (if ptot h p < unat n then cdata h ps else take (unat n) dat @ drop (unat n) (cdata h ps))
      \<and> (\<forall>x. x \<notin> set ps \<longrightarrow> pdata h' x = pdata h x)"
proof -
  obtain b where b: "pbufs h p = Some b" using path_alloc [OF h(2), of p] h(2) by (cases ps) auto
  have d: "\<forall>x \<in> set ps. has_data h x" using h(3) owned_data [OF h(1)] by blast
  have tot: "ptot h p = unat (tot_len b)" by (simp add: ptot_def b)
  have "ptot h p = length (cdata h ps)" using h(2,4) sum_plen [OF h(1) d] by (cases ps) auto
  show ?thesis
  proof (cases "tot_len b < n")
    case True
    then show ?thesis using b tot by (intro exI [of _ h]) (simp add: pbuf_take_def word_less_nat_alt)
  next
    case False
    then have le: "unat n \<le> length (cdata h ps)" using tot \<open>ptot h p = length (cdata h ps)\<close> by (simp add: word_less_nat_alt)
    have r: "unat (0 :: u16) + unat n \<le> length dat" "unat (0 :: u16) + unat n < 65536"
      using n unsigned_less [of n, where 'a = nat] by simp_all
    from take_loop_ok [OF h(1-3) le r] obtain h' where
      "take_loop (Some p) n 0 dat h = Some (0 + n, h')" "same_shape h h'"
      "cdata h' ps = take (unat n) (drop (unat (0 :: u16)) dat) @ drop (unat n) (cdata h ps)"
      "\<forall>x. x \<notin> set ps \<longrightarrow> pdata h' x = pdata h x" by blast
    then show ?thesis using b False tot by (intro exI [of _ h']) (simp add: pbuf_take_def word_less_nat_alt)
  qed
qed

subsection \<open>Copying from packet to packet\<close>

lemma copy_bytes_ok:
  assumes w: "windows_ok h" and t: "pbufs h t = Some bt" "owned h t" and f: "pbufs h f = Some bf" "has_data h f" "f \<noteq> t"
    and i: "i + n \<le> unat (len bt)" "j + n \<le> unat (len bf)"
  shows "\<exists>h'. copy_bytes bt i bf j n h = Some h' \<and> same_shape h h'
    \<and> pdata h' t = splice i (take n (drop j (pdata h f))) (pdata h t) \<and> (\<forall>x. x \<noteq> t \<longrightarrow> pdata h' x = pdata h x)"
proof -
  have pf: "payload bf \<noteq> None" using f(1,2) by (simp add: has_data_def)
  have pt: "payload bt \<noteq> None" using owned_data [OF w t(2)] t(1) by (simp add: has_data_def)
  from window_cases [OF w f(1) pf] obtain s l where s: "payload bf = Some (s, l)" "s = f \<or> pbufs h s = None" by metis
  from window_cases [OF w t(1) pt] obtain r k where r: "payload bt = Some (r, k)" "owned h t \<Longrightarrow> r = t" by metis
  have "\<not> overlap bt i bf j n" using s r t f(3) by (auto simp: overlap_def)
  moreover have "peek h bf j n = Some (take n (drop j (pdata h f)))" by (rule peek_ok [OF w f(1) pf i(2)])
  moreover have "length (take n (drop j (pdata h f))) = n"
    using length_pdata [OF w f(2)] f(1) i(2) by (simp add: plen_def)
  ultimately show ?thesis
    using poke_ok [OF w t, of i "take n (drop j (pdata h f))"] i(1) by (simp add: copy_bytes_def)
qed

text \<open>The last pbuf of a chain must not be empty: \<open>pbuf_copy\<close> takes an empty rest for another packet, or finds
  no space left for it.\<close>

definition dense :: "heap \<Rightarrow> nat list \<Rightarrow> bool" where
  "dense h ps \<longleftrightarrow> tl ps = [] \<or> 0 < plen h (last ps)"

lemma dense_tl: "dense h (a # as) \<Longrightarrow> dense h as"
  by (cases as) (auto simp: dense_def)

lemma dense_sum: "dense h (a # as) \<Longrightarrow> as \<noteq> [] \<Longrightarrow> 0 < sum_list (map (plen h) as)"
proof -
  assume "dense h (a # as)" "as \<noteq> []"
  then have "0 < plen h (last as)" "plen h (last as) \<in> set (map (plen h) as)" by (auto simp: dense_def)
  then show ?thesis using member_le_sum_list [of "plen h (last as)" "map (plen h) as"] by linarith
qed

lemma not_queue_ok: "path h p ps \<Longrightarrow> packet h ps \<Longrightarrow> dense h ps \<Longrightarrow> not_queue p h = Some True"
proof (cases ps)
  case Nil
  then show "path h p ps \<Longrightarrow> ?thesis" by (simp add: not_queue_def)
next
  case (Cons a as)
  assume p: "path h p ps" "packet h ps" "dense h ps"
  then obtain b where b: "p = Some a" "pbufs h a = Some b" "path h (nxt b) as" using Cons by (auto simp: link_def)
  show ?thesis
  proof (cases as)
    case Nil
    then show ?thesis using b by (simp add: not_queue_def)
  next
    case (Cons q us)
    then have "plen h a < ptot h a" using p \<open>ps = a # as\<close> dense_sum [of h a as] by simp
    then have "len b \<noteq> tot_len b" using b(2) by (auto simp: plen_def ptot_def)
    then show ?thesis using b by (simp add: not_queue_def)
  qed
qed

lemma splice_tail: "xs @ splice 0 R ys = splice (length xs) R (xs @ ys)"
  by (simp add: splice_def)

text \<open>One chain and an offset into its first pbuf, after \<open>k\<close> more bytes.\<close>

definition advance :: "heap \<Rightarrow> nat list \<Rightarrow> u16 \<Rightarrow> nat list \<times> u16" where
  "advance h ps i = (if unat i = plen h (hd ps) then (tl ps, 0) else (ps, i))"

lemma advance_ok:
  assumes "windows_ok h" "\<forall>x \<in> set ps. has_data h x" "path h (Some a) ps" "packet h ps" "dense h ps" "advance h ps i = (qs, j)"
    "unat i \<le> plen h a"
  shows "\<exists>b. pbufs h a = Some b \<and> path h (if i = len b then nxt b else Some a) qs \<and> j = (if i = len b then 0 else i)
    \<and> packet h qs \<and> dense h qs \<and> set qs \<subseteq> set ps
    \<and> drop (unat j) (cdata h qs) = drop (unat i) (cdata h ps) \<and> (qs \<noteq> [] \<longrightarrow> unat j \<le> plen h (hd qs))
    \<and> (if i = len b then qs = tl ps else qs = ps) \<and> (qs \<noteq> [] \<longrightarrow> drop (unat j) (cdata h qs) \<noteq> [])"
proof -
  obtain as b where b: "ps = a # as" "pbufs h a = Some b" "path h (nxt b) as"
    using assms(3) by (cases ps) (auto simp: link_def)
  have l: "length (pdata h a) = unat (len b)" using length_pdata [of h a] assms(1,2) b by (simp add: plen_def)
  have e: "unat i = plen h a \<longleftrightarrow> i = len b" using b(2) by (auto simp: plen_def word_unat_eq_iff)
  show ?thesis
  proof (cases "i = len b")
    case True
    then have q: "qs = as" "j = 0" using assms(6) e b(1) by (auto simp: advance_def)
    have ne: "cdata h as \<noteq> []" if "as \<noteq> []"
    proof -
      have "0 < length (cdata h as)"
        using dense_sum [of h a as] sum_plen [OF assms(1), of as] assms(2,5) b(1) that by simp
      then show ?thesis by simp
    qed
    have "dense h as" using assms(5) b(1) dense_tl by simp
    then show ?thesis using True q b assms(4) l ne by auto
  next
    case False
    then have q: "qs = ps" "j = i" using assms(6) e b(1) by (auto simp: advance_def)
    have "unat i < length (pdata h a)" using False e assms(7) l b(2) by (simp add: plen_def)
    then have "drop (unat i) (cdata h ps) \<noteq> []" by (simp add: b(1))
    then show ?thesis using False q b assms(3-5,7) by simp
  qed
qed

text \<open>What both ends of a copy have to satisfy, with the offsets into their first pbufs.\<close>

definition copy_ready :: "heap \<Rightarrow> nat \<Rightarrow> nat list \<Rightarrow> u16 \<Rightarrow> nat \<Rightarrow> nat list \<Rightarrow> u16 \<Rightarrow> bool" where
  "copy_ready h t ts i f fs j \<longleftrightarrow> windows_ok h \<and> path h (Some t) ts \<and> path h (Some f) fs \<and> packet h ts \<and> packet h fs
     \<and> dense h ts \<and> dense h fs \<and> (\<forall>x \<in> set ts. owned h x) \<and> (\<forall>x \<in> set fs. has_data h x) \<and> set ts \<inter> set fs = {}
     \<and> unat i \<le> plen h t \<and> unat j \<le> plen h f
     \<and> length (drop (unat j) (cdata h fs)) \<le> length (drop (unat i) (cdata h ts))"

lemma same_shape_dense: "same_shape h h' \<Longrightarrow> dense h' ps = dense h ps"
  by (simp add: dense_def same_shape_sizes)

lemma same_shape_length:
  "windows_ok h \<Longrightarrow> same_shape h h' \<Longrightarrow> \<forall>x \<in> set ps. has_data h x \<Longrightarrow> length (cdata h' ps) = length (cdata h ps)"
  using sum_plen [of h' ps] sum_plen [of h ps] same_shape_windows [of h h'] same_shape_sizes [of h h'] by simp

lemma path_first: "path h (Some a) ps \<Longrightarrow> \<exists>b as. pbufs h a = Some b \<and> ps = a # as"
  by (cases ps) (auto simp: link_def)

text \<open>One round: \<open>k\<close> bytes, then both ends move on.\<close>

lemma copy_round:
  assumes r: "copy_ready h t ts i f fs j"
  shows "\<exists>k h1 T i' F j' p q. 
      copy_loop (Some t) i (Some f) j h
        = (if F = [] then Some (ERR_OK, h1) else copy_loop p i' q j' h1)
    \<and> same_shape h h1 \<and> path h1 p T \<and> path h1 q F
    \<and> set T \<subseteq> set ts \<and> set F \<subseteq> set fs \<and> length T + length F < length ts + length fs
    \<and> (F \<noteq> [] \<longrightarrow> (\<exists>t' f'. p = Some t' \<and> q = Some f' \<and> copy_ready h1 t' T i' f' F j'))
    \<and> (\<exists>us. ts = us @ T \<and> length (cdata h1 us) + unat i' = unat i + k \<and> set us \<inter> set T = {})
    \<and> cdata h1 ts = splice (unat i) (take k (drop (unat j) (cdata h fs))) (cdata h ts)
    \<and> drop (unat j') (cdata h1 F) = drop k (drop (unat j) (cdata h fs))
    \<and> unat i + k \<le> length (cdata h ts) \<and> k \<le> length (drop (unat j) (cdata h fs))
    \<and> (\<forall>x. x \<notin> set ts \<longrightarrow> pdata h1 x = pdata h x)"
proof -
  have w: "windows_ok h" and pt: "path h (Some t) ts" "packet h ts" "dense h ts" "\<forall>x \<in> set ts. owned h x" "unat i \<le> plen h t"
    and pf: "path h (Some f) fs" "packet h fs" "dense h fs" "\<forall>x \<in> set fs. has_data h x" "unat j \<le> plen h f"
    and dis: "set ts \<inter> set fs = {}" and le: "length (drop (unat j) (cdata h fs)) \<le> length (drop (unat i) (cdata h ts))"
    using r unfolding copy_ready_def by blast+
  obtain bt ts' where bt: "pbufs h t = Some bt" "ts = t # ts'" using path_first [OF pt(1)] by blast
  obtain bf fs' where bf: "pbufs h f = Some bf" "fs = f # fs'" using path_first [OF pf(1)] by blast
  have ft: "f \<noteq> t" using dis bt(2) bf(2) by auto
  have own: "owned h t" and hd_f: "has_data h f" using pt(4) pf(4) bt(2) bf(2) by auto
  have hd_ts: "\<forall>x \<in> set ts. has_data h x" using pt(4) owned_data [OF w] by blast
  have lt: "length (pdata h t) = unat (len bt)" "length (pdata h f) = unat (len bf)"
    using length_pdata [OF w, of t] length_pdata [OF w, of f] bt bf hd_ts hd_f by (simp_all add: plen_def)
  have ij: "unat i \<le> unat (len bt)" "unat j \<le> unat (len bf)" using pt(5) pf(5) bt(1) bf(1) by (auto simp: plen_def)
  define n where "n = (if uint (len bt) - uint i \<ge> uint (len bf) - uint j then len bf - j else len bt - i)"
  have un: "unat n = min (unat (len bt) - unat i) (unat (len bf) - unat j)"
  proof -
    have "uint (len bf) - uint j \<le> uint (len bt) - uint i \<longleftrightarrow> unat (len bf) - unat j \<le> unat (len bt) - unat i"
      using ij unfolding uint_nat by linarith
    then show ?thesis using ij by (simp add: n_def unat_sub_le word_le_nat_alt min_def)
  qed
  have kn: "unat i + unat n \<le> unat (len bt)" "unat j + unat n \<le> unat (len bf)" using ij un by auto
  have uij: "unat (i + n) = unat i + unat n" "unat (j + n) = unat j + unat n"
    using kn unsigned_less [of "len bt", where 'a = nat] unsigned_less [of "len bf", where 'a = nat]
    by (simp_all add: unat_word_ariths)
  from copy_bytes_ok [OF w bt(1) own bf(1) hd_f ft kn] obtain h1 where h1:
    "copy_bytes bt (unat i) bf (unat j) (unat n) h = Some h1" "same_shape h h1"
    "pdata h1 t = splice (unat i) (take (unat n) (drop (unat j) (pdata h f))) (pdata h t)"
    "\<forall>x. x \<noteq> t \<longrightarrow> pdata h1 x = pdata h x" by blast
  have w1: "windows_ok h1" by (rule same_shape_windows [OF h1(2) w])
  note S = same_shape_sizes [OF h1(2)] same_shape_path [OF h1(2)] same_shape_packet [OF h1(2)] same_shape_dense [OF h1(2)]
  have pb: "pbufs h1 = pbufs h" using h1(2) by (simp add: same_shape_def)
  obtain T i' where T: "advance h1 ts (i + n) = (T, i')" by fastforce
  obtain F j' where F: "advance h1 fs (j + n) = (F, j')" by fastforce
  have hts: "\<forall>x \<in> set ts. has_data h1 x" and hfs: "\<forall>x \<in> set fs. has_data h1 x" using S(1) hd_ts pf(4) by auto
  have pts: "path h1 (Some t) ts" "packet h1 ts" "dense h1 ts" "unat (i + n) \<le> plen h1 t"
    using S pt kn uij bt by (simp_all add: plen_def)
  have pfs: "path h1 (Some f) fs" "packet h1 fs" "dense h1 fs" "unat (j + n) \<le> plen h1 f"
    using S pf kn uij bf by (simp_all add: plen_def)
  from advance_ok [OF w1 hts pts(1-3) T pts(4)] bt pb have at:
    "path h1 (if i + n = len bt then nxt bt else Some t) T" "i' = (if i + n = len bt then 0 else i + n)"
    "packet h1 T" "dense h1 T" "set T \<subseteq> set ts" "drop (unat i') (cdata h1 T) = drop (unat (i + n)) (cdata h1 ts)"
    "T \<noteq> [] \<longrightarrow> unat i' \<le> plen h1 (hd T)" "if i + n = len bt then T = tl ts else T = ts" by auto
  from advance_ok [OF w1 hfs pfs(1-3) F pfs(4)] bf pb have af:
    "path h1 (if j + n = len bf then nxt bf else Some f) F" "j' = (if j + n = len bf then 0 else j + n)"
    "packet h1 F" "dense h1 F" "set F \<subseteq> set fs" "drop (unat j') (cdata h1 F) = drop (unat (j + n)) (cdata h1 fs)"
    "F \<noteq> [] \<longrightarrow> unat j' \<le> plen h1 (hd F)" "if j + n = len bf then F = tl fs else F = fs"
    "F \<noteq> [] \<longrightarrow> drop (unat j') (cdata h1 F) \<noteq> []" by auto
  have okT: "not_queue (if i + n = len bt then nxt bt else Some t) h1 = Some True"
    by (rule not_queue_ok [OF at(1,3,4)])
  have okF: "not_queue (if j + n = len bf then nxt bf else Some f) h1 = Some True"
    by (rule not_queue_ok [OF af(1,3,4)])
  have les: "i + n \<le> len bt" "j + n \<le> len bf" using kn uij by (simp_all add: word_le_nat_alt)
  define p where "p = (if i + n = len bt then nxt bt else Some t)"
  define q where "q = (if j + n = len bf then nxt bf else Some f)"
  have qn: "q = None \<longleftrightarrow> F = []" using af(1) by (cases F) (auto simp: q_def [symmetric])
  have geq: "(j + n \<ge> len bf) = (j + n = len bf)" using les(2) by auto
  have step: "copy_loop (Some t) i (Some f) j h
      = (if F = [] then Some (ERR_OK, h1) else copy_loop p i' q j' h1)"
  proof -
    have "(if i + n = len bt then (0, nxt bt) else (i + n, Some t)) = (i', p)"
      "(if j + n = len bf then (0, nxt bf) else (j + n, Some f)) = (j', q)"
      by (simp_all add: at(2) af(2) p_def q_def)
    then show ?thesis
      using bt(1) bf(1) h1(1) les okT okF qn geq
      by (subst copy_loop.simps)
        (simp add: n_def [symmetric] Let_def p_def [symmetric] q_def [symmetric] split del: if_split cong: if_cong)
  qed
  define K where "K = take (unat n) (drop (unat j) (cdata h fs))"
  have K: "take (unat n) (drop (unat j) (pdata h f)) = K" "length K = unat n"
    using kn(2) lt(2) bf(2) by (simp_all add: K_def)
  have tts: "t \<notin> set ts'" using path_distinct [OF pt(1)] bt(2) by simp
  have c1: "cdata h1 ts' = cdata h ts'" by (rule cdata_cong) (use h1(4) tts in auto)
  have cts: "cdata h1 ts = splice (unat i) K (cdata h ts)"
    using h1(3) K kn(1) lt(1) by (simp add: bt(2) c1 splice_def)
  have cfs: "cdata h1 fs = cdata h fs" by (rule cdata_cong) (use h1(4) dis bt(2) in auto)
  have r1: "unat i + unat n \<le> length (cdata h ts)" using kn(1) lt(1) by (simp add: bt(2))
  have r2: "unat n \<le> length (drop (unat j) (cdata h fs))" using kn(2) lt(2) by (simp add: bf(2))
  have rest: "drop (unat j') (cdata h1 F) = drop (unat n) (drop (unat j) (cdata h fs))"
    using af(6) uij(2) by (simp add: cfs add.commute)
  have l1: "length (cdata h1 ts) = length (cdata h ts)" using cts K(2) r1 by (simp add: length_splice)
  have left: "length (drop (unat j') (cdata h1 F)) \<le> length (drop (unat i') (cdata h1 T))"
    using rest at(6) uij(1) l1 le r2 by simp
  have ready: "\<exists>t' f'. p = Some t' \<and> q = Some f' \<and> copy_ready h1 t' T i' f' F j'" if "F \<noteq> []"
  proof -
    obtain f' where f': "q = Some f'" "hd F = f'" using af(1) \<open>F \<noteq> []\<close> by (cases F) (auto simp: q_def [symmetric])
    have "T \<noteq> []" using left af(9) \<open>F \<noteq> []\<close> by auto
    then obtain t' where t': "p = Some t'" "hd T = t'" using at(1) by (cases T) (auto simp: p_def [symmetric])
    have "copy_ready h1 t' T i' f' F j'"
      unfolding copy_ready_def
      using w1 at(1,3,4,5,7) af(1,3,4,5,7) \<open>F \<noteq> []\<close> \<open>T \<noteq> []\<close> t' f' left dis S pt(4) hfs
      by (auto simp: p_def [symmetric] q_def [symmetric])
    then show ?thesis using t' f' by blast
  qed
  have split': "\<exists>us. ts = us @ T \<and> length (cdata h1 us) + unat i' = unat i + unat n \<and> set us \<inter> set T = {}"
  proof (cases "i + n = len bt")
    case True
    have "length (pdata h1 t) = unat (i + n)" using h1(3) K kn(1) lt(1) True by (simp add: length_splice)
    then show ?thesis using True at(2,8) bt(2) tts uij by (intro exI [of _ "[t]"]) simp
  next
    case False
    then show ?thesis using at(2,8) uij by (intro exI [of _ "[]"]) simp
  qed
  have shorter: "length T + length F < length ts + length fs"
  proof -
    have "i + n = len bt \<or> j + n = len bf"
      using un ij uij by (auto simp: word_unat_eq_iff min_def split: if_splits)
    then show ?thesis using at(8) af(8) bt(2) bf(2) by (auto split: if_splits)
  qed
  have pT: "path h1 p T" and qF: "path h1 q F" using at(1) af(1) by (simp_all only: p_def q_def)
  have others: "\<forall>x. x \<notin> set ts \<longrightarrow> pdata h1 x = pdata h x" using h1(4) bt(2) by simp
  obtain us where us: "ts = us @ T" "length (cdata h1 us) + unat i' = unat i + unat n" "set us \<inter> set T = {}"
    using split' by blast
  show ?thesis
    by (intro exI conjI) (rule step h1(2) pT qF at(5) af(5) shorter impI ready us cts [unfolded K_def] rest r1 r2 others | assumption)+
qed

text \<open>All rounds.\<close>

lemma copy_loop_ok:
  "copy_ready h t ts i f fs j \<Longrightarrow>
    \<exists>h'. copy_loop (Some t) i (Some f) j h = Some (ERR_OK, h') \<and> same_shape h h'
      \<and> cdata h' ts = splice (unat i) (drop (unat j) (cdata h fs)) (cdata h ts)
      \<and> (\<forall>x. x \<notin> set ts \<longrightarrow> pdata h' x = pdata h x)"
proof (induction "length ts + length fs" arbitrary: h t ts i f fs j rule: less_induct)
  case less
  from copy_round [OF less.prems] obtain k h1 T i' F j' p q us where r:
    "copy_loop (Some t) i (Some f) j h = (if F = [] then Some (ERR_OK, h1) else copy_loop p i' q j' h1)"
    "same_shape h h1" "set T \<subseteq> set ts" "length T + length F < length ts + length fs"
    "F \<noteq> [] \<longrightarrow> (\<exists>t' f'. p = Some t' \<and> q = Some f' \<and> copy_ready h1 t' T i' f' F j')"
    "ts = us @ T" "length (cdata h1 us) + unat i' = unat i + k" "set us \<inter> set T = {}"
    "cdata h1 ts = splice (unat i) (take k (drop (unat j) (cdata h fs))) (cdata h ts)"
    "drop (unat j') (cdata h1 F) = drop k (drop (unat j) (cdata h fs))"
    "unat i + k \<le> length (cdata h ts)" "k \<le> length (drop (unat j) (cdata h fs))"
    "\<forall>x. x \<notin> set ts \<longrightarrow> pdata h1 x = pdata h x" by metis
  show ?case
  proof (cases "F = []")
    case True
    then have "take k (drop (unat j) (cdata h fs)) = drop (unat j) (cdata h fs)" using r(10) by simp
    then show ?thesis using True r(1,2,9,13) by (intro exI [of _ h1]) simp
  next
    case False
    then obtain t' f' where pq: "p = Some t'" "q = Some f'" and ready: "copy_ready h1 t' T i' f' F j'" using r(5) by blast
    from less.hyps [OF r(4) ready] obtain h' where h':
      "copy_loop (Some t') i' (Some f') j' h1 = Some (ERR_OK, h')" "same_shape h1 h'"
      "cdata h' T = splice (unat i') (drop (unat j') (cdata h1 F)) (cdata h1 T)"
      "\<forall>x. x \<notin> set T \<longrightarrow> pdata h' x = pdata h1 x" by blast
    define S where "S = drop (unat j) (cdata h fs)"
    have us: "cdata h' us = cdata h1 us" by (rule cdata_cong) (use h'(4) r(8) in auto)
    have "cdata h' ts = cdata h1 us @ splice (unat i') (drop k S) (cdata h1 T)"
      using h'(3) us r(10) by (simp add: r(6) S_def)
    also have "... = splice (unat i + k) (drop k S) (cdata h1 ts)"
      by (simp add: r(6) r(7) [symmetric] splice_def)
    also have "... = splice (unat i) S (cdata h ts)"
    proof -
      have "length S \<le> length (drop (unat i) (cdata h ts))" using less.prems by (simp add: copy_ready_def S_def)
      moreover have "k \<le> length S" "cdata h1 ts = splice (unat i) (take k S) (cdata h ts)" using r(9,12) by (simp_all only: S_def)
      ultimately show ?thesis
        using splice_splice [of "unat i" "take k S" "drop k S" "cdata h ts"] r(11) by simp
    qed
    finally have "cdata h' ts = splice (unat i) S (cdata h ts)" .
    moreover have "pdata h' x = pdata h x" if "x \<notin> set ts" for x using that h'(4) r(3,13) by auto
    ultimately show ?thesis using r(1) False pq h'(1) same_shape_trans [OF r(2) h'(2)]
      by (intro exI [of _ h']) (simp add: S_def)
  qed
qed

lemma pbuf_copy_ok:
  assumes w: "windows_ok h" and t: "path h (Some t) ts" "packet h ts" "dense h ts" "\<forall>x \<in> set ts. owned h x"
    and f: "path h (Some f) fs" "packet h fs" "dense h fs" "\<forall>x \<in> set fs. has_data h x" and d: "set ts \<inter> set fs = {}"
    and le: "ptot h f \<le> ptot h t"
  shows "\<exists>h'. pbuf_copy (Some t) (Some f) h = Some (ERR_OK, h') \<and> same_shape h h'
      \<and> cdata h' ts = cdata h fs @ drop (length (cdata h fs)) (cdata h ts)
      \<and> (\<forall>x. x \<notin> set ts \<longrightarrow> pdata h' x = pdata h x)"
proof -
  obtain bt ts' where bt: "pbufs h t = Some bt" "ts = t # ts'" using path_first [OF t(1)] by blast
  obtain bf fs' where bf: "pbufs h f = Some bf" "fs = f # fs'" using path_first [OF f(1)] by blast
  have dt: "\<forall>x \<in> set ts. has_data h x" using t(4) owned_data [OF w] by blast
  have "ptot h t = length (cdata h ts)" "ptot h f = length (cdata h fs)"
    using t(2) f(2) sum_plen [OF w dt] sum_plen [OF w f(4)] by (simp_all add: bt(2) bf(2))
  then have "copy_ready h t ts 0 f fs 0" using w t f d le by (simp add: copy_ready_def)
  from copy_loop_ok [OF this] show ?thesis
    using bt(1) bf(1) le by (simp add: pbuf_copy_def splice_def ptot_def word_le_nat_alt)
qed

text \<open>A copy into one pbuf of the same length aborts when the last pbuf of the source is empty.\<close>

lemma copy_bytes_pbufs: "copy_bytes b i c j n h = Some h' \<Longrightarrow> pbufs h' = pbufs h"
  by (auto simp: copy_bytes_def poke_def bind_eq_Some_conv split: if_splits option.splits)

lemma copy_loop_aborts:
  "path h (Some f) fs \<Longrightarrow> packet h fs \<Longrightarrow> tl fs \<noteq> [] \<Longrightarrow> plen h (last fs) = 0 \<Longrightarrow> pbufs h t = Some bt \<Longrightarrow> nxt bt = None \<Longrightarrow>
    unat i + ptot h f = unat (len bt) \<Longrightarrow> copy_loop (Some t) i (Some f) 0 h = None"
proof (induction fs arbitrary: f i h)
  case (Cons f' fs)
  obtain bf where bf: "pbufs h f = Some bf" "f' = f" using path_first [OF Cons.prems(1)] by auto
  obtain x xs where fs: "fs = x # xs" using Cons.prems(3) by (cases fs) auto
  have "link h f = Some (nxt bf)" using bf(1) by (simp add: link_def)
  then have x: "nxt bf = Some x" "path h (Some x) (x # xs)" using Cons.prems(1) fs by auto
  obtain bx where bx: "pbufs h x = Some bx" using path_first [OF x(2)] by auto
  have last: "plen h (last (x # xs)) = 0" using Cons.prems(4) fs by simp
  have pk: "packet h (x # xs)" "ptot h f = plen h f + ptot h x" using Cons.prems(2) fs bf(2) by simp_all
  have lf: "plen h f = unat (len bf)" "ptot h x = unat (tot_len bx)" "plen h x = unat (len bx)" using bf bx by (simp_all add: plen_def ptot_def)
  have le: "unat i + unat (len bf) \<le> unat (len bt)" using Cons.prems(7) pk(2) lf(1) by simp
  then have n: "unat (i + len bf) = unat i + unat (len bf)" using unsigned_less [of "len bt", where 'a = nat] by (simp add: unat_word_ariths)
  have ge: "uint (len bt) - uint i \<ge> uint (len bf)" using le unfolding uint_nat by linarith
  show ?case
  proof (cases "copy_bytes bt (unat i) bf 0 (unat (len bf)) h")
    case None
    then show ?thesis using Cons.prems(5) bf ge by (subst copy_loop.simps) simp
  next
    case (Some h1)
    have pb: "pbufs h1 = pbufs h" using copy_bytes_pbufs [OF Some] .
    have nq: "not_queue (Some x) h1 = Some (len bx = tot_len bx \<longrightarrow> xs = [])"
      using bx x(2) by (cases xs) (auto simp: not_queue_def pb link_def)
    define to where "to = (if i + len bf = len bt then (0 :: u16, None) else (i + len bf, Some t))"
    have nt: "not_queue (snd to) h1 = Some True" using Cons.prems(5,6) by (simp add: to_def not_queue_def pb)
    have step: "copy_loop (Some t) i (Some f) 0 h =
        (if len bx = tot_len bx \<and> xs \<noteq> [] then None else copy_loop (snd to) (fst to) (Some x) 0 h1)"
      using Cons.prems(5,6) bf ge Some x(1) nq nt le n
      by (subst copy_loop.simps) (simp add: to_def word_le_nat_alt Let_def case_prod_beta split del: if_split cong: if_cong)
    show ?thesis
    proof (cases "snd to = None")
      case True
      then show ?thesis unfolding step by (subst copy_loop.simps) simp
    next
      case False
      then have t: "to = (i + len bf, Some t)" and ne: "i + len bf \<noteq> len bt" by (auto simp: to_def split: if_splits)
      have "ptot h x \<noteq> 0" using ne n Cons.prems(7) pk(2) lf(1) by (auto simp: word_unat_eq_iff)
      then have "xs \<noteq> []" using last pk(1) by auto
      moreover have "copy_loop (Some t) (i + len bf) (Some x) 0 h1 = None"
      proof (rule Cons.IH [unfolded fs])
        have "link h1 y = link h y" for y by (simp add: link_def pb)
        then show "path h1 (Some x) (x # xs)" using x(2) path_cong [of "x # xs" h1 h] by blast
        show "packet h1 (x # xs)" using pk(1) packet_cong [of "x # xs" h1 h] pb by (simp add: plen_def ptot_def)
        show "unat (i + len bf) + ptot h1 x = unat (len bt)" using n Cons.prems(7) pk(2) lf(1) pb by (simp add: ptot_def)
      qed (use \<open>xs \<noteq> []\<close> last Cons.prems(5,6) pb in \<open>simp_all add: plen_def\<close>)
      ultimately show ?thesis by (simp add: step t)
    qed
  qed
qed simp

subsection \<open>One pbuf for a chain\<close>

lemma pbuf_alloc_ram:
  assumes M: "malloc_ok M" and h: "heap_ok h ext"
  shows "pbuf_alloc M layer n PBUF_RAM h = Some (None, h)
    \<or> (\<exists>q m b. pbuf_alloc M layer n PBUF_RAM h = Some (Some q, new_pbuf q b m h) \<and> pbufs h q = None \<and> blocks h q = None
         \<and> heap_ok (new_pbuf q b m h) (ext(q := 1)) \<and> nxt b = None \<and> len b = n \<and> tot_len b = n \<and> ptype b = PBUF_RAM)"
proof (cases "malloc M h (LWIP_MEM_ALIGN_SIZE (SIZEOF_STRUCT_PBUF + layer_offset layer) + LWIP_MEM_ALIGN_SIZE (unat n))")
  case None
  then show ?thesis by (simp add: pbuf_alloc_def)
next
  case (Some qm)
  obtain q m where q: "qm = (q, m)" by fastforce
  define b :: pbuf where "b = \<lparr>nxt = None, payload = Some (q, int (LWIP_MEM_ALIGN_SIZE (layer_offset layer))),
    tot_len = n, len = n, ptype = PBUF_RAM, flags = 0, ref = 1\<rparr>"
  have a: "pbuf_alloc M layer n PBUF_RAM h = Some (Some q, new_pbuf q b m h)"
    using Some q by (simp add: pbuf_alloc_def b_def)
  with pbuf_alloc_ok [OF M h, of layer n PBUF_RAM] have "heap_ok (new_pbuf q b m h) (ext(q := 1))"
    by (auto simp: alloc_result_def)
  moreover have "pbufs h q = None" "blocks h q = None" using M Some q by (auto simp: malloc_ok_def)
  moreover have "nxt b = None \<and> len b = n \<and> tot_len b = n \<and> ptype b = PBUF_RAM" by (simp add: b_def)
  ultimately show ?thesis using a by (intro disjI2 exI [of _ q] exI [of _ m] exI [of _ b]) simp
qed

lemma pdata_new:
  assumes h: "windows_ok h" and q: "pbufs h q = None" "blocks h q = None" and x: "pbufs h x \<noteq> None"
  shows "pdata (new_pbuf q b m h) x = pdata h x"
proof -
  obtain c where c: "pbufs h x = Some c" using x by auto
  then have w: "window h x c" using h by (simp add: windows_ok_def)
  have "x \<noteq> q" using x q by auto
  then have c': "pbufs (new_pbuf q b m h) x = Some c" using c by simp
  have "blocks (new_pbuf q b m h) r = blocks h r" if "payload c = Some (r, i)" for r i
  proof -
    have "blocks h r \<noteq> None" using w that by (auto simp: window_def split: if_splits)
    then have "r \<noteq> q" using q(2) by auto
    then show ?thesis by simp
  qed
  then show ?thesis by (rule pdata_cong [OF c c' refl refl])
qed

text \<open>The failure for a chain that ends with an empty pbuf.\<close>

lemma pbuf_coalesce_aborts:
  assumes M: "malloc_ok M" and h: "heap_ok h ext" and p: "path h (Some p) ps" "packet h ps" "tl ps \<noteq> []" "plen h (last ps) = 0"
    and a: "pbuf_alloc M layer (word_of_nat (ptot h p)) PBUF_RAM h \<noteq> Some (None, h)"
  shows "pbuf_coalesce M p layer h = None"
proof -
  obtain b as where b: "pbufs h p = Some b" "ps = p # as" using path_first [OF p(1)] by blast
  have n: "word_of_nat (ptot h p) = tot_len b" using b(1) by (simp add: ptot_def)
  obtain q m c where q:
    "pbuf_alloc M layer (tot_len b) PBUF_RAM h = Some (Some q, new_pbuf q c m h)" "pbufs h q = None"
    "nxt c = None" "len c = tot_len b" "tot_len c = tot_len b" using pbuf_alloc_ram [OF M h, of layer "tot_len b"] a n by auto
  define h1 where "h1 = new_pbuf q c m h"
  have same: "pbufs h1 x = pbufs h x" if "x \<in> set ps" for x using path_alloc [OF p(1) that] q(2) by (auto simp: h1_def)
  have p1: "path h1 (Some p) ps" by (subst path_cong [of ps _ h]) (use p(1) same in \<open>auto simp: link_def\<close>)
  have sz: "plen h1 x = plen h x \<and> ptot h1 x = ptot h x" if "x \<in> set ps" for x
    using same [OF that] by (simp add: plen_def ptot_def)
  then have pk1: "packet h1 ps" using packet_cong [of ps h1 h] p(2) by blast
  have "plen h1 (last ps) = 0" using p(4) sz [of "last ps"] b(2) by simp
  moreover have "unat (0 :: u16) + ptot h1 p = unat (len c)" using sz [of p] b q(4) by (simp add: ptot_def)
  moreover have bs: "pbufs h1 q = Some c" "pbufs h1 p = Some b" using b same [of p] by (simp_all add: h1_def)
  ultimately have "copy_loop (Some q) 0 (Some p) 0 h1 = None" using copy_loop_aborts [OF p1 pk1 p(3), of q c 0] q(3) by simp
  moreover have "nxt b \<noteq> None" using p(1,3) b by (cases as) (auto simp: link_def)
  ultimately show ?thesis using b(1) q(1) bs by (simp add: pbuf_coalesce_def pbuf_copy_def h1_def [symmetric])
qed

lemma pbuf_coalesce_ok:
  assumes M: "malloc_ok M" and h: "heap_ok h ext" and e: "0 < ext p"
    and p: "path h (Some p) ps" "packet h ps" "dense h ps" "\<forall>x \<in> set ps. has_data h x"
  shows "(tl ps = [] \<or> pbuf_alloc M layer (word_of_nat (ptot h p)) PBUF_RAM h = Some (None, h)) \<and> pbuf_coalesce M p layer h = Some (p, h)
    \<or> tl ps \<noteq> [] \<and> pbuf_alloc M layer (word_of_nat (ptot h p)) PBUF_RAM h \<noteq> Some (None, h) \<and>
      (\<exists>q h'. pbuf_coalesce M p layer h = Some (q, h') \<and> pbufs h q = None
         \<and> heap_ok h' (ext(p := ext p - 1, q := 1)) \<and> path h' (Some q) [q] \<and> packet h' [q] \<and> pdata h' q = cdata h ps
         \<and> (\<forall>x c. x \<noteq> q \<longrightarrow> pbufs h' x = Some c \<longrightarrow> (\<exists>b. pbufs h x = Some b \<and> same_but_ref b c)))"
proof -
  obtain b as where b: "pbufs h p = Some b" "ps = p # as" using path_first [OF p(1)] by blast
  have w: "windows_ok h" using h by (simp add: heap_ok_def)
  have tl: "tl ps = [] \<longleftrightarrow> nxt b = None" using p(1) b by (cases as) (auto simp: link_def)
  have total: "word_of_nat (ptot h p) = tot_len b" using b(1) by (simp add: ptot_def)
  show ?thesis
  proof (cases "nxt b = None \<or> pbuf_alloc M layer (tot_len b) PBUF_RAM h = Some (None, h)")
    case True
    then show ?thesis unfolding tl total using b(1) by (auto simp: pbuf_coalesce_def)
  next
    case False
    from pbuf_alloc_ram [OF M h, of layer "tot_len b"] False obtain q m c where q:
      "pbuf_alloc M layer (tot_len b) PBUF_RAM h = Some (Some q, new_pbuf q c m h)" "pbufs h q = None" "blocks h q = None"
      "heap_ok (new_pbuf q c m h) (ext(q := 1))" "nxt c = None" "len c = tot_len b" "tot_len c = tot_len b"
      "ptype c = PBUF_RAM" by blast
    define h1 where "h1 = new_pbuf q c m h"
    have ok1: "heap_ok h1 (ext(q := 1))" and w1: "windows_ok h1" using q(4) by (simp_all add: h1_def heap_ok_def)
    have al: "pbufs h x \<noteq> None" "x \<noteq> q" if "x \<in> set ps" for x using path_alloc [OF p(1) that] q(2) by auto
    have same: "pbufs h1 x = pbufs h x" if "x \<in> set ps" for x using al(2) [OF that] by (simp add: h1_def)
    have p1: "path h1 (Some p) ps" by (subst path_cong [of ps _ h]) (use p(1) same in \<open>auto simp: link_def\<close>)
    have sz: "plen h1 x = plen h x \<and> ptot h1 x = ptot h x" if "x \<in> set ps" for x
      using same [OF that] by (simp add: plen_def ptot_def)
    then have pk1: "packet h1 ps" using packet_cong [of ps h1 h] p(2) by blast
    have d1: "dense h1 ps" using p(3) sz [of "last ps"] b(2) by (simp add: dense_def)
    have hd1: "\<forall>x \<in> set ps. has_data h1 x" using p(4) same by (simp add: has_data_def)
    have c1: "cdata h1 ps = cdata h ps"
      by (rule cdata_cong) (unfold h1_def, rule pdata_new [OF w q(2,3)], rule al(1))
    have pq: "path h1 (Some q) [q]" "packet h1 [q]" "dense h1 [q]" "\<forall>x \<in> set [q]. owned h1 x"
      using q(5-8) by (simp_all add: h1_def link_new plen_def ptot_def dense_def owned_def)
    have dis: "set [q] \<inter> set ps = {}" using al(2) by auto
    have tot: "ptot h1 p = unat (tot_len b)" "ptot h1 q = unat (tot_len b)"
      using same [of p] b q(7) by (simp_all add: ptot_def h1_def)
    from pbuf_copy_ok [OF w1 pq p1 pk1 d1 hd1 dis] tot obtain h2 where h2:
      "pbuf_copy (Some q) (Some p) h1 = Some (ERR_OK, h2)" "same_shape h1 h2"
      "cdata h2 [q] = cdata h1 ps @ drop (length (cdata h1 ps)) (cdata h1 [q])" by auto
    have "length (cdata h1 ps) = unat (tot_len b)"
      using sum_plen [OF w1 hd1] pk1 tot(1) b(2) by simp
    moreover have "length (cdata h1 [q]) = unat (tot_len b)"
      using length_pdata [OF w1 owned_data [OF w1, of q]] pq(4) q(6) by (simp add: plen_def h1_def)
    ultimately have data: "pdata h2 q = cdata h ps" using h2(3) c1 by simp
    have ok2: "heap_ok h2 (ext(q := 1))" by (rule heap_same_shape [OF ok1 h2(2)])
    have p2: "path h2 (Some p) ps" using same_shape_path [OF h2(2)] p1 by simp
    have qp: "q \<noteq> p" using al(2) b(2) by auto
    then have "0 < (ext(q := 1)) p" using e by simp
    from pbuf_free_ok [OF ok2 this p2] obtain n h' where h':
      "pbuf_free (Some p) h2 = Some (word_of_nat n, h')" "heap_ok h' ((ext(q := 1))(p := (ext(q := 1)) p - 1))" "shrinks h2 h'"
      by blast
    have ee: "(ext(q := 1))(p := (ext(q := 1)) p - 1) = ext(p := ext p - 1, q := 1)" using qp by (auto simp: fun_eq_iff)
    then have ok': "heap_ok h' (ext(p := ext p - 1, q := 1))" using h'(2) by (simp only:)
    then obtain c' where c': "pbufs h' q = Some c'"
      using refs_ok_alloc [of h' "ext(p := ext p - 1, q := 1)" q] by (auto simp: heap_ok_def)
    have "pdata h' q = cdata h ps"
      using pdata_shrinks [OF same_shape_windows [OF h2(2) w1] h'(3) c'] data by simp
    moreover have "path h' (Some q) [q]"
      using path_shrinks [OF _ h'(3) _ c', of "[q]"] ok' same_shape_path [OF h2(2)] pq(1) unfolding heap_ok_def by blast
    moreover have "packet h' [q]"
    proof -
      have "pbufs h2 q = Some c" using h2(2) by (simp add: same_shape_def h1_def)
      moreover obtain c2 where "pbufs h2 q = Some c2" "same_but_ref c2 c'" using h'(3) c' unfolding shrinks_def by blast
      ultimately show ?thesis using same_but_ref_fields [of c c'] q(6,7) c' by (simp add: plen_def ptot_def)
    qed
    moreover have "pbufs h2 x = pbufs h x" if "x \<noteq> q" for x
      using h2(2) that by (simp add: same_shape_def h1_def)
    then have "\<forall>x c. x \<noteq> q \<longrightarrow> pbufs h' x = Some c \<longrightarrow> (\<exists>b. pbufs h x = Some b \<and> same_but_ref b c)"
      using h'(3) unfolding shrinks_def by metis
    moreover have "pbuf_coalesce M p layer h = Some (q, h')"
      using b(1) False q(1) h2(1) h'(1) by (auto simp: pbuf_coalesce_def h1_def [symmetric])
    moreover have "tl ps \<noteq> []" "pbuf_alloc M layer (word_of_nat (ptot h p)) PBUF_RAM h \<noteq> Some (None, h)"
      using False unfolding tl total by simp_all
    ultimately show ?thesis using ok' q(2) by blast
  qed
qed

end
