(* ===== verification/Pbuf_Api.thy ===== *)
theory Pbuf_Api imports Pbuf_Data begin

section \<open>Packet buffers of lwIP: any sequence of calls\<close>

text \<open>
  The calls of \<open>pbuf.c\<close> on a heap shared by all their users, with the number of references that
  the users hold (\<open>ext\<close>); \<open>allowed\<close> collects what the comments of \<open>pbuf.c\<close> ask of a caller: to hold
  a reference, not to give back more references than it has, not to change the length of a packet that
  others have chained, and to leave 16-bit lengths and counts in range. A call is \<open>None\<close> when an
  assertion of the code fails or an access leaves the heap.
\<close>

subsection \<open>The length law\<close>

definition tot_law :: "heap \<Rightarrow> nat \<Rightarrow> bool" where
  "tot_law h a \<longleftrightarrow> ptot h a = plen h a + (case link h a of Some (Some q) \<Rightarrow> ptot h q | _ \<Rightarrow> 0)"

definition tot_ok :: "heap \<Rightarrow> bool" where
  "tot_ok h \<longleftrightarrow> (\<forall>a. pbufs h a \<noteq> None \<longrightarrow> tot_law h a)"

definition pbuf_inv :: "heap \<Rightarrow> (nat \<Rightarrow> nat) \<Rightarrow> bool" where
  "pbuf_inv h ext \<longleftrightarrow> heap_ok h ext \<and> tot_ok h"

lemma tot_packet: "tot_ok h \<Longrightarrow> path h p ps \<Longrightarrow> packet h ps"
proof (induction ps arbitrary: p)
  case (Cons a as)
  then obtain b where b: "pbufs h a = Some b" "path h (nxt b) as" by (auto simp: link_def)
  then have pk: "packet h as" using Cons by blast
  have "tot_law h a" using Cons.prems(1) b(1) by (simp add: tot_ok_def)
  then have "ptot h a = plen h a + sum_list (map (plen h) as)"
    using b pk by (cases as) (auto simp: tot_law_def link_def)
  then show ?case using pk by simp
qed simp

lemma packet_law: "path h p ps \<Longrightarrow> packet h ps \<Longrightarrow> a \<in> set ps \<Longrightarrow> tot_law h a"
proof (induction ps arbitrary: p)
  case (Cons x as)
  then obtain b where b: "pbufs h x = Some b" "path h (nxt b) as" by (auto simp: link_def)
  show ?case
  proof (cases "a = x")
    case True
    then show ?thesis using Cons.prems(2) b by (cases as) (auto simp: tot_law_def link_def)
  next
    case False
    then show ?thesis using Cons b(2) by auto
  qed
qed simp

lemma tot_law_cong:
  "link h' a = link h a \<Longrightarrow> plen h' a = plen h a \<Longrightarrow> ptot h' a = ptot h a \<Longrightarrow>
    (\<And>q. link h a = Some (Some q) \<Longrightarrow> ptot h' q = ptot h q) \<Longrightarrow> tot_law h' a = tot_law h a"
  unfolding tot_law_def by (auto split: option.split)

lemma same_but_ref_sizes:
  "pbufs h x = Some b \<Longrightarrow> pbufs h' x = Some c \<Longrightarrow> same_but_ref b c \<Longrightarrow>
    link h' x = link h x \<and> plen h' x = plen h x \<and> ptot h' x = ptot h x"
  using same_but_ref_fields [of b c] by (simp add: link_def plen_def ptot_def)

lemma tot_shrinks: "tot_ok h \<Longrightarrow> shrinks h h' \<Longrightarrow> refs_ok h' ext \<Longrightarrow> tot_ok h'"
  unfolding tot_ok_def
proof (intro allI impI)
  fix a assume t: "\<forall>a. pbufs h a \<noteq> None \<longrightarrow> tot_law h a" and s: "shrinks h h'" and r: "refs_ok h' ext" and a: "pbufs h' a \<noteq> None"
  have same: "link h' x = link h x \<and> plen h' x = plen h x \<and> ptot h' x = ptot h x \<and> pbufs h x \<noteq> None"
    if c: "pbufs h' x = Some c" for x c
  proof -
    obtain b where "pbufs h x = Some b" "same_but_ref b c" using s c unfolding shrinks_def by blast
    then show ?thesis using same_but_ref_sizes c by blast
  qed
  have aa: "link h' a = link h a \<and> plen h' a = plen h a \<and> ptot h' a = ptot h a \<and> pbufs h a \<noteq> None" using same a by blast
  moreover have "ptot h' q = ptot h q" if "link h a = Some (Some q)" for q
    using refs_ok_alloc [OF r, of q] aa that same by metis
  ultimately show "tot_law h' a" using tot_law_cong [of h' a h] t by blast
qed

text \<open>A chain changes that no pbuf outside of it points into.\<close>

definition unshared :: "heap \<Rightarrow> nat list \<Rightarrow> bool" where
  "unshared h ps \<longleftrightarrow> (\<forall>x \<in> set ps. preds h x \<subseteq> set ps)"

lemma tot_chain:
  assumes t: "tot_ok h" and q: "path h' p qs" "packet h' qs"
    and o: "\<And>x. x \<notin> set qs \<Longrightarrow> pbufs h' x \<noteq> None \<Longrightarrow>
      pbufs h x \<noteq> None \<and> link h' x = link h x \<and> plen h' x = plen h x \<and> ptot h' x = ptot h x"
    and l: "\<And>x y. x \<notin> set qs \<Longrightarrow> pbufs h' x \<noteq> None \<Longrightarrow> link h x = Some (Some y) \<Longrightarrow> ptot h' y = ptot h y"
  shows "tot_ok h'"
  unfolding tot_ok_def
proof (intro allI impI)
  fix a assume a: "pbufs h' a \<noteq> None"
  show "tot_law h' a"
  proof (cases "a \<in> set qs")
    case True
    then show ?thesis using packet_law [OF q] by blast
  next
    case False
    then have "tot_law h' a = tot_law h a" using o [OF False a] l [OF False a] by (intro tot_law_cong) auto
    then show ?thesis using t o [OF False a] by (simp add: tot_ok_def)
  qed
qed

subsection \<open>Calls\<close>

datatype pbuf_call = Alloc pbuf_layer u16 pbuf_type | Free nat | Ref nat | Header nat int | Realloc nat u16
  | Cat nat nat | Chain nat nat | Dechain nat | Take nat bytes u16 | Copy nat nat | Coalesce nat pbuf_layer
  | Free_ooseq "nat option list list"

text \<open>The pbufs that \<open>pbuf_free_ooseq\<close> gives back.\<close>

definition dropped :: "nat option list list \<Rightarrow> nat option list" where
  "dropped pcbs = (case dropWhile (\<lambda>s. s = []) pcbs of [] \<Rightarrow> [] | segs # _ \<Rightarrow> segs)"

fun do_call :: "pbuf_env \<Rightarrow> pbuf_call \<Rightarrow> heap \<Rightarrow> (nat \<Rightarrow> nat) \<Rightarrow> (heap \<times> (nat \<Rightarrow> nat)) option" where
  "do_call M (Alloc l n t) h ext = do {
     (r, h) \<leftarrow> pbuf_alloc M l n t h;
     Some (h, case r of None \<Rightarrow> ext | Some p \<Rightarrow> ext(p := 1)) }"
| "do_call M (Free p) h ext = do { (_, h) \<leftarrow> pbuf_free (Some p) h; Some (h, ext(p := ext p - 1)) }"
| "do_call M (Ref p) h ext = do { h \<leftarrow> pbuf_ref (Some p) h; Some (h, ext(p := ext p + 1)) }"
| "do_call M (Header p inc) h ext = do { (_, h) \<leftarrow> pbuf_header (Some p) inc h; Some (h, ext) }"
| "do_call M (Realloc p n) h ext = do { h \<leftarrow> pbuf_realloc (Some p) n h; Some (h, ext) }"
| "do_call M (Cat p t) h ext = do { h \<leftarrow> pbuf_cat (Some p) (Some t) h; Some (h, ext(t := ext t - 1)) }"
| "do_call M (Chain p t) h ext = do { h \<leftarrow> pbuf_chain (Some p) (Some t) h; Some (h, ext) }"
| "do_call M (Dechain p) h ext = do { (_, h) \<leftarrow> pbuf_dechain p h; Some (h, ext) }"
| "do_call M (Take p dat n) h ext = do { (_, h) \<leftarrow> pbuf_take (Some p) dat n h; Some (h, ext) }"
| "do_call M (Copy t f) h ext = do { (_, h) \<leftarrow> pbuf_copy (Some t) (Some f) h; Some (h, ext) }"
| "do_call M (Coalesce p l) h ext = do {
     (q, h) \<leftarrow> pbuf_coalesce M p l h;
     Some (h, if q = p then ext else ext(p := ext p - 1, q := 1)) }"
| "do_call M (Free_ooseq pcbs) h ext = do {
     (_, h) \<leftarrow> pbuf_free_ooseq pcbs h;
     Some (h, \<lambda>a. ext a - count_list (dropped pcbs) (Some a)) }"

definition joinable :: "heap \<Rightarrow> (nat \<Rightarrow> nat) \<Rightarrow> nat \<Rightarrow> nat \<Rightarrow> bool" where
  "joinable h ext p t \<longleftrightarrow> 0 < ext p \<and> 0 < ext t \<and> ptot h p + ptot h t < 65536
     \<and> (\<exists>ps ts. path h (Some p) ps \<and> path h (Some t) ts \<and> set ps \<inter> set ts = {} \<and> unshared h ps)"

fun allowed :: "pbuf_call \<Rightarrow> heap \<Rightarrow> (nat \<Rightarrow> nat) \<Rightarrow> bool" where
  "allowed (Alloc l n t) h ext \<longleftrightarrow> True"
| "allowed (Free p) h ext \<longleftrightarrow> 0 < ext p"
| "allowed (Ref p) h ext \<longleftrightarrow> 0 < ext p \<and> rc h p < 65535"
| "allowed (Header p inc) h ext \<longleftrightarrow> 0 < ext p \<and> preds h p = {} \<and> - int (plen h p) \<le> inc \<and> inc < 32768
     \<and> int (ptot h p) + inc < 65536"
| "allowed (Realloc p n) h ext \<longleftrightarrow> 0 < ext p \<and> (\<exists>ps. path h (Some p) ps \<and> unshared h ps)"
| "allowed (Cat p t) h ext \<longleftrightarrow> joinable h ext p t"
| "allowed (Chain p t) h ext \<longleftrightarrow> joinable h ext p t \<and> rc h t < 65535"
| "allowed (Dechain p) h ext \<longleftrightarrow> 0 < ext p \<and> preds h p = {}"
| "allowed (Take p dat n) h ext \<longleftrightarrow> 0 < ext p \<and> unat n \<le> length dat
     \<and> (\<exists>ps. path h (Some p) ps \<and> (\<forall>x \<in> set ps. owned h x))"
| "allowed (Copy t f) h ext \<longleftrightarrow> 0 < ext t \<and> 0 < ext f \<and> ptot h f \<le> ptot h t
     \<and> (\<exists>ts fs. path h (Some t) ts \<and> path h (Some f) fs \<and> set ts \<inter> set fs = {} \<and> dense h ts \<and> dense h fs
          \<and> (\<forall>x \<in> set ts. owned h x) \<and> (\<forall>x \<in> set fs. has_data h x))"
| "allowed (Coalesce p l) h ext \<longleftrightarrow> 0 < ext p
     \<and> (\<exists>ps. path h (Some p) ps \<and> dense h ps \<and> (\<forall>x \<in> set ps. has_data h x))"
| "allowed (Free_ooseq pcbs) h ext \<longleftrightarrow> (\<forall>a. count_list (dropped pcbs) (Some a) \<le> ext a)"

text \<open>All heaps that calls lead to, from one without pbufs. Allocations and callbacks may succeed or fail
  at each call.\<close>

inductive pbuf_run :: "heap \<Rightarrow> (nat \<Rightarrow> nat) \<Rightarrow> bool" where
  run_start: "pbufs h = (\<lambda>_. None) \<Longrightarrow> pbuf_run h (\<lambda>_. 0)"
| run_call: "pbuf_run h ext \<Longrightarrow> malloc_ok M \<Longrightarrow> allowed c h ext \<Longrightarrow> do_call M c h ext = Some (h', ext') \<Longrightarrow>
    pbuf_run h' ext'"

subsection \<open>Every call keeps the heap well-formed\<close>

lemma inv_path: "pbuf_inv h ext \<Longrightarrow> 0 < ext p \<Longrightarrow> \<exists>ps. path h (Some p) ps \<and> packet h ps"
  unfolding pbuf_inv_def using heap_path tot_packet by blast

lemma not_pred: "preds h p = {} \<Longrightarrow> link h x \<noteq> Some (Some p)"
  by (auto simp: preds_def)

lemma unshared_link: "unshared h ps \<Longrightarrow> link h x = Some (Some y) \<Longrightarrow> x \<notin> set ps \<Longrightarrow> y \<notin> set ps"
  by (auto simp: unshared_def preds_def)

lemma sizes_same: "pbufs h' x = pbufs h x \<Longrightarrow> link h' x = link h x \<and> plen h' x = plen h x \<and> ptot h' x = ptot h x"
  by (simp add: link_def plen_def ptot_def)

lemma tot_same:
  "(\<And>x. link h' x = link h x \<and> plen h' x = plen h x \<and> ptot h' x = ptot h x \<and> (pbufs h' x = None) = (pbufs h x = None)) \<Longrightarrow>
    tot_ok h' = tot_ok h"
  unfolding tot_ok_def using tot_law_cong [of h' _ h] by metis

lemma free_call: "pbuf_inv h ext \<Longrightarrow> 0 < ext p \<Longrightarrow> \<exists>n h'. pbuf_free (Some p) h = Some (n, h') \<and> pbuf_inv h' (ext(p := ext p - 1))"
proof -
  assume i: "pbuf_inv h ext" and e: "0 < ext p"
  obtain ps where "path h (Some p) ps" using inv_path [OF i e] by blast
  from pbuf_free_ok [of h ext p, OF _ e this] i show ?thesis
    unfolding pbuf_inv_def heap_ok_def using tot_shrinks by blast
qed

lemma ref_call: "pbuf_inv h ext \<Longrightarrow> pbufs h p \<noteq> None \<Longrightarrow> rc h p < 65535 \<Longrightarrow>
    \<exists>h'. pbuf_ref (Some p) h = Some h' \<and> pbuf_inv h' (ext(p := ext p + 1))"
proof -
  assume i: "pbuf_inv h ext" and e: "pbufs h p \<noteq> None" and r: "rc h p < 65535"
  then obtain b where b: "pbufs h p = Some b" by auto
  let ?h = "upd_pbuf p (\<lambda>b. b\<lparr>ref := ref b + 1\<rparr>) h"
  have "heap_ok ?h (ext(p := ext p + 1)) \<and> pbuf_ref (Some p) h = Some ?h"
    using pbuf_ref_ok [of h ext p b] b r i by (auto simp: pbuf_inv_def rc_def)
  moreover have "link ?h x = link h x \<and> plen ?h x = plen h x \<and> ptot ?h x = ptot h x \<and> (pbufs ?h x = None) = (pbufs h x = None)" for x
    by (cases "x = p") (auto simp: link_def plen_def ptot_def b)
  then have "tot_ok ?h" using tot_same [of ?h h] i unfolding pbuf_inv_def by blast
  ultimately show ?thesis by (simp add: pbuf_inv_def)
qed

lemma inv_same_shape: "pbuf_inv h ext \<Longrightarrow> same_shape h h' \<Longrightarrow> pbuf_inv h' ext"
proof -
  assume i: "pbuf_inv h ext" and s: "same_shape h h'"
  have "tot_ok h' = tot_ok h" by (rule tot_same) (use s same_shape_sizes [OF s] in \<open>simp add: same_shape_def\<close>)
  then show ?thesis using i heap_same_shape [OF _ s] by (simp add: pbuf_inv_def)
qed

lemma alloc_call:
  assumes M: "malloc_ok M" and i: "pbuf_inv h ext"
  shows "\<exists>r h'. pbuf_alloc M l n t h = Some (r, h') \<and> pbuf_inv h' (case r of None \<Rightarrow> ext | Some p \<Rightarrow> ext(p := 1))"
proof -
  have h: "heap_ok h ext" "tot_ok h" using i by (simp_all add: pbuf_inv_def)
  from pbuf_alloc_ok [OF M h(1)] obtain r h' where
    r: "pbuf_alloc M l n t h = Some (r, h')" "alloc_result M l t (unat n) h ext r h'" by blast
  show ?thesis
  proof (cases r)
    case None
    then show ?thesis using r i inv_same_shape [OF i pool_empty_shape] by (auto simp: alloc_result_def)
  next
    case (Some p)
    then obtain vs where v: "heap_ok h' (ext(p := 1))" "\<forall>x. pbufs h x \<noteq> None \<longrightarrow> pbufs h' x = pbufs h x"
      "path h' (Some p) (p # vs)" "\<forall>v \<in> set (p # vs). pbufs h v = None" "packet h' (p # vs)"
      "\<forall>x. pbufs h' x \<noteq> None \<longrightarrow> pbufs h x \<noteq> None \<or> x \<in> set (p # vs)"
      using r(2) unfolding alloc_result_def Some option.case by blast
    have "tot_ok h'"
    proof (rule tot_chain [OF h(2) v(3,5)])
      fix x assume x: "x \<notin> set (p # vs)" "pbufs h' x \<noteq> None"
      then have o: "pbufs h x \<noteq> None" "pbufs h' x = pbufs h x" using v(2,6) by blast+
      then show "pbufs h x \<noteq> None \<and> link h' x = link h x \<and> plen h' x = plen h x \<and> ptot h' x = ptot h x"
        using sizes_same by blast
      fix y assume "link h x = Some (Some y)"
      then have "pbufs h y \<noteq> None" using refs_ok_alloc [of h ext y] h(1) by (auto simp: heap_ok_def)
      then show "ptot h' y = ptot h y" using v(2) sizes_same by blast
    qed
    then show ?thesis using r(1) Some v(1) by (auto simp: pbuf_inv_def)
  qed
qed

lemma tot_first:
  assumes t: "tot_ok h" and n: "preds h p = {}" and o: "\<And>x. x \<noteq> p \<Longrightarrow> pbufs h' x = pbufs h x" and l: "tot_law h' p"
  shows "tot_ok h'"
  unfolding tot_ok_def
proof (intro allI impI)
  fix a assume a: "pbufs h' a \<noteq> None"
  show "tot_law h' a"
  proof (cases "a = p")
    case False
    then have "tot_law h' a = tot_law h a"
      using sizes_same [OF o] not_pred [OF n] by (intro tot_law_cong) metis+
    then show ?thesis using t a o [OF False] by (simp add: tot_ok_def)
  qed (use l in simp)
qed

lemma header_call:
  assumes i: "pbuf_inv h ext" and e: "0 < ext p" and n: "preds h p = {}"
    and inc: "- int (plen h p) \<le> inc" "inc < 32768" "int (ptot h p) + inc < 65536"
  shows "\<exists>r h'. pbuf_header (Some p) inc h = Some (r, h') \<and> pbuf_inv h' ext"
proof -
  have h: "heap_ok h ext" "tot_ok h" using i by (simp_all add: pbuf_inv_def)
  obtain b where b: "pbufs h p = Some b" using refs_ok_alloc [of h ext p] h(1) e by (auto simp: heap_ok_def)
  then have law: "tot_law h p" using h(2) by (simp add: tot_ok_def)
  then have le: "plen h p \<le> ptot h p" by (simp add: tot_law_def)
  have pl: "plen h p = unat (len b)" "ptot h p = unat (tot_len b)" using b by (simp_all add: plen_def ptot_def)
  have pre: "- int (unat (len b)) \<le> inc" "int (unat (len b)) + inc < 65536" using inc(1,3) le pl by linarith+
  from pbuf_header_ok [OF h(1) b pre(1) inc(2) pre(2)] obtain r h' where
    r: "pbuf_header (Some p) inc h = Some (r, h')" "heap_ok h' ext" "r \<in> {0, 1}" "r = 1 \<longrightarrow> h' = h"
    "r = 0 \<longrightarrow> (\<exists>b'. pbufs h' p = Some b' \<and> int (unat (len b')) = int (unat (len b)) + inc
       \<and> payload b' = map_option (\<lambda>(s, k). (s, k - inc)) (payload b) \<and> nxt b' = nxt b \<and> tot_len b' = tot_len b + word_of_int inc)
       \<and> (\<forall>x. x \<noteq> p \<longrightarrow> pbufs h' x = pbufs h x) \<and> blocks h' = blocks h" by blast
  show ?thesis
  proof (cases "r = 1")
    case True
    then show ?thesis using r i by auto
  next
    case False
    then obtain b' where b': "pbufs h' p = Some b'" "int (unat (len b')) = int (unat (len b)) + inc" "nxt b' = nxt b"
      "tot_len b' = tot_len b + word_of_int inc" "\<forall>x. x \<noteq> p \<longrightarrow> pbufs h' x = pbufs h x" using r(3,5) by blast
    have "unat (tot_len b') = nat (int (unat (tot_len b)) + inc)"
      unfolding b'(4) by (rule unat_add_int) (use inc le pl in linarith)+
    moreover have "0 \<le> int (unat (tot_len b)) + inc" using inc(1) le pl by linarith
    ultimately have "int (unat (tot_len b')) = int (unat (tot_len b)) + inc" by (simp only: nat_0_le)
    moreover have "ptot h' p = unat (tot_len b')" "plen h' p = unat (len b')" by (simp_all add: ptot_def plen_def b'(1))
    ultimately have tt: "int (ptot h' p) = int (ptot h p) + inc" and ll: "int (plen h' p) = int (plen h p) + inc"
      using b'(2) pl by (simp_all only:)
    have "ptot h' q = ptot h q" if "nxt b = Some q" for q
    proof -
      have "q \<noteq> p" using not_pred [OF n, of p] b that by (auto simp: link_def)
      then show ?thesis using b'(5) by (simp add: ptot_def)
    qed
    then have "(case link h' p of Some (Some q) \<Rightarrow> ptot h' q | _ \<Rightarrow> 0) = (case link h p of Some (Some q) \<Rightarrow> ptot h q | _ \<Rightarrow> 0)"
      using b b'(1,3) by (cases "nxt b") (simp_all add: link_def)
    then have "tot_law h' p" using law tt ll unfolding tot_law_def by linarith
    then have "tot_ok h'" using b'(5) by (intro tot_first [OF h(2) n]) auto
    then show ?thesis using r(1,2) by (auto simp: pbuf_inv_def)
  qed
qed

lemma dechain_call: "pbuf_inv h ext \<Longrightarrow> 0 < ext p \<Longrightarrow> preds h p = {} \<Longrightarrow> \<exists>r h'. pbuf_dechain p h = Some (r, h') \<and> pbuf_inv h' ext"
proof -
  assume i: "pbuf_inv h ext" and e: "0 < ext p" and n: "preds h p = {}"
  have h: "heap_ok h ext" "tot_ok h" using i by (simp_all add: pbuf_inv_def)
  obtain ps where ps: "path h (Some p) ps" "packet h ps" using inv_path [OF i e] by blast
  then obtain b ts where b: "pbufs h p = Some b" "ps = p # ts" using path_first by blast
  let ?h = "upd_pbuf p (\<lambda>b. b\<lparr>nxt := None, tot_len := len b\<rparr>) h"
  from pbuf_dechain_ok [OF h(1) e ps [unfolded b(2)]] obtain r h' where
    r: "pbuf_dechain p h = Some (r, h')" "heap_ok h' ext" "shrinks ?h h'" by blast
  have "tot_law ?h p" by (simp add: tot_law_def link_upd_pbuf ptot_def plen_def b(1))
  then have "tot_ok ?h" by (intro tot_first [OF h(2) n]) auto
  then have "tot_ok h'" using tot_shrinks r(2,3) by (auto simp: heap_ok_def)
  then show ?thesis using r(1,2) by (auto simp: pbuf_inv_def)
qed

lemma path_succ: "path h p ps \<Longrightarrow> x \<in> set ps \<Longrightarrow> link h x = Some (Some y) \<Longrightarrow> y \<in> set ps"
proof (induction ps arbitrary: p)
  case (Cons a as)
  then obtain n where n: "link h a = Some n" "path h n as" by auto
  show ?case
  proof (cases "x = a")
    case True
    then show ?thesis using n Cons.prems(3) by (cases as) auto
  qed (use Cons n in auto)
qed simp

lemma realloc_call:
  assumes i: "pbuf_inv h ext" and e: "0 < ext p" and p: "path h (Some p) ps" and u: "unshared h ps"
  shows "\<exists>h'. pbuf_realloc (Some p) n h = Some h' \<and> pbuf_inv h' ext"
proof -
  have h: "heap_ok h ext" "tot_ok h" using i by (simp_all add: pbuf_inv_def)
  from pbuf_realloc_ok [OF h(1) e p tot_packet [OF h(2) p], of n] obtain h' where
    r: "pbuf_realloc (Some p) n h = Some h'" "heap_ok h' ext" "ptot h p \<le> unat n \<longrightarrow> h' = h"
    "unat n < ptot h p \<longrightarrow> (\<exists>us q vs. ps = us @ q # vs \<and> path h' (Some p) (us @ [q]) \<and> packet h' (us @ [q])
       \<and> (\<forall>x c. pbufs h' x = Some c \<longrightarrow> x \<notin> set (us @ [q]) \<longrightarrow> (\<exists>b. pbufs h x = Some b \<and> same_but_ref b c)))"
    by blast
  show ?thesis
  proof (cases "ptot h p \<le> unat n")
    case True
    then show ?thesis using r i by auto
  next
    case False
    then obtain us q vs where q: "ps = us @ q # vs" "path h' (Some p) (us @ [q])" "packet h' (us @ [q])"
      "\<forall>x c. pbufs h' x = Some c \<longrightarrow> x \<notin> set (us @ [q]) \<longrightarrow> (\<exists>b. pbufs h x = Some b \<and> same_but_ref b c)"
      using r(4) by auto
    have same: "pbufs h x \<noteq> None \<and> link h' x = link h x \<and> plen h' x = plen h x \<and> ptot h' x = ptot h x"
      if x: "x \<notin> set (us @ [q])" "pbufs h' x \<noteq> None" for x
    proof -
      obtain c where c: "pbufs h' x = Some c" using x(2) by auto
      then obtain b where "pbufs h x = Some b" "same_but_ref b c" using q(4) x(1) by blast
      then show ?thesis using same_but_ref_sizes c by blast
    qed
    have "tot_ok h'"
    proof (rule tot_chain [OF h(2) q(2,3) same])
      fix x y assume x: "x \<notin> set (us @ [q])" "pbufs h' x \<noteq> None" and l: "link h x = Some (Some y)"
      obtain r' where pv: "path h r' vs" using path_append [of h "Some p" "us @ [q]" vs] p q(1) by auto
      have "y \<notin> set (us @ [q])"
      proof (cases "x \<in> set vs")
        case True
        then show ?thesis using path_succ [OF pv True l] path_distinct [OF p] q(1) by auto
      next
        case False
        then show ?thesis using unshared_link [OF u l] x(1) q(1) by auto
      qed
      moreover have "pbufs h' y \<noteq> None" using refs_ok_alloc [of h' ext y] r(2) l same [OF x] by (auto simp: heap_ok_def)
      ultimately show "ptot h' y = ptot h y" using same by blast
    qed
    then show ?thesis using r(1,2) by (simp add: pbuf_inv_def)
  qed
qed

lemma cat_call:
  assumes i: "pbuf_inv h ext" and e: "0 < ext t" and p: "path h (Some p) ps" "unshared h ps"
    and t: "path h (Some t) ts" "set ps \<inter> set ts = {}" and l: "ptot h p + ptot h t < 65536"
  shows "\<exists>h'. pbuf_cat (Some p) (Some t) h = Some h' \<and> pbuf_inv h' (ext(t := ext t - 1)) \<and> pbufs h' t = pbufs h t"
proof -
  have h: "heap_ok h ext" "tot_ok h" using i by (simp_all add: pbuf_inv_def)
  from pbuf_cat_ok [OF h(1) e p(1) tot_packet [OF h(2) p(1)] t(1) tot_packet [OF h(2) t(1)] t(2) l] obtain h' where
    r: "pbuf_cat (Some p) (Some t) h = Some h'" "heap_ok h' (ext(t := ext t - 1))" "path h' (Some p) (ps @ ts)"
    "packet h' (ps @ ts)" "\<forall>x. x \<notin> set ps \<longrightarrow> pbufs h' x = pbufs h x" by blast
  have same: "pbufs h' x = pbufs h x \<and> link h' x = link h x \<and> plen h' x = plen h x \<and> ptot h' x = ptot h x"
    if "x \<notin> set ps" for x using r(5) sizes_same [of h' x h] that by blast
  have "tot_ok h'"
  proof (rule tot_chain [OF h(2) r(3,4)])
    fix x assume x: "x \<notin> set (ps @ ts)" "pbufs h' x \<noteq> None"
    then show "pbufs h x \<noteq> None \<and> link h' x = link h x \<and> plen h' x = plen h x \<and> ptot h' x = ptot h x"
      using same [of x] by auto
    fix y assume "link h x = Some (Some y)"
    then have "y \<notin> set ps" using unshared_link [OF p(2)] x(1) by auto
    then show "ptot h' y = ptot h y" using same by blast
  qed
  moreover have "t \<in> set ts" using path_first [OF t(1)] by auto
  ultimately show ?thesis using r(1,2) same [of t] t(2) by (auto simp: pbuf_inv_def simp del: fun_upd_apply)
qed

lemma inv_allocated: "pbuf_inv h ext \<Longrightarrow> 0 < ext p \<Longrightarrow> pbufs h p \<noteq> None"
  using refs_ok_alloc [of h ext p] by (auto simp: pbuf_inv_def heap_ok_def)

lemma chain_call:
  assumes i: "pbuf_inv h ext" and e: "0 < ext t" and p: "path h (Some p) ps" "unshared h ps"
    and t: "path h (Some t) ts" "set ps \<inter> set ts = {}" and l: "ptot h p + ptot h t < 65536" and r: "rc h t < 65535"
  shows "\<exists>h'. pbuf_chain (Some p) (Some t) h = Some h' \<and> pbuf_inv h' ext"
proof -
  from cat_call [OF i e p t l] obtain h1 where
    h1: "pbuf_cat (Some p) (Some t) h = Some h1" "pbuf_inv h1 (ext(t := ext t - 1))" "pbufs h1 t = pbufs h t" by blast
  have "pbufs h1 t \<noteq> None" "rc h1 t < 65535" using h1(3) r inv_allocated [OF i e] by (simp_all add: rc_def)
  from ref_call [OF h1(2) this] obtain h' where
    h': "pbuf_ref (Some t) h1 = Some h'" "pbuf_inv h' ((ext(t := ext t - 1))(t := (ext(t := ext t - 1)) t + 1))" by blast
  have "(ext(t := ext t - 1))(t := (ext(t := ext t - 1)) t + 1) = ext" using e by auto
  then have "pbuf_inv h' ext" using h'(2) by (simp only:)
  then show ?thesis using h1(1) h'(1) by (simp add: pbuf_chain_def)
qed

lemma coalesce_call:
  assumes M: "malloc_ok M" and i: "pbuf_inv h ext" and e: "0 < ext p"
    and p: "path h (Some p) ps" "dense h ps" "\<forall>x \<in> set ps. has_data h x"
  shows "\<exists>q h'. pbuf_coalesce M p l h = Some (q, h') \<and> pbuf_inv h' (if q = p then ext else ext(p := ext p - 1, q := 1))"
proof -
  have h: "heap_ok h ext" "tot_ok h" using i by (simp_all add: pbuf_inv_def)
  from pbuf_coalesce_ok [OF M h(1) e p(1) tot_packet [OF h(2) p(1)] p(2,3), of l]
  have "pbuf_coalesce M p l h = Some (p, h) \<or> (\<exists>q h'. pbuf_coalesce M p l h = Some (q, h') \<and> pbufs h q = None
         \<and> heap_ok h' (ext(p := ext p - 1, q := 1)) \<and> path h' (Some q) [q] \<and> packet h' [q] \<and> pdata h' q = cdata h ps
         \<and> (\<forall>x c. x \<noteq> q \<longrightarrow> pbufs h' x = Some c \<longrightarrow> (\<exists>b. pbufs h x = Some b \<and> same_but_ref b c)))"
    by (elim disjE conjE) simp_all
  then show ?thesis
  proof
    assume "pbuf_coalesce M p l h = Some (p, h)"
    then show ?thesis using i by auto
  next
    assume "\<exists>q h'. pbuf_coalesce M p l h = Some (q, h') \<and> pbufs h q = None
         \<and> heap_ok h' (ext(p := ext p - 1, q := 1)) \<and> path h' (Some q) [q] \<and> packet h' [q] \<and> pdata h' q = cdata h ps
         \<and> (\<forall>x c. x \<noteq> q \<longrightarrow> pbufs h' x = Some c \<longrightarrow> (\<exists>b. pbufs h x = Some b \<and> same_but_ref b c))"
    then obtain q h' where q: "pbuf_coalesce M p l h = Some (q, h')" "pbufs h q = None"
      "heap_ok h' (ext(p := ext p - 1, q := 1))" "path h' (Some q) [q]" "packet h' [q]"
      "\<forall>x c. x \<noteq> q \<longrightarrow> pbufs h' x = Some c \<longrightarrow> (\<exists>b. pbufs h x = Some b \<and> same_but_ref b c)" by blast
    have same: "pbufs h x \<noteq> None \<and> link h' x = link h x \<and> plen h' x = plen h x \<and> ptot h' x = ptot h x"
      if x: "x \<notin> set [q]" "pbufs h' x \<noteq> None" for x
    proof -
      obtain c where c: "pbufs h' x = Some c" using x(2) by auto
      then obtain b where "pbufs h x = Some b" "same_but_ref b c" using q(6) x(1) by auto
      then show ?thesis using same_but_ref_sizes c by blast
    qed
    have "tot_ok h'"
    proof (rule tot_chain [OF h(2) q(4,5) same])
      fix x y assume x: "x \<notin> set [q]" "pbufs h' x \<noteq> None" and l: "link h x = Some (Some y)"
      have "\<exists>b. pbufs h y = Some b" by (rule refs_ok_alloc) (use h(1) l in \<open>auto simp: heap_ok_def\<close>)
      then have "y \<noteq> q" using q(2) by auto
      moreover have "pbufs h' y \<noteq> None"
        using refs_ok_alloc [of h' _ y] q(3) l same [OF x] by (auto simp: heap_ok_def)
      ultimately show "ptot h' y = ptot h y" using same [of y] by simp
    qed
    moreover have "q \<noteq> p" using q(2) inv_allocated [OF i e] by auto
    ultimately show ?thesis using q(1,3) by (auto simp: pbuf_inv_def simp del: fun_upd_apply)
  qed
qed

lemma take_call:
  assumes i: "pbuf_inv h ext" and p: "path h (Some p) ps" "\<forall>x \<in> set ps. owned h x" and n: "unat n \<le> length dat"
  shows "\<exists>e h'. pbuf_take (Some p) dat n h = Some (e, h') \<and> pbuf_inv h' ext"
proof -
  have "windows_ok h" "packet h ps" using i tot_packet [OF _ p(1)] by (simp_all add: pbuf_inv_def heap_ok_def)
  from pbuf_take_ok [OF this(1) p this(2) n] show ?thesis using inv_same_shape [OF i] by blast
qed

lemma copy_call:
  assumes i: "pbuf_inv h ext" and t: "path h (Some t) ts" "dense h ts" "\<forall>x \<in> set ts. owned h x"
    and f: "path h (Some f) fs" "dense h fs" "\<forall>x \<in> set fs. has_data h x" and d: "set ts \<inter> set fs = {}"
    and le: "ptot h f \<le> ptot h t"
  shows "\<exists>h'. pbuf_copy (Some t) (Some f) h = Some (ERR_OK, h') \<and> pbuf_inv h' ext"
proof -
  have w: "windows_ok h" and pk: "packet h ts" "packet h fs"
    using i tot_packet [OF _ t(1)] tot_packet [OF _ f(1)] by (simp_all add: pbuf_inv_def heap_ok_def)
  from pbuf_copy_ok [OF w t(1) pk(1) t(2,3) f(1) pk(2) f(2,3) d le] show ?thesis using inv_same_shape [OF i] by blast
qed

lemma count_dropped:
  "segs \<noteq> [] \<Longrightarrow> dropped (segs # pcbs) = segs" "dropped ([] # pcbs) = dropped pcbs" "dropped [] = []"
  by (simp_all add: dropped_def)

lemma segs_call:
  "pbuf_inv h ext \<Longrightarrow> \<forall>a. count_list segs (Some a) \<le> ext a \<Longrightarrow>
    \<exists>h'. tcp_segs_free segs h = Some h' \<and> pbuf_inv h' (\<lambda>a. ext a - count_list segs (Some a))"
proof (induction segs arbitrary: h ext)
  case (Cons p segs)
  show ?case
  proof (cases p)
    case None
    then show ?thesis using Cons by (simp add: tcp_seg_free_def)
  next
    case (Some x)
    then have "0 < ext x" using Cons.prems(2) [rule_format, of x] by simp
    from free_call [OF Cons.prems(1) this] obtain n h1 where
      h1: "pbuf_free (Some x) h = Some (n, h1)" "pbuf_inv h1 (ext(x := ext x - 1))" by blast
    have "count_list segs (Some a) \<le> (ext(x := ext x - 1)) a" for a
      using Cons.prems(2) [rule_format, of a] Some by (auto split: if_splits)
    with Cons.IH [OF h1(2)] obtain h' where
      h': "tcp_segs_free segs h1 = Some h'" "pbuf_inv h' (\<lambda>a. (ext(x := ext x - 1)) a - count_list segs (Some a))" by blast
    have "(\<lambda>a. (ext(x := ext x - 1)) a - count_list segs (Some a)) = (\<lambda>a. ext a - count_list (p # segs) (Some a))"
      by (auto simp: Some fun_eq_iff)
    then have "pbuf_inv h' (\<lambda>a. ext a - count_list (p # segs) (Some a))" using h'(2) by (simp only:)
    then show ?thesis using h1(1) h'(1) Some by (simp add: tcp_seg_free_def)
  qed
qed simp

lemma ooseq_call:
  "pbuf_inv h ext \<Longrightarrow> \<forall>a. count_list (dropped pcbs) (Some a) \<le> ext a \<Longrightarrow>
    \<exists>r h'. pbuf_free_ooseq pcbs h = Some (r, h') \<and> pbuf_inv h' (\<lambda>a. ext a - count_list (dropped pcbs) (Some a))"
proof -
  have "pbuf_inv h ext \<Longrightarrow> \<forall>a. count_list (dropped pcbs) (Some a) \<le> ext a \<Longrightarrow>
    \<exists>r h'. free_ooseq pcbs h = Some (r, h') \<and> pbuf_inv h' (\<lambda>a. ext a - count_list (dropped pcbs) (Some a))" for h
  proof (induction pcbs)
    case (Cons segs pcbs)
    then show ?case using segs_call [OF Cons.prems(1), of segs]
      by (cases "segs = []") (fastforce simp: count_dropped)+
  qed (simp add: count_dropped)
  moreover have "same_shape h (h\<lparr>ooseq_queued := False\<rparr>)" by (simp add: same_shape_def)
  ultimately show "pbuf_inv h ext \<Longrightarrow> \<forall>a. count_list (dropped pcbs) (Some a) \<le> ext a \<Longrightarrow> ?thesis"
    unfolding pbuf_free_ooseq_def using inv_same_shape by blast
qed

lemma call_ok:
  assumes M: "malloc_ok M" and i: "pbuf_inv h ext" and a: "allowed c h ext"
  shows "\<exists>h' ext'. do_call M c h ext = Some (h', ext') \<and> pbuf_inv h' ext'"
proof (cases c)
  case (Alloc l n t)
  then show ?thesis using alloc_call [OF M i, of l n t] by auto
next
  case (Free p)
  then show ?thesis using free_call [OF i, of p] a by (auto simp del: fun_upd_apply)
next
  case (Ref p)
  then show ?thesis using ref_call [OF i, of p] a inv_allocated [OF i, of p] by (auto simp del: fun_upd_apply)
next
  case (Header p inc)
  then show ?thesis using header_call [OF i, of p inc] a by auto
next
  case (Realloc p n)
  then obtain ps where "0 < ext p" "path h (Some p) ps" "unshared h ps" using a by auto
  from realloc_call [OF i this, of n] show ?thesis using Realloc by auto
next
  case (Cat p t)
  then obtain ps ts where "0 < ext t" "path h (Some p) ps" "unshared h ps" "path h (Some t) ts"
    "set ps \<inter> set ts = {}" "ptot h p + ptot h t < 65536" using a by (auto simp: joinable_def)
  from cat_call [OF i this] show ?thesis using Cat by (auto simp del: fun_upd_apply)
next
  case (Chain p t)
  then obtain ps ts where "0 < ext t" "path h (Some p) ps" "unshared h ps" "path h (Some t) ts"
    "set ps \<inter> set ts = {}" "ptot h p + ptot h t < 65536" "rc h t < 65535" using a by (auto simp: joinable_def)
  from chain_call [OF i this] show ?thesis using Chain by auto
next
  case (Dechain p)
  then show ?thesis using dechain_call [OF i, of p] a by auto
next
  case (Take p dat n)
  then obtain ps where "path h (Some p) ps" "\<forall>x \<in> set ps. owned h x" "unat n \<le> length dat" using a by auto
  from take_call [OF i this] show ?thesis using Take by auto
next
  case (Copy t f)
  then obtain ts fs where "path h (Some t) ts" "dense h ts" "\<forall>x \<in> set ts. owned h x"
    "path h (Some f) fs" "dense h fs" "\<forall>x \<in> set fs. has_data h x" "set ts \<inter> set fs = {}" "ptot h f \<le> ptot h t"
    using a by auto
  from copy_call [OF i this] show ?thesis using Copy by auto
next
  case (Coalesce p l)
  then obtain ps where "0 < ext p" "path h (Some p) ps" "dense h ps" "\<forall>x \<in> set ps. has_data h x" using a by auto
  from coalesce_call [OF M i this, of l] obtain q h' where
    q: "pbuf_coalesce M p l h = Some (q, h')" "pbuf_inv h' (if q = p then ext else ext(p := ext p - 1, q := 1))" by blast
  have "do_call M c h ext = Some (h', if q = p then ext else ext(p := ext p - 1, q := 1))"
    using q(1) Coalesce by (simp del: fun_upd_apply)
  then show ?thesis using q(2) by blast
next
  case (Free_ooseq pcbs)
  then show ?thesis using ooseq_call [OF i, of pcbs] a by auto
qed

lemma pbuf_inv_start: "pbufs h = (\<lambda>_. None) \<Longrightarrow> pbuf_inv h (\<lambda>_. 0)"
  by (simp add: pbuf_inv_def heap_ok_def refs_ok_def windows_ok_def ends_ok_def tot_ok_def rc_def indeg_def preds_def link_def)

lemma pbuf_run_inv: "pbuf_run h ext \<Longrightarrow> pbuf_inv h ext"
proof (induction rule: pbuf_run.induct)
  case (run_call h ext M c h' ext')
  then show ?case using call_ok [of M h ext c] by auto
qed (rule pbuf_inv_start)

subsection \<open>Properties\<close>

text \<open>C12: After any sequence of calls whose callers hold the references they use, give back no more
  than they have and do not change the length of what others have chained, every reference count is
  the number of pointers to the pbuf, chains end, every \<open>tot_len\<close> is the length of the rest of the
  packet and every payload lies in allocated memory; and the next such call returns, without a failed
  assertion or an access outside of the heap, to such a state again.\<close>

theorem pbuf_calls_are_safe:
  assumes "pbuf_run h ext" and "malloc_ok M" and "allowed c h ext"
  shows "\<exists>h' ext'. do_call M c h ext = Some (h', ext') \<and> pbuf_run h' ext' \<and> heap_ok h' ext' \<and> tot_ok h'"
  using call_ok [OF assms(2) pbuf_run_inv [OF assms(1)] assms(3)] run_call [OF assms]
  unfolding pbuf_inv_def by blast

text \<open>An allocator that uses the addresses from 1 to 8.\<close>

definition small_malloc :: pbuf_env where
  "small_malloc = \<lparr>malloc = \<lambda>h n. case filter (\<lambda>a. pbufs h a = None \<and> blocks h a = None) [1..<9] of
       [] \<Rightarrow> None | a # _ \<Rightarrow> Some (a, replicate (n - SIZEOF_STRUCT_PBUF) 0), callback_ok = True\<rparr>"

lemma small_malloc_ok: "malloc_ok small_malloc"
proof -
  have "pbufs h a = None \<and> blocks h a = None"
    if "filter (\<lambda>a. pbufs h a = None \<and> blocks h a = None) [1..<9] = a # as" for h a as
    using that by (metis (mono_tags, lifting) filter_eq_ConsD)
  then show ?thesis by (auto simp: malloc_ok_def small_malloc_def split: list.splits)
qed

definition no_pbufs :: heap where
  "no_pbufs = \<lparr>pbufs = \<lambda>_. None, blocks = \<lambda>_. None, ooseq_queued = False, ooseq_posted = 0\<rparr>"

definition two_pbufs :: heap where
  "two_pbufs = \<lparr>pbufs = [1 \<mapsto> \<lparr>nxt = Some 2, payload = Some (1, 0), tot_len = 200, len = 184, ptype = PBUF_POOL, flags = 0, ref = 1\<rparr>,
       2 \<mapsto> \<lparr>nxt = None, payload = Some (2, 0), tot_len = 16, len = 16, ptype = PBUF_POOL, flags = 0, ref = 1\<rparr>],
     blocks = [1 \<mapsto> replicate 184 0, 2 \<mapsto> replicate 184 0], ooseq_queued = False, ooseq_posted = 0\<rparr>"

lemma malloc_first: "malloc small_malloc no_pbufs pool_size = Some (1, replicate 184 0)"
  by (simp add: small_malloc_def no_pbufs_def size_defs upt_rec)

lemma malloc_second:
  "pbufs h 1 \<noteq> None \<Longrightarrow> pbufs h 2 = None \<and> blocks h 2 = None \<Longrightarrow> malloc small_malloc h pool_size = Some (2, replicate 184 0)"
proof -
  have "[1..<9] = (1 :: nat) # 2 # [3..<9]" by (simp add: upt_rec)
  then show "pbufs h 1 \<noteq> None \<Longrightarrow> pbufs h 2 = None \<and> blocks h 2 = None \<Longrightarrow> ?thesis"
    by (simp only: small_malloc_def pbuf_env.simps filter.simps list.case) (simp add: size_defs)
qed

lemma alloc_two: "do_call small_malloc (Alloc PBUF_RAW 200 PBUF_POOL) no_pbufs (\<lambda>_. 0) = Some (two_pbufs, (\<lambda>_. 0)(1 := 1))"
proof -
  have e: "PBUF_POOL_BUFSIZE_ALIGNED = 184" "LWIP_MEM_ALIGN_SIZE 0 = 0" by (simp_all add: size_defs)
  have l: "pool_len 16 = 16" by (simp add: pool_len_def e min_def word_le_nat_alt)
  define h1 where "h1 = new_pbuf 1 \<lparr>nxt = None, payload = Some (1, 0), tot_len = 200, len = 184, ptype = PBUF_POOL, flags = 0, ref = 1\<rparr> (replicate 184 0) no_pbufs"
  have m: "malloc small_malloc h1 pool_size = Some (2, replicate 184 0)" by (rule malloc_second) (simp_all add: h1_def no_pbufs_def)
  have "pool_tail small_malloc 1 1 16 h1 = Some (Some 1, two_pbufs)"
    by (subst pool_tail.simps) (simp add: m l Let_def, subst pool_tail.simps, simp add: h1_def two_pbufs_def new_pbuf_def upd_pbuf_def no_pbufs_def fun_upd_twist)
  moreover have "pbuf_alloc small_malloc PBUF_RAW 200 PBUF_POOL no_pbufs = pool_tail small_malloc 1 1 16 h1"
    by (simp add: pbuf_alloc_def malloc_first e Let_def min_def word_le_nat_alt h1_def)
  ultimately show ?thesis by simp
qed

lemma two_run: "pbuf_run two_pbufs ((\<lambda>_. 0)(1 := 1))"
  by (rule run_call [OF run_start [of no_pbufs] small_malloc_ok _ alloc_two]) (simp_all add: no_pbufs_def)

lemma two_path: "path two_pbufs (Some 1) [1, 2]"
  by (simp add: two_pbufs_def link_def)

lemma two_fields:
  "\<forall>x \<in> set [1, 2]. owned two_pbufs x" "\<forall>x \<in> set [1, 2]. has_data two_pbufs x" "dense two_pbufs [1, 2]"
  "ptot two_pbufs 1 = 200" "cdata two_pbufs [1, 2] = replicate 200 0"
  by (simp_all add: two_pbufs_def owned_def has_data_def dense_def plen_def ptot_def pdata_def replicate_add [symmetric])

theorem pbuf_calls_are_safe_witness:
  "\<exists>h ext. do_call small_malloc (Realloc 1 100) two_pbufs ((\<lambda>_. 0)(1 := 1)) = Some (h, ext) \<and> heap_ok h ext \<and> tot_ok h"
proof -
  have "link two_pbufs x = Some (Some y) \<Longrightarrow> x = 1" for x y by (simp add: two_pbufs_def link_def split: if_splits)
  then have "unshared two_pbufs [1, 2]" by (auto simp: unshared_def preds_def)
  then have "allowed (Realloc 1 100) two_pbufs ((\<lambda>_. 0)(1 := 1))" using two_path
    by (simp only: allowed.simps) (intro conjI exI [of _ "[1, 2]"]; simp)
  then show ?thesis using pbuf_calls_are_safe [OF two_run small_malloc_ok] by blast
qed

lemma run_heap: "pbuf_run h ext \<Longrightarrow> heap_ok h ext \<and> windows_ok h \<and> tot_ok h"
  using pbuf_run_inv [of h ext] by (simp add: pbuf_inv_def heap_ok_def)

lemma run_packet: "pbuf_run h ext \<Longrightarrow> path h p ps \<Longrightarrow> packet h ps"
  using run_heap tot_packet by blast

lemma path_exists_unique: "path h p ps \<Longrightarrow> (\<exists>qs. path h p qs \<and> P qs) \<longleftrightarrow> P ps"
  using path_unique by blast

text \<open>C32: \<open>pbuf_alloc\<close> in any state that the calls lead to, for each layer, length and type: it either
  yields nothing and leaves the heap as it was, also when the memory runs out in the middle of a chain
  of pool buffers, except that TCP is asked to give back some of those, or a packet of new pbufs with exactly the requested length whose first payload leaves
  room for the headers of the layer, and what was in the heap before is as it was.\<close>

theorem pbuf_alloc_all_or_nothing:
  assumes "malloc_ok M" and "pbuf_run h ext"
  shows "\<exists>r h'. pbuf_alloc M layer n t h = Some (r, h') \<and> (case r of
       None \<Rightarrow> h' = (if t = PBUF_POOL then pbuf_pool_is_empty M h else h)
     | Some p \<Rightarrow> (\<exists>vs b. path h' (Some p) (p # vs) \<and> packet h' (p # vs) \<and> ptot h' p = unat n
           \<and> (\<forall>v \<in> set (p # vs). pbufs h v = None) \<and> (t \<noteq> PBUF_POOL \<longrightarrow> vs = [])
           \<and> pbufs h' p = Some b \<and> ptype b = t
           \<and> payload b = (if t = PBUF_RAM \<or> t = PBUF_POOL then Some (p, int (LWIP_MEM_ALIGN_SIZE (layer_offset layer))) else None)
           \<and> (\<forall>x. pbufs h x \<noteq> None \<longrightarrow> pbufs h' x = pbufs h x \<and> pdata h' x = pdata h x)))"
proof -
  have h: "heap_ok h ext" "windows_ok h" using run_heap [OF assms(2)] by blast+
  from pbuf_alloc_ok [OF assms(1) h(1)] obtain r h' where
    r: "pbuf_alloc M layer n t h = Some (r, h')" "alloc_result M layer t (unat n) h ext r h'" by blast
  show ?thesis
  proof (cases r)
    case None
    then show ?thesis using r by (simp add: alloc_result_def)
  next
    case (Some p)
    note R = r(2) [unfolded alloc_result_def Some option.case]
    have "pdata h' x = pdata h x" if x: "pbufs h x \<noteq> None" for x
    proof -
      obtain b where b: "pbufs h x = Some b" using x by auto
      have "blocks h' s = blocks h s" if s: "payload b = Some (s, i)" for s i
      proof -
        have "window h x b" using h(2) b by (simp add: windows_ok_def)
        then obtain m where "blocks h s = Some m" using s by (auto simp: window_def split: if_splits)
        then show ?thesis using R unfolding keeps_def by metis
      qed
      moreover have "pbufs h' x = Some b" using R b x by metis
      ultimately show ?thesis by (intro pdata_cong [OF b, of _ b]) auto
    qed
    then show ?thesis using r(1) R Some
      by (intro exI [of _ r] exI [of _ h']) (simp del: path.simps packet.simps, blast)
  qed
qed

theorem pbuf_alloc_all_or_nothing_witness:
  "\<exists>r h'. pbuf_alloc small_malloc PBUF_IP 400 PBUF_POOL two_pbufs = Some (r, h')
     \<and> (case r of None \<Rightarrow> pbufs h' = pbufs two_pbufs | Some p \<Rightarrow> ptot h' p = 400)"
  using pbuf_alloc_all_or_nothing [OF small_malloc_ok two_run, of PBUF_IP 400 PBUF_POOL]
  by (elim exE conjE) (intro exI conjI, assumption, auto split: option.splits)

text \<open>Shortening a packet with \<open>pbuf_realloc\<close> keeps the first bytes: the chain that remains holds
  exactly the first \<open>n\<close> bytes of the packet, in the pbufs where they were, with right lengths.\<close>

theorem realloc_keeps_prefix:
  assumes "malloc_ok M" and "pbuf_run h ext" and "0 < ext p" and "path h (Some p) ps" and "\<forall>x \<in> set ps. has_data h x"
  shows "\<exists>h' qs. pbuf_realloc (Some p) n h = Some h' \<and> heap_ok h' ext \<and> path h' (Some p) qs \<and> packet h' qs
    \<and> cdata h' qs = take (unat n) (cdata h ps) \<and> (\<exists>vs. ps = qs @ vs)"
proof -
  have h: "heap_ok h ext" "windows_ok h" using run_heap [OF assms(2)] by blast+
  have pk: "packet h ps" by (rule run_packet [OF assms(2,4)])
  have len: "length (cdata h ps) = ptot h p"
    using sum_plen [OF h(2) assms(5)] pk path_first [OF assms(4)] by auto
  show ?thesis
  proof (cases "ptot h p \<le> unat n")
    case True
    then show ?thesis using pbuf_realloc_ok [OF h(1) assms(3,4) pk, of n] h(1) assms(4) pk len
      by (intro exI [of _ h] exI [of _ ps]) auto
  next
    case False
    then obtain us q vs h' where r: "pbuf_realloc (Some p) n h = Some h'" "heap_ok h' ext" "ps = us @ q # vs"
      "path h' (Some p) (us @ [q])" "packet h' (us @ [q])" "\<forall>x \<in> set us. pdata h' x = pdata h x"
      "unat n = sum_list (map (plen h) us) + plen h' q" "plen h' q \<le> plen h q" "pdata h' q = take (plen h' q) (pdata h q)"
      using pbuf_realloc_ok [OF h(1) assms(3,4) pk, of n] by (auto simp: not_le)
    have "cdata h' us = cdata h us" by (rule cdata_cong) (use r(6) in blast)
    moreover have "length (cdata h us) = sum_list (map (plen h) us)" using sum_plen [OF h(2), of us] assms(5) r(3) by simp
    moreover have "length (pdata h q) = plen h q" using length_pdata [OF h(2), of q] assms(5) r(3) by simp
    ultimately have "cdata h' (us @ [q]) = take (unat n) (cdata h ps)" using r(3,7,8,9) by simp
    then show ?thesis using r(1-5) by (intro exI [of _ h'] exI [of _ "us @ [q]"]) simp
  qed
qed

theorem realloc_keeps_prefix_witness:
  "\<exists>h' qs. pbuf_realloc (Some 1) 190 two_pbufs = Some h' \<and> path h' (Some 1) qs \<and> cdata h' qs = replicate 190 0"
  using realloc_keeps_prefix [OF small_malloc_ok two_run _ two_path two_fields(2), of 190]
  unfolding two_fields(5) by fastforce

text \<open>A pbuf that only its holder has a reference to is gone when that reference has been given up.\<close>

lemma last_reference:
  assumes "refs_ok h ext" and "rc h p = 1" and "0 < ext p" and "refs_ok h' ext'" and "ext' p = 0"
    and s: "\<And>x n. link h' x = Some (Some n) \<Longrightarrow> link h x = Some (Some n)"
  shows "pbufs h' p = None"
proof -
  have "indeg h p = 0" using refs_okD(2) [OF assms(1), of p] assms(2,3) by simp
  then have "preds h p = {}" using finite_preds [OF refs_okD(1) [OF assms(1)], of p] by (simp add: indeg_def)
  then have "preds h' p = {}" using s by (auto simp: preds_def)
  then have "rc h' p = 0" using refs_okD(2) [OF assms(4), of p] assms(5) by (simp add: indeg_def)
  then show ?thesis using refs_okD(3) [OF assms(4), of p] by (cases "pbufs h' p") (auto simp: dom_def)
qed

lemma last_reference_gone:
  assumes h: "heap_ok h ext" "0 < ext p" and p: "pbufs h p \<noteq> None" and q: "pbufs h q = None" "heap_ok h' (ext(p := ext p - 1, q := 1))"
    "link h' q = Some None" and s: "\<forall>x c. x \<noteq> q \<longrightarrow> pbufs h' x = Some c \<longrightarrow> (\<exists>b. pbufs h x = Some b \<and> same_but_ref b c)"
  shows "rc h p = 1 \<longrightarrow> pbufs h' p = None"
proof -
  have "link h x = Some (Some n)" if l: "link h' x = Some (Some n)" for x n
  proof -
    have "x \<noteq> q" using l q(3) by auto
    then show ?thesis using l s same_but_ref_sizes by (fastforce simp: link_def)
  qed
  moreover have "rc h p = 1 \<Longrightarrow> ext p = 1" using refs_okD(2) [of h ext p] h by (simp add: heap_ok_def)
  moreover have "q \<noteq> p" using p q(1) by auto
  ultimately show ?thesis
    using last_reference [of h ext p h' "ext(p := ext p - 1, q := 1)"] h q(2) by (auto simp: heap_ok_def)
qed

text \<open>C18: \<open>pbuf_coalesce\<close> on a chain: a single pbuf, or a chain for which there is no memory, is returned as it
  is. Otherwise, when the last pbuf has data, the result is one new pbuf with the bytes of the whole
  chain, and the caller's reference to the old one has been given up: if it was the only one the old pbuf
  is freed, although the comment on the function says that it is not. When the last pbuf is empty the code aborts, since
  \<open>pbuf_copy\<close> takes the empty rest for a second packet or finds no space for it.\<close>

theorem coalesce_keeps_bytes:
  assumes "malloc_ok M" and "pbuf_run h ext" and "0 < ext p" and "path h (Some p) ps" and "\<forall>x \<in> set ps. has_data h x"
  shows "if tl ps = [] \<or> pbuf_alloc M layer (word_of_nat (ptot h p)) PBUF_RAM h = Some (None, h)
    then pbuf_coalesce M p layer h = Some (p, h)
    else if plen h (last ps) = 0 then pbuf_coalesce M p layer h = None
    else \<exists>q h'. pbuf_coalesce M p layer h = Some (q, h') \<and> pbufs h q = None \<and> path h' (Some q) [q] \<and> packet h' [q]
      \<and> pdata h' q = cdata h ps \<and> heap_ok h' (ext(p := ext p - 1, q := 1)) \<and> (rc h p = 1 \<longrightarrow> pbufs h' p = None)"
proof -
  have h: "heap_ok h ext" using run_heap [OF assms(2)] by blast
  have pk: "packet h ps" by (rule run_packet [OF assms(2,4)])
  have p: "pbufs h p \<noteq> None" using path_first [OF assms(4)] by auto
  show ?thesis
  proof (cases "tl ps = [] \<or> pbuf_alloc M layer (word_of_nat (ptot h p)) PBUF_RAM h = Some (None, h) \<or> plen h (last ps) \<noteq> 0")
    case False
    then show ?thesis using pbuf_coalesce_aborts [OF assms(1) h assms(4) pk, of layer] by simp
  next
    case True
    show ?thesis
    proof (cases "tl ps = [] \<or> pbuf_alloc M layer (word_of_nat (ptot h p)) PBUF_RAM h = Some (None, h)")
      case one: True
      show ?thesis
      proof (cases "tl ps = []")
        case True
        then have "dense h ps" by (simp add: dense_def)
        from pbuf_coalesce_ok [OF assms(1) h assms(3,4) pk this assms(5), of layer] show ?thesis using one True by simp
      next
        case False
        obtain b as where b: "pbufs h p = Some b" "ps = p # as" using path_first [OF assms(4)] by blast
        then show ?thesis using one False by (auto simp: pbuf_coalesce_def ptot_def)
      qed
    next
      case False
      then have "dense h ps" using True by (simp add: dense_def)
      from pbuf_coalesce_ok [OF assms(1) h assms(3,4) pk this assms(5), of layer] False obtain q h' where
        q: "pbuf_coalesce M p layer h = Some (q, h')" "pbufs h q = None" "heap_ok h' (ext(p := ext p - 1, q := 1))"
          "path h' (Some q) [q]" "packet h' [q]" "pdata h' q = cdata h ps"
        and s: "\<forall>x c. x \<noteq> q \<longrightarrow> pbufs h' x = Some c \<longrightarrow> (\<exists>b. pbufs h x = Some b \<and> same_but_ref b c)"
        by (elim disjE exE conjE) blast+
      have "rc h p = 1 \<longrightarrow> pbufs h' p = None"
        using last_reference_gone [OF h assms(3) p q(2,3) _ s] q(4) by simp
      then show ?thesis using False True q by (simp del: fun_upd_apply path.simps packet.simps)
    qed
  qed
qed

theorem coalesce_keeps_bytes_witness:
  "\<exists>q h'. pbuf_coalesce small_malloc 1 PBUF_RAW two_pbufs = Some (q, h') \<and> pdata h' q = replicate 200 0 \<and> pbufs h' 1 = None"
proof -
  have "\<exists>h'. pbuf_alloc small_malloc PBUF_RAW 200 PBUF_RAM two_pbufs = Some (Some 3, h')"
    by (simp add: pbuf_alloc_def small_malloc_def two_pbufs_def size_defs upt_rec Let_def)
  then have "pbuf_alloc small_malloc PBUF_RAW (word_of_nat (ptot two_pbufs 1)) PBUF_RAM two_pbufs \<noteq> Some (None, two_pbufs)"
    using two_fields(4) by auto
  moreover have "plen two_pbufs 2 = 16" "rc two_pbufs 1 = 1" by (simp_all add: two_pbufs_def plen_def rc_def)
  ultimately show ?thesis
    using coalesce_keeps_bytes [OF small_malloc_ok two_run _ two_path two_fields(2), of PBUF_RAW] two_fields(5) by auto
qed

text \<open>C20: What \<open>pbuf_take\<close> has put into a packet, \<open>pbuf_copy_partial\<close> reads from it at every offset,
  however the packet is split into pbufs.\<close>

theorem taken_bytes_are_read_back:
  assumes "malloc_ok M" and "pbuf_run h ext" and "path h (Some p) ps" and "\<forall>x \<in> set ps. owned h x"
    and "unat n \<le> ptot h p" and "unat n \<le> length dat" and "unat off + unat k \<le> unat n" and "unat k \<le> length dst"
  shows "\<exists>h'. pbuf_take (Some p) dat n h = Some (ERR_OK, h')
    \<and> pbuf_copy_partial (Some p) dst k off h' = Some (k, take (unat k) (drop (unat off) dat) @ drop (unat k) dst)"
proof -
  have h: "heap_ok h ext" "windows_ok h" using run_heap [OF assms(2)] by blast+
  have pk: "packet h ps" by (rule run_packet [OF assms(2,3)])
  from pbuf_take_ok [OF h(2) assms(3,4) pk assms(6)] assms(5) obtain h' where
    h': "pbuf_take (Some p) dat n h = Some (ERR_OK, h')" "same_shape h h'"
    "cdata h' ps = take (unat n) dat @ drop (unat n) (cdata h ps)" by auto
  have d: "\<forall>x \<in> set ps. has_data h' x" using assms(4) owned_data [OF h(2)] same_shape_sizes [OF h'(2)] by auto
  have w: "windows_ok h'" by (rule same_shape_windows [OF h'(2) h(2)])
  have p: "path h' (Some p) ps" using same_shape_path [OF h'(2)] assms(3) by simp
  have len: "unat n \<le> length (cdata h' ps)" using h'(3) assms(6) by simp
  then have m: "min (unat k) (length (cdata h' ps) - unat off) = unat k" using assms(7) by simp
  have "take (unat k) (drop (unat off) (cdata h' ps)) = take (unat k) (drop (unat off) dat)"
  proof -
    have "length (take (unat n) dat) = unat n" using assms(6) by simp
    then have "take (unat k) (drop (unat off) (cdata h' ps)) = take (unat k) (drop (unat off) (take (unat n) dat))"
      using h'(3) assms(7) by simp
    also have "... = take (unat k) (drop (unat off) dat)" using assms(7) by (simp add: drop_take)
    finally show ?thesis .
  qed
  then show ?thesis
    using pbuf_copy_partial_ok [OF w p d, of k off dst] h'(1) m assms(8) by simp
qed

theorem taken_bytes_are_read_back_witness:
  "\<exists>h'. pbuf_take (Some 1) (replicate 188 3 @ [4, 5]) 190 two_pbufs = Some (ERR_OK, h')
     \<and> pbuf_copy_partial (Some 1) [0, 0, 0] 2 188 h' = Some (2, [4, 5, 0])"
  using taken_bytes_are_read_back [OF small_malloc_ok two_run two_path two_fields(1),
    of 190 "replicate 188 3 @ [4, 5]" 188 2 "[0, 0, 0]"] two_fields(4) by simp

text \<open>C33: \<open>pbuf_dechain\<close> is documented to return the rest of the chain or \<open>NULL\<close> if that was deallocated.
  \<open>pbuf_free\<close> counts the pbufs it deallocates in 8 bits, so for a rest of 256 pbufs that nobody else
  refers to, all of them are deallocated and \<open>pbuf_dechain\<close> still returns the pointer to the first.\<close>

theorem dechain_returns_freed_pbuf:
  assumes h: "heap_ok h ext" and e: "0 < ext p" and p: "path h (Some p) (p # q # us)" "packet h (p # q # us)"
    and n: "length (q # us) = 256" and one: "\<forall>x \<in> set (q # us). rc h x = 1"
  shows "\<exists>h'. pbuf_dechain p h = Some (Some q, h') \<and> pbufs h' q = None"
proof -
  let ?ts = "q # us"
  obtain b c where b: "pbufs h p = Some b" "nxt b = Some q" "path h (Some q) ?ts" and c: "pbufs h q = Some c"
    using p(1) by (auto simp: link_def)
  have pts: "p \<notin> set ?ts" using path_distinct [OF p(1)] by simp
  have "unat (tot_len b) = unat (len b) + unat (tot_len c)" using p(2) b(1) c by (simp add: ptot_def plen_def)
  then have "unat (tot_len b - len b) = unat (tot_len c)" by (simp add: unat_sub word_le_nat_alt)
  then have tc: "tot_len c = tot_len b - len b" using unsigned_word_eqI by metis
  have id: "upd_pbuf q (\<lambda>c. c\<lparr>tot_len := tot_len b - len b\<rparr>) h = h"
    by (rule upd_pbuf_id [OF c]) (simp add: tc [symmetric])
  define h2 where "h2 = upd_pbuf p (\<lambda>b. b\<lparr>nxt := None, tot_len := len b\<rparr>) h"
  have p2: "path h2 (Some q) ?ts" by (subst path_cong [of ?ts _ h]) (use b(3) pts in \<open>auto simp: h2_def link_upd_pbuf\<close>)
  have one2: "\<forall>x \<in> set ?ts. rc h2 x = 1" using one pts by (auto simp: rc_def h2_def)
  have "pbuf_free_loop (Some q) 0 h2 = Some (word_of_nat 256, without (set ?ts) h2)"
    using pbuf_free_loop_chain [OF p2, of 0] free_chain_all [OF p2 one2] one2 n by simp
  then have f: "pbuf_free (Some q) h2 = Some (0, without (set ?ts) h2)" by (simp add: pbuf_free_def)
  have "pbufs (without (set ?ts) h2) p = Some (b\<lparr>nxt := None, tot_len := len b\<rparr>)"
    using pts b(1) by (simp add: without_def h2_def)
  then have "pbuf_dechain p h = Some (Some q, without (set ?ts) h2)"
    using b(1,2) c tc id f by (simp add: pbuf_dechain_def h2_def [symmetric])
  then show ?thesis by (simp add: without_def)
qed

definition long_chain :: "nat \<Rightarrow> heap" where
  "long_chain n = \<lparr>pbufs = \<lambda>a. if a < n then Some \<lparr>nxt = (if Suc a < n then Some (Suc a) else None), payload = Some (a, 0),
       tot_len = 0, len = 0, ptype = PBUF_RAM, flags = 0, ref = 1\<rparr> else None,
     blocks = \<lambda>a. if a < n then Some [] else None, ooseq_queued = False, ooseq_posted = 0\<rparr>"

lemma long_path: "a < n \<Longrightarrow> path (long_chain n) (Some a) [a..<n]"
proof (induction "n - a" arbitrary: a)
  case (Suc k)
  then show ?case
  proof (cases "Suc a < n")
    case True
    then have "path (long_chain n) (Some (Suc a)) [Suc a..<n]" using Suc by simp
    then show ?thesis using True by (simp add: upt_conv_Cons long_chain_def link_def)
  next
    case False
    then have "[a..<n] = [a]" using Suc.prems by (simp add: upt_conv_Cons)
    then show ?thesis using False Suc.prems by (simp add: long_chain_def link_def)
  qed
qed simp

lemma long_ok: "0 < n \<Longrightarrow> heap_ok (long_chain n) ((\<lambda>_. 0)(0 := 1))"
proof -
  assume n: "0 < n"
  have "preds (long_chain n) x = (if 0 < x \<and> x < n then {x - 1} else {})" for x
    by (auto simp: preds_def link_def long_chain_def split: if_splits)
  then have i: "indeg (long_chain n) x = (if 0 < x \<and> x < n then 1 else 0)" for x by (simp add: indeg_def)
  have r: "rc (long_chain n) x = (if x < n then 1 else 0)" for x by (simp add: rc_def long_chain_def)
  have "refs_ok (long_chain n) ((\<lambda>_. 0)(0 := 1))"
  proof (rule refs_okI)
    have "dom (pbufs (long_chain n)) \<subseteq> {..<n}" by (auto simp: long_chain_def split: if_splits)
    then show "finite (dom (pbufs (long_chain n)))" by (rule finite_subset) simp
    show "rc (long_chain n) x = ((\<lambda>_. 0)(0 := 1)) x + indeg (long_chain n) x" for x using n by (simp add: r i)
    show "0 < rc (long_chain n) x" if "x \<in> dom (pbufs (long_chain n))" for x
      using that by (auto simp: r) (auto simp: long_chain_def split: if_splits)
  qed
  moreover have "windows_ok (long_chain n)" by (simp add: windows_ok_def window_def long_chain_def)
  moreover have "ends_ok (long_chain n)"
    unfolding ends_ok_def
  proof (intro allI impI)
    fix a b assume "pbufs (long_chain n) a = Some b"
    then have "a < n" by (simp add: long_chain_def split: if_splits)
    then show "\<exists>ps. path (long_chain n) (Some a) ps" using long_path by blast
  qed
  ultimately show ?thesis by (simp add: heap_ok_def)
qed

theorem dechain_returns_freed_pbuf_witness:
  "\<exists>h'. pbuf_dechain 0 (long_chain 257) = Some (Some 1, h') \<and> pbufs h' 1 = None"
proof (rule dechain_returns_freed_pbuf [of _ "(\<lambda>_. 0)(0 := 1)" _ _ "[2..<257]"])
  have u: "[0..<257] = 0 # 1 # [2..<(257 :: nat)]" by (simp add: upt_conv_Cons)
  have z: "packet (long_chain 257) ps" for ps
    by (induction ps) (simp_all add: plen_def ptot_def long_chain_def comp_def)
  show "heap_ok (long_chain 257) ((\<lambda>_. 0)(0 := 1))" by (rule long_ok) simp
  show "path (long_chain 257) (Some 0) (0 # 1 # [2..<257])" using long_path [of 0 257] by (simp only: u)
  show "packet (long_chain 257) (0 # 1 # [2..<257])" by (rule z)
  show "\<forall>x \<in> set (1 # [2..<257]). rc (long_chain 257) x = 1" by (simp add: rc_def long_chain_def)
qed simp_all

end
