(* ===== verification/Ip_Addr.thy ===== *)
theory Ip_Addr imports Lwip_Err begin

section \<open>IPv4 addresses of lwIP (\<open>core/ipv4/ip_addr.c\<close>, \<open>core/def.c\<close>)\<close>

text \<open>
  The tests on addresses and the conversion to and from dotted notation. An \<open>ip_addr_t\<close> holds its four
  bytes in network order, so on the little-endian target the first number of the notation is the low
  byte of the word. A C string is the list of its characters before the null byte.
\<close>

subsection \<open>Byte order\<close>

definition lwip_htons :: "u16 \<Rightarrow> u16" where
  "lwip_htons n = push_bit 8 (n AND 0xff) OR drop_bit 8 (n AND 0xff00)"

definition lwip_htonl :: "u32 \<Rightarrow> u32" where
  "lwip_htonl n = push_bit 24 (n AND 0xff) OR push_bit 8 (n AND 0xff00)
     OR drop_bit 8 (n AND 0xff0000) OR drop_bit 24 (n AND 0xff000000)"

subsection \<open>Interfaces and kinds of addresses\<close>

text \<open>The fields of \<open>struct netif\<close> that addresses are tested against, and those that ARP uses.\<close>

record nif =
  nif_ip :: u32
  nif_netmask :: u32
  nif_gw :: u32
  nif_flags :: u8
  nif_hwaddr :: bytes
  nif_hwaddr_len :: u8

definition NETIF_FLAG_BROADCAST :: u8 where "NETIF_FLAG_BROADCAST = 0x02"
definition NETIF_FLAG_ETHARP :: u8 where "NETIF_FLAG_ETHARP = 0x20"
definition IPADDR_ANY :: u32 where "IPADDR_ANY = 0"
definition IPADDR_NONE :: u32 where "IPADDR_NONE = 0xffffffff"
definition IPADDR_BROADCAST :: u32 where "IPADDR_BROADCAST = 0xffffffff"

definition ip_addr_netcmp :: "u32 \<Rightarrow> u32 \<Rightarrow> u32 \<Rightarrow> bool" where
  "ip_addr_netcmp addr1 addr2 mask' \<longleftrightarrow> addr1 AND mask' = addr2 AND mask'"

definition ip_addr_isany :: "u32 \<Rightarrow> bool" where
  "ip_addr_isany addr \<longleftrightarrow> addr = IPADDR_ANY"

definition ip_addr_ismulticast :: "u32 \<Rightarrow> bool" where
  "ip_addr_ismulticast addr \<longleftrightarrow> addr AND lwip_htonl 0xf0000000 = lwip_htonl 0xe0000000"

definition ip_addr_islinklocal :: "u32 \<Rightarrow> bool" where
  "ip_addr_islinklocal addr \<longleftrightarrow> addr AND lwip_htonl 0xffff0000 = lwip_htonl 0xa9fe0000"

definition ip_addr_isbroadcast :: "u32 \<Rightarrow> nif \<Rightarrow> bool" where
  "ip_addr_isbroadcast addr netif =
     (if NOT addr = IPADDR_ANY \<or> addr = IPADDR_ANY then True
      else if nif_flags netif AND NETIF_FLAG_BROADCAST = 0 then False
      else if addr = nif_ip netif then False
      else if ip_addr_netcmp addr (nif_ip netif) (nif_netmask netif)
          \<and> addr AND NOT (nif_netmask netif) = IPADDR_BROADCAST AND NOT (nif_netmask netif) then True
      else False)"

definition ip4_addr1 :: "u32 \<Rightarrow> u8" where "ip4_addr1 a = le32_bytes a ! 0"
definition ip4_addr2 :: "u32 \<Rightarrow> u8" where "ip4_addr2 a = le32_bytes a ! 1"
definition ip4_addr3 :: "u32 \<Rightarrow> u8" where "ip4_addr3 a = le32_bytes a ! 2"
definition ip4_addr4 :: "u32 \<Rightarrow> u8" where "ip4_addr4 a = le32_bytes a ! 3"

subsection \<open>Reading dotted notation\<close>

definition is_lower :: "char \<Rightarrow> bool" where
  "is_lower c \<longleftrightarrow> 97 \<le> (of_char c :: nat) \<and> (of_char c :: nat) \<le> 122"

definition is_xdigit :: "char \<Rightarrow> bool" where
  "is_xdigit c \<longleftrightarrow> is_digit c \<or> (97 \<le> (of_char c :: nat) \<and> (of_char c :: nat) \<le> 102)
     \<or> (65 \<le> (of_char c :: nat) \<and> (of_char c :: nat) \<le> 70)"

text \<open>The inner loop: the value so far and what is left of the string.\<close>

fun aton_digits :: "u8 \<Rightarrow> u32 \<Rightarrow> string \<Rightarrow> u32 \<times> string" where
  "aton_digits base val [] = (val, [])"
| "aton_digits base val (c # cp) =
     (if is_digit c then aton_digits base (val * ucast base + (of_char c - 48)) cp
      else if base = 16 \<and> is_xdigit c then
        aton_digits base (push_bit 4 val OR (of_char c + 10 - (if is_lower c then 97 else 65))) cp
      else (val, c # cp))"

definition aton_base :: "string \<Rightarrow> u8 \<times> string" where
  "aton_base cp = (case cp of
       CHR ''0'' # cp \<Rightarrow> (case cp of
           c # cp' \<Rightarrow> if c = CHR ''x'' \<or> c = CHR ''X'' then (16, cp') else (8, cp)
         | [] \<Rightarrow> (8, cp))
     | _ \<Rightarrow> (10, cp))"

text \<open>The outer loop: the parts before the last dot, the last number and the rest of the string;
  \<open>None\<close> where the function returns 0.\<close>

function aton_parts :: "u32 list \<Rightarrow> string \<Rightarrow> (u32 list \<times> u32 \<times> string) option" where
  "aton_parts parts cp =
     (if cp = [] \<or> \<not> is_digit (hd cp) then None
      else
        (let (base, cp) = aton_base cp;
             (val, cp) = aton_digits base 0 cp
         in if cp \<noteq> [] \<and> hd cp = CHR ''.'' then
              (if length parts \<ge> 3 then None else aton_parts (parts @ [val]) (tl cp))
            else Some (parts, val, cp)))"
  by auto
termination by (relation "measure (\<lambda>(parts, _). 3 - length parts)") auto

declare aton_parts.simps [simp del]

text \<open>\<open>addr\<close> is what the pointer refers to, \<open>None\<close> for a null pointer.\<close>

definition ipaddr_aton :: "string \<Rightarrow> u32 option \<Rightarrow> int \<times> u32 option" where
  "ipaddr_aton cp addr = (case aton_parts [] cp of
       None \<Rightarrow> (0, addr)
     | Some (parts, val, cp) \<Rightarrow>
         if cp \<noteq> [] \<and> \<not> is_space (hd cp) then (0, addr)
         else
           (case (case parts of
                [] \<Rightarrow> Some val
              | [a] \<Rightarrow> if val > 0xffffff then None else Some (val OR push_bit 24 a)
              | [a, b] \<Rightarrow> if val > 0xffff then None else Some (val OR (push_bit 24 a OR push_bit 16 b))
              | a # b # c # _ \<Rightarrow> if val > 0xff then None
                  else Some (val OR (push_bit 24 a OR push_bit 16 b OR push_bit 8 c))) of
              None \<Rightarrow> (0, addr)
            | Some val \<Rightarrow> (1, map_option (\<lambda>_. lwip_htonl val) addr)))"

definition ipaddr_addr :: "string \<Rightarrow> u32" where
  "ipaddr_addr cp = (case ipaddr_aton cp (Some 0) of (r, val) \<Rightarrow> if r \<noteq> 0 then the val else IPADDR_NONE)"

subsection \<open>Writing dotted notation\<close>

text \<open>\<open>inv\<close>: the digits of one number, the last one first; it has room for three.\<close>

function ntoa_digits :: "u8 \<Rightarrow> string" where
  "ntoa_digits ap = digit (unat (ap mod 10)) # (if ap div 10 \<noteq> 0 then ntoa_digits (ap div 10) else [])"
  by auto
termination
proof (relation "measure unat", simp)
  fix ap :: u8 assume "ap div 10 \<noteq> 0"
  then have "unat ap div 10 \<noteq> 0" by (simp add: word_unat_eq_iff unat_div_distrib)
  then show "(ap div 10, ap) \<in> measure unat" by (simp add: unat_div_distrib)
qed

declare ntoa_digits.simps [simp del]

text \<open>Characters go to the end of what is in the buffer, as long as it has room.\<close>

fun ntoa_put :: "int \<Rightarrow> string \<Rightarrow> string \<Rightarrow> string option" where
  "ntoa_put buflen [] buf = Some buf"
| "ntoa_put buflen (c # cs) buf =
     (if int (length buf) \<ge> buflen then None else ntoa_put buflen cs (buf @ [c]))"

fun ntoa_loop :: "int \<Rightarrow> bytes \<Rightarrow> string \<Rightarrow> string option" where
  "ntoa_loop buflen [] buf = Some buf"
| "ntoa_loop buflen (ap # aps) buf = (case ntoa_put buflen (rev (ntoa_digits ap) @ ''.'') buf of
       None \<Rightarrow> None
     | Some buf \<Rightarrow> ntoa_loop buflen aps buf)"

text \<open>The result is the string in the buffer, \<open>None\<close> for a null pointer; the last dot is overwritten.\<close>

definition ipaddr_ntoa_r :: "u32 \<Rightarrow> int \<Rightarrow> string option" where
  "ipaddr_ntoa_r addr buflen = map_option butlast (ntoa_loop buflen (le32_bytes addr) [])"

definition ipaddr_ntoa :: "u32 \<Rightarrow> string option" where
  "ipaddr_ntoa addr = ipaddr_ntoa_r addr 16"

subsection \<open>Byte order and notation agree\<close>

lemma mask8_32: "(0xff :: u32) = mask 8" and mask8_24: "(0xff0000 :: u32) = push_bit 16 (mask 8)"
  and mask8_16: "(0xff00 :: u32) = push_bit 8 (mask 8)" and mask8_31: "(0xff000000 :: u32) = push_bit 24 (mask 8)"
  by (simp_all add: mask_eq_exp_minus_1 push_bit_eq_mult)

lemma mask16_low: "(0xff :: u16) = mask 8" and mask16_high: "(0xff00 :: u16) = push_bit 8 (mask 8)"
  by (simp_all add: mask_eq_exp_minus_1 push_bit_eq_mult)

lemma lwip_htons_swap: "lwip_htons n = swap16 n"
  unfolding lwip_htons_def swap16_def mask16_low mask16_high by (rule bit_word_eqI) (auto simp: bit_simps dest: bit_imp_le_length)

lemma lwip_htonl_bytes: "lwip_htonl n = le32 (ucast (drop_bit 24 n)) (ucast (drop_bit 16 n)) (ucast (drop_bit 8 n)) (ucast n)"
  unfolding lwip_htonl_def le32_def mask8_32 mask8_24 mask8_16 mask8_31
  by (rule bit_word_eqI, rename_tac k, case_tac "k < 8"; case_tac "k < 16"; case_tac "k < 24"; auto simp: bit_simps)

subsection \<open>Dotted notation is read back\<close>

definition dotted :: "u32 \<Rightarrow> string" where
  "dotted a = show_nat (unat (ip4_addr1 a)) @ ''.'' @ show_nat (unat (ip4_addr2 a)) @ ''.''
     @ show_nat (unat (ip4_addr3 a)) @ ''.'' @ show_nat (unat (ip4_addr4 a))"

lemma rev_ntoa_digits: "rev (ntoa_digits ap) = show_nat (unat ap)"
proof (induction ap rule: ntoa_digits.induct)
  case (1 ap)
  have d: "unat (ap div 10) = unat ap div 10" "unat (ap mod 10) = unat ap mod 10"
    by (simp_all add: unat_div_distrib unat_mod_distrib)
  show ?case
  proof (cases "ap div 10 = 0")
    case True
    then have "unat ap div 10 = 0" using d(1) by simp
    then have "unat ap < 10" by simp
    then show ?thesis using True by (subst ntoa_digits.simps, subst show_nat.simps) (simp add: d(2))
  next
    case False
    then have "\<not> unat ap < 10" using d(1) by (simp add: word_unat_eq_iff)
    then show ?thesis using False 1 by (subst ntoa_digits.simps, subst show_nat.simps) (simp add: d)
  qed
qed

lemma ntoa_put_eq:
  "ntoa_put buflen cs buf = (if cs = [] \<or> int (length buf + length cs) \<le> buflen then Some (buf @ cs) else None)"
  by (induction cs arbitrary: buf) auto

lemma ntoa_loop_eq: 
  "ntoa_loop buflen aps buf = (let cs = concat (map (\<lambda>ap. show_nat (unat ap) @ ''.'') aps)
     in if cs = [] \<or> int (length buf + length cs) \<le> buflen then Some (buf @ cs) else None)"
  by (induction aps arbitrary: buf) (auto simp: ntoa_put_eq rev_ntoa_digits Let_def)

lemma le32_bytes_addr: "le32_bytes a = [ip4_addr1 a, ip4_addr2 a, ip4_addr3 a, ip4_addr4 a]"
  by (simp add: le32_bytes_def ip4_addr1_def ip4_addr2_def ip4_addr3_def ip4_addr4_def)

lemma ipaddr_ntoa_r_eq: "ipaddr_ntoa_r a n = (if int (length (dotted a)) < n then Some (dotted a) else None)"
  by (simp add: ipaddr_ntoa_r_def ntoa_loop_eq le32_bytes_addr dotted_def butlast_append Let_def)

lemma length_show_nat: "n < 1000 \<Longrightarrow> length (show_nat n) \<le> 3"
proof -
  assume "n < 1000"
  then have "n div 10 div 10 < 10" by simp
  then show ?thesis
    by (subst show_nat.simps, subst show_nat.simps, subst show_nat.simps) simp
qed

lemma length_dotted: "length (dotted a) \<le> 15"
proof -
  have "length (show_nat (unat (b :: u8))) \<le> 3" for b using unsigned_less [of b, where 'a = nat] by (intro length_show_nat) simp
  from this [of "ip4_addr1 a"] this [of "ip4_addr2 a"] this [of "ip4_addr3 a"] this [of "ip4_addr4 a"] show ?thesis by (simp add: dotted_def)
qed

lemma ipaddr_ntoa_eq: "ipaddr_ntoa a = Some (dotted a)"
  using length_dotted [of a] by (simp add: ipaddr_ntoa_def ipaddr_ntoa_r_eq)

definition stops :: "string \<Rightarrow> bool" where
  "stops r \<longleftrightarrow> r = [] \<or> hd r = CHR ''.'' \<or> is_space (hd r)"

lemma stops_digit: "stops r \<Longrightarrow> r \<noteq> [] \<Longrightarrow> \<not> is_digit (hd r) \<and> hd r \<noteq> CHR ''x'' \<and> hd r \<noteq> CHR ''X''"
  by (auto simp: stops_def is_space_def is_digit_def)

lemma aton_digits_stop: "stops r \<Longrightarrow> base \<noteq> 16 \<Longrightarrow> aton_digits base v r = (v, r)"
  using stops_digit [of r] by (cases r) auto

lemma of_char_digit_word: "d < 10 \<Longrightarrow> (of_char (digit d) :: u32) = 48 + of_nat d"
  using of_char_digit [of d] by (metis of_nat_of_char of_nat_add of_nat_numeral)

lemma digit_is_digit: "d < 10 \<Longrightarrow> is_digit (digit d)"
  by (simp add: is_digit_def of_char_digit)

lemma aton_digits_show:
  "aton_digits 10 v (show_nat n @ r) = aton_digits 10 (v * 10 ^ length (show_nat n) + of_nat n) r"
proof (induction n arbitrary: r v rule: show_nat.induct)
  case (1 n)
  show ?case
  proof (cases "n < 10")
    case True
    then show ?thesis by (subst (1 2) show_nat.simps) (simp add: digit_is_digit of_char_digit_word)
  next
    case False
    have s: "show_nat n = show_nat (n div 10) @ [digit (n mod 10)]" using False by (subst show_nat.simps) simp
    have "(of_nat n :: u32) = of_nat (n div 10) * 10 + of_nat (n mod 10)"
      by (metis div_mult_mod_eq of_nat_add of_nat_mult of_nat_numeral)
    then have e: "(v * 10 ^ l + of_nat (n div 10)) * 10 + of_nat (n mod 10) = v * 10 ^ (l + 1) + of_nat n" for l
      by (simp only: distrib_right power_add power_one_right mult.assoc add.assoc)
    have "aton_digits 10 v (show_nat n @ r)
        = aton_digits 10 (v * 10 ^ length (show_nat (n div 10)) + of_nat (n div 10)) (digit (n mod 10) # r)"
      unfolding s using 1 [OF False] by simp
    also have "\<dots> = aton_digits 10 ((v * 10 ^ length (show_nat (n div 10)) + of_nat (n div 10)) * 10 + of_nat (n mod 10)) r"
      by (simp add: digit_is_digit of_char_digit_word del: distrib_right_numeral)
    also note e
    finally show ?thesis unfolding s by simp
  qed
qed

lemma show_nat_first: "0 < n \<Longrightarrow> \<exists>d cs. show_nat n = digit d # cs \<and> 0 < d \<and> d < 10"
proof (induction n rule: show_nat.induct)
  case (1 n)
  then show ?case
  proof (cases "n < 10")
    case False
    then have "0 < n div 10" by simp
    then show ?thesis using 1(1) [OF False] False by (subst show_nat.simps) auto
  qed (use 1(2) in \<open>subst show_nat.simps, auto\<close>)
qed

lemma digit_eq_iff: "d < 10 \<Longrightarrow> e < 10 \<Longrightarrow> digit d = digit e \<longleftrightarrow> d = e"
  using of_char_digit by (metis add_left_cancel)

lemma digit_0: "digit 0 = CHR ''0''"
  by (simp add: digit_def char_of_eq_iff)

lemma aton_base_nonzero: "c \<noteq> CHR ''0'' \<Longrightarrow> aton_base (c # cs) = (10, c # cs)"
  by (simp add: aton_base_def split: char.split bool.split)

lemma aton_number:
  assumes "stops r"
  shows "\<exists>base cp. aton_base (show_nat n @ r) = (base, cp) \<and> aton_digits base 0 cp = (of_nat n, r)"
proof (cases "n = 0")
  case True
  have "show_nat 0 = [digit 0]" by (subst show_nat.simps) simp
  moreover note digit_0
  moreover have "aton_base (CHR ''0'' # r) = (8, r)" using assms stops_digit [of r] by (cases r) (auto simp: aton_base_def)
  ultimately show ?thesis using assms True by (simp add: aton_digits_stop)
next
  case False
  then obtain d cs where d: "show_nat n = digit d # cs" "0 < d" "d < 10" using show_nat_first by blast
  then have "digit d \<noteq> CHR ''0''" using digit_eq_iff [of d 0] digit_0 d by simp
  then have "aton_base (show_nat n @ r) = (10, show_nat n @ r)" using d(1) aton_base_nonzero by simp
  then show ?thesis using assms by (simp add: aton_digits_show aton_digits_stop)
qed

lemma aton_parts_number:
  assumes "stops r"
  shows "aton_parts parts (show_nat n @ r) =
    (if r \<noteq> [] \<and> hd r = CHR ''.'' then if length parts \<ge> 3 then None else aton_parts (parts @ [of_nat n]) (tl r)
     else Some (parts, of_nat n, r))"
proof -
  obtain base cp where b: "aton_base (show_nat n @ r) = (base, cp)" "aton_digits base 0 cp = (of_nat n, r)"
    using aton_number [OF assms] by blast
  moreover have "show_nat n \<noteq> []" "is_digit (hd (show_nat n))"
    using show_nat_nonempty [of n] show_nat_digits [of n] by (auto simp: show_nat_nonempty)
  ultimately show ?thesis by (subst aton_parts.simps) (simp add: b)
qed

lemma aton_parts_dotted:
  assumes "r = [] \<or> is_space (hd r)"
  shows "aton_parts [] (dotted a @ r) = Some ([ucast (ip4_addr1 a), ucast (ip4_addr2 a), ucast (ip4_addr3 a)], ucast (ip4_addr4 a), r)"
proof -
  have "r = [] \<or> hd r \<noteq> CHR ''.''" using assms by (auto simp: is_space_def)
  moreover have "stops r" "\<And>s. stops (CHR ''.'' # s)" using assms by (auto simp: stops_def)
  ultimately show ?thesis by (simp add: dotted_def aton_parts_number)
qed

lemma ipaddr_aton_dotted:
  assumes "r = [] \<or> is_space (hd r)"
  shows "ipaddr_aton (dotted a @ r) (Some v) = (1, Some a)"
proof -
  let ?v = "ucast (ip4_addr4 a) OR (push_bit 24 (ucast (ip4_addr1 a)) OR push_bit 16 (ucast (ip4_addr2 a)) OR push_bit 8 (ucast (ip4_addr3 a))) :: u32"
  have "lwip_htonl ?v = le32 (ip4_addr1 a) (ip4_addr2 a) (ip4_addr3 a) (ip4_addr4 a)"
    unfolding lwip_htonl_bytes by (rule arg_cong4 [where f = le32]; rule bit_word_eqI; auto simp: bit_simps dest: bit_imp_le_length)
  also have "\<dots> = a" by (simp add: ip4_addr1_def ip4_addr2_def ip4_addr3_def ip4_addr4_def le32_bytes_def)
  finally have "lwip_htonl ?v = a" .
  moreover have "\<not> (ucast (ip4_addr4 a) :: u32) > 0xff"
    using unsigned_less [of "ip4_addr4 a", where 'a = nat] by (simp add: word_less_nat_alt unat_ucast_mod)
  ultimately show ?thesis using assms by (auto simp: ipaddr_aton_def aton_parts_dotted)
qed

text \<open>Numbers before the last dot are not checked: they run into each other. Octal numbers may have
  the digits 8 and 9.\<close>

lemma aton_unchecked_parts:
  "ipaddr_aton ''1.300.1.1'' (Some 0) = ipaddr_aton ''1.44.1.1'' (Some 0)"
  "ipaddr_aton ''09.0.0.1'' (Some 0) = ipaddr_aton ''9.0.0.1'' (Some 0)"
  by code_simp+

text \<open>C40: dotted notation. What \<open>ipaddr_ntoa\<close> writes for an address is the four decimal numbers with dots
  between them, at most 15 characters, so that its buffer of 16 always suffices; \<open>ipaddr_ntoa_r\<close> succeeds
  exactly for a buffer that holds these characters and the null byte; and \<open>ipaddr_aton\<close>, as well as
  \<open>ipaddr_addr\<close>, read the same address from it, also when it is followed by white space.\<close>

theorem addresses_are_read_back:
  "ipaddr_ntoa a = Some (dotted a) \<and> length (dotted a) \<le> 15
    \<and> ipaddr_ntoa_r a n = (if int (length (dotted a)) < n then Some (dotted a) else None)
    \<and> ipaddr_aton (dotted a) (Some v) = (1, Some a)
    \<and> ipaddr_aton (dotted a @ '' '' @ rest) (Some v) = (1, Some a)
    \<and> ipaddr_addr (dotted a) = a"
  using ipaddr_aton_dotted [of "[]" a v] ipaddr_aton_dotted [of "'' '' @ rest" a v] ipaddr_aton_dotted [of "[]" a 0]
  by (simp add: ipaddr_ntoa_eq ipaddr_ntoa_r_eq length_dotted ipaddr_addr_def is_space_def)

end
