(* ===== verification/Etharp.thy ===== *)
theory Etharp imports Ip_Addr Pbuf begin

section \<open>Address resolution of lwIP (\<open>netif/etharp.c\<close>): the code\<close>

text \<open>
  The ARP table with the packets that wait for an address, as configured for this build: a table of 16
  entries, \<open>ARP_QUEUEING\<close>, \<open>ETHARP_TRUST_IP_MAC\<close>, one global cached entry, no static entries, no VLAN,
  no AUTOIP and no PPPoE. A queue is the list of the pbufs in it; whether the memory for a further queue element
  can be had is a parameter, as are the link driver's \<open>linkoutput\<close>, which is given the payloads of a chain
  and acts on \<open>wire\<close> (theory \<open>Ankh_If\<close> has the one of a client), and the functions that are called
  with received packets. The statistics are left out, and so are the index trees of the SNMP agent, which are filled from
  the table (\<open>snmp_insert_arpidx_tree\<close>, \<open>snmp_delete_arpidx_tree\<close>) and do not act on it; the \<open>netif\<close> field of an
  entry serves these trees only. \<open>None\<close> is a failed assertion or an access outside of the memory of a packet.
\<close>

subsection \<open>State\<close>

datatype etharp_state = ETHARP_STATE_EMPTY | ETHARP_STATE_PENDING | ETHARP_STATE_STABLE

record etharp_entry =
  waiting :: "nat list"           \<comment> \<open>\<open>q\<close>\<close>
  ipaddr :: u32
  ethaddr :: bytes
  astate :: etharp_state          \<comment> \<open>\<open>state\<close>\<close>
  ctime :: u8

record 'w arp_sys =
  arp_table :: "etharp_entry list"
  etharp_cached_entry :: u8
  arp_heap :: heap
  wire :: 'w

record 'w arp_env =
  memory :: pbuf_env
  queue_ok :: bool                \<comment> \<open>whether \<open>memp_malloc\<close> has a queue element\<close>
  linkoutput :: "bytes list \<Rightarrow> 'w \<Rightarrow> err_t \<times> 'w"
  dhcp_arp_reply :: "u32 \<Rightarrow> 'w arp_sys \<Rightarrow> 'w arp_sys"
  ip_input :: "nat \<Rightarrow> 'w arp_sys \<Rightarrow> 'w arp_sys option"

definition ARP_TABLE_SIZE :: nat where "ARP_TABLE_SIZE = 16"
definition ARP_MAXAGE :: u8 where "ARP_MAXAGE = 240"
definition ARP_MAXPENDING :: u8 where "ARP_MAXPENDING = 2"
definition ETHARP_HWADDR_LEN :: nat where "ETHARP_HWADDR_LEN = 6"
definition SIZEOF_ETH_HDR :: nat where "SIZEOF_ETH_HDR = 14"
definition SIZEOF_ETHARP_PACKET :: nat where "SIZEOF_ETHARP_PACKET = SIZEOF_ETH_HDR + 28"
definition ETHARP_FLAG_TRY_HARD :: u8 where "ETHARP_FLAG_TRY_HARD = 1"
definition ETHARP_FLAG_FIND_ONLY :: u8 where "ETHARP_FLAG_FIND_ONLY = 2"
definition HWTYPE_ETHERNET :: u16 where "HWTYPE_ETHERNET = 1"
definition ETHTYPE_IP :: u16 where "ETHTYPE_IP = 0x0800"
definition ETHTYPE_ARP :: u16 where "ETHTYPE_ARP = 0x0806"
definition ARP_REQUEST :: u16 where "ARP_REQUEST = 1"
definition ARP_REPLY :: u16 where "ARP_REPLY = 2"

definition ethbroadcast :: bytes where "ethbroadcast = replicate 6 0xff"
definition ethzero :: bytes where "ethzero = replicate 6 0"

text \<open>The table is static memory and zero at the start.\<close>

definition arp_table0 :: "etharp_entry list" where
  "arp_table0 = replicate ARP_TABLE_SIZE
     \<lparr>waiting = [], ipaddr = 0, ethaddr = ethzero, astate = ETHARP_STATE_EMPTY, ctime = 0\<rparr>"

definition entry :: "'w arp_sys \<Rightarrow> nat \<Rightarrow> etharp_entry option" where
  "entry s i = (if i < length (arp_table s) then Some (arp_table s ! i) else None)"

definition set_entry :: "nat \<Rightarrow> (etharp_entry \<Rightarrow> etharp_entry) \<Rightarrow> 'w arp_sys \<Rightarrow> 'w arp_sys" where
  "set_entry i f s = s\<lparr>arp_table := (arp_table s)[i := f (arp_table s ! i)]\<rparr>"

subsection \<open>Entries\<close>

fun free_loop :: "nat list \<Rightarrow> heap \<Rightarrow> heap option" where
  "free_loop [] h = Some h"
| "free_loop (p # q) h = do { (_, h) \<leftarrow> pbuf_free (Some p) h; free_loop q h }"

definition free_etharp_q :: "nat list \<Rightarrow> heap \<Rightarrow> heap option" where
  "free_etharp_q q h = (if q = [] then None else free_loop q h)"

definition free_entry :: "nat \<Rightarrow> 'w arp_sys \<Rightarrow> 'w arp_sys option" where
  "free_entry i s = do {
     e \<leftarrow> entry s i;
     s \<leftarrow> (if waiting e \<noteq> [] then do {
            h \<leftarrow> free_etharp_q (waiting e) (arp_heap s);
            Some (set_entry i (\<lambda>e. e\<lparr>waiting := []\<rparr>) (s\<lparr>arp_heap := h\<rparr>))
          } else Some s);
     let s = set_entry i (\<lambda>e. e\<lparr>astate := ETHARP_STATE_EMPTY\<rparr>) s;
     Some (set_entry i (\<lambda>e. e\<lparr>ctime := 0, ipaddr := 0, ethaddr := ethzero\<rparr>) s)
   }"

definition tmr_entry :: "nat \<Rightarrow> 'w arp_sys \<Rightarrow> 'w arp_sys option" where
  "tmr_entry i s = do {
     e \<leftarrow> entry s i;
     (if astate e \<noteq> ETHARP_STATE_EMPTY then
        (let s = set_entry i (\<lambda>e. e\<lparr>ctime := ctime e + 1\<rparr>) s;
             t = ctime e + 1
         in if t \<ge> ARP_MAXAGE \<or> (astate e = ETHARP_STATE_PENDING \<and> t \<ge> ARP_MAXPENDING)
            then free_entry i s else Some s)
      else Some s)
   }"

fun tmr_loop :: "nat list \<Rightarrow> 'w arp_sys \<Rightarrow> 'w arp_sys option" where
  "tmr_loop [] s = Some s"
| "tmr_loop (i # is) s = do { s \<leftarrow> tmr_entry i s; tmr_loop is s }"

definition etharp_tmr :: "'w arp_sys \<Rightarrow> 'w arp_sys option" where
  "etharp_tmr s = tmr_loop [0..<ARP_TABLE_SIZE] s"

subsection \<open>Search\<close>

text \<open>The candidates that the sweep has remembered; \<open>ARP_TABLE_SIZE\<close> stands for none.\<close>

record sweep =
  sw_empty :: nat
  old_pending :: nat
  age_pending :: u8
  old_stable :: nat
  age_stable :: u8
  old_queue :: nat
  age_queue :: u8

text \<open>From entry \<open>i\<close> on: the index of a match, or the candidates.\<close>

fun sweep_loop :: "u32 option \<Rightarrow> nat \<Rightarrow> etharp_entry list \<Rightarrow> sweep \<Rightarrow> nat + sweep" where
  "sweep_loop ip i [] w = Inr w"
| "sweep_loop ip i (e # es) w =
     (if sw_empty w = ARP_TABLE_SIZE \<and> astate e = ETHARP_STATE_EMPTY then sweep_loop ip (i + 1) es (w\<lparr>sw_empty := i\<rparr>)
      else if astate e \<noteq> ETHARP_STATE_EMPTY then
        (if ip = Some (ipaddr e) then Inl i
         else sweep_loop ip (i + 1) es
           (if astate e = ETHARP_STATE_PENDING then
              (if waiting e \<noteq> [] then
                 (if ctime e \<ge> age_queue w then w\<lparr>old_queue := i, age_queue := ctime e\<rparr> else w)
               else (if ctime e \<ge> age_pending w then w\<lparr>old_pending := i, age_pending := ctime e\<rparr> else w))
            else (if ctime e \<ge> age_stable w then w\<lparr>old_stable := i, age_stable := ctime e\<rparr> else w)))
      else sweep_loop ip (i + 1) es w)"

definition sweep0 :: sweep where
  "sweep0 = \<lparr>sw_empty = ARP_TABLE_SIZE, old_pending = ARP_TABLE_SIZE, age_pending = 0,
     old_stable = ARP_TABLE_SIZE, age_stable = 0, old_queue = ARP_TABLE_SIZE, age_queue = 0\<rparr>"

text \<open>The least destructive entry: its index, and the state when it has been freed.\<close>

definition recycle :: "sweep \<Rightarrow> 'w arp_sys \<Rightarrow> (err_t + (nat \<times> 'w arp_sys)) option" where
  "recycle w s =
     (if sw_empty w < ARP_TABLE_SIZE then Some (Inr (sw_empty w, s))
      else if old_stable w < ARP_TABLE_SIZE then do {
        e \<leftarrow> entry s (old_stable w);
        (if waiting e \<noteq> [] then None
         else do { s \<leftarrow> free_entry (old_stable w) s; Some (Inr (old_stable w, s)) })
      }
      else if old_pending w < ARP_TABLE_SIZE then
        do { s \<leftarrow> free_entry (old_pending w) s; Some (Inr (old_pending w, s)) }
      else if old_queue w < ARP_TABLE_SIZE then
        do { s \<leftarrow> free_entry (old_queue w) s; Some (Inr (old_queue w, s)) }
      else Some (Inl ERR_MEM))"

text \<open>The result is an index, or an error code as a negative number.\<close>

definition find_entry :: "u32 option \<Rightarrow> u8 \<Rightarrow> 'w arp_sys \<Rightarrow> ((err_t + nat) \<times> 'w arp_sys) option" where
  "find_entry ip flags' s = (case sweep_loop ip 0 (arp_table s) sweep0 of
       Inl i \<Rightarrow> Some (Inr i, s)
     | Inr w \<Rightarrow>
         if flags' AND ETHARP_FLAG_FIND_ONLY \<noteq> 0
            \<or> (sw_empty w = ARP_TABLE_SIZE \<and> flags' AND ETHARP_FLAG_TRY_HARD = 0) then Some (Inl ERR_MEM, s)
         else do {
           r \<leftarrow> recycle w s;
           (case r of
              Inl err \<Rightarrow> Some (Inl err, s)
            | Inr (i, s) \<Rightarrow> do {
                e \<leftarrow> entry s i;
                (if astate e \<noteq> ETHARP_STATE_EMPTY then None
                 else
                   (let s = (case ip of None \<Rightarrow> s | Some a \<Rightarrow> set_entry i (\<lambda>e. e\<lparr>ipaddr := a\<rparr>) s)
                    in Some (Inr i, set_entry i (\<lambda>e. e\<lparr>ctime := 0\<rparr>) s)))
              })
         })"

definition etharp_find_addr :: "u32 \<Rightarrow> 'w arp_sys \<Rightarrow> (int \<times> (bytes \<times> u32) option \<times> 'w arp_sys) option" where
  "etharp_find_addr ip s = do {
     (r, s) \<leftarrow> find_entry (Some ip) ETHARP_FLAG_FIND_ONLY s;
     (case r of
        Inl _ \<Rightarrow> Some (- 1, None, s)
      | Inr i \<Rightarrow> do {
          e \<leftarrow> entry s i;
          (if astate e = ETHARP_STATE_STABLE then Some (int i, Some (ethaddr e, ipaddr e), s) else Some (- 1, None, s))
        })
   }"

subsection \<open>Sending\<close>

text \<open>The payloads of a chain, as the link driver reads them.\<close>

partial_function (option) chain_payloads :: "heap \<Rightarrow> nat option \<Rightarrow> bytes list option" where
  "chain_payloads h p = (case p of
       None \<Rightarrow> Some []
     | Some a \<Rightarrow> do {
         b \<leftarrow> pbufs h a;
         m \<leftarrow> peek h b 0 (unat (len b));
         ms \<leftarrow> chain_payloads h (nxt b);
         Some (m # ms)
       })"

definition link_output :: "'w arp_env \<Rightarrow> nat \<Rightarrow> 'w arp_sys \<Rightarrow> (err_t \<times> 'w arp_sys) option" where
  "link_output E p s = do {
     ms \<leftarrow> chain_payloads (arp_heap s) (Some p);
     (let (err, w) = linkoutput E ms (wire s) in Some (err, s\<lparr>wire := w\<rparr>))
   }"

definition eth_header :: "bytes \<Rightarrow> bytes \<Rightarrow> u16 \<Rightarrow> bytes" where
  "eth_header dest src type' = take ETHARP_HWADDR_LEN dest @ take ETHARP_HWADDR_LEN src @ [hi8 type', lo8 type']"

text \<open>The header is written where the payload of the first pbuf begins; a null pointer \<open>p\<close> is dereferenced.\<close>

definition etharp_send_ip :: "'w arp_env \<Rightarrow> nif \<Rightarrow> nat option \<Rightarrow> bytes \<Rightarrow> bytes \<Rightarrow> 'w arp_sys \<Rightarrow> (err_t \<times> 'w arp_sys) option" where
  "etharp_send_ip E netif p src dst s = do {
     p \<leftarrow> p;
     b \<leftarrow> pbufs (arp_heap s) p;
     (if unat (nif_hwaddr_len netif) \<noteq> ETHARP_HWADDR_LEN then None
      else do {
        h \<leftarrow> poke (arp_heap s) b 0 (take ETHARP_HWADDR_LEN dst);
        h \<leftarrow> poke h b 6 (take ETHARP_HWADDR_LEN src);
        h \<leftarrow> poke h b 12 [hi8 ETHTYPE_IP, lo8 ETHTYPE_IP];
        link_output E p (s\<lparr>arp_heap := h\<rparr>)
      })
   }"

subsection \<open>Updates\<close>

text \<open>The loop that sends out the queue of entry \<open>i\<close>; the result of sending is not looked at.\<close>

fun send_queue :: "'w arp_env \<Rightarrow> nif \<Rightarrow> nat \<Rightarrow> bytes \<Rightarrow> nat list \<Rightarrow> 'w arp_sys \<Rightarrow> 'w arp_sys option" where
  "send_queue E netif i mac [] s = Some s"
| "send_queue E netif i mac (p # q) s = do {
     let s = set_entry i (\<lambda>e. e\<lparr>waiting := q\<rparr>) s;
     (_, s) \<leftarrow> etharp_send_ip E netif (Some p) (nif_hwaddr netif) mac s;
     (_, h) \<leftarrow> pbuf_free (Some p) (arp_heap s);
     send_queue E netif i mac q (s\<lparr>arp_heap := h\<rparr>)
   }"

text \<open>What is done with the entry that was found or created.\<close>

definition make_stable :: "'w arp_env \<Rightarrow> nif \<Rightarrow> nat \<Rightarrow> bytes \<Rightarrow> 'w arp_sys \<Rightarrow> 'w arp_sys option" where
  "make_stable E netif i mac s = do {
     let s = set_entry i (\<lambda>e. e\<lparr>astate := ETHARP_STATE_STABLE\<rparr>) s;
     let s = set_entry i (\<lambda>e. e\<lparr>ethaddr := take ETHARP_HWADDR_LEN mac\<rparr>) s;
     let s = set_entry i (\<lambda>e. e\<lparr>ctime := 0\<rparr>) s;
     e \<leftarrow> entry s i;
     send_queue E netif i mac (waiting e) s
   }"

definition update_arp_entry :: "'w arp_env \<Rightarrow> nif \<Rightarrow> u32 \<Rightarrow> bytes \<Rightarrow> u8 \<Rightarrow> 'w arp_sys \<Rightarrow> (err_t \<times> 'w arp_sys) option" where
  "update_arp_entry E netif ip mac flags' s =
     (if unat (nif_hwaddr_len netif) \<noteq> ETHARP_HWADDR_LEN then None
      else if ip_addr_isany ip \<or> ip_addr_isbroadcast ip netif \<or> ip_addr_ismulticast ip then Some (ERR_ARG, s)
      else do {
        (r, s) \<leftarrow> find_entry (Some ip) flags' s;
        (case r of
           Inl err \<Rightarrow> Some (err, s)
         | Inr i \<Rightarrow> do {
             s \<leftarrow> make_stable E netif i mac s;
             Some (ERR_OK, s)
           })
      })"

text \<open>The source addresses of a received IP packet.\<close>

definition ip_of :: "bytes \<Rightarrow> u32" where
  "ip_of bs = le32 (bs ! 0) (bs ! 1) (bs ! 2) (bs ! 3)"

definition etharp_ip_input :: "'w arp_env \<Rightarrow> nif \<Rightarrow> nat \<Rightarrow> 'w arp_sys \<Rightarrow> 'w arp_sys option" where
  "etharp_ip_input E netif p s = do {
     b \<leftarrow> pbufs (arp_heap s) p;
     src \<leftarrow> peek (arp_heap s) b (SIZEOF_ETH_HDR + 12) 4;
     (if \<not> ip_addr_netcmp (ip_of src) (nif_ip netif) (nif_netmask netif) then Some s
      else do {
        mac \<leftarrow> peek (arp_heap s) b 6 6;
        (_, s) \<leftarrow> update_arp_entry E netif (ip_of src) mac ETHARP_FLAG_FIND_ONLY s;
        Some s
      })
   }"

subsection \<open>Requests and packets that are sent\<close>

definition arp_hdr :: "u16 \<Rightarrow> bytes \<Rightarrow> u32 \<Rightarrow> bytes \<Rightarrow> u32 \<Rightarrow> bytes" where
  "arp_hdr opcode shwaddr sipaddr dhwaddr dipaddr =
     [hi8 HWTYPE_ETHERNET, lo8 HWTYPE_ETHERNET, hi8 ETHTYPE_IP, lo8 ETHTYPE_IP, word_of_nat ETHARP_HWADDR_LEN, 4,
      hi8 opcode, lo8 opcode] @ take 6 shwaddr @ le32_bytes sipaddr @ take 6 dhwaddr @ le32_bytes dipaddr"

definition etharp_raw :: "'w arp_env \<Rightarrow> nif \<Rightarrow> bytes \<Rightarrow> bytes \<Rightarrow> bytes \<Rightarrow> u32 \<Rightarrow> bytes \<Rightarrow> u32 \<Rightarrow> u16 \<Rightarrow> 'w arp_sys
    \<Rightarrow> (err_t \<times> 'w arp_sys) option" where
  "etharp_raw E netif ethsrc_addr ethdst_addr hwsrc_addr ipsrc_addr hwdst_addr ipdst_addr opcode s = do {
     (p, h) \<leftarrow> pbuf_alloc (memory E) PBUF_RAW (word_of_nat SIZEOF_ETHARP_PACKET) PBUF_RAM (arp_heap s);
     (case p of
        None \<Rightarrow> Some (ERR_MEM, s\<lparr>arp_heap := h\<rparr>)
      | Some p \<Rightarrow> do {
          b \<leftarrow> pbufs h p;
          (if unat (len b) < SIZEOF_ETHARP_PACKET \<or> unat (nif_hwaddr_len netif) \<noteq> ETHARP_HWADDR_LEN then None
           else do {
             h \<leftarrow> poke h b SIZEOF_ETH_HDR (arp_hdr opcode hwsrc_addr ipsrc_addr hwdst_addr ipdst_addr);
             h \<leftarrow> poke h b 0 (eth_header ethdst_addr ethsrc_addr ETHTYPE_ARP);
             (result, s) \<leftarrow> link_output E p (s\<lparr>arp_heap := h\<rparr>);
             (_, h) \<leftarrow> pbuf_free (Some p) (arp_heap s);
             Some (result, s\<lparr>arp_heap := h\<rparr>)
           })
        })
   }"

definition etharp_request :: "'w arp_env \<Rightarrow> nif \<Rightarrow> u32 \<Rightarrow> 'w arp_sys \<Rightarrow> (err_t \<times> 'w arp_sys) option" where
  "etharp_request E netif ip s = etharp_raw E netif (nif_hwaddr netif) ethbroadcast
     (nif_hwaddr netif) (nif_ip netif) ethzero ip ARP_REQUEST s"

text \<open>The loop that looks for a pbuf whose bytes may change: \<open>None\<close> at the end of the chain.\<close>

partial_function (option) copy_needed :: "heap \<Rightarrow> nat option \<Rightarrow> nat option option" where
  "copy_needed h p = (case p of
       None \<Rightarrow> Some None
     | Some a \<Rightarrow> do {
         b \<leftarrow> pbufs h a;
         (if \<not> (len b \<noteq> tot_len b \<or> nxt b = None) then None
          else if ptype b \<noteq> PBUF_ROM then Some (Some a)
          else copy_needed h (nxt b))
       })"

text \<open>The packet that is put into the queue: a copy, or a further reference to \<open>q\<close>.\<close>

definition copy_packet :: "'w arp_env \<Rightarrow> u16 \<Rightarrow> nat \<Rightarrow> heap \<Rightarrow> (nat option \<times> heap) option" where
  "copy_packet E n q h = do {
     (p, h) \<leftarrow> pbuf_alloc (memory E) PBUF_RAW n PBUF_RAM h;
     (case p of
        None \<Rightarrow> Some (None, h)
      | Some p \<Rightarrow> do {
          (err, h) \<leftarrow> pbuf_copy (Some p) (Some q) h;
          (if err \<noteq> ERR_OK then do { (_, h) \<leftarrow> pbuf_free (Some p) h; Some (None, h) } else Some (Some p, h))
        })
   }"

definition take_over :: "'w arp_env \<Rightarrow> nat \<Rightarrow> heap \<Rightarrow> (nat option \<times> heap) option" where
  "take_over E q h = do {
     c \<leftarrow> copy_needed h (Some q);
     (case c of
        Some p \<Rightarrow> do { b \<leftarrow> pbufs h p; copy_packet E (tot_len b) q h }
      | None \<Rightarrow> do { h \<leftarrow> pbuf_ref (Some q) h; Some (Some q, h) })
   }"

text \<open>\<open>result\<close> is what the variable of that name holds: the outcome of the request that has been sent.\<close>

definition queue_packet :: "'w arp_env \<Rightarrow> nat \<Rightarrow> nat \<Rightarrow> err_t \<Rightarrow> 'w arp_sys \<Rightarrow> (err_t \<times> 'w arp_sys) option" where
  "queue_packet E i q result s = do {
     (p, h) \<leftarrow> take_over E q (arp_heap s);
     let s = s\<lparr>arp_heap := h\<rparr>;
     (case p of
        None \<Rightarrow> Some (result, s)
      | Some p \<Rightarrow>
          if queue_ok E then Some (ERR_OK, set_entry i (\<lambda>e. e\<lparr>waiting := waiting e @ [p]\<rparr>) s)
          else do { (_, h) \<leftarrow> pbuf_free (Some p) h; Some (result, s\<lparr>arp_heap := h\<rparr>) })
   }"

text \<open>With the entry \<open>i\<close> that the query is about.\<close>

definition query_at :: "'w arp_env \<Rightarrow> nif \<Rightarrow> u32 \<Rightarrow> nat option \<Rightarrow> nat \<Rightarrow> 'w arp_sys \<Rightarrow> (err_t \<times> 'w arp_sys) option" where
  "query_at E netif ip q i s = do {
     e \<leftarrow> entry s i;
     (result, s) \<leftarrow> (if astate e = ETHARP_STATE_PENDING \<or> q = None then etharp_request E netif ip s
                    else Some (ERR_MEM, s));
     (case q of
        None \<Rightarrow> Some (result, s)
      | Some q \<Rightarrow>
          if astate e = ETHARP_STATE_STABLE then
            etharp_send_ip E netif (Some q) (nif_hwaddr netif) (ethaddr e) (s\<lparr>etharp_cached_entry := word_of_nat i\<rparr>)
          else if astate e = ETHARP_STATE_PENDING then queue_packet E i q result s
          else Some (result, s))
   }"

definition etharp_query :: "'w arp_env \<Rightarrow> nif \<Rightarrow> u32 \<Rightarrow> nat option \<Rightarrow> 'w arp_sys \<Rightarrow> (err_t \<times> 'w arp_sys) option" where
  "etharp_query E netif ip q s =
     (if ip_addr_isbroadcast ip netif \<or> ip_addr_ismulticast ip \<or> ip_addr_isany ip then Some (ERR_ARG, s)
      else do {
        (r, s) \<leftarrow> find_entry (Some ip) ETHARP_FLAG_TRY_HARD s;
        (case r of
           Inl err \<Rightarrow> Some (err, s)
         | Inr i \<Rightarrow> do {
             e \<leftarrow> entry s i;
             let s = (if astate e = ETHARP_STATE_EMPTY
                      then set_entry i (\<lambda>e. e\<lparr>astate := ETHARP_STATE_PENDING\<rparr>) s else s);
             query_at E netif ip q i s
           })
      })"

definition mcastaddr :: "u32 \<Rightarrow> bytes" where
  "mcastaddr ip = [0x01, 0x00, 0x5e, ip4_addr2 ip AND 0x7f, ip4_addr3 ip, ip4_addr4 ip]"

definition output_unicast :: "'w arp_env \<Rightarrow> nif \<Rightarrow> nat \<Rightarrow> u32 \<Rightarrow> 'w arp_sys \<Rightarrow> (err_t \<times> 'w arp_sys) option" where
  "output_unicast E netif q ip s = do {
     e \<leftarrow> entry s (unat (etharp_cached_entry s));
     (if astate e = ETHARP_STATE_STABLE \<and> ip = ipaddr e then do {
        b \<leftarrow> pbufs (arp_heap s) q;
        (p, h) \<leftarrow> copy_packet E (tot_len b) q (arp_heap s);
        etharp_send_ip E netif p (nif_hwaddr netif) (ethaddr e) (s\<lparr>arp_heap := h\<rparr>)
      }
      else etharp_query E netif ip (Some q) s)
   }"

definition etharp_output :: "'w arp_env \<Rightarrow> nif \<Rightarrow> nat \<Rightarrow> u32 \<Rightarrow> 'w arp_sys \<Rightarrow> (err_t \<times> 'w arp_sys) option" where
  "etharp_output E netif q ip s = do {
     (r, h) \<leftarrow> pbuf_header (Some q) (int SIZEOF_ETH_HDR) (arp_heap s);
     let s = s\<lparr>arp_heap := h\<rparr>;
     (if r \<noteq> 0 then Some (ERR_BUF, s)
      else if ip_addr_isbroadcast ip netif then etharp_send_ip E netif (Some q) (nif_hwaddr netif) ethbroadcast s
      else if ip_addr_ismulticast ip then etharp_send_ip E netif (Some q) (nif_hwaddr netif) (mcastaddr ip) s
      else if \<not> ip_addr_netcmp ip (nif_ip netif) (nif_netmask netif) \<and> \<not> ip_addr_islinklocal ip then
        (if \<not> ip_addr_isany (nif_gw netif) then output_unicast E netif q (nif_gw netif) s
         else Some (ERR_RTE, s))
      else output_unicast E netif q ip s)
   }"

subsection \<open>Packets that are received\<close>

text \<open>The packet \<open>p\<close> with the bytes \<open>m\<close>, rewritten into the reply and sent.\<close>

definition arp_answer :: "'w arp_env \<Rightarrow> nif \<Rightarrow> bytes \<Rightarrow> nat \<Rightarrow> bytes \<Rightarrow> 'w arp_sys \<Rightarrow> 'w arp_sys option" where
  "arp_answer E netif hwaddr p m s = do {
     b \<leftarrow> pbufs (arp_heap s) p;
     h \<leftarrow> poke (arp_heap s) b 20 [hi8 ARP_REPLY, lo8 ARP_REPLY];
     h \<leftarrow> poke h b 38 (take 4 (drop 28 m));
     h \<leftarrow> poke h b 28 (le32_bytes (nif_ip netif));
     (if unat (nif_hwaddr_len netif) \<noteq> ETHARP_HWADDR_LEN then None
      else do {
        h \<leftarrow> poke h b 32 (take 6 (drop 22 m));
        h \<leftarrow> poke h b 0 (take 6 (drop 22 m));
        h \<leftarrow> poke h b 22 (take 6 hwaddr);
        h \<leftarrow> poke h b 6 (take 6 hwaddr);
        (_, s) \<leftarrow> link_output E p (s\<lparr>arp_heap := h\<rparr>);
        Some s
      })
   }"

definition be16 :: "bytes \<Rightarrow> nat \<Rightarrow> u16" where
  "be16 m i = le16 (m ! (i + 1)) (m ! i)"

definition valid_arp :: "bytes \<Rightarrow> bool" where
  "valid_arp m \<longleftrightarrow> \<not> (be16 m 14 \<noteq> HWTYPE_ETHERNET \<or> unat (m ! 18) \<noteq> ETHARP_HWADDR_LEN \<or> m ! 19 \<noteq> 4
     \<or> be16 m 16 \<noteq> ETHTYPE_IP \<or> be16 m 12 \<noteq> ETHTYPE_ARP)"

definition for_us :: "nif \<Rightarrow> bytes \<Rightarrow> bool" where
  "for_us netif m = (if ip_addr_isany (nif_ip netif) then False else ip_of (drop 38 m) = nif_ip netif)"

text \<open>The \<open>switch\<close> on the kind of message.\<close>

definition arp_act :: "'w arp_env \<Rightarrow> nif \<Rightarrow> bytes \<Rightarrow> nat \<Rightarrow> bytes \<Rightarrow> 'w arp_sys \<Rightarrow> 'w arp_sys option" where
  "arp_act E netif hwaddr p m s =
     (if be16 m 20 = ARP_REQUEST then (if for_us netif m then arp_answer E netif hwaddr p m s else Some s)
      else if be16 m 20 = ARP_REPLY then Some (dhcp_arp_reply E (ip_of (drop 28 m)) s)
      else Some s)"

definition etharp_arp_input :: "'w arp_env \<Rightarrow> nif \<Rightarrow> bytes \<Rightarrow> nat \<Rightarrow> 'w arp_sys \<Rightarrow> 'w arp_sys option" where
  "etharp_arp_input E netif hwaddr p s = do {
     b \<leftarrow> pbufs (arp_heap s) p;
     (if unat (len b) < SIZEOF_ETHARP_PACKET then do {
        (_, h) \<leftarrow> pbuf_free (Some p) (arp_heap s);
        Some (s\<lparr>arp_heap := h\<rparr>) }
      else do {
        m \<leftarrow> peek (arp_heap s) b 0 SIZEOF_ETHARP_PACKET;
        (if \<not> valid_arp m then do {
           (_, h) \<leftarrow> pbuf_free (Some p) (arp_heap s);
           Some (s\<lparr>arp_heap := h\<rparr>) }
         else do {
           (_, s) \<leftarrow> update_arp_entry E netif (ip_of (drop 28 m)) (take 6 (drop 22 m))
             (if for_us netif m then ETHARP_FLAG_TRY_HARD else ETHARP_FLAG_FIND_ONLY) s;
           s \<leftarrow> arp_act E netif hwaddr p m s;
           (_, h) \<leftarrow> pbuf_free (Some p) (arp_heap s);
           Some (s\<lparr>arp_heap := h\<rparr>)
         })
      })
   }"

text \<open>The result is always \<open>ERR_OK\<close>.\<close>

definition ethernet_input :: "'w arp_env \<Rightarrow> nat \<Rightarrow> nif \<Rightarrow> 'w arp_sys \<Rightarrow> (err_t \<times> 'w arp_sys) option" where
  "ethernet_input E p netif s = do {
     b \<leftarrow> pbufs (arp_heap s) p;
     t \<leftarrow> peek (arp_heap s) b 12 2;
     (if be16 t 0 = ETHTYPE_IP \<and> nif_flags netif AND NETIF_FLAG_ETHARP \<noteq> 0 then do {
        s \<leftarrow> etharp_ip_input E netif p s;
        (r, h) \<leftarrow> pbuf_header (Some p) (- int SIZEOF_ETH_HDR) (arp_heap s);
        (if r \<noteq> 0 then None
         else do { s \<leftarrow> ip_input E p (s\<lparr>arp_heap := h\<rparr>); Some (ERR_OK, s) })
      }
      else if be16 t 0 = ETHTYPE_ARP \<and> nif_flags netif AND NETIF_FLAG_ETHARP \<noteq> 0 then do {
        s \<leftarrow> etharp_arp_input E netif (nif_hwaddr netif) p s;
        Some (ERR_OK, s)
      }
      else do { (_, h) \<leftarrow> pbuf_free (Some p) (arp_heap s); Some (ERR_OK, s\<lparr>arp_heap := h\<rparr>) })
   }"

end
