(* ===== verification/Etharp_Table.thy ===== *)
theory Etharp_Table imports Etharp Pbuf_Api begin

section \<open>Address resolution of lwIP: the table\<close>

text \<open>
  What holds of the ARP table: an address is in it at most once, packets wait only for addresses that are
  being resolved, and each waiting packet is a pbuf of its own with room for the header, to which only
  the queue refers (\<open>arp_ok\<close>). The theory proves which entry the search finds or gives away, what ageing does, and
  how frames are written and sent.
\<close>

subsection \<open>The search\<close>

definition oldest :: "(etharp_entry \<Rightarrow> bool) \<Rightarrow> etharp_entry list \<Rightarrow> nat \<Rightarrow> u8 \<Rightarrow> bool" where
  "oldest P es k a \<longleftrightarrow> (if k < length es then P (es ! k) \<and> a = ctime (es ! k)
       \<and> (\<forall>j < length es. P (es ! j) \<longrightarrow> ctime (es ! j) \<le> a \<and> (k < j \<longrightarrow> ctime (es ! j) < a))
     else k = ARP_TABLE_SIZE \<and> a = 0 \<and> (\<forall>e \<in> set es. \<not> P e))"

definition is_empty :: "etharp_entry \<Rightarrow> bool" where "is_empty e \<longleftrightarrow> astate e = ETHARP_STATE_EMPTY"
definition is_stable :: "etharp_entry \<Rightarrow> bool" where "is_stable e \<longleftrightarrow> astate e = ETHARP_STATE_STABLE"
definition is_idle :: "etharp_entry \<Rightarrow> bool" where "is_idle e \<longleftrightarrow> astate e = ETHARP_STATE_PENDING \<and> waiting e = []"
definition is_queue :: "etharp_entry \<Rightarrow> bool" where "is_queue e \<longleftrightarrow> astate e = ETHARP_STATE_PENDING \<and> waiting e \<noteq> []"

lemmas kind_defs = is_empty_def is_stable_def is_idle_def is_queue_def

definition first_empty :: "etharp_entry list \<Rightarrow> nat \<Rightarrow> bool" where
  "first_empty es k \<longleftrightarrow> (if k < length es then is_empty (es ! k) \<and> (\<forall>j < k. \<not> is_empty (es ! j))
     else k = ARP_TABLE_SIZE \<and> (\<forall>e \<in> set es. \<not> is_empty e))"

definition swept :: "etharp_entry list \<Rightarrow> sweep \<Rightarrow> bool" where
  "swept es w \<longleftrightarrow> first_empty es (sw_empty w) \<and> oldest is_stable es (old_stable w) (age_stable w)
     \<and> oldest is_idle es (old_pending w) (age_pending w) \<and> oldest is_queue es (old_queue w) (age_queue w)"

lemma all_snoc: "(\<forall>j < length (es @ [e]). Q j) \<longleftrightarrow> (\<forall>j < length es. Q j) \<and> Q (length es)"
  by (auto simp: less_Suc_eq)

lemma oldest_snoc_other: "oldest P es k a \<Longrightarrow> length es < ARP_TABLE_SIZE \<Longrightarrow> \<not> P e \<Longrightarrow> oldest P (es @ [e]) k a"
  by (auto simp: oldest_def nth_append less_Suc_eq split: if_splits)

lemma oldest_bound: "oldest P es k a \<Longrightarrow> j < length es \<Longrightarrow> P (es ! j) \<Longrightarrow> ctime (es ! j) \<le> a"
  by (auto simp: oldest_def split: if_splits)

lemma oldest_snoc_older:
  assumes "oldest P es k a" "length es < ARP_TABLE_SIZE" "P e" "a \<le> ctime e"
  shows "oldest P (es @ [e]) (length es) (ctime e)"
proof -
  have "ctime (es ! j) \<le> ctime e" if "j < length es" "P (es ! j)" for j
    using oldest_bound [OF assms(1) that] assms(4) by (rule order_trans)
  then show ?thesis using assms(3) by (simp add: oldest_def nth_append)
qed

lemma oldest_snoc_younger:
  "oldest P es k a \<Longrightarrow> length es < ARP_TABLE_SIZE \<Longrightarrow> P e \<Longrightarrow> \<not> a \<le> ctime e \<Longrightarrow> oldest P (es @ [e]) k a"
  by (auto simp: oldest_def nth_append less_Suc_eq not_le split: if_splits)

lemmas oldest_snoc = oldest_snoc_other oldest_snoc_older oldest_snoc_younger

lemma first_empty_snoc:
  "first_empty es k \<Longrightarrow> length es < ARP_TABLE_SIZE \<Longrightarrow>
    first_empty (es @ [e]) (if k = ARP_TABLE_SIZE \<and> is_empty e then length es else k)"
  by (fastforce simp: first_empty_def nth_append less_Suc_eq in_set_conv_nth split: if_splits)

lemma sweep_loop_spec:
  "swept us w \<Longrightarrow> length us + length es \<le> ARP_TABLE_SIZE \<Longrightarrow>
    (\<forall>e \<in> set us. \<not> is_empty e \<longrightarrow> ip \<noteq> Some (ipaddr e)) \<Longrightarrow>
    (case sweep_loop ip (length us) es w of
       Inl i \<Rightarrow> length us \<le> i \<and> i < length (us @ es) \<and> \<not> is_empty ((us @ es) ! i) \<and> ip = Some (ipaddr ((us @ es) ! i))
         \<and> (\<forall>j < i. \<not> is_empty ((us @ es) ! j) \<longrightarrow> ip \<noteq> Some (ipaddr ((us @ es) ! j)))
     | Inr w \<Rightarrow> swept (us @ es) w \<and> (\<forall>e \<in> set (us @ es). \<not> is_empty e \<longrightarrow> ip \<noteq> Some (ipaddr e)))"
proof (induction es arbitrary: us w)
  case Nil
  then show ?case by simp
next
  case (Cons e es)
  have l: "length us < ARP_TABLE_SIZE" using Cons.prems(2) by simp
  define w' where "w' = (if is_empty e then (if sw_empty w = ARP_TABLE_SIZE then w\<lparr>sw_empty := length us\<rparr> else w)
     else if is_queue e then (if ctime e \<ge> age_queue w then w\<lparr>old_queue := length us, age_queue := ctime e\<rparr> else w)
     else if is_idle e then (if ctime e \<ge> age_pending w then w\<lparr>old_pending := length us, age_pending := ctime e\<rparr> else w)
     else (if ctime e \<ge> age_stable w then w\<lparr>old_stable := length us, age_stable := ctime e\<rparr> else w))"
  have step: "sweep_loop ip (length us) (e # es) w =
      (if \<not> is_empty e \<and> ip = Some (ipaddr e) then Inl (length us) else sweep_loop ip (length (us @ [e])) es w')"
    by (cases "astate e") (simp_all add: w'_def kind_defs)
  show ?case
  proof (cases "\<not> is_empty e \<and> ip = Some (ipaddr e)")
    case True
    then show ?thesis using Cons.prems(3) unfolding step by (auto simp: nth_append)
  next
    case False
    have k: "is_stable e \<longleftrightarrow> \<not> is_empty e \<and> \<not> is_queue e \<and> \<not> is_idle e" "\<not> (is_empty e \<and> is_queue e)"
      "\<not> (is_empty e \<and> is_idle e)" "\<not> (is_queue e \<and> is_idle e)"
      by (cases "astate e"; simp add: kind_defs)+
    have "swept (us @ [e]) w'"
      using Cons.prems(1) l k first_empty_snoc [of us "sw_empty w" e] unfolding swept_def w'_def
      by (auto simp: oldest_snoc split: if_splits)
    moreover have "\<forall>x \<in> set (us @ [e]). \<not> is_empty x \<longrightarrow> ip \<noteq> Some (ipaddr x)" using Cons.prems(3) False by auto
    moreover have "sweep_loop ip (length us) (e # es) w = sweep_loop ip (length (us @ [e])) es w'" using step False by auto
    ultimately show ?thesis using Cons.IH [of "us @ [e]" w'] Cons.prems(2) by (auto split: sum.splits)
  qed
qed

lemma swept_start: "swept [] sweep0"
  by (simp add: swept_def first_empty_def oldest_def sweep0_def)

text \<open>The entry that is given to a new address: the first empty one; else the oldest stable one, the oldest
  pending one without packets, the oldest one with packets.\<close>

definition victim :: "etharp_entry list \<Rightarrow> nat \<Rightarrow> bool" where
  "victim es i \<longleftrightarrow> i < length es \<and>
     (if \<exists>e \<in> set es. is_empty e then first_empty es i
      else if \<exists>e \<in> set es. is_stable e then \<exists>a. oldest is_stable es i a
      else if \<exists>e \<in> set es. is_idle e then \<exists>a. oldest is_idle es i a
      else \<exists>a. oldest is_queue es i a)"

lemma first_empty_none: "first_empty es k \<Longrightarrow> length es = ARP_TABLE_SIZE \<Longrightarrow> k < ARP_TABLE_SIZE \<longleftrightarrow> (\<exists>e \<in> set es. is_empty e)"
  by (auto simp: first_empty_def split: if_splits)

lemma oldest_none: "oldest P es k a \<Longrightarrow> length es = ARP_TABLE_SIZE \<Longrightarrow> k < ARP_TABLE_SIZE \<longleftrightarrow> (\<exists>e \<in> set es. P e)"
  by (auto simp: oldest_def split: if_splits)

lemma sweep_spec:
  assumes "length es = ARP_TABLE_SIZE"
  shows "case sweep_loop ip 0 es sweep0 of
      Inl i \<Rightarrow> i < ARP_TABLE_SIZE \<and> \<not> is_empty (es ! i) \<and> ip = Some (ipaddr (es ! i))
    | Inr w \<Rightarrow> swept es w \<and> (\<forall>e \<in> set es. \<not> is_empty e \<longrightarrow> ip \<noteq> Some (ipaddr e))"
  using sweep_loop_spec [OF swept_start, of es ip] assms by (auto split: sum.splits)

subsection \<open>Pbufs that only the queue refers to\<close>

definition lone :: "heap \<Rightarrow> nat \<Rightarrow> bool" where
  "lone h p \<longleftrightarrow> (\<exists>b. pbufs h p = Some b \<and> nxt b = None \<and> ptype b = PBUF_RAM \<and> ref b = 1 \<and> SIZEOF_ETH_HDR \<le> unat (len b))"

text \<open>The pbufs \<open>q\<close> are gone, all others are as before.\<close>

definition removes :: "nat set \<Rightarrow> heap \<Rightarrow> heap \<Rightarrow> bool" where
  "removes q h h' \<longleftrightarrow> (\<forall>x. pbufs h' x = (if x \<in> q then None else pbufs h x))
     \<and> (\<forall>x. x \<notin> q \<longrightarrow> pbufs h x \<noteq> None \<longrightarrow> pdata h' x = pdata h x)
     \<and> (\<forall>x. blocks h x = None \<or> x \<in> q \<and> pbufs h x \<noteq> None \<longrightarrow> blocks h' x = None)"

lemma removes_refl [simp]: "removes {} h h"
  by (simp add: removes_def)

lemma removes_trans: "removes q h h' \<Longrightarrow> removes r h' h'' \<Longrightarrow> removes (q \<union> r) h h''"
proof -
  assume a: "removes q h h'" "removes r h' h''"
  have "blocks h'' x = None" if x: "blocks h x = None \<or> x \<in> q \<union> r \<and> pbufs h x \<noteq> None" for x
  proof (cases "blocks h' x = None")
    case True
    then show ?thesis using a(2) by (simp add: removes_def)
  next
    case False
    moreover have "blocks h x = None \<or> x \<in> q \<and> pbufs h x \<noteq> None \<longrightarrow> blocks h' x = None" using a(1) by (simp add: removes_def)
    moreover have "pbufs h' x = (if x \<in> q then None else pbufs h x)" using a(1) by (simp add: removes_def)
    ultimately have "x \<in> r" "pbufs h' x \<noteq> None" using x by auto
    then show ?thesis using a(2) unfolding removes_def by blast
  qed
  then show ?thesis using a unfolding removes_def by auto
qed

lemma removes_same: "removes q h h' \<Longrightarrow> x \<notin> q \<Longrightarrow>
    pbufs h' x = pbufs h x \<and> link h' x = link h x \<and> plen h' x = plen h x \<and> ptot h' x = ptot h x \<and> lone h' x = lone h x
    \<and> owned h' x = owned h x \<and> has_data h' x = has_data h x"
  by (simp add: removes_def link_def plen_def ptot_def lone_def owned_def has_data_def)

lemma path_removes: "removes q h h' \<Longrightarrow> set ps \<inter> q = {} \<Longrightarrow> path h p ps \<Longrightarrow> path h' p ps"
  using path_cong [of ps h' h p] removes_same [of q h h'] by (metis disjoint_iff)

lemma lone_alloc: "lone h p \<Longrightarrow> pbufs h p \<noteq> None"
  by (auto simp: lone_def)

lemma inv_windows: "pbuf_inv h X \<Longrightarrow> windows_ok h" and inv_heap: "pbuf_inv h X \<Longrightarrow> heap_ok h X"
  by (simp_all add: pbuf_inv_def heap_ok_def)

lemma pdata_dealloc:
  assumes w: "windows_ok h" and p: "pbufs h p \<noteq> None" and x: "x \<noteq> p" "pbufs h x \<noteq> None"
  shows "pdata (dealloc p h) x = pdata h x"
proof -
  obtain c where c: "pbufs h x = Some c" using x by auto
  then have wx: "window h x c" using w by (simp add: windows_ok_def)
  have "blocks (dealloc p h) r = blocks h r" if "payload c = Some (r, i)" for r i
    using wx that p x by (auto simp: window_def split: if_splits)
  then show ?thesis using x by (intro pdata_cong [OF c _ refl refl]) (simp_all add: c)
qed

lemma lone_free:
  assumes l: "lone h p" and i: "pbuf_inv h X" and e: "0 < X p"
  shows "\<exists>n h'. pbuf_free (Some p) h = Some (n, h') \<and> pbuf_inv h' (X(p := X p - 1)) \<and> removes {p} h h'"
proof -
  obtain b where b: "pbufs h p = Some b" "nxt b = None" "ref b = 1" using l by (auto simp: lone_def)
  have n: "pbuf_free_loop None c g = Some (c, g)" for c g by (subst pbuf_free_loop.simps) simp
  have f: "pbuf_free (Some p) h = Some (1, dealloc p h)"
    unfolding pbuf_free_def by (subst pbuf_free_loop.simps) (simp add: b n Let_def)
  have "removes {p} h (dealloc p h)"
    using pdata_dealloc [OF inv_windows [OF i]] b by (auto simp: removes_def)
  then show ?thesis using f free_call [OF i e] by auto
qed

lemma free_loop_ok:
  "pbuf_inv h (\<lambda>a. X a + count_list q a) \<Longrightarrow> distinct q \<Longrightarrow> \<forall>p \<in> set q. lone h p \<Longrightarrow>
    \<exists>h'. free_loop q h = Some h' \<and> pbuf_inv h' X \<and> removes (set q) h h'"
proof (induction q arbitrary: h)
  case (Cons p q)
  let ?X = "\<lambda>a. X a + count_list (p # q) a"
  have "?X(p := ?X p - 1) = (\<lambda>a. X a + count_list q a)" by (auto simp: fun_eq_iff)
  then obtain n h1 where h1: "pbuf_free (Some p) h = Some (n, h1)" "pbuf_inv h1 (\<lambda>a. X a + count_list q a)" "removes {p} h h1"
    using lone_free [of h p ?X] Cons.prems by auto
  have "lone h1 x" if "x \<in> set q" for x
  proof -
    have "x \<notin> {p}" using that Cons.prems(2) by auto
    then show ?thesis using removes_same [OF h1(3)] Cons.prems(3) that by auto
  qed
  then obtain h2 where "free_loop q h1 = Some h2" "pbuf_inv h2 X" "removes (set q) h1 h2"
    using Cons.IH [OF h1(2)] Cons.prems by auto
  then show ?case using h1(1) removes_trans [OF h1(3)] by simp
qed simp

subsection \<open>Sending\<close>

lemma chain_payloads_ok:
  "windows_ok h \<Longrightarrow> path h p ps \<Longrightarrow> \<forall>x \<in> set ps. has_data h x \<Longrightarrow> chain_payloads h p = Some (map (pdata h) ps)"
proof (induction ps arbitrary: p)
  case Nil
  then show ?case by (subst chain_payloads.simps) simp
next
  case (Cons a ps)
  then obtain b where b: "p = Some a" "pbufs h a = Some b" "path h (nxt b) ps" by (auto simp: link_def)
  moreover have "payload b \<noteq> None" using Cons.prems(3) b by (simp add: has_data_def)
  ultimately have "peek h b 0 (unat (len b)) = Some (pdata h a)"
    using peek_ok [OF Cons.prems(1), of a b 0 "unat (len b)"] length_pdata [OF Cons.prems(1), of a] Cons.prems(3)
    by (simp add: plen_def)
  then show ?case using Cons b by (subst chain_payloads.simps) simp
qed

text \<open>A packet with room for the header in its first pbuf.\<close>

definition sendable :: "heap \<Rightarrow> nat \<Rightarrow> nat list \<Rightarrow> bool" where
  "sendable h p ps \<longleftrightarrow> path h (Some p) ps \<and> owned h p \<and> (\<forall>x \<in> set ps. has_data h x)"

lemma sendable_first: "sendable h p ps \<Longrightarrow> \<exists>as. ps = p # as"
  using path_first by (fastforce simp: sendable_def)

lemma lone_sendable: "windows_ok h \<Longrightarrow> lone h p \<Longrightarrow> sendable h p [p]"
  using owned_data [of h p] by (auto simp: sendable_def lone_def link_def owned_def)

lemma same_shape_sendable: "same_shape h h' \<Longrightarrow> sendable h' p ps = sendable h p ps"
  by (simp add: sendable_def same_shape_sizes same_shape_path)

lemma sendable_removes: "removes q h h' \<Longrightarrow> set ps \<inter> q = {} \<Longrightarrow> sendable h p ps \<Longrightarrow> sendable h' p ps"
  using path_removes [of q h h' ps "Some p"] removes_same [of q h h'] sendable_first [of h p ps]
  unfolding sendable_def by (metis disjoint_iff list.set_intros(1))

text \<open>A write into the first pbuf of a packet.\<close>

definition written :: "nat \<Rightarrow> bytes \<Rightarrow> heap \<Rightarrow> heap \<Rightarrow> bool" where
  "written p m h h' \<longleftrightarrow> same_shape h h' \<and> pdata h' p = m \<and> (\<forall>x. x \<noteq> p \<longrightarrow> pdata h' x = pdata h x)"

lemma written_refl: "written p (pdata h p) h h"
  by (simp add: written_def)

lemma written_poke:
  assumes "written p m h h'" "windows_ok h" "owned h p" "pbufs h p = Some b" "i + length bs \<le> length m"
  shows "\<exists>h''. poke h' b i bs = Some h'' \<and> written p (splice i bs m) h h''"
proof -
  have s: "same_shape h h'" and m: "pdata h' p = m" using assms(1) by (simp_all add: written_def)
  have "length m = plen h' p"
    using length_pdata [of h' p] same_shape_windows [OF s assms(2)] owned_data [OF assms(2,3)] same_shape_sizes [OF s] m by simp
  then have "i + length bs \<le> unat (len b)" using assms(4,5) same_shape_sizes [OF s] by (simp add: plen_def)
  moreover have "pbufs h' p = Some b" "owned h' p" using assms(3,4) s same_shape_sizes [OF s] by (simp_all add: same_shape_def)
  ultimately obtain h'' where
    "poke h' b i bs = Some h''" "same_shape h' h''" "pdata h'' p = splice i bs (pdata h' p)" "\<forall>x. x \<noteq> p \<longrightarrow> pdata h'' x = pdata h' x"
    using poke_ok [OF same_shape_windows [OF s assms(2)]] by blast
  then show ?thesis using assms(1) m same_shape_trans by (auto simp: written_def)
qed

lemma written_inv: "written p m h h' \<Longrightarrow> pbuf_inv h X \<Longrightarrow> pbuf_inv h' X"
  using inv_same_shape by (auto simp: written_def)

lemma written_same: "written p m h h' \<Longrightarrow> pbufs h' = pbufs h \<and> sendable h' p ps = sendable h p ps \<and> link h' = link h
    \<and> lone h' = lone h"
  using same_shape_sendable by (auto simp: written_def same_shape_def same_shape_sizes lone_def fun_eq_iff link_def)

lemma link_output_ok:
  assumes w: "written p m h h'" "windows_ok h" and s: "sendable h p (p # ps)"
  shows "\<exists>err w'. link_output E p (s\<lparr>arp_heap := h'\<rparr>) = Some (err, s\<lparr>arp_heap := h', wire := w'\<rparr>)
    \<and> (err, w') = linkoutput E (m # map (pdata h) ps) (wire s)"
proof -
  have ss: "same_shape h h'" and s': "sendable h' p (p # ps)" using w(1) s written_same by (auto simp: written_def)
  have "p \<notin> set ps" using path_distinct [of h "Some p" "p # ps"] s by (auto simp: sendable_def)
  then have "map (pdata h') (p # ps) = m # map (pdata h) ps" using w(1) by (auto simp: written_def)
  then have "chain_payloads h' (Some p) = Some (m # map (pdata h) ps)"
    using chain_payloads_ok [OF same_shape_windows [OF ss w(2)], of "Some p" "p # ps"] s'
    unfolding sendable_def by auto
  then show ?thesis
    by (cases "linkoutput E (m # map (pdata h) ps) (wire s)") (simp add: link_output_def)
qed

definition hw_ok :: "nif \<Rightarrow> bool" where
  "hw_ok netif \<longleftrightarrow> nif_hwaddr_len netif = 6 \<and> length (nif_hwaddr netif) = 6"

lemma splice_zero: "length bs \<le> length m \<Longrightarrow> splice 0 bs m = bs @ drop (length bs) m"
  by (simp add: splice_def)

lemma eth_header_splices:
  assumes "length src = 6" "length dst = 6" "14 \<le> length m"
  shows "splice 12 [hi8 t, lo8 t] (splice 6 src (splice 0 dst m)) = eth_header dst src t @ drop 14 m"
  using assms by (simp add: splice_def eth_header_def ETHARP_HWADDR_LEN_def)

lemma etharp_send_ip_ok:
  assumes w: "windows_ok (arp_heap s)" and p: "sendable (arp_heap s) p (p # ps)" "SIZEOF_ETH_HDR \<le> plen (arp_heap s) p"
    and n: "nif_hwaddr_len netif = 6" "length src = 6" "length dst = 6"
  shows "\<exists>err h' w'. etharp_send_ip E netif (Some p) src dst s = Some (err, s\<lparr>arp_heap := h', wire := w'\<rparr>)
    \<and> written p (eth_header dst src ETHTYPE_IP @ drop 14 (pdata (arp_heap s) p)) (arp_heap s) h'
    \<and> (err, w') = linkoutput E ((eth_header dst src ETHTYPE_IP @ drop 14 (pdata (arp_heap s) p)) # map (pdata (arp_heap s)) ps) (wire s)"
proof -
  let ?h = "arp_heap s"
  let ?m = "pdata ?h p"
  obtain b where b: "pbufs ?h p = Some b" and o: "owned ?h p" using p(1) path_first [of ?h p "p # ps"] by (auto simp: sendable_def)
  have l: "14 \<le> length ?m" using p length_pdata [OF w, of p] by (simp add: sendable_def SIZEOF_ETH_HDR_def)
  from written_poke [OF written_refl w o b, of 0 dst] l n obtain h1 where
    h1: "poke ?h b 0 dst = Some h1" "written p (splice 0 dst ?m) ?h h1" by auto
  from written_poke [OF h1(2) w o b, of 6 src] l n obtain h2 where
    h2: "poke h1 b 6 src = Some h2" "written p (splice 6 src (splice 0 dst ?m)) ?h h2" by (auto simp: length_splice)
  from written_poke [OF h2(2) w o b, of 12 "[hi8 ETHTYPE_IP, lo8 ETHTYPE_IP]"] l n obtain h3 where
    h3: "poke h2 b 12 [hi8 ETHTYPE_IP, lo8 ETHTYPE_IP] = Some h3"
      "written p (splice 12 [hi8 ETHTYPE_IP, lo8 ETHTYPE_IP] (splice 6 src (splice 0 dst ?m))) ?h h3"
    by (auto simp: length_splice)
  show ?thesis
    using link_output_ok [OF h3(2) w p(1), of E s] h3(2) n l
    unfolding eth_header_splices [OF n(2,3) l] by (auto simp: etharp_send_ip_def b h1(1) h2(1) h3(1) ETHARP_HWADDR_LEN_def)
qed

text \<open>All pbufs outside of \<open>A\<close> are as before.\<close>

definition kept :: "nat set \<Rightarrow> heap \<Rightarrow> heap \<Rightarrow> bool" where
  "kept A h h' \<longleftrightarrow> (\<forall>x. x \<notin> A \<longrightarrow> pbufs h' x = pbufs h x \<and> (pbufs h x \<noteq> None \<longrightarrow> pdata h' x = pdata h x)
     \<and> (blocks h x = None \<longrightarrow> blocks h' x = None))"

lemma kept_refl [simp]: "kept A h h"
  by (simp add: kept_def)

lemma kept_trans: "kept A h h' \<Longrightarrow> kept B h' h'' \<Longrightarrow> kept (A \<union> B) h h''"
  by (auto simp: kept_def)

lemma kept_mono: "kept A h h' \<Longrightarrow> A \<subseteq> B \<Longrightarrow> kept B h h'"
  by (auto simp: kept_def)

lemma kept_drop: "kept A h h' \<Longrightarrow> (\<And>x. x \<in> A \<Longrightarrow> x \<notin> B \<Longrightarrow> pbufs h x = None \<and> pbufs h' x = None \<and> blocks h' x = None) \<Longrightarrow> kept B h h'"
proof (unfold kept_def, intro allI impI)
  fix x assume k: "\<forall>x. x \<notin> A \<longrightarrow> pbufs h' x = pbufs h x \<and> (pbufs h x \<noteq> None \<longrightarrow> pdata h' x = pdata h x) \<and> (blocks h x = None \<longrightarrow> blocks h' x = None)"
    and d: "\<And>x. x \<in> A \<Longrightarrow> x \<notin> B \<Longrightarrow> pbufs h x = None \<and> pbufs h' x = None \<and> blocks h' x = None" and x: "x \<notin> B"
  show "pbufs h' x = pbufs h x \<and> (pbufs h x \<noteq> None \<longrightarrow> pdata h' x = pdata h x) \<and> (blocks h x = None \<longrightarrow> blocks h' x = None)"
    by (cases "x \<in> A") (use k d [OF _ x] in simp_all)
qed

lemma removes_kept: "removes A h h' \<Longrightarrow> kept A h h'"
  by (simp add: removes_def kept_def)

lemma written_kept: "written p m h h' \<Longrightarrow> kept {p} h h'"
  by (simp add: written_def kept_def same_shape_def) (metis option.map_disc_iff)

lemma kept_lone: "kept A h h' \<Longrightarrow> p \<notin> A \<Longrightarrow> lone h p \<Longrightarrow> lone h' p"
  by (simp add: kept_def lone_def)

lemma kept_sendable:
  assumes "kept A h h'" "set ps \<inter> A = {}" "sendable h p ps"
  shows "sendable h' p ps"
proof -
  have "path h' (Some p) ps = path h (Some p) ps"
    using assms(1,2) by (intro path_cong) (auto simp: kept_def link_def)
  moreover have "\<forall>x \<in> set ps. owned h' x = owned h x \<and> has_data h' x = has_data h x"
    using assms(1,2) by (auto simp: kept_def owned_def has_data_def)
  ultimately show ?thesis using assms(3) sendable_first [OF assms(3)] by (auto simp: sendable_def)
qed

lemma kept_data: "kept A h h' \<Longrightarrow> set ps \<inter> A = {} \<Longrightarrow> path h q ps \<Longrightarrow> map (pdata h') ps = map (pdata h) ps"
  using path_alloc by (fastforce simp: kept_def)

text \<open>A new packet of one pbuf.\<close>

lemma not_counted: "pbuf_inv h X \<Longrightarrow> pbufs h p = None \<Longrightarrow> X p = 0"
proof -
  assume i: "pbuf_inv h X" and p: "pbufs h p = None"
  have "X p > 0 \<Longrightarrow> \<exists>b. pbufs h p = Some b" using i refs_ok_alloc by (auto simp: pbuf_inv_def heap_ok_def)
  then show ?thesis using p by auto
qed

lemma arp_alloc_layer:
  assumes M: "malloc_ok M" and i: "pbuf_inv h X"
  shows "pbuf_alloc M l n PBUF_RAM h = Some (None, h)
    \<or> (\<exists>p h'. pbuf_alloc M l n PBUF_RAM h = Some (Some p, h') \<and> pbufs h p = None \<and> X p = 0 \<and> pbuf_inv h' (X(p := 1))
         \<and> kept {p} h h' \<and> (SIZEOF_ETH_HDR \<le> unat n \<longrightarrow> lone h' p) \<and> path h' (Some p) [p] \<and> owned h' p \<and> has_data h' p
         \<and> plen h' p = unat n \<and> ptot h' p = unat n)"
proof -
  have w: "windows_ok h" using i by (rule inv_windows)
  from pbuf_alloc_ram [OF M, of h X l n] inv_heap [OF i] consider "pbuf_alloc M l n PBUF_RAM h = Some (None, h)"
    | p m b where "pbuf_alloc M l n PBUF_RAM h = Some (Some p, new_pbuf p b m h)" "pbufs h p = None" "blocks h p = None"
      "heap_ok (new_pbuf p b m h) (X(p := 1))" "nxt b = None" "len b = n" "tot_len b = n" "ptype b = PBUF_RAM" by blast
  then show ?thesis
  proof cases
    case 2
    let ?h = "new_pbuf p b m h"
    have x: "X p = 0" using not_counted [OF i] 2(2) by blast
    from alloc_call [OF M i, of l n PBUF_RAM] 2(1) have iv: "pbuf_inv ?h (X(p := 1))" by auto
    then have "rc ?h p = 1 + indeg ?h p" using refs_okD(2) [of ?h "X(p := 1)" p] by (simp add: pbuf_inv_def heap_ok_def)
    moreover have "indeg ?h p = 0"
    proof -
      have "link ?h y \<noteq> Some (Some p)" for y
      proof (cases "y = p")
        case False
        then have "link ?h y = link h y" by (simp add: link_def)
        moreover have "refs_ok h X" using i by (simp add: pbuf_inv_def heap_ok_def)
        ultimately show ?thesis using refs_ok_alloc [of h X p] 2(2) by auto
      qed (simp add: link_def 2(5))
      then show ?thesis by (simp add: indeg_def preds_def)
    qed
    ultimately have "ref b = 1" using unat_eq_1 [of "ref b"] by (simp add: rc_def)
    then have "SIZEOF_ETH_HDR \<le> unat n \<longrightarrow> lone ?h p" using 2 by (simp add: lone_def)
    moreover have "kept {p} h ?h" using pdata_new [OF w 2(2,3)] by (auto simp: kept_def)
    moreover have "owned ?h p" using 2(8) by (simp add: owned_def)
    moreover then have "has_data ?h p" using owned_data [OF inv_windows [OF iv]] by blast
    ultimately show ?thesis using 2 x iv by (intro disjI2 exI [of _ p] exI [of _ ?h]) (simp add: link_def plen_def ptot_def)
  qed blast
qed

lemmas arp_alloc = arp_alloc_layer [where l = PBUF_RAW]

subsection \<open>The table\<close>

definition waits :: "etharp_entry list \<Rightarrow> nat \<Rightarrow> nat" where
  "waits t a = count_list (concat (map waiting t)) a"

definition queued :: "etharp_entry list \<Rightarrow> nat set" where
  "queued t = (\<Union>e \<in> set t. set (waiting e))"

definition entry_ok :: "etharp_entry \<Rightarrow> bool" where
  "entry_ok e \<longleftrightarrow> length (ethaddr e) = ETHARP_HWADDR_LEN \<and> (waiting e \<noteq> [] \<longrightarrow> astate e = ETHARP_STATE_PENDING)
     \<and> (astate e = ETHARP_STATE_PENDING \<longrightarrow> ctime e < ARP_MAXPENDING) \<and> (astate e = ETHARP_STATE_STABLE \<longrightarrow> ctime e < ARP_MAXAGE)"

definition one_per_ip :: "etharp_entry list \<Rightarrow> bool" where
  "one_per_ip t \<longleftrightarrow> (\<forall>i < length t. \<forall>j < length t. i \<noteq> j \<longrightarrow> \<not> is_empty (t ! i) \<longrightarrow> \<not> is_empty (t ! j) \<longrightarrow>
     ipaddr (t ! i) \<noteq> ipaddr (t ! j))"

definition table_ok :: "etharp_entry list \<Rightarrow> bool" where
  "table_ok t \<longleftrightarrow> length t = ARP_TABLE_SIZE \<and> (\<forall>e \<in> set t. entry_ok e) \<and> one_per_ip t"

definition arp_ok :: "'w arp_sys \<Rightarrow> (nat \<Rightarrow> nat) \<Rightarrow> bool" where
  "arp_ok s ext \<longleftrightarrow> table_ok (arp_table s) \<and> unat (etharp_cached_entry s) < ARP_TABLE_SIZE
     \<and> pbuf_inv (arp_heap s) (\<lambda>a. ext a + waits (arp_table s) a) \<and> (\<forall>p \<in> queued (arp_table s). lone (arp_heap s) p)"

lemma waits_update:
  assumes "i < length t"
  shows "waits (t[i := e]) a + count_list (waiting (t ! i)) a = waits t a + count_list (waiting e) a"
proof -
  have "t = take i t @ t ! i # drop (Suc i) t" using assms by (rule id_take_nth_drop)
  then have "waits t a = waits (take i t @ t ! i # drop (Suc i) t) a" by simp
  moreover have "waits (t[i := e]) a = waits (take i t @ e # drop (Suc i) t) a" using assms by (simp add: upd_conv_take_nth_drop)
  ultimately show ?thesis by (simp add: waits_def)
qed

lemma waits_pos: "0 < waits t a \<longleftrightarrow> a \<in> queued t"
  using count_list_0_iff [of "concat (map waiting t)" a] by (auto simp: waits_def queued_def)

lemma queued_update: "i < length t \<Longrightarrow> queued (t[i := e]) \<subseteq> queued t \<union> set (waiting e)"
  using set_update_subset_insert [of t i e] by (auto simp: queued_def)

lemma queued_nth: "i < length t \<Longrightarrow> set (waiting (t ! i)) \<subseteq> queued t"
  unfolding queued_def using nth_mem by blast

lemma waits_nth: "i < length t \<Longrightarrow> count_list (waiting (t ! i)) a \<le> waits t a"
  using waits_update [of i t "(t ! i)\<lparr>waiting := []\<rparr>" a] by simp

text \<open>A queued pbuf is in one queue only, once, and nobody else refers to it.\<close>

lemma queued_once:
  assumes i: "pbuf_inv h (\<lambda>a. ext a + waits t a)" and p: "p \<in> queued t" and l: "lone h p"
  shows "ext p = 0" "waits t p = 1" "indeg h p = 0"
proof -
  have "rc h p = ext p + waits t p + indeg h p"
    using i refs_okD(2) [of h _ p] by (auto simp: pbuf_inv_def heap_ok_def)
  moreover have "rc h p = 1" using l by (auto simp: lone_def rc_def)
  moreover have "0 < waits t p" using p waits_pos by blast
  ultimately show "ext p = 0" "waits t p = 1" "indeg h p = 0" by linarith+
qed

lemma queue_distinct: "(\<And>p. p \<in> set q \<Longrightarrow> count_list q p \<le> 1) \<Longrightarrow> distinct q"
proof (induction q)
  case (Cons a q)
  have "count_list q a = 0" using Cons.prems [of a] by simp
  moreover have "count_list q p \<le> 1" if "p \<in> set q" for p using Cons.prems [of p] that by (auto split: if_splits)
  ultimately show ?case using Cons.IH by (simp add: count_list_0_iff)
qed simp

lemma entry_queue:
  assumes s: "arp_ok s ext" and i: "i < ARP_TABLE_SIZE" and e: "waiting e = []"
  shows "distinct (waiting (arp_table s ! i))" "\<forall>p \<in> set (waiting (arp_table s ! i)). lone (arp_heap s) p \<and> ext p = 0"
    "pbuf_inv (arp_heap s) (\<lambda>a. (ext a + waits ((arp_table s)[i := e]) a) + count_list (waiting (arp_table s ! i)) a)"
    "queued ((arp_table s)[i := e]) \<inter> set (waiting (arp_table s ! i)) = {}"
proof -
  let ?t = "arp_table s"
  have l: "i < length ?t" using s i by (simp add: arp_ok_def table_ok_def)
  have inv: "pbuf_inv (arp_heap s) (\<lambda>a. ext a + waits ?t a)" using s by (simp add: arp_ok_def)
  have q: "p \<in> queued ?t \<and> lone (arp_heap s) p" if "p \<in> set (waiting (?t ! i))" for p
    using queued_nth [OF l] that s by (auto simp: arp_ok_def)
  have once: "ext p = 0 \<and> waits ?t p = 1" if "p \<in> set (waiting (?t ! i))" for p
    using queued_once [OF inv] q [OF that] by blast
  then show "distinct (waiting (?t ! i))" using waits_nth [OF l] by (intro queue_distinct) metis
  show "\<forall>p \<in> set (waiting (?t ! i)). lone (arp_heap s) p \<and> ext p = 0" using q once by blast
  have w: "waits (?t[i := e]) a + count_list (waiting (?t ! i)) a = waits ?t a" for a
    using waits_update [OF l, of e a] e by simp
  then have "(\<lambda>a. (ext a + waits (?t[i := e]) a) + count_list (waiting (?t ! i)) a) = (\<lambda>a. ext a + waits ?t a)"
    by (simp add: fun_eq_iff add.assoc)
  then show "pbuf_inv (arp_heap s) (\<lambda>a. (ext a + waits (?t[i := e]) a) + count_list (waiting (?t ! i)) a)"
    using inv by simp
  have "p \<notin> queued (?t[i := e])" if "p \<in> set (waiting (?t ! i))" for p
  proof -
    have "0 < count_list (waiting (?t ! i)) p" using that count_list_0_iff [of "waiting (?t ! i)" p] by auto
    then have "waits (?t[i := e]) p = 0" using w [of p] once [OF that] by linarith
    then show ?thesis using waits_pos by (metis less_nat_zero_code)
  qed
  then show "queued (?t[i := e]) \<inter> set (waiting (?t ! i)) = {}" by blast
qed


lemma arp_okI:
  assumes s: "arp_ok s ext" and t: "table_ok (arp_table s')" and c: "unat (etharp_cached_entry s') < ARP_TABLE_SIZE"
    and h: "pbuf_inv (arp_heap s') (\<lambda>a. ext' a + waits (arp_table s') a)" "kept A (arp_heap s) (arp_heap s')"
    and q: "queued (arp_table s') \<subseteq> (queued (arp_table s) - A) \<union> B" "\<forall>p \<in> B. lone (arp_heap s') p"
  shows "arp_ok s' ext'"
  unfolding arp_ok_def
proof (intro conjI t c h ballI)
  fix p assume "p \<in> queued (arp_table s')"
  then consider "p \<in> queued (arp_table s)" "p \<notin> A" | "p \<in> B" using q(1) by blast
  then show "lone (arp_heap s') p"
  proof cases
    case 1
    then show ?thesis using s kept_lone [OF h(2)] by (simp add: arp_ok_def)
  qed (use q(2) in blast)
qed

definition free_ip :: "etharp_entry list \<Rightarrow> nat \<Rightarrow> u32 \<Rightarrow> bool" where
  "free_ip t i ip \<longleftrightarrow> (\<forall>j < length t. j \<noteq> i \<longrightarrow> \<not> is_empty (t ! j) \<longrightarrow> ipaddr (t ! j) \<noteq> ip)"

lemma table_ok_upd:
  "table_ok t \<Longrightarrow> i < ARP_TABLE_SIZE \<Longrightarrow> entry_ok e \<Longrightarrow> is_empty e \<or> free_ip t i (ipaddr e) \<Longrightarrow> table_ok (t[i := e])"
proof -
  assume t: "table_ok t" and i: "i < ARP_TABLE_SIZE" and e: "entry_ok e" and f: "is_empty e \<or> free_ip t i (ipaddr e)"
  have "\<forall>x \<in> set (t[i := e]). entry_ok x" using t e set_update_subset_insert [of t i e] by (auto simp: table_ok_def)
  moreover have "one_per_ip (t[i := e])"
    using t f i unfolding one_per_ip_def table_ok_def free_ip_def by (auto simp: nth_list_update)
  ultimately show ?thesis using t by (simp add: table_ok_def)
qed

lemma free_ip_own: "table_ok t \<Longrightarrow> i < ARP_TABLE_SIZE \<Longrightarrow> \<not> is_empty (t ! i) \<Longrightarrow> free_ip t i (ipaddr (t ! i))"
  by (auto simp: table_ok_def one_per_ip_def free_ip_def)

lemma table_nth_ok: "table_ok t \<Longrightarrow> i < ARP_TABLE_SIZE \<Longrightarrow> entry_ok (t ! i)"
  by (auto simp: table_ok_def)

lemma arp_ok_upd:
  assumes s: "arp_ok s ext" and i: "i < ARP_TABLE_SIZE" and e: "entry_ok e" "is_empty e \<or> free_ip (arp_table s) i (ipaddr e)"
    and q: "waiting e = waiting (arp_table s ! i)"
  shows "arp_ok (s\<lparr>arp_table := (arp_table s)[i := e]\<rparr>) ext"
proof -
  have t: "table_ok (arp_table s)" using s by (simp add: arp_ok_def)
  then have l: "i < length (arp_table s)" using i by (simp add: table_ok_def)
  have "waits ((arp_table s)[i := e]) a = waits (arp_table s) a" for a using waits_update [OF l, of e a] q by simp
  moreover have "queued ((arp_table s)[i := e]) \<subseteq> queued (arp_table s)"
    using queued_update [OF l, of e] queued_nth [OF l] q by auto
  ultimately show ?thesis
    using s table_ok_upd [OF t i e] by (intro arp_okI [OF s, where A = "{}" and B = "{}"]) (auto simp: arp_ok_def)
qed

lemma arp_ok_cleared:
  assumes s: "arp_ok s ext" and i: "i < ARP_TABLE_SIZE" and e: "entry_ok e" "is_empty e \<or> free_ip (arp_table s) i (ipaddr e)"
    "waiting e = []"
    and h: "pbuf_inv h' (\<lambda>a. ext a + waits ((arp_table s)[i := e]) a)" "kept (set (waiting (arp_table s ! i))) (arp_heap s) h'"
  shows "arp_ok (s\<lparr>arp_table := (arp_table s)[i := e], arp_heap := h'\<rparr>) ext"
proof -
  have t: "table_ok (arp_table s)" using s by (simp add: arp_ok_def)
  then have l: "i < length (arp_table s)" using i by (simp add: table_ok_def)
  have "queued ((arp_table s)[i := e]) \<inter> set (waiting (arp_table s ! i)) = {}"
    using entry_queue(4) [OF s i e(3)] .
  then show ?thesis using s h table_ok_upd [OF t i e(1,2)] queued_update [OF l, of e] e(3)
    by (intro arp_okI [OF s, where A = "set (waiting (arp_table s ! i))" and B = "{}"]) (auto simp: arp_ok_def)
qed

subsection \<open>Giving up an entry\<close>

definition blank :: etharp_entry where
  "blank = \<lparr>waiting = [], ipaddr = 0, ethaddr = ethzero, astate = ETHARP_STATE_EMPTY, ctime = 0\<rparr>"

lemma blank_simps [simp]: "waiting blank = []" "astate blank = ETHARP_STATE_EMPTY" "is_empty blank" "entry_ok blank"
  "length (ethaddr blank) = ETHARP_HWADDR_LEN"
  by (simp_all add: blank_def is_empty_def entry_ok_def ethzero_def ETHARP_HWADDR_LEN_def)

lemma set_entry_simps [simp]:
  "arp_heap (set_entry i f s) = arp_heap s" "wire (set_entry i f s) = wire s"
  "etharp_cached_entry (set_entry i f s) = etharp_cached_entry s"
  "arp_table (set_entry i f s) = (arp_table s)[i := f (arp_table s ! i)]"
  by (simp_all add: set_entry_def)

lemma arp_sys_order [simp]:
  "s\<lparr>arp_heap := h, arp_table := t\<rparr> = s\<lparr>arp_table := t, arp_heap := h\<rparr>"
  "s\<lparr>wire := w, arp_table := t\<rparr> = s\<lparr>arp_table := t, wire := w\<rparr>"
  "s\<lparr>wire := w, arp_heap := h\<rparr> = s\<lparr>arp_heap := h, wire := w\<rparr>"
  by simp_all

lemma set_entry_set: "i < length (arp_table s) \<Longrightarrow> set_entry i f (set_entry i g s) = set_entry i (f \<circ> g) s"
  by (simp add: set_entry_def)

lemma entry_in: "arp_ok s ext \<Longrightarrow> i < ARP_TABLE_SIZE \<Longrightarrow> entry s i = Some (arp_table s ! i)"
  by (simp add: entry_def arp_ok_def table_ok_def)

lemma table_length: "arp_ok s ext \<Longrightarrow> length (arp_table s) = ARP_TABLE_SIZE"
  by (simp add: arp_ok_def table_ok_def)

lemma free_entry_ok:
  assumes s: "arp_ok s ext" and i: "i < ARP_TABLE_SIZE"
  shows "\<exists>h'. free_entry i s = Some (s\<lparr>arp_table := (arp_table s)[i := blank], arp_heap := h'\<rparr>)
    \<and> arp_ok (s\<lparr>arp_table := (arp_table s)[i := blank], arp_heap := h'\<rparr>) ext
    \<and> removes (set (waiting (arp_table s ! i))) (arp_heap s) h'"
proof -
  let ?q = "waiting (arp_table s ! i)"
  have l: "i < length (arp_table s)" using table_length [OF s] i by simp
  note q = entry_queue [OF s i blank_simps(1)]
  obtain h' where h: "free_loop ?q (arp_heap s) = Some h'"
    "pbuf_inv h' (\<lambda>a. ext a + waits ((arp_table s)[i := blank]) a)" "removes (set ?q) (arp_heap s) h'"
    using free_loop_ok [OF q(3) q(1)] q(2) by blast
  have "free_entry i s = Some (s\<lparr>arp_table := (arp_table s)[i := blank], arp_heap := h'\<rparr>)"
  proof (cases "?q = []")
    case True
    then have "h' = arp_heap s" using h(1) by simp
    moreover have "(arp_table s ! i)\<lparr>astate := ETHARP_STATE_EMPTY, ctime := 0, ipaddr := 0, ethaddr := ethzero\<rparr> = blank"
      using True by (simp add: blank_def)
    ultimately show ?thesis using True entry_in [OF s i] l by (simp add: free_entry_def set_entry_def)
  next
    case False
    have "(arp_table s ! i)\<lparr>waiting := [], astate := ETHARP_STATE_EMPTY, ctime := 0, ipaddr := 0, ethaddr := ethzero\<rparr> = blank"
      by (simp add: blank_def)
    then show ?thesis using False entry_in [OF s i] l h(1) by (simp add: free_entry_def set_entry_def free_etharp_q_def)
  qed
  then show ?thesis using h arp_ok_cleared [OF s i _ _ _ h(2) removes_kept [OF h(3)]] by auto
qed

subsection \<open>Ageing\<close>

definition limit :: "etharp_entry \<Rightarrow> nat" where
  "limit e = (if astate e = ETHARP_STATE_PENDING then 2 else 240)"

definition aged :: "etharp_entry \<Rightarrow> etharp_entry" where
  "aged e = (if is_empty e then e else if Suc (unat (ctime e)) < limit e then e\<lparr>ctime := ctime e + 1\<rparr> else blank)"

text \<open>The packets that are given up when an entry expires.\<close>

definition lost :: "etharp_entry \<Rightarrow> nat set" where
  "lost e = (if is_empty (aged e) then set (waiting e) else {})"

lemma entry_age: "entry_ok e \<Longrightarrow> \<not> is_empty e \<Longrightarrow> unat (ctime e) < limit e \<and> unat (ctime e + 1) = Suc (unat (ctime e))"
proof -
  assume "entry_ok e" "\<not> is_empty e"
  then have l: "unat (ctime e) < limit e"
    by (cases "astate e") (auto simp: entry_ok_def limit_def is_empty_def word_less_nat_alt ARP_MAXPENDING_def ARP_MAXAGE_def)
  then have "unat (ctime e) < 240" by (auto simp: limit_def split: if_splits)
  then show ?thesis using l by (simp add: unat_word_ariths)
qed

lemma aged_ok: "entry_ok e \<Longrightarrow> entry_ok (aged e)"
  using entry_age [of e]
  by (cases "astate e") (auto simp: aged_def entry_ok_def limit_def is_empty_def word_less_nat_alt ARP_MAXPENDING_def ARP_MAXAGE_def
      blank_def ethzero_def ETHARP_HWADDR_LEN_def)

lemma entry_expired:
  "entry_ok e \<Longrightarrow> \<not> is_empty e \<Longrightarrow>
    (ctime e + 1 \<ge> ARP_MAXAGE \<or> (astate e = ETHARP_STATE_PENDING \<and> ctime e + 1 \<ge> ARP_MAXPENDING))
      \<longleftrightarrow> \<not> Suc (unat (ctime e)) < limit e"
  using entry_age [of e] by (auto simp: limit_def word_le_nat_alt ARP_MAXPENDING_def ARP_MAXAGE_def split: if_splits)

lemma tmr_entry_ok:
  assumes s: "arp_ok s ext" and i: "i < ARP_TABLE_SIZE"
  shows "\<exists>h'. tmr_entry i s = Some (s\<lparr>arp_table := (arp_table s)[i := aged (arp_table s ! i)], arp_heap := h'\<rparr>)
    \<and> arp_ok (s\<lparr>arp_table := (arp_table s)[i := aged (arp_table s ! i)], arp_heap := h'\<rparr>) ext
    \<and> removes (lost (arp_table s ! i)) (arp_heap s) h'"
proof -
  let ?e = "arp_table s ! i"
  have t: "table_ok (arp_table s)" using s by (simp add: arp_ok_def)
  have l: "i < length (arp_table s)" using table_length [OF s] i by simp
  have e: "entry_ok ?e" using t i by (rule table_nth_ok)
  show ?thesis
  proof (cases "is_empty ?e")
    case True
    then have "lost ?e = {}" using e by (auto simp: lost_def entry_ok_def is_empty_def)
    then show ?thesis using True entry_in [OF s i] s
      by (intro exI [of _ "arp_heap s"]) (simp add: tmr_entry_def is_empty_def aged_def)
  next
    case ne: False
    show ?thesis
    proof (cases "Suc (unat (ctime ?e)) < limit ?e")
      case True
      let ?n = "?e\<lparr>ctime := ctime ?e + 1\<rparr>"
      have a: "aged ?e = ?n" using ne True by (simp add: aged_def)
      have "arp_ok (s\<lparr>arp_table := (arp_table s)[i := ?n]\<rparr>) ext"
        using arp_ok_upd [OF s i, of ?n] aged_ok [OF e] a free_ip_own [OF t i ne] by simp
      moreover have "tmr_entry i s = Some (s\<lparr>arp_table := (arp_table s)[i := ?n]\<rparr>)"
        using entry_in [OF s i] ne True entry_expired [OF e ne] by (auto simp: tmr_entry_def is_empty_def set_entry_def Let_def)
      moreover have "lost ?e = {}" using ne by (simp add: lost_def a is_empty_def)
      ultimately show ?thesis unfolding a by (intro exI [of _ "arp_heap s"]) simp
    next
      case False
      have a: "aged ?e = blank" using ne False by (simp add: aged_def)
      let ?s = "s\<lparr>arp_table := (arp_table s)[i := ?e\<lparr>ctime := 0\<rparr>]\<rparr>"
      have "tmr_entry i s = free_entry i (set_entry i (\<lambda>e. e\<lparr>ctime := ctime e + 1\<rparr>) s)"
        using entry_in [OF s i] ne False entry_expired [OF e ne] by (simp add: tmr_entry_def is_empty_def Let_def)
      also have "\<dots> = free_entry i s"
        using l by (simp add: free_entry_def entry_def set_entry_def cong: if_cong)
      finally show ?thesis using free_entry_ok [OF s i] a unfolding lost_def by auto
    qed
  qed
qed


lemma tmr_loop_snoc: "tmr_loop (xs @ [i]) s = do { s \<leftarrow> tmr_loop xs s; tmr_entry i s }"
proof (induction xs arbitrary: s)
  case Nil
  then show ?case by (cases "tmr_entry i s") simp_all
next
  case (Cons x xs)
  then show ?case by (cases "tmr_entry x s") simp_all
qed

lemma tmr_loop_ok:
  "arp_ok s ext \<Longrightarrow> n \<le> ARP_TABLE_SIZE \<Longrightarrow>
    \<exists>h'. tmr_loop [0..<n] s = Some (s\<lparr>arp_table := map aged (take n (arp_table s)) @ drop n (arp_table s), arp_heap := h'\<rparr>)
      \<and> arp_ok (s\<lparr>arp_table := map aged (take n (arp_table s)) @ drop n (arp_table s), arp_heap := h'\<rparr>) ext
      \<and> removes (\<Union>e \<in> set (take n (arp_table s)). lost e) (arp_heap s) h'"
proof (induction n)
  case 0
  then show ?case by (intro exI [of _ "arp_heap s"]) simp
next
  case (Suc n)
  let ?t = "map aged (take n (arp_table s)) @ drop n (arp_table s)"
  obtain h1 where h1: "tmr_loop [0..<n] s = Some (s\<lparr>arp_table := ?t, arp_heap := h1\<rparr>)"
    "arp_ok (s\<lparr>arp_table := ?t, arp_heap := h1\<rparr>) ext" "removes (\<Union>e \<in> set (take n (arp_table s)). lost e) (arp_heap s) h1"
    using Suc by auto
  have l: "n < length (arp_table s)" using table_length [OF Suc.prems(1)] Suc.prems(2) by simp
  have nth: "?t ! n = arp_table s ! n" using l by (simp add: nth_append)
  have upd: "?t[n := aged (arp_table s ! n)] = map aged (take (Suc n) (arp_table s)) @ drop (Suc n) (arp_table s)"
    using l by (simp add: take_Suc_conv_app_nth list_update_append flip: Cons_nth_drop_Suc)
  define s1 where "s1 = s\<lparr>arp_table := ?t, arp_heap := h1\<rparr>"
  have s1: "arp_table s1 = ?t" "arp_heap s1 = h1" "\<And>x y. s1\<lparr>arp_table := x, arp_heap := y\<rparr> = s\<lparr>arp_table := x, arp_heap := y\<rparr>"
    by (simp_all add: s1_def)
  obtain h2 where h2: "tmr_entry n s1
        = Some (s\<lparr>arp_table := map aged (take (Suc n) (arp_table s)) @ drop (Suc n) (arp_table s), arp_heap := h2\<rparr>)"
      "arp_ok (s\<lparr>arp_table := map aged (take (Suc n) (arp_table s)) @ drop (Suc n) (arp_table s), arp_heap := h2\<rparr>) ext"
      "removes (lost (arp_table s ! n)) h1 h2"
    using tmr_entry_ok [OF h1(2) [folded s1_def], of n] Suc.prems(2) unfolding s1 nth upd by auto
  have "removes (\<Union>e \<in> set (take (Suc n) (arp_table s)). lost e) (arp_heap s) h2"
    using removes_trans [OF h1(3) h2(3)] l by (simp add: take_Suc_conv_app_nth Un_commute)
  moreover have "tmr_loop [0..<Suc n] s = tmr_entry n s1"
    using tmr_loop_snoc [of "[0..<n]" n s] h1(1) by (simp add: s1_def)
  ultimately show ?case using h2(1,2) by auto
qed

lemma etharp_tmr_ok:
  assumes "arp_ok s ext"
  shows "\<exists>h'. etharp_tmr s = Some (s\<lparr>arp_table := map aged (arp_table s), arp_heap := h'\<rparr>)
      \<and> arp_ok (s\<lparr>arp_table := map aged (arp_table s), arp_heap := h'\<rparr>) ext \<and> removes (\<Union>e \<in> set (arp_table s). lost e) (arp_heap s) h'"
  using tmr_loop_ok [OF assms, of ARP_TABLE_SIZE] table_length [OF assms] by (simp add: etharp_tmr_def)

subsection \<open>The search gives an entry\<close>

text \<open>The entry for a new address.\<close>

definition new_entry :: "u32 \<Rightarrow> bytes \<Rightarrow> etharp_entry" where
  "new_entry ip mac = \<lparr>waiting = [], ipaddr = ip, ethaddr = mac, astate = ETHARP_STATE_EMPTY, ctime = 0\<rparr>"

definition has_ip :: "etharp_entry list \<Rightarrow> u32 \<Rightarrow> nat \<Rightarrow> bool" where
  "has_ip t ip i \<longleftrightarrow> i < length t \<and> \<not> is_empty (t ! i) \<and> ipaddr (t ! i) = ip"

definition no_entry :: "u8 \<Rightarrow> etharp_entry list \<Rightarrow> bool" where
  "no_entry fl t \<longleftrightarrow> fl AND ETHARP_FLAG_FIND_ONLY \<noteq> 0
     \<or> ((\<forall>e \<in> set t. \<not> is_empty e) \<and> fl AND ETHARP_FLAG_TRY_HARD = 0)"

lemma has_ip_unique: "table_ok t \<Longrightarrow> has_ip t ip i \<Longrightarrow> has_ip t ip j \<Longrightarrow> i = j"
  unfolding has_ip_def table_ok_def one_per_ip_def by metis

lemma find_entry_found:
  assumes s: "arp_ok s ext" and i: "has_ip (arp_table s) ip i"
  shows "find_entry (Some ip) fl s = Some (Inr i, s)"
proof -
  let ?t = "arp_table s"
  note sp = sweep_spec [OF table_length [OF s], of "Some ip"]
  have t: "table_ok ?t" using s by (simp add: arp_ok_def)
  show ?thesis
  proof (cases "sweep_loop (Some ip) 0 ?t sweep0")
    case (Inl j)
    then have "has_ip ?t ip j" using sp table_length [OF s] by (simp add: has_ip_def)
    then have "j = i" using has_ip_unique [OF t _ i] by blast
    then show ?thesis by (simp add: find_entry_def Inl)
  next
    case (Inr w)
    then show ?thesis using sp i nth_mem [of i ?t] by (auto simp: has_ip_def)
  qed
qed

lemma swept_victim:
  assumes w: "swept t w" and l: "length t = ARP_TABLE_SIZE"
  shows "victim t (if sw_empty w < ARP_TABLE_SIZE then sw_empty w else if old_stable w < ARP_TABLE_SIZE then old_stable w
      else if old_pending w < ARP_TABLE_SIZE then old_pending w else old_queue w)" (is "victim t ?k")
    and "sw_empty w < ARP_TABLE_SIZE \<longleftrightarrow> (\<exists>e \<in> set t. is_empty e)"
    and "sw_empty w < ARP_TABLE_SIZE \<or> old_stable w < ARP_TABLE_SIZE \<or> old_pending w < ARP_TABLE_SIZE \<or> old_queue w < ARP_TABLE_SIZE"
proof -
  have f: "first_empty t (sw_empty w)" and o: "oldest is_stable t (old_stable w) (age_stable w)"
    "oldest is_idle t (old_pending w) (age_pending w)" "oldest is_queue t (old_queue w) (age_queue w)"
    using w by (simp_all add: swept_def)
  note n = first_empty_none [OF f l] oldest_none [OF o(1) l] oldest_none [OF o(2) l] oldest_none [OF o(3) l]
  have "t \<noteq> []" using l by (auto simp: ARP_TABLE_SIZE_def)
  then obtain e where e: "e \<in> set t" by (cases t) auto
  have "is_empty e \<or> is_stable e \<or> is_idle e \<or> is_queue e" by (cases "astate e") (auto simp: kind_defs)
  then show ex: "sw_empty w < ARP_TABLE_SIZE \<or> old_stable w < ARP_TABLE_SIZE \<or> old_pending w < ARP_TABLE_SIZE \<or> old_queue w < ARP_TABLE_SIZE"
    using n e by blast
  show "sw_empty w < ARP_TABLE_SIZE \<longleftrightarrow> (\<exists>e \<in> set t. is_empty e)" by (rule n(1))
  show "victim t ?k"
    unfolding victim_def using f o ex l
    by (simp add: n [symmetric] split: if_split) blast
qed


lemma no_match: 
  assumes s: "arp_ok s ext" and n: "\<forall>i. \<not> has_ip (arp_table s) ip i"
  obtains w where "sweep_loop (Some ip) 0 (arp_table s) sweep0 = Inr w" "swept (arp_table s) w"
proof -
  note sp = sweep_spec [OF table_length [OF s], of "Some ip"]
  show thesis
  proof (cases "sweep_loop (Some ip) 0 (arp_table s) sweep0")
    case (Inl j)
    then have "has_ip (arp_table s) ip j" using sp table_length [OF s] by (simp add: has_ip_def)
    then show thesis using n by blast
  qed (use sp in \<open>auto intro: that\<close>)
qed

lemma find_entry_none:
  assumes s: "arp_ok s ext" and n: "\<forall>i. \<not> has_ip (arp_table s) ip i" "no_entry fl (arp_table s)"
  shows "find_entry (Some ip) fl s = Some (Inl ERR_MEM, s)"
proof -
  obtain w where w: "sweep_loop (Some ip) 0 (arp_table s) sweep0 = Inr w" "swept (arp_table s) w" using no_match [OF s n(1)] .
  have f: "first_empty (arp_table s) (sw_empty w)" using w(2) by (simp add: swept_def)
  then have "sw_empty w \<le> ARP_TABLE_SIZE" using table_length [OF s] by (auto simp: first_empty_def split: if_splits)
  then show ?thesis using w(1) n(2) swept_victim(2) [OF w(2) table_length [OF s]]
    by (auto simp: find_entry_def no_entry_def)
qed

lemma recycle_ok:
  assumes s: "arp_ok s ext" and w: "swept (arp_table s) w"
  shows "\<exists>k e h'. victim (arp_table s) k \<and> recycle w s = Some (Inr (k, s\<lparr>arp_table := (arp_table s)[k := e], arp_heap := h'\<rparr>))
    \<and> is_empty e \<and> waiting e = [] \<and> length (ethaddr e) = ETHARP_HWADDR_LEN
    \<and> arp_ok (s\<lparr>arp_table := (arp_table s)[k := e], arp_heap := h'\<rparr>) ext
    \<and> removes (set (waiting (arp_table s ! k))) (arp_heap s) h'"
proof -
  let ?t = "arp_table s"
  have t: "table_ok ?t" using s by (simp add: arp_ok_def)
  define k where "k = (if sw_empty w < ARP_TABLE_SIZE then sw_empty w else if old_stable w < ARP_TABLE_SIZE then old_stable w
      else if old_pending w < ARP_TABLE_SIZE then old_pending w else old_queue w)"
  have v: "victim ?t k" using swept_victim(1) [OF w table_length [OF s]] unfolding k_def .
  then have k: "k < ARP_TABLE_SIZE" and l: "k < length ?t" using table_length [OF s] by (simp_all add: victim_def)
  have f: "first_empty ?t (sw_empty w)" and o: "oldest is_stable ?t (old_stable w) (age_stable w)" using w by (simp_all add: swept_def)
  have eo: "entry_ok (?t ! k)" using table_nth_ok [OF t k] .
  show ?thesis
  proof (cases "sw_empty w < ARP_TABLE_SIZE")
    case True
    then have ks: "k = sw_empty w" by (simp add: k_def)
    then have em: "is_empty (?t ! k)" using f l by (simp add: first_empty_def)
    then have wq: "waiting (?t ! k) = []" "length (ethaddr (?t ! k)) = ETHARP_HWADDR_LEN" using eo by (auto simp: entry_ok_def is_empty_def)
    then show ?thesis using v k True ks em s
      by (intro exI [of _ k] exI [of _ "?t ! k"] exI [of _ "arp_heap s"]) (simp add: recycle_def)
  next
    case False
    have st: "waiting (?t ! k) = []" if "old_stable w < ARP_TABLE_SIZE"
      using that False o l eo table_length [OF s] by (auto simp: k_def oldest_def is_stable_def entry_ok_def split: if_splits)
    have "recycle w s = do { s \<leftarrow> free_entry k s; Some (Inr (k, s)) }"
      using False st l swept_victim(3) [OF w table_length [OF s]] unfolding k_def recycle_def
      by (auto simp: entry_def split: if_splits)
    moreover obtain h' where "free_entry k s = Some (s\<lparr>arp_table := ?t[k := blank], arp_heap := h'\<rparr>)"
      "arp_ok (s\<lparr>arp_table := ?t[k := blank], arp_heap := h'\<rparr>) ext" "removes (set (waiting (?t ! k))) (arp_heap s) h'"
      using free_entry_ok [OF s k] by blast
    ultimately show ?thesis using v by (intro exI [of _ k] exI [of _ blank] exI [of _ h']) simp
  qed
qed

lemma find_entry_new:
  assumes s: "arp_ok s ext" and n: "\<forall>i. \<not> has_ip (arp_table s) ip i" "\<not> no_entry fl (arp_table s)"
  shows "\<exists>i h' mac. victim (arp_table s) i \<and> i < ARP_TABLE_SIZE \<and> length mac = ETHARP_HWADDR_LEN
    \<and> find_entry (Some ip) fl s = Some (Inr i, s\<lparr>arp_table := (arp_table s)[i := new_entry ip mac], arp_heap := h'\<rparr>)
    \<and> arp_ok (s\<lparr>arp_table := (arp_table s)[i := new_entry ip mac], arp_heap := h'\<rparr>) ext
    \<and> removes (set (waiting (arp_table s ! i))) (arp_heap s) h'"
proof -
  let ?t = "arp_table s"
  obtain w where w: "sweep_loop (Some ip) 0 ?t sweep0 = Inr w" "swept ?t w" using no_match [OF s n(1)] .
  obtain k e h' where r: "victim ?t k" "recycle w s = Some (Inr (k, s\<lparr>arp_table := ?t[k := e], arp_heap := h'\<rparr>))"
    "is_empty e" "waiting e = []" "length (ethaddr e) = ETHARP_HWADDR_LEN" "arp_ok (s\<lparr>arp_table := ?t[k := e], arp_heap := h'\<rparr>) ext"
    "removes (set (waiting (?t ! k))) (arp_heap s) h'" using recycle_ok [OF s w(2)] by blast
  have k: "k < ARP_TABLE_SIZE" and l: "k < length ?t" using r(1) table_length [OF s] by (simp_all add: victim_def)
  have go: "\<not> (fl AND ETHARP_FLAG_FIND_ONLY \<noteq> 0 \<or> (sw_empty w = ARP_TABLE_SIZE \<and> fl AND ETHARP_FLAG_TRY_HARD = 0))"
    using n(2) swept_victim(2) [OF w(2) table_length [OF s]] by (auto simp: no_entry_def)
  have e: "e\<lparr>ipaddr := ip, ctime := 0\<rparr> = new_entry ip (ethaddr e)" using r(3,4) by (cases e) (simp add: new_entry_def is_empty_def)
  have "find_entry (Some ip) fl s = Some (Inr k, s\<lparr>arp_table := ?t[k := new_entry ip (ethaddr e)], arp_heap := h'\<rparr>)"
    using r(2,3) l e unfolding find_entry_def w(1) sum.case if_not_P [OF go]
    by (simp add: entry_def is_empty_def set_entry_def)
  moreover have "arp_ok (s\<lparr>arp_table := ?t[k := new_entry ip (ethaddr e)], arp_heap := h'\<rparr>) ext"
    using arp_ok_upd [OF r(6) k, of "new_entry ip (ethaddr e)"] r(4,5) l by (simp add: new_entry_def is_empty_def entry_ok_def)
  ultimately show ?thesis using r k by blast
qed

end
