(* ===== verification/Etharp_Inv.thy ===== *)
theory Etharp_Inv imports Etharp_Table begin

section \<open>Address resolution of lwIP: the operations\<close>

text \<open>
  Each operation of \<open>etharp.c\<close> on a table and a heap that are well-formed: what it returns, which frames it sends
  and that it leaves both well-formed. \<open>hw_ok\<close> is what the module's assertions demand of an interface; the
  references that nobody holds after a packet went out over the cached entry are those of \<open>orphans\<close>.
\<close>

subsection \<open>Sending a queue\<close>

definition ip_frame :: "nif \<Rightarrow> bytes \<Rightarrow> bytes \<Rightarrow> bytes" where
  "ip_frame netif mac m = eth_header mac (nif_hwaddr netif) ETHTYPE_IP @ drop 14 m"

definition sends :: "'w arp_env \<Rightarrow> bytes list \<Rightarrow> 'w \<Rightarrow> 'w" where
  "sends E fs w = fold (\<lambda>f w. snd (linkoutput E [f] w)) fs w"

lemma sends_simps [simp]: "sends E [] w = w" "sends E (f # fs) w = sends E fs (snd (linkoutput E [f] w))"
  by (simp_all add: sends_def)

lemma written_removes: "written p m h h1 \<Longrightarrow> removes {p} h1 h2 \<Longrightarrow> removes {p} h h2"
  by (simp add: written_def removes_def same_shape_def) (metis option.map_disc_iff)

lemma send_queue_ok:
  assumes n: "hw_ok netif" "length mac = ETHARP_HWADDR_LEN"
  shows "i < length (arp_table s) \<Longrightarrow> pbuf_inv (arp_heap s) (\<lambda>a. X a + count_list q a) \<Longrightarrow> distinct q \<Longrightarrow>
      \<forall>p \<in> set q. lone (arp_heap s) p \<Longrightarrow>
    \<exists>h'. send_queue E netif i mac q s = Some ((if q = [] then s else set_entry i (\<lambda>e. e\<lparr>waiting := []\<rparr>) s)
           \<lparr>arp_heap := h', wire := sends E (map (\<lambda>p. ip_frame netif mac (pdata (arp_heap s) p)) q) (wire s)\<rparr>)
      \<and> pbuf_inv h' X \<and> removes (set q) (arp_heap s) h'"
proof (induction q arbitrary: s)
  case Nil
  then show ?case by (intro exI [of _ "arp_heap s"]) simp
next
  case (Cons p q)
  let ?h = "arp_heap s" and ?X = "\<lambda>a. X a + count_list (p # q) a"
  define s1 where "s1 = set_entry i (\<lambda>e. e\<lparr>waiting := q\<rparr>) s"
  have w: "windows_ok ?h" using Cons.prems(2) by (rule inv_windows)
  have lp: "lone ?h p" using Cons.prems(4) by simp
  then have "SIZEOF_ETH_HDR \<le> plen ?h p" by (auto simp: lone_def plen_def)
  then obtain err h1 w1 where h1: "etharp_send_ip E netif (Some p) (nif_hwaddr netif) mac s1 = Some (err, s1\<lparr>arp_heap := h1, wire := w1\<rparr>)"
    "written p (ip_frame netif mac (pdata ?h p)) ?h h1" "(err, w1) = linkoutput E [ip_frame netif mac (pdata ?h p)] (wire s)"
    using etharp_send_ip_ok [of s1 p "[]" netif "nif_hwaddr netif" mac E] w lone_sendable [OF w lp] n
    by (auto simp: s1_def hw_ok_def ip_frame_def ETHARP_HWADDR_LEN_def)
  have "?X(p := ?X p - 1) = (\<lambda>a. X a + count_list q a)" by (auto simp: fun_eq_iff)
  then obtain k h2 where h2: "pbuf_free (Some p) h1 = Some (k, h2)" "pbuf_inv h2 (\<lambda>a. X a + count_list q a)" "removes {p} h1 h2"
    using lone_free [of h1 p ?X] written_inv [OF h1(2) Cons.prems(2)] written_same [OF h1(2)] lp by auto
  have wo: "removes {p} ?h h2" using written_removes [OF h1(2) h2(3)] .
  have same: "lone h2 x \<and> pdata h2 x = pdata ?h x" if "x \<in> set q" for x
  proof -
    have "x \<noteq> p" using that Cons.prems(3) by auto
    then show ?thesis using that wo Cons.prems(4) lone_alloc [of ?h x] removes_same [OF wo, of x] by (auto simp: removes_def)
  qed
  define s2 where "s2 = s1\<lparr>arp_heap := h2, wire := w1\<rparr>"
  have s2: "arp_heap s2 = h2" "wire s2 = w1" "i < length (arp_table s2)" using Cons.prems(1) by (simp_all add: s2_def s1_def)
  obtain h3 where h3: "send_queue E netif i mac q s2 = Some ((if q = [] then s2 else set_entry i (\<lambda>e. e\<lparr>waiting := []\<rparr>) s2)
           \<lparr>arp_heap := h3, wire := sends E (map (\<lambda>p. ip_frame netif mac (pdata h2 p)) q) w1\<rparr>)"
    "pbuf_inv h3 X" "removes (set q) h2 h3"
    using Cons.IH [OF s2(3)] h2(2) Cons.prems(3) same unfolding s2(1,2) by auto
  have m: "map (\<lambda>p. ip_frame netif mac (pdata h2 p)) q = map (\<lambda>p. ip_frame netif mac (pdata ?h p)) q" using same by simp
  have "w1 = snd (linkoutput E [ip_frame netif mac (pdata ?h p)] (wire s))" by (metis h1(3) snd_conv)
  moreover have "send_queue E netif i mac (p # q) s = send_queue E netif i mac q s2"
    using h1(1) h2(1) by (simp add: s1_def s2_def)
  moreover have "(if q = [] then s2 else set_entry i (\<lambda>e. e\<lparr>waiting := []\<rparr>) s2)\<lparr>arp_heap := a, wire := b\<rparr>
      = (set_entry i (\<lambda>e. e\<lparr>waiting := []\<rparr>) s)\<lparr>arp_heap := a, wire := b\<rparr>" for a b
    using Cons.prems(1) by (simp add: s2_def s1_def set_entry_def)
  ultimately show ?case using h3(1) [unfolded m] h3(2) removes_trans [OF wo h3(3)] by (intro exI [of _ h3]) simp
qed

subsection \<open>Updates\<close>

definition stable_entry :: "u32 \<Rightarrow> bytes \<Rightarrow> etharp_entry" where
  "stable_entry ip mac = \<lparr>waiting = [], ipaddr = ip, ethaddr = mac, astate = ETHARP_STATE_STABLE, ctime = 0\<rparr>"

lemma stable_simps [simp]: "waiting (stable_entry ip mac) = []" "ipaddr (stable_entry ip mac) = ip"
  "ethaddr (stable_entry ip mac) = mac" "astate (stable_entry ip mac) = ETHARP_STATE_STABLE" "\<not> is_empty (stable_entry ip mac)"
  "length mac = ETHARP_HWADDR_LEN \<Longrightarrow> entry_ok (stable_entry ip mac)"
  by (simp_all add: stable_entry_def is_empty_def entry_ok_def ARP_MAXAGE_def)

text \<open>The frames of the packets that wait at entry \<open>i\<close>, with the address that has been learned.\<close>

definition waiting_frames :: "nif \<Rightarrow> bytes \<Rightarrow> 'w arp_sys \<Rightarrow> nat \<Rightarrow> bytes list" where
  "waiting_frames netif mac s i = map (\<lambda>p. ip_frame netif mac (pdata (arp_heap s) p)) (waiting (arp_table s ! i))"

lemma make_stable_ok:
  assumes s: "arp_ok s ext" and i: "i < ARP_TABLE_SIZE" "free_ip (arp_table s) i (ipaddr (arp_table s ! i))"
    and n: "hw_ok netif" "length mac = ETHARP_HWADDR_LEN"
  shows "\<exists>h'. make_stable E netif i mac s = Some (s\<lparr>arp_table := (arp_table s)[i := stable_entry (ipaddr (arp_table s ! i)) mac],
           arp_heap := h', wire := sends E (waiting_frames netif mac s i) (wire s)\<rparr>)
      \<and> arp_ok (s\<lparr>arp_table := (arp_table s)[i := stable_entry (ipaddr (arp_table s ! i)) mac],
           arp_heap := h', wire := sends E (waiting_frames netif mac s i) (wire s)\<rparr>) ext
      \<and> removes (set (waiting (arp_table s ! i))) (arp_heap s) h'"
proof -
  let ?e = "arp_table s ! i" and ?n = "stable_entry (ipaddr (arp_table s ! i)) mac"
  let ?q = "waiting ?e"
  have l: "i < length (arp_table s)" using table_length [OF s] i(1) by simp
  note q = entry_queue [OF s i(1) stable_simps(1) [of "ipaddr ?e" mac]]
  define s1 where "s1 = s\<lparr>arp_table := (arp_table s)[i := ?e\<lparr>astate := ETHARP_STATE_STABLE, ethaddr := mac, ctime := 0\<rparr>]\<rparr>"
  have s1: "i < length (arp_table s1)" "arp_heap s1 = arp_heap s" "wire s1 = wire s" using l by (simp_all add: s1_def)
  have m: "make_stable E netif i mac s = send_queue E netif i mac ?q s1"
    using l n(2) by (simp add: make_stable_def set_entry_def s1_def entry_def Let_def)
  obtain h' where h: "send_queue E netif i mac ?q s1 = Some ((if ?q = [] then s1 else set_entry i (\<lambda>e. e\<lparr>waiting := []\<rparr>) s1)
      \<lparr>arp_heap := h', wire := sends E (waiting_frames netif mac s i) (wire s)\<rparr>)"
    "pbuf_inv h' (\<lambda>a. ext a + waits ((arp_table s)[i := ?n]) a)" "removes (set ?q) (arp_heap s) h'"
    using send_queue_ok [OF n s1(1), of "\<lambda>a. ext a + waits ((arp_table s)[i := ?n]) a" ?q E] q
    unfolding s1 waiting_frames_def by blast
  have "(if ?q = [] then s1 else set_entry i (\<lambda>e. e\<lparr>waiting := []\<rparr>) s1) = s\<lparr>arp_table := (arp_table s)[i := ?n]\<rparr>"
  proof (cases "?q = []")
    case True
    then have "?e\<lparr>astate := ETHARP_STATE_STABLE, ethaddr := mac, ctime := 0\<rparr> = ?n" by (cases ?e) (simp add: stable_entry_def)
    then show ?thesis using True by (simp add: s1_def)
  next
    case False
    have "?e\<lparr>astate := ETHARP_STATE_STABLE, ethaddr := mac, ctime := 0, waiting := []\<rparr> = ?n" by (simp add: stable_entry_def)
    then show ?thesis using False l by (simp add: s1_def set_entry_def)
  qed
  moreover have "arp_ok (s\<lparr>arp_table := (arp_table s)[i := ?n], arp_heap := h'\<rparr>) ext"
    using arp_ok_cleared [OF s i(1) _ _ _ h(2) removes_kept [OF h(3)]] i(2) n(2) by simp
  ultimately show ?thesis using m h by (intro exI [of _ h']) (simp add: arp_ok_def)
qed

definition unicast :: "u32 \<Rightarrow> nif \<Rightarrow> bool" where
  "unicast ip netif \<longleftrightarrow> \<not> ip_addr_isany ip \<and> \<not> ip_addr_isbroadcast ip netif \<and> \<not> ip_addr_ismulticast ip"

lemma hw_len: "hw_ok netif \<Longrightarrow> unat (nif_hwaddr_len netif) = ETHARP_HWADDR_LEN"
  by (simp add: hw_ok_def ETHARP_HWADDR_LEN_def)

lemma update_found:
  assumes s: "arp_ok s ext" and i: "has_ip (arp_table s) ip i" and u: "unicast ip netif"
    and n: "hw_ok netif" "length mac = ETHARP_HWADDR_LEN"
  shows "\<exists>h'. update_arp_entry E netif ip mac fl s = Some (ERR_OK, s\<lparr>arp_table := (arp_table s)[i := stable_entry ip mac],
           arp_heap := h', wire := sends E (waiting_frames netif mac s i) (wire s)\<rparr>)
      \<and> arp_ok (s\<lparr>arp_table := (arp_table s)[i := stable_entry ip mac],
           arp_heap := h', wire := sends E (waiting_frames netif mac s i) (wire s)\<rparr>) ext
      \<and> removes (set (waiting (arp_table s ! i))) (arp_heap s) h'"
proof -
  have t: "table_ok (arp_table s)" using s by (simp add: arp_ok_def)
  have e: "i < ARP_TABLE_SIZE" "ipaddr (arp_table s ! i) = ip" "\<not> is_empty (arp_table s ! i)"
    using i table_length [OF s] by (simp_all add: has_ip_def)
  have "free_ip (arp_table s) i ip" using free_ip_own [OF t e(1,3)] e(2) by simp
  then obtain h' where h: "make_stable E netif i mac s = Some (s\<lparr>arp_table := (arp_table s)[i := stable_entry ip mac],
           arp_heap := h', wire := sends E (waiting_frames netif mac s i) (wire s)\<rparr>)"
      "arp_ok (s\<lparr>arp_table := (arp_table s)[i := stable_entry ip mac],
           arp_heap := h', wire := sends E (waiting_frames netif mac s i) (wire s)\<rparr>) ext"
      "removes (set (waiting (arp_table s ! i))) (arp_heap s) h'"
    using make_stable_ok [OF s e(1) _ n, of E] e(2) by auto
  then have "update_arp_entry E netif ip mac fl s = Some (ERR_OK, s\<lparr>arp_table := (arp_table s)[i := stable_entry ip mac],
           arp_heap := h', wire := sends E (waiting_frames netif mac s i) (wire s)\<rparr>)"
    using find_entry_found [OF s i] u hw_len [OF n(1)] by (simp add: update_arp_entry_def unicast_def)
  then show ?thesis using h(2,3) by blast
qed

lemma free_ip_new: "\<forall>j. \<not> has_ip t ip j \<Longrightarrow> free_ip t i ip"
  by (auto simp: has_ip_def free_ip_def)

lemma update_new:
  assumes s: "arp_ok s ext" and i: "\<forall>i. \<not> has_ip (arp_table s) ip i" "\<not> no_entry fl (arp_table s)" and u: "unicast ip netif"
    and n: "hw_ok netif" "length mac = ETHARP_HWADDR_LEN"
  shows "\<exists>i h'. victim (arp_table s) i \<and> i < ARP_TABLE_SIZE
      \<and> update_arp_entry E netif ip mac fl s = Some (ERR_OK, s\<lparr>arp_table := (arp_table s)[i := stable_entry ip mac], arp_heap := h'\<rparr>)
      \<and> arp_ok (s\<lparr>arp_table := (arp_table s)[i := stable_entry ip mac], arp_heap := h'\<rparr>) ext
      \<and> removes (set (waiting (arp_table s ! i))) (arp_heap s) h'"
proof -
  let ?t = "arp_table s"
  obtain k h1 m where k: "victim ?t k" "k < ARP_TABLE_SIZE"
    "find_entry (Some ip) fl s = Some (Inr k, s\<lparr>arp_table := ?t[k := new_entry ip m], arp_heap := h1\<rparr>)"
    "arp_ok (s\<lparr>arp_table := ?t[k := new_entry ip m], arp_heap := h1\<rparr>) ext" "removes (set (waiting (?t ! k))) (arp_heap s) h1"
    using find_entry_new [OF s i] by blast
  define s1 where "s1 = s\<lparr>arp_table := ?t[k := new_entry ip m], arp_heap := h1\<rparr>"
  have l: "k < length ?t" using k(2) table_length [OF s] by simp
  have ne: "waiting (new_entry ip m) = []" "ipaddr (new_entry ip m) = ip" by (simp_all add: new_entry_def)
  have s1: "arp_table s1 ! k = new_entry ip m" "(arp_table s1)[k := e] = ?t[k := e]" "arp_heap s1 = h1" "wire s1 = wire s" for e
    using l by (simp_all add: s1_def)
  have "free_ip (arp_table s1) k ip" using free_ip_new [OF i(1), of k] l by (simp add: s1_def free_ip_def)
  then obtain h2 where h2: "make_stable E netif k mac s1 = Some (s1\<lparr>arp_table := ?t[k := stable_entry ip mac],
           arp_heap := h2, wire := sends E (waiting_frames netif mac s1 k) (wire s)\<rparr>)"
      "arp_ok (s1\<lparr>arp_table := ?t[k := stable_entry ip mac], arp_heap := h2, wire := sends E (waiting_frames netif mac s1 k) (wire s)\<rparr>) ext"
      "removes {} h1 h2"
    using make_stable_ok [OF k(4) [folded s1_def] k(2) _ n, of E] unfolding s1 ne by auto
  have w: "waiting_frames netif mac s1 k = []" unfolding waiting_frames_def s1 ne by simp
  have eq: "s1\<lparr>arp_table := ?t[k := stable_entry ip mac], arp_heap := h2, wire := wire s\<rparr>
      = s\<lparr>arp_table := ?t[k := stable_entry ip mac], arp_heap := h2\<rparr>" by (simp add: s1_def)
  note h2' = h2(1,2) [unfolded w sends_simps(1) eq]
  have "update_arp_entry E netif ip mac fl s = Some (ERR_OK, s\<lparr>arp_table := ?t[k := stable_entry ip mac], arp_heap := h2\<rparr>)"
    using k(3) [folded s1_def] h2'(1) u hw_len [OF n(1)] by (simp add: update_arp_entry_def unicast_def)
  then show ?thesis using k(1,2) h2'(2) removes_trans [OF k(5) h2(3)] by auto
qed

lemma update_rest:
  assumes s: "arp_ok s ext" and n: "hw_ok netif"
    and i: "\<not> unicast ip netif \<or> (\<forall>i. \<not> has_ip (arp_table s) ip i) \<and> no_entry fl (arp_table s)"
  shows "update_arp_entry E netif ip mac fl s = Some (if unicast ip netif then ERR_MEM else ERR_ARG, s)"
proof (cases "unicast ip netif")
  case True
  then have "find_entry (Some ip) fl s = Some (Inl ERR_MEM, s)" using find_entry_none [OF s] i by blast
  then show ?thesis using True hw_len [OF n] by (simp add: update_arp_entry_def unicast_def)
next
  case False
  then show ?thesis using hw_len [OF n] by (auto simp: update_arp_entry_def unicast_def)
qed

lemma update_any:
  assumes s: "arp_ok s ext" and n: "hw_ok netif" "length mac = ETHARP_HWADDR_LEN"
  shows "\<exists>r s'. update_arp_entry E netif ip mac fl s = Some (r, s') \<and> arp_ok s' ext
    \<and> kept (queued (arp_table s)) (arp_heap s) (arp_heap s')"
proof -
  have q: "kept (queued (arp_table s)) (arp_heap s) h'" if "removes (set (waiting (arp_table s ! i))) (arp_heap s) h'" "i < ARP_TABLE_SIZE" for i h'
    using kept_mono [OF removes_kept [OF that(1)]] queued_nth [of i "arp_table s"] that(2) table_length [OF s] by simp
  consider (rest) "\<not> unicast ip netif \<or> (\<forall>i. \<not> has_ip (arp_table s) ip i) \<and> no_entry fl (arp_table s)"
    | (found) i where "unicast ip netif" "has_ip (arp_table s) ip i"
    | (new) "unicast ip netif" "\<forall>i. \<not> has_ip (arp_table s) ip i" "\<not> no_entry fl (arp_table s)" by blast
  then show ?thesis
  proof cases
    case rest
    from update_rest [OF s n(1) this, of E mac] s show ?thesis by (intro exI conjI) (assumption | simp)+
  next
    case (found i)
    then have "i < ARP_TABLE_SIZE" using table_length [OF s] by (simp add: has_ip_def)
    with update_found [OF s found(2,1) n, of E fl] q show ?thesis by fastforce
  next
    case new
    from update_new [OF s new(2,3,1) n, of E] q show ?thesis by fastforce
  qed
qed

subsection \<open>Requests\<close>

lemma arp_ok_wire [simp]: "arp_ok (s\<lparr>wire := w\<rparr>) ext = arp_ok s ext"
  by (simp add: arp_ok_def)

lemma arp_ok_cached: "arp_ok s ext \<Longrightarrow> unat c < ARP_TABLE_SIZE \<Longrightarrow> arp_ok (s\<lparr>etharp_cached_entry := c\<rparr>) ext"
  by (simp add: arp_ok_def)

lemma arp_ok_heap:
  "arp_ok s ext \<Longrightarrow> pbuf_inv h' (\<lambda>a. ext' a + waits (arp_table s) a) \<Longrightarrow> kept A (arp_heap s) h' \<Longrightarrow>
    A \<inter> queued (arp_table s) = {} \<Longrightarrow> arp_ok (s\<lparr>arp_heap := h'\<rparr>) ext'"
  by (rule arp_okI [where B = "{}" and A = A]) (auto simp: arp_ok_def)

lemma arp_inv: "arp_ok s ext \<Longrightarrow> pbuf_inv (arp_heap s) (\<lambda>a. ext a + waits (arp_table s) a)"
  by (simp add: arp_ok_def)

lemma held_not_queued: "arp_ok s ext \<Longrightarrow> 0 < ext p \<Longrightarrow> p \<notin> queued (arp_table s)"
  using queued_once(1) [OF arp_inv] by (fastforce simp: arp_ok_def)

lemma unalloc_not_queued: "arp_ok s ext \<Longrightarrow> pbufs (arp_heap s) p = None \<Longrightarrow> p \<notin> queued (arp_table s)"
  using lone_alloc [of "arp_heap s" p] by (auto simp: arp_ok_def)

text \<open>An ARP packet.\<close>

definition arp_packet :: "bytes \<Rightarrow> bytes \<Rightarrow> u16 \<Rightarrow> bytes \<Rightarrow> u32 \<Rightarrow> bytes \<Rightarrow> u32 \<Rightarrow> bytes" where
  "arp_packet dst src op sha spa tha tpa = eth_header dst src ETHTYPE_ARP @ arp_hdr op sha spa tha tpa"

lemma length_eth_header [simp]:
  "length dst = 6 \<Longrightarrow> length src = 6 \<Longrightarrow> length (eth_header dst src t) = 14"
  by (simp add: eth_header_def ETHARP_HWADDR_LEN_def)

lemma length_arp_hdr [simp]: "length sha = 6 \<Longrightarrow> length tha = 6 \<Longrightarrow> length (arp_hdr op sha spa tha tpa) = 28"
  by (simp add: arp_hdr_def)

lemma splice_packet:
  "length m = length a + length b \<Longrightarrow> splice 0 a (splice (length a) b m) = a @ b"
  by (simp add: splice_def)

lemma etharp_raw_ok:
  assumes s: "arp_ok s ext" and M: "malloc_ok (memory E)" and n: "hw_ok netif"
    and l: "length src = 6" "length dst = 6" "length sha = 6" "length tha = 6"
  shows "etharp_raw E netif src dst sha spa tha tpa op s = Some (ERR_MEM, s)
    \<or> (\<exists>err w h'. etharp_raw E netif src dst sha spa tha tpa op s = Some (err, s\<lparr>arp_heap := h', wire := w\<rparr>)
         \<and> (err, w) = linkoutput E [arp_packet dst src op sha spa tha tpa] (wire s)
         \<and> arp_ok (s\<lparr>arp_heap := h', wire := w\<rparr>) ext \<and> kept {} (arp_heap s) h')"
proof -
  let ?h = "arp_heap s" and ?X = "\<lambda>a. ext a + waits (arp_table s) a" and ?n = "word_of_nat SIZEOF_ETHARP_PACKET :: u16"
  have n42: "unat ?n = 42" by (simp add: SIZEOF_ETHARP_PACKET_def SIZEOF_ETH_HDR_def)
  from arp_alloc [OF M arp_inv [OF s], of ?n] consider "pbuf_alloc (memory E) PBUF_RAW ?n PBUF_RAM ?h = Some (None, ?h)"
    | p h1 where "pbuf_alloc (memory E) PBUF_RAW ?n PBUF_RAM ?h = Some (Some p, h1)" "pbufs ?h p = None" "?X p = 0"
      "pbuf_inv h1 (?X(p := 1))" "kept {p} ?h h1" "lone h1 p" "path h1 (Some p) [p]" "owned h1 p" "has_data h1 p" "plen h1 p = 42"
    unfolding n42 by (auto simp: SIZEOF_ETH_HDR_def)
  then show ?thesis
  proof cases
    case 1
    then show ?thesis by (simp add: etharp_raw_def)
  next
    case (2 p h1)
    have w: "windows_ok h1" using 2(4) by (rule inv_windows)
    obtain b where b: "pbufs h1 p = Some b" "unat (len b) = 42" using 2(6,10) by (auto simp: lone_def plen_def)
    have m: "length (pdata h1 p) = 42" using length_pdata [OF w 2(9)] 2(10) by simp
    let ?a = "arp_hdr op sha spa tha tpa" and ?e = "eth_header dst src ETHTYPE_ARP"
    obtain h2 where h2: "poke h1 b 14 ?a = Some h2" "written p (splice 14 ?a (pdata h1 p)) h1 h2"
      using written_poke [OF written_refl w 2(8) b(1), of 14 ?a] m l by auto
    obtain h3 where h3: "poke h2 b 0 ?e = Some h3" "written p (arp_packet dst src op sha spa tha tpa) h1 h3"
      using written_poke [OF h2(2) w 2(8) b(1), of 0 ?e] m l splice_packet [of "pdata h1 p" ?e ?a]
      by (auto simp: length_splice arp_packet_def)
    obtain err w3 where w3: "link_output E p (s\<lparr>arp_heap := h3\<rparr>) = Some (err, s\<lparr>arp_heap := h3, wire := w3\<rparr>)"
      "(err, w3) = linkoutput E [arp_packet dst src op sha spa tha tpa] (wire s)"
      using link_output_ok [OF h3(2) w, of "[]" E s] 2(7,8,9) by (auto simp: sendable_def)
    have i3: "pbuf_inv h3 (?X(p := 1))" "lone h3 p" using written_inv [OF h3(2) 2(4)] written_same [OF h3(2)] 2(6) by simp_all
    have "(?X(p := 1))(p := (?X(p := 1)) p - 1) = ?X" using 2(3) by auto
    then obtain k h4 where h4: "pbuf_free (Some p) h3 = Some (k, h4)" "pbuf_inv h4 ?X" "removes {p} h3 h4"
      using lone_free [OF i3(2,1)] by auto
    have "kept {p} ?h h4" using kept_trans [OF kept_trans [OF 2(5) written_kept [OF h3(2)]] removes_kept [OF h4(3)]] by simp
    then have kp: "kept {} ?h h4" by (rule kept_drop) (use 2(2) h4(3) lone_alloc [OF i3(2)] in \<open>auto simp: removes_def\<close>)
    have "etharp_raw E netif src dst sha spa tha tpa op s = Some (err, s\<lparr>arp_heap := h4, wire := w3\<rparr>)"
      using 2(1) b h2(1) h3(1) w3(1) h4(1) hw_len [OF n] by (simp add: etharp_raw_def SIZEOF_ETHARP_PACKET_def SIZEOF_ETH_HDR_def)
    moreover have "arp_ok (s\<lparr>arp_heap := h4, wire := w3\<rparr>) ext" using arp_ok_heap [OF s h4(2) kp] by simp
    ultimately show ?thesis using w3(2) kp by blast
  qed
qed

lemma etharp_request_ok:
  assumes s: "arp_ok s ext" and M: "malloc_ok (memory E)" and n: "hw_ok netif"
  shows "etharp_request E netif ip s = Some (ERR_MEM, s)
    \<or> (\<exists>err w h'. etharp_request E netif ip s = Some (err, s\<lparr>arp_heap := h', wire := w\<rparr>)
         \<and> (err, w) = linkoutput E [arp_packet ethbroadcast (nif_hwaddr netif) ARP_REQUEST (nif_hwaddr netif) (nif_ip netif) ethzero ip] (wire s)
         \<and> arp_ok (s\<lparr>arp_heap := h', wire := w\<rparr>) ext \<and> kept {} (arp_heap s) h')"
  unfolding etharp_request_def using n by (intro etharp_raw_ok [OF s M n]) (simp_all add: hw_ok_def ethbroadcast_def ethzero_def)

subsection \<open>Taking over a packet\<close>

text \<open>A packet that can be sent: no empty pbuf at the end of a chain, and room for the header.\<close>

definition outgoing :: "heap \<Rightarrow> nat \<Rightarrow> nat list \<Rightarrow> bool" where
  "outgoing h q qs \<longleftrightarrow> sendable h q qs \<and> dense h qs \<and> SIZEOF_ETH_HDR \<le> plen h q"

lemma kept_sizes: "kept A h h' \<Longrightarrow> x \<notin> A \<Longrightarrow> link h' x = link h x \<and> plen h' x = plen h x \<and> ptot h' x = ptot h x"
  by (simp add: kept_def link_def plen_def ptot_def)

lemma kept_outgoing: "kept A h h' \<Longrightarrow> set qs \<inter> A = {} \<Longrightarrow> outgoing h q qs \<Longrightarrow> outgoing h' q qs"
proof -
  assume k: "kept A h h'" and d: "set qs \<inter> A = {}" and o: "outgoing h q qs"
  have p: "\<forall>x \<in> set qs. plen h' x = plen h x" using kept_sizes [OF k] d by blast
  have "q \<in> set qs" using o sendable_first by (fastforce simp: outgoing_def)
  moreover from this have "last qs \<in> set qs" by (intro last_in_set) auto
  ultimately show ?thesis using o p kept_sendable [OF k d] unfolding outgoing_def dense_def by auto
qed

lemma outgoing_packet: "pbuf_inv h X \<Longrightarrow> outgoing h q qs \<Longrightarrow> packet h qs \<and> path h (Some q) qs \<and> length (cdata h qs) = ptot h q"
proof -
  assume i: "pbuf_inv h X" and o: "outgoing h q qs"
  then have p: "path h (Some q) qs" "\<forall>x \<in> set qs. has_data h x" by (simp_all add: outgoing_def sendable_def)
  then have k: "packet h qs" using tot_packet [of h "Some q" qs] i by (simp add: pbuf_inv_def)
  obtain as where "qs = q # as" using path_first [OF p(1)] by blast
  then show ?thesis using k p sum_plen [OF inv_windows [OF i] p(2)] by simp
qed

lemma path_apart: "path h (Some q) qs \<Longrightarrow> pbufs h p = None \<Longrightarrow> p \<notin> set qs"
  using path_alloc by fastforce

lemma copy_packet_ok:
  assumes i: "pbuf_inv h X" and M: "malloc_ok (memory E)" and q: "outgoing h q qs" and n: "ptot h q = unat n"
  shows "copy_packet E n q h = Some (None, h) \<and> pbuf_alloc (memory E) PBUF_RAW n PBUF_RAM h = Some (None, h)
    \<or> (\<exists>p h'. copy_packet E n q h = Some (Some p, h') \<and> pbufs h p = None \<and> X p = 0 \<and> pbuf_inv h' (X(p := 1))
         \<and> kept {p} h h' \<and> lone h' p \<and> pdata h' p = cdata h qs)"
proof -
  note o = outgoing_packet [OF i q]
  have n14: "SIZEOF_ETH_HDR \<le> unat n"
  proof -
    obtain as where "qs = q # as" using o path_first by blast
    then show ?thesis using o n q by (auto simp: outgoing_def)
  qed
  from arp_alloc [OF M i, of n] consider "pbuf_alloc (memory E) PBUF_RAW n PBUF_RAM h = Some (None, h)"
    | p h1 where "pbuf_alloc (memory E) PBUF_RAW n PBUF_RAM h = Some (Some p, h1)" "pbufs h p = None" "X p = 0"
      "pbuf_inv h1 (X(p := 1))" "kept {p} h h1" "lone h1 p" "path h1 (Some p) [p]" "owned h1 p" "has_data h1 p"
      "plen h1 p = unat n" "ptot h1 p = unat n" using n14 by auto
  then show ?thesis
  proof cases
    case 1
    then show ?thesis by (simp add: copy_packet_def)
  next
    case (2 p h1)
    have pq: "p \<notin> set qs" using path_apart o 2(2) by blast
    have q1: "outgoing h1 q qs" using kept_outgoing [OF 2(5) _ q] pq by simp
    note o1 = outgoing_packet [OF 2(4) q1]
    have "\<forall>x \<in> set qs. pdata h1 x = pdata h x"
      using 2(5) path_alloc [of h "Some q" qs] o pq by (fastforce simp: kept_def)
    then have c1: "cdata h1 qs = cdata h qs" by (intro cdata_cong) simp
    have "q \<in> set qs" using q sendable_first by (fastforce simp: outgoing_def)
    then have pt: "ptot h1 q = unat n" using kept_sizes [OF 2(5), of q] pq n by auto
    have w: "windows_ok h1" using 2(4) by (rule inv_windows)
    have d: "packet h1 [p]" "dense h1 [p]" "set [p] \<inter> set qs = {}" "\<forall>x \<in> set [p]. owned h1 x" "\<forall>x \<in> set qs. has_data h1 x" "dense h1 qs"
      using 2 pq q1 by (simp_all add: dense_def outgoing_def sendable_def)
    obtain h2 where h2: "pbuf_copy (Some p) (Some q) h1 = Some (ERR_OK, h2)" "same_shape h1 h2"
      "cdata h2 [p] = cdata h1 qs @ drop (length (cdata h1 qs)) (cdata h1 [p])" "\<forall>x. x \<notin> set [p] \<longrightarrow> pdata h2 x = pdata h1 x"
      using pbuf_copy_ok [OF w 2(7) d(1,2,4) conjunct1 [OF conjunct2 [OF o1]] conjunct1 [OF o1] d(6,5,3)] pt 2(11) by auto
    have "length (pdata h1 p) = unat n" using length_pdata [OF w 2(9)] 2(10) by simp
    then have dt: "pdata h2 p = cdata h qs" using h2(3) o1 pt c1 by simp
    have wr: "written p (cdata h qs) h1 h2" using h2(2,4) dt by (simp add: written_def)
    have "kept {p} h h2" using kept_trans [OF 2(5) written_kept [OF wr]] by simp
    moreover have "lone h2 p" "pbuf_inv h2 (X(p := 1))" using written_same [OF wr] written_inv [OF wr 2(4)] 2(6) by simp_all
    moreover have "copy_packet E n q h = Some (Some p, h2)" using 2(1) h2(1) by (simp add: copy_packet_def)
    ultimately show ?thesis using 2(2,3) dt by blast
  qed
qed

lemma copy_needed_first:
  assumes i: "pbuf_inv h X" and q: "outgoing h q qs"
  shows "copy_needed h (Some q) = Some (Some q)"
proof -
  note o = outgoing_packet [OF i q]
  obtain b where b: "pbufs h q = Some b" using o path_first by blast
  have "not_queue (Some q) h = Some True" using not_queue_ok [of h "Some q" qs] o q by (simp add: outgoing_def)
  then have "len b \<noteq> tot_len b \<or> nxt b = None" using b by (auto simp: not_queue_def)
  moreover have "ptype b \<noteq> PBUF_ROM" using q b by (auto simp: outgoing_def sendable_def owned_def)
  ultimately show ?thesis using b by (subst copy_needed.simps) simp
qed

lemma take_over_ok:
  assumes i: "pbuf_inv h X" and M: "malloc_ok (memory E)" and q: "outgoing h q qs"
  shows "take_over E q h = Some (None, h)
    \<or> (\<exists>p h'. take_over E q h = Some (Some p, h') \<and> pbufs h p = None \<and> X p = 0 \<and> pbuf_inv h' (X(p := 1))
         \<and> kept {p} h h' \<and> lone h' p \<and> pdata h' p = cdata h qs)"
proof -
  obtain b where b: "pbufs h q = Some b" using outgoing_packet [OF i q] path_first by blast
  then have "take_over E q h = copy_packet E (tot_len b) q h" using copy_needed_first [OF i q] by (simp add: take_over_def)
  then show ?thesis using copy_packet_ok [OF i M q, of "tot_len b"] b by (auto simp: ptot_def)
qed

lemma queue_packet_ok:
  assumes s: "arp_ok s ext" and M: "malloc_ok (memory E)" and q: "outgoing (arp_heap s) q qs"
    and i: "i < ARP_TABLE_SIZE" "astate (arp_table s ! i) = ETHARP_STATE_PENDING"
  shows "(\<exists>h'. queue_packet E i q r s = Some (r, s\<lparr>arp_heap := h'\<rparr>) \<and> arp_ok (s\<lparr>arp_heap := h'\<rparr>) ext \<and> kept {} (arp_heap s) h')
    \<or> (\<exists>p h'. queue_packet E i q r s = Some (ERR_OK, s\<lparr>arp_table := (arp_table s)[i := (arp_table s ! i)\<lparr>waiting := waiting (arp_table s ! i) @ [p]\<rparr>],
              arp_heap := h'\<rparr>)
         \<and> arp_ok (s\<lparr>arp_table := (arp_table s)[i := (arp_table s ! i)\<lparr>waiting := waiting (arp_table s ! i) @ [p]\<rparr>], arp_heap := h'\<rparr>) ext
         \<and> pbufs (arp_heap s) p = None \<and> kept {p} (arp_heap s) h' \<and> pdata h' p = cdata (arp_heap s) qs)"
proof -
  let ?t = "arp_table s" and ?h = "arp_heap s"
  let ?X = "\<lambda>a. ext a + waits ?t a"
  have l: "i < length ?t" using i(1) table_length [OF s] by simp
  have t: "table_ok ?t" using s by (simp add: arp_ok_def)
  from take_over_ok [OF arp_inv [OF s] M q] consider "take_over E q ?h = Some (None, ?h)"
    | p h1 where "take_over E q ?h = Some (Some p, h1)" "pbufs ?h p = None" "?X p = 0" "pbuf_inv h1 (?X(p := 1))"
      "kept {p} ?h h1" "lone h1 p" "pdata h1 p = cdata ?h qs" by auto
  then show ?thesis
  proof cases
    case 1
    then show ?thesis using s by (intro disjI1 exI [of _ ?h]) (simp add: queue_packet_def)
  next
    case (2 p h1)
    have nq: "p \<notin> queued ?t" using unalloc_not_queued [OF s 2(2)] .
    show ?thesis
    proof (cases "queue_ok E")
      case True
      let ?e = "(?t ! i)\<lparr>waiting := waiting (?t ! i) @ [p]\<rparr>"
      have w: "waits (?t[i := ?e]) a = waits ?t a + (if a = p then 1 else 0)" for a
        using waits_update [OF l, of ?e a] by simp
      then have X: "(\<lambda>a. ext a + waits (?t[i := ?e]) a) = ?X(p := 1)" using 2(3) by (auto simp: fun_eq_iff)
      have "entry_ok ?e" using table_nth_ok [OF t i(1)] i(2) by (simp add: entry_ok_def)
      then have "table_ok (?t[i := ?e])" using table_ok_upd [OF t i(1), of ?e] free_ip_own [OF t i(1)] i(2) by (simp add: is_empty_def)
      then have "arp_ok (s\<lparr>arp_table := ?t[i := ?e], arp_heap := h1\<rparr>) ext"
        using s 2(4,5,6) nq queued_update [OF l, of ?e] queued_nth [OF l] X
        by (intro arp_okI [OF s, where A = "{p}" and B = "{p}"]) (auto simp: arp_ok_def)
      moreover have "queue_packet E i q r s = Some (ERR_OK, s\<lparr>arp_table := ?t[i := ?e], arp_heap := h1\<rparr>)"
        using 2(1) True by (simp add: queue_packet_def set_entry_def)
      ultimately show ?thesis using 2(2,5,7) by blast
    next
      case False
      have "(?X(p := 1))(p := (?X(p := 1)) p - 1) = ?X" using 2(3) by auto
      then obtain k h2 where h2: "pbuf_free (Some p) h1 = Some (k, h2)" "pbuf_inv h2 ?X" "removes {p} h1 h2"
        using lone_free [OF 2(6,4)] by auto
      have "kept {p} ?h h2" using kept_trans [OF 2(5) removes_kept [OF h2(3)]] by simp
      then have kp: "kept {} ?h h2" by (rule kept_drop) (use 2(2) h2(3) lone_alloc [OF 2(6)] in \<open>auto simp: removes_def\<close>)
      moreover have "queue_packet E i q r s = Some (r, s\<lparr>arp_heap := h2\<rparr>)"
        using 2(1) False h2(1) by (simp add: queue_packet_def)
      ultimately show ?thesis using arp_ok_heap [OF s h2(2) kp] by blast
    qed
  qed
qed

subsection \<open>Queries\<close>

lemma path_pred: "path h p (q # as) \<Longrightarrow> x \<in> set as \<Longrightarrow> \<exists>y. link h y = Some (Some x)"
proof (induction as arbitrary: p q)
  case (Cons a as)
  then show ?case by (cases "x = a") auto
qed simp

lemma held_apart:
  assumes s: "arp_ok s ext" and e: "0 < ext q" and p: "path (arp_heap s) (Some q) qs"
  shows "set qs \<inter> queued (arp_table s) = {}"
proof -
  have "x \<notin> queued (arp_table s)" if x: "x \<in> set qs" for x
  proof
    assume qx: "x \<in> queued (arp_table s)"
    then have o: "ext x = 0" "indeg (arp_heap s) x = 0"
      using queued_once [OF arp_inv [OF s]] s by (auto simp: arp_ok_def)
    then have "x \<noteq> q" using e by auto
    moreover obtain as where as: "qs = q # as" using path_first [OF p] by blast
    ultimately obtain y where "link (arp_heap s) y = Some (Some x)" using path_pred p x by fastforce
    then have y: "y \<in> preds (arp_heap s) x" by (simp add: preds_def)
    have "finite (dom (pbufs (arp_heap s)))" using arp_inv [OF s] by (simp add: pbuf_inv_def heap_ok_def refs_ok_def)
    then have "finite (preds (arp_heap s) x)" by (rule finite_subset [rotated]) (auto simp: preds_def link_def)
    then show False using y o(2) by (auto simp: indeg_def)
  qed
  then show ?thesis by blast
qed

lemma try_hard: "\<not> no_entry ETHARP_FLAG_TRY_HARD t"
  by (simp add: no_entry_def ETHARP_FLAG_TRY_HARD_def ETHARP_FLAG_FIND_ONLY_def)

text \<open>The entry that a query works on, fresh ones marked as pending.\<close>

definition pending_entry :: "u32 \<Rightarrow> bytes \<Rightarrow> etharp_entry" where
  "pending_entry ip mac = \<lparr>waiting = [], ipaddr = ip, ethaddr = mac, astate = ETHARP_STATE_PENDING, ctime = 0\<rparr>"

lemma pending_simps [simp]: "waiting (pending_entry ip mac) = []" "ipaddr (pending_entry ip mac) = ip"
  "astate (pending_entry ip mac) = ETHARP_STATE_PENDING" "\<not> is_empty (pending_entry ip mac)"
  "length mac = ETHARP_HWADDR_LEN \<Longrightarrow> entry_ok (pending_entry ip mac)"
  by (simp_all add: pending_entry_def is_empty_def entry_ok_def ARP_MAXPENDING_def)

definition query_state :: "u32 \<Rightarrow> 'w arp_sys \<Rightarrow> nat \<Rightarrow> 'w arp_sys \<Rightarrow> bool" where
  "query_state ip s i s1 \<longleftrightarrow> has_ip (arp_table s1) ip i \<and> wire s1 = wire s \<and> etharp_cached_entry s1 = etharp_cached_entry s
     \<and> (if \<exists>j. has_ip (arp_table s) ip j then s1 = s
        else (\<exists>mac h'. victim (arp_table s) i \<and> length mac = ETHARP_HWADDR_LEN
           \<and> s1 = s\<lparr>arp_table := (arp_table s)[i := pending_entry ip mac], arp_heap := h'\<rparr>
           \<and> removes (set (waiting (arp_table s ! i))) (arp_heap s) h'))"

lemma query_entry:
  assumes s: "arp_ok s ext" and u: "unicast ip netif"
  shows "\<exists>i s1. etharp_query E netif ip q s = query_at E netif ip q i s1
      \<and> arp_ok s1 ext \<and> query_state ip s i s1"
proof (cases "\<exists>i. has_ip (arp_table s) ip i")
  case True
  then obtain i where i: "has_ip (arp_table s) ip i" by blast
  then have "entry s i = Some (arp_table s ! i)" "astate (arp_table s ! i) \<noteq> ETHARP_STATE_EMPTY" by (simp_all add: has_ip_def entry_def is_empty_def)
  then show ?thesis using u find_entry_found [OF s i] s i True
    by (intro exI [of _ i] exI [of _ s]) (simp add: etharp_query_def unicast_def query_state_def)
next
  case False
  let ?t = "arp_table s"
  obtain i h' mac where f: "victim ?t i" "i < ARP_TABLE_SIZE" "length mac = ETHARP_HWADDR_LEN"
    "find_entry (Some ip) ETHARP_FLAG_TRY_HARD s = Some (Inr i, s\<lparr>arp_table := ?t[i := new_entry ip mac], arp_heap := h'\<rparr>)"
    "arp_ok (s\<lparr>arp_table := ?t[i := new_entry ip mac], arp_heap := h'\<rparr>) ext" "removes (set (waiting (?t ! i))) (arp_heap s) h'"
    using find_entry_new [OF s _ try_hard] False by blast
  have l: "i < length ?t" using f(2) table_length [OF s] by simp
  let ?s1 = "s\<lparr>arp_table := ?t[i := pending_entry ip mac], arp_heap := h'\<rparr>"
  have "(new_entry ip mac)\<lparr>astate := ETHARP_STATE_PENDING\<rparr> = pending_entry ip mac"
    "astate (new_entry ip mac) = ETHARP_STATE_EMPTY" by (simp_all add: new_entry_def pending_entry_def)
  moreover have "arp_ok ?s1 ext"
    using arp_ok_upd [OF f(5,2), of "pending_entry ip mac"] f(3) l free_ip_new [of ?t ip i] False
    by (simp add: new_entry_def free_ip_def)
  ultimately show ?thesis using u f l False
    by (intro exI [of _ i] exI [of _ ?s1])
      (simp add: etharp_query_def unicast_def query_state_def has_ip_def set_entry_def entry_def, blast?)
qed

text \<open>What a request leaves: the table, and every pbuf.\<close>

definition requested :: "'w arp_env \<Rightarrow> nif \<Rightarrow> u32 \<Rightarrow> 'w arp_sys \<Rightarrow> err_t \<Rightarrow> 'w arp_sys \<Rightarrow> bool" where
  "requested E netif ip s r s' \<longleftrightarrow> etharp_request E netif ip s = Some (r, s')
     \<and> (\<exists>h w. s' = s\<lparr>arp_heap := h, wire := w\<rparr> \<and> kept {} (arp_heap s) h
          \<and> ((r, w) = (ERR_MEM, wire s) \<and> h = arp_heap s
             \<or> (r, w) = linkoutput E [arp_packet ethbroadcast (nif_hwaddr netif) ARP_REQUEST (nif_hwaddr netif) (nif_ip netif) ethzero ip] (wire s)))"

lemma request_ok:
  assumes "arp_ok s ext" "malloc_ok (memory E)" "hw_ok netif"
  shows "\<exists>r s'. requested E netif ip s r s' \<and> arp_ok s' ext"
proof -
  have "s = s\<lparr>arp_heap := arp_heap s, wire := wire s\<rparr>" by simp
  then show ?thesis using etharp_request_ok [OF assms, of ip] assms(1) unfolding requested_def by (metis kept_refl)
qed

lemma requested_same: "requested E netif ip s r s' \<Longrightarrow>
    arp_table s' = arp_table s \<and> etharp_cached_entry s' = etharp_cached_entry s \<and> kept {} (arp_heap s) (arp_heap s')"
  by (auto simp: requested_def)

lemma kept_cdata: "kept {} h h' \<Longrightarrow> path h q qs \<Longrightarrow> cdata h' qs = cdata h qs"
  using kept_data [of "{}" h h' qs q] by (auto intro!: cdata_cong)

lemma query_at_pending:
  assumes s: "arp_ok s ext" and M: "malloc_ok (memory E)" and n: "hw_ok netif"
    and i: "i < ARP_TABLE_SIZE" "astate (arp_table s ! i) = ETHARP_STATE_PENDING" and q: "outgoing (arp_heap s) q qs"
  shows "\<exists>r s0. requested E netif ip s r s0 \<and>
    ((\<exists>h'. query_at E netif ip (Some q) i s = Some (r, s0\<lparr>arp_heap := h'\<rparr>) \<and> arp_ok (s0\<lparr>arp_heap := h'\<rparr>) ext \<and> kept {} (arp_heap s) h')
     \<or> (\<exists>p h'. query_at E netif ip (Some q) i s = Some (ERR_OK, s0\<lparr>arp_table := (arp_table s)[i := (arp_table s ! i)
                \<lparr>waiting := waiting (arp_table s ! i) @ [p]\<rparr>], arp_heap := h'\<rparr>)
         \<and> arp_ok (s0\<lparr>arp_table := (arp_table s)[i := (arp_table s ! i)\<lparr>waiting := waiting (arp_table s ! i) @ [p]\<rparr>], arp_heap := h'\<rparr>) ext
         \<and> pbufs (arp_heap s) p = None \<and> kept {p} (arp_heap s) h' \<and> pdata h' p = cdata (arp_heap s) qs))"
proof -
  obtain r s0 where r: "requested E netif ip s r s0" "arp_ok s0 ext" using request_ok [OF s M n] by blast
  note same = requested_same [OF r(1)]
  have q0: "outgoing (arp_heap s0) q qs" using kept_outgoing [OF _ _ q] same by blast
  have c: "cdata (arp_heap s0) qs = cdata (arp_heap s) qs"
    using kept_cdata [of "arp_heap s" "arp_heap s0" "Some q" qs] outgoing_packet [OF arp_inv [OF s] q] same by blast
  have e: "query_at E netif ip (Some q) i s = queue_packet E i q r s0"
    using r(1) i entry_in [OF s i(1)] by (simp add: query_at_def requested_def)
  have k: "kept A (arp_heap s) h'" if "kept A (arp_heap s0) h'" for A h' using kept_trans [OF _ that, of "{}" "arp_heap s"] same by simp
  have f: "pbufs (arp_heap s0) = pbufs (arp_heap s)" using same by (auto simp: kept_def)
  have st: "arp_table s0 = arp_table s" using same by simp
  show ?thesis using queue_packet_ok [OF r(2) M q0 i(1), of r, unfolded st c f e [symmetric]] i(2) k r(1) by blast
qed

lemma query_at_stable:
  assumes s: "arp_ok s ext" and n: "hw_ok netif"
    and i: "i < ARP_TABLE_SIZE" "astate (arp_table s ! i) = ETHARP_STATE_STABLE"
    and q: "outgoing (arp_heap s) q (q # qs)" "0 < ext q"
  shows "\<exists>err h' w. query_at E netif ip (Some q) i s
      = Some (err, s\<lparr>etharp_cached_entry := word_of_nat i, arp_heap := h', wire := w\<rparr>)
    \<and> arp_ok (s\<lparr>etharp_cached_entry := word_of_nat i, arp_heap := h', wire := w\<rparr>) ext
    \<and> (err, w) = linkoutput E (ip_frame netif (ethaddr (arp_table s ! i)) (pdata (arp_heap s) q) # map (pdata (arp_heap s)) qs) (wire s)
    \<and> kept {q} (arp_heap s) h'"
proof -
  let ?s = "s\<lparr>etharp_cached_entry := word_of_nat i\<rparr>"
  have c: "unat (word_of_nat i :: u8) = i" using i(1) by (simp add: unat_of_nat ARP_TABLE_SIZE_def)
  have s': "arp_ok ?s ext" using arp_ok_cached [OF s] i(1) c by simp
  have m: "length (ethaddr (arp_table s ! i)) = 6"
    using table_nth_ok [of "arp_table s" i] s i(1) by (simp add: arp_ok_def entry_ok_def ETHARP_HWADDR_LEN_def)
  obtain err h' w where h: "etharp_send_ip E netif (Some q) (nif_hwaddr netif) (ethaddr (arp_table s ! i)) ?s = Some (err, ?s\<lparr>arp_heap := h', wire := w\<rparr>)"
    "written q (ip_frame netif (ethaddr (arp_table s ! i)) (pdata (arp_heap s) q)) (arp_heap s) h'"
    "(err, w) = linkoutput E (ip_frame netif (ethaddr (arp_table s ! i)) (pdata (arp_heap s) q) # map (pdata (arp_heap s)) qs) (wire s)"
    using etharp_send_ip_ok [of ?s q qs netif "nif_hwaddr netif" "ethaddr (arp_table s ! i)" E] inv_windows [OF arp_inv [OF s]] q(1) n m
    by (auto simp: outgoing_def hw_ok_def ip_frame_def)
  have "{q} \<inter> queued (arp_table s) = {}" using held_not_queued [OF s q(2)] by simp
  then have "arp_ok (?s\<lparr>arp_heap := h', wire := w\<rparr>) ext"
    using arp_ok_heap [OF s', of h' ext "{q}"] written_inv [OF h(2) arp_inv [OF s]] written_kept [OF h(2)] by simp
  moreover have "query_at E netif ip (Some q) i s = Some (err, ?s\<lparr>arp_heap := h', wire := w\<rparr>)"
    using h(1) i(2) entry_in [OF s i(1)] by (simp add: query_at_def)
  ultimately show ?thesis using h(3) written_kept [OF h(2)] by blast
qed

lemma query_at_none:
  assumes s: "arp_ok s ext" and M: "malloc_ok (memory E)" and n: "hw_ok netif" and i: "i < ARP_TABLE_SIZE"
  shows "\<exists>r s'. query_at E netif ip None i s = Some (r, s') \<and> requested E netif ip s r s' \<and> arp_ok s' ext"
proof -
  obtain r s0 where "requested E netif ip s r s0" "arp_ok s0 ext" using request_ok [OF s M n] by blast
  then show ?thesis using entry_in [OF s i] by (intro exI [of _ r] exI [of _ s0]) (simp add: query_at_def requested_def)
qed

lemma query_state_kept: "query_state ip s i s1 \<Longrightarrow> arp_ok s ext \<Longrightarrow> kept (queued (arp_table s)) (arp_heap s) (arp_heap s1)"
proof -
  assume q: "query_state ip s i s1" and s: "arp_ok s ext"
  show ?thesis
  proof (cases "\<exists>j. has_ip (arp_table s) ip j")
    case False
    then have "victim (arp_table s) i \<and> removes (set (waiting (arp_table s ! i))) (arp_heap s) (arp_heap s1)"
      using q by (auto simp: query_state_def)
    then show ?thesis using kept_mono [OF removes_kept] queued_nth by (metis victim_def)
  qed (use q in \<open>auto simp: query_state_def\<close>)
qed

text \<open>All cases together.\<close>

lemma etharp_query_any:
  assumes s: "arp_ok s ext" and M: "malloc_ok (memory E)" and n: "hw_ok netif"
    and q: "\<And>p. q = Some p \<Longrightarrow> 0 < ext p \<and> (\<exists>qs. outgoing (arp_heap s) p qs)"
  shows "\<exists>r s'. etharp_query E netif ip q s = Some (r, s') \<and> arp_ok s' ext"
proof (cases "unicast ip netif")
  case False
  then show ?thesis using s by (auto simp: etharp_query_def unicast_def)
next
  case True
  obtain i s1 where i: "etharp_query E netif ip q s = query_at E netif ip q i s1" "arp_ok s1 ext" "query_state ip s i s1"
    using query_entry [OF s True] by blast
  then have l: "i < ARP_TABLE_SIZE" "\<not> is_empty (arp_table s1 ! i)"
    using table_length [OF i(2)] by (simp_all add: query_state_def has_ip_def)
  show ?thesis
  proof (cases q)
    case None
    then show ?thesis using query_at_none [OF i(2) M n l(1), of ip] i(1) by auto
  next
    case (Some p)
    then obtain qs where p: "0 < ext p" "outgoing (arp_heap s) p qs" using q by blast
    have o: "outgoing (arp_heap s1) p qs"
      using kept_outgoing [OF query_state_kept [OF i(3) s] _ p(2)] held_apart [OF s p(1)] outgoing_packet [OF arp_inv [OF s] p(2)] by blast
    obtain ps where ps: "qs = p # ps" using sendable_first o by (fastforce simp: outgoing_def)
    from l(2) consider "astate (arp_table s1 ! i) = ETHARP_STATE_PENDING" | "astate (arp_table s1 ! i) = ETHARP_STATE_STABLE"
      by (cases "astate (arp_table s1 ! i)") (auto simp: is_empty_def)
    then show ?thesis
    proof cases
      case 1
      show ?thesis using query_at_pending [OF i(2) M n l(1) 1 o, of ip] i(1) Some by auto
    next
      case 2
      show ?thesis using query_at_stable [OF i(2) n l(1) 2 o [unfolded ps] p(1), of E ip] i(1) Some by auto
    qed
  qed
qed

subsection \<open>Output\<close>

text \<open>What a caller of \<open>etharp_output\<close> has: the only pointer to the first pbuf, and a packet that is not too long.\<close>

definition can_output :: "'w arp_sys \<Rightarrow> (nat \<Rightarrow> nat) \<Rightarrow> nat \<Rightarrow> nat list \<Rightarrow> bool" where
  "can_output s ext q qs \<longleftrightarrow> 0 < ext q \<and> preds (arp_heap s) q = {} \<and> ptot (arp_heap s) q + SIZEOF_ETH_HDR < 65536
     \<and> path (arp_heap s) (Some q) qs \<and> dense (arp_heap s) qs \<and> (\<forall>x \<in> set qs. has_data (arp_heap s) x)"

lemma drop_take_block: "14 \<le> j \<Longrightarrow> drop 14 (take (n + 14) (drop (j - 14) m)) = take n (drop j m)"
  by (simp add: drop_take)

lemma header_data:
  assumes w: "windows_ok h" "windows_ok h1" and b: "pbufs h q = Some b" and b': "pbufs h1 q = Some b'"
    "unat (len b') = unat (len b) + 14" "payload b' = map_option (\<lambda>(s, k). (s, k - 14)) (payload b)" "blocks h1 = blocks h"
    and d: "has_data h q"
  shows "drop 14 (pdata h1 q) = pdata h q"
proof -
  have pn: "payload b \<noteq> None" using d b by (simp add: has_data_def)
  then obtain bk j m where p: "payload b = Some (bk, j)" "blocks h bk = Some m"
    using window_cases [OF w(1) b(1) pn] by blast
  have "payload b' = Some (bk, j - 14)" using p(1) b'(3) by simp
  moreover have "window h1 q b'" using w(2) b'(1) by (simp add: windows_ok_def)
  moreover have "0 \<le> j - 14" using calculation by (simp add: window_def)
  ultimately show ?thesis using p b' b drop_take_block [of "nat j" "unat (len b)" m]
    by (simp add: pdata_Some [OF b p] pdata_Some [OF b'(1)] nat_diff_distrib)
qed

lemma kept_blocks: "(\<And>x. x \<notin> A \<Longrightarrow> pbufs h' x = pbufs h x) \<Longrightarrow> blocks h' = blocks h \<Longrightarrow> kept A h h'"
proof -
  assume p: "\<And>x. x \<notin> A \<Longrightarrow> pbufs h' x = pbufs h x" and b: "blocks h' = blocks h"
  show ?thesis unfolding kept_def pdata_def b using p by simp
qed

lemma header_room:
  assumes s: "arp_ok s ext" and q: "can_output s ext q qs"
  shows "pbuf_header (Some q) (int SIZEOF_ETH_HDR) (arp_heap s) = Some (1, arp_heap s)
    \<or> (\<exists>h'. pbuf_header (Some q) (int SIZEOF_ETH_HDR) (arp_heap s) = Some (0, h') \<and> arp_ok (s\<lparr>arp_heap := h'\<rparr>) ext
         \<and> outgoing h' q qs \<and> kept {q} (arp_heap s) h' \<and> drop 14 (pdata h' q) = pdata (arp_heap s) q)"
proof -
  let ?h = "arp_heap s" and ?X = "\<lambda>a. ext a + waits (arp_table s) a"
  have i: "pbuf_inv ?h ?X" using s by (rule arp_inv)
  have e: "0 < ext q" "path ?h (Some q) qs" "dense ?h qs" "\<forall>x \<in> set qs. has_data ?h x" using q by (simp_all add: can_output_def)
  obtain b as where b: "pbufs ?h q = Some b" "qs = q # as" using path_first [OF e(2)] by blast
  have pk: "packet ?h qs" using tot_packet [of ?h "Some q" qs] i e(2) by (simp add: pbuf_inv_def)
  have tl: "ptot ?h q + 14 < 65536" "plen ?h q = unat (len b)" "plen ?h q \<le> ptot ?h q"
    using q pk b by (simp_all add: can_output_def SIZEOF_ETH_HDR_def plen_def)
  have le: "- int (unat (len b)) \<le> 14" "(14 :: int) < 32768" "int (unat (len b)) + 14 < 65536" using tl by linarith+
  obtain r h1 where r: "pbuf_header (Some q) 14 ?h = Some (r, h1)" "r \<in> {0, 1}" "r = 1 \<longrightarrow> h1 = ?h"
    "r = 0 \<longrightarrow> (\<exists>b'. pbufs h1 q = Some b' \<and> int (unat (len b')) = int (unat (len b)) + 14
         \<and> payload b' = map_option (\<lambda>(s, k). (s, k - 14)) (payload b) \<and> nxt b' = nxt b \<and> tot_len b' = tot_len b + word_of_int 14)
         \<and> (\<forall>x. x \<noteq> q \<longrightarrow> pbufs h1 x = pbufs ?h x) \<and> blocks h1 = blocks ?h"
    using pbuf_header_ok [OF inv_heap [OF i] b(1) le] by blast
  show ?thesis
  proof (cases "r = 0")
    case False
    then show ?thesis using r by (simp add: SIZEOF_ETH_HDR_def)
  next
    case True
    then obtain b' where c: "pbufs h1 q = Some b'" "int (unat (len b')) = int (unat (len b)) + 14"
      "payload b' = map_option (\<lambda>(s, k). (s, k - 14)) (payload b)" "nxt b' = nxt b"
      "\<forall>x. x \<noteq> q \<longrightarrow> pbufs h1 x = pbufs ?h x" "blocks h1 = blocks ?h" using r(4) by blast
    have "unat (len b') = unat (len b) + 14" using c(2) by linarith
    note b' = c(1) this c(3-6)
    have lp: "0 < ?X q" "preds ?h q = {}" using e(1) q by (simp_all add: can_output_def)
    have ll: "- int (plen ?h q) \<le> 14" "int (ptot ?h q) + 14 < 65536" using tl by linarith+
    have i1: "pbuf_inv h1 ?X" using header_call [OF i lp ll(1) le(2) ll(2)] r(1) by auto
    have type: "ptype b = PBUF_RAM \<or> ptype b = PBUF_POOL" "ptype b' = ptype b"
      using r(1) True b(1) b'(1) tl by (auto simp: pbuf_header_def Let_def split: if_splits option.splits)
    have w: "windows_ok ?h" "windows_ok h1" using inv_windows i i1 by blast+
    have own: "owned h1 q" "has_data h1 q" using type b'(1) owned_data [OF w(2)] by (simp_all add: owned_def)
    have k: "kept {q} ?h h1" using b'(5,6) by (intro kept_blocks) simp_all
    have "q \<notin> set as" using path_distinct [OF e(2)] b(2) by simp
    moreover have "link h1 x = link ?h x" for x using b'(1,4,5) b(1) by (cases "x = q") (simp_all add: link_def)
    then have "path h1 (Some q) qs" using path_cong [of qs h1 ?h] e(2) by blast
    moreover have "dense h1 qs"
    proof -
      have "as \<noteq> [] \<Longrightarrow> last as \<noteq> q" using \<open>q \<notin> set as\<close> last_in_set by metis
      then show ?thesis using e(3) b(2) b'(5) by (auto simp: dense_def plen_def)
    qed
    ultimately have o: "outgoing h1 q qs" using e own b' b
      by (auto simp: outgoing_def sendable_def plen_def has_data_def SIZEOF_ETH_HDR_def)
    have "drop 14 (pdata h1 q) = pdata ?h q" using header_data [OF w b(1) b'(1,2,3,6)] e(4) b(2) by simp
    moreover have "arp_ok (s\<lparr>arp_heap := h1\<rparr>) ext" using arp_ok_heap [OF s i1 k] held_not_queued [OF s e(1)] by simp
    ultimately show ?thesis using r(1) True k o by (intro disjI2 exI [of _ h1]) (simp add: SIZEOF_ETH_HDR_def)
  qed
qed


text \<open>The cached entry is the one for the next hop.\<close>

definition cache_hit :: "u32 \<Rightarrow> 'w arp_sys \<Rightarrow> bool" where
  "cache_hit ip s \<longleftrightarrow> is_stable (arp_table s ! unat (etharp_cached_entry s))
     \<and> ipaddr (arp_table s ! unat (etharp_cached_entry s)) = ip"

lemma output_unicast_hit:
  assumes s: "arp_ok s ext" and M: "malloc_ok (memory E)" and n: "hw_ok netif" and q: "outgoing (arp_heap s) q qs"
    and c: "cache_hit ip s"
  shows "output_unicast E netif q ip s = None
      \<and> pbuf_alloc (memory E) PBUF_RAW (word_of_nat (ptot (arp_heap s) q)) PBUF_RAM (arp_heap s) = Some (None, arp_heap s)
    \<or> (\<exists>err p h' w. output_unicast E netif q ip s = Some (err, s\<lparr>arp_heap := h', wire := w\<rparr>)
      \<and> pbuf_alloc (memory E) PBUF_RAW (word_of_nat (ptot (arp_heap s) q)) PBUF_RAM (arp_heap s) \<noteq> Some (None, arp_heap s)
      \<and> (err, w) = linkoutput E [ip_frame netif (ethaddr (arp_table s ! unat (etharp_cached_entry s))) (cdata (arp_heap s) qs)] (wire s)
      \<and> pbufs (arp_heap s) p = None \<and> lone h' p \<and> kept {p} (arp_heap s) h' \<and> ext p = 0
      \<and> arp_ok (s\<lparr>arp_heap := h', wire := w\<rparr>) (ext(p := 1)))"
proof -
  let ?h = "arp_heap s" and ?X = "\<lambda>a. ext a + waits (arp_table s) a" and ?e = "arp_table s ! unat (etharp_cached_entry s)"
  have ci: "unat (etharp_cached_entry s) < ARP_TABLE_SIZE" using s by (simp add: arp_ok_def)
  have e: "entry s (unat (etharp_cached_entry s)) = Some ?e" "astate ?e = ETHARP_STATE_STABLE" "ipaddr ?e = ip"
    using entry_in [OF s ci] c by (simp_all add: cache_hit_def is_stable_def)
  have mac: "length (ethaddr ?e) = 6" using table_nth_ok [OF _ ci, of "arp_table s"] s
    by (simp add: arp_ok_def entry_ok_def ETHARP_HWADDR_LEN_def)
  obtain b where b: "pbufs ?h q = Some b" using outgoing_packet [OF arp_inv [OF s] q] path_first by blast
  have t: "ptot ?h q = unat (tot_len b)" "word_of_nat (ptot ?h q) = tot_len b" using b by (simp_all add: ptot_def)
  have out: "output_unicast E netif q ip s = do {
      (p, h) \<leftarrow> copy_packet E (tot_len b) q ?h; etharp_send_ip E netif p (nif_hwaddr netif) (ethaddr ?e) (s\<lparr>arp_heap := h\<rparr>) }"
    using e b by (simp add: output_unicast_def)
  from copy_packet_ok [OF arp_inv [OF s] M q t(1)] consider "copy_packet E (tot_len b) q ?h = Some (None, ?h)" "pbuf_alloc (memory E) PBUF_RAW (tot_len b) PBUF_RAM ?h = Some (None, ?h)"
    | p h1 where "copy_packet E (tot_len b) q ?h = Some (Some p, h1)" "pbufs ?h p = None" "?X p = 0" "pbuf_inv h1 (?X(p := 1))"
      "kept {p} ?h h1" "lone h1 p" "pdata h1 p = cdata ?h qs" by auto
  then show ?thesis
  proof cases
    case 1
    then show ?thesis using 1 out t(2) by (simp add: etharp_send_ip_def)
  next
    case (2 p h1)
    have a: "pbuf_alloc (memory E) PBUF_RAW (tot_len b) PBUF_RAM ?h \<noteq> Some (None, ?h)"
      using 2(1) by (auto simp: copy_packet_def)
    have w1: "windows_ok h1" using 2(4) by (rule inv_windows)
    have "SIZEOF_ETH_HDR \<le> plen h1 p" using 2(6) by (auto simp: lone_def plen_def)
    then obtain err h2 w where h2: "etharp_send_ip E netif (Some p) (nif_hwaddr netif) (ethaddr ?e) (s\<lparr>arp_heap := h1\<rparr>)
        = Some (err, s\<lparr>arp_heap := h2, wire := w\<rparr>)" "written p (ip_frame netif (ethaddr ?e) (cdata ?h qs)) h1 h2"
      "(err, w) = linkoutput E [ip_frame netif (ethaddr ?e) (cdata ?h qs)] (wire s)"
      using etharp_send_ip_ok [of "s\<lparr>arp_heap := h1\<rparr>" p "[]" netif "nif_hwaddr netif" "ethaddr ?e" E] w1 lone_sendable [OF w1 2(6)] n mac 2(7)
      by (auto simp: hw_ok_def ip_frame_def)
    have k: "kept {p} ?h h2" using kept_trans [OF 2(5) written_kept [OF h2(2)]] by simp
    have "(\<lambda>a. (ext(p := 1)) a + waits (arp_table s) a) = ?X(p := 1)" using 2(3) by (auto simp: fun_eq_iff)
    then have "arp_ok (s\<lparr>arp_heap := h2, wire := w\<rparr>) (ext(p := 1))"
      using arp_ok_heap [OF s, of h2 "ext(p := 1)" "{p}"] written_inv [OF h2(2) 2(4)] k unalloc_not_queued [OF s 2(2)] by simp
    moreover have "output_unicast E netif q ip s = Some (err, s\<lparr>arp_heap := h2, wire := w\<rparr>)" using out 2(1) h2(1) by simp
    ultimately show ?thesis using 2(2,3) h2(3) k written_same [OF h2(2)] 2(6) a t(2)
      by (intro disjI2 exI [of _ err] exI [of _ p] exI [of _ h2] exI [of _ w]) simp
  qed
qed

lemma output_unicast_miss: "arp_ok s ext \<Longrightarrow> \<not> cache_hit ip s \<Longrightarrow> output_unicast E netif q ip s = etharp_query E netif ip (Some q) s"
proof -
  assume s: "arp_ok s ext" and c: "\<not> cache_hit ip s"
  have "unat (etharp_cached_entry s) < ARP_TABLE_SIZE" using s by (simp add: arp_ok_def)
  then show ?thesis using entry_in [OF s] c by (auto simp: output_unicast_def cache_hit_def is_stable_def)
qed

definition hop :: "nif \<Rightarrow> u32 \<Rightarrow> u32" where
  "hop netif ip = (if \<not> ip_addr_netcmp ip (nif_ip netif) (nif_netmask netif) \<and> \<not> ip_addr_islinklocal ip
     then nif_gw netif else ip)"

text \<open>References that nobody holds are counted with those of the users: one to every new pbuf.\<close>

definition orphans :: "heap \<Rightarrow> heap \<Rightarrow> (nat \<Rightarrow> nat) \<Rightarrow> nat \<Rightarrow> nat" where
  "orphans h h' ext a = (if pbufs h a = None \<and> pbufs h' a \<noteq> None then 1 else ext a)"

lemma orphans_none: "kept A h h' \<Longrightarrow> \<forall>a \<in> A. pbufs h a \<noteq> None \<Longrightarrow> orphans h h' ext = ext"
proof (rule HOL.ext)
  fix a assume "kept A h h'" "\<forall>a \<in> A. pbufs h a \<noteq> None"
  then show "orphans h h' ext a = ext a" by (cases "a \<in> A") (auto simp: orphans_def kept_def)
qed

lemma orphans_one: "kept {p} h h' \<Longrightarrow> pbufs h p = None \<Longrightarrow> lone h' p \<Longrightarrow> orphans h h' ext = ext(p := 1)"
  using lone_alloc [of h' p] by (intro HOL.ext) (auto simp: orphans_def kept_def)

lemma orphans_from: "(\<And>a. (pbufs g a = None) = (pbufs h a = None)) \<Longrightarrow> orphans g h' ext = orphans h h' ext"
  by (rule HOL.ext) (simp add: orphans_def)

text \<open>There is no memory for a copy of the packet.\<close>

definition copy_fails :: "'w arp_env \<Rightarrow> nat \<Rightarrow> heap \<Rightarrow> bool" where
  "copy_fails E q h \<longleftrightarrow> pbuf_alloc (memory E) PBUF_RAW (word_of_nat (ptot h q)) PBUF_RAM h = Some (None, h)"

text \<open>The packet is for one station, there is a route, its next hop is the cached entry, and when the header has been
  put in front of it there is no memory for the copy.\<close>

definition no_copy :: "'w arp_env \<Rightarrow> nif \<Rightarrow> nat \<Rightarrow> u32 \<Rightarrow> 'w arp_sys \<Rightarrow> bool" where
  "no_copy E netif q ip s \<longleftrightarrow> \<not> ip_addr_isbroadcast ip netif \<and> \<not> ip_addr_ismulticast ip
     \<and> (ip_addr_netcmp ip (nif_ip netif) (nif_netmask netif) \<or> ip_addr_islinklocal ip \<or> \<not> ip_addr_isany (nif_gw netif))
     \<and> cache_hit (hop netif ip) s
     \<and> (\<exists>h. pbuf_header (Some q) (int SIZEOF_ETH_HDR) (arp_heap s) = Some (0, h) \<and> copy_fails E q h)"

lemma output_unicast_any:
  assumes s: "arp_ok s ext" and M: "malloc_ok (memory E)" and n: "hw_ok netif" and q: "outgoing (arp_heap s) q qs" "0 < ext q"
  shows "if cache_hit ip s \<and> copy_fails E q (arp_heap s) then output_unicast E netif q ip s = None
    else \<exists>r s'. output_unicast E netif q ip s = Some (r, s')
         \<and> arp_ok s' (if cache_hit ip s then orphans (arp_heap s) (arp_heap s') ext else ext)"
proof (cases "cache_hit ip s")
  case True
  from output_unicast_hit [OF s M n q(1) True] show ?thesis
  proof (elim disjE exE conjE)
    fix err p h' w assume h: "output_unicast E netif q ip s = Some (err, s\<lparr>arp_heap := h', wire := w\<rparr>)"
      "pbufs (arp_heap s) p = None" "lone h' p" "kept {p} (arp_heap s) h'" "arp_ok (s\<lparr>arp_heap := h', wire := w\<rparr>) (ext(p := 1))"
      "pbuf_alloc (memory E) PBUF_RAW (word_of_nat (ptot (arp_heap s) q)) PBUF_RAM (arp_heap s) \<noteq> Some (None, arp_heap s)"
    then show ?thesis using True orphans_one [OF h(4,2,3), of ext] by (simp add: copy_fails_def)
  qed (use True in \<open>simp add: copy_fails_def\<close>)
next
  case False
  then show ?thesis using etharp_query_any [OF s M n, of "Some q" ip] q output_unicast_miss [OF s False, of E netif q] by auto
qed

lemma send_held:
  assumes s: "arp_ok s ext" and n: "hw_ok netif" "length mac = 6" and q: "outgoing (arp_heap s) q (q # qs)" "0 < ext q"
  shows "\<exists>err h' w. etharp_send_ip E netif (Some q) (nif_hwaddr netif) mac s = Some (err, s\<lparr>arp_heap := h', wire := w\<rparr>)
    \<and> (err, w) = linkoutput E (ip_frame netif mac (pdata (arp_heap s) q) # map (pdata (arp_heap s)) qs) (wire s)
    \<and> arp_ok (s\<lparr>arp_heap := h', wire := w\<rparr>) ext \<and> kept {q} (arp_heap s) h'"
proof -
  obtain err h' w where h: "etharp_send_ip E netif (Some q) (nif_hwaddr netif) mac s = Some (err, s\<lparr>arp_heap := h', wire := w\<rparr>)"
    "written q (ip_frame netif mac (pdata (arp_heap s) q)) (arp_heap s) h'"
    "(err, w) = linkoutput E (ip_frame netif mac (pdata (arp_heap s) q) # map (pdata (arp_heap s)) qs) (wire s)"
    using etharp_send_ip_ok [of s q qs netif "nif_hwaddr netif" mac E] inv_windows [OF arp_inv [OF s]] q(1) n
    by (auto simp: outgoing_def hw_ok_def ip_frame_def)
  have "{q} \<inter> queued (arp_table s) = {}" using held_not_queued [OF s q(2)] by simp
  then have "arp_ok (s\<lparr>arp_heap := h', wire := w\<rparr>) ext"
    using arp_ok_heap [OF s, of h' ext "{q}"] written_inv [OF h(2) arp_inv [OF s]] written_kept [OF h(2)] by simp
  then show ?thesis using h(1,3) written_kept [OF h(2)] by blast
qed

lemma length_mcastaddr [simp]: "length (mcastaddr ip) = 6"
  by (simp add: mcastaddr_def)

lemma etharp_output_any:
  assumes s: "arp_ok s ext" and M: "malloc_ok (memory E)" and n: "hw_ok netif" and q: "can_output s ext q qs"
  shows "if no_copy E netif q ip s then etharp_output E netif q ip s = None
    else \<exists>r s'. etharp_output E netif q ip s = Some (r, s')
         \<and> arp_ok s' (if cache_hit (hop netif ip) s then orphans (arp_heap s) (arp_heap s') ext else ext)"
proof -
  have e: "0 < ext q" "pbufs (arp_heap s) q \<noteq> None" using q path_first by (fastforce simp: can_output_def)+
  from header_room [OF s q] show ?thesis
  proof (elim disjE exE conjE)
    assume hd: "pbuf_header (Some q) (int SIZEOF_ETH_HDR) (arp_heap s) = Some (1, arp_heap s)"
    then have "etharp_output E netif q ip s = Some (ERR_BUF, s)" by (simp add: etharp_output_def)
    then show ?thesis using s orphans_none [of "{}" "arp_heap s" "arp_heap s" ext] hd by (simp add: no_copy_def)
  next
    fix h' assume h: "pbuf_header (Some q) (int SIZEOF_ETH_HDR) (arp_heap s) = Some (0, h')" "arp_ok (s\<lparr>arp_heap := h'\<rparr>) ext"
      "outgoing h' q qs" "kept {q} (arp_heap s) h'" "drop 14 (pdata h' q) = pdata (arp_heap s) q"
    let ?s = "s\<lparr>arp_heap := h'\<rparr>" and ?hop = "hop netif ip"
    have same: "orphans (arp_heap s) h' ext = ext" using orphans_none [OF h(4), of ext] e(2) by simp
    show ?thesis
    proof (cases "ip_addr_isbroadcast ip netif \<or> ip_addr_ismulticast ip")
      case True
      obtain as where as: "qs = q # as" using sendable_first h(3) by (fastforce simp: outgoing_def)
      define mac where "mac = (if ip_addr_isbroadcast ip netif then ethbroadcast else mcastaddr ip)"
      have mac: "length mac = 6" by (simp add: mac_def ethbroadcast_def)
      obtain r h2 w where h2: "etharp_send_ip E netif (Some q) (nif_hwaddr netif) mac ?s = Some (r, ?s\<lparr>arp_heap := h2, wire := w\<rparr>)"
        "arp_ok (?s\<lparr>arp_heap := h2, wire := w\<rparr>) ext" "kept {q} h' h2"
        using send_held [OF h(2) n mac, of q as E] h(3) as e(1) by auto
      have "orphans (arp_heap s) h2 ext = ext"
        using orphans_none [of "{q}" "arp_heap s" h2 ext] kept_trans [OF h(4) h2(3)] e(2) by simp
      moreover have "etharp_output E netif q ip s = Some (r, ?s\<lparr>arp_heap := h2, wire := w\<rparr>)"
        using True h(1) h2(1) by (auto simp: etharp_output_def mac_def split: if_splits)
      moreover have "\<not> no_copy E netif q ip s" using True by (auto simp: no_copy_def)
      ultimately show ?thesis using h2(2) by simp
    next
      case nb: False
      show ?thesis
      proof (cases "\<not> ip_addr_netcmp ip (nif_ip netif) (nif_netmask netif) \<and> \<not> ip_addr_islinklocal ip
          \<and> ip_addr_isany (nif_gw netif)")
        case True
        then have "etharp_output E netif q ip s = Some (ERR_RTE, ?s)" using nb h(1) by (simp add: etharp_output_def)
        moreover have "\<not> no_copy E netif q ip s" using True by (simp add: no_copy_def)
        ultimately show ?thesis using h(2) same by simp
      next
        case False
        then have "etharp_output E netif q ip s = output_unicast E netif q ?hop ?s"
          using nb h(1) by (auto simp: etharp_output_def hop_def)
        moreover have hit: "cache_hit ?hop ?s = cache_hit ?hop s" by (simp add: cache_hit_def)
        moreover have "no_copy E netif q ip s \<longleftrightarrow> cache_hit ?hop ?s \<and> copy_fails E q (arp_heap ?s)"
          using False nb h(1) hit by (auto simp: no_copy_def)
        moreover have "pbufs h' q \<noteq> None" using outgoing_packet [OF arp_inv [OF h(2)], of q qs] h(3) path_first by fastforce
        then have "(pbufs h' a = None) = (pbufs (arp_heap s) a = None)" for a using h(4) e(2) by (cases "a = q") (auto simp: kept_def)
        then have "orphans h' g ext = orphans (arp_heap s) g ext" for g by (rule orphans_from)
        ultimately show ?thesis using output_unicast_any [OF h(2) M n _ e(1), of qs ?hop] h(3)
          by (cases "cache_hit ?hop s") (simp_all split: if_splits)
      qed
    qed
  qed
qed

subsection \<open>Input\<close>

text \<open>Giving back a reference of a user.\<close>

lemma free_chain_outside: "path h p ps \<Longrightarrow> free_chain ps h = (n, h') \<Longrightarrow> x \<notin> set ps \<Longrightarrow> pbufs h' x = pbufs h x"
proof (induction ps arbitrary: p h n)
  case (Cons a as)
  obtain q where q: "link h a = Some q" "path h q as" using Cons.prems(1) by auto
  have "a \<notin> set as" using path_distinct [OF Cons.prems(1)] by simp
  then have "path (dealloc a h) q as = path h q as" by (intro path_cong) (auto simp: link_dealloc)
  then show ?case using Cons.IH [of "dealloc a h" q] q(2) Cons.prems(2,3) by (auto split: if_splits prod.splits)
qed simp

lemma pdata_survives: "windows_ok h \<Longrightarrow> shrinks h h' \<Longrightarrow> pbufs h x \<noteq> None \<Longrightarrow> pbufs h' x = pbufs h x \<Longrightarrow> pdata h' x = pdata h x"
  by (cases "pbufs h' x") (auto dest: pdata_shrinks)

lemma shrinks_blocks: "shrinks h h' \<Longrightarrow> blocks h x = None \<Longrightarrow> blocks h' x = None"
  by (simp add: shrinks_def)

lemma free_held:
  assumes s: "arp_ok s ext" and e: "0 < ext p"
  shows "\<exists>n h'. pbuf_free (Some p) (arp_heap s) = Some (n, h') \<and> arp_ok (s\<lparr>arp_heap := h'\<rparr>) (ext(p := ext p - 1))"
proof -
  let ?h = "arp_heap s" and ?X = "\<lambda>a. ext a + waits (arp_table s) a"
  have i: "pbuf_inv ?h ?X" using s by (rule arp_inv)
  obtain ps where ps: "path ?h (Some p) ps" using inv_path [OF i, of p] e by auto
  have X: "0 < ?X p" using e by simp
  obtain n h' where f: "pbuf_free (Some p) ?h = Some (n, h')" "pbuf_inv h' (?X(p := ?X p - 1))" using free_call [OF i X] by blast
  obtain k h'' where g: "free_chain ps ?h = (k, h'')" "pbuf_free (Some p) ?h = Some (word_of_nat k, h'')" "shrinks ?h h''"
    using pbuf_free_ok [OF inv_heap [OF i] X ps] by blast
  have hh: "h'' = h'" using f(1) g(2) by simp
  have out: "pbufs h' x = pbufs ?h x" if "x \<notin> set ps" for x using free_chain_outside [OF ps g(1) that] hh by simp
  have k: "kept (set ps) ?h h'"
    unfolding kept_def using out pdata_survives [OF inv_windows [OF i] g(3) [unfolded hh]] shrinks_blocks [OF g(3) [unfolded hh]] by blast
  have "?X(p := ?X p - 1) = (\<lambda>a. (ext(p := ext p - 1)) a + waits (arp_table s) a)" using e by (auto simp: fun_eq_iff)
  then have "arp_ok (s\<lparr>arp_heap := h'\<rparr>) (ext(p := ext p - 1))"
    using arp_ok_heap [OF s _ k] f(2) held_apart [OF s e ps] by auto
  then show ?thesis using f(1) by blast
qed

text \<open>Several writes into the first pbuf.\<close>

fun pokes :: "pbuf \<Rightarrow> (nat \<times> bytes) list \<Rightarrow> heap \<Rightarrow> heap option" where
  "pokes b [] h = Some h"
| "pokes b ((i, bs) # fs) h = do { h \<leftarrow> poke h b i bs; pokes b fs h }"

definition splices :: "(nat \<times> bytes) list \<Rightarrow> bytes \<Rightarrow> bytes" where
  "splices fs m = fold (\<lambda>(i, bs) m. splice i bs m) fs m"

lemma written_pokes:
  "written p m h h' \<Longrightarrow> windows_ok h \<Longrightarrow> owned h p \<Longrightarrow> pbufs h p = Some b \<Longrightarrow>
    \<forall>(i, bs) \<in> set fs. i + length bs \<le> length m \<Longrightarrow> \<exists>h''. pokes b fs h' = Some h'' \<and> written p (splices fs m) h h''"
proof (induction fs arbitrary: m h')
  case Nil
  then show ?case by (simp add: splices_def)
next
  case (Cons f fs)
  obtain i bs where f: "f = (i, bs)" by fastforce
  obtain h1 where h1: "poke h' b i bs = Some h1" "written p (splice i bs m) h h1"
    using written_poke [OF Cons.prems(1-4), of i bs] Cons.prems(5) f by auto
  have "length (splice i bs m) = length m" using Cons.prems(5) f by (simp add: length_splice)
  then show ?case using Cons.IH [OF h1(2) Cons.prems(2-4)] Cons.prems(5) h1(1) f by (simp add: splices_def)
qed

text \<open>The reply that is written over a request.\<close>

definition answer_fields :: "nif \<Rightarrow> bytes \<Rightarrow> bytes \<Rightarrow> (nat \<times> bytes) list" where
  "answer_fields netif hwaddr m = [(20, [hi8 ARP_REPLY, lo8 ARP_REPLY]), (38, take 4 (drop 28 m)), (28, le32_bytes (nif_ip netif)),
     (32, take 6 (drop 22 m)), (0, take 6 (drop 22 m)), (22, take 6 hwaddr), (6, take 6 hwaddr)]"

lemma arp_answer_ok:
  assumes s: "arp_ok s ext" and n: "hw_ok netif" "length hwaddr = 6" and p: "sendable (arp_heap s) p (p # ps)" "0 < ext p"
    "42 \<le> plen (arp_heap s) p" and m: "m = take 42 (pdata (arp_heap s) p)"
  shows "\<exists>h' err w. arp_answer E netif hwaddr p m s = Some (s\<lparr>arp_heap := h', wire := w\<rparr>)
    \<and> (err, w) = linkoutput E (splices (answer_fields netif hwaddr m) (pdata (arp_heap s) p) # map (pdata (arp_heap s)) ps) (wire s)
    \<and> arp_ok (s\<lparr>arp_heap := h', wire := w\<rparr>) ext \<and> kept {p} (arp_heap s) h' \<and> link h' = link (arp_heap s)"
proof -
  let ?h = "arp_heap s" and ?d = "pdata (arp_heap s) p" and ?f = "answer_fields netif hwaddr m"
  have w: "windows_ok ?h" using inv_windows [OF arp_inv [OF s]] .
  have o: "owned ?h p" "has_data ?h p" using p(1) by (simp_all add: sendable_def)
  obtain b where b: "pbufs ?h p = Some b" using o(1) by (auto simp: owned_def split: option.splits)
  have d: "42 \<le> length ?d" using length_pdata [OF w o(2)] p(3) by simp
  have "\<forall>(i, bs) \<in> set ?f. i + length bs \<le> length ?d" using d n(2) m by (auto simp: answer_fields_def)
  then obtain h7 where h7: "pokes b ?f ?h = Some h7" "written p (splices ?f ?d) ?h h7"
    using written_pokes [OF written_refl w o(1) b] by blast
  obtain err w7 where o7: "link_output E p (s\<lparr>arp_heap := h7\<rparr>) = Some (err, s\<lparr>arp_heap := h7, wire := w7\<rparr>)"
    "(err, w7) = linkoutput E (splices ?f ?d # map (pdata ?h) ps) (wire s)"
    using link_output_ok [OF h7(2) w p(1), of E s] by blast
  have "arp_answer E netif hwaddr p m s = do { h \<leftarrow> pokes b ?f ?h; (_, s) \<leftarrow> link_output E p (s\<lparr>arp_heap := h\<rparr>); Some s }"
    using b hw_len [OF n(1)] by (simp add: arp_answer_def answer_fields_def)
  then have "arp_answer E netif hwaddr p m s = Some (s\<lparr>arp_heap := h7, wire := w7\<rparr>)" using h7(1) o7(1) by simp
  moreover have "arp_ok (s\<lparr>arp_heap := h7, wire := w7\<rparr>) ext"
    using arp_ok_heap [OF s written_inv [OF h7(2) arp_inv [OF s]] written_kept [OF h7(2)]] held_not_queued [OF s p(2)] by simp
  ultimately show ?thesis using o7(2) written_kept [OF h7(2)] written_same [OF h7(2)] by blast
qed

lemma arp_input_drop:
  assumes w: "windows_ok (arp_heap s)" and p: "sendable (arp_heap s) p ps"
    and v: "plen (arp_heap s) p < 42 \<or> \<not> valid_arp (take 42 (pdata (arp_heap s) p))"
  shows "etharp_arp_input E netif hwaddr p s = do { (_, h) \<leftarrow> pbuf_free (Some p) (arp_heap s); Some (s\<lparr>arp_heap := h\<rparr>) }"
proof -
  obtain b where b: "pbufs (arp_heap s) p = Some b" "payload b \<noteq> None" "unat (len b) = plen (arp_heap s) p"
    using p sendable_first [OF p] by (auto simp: sendable_def has_data_def plen_def split: option.splits)
  show ?thesis
  proof (cases "plen (arp_heap s) p < 42")
    case True
    then show ?thesis using b by (simp add: etharp_arp_input_def SIZEOF_ETHARP_PACKET_def SIZEOF_ETH_HDR_def)
  next
    case False
    then have "peek (arp_heap s) b 0 42 = Some (take 42 (pdata (arp_heap s) p))" using peek_ok [OF w b(1,2), of 0 42] b(3) by simp
    then show ?thesis using b False v
      by (auto simp: etharp_arp_input_def SIZEOF_ETHARP_PACKET_def SIZEOF_ETH_HDR_def)
  qed
qed

lemma arp_input_valid:
  assumes w: "windows_ok (arp_heap s)" and p: "sendable (arp_heap s) p ps"
    and v: "42 \<le> plen (arp_heap s) p" "valid_arp m" and m: "m = take 42 (pdata (arp_heap s) p)"
  shows "etharp_arp_input E netif hwaddr p s = do {
       (_, s) \<leftarrow> update_arp_entry E netif (ip_of (drop 28 m)) (take 6 (drop 22 m))
         (if for_us netif m then ETHARP_FLAG_TRY_HARD else ETHARP_FLAG_FIND_ONLY) s;
       s \<leftarrow> arp_act E netif hwaddr p m s;
       (_, h) \<leftarrow> pbuf_free (Some p) (arp_heap s);
       Some (s\<lparr>arp_heap := h\<rparr>) }"
proof -
  obtain b where b: "pbufs (arp_heap s) p = Some b" "payload b \<noteq> None" "unat (len b) = plen (arp_heap s) p"
    using p sendable_first [OF p] by (auto simp: sendable_def has_data_def plen_def split: option.splits)
  have "peek (arp_heap s) b 0 42 = Some m" using peek_ok [OF w b(1,2), of 0 42] b(3) v(1) m by simp
  then show ?thesis using b v by (simp add: etharp_arp_input_def SIZEOF_ETHARP_PACKET_def SIZEOF_ETH_HDR_def)
qed

definition env_ok :: "'w arp_env \<Rightarrow> bool" where
  "env_ok E \<longleftrightarrow> malloc_ok (memory E) \<and> (\<forall>ip s ext. arp_ok s ext \<longrightarrow> arp_ok (dhcp_arp_reply E ip s) ext)"

lemma sendable_kept_held:
  assumes s: "arp_ok s ext" and e: "0 < ext p" and p: "sendable (arp_heap s) p ps" and k: "kept (queued (arp_table s)) (arp_heap s) h"
  shows "sendable h p ps" "map (pdata h) ps = map (pdata (arp_heap s)) ps" "plen h p = plen (arp_heap s) p"
proof -
  have path: "path (arp_heap s) (Some p) ps" using p by (simp add: sendable_def)
  note d = held_apart [OF s e path]
  show "sendable h p ps" using kept_sendable [OF k d p] .
  show "map (pdata h) ps = map (pdata (arp_heap s)) ps" using kept_data [OF k d path] .
  show "plen h p = plen (arp_heap s) p" using kept_sizes [OF k] held_not_queued [OF s e] by blast
qed

lemma etharp_arp_input_any:
  assumes s: "arp_ok s ext" and E: "env_ok E" and n: "hw_ok netif" and p: "sendable (arp_heap s) p ps" "0 < ext p"
  shows "\<exists>s'. etharp_arp_input E netif (nif_hwaddr netif) p s = Some s' \<and> arp_ok s' (ext(p := ext p - 1))"
proof -
  have w: "windows_ok (arp_heap s)" using inv_windows [OF arp_inv [OF s]] .
  define m where "m = take 42 (pdata (arp_heap s) p)"
  show ?thesis
  proof (cases "plen (arp_heap s) p < 42 \<or> \<not> valid_arp m")
    case True
    then show ?thesis using arp_input_drop [OF w p(1), of E netif "nif_hwaddr netif"] free_held [OF s p(2)] by (auto simp: m_def)
  next
    case False
    then have v: "42 \<le> plen (arp_heap s) p" "valid_arp m" by simp_all
    obtain as where as: "ps = p # as" using sendable_first [OF p(1)] by blast
    have "length (pdata (arp_heap s) p) = plen (arp_heap s) p" using length_pdata [OF w] p(1) as by (simp add: sendable_def)
    then have mac: "length (take 6 (drop 22 m)) = ETHARP_HWADDR_LEN" using v(1) by (simp add: m_def ETHARP_HWADDR_LEN_def)
    let ?fl = "if for_us netif m then ETHARP_FLAG_TRY_HARD else ETHARP_FLAG_FIND_ONLY"
    obtain r s1 where u: "update_arp_entry E netif (ip_of (drop 28 m)) (take 6 (drop 22 m)) ?fl s = Some (r, s1)" "arp_ok s1 ext"
      "kept (queued (arp_table s)) (arp_heap s) (arp_heap s1)" using update_any [OF s n mac] by blast
    note h1 = sendable_kept_held [OF s p(2,1) u(3)]
    have m1: "m = take 42 (pdata (arp_heap s1) p)" using h1(2) as by (simp add: m_def)
    have hl: "length (nif_hwaddr netif) = 6" using n by (simp add: hw_ok_def)
    have "\<exists>s2. arp_act E netif (nif_hwaddr netif) p m s1 = Some s2 \<and> arp_ok s2 ext"
      using arp_answer_ok [OF u(2) n hl _ p(2) _ m1, of as E] h1 as v(1) u(2) E
      by (auto simp: arp_act_def env_ok_def)
    then obtain s2 where s2: "arp_act E netif (nif_hwaddr netif) p m s1 = Some s2" "arp_ok s2 ext" by blast
    show ?thesis using arp_input_valid [OF w p(1) v m_def, of E netif "nif_hwaddr netif"] u(1) s2(1) free_held [OF s2(2) p(2)] by auto
  qed
qed

lemma etharp_ip_input_any:
  assumes s: "arp_ok s ext" and n: "hw_ok netif" and p: "sendable (arp_heap s) p ps" "34 \<le> plen (arp_heap s) p"
  shows "\<exists>s'. etharp_ip_input E netif p s = Some s' \<and> arp_ok s' ext"
proof -
  have w: "windows_ok (arp_heap s)" using inv_windows [OF arp_inv [OF s]] .
  obtain b where b: "pbufs (arp_heap s) p = Some b" "payload b \<noteq> None" "unat (len b) = plen (arp_heap s) p"
    using p sendable_first [OF p(1)] by (auto simp: sendable_def has_data_def plen_def split: option.splits)
  have l: "length (pdata (arp_heap s) p) = plen (arp_heap s) p" using length_pdata [OF w, of p] b by (simp add: has_data_def)
  have k: "peek (arp_heap s) b 26 4 = Some (take 4 (drop 26 (pdata (arp_heap s) p)))"
    "peek (arp_heap s) b 6 6 = Some (take 6 (drop 6 (pdata (arp_heap s) p)))"
    using peek_ok [OF w b(1,2), of 26 4] peek_ok [OF w b(1,2), of 6 6] b(3) p(2) by simp_all
  have "length (take 6 (drop 6 (pdata (arp_heap s) p))) = ETHARP_HWADDR_LEN" using l p(2) by (simp add: ETHARP_HWADDR_LEN_def)
  then obtain r s' where "update_arp_entry E netif (ip_of (take 4 (drop 26 (pdata (arp_heap s) p))))
      (take 6 (drop 6 (pdata (arp_heap s) p))) ETHARP_FLAG_FIND_ONLY s = Some (r, s')" "arp_ok s' ext"
    using update_any [OF s n] by blast
  then show ?thesis using k b(1) s by (auto simp: etharp_ip_input_def SIZEOF_ETH_HDR_def)
qed

end
