(* ===== verification/Etharp_Api.thy ===== *)
theory Etharp_Api imports Etharp_Inv begin

section \<open>Address resolution of lwIP: runs and properties\<close>

text \<open>
  Sequences of all operations of \<open>etharp.c\<close> on any interfaces, with users of the stack that allocate, fill and release
  packets in between, and what follows for the table, the packets that wait in it and the frames on the link.
\<close>

subsection \<open>Runs\<close>

datatype arp_call = Arp_output nat u32 | Arp_query u32 | Arp_request u32 | Arp_timer | Arp_packet_in nat | Ip_packet_in nat
  | User_call pbuf_call

text \<open>A call with the references that its caller and all others outside of the queues hold afterwards.\<close>

fun do_arp :: "'w arp_env \<Rightarrow> nif \<Rightarrow> arp_call \<Rightarrow> 'w arp_sys \<Rightarrow> (nat \<Rightarrow> nat) \<Rightarrow> ('w arp_sys \<times> (nat \<Rightarrow> nat)) option" where
  "do_arp E netif (Arp_output q ip) s ext = do {
     (_, s') \<leftarrow> etharp_output E netif q ip s;
     Some (s', if cache_hit (hop netif ip) s then orphans (arp_heap s) (arp_heap s') ext else ext) }"
| "do_arp E netif (Arp_query ip) s ext = do { (_, s) \<leftarrow> etharp_query E netif ip None s; Some (s, ext) }"
| "do_arp E netif (Arp_request ip) s ext = do { (_, s) \<leftarrow> etharp_request E netif ip s; Some (s, ext) }"
| "do_arp E netif Arp_timer s ext = do { s \<leftarrow> etharp_tmr s; Some (s, ext) }"
| "do_arp E netif (Arp_packet_in p) s ext = do {
     s \<leftarrow> etharp_arp_input E netif (nif_hwaddr netif) p s; Some (s, ext(p := ext p - 1)) }"
| "do_arp E netif (Ip_packet_in p) s ext = do { s \<leftarrow> etharp_ip_input E netif p s; Some (s, ext) }"
| "do_arp E netif (User_call c) s ext = do { (h, ext) \<leftarrow> do_call (memory E) c (arp_heap s) ext; Some (s\<lparr>arp_heap := h\<rparr>, ext) }"

text \<open>What is asked of the callers: packets that they hold, with the headers that a received packet of its kind has.
  The users of the stack allocate, fill and release packets in between.\<close>

fun arp_allowed :: "arp_call \<Rightarrow> 'w arp_sys \<Rightarrow> (nat \<Rightarrow> nat) \<Rightarrow> bool" where
  "arp_allowed (Arp_output q ip) s ext \<longleftrightarrow> (\<exists>qs. can_output s ext q qs)"
| "arp_allowed (Arp_packet_in p) s ext \<longleftrightarrow> 0 < ext p \<and> (\<exists>ps. sendable (arp_heap s) p ps)"
| "arp_allowed (Ip_packet_in p) s ext \<longleftrightarrow> 34 \<le> plen (arp_heap s) p \<and> (\<exists>ps. sendable (arp_heap s) p ps)"
| "arp_allowed (User_call (Alloc l n t)) s ext \<longleftrightarrow> True"
| "arp_allowed (User_call (Free p)) s ext \<longleftrightarrow> allowed (Free p) (arp_heap s) ext"
| "arp_allowed (User_call (Ref p)) s ext \<longleftrightarrow> allowed (Ref p) (arp_heap s) ext"
| "arp_allowed (User_call (Take p dat n)) s ext \<longleftrightarrow> allowed (Take p dat n) (arp_heap s) ext"
| "arp_allowed (User_call c) s ext \<longleftrightarrow> False"
| "arp_allowed c s ext \<longleftrightarrow> True"

text \<open>All states that calls lead to, on any interfaces, from the empty table.\<close>

inductive arp_run :: "'w arp_sys \<Rightarrow> (nat \<Rightarrow> nat) \<Rightarrow> bool" where
  arp_start: "arp_table s = arp_table0 \<Longrightarrow> etharp_cached_entry s = 0 \<Longrightarrow> pbufs (arp_heap s) = (\<lambda>_. None) \<Longrightarrow> arp_run s (\<lambda>_. 0)"
| arp_call: "arp_run s ext \<Longrightarrow> env_ok E \<Longrightarrow> hw_ok netif \<Longrightarrow> arp_allowed c s ext \<Longrightarrow>
    do_arp E netif c s ext = Some (s', ext') \<Longrightarrow> arp_run s' ext'"

lemma arp_ok_start:
  assumes "arp_table s = arp_table0" "etharp_cached_entry s = 0" "pbufs (arp_heap s) = (\<lambda>_. None)"
  shows "arp_ok s (\<lambda>_. 0)"
proof -
  have t0: "arp_table0 = replicate ARP_TABLE_SIZE blank" by (simp add: arp_table0_def blank_def)
  have w: "waits arp_table0 = (\<lambda>_. 0)" and q: "queued arp_table0 = {}"
    by (simp_all add: waits_def queued_def fun_eq_iff t0 set_replicate_conv_if)
  have "table_ok arp_table0" by (simp add: table_ok_def one_per_ip_def t0)
  moreover have "pbuf_inv (arp_heap s) (\<lambda>_. 0)" using pbuf_run_inv [OF run_start [OF assms(3)]] .
  ultimately show ?thesis using assms w q by (simp add: arp_ok_def ARP_TABLE_SIZE_def)
qed

text \<open>What users do to their packets does not touch the queues.\<close>

lemma arp_ok_pbufs:
  "arp_ok s ext \<Longrightarrow> pbuf_inv h' (\<lambda>a. ext' a + waits (arp_table s) a) \<Longrightarrow>
    (\<And>p. p \<in> queued (arp_table s) \<Longrightarrow> pbufs h' p = pbufs (arp_heap s) p) \<Longrightarrow> arp_ok (s\<lparr>arp_heap := h'\<rparr>) ext'"
  by (simp add: arp_ok_def lone_def)

lemma user_alloc:
  assumes s: "arp_ok s ext" and M: "malloc_ok M"
  shows "\<exists>r h'. pbuf_alloc M l n t (arp_heap s) = Some (r, h')
    \<and> arp_ok (s\<lparr>arp_heap := h'\<rparr>) (case r of None \<Rightarrow> ext | Some p \<Rightarrow> ext(p := 1))"
proof -
  let ?h = "arp_heap s" and ?X = "\<lambda>a. ext a + waits (arp_table s) a"
  obtain r h' where r: "pbuf_alloc M l n t ?h = Some (r, h')" "alloc_result M l t (unat n) ?h ?X r h'"
    using pbuf_alloc_ok [OF M inv_heap [OF arp_inv [OF s]]] by blast
  have i: "pbuf_inv h' (case r of None \<Rightarrow> ?X | Some p \<Rightarrow> ?X(p := 1))" using alloc_call [OF M arp_inv [OF s], of l n t] r(1) by auto
  show ?thesis
  proof (cases r)
    case None
    then have "pbufs h' = pbufs ?h" using r(2) pool_empty_shape [of ?h M] by (auto simp: alloc_result_def same_shape_def)
    then show ?thesis using r(1) None i arp_ok_pbufs [OF s, of h' ext] by auto
  next
    case (Some p)
    have o: "\<forall>x. pbufs ?h x \<noteq> None \<longrightarrow> pbufs h' x = pbufs ?h x" "pbufs ?h p = None" using r(2) Some by (auto simp: alloc_result_def)
    have "?X p = 0" using not_counted [OF arp_inv [OF s] o(2)] .
    then have "?X(p := 1) = (\<lambda>a. (ext(p := 1)) a + waits (arp_table s) a)" by (auto simp: fun_eq_iff)
    moreover have "pbufs h' x = pbufs ?h x" if "x \<in> queued (arp_table s)" for x using o(1) unalloc_not_queued [OF s] that by blast
    ultimately have "arp_ok (s\<lparr>arp_heap := h'\<rparr>) (ext(p := 1))" using arp_ok_pbufs [OF s, of h' "ext(p := 1)"] i Some by auto
    then show ?thesis using r(1) Some by auto
  qed
qed

lemma user_ref:
  assumes s: "arp_ok s ext" and e: "0 < ext p" "rc (arp_heap s) p < 65535"
  shows "\<exists>h'. pbuf_ref (Some p) (arp_heap s) = Some h' \<and> arp_ok (s\<lparr>arp_heap := h'\<rparr>) (ext(p := ext p + 1))"
proof -
  let ?h = "arp_heap s" and ?X = "\<lambda>a. ext a + waits (arp_table s) a"
  have "pbufs ?h p \<noteq> None" using not_counted [OF arp_inv [OF s], of p] e(1) by auto
  then obtain h' where h: "pbuf_ref (Some p) ?h = Some h'" "pbuf_inv h' (?X(p := ?X p + 1))"
    using ref_call [OF arp_inv [OF s] _ e(2)] by blast
  have "pbufs h' x = pbufs ?h x" if "x \<in> queued (arp_table s)" for x
    using h(1) held_not_queued [OF s e(1)] that by (auto simp: pbuf_ref_def split: bind_splits)
  moreover have "?X(p := ?X p + 1) = (\<lambda>a. (ext(p := ext p + 1)) a + waits (arp_table s) a)" by (auto simp: fun_eq_iff)
  ultimately show ?thesis using h arp_ok_pbufs [OF s, of h' "ext(p := ext p + 1)"] by auto
qed

lemma user_take:
  assumes s: "arp_ok s ext" and p: "path (arp_heap s) (Some p) ps" "\<forall>x \<in> set ps. owned (arp_heap s) x" "unat n \<le> length dat"
  shows "\<exists>e h'. pbuf_take (Some p) dat n (arp_heap s) = Some (e, h') \<and> arp_ok (s\<lparr>arp_heap := h'\<rparr>) ext"
proof -
  have i: "pbuf_inv (arp_heap s) (\<lambda>a. ext a + waits (arp_table s) a)" using s by (rule arp_inv)
  then have pk: "packet (arp_heap s) ps" using tot_packet [OF _ p(1)] by (simp add: pbuf_inv_def)
  obtain e h' where h: "pbuf_take (Some p) dat n (arp_heap s) = Some (e, h')" "same_shape (arp_heap s) h'"
    using pbuf_take_ok [OF inv_windows [OF i] p(1,2) pk p(3)] by blast
  then show ?thesis using arp_ok_pbufs [OF s inv_same_shape [OF i h(2)]] by (auto simp: same_shape_def)
qed

text \<open>A call that sends over the cached entry and has no memory for the copy.\<close>

definition lacks_copy :: "'w arp_env \<Rightarrow> nif \<Rightarrow> arp_call \<Rightarrow> 'w arp_sys \<Rightarrow> bool" where
  "lacks_copy E netif c s \<longleftrightarrow> (case c of Arp_output q ip \<Rightarrow> no_copy E netif q ip s | _ \<Rightarrow> False)"

text \<open>Exactly these calls fail, and every other permitted call leaves a well-formed state.\<close>

lemma do_arp_ok:
  assumes s: "arp_ok s ext" and E: "env_ok E" and n: "hw_ok netif" and c: "arp_allowed c s ext"
  shows "if lacks_copy E netif c s then do_arp E netif c s ext = None
    else \<exists>s' ext'. do_arp E netif c s ext = Some (s', ext') \<and> arp_ok s' ext'"
proof -
  have M: "malloc_ok (memory E)" using E by (simp add: env_ok_def)
  show ?thesis
  proof (cases c)
    case (Arp_output q ip)
    then obtain qs where "can_output s ext q qs" using c by auto
    from etharp_output_any [OF s M n this, of ip] show ?thesis
      using Arp_output by (cases "no_copy E netif q ip s") (auto simp: lacks_copy_def)
  next
    case (Arp_query ip)
    then show ?thesis using etharp_query_any [OF s M n, of None ip] by (auto simp: lacks_copy_def)
  next
    case (Arp_request ip)
    then show ?thesis using request_ok [OF s M n, of ip] by (auto simp: requested_def lacks_copy_def)
  next
    case Arp_timer
    then show ?thesis using etharp_tmr_ok [OF s] by (auto simp: lacks_copy_def)
  next
    case (Arp_packet_in p)
    then show ?thesis using etharp_arp_input_any [OF s E n] c by (fastforce simp: lacks_copy_def)
  next
    case (Ip_packet_in p)
    then obtain ps where "sendable (arp_heap s) p ps" "34 \<le> plen (arp_heap s) p" using c by auto
    then obtain s' where "etharp_ip_input E netif p s = Some s'" "arp_ok s' ext" using etharp_ip_input_any [OF s n] by blast
    then show ?thesis using Ip_packet_in by (auto simp: lacks_copy_def)
  next
    case (User_call u)
    then show ?thesis using c
    proof (cases u)
      case (Alloc l n t)
      then show ?thesis using User_call user_alloc [OF s M, of l n t] by (auto simp: lacks_copy_def split: option.split)
    next
      case (Free p)
      then show ?thesis using User_call free_held [OF s, of p] c by (auto simp: lacks_copy_def)
    next
      case (Ref p)
      then show ?thesis using User_call user_ref [OF s, of p] c by (auto simp: lacks_copy_def)
    next
      case (Take p dat n)
      then show ?thesis using User_call user_take [OF s, of p] c by (fastforce simp: lacks_copy_def)
    qed (auto simp: lacks_copy_def)
  qed
qed

lemma arp_run_ok: "arp_run s ext \<Longrightarrow> arp_ok s ext"
proof (induction rule: arp_run.induct)
  case (arp_start s)
  then show ?case by (rule arp_ok_start)
next
  case (arp_call s ext E netif c s' ext')
  from do_arp_ok [OF arp_call.IH arp_call.hyps(2-4)] arp_call.hyps(5) show ?case by (auto split: if_splits)
qed

text \<open>A quiet environment for examples: memory for eight pbufs, and a link that logs the frames that are sent on it.\<close>

definition logging :: "bool \<Rightarrow> bytes list arp_env" where
  "logging ok = \<lparr>memory = small_malloc, queue_ok = ok, linkoutput = \<lambda>ms w. (ERR_OK, w @ [concat ms]),
     dhcp_arp_reply = \<lambda>_ s. s, ip_input = \<lambda>_ s. Some s\<rparr>"

lemma logging_simps [simp]: "memory (logging ok) = small_malloc" "queue_ok (logging ok) = ok"
  "linkoutput (logging ok) ms w = (ERR_OK, w @ [concat ms])" "dhcp_arp_reply (logging ok) ip s = s"
  by (simp_all add: logging_def)

lemma logging_ok: "env_ok (logging ok)"
  by (simp add: env_ok_def small_malloc_ok)

text \<open>The same over any link.\<close>

definition over :: "(bytes list \<Rightarrow> 'w \<Rightarrow> err_t \<times> 'w) \<Rightarrow> 'w arp_env" where
  "over f = \<lparr>memory = small_malloc, queue_ok = True, linkoutput = f, dhcp_arp_reply = \<lambda>_ s. s, ip_input = \<lambda>_ s. Some s\<rparr>"

lemma over_simps [simp]: "memory (over f) = small_malloc" "queue_ok (over f)" "linkoutput (over f) = f" "dhcp_arp_reply (over f) ip s = s"
  by (simp_all add: over_def)

lemma over_ok: "env_ok (over f)"
  by (simp add: env_ok_def small_malloc_ok)

text \<open>A host \<open>10.0.0.1\<close> with the mask \<open>255.0.0.0\<close>, and the state after the boot.\<close>

definition host_nif :: "u32 \<Rightarrow> bytes \<Rightarrow> nif" where
  "host_nif ip mac = \<lparr>nif_ip = ip, nif_netmask = 0x000000ff, nif_gw = 0, nif_flags = NETIF_FLAG_ETHARP, nif_hwaddr = mac, nif_hwaddr_len = 6\<rparr>"

definition arp_boot :: "bytes list arp_sys" where
  "arp_boot = \<lparr>arp_table = arp_table0, etharp_cached_entry = 0, arp_heap = no_pbufs, wire = []\<rparr>"

lemma host_nif_ok: "length mac = 6 \<Longrightarrow> hw_ok (host_nif ip mac)"
  by (simp add: hw_ok_def host_nif_def)

lemma arp_boot_run: "arp_run arp_boot (\<lambda>_. 0)"
  by (rule arp_start) (simp_all add: arp_boot_def no_pbufs_def)

text \<open>C16: In every state that calls of the module lead to, on any interfaces and with any answers of the link and the
  memory, no two entries have the same address, entries that are not pending have no packets, the packets in the queues
  are allocated and nobody else has a reference to them; and every further permitted call comes back and leads to such a
  state again. The one exception is exactly a packet for one station whose next hop is the cached entry, for which the
  allocation of the copy fails in the heap as it is when the header has been put in front (\<open>no_copy\<close>): that call uses a
  null pointer.\<close>

theorem arp_runs_are_safe:
  assumes "arp_run s ext" and "env_ok E" and "hw_ok netif" and "arp_allowed c s ext"
  shows "(\<forall>i < 16. \<forall>j < 16. i \<noteq> j \<longrightarrow> astate (arp_table s ! i) \<noteq> ETHARP_STATE_EMPTY \<longrightarrow> astate (arp_table s ! j) \<noteq> ETHARP_STATE_EMPTY \<longrightarrow>
        ipaddr (arp_table s ! i) \<noteq> ipaddr (arp_table s ! j))
    \<and> (\<forall>i < 16. \<forall>p \<in> set (waiting (arp_table s ! i)). astate (arp_table s ! i) = ETHARP_STATE_PENDING \<and> ext p = 0
        \<and> rc (arp_heap s) p = 1)
    \<and> (if lacks_copy E netif c s then do_arp E netif c s ext = None
       else \<exists>s' ext'. do_arp E netif c s ext = Some (s', ext') \<and> arp_run s' ext')"
proof -
  have s: "arp_ok s ext" using assms(1) by (rule arp_run_ok)
  then have t: "table_ok (arp_table s)" "length (arp_table s) = 16" using table_length [OF s] by (simp_all add: arp_ok_def ARP_TABLE_SIZE_def)
  have "astate (arp_table s ! i) = ETHARP_STATE_PENDING \<and> ext p = 0 \<and> rc (arp_heap s) p = 1"
    if "i < 16" "p \<in> set (waiting (arp_table s ! i))" for i p
  proof -
    have "p \<in> queued (arp_table s)" using queued_nth [of i "arp_table s"] that t(2) by auto
    then have "lone (arp_heap s) p" "ext p = 0" using s held_not_queued [OF s, of p] by (auto simp: arp_ok_def)
    then show ?thesis using table_nth_ok [OF t(1), of i] that by (auto simp: entry_ok_def lone_def rc_def ARP_TABLE_SIZE_def)
  qed
  moreover have "\<forall>i < 16. \<forall>j < 16. i \<noteq> j \<longrightarrow> astate (arp_table s ! i) \<noteq> ETHARP_STATE_EMPTY \<longrightarrow> astate (arp_table s ! j) \<noteq> ETHARP_STATE_EMPTY \<longrightarrow>
        ipaddr (arp_table s ! i) \<noteq> ipaddr (arp_table s ! j)"
    using t by (simp add: table_ok_def one_per_ip_def is_empty_def)
  moreover have "if lacks_copy E netif c s then do_arp E netif c s ext = None
       else \<exists>s' ext'. do_arp E netif c s ext = Some (s', ext') \<and> arp_run s' ext'"
    using do_arp_ok [OF s assms(2-4)] arp_call [OF assms] by (cases "lacks_copy E netif c s") auto
  ultimately show ?thesis by (intro conjI allI ballI impI) blast+
qed

theorem arp_runs_are_safe_witness:
  "\<exists>s' ext'. do_arp (logging True) (host_nif 0x0100000a [2,0,0,0,0,1]) (Arp_query 0x0200000a) arp_boot (\<lambda>_. 0) = Some (s', ext') \<and> arp_run s' ext'"
  using arp_runs_are_safe [OF arp_boot_run logging_ok host_nif_ok, of "[2,0,0,0,0,1]" "Arp_query 0x0200000a" True "0x0100000a"]
  by (auto simp: lacks_copy_def)

text \<open>The timer, several times.\<close>

fun ticks :: "nat \<Rightarrow> 'w arp_sys \<Rightarrow> 'w arp_sys option" where
  "ticks 0 s = Some s"
| "ticks (Suc n) s = do { s \<leftarrow> ticks n s; etharp_tmr s }"

lemma ticks_ok:
  assumes s: "arp_ok s ext" and i: "i < ARP_TABLE_SIZE" "\<not> is_empty (arp_table s ! i)"
  shows "\<exists>s'. ticks n s = Some s' \<and> arp_ok s' ext
    \<and> (if unat (ctime (arp_table s ! i)) + n < limit (arp_table s ! i)
       then arp_table s' ! i = (arp_table s ! i)\<lparr>ctime := ctime (arp_table s ! i) + word_of_nat n\<rparr>
       else is_empty (arp_table s' ! i) \<and> (\<forall>p \<in> set (waiting (arp_table s ! i)). pbufs (arp_heap s') p = None))"
proof (induction n)
  case 0
  then show ?case using s entry_age [of "arp_table s ! i"] table_nth_ok [OF _ i(1)] i(2) by (simp add: arp_ok_def)
next
  case (Suc n)
  let ?e = "arp_table s ! i"
  have l: "limit ?e \<le> 240" by (simp add: limit_def)
  obtain s1 where s1: "ticks n s = Some s1" "arp_ok s1 ext" "if unat (ctime ?e) + n < limit ?e
       then arp_table s1 ! i = ?e\<lparr>ctime := ctime ?e + word_of_nat n\<rparr>
       else is_empty (arp_table s1 ! i) \<and> (\<forall>p \<in> set (waiting ?e). pbufs (arp_heap s1) p = None)" using Suc by blast
  obtain h' where h: "etharp_tmr s1 = Some (s1\<lparr>arp_table := map aged (arp_table s1), arp_heap := h'\<rparr>)"
    "arp_ok (s1\<lparr>arp_table := map aged (arp_table s1), arp_heap := h'\<rparr>) ext" "removes (\<Union>e \<in> set (arp_table s1). lost e) (arp_heap s1) h'"
    using etharp_tmr_ok [OF s1(2)] by blast
  have li: "i < length (arp_table s1)" using table_length [OF s1(2)] i(1) by simp
  have gone: "pbufs (arp_heap s1) p = None \<or> p \<in> lost (arp_table s1 ! i) \<Longrightarrow> pbufs h' p = None" for p
    using h(3) nth_mem [OF li] by (auto simp: removes_def)
  let ?n = "?e\<lparr>ctime := ctime ?e + word_of_nat n\<rparr>"
  have "if unat (ctime ?e) + Suc n < limit ?e
       then aged (arp_table s1 ! i) = ?e\<lparr>ctime := ctime ?e + word_of_nat (Suc n)\<rparr>
       else is_empty (aged (arp_table s1 ! i)) \<and> (\<forall>p \<in> set (waiting ?e). pbufs h' p = None)"
  proof (cases "unat (ctime ?e) + n < limit ?e")
    case True
    then have e1: "arp_table s1 ! i = ?n" using s1(3) by simp
    have "unat (word_of_nat n :: u8) = n" using True l by (simp add: unat_of_nat)
    then have c: "unat (ctime ?e + word_of_nat n) = unat (ctime ?e) + n" using True l by (simp add: unat_word_ariths)
    have a: "aged ?n = (if unat (ctime ?e) + Suc n < limit ?e then ?e\<lparr>ctime := ctime ?e + word_of_nat (Suc n)\<rparr> else blank)"
      using i(2) c by (simp add: aged_def is_empty_def limit_def add.commute add.left_commute)
    then have "lost ?n = (if unat (ctime ?e) + Suc n < limit ?e then {} else set (waiting ?e))"
      using i(2) by (simp add: lost_def is_empty_def)
    then show ?thesis using a gone e1 by auto
  next
    case False
    then show ?thesis using s1(3) gone by (auto simp: aged_def)
  qed
  then show ?case using s1(1) h(1,2) li by (intro exI [of _ "s1\<lparr>arp_table := map aged (arp_table s1), arp_heap := h'\<rparr>"]) simp
qed

text \<open>C38: An entry of the table is kept by as many timer ticks as its age lets it have left, only its age grows, and it is
  given up by the tick after: an address that has been learned after 240 ticks in all, an address that has been asked for
  after 2, and then the packets that wait for it are deallocated. The timer never fails.\<close>

theorem entries_expire:
  assumes "arp_run s ext" and "i < 16" and "astate (arp_table s ! i) \<noteq> ETHARP_STATE_EMPTY"
  shows "\<exists>s'. ticks n s = Some s' \<and>
    (if unat (ctime (arp_table s ! i)) + n < (if astate (arp_table s ! i) = ETHARP_STATE_PENDING then 2 else 240)
     then arp_table s' ! i = (arp_table s ! i)\<lparr>ctime := ctime (arp_table s ! i) + word_of_nat n\<rparr>
     else astate (arp_table s' ! i) = ETHARP_STATE_EMPTY \<and> (\<forall>p \<in> set (waiting (arp_table s ! i)). pbufs (arp_heap s') p = None))"
proof -
  obtain s' where "ticks n s = Some s'" "if unat (ctime (arp_table s ! i)) + n < limit (arp_table s ! i)
       then arp_table s' ! i = (arp_table s ! i)\<lparr>ctime := ctime (arp_table s ! i) + word_of_nat n\<rparr>
       else is_empty (arp_table s' ! i) \<and> (\<forall>p \<in> set (waiting (arp_table s ! i)). pbufs (arp_heap s') p = None)"
    using ticks_ok [OF arp_run_ok [OF assms(1)], of i n] assms(2,3) unfolding is_empty_def ARP_TABLE_SIZE_def by blast
  then show ?thesis unfolding is_empty_def limit_def by blast
qed

text \<open>The state after a query for \<open>10.0.0.2\<close>.\<close>

definition host1 :: nif where "host1 = host_nif 0x0100000a [2,0,0,0,0,1]"
definition host2 :: nif where "host2 = host_nif 0x0200000a [2,0,0,0,0,2]"

lemma host_ok: "hw_ok host1" "hw_ok host2"
  by (simp_all add: host1_def host2_def host_nif_ok)

lemma host_unicast: "unicast 0x0100000a host1" "unicast 0x0200000a host1" "unicast 0x0100000a host2" "unicast 0x0200000a host2"
  by code_simp+

lemma queried:
  assumes r: "arp_run (s :: bytes list arp_sys) ext" and t: "arp_table s = arp_table0"
  shows "\<exists>(s' :: bytes list arp_sys) i. arp_run s' ext \<and> i < 16 \<and> has_ip (arp_table s') 0x0200000a i
     \<and> astate (arp_table s' ! i) = ETHARP_STATE_PENDING \<and> ctime (arp_table s' ! i) = 0 \<and> kept {} (arp_heap s) (arp_heap s')"
proof -
  let ?E = "logging True"
  have b: "arp_ok s ext" using r by (rule arp_run_ok)
  have e: "\<not> has_ip (arp_table s) 0x0200000a j" for j
    by (auto simp: has_ip_def t arp_table0_def is_empty_def)
  obtain i s1 where i: "etharp_query ?E host1 0x0200000a None s = query_at ?E host1 0x0200000a None i s1"
    "arp_ok s1 ext" "query_state 0x0200000a s i s1" using query_entry [OF b host_unicast(2)] by blast
  have v: "i < ARP_TABLE_SIZE" using i(3) table_length [OF i(2)] by (simp add: query_state_def has_ip_def)
  obtain c s' where s: "query_at ?E host1 0x0200000a None i s1 = Some (c, s')" "requested ?E host1 0x0200000a s1 c s'"
    using query_at_none [OF i(2) _ host_ok(1) v, of ?E "0x0200000a"] small_malloc_ok by auto
  obtain mac where m: "arp_table s1 = (arp_table s)[i := pending_entry 0x0200000a mac]"
    "removes (set (waiting (arp_table s ! i))) (arp_heap s) (arp_heap s1)" using i(3) e by (auto simp: query_state_def)
  have l: "i < length (arp_table s)" using v table_length [OF b] by simp
  then have "waiting (arp_table s ! i) = []" by (simp add: t arp_table0_def)
  then have k: "kept {} (arp_heap s) (arp_heap s')"
    using kept_trans [of "{}" "arp_heap s" "arp_heap s1" "{}"] removes_kept [OF m(2)] requested_same [OF s(2)] by simp
  have t: "arp_table s' = arp_table s1" using requested_same [OF s(2)] by simp
  then have p: "arp_table s' ! i = pending_entry 0x0200000a mac" using l m by simp
  have "arp_run s' ext"
    by (rule arp_call [OF r logging_ok [of True] host_ok(1), of "Arp_query 0x0200000a"]) (use i(1) s(1) in simp_all)
  then show ?thesis using v p i(3) t k by (intro exI [of _ s'] exI [of _ i])
    (simp add: query_state_def ARP_TABLE_SIZE_def pending_entry_def)
qed

theorem entries_expire_witness:
  "\<exists>(s :: bytes list arp_sys) s' i. astate (arp_table s ! i) = ETHARP_STATE_PENDING \<and> ticks 2 s = Some s' \<and> astate (arp_table s' ! i) = ETHARP_STATE_EMPTY"
proof -
  obtain s :: "bytes list arp_sys" and ext i where s: "arp_run s ext" "i < 16" "astate (arp_table s ! i) = ETHARP_STATE_PENDING"
    "ctime (arp_table s ! i) = 0" using queried [OF arp_boot_run] by (auto simp: arp_boot_def)
  then have "\<exists>s'. ticks 2 s = Some s' \<and> astate (arp_table s' ! i) = ETHARP_STATE_EMPTY" using entries_expire [OF s(1,2), of 2] by auto
  then show ?thesis using s(3) by blast
qed

text \<open>C39: The search for an address gives the entry that has it. If none has it, the search fails when it may not create one,
  that is, with \<open>ETHARP_FLAG_FIND_ONLY\<close>, or in a full table without \<open>ETHARP_FLAG_TRY_HARD\<close>; otherwise it gives
  the first empty entry or, in a full table, the oldest one that has been learned, else the oldest one without packets, else
  the oldest one, whose packets are deallocated. All other entries stay as they are.\<close>

theorem find_entry_chooses:
  assumes "arp_run s ext"
  shows "(\<exists>i < 16. astate (arp_table s ! i) \<noteq> ETHARP_STATE_EMPTY \<and> ipaddr (arp_table s ! i) = ip \<and> find_entry (Some ip) fl s = Some (Inr i, s))
    \<or> (\<forall>i < 16. astate (arp_table s ! i) \<noteq> ETHARP_STATE_EMPTY \<longrightarrow> ipaddr (arp_table s ! i) \<noteq> ip) \<and>
      (if fl AND ETHARP_FLAG_FIND_ONLY \<noteq> 0
          \<or> (\<forall>i < 16. astate (arp_table s ! i) \<noteq> ETHARP_STATE_EMPTY) \<and> fl AND ETHARP_FLAG_TRY_HARD = 0
       then find_entry (Some ip) fl s = Some (Inl ERR_MEM, s)
       else \<exists>i s' e. find_entry (Some ip) fl s = Some (Inr i, s') \<and> victim (arp_table s) i
          \<and> arp_table s' = (arp_table s)[i := e] \<and> astate e = ETHARP_STATE_EMPTY \<and> ipaddr e = ip \<and> waiting e = []
          \<and> (\<forall>p. pbufs (arp_heap s') p = (if p \<in> set (waiting (arp_table s ! i)) then None else pbufs (arp_heap s) p)))"
proof -
  have s: "arp_ok s ext" using assms by (rule arp_run_ok)
  have l: "length (arp_table s) = 16" using table_length [OF s] by (simp add: ARP_TABLE_SIZE_def)
  have all: "(\<forall>e \<in> set (arp_table s). \<not> is_empty e) \<longleftrightarrow> (\<forall>i < 16. astate (arp_table s ! i) \<noteq> ETHARP_STATE_EMPTY)"
    unfolding all_set_conv_all_nth l is_empty_def ..
  have ip: "has_ip (arp_table s) ip i \<longleftrightarrow> i < 16 \<and> astate (arp_table s ! i) \<noteq> ETHARP_STATE_EMPTY \<and> ipaddr (arp_table s ! i) = ip" for i
    by (simp add: has_ip_def is_empty_def l)
  show ?thesis
  proof (cases "\<exists>i. has_ip (arp_table s) ip i")
    case True
    then obtain i where i: "has_ip (arp_table s) ip i" by blast
    from find_entry_found [OF s i, of fl] i [unfolded ip] show ?thesis by blast
  next
    case False
    then have n: "\<forall>i. \<not> has_ip (arp_table s) ip i" by blast
    have "if no_entry fl (arp_table s) then find_entry (Some ip) fl s = Some (Inl ERR_MEM, s)
       else \<exists>i s' e. find_entry (Some ip) fl s = Some (Inr i, s') \<and> victim (arp_table s) i
          \<and> arp_table s' = (arp_table s)[i := e] \<and> astate e = ETHARP_STATE_EMPTY \<and> ipaddr e = ip \<and> waiting e = []
          \<and> (\<forall>p. pbufs (arp_heap s') p = (if p \<in> set (waiting (arp_table s ! i)) then None else pbufs (arp_heap s) p))"
      (is "if _ then _ else ?new")
    proof (cases "no_entry fl (arp_table s)")
      case True
      from find_entry_none [OF s n this] True show ?thesis by (simp only: if_True)
    next
      case False
      from find_entry_new [OF s n this] obtain i h' mac where f: "victim (arp_table s) i"
        "find_entry (Some ip) fl s = Some (Inr i, s\<lparr>arp_table := (arp_table s)[i := new_entry ip mac], arp_heap := h'\<rparr>)"
        "removes (set (waiting (arp_table s ! i))) (arp_heap s) h'" by blast
      have "astate (new_entry ip mac) = ETHARP_STATE_EMPTY" "ipaddr (new_entry ip mac) = ip" "waiting (new_entry ip mac) = []"
        by (simp_all add: new_entry_def)
      moreover have "\<forall>p. pbufs h' p = (if p \<in> set (waiting (arp_table s ! i)) then None else pbufs (arp_heap s) p)"
        using f(3) unfolding removes_def by (rule conjunct1)
      ultimately have ?new using f(1,2)
        by (intro exI [of _ i] exI [of _ "s\<lparr>arp_table := (arp_table s)[i := new_entry ip mac], arp_heap := h'\<rparr>"] exI [of _ "new_entry ip mac"]) simp
      with False show ?thesis by (simp only: if_False)
    qed
    moreover have "\<forall>i < 16. astate (arp_table s ! i) \<noteq> ETHARP_STATE_EMPTY \<longrightarrow> ipaddr (arp_table s ! i) \<noteq> ip" using n [unfolded ip] by blast
    ultimately show ?thesis unfolding no_entry_def all by blast
  qed
qed

theorem find_entry_chooses_witness: "find_entry (Some 0x0200000a) ETHARP_FLAG_FIND_ONLY arp_boot = Some (Inl ERR_MEM, arp_boot)"
proof -
  have "\<forall>i < 16. astate (arp_table arp_boot ! i) = ETHARP_STATE_EMPTY"
    by (simp add: arp_boot_def arp_table0_def ARP_TABLE_SIZE_def)
  moreover have "ETHARP_FLAG_FIND_ONLY AND ETHARP_FLAG_FIND_ONLY \<noteq> 0" by (simp add: ETHARP_FLAG_FIND_ONLY_def)
  ultimately show ?thesis using find_entry_chooses [OF arp_boot_run, of "0x0200000a" ETHARP_FLAG_FIND_ONLY] by meson
qed

subsection \<open>ARP packets on the wire\<close>

lemma six: "length (m :: bytes) = 6 \<Longrightarrow> \<exists>a b c d e f. m = [a, b, c, d, e, f]"
  by (auto simp: numeral_eq_Suc length_Suc_conv)

lemma ip_of_bytes [simp]: "ip_of (le32_bytes ip @ m) = ip"
  by (simp add: ip_of_def le32_bytes_def)

lemma arp_packet_fields:
  assumes "length dst = 6" "length src = 6" "length sha = 6" "length tha = 6"
    and m: "m = arp_packet dst src op sha spa tha tpa"
  shows "length m = 42" "valid_arp m" "be16 m 20 = op" "take 6 (drop 22 m) = sha" "ip_of (drop 28 m) = spa"
    "take 4 (drop 28 m) = le32_bytes spa" "ip_of (drop 38 m) = tpa"
proof -
  obtain a1 b1 c1 d1 e1 f1 where 1: "dst = [a1, b1, c1, d1, e1, f1]" using six [OF assms(1)] by blast
  obtain a2 b2 c2 d2 e2 f2 where 2: "src = [a2, b2, c2, d2, e2, f2]" using six [OF assms(2)] by blast
  obtain a3 b3 c3 d3 e3 f3 where 3: "sha = [a3, b3, c3, d3, e3, f3]" using six [OF assms(3)] by blast
  obtain a4 b4 c4 d4 e4 f4 where 4: "tha = [a4, b4, c4, d4, e4, f4]" using six [OF assms(4)] by blast
  note defs = m 1 2 3 4 arp_packet_def eth_header_def arp_hdr_def le32_bytes_def ETHARP_HWADDR_LEN_def
  show "length m = 42" "take 6 (drop 22 m) = sha" "take 4 (drop 28 m) = le32_bytes spa" "ip_of (drop 28 m) = spa" "ip_of (drop 38 m) = tpa"
    by (simp_all add: defs ip_of_def)
  show "valid_arp m" "be16 m 20 = op"
    by (simp_all add: defs valid_arp_def be16_def)
qed

lemma answer_packet:
  assumes "length dst = 6" "length mac = 6" "length hw = 6" "length tha = 6" "nif_ip netif = tpa"
    and m: "m = arp_packet dst mac op mac ip tha tpa"
  shows "splices (answer_fields netif hw m) (m @ pad) = arp_packet mac hw ARP_REPLY hw tpa mac ip @ pad"
proof -
  obtain a1 b1 c1 d1 e1 f1 where 1: "dst = [a1, b1, c1, d1, e1, f1]" using six [OF assms(1)] by blast
  obtain a2 b2 c2 d2 e2 f2 where 2: "mac = [a2, b2, c2, d2, e2, f2]" using six [OF assms(2)] by blast
  obtain a3 b3 c3 d3 e3 f3 where 3: "hw = [a3, b3, c3, d3, e3, f3]" using six [OF assms(3)] by blast
  obtain a4 b4 c4 d4 e4 f4 where 4: "tha = [a4, b4, c4, d4, e4, f4]" using six [OF assms(4)] by blast
  show ?thesis
    by (simp add: assms(5) m 1 2 3 4 arp_packet_def eth_header_def arp_hdr_def le32_bytes_def ETHARP_HWADDR_LEN_def
        splices_def answer_fields_def splice_def)
qed

text \<open>What an ARP packet does to the table and the wire before it is acted on.\<close>

definition learned :: "'w arp_env \<Rightarrow> nif \<Rightarrow> u32 \<Rightarrow> bytes \<Rightarrow> 'w arp_sys \<Rightarrow> nat \<Rightarrow> 'w arp_sys \<Rightarrow> bool" where
  "learned E netif ip mac s i s' \<longleftrightarrow> i < ARP_TABLE_SIZE \<and> arp_table s' = (arp_table s)[i := stable_entry ip mac]
     \<and> etharp_cached_entry s' = etharp_cached_entry s \<and> (if \<exists>j. has_ip (arp_table s) ip j
        then has_ip (arp_table s) ip i \<and> wire s' = sends E (waiting_frames netif mac s i) (wire s)
        else victim (arp_table s) i \<and> wire s' = wire s)
     \<and> removes (set (waiting (arp_table s ! i))) (arp_heap s) (arp_heap s')"

lemma update_learned:
  assumes s: "arp_ok s ext" and u: "unicast ip netif" and n: "hw_ok netif" "length mac = ETHARP_HWADDR_LEN"
    and f: "(\<exists>j. has_ip (arp_table s) ip j) \<or> \<not> no_entry fl (arp_table s)"
  shows "\<exists>i s'. update_arp_entry E netif ip mac fl s = Some (ERR_OK, s') \<and> arp_ok s' ext \<and> learned E netif ip mac s i s'"
proof (cases "\<exists>j. has_ip (arp_table s) ip j")
  case True
  then obtain i where i: "has_ip (arp_table s) ip i" by blast
  then have "i < ARP_TABLE_SIZE" using table_length [OF s] by (simp add: has_ip_def)
  with update_found [OF s i u n, of E fl] i show ?thesis unfolding learned_def by fastforce
next
  case False
  then have "\<forall>j. \<not> has_ip (arp_table s) ip j" "\<not> no_entry fl (arp_table s)" using f by blast+
  from update_new [OF s this u n, of E] False show ?thesis unfolding learned_def by fastforce
qed

lemma held_removes: "arp_ok s ext \<Longrightarrow> 0 < ext p \<Longrightarrow> sendable (arp_heap s) p ps \<Longrightarrow> i < ARP_TABLE_SIZE \<Longrightarrow>
    removes (set (waiting (arp_table s ! i))) (arp_heap s) h \<Longrightarrow>
    sendable h p ps \<and> map (pdata h) ps = map (pdata (arp_heap s)) ps \<and> plen h p = plen (arp_heap s) p"
  using sendable_kept_held [of s ext p ps h] kept_mono [OF removes_kept] queued_nth [of i "arp_table s"] table_length [of s ext] by metis

lemma free_held_kept:
  assumes s: "arp_ok s ext" and e: "0 < ext p" and p: "path (arp_heap s) (Some p) ps"
  shows "\<exists>n h'. pbuf_free (Some p) (arp_heap s) = Some (n, h') \<and> arp_ok (s\<lparr>arp_heap := h'\<rparr>) (ext(p := ext p - 1))
    \<and> (\<forall>x. pbufs (arp_heap s) x = None \<longrightarrow> pbufs h' x = None) \<and> kept (set ps) (arp_heap s) h'"
proof -
  obtain n h' where f: "pbuf_free (Some p) (arp_heap s) = Some (n, h')" "arp_ok (s\<lparr>arp_heap := h'\<rparr>) (ext(p := ext p - 1))"
    using free_held [OF s e] by blast
  have i: "pbuf_inv (arp_heap s) (\<lambda>a. ext a + waits (arp_table s) a)" using s by (rule arp_inv)
  obtain k h'' where g: "free_chain ps (arp_heap s) = (k, h'')" "pbuf_free (Some p) (arp_heap s) = Some (word_of_nat k, h'')"
    "shrinks (arp_heap s) h''" using pbuf_free_ok [OF inv_heap [OF i] _ p] e by auto
  then have sh: "shrinks (arp_heap s) h'" "free_chain ps (arp_heap s) = (k, h')" using f(1) by simp_all
  have "pbufs h' x = None" if "pbufs (arp_heap s) x = None" for x
    using conjunct1 [OF sh(1) [unfolded shrinks_def]] that by (cases "pbufs h' x") fastforce+
  moreover have "kept (set ps) (arp_heap s) h'"
    unfolding kept_def using free_chain_outside [OF p sh(2)] pdata_survives [OF inv_windows [OF i] sh(1)] shrinks_blocks [OF sh(1)] by blast
  ultimately show ?thesis using f by blast
qed

lemma arp_for_us: "length dst = 6 \<Longrightarrow> length src = 6 \<Longrightarrow> length sha = 6 \<Longrightarrow> length tha = 6 \<Longrightarrow>
    for_us netif (arp_packet dst src op sha spa tha tpa) \<longleftrightarrow> \<not> ip_addr_isany (nif_ip netif) \<and> tpa = nif_ip netif"
  using arp_packet_fields(7) by (simp add: for_us_def)

text \<open>C14: An ARP reply that gives the address of a station for which packets wait releases them: all are sent in the order in
  which they were queued, with the address that has been learned as destination, they are deallocated, and the entry becomes
  stable. (\<open>p\<close> holds the reply, perhaps with padding; the function of DHCP that is told about the reply does nothing.)\<close>

theorem reply_releases_packets:
  assumes run: "arp_run s ext" and n: "hw_ok netif" and dhcp: "\<forall>s. dhcp_arp_reply E ip s = s"
    and p: "sendable (arp_heap s) p ps" "0 < ext p"
    and m: "take 42 (pdata (arp_heap s) p) = arp_packet dst src ARP_REPLY mac ip tha tpa"
      "length dst = 6" "length src = 6" "length mac = 6" "length tha = 6"
    and e: "i < 16" "astate (arp_table s ! i) \<noteq> ETHARP_STATE_EMPTY" "ipaddr (arp_table s ! i) = ip" and u: "unicast ip netif"
  shows "\<exists>s'. etharp_arp_input E netif (nif_hwaddr netif) p s = Some s' \<and> arp_ok s' (ext(p := ext p - 1))
    \<and> wire s' = fold (\<lambda>q w. snd (linkoutput E [eth_header mac (nif_hwaddr netif) ETHTYPE_IP @ drop 14 (pdata (arp_heap s) q)] w))
        (waiting (arp_table s ! i)) (wire s)
    \<and> arp_table s' = (arp_table s)[i := \<lparr>waiting = [], ipaddr = ip, ethaddr = mac, astate = ETHARP_STATE_STABLE, ctime = 0\<rparr>]
    \<and> (\<forall>q \<in> set (waiting (arp_table s ! i)). pbufs (arp_heap s') q = None)
    \<and> kept (set ps \<union> set (waiting (arp_table s ! i))) (arp_heap s) (arp_heap s')"
proof -
  let ?m = "arp_packet dst src ARP_REPLY mac ip tha tpa"
  let ?fl = "if for_us netif ?m then ETHARP_FLAG_TRY_HARD else ETHARP_FLAG_FIND_ONLY"
  have s: "arp_ok s ext" using run by (rule arp_run_ok)
  have w: "windows_ok (arp_heap s)" using inv_windows [OF arp_inv [OF s]] .
  note f = arp_packet_fields [OF m(2-5) refl, of ARP_REPLY ip tpa]
  obtain as where as: "ps = p # as" using sendable_first [OF p(1)] by blast
  have l: "42 \<le> plen (arp_heap s) p"
    using f(1) [folded m(1)] length_pdata [OF w, of p] p(1) as by (simp add: sendable_def)
  have hi: "has_ip (arp_table s) ip i" using e table_length [OF s] by (simp add: has_ip_def is_empty_def ARP_TABLE_SIZE_def)
  have mac: "length mac = ETHARP_HWADDR_LEN" using m(4) by (simp add: ETHARP_HWADDR_LEN_def)
  obtain h1 where h1: "update_arp_entry E netif ip mac ?fl s = Some (ERR_OK, s\<lparr>arp_table := (arp_table s)[i := stable_entry ip mac],
           arp_heap := h1, wire := sends E (waiting_frames netif mac s i) (wire s)\<rparr>)"
      "arp_ok (s\<lparr>arp_table := (arp_table s)[i := stable_entry ip mac],
           arp_heap := h1, wire := sends E (waiting_frames netif mac s i) (wire s)\<rparr>) ext"
      "removes (set (waiting (arp_table s ! i))) (arp_heap s) h1"
    using update_found [OF s hi u n mac, of E ?fl] by blast
  define s1 where "s1 = s\<lparr>arp_table := (arp_table s)[i := stable_entry ip mac], arp_heap := h1,
    wire := sends E (waiting_frames netif mac s i) (wire s)\<rparr>"
  have "path (arp_heap s1) (Some p) ps"
    using held_removes [OF s p(2,1) _ h1(3)] e(1) by (simp add: sendable_def s1_def ARP_TABLE_SIZE_def)
  then obtain k h2 where h2: "pbuf_free (Some p) (arp_heap s1) = Some (k, h2)" "arp_ok (s1\<lparr>arp_heap := h2\<rparr>) (ext(p := ext p - 1))"
    "\<forall>x. pbufs (arp_heap s1) x = None \<longrightarrow> pbufs h2 x = None" "kept (set ps) (arp_heap s1) h2"
    using free_held_kept [OF h1(2) [folded s1_def] p(2)] by blast
  have act: "arp_act E netif (nif_hwaddr netif) p ?m s1 = Some s1"
    using f(3,5) dhcp by (simp add: arp_act_def ARP_REPLY_def ARP_REQUEST_def)
  have "etharp_arp_input E netif (nif_hwaddr netif) p s = Some (s1\<lparr>arp_heap := h2\<rparr>)"
    using arp_input_valid [OF w p(1) l f(2) m(1) [symmetric], of E netif "nif_hwaddr netif"] h1(1) [folded s1_def] h2(1) act f(4,5)
    by simp
  moreover have "\<forall>q \<in> set (waiting (arp_table s ! i)). pbufs h2 q = None"
    using h1(3) h2(3) by (simp add: removes_def s1_def)
  moreover have "wire s1 = fold (\<lambda>q w. snd (linkoutput E [eth_header mac (nif_hwaddr netif) ETHTYPE_IP @ drop 14 (pdata (arp_heap s) q)] w))
        (waiting (arp_table s ! i)) (wire s)"
    by (simp add: s1_def sends_def waiting_frames_def ip_frame_def fold_map comp_def)
  moreover have "kept (set ps \<union> set (waiting (arp_table s ! i))) (arp_heap s) h2"
    using kept_trans [OF removes_kept [OF h1(3)], of "set ps" h2] h2(4) by (simp add: s1_def Un_commute)
  ultimately show ?thesis using h2(2)
    by (intro exI [of _ "s1\<lparr>arp_heap := h2\<rparr>"]) (simp add: s1_def stable_entry_def)
qed

lemma request_input:
  assumes run: "arp_run s ext" and n: "hw_ok netif" and p: "sendable (arp_heap s) p [p]" "0 < ext p"
    and m: "pdata (arp_heap s) p = arp_packet ethbroadcast mac ARP_REQUEST mac ip ethzero (nif_ip netif) @ pad" "length mac = 6"
    and u: "unicast ip netif" "\<not> ip_addr_isany (nif_ip netif)"
  shows "\<exists>i s' fs. etharp_arp_input E netif (nif_hwaddr netif) p s = Some s' \<and> arp_ok s' (ext(p := ext p - 1))
    \<and> i < 16 \<and> arp_table s' = (arp_table s)[i := \<lparr>waiting = [], ipaddr = ip, ethaddr = mac, astate = ETHARP_STATE_STABLE, ctime = 0\<rparr>]
    \<and> (if \<exists>j. has_ip (arp_table s) ip j then has_ip (arp_table s) ip i \<and> fs = waiting_frames netif mac s i
       else victim (arp_table s) i \<and> fs = [])
    \<and> wire s' = snd (linkoutput E [arp_packet mac (nif_hwaddr netif) ARP_REPLY (nif_hwaddr netif) (nif_ip netif) mac ip @ pad]
        (sends E fs (wire s)))
    \<and> etharp_cached_entry s' = etharp_cached_entry s \<and> kept (insert p (set (waiting (arp_table s ! i)))) (arp_heap s) (arp_heap s')"
proof -
  let ?m = "arp_packet ethbroadcast mac ARP_REQUEST mac ip ethzero (nif_ip netif)"
  have s: "arp_ok s ext" using run by (rule arp_run_ok)
  have w: "windows_ok (arp_heap s)" using inv_windows [OF arp_inv [OF s]] .
  have l6: "length ethbroadcast = 6" "length ethzero = 6" "length (nif_hwaddr netif) = 6"
    using n by (simp_all add: ethbroadcast_def ethzero_def hw_ok_def)
  note f = arp_packet_fields [OF l6(1) m(2) m(2) l6(2) refl, of ARP_REQUEST ip "nif_ip netif"]
  have us: "for_us netif ?m" using arp_for_us [OF l6(1) m(2) m(2) l6(2)] u(2) by simp
  have m42: "?m = take 42 (pdata (arp_heap s) p)" using m(1) f(1) by simp
  have l: "42 \<le> plen (arp_heap s) p" using m(1) f(1) length_pdata [OF w, of p] p(1) by (simp add: sendable_def)
  have mac: "length mac = ETHARP_HWADDR_LEN" using m(2) by (simp add: ETHARP_HWADDR_LEN_def)
  obtain i s1 where s1: "update_arp_entry E netif ip mac ETHARP_FLAG_TRY_HARD s = Some (ERR_OK, s1)" "arp_ok s1 ext"
    "learned E netif ip mac s i s1"
    using update_learned [OF s u(1) n mac, of ETHARP_FLAG_TRY_HARD E] try_hard by blast
  have i: "i < ARP_TABLE_SIZE" "removes (set (waiting (arp_table s ! i))) (arp_heap s) (arp_heap s1)"
    using s1(3) by (simp_all add: learned_def)
  have d: "sendable (arp_heap s1) p [p]" "pdata (arp_heap s1) p = ?m @ pad" "42 \<le> plen (arp_heap s1) p"
    using held_removes [OF s p(2,1) i] m(1) l by simp_all
  have m1: "?m = take 42 (pdata (arp_heap s1) p)" using d(2) f(1) by simp
  obtain h2 err w2 where h2: "arp_answer E netif (nif_hwaddr netif) p ?m s1 = Some (s1\<lparr>arp_heap := h2, wire := w2\<rparr>)"
    "(err, w2) = linkoutput E [splices (answer_fields netif (nif_hwaddr netif) ?m) (?m @ pad)] (wire s1)"
    "arp_ok (s1\<lparr>arp_heap := h2, wire := w2\<rparr>) ext" "kept {p} (arp_heap s1) h2" "link h2 = link (arp_heap s1)"
    using arp_answer_ok [OF s1(2) n l6(3) d(1) p(2) d(3) m1, of E] d(2) by auto
  define s2 where "s2 = s1\<lparr>arp_heap := h2, wire := w2\<rparr>"
  have "path (arp_heap s2) (Some p) [p]"
    using h2(5) d(1) by (simp add: s2_def sendable_def)
  then obtain k h3 where h3: "pbuf_free (Some p) (arp_heap s2) = Some (k, h3)" "arp_ok (s2\<lparr>arp_heap := h3\<rparr>) (ext(p := ext p - 1))"
    "kept {p} h2 h3"
    using free_held_kept [OF h2(3) [folded s2_def] p(2), of "[p]"] by (auto simp: s2_def)
  have act: "arp_act E netif (nif_hwaddr netif) p ?m s1 = Some s2"
    using f(3) us h2(1) by (simp add: arp_act_def s2_def)
  have "etharp_arp_input E netif (nif_hwaddr netif) p s = Some (s2\<lparr>arp_heap := h3\<rparr>)"
    using arp_input_valid [OF w p(1) l f(2) m42, of E netif "nif_hwaddr netif"] s1(1) us act h3(1) f(4,5) by simp
  moreover have "w2 = snd (linkoutput E [arp_packet mac (nif_hwaddr netif) ARP_REPLY (nif_hwaddr netif) (nif_ip netif) mac ip @ pad] (wire s1))"
    using h2(2) answer_packet [OF l6(1) m(2) l6(3,2) refl refl, of netif ARP_REQUEST ip pad] by (metis snd_conv)
  moreover have "kept (insert p (set (waiting (arp_table s ! i)))) (arp_heap s) h3"
    using kept_trans [OF kept_trans [OF removes_kept [OF i(2)] h2(4)] h3(3)] by (simp add: Un_commute)
  moreover have "arp_heap (s2\<lparr>arp_heap := h3\<rparr>) = h3" by simp
  ultimately show ?thesis using h3(2) s1(3) i(1)
    by (intro exI [of _ i] exI [of _ "s2\<lparr>arp_heap := h3\<rparr>"]
        exI [of _ "if \<exists>j. has_ip (arp_table s) ip j then waiting_frames netif mac s i else []"])
      (auto simp: learned_def s2_def stable_entry_def ARP_TABLE_SIZE_def)
qed

text \<open>C36: An ARP request for the address of the interface is answered: the station that asks gets a frame of its own that
  gives the address of the interface, written over the request (padding stays), and its address is learned, at the cost of an
  old entry where the table is full. What waited for it is sent before the answer.\<close>

theorem request_is_answered:
  assumes run: "arp_run s ext" and n: "hw_ok netif" and p: "sendable (arp_heap s) p [p]" "0 < ext p"
    and m: "pdata (arp_heap s) p = arp_packet ethbroadcast mac ARP_REQUEST mac ip ethzero (nif_ip netif) @ pad" "length mac = 6"
    and u: "unicast ip netif" "\<not> ip_addr_isany (nif_ip netif)"
  shows "\<exists>i s' fs. etharp_arp_input E netif (nif_hwaddr netif) p s = Some s' \<and> arp_ok s' (ext(p := ext p - 1))
    \<and> i < 16 \<and> arp_table s' = (arp_table s)[i := \<lparr>waiting = [], ipaddr = ip, ethaddr = mac, astate = ETHARP_STATE_STABLE, ctime = 0\<rparr>]
    \<and> (if \<exists>j. has_ip (arp_table s) ip j then has_ip (arp_table s) ip i \<and> fs = waiting_frames netif mac s i
       else victim (arp_table s) i \<and> fs = [])
    \<and> wire s' = snd (linkoutput E [arp_packet mac (nif_hwaddr netif) ARP_REPLY (nif_hwaddr netif) (nif_ip netif) mac ip @ pad]
        (sends E fs (wire s)))
    \<and> etharp_cached_entry s' = etharp_cached_entry s \<and> kept (insert p (set (waiting (arp_table s ! i)))) (arp_heap s) (arp_heap s')"
  using request_input [OF assms] .

lemma cached_output:
  assumes run: "arp_run s ext" and M: "malloc_ok (memory E)" and n: "hw_ok netif" and q: "can_output s ext q qs"
    and ip: "\<not> ip_addr_isbroadcast ip netif" "\<not> ip_addr_ismulticast ip"
    and hop: "hop netif ip = nexthop" "\<not> ip_addr_isany nexthop"
    and e: "e = arp_table s ! unat (etharp_cached_entry s)" "astate e = ETHARP_STATE_STABLE" "ipaddr e = nexthop"
  shows "pbuf_header (Some q) (int SIZEOF_ETH_HDR) (arp_heap s) = Some (1, arp_heap s) \<and> etharp_output E netif q ip s = Some (ERR_BUF, s)
    \<or> (\<exists>h. pbuf_header (Some q) (int SIZEOF_ETH_HDR) (arp_heap s) = Some (0, h)
      \<and> (if pbuf_alloc (memory E) PBUF_RAW (word_of_nat (ptot h q)) PBUF_RAM h = Some (None, h) then etharp_output E netif q ip s = None
         else \<exists>err s' p. etharp_output E netif q ip s = Some (err, s')
         \<and> (err, wire s') = linkoutput E [eth_header (ethaddr e) (nif_hwaddr netif) ETHTYPE_IP @ cdata (arp_heap s) qs] (wire s)
         \<and> pbufs (arp_heap s) p = None \<and> rc (arp_heap s') p = 1 \<and> indeg (arp_heap s') p = 0 \<and> waits (arp_table s') p = 0 \<and> ext p = 0))"
proof -
  have s: "arp_ok s ext" using run by (rule arp_run_ok)
  from header_room [OF s q] show ?thesis
  proof (elim disjE exE conjE)
    assume "pbuf_header (Some q) (int SIZEOF_ETH_HDR) (arp_heap s) = Some (1, arp_heap s)"
    then show ?thesis by (simp add: etharp_output_def)
  next
    fix h' assume h: "pbuf_header (Some q) (int SIZEOF_ETH_HDR) (arp_heap s) = Some (0, h')" "arp_ok (s\<lparr>arp_heap := h'\<rparr>) ext"
      "outgoing h' q qs" "kept {q} (arp_heap s) h'" "drop 14 (pdata h' q) = pdata (arp_heap s) q"
    let ?s = "s\<lparr>arp_heap := h'\<rparr>"
    obtain as where as: "qs = q # as" using sendable_first h(3) by (fastforce simp: outgoing_def)
    have path: "path (arp_heap s) (Some q) qs" using q by (simp add: can_output_def)
    have o: "etharp_output E netif q ip s = output_unicast E netif q nexthop ?s"
      using ip hop h(1) by (auto simp: etharp_output_def hop_def split: if_splits)
    have hit: "cache_hit nexthop ?s" using e by (simp add: cache_hit_def is_stable_def)
    have d: "drop 14 (cdata h' qs) = cdata (arp_heap s) qs"
    proof -
      have "14 \<le> length (pdata h' q)" using h(3) length_pdata [OF inv_windows [OF arp_inv [OF h(2)]], of q] as
        by (simp add: outgoing_def sendable_def SIZEOF_ETH_HDR_def)
      moreover have "pdata h' x = pdata (arp_heap s) x" if "x \<in> set as" for x
      proof -
        have "pbufs (arp_heap s) x \<noteq> None" "x \<noteq> q" using path_alloc [OF path, of x] path_distinct [OF path] as that by auto
        then show ?thesis using h(4) by (simp add: kept_def)
      qed
      then have "map (pdata h') as = map (pdata (arp_heap s)) as" by simp
      ultimately show ?thesis using h(5) as by (simp add: cdata_def del: map_eq_conv)
    qed
    have E1: "arp_table ?s ! unat (etharp_cached_entry ?s) = e" using e by simp
    have og: "outgoing (arp_heap ?s) q qs" using h(3) by simp
    from output_unicast_hit [OF h(2) M n og hit] show ?thesis
    proof (elim disjE exE conjE)
      assume "output_unicast E netif q nexthop ?s = None"
        "pbuf_alloc (memory E) PBUF_RAW (word_of_nat (ptot (arp_heap ?s) q)) PBUF_RAM (arp_heap ?s) = Some (None, arp_heap ?s)"
      then show ?thesis using o h(1) by (intro disjI2 exI [of _ h']) simp
    next
      fix err p h2 w assume c: "output_unicast E netif q nexthop ?s = Some (err, ?s\<lparr>arp_heap := h2, wire := w\<rparr>)"
        "(err, w) = linkoutput E [ip_frame netif (ethaddr (arp_table ?s ! unat (etharp_cached_entry ?s))) (cdata (arp_heap ?s) qs)] (wire ?s)"
        "pbufs (arp_heap ?s) p = None" "lone h2 p" "ext p = 0" "arp_ok (?s\<lparr>arp_heap := h2, wire := w\<rparr>) (ext(p := 1))"
        and mem: "pbuf_alloc (memory E) PBUF_RAW (word_of_nat (ptot (arp_heap ?s) q)) PBUF_RAM (arp_heap ?s) \<noteq> Some (None, arp_heap ?s)"
      have "0 < (ext(p := 1)) p" by simp
      note nq = held_not_queued [OF c(6) this]
      have "rc h2 p = ((ext(p := 1)) p + waits (arp_table s) p) + indeg h2 p"
        using arp_inv [OF c(6)] refs_okD(2) [of h2 "\<lambda>a. (ext(p := 1)) a + waits (arp_table s) a" p] by (simp add: pbuf_inv_def heap_ok_def)
      moreover have "rc h2 p = 1" using c(4) by (auto simp: lone_def rc_def)
      ultimately have r: "rc h2 p = 1" "indeg h2 p = 0" "waits (arp_table s) p = 0" by simp_all
      have "pbufs (arp_heap s) p = None"
        using c(3) h(4) outgoing_packet [OF arp_inv [OF h(2)]] path_first [of h' q qs] h(3) by (cases "p = q") (auto simp: kept_def)
      then have "\<exists>err s' p. etharp_output E netif q ip s = Some (err, s')
         \<and> (err, wire s') = linkoutput E [eth_header (ethaddr e) (nif_hwaddr netif) ETHTYPE_IP @ cdata (arp_heap s) qs] (wire s)
         \<and> pbufs (arp_heap s) p = None \<and> rc (arp_heap s') p = 1 \<and> indeg (arp_heap s') p = 0 \<and> waits (arp_table s') p = 0 \<and> ext p = 0"
        using c(1,2,5) o d r unfolding E1
        by (intro exI [of _ err] exI [of _ "?s\<lparr>arp_heap := h2, wire := w\<rparr>"] exI [of _ p]) (simp add: ip_frame_def)
      then show ?thesis using h(1) mem by (intro disjI2 exI [of _ h']) (simp only: arp_sys.select_convs if_False simp_thms, simp)
    qed
  qed
qed

text \<open>C37: A packet for a station on the link (or for the gateway) whose entry is the one that \<open>etharp_output\<close> has cached is
  copied, and the copy goes out in one frame behind the header, with the address of the entry as destination. The copy is then
  left behind: it stays allocated with one reference that no pbuf, no queue and no caller holds, so that each packet sent
  in this way costs its memory for good. A packet without room for the header is refused. When the allocation of the copy
  fails, of as many bytes as the packet has with its header, the call uses a null pointer.\<close>

theorem cached_output_leaks_copy:
  assumes run: "arp_run s ext" and M: "malloc_ok (memory E)" and n: "hw_ok netif" and q: "can_output s ext q qs"
    and ip: "\<not> ip_addr_isbroadcast ip netif" "\<not> ip_addr_ismulticast ip"
    and hop: "hop netif ip = nexthop" "\<not> ip_addr_isany nexthop"
    and e: "e = arp_table s ! unat (etharp_cached_entry s)" "astate e = ETHARP_STATE_STABLE" "ipaddr e = nexthop"
  shows "pbuf_header (Some q) (int SIZEOF_ETH_HDR) (arp_heap s) = Some (1, arp_heap s) \<and> etharp_output E netif q ip s = Some (ERR_BUF, s)
    \<or> (\<exists>h. pbuf_header (Some q) (int SIZEOF_ETH_HDR) (arp_heap s) = Some (0, h)
      \<and> (if pbuf_alloc (memory E) PBUF_RAW (word_of_nat (ptot h q)) PBUF_RAM h = Some (None, h) then etharp_output E netif q ip s = None
         else \<exists>err s' p. etharp_output E netif q ip s = Some (err, s')
         \<and> (err, wire s') = linkoutput E [eth_header (ethaddr e) (nif_hwaddr netif) ETHTYPE_IP @ cdata (arp_heap s) qs] (wire s)
         \<and> pbufs (arp_heap s) p = None \<and> rc (arp_heap s') p = 1 \<and> indeg (arp_heap s') p = 0 \<and> waits (arp_table s') p = 0 \<and> ext p = 0))"
  using cached_output [OF assms] .

text \<open>A packet that cannot be queued is dropped, and the caller is told the outcome of the request.\<close>

lemma query_drops_silently:
  assumes s: "arp_ok s ext" and M: "malloc_ok (memory E)" "\<not> queue_ok E" and n: "hw_ok netif" and u: "unicast ip netif"
    and i: "has_ip (arp_table s) ip i" "astate (arp_table s ! i) = ETHARP_STATE_PENDING" and q: "outgoing (arp_heap s) q qs"
  shows "\<exists>r s0 s'. etharp_request E netif ip s = Some (r, s0) \<and> etharp_query E netif ip (Some q) s = Some (r, s')
    \<and> arp_table s' = arp_table s"
proof -
  have e: "entry s i = Some (arp_table s ! i)" "i < ARP_TABLE_SIZE" "astate (arp_table s ! i) \<noteq> ETHARP_STATE_EMPTY"
    using i table_length [OF s] by (simp_all add: has_ip_def entry_def)
  obtain r s0 where r: "requested E netif ip s r s0" "arp_ok s0 ext" using request_ok [OF s M(1) n] by blast
  note same = requested_same [OF r(1)]
  have q0: "outgoing (arp_heap s0) q qs" using kept_outgoing [OF _ _ q] same by blast
  have "etharp_query E netif ip (Some q) s = queue_packet E i q r s0"
    using u find_entry_found [OF s i(1)] e i(2) r(1) by (simp add: etharp_query_def unicast_def query_at_def requested_def)
  moreover have "\<exists>h. queue_packet E i q r s0 = Some (r, s0\<lparr>arp_heap := h\<rparr>)"
  proof -
    from take_over_ok [OF arp_inv [OF r(2)] M(1) q0] consider "take_over E q (arp_heap s0) = Some (None, arp_heap s0)"
      | p h1 where "take_over E q (arp_heap s0) = Some (Some p, h1)" "lone h1 p"
        "pbuf_inv h1 ((\<lambda>a. ext a + waits (arp_table s0) a)(p := 1))" by blast
    then show ?thesis
    proof cases
      case 1
      then show ?thesis by (intro exI [of _ "arp_heap s0"]) (simp add: queue_packet_def)
    next
      case (2 p h1)
      then obtain k h2 where "pbuf_free (Some p) h1 = Some (k, h2)" using lone_free [OF 2(2,3)] by auto
      then show ?thesis using 2(1) M(2) by (intro exI [of _ h2]) (simp add: queue_packet_def)
    qed
  qed
  ultimately show ?thesis using r(1) same by (auto simp: requested_def)
qed

text \<open>A station that has just been booted and holds one packet.\<close>

lemma boot_alloc: "\<exists>h b. pbuf_alloc small_malloc l n PBUF_RAM no_pbufs = Some (Some 1, h) \<and> pbufs h 2 = None \<and> blocks h 2 = None
    \<and> pbufs h 3 = None \<and> blocks h 3 = None \<and> pbufs h 1 = Some b \<and> payload b = Some (1, int (LWIP_MEM_ALIGN_SIZE (layer_offset l))) \<and> ptype b = PBUF_RAM"
  by (simp add: pbuf_alloc_def small_malloc_def no_pbufs_def size_defs upt_rec Let_def new_pbuf_def)

lemma next_alloc:
  assumes "\<forall>a \<in> {1..<k}. pbufs h a \<noteq> None" "pbufs h k = None" "blocks h k = None" "0 < k" "k < 9"
  shows "\<exists>h'. pbuf_alloc small_malloc PBUF_RAW n PBUF_RAM h = Some (Some k, h')
    \<and> (\<forall>a. a \<noteq> k \<longrightarrow> pbufs h' a = pbufs h a \<and> blocks h' a = blocks h a)"
proof -
  have "[1..<9] = [1..<k] @ k # [Suc k..<9]" using assms(4,5) upt_add_eq_append [of 1 k "9 - k"] upt_conv_Cons [of k 9] by simp
  then have "filter (\<lambda>a. pbufs h a = None \<and> blocks h a = None) [1..<9] = k # filter (\<lambda>a. pbufs h a = None \<and> blocks h a = None) [Suc k..<9]"
    using assms(1-3) by simp
  then show ?thesis by (simp add: pbuf_alloc_def small_malloc_def size_defs Let_def new_pbuf_def)
qed

definition holds :: "'w arp_sys \<Rightarrow> nat \<Rightarrow> nat \<Rightarrow> bool" where
  "holds s p n \<longleftrightarrow> sendable (arp_heap s) p [p] \<and> lone (arp_heap s) p \<and> plen (arp_heap s) p = n \<and> ptot (arp_heap s) p = n"

lemma kept_holds: "holds s p n \<Longrightarrow> kept A (arp_heap s) h \<Longrightarrow> p \<notin> A \<Longrightarrow> holds (s\<lparr>arp_heap := h\<rparr>) p n"
  using kept_lone [of A "arp_heap s" h p] kept_sendable [of A "arp_heap s" h "[p]" p] kept_sizes [of A "arp_heap s" h p]
  by (simp add: holds_def)

lemma run_alloc:
  assumes s: "arp_run s ext" and a: "pbuf_alloc small_malloc l n PBUF_RAM (arp_heap s) = Some (Some p, h)" and n: "14 \<le> unat n"
  shows "arp_run (s\<lparr>arp_heap := h\<rparr>) (ext(p := 1))" "holds (s\<lparr>arp_heap := h\<rparr>) p (unat n)" "kept {p} (arp_heap s) h"
proof -
  show "arp_run (s\<lparr>arp_heap := h\<rparr>) (ext(p := 1))"
    by (rule arp_call [OF s over_ok [of "\<lambda>_ w. (ERR_OK, w)"] host_ok(1), of "User_call (Alloc l n PBUF_RAM)"]) (use a in simp_all)
  show "holds (s\<lparr>arp_heap := h\<rparr>) p (unat n)" "kept {p} (arp_heap s) h"
    using arp_alloc_layer [OF small_malloc_ok arp_inv [OF arp_run_ok [OF s]], of l n] a n by (auto simp: holds_def sendable_def SIZEOF_ETH_HDR_def)
qed

lemma take_whole:
  assumes s: "arp_ok s ext" and p: "holds s p (length f)" and e: "0 < ext p" and f: "length f < 65536"
  shows "\<exists>h. pbuf_take (Some p) f (word_of_nat (length f)) (arp_heap s) = Some (ERR_OK, h)
    \<and> allowed (Take p f (word_of_nat (length f))) (arp_heap s) ext
    \<and> holds (s\<lparr>arp_heap := h\<rparr>) p (length f) \<and> pdata h p = f \<and> kept {p} (arp_heap s) h"
proof -
  let ?n = "word_of_nat (length f) :: u16"
  have i: "pbuf_inv (arp_heap s) (\<lambda>a. ext a + waits (arp_table s) a)" using arp_inv [OF s] .
  have u: "unat ?n = length f" using f by (simp add: unat_of_nat)
  have h: "path (arp_heap s) (Some p) [p]" "\<forall>x \<in> set [p]. owned (arp_heap s) x" using p by (simp_all add: holds_def sendable_def)
  have pk: "packet (arp_heap s) [p]" using tot_packet [OF _ h(1)] i by (simp add: pbuf_inv_def)
  have pt: "ptot (arp_heap s) p = length f" "plen (arp_heap s) p = length f" using p by (simp_all add: holds_def)
  obtain h' where t: "pbuf_take (Some p) f ?n (arp_heap s) = Some (ERR_OK, h')" "same_shape (arp_heap s) h'"
    "cdata h' [p] = f @ drop (length f) (cdata (arp_heap s) [p])" "\<forall>x. x \<noteq> p \<longrightarrow> pdata h' x = pdata (arp_heap s) x"
    using pbuf_take_ok [OF inv_windows [OF i] h pk, of ?n f] u pt by auto
  have "length (pdata (arp_heap s) p) = length f"
    using length_pdata [OF inv_windows [OF i], of p] p pt by (simp add: holds_def sendable_def)
  then have d: "pdata h' p = f" using t(3) by simp
  have w: "written p f (arp_heap s) h'" using t(2,4) d by (simp add: written_def)
  have "allowed (Take p f ?n) (arp_heap s) ext" using h u e by (simp del: list.set) (intro exI [of _ "[p]"], simp)
  moreover have "holds (s\<lparr>arp_heap := h'\<rparr>) p (length f)"
    using p written_same [OF w] same_shape_sizes [OF t(2)] by (simp add: holds_def)
  ultimately show ?thesis using d written_kept [OF w] t(1) by blast
qed

lemma run_take:
  assumes s: "arp_run s ext" and p: "holds s p (length f)" "0 < ext p" and f: "length f < 65536"
  shows "\<exists>h. arp_run (s\<lparr>arp_heap := h\<rparr>) ext \<and> holds (s\<lparr>arp_heap := h\<rparr>) p (length f) \<and> pdata h p = f \<and> kept {p} (arp_heap s) h"
proof -
  obtain h where h: "pbuf_take (Some p) f (word_of_nat (length f)) (arp_heap s) = Some (ERR_OK, h)"
    "allowed (Take p f (word_of_nat (length f))) (arp_heap s) ext" "holds (s\<lparr>arp_heap := h\<rparr>) p (length f)" "pdata h p = f" "kept {p} (arp_heap s) h"
    using take_whole [OF arp_run_ok [OF s] p f] by blast
  have "arp_run (s\<lparr>arp_heap := h\<rparr>) ext"
    by (rule arp_call [OF s over_ok [of "\<lambda>_ w. (ERR_OK, w)"] host_ok(1), of "User_call (Take p f (word_of_nat (length f)))"]) (use h in simp_all)
  then show ?thesis using h by blast
qed

lemma booted_with:
  assumes "length f < 65536" "14 \<le> length f"
  shows "\<exists>h. arp_run (arp_boot\<lparr>arp_heap := h\<rparr>) ((\<lambda>_. 0)(1 := 1)) \<and> holds (arp_boot\<lparr>arp_heap := h\<rparr>) 1 (length f) \<and> pdata h 1 = f"
proof -
  have u: "unat (word_of_nat (length f) :: u16) = length f" using assms(1) by (simp add: unat_of_nat)
  obtain h where a: "pbuf_alloc small_malloc PBUF_RAW (word_of_nat (length f)) PBUF_RAM (arp_heap arp_boot) = Some (Some 1, h)"
    using boot_alloc [of PBUF_RAW] by (auto simp: arp_boot_def)
  note r = run_alloc [OF arp_boot_run a]
  show ?thesis using run_take [OF r(1), of 1 f] r(2) assms u by auto
qed

lemma preds_none: "pbuf_inv h X \<Longrightarrow> indeg h x = 0 \<Longrightarrow> preds h x = {}"
proof -
  assume i: "pbuf_inv h X" and o: "indeg h x = 0"
  have "finite (dom (pbufs h))" using i by (simp add: pbuf_inv_def heap_ok_def refs_ok_def)
  then have "finite (preds h x)" by (rule finite_subset [rotated]) (auto simp: preds_def link_def)
  then show ?thesis using o by (simp add: indeg_def)
qed

lemma holds_output: "arp_ok s ext \<Longrightarrow> holds s q n \<Longrightarrow> 0 < ext q \<Longrightarrow> n + 14 < 65536 \<Longrightarrow> can_output s ext q [q]"
proof -
  assume s: "arp_ok s ext" and h: "holds s q n" and e: "0 < ext q" and n: "n + 14 < 65536"
  have i: "pbuf_inv (arp_heap s) (\<lambda>a. ext a + waits (arp_table s) a)" using s by (rule arp_inv)
  have "rc (arp_heap s) q = ext q + waits (arp_table s) q + indeg (arp_heap s) q"
    using refs_okD(2) [of "arp_heap s" "\<lambda>a. ext a + waits (arp_table s) a" q] i by (simp add: pbuf_inv_def heap_ok_def)
  moreover have "rc (arp_heap s) q = 1" using h by (auto simp: holds_def lone_def rc_def)
  ultimately have "preds (arp_heap s) q = {}" using preds_none [OF i] e by simp
  then show ?thesis using h e n by (simp add: can_output_def holds_def sendable_def dense_def SIZEOF_ETH_HDR_def)
qed

definition ask :: "bytes \<Rightarrow> u32 \<Rightarrow> bytes" where
  "ask mac ip = arp_packet ethbroadcast mac ARP_REQUEST mac ip ethzero 0x0200000a"

definition ask12 :: bytes where
  "ask12 = ask [2,0,0,0,0,1] 0x0100000a"

lemma length_ask: "length mac = 6 \<Longrightarrow> length (ask mac ip) = 42"
  by (simp add: ask_def arp_packet_def ethbroadcast_def ethzero_def)

lemma hosts [simp]: "nif_ip host1 = 0x0100000a" "nif_ip host2 = 0x0200000a" "nif_hwaddr host1 = [2,0,0,0,0,1]" "nif_hwaddr host2 = [2,0,0,0,0,2]"
  by (simp_all add: host1_def host2_def host_nif_def)

lemma host2_any: "\<not> ip_addr_isany 0x0200000a" "\<not> ip_addr_isany 0x0100000a"
  by (simp_all add: ip_addr_isany_def IPADDR_ANY_def)

lemma length_ask12: "length ask12 = 42"
  by (simp add: ask12_def length_ask)

text \<open>The second host is asked by the first one while its table is empty.\<close>

lemma fresh_victim: "victim arp_table0 i \<Longrightarrow> i = 0"
proof -
  assume v: "victim arp_table0 i"
  have e: "is_empty (arp_table0 ! 0)" "\<exists>e \<in> set arp_table0. is_empty e" "i < length arp_table0"
    using v by (simp_all add: arp_table0_def ARP_TABLE_SIZE_def is_empty_def victim_def)
  then have "first_empty arp_table0 i" using v by (simp add: victim_def)
  then show ?thesis using e(1,3) by (cases i) (auto simp: first_empty_def)
qed

lemma asked:
  assumes s: "arp_run s ext" and no: "\<not> (\<exists>j. has_ip (arp_table s) ip j)" and m: "length mac = 6" "unicast ip host2"
    and p: "holds s p 42" "pdata (arp_heap s) p = ask mac ip" "0 < ext p"
  shows "\<exists>i s'. etharp_arp_input (over f) host2 [2,0,0,0,0,2] p s = Some s' \<and> arp_run s' (ext(p := ext p - 1)) \<and> victim (arp_table s) i
    \<and> arp_table s' = (arp_table s)[i := stable_entry ip mac] \<and> etharp_cached_entry s' = etharp_cached_entry s
    \<and> kept (insert p (set (waiting (arp_table s ! i)))) (arp_heap s) (arp_heap s')"
proof -
  have d: "pdata (arp_heap s) p = arp_packet ethbroadcast mac ARP_REQUEST mac ip ethzero (nif_ip host2) @ []"
    using p(2) by (simp add: ask_def)
  have sp: "sendable (arp_heap s) p [p]" using p(1) by (simp add: holds_def)
  have n: "\<not> ip_addr_isany (nif_ip host2)" using host2_any by simp
  from request_input [OF s host_ok(2) sp p(3) d m n, of "over f"] no
  obtain i s' where r: "etharp_arp_input (over f) host2 (nif_hwaddr host2) p s = Some s'" "victim (arp_table s) i"
    "arp_table s' = (arp_table s)[i := \<lparr>waiting = [], ipaddr = ip, ethaddr = mac, astate = ETHARP_STATE_STABLE, ctime = 0\<rparr>]"
    "etharp_cached_entry s' = etharp_cached_entry s" "kept (insert p (set (waiting (arp_table s ! i)))) (arp_heap s) (arp_heap s')"
    by auto
  have "arp_run s' (ext(p := ext p - 1))"
    by (rule arp_call [OF s over_ok [of f] host_ok(2), of "Arp_packet_in p"]) (use p(3) sp r(1) in auto)
  then show ?thesis using r by (auto simp: stable_entry_def)
qed

lemma asked12:
  assumes s: "arp_run s ext" "arp_table s = arp_table0" and p: "holds s p 42" "pdata (arp_heap s) p = ask mac ip" "0 < ext p"
    and m: "length mac = 6" "unicast ip host2"
  shows "\<exists>s'. etharp_arp_input (over f) host2 [2,0,0,0,0,2] p s = Some s' \<and> arp_run s' (ext(p := ext p - 1))
    \<and> arp_table s' = arp_table0[0 := stable_entry ip mac] \<and> etharp_cached_entry s' = etharp_cached_entry s
    \<and> kept {p} (arp_heap s) (arp_heap s')"
proof -
  have no: "\<not> (\<exists>j. has_ip (arp_table s) ip j)" using s(2) by (auto simp: has_ip_def arp_table0_def is_empty_def)
  obtain i s' where r: "etharp_arp_input (over f) host2 [2,0,0,0,0,2] p s = Some s'" "arp_run s' (ext(p := ext p - 1))" "victim (arp_table s) i"
    "arp_table s' = (arp_table s)[i := stable_entry ip mac]" "etharp_cached_entry s' = etharp_cached_entry s"
    "kept (insert p (set (waiting (arp_table s ! i)))) (arp_heap s) (arp_heap s')"
    using asked [OF s(1) no m p, of f] by blast
  have "i = 0" using fresh_victim r(3) s(2) by simp
  moreover have "waiting (arp_table s ! 0) = []" using s(2) by (simp add: arp_table0_def ARP_TABLE_SIZE_def)
  ultimately show ?thesis using r s(2) by auto
qed

theorem request_is_answered_witness:
  "\<exists>s s'. etharp_arp_input (logging True) host2 [2,0,0,0,0,2] 1 s = Some s'
    \<and> wire s' = [arp_packet [2,0,0,0,0,1] [2,0,0,0,0,2] ARP_REPLY [2,0,0,0,0,2] 0x0200000a [2,0,0,0,0,1] 0x0100000a]"
proof -
  obtain h where h: "arp_run (arp_boot\<lparr>arp_heap := h\<rparr>) ((\<lambda>_. 0)(1 := 1))" "holds (arp_boot\<lparr>arp_heap := h\<rparr>) 1 42" "pdata h 1 = ask12"
    using booted_with [of ask12] length_ask12 by auto
  have t: "\<not> (\<exists>j. has_ip (arp_table (arp_boot\<lparr>arp_heap := h\<rparr>)) ip j)" for ip
    by (auto simp: has_ip_def arp_boot_def arp_table0_def is_empty_def)
  have p: "sendable (arp_heap (arp_boot\<lparr>arp_heap := h\<rparr>)) 1 [1]" "(0 :: nat) < ((\<lambda>_. 0)(1 := 1)) (1 :: nat)"
    "pdata (arp_heap (arp_boot\<lparr>arp_heap := h\<rparr>)) 1
      = arp_packet ethbroadcast [2,0,0,0,0,1] ARP_REQUEST [2,0,0,0,0,1] 0x0100000a ethzero (nif_ip host2) @ []"
    "\<not> ip_addr_isany (nif_ip host2)" "length [2,0,0,0,0,1 :: u8] = 6"
    using h(2,3) host2_any by (simp_all add: holds_def ask12_def ask_def)
  have "wire (arp_boot\<lparr>arp_heap := h\<rparr>) = []" by (simp add: arp_boot_def)
  then show ?thesis
    using request_is_answered [OF h(1) host_ok(2) p(1-3,5) host_unicast(3) p(4), of "logging True"] t [of "0x0100000a"] by fastforce
qed

text \<open>The answer of the second host for the first one, which has sent a query.\<close>

definition reply21 :: bytes where
  "reply21 = arp_packet [2,0,0,0,0,1] [2,0,0,0,0,2] ARP_REPLY [2,0,0,0,0,2] 0x0200000a [2,0,0,0,0,1] 0x0100000a"

lemma length_reply21: "length reply21 = 42"
  by (simp add: reply21_def arp_packet_def)

theorem reply_releases_packets_witness:
  "\<exists>(s :: bytes list arp_sys) s' i. astate (arp_table s ! i) = ETHARP_STATE_PENDING
     \<and> etharp_arp_input (logging True) host1 [2,0,0,0,0,1] 1 s = Some s'
     \<and> arp_table s' = (arp_table s)[i := \<lparr>waiting = [], ipaddr = 0x0200000a, ethaddr = [2,0,0,0,0,2], astate = ETHARP_STATE_STABLE, ctime = 0\<rparr>]"
proof -
  obtain h where h: "arp_run (arp_boot\<lparr>arp_heap := h\<rparr>) ((\<lambda>_. 0)(1 := 1))" "holds (arp_boot\<lparr>arp_heap := h\<rparr>) 1 42" "pdata h 1 = reply21"
    using booted_with [of reply21] length_reply21 by auto
  have "arp_table (arp_boot\<lparr>arp_heap := h\<rparr>) = arp_table0" by (simp add: arp_boot_def)
  from queried [OF h(1) this] obtain s :: "bytes list arp_sys" and i where s: "arp_run s ((\<lambda>_. 0)(1 := 1))" "i < 16" "has_ip (arp_table s) 0x0200000a i"
    "astate (arp_table s ! i) = ETHARP_STATE_PENDING" "kept {} h (arp_heap s)" by auto
  have "pbufs h 1 \<noteq> None" using h(2) by (auto simp: holds_def lone_def)
  then have d: "pdata (arp_heap s) 1 = reply21" using s(5) h(3) by (simp add: kept_def)
  have "sendable (arp_heap s) 1 [1]" using kept_sendable [OF s(5), of "[1]" 1] h(2) by (simp add: holds_def)
  moreover have "take 42 (pdata (arp_heap s) 1)
      = arp_packet [2,0,0,0,0,1] [2,0,0,0,0,2] ARP_REPLY [2,0,0,0,0,2] 0x0200000a [2,0,0,0,0,1] 0x0100000a"
    using d length_reply21 by (simp add: reply21_def)
  moreover have "astate (arp_table s ! i) \<noteq> ETHARP_STATE_EMPTY" "ipaddr (arp_table s ! i) = 0x0200000a"
    using s(3,4) by (simp_all add: has_ip_def)
  ultimately show ?thesis
    using reply_releases_packets [OF s(1) host_ok(1), of "logging True" "0x0200000a" 1 "[1]" _ _ _ _ _ i] s(2,4) host_unicast(2)
    by fastforce
qed

lemma logging_sends: "etharp_send_ip (logging ok) netif p src dst s = Some (err, s') \<Longrightarrow> err = ERR_OK"
  by (auto simp: etharp_send_ip_def link_output_def split: bind_splits if_splits)

text \<open>The second host, that has learned the address of the first one, sends it a packet.\<close>

lemma small_malloc_room:
  assumes "a \<in> {1..<9}" and "pbufs h a = None" and "blocks h a = None"
  shows "pbuf_alloc small_malloc PBUF_RAW n PBUF_RAM h \<noteq> Some (None, h)"
proof -
  have "a \<in> set (filter (\<lambda>a. pbufs h a = None \<and> blocks h a = None) [1..<9])" using assms by simp
  then obtain b bs where "filter (\<lambda>a. pbufs h a = None \<and> blocks h a = None) [1..<9] = b # bs"
    by (cases "filter (\<lambda>a. pbufs h a = None \<and> blocks h a = None) [1..<9]") (simp only: list.set empty_iff, blast)
  then show ?thesis by (simp add: pbuf_alloc_def small_malloc_def size_defs Let_def)
qed

theorem cached_output_leaks_copy_witness:
  "\<exists>(s :: bytes list arp_sys) s' p qs. etharp_output (logging True) host2 1 0x0100000a s = Some (ERR_OK, s')
     \<and> wire s' = wire s @ [eth_header [2,0,0,0,0,1] [2,0,0,0,0,2] ETHTYPE_IP @ cdata (arp_heap s) qs]
     \<and> pbufs (arp_heap s) p = None \<and> rc (arp_heap s') p = 1 \<and> indeg (arp_heap s') p = 0 \<and> waits (arp_table s') p = 0"
proof -
  obtain h1 b where h1: "pbuf_alloc small_malloc PBUF_LINK 20 PBUF_RAM (arp_heap arp_boot) = Some (Some 1, h1)" "pbufs h1 2 = None"
    "blocks h1 2 = None" "pbufs h1 1 = Some b" "payload b = Some (1, int (LWIP_MEM_ALIGN_SIZE (layer_offset PBUF_LINK)))" "ptype b = PBUF_RAM"
    "pbufs h1 3 = None" "blocks h1 3 = None"
    using boot_alloc [of PBUF_LINK 20] by (auto simp: arp_boot_def)
  note r1 = run_alloc [OF arp_boot_run h1(1)]
  obtain h2 where h2: "pbuf_alloc small_malloc PBUF_RAW 42 PBUF_RAM (arp_heap (arp_boot\<lparr>arp_heap := h1\<rparr>)) = Some (Some 2, h2)"
    using next_alloc [of 2 h1 42] h1(2-4) by (auto simp: less_Suc_eq numeral_2_eq_2)
  note r2 = run_alloc [OF r1(1) h2]
  obtain h3 where h3: "arp_run (arp_boot\<lparr>arp_heap := h3\<rparr>) ((\<lambda>_. 0)(1 := 1, 2 := 1))" "holds (arp_boot\<lparr>arp_heap := h3\<rparr>) 2 42"
    "pdata h3 2 = ask12" "kept {2} h2 h3"
    using run_take [OF r2(1), of 2 ask12] r2(2) length_ask12 by auto
  obtain s :: "bytes list arp_sys" where s: "arp_run s ((\<lambda>_. 0)(1 := 1, 2 := 0))"
    "arp_table s = arp_table0[0 := stable_entry 0x0100000a [2,0,0,0,0,1]]" "etharp_cached_entry s = 0" "kept {2} h3 (arp_heap s)"
    using asked12 [OF h3(1) _ h3(2), of "[2,0,0,0,0,1]" "0x0100000a"] h3(3) host_unicast(3)
    by (auto simp: arp_boot_def fun_upd_twist ask12_def)
  have k: "kept {2} h1 (arp_heap s)"
    using kept_trans [OF kept_trans [OF r2(3) h3(4)] s(4)] by simp
  have hq: "holds s 1 20" using kept_holds [OF r1(2), of "{2}" "arp_heap s"] k r1(2) by (simp add: holds_def)
  have c: "can_output s ((\<lambda>_. 0)(1 := 1, 2 := 0)) 1 [1]" using holds_output [OF arp_run_ok [OF s(1)] hq] by simp
  have e: "arp_table s ! unat (etharp_cached_entry s) = stable_entry 0x0100000a [2,0,0,0,0,1]"
    using s(2,3) by (simp add: arp_table0_def ARP_TABLE_SIZE_def)
  have hop: "hop host2 0x0100000a = 0x0100000a" "\<not> ip_addr_isbroadcast 0x0100000a host2" "\<not> ip_addr_ismulticast 0x0100000a"
    by code_simp+
  have "pbufs (arp_heap s) 1 = Some b" using k h1(4) by (simp add: kept_def)
  then obtain h where hr: "pbuf_header (Some 1) (int SIZEOF_ETH_HDR) (arp_heap s) = Some (0, h)"
    using h1(5,6) by (auto simp: pbuf_header_def SIZEOF_ETH_HDR_def size_defs Let_def)
  have "kept {1} (arp_heap s) h"
    using header_room [OF arp_run_ok [OF s(1)] c] hr by auto
  then have "pbufs h 3 = None" "blocks h 3 = None"
    using kept_trans [OF k, of "{1}" h] h1(7,8) by (simp_all add: kept_def)
  then have room: "pbuf_alloc small_malloc PBUF_RAW n PBUF_RAM h \<noteq> Some (None, h)" for n by (intro small_malloc_room) simp_all
  have M: "malloc_ok (memory (logging True))" using small_malloc_ok by simp
  have st: "astate (stable_entry 0x0100000a [2,0,0,0,0,1]) = ETHARP_STATE_STABLE" "ipaddr (stable_entry 0x0100000a [2,0,0,0,0,1]) = 0x0100000a"
    by simp_all
  from cached_output_leaks_copy [OF s(1) M host_ok(2) c hop(2,3,1) host2_any(2) e [symmetric] st] hr room
  obtain err s' p where o: "etharp_output (logging True) host2 1 0x0100000a s = Some (err, s')"
      "(err, wire s') = linkoutput (logging True)
         [eth_header (ethaddr (stable_entry 0x0100000a [2,0,0,0,0,1])) (nif_hwaddr host2) ETHTYPE_IP @ cdata (arp_heap s) [1]] (wire s)"
      "pbufs (arp_heap s) p = None" "rc (arp_heap s') p = 1" "indeg (arp_heap s') p = 0" "waits (arp_table s') p = 0"
    by (auto simp del: append.simps split: if_splits)
  have f: "err = ERR_OK" "wire s' = wire s @ [eth_header [2,0,0,0,0,1] [2,0,0,0,0,2] ETHTYPE_IP @ cdata (arp_heap s) [1]]"
    using o(2) by (simp_all del: append.simps)
  then show ?thesis using o(1,3-6) by blast
qed

end
