(* ===== verification/Client_Link.thy ===== *)
theory Client_Link imports Etharp_Api Ankh_If begin

section \<open>Address resolution over the interface of a client\<close>

text \<open>
  \<open>netif->linkoutput\<close> of a client is \<open>low_level_output\<close> of theory \<open>Ankh_If\<close>, which
  sends one frame per pbuf; what leaves a client in each state of the ARP table is the composition of both.
\<close>

text \<open>\<open>low_level_output\<close> has no other result than \<open>ERR_OK\<close>.\<close>

definition client_link :: "'w ankh_env \<Rightarrow> bytes list \<Rightarrow> 'w ankhif \<Rightarrow> err_t \<times> 'w ankhif" where
  "client_link A ms w = (let (r, w) = low_level_output A ms w in (if r = 0 then Lwip_Err.ERR_OK else ERR_IF, w))"

lemma client_link_log: "client_link (log_env r) ms w = (Lwip_Err.ERR_OK, w\<lparr>world := world w @ ms, st_xmit := st_xmit w + 1\<rparr>)"
  by (simp add: client_link_def low_level_output_def send_chain_log Ankh_If.ERR_OK_def)

text \<open>A station that is known but not the one that the last packet went to.\<close>

lemma stable_output:
  assumes s: "arp_ok s ext" and M: "malloc_ok (memory E)" and n: "hw_ok netif" and q: "can_output s ext q (q # qs)"
    and h: "pbuf_header (Some q) (int SIZEOF_ETH_HDR) (arp_heap s) = Some (0, h)"
    and ip: "\<not> ip_addr_isbroadcast ip netif" "\<not> ip_addr_ismulticast ip" "hop netif ip = nexthop" "unicast nexthop netif"
    and i: "has_ip (arp_table s) nexthop i" "astate (arp_table s ! i) = ETHARP_STATE_STABLE" "unat (etharp_cached_entry s) \<noteq> i"
  shows "\<exists>err s'. etharp_output E netif q ip s = Some (err, s') \<and> arp_ok s' ext \<and> etharp_cached_entry s' = word_of_nat i
    \<and> (err, wire s') = linkoutput E ((eth_header (ethaddr (arp_table s ! i)) (nif_hwaddr netif) ETHTYPE_IP @ pdata (arp_heap s) q)
         # map (pdata (arp_heap s)) qs) (wire s)"
proof -
  let ?s = "s\<lparr>arp_heap := h\<rparr>"
  have hr: "arp_ok ?s ext" "outgoing h q (q # qs)" "kept {q} (arp_heap s) h" "drop 14 (pdata h q) = pdata (arp_heap s) q"
    using header_room [OF s q] h by auto
  have path: "path (arp_heap s) (Some q) (q # qs)" and e: "0 < ext q" using q by (simp_all add: can_output_def)
  have t: "i < ARP_TABLE_SIZE" "ipaddr (arp_table s ! i) = nexthop" using i(1) table_length [OF s] by (simp_all add: has_ip_def)
  have ci: "unat (etharp_cached_entry s) < ARP_TABLE_SIZE" using s by (simp add: arp_ok_def)
  have miss: "\<not> cache_hit nexthop ?s"
  proof
    assume "cache_hit nexthop ?s"
    then have "has_ip (arp_table s) nexthop (unat (etharp_cached_entry s))"
      using ci table_length [OF s] by (simp add: cache_hit_def has_ip_def is_stable_def is_empty_def)
    then show False using has_ip_unique [OF _ i(1)] i(3) s by (auto simp: arp_ok_def)
  qed
  have "etharp_output E netif q ip s = output_unicast E netif q nexthop ?s"
    using ip h by (auto simp: etharp_output_def hop_def unicast_def split: if_splits)
  also have "\<dots> = etharp_query E netif nexthop (Some q) ?s" by (rule output_unicast_miss [OF hr(1) miss])
  also have "\<dots> = query_at E netif nexthop (Some q) i ?s"
    using find_entry_found [OF hr(1), of nexthop i] i(1,2) ip(4) t
    by (simp add: etharp_query_def unicast_def entry_def has_ip_def)
  finally have o: "etharp_output E netif q ip s = query_at E netif nexthop (Some q) i ?s" .
  have "pdata h x = pdata (arp_heap s) x" if "x \<in> set qs" for x
  proof -
    have "pbufs (arp_heap s) x \<noteq> None" "x \<noteq> q" using path_alloc [OF path, of x] path_distinct [OF path] that by auto
    then show ?thesis using hr(3) by (simp add: kept_def)
  qed
  then have d: "map (pdata h) qs = map (pdata (arp_heap s)) qs" by simp
  have st: "arp_table ?s = arp_table s" "arp_heap ?s = h" "wire ?s = wire s" by simp_all
  have og: "outgoing (arp_heap ?s) q (q # qs)" "astate (arp_table ?s ! i) = ETHARP_STATE_STABLE" using hr(2) i(2) by simp_all
  obtain err h' w where r: "query_at E netif nexthop (Some q) i ?s = Some (err, ?s\<lparr>etharp_cached_entry := word_of_nat i, arp_heap := h', wire := w\<rparr>)"
    "arp_ok (?s\<lparr>etharp_cached_entry := word_of_nat i, arp_heap := h', wire := w\<rparr>) ext"
    "(err, w) = linkoutput E (ip_frame netif (ethaddr (arp_table s ! i)) (pdata h q) # map (pdata h) qs) (wire s)"
    using query_at_stable [OF hr(1) n t(1) og(2,1) e, of E nexthop] unfolding st by blast
  show ?thesis using o r d hr(4)
    by (intro exI [of _ err] exI [of _ "?s\<lparr>etharp_cached_entry := word_of_nat i, arp_heap := h', wire := w\<rparr>"]) (simp add: ip_frame_def)
qed

text \<open>C15: A packet in several pbufs that a client sends to a station whose address is known leaves in one frame only when the
  packet before went to the same station, because it is then copied. Otherwise its first pbuf leaves in a frame of its own and
  each other pbuf as a frame that is a piece of the packet without any header; the call reports success.\<close>

theorem chains_leave_in_pieces:
  assumes run: "arp_run s ext" and M: "malloc_ok (memory E)" and n: "hw_ok netif" and q: "can_output s ext q (q # qs)"
    and h: "pbuf_header (Some q) (int SIZEOF_ETH_HDR) (arp_heap s) = Some (0, h)"
    and ip: "\<not> ip_addr_isbroadcast ip netif" "\<not> ip_addr_ismulticast ip" "hop netif ip = nexthop" "unicast nexthop netif"
    and i: "i < 16" "astate (arp_table s ! i) = ETHARP_STATE_STABLE" "ipaddr (arp_table s ! i) = nexthop"
    and link: "linkoutput E = client_link (log_env r)"
    and hdr: "hdr = eth_header (ethaddr (arp_table s ! i)) (nif_hwaddr netif) ETHTYPE_IP"
  shows "if unat (etharp_cached_entry s) = i
    then etharp_output E netif q ip s \<in> {None, Some (ERR_BUF, s)} \<or> (\<exists>s'. etharp_output E netif q ip s = Some (Lwip_Err.ERR_OK, s')
       \<and> world (wire s') = world (wire s) @ [hdr @ cdata (arp_heap s) (q # qs)])
    else \<exists>s'. etharp_output E netif q ip s = Some (Lwip_Err.ERR_OK, s')
       \<and> world (wire s') = world (wire s) @ (hdr @ pdata (arp_heap s) q) # map (pdata (arp_heap s)) qs"
proof -
  have s: "arp_ok s ext" using run by (rule arp_run_ok)
  have any: "\<not> ip_addr_isany nexthop" using ip(4) by (simp add: unicast_def)
  have hi: "has_ip (arp_table s) nexthop i" using i table_length [OF s] by (simp add: has_ip_def is_empty_def ARP_TABLE_SIZE_def)
  show ?thesis
  proof (cases "unat (etharp_cached_entry s) = i")
    case True
    then have e: "arp_table s ! i = arp_table s ! unat (etharp_cached_entry s)" by simp
    from cached_output [OF run M n q ip(1-3) any e i(2,3)] True show ?thesis
      by (auto simp: link client_link_log hdr split: if_splits)
  next
    case False
    from stable_output [OF s M n q h ip hi i(2) False] False show ?thesis
      by (auto simp: link client_link_log hdr)
  qed
qed

text \<open>A packet of two pool buffers with room for a header, at a station that has learned two addresses.\<close>

definition chain_heap :: heap where
  "chain_heap = \<lparr>pbufs = [1 \<mapsto> \<lparr>nxt = Some 2, payload = Some (1, 16), tot_len = 200, len = 168, ptype = PBUF_POOL, flags = 0, ref = 1\<rparr>,
       2 \<mapsto> \<lparr>nxt = None, payload = Some (2, 0), tot_len = 32, len = 32, ptype = PBUF_POOL, flags = 0, ref = 1\<rparr>],
     blocks = [1 \<mapsto> replicate 184 0, 2 \<mapsto> replicate 184 0], ooseq_queued = False, ooseq_posted = 0\<rparr>"

lemma alloc_chain: "do_call small_malloc (Alloc PBUF_LINK 200 PBUF_POOL) no_pbufs (\<lambda>_. 0) = Some (chain_heap, (\<lambda>_. 0)(1 := 1))"
proof -
  have e: "PBUF_POOL_BUFSIZE_ALIGNED = 184" "LWIP_MEM_ALIGN_SIZE PBUF_LINK_HLEN = 16" by (simp_all add: size_defs)
  have l: "pool_len 32 = 32" by (simp add: pool_len_def e min_def word_le_nat_alt)
  define h1 where "h1 = new_pbuf 1 \<lparr>nxt = None, payload = Some (1, 16), tot_len = 200, len = 168, ptype = PBUF_POOL, flags = 0, ref = 1\<rparr> (replicate 184 0) no_pbufs"
  have m: "malloc small_malloc h1 pool_size = Some (2, replicate 184 0)" by (rule malloc_second) (simp_all add: h1_def no_pbufs_def)
  have "pool_tail small_malloc 1 1 32 h1 = Some (Some 1, chain_heap)"
    by (subst pool_tail.simps) (simp add: m l Let_def, subst pool_tail.simps, simp add: h1_def chain_heap_def new_pbuf_def upd_pbuf_def no_pbufs_def fun_upd_twist)
  moreover have "pbuf_alloc small_malloc PBUF_LINK 200 PBUF_POOL no_pbufs = pool_tail small_malloc 1 1 32 h1"
    by (simp add: pbuf_alloc_def malloc_first e Let_def min_def word_le_nat_alt h1_def)
  ultimately show ?thesis by simp
qed

definition booted :: "'w \<Rightarrow> heap \<Rightarrow> 'w arp_sys" where
  "booted w h = \<lparr>arp_table = arp_table0, etharp_cached_entry = 0, arp_heap = h, wire = w\<rparr>"

lemma booted_simps [simp]: "arp_table (booted w h) = arp_table0" "etharp_cached_entry (booted w h) = 0" "arp_heap (booted w h) = h"
  "wire (booted w h) = w" "booted w h\<lparr>arp_heap := h'\<rparr> = booted w h'"
  by (simp_all add: booted_def)

lemma chain_run: "arp_run (booted w chain_heap) ((\<lambda>_. 0)(1 := 1))"
proof -
  have "arp_run (booted w no_pbufs) (\<lambda>_. 0)" by (rule arp_start) (simp_all add: no_pbufs_def)
  then show ?thesis
    by (rule arp_call [OF _ over_ok [of "\<lambda>_ w. (Lwip_Err.ERR_OK, w)"] host_ok(2), of _ _ "User_call (Alloc PBUF_LINK 200 PBUF_POOL)"])
      (use alloc_chain in \<open>simp_all del: do_call.simps\<close>)
qed

lemma chain_fields: "path chain_heap (Some 1) [1, 2]" "\<forall>x \<in> set [1, 2]. has_data chain_heap x" "dense chain_heap [1, 2]" "ptot chain_heap 1 = 200"
  "rc chain_heap 1 = 1"
  by (simp_all add: chain_heap_def link_def has_data_def dense_def plen_def ptot_def rc_def)

lemma kept_output:
  assumes s: "arp_ok s ext" and k: "kept A h (arp_heap s)" "set qs \<inter> A = {}" and e: "0 < ext q" "rc h q = 1"
    and q: "path h (Some q) qs" "dense h qs" "\<forall>x \<in> set qs. has_data h x" "ptot h q + SIZEOF_ETH_HDR < 65536"
  shows "can_output s ext q qs"
proof -
  have i: "pbuf_inv (arp_heap s) (\<lambda>a. ext a + waits (arp_table s) a)" using s by (rule arp_inv)
  have m: "q \<in> set qs" using path_first [OF q(1)] by auto
  have p: "pbufs (arp_heap s) x = pbufs h x" if "x \<in> set qs" for x using k that by (auto simp: kept_def)
  then have z: "link (arp_heap s) x = link h x \<and> plen (arp_heap s) x = plen h x \<and> ptot (arp_heap s) x = ptot h x
      \<and> has_data (arp_heap s) x = has_data h x \<and> rc (arp_heap s) x = rc h x" if "x \<in> set qs" for x
    using that by (simp add: link_def plen_def ptot_def has_data_def rc_def)
  have "rc (arp_heap s) q = ext q + waits (arp_table s) q + indeg (arp_heap s) q"
    using refs_okD(2) [of "arp_heap s" "\<lambda>a. ext a + waits (arp_table s) a" q] i by (simp add: pbuf_inv_def heap_ok_def)
  then have "preds (arp_heap s) q = {}" using preds_none [OF i] e z [OF m] by simp
  moreover have "path (arp_heap s) (Some q) qs" using path_cong [of qs "arp_heap s" h] z q(1) by blast
  moreover have "dense (arp_heap s) qs" using q(2) z by (cases qs) (auto simp: dense_def)
  ultimately show ?thesis using e q z m by (simp add: can_output_def)
qed

lemma second_victim: "\<not> is_empty e \<Longrightarrow> victim (arp_table0[0 := e]) i \<Longrightarrow> i = 1"
proof -
  assume ne: "\<not> is_empty e" and v: "victim (arp_table0[0 := e]) i"
  have t: "arp_table0[0 := e] = e # replicate 15 blank" by (simp add: arp_table0_def ARP_TABLE_SIZE_def blank_def numeral_eq_Suc)
  have "first_empty (e # replicate 15 blank) i" "i < 16" using v by (simp_all add: victim_def t)
  then show ?thesis using ne by (cases i; cases "i - 1") (auto simp: first_empty_def dest: spec [of _ 1])
qed

lemma chain_ready:
  "\<exists>s ext. arp_run (s :: 'w arp_sys) ext \<and> can_output s ext 1 [1, 2] \<and> etharp_cached_entry s = 0
    \<and> arp_table s ! 1 = stable_entry 0x0100000a [2,0,0,0,0,1] \<and> kept {3, 4} chain_heap (arp_heap s)"
proof -
  fix w :: 'w
  let ?m1 = "[2,0,0,0,0,1] :: bytes" and ?m3 = "[2,0,0,0,0,3] :: bytes"
  have u3: "unicast 0x0300000a host2" by code_simp
  have c: "pbufs chain_heap 1 \<noteq> None" "pbufs chain_heap 2 \<noteq> None" "pbufs chain_heap 3 = None" "blocks chain_heap 3 = None"
    "pbufs chain_heap 4 = None" "blocks chain_heap 4 = None" by (simp_all add: chain_heap_def)
  have "a \<in> {1..<3} \<Longrightarrow> a = 1 \<or> a = 2" for a :: nat by auto
  then have c3: "\<forall>a \<in> {1..<3}. pbufs chain_heap a \<noteq> None" using c(1,2) by blast
  obtain h3 where a3: "pbuf_alloc small_malloc PBUF_RAW 42 PBUF_RAM (arp_heap (booted w chain_heap)) = Some (Some 3, h3)"
    "\<forall>a. a \<noteq> 3 \<longrightarrow> pbufs h3 a = pbufs chain_heap a \<and> blocks h3 a = blocks chain_heap a"
    using next_alloc [OF c3 c(3,4), of 42] by auto
  have r3: "arp_run (booted w h3) ((\<lambda>_. 0)(1 := 1, 3 := 1))" "holds (booted w h3) 3 42" "kept {3} chain_heap h3"
    using run_alloc [OF chain_run a3(1)] by simp_all
  have "pbufs h3 3 \<noteq> None" using r3(2) by (auto simp: holds_def lone_def)
  moreover have "a \<in> {1..<4} \<Longrightarrow> a = 1 \<or> a = 2 \<or> a = 3" for a :: nat by auto
  ultimately have "\<forall>a \<in> {1..<4}. pbufs h3 a \<noteq> None" using a3(2) c(1,2) by fastforce
  then obtain h4 where a4: "pbuf_alloc small_malloc PBUF_RAW 42 PBUF_RAM (arp_heap (booted w h3)) = Some (Some 4, h4)"
    using next_alloc [of 4 h3 42] a3(2) c(5,6) by auto
  have r4: "arp_run (booted w h4) ((\<lambda>_. 0)(1 := 1, 3 := 1, 4 := 1))" "holds (booted w h4) 4 42" "kept {4} h3 h4"
    using run_alloc [OF r3(1) a4] by simp_all
  have "holds (booted w h4) 3 42" using kept_holds [OF r3(2), of "{4}" h4] r4(3) by simp
  then obtain h5 where r5: "arp_run (booted w h5) ((\<lambda>_. 0)(1 := 1, 3 := 1, 4 := 1))" "holds (booted w h5) 3 42"
    "pdata h5 3 = ask ?m3 0x0300000a" "kept {3} h4 h5"
    using run_take [OF r4(1), of 3 "ask ?m3 0x0300000a"] length_ask [of ?m3] by auto
  have "holds (booted w h5) 4 42" using kept_holds [OF r4(2), of "{3}" h5] r5(4) by simp
  then obtain h6 where r6: "arp_run (booted w h6) ((\<lambda>_. 0)(1 := 1, 3 := 1, 4 := 1))" "holds (booted w h6) 4 42"
    "pdata h6 4 = ask ?m1 0x0100000a" "kept {4} h5 h6"
    using run_take [OF r5(1), of 4 "ask ?m1 0x0100000a"] length_ask [of ?m1] by auto
  have h3': "holds (booted w h6) 3 42" using kept_holds [OF r5(2), of "{4}" h6] r6(4) by simp
  moreover have "pbufs h5 3 \<noteq> None" using r5(2) by (auto simp: holds_def lone_def)
  then have "pdata h6 3 = ask ?m3 0x0300000a" using r5(3) r6(4) by (simp add: kept_def)
  ultimately obtain s7 :: "'w arp_sys" where s7: "arp_run s7 ((\<lambda>_. 0)(1 := 1, 3 := 0, 4 := 1))" "arp_table s7 = arp_table0[0 := stable_entry 0x0300000a ?m3]"
    "etharp_cached_entry s7 = 0" "kept {3} h6 (arp_heap s7)"
    using asked12 [OF r6(1) _ _ _ _ _ u3, of 3 ?m3 "\<lambda>_ w. (Lwip_Err.ERR_OK, w)"] by (auto simp: fun_upd_twist)
  have h4': "holds (booted w (arp_heap s7)) 4 42" using kept_holds [OF r6(2), of "{3}" "arp_heap s7"] s7(4) by simp
  then have hs: "holds s7 4 42" by (simp add: holds_def)
  have "pbufs h6 4 \<noteq> None" using r6(2) by (auto simp: holds_def lone_def)
  then have d4: "pdata (arp_heap s7) 4 = ask ?m1 0x0100000a" using r6(3) s7(4) by (simp add: kept_def)
  have no: "\<not> (\<exists>j. has_ip (arp_table s7) 0x0100000a j)"
    using s7(2) by (auto simp: has_ip_def arp_table0_def ARP_TABLE_SIZE_def is_empty_def nth_list_update)
  obtain i and s :: "'w arp_sys" where r: "arp_run s ((\<lambda>_. 0)(1 := 1, 3 := 0, 4 := 0))" "victim (arp_table s7) i" "arp_table s = (arp_table s7)[i := stable_entry 0x0100000a ?m1]"
    "etharp_cached_entry s = 0" "kept (insert 4 (set (waiting (arp_table s7 ! i)))) (arp_heap s7) (arp_heap s)"
    using asked [OF s7(1) no _ host_unicast(3) hs d4, of "\<lambda>_ w. (Lwip_Err.ERR_OK, w)"] s7(3) by (auto simp: fun_upd_twist)
  have i: "i = 1" using second_victim [OF stable_simps(5)] r(2) unfolding s7(2) by blast
  have t1: "arp_table s ! 1 = stable_entry 0x0100000a ?m1" "waiting (arp_table s7 ! 1) = []"
    using r(3) i s7(2) by (simp_all add: arp_table0_def ARP_TABLE_SIZE_def)
  have "kept {3, 4} chain_heap (arp_heap s)"
    using kept_trans [OF kept_trans [OF kept_trans [OF kept_trans [OF kept_trans [OF r3(3) r4(3)] r5(4)] r6(4)] s7(4)] r(5)] i t1(2)
    by (simp add: insert_commute)
  moreover from this have "can_output s ((\<lambda>_. 0)(1 := 1, 3 := 0, 4 := 0)) 1 [1, 2]"
    by (rule kept_output [OF arp_run_ok [OF r(1)]]) (use chain_fields in \<open>simp_all add: SIZEOF_ETH_HDR_def\<close>)
  ultimately show ?thesis using r(1,4) t1(1) by blast
qed

theorem chains_leave_in_pieces_witness:
  "\<exists>(s :: bytes list ankhif arp_sys) s' hdr. etharp_output (over (client_link (log_env 0))) host2 1 0x0100000a s = Some (Lwip_Err.ERR_OK, s')
     \<and> length hdr = 14 \<and> world (wire s') = world (wire s) @ [hdr @ pdata (arp_heap s) 1, pdata (arp_heap s) 2]"
proof -
  obtain s :: "bytes list ankhif arp_sys" and ext where s: "arp_run s ext" "can_output s ext 1 [1, 2]" "etharp_cached_entry s = 0"
    "arp_table s ! 1 = stable_entry 0x0100000a [2,0,0,0,0,1]" "kept {3, 4} chain_heap (arp_heap s)" using chain_ready by blast
  have ip: "hop host2 0x0100000a = 0x0100000a" "\<not> ip_addr_isbroadcast 0x0100000a host2" "\<not> ip_addr_ismulticast 0x0100000a"
    by code_simp+
  have "pbufs (arp_heap s) 1 = pbufs chain_heap 1" using s(5) by (simp add: kept_def)
  then have "pbufs (arp_heap s) 1 = Some \<lparr>nxt = Some 2, payload = Some (1, 16), tot_len = 200, len = 168, ptype = PBUF_POOL, flags = 0, ref = 1\<rparr>"
    by (simp add: chain_heap_def)
  then have "\<exists>h. pbuf_header (Some 1) (int SIZEOF_ETH_HDR) (arp_heap s) = Some (0, h)"
    by (simp add: pbuf_header_def SIZEOF_ETH_HDR_def size_defs Let_def)
  then obtain h where h: "pbuf_header (Some 1) (int SIZEOF_ETH_HDR) (arp_heap s) = Some (0, h)" by blast
  have M: "malloc_ok (memory (over (client_link (log_env 0))))" using small_malloc_ok by simp
  have st: "astate (arp_table s ! 1) = ETHARP_STATE_STABLE" "ipaddr (arp_table s ! 1) = 0x0100000a" "(1 :: nat) < 16"
    using s(4) by simp_all
  have cd: "unat (etharp_cached_entry s) \<noteq> 1" using s(3) by simp
  define hdr where "hdr = eth_header (ethaddr (arp_table s ! 1)) (nif_hwaddr host2) ETHTYPE_IP"
  have "length hdr = 14" using s(4) by (simp add: hdr_def)
  then show ?thesis
    using chains_leave_in_pieces [OF s(1) M host_ok(2) s(2) h ip(2,3,1) host_unicast(3) st(3,1,2) over_simps(3) hdr_def] cd
    by auto
qed

end
