(* ===== verification/Address_Cache.thy ===== *)
theory Address_Cache imports Prelude begin

section \<open>The contract of a cache of addresses\<close>

text \<open>
  The interface between a cache of link addresses and its users. What a cache knows are pairs of a network
  address and a link address. A step may learn one pair, and may forget any; it never makes one up. The
  users' lemma is that the cache is never stale: what it knows of an address is what it learned last.
\<close>

text \<open>Runs of a cache with what it has learned, the latest first.\<close>

inductive heard :: "(('a \<times> 'm) option \<Rightarrow> 's \<Rightarrow> 's \<Rightarrow> bool) \<Rightarrow> 's \<Rightarrow> ('a \<times> 'm) list \<Rightarrow> 's \<Rightarrow> bool" for st s0 where
  heard_start: "heard st s0 [] s0"
| heard_nothing: "heard st s0 h s \<Longrightarrow> st None s s' \<Longrightarrow> heard st s0 h s'"
| heard_pair: "heard st s0 h s \<Longrightarrow> st (Some am) s s' \<Longrightarrow> heard st s0 (am # h) s'"

locale address_cache =
  fixes ok :: "'s \<Rightarrow> bool" and known :: "'s \<Rightarrow> ('a \<times> 'm) set" and st :: "('a \<times> 'm) option \<Rightarrow> 's \<Rightarrow> 's \<Rightarrow> bool"
  assumes ok_step: "ok s \<Longrightarrow> st l s s' \<Longrightarrow> ok s'"
    and known_once: "ok s \<Longrightarrow> (a, m) \<in> known s \<Longrightarrow> (a, n) \<in> known s \<Longrightarrow> m = n"
    and nothing_new: "ok s \<Longrightarrow> st l s s' \<Longrightarrow> known s' \<subseteq> set_option l \<union> known s"
    and pair_learned: "ok s \<Longrightarrow> st (Some am) s s' \<Longrightarrow> am \<in> known s'"
begin

lemma heard_ok: "heard st s0 h s \<Longrightarrow> ok s0 \<Longrightarrow> ok s"
  by (induction rule: heard.induct) (auto dest: ok_step)

lemma never_stale:
  assumes "heard st s0 h s" and "ok s0" and "known s0 = {}"
  shows "(a, m) \<in> known s \<Longrightarrow> map_of h a = Some m"
  using assms
proof (induction arbitrary: m rule: heard.induct)
  case (heard_nothing h s s')
  then have "ok s" using heard_ok by blast
  then show ?case using heard_nothing nothing_new [of s None s'] by auto
next
  case (heard_pair h s am s')
  then have s: "ok s" using heard_ok by blast
  obtain b n where b: "am = (b, n)" by fastforce
  show ?case
  proof (cases "a = b")
    case True
    have "(a, n) \<in> known s'" using pair_learned [OF s heard_pair.hyps(2)] True b by simp
    then have "m = n" using known_once [OF ok_step [OF s heard_pair.hyps(2)]] heard_pair.prems(1) by blast
    then show ?thesis using True b by simp
  next
    case False
    then have "(a, m) \<in> known s" using nothing_new [OF s heard_pair.hyps(2)] heard_pair.prems(1) b by auto
    then show ?thesis using heard_pair False b by auto
  qed
qed simp

end

end
