(* ===== verification/Etharp_Cache.thy ===== *)
theory Etharp_Cache imports Etharp_Api Address_Cache begin

section \<open>Address resolution of lwIP: a cache that is never stale\<close>

text \<open>
  The ARP table as an instance of the locale \<open>address_cache\<close>: what it knows are its stable entries, and a
  call learns at most the sender of the packet that has been received.
\<close>

definition stables :: "etharp_entry list \<Rightarrow> (u32 \<times> bytes) set" where
  "stables t = (\<lambda>e. (ipaddr e, ethaddr e)) ` {e \<in> set t. is_stable e}"

lemma stables_update: "stables (t[i := e]) \<subseteq> (if is_stable e then {(ipaddr e, ethaddr e)} else {}) \<union> stables t"
  using set_update_subset_insert [of t i e] by (auto simp: stables_def)

lemma stables_forget: "x \<in> stables (t[i := e]) \<Longrightarrow> \<not> is_stable e \<Longrightarrow> x \<in> stables t"
  using stables_update [of t i e] by auto

lemma stables_in: "i < length t \<Longrightarrow> is_stable (t ! i) \<Longrightarrow> (ipaddr (t ! i), ethaddr (t ! i)) \<in> stables t"
  by (auto simp: stables_def)

lemma stables_aged: "stables (map aged t) \<subseteq> stables t"
  by (auto simp: stables_def aged_def is_stable_def is_empty_def image_iff split: if_splits)

text \<open>The pair that an update enters.\<close>

definition learns :: "nif \<Rightarrow> u32 \<Rightarrow> bytes \<Rightarrow> u8 \<Rightarrow> 'w arp_sys \<Rightarrow> (u32 \<times> bytes) option" where
  "learns netif ip mac fl s = (if unicast ip netif \<and> ((\<exists>i < ARP_TABLE_SIZE. has_ip (arp_table s) ip i) \<or> \<not> no_entry fl (arp_table s))
     then Some (ip, mac) else None)"

lemma update_known:
  assumes s: "arp_ok s ext" and n: "hw_ok netif" "length mac = ETHARP_HWADDR_LEN"
    and u: "update_arp_entry E netif ip mac fl s = Some (r, s')"
  shows "stables (arp_table s') \<subseteq> set_option (learns netif ip mac fl s) \<union> stables (arp_table s)
    \<and> set_option (learns netif ip mac fl s) \<subseteq> stables (arp_table s')"
proof -
  have h: "(\<exists>i < ARP_TABLE_SIZE. has_ip (arp_table s) ip i) \<longleftrightarrow> (\<exists>i. has_ip (arp_table s) ip i)"
    using table_length [OF s] by (auto simp: has_ip_def)
  show ?thesis
  proof (cases "unicast ip netif \<and> ((\<exists>i. has_ip (arp_table s) ip i) \<or> \<not> no_entry fl (arp_table s))")
    case True
    then obtain i where "learned E netif ip mac s i s'" using update_learned [OF s _ n, of ip fl E] u by auto
    then have t: "i < length (arp_table s)" "arp_table s' = (arp_table s)[i := stable_entry ip mac]"
      using table_length [OF s] by (simp_all add: learned_def)
    have st: "is_stable (stable_entry ip mac)" by (simp add: is_stable_def)
    have "(ip, mac) \<in> stables (arp_table s')" using stables_in [of i "arp_table s'"] t st by simp
    then show ?thesis using True h t(2) stables_update [of "arp_table s" i "stable_entry ip mac"] st by (auto simp: learns_def)
  next
    case False
    then have "s' = s" using update_rest [OF s n(1), of ip fl E mac] u by auto
    then show ?thesis using False h by (auto simp: learns_def)
  qed
qed

lemma query_state_known: "query_state ip s i s1 \<Longrightarrow> stables (arp_table s1) \<subseteq> stables (arp_table s)"
  by (auto simp: query_state_def is_stable_def dest!: stables_forget split: if_splits)

lemma query_known:
  assumes s: "arp_ok s ext" and M: "malloc_ok (memory E)" and n: "hw_ok netif"
    and q: "\<And>p. q = Some p \<Longrightarrow> 0 < ext p \<and> (\<exists>qs. outgoing (arp_heap s) p qs)"
    and r: "etharp_query E netif ip q s = Some (r, s')"
  shows "stables (arp_table s') \<subseteq> stables (arp_table s)"
proof (cases "unicast ip netif")
  case False
  then show ?thesis using r by (auto simp: etharp_query_def unicast_def)
next
  case True
  obtain i s1 where i: "etharp_query E netif ip q s = query_at E netif ip q i s1" "arp_ok s1 ext" "query_state ip s i s1"
    using query_entry [OF s True] by blast
  then have l: "i < ARP_TABLE_SIZE" "\<not> is_empty (arp_table s1 ! i)"
    using table_length [OF i(2)] by (simp_all add: query_state_def has_ip_def)
  have "stables (arp_table s') \<subseteq> stables (arp_table s1)"
  proof (cases q)
    case None
    from query_at_none [OF i(2) M n l(1), of ip] show ?thesis using i(1) r None by (auto dest: requested_same)
  next
    case (Some p)
    then obtain qs where p: "0 < ext p" "outgoing (arp_heap s) p qs" using q by blast
    have o: "outgoing (arp_heap s1) p qs"
      using kept_outgoing [OF query_state_kept [OF i(3) s] _ p(2)] held_apart [OF s p(1)] outgoing_packet [OF arp_inv [OF s] p(2)] by blast
    obtain ps where ps: "qs = p # ps" using sendable_first o by (fastforce simp: outgoing_def)
    from l(2) consider "astate (arp_table s1 ! i) = ETHARP_STATE_PENDING" | "astate (arp_table s1 ! i) = ETHARP_STATE_STABLE"
      by (cases "astate (arp_table s1 ! i)") (auto simp: is_empty_def)
    then show ?thesis
    proof cases
      case 1
      from query_at_pending [OF i(2) M n l(1) 1 o, of ip] show ?thesis
        using i(1) r Some 1 by (auto dest!: requested_same stables_forget simp: is_stable_def)
    next
      case 2
      from query_at_stable [OF i(2) n l(1) 2 o [unfolded ps] p(1), of E ip] show ?thesis using i(1) r Some by auto
    qed
  qed
  then show ?thesis using query_state_known [OF i(3)] by blast
qed

lemma output_known:
  assumes s: "arp_ok s ext" and M: "malloc_ok (memory E)" and n: "hw_ok netif" and q: "can_output s ext q qs"
    and r: "etharp_output E netif q ip s = Some (r, s')"
  shows "stables (arp_table s') \<subseteq> stables (arp_table s)"
proof -
  have e: "0 < ext q" using q by (simp add: can_output_def)
  from header_room [OF s q] show ?thesis
  proof (elim disjE exE conjE)
    assume "pbuf_header (Some q) (int SIZEOF_ETH_HDR) (arp_heap s) = Some (1, arp_heap s)"
    then show ?thesis using r by (simp add: etharp_output_def)
  next
    fix h' assume h: "pbuf_header (Some q) (int SIZEOF_ETH_HDR) (arp_heap s) = Some (0, h')" "arp_ok (s\<lparr>arp_heap := h'\<rparr>) ext"
      "outgoing h' q qs"
    let ?s = "s\<lparr>arp_heap := h'\<rparr>"
    obtain as where as: "qs = q # as" using sendable_first h(3) by (fastforce simp: outgoing_def)
    have send: "arp_table s2 = arp_table s" if "etharp_send_ip E netif (Some q) (nif_hwaddr netif) mac ?s = Some (r, s2)" "length mac = 6" for mac s2
      using send_held [OF h(2) n that(2), of q as E] h(3) as e that(1) by auto
    have unicast: "stables (arp_table s2) \<subseteq> stables (arp_table s)" if u: "output_unicast E netif q a ?s = Some (r, s2)" for a s2
    proof (cases "cache_hit a ?s")
      case True
      from output_unicast_hit [OF h(2) M n _ True, of q qs] h(3) show ?thesis using u by auto
    next
      case False
      have "etharp_query E netif a (Some q) ?s = Some (r, s2)" using output_unicast_miss [OF h(2) False] u by simp
      from query_known [OF h(2) M n _ this] h(3) e show ?thesis by auto
    qed
    have "etharp_output E netif q ip s = Some (ERR_RTE, ?s) \<or> (\<exists>a. etharp_output E netif q ip s = output_unicast E netif q a ?s)"
      if "\<not> ip_addr_isbroadcast ip netif" "\<not> ip_addr_ismulticast ip"
      using h(1) that by (auto simp: etharp_output_def Let_def)
    then consider (bc) "ip_addr_isbroadcast ip netif" | (mc) "\<not> ip_addr_isbroadcast ip netif" "ip_addr_ismulticast ip"
      | (no) "etharp_output E netif q ip s = Some (ERR_RTE, ?s)" | (uni) a where "etharp_output E netif q ip s = output_unicast E netif q a ?s"
      by blast
    then show ?thesis
    proof cases
      case bc
      have "length ethbroadcast = 6" by (simp add: ethbroadcast_def)
      from send [OF _ this] show ?thesis using r h(1) bc by (simp add: etharp_output_def Let_def)
    next
      case mc
      from send [OF _ length_mcastaddr] show ?thesis using r h(1) mc by (simp add: etharp_output_def Let_def)
    next
      case no
      then show ?thesis using r by simp
    next
      case (uni a)
      from unicast [of a s'] show ?thesis using r uni by simp
    qed
  qed
qed

text \<open>What a call learns.\<close>

fun learned_by :: "nif \<Rightarrow> arp_call \<Rightarrow> 'w arp_sys \<Rightarrow> (u32 \<times> bytes) option" where
  "learned_by netif (Arp_packet_in p) s = (let m = take 42 (pdata (arp_heap s) p) in
     if plen (arp_heap s) p < 42 \<or> \<not> valid_arp m then None
     else learns netif (ip_of (drop 28 m)) (take 6 (drop 22 m))
       (if for_us netif m then ETHARP_FLAG_TRY_HARD else ETHARP_FLAG_FIND_ONLY) s)"
| "learned_by netif (Ip_packet_in p) s = (let m = pdata (arp_heap s) p in
     if \<not> ip_addr_netcmp (ip_of (drop 26 m)) (nif_ip netif) (nif_netmask netif) then None
     else learns netif (ip_of (drop 26 m)) (take 6 (drop 6 m)) ETHARP_FLAG_FIND_ONLY s)"
| "learned_by netif c s = None"

definition enters :: "(u32 \<times> bytes) option \<Rightarrow> etharp_entry list \<Rightarrow> etharp_entry list \<Rightarrow> bool" where
  "enters l t t' \<longleftrightarrow> stables t' \<subseteq> set_option l \<union> stables t \<and> set_option l \<subseteq> stables t'"

lemma enters_none [simp]: "enters None t t' \<longleftrightarrow> stables t' \<subseteq> stables t"
  by (simp add: enters_def)

lemma arp_input_known:
  assumes s: "arp_ok s ext" and n: "hw_ok netif" and d: "\<forall>ip s. arp_table (dhcp_arp_reply E ip s) = arp_table s" "env_ok E"
    and p: "sendable (arp_heap s) p ps" "0 < ext p" and r: "etharp_arp_input E netif (nif_hwaddr netif) p s = Some s'"
  shows "enters (learned_by netif (Arp_packet_in p) s) (arp_table s) (arp_table s')"
proof -
  have w: "windows_ok (arp_heap s)" using inv_windows [OF arp_inv [OF s]] .
  define m where "m = take 42 (pdata (arp_heap s) p)"
  show ?thesis
  proof (cases "plen (arp_heap s) p < 42 \<or> \<not> valid_arp m")
    case True
    then have "arp_table s' = arp_table s"
      using arp_input_drop [OF w p(1), of E netif "nif_hwaddr netif"] r by (auto simp: m_def split: bind_splits)
    then show ?thesis using True by (auto simp: m_def)
  next
    case False
    then have v: "42 \<le> plen (arp_heap s) p" "valid_arp m" by simp_all
    obtain as where as: "ps = p # as" using sendable_first [OF p(1)] by blast
    have "length (pdata (arp_heap s) p) = plen (arp_heap s) p" using length_pdata [OF w] p(1) as by (simp add: sendable_def)
    then have mac: "length (take 6 (drop 22 m)) = ETHARP_HWADDR_LEN" using v(1) by (simp add: m_def ETHARP_HWADDR_LEN_def)
    let ?fl = "if for_us netif m then ETHARP_FLAG_TRY_HARD else ETHARP_FLAG_FIND_ONLY"
    obtain c s1 where u: "update_arp_entry E netif (ip_of (drop 28 m)) (take 6 (drop 22 m)) ?fl s = Some (c, s1)" "arp_ok s1 ext"
      "kept (queued (arp_table s)) (arp_heap s) (arp_heap s1)" using update_any [OF s n mac] by blast
    note h1 = sendable_kept_held [OF s p(2,1) u(3)]
    have m1: "m = take 42 (pdata (arp_heap s1) p)" using h1(2) as by (simp add: m_def)
    have hl: "length (nif_hwaddr netif) = 6" using n by (simp add: hw_ok_def)
    have an: "arp_table s2 = arp_table s1" if "arp_answer E netif (nif_hwaddr netif) p m s1 = Some s2" for s2
      using arp_answer_ok [OF u(2) n hl _ p(2) _ m1, of as E] h1(1,3) as v(1) that by auto
    have act: "arp_table s2 = arp_table s1" if "arp_act E netif (nif_hwaddr netif) p m s1 = Some s2" for s2
      using that an d(1) by (simp add: arp_act_def split: if_splits) blast+
    obtain s2 h k where a: "arp_act E netif (nif_hwaddr netif) p m s1 = Some s2" "pbuf_free (Some p) (arp_heap s2) = Some (k, h)"
      "s' = s2\<lparr>arp_heap := h\<rparr>"
      using r unfolding arp_input_valid [OF w p(1) v m_def] u(1) by (auto split: bind_splits)
    have "arp_table s' = arp_table s1" using act [OF a(1)] a(3) by simp
    then show ?thesis using update_known [OF s n mac u(1)] v by (simp add: enters_def m_def [symmetric])
  qed
qed

lemma ip_input_known:
  assumes s: "arp_ok s ext" and n: "hw_ok netif" and p: "sendable (arp_heap s) p ps" "34 \<le> plen (arp_heap s) p"
    and r: "etharp_ip_input E netif p s = Some s'"
  shows "enters (learned_by netif (Ip_packet_in p) s) (arp_table s) (arp_table s')"
proof -
  have w: "windows_ok (arp_heap s)" using inv_windows [OF arp_inv [OF s]] .
  let ?m = "pdata (arp_heap s) p"
  obtain b where b: "pbufs (arp_heap s) p = Some b" "payload b \<noteq> None" "unat (len b) = plen (arp_heap s) p"
    using p sendable_first [OF p(1)] by (auto simp: sendable_def has_data_def plen_def split: option.splits)
  have l: "length ?m = plen (arp_heap s) p" using length_pdata [OF w, of p] b by (simp add: has_data_def)
  have k: "peek (arp_heap s) b 26 4 = Some (take 4 (drop 26 ?m))" "peek (arp_heap s) b 6 6 = Some (take 6 (drop 6 ?m))"
    using peek_ok [OF w b(1,2), of 26 4] peek_ok [OF w b(1,2), of 6 6] b(3) p(2) by simp_all
  have i: "ip_of (take 4 (drop 26 ?m)) = ip_of (drop 26 ?m)" using l p(2) by (simp add: ip_of_def)
  have mac: "length (take 6 (drop 6 ?m)) = ETHARP_HWADDR_LEN" using l p(2) by (simp add: ETHARP_HWADDR_LEN_def)
  show ?thesis
  proof (cases "ip_addr_netcmp (ip_of (drop 26 ?m)) (nif_ip netif) (nif_netmask netif)")
    case True
    then obtain c where "update_arp_entry E netif (ip_of (drop 26 ?m)) (take 6 (drop 6 ?m)) ETHARP_FLAG_FIND_ONLY s = Some (c, s')"
      using r k b(1) i by (auto simp: etharp_ip_input_def SIZEOF_ETH_HDR_def split: bind_splits)
    from update_known [OF s n mac this] show ?thesis using True by (simp add: enters_def Let_def)
  next
    case False
    then have "s' = s" using r k b(1) i by (auto simp: etharp_ip_input_def SIZEOF_ETH_HDR_def split: bind_splits)
    then show ?thesis using False by (simp add: Let_def)
  qed
qed

text \<open>A permitted call on some interface, with what it learns. The DHCP client, which is told of every reply, does not change the table.\<close>

definition arp_step :: "(u32 \<times> bytes) option \<Rightarrow> 'w arp_sys \<times> (nat \<Rightarrow> nat) \<Rightarrow> 'w arp_sys \<times> (nat \<Rightarrow> nat) \<Rightarrow> bool" where
  "arp_step l x x' \<longleftrightarrow> (\<exists>E netif c. env_ok E \<and> hw_ok netif \<and> (\<forall>ip s. arp_table (dhcp_arp_reply E ip s) = arp_table s)
     \<and> arp_allowed c (fst x) (snd x) \<and> do_arp E netif c (fst x) (snd x) = Some x' \<and> l = learned_by netif c (fst x))"

lemma step_ok:
  assumes "arp_ok (fst x) (snd x)" and "arp_step l x x'"
  shows "arp_ok (fst x') (snd x')"
proof -
  obtain E netif c where c: "env_ok E" "hw_ok netif" "arp_allowed c (fst x) (snd x)" "do_arp E netif c (fst x) (snd x) = Some x'"
    using assms(2) by (auto simp: arp_step_def)
  from do_arp_ok [OF assms(1) c(1-3)] show ?thesis using c(4) by (auto split: if_splits)
qed

lemma call_enters:
  assumes s: "arp_ok s ext" and E: "env_ok E" and n: "hw_ok netif" and d: "\<forall>ip s. arp_table (dhcp_arp_reply E ip s) = arp_table s"
    and c: "arp_allowed c s ext" and r: "do_arp E netif c s ext = Some (s', ext')"
  shows "enters (learned_by netif c s) (arp_table s) (arp_table s')"
proof -
  have M: "malloc_ok (memory E)" using E by (simp add: env_ok_def)
  show ?thesis
  proof (cases c)
    case (Arp_output q ip)
    then obtain qs k where "can_output s ext q qs" "etharp_output E netif q ip s = Some (k, s')" using c r by (auto split: bind_splits)
    from output_known [OF s M n this] show ?thesis using Arp_output by simp
  next
    case (Arp_query ip)
    then show ?thesis using query_known [OF s M n, of None ip _ s'] r by (auto split: bind_splits)
  next
    case (Arp_request ip)
    then show ?thesis using request_ok [OF s M n, of ip] r by (auto simp: requested_def split: bind_splits)
  next
    case Arp_timer
    then have "arp_table s' = map aged (arp_table s)" using etharp_tmr_ok [OF s] r by (auto split: bind_splits)
    then show ?thesis using Arp_timer stables_aged by simp
  next
    case (Arp_packet_in p)
    then obtain ps where "sendable (arp_heap s) p ps" "0 < ext p" "etharp_arp_input E netif (nif_hwaddr netif) p s = Some s'"
      using c r by (auto split: bind_splits)
    then show ?thesis using arp_input_known [OF s n d E] Arp_packet_in by blast
  next
    case (Ip_packet_in p)
    then obtain ps where "sendable (arp_heap s) p ps" "34 \<le> plen (arp_heap s) p" "etharp_ip_input E netif p s = Some s'"
      using c r by (auto split: bind_splits)
    then show ?thesis using ip_input_known [OF s n] Ip_packet_in by blast
  next
    case (User_call u)
    then show ?thesis using r by (auto split: bind_splits)
  qed
qed

lemma step_enters: "arp_ok (fst x) (snd x) \<Longrightarrow> arp_step l x x' \<Longrightarrow> enters l (arp_table (fst x)) (arp_table (fst x'))"
  using call_enters [of "fst x" "snd x" _ _ _ "fst x'" "snd x'"] by (auto simp: arp_step_def)

lemma stables_once: "arp_ok s ext \<Longrightarrow> (a, m) \<in> stables (arp_table s) \<Longrightarrow> (a, n) \<in> stables (arp_table s) \<Longrightarrow> m = n"
proof -
  assume s: "arp_ok s ext" and m: "(a, m) \<in> stables (arp_table s)" and n: "(a, n) \<in> stables (arp_table s)"
  obtain i j where "i < length (arp_table s)" "j < length (arp_table s)" "has_ip (arp_table s) a i" "has_ip (arp_table s) a j"
    "ethaddr (arp_table s ! i) = m" "ethaddr (arp_table s ! j) = n"
    using m n by (fastforce simp: stables_def in_set_conv_nth has_ip_def is_stable_def is_empty_def)
  then show "m = n" using has_ip_unique [of "arp_table s" a i j] s by (auto simp: arp_ok_def)
qed

interpretation ac: address_cache "\<lambda>x. arp_ok (fst x) (snd x)" "\<lambda>x. stables (arp_table (fst x))" arp_step
proof
  fix x l x' assume "arp_ok (fst x) (snd x)" "arp_step l x x'"
  then show "arp_ok (fst x') (snd x')" "stables (arp_table (fst x')) \<subseteq> set_option l \<union> stables (arp_table (fst x))"
    using step_ok step_enters unfolding enters_def by blast+
next
  fix x am x' assume "arp_ok (fst x) (snd x)" "arp_step (Some am) x x'"
  then show "am \<in> stables (arp_table (fst x'))" using step_enters by (fastforce simp: enters_def)
qed (rule stables_once)

lemma stables_boot: "stables arp_table0 = {}"
  by (auto simp: stables_def arp_table0_def is_stable_def)

text \<open>C17: In every state that calls of the module lead to from the empty table, a stable entry has the link address that was
  learned last for its network address: the sender's link address in the latest ARP or IP packet of that sender that was
  let into the table. No stable entry is invented or stays at an older address, whatever is sent, asked, aged, recycled or
  received from others in between, provided that the DHCP client leaves the table alone.\<close>

theorem cache_is_never_stale:
  assumes "arp_table s0 = arp_table0" and "etharp_cached_entry s0 = 0" and "pbufs (arp_heap s0) = (\<lambda>_. None)"
    and "heard arp_step (s0, \<lambda>_. 0) h (s, ext)" and "i < 16" and "astate (arp_table s ! i) = ETHARP_STATE_STABLE"
  shows "map_of h (ipaddr (arp_table s ! i)) = Some (ethaddr (arp_table s ! i))"
proof -
  have s0: "arp_ok s0 (\<lambda>_. 0)" using assms(1-3) by (rule arp_ok_start)
  have "arp_ok s ext" using ac.heard_ok [OF assms(4)] s0 by simp
  then have "i < length (arp_table s)" using table_length [of s ext] assms(5) by (simp add: ARP_TABLE_SIZE_def)
  then have "(ipaddr (arp_table s ! i), ethaddr (arp_table s ! i)) \<in> stables (arp_table s)"
    using stables_in assms(6) by (simp add: is_stable_def)
  then show ?thesis using ac.never_stale [OF assms(4)] s0 assms(1) stables_boot by simp
qed

lemma heard_step: "heard st x h y \<Longrightarrow> st l y z \<Longrightarrow> \<exists>h'. heard st x h' z"
  by (cases l) (auto intro: heard.intros)

lemma heard_call: "heard arp_step x h (s, ext) \<Longrightarrow> hw_ok netif \<Longrightarrow> arp_allowed c s ext \<Longrightarrow> do_arp (over f) netif c s ext = Some (s', ext') \<Longrightarrow>
    \<exists>h'. heard arp_step x h' (s', ext')"
  by (rule heard_step [of _ _ _ "(s, ext)" "learned_by netif c s"])
    (auto simp: arp_step_def intro!: exI [of _ "over f"] exI [of _ netif] exI [of _ c] over_ok)

text \<open>The second host has been asked by the first one.\<close>

theorem cache_is_never_stale_witness:
  "\<exists>h s ext. heard arp_step (arp_boot, \<lambda>_. 0) h (s, ext) \<and> ipaddr (arp_table s ! 0) = 0x0100000a
    \<and> astate (arp_table s ! 0) = ETHARP_STATE_STABLE \<and> map_of h 0x0100000a = Some [2,0,0,0,0,1]"
proof -
  let ?f = "\<lambda>_ w. (ERR_OK, w)"
  have boot: "arp_table arp_boot = arp_table0" "etharp_cached_entry arp_boot = 0" "pbufs (arp_heap arp_boot) = (\<lambda>_. None)"
    by (simp_all add: arp_boot_def no_pbufs_def)
  obtain h1 where a: "pbuf_alloc small_malloc PBUF_RAW 42 PBUF_RAM (arp_heap arp_boot) = Some (Some 1, h1)"
    using boot_alloc [of PBUF_RAW] by (auto simp: arp_boot_def)
  let ?s1 = "arp_boot\<lparr>arp_heap := h1\<rparr>" and ?ext = "(\<lambda>_. 0)(1 := 1) :: nat \<Rightarrow> nat"
  note r = run_alloc [OF arp_boot_run a]
  obtain k1 where k1: "heard arp_step (arp_boot, \<lambda>_. 0) k1 (?s1, ?ext)"
    using heard_call [OF heard_start host_ok(1), of "User_call (Alloc PBUF_RAW 42 PBUF_RAM)" arp_boot "\<lambda>_. 0" ?f ?s1 ?ext] a by auto
  have r1: "arp_run ?s1 ?ext" "holds ?s1 1 (length ask12)" using r(1,2) length_ask12 by simp_all
  obtain h2 where t: "pbuf_take (Some 1) ask12 42 h1 = Some (ERR_OK, h2)" "allowed (Take 1 ask12 42) h1 ?ext"
    "holds (?s1\<lparr>arp_heap := h2\<rparr>) 1 42" "pdata h2 1 = ask12"
    using take_whole [OF arp_run_ok [OF r1(1)] r1(2)] length_ask12 by (auto simp del: allowed.simps)
  let ?s2 = "arp_boot\<lparr>arp_heap := h2\<rparr>"
  have c2: "arp_allowed (User_call (Take 1 ask12 42)) ?s1 ?ext" "do_arp (over ?f) host1 (User_call (Take 1 ask12 42)) ?s1 ?ext = Some (?s2, ?ext)"
    using t(1,2) by (simp_all del: allowed.simps)
  obtain k2 where k2: "heard arp_step (arp_boot, \<lambda>_. 0) k2 (?s2, ?ext)" using heard_call [OF k1 host_ok(1) c2] by blast
  have r2: "arp_run ?s2 ?ext" using arp_call [OF r1(1) over_ok host_ok(1) c2] .
  have p: "holds ?s2 1 42" "pdata (arp_heap ?s2) 1 = ask [2,0,0,0,0,1] 0x0100000a" "0 < ?ext 1" "arp_table ?s2 = arp_table0"
    "length [2,0,0,0,0,1 :: u8] = 6" using t(3,4) boot(1) by (simp_all add: ask12_def)
  obtain s where s: "etharp_arp_input (over ?f) host2 [2,0,0,0,0,2] 1 ?s2 = Some s"
    "arp_table s = arp_table0[0 := stable_entry 0x0100000a [2,0,0,0,0,1]]"
    using asked12 [OF r2 p(4,1-3,5) host_unicast(3), of ?f] by blast
  have c3: "arp_allowed (Arp_packet_in 1) ?s2 ?ext" "do_arp (over ?f) host2 (Arp_packet_in 1) ?s2 ?ext = Some (s, ?ext(1 := ?ext 1 - 1))"
    using s(1) p(1) by (auto simp: holds_def)
  obtain k3 where k3: "heard arp_step (arp_boot, \<lambda>_. 0) k3 (s, ?ext(1 := ?ext 1 - 1))" using heard_call [OF k2 host_ok(2) c3] by blast
  have e: "arp_table s ! 0 = stable_entry 0x0100000a [2,0,0,0,0,1]" using s(2) by (simp add: arp_table0_def ARP_TABLE_SIZE_def)
  then show ?thesis using cache_is_never_stale [OF boot k3, of 0] k3 by (metis stable_simps zero_less_numeral)
qed

end
