(* ===== verification/Spec2Isabelle.thy ===== *)
theory Spec2Isabelle imports Session_Setup Sys_Prot Mbox_Conc Hieth_Drv Linux_Glue Ankh_If Ping_Client Tftp_Client Socket_Files File_Server Tftp_Get Http_Server Crc Lwip_Timers Lwip_Chksum Pbuf_Api Client_Link Etharp_Cache begin

text \<open>
  This library models the network stack of \<open>git/ankh\<close>: a user-level network server for L4Re on a
  HiSilicon board (\<open>server/\<close>), the driver of the board's Ethernet controller
  (\<open>server/netlib/hisfv300\<close>), the parts of its own that a client links to lwIP
  (\<open>lib/lwip/lib/arch\<close>, \<open>lib/libc_be_socket\<close>), and of lwIP itself what all of it rests on:
  packet buffers, timers, checksums, addresses and address resolution
  (\<open>lib/lwip/lib/contrib/src/core\<close>, \<open>netif\<close>). Definitions are translated function by function; their
  names are the code's names wherever these are free.

  The way of a frame. The receive interrupt runs \<open>irq_handler\<close> of \<open>net-drv.c\<close>, which calls
  \<open>hisf_recv\<close> of \<open>hisf.c\<close> with the receive buffer. \<open>hisf_recv\<close> drops what is not for the machine's
  IP address and calls \<open>packet_deliver\<close> of \<open>main.cc\<close>, which copies the frame into the receive ring of
  every session that wants it, printing it through the analyser \<open>analyze.c\<close> when debugging is on. A
  client's lwIP stack takes it from the ring in \<open>ankhif_input\<close> of \<open>ankh_if.c\<close>, and its threads pass
  it on through the mailboxes of \<open>sys_arch.c\<close> to \<open>ethernet_input\<close> of \<open>etharp.c\<close>. In the other direction
  \<open>etharp_output\<close> finds the Ethernet address of the next hop, \<open>low_level_output\<close> puts frames
  into the transmit ring, and the session's thread (\<open>xmit_round\<close>) delivers them to other sessions and
  through \<open>netdev_xmit\<close> and \<open>eth_send\<close> to the controller.

  The theories, in the order of the imports:

  \<^item> Prelude, Net_Types: C integers, byte buffers, \<open>atoi\<close>; protocol numbers and structure layouts
    (\<open>etypes.h\<close>, \<open>packet_analyzer.h\<close>).
  \<^item> Checksum: the Internet checksum of RFC 1071 and its locale \<open>inet_checksum\<close>; Hisf: the frame
    filter, the ARP and echo responders and their checksum routine, an instance of that locale.
  \<^item> Analyzer: the packet printer. Session: finding the sessions of a frame, delivery, transmission,
    Adler-32 and the generated addresses. Session_Setup: devices, the creation of sessions from a
    configuration string, the requests to a session, and the runs of the whole server as a step
    relation with its invariants. The receive ring and the information chunk of a session are null
    until an activation succeeds, and delivery to a session without them is undefined: \<open>ready\<close> says
    which sessions have them, and \<open>server_reachable_wired\<close> that it is those with a transmit thread.
    The tokenizer of the configuration string is a library; what is relied on is that it splits a list of
    plain fields at the commas.
  \<^item> Hieth_Regs: registers and bit fields, a hardware as load, store and delay functions on an
    arbitrary state, and the configuration of a port; its lemmas relate a sequence of accesses to a
    plain memory (\<open>refines\<close>). Hieth_Mii: the MDIO bus and the PHY layer, with the locale \<open>mii_bus\<close>
    for what a bus must do, proved of the driver's bus. Hieth_Drv: \<open>net-drv.c\<close>. Linux_Glue: the
    server's device table.
  \<^item> Sys_Time, Bounded_Queue, Sys_Mbox, Mbox_Conc, Sys_Prot: clock and timed waits, semaphores and
    mailboxes, first as sequential operations that refine a bounded queue (locale of Bounded_Queue),
    then as threads that interleave at every semaphore operation, and light-weight protection.
  \<^item> Ankh_If: the lwIP interface driver and the options it takes from the command line. Ping_Client
    and Tftp_Client: two clients of \<open>examples/lwip\<close>; the checksum of the first is a second instance
    of \<open>inet_checksum\<close>, and its requests are answered by the responder of Hisf.
  \<^item> Lwip_Err, Pbuf, Pbuf_Inv, Pbuf_Data, Pbuf_Api: the packet buffers of lwIP (\<open>core/pbuf.c\<close>). Pbuf
    has the code over a heap of structures and memory blocks; Pbuf_Inv what each operation does to
    reference counts, chains and lengths; Pbuf_Data what the copying operations do to the bytes;
    Pbuf_Api the runs of all calls together with their invariant.
  \<^item> Deadline_Queue, Lwip_Timers: a queue of absolute deadlines as a locale, and \<open>core/timers.c\<close>,
    whose list of relative times implements it. Lwip_Chksum: \<open>core/ipv4/inet_chksum.c\<close>, the third
    instance of \<open>inet_checksum\<close>.
  \<^item> Ip_Addr: addresses, their classes and their dotted notation (\<open>core/ipv4/ip_addr.c\<close>). Etharp,
    Etharp_Table, Etharp_Inv, Etharp_Api: address resolution (\<open>netif/etharp.c\<close>) over the heap of packet
    buffers. Etharp has the code; Etharp_Table the search of the table, the pbufs in its queues, sending
    and ageing; Etharp_Inv what each operation returns, sends and keeps; Etharp_Api the runs of all
    operations on any interfaces with their invariant \<open>arp_ok\<close>, and the properties. Address_Cache: the
    contract of a cache of addresses as a locale, with the lemma that it is never stale; Etharp_Cache: the
    ARP table as its instance. Client_Link: address resolution over the interface driver of a client.
  \<^item> Socket_Files: the BSD socket functions of a client and the table that leads from its descriptors
    over files to lwIP's sockets (\<open>lib/libc_be_socket\<close>). The L4Re file system is not in the repository;
    a file counts its descriptors, and \<open>close\<close>, \<open>dup\<close> and \<open>dup2\<close> do what POSIX says of them.
  \<^item> Programs of the repository that are independent of the stack. File_Server: a server that sends
    files over a stream (\<open>socket/ftp\<close>). Tftp_Get: a TFTP client with retries (\<open>socket/tftp_1\<close>).
    Http_Server: a web server's sending loop (\<open>socket/http_server\<close>). Crc: two CRC programs
    (\<open>c-work/c-program/crc\<close>), both instances of the locale \<open>shift_register\<close>, in which a shift
    register is proved to compute the remainder of a division.

  What the groups of lemmas show. Each component has the functional behaviour of its operations on
  every branch; \<open>receive_path_delivers\<close> and \<open>interrupt_reaches_clients\<close> below compose them from the
  registers to the clients. \<open>server_inv\<close>, \<open>reachable_inv\<close> (mailboxes), \<open>prot_reachable_inv\<close>,
  \<open>sock_steps_inv\<close>, \<open>pbuf_run_inv\<close> and \<open>arp_run_ok\<close> are invariants by rule induction over all runs;
  \<open>pbuf_run_inv\<close> is the type of the heap: counts, chains, lengths and payloads fit together, and no
  permitted call fails; \<open>arp_run_ok\<close> adds the table whose queues own some of these packets, and \<open>no_copy\<close>
  is the exact case in which a permitted call of address resolution fails.
  Equivalences with a reference: Adler-32, the one's complement checksum (three implementations), the
  PHY's reported mode, the command line, the CRCs. Refinement: the mailboxes and the timers.

  Conventions. \<open>None\<close> means that the code has left its defined behaviour, that an assertion fails, or
  that an exception ends the server; an error that the code returns is a value. The target is a 32-bit
  little-endian ARM (the independent programs run on a Linux host). Hardware and libraries that are not in the repository are parameters: what a
  theorem needs of them is in its hypotheses, and each has a witness on a concrete instance.

  Bounds. The polling loops run on their own counters, so they are structural recursions on the
  counter that the code starts with: 100 for MDIO (99 tests), 500 for a PHY reset, 1000 rounds for a
  link, 30 attempts to open a port, 3000 for a transmission, 10000 for a polled reception. Nothing
  needs fuel. \<open>deliver_loop\<close> is a partial function, proved to end when the sessions have different
  addresses in memory; the loops of \<open>pbuf.c\<close> are partial functions, proved to end on the chains of a
  well-formed heap; the ARP table is swept as a list of 16 entries. The loops that wait for the outside (\<open>sem_wait_loop\<close>, the receptions of the
  TFTP clients, the sends of the web server) take the outcomes of their waits as a list and have a
  result for a list that is used up; \<open>readn\<close> and \<open>writen\<close> end since each round shortens the rest.

  Not modelled. Printing, except the analyser's. The receive thread's endless loop in \<open>ankh_if.c\<close> and
  the wait for DHCP, which only call what is modelled. The code under \<open>#if 0\<close> and \<open>HISF_TEST\<close>.
  \<open>suka_mem.cc\<close> and \<open>client-c/lib.cc\<close>, which pass their arguments to L4Re. The rings in shared
  memory, which are a library. Of lwIP the protocols above ARP (IP, TCP, UDP, DHCP, DNS, IGMP), the socket
  layer, the SNMP agent, the statistics, and what is not compiled (IPv6, PPP). The index trees that SNMP keeps of
  the ARP table are left out of \<open>etharp.c\<close> although they are compiled: they are filled from the table and do not act on it. ARP calls \<open>ip_input\<close> and
  \<open>dhcp_arp_reply\<close> as parameters, and whether an element for its queues can be allocated is a parameter too. \<open>server/ankh_svr\<close> and the C++ examples. The rest of the repository is
  copies of other people's programs (GnuPG, gzip, lwIP, OpenSSL examples), exercises, scripts and
  documents. PROJECT.json lists them with the reason for each.
\<close>

section \<open>From the interrupt handler to the clients\<close>

text \<open>\<open>packet_deliver\<close> as \<open>hisf_recv\<close> calls it: device \<open>lo\<close>, with the analyser as configured.\<close>

definition recv_deliver ::
  "(bytes \<Rightarrow> u32 \<Rightarrow> 'r \<Rightarrow> int \<times> 'r) \<Rightarrow> ('r \<Rightarrow> 'r) \<Rightarrow> bytes \<Rightarrow> u32 \<Rightarrow> 'r factory \<Rightarrow> (int \<times> 'r factory) option"
  where "recv_deliver ci cm p flen f =
    map_option (\<lambda>(n, f'). (sint n, f')) (packet_deliver ci cm shipped ''lo'' p flen f)"

lemma accepts_has_class:
  "accepts my_ip p \<Longrightarrow> frame_class p \<noteq> None"
  by (auto simp: accepts_def is_arp_def is_ipv4_def frame_class_def Let_def)

lemma receive_path:
  assumes "42 \<le> length p" and "14 \<le> unat flen" and "distinct (map s_addr (sessions f))"
    and "length (sessions f) < 2 ^ 31"
    and "p ! 12 = 0x08 \<Longrightarrow> p ! 13 = 0 \<Longrightarrow> p ! 23 = 17 \<Longrightarrow> 14 + 4 * unat (p ! 14 AND 0x0F) + 4 \<le> length p"
  shows "hisf_recv (recv_deliver ci cm) a p flen f =
    (if \<not> accepts (my_ip_bytes a) p then Some (if is_ipv4 p \<and> p ! 23 = 17 then 0 else DISCARD_PACKET, f)
     else if \<forall>s \<in> set (sessions f). wants p ''lo'' s \<longrightarrow> ready s
     then Some (int (length (filter (wants p ''lo'') (sessions f))),
           f\<lparr>sessions := map (\<lambda>s. if wants p ''lo'' s then delivered ci cm p flen s else s) (sessions f)\<rparr>)
     else None)"
proof (cases "accepts (my_ip_bytes a) p")
  case True
  then obtain v where "frame_class p = Some v" using accepts_has_class by blast
  then have "packet_analyze shipped p flen = Some ('''', v)"
    using shipped_analyzer_class [of p flen] assms(1,2,5) by simp
  then have c: "console_out shipped p flen s = Some ''''" for s :: "'a session option"
    by (simp add: console_out_def split: option.split)
  let ?k = "length (filter (wants p ''lo'') (sessions f))"
  have "?k < 2 ^ 31" using length_filter_le assms(4) by (rule le_less_trans)
  then have k: "sint (word_of_nat ?k :: u32) = int ?k"
    by (simp add: signed_of_nat signed_take_bit_int_eq_self)
  show ?thesis
    using True assms(1,3,4) k
    by (simp add: hisf_recv_delivers_iff_accepts recv_deliver_def packet_deliver_spec c deliver_if_def all_ready_def)
next
  case False
  then show ?thesis using assms(1) by (simp add: hisf_recv_delivers_iff_accepts)
qed

text \<open>
  C2: from the interrupt handler to the clients: an accepted frame reaches exactly the sessions on
  the device that want it and the result is their number, any other frame leaves all sessions as
  they were; on this path the analyser never gets to the branch of \<open>parse_ip\<close> that has no value,
  and prints nothing. The defined behaviour is left in one case only: when a session that wants an accepted
  frame has no receive ring or no information chunk, as after an activation that failed, the
  server dereferences a null pointer.
\<close>

theorem receive_path_delivers:
  assumes "42 \<le> length p" and "14 \<le> unat flen" and "distinct (map s_addr (sessions f))"
    and "length (sessions f) < 2 ^ 31"
    and "p ! 12 = 0x08 \<Longrightarrow> p ! 13 = 0 \<Longrightarrow> p ! 23 = 17 \<Longrightarrow> 14 + 4 * unat (p ! 14 AND 0x0F) + 4 \<le> length p"
  shows "hisf_recv (recv_deliver ci cm) a p flen f =
    (if \<not> accepts (my_ip_bytes a) p then Some (if is_ipv4 p \<and> p ! 23 = 17 then 0 else DISCARD_PACKET, f)
     else if \<forall>s \<in> set (sessions f). wants p ''lo'' s \<longrightarrow> ready s
     then Some (int (length (filter (wants p ''lo'') (sessions f))),
           f\<lparr>sessions := map (\<lambda>s. if wants p ''lo'' s then delivered ci cm p flen s else s) (sessions f)\<rparr>)
     else None)"
  using assms by (rule receive_path)

theorem receive_path_delivers_witness:
  "\<exists>f'. hisf_recv (recv_deliver (\<lambda>p n r. (if r = 0 then 0 else - 12, Suc r)) id) 0x0100a8c0
      (replicate 6 255 @ replicate 6 2 @ [8, 0, 0x45] @ replicate 8 0 @ [17] @ replicate 18 255) 42
      \<lparr>sessions = demo_sessions, console = ''''\<rparr> = Some (2, f')
    \<and> received (sessions f' ! 2) = 1"
proof -
  define fr where "fr = replicate 6 255 @ replicate 6 2 @ [8, 0, 0x45] @ replicate 8 0 @ [17]
    @ replicate 18 (255 :: u8)"
  have fr: "length fr = 42" "take 6 fr = replicate 6 255" "take 6 (drop 6 fr) = replicate 6 2"
    "fr ! 12 = 8" "fr ! 13 = 0" "fr ! 14 = 0x45" "fr ! 23 = 17"
    by (simp_all add: fr_def nth_append)
  have dst: "take 4 (drop 30 fr) = [255, 255, 255, 255]"
    by (simp add: fr_def) (simp add: numeral_eq_Suc)
  have acc: "accepts (my_ip_bytes 0x0100a8c0) fr"
    by (simp add: accepts_def is_ipv4_def fr dst)
  have d: "distinct (map s_addr demo_sessions)" "length demo_sessions < 2 ^ 31"
    "rx_ring (demo_sessions ! 2) = Some 0" "head_chunk (demo_sessions ! 2) = Some demo_info" "length demo_sessions = 3" "num_rx demo_info = 0"
    by (simp_all add: demo_sessions_def demo_info_def)
  have w: "filter (wants fr ''lo'') demo_sessions = [demo_sessions ! 0, demo_sessions ! 2]"
    "wants fr ''lo'' (demo_sessions ! 2)"
    by (simp_all add: wants_def demo_sessions_def fr replicate_eq_replicate)
  show ?thesis
    using receive_path_delivers [of fr 42 "\<lparr>sessions = demo_sessions, console = ''''\<rparr>"
        "\<lambda>p n r. (if r = 0 then 0 else - 12, Suc r)" id "0x0100a8c0"] fr acc d w demo_ready [of fr "''lo''"]
    unfolding fr_def [symmetric] by (simp add: delivered_def deliver_def received_def all_ready_def)
qed

text \<open>
  C1: from the registers to the clients: when the receive interrupt handler runs with a frame waiting,
  an accepted frame has reached exactly the sessions that want it when the handler returns, any other
  frame has left them as they were, and in both cases the controller is armed again with the receive
  buffer. The handler stays within the defined behaviour of its code unless a session that wants an accepted
  frame has no ring or chunk, which makes it dereference a null pointer.
\<close>

theorem interrupt_reaches_clients:
  assumes "irq_device e ld \<alpha>" and "cur_dev s = Some ld" and "m = \<alpha> (bus (mii s))"
    and "m (iobase_phys ld + GLB_RO_IRQ_STAT) AND HIETH_INT_RX_RDY ld \<noteq> 0"
    and "flen = field_get BITS_RXPKG_LEN (m (iobase_phys ld + GLB_RO_IQFRM_DES ld))"
    and "p = env_rxbuf e (bus (mii s))"
    and "42 \<le> length p" and "14 \<le> unat flen" and "distinct (map s_addr (sessions f))"
    and "length (sessions f) < 2 ^ 31"
    and "p ! 12 = 0x08 \<Longrightarrow> p ! 13 = 0 \<Longrightarrow> p ! 23 = 17 \<Longrightarrow> 14 + 4 * unat (p ! 14 AND 0x0F) + 4 \<le> length p"
  shows "if accepts (my_ip_bytes a) p \<and> (\<exists>s \<in> set (sessions f). wants p ''lo'' s \<and> \<not> ready s)
    then irq_handler e (hisf_recv (recv_deliver ci cm) a) (s, f) = None
    else \<exists>d. irq_handler e (hisf_recv (recv_deliver ci cm) a) (s, f) =
      Some (s\<lparr>mii := mii s\<lparr>bus := d\<rparr>\<rparr>,
        if accepts (my_ip_bytes a) p
        then f\<lparr>sessions := map (\<lambda>s. if wants p ''lo'' s then delivered ci cm p flen s else s) (sessions f)\<rparr> else f) \<and>
    \<alpha> d = rearmed ld (rx_buf_phys s) m"
  using irq_handler_run [OF assms(1,2), of "hisf_recv (recv_deliver ci cm) a" f] assms(3-6)
    receive_path [OF assms(7-11), of ci cm a]
  by (auto split: if_splits)

text \<open>A broadcast UDP frame in the receive buffer of the upper port, and three sessions.\<close>

definition demo_udp :: bytes where
  "demo_udp = replicate 6 255 @ replicate 6 2 @ [8, 0, 0x45] @ replicate 8 0 @ [17] @ replicate 18 255"

theorem interrupt_reaches_clients_witness:
  "(\<exists>s' f'. irq_handler (irq_env (demo_port UP_PORT) demo_udp)
       (hisf_recv (recv_deliver (\<lambda>p n r. (if r = 0 then 0 else - 12, Suc r)) id) 0x0100a8c0)
       (demo_drv demo_regs, \<lparr>sessions = demo_sessions, console = ''''\<rparr>) = Some (s', f'))
   \<and> irq_handler (irq_env (demo_port UP_PORT) demo_udp)
       (hisf_recv (recv_deliver (\<lambda>p n r. (if r = 0 then 0 else - 12, Suc r)) id) 0x0100a8c0)
       (demo_drv demo_regs, \<lparr>sessions = [(demo_sessions ! 0)\<lparr>rx_ring := None\<rparr>], console = ''''\<rparr>) = None"
proof -
  let ?ld = "demo_port UP_PORT"
  have c: "cur_dev (demo_drv demo_regs) = Some ?ld" "bus (mii (demo_drv demo_regs)) = demo_regs"
    by (simp_all add: cur_dev_def demo_drv_def demo_mii_def)
  have n: "demo_regs (iobase_phys ?ld + GLB_RO_IRQ_STAT) AND HIETH_INT_RX_RDY ?ld \<noteq> 0"
    by (simp add: demo_regs_def demo_port_def HIETH_INT_RX_RDY_def reg_map)
  have l: "field_get BITS_RXPKG_LEN (demo_regs (iobase_phys ?ld + GLB_RO_IQFRM_DES ?ld)) = 60"
    by (simp add: demo_regs_def demo_port_def reg_map BITS_RXPKG_LEN_def field_get_def bits_mask_def bits_shift_def MK_BITS_def)
  have p: "length demo_udp = 42" "demo_udp ! 14 = 0x45" by (simp_all add: demo_udp_def nth_append)
  have b: "env_rxbuf (irq_env ?ld demo_udp) x = demo_udp" for x by (simp add: irq_env_def)
  have dst: "take 4 (drop 30 demo_udp) = [255, 255, 255, 255]" by (simp add: demo_udp_def) (simp add: numeral_eq_Suc)
  have acc: "accepts (my_ip_bytes 0x0100a8c0) demo_udp"
    by (simp add: accepts_def is_ipv4_def dst) (simp add: demo_udp_def nth_append)
  let ?bad = "[(demo_sessions ! 0)\<lparr>rx_ring := None\<rparr>]"
  have w: "wants demo_udp ''lo'' (hd ?bad)" "\<not> ready (hd ?bad)"
    by (simp_all add: wants_def ready_def demo_sessions_def demo_udp_def replicate_eq_replicate)
  have ok: "(\<exists>s \<in> set demo_sessions. wants demo_udp ''lo'' s \<and> \<not> ready s) = False"
    using demo_ready [of demo_udp "''lo''"] by (auto simp: all_ready_def)
  have d: "distinct (map s_addr demo_sessions)" "length demo_sessions < 2 ^ 31" "distinct (map s_addr ?bad)" "length ?bad < 2 ^ 31"
    by (simp_all add: demo_sessions_def)
  note run = interrupt_reaches_clients [OF irq_env_device [of ?ld demo_udp] c(1) refl _ refl refl,
        of "\<lparr>sessions = ss, console = ''''\<rparr>" "0x0100a8c0" "\<lambda>p n r. (if r = 0 then 0 else - 12, Suc r)" id for ss]
  show ?thesis
  proof
    show "\<exists>s' f'. irq_handler (irq_env ?ld demo_udp) (hisf_recv (recv_deliver (\<lambda>p n r. (if r = 0 then 0 else - 12, Suc r)) id) 0x0100a8c0)
        (demo_drv demo_regs, \<lparr>sessions = demo_sessions, console = ''''\<rparr>) = Some (s', f')"
      using run [of demo_sessions] n l p d ok by (auto simp: c b)
    show "irq_handler (irq_env ?ld demo_udp) (hisf_recv (recv_deliver (\<lambda>p n r. (if r = 0 then 0 else - 12, Suc r)) id) 0x0100a8c0)
        (demo_drv demo_regs, \<lparr>sessions = ?bad, console = ''''\<rparr>) = None"
      using run [of ?bad] n l p d w acc by (auto simp: c b)
  qed
qed

end
